(* ===== verification/RT_Prelude.thy ===== *)
theory RT_Prelude
  imports Main "HOL-Library.Word" "HOL-Library.Monad_Syntax" "HOL-Library.Multiset"
begin

text \<open>
  Shared vocabulary of the development: the widths of the C types on the 32-bit
  target, the error codes and flag masks of \<open>include/rtdef.h\<close>, \<open>RT_ASSERT\<close> as a
  partial operation, the alignment macros, and the generic lemmas on lists, options
  and words that several components use.
\<close>

unbundle bit_operations_syntax

section \<open>Automation\<close>

named_theorems rt_defs \<open>definitions of operations that are unfolded by the component proofs\<close>
named_theorems rt_frame \<open>fields an operation does not change\<close>
named_theorems rt_bits \<open>how the flag and status masks act on a word\<close>

section \<open>Types\<close>

type_synonym u8 = "8 word"
type_synonym u16 = "16 word"
type_synonym u32 = "32 word"

text \<open>\<open>rt_err_t\<close> is a signed machine word; only the codes below and their
  negations ever occur, so it is read as an integer.\<close>

type_synonym rt_err_t = int
type_synonym rt_tick_t = u32

section \<open>Error codes\<close>

abbreviation (input) RT_EOK :: rt_err_t where "RT_EOK \<equiv> 0"
abbreviation (input) RT_ERROR :: rt_err_t where "RT_ERROR \<equiv> 1"
abbreviation (input) RT_ETIMEOUT :: rt_err_t where "RT_ETIMEOUT \<equiv> 2"
abbreviation (input) RT_EFULL :: rt_err_t where "RT_EFULL \<equiv> 3"
abbreviation (input) RT_EEMPTY :: rt_err_t where "RT_EEMPTY \<equiv> 4"
abbreviation (input) RT_ENOMEM :: rt_err_t where "RT_ENOMEM \<equiv> 5"
abbreviation (input) RT_ENOSYS :: rt_err_t where "RT_ENOSYS \<equiv> 6"
abbreviation (input) RT_EBUSY :: rt_err_t where "RT_EBUSY \<equiv> 7"
abbreviation (input) RT_EIO :: rt_err_t where "RT_EIO \<equiv> 8"
abbreviation (input) RT_EINTR :: rt_err_t where "RT_EINTR \<equiv> 9"
abbreviation (input) RT_EINVAL :: rt_err_t where "RT_EINVAL \<equiv> 10"

section \<open>Assertions\<close>

text \<open>
  \<open>RT_DEBUG\<close> is set in \<open>rtconfig.h\<close>, so \<open>RT_ASSERT\<close> is live: with no hook installed
  \<open>rt_assert_handler\<close> prints a message and spins for ever. An operation that can
  hit an assertion has an option result; \<open>None\<close> is "the system stopped in an
  assertion", a call that never returns.
\<close>

definition rt_assert :: "bool \<Rightarrow> unit option" where
  "rt_assert b = (if b then Some () else None)"

lemma rt_assert_simps [simp]:
  "rt_assert True = Some ()" "rt_assert False = None"
  "(rt_assert b = Some x) = b" "(rt_assert b = None) = (\<not> b)"
  by (auto simp: rt_assert_def)

lemma bind_rt_assert [simp]:
  "Option.bind (rt_assert b) f = Some y \<longleftrightarrow> b \<and> f () = Some y"
  by (auto simp: rt_assert_def)

section \<open>Alignment\<close>

text \<open>\<open>RT_ALIGN(size, align)\<close> and \<open>RT_ALIGN_DOWN(size, align)\<close> on the 32-bit word type.\<close>

definition RT_ALIGN :: "u32 \<Rightarrow> u32 \<Rightarrow> u32" where
  "RT_ALIGN sz align = (sz + align - 1) AND NOT (align - 1)"

definition RT_ALIGN_DOWN :: "u32 \<Rightarrow> u32 \<Rightarrow> u32" where
  "RT_ALIGN_DOWN sz align = sz AND NOT (align - 1)"

abbreviation (input) RT_ALIGN_SIZE :: u32 where "RT_ALIGN_SIZE \<equiv> 8"

lemma and_not_mask_unat:
  fixes w :: "'a::len word"
  shows "unat (w AND NOT (mask n)) = unat w div 2 ^ n * 2 ^ n"
proof -
  have "w AND NOT (mask n) = push_bit n (drop_bit n w)"
    by (rule bit_eqI) (auto simp: bit_simps)
  moreover have "unat (push_bit n (drop_bit n w)) = unat w div 2 ^ n * 2 ^ n"
  proof -
    have "unat w div 2 ^ n * 2 ^ n \<le> unat w" by simp
    then have lt: "unat w div 2 ^ n * 2 ^ n < 2 ^ LENGTH('a)"
      using unsigned_less [of w] by (meson le_less_trans)
    have "unat (push_bit n (drop_bit n w)) = take_bit LENGTH('a) (push_bit n (unat (drop_bit n w)))"
      by (simp add: unsigned_push_bit_eq)
    also have "\<dots> = take_bit LENGTH('a) (push_bit n (unat w div 2 ^ n))"
      by (simp only: unat_drop_bit_eq [of n w] drop_bit_eq_div [where 'a = nat])
    also have "\<dots> = push_bit n (unat w div 2 ^ n)"
      using lt by (simp add: push_bit_eq_mult take_bit_nat_eq_self)
    finally show ?thesis by (simp add: push_bit_eq_mult)
  qed
  ultimately show ?thesis by simp
qed

lemma RT_ALIGN_DOWN_unat: "unat (RT_ALIGN_DOWN w 8) = unat w div 8 * 8"
  using and_not_mask_unat [of w 3] by (simp add: RT_ALIGN_DOWN_def mask_eq_exp_minus_1)

lemma RT_ALIGN_unat:
  assumes "unat w + 7 < 2 ^ 32"
  shows "unat (RT_ALIGN w 8) = (unat w + 7) div 8 * 8"
proof -
  have "unat (w + 7) = unat w + 7"
    using assms by (simp add: unat_word_ariths)
  then show ?thesis
    using and_not_mask_unat [of "w + 7" 3]
    by (simp add: RT_ALIGN_def mask_eq_exp_minus_1 add.commute)
qed

section \<open>Lists\<close>

text \<open>Writing a block into a list at an offset: what \<open>memcpy\<close> does to the target
  when the block fits.\<close>

definition blit :: "'a list \<Rightarrow> nat \<Rightarrow> 'a list \<Rightarrow> 'a list" where
  "blit xs i ys = take i xs @ ys @ drop (i + length ys) xs"

lemma length_blit [simp]: "i + length ys \<le> length xs \<Longrightarrow> length (blit xs i ys) = length xs"
  by (simp add: blit_def)

lemma blit_Nil [simp]: "blit xs i [] = xs"
  by (simp add: blit_def)

lemma nth_blit:
  assumes "i + length ys \<le> length xs" and "k < length xs"
  shows "blit xs i ys ! k = (if i \<le> k \<and> k < i + length ys then ys ! (k - i) else xs ! k)"
  using assms by (auto simp: blit_def nth_append)

lemma take_blit: "i + length ys \<le> length xs \<Longrightarrow> j \<le> i \<Longrightarrow> take j (blit xs i ys) = take j xs"
  by (auto simp: blit_def min_def)

lemma drop_blit:
  "i + length ys \<le> length xs \<Longrightarrow> i + length ys \<le> j \<Longrightarrow> drop j (blit xs i ys) = drop j xs"
  by (simp add: blit_def)

lemma remove1_notin [simp]: "x \<notin> set xs \<Longrightarrow> removeAll x xs = xs"
  by (rule removeAll_id)

lemma distinct_removeAll_set [simp]: "set (removeAll x xs) = set xs - {x}"
  by simp

section \<open>Chains of links\<close>

text \<open>The places that a chain of links runs through, from a first link to the null link.\<close>

fun chain :: "(nat \<Rightarrow> nat option) \<Rightarrow> nat option \<Rightarrow> nat list \<Rightarrow> bool" where
  "chain l p [] \<longleftrightarrow> p = None"
| "chain l p (s # ss) \<longleftrightarrow> p = Some s \<and> chain l (l s) ss"

lemma chain_None [simp]: "chain l None ss \<longleftrightarrow> ss = []"
  by (cases ss) simp_all

lemma chain_upd [simp]: "s \<notin> set ss \<Longrightarrow> chain (l(s := x)) p ss = chain l p ss"
  by (induction ss arbitrary: p) auto

lemma chain_unique: "chain l p ss \<Longrightarrow> chain l p ss' \<Longrightarrow> ss = ss'"
proof (induction ss arbitrary: p ss')
  case (Cons s ss)
  then show ?case by (cases ss') auto
qed simp

text \<open>Linking a slot behind the last one.\<close>

lemma chain_append:
  "chain l p (ss @ [t]) \<Longrightarrow> distinct (ss @ [t]) \<Longrightarrow> s \<notin> set (ss @ [t]) \<Longrightarrow>
     chain (l(s := None, t := Some s)) p (ss @ [t, s])"
  by (induction ss arbitrary: p) auto

end
