(* ===== verification/RT_List.thy ===== *)
theory RT_List
  imports RT_Prelude
begin

text \<open>
  \<open>include/rtservice.h\<close>: the intrusive circular doubly-linked list on which every
  queue of the kernel is built, on a memory of list nodes, and its abstraction: a
  memory that holds a family of disjoint lists refines a function from list heads to
  HOL lists. The kernel theories work on that function; the lemmas here are what
  justifies it. The singly-linked list of the same header is at the end.
\<close>

section \<open>Nodes and memory\<close>

record 'p rt_list_node =
  lnext :: 'p
  lprev :: 'p

type_synonym 'p list_mem = "'p \<Rightarrow> 'p rt_list_node"

definition set_next :: "'p \<Rightarrow> 'p \<Rightarrow> 'p list_mem \<Rightarrow> 'p list_mem" where
  "set_next p v m = m(p := (m p)\<lparr>lnext := v\<rparr>)"

definition set_prev :: "'p \<Rightarrow> 'p \<Rightarrow> 'p list_mem \<Rightarrow> 'p list_mem" where
  "set_prev p v m = m(p := (m p)\<lparr>lprev := v\<rparr>)"

lemma next_set_next [simp]: "lnext (set_next p v m q) = (if q = p then v else lnext (m q))"
  by (simp add: set_next_def)

lemma next_set_prev [simp]: "lnext (set_prev p v m q) = lnext (m q)"
  by (simp add: set_prev_def)

lemma prev_set_prev [simp]: "lprev (set_prev p v m q) = (if q = p then v else lprev (m q))"
  by (simp add: set_prev_def)

lemma prev_set_next [simp]: "lprev (set_next p v m q) = lprev (m q)"
  by (simp add: set_next_def)

section \<open>Operations\<close>

definition rt_list_init :: "'p \<Rightarrow> 'p list_mem \<Rightarrow> 'p list_mem" where
  "rt_list_init l m = set_next l l (set_prev l l m)"

definition rt_list_insert_after :: "'p \<Rightarrow> 'p \<Rightarrow> 'p list_mem \<Rightarrow> 'p list_mem" where
  "rt_list_insert_after l n m =
     (let m = set_prev (lnext (m l)) n m;
          m = set_next n (lnext (m l)) m;
          m = set_next l n m
      in set_prev n l m)"

definition rt_list_insert_before :: "'p \<Rightarrow> 'p \<Rightarrow> 'p list_mem \<Rightarrow> 'p list_mem" where
  "rt_list_insert_before l n m =
     (let m = set_next (lprev (m l)) n m;
          m = set_prev n (lprev (m l)) m;
          m = set_prev l n m
      in set_next n l m)"

definition rt_list_remove :: "'p \<Rightarrow> 'p list_mem \<Rightarrow> 'p list_mem" where
  "rt_list_remove n m =
     (let m = set_prev (lnext (m n)) (lprev (m n)) m;
          m = set_next (lprev (m n)) (lnext (m n)) m;
          m = set_prev n n m
      in set_next n (lprev (m n)) m)"

definition rt_list_isempty :: "'p \<Rightarrow> 'p list_mem \<Rightarrow> bool" where
  "rt_list_isempty l m \<longleftrightarrow> lnext (m l) = l"

text \<open>The counting loop of \<open>rt_list_len\<close>; it does not end on a list that never comes
  back to \<open>l\<close>, so its result is optional.\<close>

partial_function (option) rt_list_len_from :: "'p list_mem \<Rightarrow> 'p \<Rightarrow> 'p \<Rightarrow> u32 \<Rightarrow> u32 option" where
  "rt_list_len_from m l p len =
     (if lnext (m p) \<noteq> l then rt_list_len_from m l (lnext (m p)) (len + 1) else Some len)"

definition rt_list_len :: "'p \<Rightarrow> 'p list_mem \<Rightarrow> u32 option" where
  "rt_list_len l m = rt_list_len_from m l l 0"

section \<open>Circular lists\<close>

text \<open>\<open>dseg m a xs b\<close>: from \<open>a\<close>, the nodes \<open>xs\<close> in order, then \<open>b\<close>, linked both ways.\<close>

fun dseg :: "'p list_mem \<Rightarrow> 'p \<Rightarrow> 'p list \<Rightarrow> 'p \<Rightarrow> bool" where
  "dseg m a [] b = (lnext (m a) = b \<and> lprev (m b) = a)"
| "dseg m a (x # xs) b = (lnext (m a) = x \<and> lprev (m x) = a \<and> dseg m x xs b)"

definition circ :: "'p list_mem \<Rightarrow> 'p \<Rightarrow> 'p list \<Rightarrow> bool" where
  "circ m h xs \<longleftrightarrow> distinct (h # xs) \<and> dseg m h xs h"

lemma dseg_append [simp]:
  "dseg m a (xs @ y # ys) b \<longleftrightarrow> dseg m a xs y \<and> dseg m y ys b"
  by (induction xs arbitrary: a) auto

lemma dseg_cong:
  assumes "\<And>q. q = a \<or> q \<in> set xs \<Longrightarrow> lnext (m' q) = lnext (m q)"
    and "\<And>q. q = b \<or> q \<in> set xs \<Longrightarrow> lprev (m' q) = lprev (m q)"
  shows "dseg m' a xs b = dseg m a xs b"
  using assms by (induction xs arbitrary: a) auto

lemma dseg_set_next_out: "p \<noteq> a \<Longrightarrow> p \<notin> set xs \<Longrightarrow> dseg (set_next p v m) a xs b = dseg m a xs b"
  by (rule dseg_cong) auto

lemma dseg_set_prev_out: "p \<noteq> b \<Longrightarrow> p \<notin> set xs \<Longrightarrow> dseg (set_prev p v m) a xs b = dseg m a xs b"
  by (rule dseg_cong) auto

lemma dseg_next_hd: "dseg m a xs b \<Longrightarrow> lnext (m a) = hd (xs @ [b])"
  by (cases xs) auto

lemma dseg_prev_last: "dseg m a xs b \<Longrightarrow> lprev (m b) = last (a # xs)"
  by (induction xs arbitrary: a) auto

lemma circ_frame:
  assumes "\<And>q. q \<in> set (h # xs) \<Longrightarrow> m' q = m q"
  shows "circ m' h xs = circ m h xs"
  unfolding circ_def using assms by (intro conj_cong refl dseg_cong) auto

subsection \<open>Initialisation and emptiness\<close>

lemma circ_init: "circ (rt_list_init l m) l []"
  by (simp add: circ_def rt_list_init_def)

lemma rt_list_isempty_circ: "circ m l xs \<Longrightarrow> rt_list_isempty l m \<longleftrightarrow> xs = []"
  by (cases xs) (auto simp: circ_def rt_list_isempty_def)

lemma circ_next: "circ m l (x # xs) \<Longrightarrow> lnext (m l) = x"
  by (simp add: circ_def)

subsection \<open>Insertion\<close>

text \<open>After any node of a circular list, the head included.\<close>

lemma insert_after_fields:
  "lnext (rt_list_insert_after p n m q) =
     (if q = p then n else if q = n then lnext (m p) else lnext (m q))"
  "lprev (rt_list_insert_after p n m q) =
     (if q = n then p else if q = lnext (m p) then n else lprev (m q))"
  by (simp_all add: rt_list_insert_after_def Let_def)

lemma insert_before_fields:
  "lnext (rt_list_insert_before p n m q) =
     (if q = n then p else if q = lprev (m p) then n else lnext (m q))"
  "lprev (rt_list_insert_before p n m q) =
     (if q = p then n else if q = n then lprev (m p) else lprev (m q))"
  by (simp_all add: rt_list_insert_before_def Let_def)

lemma remove_fields:
  assumes "lnext (m n) \<noteq> n" "lprev (m n) \<noteq> n"
  shows "lnext (rt_list_remove n m q) =
      (if q = n then n else if q = lprev (m n) then lnext (m n) else lnext (m q))"
    "lprev (rt_list_remove n m q) =
      (if q = n then n else if q = lnext (m n) then lprev (m n) else lprev (m q))"
  using assms by (simp_all add: rt_list_remove_def Let_def)

lemma node_eqI: "lnext a = lnext b \<Longrightarrow> lprev a = lprev b \<Longrightarrow> a = (b :: 'p rt_list_node)"
  by simp

lemma insert_after_outside:
  "q \<noteq> p \<Longrightarrow> q \<noteq> n \<Longrightarrow> q \<noteq> lnext (m p) \<Longrightarrow> rt_list_insert_after p n m q = m q"
  by (rule node_eqI) (simp_all add: insert_after_fields)

lemma insert_before_outside:
  "q \<noteq> p \<Longrightarrow> q \<noteq> n \<Longrightarrow> q \<noteq> lprev (m p) \<Longrightarrow> rt_list_insert_before p n m q = m q"
  by (rule node_eqI) (simp_all add: insert_before_fields)

lemma remove_outside:
  "q \<noteq> n \<Longrightarrow> q \<noteq> lnext (m n) \<Longrightarrow> q \<noteq> lprev (m n) \<Longrightarrow> rt_list_remove n m q = m q"
  by (simp add: rt_list_remove_def Let_def set_next_def set_prev_def)

lemma dseg_insert_after:
  assumes "dseg m p ys b" "n \<notin> set ys" "n \<noteq> p" "n \<noteq> b" "p \<notin> set ys" "b \<notin> set ys" "distinct ys"
  shows "dseg (rt_list_insert_after p n m) p (n # ys) b"
proof (cases ys)
  case Nil
  then show ?thesis using assms by (auto simp: insert_after_fields)
next
  case (Cons y zs)
  then have "dseg (rt_list_insert_after p n m) y zs b = dseg m y zs b"
    using assms by (intro dseg_cong) (auto simp: insert_after_fields)
  then show ?thesis using Cons assms by (auto simp: insert_after_fields)
qed

lemma circ_insert_after_head:
  assumes "circ m h xs" "n \<notin> set (h # xs)"
  shows "circ (rt_list_insert_after h n m) h (n # xs)"
  using assms dseg_insert_after [of m h xs h n] by (auto simp: circ_def)

lemma circ_insert_after:
  assumes "circ m h (xs @ p # ys)" "n \<notin> set (h # xs @ p # ys)"
  shows "circ (rt_list_insert_after p n m) h (xs @ p # n # ys)"
proof -
  have 1: "dseg m h xs p" "dseg m p ys h" and d: "distinct (h # xs @ p # ys)"
    using assms(1) by (auto simp: circ_def)
  have nx: "lnext (m p) = hd (ys @ [h])" using 1(2) by (rule dseg_next_hd)
  have "lnext (m p) \<notin> set xs" "lnext (m p) \<noteq> p" using d by (cases ys; auto simp: nx)+
  then have "dseg (rt_list_insert_after p n m) h xs p = dseg m h xs p"
    using d assms(2) by (intro dseg_cong) (auto simp: insert_after_fields)
  with 1(1) have "dseg (rt_list_insert_after p n m) h xs p" by simp
  moreover have "dseg (rt_list_insert_after p n m) p (n # ys) h"
    using 1(2) d assms(2) by (intro dseg_insert_after) auto
  ultimately show ?thesis using d assms(2) by (auto simp: circ_def)
qed

text \<open>Before a node is after its predecessor.\<close>

lemma insert_before_after:
  assumes "circ m h xs" "p \<in> set (h # xs)" "n \<notin> set (h # xs)"
  shows "rt_list_insert_before p n m = rt_list_insert_after (lprev (m p)) n m"
    (is "_ = rt_list_insert_after ?q n m")
proof -
  have q: "lnext (m ?q) = p" "?q \<noteq> n" "p \<noteq> n"
  proof -
    show "p \<noteq> n" using assms(2,3) by auto
    have "lnext (m ?q) = p \<and> ?q \<in> set (h # xs)"
    proof (cases "p = h")
      case True
      have *: "dseg m h xs h" using assms(1) by (simp add: circ_def)
      show ?thesis
      proof (cases xs rule: rev_cases)
        case (snoc ys y)
        then show ?thesis using * True by auto
      qed (use * True in simp)
    next
      case False
      then obtain ys zs where xs: "xs = ys @ p # zs"
        using assms(2) by (auto dest: split_list)
      then have *: "dseg m h ys p" using assms(1) by (simp add: circ_def)
      show ?thesis
        using * xs by (cases ys rule: rev_cases) auto
    qed
    then show "lnext (m ?q) = p" "?q \<noteq> n" using assms(3) by auto
  qed
  show ?thesis
    by (intro ext node_eqI) (use q in \<open>auto simp: insert_after_fields insert_before_fields\<close>)
qed

lemma circ_insert_before_head:
  assumes "circ m h xs" "n \<notin> set (h # xs)"
  shows "circ (rt_list_insert_before h n m) h (xs @ [n])"
proof -
  have *: "lprev (m h) = last (h # xs)"
    using assms(1) by (intro dseg_prev_last) (simp add: circ_def)
  show ?thesis
  proof (cases xs rule: rev_cases)
    case Nil
    then show ?thesis
      using assms insert_before_after [OF assms(1) _ assms(2), of h] circ_insert_after_head [OF assms] *
      by simp
  next
    case (snoc ys y)
    then show ?thesis
      using assms insert_before_after [OF assms(1) _ assms(2), of h] *
        circ_insert_after [of m h ys y "[]" n] by simp
  qed
qed

lemma circ_insert_before:
  assumes "circ m h (xs @ p # ys)" "n \<notin> set (h # xs @ p # ys)"
  shows "circ (rt_list_insert_before p n m) h (xs @ n # p # ys)"
proof -
  have "dseg m h xs p" using assms(1) by (simp add: circ_def)
  then have *: "lprev (m p) = last (h # xs)" by (rule dseg_prev_last)
  have eq: "rt_list_insert_before p n m = rt_list_insert_after (lprev (m p)) n m"
    using assms by (intro insert_before_after [of m h "xs @ p # ys"]) auto
  show ?thesis
  proof (cases xs rule: rev_cases)
    case Nil
    then show ?thesis using circ_insert_after_head [OF assms] eq * by simp
  next
    case (snoc zs z)
    then show ?thesis using circ_insert_after [of m h zs z "p # ys" n] assms eq * by simp
  qed
qed

subsection \<open>Removal\<close>

text \<open>The node leaves its list and is left as an empty list of its own.\<close>

lemma circ_remove:
  assumes "circ m h (xs @ n # ys)"
  shows "circ (rt_list_remove n m) h (xs @ ys)" "circ (rt_list_remove n m) n []"
proof -
  have 1: "dseg m h xs n" "dseg m n ys h" and d: "distinct (h # xs @ n # ys)"
    using assms by (auto simp: circ_def)
  have nx: "lnext (m n) = hd (ys @ [h])" using 1(2) by (rule dseg_next_hd)
  have pv: "lprev (m n) = last (h # xs)" using 1(1) by (rule dseg_prev_last)
  let ?m = "rt_list_remove n m"
  have ne: "lnext (m n) \<noteq> n" using d nx by (cases ys) auto
  have ne': "lprev (m n) \<noteq> n" using d pv by (cases xs rule: rev_cases) auto
  have r: "lnext (?m q) = (if q = n then n else if q = lprev (m n) then lnext (m n) else lnext (m q))"
    "lprev (?m q) = (if q = n then n else if q = lnext (m n) then lprev (m n) else lprev (m q))" for q
    using ne ne' by (simp_all add: remove_fields)
  show "circ ?m n []" by (simp add: circ_def r)
  have "dseg ?m h (xs @ ys) h"
  proof (cases ys)
    case Nil
    then have nh: "lnext (m n) = h" using nx by simp
    show ?thesis
    proof (cases xs rule: rev_cases)
      case Nil
      then show ?thesis using \<open>ys = []\<close> d pv nh by (simp add: r)
    next
      case (snoc zs z)
      then have "dseg m h zs z" "lprev (m n) = z" using 1(1) pv by auto
      moreover have "dseg ?m h zs z = dseg m h zs z"
        using d snoc nh \<open>lprev (m n) = z\<close> by (intro dseg_cong) (auto simp: r)
      ultimately show ?thesis using \<open>ys = []\<close> snoc nh d by (simp add: r)
    qed
  next
    case (Cons y ys')
    then have ny: "lnext (m n) = y" using nx by simp
    have tail: "dseg ?m y ys' h"
    proof -
      have "dseg m y ys' h" using 1(2) Cons by simp
      moreover have "lprev (m n) \<noteq> y" "lprev (m n) \<notin> set ys'"
        using d Cons by (cases xs rule: rev_cases; auto simp: pv)+
      moreover have "dseg ?m y ys' h = dseg m y ys' h"
        using calculation(2,3) d Cons ny by (intro dseg_cong) (auto simp: r)
      ultimately show ?thesis by simp
    qed
    have "dseg ?m h xs y"
    proof (cases xs rule: rev_cases)
      case Nil
      then show ?thesis using d pv ny Cons by (auto simp: r)
    next
      case (snoc zs z)
      then have "dseg m h zs z" "lprev (m n) = z" using 1(1) pv by auto
      moreover have "dseg ?m h zs z = dseg m h zs z"
        using d snoc ny Cons \<open>lprev (m n) = z\<close> by (intro dseg_cong) (auto simp: r)
      ultimately show ?thesis using snoc ny d Cons by (auto simp: r)
    qed
    with tail show ?thesis using Cons by simp
  qed
  then show "circ ?m h (xs @ ys)" using d by (auto simp: circ_def)
qed

lemma circ_remove_single: "circ m n [] \<Longrightarrow> rt_list_remove n m = m"
  by (auto simp: circ_def rt_list_remove_def Let_def fun_eq_iff set_next_def set_prev_def)

subsection \<open>Length\<close>

lemma rt_list_len_from_dseg:
  "dseg m p xs l \<Longrightarrow> l \<notin> set xs \<Longrightarrow> rt_list_len_from m l p len = Some (len + of_nat (length xs))"
proof (induction xs arbitrary: p len)
  case Nil
  then show ?case by (simp add: rt_list_len_from.simps)
next
  case (Cons x xs)
  then show ?case by (subst rt_list_len_from.simps) (auto simp: algebra_simps)
qed

lemma rt_list_len_circ: "circ m l xs \<Longrightarrow> rt_list_len l m = Some (of_nat (length xs))"
  by (auto simp: circ_def rt_list_len_def rt_list_len_from_dseg)

section \<open>Families of lists\<close>

text \<open>
  The addresses the kernel links together are list heads (a ready-queue slot, the
  wait list of an IPC object, a timer list) and the list nodes embedded in objects.
  A memory is a family \<open>Q\<close> of lists when every head's circle holds the nodes of its
  list, no node is in two lists, and a node in no list is a circle of its own, as
  \<open>rt_list_init\<close> and \<open>rt_list_remove\<close> leave it.
\<close>

datatype ('h, 'n) lnode = Head 'h | Node 'n

definition disjoint_lists :: "('h \<Rightarrow> 'n list) \<Rightarrow> bool" where
  "disjoint_lists Q \<longleftrightarrow>
     (\<forall>h. distinct (Q h)) \<and> (\<forall>h h'. h \<noteq> h' \<longrightarrow> set (Q h) \<inter> set (Q h') = {})"

definition detached :: "('h \<Rightarrow> 'n list) \<Rightarrow> 'n \<Rightarrow> bool" where
  "detached Q n \<longleftrightarrow> (\<forall>h. n \<notin> set (Q h))"

definition fam :: "('h, 'n) lnode list_mem \<Rightarrow> ('h \<Rightarrow> 'n list) \<Rightarrow> bool" where
  "fam m Q \<longleftrightarrow>
     disjoint_lists Q \<and> (\<forall>h. circ m (Head h) (map Node (Q h)))
     \<and> (\<forall>n. detached Q n \<longrightarrow> circ m (Node n) [])"

subsection \<open>The operations on the family\<close>

definition q_insert_after :: "'h \<Rightarrow> 'n \<Rightarrow> ('h \<Rightarrow> 'n list) \<Rightarrow> ('h \<Rightarrow> 'n list)" where
  "q_insert_after h n Q = Q(h := n # Q h)"

definition q_insert_before :: "'h \<Rightarrow> 'n \<Rightarrow> ('h \<Rightarrow> 'n list) \<Rightarrow> ('h \<Rightarrow> 'n list)" where
  "q_insert_before h n Q = Q(h := Q h @ [n])"

definition q_remove :: "'n \<Rightarrow> ('h \<Rightarrow> 'n list) \<Rightarrow> ('h \<Rightarrow> 'n list)" where
  "q_remove n Q = (\<lambda>h. removeAll n (Q h))"

definition q_replace :: "'h \<Rightarrow> 'n list \<Rightarrow> ('h \<Rightarrow> 'n list) \<Rightarrow> ('h \<Rightarrow> 'n list)" where
  "q_replace h xs Q = Q(h := xs)"

lemmas q_defs = q_insert_after_def q_insert_before_def q_remove_def q_replace_def

lemma disjoint_lists_unique:
  "disjoint_lists Q \<Longrightarrow> n \<in> set (Q h) \<Longrightarrow> n \<in> set (Q h') \<Longrightarrow> h = h'"
  unfolding disjoint_lists_def by blast

lemma detached_remove [simp]: "detached (q_remove n Q) n"
  by (simp add: detached_def q_remove_def)

lemma disjoint_remove: "disjoint_lists Q \<Longrightarrow> disjoint_lists (q_remove n Q)"
  unfolding disjoint_lists_def q_remove_def by (auto simp: distinct_removeAll)

lemma q_remove_detached: "detached Q n \<Longrightarrow> q_remove n Q = Q"
  by (auto simp: detached_def q_remove_def removeAll_id fun_eq_iff)

lemma disjoint_insert:
  assumes "disjoint_lists Q" "detached Q n" "set xs = insert n (set (Q h))" "distinct xs"
  shows "disjoint_lists (Q(h := xs))"
proof -
  have d: "distinct (Q k)" and e: "k \<noteq> k' \<Longrightarrow> set (Q k) \<inter> set (Q k') = {}" and n: "n \<notin> set (Q k)" for k k'
    using assms(1,2) by (simp_all add: disjoint_lists_def detached_def)
  show ?thesis
    unfolding disjoint_lists_def
  proof (intro conjI allI impI)
    fix k show "distinct ((Q(h := xs)) k)" using d assms(4) by simp
  next
    fix k k' :: 'a assume "k \<noteq> k'"
    then show "set ((Q(h := xs)) k) \<inter> set ((Q(h := xs)) k') = {}"
      using e [of k k'] n [of k] n [of k'] assms(3) by (simp split: if_splits) blast
  qed
qed

lemma remove_from_one:
  assumes "disjoint_lists Q" "Q h = xs @ n # ys"
  shows "q_remove n Q = Q(h := xs @ ys)"
proof
  fix h'
  have "distinct (xs @ n # ys)" using assms unfolding disjoint_lists_def by metis
  moreover have "n \<notin> set (Q h')" if "h' \<noteq> h"
    using assms that disjoint_lists_unique [of Q n h h'] by auto
  ultimately show "q_remove n Q h' = (Q(h := xs @ ys)) h'"
    using assms(2) by (simp add: q_remove_def removeAll_id)
qed

subsection \<open>Refinement\<close>

text \<open>Changing one list leaves the circles of all the others alone.\<close>

lemma fam_update:
  assumes "fam m Q" "disjoint_lists (Q(h := xs))"
    and "circ m' (Head h) (map Node xs)"
    and "\<And>q. q \<notin> set (Head h # map Node (Q h)) \<Longrightarrow> q \<notin> Node ` N \<Longrightarrow> m' q = m q"
    and "\<And>n. n \<in> N \<Longrightarrow> detached Q n \<or> n \<in> set (Q h)"
    and "\<And>n. n \<in> N \<union> set (Q h) \<Longrightarrow> n \<notin> set xs \<Longrightarrow> circ m' (Node n) []"
  shows "fam m' (Q(h := xs))"
proof -
  have disj: "disjoint_lists Q" and c: "\<And>h. circ m (Head h) (map Node (Q h))"
    and d: "\<And>n. detached Q n \<Longrightarrow> circ m (Node n) []"
    using assms(1) by (auto simp: fam_def)
  have "circ m' (Head h') (map Node (Q h'))" if "h' \<noteq> h" for h'
  proof -
    have "m' q = m q" if q: "q \<in> set (Head h' # map Node (Q h'))" for q
    proof (rule assms(4))
      show "q \<notin> set (Head h # map Node (Q h))" and "q \<notin> Node ` N"
        using q \<open>h' \<noteq> h\<close> disjoint_lists_unique [OF disj, of _ h h'] assms(5)
        unfolding detached_def by fastforce+
    qed
    then show ?thesis using circ_frame [of "Head h'" "map Node (Q h')" m' m] c by blast
  qed
  moreover have "circ m' (Node n) []" if n: "detached (Q(h := xs)) n" for n
  proof (cases "n \<in> N \<union> set (Q h)")
    case True
    then show ?thesis using assms(6) n by (auto simp: detached_def split: if_splits)
  next
    case False
    then have "detached Q n" using n unfolding detached_def by (metis UnCI fun_upd_apply)
    moreover have "m' (Node n) = m (Node n)" using False by (intro assms(4)) auto
    ultimately show ?thesis using d [of n] circ_frame [of "Node n" "[]" m' m] by simp
  qed
  ultimately show ?thesis using assms(2,3) by (auto simp: fam_def)
qed

lemma circ_fam: "fam m Q \<Longrightarrow> circ m (Head h) (map Node (Q h))"
  by (simp add: fam_def)

lemma circ_fam_closed:
  assumes "fam m Q" "p \<in> set (Head h # map Node (Q h))"
  shows "lnext (m p) \<in> set (Head h # map Node (Q h))" "lprev (m p) \<in> set (Head h # map Node (Q h))"
proof -
  have c: "dseg m (Head h) (map Node (Q h)) (Head h)" (is "dseg m ?a ?xs ?a")
    using circ_fam [OF assms(1)] by (simp add: circ_def)
  have "lnext (m p) \<in> set (?a # ?xs) \<and> lprev (m p) \<in> set (?a # ?xs)"
  proof (cases "p = ?a")
    case True
    then show ?thesis using dseg_next_hd [OF c] dseg_prev_last [OF c]
      by (metis True hd_in_set last_in_set list.distinct(1) list.set_intros(1) hd_append2
          append_self_conv2 list.sel(1) list.set_intros(2))
  next
    case False
    then obtain ys zs where xs: "?xs = ys @ p # zs" using assms(2) by (auto dest: split_list)
    then have "dseg m ?a ys p" "dseg m p zs ?a" using c by auto
    then have "lnext (m p) = hd (zs @ [?a])" "lprev (m p) = last (?a # ys)"
      by (auto dest: dseg_next_hd dseg_prev_last)
    then show ?thesis unfolding xs by (cases zs; cases ys rule: rev_cases) auto
  qed
  then show "lnext (m p) \<in> set (?a # ?xs)" "lprev (m p) \<in> set (?a # ?xs)" by auto
qed

lemma fam_insert_before_head:
  assumes "fam m Q" "detached Q n"
  shows "fam (rt_list_insert_before (Head h) (Node n) m) (q_insert_before h n Q)"
  unfolding q_insert_before_def
proof (rule fam_update [OF assms(1), where N = "{n}"])
  have dd: "disjoint_lists Q" using assms(1) by (simp add: fam_def)
  then show "disjoint_lists (Q(h := Q h @ [n]))"
    using assms(2) by (intro disjoint_insert) (auto simp: disjoint_lists_def detached_def)
  show "circ (rt_list_insert_before (Head h) (Node n) m) (Head h) (map Node (Q h @ [n]))"
    using circ_insert_before_head [OF circ_fam [OF assms(1)], of "Node n" h] assms(2)
    by (auto simp: detached_def)
  show "rt_list_insert_before (Head h) (Node n) m q = m q"
    if "q \<notin> set (Head h # map Node (Q h))" "q \<notin> Node ` {n}" for q
    using that circ_fam_closed [OF assms(1), of "Head h" h] by (intro insert_before_outside) auto
qed (use assms(2) in auto)

lemma fam_insert_after_head:
  assumes "fam m Q" "detached Q n"
  shows "fam (rt_list_insert_after (Head h) (Node n) m) (q_insert_after h n Q)"
  unfolding q_insert_after_def
proof (rule fam_update [OF assms(1), where N = "{n}"])
  have dd: "disjoint_lists Q" using assms(1) by (simp add: fam_def)
  then show "disjoint_lists (Q(h := n # Q h))"
    using assms(2) by (intro disjoint_insert) (auto simp: disjoint_lists_def detached_def)
  show "circ (rt_list_insert_after (Head h) (Node n) m) (Head h) (map Node (n # Q h))"
    using circ_insert_after_head [OF circ_fam [OF assms(1)], of "Node n" h] assms(2)
    by (auto simp: detached_def)
  show "rt_list_insert_after (Head h) (Node n) m q = m q"
    if "q \<notin> set (Head h # map Node (Q h))" "q \<notin> Node ` {n}" for q
    using that circ_fam_closed [OF assms(1), of "Head h" h] by (intro insert_after_outside) auto
qed (use assms(2) in auto)

lemma fam_insert_before_node:
  assumes "fam m Q" "detached Q n" "Q h = xs @ p # ys"
  shows "fam (rt_list_insert_before (Node p) (Node n) m) (Q(h := xs @ n # p # ys))"
proof (rule fam_update [OF assms(1), where N = "{n}"])
  have dd: "disjoint_lists Q" using assms(1) by (simp add: fam_def)
  then have "distinct (Q h)" "n \<notin> set (Q h)"
    using assms(2) by (auto simp: disjoint_lists_def detached_def)
  then show "disjoint_lists (Q(h := xs @ n # p # ys))"
    using assms(2,3) dd by (intro disjoint_insert) auto
  show "circ (rt_list_insert_before (Node p) (Node n) m) (Head h) (map Node (xs @ n # p # ys))"
    using circ_insert_before [of m "Head h" "map Node xs" "Node p" "map Node ys" "Node n"]
      circ_fam [OF assms(1), of h] assms(2,3) \<open>n \<notin> set (Q h)\<close> by auto
  show "rt_list_insert_before (Node p) (Node n) m q = m q"
    if "q \<notin> set (Head h # map Node (Q h))" "q \<notin> Node ` {n}" for q
    using that circ_fam_closed [OF assms(1), of "Node p" h] assms(3)
    by (intro insert_before_outside) auto
qed (use assms(2,3) in auto)

lemma fam_insert_after_node:
  assumes "fam m Q" "detached Q n" "Q h = xs @ p # ys"
  shows "fam (rt_list_insert_after (Node p) (Node n) m) (Q(h := xs @ p # n # ys))"
proof (rule fam_update [OF assms(1), where N = "{n}"])
  have dd: "disjoint_lists Q" using assms(1) by (simp add: fam_def)
  then have "distinct (Q h)" "n \<notin> set (Q h)"
    using assms(2) by (auto simp: disjoint_lists_def detached_def)
  then show "disjoint_lists (Q(h := xs @ p # n # ys))"
    using assms(2,3) dd by (intro disjoint_insert) auto
  show "circ (rt_list_insert_after (Node p) (Node n) m) (Head h) (map Node (xs @ p # n # ys))"
    using circ_insert_after [of m "Head h" "map Node xs" "Node p" "map Node ys" "Node n"]
      circ_fam [OF assms(1), of h] assms(2,3) \<open>n \<notin> set (Q h)\<close> by auto
  show "rt_list_insert_after (Node p) (Node n) m q = m q"
    if "q \<notin> set (Head h # map Node (Q h))" "q \<notin> Node ` {n}" for q
    using that circ_fam_closed [OF assms(1), of "Node p" h] assms(3)
    by (intro insert_after_outside) auto
qed (use assms(2,3) in auto)

text \<open>Removing a node: from the list it is in, or from its own circle.\<close>

lemma fam_remove:
  assumes "fam m Q"
  shows "fam (rt_list_remove (Node n) m) (q_remove n Q)"
proof (cases "detached Q n")
  case True
  then have "circ m (Node n) []" using assms by (simp add: fam_def)
  then show ?thesis using assms True by (simp add: circ_remove_single q_remove_detached)
next
  case False
  then obtain h xs ys where h: "Q h = xs @ n # ys" by (auto simp: detached_def dest: split_list)
  have dd: "disjoint_lists Q" using assms by (simp add: fam_def)
  have rem: "q_remove n Q = Q(h := xs @ ys)" by (rule remove_from_one [OF dd h])
  have c: "circ m (Head h) (map Node xs @ Node n # map Node ys)"
    using circ_fam [OF assms, of h] h by simp
  note cr = circ_remove [OF c]
  show ?thesis unfolding rem
  proof (rule fam_update [OF assms, where N = "{n}"])
    show "disjoint_lists (Q(h := xs @ ys))" using disjoint_remove [OF dd, of n] rem by simp
    show "circ (rt_list_remove (Node n) m) (Head h) (map Node (xs @ ys))" using cr(1) by simp
    show "rt_list_remove (Node n) m q = m q"
      if "q \<notin> set (Head h # map Node (Q h))" "q \<notin> Node ` {n}" for q
      using that circ_fam_closed [OF assms, of "Node n" h] h by (intro remove_outside) auto
    show "circ (rt_list_remove (Node n) m) (Node k) []"
      if "k \<in> {n} \<union> set (Q h)" "k \<notin> set (xs @ ys)" for k
      using that h cr(2) by auto
  qed (use h in auto)
qed

lemma fam_disjoint: "fam m Q \<Longrightarrow> disjoint_lists Q"
  by (simp add: fam_def)

lemma fam_isempty: "fam m Q \<Longrightarrow> rt_list_isempty (Head h) m \<longleftrightarrow> Q h = []"
  using rt_list_isempty_circ [OF circ_fam] by fastforce

lemma fam_first: "fam m Q \<Longrightarrow> Q h = x # xs \<Longrightarrow> lnext (m (Head h)) = Node x"
  using circ_fam [of m Q h] by (simp add: circ_next)

lemma fam_len: "fam m Q \<Longrightarrow> rt_list_len (Head h) m = Some (of_nat (length (Q h)))"
  using rt_list_len_circ [OF circ_fam] by fastforce

section \<open>The queue contract\<close>

text \<open>
  What the kernel relies on: a representation of disjoint lists with insertion at both
  ends, removal of a node from wherever it is, and a test for emptiness.
\<close>

locale thread_queues =
  fixes rep :: "'s \<Rightarrow> ('h \<Rightarrow> 'n list) \<Rightarrow> bool"
    and insert_tail :: "'h \<Rightarrow> 'n \<Rightarrow> 's \<Rightarrow> 's"
    and insert_head :: "'h \<Rightarrow> 'n \<Rightarrow> 's \<Rightarrow> 's"
    and remove :: "'n \<Rightarrow> 's \<Rightarrow> 's"
    and isempty :: "'h \<Rightarrow> 's \<Rightarrow> bool"
  assumes rep_disjoint: "rep s Q \<Longrightarrow> disjoint_lists Q"
    and rep_tail: "rep s Q \<Longrightarrow> detached Q n \<Longrightarrow> rep (insert_tail h n s) (q_insert_before h n Q)"
    and rep_head: "rep s Q \<Longrightarrow> detached Q n \<Longrightarrow> rep (insert_head h n s) (q_insert_after h n Q)"
    and rep_remove: "rep s Q \<Longrightarrow> rep (remove n s) (q_remove n Q)"
    and rep_isempty: "rep s Q \<Longrightarrow> isempty h s \<longleftrightarrow> Q h = []"
begin

text \<open>Moving a node to the tail of a list, from wherever it is, is always legal.\<close>

lemma move_tail:
  assumes "rep s Q"
  shows "rep (insert_tail h n (remove n s)) (q_insert_before h n (q_remove n Q))"
  by (intro rep_tail rep_remove assms) simp

lemma move_head:
  assumes "rep s Q"
  shows "rep (insert_head h n (remove n s)) (q_insert_after h n (q_remove n Q))"
  by (intro rep_head rep_remove assms) simp

lemma moves_tail:
  "rep s Q \<Longrightarrow>
     rep (fold (\<lambda>(h, n) s. insert_tail h n (remove n s)) ms s)
       (fold (\<lambda>(h, n) Q. q_insert_before h n (q_remove n Q)) ms Q)"
  by (induction ms arbitrary: s Q) (auto intro: move_tail)

text \<open>After a move the node is in its new list and in no other.\<close>

lemma moved_only_there:
  assumes "rep s Q" "rep (insert_tail h n (remove n s)) Q'"
    and "Q' = q_insert_before h n (q_remove n Q)"
  shows "n \<in> set (Q' h') \<longleftrightarrow> h' = h"
  using assms(3) by (auto simp: q_defs)

lemma at_most_one_list:
  assumes "rep s Q" "n \<in> set (Q h)" "n \<in> set (Q h')"
  shows "h = h'"
  using disjoint_lists_unique [OF rep_disjoint [OF assms(1)] assms(2,3)] .

lemma not_empty_after_move: "rep s Q \<Longrightarrow> \<not> isempty h (insert_tail h n (remove n s))"
  by (simp add: rep_isempty [OF move_tail] q_defs)

end

text \<open>The pointer lists provide it.\<close>

interpretation plists: thread_queues fam
  "\<lambda>h n. rt_list_insert_before (Head h) (Node n)"
  "\<lambda>h n. rt_list_insert_after (Head h) (Node n)"
  "\<lambda>n. rt_list_remove (Node n)" "\<lambda>h. rt_list_isempty (Head h)"
  by unfold_locales
    (auto simp: fam_disjoint fam_insert_before_head fam_insert_after_head fam_remove fam_isempty)

text \<open>So do the functions the kernel model computes with.\<close>

lemma disjoint_insert_before:
  "disjoint_lists Q \<Longrightarrow> detached Q n \<Longrightarrow> disjoint_lists (q_insert_before h n Q)"
  unfolding q_insert_before_def
  by (rule disjoint_insert) (auto simp: disjoint_lists_def detached_def)

lemma disjoint_insert_after:
  "disjoint_lists Q \<Longrightarrow> detached Q n \<Longrightarrow> disjoint_lists (q_insert_after h n Q)"
  unfolding q_insert_after_def
  by (rule disjoint_insert) (auto simp: disjoint_lists_def detached_def)

interpretation flists: thread_queues "\<lambda>s Q. s = Q \<and> disjoint_lists Q"
  q_insert_before q_insert_after q_remove "\<lambda>h Q. Q h = []"
  by unfold_locales
    (auto simp: disjoint_insert_before disjoint_insert_after disjoint_remove)

section \<open>Insertion by priority\<close>

text \<open>
  The loop of \<open>rt_ipc_list_suspend\<close> (\<open>src/ipc.c\<close>) for \<open>RT_IPC_FLAG_PRIO\<close>: walk the list
  until a thread of strictly lower urgency, insert before it, or at the end. \<open>prio\<close>
  stands for \<open>current_priority\<close>.
\<close>

partial_function (option) ipc_list_insert_prio_from ::
    "('n \<Rightarrow> u8) \<Rightarrow> 'h \<Rightarrow> 'n \<Rightarrow> ('h, 'n) lnode \<Rightarrow> ('h, 'n) lnode list_mem \<Rightarrow> ('h, 'n) lnode list_mem option" where
  "ipc_list_insert_prio_from prio h t p m =
     (case p of
        Head _ \<Rightarrow> Some (rt_list_insert_before (Head h) (Node t) m)
      | Node s \<Rightarrow>
          if prio t < prio s then Some (rt_list_insert_before (Node s) (Node t) m)
          else ipc_list_insert_prio_from prio h t (lnext (m p)) m)"

definition ipc_list_insert_prio where
  "ipc_list_insert_prio prio h t m = ipc_list_insert_prio_from prio h t (lnext (m (Head h))) m"

fun insert_prio :: "('n \<Rightarrow> u8) \<Rightarrow> 'n \<Rightarrow> 'n list \<Rightarrow> 'n list" where
  "insert_prio prio t [] = [t]"
| "insert_prio prio t (s # ss) =
     (if prio t < prio s then t # s # ss else s # insert_prio prio t ss)"

lemma set_insert_prio [simp]: "set (insert_prio prio t xs) = insert t (set xs)"
  by (induction xs) auto

lemma insert_prio_not_Nil [simp]: "insert_prio prio t xs \<noteq> []"
  by (cases xs) auto

lemma distinct_insert_prio [simp]:
  "distinct (insert_prio prio t xs) \<longleftrightarrow> t \<notin> set xs \<and> distinct xs"
  by (induction xs) auto

lemma mset_insert_prio: "mset (insert_prio prio t xs) = add_mset t (mset xs)"
  by (induction xs) auto

text \<open>A list in urgency order stays in urgency order, and threads of equal priority keep
  the order of their arrival.\<close>

lemma sorted_insert_prio:
  "sorted (map prio xs) \<Longrightarrow> sorted (map prio (insert_prio prio t xs))"
  by (induction xs) auto

lemma insert_prio_stable:
  "sorted (map prio xs) \<Longrightarrow>
     filter (\<lambda>x. prio x = k) (insert_prio prio t xs) =
       filter (\<lambda>x. prio x = k) xs @ (if prio t = k then [t] else [])"
proof (induction xs)
  case (Cons s ss)
  show ?case
  proof (cases "prio t < prio s")
    case True
    then have "prio x \<noteq> prio t" if "x \<in> set (s # ss)" for x using that Cons.prems by auto
    then show ?thesis using True by (auto simp: filter_empty_conv)
  qed (use Cons in auto)
qed simp

lemma insert_prio_split:
  "\<exists>ys zs. xs = ys @ zs \<and> insert_prio prio t xs = ys @ t # zs"
proof (induction xs)
  case (Cons s ss)
  then obtain ys zs where "ss = ys @ zs" "insert_prio prio t ss = ys @ t # zs" by blast
  then show ?case
    by (cases "prio t < prio s") (auto intro: exI [of _ "[]"] exI [of _ "s # ys"])
qed simp

text \<open>The pointer loop ends and computes \<open>insert_prio\<close>.\<close>

lemma ipc_list_insert_prio_from_ok:
  assumes "fam m Q" "detached Q t" "Q h = ys @ zs"
    and "p = (case zs of [] \<Rightarrow> Head h | z # _ \<Rightarrow> Node z)"
  shows "\<exists>m'. ipc_list_insert_prio_from prio h t p m = Some m'
           \<and> fam m' (Q(h := ys @ insert_prio prio t zs))"
  using assms(3,4)
proof (induction zs arbitrary: ys p)
  case Nil
  then show ?case
    using fam_insert_before_head [OF assms(1,2), of h]
    by (subst ipc_list_insert_prio_from.simps) (simp add: q_insert_before_def)
next
  case (Cons z zs)
  have nx: "lnext (m (Node z)) = (case zs of [] \<Rightarrow> Head h | z # _ \<Rightarrow> Node z)"
  proof -
    have "circ m (Head h) (map Node ys @ Node z # map Node zs)"
      using circ_fam [OF assms(1), of h] Cons.prems(1) by simp
    then have "dseg m (Node z) (map Node zs) (Head h)" by (simp add: circ_def)
    then show ?thesis by (cases zs) auto
  qed
  show ?case
  proof (cases "prio t < prio z")
    case True
    then show ?thesis
      using Cons.prems fam_insert_before_node [OF assms(1,2) Cons.prems(1)]
      by (subst ipc_list_insert_prio_from.simps) simp
  next
    case False
    then show ?thesis
      using Cons.IH [of "ys @ [z]", OF _ nx] Cons.prems
      by (subst ipc_list_insert_prio_from.simps) (simp add: nx fun_upd_def)
  qed
qed

text \<open>
  C39. Inserting a suspended thread by priority into a wait list, on the linked nodes:
  the walk along the \<open>next\<close> pointers ends, and it leaves a well-formed family of
  circular lists in which the thread's list is the old one with the thread inserted
  after every thread at least as urgent; all other lists are unchanged.
\<close>

theorem ipc_list_insert_prio_refines:
  assumes "fam m Q" and "detached Q t"
  shows "\<exists>m'. ipc_list_insert_prio prio h t m = Some m' \<and> fam m' (Q(h := insert_prio prio t (Q h)))"
proof -
  have "lnext (m (Head h)) = (case Q h of [] \<Rightarrow> Head h | z # _ \<Rightarrow> Node z)"
    using fam_first [OF assms(1), of h] fam_isempty [OF assms(1), of h]
    by (cases "Q h") (auto simp: rt_list_isempty_def)
  then show ?thesis
    using ipc_list_insert_prio_from_ok [OF assms, of h "[]" "Q h"]
    by (simp add: ipc_list_insert_prio_def)
qed

text \<open>An example: a list head whose list holds two threads.\<close>

definition ex_list_mem :: "(bool, nat) lnode list_mem" where
  "ex_list_mem = rt_list_insert_before (Head True) (Node 2)
     (rt_list_insert_before (Head True) (Node 1) (\<lambda>p. \<lparr>lnext = p, lprev = p\<rparr>))"

lemma ex_list_fam: "fam ex_list_mem ((\<lambda>_. [])(True := [1, 2]))"
proof -
  have "fam (\<lambda>p. \<lparr>lnext = p, lprev = p\<rparr>) (\<lambda>_ :: bool. [] :: nat list)"
    by (simp add: fam_def disjoint_lists_def circ_def)
  from fam_insert_before_head [OF this, of 1 True]
  have 1: "fam (rt_list_insert_before (Head True) (Node 1) (\<lambda>p. \<lparr>lnext = p, lprev = p\<rparr>))
      ((\<lambda>_ :: bool. [])(True := [1 :: nat]))"
    by (simp add: q_insert_before_def detached_def)
  from fam_insert_before_head [OF 1, of 2 True] show ?thesis
    by (simp add: ex_list_mem_def q_insert_before_def detached_def)
qed

theorem ipc_list_insert_prio_refines_witness:
  "\<exists>m'. ipc_list_insert_prio (\<lambda>n. if n = 3 then 5 else of_nat (4 * n)) True 3 ex_list_mem = Some m'
     \<and> fam m' ((\<lambda>_. [])(True := [1, 3, 2]))"
  using ipc_list_insert_prio_refines [OF ex_list_fam, of 3 "\<lambda>n. if n = 3 then 5 else of_nat (4 * n)" True]
  by (simp add: detached_def)

end
