(* ===== verification/RT_State.thy ===== *)
theory RT_State
  imports RT_List
begin

text \<open>
  The state of the kernel (\<open>include/rtdef.h\<close> and the static variables of
  \<open>src/scheduler.c\<close>, \<open>src/timer.c\<close>, \<open>src/clock.c\<close>, \<open>src/irq.c\<close>, \<open>src/object.c\<close>) as one
  record, for the configuration of \<open>rtconfig.h\<close>: one core, 32 priorities, semaphore,
  mutex, event, mailbox and message queue, soft timers, one timer-list level, no
  signals. Objects are addressed by identifiers; memory maps an address to a record,
  and whether an address holds a live object is what the type byte of its
  \<open>rt_object\<close> header says, as in the code. A null pointer is \<open>None\<close> where the code
  allows one. Also here: the weakest-precondition calculus for partial operations.
\<close>

section \<open>Addresses\<close>

type_synonym tid = nat
type_synonym oid = nat

text \<open>A timer is embedded in a thread (\<open>thread_timer\<close>) or an object of its own.\<close>

datatype timer_ref = ThreadTimer tid | UserTimer nat

text \<open>The first member of every kernel object is its \<open>rt_object\<close>.\<close>

datatype object_ref = OThread tid | OTimer timer_ref | OIpc oid

text \<open>The list heads thread nodes are linked to: the ready table, the defunct list, and the
  two wait lists of an IPC object (\<open>suspend_thread\<close> and \<open>suspend_sender_thread\<close>).\<close>

datatype qhead = ReadyQ nat | DefunctQ | SuspendQ oid | SenderQ oid

text \<open>The two timer lists, and the lists on the stacks of \<open>rt_timer_check\<close> and
  \<open>rt_soft_timer_check\<close> that hold the timer whose function is being called.\<close>

datatype thead = HardList | SoftList | HardLocal | SoftLocal

section \<open>Structures\<close>

abbreviation (input) RT_NAME_MAX :: nat where "RT_NAME_MAX \<equiv> 8"

record rt_object =
  oname :: string
  otype :: u8
  oflag :: u8

text \<open>A function pointer with its argument: the thread timeout, or one of the application.\<close>

datatype timeout_fn = Rt_thread_timeout tid | User_timeout nat

record rt_timer =
  timeout_func :: timeout_fn
  tm_init_tick :: u32
  timeout_tick :: u32

record rt_thread =
  error :: rt_err_t
  stat :: u8
  current_priority :: u8
  init_priority :: u8
  number_mask :: u32
  event_set :: u32
  event_info :: u8
  init_tick :: u32
  remaining_tick :: u32

record rt_semaphore =
  sem_value :: u16

record rt_mutex =
  mtx_value :: u16
  original_priority :: u8
  hold :: u8
  owner :: "tid option"

record rt_event =
  ev_set :: u32

record rt_mailbox =
  mb_pool :: "u32 list"
  mb_size :: u16
  mb_entry :: u16
  in_offset :: u16
  out_offset :: u16

text \<open>A message of a queue: its link and its bytes; messages are addressed by their slot.\<close>

record rt_messagequeue =
  mq_link :: "nat \<Rightarrow> nat option"
  mq_data :: "nat \<Rightarrow> u8 list"
  mq_msg_size :: u16
  max_msgs :: u16
  mq_entry :: u16
  msg_queue_head :: "nat option"
  msg_queue_tail :: "nat option"
  msg_queue_free :: "nat option"

record kernel =
  objs :: "object_ref \<Rightarrow> rt_object"
  container :: "u8 \<Rightarrow> object_ref list"
  threads :: "tid \<Rightarrow> rt_thread"
  queues :: "qhead \<Rightarrow> tid list"
  ready_group :: u32
  current_thread :: "tid option"
  sched_current_priority :: u8
  sched_lock_nest :: "16 word"
  interrupt_nest :: u8
  timers :: "timer_ref \<Rightarrow> rt_timer"
  tlists :: "thead \<Rightarrow> timer_ref list"
  tick :: u32
  soft_timer_idle :: bool
  timer_thread :: tid
  sems :: "oid \<Rightarrow> rt_semaphore"
  mutexes :: "oid \<Rightarrow> rt_mutex"
  events :: "oid \<Rightarrow> rt_event"
  mailboxes :: "oid \<Rightarrow> rt_mailbox"
  msgqueues :: "oid \<Rightarrow> rt_messagequeue"

section \<open>Constants\<close>

abbreviation (input) RT_THREAD_INIT :: u8 where "RT_THREAD_INIT \<equiv> 0"
abbreviation (input) RT_THREAD_READY :: u8 where "RT_THREAD_READY \<equiv> 1"
abbreviation (input) RT_THREAD_SUSPEND :: u8 where "RT_THREAD_SUSPEND \<equiv> 2"
abbreviation (input) RT_THREAD_RUNNING :: u8 where "RT_THREAD_RUNNING \<equiv> 3"
abbreviation (input) RT_THREAD_CLOSE :: u8 where "RT_THREAD_CLOSE \<equiv> 4"
abbreviation (input) RT_THREAD_STAT_MASK :: u8 where "RT_THREAD_STAT_MASK \<equiv> 7"
abbreviation (input) RT_THREAD_STAT_YIELD :: u8 where "RT_THREAD_STAT_YIELD \<equiv> 8"

abbreviation (input) RT_THREAD_PRIORITY_MAX :: nat where "RT_THREAD_PRIORITY_MAX \<equiv> 32"

abbreviation (input) RT_Object_Class_Null :: u8 where "RT_Object_Class_Null \<equiv> 0"
abbreviation (input) RT_Object_Class_Thread :: u8 where "RT_Object_Class_Thread \<equiv> 1"
abbreviation (input) RT_Object_Class_Semaphore :: u8 where "RT_Object_Class_Semaphore \<equiv> 2"
abbreviation (input) RT_Object_Class_Mutex :: u8 where "RT_Object_Class_Mutex \<equiv> 3"
abbreviation (input) RT_Object_Class_Event :: u8 where "RT_Object_Class_Event \<equiv> 4"
abbreviation (input) RT_Object_Class_MailBox :: u8 where "RT_Object_Class_MailBox \<equiv> 5"
abbreviation (input) RT_Object_Class_MessageQueue :: u8 where "RT_Object_Class_MessageQueue \<equiv> 6"
abbreviation (input) RT_Object_Class_MemPool :: u8 where "RT_Object_Class_MemPool \<equiv> 8"
abbreviation (input) RT_Object_Class_Timer :: u8 where "RT_Object_Class_Timer \<equiv> 10"
abbreviation (input) RT_Object_Class_Static :: u8 where "RT_Object_Class_Static \<equiv> 0x80"

abbreviation (input) RT_TIMER_FLAG_ACTIVATED :: u8 where "RT_TIMER_FLAG_ACTIVATED \<equiv> 1"
abbreviation (input) RT_TIMER_FLAG_PERIODIC :: u8 where "RT_TIMER_FLAG_PERIODIC \<equiv> 2"
abbreviation (input) RT_TIMER_FLAG_SOFT_TIMER :: u8 where "RT_TIMER_FLAG_SOFT_TIMER \<equiv> 4"
abbreviation (input) RT_TIMER_CTRL_SET_TIME :: nat where "RT_TIMER_CTRL_SET_TIME \<equiv> 0"
abbreviation (input) RT_TIMER_CTRL_GET_TIME :: nat where "RT_TIMER_CTRL_GET_TIME \<equiv> 1"
abbreviation (input) RT_TIMER_CTRL_SET_ONESHOT :: nat where "RT_TIMER_CTRL_SET_ONESHOT \<equiv> 2"
abbreviation (input) RT_TIMER_CTRL_SET_PERIODIC :: nat where "RT_TIMER_CTRL_SET_PERIODIC \<equiv> 3"
abbreviation (input) RT_TIMER_CTRL_GET_STATE :: nat where "RT_TIMER_CTRL_GET_STATE \<equiv> 4"
abbreviation (input) RT_TICK_MAX :: u32 where "RT_TICK_MAX \<equiv> 0xffffffff"

abbreviation (input) RT_IPC_FLAG_FIFO :: u8 where "RT_IPC_FLAG_FIFO \<equiv> 0"
abbreviation (input) RT_IPC_FLAG_PRIO :: u8 where "RT_IPC_FLAG_PRIO \<equiv> 1"
abbreviation (input) RT_IPC_CMD_RESET :: nat where "RT_IPC_CMD_RESET \<equiv> 1"
abbreviation (input) RT_EVENT_FLAG_AND :: u8 where "RT_EVENT_FLAG_AND \<equiv> 1"
abbreviation (input) RT_EVENT_FLAG_OR :: u8 where "RT_EVENT_FLAG_OR \<equiv> 2"
abbreviation (input) RT_EVENT_FLAG_CLEAR :: u8 where "RT_EVENT_FLAG_CLEAR \<equiv> 4"
abbreviation (input) RT_SEM_VALUE_MAX :: u16 where "RT_SEM_VALUE_MAX \<equiv> 0xffff"
abbreviation (input) RT_MUTEX_VALUE_MAX :: u16 where "RT_MUTEX_VALUE_MAX \<equiv> 0xffff"
abbreviation (input) RT_MUTEX_HOLD_MAX :: u8 where "RT_MUTEX_HOLD_MAX \<equiv> 0xff"
abbreviation (input) RT_MB_ENTRY_MAX :: u16 where "RT_MB_ENTRY_MAX \<equiv> 0xffff"
abbreviation (input) RT_MQ_ENTRY_MAX :: u16 where "RT_MQ_ENTRY_MAX \<equiv> 0xffff"

section \<open>Status and flag bits\<close>

text \<open>\<open>stat & RT_THREAD_STAT_MASK\<close>, and the assignment that replaces those bits only.\<close>

definition tstate :: "rt_thread \<Rightarrow> u8" where
  "tstate th = stat th AND RT_THREAD_STAT_MASK"

definition set_tstate :: "u8 \<Rightarrow> rt_thread \<Rightarrow> rt_thread" where
  "set_tstate s th = th\<lparr>stat := s OR (stat th AND NOT RT_THREAD_STAT_MASK)\<rparr>"

definition yielded :: "rt_thread \<Rightarrow> bool" where
  "yielded th \<longleftrightarrow> stat th AND RT_THREAD_STAT_YIELD \<noteq> 0"

lemma bit_seven: "bit (7::u8) n \<longleftrightarrow> n < 3"
proof -
  have "(7::u8) = mask 3" by (simp add: mask_eq_exp_minus_1)
  have "bit (7::u8) n \<longleftrightarrow> possible_bit TYPE(u8) n \<and> n < 3"
    unfolding \<open>7 = mask 3\<close> by (simp only: bit_mask_iff)
  then show ?thesis by auto
qed

lemma bit_eight: "bit (8::u8) n \<longleftrightarrow> n = 3"
proof -
  have "(8::u8) = push_bit 3 1" by simp
  then show ?thesis by (simp only: bit_simps) auto
qed

lemma mask7_id: "s = 0 \<or> s = 1 \<or> s = 2 \<or> s = 3 \<or> s = 4 \<Longrightarrow> s AND 7 = (s::u8)"
  by auto

lemma mask7_cases:
  assumes "s = 0 \<or> s = 1 \<or> s = 2 \<or> s = 3 \<or> s = 4"
  shows "(s OR (w AND NOT 7)) AND 7 = (s::u8)"
proof -
  have "(s OR (w AND NOT 7)) AND 7 = s AND 7"
    by (rule bit_eqI) (auto simp only: bit_simps)
  then show ?thesis using mask7_id [OF assms] by (simp only:)
qed

lemma mask7_yield [rt_bits]: "(w OR 8) AND 7 = (w::u8) AND 7" "(w AND NOT 8) AND 7 = w AND 7"
  by (rule bit_eqI; auto simp only: bit_simps bit_seven bit_eight)+

lemma yield_bits [rt_bits]: "((w::u8) OR 8) AND 8 \<noteq> 0" "(w AND NOT 8) AND 8 = 0"
proof -
  have "bit ((w OR 8) AND 8) 3" by (simp only: bit_simps bit_eight) simp
  then show "(w OR 8) AND 8 \<noteq> 0" by auto
  show "(w AND NOT 8) AND 8 = 0" by (rule bit_eqI) (simp only: bit_simps bit_eight bit_0_eq bot_apply, auto)
qed

lemma stat_upd: "stat (th\<lparr>stat := s\<rparr>) = s" by simp

lemma tstate_set [simp]:
  assumes "s = 0 \<or> s = 1 \<or> s = 2 \<or> s = 3 \<or> s = 4"
  shows "tstate (set_tstate s th) = s"
  unfolding tstate_def set_tstate_def stat_upd by (rule mask7_cases [OF assms])

lemma set_tstate_fields [simp]:
  "error (set_tstate s th) = error th"
  "current_priority (set_tstate s th) = current_priority th"
  "init_priority (set_tstate s th) = init_priority th"
  "number_mask (set_tstate s th) = number_mask th"
  "event_set (set_tstate s th) = event_set th"
  "event_info (set_tstate s th) = event_info th"
  "init_tick (set_tstate s th) = init_tick th"
  "remaining_tick (set_tstate s th) = remaining_tick th"
  by (simp_all add: set_tstate_def)

lemma tstate_upd [simp]:
  "tstate (th\<lparr>error := e\<rparr>) = tstate th"
  "tstate (th\<lparr>current_priority := p\<rparr>) = tstate th"
  "tstate (th\<lparr>number_mask := m\<rparr>) = tstate th"
  "tstate (th\<lparr>event_set := v\<rparr>) = tstate th"
  "tstate (th\<lparr>event_info := i\<rparr>) = tstate th"
  "tstate (th\<lparr>remaining_tick := r\<rparr>) = tstate th"
  by (simp_all add: tstate_def)

text \<open>\<open>stat |= RT_THREAD_STAT_YIELD\<close> and \<open>stat &= ~RT_THREAD_STAT_YIELD_MASK\<close>.\<close>

definition set_yield :: "rt_thread \<Rightarrow> rt_thread" where
  "set_yield th = th\<lparr>stat := stat th OR RT_THREAD_STAT_YIELD\<rparr>"

definition clear_yield :: "rt_thread \<Rightarrow> rt_thread" where
  "clear_yield th = th\<lparr>stat := stat th AND NOT RT_THREAD_STAT_YIELD\<rparr>"

lemma yield_fields [simp]:
  "error (set_yield th) = error th" "error (clear_yield th) = error th"
  "current_priority (set_yield th) = current_priority th"
  "current_priority (clear_yield th) = current_priority th"
  "init_priority (set_yield th) = init_priority th"
  "init_priority (clear_yield th) = init_priority th"
  "number_mask (set_yield th) = number_mask th" "number_mask (clear_yield th) = number_mask th"
  "event_set (set_yield th) = event_set th" "event_set (clear_yield th) = event_set th"
  "event_info (set_yield th) = event_info th" "event_info (clear_yield th) = event_info th"
  "init_tick (set_yield th) = init_tick th" "init_tick (clear_yield th) = init_tick th"
  "remaining_tick (set_yield th) = remaining_tick th"
  "remaining_tick (clear_yield th) = remaining_tick th"
  by (simp_all add: set_yield_def clear_yield_def)

lemma tstate_yield [simp]:
  "tstate (set_yield th) = tstate th" "tstate (clear_yield th) = tstate th"
  unfolding tstate_def stat_upd set_yield_def clear_yield_def by (rule mask7_yield)+

lemma yielded_yield [simp]: "yielded (set_yield th)" "\<not> yielded (clear_yield th)"
  unfolding yielded_def stat_upd set_yield_def clear_yield_def using yield_bits by simp_all

lemma yielded_set_tstate [simp]:
  assumes "s = 0 \<or> s = 1 \<or> s = 2 \<or> s = 3 \<or> s = 4"
  shows "yielded (set_tstate s th) = yielded th"
proof -
  have "(s OR (w AND NOT 7)) AND 8 = (w::u8) AND 8" for w
  proof (rule bit_eqI)
    fix n
    have "bit s n \<Longrightarrow> n \<noteq> 3" using assms by (auto simp: bit_seven numeral_eq_Suc)
    then show "bit ((s OR (w AND NOT 7)) AND 8) n \<longleftrightarrow> bit (w AND 8) n"
      by (simp only: bit_simps bit_seven bit_eight) auto
  qed
  then show ?thesis unfolding yielded_def set_tstate_def stat_upd by simp
qed

section \<open>Updating one thread, object or timer\<close>

definition upd_thread :: "tid \<Rightarrow> (rt_thread \<Rightarrow> rt_thread) \<Rightarrow> kernel \<Rightarrow> kernel" where
  "upd_thread t f k = k\<lparr>threads := (threads k)(t := f (threads k t))\<rparr>"

definition upd_obj :: "object_ref \<Rightarrow> (rt_object \<Rightarrow> rt_object) \<Rightarrow> kernel \<Rightarrow> kernel" where
  "upd_obj r f k = k\<lparr>objs := (objs k)(r := f (objs k r))\<rparr>"

definition upd_timer :: "timer_ref \<Rightarrow> (rt_timer \<Rightarrow> rt_timer) \<Rightarrow> kernel \<Rightarrow> kernel" where
  "upd_timer r f k = k\<lparr>timers := (timers k)(r := f (timers k r))\<rparr>"

lemma upd_thread_fields [simp]:
  "objs (upd_thread t f k) = objs k"
  "container (upd_thread t f k) = container k"
  "threads (upd_thread t f k) = (threads k)(t := f (threads k t))"
  "queues (upd_thread t f k) = queues k"
  "ready_group (upd_thread t f k) = ready_group k"
  "current_thread (upd_thread t f k) = current_thread k"
  "sched_current_priority (upd_thread t f k) = sched_current_priority k"
  "sched_lock_nest (upd_thread t f k) = sched_lock_nest k"
  "interrupt_nest (upd_thread t f k) = interrupt_nest k"
  "timers (upd_thread t f k) = timers k"
  "tlists (upd_thread t f k) = tlists k"
  "tick (upd_thread t f k) = tick k"
  "soft_timer_idle (upd_thread t f k) = soft_timer_idle k"
  "timer_thread (upd_thread t f k) = timer_thread k"
  "sems (upd_thread t f k) = sems k"
  "mutexes (upd_thread t f k) = mutexes k"
  "events (upd_thread t f k) = events k"
  "mailboxes (upd_thread t f k) = mailboxes k"
  "msgqueues (upd_thread t f k) = msgqueues k"
  by (simp_all add: upd_thread_def)

lemma upd_obj_fields [simp]:
  "objs (upd_obj r f k) = (objs k)(r := f (objs k r))"
  "container (upd_obj r f k) = container k"
  "threads (upd_obj r f k) = threads k"
  "queues (upd_obj r f k) = queues k"
  "ready_group (upd_obj r f k) = ready_group k"
  "current_thread (upd_obj r f k) = current_thread k"
  "sched_current_priority (upd_obj r f k) = sched_current_priority k"
  "sched_lock_nest (upd_obj r f k) = sched_lock_nest k"
  "interrupt_nest (upd_obj r f k) = interrupt_nest k"
  "timers (upd_obj r f k) = timers k"
  "tlists (upd_obj r f k) = tlists k"
  "tick (upd_obj r f k) = tick k"
  "soft_timer_idle (upd_obj r f k) = soft_timer_idle k"
  "timer_thread (upd_obj r f k) = timer_thread k"
  "sems (upd_obj r f k) = sems k"
  "mutexes (upd_obj r f k) = mutexes k"
  "events (upd_obj r f k) = events k"
  "mailboxes (upd_obj r f k) = mailboxes k"
  "msgqueues (upd_obj r f k) = msgqueues k"
  by (simp_all add: upd_obj_def)

lemma upd_timer_fields [simp]:
  "objs (upd_timer r f k) = objs k"
  "container (upd_timer r f k) = container k"
  "threads (upd_timer r f k) = threads k"
  "queues (upd_timer r f k) = queues k"
  "ready_group (upd_timer r f k) = ready_group k"
  "current_thread (upd_timer r f k) = current_thread k"
  "sched_current_priority (upd_timer r f k) = sched_current_priority k"
  "sched_lock_nest (upd_timer r f k) = sched_lock_nest k"
  "interrupt_nest (upd_timer r f k) = interrupt_nest k"
  "timers (upd_timer r f k) = (timers k)(r := f (timers k r))"
  "tlists (upd_timer r f k) = tlists k"
  "tick (upd_timer r f k) = tick k"
  "soft_timer_idle (upd_timer r f k) = soft_timer_idle k"
  "timer_thread (upd_timer r f k) = timer_thread k"
  "sems (upd_timer r f k) = sems k"
  "mutexes (upd_timer r f k) = mutexes k"
  "events (upd_timer r f k) = events k"
  "mailboxes (upd_timer r f k) = mailboxes k"
  "msgqueues (upd_timer r f k) = msgqueues k"
  by (simp_all add: upd_timer_def)

lemmas upd_defs = upd_thread_def upd_obj_def upd_timer_def

section \<open>Object headers\<close>

text \<open>\<open>rt_object_get_type\<close> and \<open>rt_object_is_systemobject\<close>.\<close>

definition rt_object_get_type :: "object_ref \<Rightarrow> kernel \<Rightarrow> u8" where
  "rt_object_get_type r k = otype (objs k r) AND NOT RT_Object_Class_Static"

definition rt_object_is_systemobject :: "object_ref \<Rightarrow> kernel \<Rightarrow> bool" where
  "rt_object_is_systemobject r k \<longleftrightarrow> otype (objs k r) AND RT_Object_Class_Static \<noteq> 0"

section \<open>Execution context\<close>

definition rt_thread_self :: "kernel \<Rightarrow> tid option" where
  "rt_thread_self k = current_thread k"

definition rt_interrupt_get_nest :: "kernel \<Rightarrow> u8" where
  "rt_interrupt_get_nest k = interrupt_nest k"

definition RT_DEBUG_NOT_IN_INTERRUPT :: "kernel \<Rightarrow> unit option" where
  "RT_DEBUG_NOT_IN_INTERRUPT k = rt_assert (rt_interrupt_get_nest k = 0)"

definition RT_DEBUG_IN_THREAD_CONTEXT :: "kernel \<Rightarrow> unit option" where
  "RT_DEBUG_IN_THREAD_CONTEXT k =
     do { rt_assert (rt_thread_self k \<noteq> None); RT_DEBUG_NOT_IN_INTERRUPT k }"

section \<open>Total correctness of partial operations\<close>

text \<open>\<open>wp m P\<close>: the operation \<open>m\<close> returns, and its result satisfies \<open>P\<close>.\<close>

definition wp :: "'a option \<Rightarrow> ('a \<Rightarrow> bool) \<Rightarrow> bool" where
  "wp m P = (case m of None \<Rightarrow> False | Some x \<Rightarrow> P x)"

lemma wp_simps [simp]:
  "wp (Some x) P = P x" "wp None P = False"
  "wp (rt_assert b) Q = (b \<and> Q ())"
  by (auto simp: wp_def rt_assert_def)

lemma wp_bind [simp]: "wp (Option.bind m f) P = wp m (\<lambda>x. wp (f x) P)"
  by (cases m) auto

lemma wp_mono: "wp m P \<Longrightarrow> (\<And>x. m = Some x \<Longrightarrow> P x \<Longrightarrow> Q x) \<Longrightarrow> wp m Q"
  by (cases m) auto

lemma wp_conj: "wp m (\<lambda>x. P x \<and> Q x) \<longleftrightarrow> wp m P \<and> wp m Q"
  by (cases m) auto

lemma wp_if [simp]: "wp (if b then m else m') P = (if b then wp m P else wp m' P)"
  by simp

lemma wp_Some: "wp m P \<longleftrightarrow> (\<exists>x. m = Some x \<and> P x)"
  by (cases m) auto

lemma wpD: "wp m P \<Longrightarrow> m = Some x \<Longrightarrow> P x"
  by simp

end
