(* ===== verification/RT_Example.thy ===== *)
theory RT_Example
  imports RT_State
begin

text \<open>
  A small running system, on which the general theorems are instantiated: four threads
  (the running one of priority 10, one of priority 5 and one of priority 10 that are
  ready, the idle thread), their timers, and one object of each IPC type.
\<close>

definition ex_thread :: "u8 \<Rightarrow> u8 \<Rightarrow> rt_thread" where
  "ex_thread p s = \<lparr>error = 0, stat = s, current_priority = p, init_priority = p,
     number_mask = push_bit (unat p) 1, event_set = 0, event_info = 0,
     init_tick = 10, remaining_tick = 10\<rparr>"

fun ex_objs :: "object_ref \<Rightarrow> rt_object" where
  "ex_objs (OThread t) = \<lparr>oname = ''thr'', otype = (if t < 4 then 0x81 else 0), oflag = 0\<rparr>"
| "ex_objs (OTimer (ThreadTimer t)) = \<lparr>oname = ''thr'', otype = (if t < 4 then 0x8A else 0), oflag = 0\<rparr>"
| "ex_objs (OTimer (UserTimer t)) = \<lparr>oname = ''tmr'', otype = (if t < 2 then 0x8A else 0), oflag = 0\<rparr>"
| "ex_objs (OIpc i) = \<lparr>oname = ''ipc'', otype = (if i < 5 then 0x82 + of_nat i else 0), oflag = 0\<rparr>"

definition ex_mq :: rt_messagequeue where
  "ex_mq = \<lparr>mq_link = (\<lambda>i. if i = 1 then Some 0 else None), mq_data = (\<lambda>_. [0, 0, 0, 0]),
     mq_msg_size = 4, max_msgs = 2, mq_entry = 0, msg_queue_head = None, msg_queue_tail = None,
     msg_queue_free = Some 1\<rparr>"

definition ex_kernel :: kernel where
  "ex_kernel = \<lparr>objs = ex_objs,
     container = (\<lambda>_. []),
     threads = (\<lambda>t. if t = 0 then ex_thread 10 3 else if t = 1 then ex_thread 5 1
                    else if t = 2 then ex_thread 10 1 else ex_thread 31 1),
     queues = (\<lambda>h. if h = ReadyQ 5 then [1] else if h = ReadyQ 10 then [2]
                    else if h = ReadyQ 31 then [3] else []),
     ready_group = 0x80000420,
     current_thread = Some 0, sched_current_priority = 10, sched_lock_nest = 0, interrupt_nest = 0,
     timers = (\<lambda>r. \<lparr>timeout_func = (case r of ThreadTimer t \<Rightarrow> Rt_thread_timeout t | UserTimer i \<Rightarrow> User_timeout i),
                    tm_init_tick = 5, timeout_tick = 0\<rparr>),
     tlists = (\<lambda>_. []), tick = 100, soft_timer_idle = True, timer_thread = 3,
     sems = (\<lambda>_. \<lparr>sem_value = 1\<rparr>),
     mutexes = (\<lambda>_. \<lparr>mtx_value = 1, original_priority = 0xff, hold = 0, owner = None\<rparr>),
     events = (\<lambda>_. \<lparr>ev_set = 0\<rparr>),
     mailboxes = (\<lambda>_. \<lparr>mb_pool = [0, 0], mb_size = 2, mb_entry = 0, in_offset = 0, out_offset = 0\<rparr>),
     msgqueues = (\<lambda>_. ex_mq)\<rparr>"

lemma ex_kernel_simps [simp]:
  "objs ex_kernel = ex_objs"
  "container ex_kernel = (\<lambda>_. [])"
  "threads ex_kernel = (\<lambda>t. if t = 0 then ex_thread 10 3 else if t = 1 then ex_thread 5 1
                    else if t = 2 then ex_thread 10 1 else ex_thread 31 1)"
  "queues ex_kernel = (\<lambda>h. if h = ReadyQ 5 then [1] else if h = ReadyQ 10 then [2]
                    else if h = ReadyQ 31 then [3] else [])"
  "ready_group ex_kernel = 0x80000420"
  "current_thread ex_kernel = Some 0" "sched_current_priority ex_kernel = 10"
  "sched_lock_nest ex_kernel = 0" "interrupt_nest ex_kernel = 0"
  "timers ex_kernel = (\<lambda>r. \<lparr>timeout_func = (case r of ThreadTimer t \<Rightarrow> Rt_thread_timeout t | UserTimer i \<Rightarrow> User_timeout i),
                    tm_init_tick = 5, timeout_tick = 0\<rparr>)"
  "tlists ex_kernel = (\<lambda>_. [])" "tick ex_kernel = 100" "soft_timer_idle ex_kernel = True"
  "timer_thread ex_kernel = 3" "sems ex_kernel = (\<lambda>_. \<lparr>sem_value = 1\<rparr>)"
  "mutexes ex_kernel = (\<lambda>_. \<lparr>mtx_value = 1, original_priority = 0xff, hold = 0, owner = None\<rparr>)"
  "events ex_kernel = (\<lambda>_. \<lparr>ev_set = 0\<rparr>)"
  "mailboxes ex_kernel = (\<lambda>_. \<lparr>mb_pool = [0, 0], mb_size = 2, mb_entry = 0, in_offset = 0, out_offset = 0\<rparr>)"
  "msgqueues ex_kernel = (\<lambda>_. ex_mq)"
  by (simp_all add: ex_kernel_def)

lemma ex_thread_simps [simp]:
  "error (ex_thread p s) = 0" "stat (ex_thread p s) = s" "current_priority (ex_thread p s) = p"
  "init_priority (ex_thread p s) = p" "number_mask (ex_thread p s) = push_bit (unat p) 1"
  "event_set (ex_thread p s) = 0" "event_info (ex_thread p s) = 0"
  "init_tick (ex_thread p s) = 10" "remaining_tick (ex_thread p s) = 10"
  "tstate (ex_thread p s) = s AND 7"
  by (simp_all add: ex_thread_def tstate_def)

end
