(* ===== verification/RT_Kservice.thy ===== *)
theory RT_Kservice
  imports RT_Prelude
begin

text \<open>
  \<open>src/kservice.c\<close>: the table-driven find-first-set used by the scheduler.
\<close>

section \<open>Find first set\<close>

text \<open>The table \<open>__lowest_bit_bitmap\<close>, row by row as in the source.\<close>

definition lowest_bit_bitmap :: "nat list" where
  "lowest_bit_bitmap = [
    0, 0, 1, 0, 2, 0, 1, 0, 3, 0, 1, 0, 2, 0, 1, 0,
    4, 0, 1, 0, 2, 0, 1, 0, 3, 0, 1, 0, 2, 0, 1, 0,
    5, 0, 1, 0, 2, 0, 1, 0, 3, 0, 1, 0, 2, 0, 1, 0,
    4, 0, 1, 0, 2, 0, 1, 0, 3, 0, 1, 0, 2, 0, 1, 0,
    6, 0, 1, 0, 2, 0, 1, 0, 3, 0, 1, 0, 2, 0, 1, 0,
    4, 0, 1, 0, 2, 0, 1, 0, 3, 0, 1, 0, 2, 0, 1, 0,
    5, 0, 1, 0, 2, 0, 1, 0, 3, 0, 1, 0, 2, 0, 1, 0,
    4, 0, 1, 0, 2, 0, 1, 0, 3, 0, 1, 0, 2, 0, 1, 0,
    7, 0, 1, 0, 2, 0, 1, 0, 3, 0, 1, 0, 2, 0, 1, 0,
    4, 0, 1, 0, 2, 0, 1, 0, 3, 0, 1, 0, 2, 0, 1, 0,
    5, 0, 1, 0, 2, 0, 1, 0, 3, 0, 1, 0, 2, 0, 1, 0,
    4, 0, 1, 0, 2, 0, 1, 0, 3, 0, 1, 0, 2, 0, 1, 0,
    6, 0, 1, 0, 2, 0, 1, 0, 3, 0, 1, 0, 2, 0, 1, 0,
    4, 0, 1, 0, 2, 0, 1, 0, 3, 0, 1, 0, 2, 0, 1, 0,
    5, 0, 1, 0, 2, 0, 1, 0, 3, 0, 1, 0, 2, 0, 1, 0,
    4, 0, 1, 0, 2, 0, 1, 0, 3, 0, 1, 0, 2, 0, 1, 0]"

text \<open>\<open>__rt_ffs\<close>: bits are numbered from 1, and 0 stands for "no bit set".\<close>

definition rt_ffs :: "u32 \<Rightarrow> nat" where
  "rt_ffs value =
     (if value = 0 then 0
      else if value AND 0xff \<noteq> 0
        then lowest_bit_bitmap ! unat (value AND 0xff) + 1
      else if value AND 0xff00 \<noteq> 0
        then lowest_bit_bitmap ! unat (drop_bit 8 (value AND 0xff00)) + 9
      else if value AND 0xff0000 \<noteq> 0
        then lowest_bit_bitmap ! unat (drop_bit 16 (value AND 0xff0000)) + 17
      else lowest_bit_bitmap ! unat (drop_bit 24 (value AND 0xff000000)) + 25)"

text \<open>The entry \<open>t\<close> of a byte \<open>b\<close> is its lowest set bit; the list is checked from
  the byte \<open>b\<close> on.\<close>

fun table_ok :: "nat \<Rightarrow> nat list \<Rightarrow> bool" where
  "table_ok b [] = True"
| "table_ok b (t # ts) =
     ((b = 0 \<or> t < 8 \<and> odd (b div 2 ^ t) \<and> b mod 2 ^ t = 0) \<and> table_ok (b + 1) ts)"

lemma table_ok_nth:
  "table_ok b ts \<Longrightarrow> i < length ts \<Longrightarrow> b + i \<noteq> 0 \<Longrightarrow>
     ts ! i < 8 \<and> odd ((b + i) div 2 ^ (ts ! i)) \<and> (b + i) mod 2 ^ (ts ! i) = 0"
proof (induction b ts arbitrary: i rule: table_ok.induct)
  case (2 b t ts)
  then show ?case by (cases i) auto
qed simp

lemma lowest_bit_bitmap_table: "table_ok 0 lowest_bit_bitmap"
  by (simp add: lowest_bit_bitmap_def)

lemma length_lowest_bit_bitmap: "length lowest_bit_bitmap = 256"
  by (simp add: lowest_bit_bitmap_def)

lemma lowest_bit_bitmap_ok:
  assumes "b < 256" "b \<noteq> 0"
  shows "lowest_bit_bitmap ! b < 8" "bit b (lowest_bit_bitmap ! b)"
    "q < lowest_bit_bitmap ! b \<Longrightarrow> \<not> bit b q"
proof -
  have t: "lowest_bit_bitmap ! b < 8 \<and> odd (b div 2 ^ (lowest_bit_bitmap ! b))
      \<and> b mod 2 ^ (lowest_bit_bitmap ! b) = 0"
    using table_ok_nth [OF lowest_bit_bitmap_table, of b] assms
    by (simp add: length_lowest_bit_bitmap)
  then show "lowest_bit_bitmap ! b < 8" "bit b (lowest_bit_bitmap ! b)"
    by (auto simp: bit_iff_odd)
  show "\<not> bit b q" if q: "q < lowest_bit_bitmap ! b"
  proof -
    have "take_bit (lowest_bit_bitmap ! b) b = 0"
      using t by (simp add: take_bit_eq_mod)
    then show ?thesis using q by (metis bit_0_eq bit_take_bit_iff bot_apply bot_bool_def)
  qed
qed

text \<open>The byte of a word that starts at bit \<open>k\<close>, as the code extracts it.\<close>

lemma byte_bits:
  fixes v :: u32
  assumes "k + 8 \<le> 32" "m = push_bit k 0xff"
  shows "unat (drop_bit k (v AND m)) < 256"
    and "bit (unat (drop_bit k (v AND m))) q \<longleftrightarrow> q < 8 \<and> bit v (k + q)"
    and "v AND m = 0 \<longleftrightarrow> (\<forall>q<8. \<not> bit v (k + q))"
    and "v AND m = 0 \<longleftrightarrow> unat (drop_bit k (v AND m)) = 0"
proof -
  have mk: "m = push_bit k (mask 8)" using assms(2) by (simp add: mask_eq_exp_minus_1)
  have b: "bit (drop_bit k (v AND m)) q \<longleftrightarrow> q < 8 \<and> bit v (k + q)" for q
    using assms(1) by (auto simp: mk bit_simps dest: bit_imp_le_length)
  then show bu: "bit (unat (drop_bit k (v AND m))) q \<longleftrightarrow> q < 8 \<and> bit v (k + q)" for q
    by (simp add: bit_simps)
  have "drop_bit k (v AND m) = take_bit 8 (drop_bit k (v AND m))"
    by (rule bit_eqI) (use b in \<open>auto simp only: bit_take_bit_iff\<close>)
  then have "unat (drop_bit k (v AND m)) = take_bit 8 (unat (drop_bit k (v AND m)))"
    by (metis unsigned_take_bit_eq)
  then show "unat (drop_bit k (v AND m)) < 256"
    using take_bit_nat_less_exp [of 8 "unat (drop_bit k (v AND m))"] by simp
  have m: "bit (v AND m) n \<longleftrightarrow> (\<exists>q<8. n = k + q \<and> bit v n)" for n
    using assms(1) by (auto simp: mk bit_simps dest: bit_imp_le_length intro!: exI [of _ "n - k"])
  then show vm: "v AND m = 0 \<longleftrightarrow> (\<forall>q<8. \<not> bit v (k + q))"
    by (metis bit_0_eq bit_eqI bot_apply bot_bool_def)
  show "v AND m = 0 \<longleftrightarrow> unat (drop_bit k (v AND m)) = 0"
    unfolding vm by (metis b bit_0_eq bit_eqI bot_apply bot_bool_def unat_0_iff)
qed

text \<open>One case of \<open>__rt_ffs\<close>: the byte at bit \<open>k\<close> is the first one that is not zero.\<close>

lemma ffs_byte:
  fixes v :: u32
  assumes "k + 8 \<le> 32" "m = push_bit k 0xff" "v AND m \<noteq> 0"
    and low: "\<And>q. q < k \<Longrightarrow> \<not> bit v q"
    and t: "t = lowest_bit_bitmap ! unat (drop_bit k (v AND m))"
  shows "bit v (k + t) \<and> (\<forall>q < k + t. \<not> bit v q) \<and> t < 8"
proof -
  note byte = byte_bits [OF assms(1,2), of v]
  have nz: "unat (drop_bit k (v AND m)) \<noteq> 0" using assms(3) byte(4) by simp
  note ok = lowest_bit_bitmap_ok [OF byte(1) nz, folded t]
  have "\<not> bit v q" if "q < k + t" for q
  proof (cases "q < k")
    case False
    then have "q - k < t" "q - k < 8" "k + (q - k) = q" using that ok(1) by auto
    then show ?thesis using ok(3) byte(2) by metis
  qed (rule low)
  then show ?thesis using ok byte(2) by blast
qed

lemma mask_byte_clear:
  fixes v :: u32
  assumes "k + 8 \<le> 32" "m = push_bit k 0xff" "v AND m = 0" "\<And>q. q < k \<Longrightarrow> \<not> bit v q" "q < k + 8"
  shows "\<not> bit v q"
proof (cases "q < k")
  case False
  then show ?thesis
    using byte_bits(3) [OF assms(1,2), of v] assms(3,5) by (metis add_diff_inverse_nat nat_add_left_cancel_less)
qed (rule assms(4))

text \<open>
  The result is the position, counted from 1, of the lowest set bit.
\<close>

lemma rt_ffs_lowest:
  assumes "v \<noteq> 0"
  shows "0 < rt_ffs v" "rt_ffs v \<le> 32" "bit v (rt_ffs v - 1)"
    "q < rt_ffs v - 1 \<Longrightarrow> \<not> bit v q"
proof -
  have m: "(0xff::u32) = push_bit 0 0xff" "(0xff00::u32) = push_bit 8 0xff"
    "(0xff0000::u32) = push_bit 16 0xff" "(0xff000000::u32) = push_bit 24 0xff"
    by simp_all
  let ?P = "\<lambda>n. 0 < n \<and> n \<le> 32 \<and> bit v (n - 1) \<and> (\<forall>q < n - 1. \<not> bit v q)"
  note c0 = mask_byte_clear [OF _ m(1), of v]
  note c1 = mask_byte_clear [OF _ m(2), of v]
  note c2 = mask_byte_clear [OF _ m(3), of v]
  note c3 = mask_byte_clear [OF _ m(4), of v]
  have "?P (rt_ffs v)"
  proof (cases "v AND 0xff = 0")
    case False
    then show ?thesis
      using ffs_byte [OF _ m(1) False] assms by (simp add: rt_ffs_def)
  next
    case z0: True
    show ?thesis
    proof (cases "v AND 0xff00 = 0")
      case False
      then show ?thesis
        using ffs_byte [OF _ m(2) False] c0 z0 assms by (simp add: rt_ffs_def)
    next
      case z1: True
      show ?thesis
      proof (cases "v AND 0xff0000 = 0")
        case False
        then show ?thesis
          using ffs_byte [OF _ m(3) False] c1 c0 z0 z1 assms by (simp add: rt_ffs_def)
      next
        case z2: True
        have lo: "\<not> bit v q" if "q < 24" for q using c2 c1 c0 z0 z1 z2 that by simp
        have nz: "v AND 0xff000000 \<noteq> 0"
        proof
          assume z3: "v AND 0xff000000 = 0"
          have "v = 0" by (rule bit_eqI) (use c3 z3 lo in simp)
          with assms show False by simp
        qed
        show ?thesis
          using ffs_byte [OF _ m(4) nz] lo z0 z1 z2 assms by (simp add: rt_ffs_def)
      qed
    qed
  qed
  then show "0 < rt_ffs v" "rt_ffs v \<le> 32" "bit v (rt_ffs v - 1)"
    "q < rt_ffs v - 1 \<Longrightarrow> \<not> bit v q" by auto
qed

text \<open>
  \<open>__rt_ffs\<close> computes the number, counted from 1, of the lowest set bit of a
  word from the table of the lowest bits of a byte, and 0 for a word without bits.
\<close>

theorem rt_ffs_correct:
  "rt_ffs v = (if v = 0 then 0 else (LEAST q. bit v q) + 1)"
proof (cases "v = 0")
  case False
  note f = rt_ffs_lowest [OF False]
  have "(LEAST q. bit v q) = rt_ffs v - 1"
    by (rule Least_equality) (use f in \<open>auto simp: not_less [symmetric]\<close>)
  then show ?thesis using f(1) False by simp
qed (simp add: rt_ffs_def)

end
