(* ===== verification/RT_Sched.thy ===== *)
theory RT_Sched
  imports RT_Example RT_Kservice
begin

text \<open>
  The scheduler (\<open>src/scheduler.c\<close>): the ready table and its bitmap, inserting and
  removing a thread, choosing the next thread, the scheduler lock. Saving and
  restoring the registers (\<open>rt_hw_context_switch\<close>), the stack check and the
  debug output are left out; the switch is the change of \<open>rt_current_thread\<close>.
\<close>

section \<open>Operations\<close>

text \<open>\<open>_get_highest_priority_thread\<close>: the first thread of the most urgent non-empty
  queue. On an empty group, or a group bit whose queue is empty, the code reads memory
  that is no thread; that is \<open>None\<close>.\<close>

definition get_highest_priority_thread :: "kernel \<Rightarrow> (tid \<times> nat) option" where
  "get_highest_priority_thread k =
     (if ready_group k = 0 then None
      else let highest_ready_priority = rt_ffs (ready_group k) - 1
           in case queues k (ReadyQ highest_ready_priority) of
                [] \<Rightarrow> None
              | t # _ \<Rightarrow> Some (t, highest_ready_priority))"

definition rt_system_scheduler_init :: "kernel \<Rightarrow> kernel" where
  "rt_system_scheduler_init k =
     k\<lparr>sched_lock_nest := 0,
       queues := (\<lambda>h. case h of
                    ReadyQ p \<Rightarrow> if p < RT_THREAD_PRIORITY_MAX then [] else queues k h
                  | DefunctQ \<Rightarrow> []
                  | _ \<Rightarrow> queues k h),
       ready_group := 0\<rparr>"

definition rt_schedule_insert_thread :: "tid \<Rightarrow> kernel \<Rightarrow> kernel" where
  "rt_schedule_insert_thread t k =
     (if current_thread k = Some t then upd_thread t (set_tstate RT_THREAD_RUNNING) k
      else let k = upd_thread t (set_tstate RT_THREAD_READY) k;
               th = threads k t;
               k = k\<lparr>queues := q_insert_before (ReadyQ (unat (current_priority th))) t (queues k)\<rparr>
           in k\<lparr>ready_group := ready_group k OR number_mask th\<rparr>)"

definition rt_schedule_remove_thread :: "tid \<Rightarrow> kernel \<Rightarrow> kernel" where
  "rt_schedule_remove_thread t k =
     (let k = k\<lparr>queues := q_remove t (queues k)\<rparr>;
          th = threads k t
      in if queues k (ReadyQ (unat (current_priority th))) = []
         then k\<lparr>ready_group := ready_group k AND NOT (number_mask th)\<rparr>
         else k)"

definition rt_system_scheduler_start :: "kernel \<Rightarrow> kernel option" where
  "rt_system_scheduler_start k =
     do { (to_thread, _) \<leftarrow> get_highest_priority_thread k;
          let k = k\<lparr>current_thread := Some to_thread\<rparr>;
          let k = rt_schedule_remove_thread to_thread k;
          Some (upd_thread to_thread (\<lambda>th. th\<lparr>stat := RT_THREAD_RUNNING\<rparr>) k) }"

text \<open>The body of \<open>rt_schedule\<close> once the lock is free and some thread is ready. With no
  current thread the code dereferences a null pointer.\<close>

definition schedule_switch :: "kernel \<Rightarrow> kernel option" where
  "schedule_switch k =
     do { (to_thread, highest) \<leftarrow> get_highest_priority_thread k;
          cur \<leftarrow> current_thread k;
          let th = threads k cur;
          let prio = unat (current_priority th);
          let running = (tstate th = RT_THREAD_RUNNING);
          let stay = (running \<and> (prio < highest \<or> prio = highest \<and> \<not> yielded th));
          let need_insert_from_thread = (running \<and> \<not> stay);
          let to_thread = (if stay then cur else to_thread);
          let k = (if running
                   then upd_thread cur clear_yield k else k);
          if to_thread \<noteq> cur
          then let k = k\<lparr>sched_current_priority := word_of_nat highest,
                         current_thread := Some to_thread\<rparr>;
                   k = (if need_insert_from_thread then rt_schedule_insert_thread cur k else k);
                   k = rt_schedule_remove_thread to_thread k
               in Some (upd_thread to_thread (set_tstate RT_THREAD_RUNNING) k)
          else let k = rt_schedule_remove_thread cur k
               in Some (upd_thread cur (set_tstate RT_THREAD_RUNNING) k) }"

definition rt_schedule :: "kernel \<Rightarrow> kernel option" where
  "rt_schedule k =
     (if sched_lock_nest k = 0 \<and> ready_group k \<noteq> 0 then schedule_switch k else Some k)"

definition rt_enter_critical :: "kernel \<Rightarrow> kernel" where
  "rt_enter_critical k = k\<lparr>sched_lock_nest := sched_lock_nest k + 1\<rparr>"

definition rt_exit_critical :: "kernel \<Rightarrow> kernel option" where
  "rt_exit_critical k =
     (let k = k\<lparr>sched_lock_nest := sched_lock_nest k - 1\<rparr>
      in if sint (sched_lock_nest k) \<le> 0
         then let k = k\<lparr>sched_lock_nest := 0\<rparr>
              in if current_thread k \<noteq> None then rt_schedule k else Some k
         else Some k)"

definition rt_critical_level :: "kernel \<Rightarrow> u16" where
  "rt_critical_level k = sched_lock_nest k"

section \<open>Consistency\<close>

text \<open>A live thread, as the type byte of its object says.\<close>

definition live :: "kernel \<Rightarrow> tid \<Rightarrow> bool" where
  "live k t \<longleftrightarrow> rt_object_get_type (OThread t) k = RT_Object_Class_Thread"

definition prio_ok :: "rt_thread \<Rightarrow> bool" where
  "prio_ok th \<longleftrightarrow> unat (current_priority th) < RT_THREAD_PRIORITY_MAX
     \<and> number_mask th = push_bit (unat (current_priority th)) 1"

text \<open>What being linked to a list head says of a thread.\<close>

fun linked_ok :: "qhead \<Rightarrow> bool \<Rightarrow> rt_thread \<Rightarrow> bool" where
  "linked_ok (ReadyQ p) l th \<longleftrightarrow>
     l \<and> unat (current_priority th) = p \<and> tstate th = RT_THREAD_READY"
| "linked_ok DefunctQ l th \<longleftrightarrow> tstate th = RT_THREAD_CLOSE"
| "linked_ok (SuspendQ _) l th \<longleftrightarrow> l \<and> tstate th = RT_THREAD_SUSPEND"
| "linked_ok (SenderQ _) l th \<longleftrightarrow> l \<and> tstate th = RT_THREAD_SUSPEND"

text \<open>\<open>sched_inv X k\<close>: the scheduler's data agree with each other, the threads of \<open>X\<close>
  being in transit, i.e. unlinked by the code and not yet linked again.\<close>

text \<open>A thread gets its \<open>number_mask\<close> only in \<open>rt_thread_startup\<close>.\<close>

definition threads_ok :: "kernel \<Rightarrow> bool" where
  "threads_ok k \<longleftrightarrow>
     (\<forall>t. live k t \<longrightarrow> tstate (threads k t) \<noteq> RT_THREAD_INIT \<longrightarrow> prio_ok (threads k t))"

definition linked :: "tid set \<Rightarrow> kernel \<Rightarrow> bool" where
  "linked X k \<longleftrightarrow>
     (\<forall>h t. t \<in> set (queues k h) \<longrightarrow> t \<notin> X \<and> linked_ok h (live k t) (threads k t))"

definition group_ok :: "kernel \<Rightarrow> bool" where
  "group_ok k \<longleftrightarrow> (\<forall>p < RT_THREAD_PRIORITY_MAX. bit (ready_group k) p \<longleftrightarrow> queues k (ReadyQ p) \<noteq> [])"

definition ready_linked :: "tid set \<Rightarrow> kernel \<Rightarrow> bool" where
  "ready_linked X k \<longleftrightarrow>
     (\<forall>t. live k t \<longrightarrow> t \<notin> X \<longrightarrow> tstate (threads k t) = RT_THREAD_READY \<longrightarrow>
        t \<in> set (queues k (ReadyQ (unat (current_priority (threads k t))))))"

definition one_running :: "tid set \<Rightarrow> kernel \<Rightarrow> bool" where
  "one_running X k \<longleftrightarrow>
     (\<forall>t. live k t \<longrightarrow> t \<notin> X \<longrightarrow> tstate (threads k t) = RT_THREAD_RUNNING \<longrightarrow> current_thread k = Some t)
     \<and> (\<forall>t. current_thread k = Some t \<longrightarrow> t \<notin> X \<longrightarrow> tstate (threads k t) \<noteq> RT_THREAD_READY)"

text \<open>A current thread that is no longer an object has just been closed.\<close>

definition current_ok :: "kernel \<Rightarrow> bool" where
  "current_ok k \<longleftrightarrow>
     (\<forall>t. current_thread k = Some t \<longrightarrow> live k t \<or> tstate (threads k t) = RT_THREAD_CLOSE)"

definition lists_inv :: "tid set \<Rightarrow> kernel \<Rightarrow> bool" where
  "lists_inv X k \<longleftrightarrow> disjoint_lists (queues k) \<and> threads_ok k \<and> linked X k \<and> group_ok k
     \<and> ready_linked X k"

definition sched_inv :: "tid set \<Rightarrow> kernel \<Rightarrow> bool" where
  "sched_inv X k \<longleftrightarrow> lists_inv X k \<and> one_running X k \<and> current_ok k"

lemmas sched_inv_defs =
  sched_inv_def lists_inv_def threads_ok_def linked_def group_ok_def ready_linked_def
  one_running_def current_ok_def

section \<open>What insertion and removal change\<close>

lemma insert_thread_fields [simp]:
  "objs (rt_schedule_insert_thread t k) = objs k"
  "container (rt_schedule_insert_thread t k) = container k"
  "current_thread (rt_schedule_insert_thread t k) = current_thread k"
  "sched_current_priority (rt_schedule_insert_thread t k) = sched_current_priority k"
  "sched_lock_nest (rt_schedule_insert_thread t k) = sched_lock_nest k"
  "interrupt_nest (rt_schedule_insert_thread t k) = interrupt_nest k"
  "timers (rt_schedule_insert_thread t k) = timers k"
  "tlists (rt_schedule_insert_thread t k) = tlists k"
  "tick (rt_schedule_insert_thread t k) = tick k"
  "soft_timer_idle (rt_schedule_insert_thread t k) = soft_timer_idle k"
  "timer_thread (rt_schedule_insert_thread t k) = timer_thread k"
  "sems (rt_schedule_insert_thread t k) = sems k"
  "mutexes (rt_schedule_insert_thread t k) = mutexes k"
  "events (rt_schedule_insert_thread t k) = events k"
  "mailboxes (rt_schedule_insert_thread t k) = mailboxes k"
  "msgqueues (rt_schedule_insert_thread t k) = msgqueues k"
  by (simp_all add: rt_schedule_insert_thread_def upd_thread_def Let_def)

lemma remove_thread_fields [simp]:
  "objs (rt_schedule_remove_thread t k) = objs k"
  "container (rt_schedule_remove_thread t k) = container k"
  "threads (rt_schedule_remove_thread t k) = threads k"
  "queues (rt_schedule_remove_thread t k) = q_remove t (queues k)"
  "current_thread (rt_schedule_remove_thread t k) = current_thread k"
  "sched_current_priority (rt_schedule_remove_thread t k) = sched_current_priority k"
  "sched_lock_nest (rt_schedule_remove_thread t k) = sched_lock_nest k"
  "interrupt_nest (rt_schedule_remove_thread t k) = interrupt_nest k"
  "timers (rt_schedule_remove_thread t k) = timers k"
  "tlists (rt_schedule_remove_thread t k) = tlists k"
  "tick (rt_schedule_remove_thread t k) = tick k"
  "soft_timer_idle (rt_schedule_remove_thread t k) = soft_timer_idle k"
  "timer_thread (rt_schedule_remove_thread t k) = timer_thread k"
  "sems (rt_schedule_remove_thread t k) = sems k"
  "mutexes (rt_schedule_remove_thread t k) = mutexes k"
  "events (rt_schedule_remove_thread t k) = events k"
  "mailboxes (rt_schedule_remove_thread t k) = mailboxes k"
  "msgqueues (rt_schedule_remove_thread t k) = msgqueues k"
  by (simp_all add: rt_schedule_remove_thread_def upd_thread_def Let_def)

lemma insert_thread_threads [simp]:
  "threads (rt_schedule_insert_thread t k) =
     (threads k)(t := set_tstate
        (if current_thread k = Some t then RT_THREAD_RUNNING else RT_THREAD_READY) (threads k t))"
  by (simp add: rt_schedule_insert_thread_def upd_thread_def Let_def)

lemma insert_thread_queues [simp]:
  "queues (rt_schedule_insert_thread t k) =
     (if current_thread k = Some t then queues k
      else q_insert_before (ReadyQ (unat (current_priority (threads k t)))) t (queues k))"
  by (simp add: rt_schedule_insert_thread_def upd_thread_def Let_def)

lemma insert_thread_group [simp]:
  "ready_group (rt_schedule_insert_thread t k) =
     (if current_thread k = Some t then ready_group k
      else ready_group k OR number_mask (threads k t))"
  by (simp add: rt_schedule_insert_thread_def upd_thread_def Let_def)

lemma remove_thread_group:
  "ready_group (rt_schedule_remove_thread t k) =
     (if q_remove t (queues k) (ReadyQ (unat (current_priority (threads k t)))) = []
      then ready_group k AND NOT (number_mask (threads k t)) else ready_group k)"
  by (simp add: rt_schedule_remove_thread_def Let_def)

lemma live_cong [simp]:
  "live (rt_schedule_insert_thread t k) = live k"
  "live (rt_schedule_remove_thread t k) = live k"
  "live (upd_thread t f k) = live k"
  "live (k\<lparr>queues := q\<rparr>) = live k"
  "live (k\<lparr>current_thread := c\<rparr>) = live k"
  by (auto simp: live_def rt_object_get_type_def fun_eq_iff upd_thread_def)

section \<open>Preservation of the invariant\<close>

lemma bit_or_exp: "p < 32 \<Longrightarrow> bit ((w::u32) OR 2 ^ p) q \<longleftrightarrow> bit w q \<or> q = p"
  by (auto simp: bit_simps dest: bit_imp_le_length)

lemma bit_and_not_exp: "p < 32 \<Longrightarrow> bit ((w::u32) AND NOT (2 ^ p)) q \<longleftrightarrow> bit w q \<and> q \<noteq> p"
  by (auto simp: bit_simps dest: bit_imp_le_length)

lemma linkedD:
  "linked X k \<Longrightarrow> t \<in> set (queues k h) \<Longrightarrow> t \<notin> X \<and> linked_ok h (live k t) (threads k t)"
  by (simp add: linked_def)

lemma linked_readyD:
  "linked X k \<Longrightarrow> t \<in> set (queues k (ReadyQ p)) \<Longrightarrow>
     t \<notin> X \<and> live k t \<and> unat (current_priority (threads k t)) = p \<and> tstate (threads k t) = RT_THREAD_READY"
  by (drule linkedD) auto

lemma prio_ok_set_tstate [simp]: "prio_ok (set_tstate s th) = prio_ok th"
  by (simp add: prio_ok_def)

lemma lists_inv_detached: "lists_inv X k \<Longrightarrow> t \<in> X \<Longrightarrow> detached (queues k) t"
  by (auto simp: lists_inv_def linked_def detached_def)

lemma lists_inv_prio:
  "lists_inv X k \<Longrightarrow> live k t \<Longrightarrow> tstate (threads k t) \<noteq> RT_THREAD_INIT \<Longrightarrow> prio_ok (threads k t)"
  by (simp add: lists_inv_def threads_ok_def)

lemma sched_inv_lists: "sched_inv X k \<Longrightarrow> lists_inv X k"
  by (simp add: sched_inv_def)

text \<open>The bitmap after unlinking a thread.\<close>

lemma remove_thread_group_ok:
  assumes inv: "lists_inv X k" and lv: "prio_ok (threads k t)"
  shows "group_ok (rt_schedule_remove_thread t k)"
proof -
  let ?p = "unat (current_priority (threads k t))"
  have pk: "?p < 32" "number_mask (threads k t) = 2 ^ ?p"
    using lv by (auto simp: prio_ok_def)
  have same: "q_remove t (queues k) (ReadyQ p) = queues k (ReadyQ p)" if "p \<noteq> ?p" for p
  proof -
    have "t \<notin> set (queues k (ReadyQ p))"
      using inv that unfolding lists_inv_def linked_def by fastforce
    then show ?thesis by (simp add: q_remove_def)
  qed
  have g: "bit (ready_group k) p \<longleftrightarrow> queues k (ReadyQ p) \<noteq> []" if "p < 32" for p
    using inv that by (simp add: lists_inv_def group_ok_def)
  show ?thesis
    unfolding group_ok_def
  proof (intro allI impI)
    fix p :: nat assume p: "p < 32"
    show "bit (ready_group (rt_schedule_remove_thread t k)) p \<longleftrightarrow>
        queues (rt_schedule_remove_thread t k) (ReadyQ p) \<noteq> []"
    proof (cases "p = ?p")
      case True
      then show ?thesis
        using g [OF p] pk by (auto simp: remove_thread_group bit_and_not_exp q_remove_def)
    next
      case False
      then show ?thesis
        using g [OF p] same [OF False] pk by (simp add: remove_thread_group bit_and_not_exp)
    qed
  qed
qed

lemma remove_thread_lists:
  assumes inv: "lists_inv X k" and lv: "prio_ok (threads k t)"
  shows "lists_inv (insert t X) (rt_schedule_remove_thread t k)"
proof -
  have "linked (insert t X) (rt_schedule_remove_thread t k)"
    using inv by (auto simp: lists_inv_def linked_def q_remove_def)
  moreover have "ready_linked (insert t X) (rt_schedule_remove_thread t k)"
    using inv by (auto simp: lists_inv_def ready_linked_def q_remove_def)
  moreover have "threads_ok (rt_schedule_remove_thread t k)"
    using inv by (auto simp: lists_inv_def threads_ok_def)
  ultimately show ?thesis
    using inv remove_thread_group_ok [OF inv lv] by (simp add: lists_inv_def disjoint_remove)
qed

lemma insert_thread_lists:
  assumes inv: "lists_inv X k" and lv: "live k t" and pr: "prio_ok (threads k t)" and tX: "t \<in> X"
  shows "lists_inv (X - {t}) (rt_schedule_insert_thread t k)"
proof -
  let ?k = "rt_schedule_insert_thread t k" and ?p = "unat (current_priority (threads k t))"
  have det: "detached (queues k) t" by (rule lists_inv_detached [OF inv tX])
  have pk: "?p < 32" "number_mask (threads k t) = 2 ^ ?p"
    using pr by (auto simp: prio_ok_def)
  have L: "linked X k" using inv by (simp add: lists_inv_def)
  have "linked (X - {t}) ?k"
    unfolding linked_def
  proof (intro allI impI)
    fix h s assume s: "s \<in> set (queues ?k h)"
    show "s \<notin> X - {t} \<and> linked_ok h (live ?k s) (threads ?k s)"
    proof (cases "s = t")
      case True
      then show ?thesis using s det lv by (auto simp: q_insert_before_def detached_def split: if_splits)
    next
      case False
      then have "s \<in> set (queues k h)" using s by (auto simp: q_insert_before_def split: if_splits)
      then show ?thesis using linkedD [OF L] False by simp
    qed
  qed
  moreover have "ready_linked (X - {t}) ?k"
    using inv by (auto simp: lists_inv_def ready_linked_def q_insert_before_def)
  moreover have "threads_ok ?k"
    using inv pr by (auto simp: lists_inv_def threads_ok_def)
  moreover have "group_ok ?k"
    using inv pk by (auto simp: lists_inv_def group_ok_def bit_or_exp q_insert_before_def)
  moreover have "disjoint_lists (queues ?k)"
    using inv det by (simp add: lists_inv_def disjoint_insert_before)
  ultimately show ?thesis by (simp add: lists_inv_def)
qed

lemma remove_thread_inv:
  "sched_inv X k \<Longrightarrow> prio_ok (threads k t) \<Longrightarrow> sched_inv (insert t X) (rt_schedule_remove_thread t k)"
  by (auto simp: sched_inv_def remove_thread_lists one_running_def current_ok_def)

lemma insert_thread_inv:
  assumes "sched_inv X k" "live k t" "prio_ok (threads k t)" "t \<in> X"
  shows "sched_inv (X - {t}) (rt_schedule_insert_thread t k)"
proof -
  have o: "one_running X k" and c: "current_ok k" using assms(1) by (simp_all add: sched_inv_def)
  have "one_running (X - {t}) (rt_schedule_insert_thread t k)"
    using o unfolding one_running_def by (simp, force)
  moreover have "current_ok (rt_schedule_insert_thread t k)"
    using c assms(2) unfolding current_ok_def by simp
  ultimately show ?thesis
    using insert_thread_lists [OF sched_inv_lists] assms by (simp add: sched_inv_def)
qed

text \<open>Changing a thread's record.\<close>

lemma upd_thread_lists:
  assumes "lists_inv X k"
    and "t \<in> X \<or> tstate (f (threads k t)) = tstate (threads k t)
           \<and> current_priority (f (threads k t)) = current_priority (threads k t)"
    and "live k t \<Longrightarrow> tstate (f (threads k t)) \<noteq> RT_THREAD_INIT \<Longrightarrow> prio_ok (f (threads k t))"
  shows "lists_inv X (upd_thread t f k)"
proof -
  have ok: "linked_ok h l (f (threads k t)) = linked_ok h l (threads k t)" if "t \<notin> X" for h l
    using assms(2) that by (cases h) auto
  have L: "linked X k" and R: "ready_linked X k" using assms(1) by (auto simp: lists_inv_def)
  have "linked X (upd_thread t f k)"
    unfolding linked_def
  proof (intro allI impI)
    fix h s assume "s \<in> set (queues (upd_thread t f k) h)"
    then have "s \<notin> X" "linked_ok h (live k s) (threads k s)" using linkedD [OF L] by auto
    then show "s \<notin> X \<and> linked_ok h (live (upd_thread t f k) s) (threads (upd_thread t f k) s)"
      using ok by auto
  qed
  moreover have "ready_linked X (upd_thread t f k)"
    using R assms(2) by (auto simp: ready_linked_def)
  ultimately show ?thesis
    using assms(1,3) by (auto simp: lists_inv_def threads_ok_def group_ok_def)
qed

lemma upd_thread_inv:
  assumes "sched_inv X k"
    and "tstate (f (threads k t)) = tstate (threads k t)"
    and "current_priority (f (threads k t)) = current_priority (threads k t)"
    and "number_mask (f (threads k t)) = number_mask (threads k t)"
  shows "sched_inv X (upd_thread t f k)"
proof -
  have "lists_inv X (upd_thread t f k)"
    using assms by (intro upd_thread_lists)
      (auto simp: sched_inv_def lists_inv_def threads_ok_def prio_ok_def)
  then show ?thesis
    using assms
    by (auto simp: sched_inv_def one_running_def current_ok_def)
qed

text \<open>A thread in transit may change state, and leaves transit unlinked unless it is ready.\<close>

lemma lists_inv_settle:
  "lists_inv X k \<Longrightarrow> tstate (threads k t) \<noteq> RT_THREAD_READY \<Longrightarrow> lists_inv (X - {t}) k"
  by (auto simp: lists_inv_def linked_def ready_linked_def)

lemma lists_inv_dead: "lists_inv X k \<Longrightarrow> \<not> live k t \<Longrightarrow> lists_inv (X - {t}) k"
  by (auto simp: lists_inv_def linked_def ready_linked_def)

section \<open>Scheduling\<close>

lemma running_detached:
  "lists_inv X k \<Longrightarrow> tstate (threads k t) = RT_THREAD_RUNNING \<Longrightarrow> detached (queues k) t"
proof -
  assume inv: "lists_inv X k" and r: "tstate (threads k t) = RT_THREAD_RUNNING"
  have "t \<notin> set (queues k h)" for h
  proof
    assume "t \<in> set (queues k h)"
    then have "linked_ok h (live k t) (threads k t)" using inv linkedD by (auto simp: lists_inv_def)
    then show False using r by (cases h) auto
  qed
  then show ?thesis by (simp add: detached_def)
qed

lemma get_highest_priority_thread_ok:
  assumes inv: "lists_inv X k" and g: "ready_group k \<noteq> 0"
  shows "\<exists>t p ts. get_highest_priority_thread k = Some (t, p) \<and> p < 32
           \<and> queues k (ReadyQ p) = t # ts \<and> (\<forall>q < p. queues k (ReadyQ q) = [])"
proof -
  let ?p = "rt_ffs (ready_group k) - 1"
  have ok: "\<And>q. q < 32 \<Longrightarrow> bit (ready_group k) q \<longleftrightarrow> queues k (ReadyQ q) \<noteq> []"
    using inv by (simp add: lists_inv_def group_ok_def)
  have p: "?p < 32" using rt_ffs_lowest(1,2) [OF g] by linarith
  have "queues k (ReadyQ ?p) \<noteq> []" using ok [OF p] rt_ffs_lowest(3) [OF g] by simp
  moreover have "queues k (ReadyQ q) = []" if "q < ?p" for q
    using ok [of q] rt_ffs_lowest(4) [OF g that] that p by simp
  ultimately show ?thesis
    using g p by (auto simp: get_highest_priority_thread_def Let_def neq_Nil_conv)
qed

text \<open>No queue above the priority \<open>p\<close> holds a thread.\<close>

definition none_above :: "kernel \<Rightarrow> nat \<Rightarrow> bool" where
  "none_above k p \<longleftrightarrow> (\<forall>q < p. queues k (ReadyQ q) = [])"

definition stays :: "rt_thread \<Rightarrow> nat \<Rightarrow> bool" where
  "stays th p \<longleftrightarrow> unat (current_priority th) < p
     \<or> unat (current_priority th) = p \<and> \<not> yielded th"

text \<open>The three ways through \<open>rt_schedule\<close>.\<close>

lemma schedule_stays:
  assumes "sched_lock_nest k = 0" "ready_group k \<noteq> 0" "current_thread k = Some cur"
    and "get_highest_priority_thread k = Some (t, p)"
    and "tstate (threads k cur) = RT_THREAD_RUNNING" "stays (threads k cur) p"
  shows "rt_schedule k = Some (upd_thread cur (set_tstate RT_THREAD_RUNNING)
           (rt_schedule_remove_thread cur (upd_thread cur clear_yield k)))"
  using assms by (auto simp: rt_schedule_def schedule_switch_def Let_def stays_def)

lemma schedule_preempts:
  assumes "sched_lock_nest k = 0" "ready_group k \<noteq> 0" "current_thread k = Some cur"
    and "get_highest_priority_thread k = Some (t, p)"
    and "tstate (threads k cur) = RT_THREAD_RUNNING" "\<not> stays (threads k cur) p" "t \<noteq> cur"
  shows "rt_schedule k = Some (upd_thread t (set_tstate RT_THREAD_RUNNING)
           (rt_schedule_remove_thread t
             (rt_schedule_insert_thread cur
               ((upd_thread cur clear_yield k)\<lparr>sched_current_priority := word_of_nat p,
                  current_thread := Some t\<rparr>))))"
  using assms by (auto simp: rt_schedule_def schedule_switch_def Let_def stays_def)

lemma schedule_leaves:
  assumes "sched_lock_nest k = 0" "ready_group k \<noteq> 0" "current_thread k = Some cur"
    and "get_highest_priority_thread k = Some (t, p)"
    and "tstate (threads k cur) \<noteq> RT_THREAD_RUNNING" "t \<noteq> cur"
  shows "rt_schedule k = Some (upd_thread t (set_tstate RT_THREAD_RUNNING)
           (rt_schedule_remove_thread t
               (k\<lparr>sched_current_priority := word_of_nat p, current_thread := Some t\<rparr>)))"
  using assms by (simp add: rt_schedule_def schedule_switch_def Let_def)

lemma lists_inv_exempt:
  "lists_inv X k \<Longrightarrow> detached (queues k) t \<Longrightarrow> lists_inv (insert t X) k"
  by (auto simp: lists_inv_def linked_def ready_linked_def detached_def)

lemma live_fields [simp]:
  "live (k\<lparr>sched_current_priority := p\<rparr>) = live k"
  "live (k\<lparr>current_thread := c\<rparr>) = live k"
  by (auto simp: live_def rt_object_get_type_def fun_eq_iff)

lemma lists_inv_fields [simp]:
  "lists_inv X (k\<lparr>sched_current_priority := p\<rparr>) = lists_inv X k"
  "lists_inv X (k\<lparr>current_thread := c\<rparr>) = lists_inv X k"
  by (simp_all add: lists_inv_def threads_ok_def linked_def group_ok_def ready_linked_def)

lemma upd_state_lists:
  assumes "lists_inv X k" "t \<in> X" "prio_ok (threads k t)"
  shows "lists_inv X (upd_thread t (set_tstate s) k)"
  using assms by (intro upd_thread_lists) simp_all

text \<open>Handing the processor to the thread at the head of a ready queue.\<close>

lemma dispatch_lists:
  assumes inv: "lists_inv {} k" and t: "t \<in> set (queues k (ReadyQ p))"
  shows "lists_inv {} (upd_thread t (set_tstate RT_THREAD_RUNNING) (rt_schedule_remove_thread t k))"
proof -
  have lv: "live k t" "tstate (threads k t) = RT_THREAD_READY"
    using inv t linked_readyD [of "{}" k t p] by (auto simp: lists_inv_def)
  then have pr: "prio_ok (threads k t)" using lists_inv_prio [OF inv] by simp
  have "lists_inv {t} (rt_schedule_remove_thread t k)"
    using remove_thread_lists [OF inv pr] by simp
  then have "lists_inv {t} (upd_thread t (set_tstate RT_THREAD_RUNNING) (rt_schedule_remove_thread t k))"
    using pr by (intro upd_state_lists) simp_all
  from lists_inv_settle [OF this, of t] show ?thesis by simp
qed

subsection \<open>What a call of the scheduler may change\<close>

fun is_ready_queue :: "qhead \<Rightarrow> bool" where
  "is_ready_queue (ReadyQ p) = True"
| "is_ready_queue h = False"

definition sched_frame :: "kernel \<Rightarrow> kernel \<Rightarrow> bool" where
  "sched_frame k k' \<longleftrightarrow>
     k' = k\<lparr>threads := threads k', queues := queues k', ready_group := ready_group k',
            current_thread := current_thread k', sched_current_priority := sched_current_priority k'\<rparr>
     \<and> (\<forall>t. threads k' t = (threads k t)\<lparr>stat := stat (threads k' t)\<rparr>)
     \<and> (\<forall>t. tstate (threads k t) = tstate (threads k' t)
            \<or> {tstate (threads k t), tstate (threads k' t)} \<subseteq> {RT_THREAD_READY, RT_THREAD_RUNNING})
     \<and> (\<forall>h. \<not> is_ready_queue h \<longrightarrow> queues k' h = queues k h)"

lemma sched_frame_refl: "sched_frame k k"
  by (simp add: sched_frame_def)

lemma sched_frame_fields:
  assumes "sched_frame k k'"
  shows "objs k' = objs k" "container k' = container k" "sched_lock_nest k' = sched_lock_nest k"
    "interrupt_nest k' = interrupt_nest k" "timers k' = timers k" "tlists k' = tlists k"
    "tick k' = tick k" "soft_timer_idle k' = soft_timer_idle k" "timer_thread k' = timer_thread k"
    "sems k' = sems k" "mutexes k' = mutexes k" "events k' = events k"
    "mailboxes k' = mailboxes k" "msgqueues k' = msgqueues k"
    "queues k' (SuspendQ i) = queues k (SuspendQ i)" "queues k' (SenderQ i) = queues k (SenderQ i)"
    "queues k' DefunctQ = queues k DefunctQ"
proof -
  have k': "k' = k\<lparr>threads := threads k', queues := queues k', ready_group := ready_group k',
            current_thread := current_thread k', sched_current_priority := sched_current_priority k'\<rparr>"
    and q: "\<And>h. \<not> is_ready_queue h \<Longrightarrow> queues k' h = queues k h"
    using assms by (simp_all add: sched_frame_def)
  show "objs k' = objs k" "container k' = container k" "sched_lock_nest k' = sched_lock_nest k"
    "interrupt_nest k' = interrupt_nest k" "timers k' = timers k" "tlists k' = tlists k"
    "tick k' = tick k" "soft_timer_idle k' = soft_timer_idle k" "timer_thread k' = timer_thread k"
    "sems k' = sems k" "mutexes k' = mutexes k" "events k' = events k"
    "mailboxes k' = mailboxes k" "msgqueues k' = msgqueues k"
    by (subst k', simp)+
  show "queues k' (SuspendQ i) = queues k (SuspendQ i)" "queues k' (SenderQ i) = queues k (SenderQ i)"
    "queues k' DefunctQ = queues k DefunctQ"
    by (simp_all add: q)
qed

lemma sched_frame_thread:
  assumes "sched_frame k k'"
  shows "error (threads k' t) = error (threads k t)"
    "current_priority (threads k' t) = current_priority (threads k t)"
    "init_priority (threads k' t) = init_priority (threads k t)"
    "number_mask (threads k' t) = number_mask (threads k t)"
    "event_set (threads k' t) = event_set (threads k t)"
    "event_info (threads k' t) = event_info (threads k t)"
    "init_tick (threads k' t) = init_tick (threads k t)"
    "remaining_tick (threads k' t) = remaining_tick (threads k t)"
proof -
  have "threads k' t = (threads k t)\<lparr>stat := stat (threads k' t)\<rparr>"
    using assms by (simp add: sched_frame_def)
  then obtain s where "threads k' t = (threads k t)\<lparr>stat := s\<rparr>" by blast
  then show "error (threads k' t) = error (threads k t)"
    "current_priority (threads k' t) = current_priority (threads k t)"
    "init_priority (threads k' t) = init_priority (threads k t)"
    "number_mask (threads k' t) = number_mask (threads k t)"
    "event_set (threads k' t) = event_set (threads k t)"
    "event_info (threads k' t) = event_info (threads k t)"
    "init_tick (threads k' t) = init_tick (threads k t)"
    "remaining_tick (threads k' t) = remaining_tick (threads k t)"
    by simp_all
qed

lemma sched_frame_tstate:
  "sched_frame k k' \<Longrightarrow> s \<noteq> RT_THREAD_READY \<Longrightarrow> s \<noteq> RT_THREAD_RUNNING \<Longrightarrow>
     tstate (threads k' t) = s \<longleftrightarrow> tstate (threads k t) = s"
  unfolding sched_frame_def by (metis insert_iff insert_subset singletonD)

lemma sched_frame_trans:
  assumes "sched_frame k k'" "sched_frame k' k''"
  shows "sched_frame k k''"
proof -
  note f = sched_frame_def [THEN iffD1, THEN conjunct1] sched_frame_def [THEN iffD1, THEN conjunct2, THEN conjunct1]
    sched_frame_def [THEN iffD1, THEN conjunct2, THEN conjunct2]
  have "k'' = k\<lparr>threads := threads k'', queues := queues k'', ready_group := ready_group k'',
            current_thread := current_thread k'', sched_current_priority := sched_current_priority k''\<rparr>"
  proof -
    obtain a b c d e where 1: "k' = k\<lparr>threads := a, queues := b, ready_group := c, current_thread := d,
        sched_current_priority := e\<rparr>" using f(1) [OF assms(1)] by (rule that)
    obtain a' b' c' d' e' where 2: "k'' = k'\<lparr>threads := a', queues := b', ready_group := c', current_thread := d',
        sched_current_priority := e'\<rparr>" using f(1) [OF assms(2)] by (rule that)
    show ?thesis unfolding 2 1 by simp
  qed
  moreover have "threads k'' t = (threads k t)\<lparr>stat := stat (threads k'' t)\<rparr>" for t
  proof -
    obtain a where a: "threads k' t = (threads k t)\<lparr>stat := a\<rparr>"
      using spec [OF f(2) [OF assms(1)], of t] by (rule that)
    obtain b where b: "threads k'' t = (threads k' t)\<lparr>stat := b\<rparr>"
      using spec [OF f(2) [OF assms(2)], of t] by (rule that)
    show ?thesis unfolding b a by simp
  qed
  moreover have "tstate (threads k t) = tstate (threads k'' t)
      \<or> {tstate (threads k t), tstate (threads k'' t)} \<subseteq> {RT_THREAD_READY, RT_THREAD_RUNNING}" for t
    using f(3) [OF assms(1)] f(3) [OF assms(2)] by (metis insert_subset)
  moreover have "\<not> is_ready_queue h \<longrightarrow> queues k'' h = queues k h" for h
    using f(3) [OF assms(1)] f(3) [OF assms(2)] by simp
  ultimately show ?thesis unfolding sched_frame_def by (intro conjI allI)
qed

lemma sched_frame_live: "sched_frame k k' \<Longrightarrow> live k' = live k"
  by (simp add: fun_eq_iff live_def rt_object_get_type_def sched_frame_fields)

text \<open>
  A call of \<open>rt_schedule\<close> on a consistent kernel: it returns, keeps the kernel
  consistent and changes nothing but who runs.
\<close>

definition schedule_case :: "kernel \<Rightarrow> tid \<Rightarrow> kernel \<Rightarrow> bool" where
  "schedule_case k cur k' \<longleftrightarrow>
     lists_inv {} k' \<and> sched_frame k k' \<and> (\<exists>t. current_thread k' = Some t \<and>
       live k t \<and>
       (\<forall>s. s \<noteq> t \<longrightarrow> live k s \<longrightarrow> tstate (threads k' s) \<noteq> RT_THREAD_RUNNING) \<and>
       tstate (threads k' t) = RT_THREAD_RUNNING)"

lemma case_inv:
  assumes "schedule_case k cur k'"
  shows "sched_inv {} k'"
proof -
  have "live k' = live k" using assms by (simp add: schedule_case_def sched_frame_live)
  then show ?thesis
    using assms by (auto simp: schedule_case_def sched_inv_def one_running_def current_ok_def) metis
qed

lemma schedule_stays_case:
  assumes inv: "sched_inv {} k" and cur: "current_thread k = Some cur"
    and run: "tstate (threads k cur) = RT_THREAD_RUNNING"
    and k': "k' = upd_thread cur (set_tstate RT_THREAD_RUNNING)
               (rt_schedule_remove_thread cur (upd_thread cur clear_yield k))"
  shows "schedule_case k cur k'" "queues k' = queues k" "current_thread k' = Some cur"
    "threads k' = (threads k)(cur := set_tstate RT_THREAD_RUNNING (clear_yield (threads k cur)))"
proof -
  let ?k1 = "upd_thread cur clear_yield k"
  have lv: "live k cur" using inv cur run by (auto simp: sched_inv_def current_ok_def)
  have li: "lists_inv {} k" using inv by (simp add: sched_inv_def)
  have pr: "prio_ok (threads k cur)" using lists_inv_prio [OF li lv] run by simp
  then have pr1: "prio_ok (threads ?k1 cur)" by (simp add: prio_ok_def)
  have l1: "lists_inv {} ?k1"
    using pr1 by (intro upd_thread_lists li) auto
  have "lists_inv {cur} (rt_schedule_remove_thread cur ?k1)"
    using remove_thread_lists [OF l1 pr1] by simp
  then have "lists_inv {cur} k'"
    unfolding k' using pr1 by (intro upd_state_lists) auto
  from lists_inv_settle [OF this, of cur] have l2: "lists_inv {} k'" by (simp add: k')
  have det: "q_remove cur (queues k) = queues k"
    using running_detached [OF li run] by (rule q_remove_detached)
  then show q: "queues k' = queues k" by (simp add: k')
  show c: "current_thread k' = Some cur" using cur by (simp add: k')
  show th: "threads k' = (threads k)(cur := set_tstate RT_THREAD_RUNNING (clear_yield (threads k cur)))"
    by (simp add: k')
  have "sched_frame k k'"
    unfolding sched_frame_def
  proof (intro conjI allI impI)
    show "k' = k\<lparr>threads := threads k', queues := queues k', ready_group := ready_group k',
            current_thread := current_thread k', sched_current_priority := sched_current_priority k'\<rparr>"
      unfolding k' by (rule kernel.equality) simp_all
    show "threads k' t = (threads k t)\<lparr>stat := stat (threads k' t)\<rparr>" for t
      by (simp add: th set_tstate_def clear_yield_def)
    show "tstate (threads k t) = tstate (threads k' t)
            \<or> {tstate (threads k t), tstate (threads k' t)} \<subseteq> {RT_THREAD_READY, RT_THREAD_RUNNING}" for t
      using run by (simp add: th)
  qed (simp add: q)
  moreover have "\<forall>s. s \<noteq> cur \<longrightarrow> live k s \<longrightarrow> tstate (threads k' s) \<noteq> RT_THREAD_RUNNING"
    using inv cur by (auto simp: sched_inv_def one_running_def th)
  ultimately show "schedule_case k cur k'"
    using l2 c lv by (simp add: schedule_case_def th)
qed

lemma schedule_preempts_case:
  assumes inv: "sched_inv {} k" and cur: "current_thread k = Some cur"
    and run: "tstate (threads k cur) = RT_THREAD_RUNNING"
    and t: "queues k (ReadyQ p) = t # ts"
    and k': "k' = upd_thread t (set_tstate RT_THREAD_RUNNING)
           (rt_schedule_remove_thread t
             (rt_schedule_insert_thread cur
               ((upd_thread cur clear_yield k)\<lparr>sched_current_priority := word_of_nat p,
                  current_thread := Some t\<rparr>)))"
  shows "schedule_case k cur k'" "current_thread k' = Some t"
    "queues k' = q_remove t
       (q_insert_before (ReadyQ (unat (current_priority (threads k cur)))) cur (queues k))"
    "threads k' = (threads k)
       (cur := set_tstate RT_THREAD_READY (clear_yield (threads k cur)),
        t := set_tstate RT_THREAD_RUNNING (threads k t))"
proof -
  let ?k1 = "upd_thread cur clear_yield k"
  let ?k2 = "?k1\<lparr>sched_current_priority := word_of_nat p, current_thread := Some t\<rparr>"
  let ?k3 = "rt_schedule_insert_thread cur ?k2"
  have lv: "live k cur" using inv cur run by (auto simp: sched_inv_def current_ok_def)
  have li: "lists_inv {} k" using inv by (simp add: sched_inv_def)
  have lt: "live k t" "tstate (threads k t) = RT_THREAD_READY"
    using li t linked_readyD [of "{}" k t p] by (auto simp: lists_inv_def)
  then have ne: "t \<noteq> cur" using run by auto
  have pr: "prio_ok (clear_yield (threads k cur))"
    using lists_inv_prio [OF li lv] run by (simp add: prio_ok_def)
  then have "lists_inv {} ?k1"
    by (intro upd_thread_lists li) auto
  then have "lists_inv {cur} ?k2"
    using lists_inv_exempt [of "{}" ?k1 cur] running_detached [OF li run] by simp
  then have l3: "lists_inv {} ?k3"
    using insert_thread_lists [of "{cur}" ?k2 cur] lv pr by simp
  have "t \<in> set (queues ?k3 (ReadyQ p))" using t ne by (auto simp: q_insert_before_def)
  from dispatch_lists [OF l3 this] have l': "lists_inv {} k'" by (simp add: k')
  show c: "current_thread k' = Some t" by (simp add: k')
  show q: "queues k' = q_remove t
       (q_insert_before (ReadyQ (unat (current_priority (threads k cur)))) cur (queues k))"
    using ne by (simp add: k')
  show th: "threads k' = (threads k)
       (cur := set_tstate RT_THREAD_READY (clear_yield (threads k cur)),
        t := set_tstate RT_THREAD_RUNNING (threads k t))"
    using ne by (simp add: k')
  have qo: "queues k' h = queues k h" if "\<not> is_ready_queue h" for h
  proof -
    have "t \<notin> set (queues k h)"
      using li t that disjoint_lists_unique [of "queues k" t "ReadyQ p" h] by (auto simp: lists_inv_def)
    then show ?thesis using that by (cases h) (auto simp: q q_remove_def q_insert_before_def)
  qed
  have "sched_frame k k'"
    unfolding sched_frame_def
  proof (intro conjI allI impI)
    show "k' = k\<lparr>threads := threads k', queues := queues k', ready_group := ready_group k',
            current_thread := current_thread k', sched_current_priority := sched_current_priority k'\<rparr>"
      unfolding k' by (rule kernel.equality) simp_all
    show "threads k' s = (threads k s)\<lparr>stat := stat (threads k' s)\<rparr>" for s
      by (simp add: th set_tstate_def clear_yield_def)
    show "tstate (threads k s) = tstate (threads k' s)
            \<or> {tstate (threads k s), tstate (threads k' s)} \<subseteq> {RT_THREAD_READY, RT_THREAD_RUNNING}" for s
      using run lt by (simp add: th)
  qed (simp add: qo)
  moreover have "\<forall>s. s \<noteq> t \<longrightarrow> live k s \<longrightarrow> tstate (threads k' s) \<noteq> RT_THREAD_RUNNING"
    using inv cur by (auto simp: sched_inv_def one_running_def th)
  ultimately show "schedule_case k cur k'"
    using l' c lt by (simp add: schedule_case_def th)
qed

lemma schedule_leaves_case:
  assumes inv: "sched_inv {} k" and cur: "current_thread k = Some cur"
    and run: "tstate (threads k cur) \<noteq> RT_THREAD_RUNNING"
    and t: "queues k (ReadyQ p) = t # ts"
    and k': "k' = upd_thread t (set_tstate RT_THREAD_RUNNING)
           (rt_schedule_remove_thread t
               (k\<lparr>sched_current_priority := word_of_nat p, current_thread := Some t\<rparr>))"
  shows "schedule_case k cur k'" "current_thread k' = Some t" "queues k' = q_remove t (queues k)"
    "threads k' = (threads k)(t := set_tstate RT_THREAD_RUNNING (threads k t))"
proof -
  let ?k2 = "k\<lparr>sched_current_priority := word_of_nat p, current_thread := Some t\<rparr>"
  have li: "lists_inv {} k" using inv by (simp add: sched_inv_def)
  have lt: "live k t" "tstate (threads k t) = RT_THREAD_READY"
    using li t linked_readyD [of "{}" k t p] by (auto simp: lists_inv_def)
  have l2: "lists_inv {} ?k2" using li by simp
  have "t \<in> set (queues ?k2 (ReadyQ p))" using t by simp
  from dispatch_lists [OF l2 this] have l': "lists_inv {} k'" by (simp add: k')
  show c: "current_thread k' = Some t" by (simp add: k')
  show q: "queues k' = q_remove t (queues k)" by (simp add: k')
  show th: "threads k' = (threads k)(t := set_tstate RT_THREAD_RUNNING (threads k t))"
    by (simp add: k')
  have qo: "queues k' h = queues k h" if "\<not> is_ready_queue h" for h
  proof -
    have "t \<notin> set (queues k h)"
      using li t that disjoint_lists_unique [of "queues k" t "ReadyQ p" h] by (auto simp: lists_inv_def)
    then show ?thesis by (simp add: q q_remove_def)
  qed
  have "sched_frame k k'"
    unfolding sched_frame_def
  proof (intro conjI allI impI)
    show "k' = k\<lparr>threads := threads k', queues := queues k', ready_group := ready_group k',
            current_thread := current_thread k', sched_current_priority := sched_current_priority k'\<rparr>"
      unfolding k' by (rule kernel.equality) simp_all
    show "threads k' s = (threads k s)\<lparr>stat := stat (threads k' s)\<rparr>" for s
      by (simp add: th set_tstate_def)
    show "tstate (threads k s) = tstate (threads k' s)
            \<or> {tstate (threads k s), tstate (threads k' s)} \<subseteq> {RT_THREAD_READY, RT_THREAD_RUNNING}" for s
      using lt by (simp add: th)
  qed (simp add: qo)
  moreover have "\<forall>s. s \<noteq> t \<longrightarrow> live k s \<longrightarrow> tstate (threads k' s) \<noteq> RT_THREAD_RUNNING"
    using inv cur run by (auto simp: sched_inv_def one_running_def th)
  ultimately show "schedule_case k cur k'"
    using l' c lt by (simp add: schedule_case_def th)
qed

text \<open>Every case together: \<open>rt_schedule\<close> on a consistent kernel.\<close>

lemma ready_group_zero:
  assumes "lists_inv X k"
  shows "ready_group k = 0 \<longleftrightarrow> (\<forall>p. queues k (ReadyQ p) = [])"
proof -
  have g: "\<And>p. p < 32 \<Longrightarrow> bit (ready_group k) p \<longleftrightarrow> queues k (ReadyQ p) \<noteq> []"
    using assms by (simp add: lists_inv_def group_ok_def)
  have big: "queues k (ReadyQ p) = []" if "\<not> p < 32" for p
  proof (rule ccontr)
    assume "queues k (ReadyQ p) \<noteq> []"
    then obtain t where "t \<in> set (queues k (ReadyQ p))" by (cases "queues k (ReadyQ p)") auto
    then have "live k t" "unat (current_priority (threads k t)) = p"
      using assms linked_readyD by (auto simp: lists_inv_def)
    moreover have "tstate (threads k t) = RT_THREAD_READY"
      using assms \<open>t \<in> set (queues k (ReadyQ p))\<close> linked_readyD by (auto simp: lists_inv_def)
    ultimately show False using lists_inv_prio [OF assms, of t] that by (auto simp: prio_ok_def)
  qed
  show ?thesis
  proof
    assume z: "ready_group k = 0"
    show "\<forall>p. queues k (ReadyQ p) = []"
    proof
      fix p show "queues k (ReadyQ p) = []"
        using g [of p] big [of p] z by (cases "p < 32") auto
    qed
  next
    assume e: "\<forall>p. queues k (ReadyQ p) = []"
    show "ready_group k = 0"
    proof (rule bit_eqI)
      fix n assume "possible_bit TYPE(u32) n"
      then have "n < 32" by (simp add: possible_bit_def)
      then show "bit (ready_group k) n = bit 0 n" using g [of n] e by simp
    qed
  qed
qed

text \<open>Whether the current thread keeps the processor.\<close>

definition keeps_cpu :: "kernel \<Rightarrow> tid \<Rightarrow> bool" where
  "keeps_cpu k cur \<longleftrightarrow> tstate (threads k cur) = RT_THREAD_RUNNING
     \<and> (\<forall>p. queues k (ReadyQ p) \<noteq> [] \<longrightarrow> stays (threads k cur) p)"

lemma stays_mono: "stays th p \<Longrightarrow> p \<le> q \<Longrightarrow> stays th q"
  by (auto simp: stays_def)

lemma rt_schedule_total:
  assumes inv: "sched_inv {} k" and cur: "current_thread k = Some cur"
  shows "\<exists>k'. rt_schedule k = Some k' \<and> sched_inv {} k' \<and> sched_frame k k'"
proof (cases "sched_lock_nest k = 0 \<and> ready_group k \<noteq> 0")
  case False
  then show ?thesis using inv by (auto simp: rt_schedule_def sched_frame_refl)
next
  case True
  have li: "lists_inv {} k" using inv by (simp add: sched_inv_def)
  obtain t p ts where g: "get_highest_priority_thread k = Some (t, p)" "queues k (ReadyQ p) = t # ts"
    using get_highest_priority_thread_ok [OF li] True by blast
  have "tstate (threads k t) = RT_THREAD_READY"
    using li g(2) linked_readyD [of "{}" k t p] by (auto simp: lists_inv_def)
  moreover have "tstate (threads k cur) \<noteq> RT_THREAD_READY"
    using inv cur by (simp add: sched_inv_def one_running_def)
  ultimately have ne: "t \<noteq> cur" by auto
  note eqs = True [THEN conjunct1] True [THEN conjunct2] cur g(1)
  consider "tstate (threads k cur) = RT_THREAD_RUNNING" "stays (threads k cur) p"
    | "tstate (threads k cur) = RT_THREAD_RUNNING" "\<not> stays (threads k cur) p"
    | "tstate (threads k cur) \<noteq> RT_THREAD_RUNNING" by blast
  then have "\<exists>k'. rt_schedule k = Some k' \<and> schedule_case k cur k'"
  proof cases
    case 1
    then show ?thesis
      using schedule_stays [OF eqs] schedule_stays_case(1) [OF inv cur _ refl] by blast
  next
    case 2
    then show ?thesis
      using schedule_preempts [OF eqs 2 ne] schedule_preempts_case(1) [OF inv cur 2(1) g(2) refl] by blast
  next
    case 3
    then show ?thesis
      using schedule_leaves [OF eqs 3 ne] schedule_leaves_case(1) [OF inv cur 3 g(2) refl] by blast
  qed
  then show ?thesis using case_inv by (auto simp: schedule_case_def)
qed

text \<open>The outcome in detail.\<close>

lemma rt_schedule_choice:
  assumes inv: "sched_inv {} k" and cur: "current_thread k = Some cur"
    and lock: "sched_lock_nest k = 0"
  shows "if keeps_cpu k cur \<or> (\<forall>p. queues k (ReadyQ p) = [])
         then \<exists>k'. rt_schedule k = Some k' \<and> current_thread k' = Some cur \<and> queues k' = queues k
         else \<exists>k' t p ts. rt_schedule k = Some k' \<and> queues k (ReadyQ p) = t # ts
                \<and> (\<forall>q < p. queues k (ReadyQ q) = [])
                \<and> current_thread k' = Some t \<and> tstate (threads k' t) = RT_THREAD_RUNNING
                \<and> queues k' = q_remove t
                    (if tstate (threads k cur) = RT_THREAD_RUNNING
                     then q_insert_before (ReadyQ (unat (current_priority (threads k cur)))) cur (queues k)
                     else queues k)"
proof (cases "ready_group k = 0")
  case True
  then have "\<forall>p. queues k (ReadyQ p) = []"
    using ready_group_zero inv by (auto simp: sched_inv_def)
  then show ?thesis using cur True by (simp add: rt_schedule_def)
next
  case False
  have li: "lists_inv {} k" using inv by (simp add: sched_inv_def)
  obtain t p ts where g: "get_highest_priority_thread k = Some (t, p)" "queues k (ReadyQ p) = t # ts"
      "\<forall>q < p. queues k (ReadyQ q) = []"
    using get_highest_priority_thread_ok [OF li False] by blast
  have ready: "tstate (threads k t) = RT_THREAD_READY"
    using li g(2) linked_readyD [of "{}" k t p] by (auto simp: lists_inv_def)
  moreover have "tstate (threads k cur) \<noteq> RT_THREAD_READY"
    using inv cur by (simp add: sched_inv_def one_running_def)
  ultimately have ne: "t \<noteq> cur" by auto
  have some: "\<not> (\<forall>p. queues k (ReadyQ p) = [])" using g(2) by (metis list.distinct(1))
  have keeps: "keeps_cpu k cur \<longleftrightarrow> tstate (threads k cur) = RT_THREAD_RUNNING \<and> stays (threads k cur) p"
  proof -
    have "p \<le> q" if "queues k (ReadyQ q) \<noteq> []" for q using g(3) that by (meson not_less)
    then show ?thesis using g(2) stays_mono [of "threads k cur" p] by (auto simp: keeps_cpu_def)
  qed
  note eqs = lock False cur g(1)
  consider "keeps_cpu k cur"
    | "tstate (threads k cur) = RT_THREAD_RUNNING" "\<not> stays (threads k cur) p"
    | "tstate (threads k cur) \<noteq> RT_THREAD_RUNNING" using keeps by blast
  then show ?thesis
  proof cases
    case 1
    then show ?thesis
      using keeps schedule_stays [OF eqs] schedule_stays_case(2,3) [OF inv cur _ refl] by simp
  next
    case 2
    note s = schedule_preempts [OF eqs 2 ne]
    note c = schedule_preempts_case [OF inv cur 2(1) g(2) refl]
    show ?thesis using 2 keeps some s c(2-4) g(2,3) by auto
  next
    case 3
    note s = schedule_leaves [OF eqs 3 ne]
    note c = schedule_leaves_case [OF inv cur 3 g(2) refl]
    show ?thesis using 3 keeps some s c(2-4) g(2,3) by auto
  qed
qed

section \<open>The scheduler lock\<close>

lemma exit_enter_critical:
  assumes "0 \<le> sint (sched_lock_nest k)" "sint (sched_lock_nest k) < 32767"
  shows "rt_exit_critical (rt_enter_critical k) =
      (if sched_lock_nest k = 0 \<and> current_thread k \<noteq> None then rt_schedule k else Some k)"
proof -
  have z: "sint (sched_lock_nest k) \<le> 0 \<longleftrightarrow> sched_lock_nest k = 0"
    using assms(1) by (auto simp: sint_0 intro: signed_word_eqI)
  have same: "k\<lparr>sched_lock_nest := n\<rparr> = k" if "sched_lock_nest k = n" for n
    using that by auto
  show ?thesis
  proof (cases "sched_lock_nest k = 0")
    case True
    then show ?thesis
      using z by (simp add: rt_exit_critical_def rt_enter_critical_def Let_def same)
  next
    case False
    then show ?thesis
      using z by (simp add: rt_exit_critical_def rt_enter_critical_def Let_def same)
  qed
qed

lemma sched_inv_lock [simp]:
  "sched_inv X (k\<lparr>sched_lock_nest := n\<rparr>) = sched_inv X k"
proof -
  have "live (k\<lparr>sched_lock_nest := n\<rparr>) = live k"
    by (simp add: live_def rt_object_get_type_def fun_eq_iff)
  then show ?thesis by (simp add: sched_inv_defs)
qed

section \<open>State the scheduler does not look at\<close>

lemma live_other [simp]:
  "live (k\<lparr>container := v_container\<rparr>) = live k"
  "live (k\<lparr>timers := v_timers\<rparr>) = live k"
  "live (k\<lparr>tlists := v_tlists\<rparr>) = live k"
  "live (k\<lparr>tick := v_tick\<rparr>) = live k"
  "live (k\<lparr>soft_timer_idle := v_soft_timer_idle\<rparr>) = live k"
  "live (k\<lparr>interrupt_nest := v_interrupt_nest\<rparr>) = live k"
  "live (k\<lparr>sems := v_sems\<rparr>) = live k"
  "live (k\<lparr>mutexes := v_mutexes\<rparr>) = live k"
  "live (k\<lparr>events := v_events\<rparr>) = live k"
  "live (k\<lparr>mailboxes := v_mailboxes\<rparr>) = live k"
  "live (k\<lparr>msgqueues := v_msgqueues\<rparr>) = live k"
  "live (k\<lparr>timer_thread := v_timer_thread\<rparr>) = live k"
  "live (upd_timer r g k) = live k"
  by (simp_all add: live_def rt_object_get_type_def fun_eq_iff)

lemma sched_inv_other [simp]:
  "sched_inv X (k\<lparr>container := v_container\<rparr>) = sched_inv X k"
  "sched_inv X (k\<lparr>timers := v_timers\<rparr>) = sched_inv X k"
  "sched_inv X (k\<lparr>tlists := v_tlists\<rparr>) = sched_inv X k"
  "sched_inv X (k\<lparr>tick := v_tick\<rparr>) = sched_inv X k"
  "sched_inv X (k\<lparr>soft_timer_idle := v_soft_timer_idle\<rparr>) = sched_inv X k"
  "sched_inv X (k\<lparr>interrupt_nest := v_interrupt_nest\<rparr>) = sched_inv X k"
  "sched_inv X (k\<lparr>sems := v_sems\<rparr>) = sched_inv X k"
  "sched_inv X (k\<lparr>mutexes := v_mutexes\<rparr>) = sched_inv X k"
  "sched_inv X (k\<lparr>events := v_events\<rparr>) = sched_inv X k"
  "sched_inv X (k\<lparr>mailboxes := v_mailboxes\<rparr>) = sched_inv X k"
  "sched_inv X (k\<lparr>msgqueues := v_msgqueues\<rparr>) = sched_inv X k"
  "sched_inv X (k\<lparr>timer_thread := v_timer_thread\<rparr>) = sched_inv X k"
  "sched_inv X (upd_timer r g k) = sched_inv X k"
  by (simp_all add: sched_inv_defs)

lemma live_upd_obj:
  "(\<And>t. r = OThread t \<Longrightarrow> otype (g (objs k r)) = otype (objs k r)) \<Longrightarrow> live (upd_obj r g k) = live k"
  by (auto simp: live_def rt_object_get_type_def fun_eq_iff)

lemma sched_inv_upd_obj:
  "(\<And>t. r = OThread t \<Longrightarrow> otype (g (objs k r)) = otype (objs k r)) \<Longrightarrow>
     sched_inv X (upd_obj r g k) = sched_inv X k"
  by (simp add: sched_inv_defs live_upd_obj)

section \<open>The example system\<close>

lemma ex_live: "live ex_kernel t \<longleftrightarrow> t < 4"
  by (simp add: live_def rt_object_get_type_def)

lemma ex_disjoint: "disjoint_lists (queues ex_kernel)"
  by (auto simp: disjoint_lists_def split: if_splits)

lemma ex_lists_inv: "lists_inv {} ex_kernel"
proof -
  have "threads_ok ex_kernel"
    by (simp add: threads_ok_def ex_live prio_ok_def)
  moreover have "linked {} ex_kernel"
    by (simp add: linked_def ex_live)
  moreover have "ready_linked {} ex_kernel"
    by (auto simp: ready_linked_def ex_live)
  moreover have "group_ok ex_kernel"
  proof -
    have "\<forall>p \<in> set [0..<32]. bit (ready_group ex_kernel) p \<longleftrightarrow> queues ex_kernel (ReadyQ p) \<noteq> []"
      by (simp add: upt_rec)
    then show ?thesis by (simp add: group_ok_def)
  qed
  ultimately show ?thesis using ex_disjoint by (simp add: lists_inv_def)
qed

lemma ex_sched_inv: "sched_inv {} ex_kernel"
  by (auto simp: sched_inv_def ex_lists_inv one_running_def current_ok_def ex_live split: if_splits)

section \<open>Properties\<close>

text \<open>
  A call of \<open>rt_schedule\<close> on a consistent kernel returns, leaves the kernel
  consistent (ready table, bitmap, thread states and wait lists agree, at most the
  current thread is running), and changes nothing but thread states between ready and
  running, the ready lists and the current thread.
\<close>

theorem rt_schedule_preserves:
  assumes "sched_inv {} k" and "current_thread k = Some cur"
  shows "\<exists>k'. rt_schedule k = Some k' \<and> sched_inv {} k' \<and> sched_frame k k'"
  using assms by (rule rt_schedule_total)

theorem rt_schedule_preserves_witness:
  "\<exists>k'. rt_schedule ex_kernel = Some k' \<and> sched_inv {} k' \<and> sched_frame ex_kernel k'"
  by (rule rt_schedule_preserves [OF ex_sched_inv, of 0]) simp

text \<open>
  C5. With the scheduler unlocked, the current thread keeps the processor exactly when it
  is running and every ready thread is less urgent, or equally urgent and the current
  thread has not yielded; the ready lists are then unchanged. Otherwise the head of the
  most urgent non-empty list is dispatched and removed from its list, and a preempted
  thread that was still running goes to the tail of the list of its priority.
\<close>

theorem rt_schedule_dispatch:
  assumes "sched_inv {} k" and "current_thread k = Some cur" and "sched_lock_nest k = 0"
  shows "if keeps_cpu k cur \<or> (\<forall>p. queues k (ReadyQ p) = [])
         then \<exists>k'. rt_schedule k = Some k' \<and> current_thread k' = Some cur \<and> queues k' = queues k
         else \<exists>k' t p ts. rt_schedule k = Some k' \<and> queues k (ReadyQ p) = t # ts
                \<and> (\<forall>q < p. queues k (ReadyQ q) = [])
                \<and> current_thread k' = Some t \<and> tstate (threads k' t) = RT_THREAD_RUNNING
                \<and> queues k' = q_remove t
                    (if tstate (threads k cur) = RT_THREAD_RUNNING
                     then q_insert_before (ReadyQ (unat (current_priority (threads k cur)))) cur (queues k)
                     else queues k)"
  using assms by (rule rt_schedule_choice)

theorem rt_schedule_dispatch_witness:
  "\<exists>k'. rt_schedule ex_kernel = Some k' \<and> current_thread k' = Some 1
     \<and> queues k' (ReadyQ 10) = [2, 0] \<and> queues k' (ReadyQ 5) = []"
proof -
  have nk: "\<not> (keeps_cpu ex_kernel 0 \<or> (\<forall>p. queues ex_kernel (ReadyQ p) = []))"
    by (auto simp: keeps_cpu_def stays_def intro!: exI [of _ "5::nat"])
  obtain k' t p ts where k': "rt_schedule ex_kernel = Some k'"
      "queues ex_kernel (ReadyQ p) = t # ts" "\<forall>q < p. queues ex_kernel (ReadyQ q) = []"
      "current_thread k' = Some t"
      "queues k' = q_remove t (q_insert_before (ReadyQ 10) 0 (queues ex_kernel))"
    using rt_schedule_dispatch [OF ex_sched_inv, of 0, unfolded if_not_P [OF nk]] by auto
  have "\<not> 5 < p" using k'(3) by (auto split: if_splits)
  then have "t = 1" using k'(2) by (auto split: if_splits)
  then show ?thesis using k' by (auto simp: q_remove_def q_insert_before_def)
qed

lemma rt_schedule_most_urgent:
  assumes "sched_inv {} k" and "current_thread k = Some cur" and "sched_lock_nest k = 0"
    and "tstate (threads k cur) = RT_THREAD_RUNNING \<or> queues k (ReadyQ q) \<noteq> []"
  shows "\<exists>k' t. rt_schedule k = Some k' \<and> current_thread k' = Some t
           \<and> tstate (threads k' t) = RT_THREAD_RUNNING
           \<and> (\<forall>p. queues k' (ReadyQ p) \<noteq> [] \<longrightarrow> unat (current_priority (threads k' t)) \<le> p)"
proof -
  obtain k' where k': "rt_schedule k = Some k'" "sched_inv {} k'" "sched_frame k k'"
    using rt_schedule_total [OF assms(1,2)] by blast
  note fr = sched_frame_thread [OF k'(3)]
  note choice = rt_schedule_choice [OF assms(1-3)]
  show ?thesis
  proof (cases "keeps_cpu k cur \<or> (\<forall>p. queues k (ReadyQ p) = [])")
    case True
    have run: "tstate (threads k cur) = RT_THREAD_RUNNING"
      using True assms(4) by (auto simp: keeps_cpu_def)
    have "tstate (threads k' cur) \<noteq> RT_THREAD_READY"
      using k'(1,2) choice True by (auto simp: sched_inv_def one_running_def)
    then have "tstate (threads k' cur) = RT_THREAD_RUNNING"
      using k'(3) run unfolding sched_frame_def by (metis insert_iff insert_subset singletonD)
    then show ?thesis
      using True k'(1) choice fr by (auto simp: keeps_cpu_def stays_def)
  next
    case False
    then obtain t p ts where t: "queues k (ReadyQ p) = t # ts" "\<forall>q < p. queues k (ReadyQ q) = []"
        "current_thread k' = Some t" "tstate (threads k' t) = RT_THREAD_RUNNING"
        and q: "queues k' = q_remove t
                    (if tstate (threads k cur) = RT_THREAD_RUNNING
                     then q_insert_before (ReadyQ (unat (current_priority (threads k cur)))) cur (queues k)
                     else queues k)"
      using choice [unfolded if_not_P [OF False]] k'(1) by auto
    have tp: "unat (current_priority (threads k t)) = p"
      using assms(1) t(1) linked_readyD [of "{}" k t p] by (auto simp: sched_inv_def lists_inv_def)
    have le: "p \<le> r" if "queues k (ReadyQ r) \<noteq> []" for r using t(2) that by (meson not_less)
    have lec: "p \<le> unat (current_priority (threads k cur))"
      if run: "tstate (threads k cur) = RT_THREAD_RUNNING"
    proof -
      obtain r where r: "queues k (ReadyQ r) \<noteq> []" "\<not> stays (threads k cur) r"
        using False run by (auto simp: keeps_cpu_def)
      then have "\<not> stays (threads k cur) p" using le stays_mono by blast
      then show ?thesis by (simp add: stays_def not_less)
    qed
    have "p \<le> r" if "queues k' (ReadyQ r) \<noteq> []" for r
    proof -
      have "queues k (ReadyQ r) \<noteq> [] \<or>
          tstate (threads k cur) = RT_THREAD_RUNNING \<and> r = unat (current_priority (threads k cur))"
        using that by (auto simp: q q_remove_def q_insert_before_def split: if_splits)
      then show ?thesis using le lec by blast
    qed
    then show ?thesis using k'(1) t fr tp by auto
  qed
qed

text \<open>
  C4. After \<open>rt_schedule\<close>, when the scheduler is unlocked and someone can run, the
  current thread is running and no ready thread is more urgent than it.
\<close>

theorem rt_schedule_runs_most_urgent:
  assumes "sched_inv {} k" and "current_thread k = Some cur" and "sched_lock_nest k = 0"
    and "tstate (threads k cur) = RT_THREAD_RUNNING \<or> queues k (ReadyQ q) \<noteq> []"
  shows "\<exists>k' t. rt_schedule k = Some k' \<and> current_thread k' = Some t
           \<and> tstate (threads k' t) = RT_THREAD_RUNNING
           \<and> (\<forall>p. queues k' (ReadyQ p) \<noteq> [] \<longrightarrow> unat (current_priority (threads k' t)) \<le> p)"
  using assms by (rule rt_schedule_most_urgent)

theorem rt_schedule_runs_most_urgent_witness:
  "\<exists>k' t. rt_schedule ex_kernel = Some k' \<and> current_thread k' = Some t
           \<and> tstate (threads k' t) = RT_THREAD_RUNNING
           \<and> (\<forall>p. queues k' (ReadyQ p) \<noteq> [] \<longrightarrow> unat (current_priority (threads k' t)) \<le> p)"
  by (rule rt_schedule_runs_most_urgent [OF ex_sched_inv, of 0 5]) simp_all

end
