(* ===== verification/RT_Object.thy ===== *)
theory RT_Object
  imports RT_Sched
begin

text \<open>
  The object system (\<open>src/object.c\<close>): the per-class lists of kernel objects, static
  initialisation and detaching, allocation and deletion, lookup by name. The address
  the heap returns for a new object (\<open>RT_KERNEL_MALLOC\<close>) is an argument; freeing gives
  the address back. Hooks are null.
\<close>

section \<open>Operations\<close>

text \<open>\<open>rt_object_get_information\<close>: the classes that \<open>rt_object_container\<close> has an entry for
  are thread (1) to timer (10).\<close>

definition rt_object_get_information :: "u8 \<Rightarrow> u8 option" where
  "rt_object_get_information ty = (if 1 \<le> ty \<and> ty \<le> 10 then Some ty else None)"

definition rt_object_get_length :: "u8 \<Rightarrow> kernel \<Rightarrow> nat" where
  "rt_object_get_length ty k =
     (case rt_object_get_information ty of
        None \<Rightarrow> 0
      | Some info \<Rightarrow> length (container k info))"

text \<open>The array \<open>pointers\<close> is returned: its filled prefix.\<close>

definition rt_object_get_pointers :: "u8 \<Rightarrow> int \<Rightarrow> kernel \<Rightarrow> object_ref list" where
  "rt_object_get_pointers ty maxlen k =
     (if maxlen \<le> 0 then []
      else case rt_object_get_information ty of
        None \<Rightarrow> []
      | Some info \<Rightarrow> take (nat maxlen) (container k info))"

definition rt_object_init :: "object_ref \<Rightarrow> u8 \<Rightarrow> string \<Rightarrow> kernel \<Rightarrow> kernel option" where
  "rt_object_init r ty name k =
     do { info \<leftarrow> rt_object_get_information ty;
          let k = rt_enter_critical k;
          rt_assert (r \<notin> set (container k info));
          k \<leftarrow> rt_exit_critical k;
          let k = upd_obj r (\<lambda>ob. ob\<lparr>otype := ty OR RT_Object_Class_Static,
                                     oname := take RT_NAME_MAX name\<rparr>) k;
          Some (k\<lparr>container := q_insert_after info r (container k)\<rparr>) }"

definition rt_object_detach :: "object_ref \<Rightarrow> kernel \<Rightarrow> kernel" where
  "rt_object_detach r k =
     (let k = upd_obj r (\<lambda>ob. ob\<lparr>otype := 0\<rparr>) k
      in k\<lparr>container := q_remove r (container k)\<rparr>)"

text \<open>\<open>rt_memset(object, 0, information->object_size)\<close>.\<close>

fun zero_object :: "object_ref \<Rightarrow> kernel \<Rightarrow> kernel" where
  "zero_object (OThread t) k =
     upd_thread t (\<lambda>_. \<lparr>error = 0, stat = 0, current_priority = 0, init_priority = 0, number_mask = 0,
        event_set = 0, event_info = 0, init_tick = 0, remaining_tick = 0\<rparr>) k"
| "zero_object (OTimer r) k =
     upd_timer r (\<lambda>tm. tm\<lparr>tm_init_tick := 0, timeout_tick := 0\<rparr>) k"
| "zero_object (OIpc i) k =
     k\<lparr>sems := (sems k)(i := \<lparr>sem_value = 0\<rparr>),
       mutexes := (mutexes k)(i := \<lparr>mtx_value = 0, original_priority = 0, hold = 0, owner = None\<rparr>),
       events := (events k)(i := \<lparr>ev_set = 0\<rparr>),
       mailboxes := (mailboxes k)(i := \<lparr>mb_pool = [], mb_size = 0, mb_entry = 0,
          in_offset = 0, out_offset = 0\<rparr>),
       msgqueues := (msgqueues k)(i := \<lparr>mq_link = (\<lambda>_. None), mq_data = (\<lambda>_. []), mq_msg_size = 0,
          max_msgs = 0, mq_entry = 0, msg_queue_head = None, msg_queue_tail = None,
          msg_queue_free = None\<rparr>)\<rparr>"

definition rt_object_allocate ::
    "object_ref option \<Rightarrow> u8 \<Rightarrow> string \<Rightarrow> kernel \<Rightarrow> (object_ref option \<times> kernel) option" where
  "rt_object_allocate mem ty name k =
     do { RT_DEBUG_NOT_IN_INTERRUPT k;
          info \<leftarrow> rt_object_get_information ty;
          case mem of
            None \<Rightarrow> Some (None, k)
          | Some r \<Rightarrow>
              let k = zero_object r k;
                  k = upd_obj r (\<lambda>_. \<lparr>oname = take RT_NAME_MAX name, otype = ty, oflag = 0\<rparr>) k
              in Some (Some r, k\<lparr>container := q_insert_after info r (container k)\<rparr>) }"

text \<open>The address that goes back to the heap is returned.\<close>

definition rt_object_delete :: "object_ref \<Rightarrow> kernel \<Rightarrow> (object_ref \<times> kernel) option" where
  "rt_object_delete r k =
     do { rt_assert (\<not> rt_object_is_systemobject r k);
          let k = upd_obj r (\<lambda>ob. ob\<lparr>otype := RT_Object_Class_Null\<rparr>) k;
          Some (r, k\<lparr>container := q_remove r (container k)\<rparr>) }"

text \<open>\<open>rt_strncmp\<close>: a string is the list of its characters before the terminating zero;
  the difference is held in a \<open>signed char\<close>.\<close>

fun char_at :: "string \<Rightarrow> int" where
  "char_at [] = 0"
| "char_at (c # _) = int (of_char c)"

fun rt_strncmp :: "string \<Rightarrow> string \<Rightarrow> nat \<Rightarrow> int" where
  "rt_strncmp cs ct 0 = 0"
| "rt_strncmp cs ct (Suc n) =
     (let res = sint (word_of_int (char_at cs - char_at ct) :: u8)
      in if res \<noteq> 0 \<or> char_at cs = 0 then res else rt_strncmp (tl cs) (tl ct) n)"

fun find_named :: "string \<Rightarrow> (object_ref \<Rightarrow> rt_object) \<Rightarrow> object_ref list \<Rightarrow> object_ref option" where
  "find_named name ob [] = None"
| "find_named name ob (r # rs) =
     (if rt_strncmp (oname (ob r)) name RT_NAME_MAX = 0 then Some r else find_named name ob rs)"

definition rt_object_find :: "string option \<Rightarrow> u8 \<Rightarrow> kernel \<Rightarrow> (object_ref option \<times> kernel) option" where
  "rt_object_find name ty k =
     (case (name, rt_object_get_information ty) of
        (Some name, Some info) \<Rightarrow>
          do { RT_DEBUG_NOT_IN_INTERRUPT k;
               let k = rt_enter_critical k;
               let found = find_named name (objs k) (container k info);
               k \<leftarrow> rt_exit_critical k;
               Some (found, k) }
      | _ \<Rightarrow> Some (None, k))"

section \<open>Comparing names\<close>

definition cstring :: "string \<Rightarrow> bool" where
  "cstring s \<longleftrightarrow> (\<forall>c \<in> set s. of_char c \<noteq> (0::nat))"

lemma cstring_simps [simp]: "cstring []" "cstring (c # s) \<longleftrightarrow> of_char c \<noteq> (0::nat) \<and> cstring s"
  by (auto simp: cstring_def)

lemma cstring_tl: "cstring s \<Longrightarrow> cstring (tl s)"
  by (cases s) auto

lemma char_at_bounds: "0 \<le> char_at s" "char_at s < 256"
proof -
  have "(of_char c :: nat) < 256" for c
    by (metis of_char_mod_256 mod_less_divisor zero_less_numeral)
  then have "int (of_char c) < 256" for c by (metis of_nat_less_numeral_iff)
  then show "0 \<le> char_at s" "char_at s < 256" by (cases s; simp)+
qed

lemma char_diff_zero:
  "sint (word_of_int (char_at s - char_at t) :: u8) = 0 \<longleftrightarrow> char_at s = char_at t"
proof
  assume "sint (word_of_int (char_at s - char_at t) :: u8) = 0"
  then have "(word_of_int (char_at s - char_at t) :: u8) = 0" by (simp only: signed_eq_0_iff)
  then have "256 dvd char_at s - char_at t"
    by (simp add: word_of_int_eq_iff take_bit_eq_mod mod_eq_dvd_iff)
  then have d: "(char_at s - char_at t) mod 256 = 0" by simp
  have "- 256 < char_at s - char_at t" "char_at s - char_at t < 256"
    using char_at_bounds [of s] char_at_bounds [of t] by linarith+
  with d show "char_at s = char_at t" by presburger
qed simp

lemma rt_strncmp_zero:
  "cstring s \<Longrightarrow> cstring t \<Longrightarrow> rt_strncmp s t n = 0 \<longleftrightarrow> take n s = take n t"
proof (induction s t n rule: rt_strncmp.induct)
  case (2 s t n)
  show ?case
  proof (cases "char_at s = char_at t")
    case True
    have step: "rt_strncmp s t (Suc n) = (if char_at s = 0 then 0 else rt_strncmp (tl s) (tl t) n)"
      using True by simp
    show ?thesis
    proof (cases s)
      case Nil
      then have "t = []" using True 2(3) by (cases t) auto
      then show ?thesis using Nil by simp
    next
      case (Cons c s')
      then obtain d t' where t: "t = d # t'" using True 2(2) by (cases t) auto
      have "of_char c = (of_char d :: nat)" using True Cons t by (simp only: char_at.simps of_nat_eq_iff)
      then have "c = d" by (simp only: of_char_eq_iff)
      have "char_at s \<noteq> 0" using Cons 2(2) by simp
      moreover have "sint (word_of_int (char_at s - char_at t) :: u8) = 0" using True by simp
      ultimately have "rt_strncmp (tl s) (tl t) n = 0 \<longleftrightarrow> take n (tl s) = take n (tl t)"
        using 2 cstring_tl by (intro 2(1)) auto
      then show ?thesis using step \<open>char_at s \<noteq> 0\<close> Cons t \<open>c = d\<close> by simp
    qed
  next
    case False
    then have "take (Suc n) s \<noteq> take (Suc n) t" by (cases s; cases t) auto
    moreover have "rt_strncmp s t (Suc n) \<noteq> 0"
    proof -
      define r where "r = sint (word_of_int (char_at s - char_at t) :: u8)"
      have "r \<noteq> 0" using False unfolding r_def char_diff_zero .
      then show ?thesis by (simp only: rt_strncmp.simps Let_def r_def [symmetric]) simp
    qed
    ultimately show ?thesis by blast
  qed
qed simp

section \<open>Consistency of the containers\<close>

text \<open>Every registered object is in the list of its class, and only there.\<close>

definition obj_inv :: "kernel \<Rightarrow> bool" where
  "obj_inv k \<longleftrightarrow> disjoint_lists (container k)
     \<and> (\<forall>ty r. r \<in> set (container k ty) \<longrightarrow> rt_object_get_type r k = ty)"

text \<open>The scheduler lock is not nested beyond what its 16 bits hold.\<close>

definition lock_ok :: "kernel \<Rightarrow> bool" where
  "lock_ok k \<longleftrightarrow> 0 \<le> sint (sched_lock_nest k) \<and> sint (sched_lock_nest k) < 32767"

lemma critical_section:
  assumes "sched_inv {} k" "lock_ok k"
  shows "\<exists>k'. rt_exit_critical (rt_enter_critical k) = Some k' \<and> sched_inv {} k' \<and> sched_frame k k'"
proof (cases "sched_lock_nest k = 0 \<and> current_thread k \<noteq> None")
  case True
  then obtain cur where "current_thread k = Some cur" by auto
  then show ?thesis
    using exit_enter_critical rt_schedule_total [OF assms(1)] assms(2) True by (simp add: lock_ok_def)
next
  case False
  then have "rt_exit_critical (rt_enter_critical k) = Some k"
    using exit_enter_critical [of k] assms(2) by (auto simp: lock_ok_def)
  then show ?thesis using assms(1) sched_frame_refl by blast
qed

lemma enter_critical_fields [simp]:
  "container (rt_enter_critical k) = container k" "objs (rt_enter_critical k) = objs k"
  by (simp_all add: rt_enter_critical_def)

lemma static_type:
  assumes "1 \<le> ty" "ty \<le> (10::u8)"
  shows "(ty OR 0x80) AND NOT 0x80 = ty" "(ty OR 0x80) AND 0x80 \<noteq> 0"
proof -
  have "unat ty \<in> set [1..<11]" using assms by (simp add: word_le_nat_alt)
  then have "ty \<in> of_nat ` set [1..<11]" by (intro image_eqI [of _ _ "unat ty"]) simp_all
  then have "ty \<in> {1, 2, 3, 4, 5, 6, 7, 8, 9, 10}" by (simp add: upt_rec)
  then show "(ty OR 0x80) AND NOT 0x80 = ty" "(ty OR 0x80) AND 0x80 \<noteq> 0" by auto
qed

lemma rt_object_init_ok:
  assumes inv: "sched_inv {} k" "obj_inv k" "lock_ok k"
    and ty: "1 \<le> ty" "ty \<le> 10" and det: "detached (container k) r"
  shows "\<exists>k'. rt_object_init r ty name k = Some k' \<and> obj_inv k'
      \<and> rt_object_get_type r k' = ty \<and> rt_object_is_systemobject r k'
      \<and> oname (objs k' r) = take RT_NAME_MAX name
      \<and> container k' = q_insert_after ty r (container k)
      \<and> (\<forall>s. s \<noteq> r \<longrightarrow> objs k' s = objs k s)"
proof -
  obtain k1 where k1: "rt_exit_critical (rt_enter_critical k) = Some k1" "sched_frame k k1"
    using critical_section [OF inv(1,3)] by blast
  have nin: "r \<notin> set (container k ty)" using det by (simp add: detached_def)
  let ?k2 = "upd_obj r (\<lambda>ob. ob\<lparr>otype := ty OR RT_Object_Class_Static,
                                     oname := take RT_NAME_MAX name\<rparr>) k1"
  let ?k3 = "?k2\<lparr>container := q_insert_after ty r (container k1)\<rparr>"
  have fr: "objs k1 = objs k" "container k1 = container k"
    using sched_frame_fields [OF k1(2)] by simp_all
  have eq: "rt_object_init r ty name k = Some ?k3"
    using k1(1) nin ty by (simp add: rt_object_init_def rt_object_get_information_def Let_def)
  have t: "rt_object_get_type r ?k3 = ty" "rt_object_is_systemobject r ?k3"
    unfolding rt_object_get_type_def rt_object_is_systemobject_def using static_type [OF ty] by simp_all
  have "obj_inv ?k3"
    unfolding obj_inv_def
  proof (intro conjI allI impI)
    show "disjoint_lists (container ?k3)"
      using inv(2) det by (simp add: fr obj_inv_def disjoint_insert_after)
    fix ty' s assume s: "s \<in> set (container ?k3 ty')"
    show "rt_object_get_type s ?k3 = ty'"
    proof (cases "s = r")
      case True
      then have "ty' = ty"
        using s det by (auto simp: fr q_insert_after_def detached_def split: if_splits)
      then show ?thesis using True t by simp
    next
      case False
      then have "s \<in> set (container k ty')"
        using s by (auto simp: fr q_insert_after_def split: if_splits)
      then have "rt_object_get_type s k = ty'" using inv(2) by (simp add: obj_inv_def)
      then show ?thesis using False by (simp add: rt_object_get_type_def fr)
    qed
  qed
  then show ?thesis using eq t by (simp add: fr)
qed

lemma find_named_some:
  assumes "cstring name" "\<And>r. r \<in> set rs \<Longrightarrow> cstring (oname (ob r)) \<and> length (oname (ob r)) \<le> RT_NAME_MAX"
  shows "find_named name ob rs = find (\<lambda>r. oname (ob r) = take RT_NAME_MAX name) rs"
  using assms(2)
proof (induction rs)
  case (Cons r rs)
  then show ?case using rt_strncmp_zero [OF _ assms(1), of "oname (ob r)" 8] by simp
qed simp

text \<open>Detaching.\<close>

lemma rt_object_detach_ok:
  assumes "obj_inv k"
  shows "obj_inv (rt_object_detach r k)" "detached (container (rt_object_detach r k)) r"
    "rt_object_get_type r (rt_object_detach r k) = RT_Object_Class_Null"
proof -
  have c: "container (rt_object_detach r k) = q_remove r (container k)"
    by (simp add: rt_object_detach_def Let_def)
  have t: "rt_object_get_type s (rt_object_detach r k) = (if s = r then 0 else rt_object_get_type s k)" for s
    by (simp add: rt_object_detach_def rt_object_get_type_def Let_def)
  show "detached (container (rt_object_detach r k)) r" unfolding c by simp
  show "rt_object_get_type r (rt_object_detach r k) = RT_Object_Class_Null" by (simp add: t)
  have "s \<noteq> r \<and> s \<in> set (container k ty)" if "s \<in> set (q_remove r (container k) ty)" for s ty
    using that by (simp add: q_remove_def)
  then show "obj_inv (rt_object_detach r k)"
    using assms unfolding obj_inv_def c t by (auto simp: disjoint_remove)
qed

lemma cstring_take: "cstring s \<Longrightarrow> cstring (take n s)"
  by (auto simp: cstring_def dest: in_set_takeD)

section \<open>Properties\<close>

lemma ex_obj_inv: "obj_inv ex_kernel"
  by (simp add: obj_inv_def disjoint_lists_def)

lemma ex_lock_ok: "lock_ok ex_kernel"
  by (simp add: lock_ok_def)

text \<open>
  C38. Initialising an object that is in no class list registers it: it returns, the
  object gets its class with the static bit, its name cut to \<open>RT_NAME_MAX\<close> characters, and
  the head of the list of its class; no other object changes, and the lists stay disjoint
  with every registered object in the list of its class. An object already registered in
  the class runs into the assertion.
\<close>

theorem rt_object_init_registers:
  assumes "sched_inv {} k" "obj_inv k" "lock_ok k" and "1 \<le> ty" "ty \<le> 10"
  shows "(detached (container k) r \<longrightarrow>
      (\<exists>k'. rt_object_init r ty name k = Some k' \<and> obj_inv k'
      \<and> rt_object_get_type r k' = ty \<and> rt_object_is_systemobject r k'
      \<and> oname (objs k' r) = take RT_NAME_MAX name
      \<and> container k' = q_insert_after ty r (container k)
      \<and> (\<forall>s. s \<noteq> r \<longrightarrow> objs k' s = objs k s)))
    \<and> (r \<in> set (container k ty) \<longrightarrow> rt_object_init r ty name k = None)"
proof (intro conjI impI)
  assume "detached (container k) r"
  then show "\<exists>k'. rt_object_init r ty name k = Some k' \<and> obj_inv k'
      \<and> rt_object_get_type r k' = ty \<and> rt_object_is_systemobject r k'
      \<and> oname (objs k' r) = take RT_NAME_MAX name
      \<and> container k' = q_insert_after ty r (container k)
      \<and> (\<forall>s. s \<noteq> r \<longrightarrow> objs k' s = objs k s)"
    by (rule rt_object_init_ok [OF assms])
next
  assume "r \<in> set (container k ty)"
  then show "rt_object_init r ty name k = None"
    using assms(4,5) by (simp add: rt_object_init_def rt_object_get_information_def Let_def)
qed

theorem rt_object_init_registers_witness:
  "\<exists>k'. rt_object_init (OIpc 7) 2 ''sem1'' ex_kernel = Some k' \<and> obj_inv k'
      \<and> rt_object_get_type (OIpc 7) k' = 2 \<and> oname (objs k' (OIpc 7)) = ''sem1''"
proof -
  have "detached (container ex_kernel) (OIpc 7)" by (simp add: detached_def)
  then show ?thesis
    using rt_object_init_registers [OF ex_sched_inv ex_obj_inv ex_lock_ok, of 2 "OIpc 7" "''sem1''"]
    by auto
qed

text \<open>
  An object that has just been registered under a name is what a lookup of that name
  (in full, beyond the \<open>RT_NAME_MAX\<close> characters that are stored) in its class returns.
\<close>

theorem rt_object_init_find:
  assumes "sched_inv {} k" "obj_inv k" "lock_ok k" "interrupt_nest k = 0"
    and "1 \<le> ty" "ty \<le> 10" and "detached (container k) r" and "cstring name"
  shows "\<exists>k' k''. rt_object_init r ty name k = Some k'
      \<and> rt_object_find (Some name) ty k' = Some (Some r, k'')"
proof -
  obtain k1 where k1: "rt_exit_critical (rt_enter_critical k) = Some k1" "sched_inv {} k1" "sched_frame k k1"
    using critical_section [OF assms(1,3)] by blast
  note fr = sched_frame_fields [OF k1(3)]
  have nin: "r \<notin> set (container k ty)" using assms(7) by (simp add: detached_def)
  let ?k2 = "upd_obj r (\<lambda>ob. ob\<lparr>otype := ty OR RT_Object_Class_Static,
                                     oname := take RT_NAME_MAX name\<rparr>) k1"
  let ?k3 = "?k2\<lparr>container := q_insert_after ty r (container k1)\<rparr>"
  have eq: "rt_object_init r ty name k = Some ?k3"
    using k1(1) nin assms(5,6) by (simp add: rt_object_init_def rt_object_get_information_def Let_def)
  have nest: "interrupt_nest ?k3 = 0" using fr(4) assms(4) by simp
  have found: "find_named name (objs ?k3) (container ?k3 ty) = Some r"
    using rt_strncmp_zero [OF cstring_take [OF assms(8)] assms(8), of 8 8]
    by (simp add: q_insert_after_def)
  have "\<exists>k4. rt_exit_critical (rt_enter_critical ?k3) = Some k4"
  proof (cases "sched_lock_nest ?k3 = 0 \<and> current_thread ?k3 \<noteq> None")
    case False
    then have "rt_exit_critical (rt_enter_critical ?k3) = Some ?k3"
      using exit_enter_critical [of ?k3] assms(3) fr(3) by (auto simp: lock_ok_def)
    then show ?thesis by blast
  next
    case True
    then obtain cur where cur: "current_thread k1 = Some cur" "sched_lock_nest k1 = 0" by auto
    have "rt_exit_critical (rt_enter_critical ?k3) = rt_schedule ?k3"
      using exit_enter_critical [of ?k3] True by simp
    moreover obtain k' where "rt_schedule k1 = Some k'"
      using rt_schedule_total [OF k1(2) cur(1)] by blast
    then have "rt_schedule ?k3 \<noteq> None"
      using cur by (auto simp: rt_schedule_def schedule_switch_def get_highest_priority_thread_def Let_def
          split: option.splits list.splits if_splits)
    ultimately show ?thesis by auto
  qed
  then show ?thesis
    using eq found nest assms(5,6)
    by (auto simp: rt_object_find_def rt_object_get_information_def RT_DEBUG_NOT_IN_INTERRUPT_def
        rt_interrupt_get_nest_def Let_def)
qed

theorem rt_object_init_find_witness:
  "\<exists>k' k''. rt_object_init (OIpc 7) 2 ''semaphore1'' ex_kernel = Some k'
      \<and> rt_object_find (Some ''semaphore1'') 2 k' = Some (Some (OIpc 7), k'')"
  by (rule rt_object_init_find [OF ex_sched_inv ex_obj_inv ex_lock_ok])
    (simp_all add: detached_def)

text \<open>
  A lookup returns the most recently registered object of the class whose name agrees
  with the one asked for in its first \<open>RT_NAME_MAX\<close> characters, and null when there is
  none; it fails (in an assertion) inside an interrupt.
\<close>

theorem rt_object_find_first:
  assumes "sched_inv {} k" "lock_ok k" and "1 \<le> ty" "ty \<le> 10" and "cstring name"
    and "\<forall>r \<in> set (container k ty). cstring (oname (objs k r)) \<and> length (oname (objs k r)) \<le> RT_NAME_MAX"
  shows "if interrupt_nest k = 0
         then \<exists>k'. rt_object_find (Some name) ty k
                = Some (find (\<lambda>r. oname (objs k r) = take RT_NAME_MAX name) (container k ty), k')
              \<and> sched_inv {} k' \<and> sched_frame k k'
         else rt_object_find (Some name) ty k = None"
proof -
  obtain k1 where k1: "rt_exit_critical (rt_enter_critical k) = Some k1" "sched_inv {} k1" "sched_frame k k1"
    using critical_section [OF assms(1,2)] by blast
  have "find_named name (objs k) (container k ty)
      = find (\<lambda>r. oname (objs k r) = take RT_NAME_MAX name) (container k ty)"
    using assms(6) by (intro find_named_some [OF assms(5)]) blast
  then show ?thesis
    using k1 assms(3,4)
    by (simp add: rt_object_find_def rt_object_get_information_def RT_DEBUG_NOT_IN_INTERRUPT_def
        rt_interrupt_get_nest_def Let_def)
qed

theorem rt_object_find_first_witness:
  "\<exists>k'. rt_object_find (Some ''ipc'') 2
       (ex_kernel\<lparr>container := (\<lambda>ty. if ty = 2 then [OIpc 3, OIpc 0] else [])\<rparr>) = Some (Some (OIpc 3), k')"
  using rt_object_find_first [of "ex_kernel\<lparr>container := (\<lambda>ty. if ty = 2 then [OIpc 3, OIpc 0] else [])\<rparr>"
      2 "''ipc''"] ex_sched_inv by (auto simp: lock_ok_def)

end
