(* ===== verification/RT_Timer.thy ===== *)
theory RT_Timer
  imports RT_Object
begin

text \<open>
  Timers (\<open>src/timer.c\<close>), the part that does not touch threads: initialisation,
  removal, stopping, control, and the insertion of a timer into its list by timeout,
  both on the linked nodes and on HOL lists. \<open>RT_TIMER_SKIP_LIST_LEVEL\<close> is 1, so there is
  one row. Starting a soft timer wakes the timer thread and is in \<open>RT_Thread\<close>.
\<close>

section \<open>Operations\<close>

definition tflag :: "timer_ref \<Rightarrow> kernel \<Rightarrow> u8" where
  "tflag r k = oflag (objs k (OTimer r))"

definition set_tflag :: "timer_ref \<Rightarrow> u8 \<Rightarrow> kernel \<Rightarrow> kernel" where
  "set_tflag r f k = upd_obj (OTimer r) (\<lambda>ob. ob\<lparr>oflag := f\<rparr>) k"

definition activated :: "timer_ref \<Rightarrow> kernel \<Rightarrow> bool" where
  "activated r k \<longleftrightarrow> tflag r k AND RT_TIMER_FLAG_ACTIVATED \<noteq> 0"

definition periodic :: "timer_ref \<Rightarrow> kernel \<Rightarrow> bool" where
  "periodic r k \<longleftrightarrow> tflag r k AND RT_TIMER_FLAG_PERIODIC \<noteq> 0"

definition is_soft :: "timer_ref \<Rightarrow> kernel \<Rightarrow> bool" where
  "is_soft r k \<longleftrightarrow> tflag r k AND RT_TIMER_FLAG_SOFT_TIMER \<noteq> 0"

definition deactivate :: "timer_ref \<Rightarrow> kernel \<Rightarrow> kernel" where
  "deactivate r k = set_tflag r (tflag r k AND NOT RT_TIMER_FLAG_ACTIVATED) k"

definition activate :: "timer_ref \<Rightarrow> kernel \<Rightarrow> kernel" where
  "activate r k = set_tflag r (tflag r k OR RT_TIMER_FLAG_ACTIVATED) k"

text \<open>\<open>_rt_timer_init\<close>. The list node of a timer that is in no list is a circle of its
  own, which is what \<open>rt_list_init\<close> makes it.\<close>

definition timer_setup :: "timer_ref \<Rightarrow> timeout_fn \<Rightarrow> u32 \<Rightarrow> u8 \<Rightarrow> kernel \<Rightarrow> kernel" where
  "timer_setup r timeout time flag k =
     (let k = set_tflag r flag k;
          k = deactivate r k
      in upd_timer r (\<lambda>_. \<lparr>timeout_func = timeout, tm_init_tick = time, timeout_tick = 0\<rparr>) k)"

definition rt_timer_list_next_timeout :: "thead \<Rightarrow> kernel \<Rightarrow> u32" where
  "rt_timer_list_next_timeout h k =
     (case tlists k h of [] \<Rightarrow> RT_TICK_MAX | r # _ \<Rightarrow> timeout_tick (timers k r))"

definition rt_timer_next_timeout_tick :: "kernel \<Rightarrow> u32" where
  "rt_timer_next_timeout_tick k = rt_timer_list_next_timeout HardList k"

definition timer_remove :: "timer_ref \<Rightarrow> kernel \<Rightarrow> kernel" where
  "timer_remove r k = k\<lparr>tlists := q_remove r (tlists k)\<rparr>"

definition rt_timer_init ::
    "timer_ref \<Rightarrow> string \<Rightarrow> timeout_fn \<Rightarrow> u32 \<Rightarrow> u8 \<Rightarrow> kernel \<Rightarrow> kernel option" where
  "rt_timer_init r name timeout time flag k =
     do { k \<leftarrow> rt_object_init (OTimer r) RT_Object_Class_Timer name k;
          Some (timer_setup r timeout time flag k) }"

definition assert_timer :: "timer_ref \<Rightarrow> kernel \<Rightarrow> unit option" where
  "assert_timer r k = rt_assert (rt_object_get_type (OTimer r) k = RT_Object_Class_Timer)"

definition rt_timer_detach :: "timer_ref \<Rightarrow> kernel \<Rightarrow> (rt_err_t \<times> kernel) option" where
  "rt_timer_detach r k =
     do { assert_timer r k;
          rt_assert (rt_object_is_systemobject (OTimer r) k);
          let k = timer_remove r k;
          let k = deactivate r k;
          Some (RT_EOK, rt_object_detach (OTimer r) k) }"

text \<open>\<open>rt_timer_create\<close>, with the address the heap returns for the timer as an argument.\<close>

definition rt_timer_create ::
    "timer_ref option \<Rightarrow> string \<Rightarrow> timeout_fn \<Rightarrow> u32 \<Rightarrow> u8 \<Rightarrow> kernel \<Rightarrow> (timer_ref option \<times> kernel) option" where
  "rt_timer_create mem name timeout time flag k =
     do { (r, k) \<leftarrow> rt_object_allocate (map_option OTimer mem) RT_Object_Class_Timer name k;
          case (r, mem) of
            (Some _, Some timer) \<Rightarrow> Some (Some timer, timer_setup timer timeout time flag k)
          | _ \<Rightarrow> Some (None, k) }"

definition rt_timer_delete :: "timer_ref \<Rightarrow> kernel \<Rightarrow> (rt_err_t \<times> kernel) option" where
  "rt_timer_delete r k =
     do { assert_timer r k;
          rt_assert (\<not> rt_object_is_systemobject (OTimer r) k);
          let k = timer_remove r k;
          let k = deactivate r k;
          (_, k) \<leftarrow> rt_object_delete (OTimer r) k;
          Some (RT_EOK, k) }"

definition rt_timer_stop :: "timer_ref \<Rightarrow> kernel \<Rightarrow> (rt_err_t \<times> kernel) option" where
  "rt_timer_stop r k =
     do { assert_timer r k;
          if \<not> activated r k then Some (- RT_ERROR, k)
          else Some (RT_EOK, deactivate r (timer_remove r k)) }"

text \<open>\<open>rt_timer_control\<close>: \<open>arg\<close> is the word the pointer argument refers to; its final value
  is returned.\<close>

definition rt_timer_control :: "timer_ref \<Rightarrow> nat \<Rightarrow> u32 \<Rightarrow> kernel \<Rightarrow> (rt_err_t \<times> u32 \<times> kernel) option" where
  "rt_timer_control r cmd arg k =
     do { assert_timer r k;
          if cmd = RT_TIMER_CTRL_GET_TIME then Some (RT_EOK, tm_init_tick (timers k r), k)
          else if cmd = RT_TIMER_CTRL_SET_TIME
            then Some (RT_EOK, arg, upd_timer r (\<lambda>tm. tm\<lparr>tm_init_tick := arg\<rparr>) k)
          else if cmd = RT_TIMER_CTRL_SET_ONESHOT
            then Some (RT_EOK, arg, set_tflag r (tflag r k AND NOT RT_TIMER_FLAG_PERIODIC) k)
          else if cmd = RT_TIMER_CTRL_SET_PERIODIC
            then Some (RT_EOK, arg, set_tflag r (tflag r k OR RT_TIMER_FLAG_PERIODIC) k)
          else if cmd = RT_TIMER_CTRL_GET_STATE
            then Some (RT_EOK, if activated r k then 1 else 0, k)
          else Some (RT_EOK, arg, k) }"

text \<open>The position \<open>rt_timer_start\<close> looks for: past the timers that are due no later, before
  the first that is due later.\<close>

definition due_later :: "u32 \<Rightarrow> u32 \<Rightarrow> bool" where
  "due_later x new \<longleftrightarrow> x - new \<noteq> 0 \<and> x - new < RT_TICK_MAX div 2"

fun insert_timer :: "(timer_ref \<Rightarrow> u32) \<Rightarrow> timer_ref \<Rightarrow> timer_ref list \<Rightarrow> timer_ref list" where
  "insert_timer tk r [] = [r]"
| "insert_timer tk r (x # xs) = (if due_later (tk x) (tk r) then r # x # xs else x # insert_timer tk r xs)"

text \<open>\<open>rt_timer_start\<close> up to the insertion.\<close>

definition timer_enqueue :: "timer_ref \<Rightarrow> kernel \<Rightarrow> kernel option" where
  "timer_enqueue r k =
     do { assert_timer r k;
          let k = timer_remove r k;
          let k = deactivate r k;
          rt_assert (tm_init_tick (timers k r) < RT_TICK_MAX div 2);
          let k = upd_timer r (\<lambda>tm. tm\<lparr>timeout_tick := tick k + tm_init_tick tm\<rparr>) k;
          let h = (if is_soft r k then SoftList else HardList);
          let k = k\<lparr>tlists := q_replace h (insert_timer (\<lambda>x. timeout_tick (timers k x)) r (tlists k h)) (tlists k)\<rparr>;
          Some (activate r k) }"

section \<open>The insertion on linked nodes\<close>

text \<open>The search loop of \<open>rt_timer_start\<close>, on the circular list: \<open>row_head\<close> moves on until it is
  the last node or the timer after it is due later.\<close>

partial_function (option) timer_row_head ::
    "(timer_ref \<Rightarrow> u32) \<Rightarrow> u32 \<Rightarrow> thead \<Rightarrow> (thead, timer_ref) lnode \<Rightarrow> (thead, timer_ref) lnode list_mem
       \<Rightarrow> (thead, timer_ref) lnode option" where
  "timer_row_head tk new h row_head m =
     (if row_head = lprev (m (Head h)) then Some row_head
      else case lnext (m row_head) of
             Head _ \<Rightarrow> None
           | Node t \<Rightarrow>
               if tk t - new = 0 then timer_row_head tk new h (Node t) m
               else if tk t - new < RT_TICK_MAX div 2 then Some row_head
               else timer_row_head tk new h (Node t) m)"

definition timer_list_insert ::
    "(timer_ref \<Rightarrow> u32) \<Rightarrow> thead \<Rightarrow> timer_ref \<Rightarrow> (thead, timer_ref) lnode list_mem
       \<Rightarrow> (thead, timer_ref) lnode list_mem option" where
  "timer_list_insert tk h r m =
     do { row_head \<leftarrow> timer_row_head tk (tk r) h (Head h) m;
          Some (rt_list_insert_after row_head (Node r) m) }"

lemma fam_insert_at:
  assumes "fam m Q" "detached Q n" "Q h = xs @ ys"
    and "p = (if xs = [] then Head h else Node (last xs))"
  shows "fam (rt_list_insert_after p (Node n) m) (Q(h := xs @ n # ys))"
proof (cases xs rule: rev_cases)
  case Nil
  then show ?thesis
    using fam_insert_after_head [OF assms(1,2), of h] assms(3,4) by (simp add: q_insert_after_def)
next
  case (snoc zs z)
  then show ?thesis
    using fam_insert_after_node [OF assms(1,2), of h zs z ys] assms(3,4) by simp
qed

lemma timer_row_head_ok:
  assumes "fam m Q" "Q h = xs @ ys" "p = (if xs = [] then Head h else Node (last xs))"
  shows "\<exists>us vs. ys = us @ vs \<and> insert_timer tk r ys = us @ r # vs
     \<and> timer_row_head tk (tk r) h p m
         = Some (if xs @ us = [] then Head h else Node (last (xs @ us)))"
  using assms(2,3)
proof (induction ys arbitrary: xs p)
  case Nil
  have c: "circ m (Head h) (map Node xs)" using circ_fam [OF assms(1), of h] Nil by simp
  then have "lprev (m (Head h)) = last (Head h # map Node xs)"
    by (intro dseg_prev_last) (simp add: circ_def)
  then have "p = lprev (m (Head h))" using Nil(2) by (simp add: last_map)
  then have "timer_row_head tk (tk r) h p m = Some p" by (simp add: timer_row_head.simps)
  then show ?case using Nil(2) by simp
next
  case (Cons y ys)
  have c: "circ m (Head h) (map Node xs @ Node y # map Node ys)"
    using circ_fam [OF assms(1), of h] Cons.prems(1) by simp
  have "lprev (m (Head h)) = last (Head h # map Node xs @ Node y # map Node ys)"
    using c by (intro dseg_prev_last) (simp add: circ_def)
  then have last: "lprev (m (Head h)) = last (map Node (y # ys))" by simp
  have ne: "p \<noteq> lprev (m (Head h))"
  proof -
    have "last (map Node (y # ys)) \<in> set (map Node (y # ys))" by (intro last_in_set) simp
    moreover have "p \<notin> set (map Node (y # ys))"
    proof (cases "xs = []")
      case True
      then show ?thesis using Cons.prems(2) by auto
    next
      case False
      have "Node (last xs) \<in> set (map Node xs)" using last_in_set [OF False] by simp
      then show ?thesis using c False Cons.prems(2) unfolding circ_def distinct.simps distinct_append
        by (metis (no_types, lifting) IntI emptyE list.set_map list.simps(9))
    qed
    ultimately show ?thesis unfolding last by metis
  qed
  have nx: "lnext (m p) = Node y"
  proof (cases xs rule: rev_cases)
    case Nil
    then show ?thesis using c Cons.prems(2) by (simp add: circ_def)
  next
    case (snoc zs z)
    then have "dseg m (Node z) (Node y # map Node ys) (Head h)" using c by (simp add: circ_def)
    then show ?thesis using snoc Cons.prems(2) by simp
  qed
  show ?case
  proof (cases "due_later (tk y) (tk r)")
    case True
    have "timer_row_head tk (tk r) h p m = Some p"
      using True ne nx by (subst timer_row_head.simps) (simp add: due_later_def)
    then show ?thesis
      using True Cons.prems(2) by (intro exI [of _ "[]"] exI [of _ "y # ys"]) simp
  next
    case False
    have step: "timer_row_head tk (tk r) h p m = timer_row_head tk (tk r) h (Node y) m"
      using False ne nx by (subst timer_row_head.simps) (auto simp: due_later_def)
    obtain us vs where "ys = us @ vs" "insert_timer tk r ys = us @ r # vs"
        "timer_row_head tk (tk r) h (Node y) m
          = Some (if (xs @ [y]) @ us = [] then Head h else Node (last ((xs @ [y]) @ us)))"
      using Cons.IH [of "xs @ [y]" "Node y"] Cons.prems(1) by auto
    then show ?thesis
      using False step by (intro exI [of _ "y # us"] exI [of _ vs]) simp
  qed
qed

lemma timer_list_insert_ok:
  assumes "fam m Q" "detached Q r"
  shows "\<exists>m'. timer_list_insert tk h r m = Some m' \<and> fam m' (Q(h := insert_timer tk r (Q h)))"
proof -
  obtain us vs where uv: "Q h = us @ vs" "insert_timer tk r (Q h) = us @ r # vs"
      "timer_row_head tk (tk r) h (Head h) m = Some (if us = [] then Head h else Node (last us))"
    using timer_row_head_ok [OF assms(1), of h "[]" "Q h" "Head h" tk r] by auto
  then show ?thesis
    using fam_insert_at [OF assms uv(1) refl] by (simp add: timer_list_insert_def)
qed

section \<open>What the operations change\<close>

lemma set_tflag_fields [simp]:
  "container (set_tflag r f k) = container k"
  "threads (set_tflag r f k) = threads k"
  "queues (set_tflag r f k) = queues k"
  "ready_group (set_tflag r f k) = ready_group k"
  "current_thread (set_tflag r f k) = current_thread k"
  "sched_current_priority (set_tflag r f k) = sched_current_priority k"
  "sched_lock_nest (set_tflag r f k) = sched_lock_nest k"
  "interrupt_nest (set_tflag r f k) = interrupt_nest k"
  "tick (set_tflag r f k) = tick k"
  "soft_timer_idle (set_tflag r f k) = soft_timer_idle k"
  "timer_thread (set_tflag r f k) = timer_thread k"
  "sems (set_tflag r f k) = sems k"
  "mutexes (set_tflag r f k) = mutexes k"
  "events (set_tflag r f k) = events k"
  "mailboxes (set_tflag r f k) = mailboxes k"
  "msgqueues (set_tflag r f k) = msgqueues k"
  "timers (set_tflag r f k) = timers k"
  "tlists (set_tflag r f k) = tlists k"
  by (simp_all add: set_tflag_def deactivate_def timer_remove_def)

lemma deactivate_fields [simp]:
  "container (deactivate r k) = container k"
  "threads (deactivate r k) = threads k"
  "queues (deactivate r k) = queues k"
  "ready_group (deactivate r k) = ready_group k"
  "current_thread (deactivate r k) = current_thread k"
  "sched_current_priority (deactivate r k) = sched_current_priority k"
  "sched_lock_nest (deactivate r k) = sched_lock_nest k"
  "interrupt_nest (deactivate r k) = interrupt_nest k"
  "tick (deactivate r k) = tick k"
  "soft_timer_idle (deactivate r k) = soft_timer_idle k"
  "timer_thread (deactivate r k) = timer_thread k"
  "sems (deactivate r k) = sems k"
  "mutexes (deactivate r k) = mutexes k"
  "events (deactivate r k) = events k"
  "mailboxes (deactivate r k) = mailboxes k"
  "msgqueues (deactivate r k) = msgqueues k"
  "timers (deactivate r k) = timers k"
  "tlists (deactivate r k) = tlists k"
  by (simp_all add: set_tflag_def deactivate_def timer_remove_def)

lemma activate_fields [simp]:
  "container (activate r k) = container k"
  "threads (activate r k) = threads k"
  "queues (activate r k) = queues k"
  "ready_group (activate r k) = ready_group k"
  "current_thread (activate r k) = current_thread k"
  "sched_current_priority (activate r k) = sched_current_priority k"
  "sched_lock_nest (activate r k) = sched_lock_nest k"
  "interrupt_nest (activate r k) = interrupt_nest k"
  "tick (activate r k) = tick k"
  "soft_timer_idle (activate r k) = soft_timer_idle k"
  "timer_thread (activate r k) = timer_thread k"
  "sems (activate r k) = sems k"
  "mutexes (activate r k) = mutexes k"
  "events (activate r k) = events k"
  "mailboxes (activate r k) = mailboxes k"
  "msgqueues (activate r k) = msgqueues k"
  "timers (activate r k) = timers k"
  "tlists (activate r k) = tlists k"
  by (simp_all add: set_tflag_def activate_def timer_remove_def)

lemma timer_remove_fields [simp]:
  "container (timer_remove r k) = container k"
  "threads (timer_remove r k) = threads k"
  "queues (timer_remove r k) = queues k"
  "ready_group (timer_remove r k) = ready_group k"
  "current_thread (timer_remove r k) = current_thread k"
  "sched_current_priority (timer_remove r k) = sched_current_priority k"
  "sched_lock_nest (timer_remove r k) = sched_lock_nest k"
  "interrupt_nest (timer_remove r k) = interrupt_nest k"
  "tick (timer_remove r k) = tick k"
  "soft_timer_idle (timer_remove r k) = soft_timer_idle k"
  "timer_thread (timer_remove r k) = timer_thread k"
  "sems (timer_remove r k) = sems k"
  "mutexes (timer_remove r k) = mutexes k"
  "events (timer_remove r k) = events k"
  "mailboxes (timer_remove r k) = mailboxes k"
  "msgqueues (timer_remove r k) = msgqueues k"
  "objs (timer_remove r k) = objs k"
  "timers (timer_remove r k) = timers k"
  by (simp_all add: set_tflag_def deactivate_def timer_remove_def)


lemma activate_tlists [simp]: "tlists (activate r k) = tlists k"
  by (simp add: activate_def)

lemma timer_remove_tlists [simp]: "tlists (timer_remove r k) = q_remove r (tlists k)"
  by (simp add: timer_remove_def)

lemma live_timer_ops [simp]:
  "live (set_tflag r f k) = live k" "live (deactivate r k) = live k" "live (timer_remove r k) = live k"
  "live (activate r k) = live k"
  by (simp_all add: set_tflag_def deactivate_def activate_def timer_remove_def live_upd_obj)

lemma sched_inv_timer_ops [simp]:
  "sched_inv X (set_tflag r f k) = sched_inv X k" "sched_inv X (deactivate r k) = sched_inv X k"
  "sched_inv X (timer_remove r k) = sched_inv X k" "sched_inv X (activate r k) = sched_inv X k"
  by (simp_all add: set_tflag_def deactivate_def activate_def timer_remove_def sched_inv_upd_obj)

lemma set_tflag_objs:
  "objs (set_tflag r f k) = (objs k)(OTimer r := (objs k (OTimer r))\<lparr>oflag := f\<rparr>)"
  by (simp add: set_tflag_def)

lemma otype_timer_ops [simp]:
  "otype (objs (set_tflag r f k) q) = otype (objs k q)"
  "otype (objs (deactivate r k) q) = otype (objs k q)"
  "otype (objs (activate r k) q) = otype (objs k q)"
  by (simp_all add: deactivate_def activate_def set_tflag_objs)

lemma object_type_timer_ops [simp]:
  "rt_object_get_type q (set_tflag r f k) = rt_object_get_type q k"
  "rt_object_get_type q (deactivate r k) = rt_object_get_type q k"
  "rt_object_get_type q (timer_remove r k) = rt_object_get_type q k"
  "rt_object_get_type q (activate r k) = rt_object_get_type q k"
  "rt_object_is_systemobject q (activate r k) = rt_object_is_systemobject q k"
  "rt_object_get_type q (upd_timer r g k) = rt_object_get_type q k"
  "rt_object_get_type q (k\<lparr>tlists := l\<rparr>) = rt_object_get_type q k"
  "rt_object_is_systemobject q (set_tflag r f k) = rt_object_is_systemobject q k"
  "rt_object_is_systemobject q (deactivate r k) = rt_object_is_systemobject q k"
  "rt_object_is_systemobject q (timer_remove r k) = rt_object_is_systemobject q k"
  "rt_object_is_systemobject q (upd_timer r g k) = rt_object_is_systemobject q k"
  "rt_object_is_systemobject q (k\<lparr>tlists := l\<rparr>) = rt_object_is_systemobject q k"
  by (simp_all add: rt_object_get_type_def rt_object_is_systemobject_def)

lemma tflag_ops [simp]:
  "tflag q (set_tflag r f k) = (if q = r then f else tflag q k)"
  "tflag q (timer_remove r k) = tflag q k"
  "tflag q (upd_timer r g k) = tflag q k"
  "tflag q (k\<lparr>tlists := l\<rparr>) = tflag q k"
  by (simp_all add: tflag_def set_tflag_objs)

text \<open>The three flag bits.\<close>

lemma flag_bits:
  "(f::u8) AND 1 \<noteq> 0 \<longleftrightarrow> bit f 0" "f AND 2 \<noteq> 0 \<longleftrightarrow> bit f 1" "f AND 4 \<noteq> 0 \<longleftrightarrow> bit f 2"
proof -
  have *: "f AND push_bit n 1 \<noteq> 0 \<longleftrightarrow> bit f n" if "n < 8" for n
  proof
    assume "f AND push_bit n 1 \<noteq> 0"
    then obtain m where "bit (f AND push_bit n 1) m" by (metis bit_eqI bit_0_eq bot_apply bot_bool_def)
    then show "bit f n" by (auto simp: bit_simps)
  next
    assume "bit f n"
    then have "bit (f AND push_bit n 1) n" using that by (simp only: bit_simps) simp
    then show "f AND push_bit n 1 \<noteq> 0" by auto
  qed
  show "f AND 1 \<noteq> 0 \<longleftrightarrow> bit f 0" "f AND 2 \<noteq> 0 \<longleftrightarrow> bit f 1" "f AND 4 \<noteq> 0 \<longleftrightarrow> bit f 2"
    using * [of 0] * [of 1] * [of 2] by simp_all
qed

lemma bit_consts: "bit (1::u8) n \<longleftrightarrow> n = 0" "bit (2::u8) n \<longleftrightarrow> n = 1" "bit (4::u8) n \<longleftrightarrow> n = 2"
proof -
  have e: "(1::u8) = push_bit 0 1" "(2::u8) = push_bit 1 1" "(4::u8) = push_bit 2 1" by simp_all
  show "bit (1::u8) n \<longleftrightarrow> n = 0" by (subst e) (simp only: bit_simps, auto)
  show "bit (2::u8) n \<longleftrightarrow> n = 1" by (subst e) (simp only: bit_simps, auto)
  show "bit (4::u8) n \<longleftrightarrow> n = 2" by (subst e) (simp only: bit_simps, auto)
qed

lemma flag_word_bits:
  "bit ((f::u8) AND NOT 1) n \<longleftrightarrow> bit f n \<and> n \<noteq> 0" "bit (f OR 1) n \<longleftrightarrow> bit f n \<or> n = 0"
  by (auto simp only: bit_simps bit_consts dest: bit_imp_possible_bit)

lemma activated_ops [simp]:
  "activated q (deactivate r k) \<longleftrightarrow> q \<noteq> r \<and> activated q k"
  "activated q (activate r k) \<longleftrightarrow> q = r \<or> activated q k"
  "activated q (timer_remove r k) = activated q k"
  "activated q (upd_timer r g k) = activated q k"
  "activated q (k\<lparr>tlists := l\<rparr>) = activated q k"
  unfolding activated_def deactivate_def activate_def tflag_ops flag_bits
  by (cases "q = r"; simp only: flag_word_bits if_True if_False simp_thms)+

lemma kind_ops [simp]:
  "periodic q (deactivate r k) = periodic q k" "is_soft q (deactivate r k) = is_soft q k"
  "periodic q (activate r k) = periodic q k"
  "is_soft q (activate r k) = is_soft q k"
  "periodic q (timer_remove r k) = periodic q k" "is_soft q (timer_remove r k) = is_soft q k"
  "periodic q (upd_timer r g k) = periodic q k" "is_soft q (upd_timer r g k) = is_soft q k"
  "periodic q (k\<lparr>tlists := l\<rparr>) = periodic q k" "is_soft q (k\<lparr>tlists := l\<rparr>) = is_soft q k"
  unfolding periodic_def is_soft_def deactivate_def activate_def tflag_ops flag_bits
  by (cases "q = r"; simp only: flag_word_bits if_True if_False simp_thms; simp)+

section \<open>Consistency of the timer lists\<close>

definition timer_ok :: "kernel \<Rightarrow> timer_ref \<Rightarrow> bool" where
  "timer_ok k r \<longleftrightarrow> rt_object_get_type (OTimer r) k = RT_Object_Class_Timer"

text \<open>The lists are disjoint lists of activated timers of the right kind, and every
  activated timer is in one of them (a timer whose function is being called is in the list
  on the stack of the check).\<close>

definition timer_lists :: "kernel \<Rightarrow> bool" where
  "timer_lists k \<longleftrightarrow> disjoint_lists (tlists k)
     \<and> (\<forall>h r. r \<in> set (tlists k h) \<longrightarrow> timer_ok k r)
     \<and> (\<forall>r. r \<in> set (tlists k HardList) \<longrightarrow> activated r k \<and> \<not> is_soft r k)
     \<and> (\<forall>r. r \<in> set (tlists k SoftList) \<longrightarrow> activated r k \<and> is_soft r k)
     \<and> (\<forall>r. timer_ok k r \<longrightarrow> activated r k \<longrightarrow> (\<exists>h. r \<in> set (tlists k h)))"

lemma timer_ok_ops [simp]:
  "timer_ok (set_tflag r f k) = timer_ok k" "timer_ok (deactivate r k) = timer_ok k"
  "timer_ok (activate r k) = timer_ok k"
  "timer_ok (timer_remove r k) = timer_ok k" "timer_ok (upd_timer r g k) = timer_ok k"
  "timer_ok (k\<lparr>tlists := l\<rparr>) = timer_ok k"
  by (simp_all add: timer_ok_def fun_eq_iff)

lemma set_insert_timer [simp]: "set (insert_timer tk r xs) = insert r (set xs)"
  by (induction xs) auto

lemma distinct_insert_timer [simp]: "distinct (insert_timer tk r xs) \<longleftrightarrow> r \<notin> set xs \<and> distinct xs"
  by (induction xs) auto

lemma timer_lists_stop:
  assumes "timer_lists k"
  shows "timer_lists (deactivate r (timer_remove r k))"
  using assms by (auto simp: timer_lists_def disjoint_remove q_remove_def [of r]) (simp add: disjoint_remove [unfolded q_remove_def])

lemma rt_timer_stop_ok:
  assumes "timer_ok k r"
  shows "rt_timer_stop r k =
     (if activated r k then Some (RT_EOK, deactivate r (timer_remove r k)) else Some (- RT_ERROR, k))"
  using assms by (simp add: rt_timer_stop_def assert_timer_def timer_ok_def)

text \<open>The state after an insertion.\<close>

definition enqueued :: "timer_ref \<Rightarrow> kernel \<Rightarrow> kernel" where
  "enqueued r k =
     (let k = deactivate r (timer_remove r k);
          k = upd_timer r (\<lambda>tm. tm\<lparr>timeout_tick := tick k + tm_init_tick tm\<rparr>) k;
          h = (if is_soft r k then SoftList else HardList);
          k = k\<lparr>tlists := q_replace h (insert_timer (\<lambda>x. timeout_tick (timers k x)) r (tlists k h)) (tlists k)\<rparr>
      in activate r k)"

lemma timer_enqueue_ok:
  assumes "timer_ok k r" "tm_init_tick (timers k r) < 0x7fffffff"
  shows "timer_enqueue r k = Some (enqueued r k)"
  using assms by (simp add: timer_enqueue_def enqueued_def assert_timer_def timer_ok_def Let_def)

lemma enqueued_tlists:
  "tlists (enqueued r k) = (q_remove r (tlists k))
     ((if is_soft r k then SoftList else HardList) :=
        insert_timer (\<lambda>x. if x = r then tick k + tm_init_tick (timers k r) else timeout_tick (timers k x)) r
          (q_remove r (tlists k) (if is_soft r k then SoftList else HardList)))"
  by (simp add: enqueued_def q_replace_def Let_def if_distrib [of timeout_tick] cong: if_cong)

lemma enqueued_fields [simp]:
  "container (enqueued r k) = container k" "threads (enqueued r k) = threads k"
  "queues (enqueued r k) = queues k" "ready_group (enqueued r k) = ready_group k"
  "current_thread (enqueued r k) = current_thread k"
  "sched_lock_nest (enqueued r k) = sched_lock_nest k"
  "interrupt_nest (enqueued r k) = interrupt_nest k" "tick (enqueued r k) = tick k"
  "soft_timer_idle (enqueued r k) = soft_timer_idle k" "timer_thread (enqueued r k) = timer_thread k"
  "sems (enqueued r k) = sems k" "mutexes (enqueued r k) = mutexes k" "events (enqueued r k) = events k"
  "mailboxes (enqueued r k) = mailboxes k" "msgqueues (enqueued r k) = msgqueues k"
  "live (enqueued r k) = live k" "sched_inv X (enqueued r k) = sched_inv X k"
  "timer_ok (enqueued r k) = timer_ok k"
  "timers (enqueued r k) = (timers k)(r := (timers k r)\<lparr>timeout_tick := tick k + tm_init_tick (timers k r)\<rparr>)"
  "rt_object_get_type ob (enqueued r k) = rt_object_get_type ob k"
  "rt_object_is_systemobject ob (enqueued r k) = rt_object_is_systemobject ob k"
  "periodic q (enqueued r k) = periodic q k" "is_soft q (enqueued r k) = is_soft q k"
  "activated q (enqueued r k) \<longleftrightarrow> q = r \<or> activated q k"
  unfolding enqueued_def Let_def by simp_all auto

lemma timer_lists_enqueued:
  assumes "timer_lists k" "timer_ok k r"
  shows "timer_lists (enqueued r k)"
proof -
  let ?h = "if is_soft r k then SoftList else HardList"
  let ?xs = "insert_timer (\<lambda>x. if x = r then tick k + tm_init_tick (timers k r) else timeout_tick (timers k x)) r
          (q_remove r (tlists k) ?h)"
  have tl: "tlists (enqueued r k) = (q_remove r (tlists k))(?h := ?xs)"
    by (rule enqueued_tlists)
  have dj: "disjoint_lists (q_remove r (tlists k))"
    using assms(1) by (simp add: timer_lists_def disjoint_remove)
  have mem: "q \<in> set (tlists (enqueued r k) h) \<longleftrightarrow> q = r \<and> h = ?h \<or> q \<noteq> r \<and> q \<in> set (tlists k h)" for q h
    unfolding tl by (auto simp: q_remove_def)
  have "disjoint_lists (tlists (enqueued r k))"
    unfolding tl
  proof (rule disjoint_insert [OF dj detached_remove])
    show "set ?xs = insert r (set (q_remove r (tlists k) ?h))" by simp
    show "distinct ?xs" using dj by (simp add: disjoint_lists_def) (simp add: q_remove_def)
  qed
  moreover have "\<forall>q. timer_ok k q \<longrightarrow> q = r \<or> activated q k \<longrightarrow> (\<exists>h. q \<in> set (tlists (enqueued r k) h))"
  proof (intro allI impI)
    fix q assume q: "timer_ok k q" "q = r \<or> activated q k"
    show "\<exists>h. q \<in> set (tlists (enqueued r k) h)"
    proof (cases "q = r")
      case True
      then show ?thesis using mem by blast
    next
      case False
      then obtain h where "q \<in> set (tlists k h)" using q assms(1) by (auto simp: timer_lists_def)
      then show ?thesis using mem False by blast
    qed
  qed
  ultimately show ?thesis
    using assms unfolding timer_lists_def mem by (auto split: if_splits)
qed

section \<open>Order by timeout\<close>

text \<open>The ticks left until a timer is due, read as a signed number.\<close>

definition trem :: "kernel \<Rightarrow> timer_ref \<Rightarrow> int" where
  "trem k r = sint (timeout_tick (timers k r) - tick k)"

text \<open>A list in order of the remaining time, no timer overdue by more than a tick.\<close>

definition timers_sorted :: "kernel \<Rightarrow> thead \<Rightarrow> bool" where
  "timers_sorted k h \<longleftrightarrow> sorted (map (trem k) (tlists k h))
     \<and> (\<forall>r \<in> set (tlists k h). - 1 \<le> trem k r \<and> trem k r < 0x7fffffff)"

lemma due_later_trem:
  fixes x new now :: u32
  assumes "- 1 \<le> sint (x - now)" "sint (x - now) < 0x7fffffff"
    and "0 \<le> sint (new - now)" "sint (new - now) < 0x7fffffff"
  shows "due_later x new \<longleftrightarrow> sint (new - now) < sint (x - now)"
proof -
  define z where "z = sint (x - now) - sint (new - now)"
  have "x - new = (x - now) - (new - now)" by simp
  also have "\<dots> = word_of_int (sint (x - now)) - word_of_int (sint (new - now))"
    by simp
  finally have d: "x - new = word_of_int z" by (simp add: z_def)
  have zb: "- 0x7fffffff \<le> z" "z \<le> 0x7ffffffe" using assms by (auto simp: z_def)
  have u: "uint (x - new) = z mod 2 ^ 32" unfolding d by (simp add: uint_word_of_int)
  have nz: "x - new \<noteq> 0 \<longleftrightarrow> z mod 2 ^ 32 \<noteq> 0" using u by (metis uint_0_iff)
  have lt: "x - new < 0x7fffffff \<longleftrightarrow> z mod 2 ^ 32 < 0x7fffffff"
    using u by (simp add: word_less_def)
  have "z mod 2 ^ 32 = (if 0 \<le> z then z else z + 2 ^ 32)"
  proof (cases "0 \<le> z")
    case False
    have "z mod 2 ^ 32 = (z + 2 ^ 32) mod 2 ^ 32" by simp
    also have "\<dots> = z + 2 ^ 32" using False zb by (intro mod_pos_pos_trivial) auto
    finally show ?thesis using False by simp
  qed (use zb in simp)
  then have "(x - new \<noteq> 0 \<and> x - new < 0x7fffffff) \<longleftrightarrow> 0 < z"
    using nz lt zb by auto
  then show ?thesis by (simp add: due_later_def z_def)
qed

lemma sorted_insert_timer:
  fixes f :: "timer_ref \<Rightarrow> int"
  assumes "sorted (map f xs)" "\<And>x. x \<in> set xs \<Longrightarrow> due_later (tk x) (tk r) \<longleftrightarrow> f r < f x"
  shows "sorted (map f (insert_timer tk r xs))"
  using assms
proof (induction xs)
  case (Cons x xs)
  then show ?case by (cases "due_later (tk x) (tk r)") (auto simp: not_less)
qed simp

lemma insert_timer_split:
  "\<exists>us vs. xs = us @ vs \<and> insert_timer tk r xs = us @ r # vs"
proof (induction xs)
  case (Cons s ss)
  then obtain ys zs where "ss = ys @ zs" "insert_timer tk r ss = ys @ r # zs" by blast
  then show ?case
    by (cases "due_later (tk s) (tk r)") (auto intro: exI [of _ "[]"] exI [of _ "s # ys"])
qed simp

lemma sint_small: "w < 0x7fffffff \<Longrightarrow> 0 \<le> sint (w::u32) \<and> sint w < 0x7fffffff \<and> sint w = uint w"
proof -
  assume "w < 0x7fffffff"
  then have "uint w < 0x7fffffff" by (simp add: word_less_def)
  have "sint w = signed_take_bit 31 (uint w)" by (simp add: sint_uint)
  also have "\<dots> = uint w"
  proof (rule signed_take_bit_int_eq_self)
    have "(0::int) \<le> 2 ^ 31" by simp
    then show "- (2 ^ 31) \<le> uint w" using uint_ge_0 [of w] by linarith
    show "uint w < 2 ^ 31" using \<open>uint w < 0x7fffffff\<close> by simp
  qed
  finally show ?thesis using \<open>uint w < 0x7fffffff\<close> by simp
qed

lemma enqueued_trem:
  "trem (enqueued r k) q = (if q = r then sint (tm_init_tick (timers k r)) else trem k q)"
  by (simp add: trem_def)

lemma timers_sorted_remove:
  assumes "timers_sorted k h"
  shows "timers_sorted (timer_remove r k) h"
proof -
  have "trem (timer_remove r k) = trem k" by (simp add: trem_def fun_eq_iff)
  then show ?thesis
    using assms by (auto simp: timers_sorted_def q_remove_def removeAll_filter_not_eq sorted_filter)
qed

lemma timers_sorted_enqueued:
  assumes s: "timers_sorted k h" and t: "tm_init_tick (timers k r) < 0x7fffffff"
  shows "timers_sorted (enqueued r k) h"
proof -
  let ?tk = "\<lambda>x. if x = r then tick k + tm_init_tick (timers k r) else timeout_tick (timers k x)"
  let ?h = "if is_soft r k then SoftList else HardList"
  have i: "0 \<le> sint (tm_init_tick (timers k r))" "sint (tm_init_tick (timers k r)) < 0x7fffffff"
    using sint_small [OF t] by auto
  have old: "sorted (map (trem (enqueued r k)) (q_remove r (tlists k) h))"
  proof -
    have "map (trem (enqueued r k)) (q_remove r (tlists k) h) = map (trem k) (q_remove r (tlists k) h)"
      by (rule map_cong [OF refl]) (auto simp: enqueued_trem q_remove_def)
    moreover have "sorted (map (trem k) (q_remove r (tlists k) h))"
      using s by (auto simp: timers_sorted_def q_remove_def removeAll_filter_not_eq sorted_filter)
    ultimately show ?thesis by metis
  qed
  have b: "- 1 \<le> trem (enqueued r k) q \<and> trem (enqueued r k) q < 0x7fffffff"
    if "q \<in> insert r (set (tlists k h))" for q
    using that s i by (auto simp: timers_sorted_def enqueued_trem)
  show ?thesis
  proof (cases "h = ?h")
    case False
    then have tl: "tlists (enqueued r k) h = q_remove r (tlists k) h" by (simp add: enqueued_tlists)
    show ?thesis unfolding timers_sorted_def tl using old b by (auto simp: q_remove_def)
  next
    case True
    then have tl: "tlists (enqueued r k) h = insert_timer ?tk r (q_remove r (tlists k) h)"
      by (simp add: enqueued_tlists)
    have "due_later (?tk q) (?tk r) \<longleftrightarrow> trem (enqueued r k) r < trem (enqueued r k) q"
      if q: "q \<in> set (q_remove r (tlists k) h)" for q
    proof -
      have "q \<noteq> r" "q \<in> set (tlists k h)" using q by (auto simp: q_remove_def)
      then have "- 1 \<le> trem k q" "trem k q < 0x7fffffff" using s by (auto simp: timers_sorted_def)
      then show ?thesis
        using due_later_trem [of "timeout_tick (timers k q)" "tick k" "tick k + tm_init_tick (timers k r)"] i \<open>q \<noteq> r\<close>
        by (simp add: enqueued_trem) (simp add: trem_def)
    qed
    then have "sorted (map (trem (enqueued r k)) (tlists (enqueued r k) h))"
      unfolding tl by (intro sorted_insert_timer old)
    moreover have "\<forall>q \<in> set (tlists (enqueued r k) h). - 1 \<le> trem (enqueued r k) q \<and> trem (enqueued r k) q < 0x7fffffff"
      using b unfolding tl by (auto simp: q_remove_def)
    ultimately show ?thesis by (simp only: timers_sorted_def)
  qed
qed

section \<open>Properties\<close>

lemma ex_timer_lists: "timer_lists ex_kernel"
proof -
  have "oflag (ex_objs (OTimer r)) = 0" for r by (cases r) auto
  then have "\<not> activated r ex_kernel" for r by (simp add: activated_def tflag_def)
  then show ?thesis by (simp add: timer_lists_def disjoint_lists_def)
qed

text \<open>
  The search loop of \<open>rt_timer_start\<close> and the insertion after \<open>row_head\<close>, on the linked
  nodes: the loop ends without reading past the list, and the memory still holds a
  well-formed family of circular lists, in which the timer's list has the timer inserted
  after every timer due no later than it and before the first due later; the other lists
  are unchanged.
\<close>

theorem timer_list_insert_refines:
  assumes "fam m Q" and "detached Q r"
  shows "\<exists>m'. timer_list_insert tk h r m = Some m' \<and> fam m' (Q(h := insert_timer tk r (Q h)))"
  using assms by (rule timer_list_insert_ok)

definition empty_timer_mem :: "(thead, timer_ref) lnode list_mem" where
  "empty_timer_mem p = \<lparr>lnext = p, lprev = p\<rparr>"

lemma empty_timer_fam: "fam empty_timer_mem (\<lambda>_. [])"
  by (simp add: fam_def disjoint_lists_def circ_def empty_timer_mem_def)

theorem timer_list_insert_refines_witness:
  "\<exists>m1 m2. timer_list_insert (\<lambda>r. if r = UserTimer 0 then 20 else 10) HardList (UserTimer 0) empty_timer_mem = Some m1
     \<and> timer_list_insert (\<lambda>r. if r = UserTimer 0 then 20 else 10) HardList (UserTimer 1) m1 = Some m2
     \<and> fam m2 ((\<lambda>_. [])(HardList := [UserTimer 1, UserTimer 0]))"
proof -
  let ?tk = "\<lambda>r. if r = UserTimer 0 then 20 else 10 :: u32"
  obtain m1 where m1: "timer_list_insert ?tk HardList (UserTimer 0) empty_timer_mem = Some m1"
      "fam m1 ((\<lambda>_. [])(HardList := [UserTimer 0]))"
    using timer_list_insert_refines [OF empty_timer_fam, of "UserTimer 0" ?tk HardList]
    by (auto simp: detached_def)
  then obtain m2 where "timer_list_insert ?tk HardList (UserTimer 1) m1 = Some m2"
      "fam m2 ((\<lambda>_. [])(HardList := [UserTimer 1, UserTimer 0]))"
    using timer_list_insert_refines [OF m1(2), of "UserTimer 1" ?tk HardList]
    by (auto simp: detached_def due_later_def fun_upd_def if_distrib cong: if_cong)
  then show ?thesis using m1(1) by blast
qed

text \<open>
  Queueing a timer: with a time below half the range it is accepted, is activated and
  becomes due that many ticks from now; it is in exactly the list of its kind; a list in
  order of the time left stays in order although the tick counter wraps. A time of half
  the range or more runs into the assertion.
\<close>

theorem timer_enqueue_sorted:
  assumes "timer_lists k" "timer_ok k r" and "\<forall>h. timers_sorted k h"
  shows "if tm_init_tick (timers k r) < RT_TICK_MAX div 2
         then \<exists>k'. timer_enqueue r k = Some k' \<and> timer_lists k' \<and> (\<forall>h. timers_sorted k' h)
           \<and> activated r k' \<and> trem k' r = uint (tm_init_tick (timers k r))
           \<and> (\<forall>h. r \<in> set (tlists k' h) \<longleftrightarrow> h = (if is_soft r k then SoftList else HardList))
           \<and> (\<forall>h q. q \<noteq> r \<longrightarrow> q \<in> set (tlists k' h) \<longleftrightarrow> q \<in> set (tlists k h))
         else timer_enqueue r k = None"
proof (cases "tm_init_tick (timers k r) < 0x7fffffff")
  case True
  have "\<forall>h. r \<in> set (tlists (enqueued r k) h) \<longleftrightarrow> h = (if is_soft r k then SoftList else HardList)"
    by (simp add: enqueued_tlists q_remove_def)
  moreover have "\<forall>h q. q \<noteq> r \<longrightarrow> q \<in> set (tlists (enqueued r k) h) \<longleftrightarrow> q \<in> set (tlists k h)"
    by (simp add: enqueued_tlists q_remove_def)
  moreover have "\<forall>h. timers_sorted (enqueued r k) h"
    using timers_sorted_enqueued [OF _ True] assms(3) by blast
  ultimately show ?thesis
    using True timer_enqueue_ok [OF assms(2) True] timer_lists_enqueued [OF assms(1,2)] sint_small [OF True]
    by (simp add: enqueued_trem)
next
  case False
  then show ?thesis using assms(2)
    by (simp add: timer_enqueue_def assert_timer_def timer_ok_def)
qed

theorem timer_enqueue_sorted_witness:
  "\<exists>k'. timer_enqueue (UserTimer 0) ex_kernel = Some k' \<and> tlists k' HardList = [UserTimer 0]
     \<and> trem k' (UserTimer 0) = 5"
proof -
  have ok: "timer_ok ex_kernel (UserTimer 0)" by (simp add: timer_ok_def rt_object_get_type_def)
  obtain k' where k': "timer_enqueue (UserTimer 0) ex_kernel = Some k'" "trem k' (UserTimer 0) = 5"
    using timer_enqueue_sorted [OF ex_timer_lists ok] by (auto simp: timers_sorted_def)
  moreover have "timer_enqueue (UserTimer 0) ex_kernel = Some (enqueued (UserTimer 0) ex_kernel)"
    using ok by (intro timer_enqueue_ok) simp_all
  moreover have "\<not> is_soft (UserTimer 0) ex_kernel" by (simp add: is_soft_def tflag_def)
  ultimately show ?thesis by (auto simp: enqueued_tlists q_remove_def)
qed

end
