(* ===== verification/RT_Thread.thy ===== *)
theory RT_Thread
  imports RT_Timer
begin

text \<open>
  Threads (\<open>src/thread.c\<close>, the reaping of \<open>src/idle.c\<close>) and \<open>rt_timer_start\<close>: creation and
  start-up, suspending and resuming, yielding, sleeping, timeouts, control, exit and
  deletion. An operation that blocks is split where the code calls \<open>rt_schedule\<close>: the part
  before, up to the switch, and the part the thread executes when it runs again. Stack,
  entry point and user data are left out; the \<open>cleanup\<close> function of a thread is an argument.
\<close>

section \<open>Operations\<close>

definition assert_thread :: "tid \<Rightarrow> kernel \<Rightarrow> unit option" where
  "assert_thread t k = rt_assert (rt_object_get_type (OThread t) k = RT_Object_Class_Thread)"

definition rt_thread_suspend :: "tid \<Rightarrow> kernel \<Rightarrow> (rt_err_t \<times> kernel) option" where
  "rt_thread_suspend t k =
     do { assert_thread t k;
          let st = tstate (threads k t);
          if st \<noteq> RT_THREAD_READY \<and> st \<noteq> RT_THREAD_RUNNING then Some (- RT_ERROR, k)
          else do { rt_assert (st = RT_THREAD_RUNNING \<longrightarrow> rt_thread_self k = Some t);
                    let k = rt_schedule_remove_thread t k;
                    let k = upd_thread t (set_tstate RT_THREAD_SUSPEND) k;
                    (_, k) \<leftarrow> rt_timer_stop (ThreadTimer t) k;
                    Some (RT_EOK, k) } }"

definition rt_thread_resume :: "tid \<Rightarrow> kernel \<Rightarrow> (rt_err_t \<times> kernel) option" where
  "rt_thread_resume t k =
     do { assert_thread t k;
          if tstate (threads k t) \<noteq> RT_THREAD_SUSPEND then Some (- RT_ERROR, k)
          else do { let k = k\<lparr>queues := q_remove t (queues k)\<rparr>;
                    (_, k) \<leftarrow> rt_timer_stop (ThreadTimer t) k;
                    Some (RT_EOK, rt_schedule_insert_thread t k) } }"

text \<open>\<open>rt_timer_start\<close>: a soft timer wakes the timer thread if that one is waiting.\<close>

definition rt_timer_start :: "timer_ref \<Rightarrow> kernel \<Rightarrow> (rt_err_t \<times> kernel) option" where
  "rt_timer_start r k =
     do { k \<leftarrow> timer_enqueue r k;
          if is_soft r k \<and> soft_timer_idle k
             \<and> tstate (threads k (timer_thread k)) = RT_THREAD_SUSPEND
          then do { (_, k) \<leftarrow> rt_thread_resume (timer_thread k) k;
                    k \<leftarrow> rt_schedule k;
                    Some (RT_EOK, k) }
          else Some (RT_EOK, k) }"

text \<open>\<open>rt_thread_timeout\<close>, the function of every thread timer.\<close>

definition rt_thread_timeout :: "tid \<Rightarrow> kernel \<Rightarrow> kernel option" where
  "rt_thread_timeout t k =
     do { rt_assert (tstate (threads k t) = RT_THREAD_SUSPEND);
          assert_thread t k;
          let k = upd_thread t (\<lambda>th. th\<lparr>error := - RT_ETIMEOUT\<rparr>) k;
          let k = k\<lparr>queues := q_remove t (queues k)\<rparr>;
          rt_schedule (rt_schedule_insert_thread t k) }"

text \<open>\<open>_rt_thread_init\<close> and \<open>rt_thread_init\<close>.\<close>

definition thread_setup :: "tid \<Rightarrow> u8 \<Rightarrow> u32 \<Rightarrow> kernel \<Rightarrow> kernel option" where
  "thread_setup t priority tk k =
     do { rt_assert (unat priority < RT_THREAD_PRIORITY_MAX);
          let k = upd_thread t (\<lambda>th. th\<lparr>init_priority := priority, current_priority := priority,
                     number_mask := 0, init_tick := tk, remaining_tick := tk,
                     error := RT_EOK, stat := RT_THREAD_INIT\<rparr>) k;
          rt_timer_init (ThreadTimer t) (oname (objs k (OThread t))) (Rt_thread_timeout t) 0 0 k }"

definition rt_thread_init :: "tid \<Rightarrow> string \<Rightarrow> u8 \<Rightarrow> u32 \<Rightarrow> kernel \<Rightarrow> (rt_err_t \<times> kernel) option" where
  "rt_thread_init t name priority tk k =
     do { k \<leftarrow> rt_object_init (OThread t) RT_Object_Class_Thread name k;
          k \<leftarrow> thread_setup t priority tk k;
          Some (RT_EOK, k) }"

text \<open>\<open>rt_thread_create\<close>: the heap's answers for the thread and for its stack are arguments.\<close>

definition rt_thread_create ::
    "tid option \<Rightarrow> bool \<Rightarrow> string \<Rightarrow> u8 \<Rightarrow> u32 \<Rightarrow> kernel \<Rightarrow> (tid option \<times> kernel) option" where
  "rt_thread_create mem stack_ok name priority tk k =
     do { (r, k) \<leftarrow> rt_object_allocate (map_option OThread mem) RT_Object_Class_Thread name k;
          case (r, mem) of
            (Some _, Some t) \<Rightarrow>
              if \<not> stack_ok then do { (_, k) \<leftarrow> rt_object_delete (OThread t) k; Some (None, k) }
              else do { k \<leftarrow> thread_setup t priority tk k; Some (Some t, k) }
          | _ \<Rightarrow> Some (None, k) }"

definition prio_mask :: "u8 \<Rightarrow> u32" where
  "prio_mask p = push_bit (unat p) 1"

definition rt_thread_startup :: "tid \<Rightarrow> kernel \<Rightarrow> (rt_err_t \<times> kernel) option" where
  "rt_thread_startup t k =
     do { rt_assert (tstate (threads k t) = RT_THREAD_INIT);
          assert_thread t k;
          let k = upd_thread t (\<lambda>th. th\<lparr>current_priority := init_priority th,
                     number_mask := prio_mask (init_priority th), stat := RT_THREAD_SUSPEND\<rparr>) k;
          (_, k) \<leftarrow> rt_thread_resume t k;
          if rt_thread_self k \<noteq> None then do { k \<leftarrow> rt_schedule k; Some (RT_EOK, k) }
          else Some (RT_EOK, k) }"

definition rt_thread_yield :: "kernel \<Rightarrow> (rt_err_t \<times> kernel) option" where
  "rt_thread_yield k =
     do { t \<leftarrow> rt_thread_self k;
          let k = upd_thread t (\<lambda>th. th\<lparr>remaining_tick := init_tick th\<rparr>) k;
          let k = upd_thread t set_yield k;
          k \<leftarrow> rt_schedule k;
          Some (RT_EOK, k) }"

text \<open>\<open>rt_thread_sleep\<close> (and \<open>rt_thread_delay\<close>): up to the switch, and after it.\<close>

definition rt_thread_sleep_start :: "u32 \<Rightarrow> kernel \<Rightarrow> kernel option" where
  "rt_thread_sleep_start tk k =
     do { t \<leftarrow> rt_thread_self k;
          assert_thread t k;
          (_, k) \<leftarrow> rt_thread_suspend t k;
          (_, _, k) \<leftarrow> rt_timer_control (ThreadTimer t) RT_TIMER_CTRL_SET_TIME tk k;
          (_, k) \<leftarrow> rt_timer_start (ThreadTimer t) k;
          rt_schedule k }"

definition rt_thread_sleep_wake :: "tid \<Rightarrow> kernel \<Rightarrow> rt_err_t \<times> kernel" where
  "rt_thread_sleep_wake t k =
     (RT_EOK, if error (threads k t) = - RT_ETIMEOUT
              then upd_thread t (\<lambda>th. th\<lparr>error := RT_EOK\<rparr>) k else k)"

text \<open>\<open>rt_thread_delay_until\<close>: the new value of \<open>*tick\<close>, whether the thread went to sleep,
  and the state.\<close>

definition rt_thread_delay_until_start :: "u32 \<Rightarrow> u32 \<Rightarrow> kernel \<Rightarrow> (u32 \<times> bool \<times> kernel) option" where
  "rt_thread_delay_until_start tk inc_tick k =
     do { t \<leftarrow> rt_thread_self k;
          assert_thread t k;
          let cur_tick = tick k;
          if cur_tick - tk < inc_tick
          then do { let tk = tk + inc_tick;
                    let left_tick = tk - cur_tick;
                    (_, k) \<leftarrow> rt_thread_suspend t k;
                    (_, _, k) \<leftarrow> rt_timer_control (ThreadTimer t) RT_TIMER_CTRL_SET_TIME left_tick k;
                    (_, k) \<leftarrow> rt_timer_start (ThreadTimer t) k;
                    k \<leftarrow> rt_schedule k;
                    Some (tk, True, k) }
          else Some (cur_tick, False, k) }"

text \<open>\<open>rt_tick_from_millisecond\<close> (\<open>src/clock.c\<close>), at 1000 ticks per second, and
  \<open>rt_thread_mdelay\<close>.\<close>

abbreviation (input) RT_TICK_PER_SECOND :: u32 where "RT_TICK_PER_SECOND \<equiv> 1000"

definition rt_tick_from_millisecond :: "32 word \<Rightarrow> u32" where
  "rt_tick_from_millisecond ms =
     (if sint ms < 0 then - 1
      else RT_TICK_PER_SECOND * (ms div 1000)
           + (RT_TICK_PER_SECOND * (ms mod 1000) + 999) div 1000)"

definition rt_thread_mdelay_start :: "32 word \<Rightarrow> kernel \<Rightarrow> kernel option" where
  "rt_thread_mdelay_start ms k = rt_thread_sleep_start (rt_tick_from_millisecond ms) k"

definition rt_thread_detach :: "(kernel \<Rightarrow> kernel) \<Rightarrow> tid \<Rightarrow> kernel \<Rightarrow> (rt_err_t \<times> kernel) option" where
  "rt_thread_detach cleanup t k =
     do { assert_thread t k;
          rt_assert (rt_object_is_systemobject (OThread t) k);
          if tstate (threads k t) = RT_THREAD_CLOSE then Some (RT_EOK, k)
          else do { let k = (if tstate (threads k t) \<noteq> RT_THREAD_INIT
                             then rt_schedule_remove_thread t k else k);
                    let k = cleanup k;
                    (_, k) \<leftarrow> rt_timer_detach (ThreadTimer t) k;
                    let k = upd_thread t (\<lambda>th. th\<lparr>stat := RT_THREAD_CLOSE\<rparr>) k;
                    Some (RT_EOK, rt_object_detach (OThread t) k) } }"

definition rt_thread_delete :: "(kernel \<Rightarrow> kernel) \<Rightarrow> tid \<Rightarrow> kernel \<Rightarrow> (rt_err_t \<times> kernel) option" where
  "rt_thread_delete cleanup t k =
     do { assert_thread t k;
          rt_assert (\<not> rt_object_is_systemobject (OThread t) k);
          if tstate (threads k t) = RT_THREAD_CLOSE then Some (RT_EOK, k)
          else do { let k = (if tstate (threads k t) \<noteq> RT_THREAD_INIT
                             then rt_schedule_remove_thread t k else k);
                    let k = cleanup k;
                    (_, k) \<leftarrow> rt_timer_detach (ThreadTimer t) k;
                    let k = upd_thread t (\<lambda>th. th\<lparr>stat := RT_THREAD_CLOSE\<rparr>) k;
                    Some (RT_EOK, k\<lparr>queues := q_insert_after DefunctQ t (queues k)\<rparr>) } }"

definition rt_thread_exit :: "(kernel \<Rightarrow> kernel) \<Rightarrow> kernel \<Rightarrow> kernel option" where
  "rt_thread_exit cleanup k =
     do { t \<leftarrow> rt_thread_self k;
          let k = cleanup k;
          let k = rt_schedule_remove_thread t k;
          let k = upd_thread t (\<lambda>th. th\<lparr>stat := RT_THREAD_CLOSE\<rparr>) k;
          (_, k) \<leftarrow> rt_timer_detach (ThreadTimer t) k;
          let k = (if rt_object_is_systemobject (OThread t) k then rt_object_detach (OThread t) k
                   else k\<lparr>queues := q_insert_after DefunctQ t (queues k)\<rparr>);
          rt_schedule k }"

text \<open>\<open>rt_thread_control\<close>; \<open>arg\<close> is the byte that \<open>CHANGE_PRIORITY\<close> reads.\<close>

datatype thread_ctrl = RT_THREAD_CTRL_STARTUP | RT_THREAD_CTRL_CLOSE
  | RT_THREAD_CTRL_CHANGE_PRIORITY u8 | Thread_ctrl_other nat

definition change_priority :: "u8 \<Rightarrow> rt_thread \<Rightarrow> rt_thread" where
  "change_priority p th = th\<lparr>current_priority := p, number_mask := prio_mask p\<rparr>"

fun rt_thread_control ::
    "(kernel \<Rightarrow> kernel) \<Rightarrow> tid \<Rightarrow> thread_ctrl \<Rightarrow> kernel \<Rightarrow> (rt_err_t \<times> kernel) option" where
  "rt_thread_control cleanup t (RT_THREAD_CTRL_CHANGE_PRIORITY p) k =
     do { assert_thread t k;
          if tstate (threads k t) = RT_THREAD_READY
          then let k = rt_schedule_remove_thread t k;
                   k = upd_thread t (change_priority p) k
               in Some (RT_EOK, rt_schedule_insert_thread t k)
          else Some (RT_EOK, upd_thread t (change_priority p) k) }"
| "rt_thread_control cleanup t RT_THREAD_CTRL_STARTUP k =
     do { assert_thread t k; rt_thread_startup t k }"
| "rt_thread_control cleanup t RT_THREAD_CTRL_CLOSE k =
     do { assert_thread t k;
          (err, k) \<leftarrow> (if rt_object_is_systemobject (OThread t) k then rt_thread_detach cleanup t k
                       else rt_thread_delete cleanup t k);
          k \<leftarrow> rt_schedule k;
          Some (err, k) }"
| "rt_thread_control cleanup t (Thread_ctrl_other _) k =
     do { assert_thread t k; Some (RT_EOK, k) }"

definition rt_thread_find :: "string option \<Rightarrow> kernel \<Rightarrow> (object_ref option \<times> kernel) option" where
  "rt_thread_find name k = rt_object_find name RT_Object_Class_Thread k"

text \<open>\<open>rt_thread_idle_excute\<close>: every thread of the defunct list is unlinked and deleted; the
  addresses that go back to the heap are returned. The list only shrinks.\<close>

fun reap :: "tid list \<Rightarrow> kernel \<Rightarrow> (object_ref list \<times> kernel) option" where
  "reap [] k = Some ([], k)"
| "reap (t # ts) k =
     do { let k = k\<lparr>queues := q_remove t (queues k)\<rparr>;
          (r, k) \<leftarrow> rt_object_delete (OThread t) k;
          (rs, k) \<leftarrow> reap ts k;
          Some (r # rs, k) }"

definition rt_thread_idle_excute :: "kernel \<Rightarrow> (object_ref list \<times> kernel) option" where
  "rt_thread_idle_excute k =
     do { RT_DEBUG_NOT_IN_INTERRUPT k; reap (queues k DefunctQ) k }"

section \<open>The invariant of the kernel\<close>

text \<open>The timer of a thread: a static one-shot hard timer whose function is the thread's
  timeout; if it is running the thread is suspended.\<close>

definition thread_timer_ok :: "kernel \<Rightarrow> tid \<Rightarrow> bool" where
  "thread_timer_ok k t \<longleftrightarrow> timer_ok k (ThreadTimer t)
     \<and> rt_object_is_systemobject (OTimer (ThreadTimer t)) k
     \<and> \<not> periodic (ThreadTimer t) k \<and> \<not> is_soft (ThreadTimer t) k
     \<and> timeout_func (timers k (ThreadTimer t)) = Rt_thread_timeout t"

definition thread_timers :: "tid set \<Rightarrow> kernel \<Rightarrow> bool" where
  "thread_timers X k \<longleftrightarrow>
     (\<forall>t. live k t \<longrightarrow> tstate (threads k t) \<noteq> RT_THREAD_CLOSE \<longrightarrow> thread_timer_ok k t)
     \<and> (\<forall>t. t \<notin> X \<longrightarrow> ThreadTimer t \<in> set (tlists k HardList) \<longrightarrow>
            live k t \<and> tstate (threads k t) = RT_THREAD_SUSPEND)"

text \<open>\<open>kinv X k\<close>: scheduler, timers and threads are consistent, the threads of \<open>X\<close> being in
  transit; the thread that serves the soft timers exists.\<close>

definition kinv :: "tid set \<Rightarrow> kernel \<Rightarrow> bool" where
  "kinv X k \<longleftrightarrow> sched_inv X k \<and> timer_lists k \<and> thread_timers X k
     \<and> live k (timer_thread k) \<and> tstate (threads k (timer_thread k)) \<noteq> RT_THREAD_CLOSE"

lemma kinv_parts:
  assumes "kinv X k"
  shows "sched_inv X k" "timer_lists k" "thread_timers X k" "live k (timer_thread k)"
    "tstate (threads k (timer_thread k)) \<noteq> RT_THREAD_CLOSE"
  using assms by (simp_all add: kinv_def)

lemma kinv_thread_timer:
  "kinv X k \<Longrightarrow> live k t \<Longrightarrow> tstate (threads k t) \<noteq> RT_THREAD_CLOSE \<Longrightarrow> thread_timer_ok k t"
  by (simp add: kinv_def thread_timers_def)

text \<open>What the operations on threads and timers leave alone.\<close>

definition kframe :: "kernel \<Rightarrow> kernel \<Rightarrow> bool" where
  "kframe k k' \<longleftrightarrow>
     container k' = container k \<and> sched_lock_nest k' = sched_lock_nest k
     \<and> interrupt_nest k' = interrupt_nest k \<and> tick k' = tick k
     \<and> soft_timer_idle k' = soft_timer_idle k \<and> timer_thread k' = timer_thread k
     \<and> sems k' = sems k \<and> mutexes k' = mutexes k \<and> events k' = events k
     \<and> mailboxes k' = mailboxes k \<and> msgqueues k' = msgqueues k
     \<and> (\<forall>i. objs k' (OIpc i) = objs k (OIpc i)) \<and> (\<forall>t. objs k' (OThread t) = objs k (OThread t))
     \<and> (\<forall>r. otype (objs k' (OTimer r)) = otype (objs k (OTimer r)))"

lemma kframe_refl: "kframe k k"
  by (simp add: kframe_def)

lemma kframe_trans: "kframe k k' \<Longrightarrow> kframe k' k'' \<Longrightarrow> kframe k k''"
  by (simp add: kframe_def)

lemma kframe_sched: "sched_frame k k' \<Longrightarrow> kframe k k'"
  by (simp add: kframe_def sched_frame_fields)

lemma kframe_type: "kframe k k' \<Longrightarrow> rt_object_get_type r k' = rt_object_get_type r k"
  by (cases r) (simp_all add: kframe_def rt_object_get_type_def)

lemma kframe_static: "kframe k k' \<Longrightarrow> rt_object_is_systemobject r k' = rt_object_is_systemobject r k"
  by (cases r) (simp_all add: kframe_def rt_object_is_systemobject_def)

lemma kframe_live: "kframe k k' \<Longrightarrow> live k' = live k"
  by (simp add: fun_eq_iff live_def kframe_type)

lemma objs_timer_ops [simp]:
  "objs (deactivate r k) (OIpc i) = objs k (OIpc i)" "objs (deactivate r k) (OThread t) = objs k (OThread t)"
  "objs (activate r k) (OIpc i) = objs k (OIpc i)" "objs (activate r k) (OThread t) = objs k (OThread t)"
  "objs (enqueued r k) (OIpc i) = objs k (OIpc i)" "objs (enqueued r k) (OThread t) = objs k (OThread t)"
  by (simp_all add: deactivate_def activate_def set_tflag_objs enqueued_def Let_def)

lemma otype_enqueued [simp]: "otype (objs (enqueued r k) q) = otype (objs k q)"
  by (simp add: enqueued_def Let_def)

subsection \<open>The scheduler and the timers keep it\<close>

lemma sched_frame_timer:
  assumes "sched_frame k k'"
  shows "timer_ok k' = timer_ok k" "activated r k' = activated r k" "periodic r k' = periodic r k"
    "is_soft r k' = is_soft r k" "thread_timer_ok k' t = thread_timer_ok k t"
proof -
  have o: "objs k' = objs k" "timers k' = timers k" using sched_frame_fields [OF assms] by simp_all
  then show "timer_ok k' = timer_ok k" "activated r k' = activated r k" "periodic r k' = periodic r k"
    "is_soft r k' = is_soft r k" "thread_timer_ok k' t = thread_timer_ok k t"
    by (simp_all add: timer_ok_def fun_eq_iff rt_object_get_type_def activated_def periodic_def
        is_soft_def tflag_def thread_timer_ok_def rt_object_is_systemobject_def)
qed

lemma kinv_sched:
  assumes "kinv X k" "sched_inv X k'" "sched_frame k k'"
  shows "kinv X k'"
proof -
  note fr = sched_frame_fields [OF assms(3)]
  note tf = sched_frame_timer [OF assms(3)]
  note lf = sched_frame_live [OF assms(3)]
  have c: "tstate (threads k' t) = RT_THREAD_CLOSE \<longleftrightarrow> tstate (threads k t) = RT_THREAD_CLOSE"
    "tstate (threads k' t) = RT_THREAD_SUSPEND \<longleftrightarrow> tstate (threads k t) = RT_THREAD_SUSPEND" for t
    using sched_frame_tstate [OF assms(3)] by simp_all
  show ?thesis
    using assms(1,2)
    unfolding kinv_def timer_lists_def thread_timers_def fr tf lf c by blast
qed

lemma rt_schedule_kinv:
  assumes "kinv {} k" "current_thread k = Some cur"
  shows "\<exists>k'. rt_schedule k = Some k' \<and> kinv {} k' \<and> sched_frame k k'"
  using rt_schedule_total [OF kinv_parts(1) [OF assms(1)] assms(2)] kinv_sched [OF assms(1)] by blast

lemma timer_lists_cong:
  assumes "objs k' = objs k" "tlists k' = tlists k"
  shows "timer_lists k' = timer_lists k"
proof -
  have "timer_ok k' = timer_ok k" "\<And>r. activated r k' = activated r k" "\<And>r. is_soft r k' = is_soft r k"
    using assms(1) by (simp_all add: timer_ok_def fun_eq_iff rt_object_get_type_def activated_def
        is_soft_def tflag_def)
  then show ?thesis using assms(2) by (simp add: timer_lists_def)
qed

lemma timer_ok_cong: "objs k' = objs k \<Longrightarrow> timer_ok k' = timer_ok k"
  by (simp add: timer_ok_def fun_eq_iff rt_object_get_type_def)

lemma thread_timer_ok_cong:
  "objs k' = objs k \<Longrightarrow> timers k' = timers k \<Longrightarrow> thread_timer_ok k' t = thread_timer_ok k t"
  by (simp add: thread_timer_ok_def timer_ok_def rt_object_get_type_def periodic_def is_soft_def
      tflag_def rt_object_is_systemobject_def)

lemma thread_timer_ok_stop [simp]:
  "thread_timer_ok (deactivate r (timer_remove r k)) t = thread_timer_ok k t"
  by (simp add: thread_timer_ok_def)

lemma thread_timer_ok_enqueued [simp]: "thread_timer_ok (enqueued r k) t = thread_timer_ok k t"
  by (simp add: thread_timer_ok_def)

subsection \<open>Stopping a timer\<close>

definition stopped :: "timer_ref \<Rightarrow> kernel \<Rightarrow> kernel" where
  "stopped r k = (if activated r k then deactivate r (timer_remove r k) else k)"

lemma rt_timer_stop_eq:
  "timer_ok k r \<Longrightarrow>
     rt_timer_stop r k = Some (if activated r k then RT_EOK else - RT_ERROR, stopped r k)"
  by (simp add: rt_timer_stop_ok stopped_def)

lemma stopped_fields [simp]:
  "container (stopped r k) = container k" "threads (stopped r k) = threads k"
  "queues (stopped r k) = queues k" "ready_group (stopped r k) = ready_group k"
  "current_thread (stopped r k) = current_thread k"
  "sched_lock_nest (stopped r k) = sched_lock_nest k"
  "interrupt_nest (stopped r k) = interrupt_nest k" "tick (stopped r k) = tick k"
  "soft_timer_idle (stopped r k) = soft_timer_idle k" "timer_thread (stopped r k) = timer_thread k"
  "sems (stopped r k) = sems k" "mutexes (stopped r k) = mutexes k" "events (stopped r k) = events k"
  "mailboxes (stopped r k) = mailboxes k" "msgqueues (stopped r k) = msgqueues k"
  "live (stopped r k) = live k" "sched_inv X (stopped r k) = sched_inv X k"
  "timer_ok (stopped r k) = timer_ok k" "timers (stopped r k) = timers k"
  "thread_timer_ok (stopped r k) t = thread_timer_ok k t"
  "objs (stopped r k) (OIpc i) = objs k (OIpc i)" "objs (stopped r k) (OThread t) = objs k (OThread t)"
  "otype (objs (stopped r k) q) = otype (objs k q)"
  by (simp_all add: stopped_def)

lemma stopped_timer_lists:
  assumes "timer_lists k"
  shows "timer_lists (stopped r k)"
  using timer_lists_stop [OF assms] assms by (simp add: stopped_def)

lemma stopped_tlists:
  assumes "timer_lists k"
  shows "q \<in> set (tlists (stopped r k) HardList) \<longleftrightarrow> q \<noteq> r \<and> q \<in> set (tlists k HardList)"
  using assms by (auto simp: stopped_def timer_lists_def q_remove_def)

lemma kframe_stopped: "kframe k (stopped r k)"
  by (simp add: kframe_def)

lemma stopped_kinv:
  assumes "kinv X k"
  shows "kinv X (stopped r k)"
  using assms stopped_timer_lists [of k r] stopped_tlists [of k _ r]
  by (simp add: kinv_def thread_timers_def)

subsection \<open>Suspending and resuming\<close>

definition suspended :: "tid \<Rightarrow> kernel \<Rightarrow> kernel" where
  "suspended t k = stopped (ThreadTimer t)
     (upd_thread t (set_tstate RT_THREAD_SUSPEND) (rt_schedule_remove_thread t k))"

lemma suspended_fields [simp]:
  "threads (suspended t k) = (threads k)(t := set_tstate RT_THREAD_SUSPEND (threads k t))"
  "queues (suspended t k) = q_remove t (queues k)"
  "current_thread (suspended t k) = current_thread k"
  "live (suspended t k) = live k" "timer_ok (suspended t k) = timer_ok k"
  "timers (suspended t k) = timers k" "thread_timer_ok (suspended t k) s = thread_timer_ok k s"
proof -
  let ?k = "upd_thread t (set_tstate RT_THREAD_SUSPEND) (rt_schedule_remove_thread t k)"
  have "timer_ok ?k = timer_ok k" by (rule timer_ok_cong) simp
  moreover have "thread_timer_ok ?k s = thread_timer_ok k s" by (rule thread_timer_ok_cong) simp_all
  ultimately show
    "threads (suspended t k) = (threads k)(t := set_tstate RT_THREAD_SUSPEND (threads k t))"
    "queues (suspended t k) = q_remove t (queues k)"
    "current_thread (suspended t k) = current_thread k"
    "live (suspended t k) = live k" "timer_ok (suspended t k) = timer_ok k"
    "timers (suspended t k) = timers k" "thread_timer_ok (suspended t k) s = thread_timer_ok k s"
    by (simp_all add: suspended_def)
qed

lemma kframe_suspended: "kframe k (suspended t k)"
  by (simp add: kframe_def suspended_def)

lemma assert_thread_live: "assert_thread t k = (if live k t then Some () else None)"
  by (simp add: assert_thread_def live_def rt_assert_def)

lemma rt_thread_suspend_eq:
  assumes "live k t" "thread_timer_ok k t"
    and "tstate (threads k t) = RT_THREAD_READY \<or>
         tstate (threads k t) = RT_THREAD_RUNNING \<and> current_thread k = Some t"
  shows "rt_thread_suspend t k = Some (RT_EOK, suspended t k)"
proof -
  have "timer_ok (upd_thread t (set_tstate RT_THREAD_SUSPEND) (rt_schedule_remove_thread t k)) (ThreadTimer t)"
    using assms(2) by (simp add: thread_timer_ok_def timer_ok_def rt_object_get_type_def)
  from rt_timer_stop_eq [OF this] show ?thesis
    using assms by (auto simp: rt_thread_suspend_def assert_thread_live Let_def suspended_def rt_thread_self_def)
qed

lemma suspended_sched:
  assumes inv: "sched_inv {} k" and lv: "live k t"
    and st: "tstate (threads k t) = RT_THREAD_READY \<or> tstate (threads k t) = RT_THREAD_RUNNING"
  shows "sched_inv {} (upd_thread t (set_tstate RT_THREAD_SUSPEND) (rt_schedule_remove_thread t k))"
    (is "sched_inv {} ?k")
proof -
  have li: "lists_inv {} k" using inv by (simp add: sched_inv_def)
  have pr: "prio_ok (threads k t)" using lists_inv_prio [OF li lv] st by auto
  have "lists_inv {t} ?k"
    using remove_thread_lists [OF li pr] pr by (intro upd_state_lists) simp_all
  from lists_inv_settle [OF this, of t] have "lists_inv {} ?k" by simp
  moreover have "one_running {} ?k"
    using inv by (auto simp: sched_inv_def one_running_def)
  moreover have "current_ok ?k"
    using inv lv by (auto simp: sched_inv_def current_ok_def)
  ultimately show ?thesis by (simp add: sched_inv_def)
qed

lemma suspended_kinv:
  assumes inv: "kinv {} k" and lv: "live k t"
    and st: "tstate (threads k t) = RT_THREAD_READY \<or> tstate (threads k t) = RT_THREAD_RUNNING"
  shows "kinv {} (suspended t k)"
proof -
  let ?k = "upd_thread t (set_tstate RT_THREAD_SUSPEND) (rt_schedule_remove_thread t k)"
  have "timer_lists ?k" using inv timer_lists_cong [of ?k k] by (simp add: kinv_def)
  moreover have "thread_timers {} ?k"
  proof -
    have "thread_timer_ok ?k s = thread_timer_ok k s" for s by (rule thread_timer_ok_cong) simp_all
    then show ?thesis using inv st by (auto simp: kinv_def thread_timers_def)
  qed
  ultimately have "kinv {} ?k"
    using suspended_sched [OF _ lv st] inv by (simp add: kinv_def)
  then show ?thesis unfolding suspended_def by (rule stopped_kinv)
qed

text \<open>Linking a detached, suspended thread to the wait list of an object.\<close>

lemma wait_list_sched:
  assumes inv: "sched_inv {} k" and lv: "live k t" and st: "tstate (threads k t) = RT_THREAD_SUSPEND"
    and det: "detached (queues k) t" and h: "h = SuspendQ i \<or> h = SenderQ i"
    and xs: "set xs = insert t (set (queues k h))" "distinct xs"
  shows "sched_inv {} (k\<lparr>queues := (queues k)(h := xs)\<rparr>)"
proof -
  let ?k = "k\<lparr>queues := (queues k)(h := xs)\<rparr>"
  have li: "lists_inv {} k" using inv by (simp add: sched_inv_def)
  have "linked {} ?k"
    unfolding linked_def
  proof (intro allI impI)
    fix g s assume s: "s \<in> set (queues ?k g)"
    show "s \<notin> {} \<and> linked_ok g (live ?k s) (threads ?k s)"
    proof (cases "g = h \<and> s = t")
      case True
      then show ?thesis using h lv st by auto
    next
      case False
      then have "s \<in> set (queues k g)" using s xs(1) by (auto split: if_splits)
      then show ?thesis using li by (auto simp: lists_inv_def dest: linkedD)
    qed
  qed
  moreover have "disjoint_lists (queues ?k)"
    using li det xs by (simp add: lists_inv_def disjoint_insert)
  moreover have "group_ok ?k" "ready_linked {} ?k" "threads_ok ?k"
    using li h by (auto simp: lists_inv_def group_ok_def ready_linked_def threads_ok_def)
  moreover have "one_running {} ?k" "current_ok ?k"
    using inv by (auto simp: sched_inv_def one_running_def current_ok_def)
  ultimately show ?thesis by (simp add: sched_inv_def lists_inv_def)
qed

lemma kinv_queues:
  assumes "kinv {} k" "sched_inv {} (k\<lparr>queues := Q\<rparr>)"
  shows "kinv {} (k\<lparr>queues := Q\<rparr>)"
proof -
  have "timer_lists (k\<lparr>queues := Q\<rparr>) = timer_lists k" by (rule timer_lists_cong) simp_all
  moreover have "thread_timer_ok (k\<lparr>queues := Q\<rparr>) s = thread_timer_ok k s" for s
    by (rule thread_timer_ok_cong) simp_all
  ultimately show ?thesis using assms by (simp add: kinv_def thread_timers_def)
qed

text \<open>Unlinking a suspended thread from whatever it waits on, and making it ready.\<close>

definition readied :: "tid \<Rightarrow> kernel \<Rightarrow> kernel" where
  "readied t k = rt_schedule_insert_thread t (k\<lparr>queues := q_remove t (queues k)\<rparr>)"

lemma readied_fields [simp]:
  "container (readied t k) = container k" "objs (readied t k) = objs k"
  "timers (readied t k) = timers k" "tlists (readied t k) = tlists k" "tick (readied t k) = tick k"
  "current_thread (readied t k) = current_thread k"
  "sched_lock_nest (readied t k) = sched_lock_nest k"
  "interrupt_nest (readied t k) = interrupt_nest k"
  "soft_timer_idle (readied t k) = soft_timer_idle k" "timer_thread (readied t k) = timer_thread k"
  "sems (readied t k) = sems k" "mutexes (readied t k) = mutexes k" "events (readied t k) = events k"
  "mailboxes (readied t k) = mailboxes k" "msgqueues (readied t k) = msgqueues k"
  "threads (readied t k) = (threads k)(t := set_tstate
        (if current_thread k = Some t then RT_THREAD_RUNNING else RT_THREAD_READY) (threads k t))"
  "live (readied t k) = live k"
  by (simp_all add: readied_def)

lemma readied_queues:
  "queues (readied t k) =
     (if current_thread k = Some t then q_remove t (queues k)
      else q_insert_before (ReadyQ (unat (current_priority (threads k t)))) t (q_remove t (queues k)))"
  by (simp add: readied_def)

lemma readied_wait_queues [simp]:
  "queues (readied t k) (SuspendQ i) = removeAll t (queues k (SuspendQ i))"
  "queues (readied t k) (SenderQ i) = removeAll t (queues k (SenderQ i))"
  "queues (readied t k) DefunctQ = removeAll t (queues k DefunctQ)"
  by (simp_all add: readied_queues q_remove_def q_insert_before_def)

lemma kframe_readied: "kframe k (readied t k)"
  by (simp add: kframe_def)

lemma readied_sched:
  assumes inv: "sched_inv {} k" and lv: "live k t" and st: "tstate (threads k t) = RT_THREAD_SUSPEND"
  shows "sched_inv {} (readied t k)"
proof -
  let ?k = "k\<lparr>queues := q_remove t (queues k)\<rparr>"
  have li: "lists_inv {} k" using inv by (simp add: sched_inv_def)
  have pr: "prio_ok (threads k t)" using lists_inv_prio [OF li lv] st by simp
  have nr: "t \<notin> set (queues k (ReadyQ p))" for p
    using li st linked_readyD [of "{}" k t p] by (auto simp: lists_inv_def)
  have "linked {t} ?k" using li by (auto simp: lists_inv_def linked_def q_remove_def)
  moreover have "group_ok ?k" using li nr by (simp add: lists_inv_def group_ok_def q_remove_def)
  moreover have "ready_linked {t} ?k" using li by (auto simp: lists_inv_def ready_linked_def q_remove_def)
  moreover have "threads_ok ?k" using li by (simp add: lists_inv_def threads_ok_def)
  moreover have "disjoint_lists (queues ?k)" using li by (simp add: lists_inv_def disjoint_remove)
  ultimately have "lists_inv {t} ?k" by (simp add: lists_inv_def)
  moreover have "one_running {t} ?k" "current_ok ?k"
    using inv by (auto simp: sched_inv_def one_running_def current_ok_def)
  ultimately have "sched_inv {t} ?k" by (simp add: sched_inv_def)
  from insert_thread_inv [OF this, of t] lv pr show ?thesis by (simp add: readied_def)
qed

lemma readied_kinv:
  assumes inv: "kinv {} k" and lv: "live k t" and st: "tstate (threads k t) = RT_THREAD_SUSPEND"
    and nt: "ThreadTimer t \<notin> set (tlists k HardList)"
  shows "kinv {} (readied t k)"
proof -
  have "timer_lists (readied t k) = timer_lists k" by (rule timer_lists_cong) simp_all
  moreover have "thread_timer_ok (readied t k) s = thread_timer_ok k s" for s
    by (rule thread_timer_ok_cong) simp_all
  ultimately show ?thesis
    using inv readied_sched [OF _ lv st] nt st by (auto simp: kinv_def thread_timers_def)
qed

definition resumed :: "tid \<Rightarrow> kernel \<Rightarrow> kernel" where
  "resumed t k = readied t (stopped (ThreadTimer t) k)"

lemma resumed_fields [simp]:
  "current_thread (resumed t k) = current_thread k"
  "threads (resumed t k) = (threads k)(t := set_tstate
        (if current_thread k = Some t then RT_THREAD_RUNNING else RT_THREAD_READY) (threads k t))"
  "live (resumed t k) = live k"
  "queues (resumed t k) (SuspendQ i) = removeAll t (queues k (SuspendQ i))"
  "queues (resumed t k) (SenderQ i) = removeAll t (queues k (SenderQ i))"
  "queues (resumed t k) DefunctQ = removeAll t (queues k DefunctQ)"
  "sems (resumed t k) = sems k" "mutexes (resumed t k) = mutexes k" "events (resumed t k) = events k"
  "mailboxes (resumed t k) = mailboxes k" "msgqueues (resumed t k) = msgqueues k"
  "objs (resumed t k) (OIpc i) = objs k (OIpc i)" "objs (resumed t k) (OThread s) = objs k (OThread s)"
  "tick (resumed t k) = tick k" "sched_lock_nest (resumed t k) = sched_lock_nest k"
  "interrupt_nest (resumed t k) = interrupt_nest k"
  by (simp_all add: resumed_def)

lemma kframe_resumed: "kframe k (resumed t k)"
  unfolding resumed_def by (rule kframe_trans [OF kframe_stopped kframe_readied])

lemma stopped_queues_commute:
  "stopped r (k\<lparr>queues := q\<rparr>) = (stopped r k)\<lparr>queues := q\<rparr>"
  by (simp add: stopped_def activated_def tflag_def deactivate_def set_tflag_def upd_obj_def timer_remove_def)

lemma rt_thread_resume_eq:
  assumes "live k t" "thread_timer_ok k t" "tstate (threads k t) = RT_THREAD_SUSPEND"
  shows "rt_thread_resume t k = Some (RT_EOK, resumed t k)"
proof -
  have "timer_ok (k\<lparr>queues := q_remove t (queues k)\<rparr>) (ThreadTimer t)"
    using assms(2) by (simp add: thread_timer_ok_def timer_ok_def rt_object_get_type_def)
  from rt_timer_stop_eq [OF this] show ?thesis
    using assms by (simp add: rt_thread_resume_def assert_thread_live Let_def resumed_def readied_def
        stopped_queues_commute)
qed

lemma resumed_kinv:
  assumes inv: "kinv {} k" and lv: "live k t" and st: "tstate (threads k t) = RT_THREAD_SUSPEND"
  shows "kinv {} (resumed t k)"
proof -
  have "ThreadTimer t \<notin> set (tlists (stopped (ThreadTimer t) k) HardList)"
    using stopped_tlists kinv_parts(2) [OF inv] by simp
  then show ?thesis
    unfolding resumed_def using stopped_kinv [OF inv] lv st by (intro readied_kinv) simp_all
qed

text \<open>Resuming a thread of a wait list.\<close>

lemma waiter_suspended:
  assumes "kinv {} k" "t \<in> set (queues k h)" "h = SuspendQ i \<or> h = SenderQ i"
  shows "live k t" "tstate (threads k t) = RT_THREAD_SUSPEND" "thread_timer_ok k t"
proof -
  have "linked {} k" using assms(1) by (simp add: kinv_def sched_inv_def lists_inv_def)
  from linkedD [OF this assms(2)] assms(3) show "live k t" "tstate (threads k t) = RT_THREAD_SUSPEND"
    by auto
  then show "thread_timer_ok k t" using kinv_thread_timer [OF assms(1)] by simp
qed

lemma resume_waiter:
  assumes "kinv {} k" "t \<in> set (queues k h)" "h = SuspendQ i \<or> h = SenderQ i"
  shows "rt_thread_resume t k = Some (RT_EOK, resumed t k)" "kinv {} (resumed t k)"
  using rt_thread_resume_eq resumed_kinv [OF assms(1)] waiter_suspended [OF assms] by auto

subsection \<open>Starting a timer\<close>

lemma kframe_enqueued: "kframe k (enqueued r k)"
  by (simp add: kframe_def)

lemma enqueued_kinv:
  assumes inv: "kinv {} k" and ok: "timer_ok k r"
    and t: "\<And>t. r = ThreadTimer t \<Longrightarrow> live k t \<and> tstate (threads k t) = RT_THREAD_SUSPEND"
  shows "kinv {} (enqueued r k)"
proof -
  have "q \<in> set (tlists (enqueued r k) HardList) \<Longrightarrow> q = r \<or> q \<in> set (tlists k HardList)" for q
    by (auto simp: enqueued_tlists q_remove_def split: if_splits)
  then have "thread_timers {} (enqueued r k)"
    using inv t unfolding kinv_def thread_timers_def by (simp, blast)
  then show ?thesis
    using inv timer_lists_enqueued [OF _ ok] by (simp add: kinv_def)
qed

lemma rt_timer_start_hard:
  assumes "timer_ok k r" "tm_init_tick (timers k r) < 0x7fffffff" "\<not> is_soft r k"
  shows "rt_timer_start r k = Some (RT_EOK, enqueued r k)"
  using timer_enqueue_ok [OF assms(1,2)] assms(3) by (simp add: rt_timer_start_def)

lemma rt_timer_start_kinv:
  assumes inv: "kinv {} k" and ok: "timer_ok k r" "tm_init_tick (timers k r) < 0x7fffffff"
    and t: "\<And>t. r = ThreadTimer t \<Longrightarrow> live k t \<and> tstate (threads k t) = RT_THREAD_SUSPEND"
    and cur: "current_thread k \<noteq> None"
  shows "\<exists>k'. rt_timer_start r k = Some (RT_EOK, k') \<and> kinv {} k' \<and> kframe k k'"
proof -
  let ?k1 = "enqueued r k" and ?tt = "timer_thread k"
  have k1: "kinv {} ?k1" by (rule enqueued_kinv [OF inv ok(1) t])
  show ?thesis
  proof (cases "is_soft r k \<and> soft_timer_idle k \<and> tstate (threads k ?tt) = RT_THREAD_SUSPEND")
    case False
    then have "rt_timer_start r k = Some (RT_EOK, ?k1)"
      using timer_enqueue_ok [OF ok] by (auto simp: rt_timer_start_def)
    then show ?thesis using k1 kframe_enqueued by blast
  next
    case True
    have lv: "live ?k1 ?tt" "tstate (threads ?k1 ?tt) = RT_THREAD_SUSPEND"
      using True inv by (simp_all add: kinv_def)
    then have "thread_timer_ok ?k1 ?tt" using kinv_thread_timer [OF k1] by simp
    then have r: "rt_thread_resume ?tt ?k1 = Some (RT_EOK, resumed ?tt ?k1)"
      using rt_thread_resume_eq lv by blast
    have k2: "kinv {} (resumed ?tt ?k1)" by (rule resumed_kinv [OF k1 lv])
    obtain cur where "current_thread (resumed ?tt ?k1) = Some cur" using cur by auto
    from rt_schedule_kinv [OF k2 this] obtain k' where
      k': "rt_schedule (resumed ?tt ?k1) = Some k'" "kinv {} k'" "sched_frame (resumed ?tt ?k1) k'"
      by blast
    have "kframe k k'"
      using kframe_trans [OF kframe_trans [OF kframe_enqueued kframe_resumed] kframe_sched [OF k'(3)]] .
    moreover have "rt_timer_start r k = Some (RT_EOK, k')"
      using True timer_enqueue_ok [OF ok] r k'(1) by (simp add: rt_timer_start_def)
    ultimately show ?thesis using k'(2) by blast
  qed
qed

text \<open>Setting the time of a timer.\<close>

definition timed :: "timer_ref \<Rightarrow> u32 \<Rightarrow> kernel \<Rightarrow> kernel" where
  "timed r v k = upd_timer r (\<lambda>tm. tm\<lparr>tm_init_tick := v\<rparr>) k"

lemma timed_fields [simp]:
  "threads (timed r v k) = threads k" "queues (timed r v k) = queues k"
  "tlists (timed r v k) = tlists k" "objs (timed r v k) = objs k"
  "current_thread (timed r v k) = current_thread k" "live (timed r v k) = live k"
  "timer_ok (timed r v k) = timer_ok k" "is_soft q (timed r v k) = is_soft q k"
  "activated q (timed r v k) = activated q k" "tick (timed r v k) = tick k"
  "timer_thread (timed r v k) = timer_thread k" "sems (timed r v k) = sems k"
  "mutexes (timed r v k) = mutexes k" "events (timed r v k) = events k"
  "mailboxes (timed r v k) = mailboxes k" "msgqueues (timed r v k) = msgqueues k"
  "sched_lock_nest (timed r v k) = sched_lock_nest k"
  "interrupt_nest (timed r v k) = interrupt_nest k"
  "tm_init_tick (timers (timed r v k) r) = v"
  by (simp_all add: timed_def)

lemma kframe_timed: "kframe k (timed r v k)"
  by (simp add: kframe_def timed_def)

lemma thread_timer_ok_timed [simp]: "thread_timer_ok (timed r v k) t = thread_timer_ok k t"
  by (simp add: thread_timer_ok_def timed_def)

lemma timed_kinv: "kinv X (timed r v k) = kinv X k"
proof -
  have "timer_lists (timed r v k) = timer_lists k" by (rule timer_lists_cong) simp_all
  moreover have "sched_inv X (timed r v k) = sched_inv X k" by (simp add: timed_def)
  ultimately show ?thesis by (simp add: kinv_def thread_timers_def)
qed

lemma rt_timer_control_set_time:
  "timer_ok k r \<Longrightarrow> rt_timer_control r RT_TIMER_CTRL_SET_TIME v k = Some (RT_EOK, v, timed r v k)"
  by (simp add: rt_timer_control_def assert_timer_def timer_ok_def timed_def)

text \<open>Arming the timer of a suspended thread, as every blocking call with a time limit does.\<close>

definition armed :: "tid \<Rightarrow> u32 \<Rightarrow> kernel \<Rightarrow> kernel" where
  "armed t v k = enqueued (ThreadTimer t) (timed (ThreadTimer t) v k)"

lemma arm_thread_timer:
  assumes inv: "kinv {} k" and lv: "live k t" and st: "tstate (threads k t) = RT_THREAD_SUSPEND"
    and v: "v < 0x7fffffff"
  shows "rt_timer_control (ThreadTimer t) RT_TIMER_CTRL_SET_TIME v k
           = Some (RT_EOK, v, timed (ThreadTimer t) v k)"
    and "rt_timer_start (ThreadTimer t) (timed (ThreadTimer t) v k) = Some (RT_EOK, armed t v k)"
    and "kinv {} (armed t v k)"
proof -
  have ok: "thread_timer_ok k t" using kinv_thread_timer [OF inv lv] st by simp
  then show "rt_timer_control (ThreadTimer t) RT_TIMER_CTRL_SET_TIME v k
           = Some (RT_EOK, v, timed (ThreadTimer t) v k)"
    by (intro rt_timer_control_set_time) (simp add: thread_timer_ok_def)
  show "rt_timer_start (ThreadTimer t) (timed (ThreadTimer t) v k) = Some (RT_EOK, armed t v k)"
    unfolding armed_def using ok v by (intro rt_timer_start_hard) (simp_all add: thread_timer_ok_def)
  show "kinv {} (armed t v k)"
    unfolding armed_def using inv lv st ok
    by (intro enqueued_kinv) (auto simp: timed_kinv thread_timer_ok_def)
qed

lemma armed_fields [simp]:
  "threads (armed t v k) = threads k" "queues (armed t v k) = queues k"
  "current_thread (armed t v k) = current_thread k" "live (armed t v k) = live k"
  "sems (armed t v k) = sems k" "mutexes (armed t v k) = mutexes k" "events (armed t v k) = events k"
  "mailboxes (armed t v k) = mailboxes k" "msgqueues (armed t v k) = msgqueues k"
  "objs (armed t v k) (OIpc i) = objs k (OIpc i)" "tick (armed t v k) = tick k"
  "sched_lock_nest (armed t v k) = sched_lock_nest k"
  "interrupt_nest (armed t v k) = interrupt_nest k"
  by (simp_all add: armed_def)

lemma kframe_armed: "kframe k (armed t v k)"
  unfolding armed_def by (rule kframe_trans [OF kframe_timed kframe_enqueued])

lemma armed_hard:
  assumes "thread_timer_ok k t"
  shows "ThreadTimer t \<in> set (tlists (armed t v k) HardList)"
    "v < 0x7fffffff \<Longrightarrow> trem (armed t v k) (ThreadTimer t) = uint v"
proof -
  show "ThreadTimer t \<in> set (tlists (armed t v k) HardList)"
    using assms by (simp add: armed_def enqueued_tlists thread_timer_ok_def)
  show "v < 0x7fffffff \<Longrightarrow> trem (armed t v k) (ThreadTimer t) = uint v"
    using sint_small [of v] by (simp add: armed_def enqueued_trem)
qed

lemma upd_thread_kinv:
  assumes inv: "kinv X k"
    and f: "tstate (f (threads k t)) = tstate (threads k t)"
      "current_priority (f (threads k t)) = current_priority (threads k t)"
      "number_mask (f (threads k t)) = number_mask (threads k t)"
  shows "kinv X (upd_thread t f k)"
proof -
  have s: "sched_inv X (upd_thread t f k)" using f by (intro upd_thread_inv kinv_parts(1) [OF inv])
  have tl: "timer_lists (upd_thread t f k) = timer_lists k" by (rule timer_lists_cong) simp_all
  have tok: "thread_timer_ok (upd_thread t f k) s = thread_timer_ok k s" for s
    by (rule thread_timer_ok_cong) simp_all
  have c: "tstate (threads (upd_thread t f k) s) = tstate (threads k s)" for s using f(1) by simp
  show ?thesis
    using inv s tl tok unfolding kinv_def thread_timers_def c by simp
qed

lemma kframe_upd_thread: "kframe k (upd_thread t f k)"
  by (simp add: kframe_def)

section \<open>Sleeping and timing out\<close>

lemma assert_live: "live k t \<Longrightarrow> assert_thread t k = Some ()"
  by (simp add: assert_thread_live)

text \<open>The state of a running thread, and a time limit it may wait for.\<close>

definition running :: "kernel \<Rightarrow> tid \<Rightarrow> bool" where
  "running k t \<longleftrightarrow> current_thread k = Some t \<and> live k t \<and> tstate (threads k t) = RT_THREAD_RUNNING"

lemma runningD:
  "running k t \<Longrightarrow> current_thread k = Some t" "running k t \<Longrightarrow> live k t"
  "running k t \<Longrightarrow> tstate (threads k t) = RT_THREAD_RUNNING"
  by (simp_all add: running_def)

lemma suspend_running:
  assumes "kinv {} k" "running k t"
  shows "rt_thread_suspend t k = Some (RT_EOK, suspended t k)" "kinv {} (suspended t k)"
    "tstate (threads (suspended t k) t) = RT_THREAD_SUSPEND" "live (suspended t k) t"
    "detached (queues (suspended t k)) t"
proof -
  have ok: "thread_timer_ok k t"
    using kinv_thread_timer [OF assms(1)] assms(2) by (simp add: running_def)
  then show "rt_thread_suspend t k = Some (RT_EOK, suspended t k)"
    using assms by (intro rt_thread_suspend_eq) (simp_all add: running_def)
  show "kinv {} (suspended t k)"
    using assms by (intro suspended_kinv) (simp_all add: running_def)
qed (use assms in \<open>simp_all add: running_def\<close>)

lemma sleep_start_eq:
  assumes inv: "kinv {} k" and run: "running k t" and v: "v < 0x7fffffff"
  shows "rt_thread_sleep_start v k = rt_schedule (armed t v (suspended t k))"
    and "kinv {} (armed t v (suspended t k))"
proof -
  note s = suspend_running [OF inv run]
  note a = arm_thread_timer [OF s(2,4,3) v]
  show "rt_thread_sleep_start v k = rt_schedule (armed t v (suspended t k))"
    using s(1) a(1,2) run assert_live [of k t]
    by (simp add: rt_thread_sleep_start_def rt_thread_self_def running_def)
  show "kinv {} (armed t v (suspended t k))" by (rule a(3))
qed

lemma timed_out_kinv:
  assumes inv: "kinv {} k" and lv: "live k t" and st: "tstate (threads k t) = RT_THREAD_SUSPEND"
    and nt: "ThreadTimer t \<notin> set (tlists k HardList)" and cur: "current_thread k = Some c"
  shows "\<exists>k'. rt_thread_timeout t k = Some k' \<and> kinv {} k' \<and> kframe k k'
     \<and> tlists k' = tlists k \<and> timers k' = timers k \<and> objs k' = objs k
     \<and> error (threads k' t) = - RT_ETIMEOUT \<and> tstate (threads k' t) \<in> {RT_THREAD_READY, RT_THREAD_RUNNING}
     \<and> current_thread k' \<noteq> None
     \<and> (\<forall>s. s \<noteq> t \<longrightarrow> error (threads k' s) = error (threads k s)
          \<and> (tstate (threads k' s) = RT_THREAD_SUSPEND \<longleftrightarrow> tstate (threads k s) = RT_THREAD_SUSPEND))"
proof -
  let ?e = "\<lambda>th. th\<lparr>error := - RT_ETIMEOUT\<rparr>"
  let ?k1 = "upd_thread t ?e k"
  have k1: "kinv {} ?k1" by (rule upd_thread_kinv [OF inv]) simp_all
  have k2: "kinv {} (readied t ?k1)"
    using lv st nt by (intro readied_kinv k1) simp_all
  have "current_thread (readied t ?k1) = Some c" using cur by simp
  from rt_schedule_kinv [OF k2 this] obtain k' where
    k': "rt_schedule (readied t ?k1) = Some k'" "kinv {} k'" "sched_frame (readied t ?k1) k'" by blast
  have eq: "rt_thread_timeout t k = Some k'"
    using k'(1) st lv by (simp add: rt_thread_timeout_def assert_live readied_def Let_def)
  have th: "threads (readied t ?k1) t = set_tstate
        (if current_thread k = Some t then RT_THREAD_RUNNING else RT_THREAD_READY) (?e (threads k t))"
    by simp
  have "{tstate (threads (readied t ?k1) t), tstate (threads k' t)} \<subseteq> {RT_THREAD_READY, RT_THREAD_RUNNING}
      \<or> tstate (threads (readied t ?k1) t) = tstate (threads k' t)"
    using k'(3) unfolding sched_frame_def by blast
  then have ts: "tstate (threads k' t) \<in> {RT_THREAD_READY, RT_THREAD_RUNNING}"
    unfolding th by (auto split: if_splits)
  have fr: "kframe ?k1 k'"
    using kframe_trans [OF kframe_readied kframe_sched [OF k'(3)]] by simp
  have "kframe k ?k1" by (simp add: kframe_def)
  note fr' = kframe_trans [OF this fr]
  have er: "error (threads k' t) = - RT_ETIMEOUT"
    using sched_frame_thread(1) [OF k'(3)] by simp
  have oth: "error (threads k' s) = error (threads k s)
      \<and> (tstate (threads k' s) = RT_THREAD_SUSPEND \<longleftrightarrow> tstate (threads k s) = RT_THREAD_SUSPEND)"
    if "s \<noteq> t" for s
    using sched_frame_tstate [OF k'(3), of RT_THREAD_SUSPEND s] sched_frame_thread(1) [OF k'(3), of s]
      that by simp
  have cu: "current_thread k' \<noteq> None"
  proof (cases "sched_lock_nest (readied t ?k1) = 0 \<and> ready_group (readied t ?k1) \<noteq> 0")
    case False
    then show ?thesis using k'(1) cur by (auto simp: rt_schedule_def)
  next
    case True
    then show ?thesis
      using k'(1) by (auto simp: rt_schedule_def schedule_switch_def Let_def bind_eq_Some_conv split: if_splits)
  qed
  show ?thesis
    using eq k'(2) fr' er ts oth cu sched_frame_fields [OF k'(3)] by auto
qed

text \<open>\<open>rt_thread_yield\<close>.\<close>

lemma yield_ok:
  assumes inv: "kinv {} k" and run: "running k t"
  shows "\<exists>k'. rt_thread_yield k = Some (RT_EOK, k') \<and> kinv {} k' \<and> kframe k k'"
proof -
  let ?f = "\<lambda>th. set_yield (th\<lparr>remaining_tick := init_tick th\<rparr>)"
  let ?k1 = "upd_thread t ?f k"
  have eq: "upd_thread t set_yield (upd_thread t (\<lambda>th. th\<lparr>remaining_tick := init_tick th\<rparr>) k) = ?k1"
    by (simp add: upd_thread_def)
  have k1: "kinv {} ?k1" by (rule upd_thread_kinv [OF inv]) simp_all
  have "current_thread ?k1 = Some t" using run by (simp add: running_def)
  from rt_schedule_kinv [OF k1 this] obtain k' where
    k': "rt_schedule ?k1 = Some k'" "kinv {} k'" "sched_frame ?k1 k'" by blast
  have "kframe k ?k1" by (simp add: kframe_def)
  then have "kframe k k'" using kframe_trans kframe_sched [OF k'(3)] by blast
  moreover have "rt_thread_yield k = Some (RT_EOK, k')"
    using run k'(1) [folded eq] by (simp add: rt_thread_yield_def rt_thread_self_def running_def)
  ultimately show ?thesis using k'(2) by blast
qed

section \<open>Starting a thread and changing its priority\<close>

lemma prio_ok_mask: "unat p < 32 \<Longrightarrow> current_priority th = p \<Longrightarrow> number_mask th = prio_mask p \<Longrightarrow> prio_ok th"
  by (simp add: prio_ok_def prio_mask_def)

text \<open>The thread is unlinked, so its record may change freely.\<close>

lemma unlinked_upd:
  assumes inv: "kinv {} k" and det: "detached (queues k) t"
    and st: "tstate (f (threads k t)) \<noteq> RT_THREAD_READY"
      "tstate (f (threads k t)) = RT_THREAD_RUNNING \<Longrightarrow> current_thread k = Some t"
      "tstate (f (threads k t)) \<noteq> RT_THREAD_CLOSE"
    and pr: "live k t \<Longrightarrow> tstate (f (threads k t)) \<noteq> RT_THREAD_INIT \<Longrightarrow> prio_ok (f (threads k t))"
    and tm: "ThreadTimer t \<in> set (tlists k HardList) \<Longrightarrow> tstate (f (threads k t)) = RT_THREAD_SUSPEND"
    and ok: "live k t \<Longrightarrow> thread_timer_ok k t"
    and lv: "live k t"
  shows "kinv {} (upd_thread t f k)"
proof -
  let ?k = "upd_thread t f k"
  have li: "lists_inv {} k" using kinv_parts(1) [OF inv] by (simp add: sched_inv_def)
  have "lists_inv {t} ?k"
    using lists_inv_exempt [OF li det] pr by (intro upd_thread_lists) auto
  from lists_inv_settle [OF this, of t] st(1) have l: "lists_inv {} ?k" by simp
  have o: "one_running {} ?k" "current_ok ?k"
    using kinv_parts(1) [OF inv] st lv by (auto simp: sched_inv_def one_running_def current_ok_def)
  have tl: "timer_lists ?k = timer_lists k" by (rule timer_lists_cong) simp_all
  have tok: "thread_timer_ok ?k s = thread_timer_ok k s" for s by (rule thread_timer_ok_cong) simp_all
  have "thread_timers {} ?k"
    using inv tm ok lv unfolding kinv_def thread_timers_def tok by auto
  then show ?thesis
    using l o inv tl st(3) by (auto simp: kinv_def sched_inv_def)
qed

lemma startup_ok:
  assumes inv: "kinv {} k" and lv: "live k t" and st: "tstate (threads k t) = RT_THREAD_INIT"
    and p: "unat (init_priority (threads k t)) < RT_THREAD_PRIORITY_MAX" and det: "detached (queues k) t"
    and nc: "current_thread k \<noteq> Some t"
  defines "k1 \<equiv> upd_thread t (\<lambda>th. th\<lparr>current_priority := init_priority th,
                     number_mask := prio_mask (init_priority th), stat := RT_THREAD_SUSPEND\<rparr>) k"
  shows "kinv {} (resumed t k1)" "rt_thread_resume t k1 = Some (RT_EOK, resumed t k1)"
    "tstate (threads k1 t) = RT_THREAD_SUSPEND" "live k1 = live k" "current_thread k1 = current_thread k"
proof -
  show s: "tstate (threads k1 t) = RT_THREAD_SUSPEND" by (simp add: k1_def tstate_def)
  show l: "live k1 = live k" by (simp add: k1_def)
  show "current_thread k1 = current_thread k" by (simp add: k1_def)
  have ok: "thread_timer_ok k t" using kinv_thread_timer [OF inv lv] st by simp
  have k1: "kinv {} k1"
    unfolding k1_def
  proof (rule unlinked_upd [OF inv det])
    let ?th = "(threads k t)\<lparr>current_priority := init_priority (threads k t),
                     number_mask := prio_mask (init_priority (threads k t)), stat := RT_THREAD_SUSPEND\<rparr>"
    have ts: "tstate ?th = RT_THREAD_SUSPEND" by (simp add: tstate_def)
    then show "tstate ?th \<noteq> RT_THREAD_READY" "tstate ?th \<noteq> RT_THREAD_CLOSE" by simp_all
    show "current_thread k = Some t" if "tstate ?th = RT_THREAD_RUNNING" using ts that by simp
    show "prio_ok ?th" using p by (intro prio_ok_mask) simp_all
    show "tstate ?th = RT_THREAD_SUSPEND" by (rule ts)
  qed (use ok lv in simp_all)
  have ok1: "thread_timer_ok k1 t" using kinv_thread_timer [OF k1] s lv l by simp
  show "rt_thread_resume t k1 = Some (RT_EOK, resumed t k1)"
    using ok1 s lv l by (intro rt_thread_resume_eq) simp_all
  show "kinv {} (resumed t k1)" using s lv l by (intro resumed_kinv k1) simp_all
qed

lemma change_priority_ready:
  assumes inv: "kinv {} k" and lv: "live k t" and st: "tstate (threads k t) = RT_THREAD_READY"
    and p: "unat p < RT_THREAD_PRIORITY_MAX"
  defines "k' \<equiv> rt_schedule_insert_thread t (upd_thread t (change_priority p) (rt_schedule_remove_thread t k))"
  shows "kinv {} k'"
proof -
  let ?k1 = "rt_schedule_remove_thread t k" and ?k2 = "upd_thread t (change_priority p) (rt_schedule_remove_thread t k)"
  have li: "lists_inv {} k" using kinv_parts(1) [OF inv] by (simp add: sched_inv_def)
  have pr: "prio_ok (threads k t)" using lists_inv_prio [OF li lv] st by simp
  have pr2: "prio_ok (threads ?k2 t)"
    using p by (intro prio_ok_mask [of p]) (simp_all add: change_priority_def)
  have ts: "tstate (change_priority p th) = tstate th" for th by (simp add: change_priority_def tstate_def)
  have "lists_inv {t} ?k1" using remove_thread_lists [OF li pr] by simp
  then have "lists_inv {t} ?k2" using pr2 by (intro upd_thread_lists) auto
  moreover have "one_running {t} ?k2" "current_ok ?k2"
    using kinv_parts(1) [OF inv] lv st by (auto simp: sched_inv_def one_running_def current_ok_def ts)
  ultimately have "sched_inv {t} ?k2" by (simp add: sched_inv_def)
  from insert_thread_inv [OF this, of t] lv pr2 have s: "sched_inv {} k'" by (simp add: k'_def)
  have tl: "timer_lists k' = timer_lists k" by (rule timer_lists_cong) (simp_all add: k'_def)
  have tok: "thread_timer_ok k' s = thread_timer_ok k s" for s
    by (rule thread_timer_ok_cong) (simp_all add: k'_def)
  have l: "live k' = live k" "tlists k' = tlists k" "timer_thread k' = timer_thread k" by (simp_all add: k'_def)
  have th: "s \<noteq> t \<Longrightarrow> threads k' s = threads k s" for s by (simp add: k'_def)
  have tt: "tstate (threads k' t) \<noteq> RT_THREAD_CLOSE" by (simp add: k'_def)
  have nt: "ThreadTimer t \<notin> set (tlists k HardList)"
    using inv st by (auto simp: kinv_def thread_timers_def)
  have ok: "thread_timer_ok k t" using kinv_thread_timer [OF inv lv] st by simp
  have "thread_timers {} k'"
    unfolding thread_timers_def tok l
  proof (intro conjI allI impI)
    fix s assume "live k s" "tstate (threads k' s) \<noteq> RT_THREAD_CLOSE"
    then show "thread_timer_ok k s" using ok th [of s] inv by (cases "s = t") (auto simp: kinv_def thread_timers_def)
  next
    fix s assume *: "ThreadTimer s \<in> set (tlists k HardList)"
    then have "s \<noteq> t" using nt by auto
    with * show "live k s" "tstate (threads k' s) = RT_THREAD_SUSPEND"
      using th [of s] inv by (auto simp: kinv_def thread_timers_def)
  qed
  then show ?thesis
    using s tl l th [of "timer_thread k"] tt inv by (cases "timer_thread k = t") (simp_all add: kinv_def)
qed

lemma change_priority_unlinked:
  assumes inv: "kinv {} k" and lv: "live k t" and st: "tstate (threads k t) \<noteq> RT_THREAD_READY"
    and p: "unat p < RT_THREAD_PRIORITY_MAX"
  shows "kinv {} (upd_thread t (change_priority p) k)"
proof -
  let ?k' = "upd_thread t (change_priority p) k"
  have ts: "tstate (change_priority p th) = tstate th" for th by (simp add: change_priority_def tstate_def)
  have pr: "prio_ok (change_priority p th)" for th
    using p by (simp add: change_priority_def prio_ok_def prio_mask_def)
  have li: "lists_inv {} k" using kinv_parts(1) [OF inv] by (simp add: sched_inv_def)
  have nr: "t \<notin> set (queues k (ReadyQ q))" for q
    using li st linked_readyD [of "{}" k t q] by (auto simp: lists_inv_def)
  have "lists_inv {} ?k'"
  proof -
    have "linked {} ?k'"
      unfolding linked_def
    proof (intro allI impI)
      fix h s assume s: "s \<in> set (queues ?k' h)"
      then have "linked_ok h (live k s) (threads k s)" using li by (auto simp: lists_inv_def dest: linkedD)
      then show "s \<notin> {} \<and> linked_ok h (live ?k' s) (threads ?k' s)"
        using s nr by (cases h) (auto simp: ts)
    qed
    moreover have "ready_linked {} ?k'" using li st by (auto simp: lists_inv_def ready_linked_def ts)
    ultimately show ?thesis using li pr by (auto simp: lists_inv_def threads_ok_def group_ok_def)
  qed
  then have "sched_inv {} ?k'"
    using kinv_parts(1) [OF inv] by (auto simp: sched_inv_def one_running_def current_ok_def ts)
  moreover have "timer_lists ?k' = timer_lists k" by (rule timer_lists_cong) simp_all
  moreover have "thread_timer_ok ?k' s = thread_timer_ok k s" for s by (rule thread_timer_ok_cong) simp_all
  moreover have "tstate (threads ?k' s) = tstate (threads k s)" for s by (simp add: ts)
  ultimately show ?thesis using inv unfolding kinv_def thread_timers_def by simp
qed

text \<open>The state after \<open>RT_THREAD_CTRL_CHANGE_PRIORITY\<close>.\<close>

definition reprioritised :: "tid \<Rightarrow> u8 \<Rightarrow> kernel \<Rightarrow> kernel" where
  "reprioritised t p k =
     (if tstate (threads k t) = RT_THREAD_READY
      then rt_schedule_insert_thread t (upd_thread t (change_priority p) (rt_schedule_remove_thread t k))
      else upd_thread t (change_priority p) k)"

lemma tstate_change_priority [simp]: "tstate (change_priority p th) = tstate th"
  by (simp add: change_priority_def tstate_def)

lemma change_priority_fields [simp]:
  "current_priority (change_priority p th) = p" "number_mask (change_priority p th) = prio_mask p"
  "error (change_priority p th) = error th" "event_set (change_priority p th) = event_set th"
  "event_info (change_priority p th) = event_info th" "init_priority (change_priority p th) = init_priority th"
  by (simp_all add: change_priority_def)

lemma rt_thread_control_priority:
  assumes "kinv {} k" "live k t" and "unat p < RT_THREAD_PRIORITY_MAX"
  shows "rt_thread_control cl t (RT_THREAD_CTRL_CHANGE_PRIORITY p) k = Some (RT_EOK, reprioritised t p k)"
    "kinv {} (reprioritised t p k)"
  using assms change_priority_ready [OF assms(1,2) _ assms(3)] change_priority_unlinked [OF assms(1,2) _ assms(3)]
  by (auto simp: reprioritised_def assert_live Let_def)

lemma reprioritised_fields [simp]:
  "objs (reprioritised t p k) = objs k" "tlists (reprioritised t p k) = tlists k"
  "timers (reprioritised t p k) = timers k" "current_thread (reprioritised t p k) = current_thread k"
  "live (reprioritised t p k) = live k" "mutexes (reprioritised t p k) = mutexes k"
  "s \<noteq> t \<Longrightarrow> threads (reprioritised t p k) s = threads k s"
  "current_priority (threads (reprioritised t p k) s) = (if s = t then p else current_priority (threads k s))"
  "error (threads (reprioritised t p k) s) = error (threads k s)"
  "event_set (threads (reprioritised t p k) s) = event_set (threads k s)"
  "event_info (threads (reprioritised t p k) s) = event_info (threads k s)"
  by (auto simp: reprioritised_def)

lemma reprioritised_queues:
  "queues (reprioritised t p k) =
     (if tstate (threads k t) = RT_THREAD_READY \<and> current_thread k \<noteq> Some t
      then q_insert_before (ReadyQ (unat p)) t (q_remove t (queues k))
      else if tstate (threads k t) = RT_THREAD_READY then q_remove t (queues k) else queues k)"
  by (simp add: reprioritised_def)

lemma ready_not_current:
  "kinv {} k \<Longrightarrow> tstate (threads k t) = RT_THREAD_READY \<Longrightarrow> current_thread k \<noteq> Some t"
  using kinv_parts(1) by (fastforce simp: sched_inv_def one_running_def)

lemma reprioritised_tstate:
  assumes "kinv {} k"
  shows "tstate (threads (reprioritised t p k) s) = tstate (threads k s)"
  using ready_not_current [OF assms, of t] by (auto simp: reprioritised_def)

lemma reprioritised_wait_queue:
  assumes "kinv {} k" "\<not> is_ready_queue h"
  shows "queues (reprioritised t p k) h = queues k h"
proof (cases "tstate (threads k t) = RT_THREAD_READY")
  case True
  have l: "linked {} k" using kinv_parts(1) [OF assms(1)] by (simp add: sched_inv_def lists_inv_def)
  have "t \<notin> set (queues k h)" using linkedD [OF l, of t h] True assms(2) by (cases h) auto
  then show ?thesis
    using assms(2) by (cases h) (auto simp: reprioritised_queues q_insert_before_def q_remove_def)
qed (simp add: reprioritised_queues)

lemma kframe_reprioritised: "kframe k (reprioritised t p k)"
  by (simp add: kframe_def reprioritised_def)

section \<open>Properties\<close>

lemma ex_activated: "\<not> activated r ex_kernel"
proof -
  have "oflag (ex_objs (OTimer r)) = 0" by (cases r) auto
  then show ?thesis by (simp add: activated_def tflag_def)
qed

lemma ex_thread_timer: "t < 4 \<Longrightarrow> thread_timer_ok ex_kernel t"
  by (simp add: thread_timer_ok_def timer_ok_def rt_object_get_type_def rt_object_is_systemobject_def
      periodic_def is_soft_def tflag_def)

lemma ex_kinv: "kinv {} ex_kernel"
proof -
  have "thread_timers {} ex_kernel"
    using ex_thread_timer by (auto simp: thread_timers_def ex_live)
  then show ?thesis
    by (auto simp: kinv_def ex_sched_inv ex_timer_lists ex_live)
qed

lemma ex_running: "running ex_kernel 0"
  by (simp add: running_def ex_live)

text \<open>
  \<open>rt_thread_suspend\<close>. A ready thread, or the running thread itself, is suspended: it is
  unlinked from every list, its timer is stopped, every other thread is as before and the
  kernel stays consistent. A thread in any other state is refused with \<open>-RT_ERROR\<close> and
  nothing changes.
\<close>

theorem rt_thread_suspend_effect:
  assumes "kinv {} k" and "live k t"
  shows "if tstate (threads k t) = RT_THREAD_READY \<or> tstate (threads k t) = RT_THREAD_RUNNING
         then \<exists>k'. rt_thread_suspend t k = Some (RT_EOK, k') \<and> kinv {} k' \<and> kframe k k'
           \<and> threads k' = (threads k)(t := set_tstate RT_THREAD_SUSPEND (threads k t))
           \<and> queues k' = q_remove t (queues k) \<and> current_thread k' = current_thread k
           \<and> ThreadTimer t \<notin> set (tlists k' HardList)
         else rt_thread_suspend t k = Some (- RT_ERROR, k)"
proof (cases "tstate (threads k t) = RT_THREAD_READY \<or> tstate (threads k t) = RT_THREAD_RUNNING")
  case True
  have "tstate (threads k t) = RT_THREAD_RUNNING \<Longrightarrow> current_thread k = Some t"
    using kinv_parts(1) [OF assms(1)] assms(2) by (simp add: sched_inv_def one_running_def)
  moreover have "thread_timer_ok k t" using kinv_thread_timer [OF assms(1,2)] True by auto
  ultimately have "rt_thread_suspend t k = Some (RT_EOK, suspended t k)"
    using True assms(2) by (intro rt_thread_suspend_eq) auto
  moreover have inv: "kinv {} (suspended t k)" by (rule suspended_kinv [OF assms True])
  moreover have "ThreadTimer t \<notin> set (tlists (suspended t k) HardList)"
  proof -
    have "timer_lists (upd_thread t (set_tstate RT_THREAD_SUSPEND) (rt_schedule_remove_thread t k)) = timer_lists k"
      by (rule timer_lists_cong) simp_all
    then show ?thesis unfolding suspended_def using stopped_tlists kinv_parts(2) [OF assms(1)] by simp
  qed
  ultimately show ?thesis using True kframe_suspended
    by (intro if_P [THEN iffD2] exI [of _ "suspended t k"]) simp_all
next
  case False
  then show ?thesis using assms(2) by (simp add: rt_thread_suspend_def assert_live Let_def)
qed

theorem rt_thread_suspend_effect_witness:
  "\<exists>k'. rt_thread_suspend 2 ex_kernel = Some (RT_EOK, k') \<and> kinv {} k' \<and> queues k' (ReadyQ 10) = []"
proof -
  have "tstate (threads ex_kernel 2) = RT_THREAD_READY" "live ex_kernel 2" by (simp_all add: ex_live)
  then obtain k' where "rt_thread_suspend 2 ex_kernel = Some (RT_EOK, k')" "kinv {} k'"
      "queues k' = q_remove 2 (queues ex_kernel)"
    using rt_thread_suspend_effect [OF ex_kinv, of 2] by auto
  then show ?thesis by (simp add: q_remove_def)
qed

text \<open>
  \<open>rt_thread_resume\<close>. A suspended thread, on whatever wait list it is, is unlinked, its
  timer is stopped, and it goes to the tail of the ready list of its priority (or is marked
  running again, if it is the current thread); the kernel stays consistent. A thread
  that is not suspended is refused with \<open>-RT_ERROR\<close> and nothing changes.
\<close>

theorem rt_thread_resume_effect:
  assumes "kinv {} k" and "live k t"
  shows "if tstate (threads k t) = RT_THREAD_SUSPEND
         then \<exists>k'. rt_thread_resume t k = Some (RT_EOK, k') \<and> kinv {} k' \<and> kframe k k'
           \<and> ThreadTimer t \<notin> set (tlists k' HardList)
           \<and> threads k' = (threads k)(t := set_tstate (if current_thread k = Some t
                then RT_THREAD_RUNNING else RT_THREAD_READY) (threads k t))
           \<and> queues k' = (if current_thread k = Some t then q_remove t (queues k)
                else q_insert_before (ReadyQ (unat (current_priority (threads k t)))) t (q_remove t (queues k)))
         else rt_thread_resume t k = Some (- RT_ERROR, k)"
proof (cases "tstate (threads k t) = RT_THREAD_SUSPEND")
  case True
  have "thread_timer_ok k t" using kinv_thread_timer [OF assms] True by simp
  then have "rt_thread_resume t k = Some (RT_EOK, resumed t k)"
    using True assms(2) by (intro rt_thread_resume_eq)
  moreover have "kinv {} (resumed t k)" by (rule resumed_kinv [OF assms True])
  moreover have "ThreadTimer t \<notin> set (tlists (resumed t k) HardList)"
    using stopped_tlists kinv_parts(2) [OF assms(1)] by (simp add: resumed_def)
  moreover have "queues (resumed t k) = (if current_thread k = Some t then q_remove t (queues k)
                else q_insert_before (ReadyQ (unat (current_priority (threads k t)))) t (q_remove t (queues k)))"
    by (simp add: resumed_def readied_queues)
  ultimately show ?thesis using True kframe_resumed
    by (intro if_P [THEN iffD2] exI [of _ "resumed t k"]) simp_all
next
  case False
  then show ?thesis using assms(2) by (simp add: rt_thread_resume_def assert_live)
qed

theorem rt_thread_resume_effect_witness:
  "rt_thread_resume 2 ex_kernel = Some (- RT_ERROR, ex_kernel)"
  using rt_thread_resume_effect [OF ex_kinv, of 2] by (simp add: ex_live)

text \<open>
  \<open>rt_thread_sleep\<close>. The running thread is suspended, its timer is the only thing it waits
  on and is due in the given number of ticks, and the scheduler is called on a consistent
  kernel. A time of half the tick range or more (which \<open>rt_thread_mdelay\<close> makes of every
  negative argument) stops the system in the assertion of \<open>rt_timer_start\<close>.
\<close>

theorem rt_thread_sleep_suspends:
  assumes "kinv {} k" and "running k t"
  shows "if v < RT_TICK_MAX div 2
         then \<exists>k' k''. rt_thread_sleep_start v k = rt_schedule k' \<and> rt_schedule k' = Some k''
           \<and> kinv {} k' \<and> kinv {} k''
           \<and> tstate (threads k'' t) = RT_THREAD_SUSPEND \<and> detached (queues k') t
           \<and> ThreadTimer t \<in> set (tlists k'' HardList) \<and> trem k'' (ThreadTimer t) = uint v
         else rt_thread_sleep_start v k = None"
proof (cases "v < 0x7fffffff")
  case True
  let ?k1 = "armed t v (suspended t k)"
  note s = sleep_start_eq [OF assms True]
  note su = suspend_running [OF assms]
  have "current_thread ?k1 = Some t" using assms(2) by (simp add: running_def)
  from rt_schedule_kinv [OF s(2) this] obtain k'' where
    k'': "rt_schedule ?k1 = Some k''" "kinv {} k''" "sched_frame ?k1 k''" by blast
  have ok: "thread_timer_ok (suspended t k) t" using kinv_thread_timer [OF su(2,4)] su(3) by simp
  have "tstate (threads k'' t) = RT_THREAD_SUSPEND"
    using sched_frame_tstate [OF k''(3), of RT_THREAD_SUSPEND t] su(3) by simp
  moreover have "trem k'' (ThreadTimer t) = uint v" "ThreadTimer t \<in> set (tlists k'' HardList)"
    using armed_hard [OF ok, of v] sched_frame_fields [OF k''(3)] True by (simp_all add: trem_def)
  ultimately show ?thesis
    using True s k''(1,2) su(5)
    by (intro if_P [THEN iffD2] exI [of _ ?k1] exI [of _ k'']) simp_all
next
  case False
  note su = suspend_running [OF assms]
  have "timer_ok (suspended t k) (ThreadTimer t)"
    using kinv_thread_timer [OF su(2,4)] su(3) by (simp add: thread_timer_ok_def)
  moreover from this have "rt_timer_control (ThreadTimer t) RT_TIMER_CTRL_SET_TIME v (suspended t k)
      = Some (RT_EOK, v, timed (ThreadTimer t) v (suspended t k))"
    by (rule rt_timer_control_set_time)
  ultimately have "rt_thread_sleep_start v k = None"
    using False su(1) assms(2) assert_live [of k t]
    by (simp add: rt_thread_sleep_start_def rt_thread_self_def running_def rt_timer_start_def
        timer_enqueue_def assert_timer_def timer_ok_def timed_def)
  then show ?thesis using False by simp
qed

theorem rt_thread_sleep_suspends_witness:
  "(\<exists>k''. rt_thread_sleep_start 50 ex_kernel = Some k'' \<and> tstate (threads k'' 0) = RT_THREAD_SUSPEND)
   \<and> rt_thread_mdelay_start (- 1) ex_kernel = None"
  using rt_thread_sleep_suspends [OF ex_kinv ex_running, of 50]
    rt_thread_sleep_suspends [OF ex_kinv ex_running, of "- 1"]
  by (auto simp: rt_thread_mdelay_start_def rt_tick_from_millisecond_def)

text \<open>
  A thread timeout, run on a suspended thread whose timer has been taken off the list,
  returns: the assertion on the thread's state holds, the thread is ready or running with
  error \<open>-RT_ETIMEOUT\<close>, no timer is touched and the kernel is consistent. The wake-up part of
  \<open>rt_thread_sleep\<close> then returns \<open>RT_EOK\<close> with the error cleared.
\<close>

theorem rt_thread_timeout_wakes:
  assumes "kinv {} k" "live k t" "tstate (threads k t) = RT_THREAD_SUSPEND"
    and "ThreadTimer t \<notin> set (tlists k HardList)" and "current_thread k = Some c"
  shows "\<exists>k' k''. rt_thread_timeout t k = Some k' \<and> kinv {} k' \<and> tlists k' = tlists k
     \<and> error (threads k' t) = - RT_ETIMEOUT \<and> tstate (threads k' t) \<in> {RT_THREAD_READY, RT_THREAD_RUNNING}
     \<and> rt_thread_sleep_wake t k' = (RT_EOK, k'') \<and> error (threads k'' t) = RT_EOK"
  using timed_out_kinv [OF assms] by (auto simp: rt_thread_sleep_wake_def)

theorem rt_thread_timeout_wakes_witness:
  "\<exists>k k' k''. rt_thread_suspend 0 ex_kernel = Some (RT_EOK, k) \<and> rt_thread_timeout 0 k = Some k'
     \<and> rt_thread_sleep_wake 0 k' = (RT_EOK, k'') \<and> error (threads k'' 0) = RT_EOK"
proof -
  note s = suspend_running [OF ex_kinv ex_running]
  have "\<not> activated (ThreadTimer 0) (upd_thread 0 (set_tstate RT_THREAD_SUSPEND) (rt_schedule_remove_thread 0 ex_kernel))"
    using ex_activated [of "ThreadTimer 0"] by (simp add: activated_def tflag_def)
  then have "ThreadTimer 0 \<notin> set (tlists (suspended 0 ex_kernel) HardList)"
    by (simp add: suspended_def stopped_def)
  then show ?thesis
    using rt_thread_timeout_wakes [OF s(2,4,3), of 0] s(1) by auto
qed

text \<open>
  \<open>rt_thread_startup\<close> of a thread that has been initialised with a legal priority, in a
  running system: it returns \<open>RT_EOK\<close>, the kernel stays consistent, the thread is ready or
  running at its initial priority with the matching bitmap mask, and afterwards no ready
  thread is more urgent than the current one.
\<close>

theorem rt_thread_startup_runs:
  assumes "kinv {} k" "live k t" "tstate (threads k t) = RT_THREAD_INIT"
    and "unat (init_priority (threads k t)) < RT_THREAD_PRIORITY_MAX" and "detached (queues k) t"
    and "running k c" and "sched_lock_nest k = 0"
  shows "\<exists>k' c'. rt_thread_startup t k = Some (RT_EOK, k') \<and> kinv {} k'
     \<and> tstate (threads k' t) \<in> {RT_THREAD_READY, RT_THREAD_RUNNING}
     \<and> current_priority (threads k' t) = init_priority (threads k t) \<and> prio_ok (threads k' t)
     \<and> current_thread k' = Some c'
     \<and> (\<forall>p. queues k' (ReadyQ p) \<noteq> [] \<longrightarrow> unat (current_priority (threads k' c')) \<le> p)"
proof -
  have nc: "current_thread k \<noteq> Some t" using assms(3,6) by (auto simp: running_def)
  define k1 where "k1 = upd_thread t (\<lambda>th. th\<lparr>current_priority := init_priority th,
                     number_mask := prio_mask (init_priority th), stat := RT_THREAD_SUSPEND\<rparr>) k"
  note s = startup_ok [OF assms(1-5) nc, folded k1_def]
  let ?k2 = "resumed t k1"
  have cur: "current_thread ?k2 = Some c" using assms(6) s(5) by (simp add: running_def)
  have c: "tstate (threads ?k2 c) = RT_THREAD_RUNNING" "c \<noteq> t"
    using assms(6) nc by (auto simp: running_def k1_def)
  have lock: "sched_lock_nest ?k2 = 0" using assms(7) by (simp add: k1_def)
  obtain k' where k': "rt_schedule ?k2 = Some k'" "kinv {} k'" "sched_frame ?k2 k'"
    using rt_schedule_kinv [OF s(1) cur] by blast
  have "lists_inv {} ?k2" using kinv_parts(1) [OF s(1)] by (simp add: sched_inv_def)
  have prio: "prio_ok (threads ?k2 t)"
    using assms(4) by (intro prio_ok_mask [OF assms(4)]) (simp_all add: k1_def)
  have ts: "tstate (threads ?k2 t) = RT_THREAD_READY" using nc s(5) by (simp add: k1_def)
  have "tstate (threads k' t) \<in> {RT_THREAD_READY, RT_THREAD_RUNNING}"
  proof -
    have "tstate (threads ?k2 t) = tstate (threads k' t)
       \<or> {tstate (threads ?k2 t), tstate (threads k' t)} \<subseteq> {RT_THREAD_READY, RT_THREAD_RUNNING}"
      using k'(3) unfolding sched_frame_def by blast
    then show ?thesis using ts by auto
  qed
  moreover have "current_priority (threads k' t) = init_priority (threads k t)" "prio_ok (threads k' t)"
    using sched_frame_thread [OF k'(3), of t] prio by (simp_all add: k1_def prio_ok_def)
  moreover have "\<exists>c'. current_thread k' = Some c'
     \<and> (\<forall>p. queues k' (ReadyQ p) \<noteq> [] \<longrightarrow> unat (current_priority (threads k' c')) \<le> p)"
    using rt_schedule_most_urgent [OF kinv_parts(1) [OF s(1)] cur lock] c(1) k'(1) by auto
  moreover have "rt_thread_startup t k = Some (RT_EOK, k')"
    using assms(2,3) s(2) k'(1) cur
    by (simp add: rt_thread_startup_def assert_live k1_def [symmetric] rt_thread_self_def Let_def)
  ultimately show ?thesis using k'(2) by blast
qed

theorem rt_thread_startup_runs_witness:
  "\<exists>k' c'. rt_thread_startup 2 (ex_kernel\<lparr>threads := (threads ex_kernel)(2 := ex_thread 10 0),
       queues := q_remove 2 (queues ex_kernel), ready_group := 0x80000020\<rparr>) = Some (RT_EOK, k')
     \<and> current_thread k' = Some c'
     \<and> (\<forall>p. queues k' (ReadyQ p) \<noteq> [] \<longrightarrow> unat (current_priority (threads k' c')) \<le> p)"
proof -
  define k where "k = ex_kernel\<lparr>threads := (threads ex_kernel)(2 := ex_thread 10 0),
       queues := q_remove 2 (queues ex_kernel), ready_group := 0x80000020\<rparr>"
  have f: "objs k = objs ex_kernel" "timers k = timers ex_kernel" "tlists k = (\<lambda>_. [])" "timer_thread k = 3"
    "current_thread k = Some 0" "sched_lock_nest k = 0" "ready_group k = 0x80000020"
    "threads k = (\<lambda>t. if t = 0 then ex_thread 10 3 else if t = 1 then ex_thread 5 1
                    else if t = 2 then ex_thread 10 0 else ex_thread 31 1)"
    "queues k = (\<lambda>h. if h = ReadyQ 5 then [1] else if h = ReadyQ 31 then [3] else [])"
    by (auto simp: k_def q_remove_def)
  have lv: "live k t \<longleftrightarrow> t < 4" for t
    using ex_live [of t] f(1) by (simp add: live_def rt_object_get_type_def)
  have "lists_inv {} k"
  proof -
    have "disjoint_lists (queues k)" unfolding f by (auto simp: disjoint_lists_def split: if_splits)
    moreover have "threads_ok k" by (simp add: threads_ok_def lv f prio_ok_def)
    moreover have "linked {} k" by (simp add: linked_def lv f)
    moreover have "ready_linked {} k" by (auto simp: ready_linked_def lv f)
    moreover have "group_ok k"
    proof -
      have "\<forall>p \<in> set [0..<32]. bit (ready_group k) p \<longleftrightarrow> queues k (ReadyQ p) \<noteq> []"
        by (simp add: upt_rec f)
      then show ?thesis by (simp add: group_ok_def)
    qed
    ultimately show ?thesis by (simp add: lists_inv_def)
  qed
  then have "sched_inv {} k"
    by (auto simp: sched_inv_def one_running_def current_ok_def lv f split: if_splits)
  moreover have "timer_lists k = timer_lists ex_kernel" by (rule timer_lists_cong) (simp_all add: f)
  moreover have "thread_timers {} k"
  proof -
    have "thread_timer_ok k t = thread_timer_ok ex_kernel t" for t
      by (rule thread_timer_ok_cong) (simp_all add: f)
    then show ?thesis using ex_thread_timer by (auto simp: thread_timers_def lv f)
  qed
  ultimately have "kinv {} k" using ex_timer_lists by (auto simp: kinv_def lv f)
  moreover have "running k 0" by (simp add: running_def lv f)
  moreover have "detached (queues k) 2" by (simp add: detached_def f)
  ultimately have "\<exists>k' c'. rt_thread_startup 2 k = Some (RT_EOK, k') \<and> current_thread k' = Some c'
     \<and> (\<forall>p. queues k' (ReadyQ p) \<noteq> [] \<longrightarrow> unat (current_priority (threads k' c')) \<le> p)"
    using rt_thread_startup_runs [of k 2 0] by (auto simp: lv f)
  then show ?thesis unfolding k_def .
qed

text \<open>
  Changing the priority of a ready thread to a legal one moves it to the tail of the
  ready list of the new priority, with the bitmap following; of a thread in any other state
  only the priority and mask change. Both leave the kernel consistent.
\<close>

theorem rt_thread_change_priority:
  assumes "kinv {} k" "live k t" and "unat p < RT_THREAD_PRIORITY_MAX"
  shows "\<exists>k'. rt_thread_control cl t (RT_THREAD_CTRL_CHANGE_PRIORITY p) k = Some (RT_EOK, k')
     \<and> kinv {} k' \<and> current_priority (threads k' t) = p \<and> prio_ok (threads k' t)
     \<and> tstate (threads k' t) = tstate (threads k t)
     \<and> queues k' = (if tstate (threads k t) = RT_THREAD_READY
           then q_insert_before (ReadyQ (unat p)) t (q_remove t (queues k)) else queues k)"
proof -
  note r = rt_thread_control_priority [OF assms]
  have "prio_ok (threads (reprioritised t p k) t)"
    using assms(3) by (auto simp: reprioritised_def prio_ok_def prio_mask_def)
  then show ?thesis
    using r reprioritised_tstate [OF assms(1)] ready_not_current [OF assms(1), of t]
    by (auto simp: reprioritised_queues)
qed

theorem rt_thread_change_priority_witness:
  "\<exists>k'. rt_thread_control id 2 (RT_THREAD_CTRL_CHANGE_PRIORITY 5) ex_kernel = Some (RT_EOK, k')
     \<and> kinv {} k' \<and> queues k' (ReadyQ 5) = [1, 2]"
  using rt_thread_change_priority [OF ex_kinv, of 2 5 id]
  by (auto simp: ex_live q_insert_before_def q_remove_def)

end
