(* ===== verification/RT_Clock.thy ===== *)
theory RT_Clock
  imports RT_Thread
begin

text \<open>
  The system tick (\<open>src/clock.c\<close>), the checks that run the functions of expired timers
  (\<open>rt_timer_check\<close> and \<open>rt_soft_timer_check\<close> of \<open>src/timer.c\<close>), and interrupt nesting
  (\<open>src/irq.c\<close>). The functions of application timers are an argument: \<open>cb i\<close> is the
  function with number \<open>i\<close>. The loops end when no timer is due; a periodic timer of period
  0 would keep them going, so they are partial functions.
\<close>

section \<open>Operations\<close>

definition rt_interrupt_enter :: "kernel \<Rightarrow> kernel" where
  "rt_interrupt_enter k = k\<lparr>interrupt_nest := interrupt_nest k + 1\<rparr>"

definition rt_interrupt_leave :: "kernel \<Rightarrow> kernel" where
  "rt_interrupt_leave k = k\<lparr>interrupt_nest := interrupt_nest k - 1\<rparr>"

definition rt_tick_get :: "kernel \<Rightarrow> u32" where
  "rt_tick_get k = tick k"

definition rt_tick_set :: "u32 \<Rightarrow> kernel \<Rightarrow> kernel" where
  "rt_tick_set v k = k\<lparr>tick := v\<rparr>"

definition rt_tick_get_millisecond :: "kernel \<Rightarrow> u32" where
  "rt_tick_get_millisecond k = rt_tick_get k * (1000 div RT_TICK_PER_SECOND)"

fun call_timeout :: "(nat \<Rightarrow> kernel \<Rightarrow> kernel option) \<Rightarrow> timeout_fn \<Rightarrow> kernel \<Rightarrow> kernel option" where
  "call_timeout cb (Rt_thread_timeout t) k = rt_thread_timeout t k"
| "call_timeout cb (User_timeout i) k = cb i k"

text \<open>The two parts of the loop body around the call of the timer's function: off its list
  and onto the local one, and off the local one, restarted if periodic and still activated.\<close>

definition timer_take :: "thead \<Rightarrow> timer_ref \<Rightarrow> kernel \<Rightarrow> kernel" where
  "timer_take local t k =
     (let k = timer_remove t k;
          k = (if \<not> periodic t k then deactivate t k else k)
      in k\<lparr>tlists := q_insert_after local t (tlists k)\<rparr>)"

definition timer_put :: "timer_ref \<Rightarrow> kernel \<Rightarrow> kernel option" where
  "timer_put t k =
     (let k = timer_remove t k
      in if periodic t k \<and> activated t k
         then do { (_, k) \<leftarrow> rt_timer_start t (deactivate t k); Some k }
         else Some k)"

partial_function (option) timer_check_loop ::
    "(nat \<Rightarrow> kernel \<Rightarrow> kernel option) \<Rightarrow> u32 \<Rightarrow> kernel \<Rightarrow> kernel option" where
  "timer_check_loop cb current_tick k =
     (case tlists k HardList of
        [] \<Rightarrow> Some k
      | t # _ \<Rightarrow>
          if current_tick - timeout_tick (timers k t) < RT_TICK_MAX div 2
          then do { let k = timer_take HardLocal t k;
                    k \<leftarrow> call_timeout cb (timeout_func (timers k t)) k;
                    let current_tick = rt_tick_get k;
                    if tlists k HardLocal = [] then timer_check_loop cb current_tick k
                    else do { k \<leftarrow> timer_put t k; timer_check_loop cb current_tick k } }
          else Some k)"

definition rt_timer_check :: "(nat \<Rightarrow> kernel \<Rightarrow> kernel option) \<Rightarrow> kernel \<Rightarrow> kernel option" where
  "rt_timer_check cb k = timer_check_loop cb (rt_tick_get k) k"

partial_function (option) rt_soft_timer_check ::
    "(nat \<Rightarrow> kernel \<Rightarrow> kernel option) \<Rightarrow> kernel \<Rightarrow> kernel option" where
  "rt_soft_timer_check cb k =
     (case tlists k SoftList of
        [] \<Rightarrow> Some k
      | t # _ \<Rightarrow>
          let current_tick = rt_tick_get k
          in if current_tick - timeout_tick (timers k t) < RT_TICK_MAX div 2
          then do { let k = timer_take SoftLocal t k;
                    let k = k\<lparr>soft_timer_idle := False\<rparr>;
                    k \<leftarrow> call_timeout cb (timeout_func (timers k t)) k;
                    let k = k\<lparr>soft_timer_idle := True\<rparr>;
                    if tlists k SoftLocal = [] then rt_soft_timer_check cb k
                    else do { k \<leftarrow> timer_put t k; rt_soft_timer_check cb k } }
          else Some k)"

text \<open>One round of \<open>rt_thread_timer_entry\<close>: what the timer thread does before it runs the
  soft timers, up to the switch if it waits.\<close>

definition rt_thread_timer_round :: "kernel \<Rightarrow> kernel option" where
  "rt_thread_timer_round k =
     (let next_timeout = rt_timer_list_next_timeout SoftList k
      in if next_timeout = RT_TICK_MAX
         then do { t \<leftarrow> rt_thread_self k; (_, k) \<leftarrow> rt_thread_suspend t k; rt_schedule k }
         else let current_tick = rt_tick_get k
              in if next_timeout - current_tick < RT_TICK_MAX div 2
                 then rt_thread_sleep_start (next_timeout - current_tick) k
                 else Some k)"

text \<open>\<open>rt_tick_increase\<close>, run by the system timer's interrupt.\<close>

definition rt_tick_increase :: "(nat \<Rightarrow> kernel \<Rightarrow> kernel option) \<Rightarrow> kernel \<Rightarrow> kernel option" where
  "rt_tick_increase cb k =
     do { let k = k\<lparr>tick := tick k + 1\<rparr>;
          t \<leftarrow> rt_thread_self k;
          let k = upd_thread t (\<lambda>th. th\<lparr>remaining_tick := remaining_tick th - 1\<rparr>) k;
          k \<leftarrow> (if remaining_tick (threads k t) = 0
               then let k = upd_thread t (\<lambda>th. th\<lparr>remaining_tick := init_tick th\<rparr>) k;
                        k = upd_thread t set_yield k
                    in rt_schedule k
               else Some k);
          rt_timer_check cb k }"

section \<open>The hard timers\<close>

text \<open>A thread whose wait has ended by its timer.\<close>

definition timed_out :: "kernel \<Rightarrow> tid \<Rightarrow> bool" where
  "timed_out k t \<longleftrightarrow> error (threads k t) = - RT_ETIMEOUT \<and> tstate (threads k t) \<noteq> RT_THREAD_SUSPEND"

text \<open>The functions of application timers: they return, keep the kernel consistent, and
  leave the timers and the threads that have just timed out alone.\<close>

definition callbacks_ok :: "(nat \<Rightarrow> kernel \<Rightarrow> kernel option) \<Rightarrow> bool" where
  "callbacks_ok cb \<longleftrightarrow>
     (\<forall>i k. kinv {} k \<longrightarrow> current_thread k \<noteq> None \<longrightarrow>
        (\<exists>k'. cb i k = Some k' \<and> kinv {} k' \<and> current_thread k' \<noteq> None \<and> tlists k' = tlists k
           \<and> timers k' = timers k \<and> objs k' = objs k \<and> tick k' = tick k
           \<and> (\<forall>t. timed_out k t \<longrightarrow> timed_out k' t)))"

text \<open>The state in which the check starts: a timer with the function of a thread is that
  thread's, and a periodic timer has a period the kernel can queue.\<close>

definition hard_timers_ok :: "kernel \<Rightarrow> bool" where
  "hard_timers_ok k \<longleftrightarrow> kinv {} k \<and> current_thread k \<noteq> None \<and> tlists k HardLocal = []
     \<and> timers_sorted k HardList
     \<and> (\<forall>r \<in> set (tlists k HardList).
          (\<forall>t. timeout_func (timers k r) = Rt_thread_timeout t \<longrightarrow> r = ThreadTimer t)
          \<and> (periodic r k \<longrightarrow> 0 < tm_init_tick (timers k r) \<and> tm_init_tick (timers k r) < RT_TICK_MAX div 2))"

definition due :: "kernel \<Rightarrow> timer_ref set" where
  "due k = {r \<in> set (tlists k HardList). trem k r \<le> 0}"

lemma due_iff:
  fixes w now :: u32
  assumes "- 1 \<le> sint (w - now)" "sint (w - now) < 0x7fffffff"
  shows "now - w < 0x7fffffff \<longleftrightarrow> sint (w - now) \<le> 0"
proof -
  define z where "z = sint (w - now)"
  have "now - w = - (w - now)" by simp
  also have "\<dots> = word_of_int (- z)" unfolding z_def by simp
  finally have e: "now - w = word_of_int (- z)" .
  have u: "uint (now - w) = (- z) mod 2 ^ 32" unfolding e uint_word_of_int by simp
  have zb: "- 1 \<le> z" "z < 0x7fffffff" using assms by (simp_all add: z_def)
  show ?thesis
  proof (cases "z \<le> 0")
    case True
    have "(- z) mod 2 ^ 32 = - z" using True zb by (intro mod_pos_pos_trivial) auto
    then show ?thesis using u True zb by (simp add: word_less_def z_def [symmetric])
  next
    case False
    have "(- z) mod 2 ^ 32 = (- z + 2 ^ 32) mod 2 ^ 32" by simp
    also have "\<dots> = - z + 2 ^ 32" using False zb by (intro mod_pos_pos_trivial) auto
    finally show ?thesis using u False zb by (simp add: word_less_def z_def [symmetric])
  qed
qed

lemma timer_take_fields [simp]:
  "threads (timer_take l r k) = threads k" "queues (timer_take l r k) = queues k"
  "current_thread (timer_take l r k) = current_thread k" "timers (timer_take l r k) = timers k"
  "tick (timer_take l r k) = tick k" "live (timer_take l r k) = live k"
  "timer_ok (timer_take l r k) = timer_ok k" "timer_thread (timer_take l r k) = timer_thread k"
  "sched_inv X (timer_take l r k) = sched_inv X k"
  "periodic q (timer_take l r k) = periodic q k" "is_soft q (timer_take l r k) = is_soft q k"
  "rt_object_is_systemobject ob (timer_take l r k) = rt_object_is_systemobject ob k"
  by (simp_all add: timer_take_def Let_def)

lemma timer_take_tlists:
  "tlists (timer_take l r k) = q_insert_after l r (q_remove r (tlists k))"
  by (simp add: timer_take_def Let_def)

lemma timer_take_activated [simp]:
  "activated q (timer_take l r k) \<longleftrightarrow> activated q k \<and> (q = r \<longrightarrow> periodic r k)"
  by (auto simp: timer_take_def Let_def)

lemma timer_take_kinv:
  assumes inv: "kinv {} k" and r: "r \<in> set (tlists k h)" and l: "l = HardLocal \<or> l = SoftLocal"
  shows "kinv {} (timer_take l r k)"
proof -
  let ?k = "timer_take l r k"
  have tl: "timer_lists k" using inv by (simp add: kinv_def)
  have mem: "q \<in> set (tlists ?k g) \<longleftrightarrow> q = r \<and> g = l \<or> q \<noteq> r \<and> q \<in> set (tlists k g)" for q g
    by (auto simp: timer_take_tlists q_insert_after_def q_remove_def)
  have dj: "disjoint_lists (tlists ?k)"
    unfolding timer_take_tlists using tl
    by (intro disjoint_insert_after disjoint_remove detached_remove) (simp add: timer_lists_def)
  have ok: "timer_ok k r" using tl r by (auto simp: timer_lists_def)
  have "timer_lists ?k"
    unfolding timer_lists_def mem
  proof (intro conjI allI impI)
    show "disjoint_lists (tlists ?k)" by (rule dj)
    fix q assume "timer_ok ?k q" "activated q ?k"
    then have "\<exists>g. q \<in> set (tlists k g)" using tl by (auto simp: timer_lists_def)
    then show "\<exists>g. q = r \<and> g = l \<or> q \<noteq> r \<and> q \<in> set (tlists k g)" by blast
  qed (use l tl ok in \<open>auto simp: timer_lists_def\<close>)
  moreover have "thread_timer_ok ?k t = thread_timer_ok k t" for t by (simp add: thread_timer_ok_def)
  moreover have "q \<in> set (tlists ?k HardList) \<Longrightarrow> q \<in> set (tlists k HardList)" for q
    using l by (auto simp: mem)
  ultimately show ?thesis
    using inv by (simp add: kinv_def thread_timers_def)
qed

lemma remove_local_kinv:
  assumes inv: "kinv {} k" and r: "activated r k \<longrightarrow> \<not> timer_ok k r"
  shows "kinv {} (timer_remove r k)"
proof -
  have "timer_lists (timer_remove r k)"
    using inv r by (auto simp: kinv_def timer_lists_def disjoint_remove q_remove_def [of r])
      (auto simp: disjoint_remove [unfolded q_remove_def])
  moreover have "thread_timer_ok (timer_remove r k) t = thread_timer_ok k t" for t
    by (simp add: thread_timer_ok_def)
  ultimately show ?thesis using inv by (auto simp: kinv_def thread_timers_def q_remove_def)
qed

lemma stop_kinv:
  assumes inv: "kinv {} k"
  shows "kinv {} (deactivate r (timer_remove r k))"
proof -
  have "timer_lists (deactivate r (timer_remove r k))"
    using inv by (intro timer_lists_stop) (simp add: kinv_def)
  then show ?thesis using inv by (auto simp: kinv_def thread_timers_def q_remove_def)
qed

text \<open>The call of the function of an expired timer that has been taken off its list.\<close>

lemma objs_cong_timer:
  assumes "objs k' = objs k"
  shows "activated r k' = activated r k" "periodic r k' = periodic r k" "is_soft r k' = is_soft r k"
    "timer_ok k' = timer_ok k"
  using assms by (simp_all add: activated_def periodic_def is_soft_def tflag_def timer_ok_def fun_eq_iff
      rt_object_get_type_def)

lemma call_ok:
  assumes cb: "callbacks_ok cb" and inv: "kinv {} k" "current_thread k \<noteq> None"
    and r: "\<And>t. timeout_func (timers k r) = Rt_thread_timeout t \<Longrightarrow> r = ThreadTimer t"
    and t: "\<And>t. r = ThreadTimer t \<Longrightarrow> live k t \<and> tstate (threads k t) = RT_THREAD_SUSPEND
              \<and> ThreadTimer t \<notin> set (tlists k HardList)"
  shows "\<exists>k'. call_timeout cb (timeout_func (timers k r)) k = Some k' \<and> kinv {} k'
     \<and> current_thread k' \<noteq> None \<and> tlists k' = tlists k \<and> timers k' = timers k
     \<and> objs k' = objs k \<and> tick k' = tick k \<and> (\<forall>t. timed_out k t \<longrightarrow> timed_out k' t)
     \<and> (\<forall>t. r = ThreadTimer t \<longrightarrow> timed_out k' t)"
proof (cases "timeout_func (timers k r)")
  case (Rt_thread_timeout t)
  then have rt: "r = ThreadTimer t" using r by blast
  obtain c where c: "current_thread k = Some c" using inv(2) by auto
  obtain k' where k': "rt_thread_timeout t k = Some k'" "kinv {} k'" "kframe k k'"
      "tlists k' = tlists k" "timers k' = timers k" "objs k' = objs k"
      "error (threads k' t) = - RT_ETIMEOUT" "tstate (threads k' t) \<in> {RT_THREAD_READY, RT_THREAD_RUNNING}"
      "current_thread k' \<noteq> None"
      "\<And>s. s \<noteq> t \<Longrightarrow> error (threads k' s) = error (threads k s)
          \<and> (tstate (threads k' s) = RT_THREAD_SUSPEND \<longleftrightarrow> tstate (threads k s) = RT_THREAD_SUSPEND)"
    using timed_out_kinv [OF inv(1) _ _ _ c, of t] t [OF rt] by blast
  have w: "timed_out k' t" using k'(7,8) by (auto simp: timed_out_def)
  have "timed_out k s \<longrightarrow> timed_out k' s" for s
    using w k'(10) [of s] by (cases "s = t") (auto simp: timed_out_def)
  moreover have "tick k' = tick k" using k'(3) by (simp add: kframe_def)
  ultimately show ?thesis using k' w rt Rt_thread_timeout by auto
next
  case (User_timeout i)
  have "r \<noteq> ThreadTimer t" for t
  proof
    assume rt: "r = ThreadTimer t"
    then have "thread_timer_ok k t" using t kinv_thread_timer [OF inv(1)] by simp
    then show False using rt User_timeout by (simp add: thread_timer_ok_def)
  qed
  then show ?thesis using User_timeout cb inv unfolding callbacks_ok_def by simp
qed

lemma thread_timer_hard:
  "kinv {} k \<Longrightarrow> ThreadTimer t \<in> set (tlists k HardList) \<Longrightarrow>
     live k t \<and> tstate (threads k t) = RT_THREAD_SUSPEND \<and> thread_timer_ok k t"
  by (auto simp: kinv_def thread_timers_def)

lemma hard_timers_okD:
  assumes "hard_timers_ok k"
  shows "kinv {} k" "current_thread k \<noteq> None" "tlists k HardLocal = []" "timers_sorted k HardList"
    "r \<in> set (tlists k HardList) \<Longrightarrow> timeout_func (timers k r) = Rt_thread_timeout t \<Longrightarrow> r = ThreadTimer t"
    "r \<in> set (tlists k HardList) \<Longrightarrow> periodic r k \<Longrightarrow>
       0 < tm_init_tick (timers k r) \<and> tm_init_tick (timers k r) < 0x7fffffff"
  using assms by (auto simp: hard_timers_ok_def)

text \<open>One round of the loop on an expired timer.\<close>

lemma hard_round:
  assumes cb: "callbacks_ok cb" and ok: "hard_timers_ok k"
    and r: "tlists k HardList = r # rs" and d: "trem k r \<le> 0"
  shows "\<exists>k'. timer_check_loop cb (tick k) k = timer_check_loop cb (tick k') k'
     \<and> hard_timers_ok k' \<and> tick k' = tick k
     \<and> due k' = due k - {r}
     \<and> (\<forall>q. q \<in> set (tlists k' HardList) \<longleftrightarrow> q \<in> set rs \<or> q = r \<and> periodic r k)
     \<and> (\<forall>q. q \<noteq> r \<or> \<not> periodic r k \<longrightarrow> timers k' q = timers k q)
     \<and> (\<forall>q. periodic q k' = periodic q k)
     \<and> (periodic r k \<longrightarrow> trem k' r = uint (tm_init_tick (timers k r)) \<and> tm_init_tick (timers k' r) = tm_init_tick (timers k r))
     \<and> (\<forall>t. timed_out k t \<longrightarrow> timed_out k' t) \<and> (\<forall>t. r = ThreadTimer t \<longrightarrow> timed_out k' t)"
proof -
  note o = hard_timers_okD [OF ok]
  have rin: "r \<in> set (tlists k HardList)" using r by simp
  have dj: "disjoint_lists (tlists k)" using o(1) by (simp add: kinv_def timer_lists_def)
  have rrs: "r \<notin> set rs" using dj r unfolding disjoint_lists_def by (metis distinct.simps(2))
  let ?k1 = "timer_take HardLocal r k"
  have k1: "kinv {} ?k1" by (rule timer_take_kinv [OF o(1) rin]) simp
  have tl1: "tlists ?k1 HardLocal = [r]" "tlists ?k1 HardList = rs"
    using o(3) r rrs by (simp_all add: timer_take_tlists q_insert_after_def q_remove_def)
  have act: "activated r k" "\<not> is_soft r k" "timer_ok k r"
    using o(1) rin by (auto simp: kinv_def timer_lists_def)
  have bounds: "- 1 \<le> trem k r" "trem k r < 0x7fffffff" using o(4) rin by (auto simp: timers_sorted_def)
  have cond: "tick k - timeout_tick (timers k r) < RT_TICK_MAX div 2"
    using due_iff [of "timeout_tick (timers k r)" "tick k"] bounds d by (simp add: trem_def)
  obtain k2 where k2: "call_timeout cb (timeout_func (timers ?k1 r)) ?k1 = Some k2" "kinv {} k2"
      "current_thread k2 \<noteq> None" "tlists k2 = tlists ?k1" "timers k2 = timers ?k1" "objs k2 = objs ?k1"
      "tick k2 = tick ?k1" "\<And>t. timed_out ?k1 t \<Longrightarrow> timed_out k2 t"
      "\<And>t. r = ThreadTimer t \<Longrightarrow> timed_out k2 t"
  proof -
    have "\<exists>k'. call_timeout cb (timeout_func (timers ?k1 r)) ?k1 = Some k' \<and> kinv {} k'
     \<and> current_thread k' \<noteq> None \<and> tlists k' = tlists ?k1 \<and> timers k' = timers ?k1
     \<and> objs k' = objs ?k1 \<and> tick k' = tick ?k1 \<and> (\<forall>t. timed_out ?k1 t \<longrightarrow> timed_out k' t)
     \<and> (\<forall>t. r = ThreadTimer t \<longrightarrow> timed_out k' t)"
    proof (rule call_ok [OF cb k1])
      show "current_thread ?k1 \<noteq> None" using o(2) by simp
      show "r = ThreadTimer t" if "timeout_func (timers ?k1 r) = Rt_thread_timeout t" for t
        using o(5) [OF rin] that by simp
      show "live ?k1 t \<and> tstate (threads ?k1 t) = RT_THREAD_SUSPEND \<and> ThreadTimer t \<notin> set (tlists ?k1 HardList)"
        if "r = ThreadTimer t" for t
        using thread_timer_hard [OF o(1)] rin rrs that tl1(2) by auto
    qed
    then show ?thesis using that by blast
  qed
  note oc = objs_cong_timer [OF k2(6)]
  let ?k3 = "timer_remove r k2"
  have tl3: "tlists ?k3 HardLocal = []" "tlists ?k3 HardList = rs"
    using tl1 k2(4) rrs by (simp_all add: q_remove_def)
  have loop: "timer_check_loop cb (tick k) k =
      do { k \<leftarrow> timer_put r k2; timer_check_loop cb (tick k2) k }"
    using cond r k2(1) tl1(1) k2(4) by (subst timer_check_loop.simps) (simp add: rt_tick_get_def Let_def)
  have remeq: "trem k4 q = trem k q" if "timers k4 q = timers k q" "tick k4 = tick k" for k4 q
    using that by (simp add: trem_def)
  have srt: "sorted (map (trem k) rs)" using o(4) r by (simp add: timers_sorted_def)
  show ?thesis
  proof (cases "periodic r k")
    case False
    have put: "timer_put r k2 = Some ?k3" using False oc by (simp add: timer_put_def Let_def)
    have k3: "kinv {} ?k3" using False oc by (intro remove_local_kinv k2(2)) simp
    have same: "timers ?k3 = timers k" "tick ?k3 = tick k" using k2(5,7) by simp_all
    have rm: "trem ?k3 = trem k" using same by (simp add: trem_def fun_eq_iff)
    have per: "periodic q ?k3 = periodic q k" for q using oc by simp
    have ok3: "hard_timers_ok ?k3"
      unfolding hard_timers_ok_def timers_sorted_def tl3 rm same per
      using k3 k2(3) srt o(4,5,6) r by (auto simp: timers_sorted_def)
    have "due ?k3 = due k - {r}" unfolding due_def tl3 rm using r rrs by auto
    moreover have "timed_out ?k3 t = timed_out k2 t" for t by (simp add: timed_out_def)
    moreover have "timed_out ?k1 t = timed_out k t" for t by (simp add: timed_out_def)
    ultimately show ?thesis
      using loop put ok3 tl3(2) same per False k2(7-9) by (intro exI [of _ ?k3]) auto
  next
    case True
    have "\<And>t. r \<noteq> ThreadTimer t"
      using thread_timer_hard [OF o(1)] rin True by (auto simp: thread_timer_ok_def)
    then have nt: "r = ThreadTimer t \<Longrightarrow> P" for t P by blast
    have i: "0 < tm_init_tick (timers k r)" "tm_init_tick (timers k r) < 0x7fffffff" using o(6) [OF rin True] by auto
    let ?k4 = "deactivate r ?k3"
    let ?k5 = "enqueued r ?k4"
    have k4: "kinv {} ?k4" by (rule stop_kinv [OF k2(2)])
    have ok4: "timer_ok ?k4 r" "tm_init_tick (timers ?k4 r) < 0x7fffffff" "\<not> is_soft r ?k4"
      using act oc k2(5) i by simp_all
    have "rt_timer_start r ?k4 = Some (RT_EOK, ?k5)" by (rule rt_timer_start_hard [OF ok4])
    then have put: "timer_put r k2 = Some ?k5" using True oc act(1) by (simp add: timer_put_def Let_def)
    have k5: "kinv {} ?k5" by (rule enqueued_kinv [OF k4 ok4(1)]) (rule nt)
    have tk: "tick ?k5 = tick k" using k2(7) by simp
    have tm: "q \<noteq> r \<Longrightarrow> timers ?k5 q = timers k q" for q using k2(5) by simp
    have it: "tm_init_tick (timers ?k5 r) = tm_init_tick (timers k r)" "timeout_func (timers ?k5 r) = timeout_func (timers k r)"
      using k2(5) by simp_all
    have per: "periodic q ?k5 = periodic q k" for q using oc by simp
    have tr: "trem ?k5 r = uint (tm_init_tick (timers k r))"
      using sint_small [OF i(2)] k2(5) by (simp add: enqueued_trem)
    have pos: "0 < trem ?k5 r" using i(1) unfolding tr by (simp add: word_less_def)
    have mem: "q \<in> set (tlists ?k5 HardList) \<longleftrightarrow> q \<in> set rs \<or> q = r" for q
      using tl3 ok4(3) rrs by (auto simp: enqueued_tlists q_remove_def)
    have loc: "tlists ?k5 HardLocal = []"
      using tl3 ok4(3) by (auto simp: enqueued_tlists q_remove_def)
    have s4: "timers_sorted ?k4 HardList"
    proof -
      have "trem ?k4 = trem k" using k2(5,7) by (simp add: trem_def fun_eq_iff)
      moreover have "tlists ?k4 HardList = rs" using tl3 by simp
      ultimately show ?thesis using srt o(4) r by (auto simp: timers_sorted_def)
    qed
    have s5: "timers_sorted ?k5 HardList" by (rule timers_sorted_enqueued [OF s4 ok4(2)])
    have ok5: "hard_timers_ok ?k5"
      unfolding hard_timers_ok_def
    proof (intro conjI ballI)
      show "current_thread ?k5 \<noteq> None" using k2(3) by simp
      fix q assume "q \<in> set (tlists ?k5 HardList)"
      then have q: "q \<in> set (tlists k HardList)" using mem r by auto
      have "timeout_func (timers ?k5 q) = timeout_func (timers k q)"
        "tm_init_tick (timers ?k5 q) = tm_init_tick (timers k q)"
        using tm [of q] it by (cases "q = r"; simp)+
      then show "\<forall>t. timeout_func (timers ?k5 q) = Rt_thread_timeout t \<longrightarrow> q = ThreadTimer t"
        "periodic q ?k5 \<longrightarrow> 0 < tm_init_tick (timers ?k5 q) \<and> tm_init_tick (timers ?k5 q) < RT_TICK_MAX div 2"
        using o(5,6) [OF q] per by auto
    qed (use k5 loc s5 in auto)
    have "due ?k5 = due k - {r}"
    proof (rule set_eqI)
      fix q
      show "q \<in> due ?k5 \<longleftrightarrow> q \<in> due k - {r}"
        using r rrs pos remeq [OF tm [of q] tk] by (cases "q = r") (simp_all add: due_def mem)
    qed
    moreover have "timed_out ?k5 t = timed_out k2 t" for t by (simp add: timed_out_def)
    moreover have "timed_out ?k1 t = timed_out k t" for t by (simp add: timed_out_def)
    ultimately show ?thesis
      using loop put ok5 mem tk tm it(1) per tr True k2(7-9) nt by (intro exI [of _ ?k5]) auto
  qed
qed

lemma due_finite: "finite (due k)"
  by (simp add: due_def)

text \<open>What the whole loop does to the timers and threads.\<close>

definition checked :: "kernel \<Rightarrow> kernel \<Rightarrow> bool" where
  "checked k k' \<longleftrightarrow> hard_timers_ok k' \<and> tick k' = tick k \<and> due k' = {}
     \<and> (\<forall>q. q \<in> set (tlists k' HardList) \<longleftrightarrow>
            q \<in> set (tlists k HardList) \<and> (q \<in> due k \<longrightarrow> periodic q k))
     \<and> (\<forall>q \<in> due k. periodic q k \<longrightarrow> trem k' q = uint (tm_init_tick (timers k q)))
     \<and> (\<forall>t. timed_out k t \<longrightarrow> timed_out k' t)
     \<and> (\<forall>t. ThreadTimer t \<in> due k \<longrightarrow> timed_out k' t)"

lemma timer_check_loop_ok:
  assumes cb: "callbacks_ok cb"
  shows "hard_timers_ok k \<Longrightarrow>
     \<exists>k'. timer_check_loop cb (tick k) k = Some k' \<and> checked k k'
       \<and> (\<forall>q. q \<notin> due k \<longrightarrow> timers k' q = timers k q)"
proof (induction "card (due k)" arbitrary: k rule: less_induct)
  case less
  note o = hard_timers_okD [OF less.prems]
  show ?case
  proof (cases "tlists k HardList")
    case Nil
    then have "timer_check_loop cb (tick k) k = Some k" by (subst timer_check_loop.simps) simp
    then show ?thesis using Nil less.prems by (auto simp: checked_def due_def)
  next
    case (Cons r rs)
    then have rin: "r \<in> set (tlists k HardList)" by simp
    have bounds: "- 1 \<le> trem k r" "trem k r < 0x7fffffff" using o(4) rin by (auto simp: timers_sorted_def)
    show ?thesis
    proof (cases "trem k r \<le> 0")
      case False
      then have "\<not> tick k - timeout_tick (timers k r) < RT_TICK_MAX div 2"
        using due_iff [of "timeout_tick (timers k r)" "tick k"] bounds by (simp add: trem_def)
      then have "timer_check_loop cb (tick k) k = Some k"
        using Cons by (subst timer_check_loop.simps) simp
      moreover have "due k = {}"
        using o(4) Cons False by (auto simp: due_def timers_sorted_def)
      ultimately show ?thesis using less.prems by (auto simp: checked_def)
    next
      case True
      obtain k1 where k1: "timer_check_loop cb (tick k) k = timer_check_loop cb (tick k1) k1"
          "hard_timers_ok k1" "tick k1 = tick k" "due k1 = due k - {r}"
          "\<And>q. q \<in> set (tlists k1 HardList) \<longleftrightarrow> q \<in> set rs \<or> q = r \<and> periodic r k"
          "\<And>q. q \<noteq> r \<or> \<not> periodic r k \<Longrightarrow> timers k1 q = timers k q"
          "\<And>q. periodic q k1 = periodic q k"
          "periodic r k \<Longrightarrow> trem k1 r = uint (tm_init_tick (timers k r)) \<and> tm_init_tick (timers k1 r) = tm_init_tick (timers k r)"
          "\<And>t. timed_out k t \<Longrightarrow> timed_out k1 t" "\<And>t. r = ThreadTimer t \<Longrightarrow> timed_out k1 t"
        using hard_round [OF cb less.prems Cons True] by blast
      have rd: "r \<in> due k" using True Cons by (simp add: due_def)
      then have "card (due k1) < card (due k)"
        unfolding k1(4) using due_finite by (intro psubset_card_mono) auto
      from less.hyps [OF this k1(2)] obtain k' where k':
        "timer_check_loop cb (tick k1) k1 = Some k'" "checked k1 k'"
        "\<And>q. q \<notin> due k1 \<Longrightarrow> timers k' q = timers k1 q" by blast
      note c = k'(2) [unfolded checked_def]
      have rr: "r \<notin> set rs"
        using o(1) Cons unfolding kinv_def timer_lists_def disjoint_lists_def by (metis distinct.simps(2))
      have "checked k k'"
        unfolding checked_def
      proof (intro conjI allI ballI impI)
        show "hard_timers_ok k'" "due k' = {}" using c by auto
        show "tick k' = tick k" using c k1(3) by simp
        fix q
        show "q \<in> set (tlists k' HardList) \<longleftrightarrow>
            q \<in> set (tlists k HardList) \<and> (q \<in> due k \<longrightarrow> periodic q k)"
          using c k1(4,5,7) Cons rd rr by (cases "q = r") auto
      next
        fix q assume q: "q \<in> due k" "periodic q k"
        show "trem k' q = uint (tm_init_tick (timers k q))"
        proof (cases "q = r")
          case True
          have "timers k' r = timers k1 r" using k'(3) [of r] k1(4) by simp
          then have "trem k' r = trem k1 r" using c by (simp add: trem_def)
          then show ?thesis using k1(8) q True by simp
        next
          case False
          then have "q \<in> due k1" using q k1(4) by simp
          then show ?thesis using c q k1(6) [of q] k1(7) False by simp
        qed
      next
        fix t assume "timed_out k t"
        then show "timed_out k' t" using c k1(9) by blast
      next
        fix t assume t: "ThreadTimer t \<in> due k"
        show "timed_out k' t"
        proof (cases "r = ThreadTimer t")
          case True
          then show ?thesis using c k1(10) by blast
        next
          case False
          then show ?thesis using c t k1(4) by simp
        qed
      qed
      moreover have "timers k' q = timers k q" if "q \<notin> due k" for q
        using k'(3) [of q] k1(4) k1(6) [of q] that rd by auto
      ultimately show ?thesis using k1(1) k'(1) by auto
    qed
  qed
qed

section \<open>The tick\<close>

lemma sint_minus_one:
  assumes "0 \<le> sint (x::u32)"
  shows "sint (x - 1) = sint x - 1"
proof -
  have "x - 1 = word_of_int (sint x - 1)" by simp
  then have "sint (x - 1) = signed_take_bit 31 (sint x - 1)"
    by (simp only: signed_of_int) simp
  also have "\<dots> = sint x - 1"
  proof (rule signed_take_bit_int_eq_self)
    have "sint x < 2 ^ 31" using sint_lt [of x] by simp
    then show "sint x - 1 < 2 ^ 31" by linarith
    have "(0::int) < 2 ^ 31" by simp
    then show "- (2 ^ 31) \<le> sint x - 1" using assms by linarith
  qed
  finally show ?thesis .
qed

lemma trem_tick:
  assumes "0 \<le> trem k r"
  shows "trem (k\<lparr>tick := tick k + 1\<rparr>) r = trem k r - 1"
proof -
  have "timeout_tick (timers k r) - (tick k + 1) = (timeout_tick (timers k r) - tick k) - 1" by simp
  then show ?thesis
    using sint_minus_one [of "timeout_tick (timers k r) - tick k"] assms
    by (simp add: trem_def diff_diff_eq)
qed

lemma kinv_tick: "kinv X (k\<lparr>tick := v\<rparr>) = kinv X k"
proof -
  have "timer_lists (k\<lparr>tick := v\<rparr>) = timer_lists k" by (rule timer_lists_cong) simp_all
  moreover have "thread_timer_ok (k\<lparr>tick := v\<rparr>) t = thread_timer_ok k t" for t
    by (rule thread_timer_ok_cong) simp_all
  ultimately show ?thesis by (simp add: kinv_def thread_timers_def)
qed

lemma hard_timers_ok_cong:
  assumes "hard_timers_ok k" "kinv {} k'" "current_thread k' \<noteq> None" "tlists k' = tlists k"
    "timers k' = timers k" "objs k' = objs k" "tick k' = tick k"
  shows "hard_timers_ok k'" "due k' = due k"
proof -
  have t: "trem k' = trem k" using assms(5,7) by (simp add: trem_def fun_eq_iff)
  then show "due k' = due k" using assms(4) by (simp add: due_def)
  show "hard_timers_ok k'"
    using assms objs_cong_timer [OF assms(6)] t by (simp add: hard_timers_ok_def timers_sorted_def)
qed

lemma hard_timers_ok_tick:
  assumes ok: "hard_timers_ok k" and nn: "\<forall>r \<in> set (tlists k HardList). 0 \<le> trem k r"
  shows "hard_timers_ok (k\<lparr>tick := tick k + 1\<rparr>)"
    "due (k\<lparr>tick := tick k + 1\<rparr>) = {r \<in> set (tlists k HardList). trem k r \<le> 1}"
proof -
  let ?k = "k\<lparr>tick := tick k + 1\<rparr>"
  have t: "trem ?k r = trem k r - 1" if "r \<in> set (tlists k HardList)" for r
    using nn that trem_tick by blast
  then show "due ?k = {r \<in> set (tlists k HardList). trem k r \<le> 1}" by (auto simp: due_def)
  have e: "map (trem ?k) (tlists ?k HardList) = map (\<lambda>r. trem k r - 1) (tlists k HardList)"
    using t by (intro map_cong) auto
  have "sorted (map (\<lambda>r. trem k r - 1) xs)" if "sorted (map (trem k) xs)" for xs
    using that by (induction xs) auto
  then have "sorted (map (trem ?k) (tlists ?k HardList))"
    unfolding e using ok by (simp add: hard_timers_ok_def timers_sorted_def)
  moreover have "- 1 \<le> trem ?k r \<and> trem ?k r < 0x7fffffff" if r: "r \<in> set (tlists ?k HardList)" for r
  proof -
    have "r \<in> set (tlists k HardList)" using r by simp
    then have "0 \<le> trem k r" "trem k r < 0x7fffffff" "trem ?k r = trem k r - 1"
      using nn ok t by (auto simp: hard_timers_ok_def timers_sorted_def)
    then show ?thesis by linarith
  qed
  ultimately have "timers_sorted ?k HardList" unfolding timers_sorted_def by blast
  moreover have "periodic r ?k = periodic r k" for r by (simp add: periodic_def tflag_def)
  ultimately show "hard_timers_ok ?k"
    using ok by (simp add: hard_timers_ok_def kinv_tick)
qed

lemma tick_increase_ok:
  assumes cb: "callbacks_ok cb" and ok: "hard_timers_ok k"
    and nn: "\<forall>r \<in> set (tlists k HardList). 0 \<le> trem k r"
    and cur: "current_thread k = Some t"
  shows "\<exists>k'. rt_tick_increase cb k = Some k' \<and> hard_timers_ok k' \<and> tick k' = tick k + 1
     \<and> due k' = {} \<and> (\<forall>s. ThreadTimer s \<in> set (tlists k HardList) \<and> trem k (ThreadTimer s) \<le> 1 \<longrightarrow> timed_out k' s)
     \<and> (\<forall>q \<in> set (tlists k HardList). 1 < trem k q \<longrightarrow> q \<in> set (tlists k' HardList) \<and> timers k' q = timers k q)"
proof -
  let ?k1 = "k\<lparr>tick := tick k + 1\<rparr>"
  let ?k2 = "upd_thread t (\<lambda>th. th\<lparr>remaining_tick := remaining_tick th - 1\<rparr>) ?k1"
  note ok1 = hard_timers_ok_tick [OF ok nn]
  have k2: "kinv {} ?k2" by (rule upd_thread_kinv [OF hard_timers_okD(1) [OF ok1(1)]]) simp_all
  have "\<exists>k3. (if remaining_tick (threads ?k2 t) = 0
               then rt_schedule (upd_thread t set_yield (upd_thread t (\<lambda>th. th\<lparr>remaining_tick := init_tick th\<rparr>) ?k2))
               else Some ?k2) = Some k3 \<and> kinv {} k3 \<and> current_thread k3 \<noteq> None \<and> kframe ?k1 k3
               \<and> tlists k3 = tlists k \<and> timers k3 = timers k \<and> objs k3 = objs k"
  proof (cases "remaining_tick (threads ?k2 t) = 0")
    case False
    then show ?thesis using k2 cur kframe_upd_thread by (intro exI [of _ ?k2]) simp
  next
    case True
    let ?k3 = "upd_thread t (\<lambda>th. th\<lparr>remaining_tick := init_tick th\<rparr>) ?k2"
    let ?k4 = "upd_thread t set_yield ?k3"
    have k3: "kinv {} ?k3" by (rule upd_thread_kinv [OF k2]) simp_all
    have k4: "kinv {} ?k4" by (rule upd_thread_kinv [OF k3]) simp_all
    have "current_thread ?k4 = Some t" using cur by simp
    from rt_schedule_kinv [OF k4 this] obtain k5 where
      k5: "rt_schedule ?k4 = Some k5" "kinv {} k5" "sched_frame ?k4 k5" by blast
    have "current_thread k5 \<noteq> None"
      using k5(1) cur by (auto simp: rt_schedule_def schedule_switch_def Let_def bind_eq_Some_conv
          split: if_splits)
    moreover have "kframe ?k1 ?k4" by (simp add: kframe_def)
    then have "kframe ?k1 k5" using kframe_trans kframe_sched [OF k5(3)] by blast
    ultimately show ?thesis
      using True k5(1,2) sched_frame_fields [OF k5(3)] \<open>kframe ?k1 k5\<close>
      by (intro exI [of _ k5]) simp
  qed
  then obtain k3 where k3: "(if remaining_tick (threads ?k2 t) = 0
               then rt_schedule (upd_thread t set_yield (upd_thread t (\<lambda>th. th\<lparr>remaining_tick := init_tick th\<rparr>) ?k2))
               else Some ?k2) = Some k3" "kinv {} k3" "current_thread k3 \<noteq> None" "kframe ?k1 k3"
       "tlists k3 = tlists k" "timers k3 = timers k" "objs k3 = objs k" by blast
  have tk: "tick k3 = tick k + 1" using k3(4) by (simp add: kframe_def)
  have ok3: "hard_timers_ok k3" "due k3 = due ?k1"
    using hard_timers_ok_cong [OF ok1(1) k3(2,3)] k3(5-7) tk by simp_all
  obtain k' where k': "timer_check_loop cb (tick k3) k3 = Some k'" "checked k3 k'"
      "\<forall>q. q \<notin> due k3 \<longrightarrow> timers k' q = timers k3 q"
    using timer_check_loop_ok [OF cb ok3(1)] by blast
  have "rt_tick_increase cb k = Some k'"
    using k3(1) k'(1) cur
    by (auto simp: rt_tick_increase_def rt_thread_self_def Let_def rt_timer_check_def rt_tick_get_def
        bind_eq_Some_conv split: if_splits)
  moreover have "timed_out k' s" if "ThreadTimer s \<in> set (tlists k HardList)" "trem k (ThreadTimer s) \<le> 1" for s
    using k'(2) that ok3(2) ok1(2) by (simp add: checked_def)
  moreover have "q \<in> set (tlists k' HardList) \<and> timers k' q = timers k q"
    if "q \<in> set (tlists k HardList)" "1 < trem k q" for q
  proof -
    have "q \<notin> due k3" using that ok3(2) ok1(2) by simp
    then show ?thesis using k'(2,3) k3(5,6) that(1) by (simp add: checked_def)
  qed
  ultimately show ?thesis using k'(2) tk by (auto simp: checked_def)
qed

section \<open>Properties\<close>

lemma ex_hard_timers_ok: "hard_timers_ok ex_kernel"
  by (simp add: hard_timers_ok_def ex_kinv timers_sorted_def)

lemma callbacks_ok_id: "callbacks_ok (\<lambda>i k. Some k)"
  by (simp add: callbacks_ok_def)

text \<open>An example with two armed timers: thread 0 asleep, and an application timer.\<close>

definition ex_armed :: kernel where
  "ex_armed = enqueued (UserTimer 0) (armed 0 1 (suspended 0 ex_kernel))"

lemma ex_armed_ok: "hard_timers_ok ex_armed" "current_thread ex_armed = Some 0"
  "ThreadTimer 0 \<in> set (tlists ex_armed HardList)" "trem ex_armed (ThreadTimer 0) = 1"
  "\<forall>r \<in> set (tlists ex_armed HardList). 0 \<le> trem ex_armed r"
proof -
  let ?s = "suspended 0 ex_kernel" and ?a = "armed 0 1 (suspended 0 ex_kernel)"
  note s = suspend_running [OF ex_kinv ex_running]
  have a: "kinv {} ?a" using arm_thread_timer(3) [OF s(2,4,3), of 1] by simp
  have ok: "thread_timer_ok ?s 0" using kinv_thread_timer [OF s(2,4)] s(3) by simp
  have soft: "\<not> is_soft (ThreadTimer 0) ?s" using ok by (simp add: thread_timer_ok_def)
  have nact: "tlists ?s = (\<lambda>_. [])"
  proof -
    have "\<not> activated (ThreadTimer 0) (upd_thread 0 (set_tstate RT_THREAD_SUSPEND) (rt_schedule_remove_thread 0 ex_kernel))"
      using ex_activated [of "ThreadTimer 0"] by (simp add: activated_def tflag_def)
    then show ?thesis by (simp add: suspended_def stopped_def)
  qed
  have ta: "tlists ?a = (\<lambda>_. [])(HardList := [ThreadTimer 0])"
    using soft nact by (simp add: armed_def enqueued_tlists q_remove_def)
  have tma: "timers ?a = (timers ex_kernel)(ThreadTimer 0 := (timers ex_kernel (ThreadTimer 0))\<lparr>tm_init_tick := 1, timeout_tick := 101\<rparr>)"
    by (auto simp: armed_def timed_def suspended_def kframe_def)
  have tick: "tick ?a = 100" using kframe_suspended [of ex_kernel 0] by (simp add: kframe_def)
  have fr: "kframe ex_kernel ?a" by (rule kframe_trans [OF kframe_suspended kframe_armed])
  have tyok: "timer_ok ?a (UserTimer 0)"
    using kframe_type [OF fr, of "OTimer (UserTimer 0)"]
    by (simp add: timer_ok_def rt_object_get_type_def)
  have kin: "kinv {} ex_armed" unfolding ex_armed_def by (rule enqueued_kinv [OF a tyok]) simp
  have usoft: "\<not> is_soft (UserTimer 0) ?a"
    by (simp add: armed_def suspended_def stopped_def is_soft_def tflag_def set_tflag_objs deactivate_def
        activate_def enqueued_def timed_def Let_def timer_remove_def)
  have tl: "tlists ex_armed = (\<lambda>_. [])(HardList := [ThreadTimer 0, UserTimer 0])"
    unfolding ex_armed_def enqueued_tlists using usoft ta tma tick by (auto simp: q_remove_def due_later_def)
  have tm: "timers ex_armed (ThreadTimer 0) = timers ?a (ThreadTimer 0)"
    "timers ex_armed (UserTimer 0) = (timers ?a (UserTimer 0))\<lparr>timeout_tick := 105\<rparr>" "tick ex_armed = 100"
    using tma tick by (simp_all add: ex_armed_def)
  have tr: "trem ex_armed (ThreadTimer 0) = 1" "trem ex_armed (UserTimer 0) = 5"
    using tm tma by (simp_all add: trem_def)
  then show "trem ex_armed (ThreadTimer 0) = 1" by simp
  show "ThreadTimer 0 \<in> set (tlists ex_armed HardList)" using tl by simp
  show "\<forall>r \<in> set (tlists ex_armed HardList). 0 \<le> trem ex_armed r" using tl tr by simp
  show c: "current_thread ex_armed = Some 0" by (simp add: ex_armed_def)
  show "hard_timers_ok ex_armed"
    using kin c tl tr tm tma by (simp add: hard_timers_ok_def timers_sorted_def)
qed

text \<open>
  C6. \<open>rt_timer_check\<close> ends and leaves no hard timer that is due: every expired thread timer
  has woken its thread with \<open>-RT_ETIMEOUT\<close>, expired one-shot timers are off the list, expired
  periodic timers are queued again for a full period, the timers that were not due are
  still there, and the kernel and the timer order are consistent. This is for application
  functions that return and leave timers alone, and periods that are not 0.
\<close>

theorem rt_timer_check_fires:
  assumes "callbacks_ok cb" and "hard_timers_ok k"
  shows "\<exists>k'. rt_timer_check cb k = Some k' \<and> hard_timers_ok k' \<and> due k' = {}
     \<and> (\<forall>q. q \<in> set (tlists k' HardList) \<longleftrightarrow>
            q \<in> set (tlists k HardList) \<and> (q \<in> due k \<longrightarrow> periodic q k))
     \<and> (\<forall>q \<in> due k. periodic q k \<longrightarrow> trem k' q = uint (tm_init_tick (timers k q)))
     \<and> (\<forall>t. ThreadTimer t \<in> due k \<longrightarrow> timed_out k' t)"
  using timer_check_loop_ok [OF assms] by (auto simp: rt_timer_check_def rt_tick_get_def checked_def)

theorem rt_timer_check_fires_witness:
  "\<exists>k'. rt_timer_check (\<lambda>i k. Some k) (ex_armed\<lparr>tick := tick ex_armed + 1\<rparr>) = Some k' \<and> timed_out k' 0"
proof -
  note t = hard_timers_ok_tick [OF ex_armed_ok(1,5)]
  have "ThreadTimer 0 \<in> due (ex_armed\<lparr>tick := tick ex_armed + 1\<rparr>)"
    using t(2) ex_armed_ok(3,4) by simp
  then show ?thesis using rt_timer_check_fires [OF callbacks_ok_id t(1)] by blast
qed

text \<open>
  C7. A tick of the system timer, from a state in which no hard timer is overdue: it
  returns, the tick count is one higher (with wrap-around), the kernel stays consistent, no
  timer is left due, and every thread whose timer had at most one tick left has timed out.
\<close>

theorem rt_tick_increase_correct:
  assumes "callbacks_ok cb" and "hard_timers_ok k"
    and "\<forall>r \<in> set (tlists k HardList). 0 \<le> trem k r" and "current_thread k = Some t"
  shows "\<exists>k'. rt_tick_increase cb k = Some k' \<and> hard_timers_ok k' \<and> tick k' = tick k + 1 \<and> due k' = {}
     \<and> (\<forall>s. ThreadTimer s \<in> set (tlists k HardList) \<and> trem k (ThreadTimer s) \<le> 1 \<longrightarrow> timed_out k' s)"
  using tick_increase_ok [OF assms] by blast

theorem rt_tick_increase_correct_witness:
  "\<exists>k'. rt_tick_increase (\<lambda>i k. Some k) ex_armed = Some k' \<and> timed_out k' 0"
  using rt_tick_increase_correct [OF callbacks_ok_id ex_armed_ok(1,5,2)] ex_armed_ok(3,4) by auto

end
