(* ===== verification/RT_Timing.thy ===== *)
theory RT_Timing
  imports RT_Clock
begin

text \<open>
  What the operations of threads do to the timers of others, for arguments about whole runs:
  the list of hard timers stays in order with nobody overdue, no thread but the caller is
  put to sleep, and a sleeping thread keeps its deadline until it is woken.
\<close>

definition clock_ok :: "kernel \<Rightarrow> bool" where
  "clock_ok k \<longleftrightarrow> tlists k HardLocal = [] \<and> timers_sorted k HardList
     \<and> (\<forall>r \<in> set (tlists k HardList). 0 \<le> trem k r
          \<and> (\<forall>t. timeout_func (timers k r) = Rt_thread_timeout t \<longrightarrow> r = ThreadTimer t)
          \<and> (periodic r k \<longrightarrow> 0 < tm_init_tick (timers k r) \<and> tm_init_tick (timers k r) < RT_TICK_MAX div 2))"

lemma clock_ok_hard_timers:
  "clock_ok k \<Longrightarrow> kinv {} k \<Longrightarrow> current_thread k \<noteq> None \<Longrightarrow> hard_timers_ok k"
  by (simp add: clock_ok_def hard_timers_ok_def)

text \<open>The state from \<open>k\<close> to \<open>k'\<close>; \<open>X\<close> are the threads that may have gone to sleep.\<close>

definition asleep :: "kernel \<Rightarrow> tid \<Rightarrow> bool" where
  "asleep k s \<longleftrightarrow> tstate (threads k s) = RT_THREAD_SUSPEND"

definition keeps_deadline :: "kernel \<Rightarrow> kernel \<Rightarrow> tid \<Rightarrow> bool" where
  "keeps_deadline k k' s \<longleftrightarrow> ThreadTimer s \<in> set (tlists k' HardList)
     \<and> timeout_tick (timers k' (ThreadTimer s)) = timeout_tick (timers k (ThreadTimer s))"

definition timing :: "tid set \<Rightarrow> kernel \<Rightarrow> kernel \<Rightarrow> bool" where
  "timing X k k' \<longleftrightarrow> tick k' = tick k \<and> (clock_ok k \<longrightarrow> clock_ok k')
     \<and> (\<forall>s. s \<notin> X \<longrightarrow> asleep k' s \<longrightarrow> asleep k s
          \<and> (ThreadTimer s \<in> set (tlists k HardList) \<longrightarrow> keeps_deadline k k' s))"

lemma timing_refl [simp]: "timing X k k"
  by (simp add: timing_def keeps_deadline_def)

lemma timing_trans:
  assumes "timing X k k'" "timing X k' k''"
  shows "timing X k k''"
  using assms by (auto simp: timing_def keeps_deadline_def)

lemma timing_mono: "timing X k k' \<Longrightarrow> X \<subseteq> Y \<Longrightarrow> timing Y k k'"
  by (auto simp: timing_def)

lemma clock_ok_cong:
  assumes "tlists k' = tlists k" "timers k' = timers k" "tick k' = tick k"
    and "\<And>r. periodic r k' = periodic r k"
  shows "clock_ok k' = clock_ok k"
proof -
  have t: "trem k' = trem k" using assms(2,3) by (simp add: trem_def fun_eq_iff)
  show ?thesis unfolding clock_ok_def timers_sorted_def t assms ..
qed

text \<open>Steps that do not touch the timers.\<close>

lemma timing_same:
  assumes "tlists k' = tlists k" "timers k' = timers k" "tick k' = tick k"
    and "\<And>r. oflag (objs k' (OTimer r)) = oflag (objs k (OTimer r))"
    and "\<And>s. s \<notin> X \<Longrightarrow> asleep k' s \<Longrightarrow> asleep k s"
  shows "timing X k k'"
proof -
  have "clock_ok k' = clock_ok k"
    using assms(1-4) by (intro clock_ok_cong) (simp_all add: periodic_def tflag_def)
  then show ?thesis using assms by (simp add: timing_def keeps_deadline_def)
qed

lemma timing_sched: "sched_frame k k' \<Longrightarrow> timing X k k'"
  using sched_frame_tstate [of k k' RT_THREAD_SUSPEND]
  by (intro timing_same) (simp_all add: sched_frame_fields asleep_def)

lemma timing_upd_thread:
  "tstate (f (threads k t)) = tstate (threads k t) \<Longrightarrow> timing X k (upd_thread t f k)"
  by (intro timing_same) (auto simp: asleep_def split: if_splits)

lemma timing_ipc_fields [simp]:
  "timing X k (k\<lparr>sems := a\<rparr>)" "timing X k (k\<lparr>mutexes := b\<rparr>)" "timing X k (k\<lparr>events := c\<rparr>)"
  "timing X k (k\<lparr>mailboxes := d\<rparr>)" "timing X k (k\<lparr>msgqueues := e\<rparr>)" "timing X k (k\<lparr>queues := q\<rparr>)"
  by (intro timing_same; simp add: asleep_def)+

section \<open>Stopping and arming a timer\<close>

lemma clock_ok_stopped:
  assumes "clock_ok k"
  shows "clock_ok (stopped r k)"
proof (cases "activated r k")
  case True
  let ?k = "timer_remove r k"
  have s: "timers_sorted ?k HardList" using assms by (intro timers_sorted_remove) (simp add: clock_ok_def)
  have t: "trem ?k = trem k" by (simp add: trem_def fun_eq_iff)
  have "clock_ok ?k"
    using assms s unfolding clock_ok_def t by (auto simp: q_remove_def)
  then have "clock_ok (deactivate r ?k)" by (subst clock_ok_cong [of _ ?k]) simp_all
  then show ?thesis using True by (simp add: stopped_def)
qed (use assms in \<open>simp add: stopped_def\<close>)

lemma stopped_deadline:
  assumes "ThreadTimer s \<in> set (tlists k HardList)" "r \<noteq> ThreadTimer s"
  shows "keeps_deadline k (stopped r k) s"
  using assms by (auto simp: keeps_deadline_def stopped_def q_remove_def)

lemma timing_stopped:
  assumes "\<And>s. r = ThreadTimer s \<Longrightarrow> s \<in> X \<or> \<not> asleep k s"
  shows "timing X k (stopped r k)"
proof -
  have "tick (stopped r k) = tick k" "asleep (stopped r k) s = asleep k s" for s by (simp_all add: asleep_def)
  then show ?thesis
    using clock_ok_stopped assms stopped_deadline unfolding timing_def by metis
qed

lemma timing_suspended: "timing {t} k (suspended t k)"
  unfolding suspended_def
  by (rule timing_trans [OF timing_same timing_stopped]) (auto simp: asleep_def)

lemma timing_resumed: "timing X k (resumed t k)"
proof -
  have "timing X k (readied t (stopped (ThreadTimer t) k))" (is "timing X k ?k")
  proof -
    have c: "clock_ok ?k = clock_ok (stopped (ThreadTimer t) k)"
      by (rule clock_ok_cong) (simp_all add: periodic_def tflag_def)
    have "asleep k s \<and> (ThreadTimer s \<in> set (tlists k HardList) \<longrightarrow> keeps_deadline k ?k s)" if "asleep ?k s" for s
    proof -
      have "s \<noteq> t" "asleep k s" using that by (auto simp: asleep_def split: if_splits)
      moreover have "ThreadTimer s \<in> set (tlists k HardList) \<Longrightarrow> keeps_deadline k (stopped (ThreadTimer t) k) s"
        using \<open>s \<noteq> t\<close> by (intro stopped_deadline) auto
      ultimately show ?thesis by (simp add: keeps_deadline_def)
    qed
    then show ?thesis using clock_ok_stopped c unfolding timing_def by simp
  qed
  then show ?thesis by (simp add: resumed_def)
qed

lemma armed_tlists:
  assumes "thread_timer_ok k t"
  shows "set (tlists (armed t v k) HardList) = insert (ThreadTimer t) (set (tlists k HardList))"
    "tlists k HardLocal = [] \<Longrightarrow> tlists (armed t v k) HardLocal = []"
  using assms by (auto simp: armed_def enqueued_tlists thread_timer_ok_def q_remove_def)

lemma timing_armed:
  assumes ok: "thread_timer_ok k t" and v: "v < 0x7fffffff"
  shows "timing {t} k (armed t v k)"
proof -
  let ?r = "ThreadTimer t"
  let ?k = "timed ?r v k"
  note tl = armed_tlists [OF ok]
  have tr: "trem (armed t v k) q = (if q = ?r then uint v else trem k q)" for q
    using sint_small [OF v] by (simp add: armed_def enqueued_trem) (simp add: trem_def timed_def)
  have f: "timeout_func (timers (armed t v k) q) = timeout_func (timers k q)" for q
    by (simp add: armed_def timed_def)
  have p: "periodic q (armed t v k) = periodic q k" for q by (simp add: armed_def) (simp add: timed_def)
  have it: "q \<noteq> ?r \<Longrightarrow> tm_init_tick (timers (armed t v k) q) = tm_init_tick (timers k q)" for q
    by (simp add: armed_def timed_def)
  have np: "\<not> periodic ?r k" "timeout_func (timers k ?r) = Rt_thread_timeout t" using ok by (simp_all add: thread_timer_ok_def)
  have "clock_ok (armed t v k)" if c: "clock_ok k"
    unfolding clock_ok_def
  proof (intro conjI)
    show "tlists (armed t v k) HardLocal = []" using c tl by (simp add: clock_ok_def)
    have "trem ?k = trem k" by (simp add: trem_def fun_eq_iff timed_def)
    then have "timers_sorted ?k HardList" using c by (simp add: clock_ok_def timers_sorted_def)
    then show "timers_sorted (armed t v k) HardList" unfolding armed_def using v by (intro timers_sorted_enqueued) simp_all
    have "0 \<le> trem (armed t v k) q
          \<and> (\<forall>s. timeout_func (timers k q) = Rt_thread_timeout s \<longrightarrow> q = ThreadTimer s)
          \<and> (periodic q k \<longrightarrow> 0 < tm_init_tick (timers (armed t v k) q)
              \<and> tm_init_tick (timers (armed t v k) q) < RT_TICK_MAX div 2)"
      if q: "q \<in> set (tlists (armed t v k) HardList)" for q
    proof (cases "q = ?r")
      case True
      then show ?thesis using np tr by simp
    next
      case False
      then have "q \<in> set (tlists k HardList)" using q tl(1) by simp
      then show ?thesis using c it [OF False] tr [of q] False by (simp add: clock_ok_def)
    qed
    then show "\<forall>q \<in> set (tlists (armed t v k) HardList). 0 \<le> trem (armed t v k) q
          \<and> (\<forall>s. timeout_func (timers (armed t v k) q) = Rt_thread_timeout s \<longrightarrow> q = ThreadTimer s)
          \<and> (periodic q (armed t v k) \<longrightarrow> 0 < tm_init_tick (timers (armed t v k) q)
              \<and> tm_init_tick (timers (armed t v k) q) < RT_TICK_MAX div 2)"
      unfolding f p by blast
  qed
  moreover have "keeps_deadline k (armed t v k) s" if "s \<noteq> t" "ThreadTimer s \<in> set (tlists k HardList)" for s
    using that tl by (simp add: keeps_deadline_def) (simp add: armed_def timed_def)
  ultimately show ?thesis by (simp add: timing_def asleep_def)
qed

end
