(* ===== verification/RT_Ipc.thy ===== *)
theory RT_Ipc
  imports RT_Timing
begin

text \<open>
  What all IPC objects share (\<open>src/ipc.c\<close>): their header, the wait lists, suspending the
  running thread on one with a time limit, resuming the first waiter or all of them.
  A call that blocks is split at its \<open>rt_schedule\<close>: the first part ends with \<open>Blocked\<close>, and
  what the thread does when it runs again is a definition of its own. Times are
  \<open>rt_int32_t\<close>: 0 does not wait, a negative one waits for ever.
\<close>

section \<open>Operations\<close>

datatype ipc_result = Returned rt_err_t | Blocked

definition assert_ipc :: "u8 \<Rightarrow> oid \<Rightarrow> kernel \<Rightarrow> unit option" where
  "assert_ipc ty i k = rt_assert (rt_object_get_type (OIpc i) k = ty)"

definition ipc_flag :: "oid \<Rightarrow> kernel \<Rightarrow> u8" where
  "ipc_flag i k = oflag (objs k (OIpc i))"

definition set_ipc_flag :: "oid \<Rightarrow> u8 \<Rightarrow> kernel \<Rightarrow> kernel" where
  "set_ipc_flag i f k = upd_obj (OIpc i) (\<lambda>ob. ob\<lparr>oflag := f\<rparr>) k"

definition rt_ipc_object_init :: "oid \<Rightarrow> kernel \<Rightarrow> kernel" where
  "rt_ipc_object_init i k = k\<lparr>queues := q_replace (SuspendQ i) [] (queues k)\<rparr>"

definition rt_ipc_list_suspend :: "qhead \<Rightarrow> tid \<Rightarrow> u8 \<Rightarrow> kernel \<Rightarrow> kernel option" where
  "rt_ipc_list_suspend h t flag k =
     do { (_, k) \<leftarrow> rt_thread_suspend t k;
          Some (if flag = RT_IPC_FLAG_FIFO then k\<lparr>queues := q_insert_before h t (queues k)\<rparr>
                else if flag = RT_IPC_FLAG_PRIO
                  then k\<lparr>queues := q_replace h
                         (insert_prio (\<lambda>s. current_priority (threads k s)) t (queues k h)) (queues k)\<rparr>
                else k) }"

text \<open>The entry of an empty list is no thread.\<close>

definition rt_ipc_list_resume :: "qhead \<Rightarrow> kernel \<Rightarrow> kernel option" where
  "rt_ipc_list_resume h k =
     (case queues k h of
        [] \<Rightarrow> None
      | t # _ \<Rightarrow> do { (_, k) \<leftarrow> rt_thread_resume t k; Some k })"

text \<open>\<open>rt_ipc_list_resume_all\<close>: while the list is not empty. A waiter that cannot be resumed
  would stay on it for ever.\<close>

partial_function (option) rt_ipc_list_resume_all :: "qhead \<Rightarrow> kernel \<Rightarrow> kernel option" where
  "rt_ipc_list_resume_all h k =
     (case queues k h of
        [] \<Rightarrow> Some k
      | t # _ \<Rightarrow> do { let k = upd_thread t (\<lambda>th. th\<lparr>error := - RT_ERROR\<rparr>) k;
                     (_, k) \<leftarrow> rt_thread_resume t k;
                     rt_ipc_list_resume_all h k })"

fun highest_priority :: "u8 \<Rightarrow> (tid \<Rightarrow> u8) \<Rightarrow> tid list \<Rightarrow> u8" where
  "highest_priority p prio [] = p"
| "highest_priority p prio (t # ts) = highest_priority (if p < prio t then p else prio t) prio ts"

definition rt_ipc_get_highest_priority :: "qhead \<Rightarrow> kernel \<Rightarrow> u8" where
  "rt_ipc_get_highest_priority h k =
     highest_priority (of_nat RT_THREAD_PRIORITY_MAX - 1) (\<lambda>s. current_priority (threads k s)) (queues k h)"

text \<open>Starting the thread's timer, if there is a time limit: the same lines in every call.\<close>

definition ipc_start_timer :: "tid \<Rightarrow> u32 \<Rightarrow> kernel \<Rightarrow> kernel option" where
  "ipc_start_timer t time k =
     (if 0 < sint time
      then do { (_, _, k) \<leftarrow> rt_timer_control (ThreadTimer t) RT_TIMER_CTRL_SET_TIME time k;
                (_, k) \<leftarrow> rt_timer_start (ThreadTimer t) k;
                Some k }
      else Some k)"

definition clear_error :: "tid \<Rightarrow> kernel \<Rightarrow> kernel" where
  "clear_error t k = upd_thread t (\<lambda>th. th\<lparr>error := RT_EOK\<rparr>) k"

text \<open>Suspend on the list, start the timer, let the scheduler switch.\<close>

definition ipc_wait :: "qhead \<Rightarrow> tid \<Rightarrow> u8 \<Rightarrow> u32 \<Rightarrow> kernel \<Rightarrow> kernel option" where
  "ipc_wait h t flag time k =
     do { k \<leftarrow> rt_ipc_list_suspend h t flag k;
          k \<leftarrow> ipc_start_timer t time k;
          rt_schedule k }"

section \<open>State the kernel invariant does not depend on\<close>

lemma kinv_cong:
  assumes "\<And>t. objs k' (OThread t) = objs k (OThread t)" "\<And>r. objs k' (OTimer r) = objs k (OTimer r)"
    and "threads k' = threads k" "queues k' = queues k" "ready_group k' = ready_group k"
    and "current_thread k' = current_thread k" "timers k' = timers k" "tlists k' = tlists k"
    and "timer_thread k' = timer_thread k"
  shows "kinv X k' = kinv X k"
proof -
  have l: "live k' = live k" using assms(1) by (simp add: live_def rt_object_get_type_def fun_eq_iff)
  have t: "timer_ok k' = timer_ok k" using assms(2) by (simp add: timer_ok_def fun_eq_iff rt_object_get_type_def)
  have a: "activated r k' = activated r k" "periodic r k' = periodic r k" "is_soft r k' = is_soft r k" for r
    using assms(2) by (simp_all add: activated_def periodic_def is_soft_def tflag_def)
  have s: "rt_object_is_systemobject (OTimer r) k' = rt_object_is_systemobject (OTimer r) k" for r
    using assms(2) by (simp add: rt_object_is_systemobject_def)
  show ?thesis
    unfolding kinv_def sched_inv_defs timer_lists_def thread_timers_def thread_timer_ok_def l t a s assms(3-9) ..
qed

lemma kinv_ipc_fields [simp]:
  "kinv X (k\<lparr>sems := a\<rparr>) = kinv X k" "kinv X (k\<lparr>mutexes := b\<rparr>) = kinv X k"
  "kinv X (k\<lparr>events := c\<rparr>) = kinv X k" "kinv X (k\<lparr>mailboxes := d\<rparr>) = kinv X k"
  "kinv X (k\<lparr>msgqueues := e\<rparr>) = kinv X k" "kinv X (k\<lparr>container := f\<rparr>) = kinv X k"
  "kinv X (upd_obj (OIpc i) g k) = kinv X k"
  by (rule kinv_cong; simp)+

lemma kinv_lock: "kinv X (k\<lparr>sched_lock_nest := n\<rparr>) = kinv X k"
  by (rule kinv_cong) simp_all

lemma running_ipc_fields [simp]:
  "running (k\<lparr>sems := a\<rparr>) t = running k t" "running (k\<lparr>mutexes := b\<rparr>) t = running k t"
  "running (k\<lparr>events := c\<rparr>) t = running k t" "running (k\<lparr>mailboxes := d\<rparr>) t = running k t"
  "running (k\<lparr>msgqueues := e\<rparr>) t = running k t"
  by (simp_all add: running_def)

section \<open>Waiting\<close>

text \<open>The list after a thread has been put on it: at its end, by priority, or at its front as
  the memory pools do, for which \<open>WAIT_LIFO\<close> stands.\<close>

abbreviation (input) WAIT_LIFO :: u8 where "WAIT_LIFO \<equiv> 2"

definition enlist :: "u8 \<Rightarrow> (tid \<Rightarrow> u8) \<Rightarrow> tid \<Rightarrow> tid list \<Rightarrow> tid list" where
  "enlist flag prio t ts =
     (if flag = RT_IPC_FLAG_FIFO then ts @ [t] else if flag = WAIT_LIFO then t # ts else insert_prio prio t ts)"

lemma set_enlist [simp]: "set (enlist flag prio t ts) = insert t (set ts)"
  by (auto simp: enlist_def)

lemma distinct_enlist [simp]: "distinct (enlist flag prio t ts) \<longleftrightarrow> t \<notin> set ts \<and> distinct ts"
  by (auto simp: enlist_def)

definition waiting :: "qhead \<Rightarrow> tid \<Rightarrow> u8 \<Rightarrow> kernel \<Rightarrow> kernel" where
  "waiting h t flag k =
     (let k = suspended t k
      in k\<lparr>queues := (queues k)(h := enlist flag (\<lambda>s. current_priority (threads k s)) t (queues k h))\<rparr>)"

lemma waiting_fields [simp]:
  "threads (waiting h t flag k) = (threads k)(t := set_tstate RT_THREAD_SUSPEND (threads k t))"
  "current_thread (waiting h t flag k) = current_thread k"
  "live (waiting h t flag k) = live k"
  by (simp_all add: waiting_def Let_def)

lemma waiting_queues:
  "queues (waiting h t flag k) = (q_remove t (queues k))
     (h := enlist flag (\<lambda>s. current_priority (threads k s)) t (q_remove t (queues k) h))"
proof -
  have "(\<lambda>s. current_priority (if s = t then set_tstate RT_THREAD_SUSPEND (threads k t) else threads k s))
      = (\<lambda>s. current_priority (threads k s))" by auto
  then show ?thesis by (simp add: waiting_def Let_def)
qed

lemma kframe_waiting: "kframe k (waiting h t flag k)"
  using kframe_suspended [of k t] by (simp add: kframe_def waiting_def Let_def)

lemma waiting_kinv:
  assumes inv: "kinv {} k" and run: "running k t" and h: "h = SuspendQ i \<or> h = SenderQ i"
  shows "kinv {} (waiting h t flag k)"
proof -
  note s = suspend_running [OF inv run]
  have "distinct (queues (suspended t k) h)"
    using kinv_parts(1) [OF s(2)] by (auto simp: sched_inv_def lists_inv_def disjoint_lists_def)
  moreover have "t \<notin> set (queues (suspended t k) h)" using s(5) by (simp add: detached_def)
  ultimately show ?thesis
    unfolding waiting_def Let_def
    by (intro kinv_queues [OF s(2)] wait_list_sched [OF kinv_parts(1) [OF s(2)] s(4,3,5) h]) simp_all
qed

lemma list_suspend_ok:
  assumes "kinv {} k" "running k t" "flag = RT_IPC_FLAG_FIFO \<or> flag = RT_IPC_FLAG_PRIO"
  shows "rt_ipc_list_suspend h t flag k = Some (waiting h t flag k)"
  using suspend_running(1) [OF assms(1,2)] assms(3)
  by (auto simp: rt_ipc_list_suspend_def waiting_def Let_def enlist_def q_insert_before_def q_replace_def)

text \<open>The state in which the scheduler is called.\<close>

definition wait_state :: "qhead \<Rightarrow> tid \<Rightarrow> u8 \<Rightarrow> u32 \<Rightarrow> kernel \<Rightarrow> kernel" where
  "wait_state h t flag time k =
     (if 0 < sint time then armed t time (waiting h t flag k) else waiting h t flag k)"

lemma wait_state_fields [simp]:
  "threads (wait_state h t flag time k) = (threads k)(t := set_tstate RT_THREAD_SUSPEND (threads k t))"
  "current_thread (wait_state h t flag time k) = current_thread k"
  "live (wait_state h t flag time k) = live k"
  "queues (wait_state h t flag time k) = queues (waiting h t flag k)"
  by (simp_all add: wait_state_def)

lemma kframe_wait_state: "kframe k (wait_state h t flag time k)"
  using kframe_trans [OF kframe_waiting kframe_armed] kframe_waiting by (simp add: wait_state_def)

definition time_ok :: "u32 \<Rightarrow> bool" where
  "time_ok time \<longleftrightarrow> sint time < 0x7fffffff"

lemma time_ok_less:
  assumes "0 < sint time" "time_ok time"
  shows "time < 0x7fffffff"
proof -
  have "uint time = sint time"
  proof -
    have "uint (word_of_int (sint time) :: u32) = sint time mod 2 ^ LENGTH(32)"
      by (rule uint_word_of_int)
    also have "\<dots> = sint time" using assms by (intro mod_pos_pos_trivial) (simp_all add: time_ok_def)
    finally show ?thesis by simp
  qed
  then show ?thesis using assms by (simp add: word_less_def time_ok_def)
qed


section \<open>Blocking\<close>

lemma running_unlinked:
  assumes "kinv {} k" "running k t"
  shows "detached (queues k) t"
proof -
  have l: "linked {} k" using kinv_parts(1) [OF assms(1)] by (simp add: sched_inv_def lists_inv_def)
  show ?thesis
    unfolding detached_def
  proof (intro allI notI)
    fix h assume "t \<in> set (queues k h)"
    from linkedD [OF l this] runningD(3) [OF assms(2)] show False by (cases h) auto
  qed
qed

lemma rt_schedule_current:
  assumes "rt_schedule k = Some k'" "current_thread k \<noteq> None"
  shows "current_thread k' \<noteq> None"
proof (cases "sched_lock_nest k = 0 \<and> ready_group k \<noteq> 0")
  case False
  then show ?thesis using assms by (auto simp: rt_schedule_def)
next
  case True
  then show ?thesis
    using assms by (auto simp: rt_schedule_def schedule_switch_def Let_def bind_eq_Some_conv split: if_splits)
qed

text \<open>The thread \<open>t\<close> has gone to sleep on the list \<open>h\<close> for the given time.\<close>

definition blocked :: "qhead \<Rightarrow> tid \<Rightarrow> u8 \<Rightarrow> u32 \<Rightarrow> kernel \<Rightarrow> kernel \<Rightarrow> bool" where
  "blocked h t flag time k k' \<longleftrightarrow>
     kinv {} k' \<and> kframe k k' \<and> current_thread k' \<noteq> None \<and> tstate (threads k' t) = RT_THREAD_SUSPEND
     \<and> queues k' h = enlist flag (\<lambda>s. current_priority (threads k s)) t (queues k h)
     \<and> (\<forall>g. \<not> is_ready_queue g \<longrightarrow> g \<noteq> h \<longrightarrow> queues k' g = queues k g)
     \<and> (if 0 < sint time
        then ThreadTimer t \<in> set (tlists k' HardList) \<and> trem k' (ThreadTimer t) = sint time
        else ThreadTimer t \<notin> set (tlists k' HardList))
     \<and> timing {t} k k'
     \<and> (\<forall>s. error (threads k' s) = error (threads k s)
          \<and> current_priority (threads k' s) = current_priority (threads k s)
          \<and> event_set (threads k' s) = event_set (threads k s)
          \<and> event_info (threads k' s) = event_info (threads k s))"

lemma sint_uint: "0 < sint (w::u32) \<Longrightarrow> uint w = sint w"
proof -
  assume "0 < sint w"
  moreover have "sint w < 2 ^ 31" using sint_lt [of w] by simp
  ultimately have "uint (word_of_int (sint w) :: u32) = sint w"
    unfolding uint_word_of_int by (intro mod_pos_pos_trivial) simp_all
  then show ?thesis by simp
qed

lemma suspended_no_timer:
  assumes "kinv {} k"
  shows "ThreadTimer t \<notin> set (tlists (suspended t k) HardList)"
proof -
  have "timer_lists (upd_thread t (set_tstate RT_THREAD_SUSPEND) (rt_schedule_remove_thread t k)) = timer_lists k"
    by (rule timer_lists_cong) simp_all
  then show ?thesis unfolding suspended_def using stopped_tlists kinv_parts(2) [OF assms] by simp
qed

lemma wait_state_ok:
  assumes inv: "kinv {} k" and run: "running k t" and h: "h = SuspendQ i \<or> h = SenderQ i" and tm: "time_ok time"
  shows "kinv {} (wait_state h t flag time k)"
    "ipc_start_timer t time (waiting h t flag k) = Some (wait_state h t flag time k)"
proof -
  note w = waiting_kinv [OF inv run h]
  let ?w = "waiting h t flag k"
  have st: "tstate (threads ?w t) = RT_THREAD_SUSPEND" "live ?w t"
    using runningD(2) [OF run] by simp_all
  show "kinv {} (wait_state h t flag time k)"
  proof (cases "0 < sint time")
    case True
    from arm_thread_timer(3) [OF w st(2,1) time_ok_less [OF True tm]] show ?thesis
      using True by (simp add: wait_state_def)
  qed (use w in \<open>simp add: wait_state_def\<close>)
  show "ipc_start_timer t time (waiting h t flag k) = Some (wait_state h t flag time k)"
  proof (cases "0 < sint time")
    case True
    from arm_thread_timer(1,2) [OF w st(2,1) time_ok_less [OF True tm]] show ?thesis
      using True by (simp add: wait_state_def ipc_start_timer_def)
  qed (simp add: wait_state_def ipc_start_timer_def)
qed

lemma wait_state_timer:
  assumes inv: "kinv {} k" and run: "running k t" and h: "h = SuspendQ i \<or> h = SenderQ i" and tm: "time_ok time"
  shows "if 0 < sint time
     then ThreadTimer t \<in> set (tlists (wait_state h t flag time k) HardList)
       \<and> trem (wait_state h t flag time k) (ThreadTimer t) = sint time
     else ThreadTimer t \<notin> set (tlists (wait_state h t flag time k) HardList)"
proof (cases "0 < sint time")
  case True
  have "thread_timer_ok (waiting h t flag k) t"
    using kinv_thread_timer [OF waiting_kinv [OF inv run h]] runningD(2) [OF run] by simp
  from armed_hard [OF this, of time] time_ok_less [OF True tm] sint_uint [OF True] show ?thesis
    using True by (simp add: wait_state_def)
next
  case False
  have "tlists (waiting h t flag k) = tlists (suspended t k)" by (simp add: waiting_def Let_def)
  then show ?thesis using False suspended_no_timer [OF inv] by (simp add: wait_state_def)
qed

lemma timing_wait_state:
  assumes inv: "kinv {} k" and run: "running k t" and h: "h = SuspendQ i \<or> h = SenderQ i" and tm: "time_ok time"
  shows "timing {t} k (wait_state h t flag time k)"
proof -
  have w: "timing {t} k (waiting h t flag k)"
    unfolding waiting_def Let_def by (rule timing_trans [OF timing_suspended]) simp
  have "thread_timer_ok (waiting h t flag k) t"
    using kinv_thread_timer [OF waiting_kinv [OF inv run h]] runningD(2) [OF run] by simp
  from timing_trans [OF w timing_armed [OF this time_ok_less]] tm w show ?thesis
    by (simp add: wait_state_def)
qed

text \<open>The switch away from a thread that has been put on a wait list.\<close>

lemma switch_away:
  assumes inv: "kinv {} k" and run: "running k t" and h: "h = SuspendQ i \<or> h = SenderQ i" and tm: "time_ok time"
  shows "\<exists>k'. rt_schedule (wait_state h t flag time k) = Some k' \<and> blocked h t flag time k k'"
proof -
  let ?w = "wait_state h t flag time k"
  note w = wait_state_ok(1) [OF assms]
  have cur: "current_thread ?w = Some t" using run by (simp add: running_def)
  from rt_schedule_kinv [OF w cur] obtain k' where
    k': "rt_schedule ?w = Some k'" "kinv {} k'" "sched_frame ?w k'" by blast
  note fr = sched_frame_fields [OF k'(3)] and th = sched_frame_thread [OF k'(3)]
  have "current_thread k' \<noteq> None" using rt_schedule_current [OF k'(1)] cur by simp
  moreover have "kframe k k'" by (rule kframe_trans [OF kframe_wait_state kframe_sched [OF k'(3)]])
  moreover have "tstate (threads k' t) = RT_THREAD_SUSPEND"
    using sched_frame_tstate [OF k'(3), of RT_THREAD_SUSPEND t] by simp
  moreover have q: "q_remove t (queues k) = queues k"
    using running_unlinked [OF inv run] by (auto simp: q_remove_def detached_def fun_eq_iff)
  moreover have "queues k' g = queues ?w g" if "\<not> is_ready_queue g" for g
    using k'(3) that by (simp add: sched_frame_def)
  moreover have "\<not> is_ready_queue h" using h by auto
  moreover have "trem k' (ThreadTimer t) = trem ?w (ThreadTimer t)" "tlists k' = tlists ?w"
    using fr by (simp_all add: trem_def)
  moreover have "timing {t} k k'"
    by (rule timing_trans [OF timing_wait_state [OF assms] timing_sched [OF k'(3)]])
  ultimately show ?thesis
    using k'(1,2) th wait_state_timer [OF assms]
    by (auto simp: blocked_def waiting_queues)
qed

lemma wait_ok:
  assumes inv: "kinv {} k" and run: "running k t" and h: "h = SuspendQ i \<or> h = SenderQ i"
    and flag: "flag = RT_IPC_FLAG_FIFO \<or> flag = RT_IPC_FLAG_PRIO" and tm: "time_ok time"
  shows "\<exists>k'. ipc_wait h t flag time k = Some k' \<and> blocked h t flag time k k'"
  using switch_away [OF inv run h tm, of flag] list_suspend_ok [OF inv run flag, of h]
    wait_state_ok(2) [OF inv run h tm, of flag]
  by (simp add: ipc_wait_def)


section \<open>Waking up\<close>

text \<open>The first waiter \<open>t\<close> of the list \<open>h\<close> has been made ready; everybody else waits on.\<close>

definition woken :: "qhead \<Rightarrow> tid \<Rightarrow> kernel \<Rightarrow> kernel \<Rightarrow> bool" where
  "woken h t k k' \<longleftrightarrow>
     kinv {} k' \<and> kframe k k' \<and> current_thread k' \<noteq> None \<and> tstate (threads k' t) \<in> {RT_THREAD_READY, RT_THREAD_RUNNING}
     \<and> queues k' h = tl (queues k h)
     \<and> (\<forall>g. \<not> is_ready_queue g \<longrightarrow> g \<noteq> h \<longrightarrow> queues k' g = queues k g)
     \<and> ThreadTimer t \<notin> set (tlists k' HardList) \<and> timing {} k k'
     \<and> (\<forall>s. error (threads k' s) = error (threads k s)
          \<and> current_priority (threads k' s) = current_priority (threads k s)
          \<and> event_set (threads k' s) = event_set (threads k s)
          \<and> event_info (threads k' s) = event_info (threads k s))"

lemma resumed_no_timer: "kinv {} k \<Longrightarrow> ThreadTimer t \<notin> set (tlists (resumed t k) HardList)"
  using stopped_tlists kinv_parts(2) by (simp add: resumed_def)

lemma wait_queues_disjoint:
  assumes "kinv {} k" "t \<in> set (queues k h)" "g \<noteq> h"
  shows "t \<notin> set (queues k g)"
  using kinv_parts(1) [OF assms(1)] assms(2,3)
  by (auto simp: sched_inv_def lists_inv_def disjoint_lists_def)

lemma wait_queue_distinct:
  "kinv {} k \<Longrightarrow> distinct (queues k h)"
  using kinv_parts(1) by (auto simp: sched_inv_def lists_inv_def disjoint_lists_def)

lemma resumed_wait_queue:
  assumes "kinv {} k" "t \<in> set (queues k h)" "\<not> is_ready_queue h" "\<not> is_ready_queue g"
  shows "queues (resumed t k) g = (if g = h then removeAll t (queues k h) else queues k g)"
proof -
  have "queues (resumed t k) g = removeAll t (queues k g)"
    using assms(4) by (cases g) simp_all
  then show ?thesis using wait_queues_disjoint [OF assms(1,2), of g] by auto
qed

lemma resume_first:
  assumes inv: "kinv {} k" and h: "h = SuspendQ i \<or> h = SenderQ i" and ne: "queues k h = t # ts"
  shows "rt_ipc_list_resume h k = Some (resumed t k)" "kinv {} (resumed t k)"
  using resume_waiter [OF inv _ h, of t] ne by (simp_all add: rt_ipc_list_resume_def)

lemma resumed_current [simp]: "rt_thread_self (resumed t k) = rt_thread_self k"
  by (simp add: rt_thread_self_def)

lemma resume_schedule:
  assumes inv: "kinv {} k" and h: "h = SuspendQ i \<or> h = SenderQ i" and ne: "queues k h = t # ts"
    and cur: "current_thread k = Some c"
  shows "\<exists>k'. rt_schedule (resumed t k) = Some k' \<and> woken h t k k'"
proof -
  note r = resume_first [OF inv h ne]
  have cr: "current_thread (resumed t k) = Some c" using cur by simp
  from rt_schedule_kinv [OF r(2) cr] obtain k' where
    k': "rt_schedule (resumed t k) = Some k'" "kinv {} k'" "sched_frame (resumed t k) k'" by blast
  note fr = sched_frame_fields [OF k'(3)] and th = sched_frame_thread [OF k'(3)]
  have nr: "\<not> is_ready_queue h" using h by auto
  have "queues k' g = queues (resumed t k) g" if "\<not> is_ready_queue g" for g
    using k'(3) that by (simp add: sched_frame_def)
  moreover have "removeAll t (queues k h) = ts" using wait_queue_distinct [OF inv, of h] ne by simp
  ultimately have q: "queues k' g = (if g = h then ts else queues k g)" if "\<not> is_ready_queue g" for g
    using resumed_wait_queue [OF inv _ nr that, of t] ne that by simp
  have "current_thread k' \<noteq> None" using rt_schedule_current [OF k'(1)] cr by simp
  moreover have "kframe k k'" by (rule kframe_trans [OF kframe_resumed kframe_sched [OF k'(3)]])
  moreover have "tstate (threads k' t) \<in> {RT_THREAD_READY, RT_THREAD_RUNNING}"
  proof -
    have "tstate (threads (resumed t k) t) = tstate (threads k' t)
       \<or> {tstate (threads (resumed t k) t), tstate (threads k' t)} \<subseteq> {RT_THREAD_READY, RT_THREAD_RUNNING}"
      using k'(3) unfolding sched_frame_def by blast
    then show ?thesis by (auto split: if_splits)
  qed
  moreover have "ThreadTimer t \<notin> set (tlists k' HardList)"
    using fr resumed_no_timer [OF inv] by simp
  moreover have "timing {} k k'" by (rule timing_trans [OF timing_resumed timing_sched [OF k'(3)]])
  ultimately show ?thesis
    using k'(1,2) th q nr ne by (auto simp: woken_def)
qed

text \<open>All waiters have been made ready with the error of a deleted object.\<close>

definition cancelled :: "kernel \<Rightarrow> tid \<Rightarrow> bool" where
  "cancelled k s \<longleftrightarrow> error (threads k s) = - RT_ERROR
     \<and> tstate (threads k s) \<in> {RT_THREAD_READY, RT_THREAD_RUNNING}
     \<and> ThreadTimer s \<notin> set (tlists k HardList)"

definition all_woken :: "qhead \<Rightarrow> kernel \<Rightarrow> kernel \<Rightarrow> bool" where
  "all_woken h k k' \<longleftrightarrow>
     kinv {} k' \<and> kframe k k' \<and> timing {} k k' \<and> current_thread k' = current_thread k \<and> queues k' h = []
     \<and> (\<forall>g. \<not> is_ready_queue g \<longrightarrow> g \<noteq> h \<longrightarrow> queues k' g = queues k g)
     \<and> (\<forall>s. if s \<in> set (queues k h) then cancelled k' s else threads k' s = threads k s)"

lemma all_wokenD:
  assumes "all_woken h k k'"
  shows "kinv {} k'" "kframe k k'" "current_thread k' = current_thread k" "queues k' h = []"
    "\<not> is_ready_queue g \<Longrightarrow> g \<noteq> h \<Longrightarrow> queues k' g = queues k g"
    "if s \<in> set (queues k h) then cancelled k' s else threads k' s = threads k s"
  using assms by (simp_all add: all_woken_def split: if_splits)

lemma kinv_timer_suspended:
  "kinv {} k \<Longrightarrow> ThreadTimer s \<in> set (tlists k HardList) \<Longrightarrow> tstate (threads k s) = RT_THREAD_SUSPEND"
  by (simp add: kinv_def thread_timers_def)

lemma ready_no_timer:
  "kinv {} k \<Longrightarrow> tstate (threads k s) \<in> {RT_THREAD_READY, RT_THREAD_RUNNING} \<Longrightarrow>
     ThreadTimer s \<notin> set (tlists k HardList)"
  using kinv_timer_suspended by fastforce

lemma resume_all_ok:
  assumes "kinv {} k" and h: "h = SuspendQ i \<or> h = SenderQ i"
  shows "\<exists>k'. rt_ipc_list_resume_all h k = Some k' \<and> all_woken h k k'"
  using assms(1)
proof (induction "queues k h" arbitrary: k)
  case Nil
  then have "rt_ipc_list_resume_all h k = Some k"
    by (subst rt_ipc_list_resume_all.simps) (simp split: list.splits)
  then show ?case using Nil by (auto simp: all_woken_def kframe_refl)
next
  case (Cons t ts)
  let ?k1 = "upd_thread t (\<lambda>th. th\<lparr>error := - RT_ERROR\<rparr>) k"
  have nr: "\<not> is_ready_queue h" using h by auto
  have k1: "kinv {} ?k1" by (rule upd_thread_kinv [OF Cons(3)]) simp_all
  have q1: "queues ?k1 h = t # ts" using Cons(2) by simp
  have "t \<in> set (queues ?k1 h)" using q1 by simp
  note r = resume_waiter [OF k1 this h]
  let ?k2 = "resumed t ?k1"
  have di: "t \<notin> set ts" "distinct ts" using wait_queue_distinct [OF k1, of h] q1 by auto
  have q2: "queues ?k2 g = (if g = h then ts else queues k g)" if "\<not> is_ready_queue g" for g
    using resumed_wait_queue [OF k1 \<open>t \<in> set (queues ?k1 h)\<close> nr that] q1 di by simp
  obtain k' where k': "rt_ipc_list_resume_all h ?k2 = Some k'" "all_woken h ?k2 k'"
    using Cons(1) [of ?k2] q2 [OF nr] r(2) by auto
  have eq: "rt_ipc_list_resume_all h k = Some k'"
    using k'(1) r(1) q1 by (subst rt_ipc_list_resume_all.simps) simp
  have qe: "queues ?k2 h = ts" using q2 [OF nr] by simp
  note aw = all_wokenD [OF k'(2)]
  have "kframe k k'"
    using kframe_trans [OF kframe_trans [OF kframe_upd_thread kframe_resumed] aw(2)] .
  moreover have "queues k' g = queues k g" if "\<not> is_ready_queue g" "g \<noteq> h" for g
    using aw(5) [OF that] q2 [OF that(1)] that(2) by simp
  moreover have "if s \<in> set (queues k h) then cancelled k' s else threads k' s = threads k s" for s
  proof (cases "s = t")
    case True
    have "tstate (threads k' t) \<in> {RT_THREAD_READY, RT_THREAD_RUNNING}" "error (threads k' t) = - RT_ERROR"
      using aw(6) [of t] di(1) qe by simp_all
    then have "cancelled k' t" using ready_no_timer [OF aw(1)] by (simp add: cancelled_def)
    then show ?thesis using True Cons(2) [symmetric] by simp
  next
    case False
    then show ?thesis using aw(6) [of s] qe Cons(2) [symmetric] by simp
  qed
  moreover have "current_thread k' = current_thread k" using aw(3) by simp
  moreover have "timing {} k k'"
  proof (rule timing_trans)
    show "timing {} k ?k2" by (rule timing_trans [OF timing_upd_thread timing_resumed]) simp
    show "timing {} ?k2 k'" using k'(2) by (simp add: all_woken_def)
  qed
  ultimately have "all_woken h k k'" unfolding all_woken_def using aw(1,4) by (intro conjI allI impI)
  then show ?case using eq by blast
qed


section \<open>The header of an IPC object\<close>

definition ipc_object_ok :: "u8 \<Rightarrow> oid \<Rightarrow> kernel \<Rightarrow> bool" where
  "ipc_object_ok ty i k \<longleftrightarrow> rt_object_get_type (OIpc i) k = ty
     \<and> (ipc_flag i k = RT_IPC_FLAG_FIFO \<or> ipc_flag i k = RT_IPC_FLAG_PRIO)"

lemma ipc_object_frame: "kframe k k' \<Longrightarrow> ipc_object_ok ty i k' = ipc_object_ok ty i k"
  by (simp add: ipc_object_ok_def rt_object_get_type_def ipc_flag_def kframe_def)

lemma assert_ipc_ok: "ipc_object_ok ty i k \<Longrightarrow> assert_ipc ty i k = Some ()"
  by (simp add: assert_ipc_def ipc_object_ok_def)

lemma clear_error_ok:
  assumes "kinv {} k" "running k t"
  shows "kinv {} (clear_error t k)" "running (clear_error t k) t"
  using assms upd_thread_kinv [OF assms(1), of "\<lambda>th. th\<lparr>error := RT_EOK\<rparr>" t]
  by (simp_all add: clear_error_def running_def)

lemma clear_error_fields [simp]:
  "queues (clear_error t k) = queues k" "ipc_flag i (clear_error t k) = ipc_flag i k"
  "current_thread (clear_error t k) = current_thread k" "sems (clear_error t k) = sems k"
  "mutexes (clear_error t k) = mutexes k" "events (clear_error t k) = events k"
  "mailboxes (clear_error t k) = mailboxes k" "msgqueues (clear_error t k) = msgqueues k"
  "(\<lambda>s. current_priority (threads (clear_error t k) s)) = (\<lambda>s. current_priority (threads k s))"
  by (auto simp: clear_error_def ipc_flag_def)

lemma kframe_clear_error: "kframe k (clear_error t k)"
  by (simp add: kframe_def clear_error_def)

lemma in_thread_context: "running k t \<Longrightarrow> interrupt_nest k = 0 \<Longrightarrow> RT_DEBUG_IN_THREAD_CONTEXT k = Some ()"
  by (simp add: RT_DEBUG_IN_THREAD_CONTEXT_def RT_DEBUG_NOT_IN_INTERRUPT_def rt_interrupt_get_nest_def
      rt_thread_self_def running_def)

section \<open>Objects that go away\<close>

lemma kinv_rt_object_detach: "kinv X (rt_object_detach (OIpc i) k) = kinv X k"
  by (simp add: rt_object_detach_def Let_def)

lemma threads_rt_object_detach [simp]:
  "threads (rt_object_detach r k) = threads k" "queues (rt_object_detach r k) = queues k"
  by (simp_all add: rt_object_detach_def Let_def)

lemma tlists_rt_object_detach: "tlists (rt_object_detach r k) = tlists k"
  by (simp add: rt_object_detach_def Let_def)

lemma type_rt_object_detach [simp]: "rt_object_get_type r (rt_object_detach r k) = 0"
  by (simp add: rt_object_detach_def Let_def rt_object_get_type_def)

section \<open>What an operation on one object leaves alone\<close>

text \<open>From \<open>k\<close> to \<open>k'\<close> an operation on the object \<open>i\<close> has run (or on none of them, for
  an \<open>i\<close> that is no object); \<open>X\<close> are the threads it may have put to sleep. The other objects are
  as they were, except that threads may have left their lines.\<close>

definition ipc_frame :: "oid \<Rightarrow> tid set \<Rightarrow> kernel \<Rightarrow> kernel \<Rightarrow> bool" where
  "ipc_frame i X k k' \<longleftrightarrow>
     interrupt_nest k' = interrupt_nest k \<and> live k' = live k
     \<and> (current_thread k \<noteq> None \<longrightarrow> current_thread k' \<noteq> None)
     \<and> (\<forall>j. objs k' (OIpc j) = objs k (OIpc j))
     \<and> (\<forall>j. j \<noteq> i \<longrightarrow> sems k' j = sems k j \<and> mutexes k' j = mutexes k j \<and> events k' j = events k j
            \<and> mailboxes k' j = mailboxes k j \<and> msgqueues k' j = msgqueues k j
            \<and> (\<exists>P. queues k' (SuspendQ j) = filter P (queues k (SuspendQ j))))
     \<and> set (queues k' (SuspendQ i)) \<subseteq> set (queues k (SuspendQ i)) \<union> X
     \<and> (\<forall>s. s \<notin> X \<longrightarrow> s \<notin> set (queues k (SuspendQ i)) \<longrightarrow>
            event_set (threads k' s) = event_set (threads k s) \<and> event_info (threads k' s) = event_info (threads k s))
     \<and> timing X k k'"

lemma ipc_frame_trans:
  assumes "ipc_frame i X k k'" "ipc_frame i X k' k''"
  shows "ipc_frame i X k k''"
proof -
  have "\<exists>P. queues k'' (SuspendQ j) = filter P (queues k (SuspendQ j))" if j: "j \<noteq> i" for j
  proof -
    obtain P Q where "queues k' (SuspendQ j) = filter P (queues k (SuspendQ j))"
        "queues k'' (SuspendQ j) = filter Q (queues k' (SuspendQ j))"
      using assms j unfolding ipc_frame_def by blast
    then have "queues k'' (SuspendQ j) = filter (\<lambda>s. P s \<and> Q s) (queues k (SuspendQ j))" by simp
    then show ?thesis by blast
  qed
  then show ?thesis
    using assms timing_trans [of X k k' k''] unfolding ipc_frame_def by auto
qed

lemma ipc_frame_mono: "ipc_frame i X k k' \<Longrightarrow> X \<subseteq> Y \<Longrightarrow> ipc_frame i Y k k'"
  using timing_mono [of X k k' Y] unfolding ipc_frame_def by auto

text \<open>An operation that keeps the tables of all objects and the other lines.\<close>

lemma ipc_frame_kframe:
  assumes "kframe k k'" "timing X k k'" and "current_thread k \<noteq> None \<Longrightarrow> current_thread k' \<noteq> None"
    and "\<And>j. j \<noteq> i \<Longrightarrow> queues k' (SuspendQ j) = queues k (SuspendQ j)"
    and "set (queues k' (SuspendQ i)) \<subseteq> set (queues k (SuspendQ i)) \<union> X"
    and "\<And>s. s \<notin> X \<Longrightarrow> event_set (threads k' s) = event_set (threads k s) \<and> event_info (threads k' s) = event_info (threads k s)"
  shows "ipc_frame i X k k'"
proof -
  have "\<exists>P. queues k' (SuspendQ j) = filter P (queues k (SuspendQ j))" if "j \<noteq> i" for j
    using assms(4) [OF that] by (intro exI [of _ "\<lambda>_. True"]) simp
  then show ?thesis
    using assms kframe_live [OF assms(1)] unfolding ipc_frame_def by (simp add: kframe_def)
qed

lemma ipc_frame_refl: "ipc_frame i X k k"
  by (rule ipc_frame_kframe) (simp_all add: kframe_refl)

lemma ipc_frame_upd_thread:
  assumes "tstate (f (threads k t)) = tstate (threads k t)"
    and "t \<in> X \<or> event_set (f (threads k t)) = event_set (threads k t) \<and> event_info (f (threads k t)) = event_info (threads k t)"
  shows "ipc_frame i X k (upd_thread t f k)"
  by (rule ipc_frame_kframe) (use assms in \<open>auto simp: kframe_upd_thread timing_upd_thread\<close>)

lemma ipc_frame_clear_error: "ipc_frame i X k (clear_error t k)"
  unfolding clear_error_def by (rule ipc_frame_upd_thread) simp_all

lemma blocked_frame:
  assumes "blocked h t flag time k k'" "h = SuspendQ i \<or> h = SenderQ i"
  shows "ipc_frame i {t} k k'"
proof (rule ipc_frame_kframe)
  show "queues k' (SuspendQ j) = queues k (SuspendQ j)" if "j \<noteq> i" for j
    using assms that by (auto simp: blocked_def)
  show "set (queues k' (SuspendQ i)) \<subseteq> set (queues k (SuspendQ i)) \<union> {t}"
    using assms by (auto simp: blocked_def)
qed (use assms in \<open>auto simp: blocked_def\<close>)

lemma blocked_clear_frame:
  "blocked h t flag time (clear_error t k) k' \<Longrightarrow> h = SuspendQ i \<or> h = SenderQ i \<Longrightarrow> ipc_frame i {t} k k'"
  by (rule ipc_frame_trans [OF ipc_frame_clear_error blocked_frame])

lemma woken_frame:
  assumes "woken h t k k'" "h = SuspendQ i \<or> h = SenderQ i"
  shows "ipc_frame i X k k'"
proof -
  have "ipc_frame i {} k k'"
  proof (rule ipc_frame_kframe)
    show "queues k' (SuspendQ j) = queues k (SuspendQ j)" if "j \<noteq> i" for j
      using assms that by (auto simp: woken_def)
    show "set (queues k' (SuspendQ i)) \<subseteq> set (queues k (SuspendQ i)) \<union> {}"
      using assms by (cases "queues k h") (auto simp: woken_def)
  qed (use assms in \<open>auto simp: woken_def\<close>)
  then show ?thesis by (rule ipc_frame_mono) simp
qed

text \<open>Changing the object \<open>i\<close> itself.\<close>

lemma ipc_frame_tables:
  "ipc_frame i X k (k\<lparr>sems := (sems k)(i := a)\<rparr>)" "ipc_frame i X k (k\<lparr>mutexes := (mutexes k)(i := b)\<rparr>)"
  "ipc_frame i X k (k\<lparr>events := (events k)(i := c)\<rparr>)" "ipc_frame i X k (k\<lparr>mailboxes := (mailboxes k)(i := d)\<rparr>)"
  "ipc_frame i X k (k\<lparr>msgqueues := (msgqueues k)(i := e)\<rparr>)"
proof -
  have f: "\<exists>P. xs = filter P xs" for xs :: "tid list" by (rule exI [of _ "\<lambda>_. True"]) simp
  show "ipc_frame i X k (k\<lparr>sems := (sems k)(i := a)\<rparr>)" "ipc_frame i X k (k\<lparr>mutexes := (mutexes k)(i := b)\<rparr>)"
    "ipc_frame i X k (k\<lparr>events := (events k)(i := c)\<rparr>)" "ipc_frame i X k (k\<lparr>mailboxes := (mailboxes k)(i := d)\<rparr>)"
    "ipc_frame i X k (k\<lparr>msgqueues := (msgqueues k)(i := e)\<rparr>)"
    using f by (auto simp: ipc_frame_def live_def rt_object_get_type_def fun_eq_iff)
qed

lemma ipc_frame_resumed: "ipc_frame i X k (resumed t k)"
proof -
  have "removeAll t xs = filter (\<lambda>s. s \<noteq> t) xs" for xs :: "tid list" by (simp add: removeAll_filter_not_eq eq_commute)
  then show ?thesis
    using timing_resumed kframe_resumed [of k t] by (auto simp: ipc_frame_def kframe_def)
qed

lemma ipc_frame_sched:
  assumes "sched_frame k k'" "current_thread k' \<noteq> None"
  shows "ipc_frame i X k k'"
  by (rule ipc_frame_kframe)
    (use assms in \<open>simp_all add: kframe_sched timing_sched sched_frame_fields sched_frame_thread\<close>)

end
