(* ===== verification/RT_Sem.thy ===== *)
theory RT_Sem
  imports RT_Ipc
begin

text \<open>
  Semaphores (\<open>src/ipc.c\<close>): initialisation, creation, detaching and deletion, take, release
  and control, and the proof that they implement a counter with a waiting line.
\<close>

section \<open>Operations\<close>

definition set_sem_value :: "oid \<Rightarrow> u16 \<Rightarrow> kernel \<Rightarrow> kernel" where
  "set_sem_value i v k = k\<lparr>sems := (sems k)(i := (sems k i)\<lparr>sem_value := v\<rparr>)\<rparr>"

definition rt_sem_init :: "oid \<Rightarrow> string \<Rightarrow> u32 \<Rightarrow> u8 \<Rightarrow> kernel \<Rightarrow> (rt_err_t \<times> kernel) option" where
  "rt_sem_init i name v flag k =
     do { rt_assert (v < 0x10000);
          k \<leftarrow> rt_object_init (OIpc i) RT_Object_Class_Semaphore name k;
          let k = rt_ipc_object_init i k;
          let k = set_sem_value i (ucast v) k;
          Some (RT_EOK, set_ipc_flag i flag k) }"

definition rt_sem_detach :: "oid \<Rightarrow> kernel \<Rightarrow> (rt_err_t \<times> kernel) option" where
  "rt_sem_detach i k =
     do { assert_ipc RT_Object_Class_Semaphore i k;
          rt_assert (rt_object_is_systemobject (OIpc i) k);
          k \<leftarrow> rt_ipc_list_resume_all (SuspendQ i) k;
          Some (RT_EOK, rt_object_detach (OIpc i) k) }"

definition rt_sem_create ::
    "oid option \<Rightarrow> string \<Rightarrow> u32 \<Rightarrow> u8 \<Rightarrow> kernel \<Rightarrow> (oid option \<times> kernel) option" where
  "rt_sem_create mem name v flag k =
     do { RT_DEBUG_NOT_IN_INTERRUPT k;
          rt_assert (v < 0x10000);
          (r, k) \<leftarrow> rt_object_allocate (map_option OIpc mem) RT_Object_Class_Semaphore name k;
          case (r, mem) of
            (Some _, Some i) \<Rightarrow>
              let k = rt_ipc_object_init i k;
                  k = set_sem_value i (ucast v) k
              in Some (Some i, set_ipc_flag i flag k)
          | _ \<Rightarrow> Some (None, k) }"

definition rt_sem_delete :: "oid \<Rightarrow> kernel \<Rightarrow> (rt_err_t \<times> kernel) option" where
  "rt_sem_delete i k =
     do { RT_DEBUG_NOT_IN_INTERRUPT k;
          assert_ipc RT_Object_Class_Semaphore i k;
          rt_assert (\<not> rt_object_is_systemobject (OIpc i) k);
          k \<leftarrow> rt_ipc_list_resume_all (SuspendQ i) k;
          (_, k) \<leftarrow> rt_object_delete (OIpc i) k;
          Some (RT_EOK, k) }"

text \<open>\<open>rt_sem_take\<close>, up to the switch and after it.\<close>

definition rt_sem_take_start :: "oid \<Rightarrow> u32 \<Rightarrow> kernel \<Rightarrow> (ipc_result \<times> kernel) option" where
  "rt_sem_take_start i time k =
     do { assert_ipc RT_Object_Class_Semaphore i k;
          let v = sem_value (sems k i);
          if v > 0 then Some (Returned RT_EOK, set_sem_value i (v - 1) k)
          else if time = 0 then Some (Returned (- RT_ETIMEOUT), k)
          else do { RT_DEBUG_IN_THREAD_CONTEXT k;
                    t \<leftarrow> rt_thread_self k;
                    let k = clear_error t k;
                    k \<leftarrow> ipc_wait (SuspendQ i) t (ipc_flag i k) time k;
                    Some (Blocked, k) } }"

definition rt_sem_take_wake :: "tid \<Rightarrow> kernel \<Rightarrow> rt_err_t" where
  "rt_sem_take_wake t k =
     (if error (threads k t) \<noteq> RT_EOK then error (threads k t) else RT_EOK)"

definition rt_sem_trytake :: "oid \<Rightarrow> kernel \<Rightarrow> (ipc_result \<times> kernel) option" where
  "rt_sem_trytake i k = rt_sem_take_start i 0 k"

definition rt_sem_release :: "oid \<Rightarrow> kernel \<Rightarrow> (rt_err_t \<times> kernel) option" where
  "rt_sem_release i k =
     do { assert_ipc RT_Object_Class_Semaphore i k;
          if queues k (SuspendQ i) \<noteq> []
          then do { k \<leftarrow> rt_ipc_list_resume (SuspendQ i) k;
                    k \<leftarrow> rt_schedule k;
                    Some (RT_EOK, k) }
          else let v = sem_value (sems k i)
               in if v < RT_SEM_VALUE_MAX then Some (RT_EOK, set_sem_value i (v + 1) k)
                  else Some (- RT_EFULL, k) }"

definition rt_sem_control :: "oid \<Rightarrow> nat \<Rightarrow> u32 \<Rightarrow> kernel \<Rightarrow> (rt_err_t \<times> kernel) option" where
  "rt_sem_control i cmd arg k =
     do { assert_ipc RT_Object_Class_Semaphore i k;
          if cmd = RT_IPC_CMD_RESET
          then do { k \<leftarrow> rt_ipc_list_resume_all (SuspendQ i) k;
                    let k = set_sem_value i (ucast arg) k;
                    k \<leftarrow> rt_schedule k;
                    Some (RT_EOK, k) }
          else Some (- RT_ERROR, k) }"

section \<open>A semaphore in abstract terms\<close>

text \<open>A number of units and a line of waiters; \<open>join\<close> puts a newcomer into the line.\<close>

type_synonym sem_spec = "nat \<times> tid list"

fun sem_take_spec :: "(tid list \<Rightarrow> tid list) \<Rightarrow> bool \<Rightarrow> sem_spec \<Rightarrow> ipc_result \<times> sem_spec" where
  "sem_take_spec join wait (Suc n, ts) = (Returned RT_EOK, (n, ts))"
| "sem_take_spec join wait (0, ts) =
     (if wait then (Blocked, (0, join ts)) else (Returned (- RT_ETIMEOUT), (0, ts)))"

fun sem_release_spec :: "nat \<Rightarrow> sem_spec \<Rightarrow> rt_err_t \<times> sem_spec" where
  "sem_release_spec maxv (n, t # ts) = (RT_EOK, (n, ts))"
| "sem_release_spec maxv (n, []) =
     (if n < maxv then (RT_EOK, (Suc n, [])) else (- RT_EFULL, (n, [])))"

definition sem_abs :: "oid \<Rightarrow> kernel \<Rightarrow> sem_spec" where
  "sem_abs i k = (unat (sem_value (sems k i)), queues k (SuspendQ i))"

text \<open>Nobody waits while there are units left.\<close>

definition sem_ok :: "oid \<Rightarrow> kernel \<Rightarrow> bool" where
  "sem_ok i k \<longleftrightarrow> ipc_object_ok RT_Object_Class_Semaphore i k
     \<and> (queues k (SuspendQ i) \<noteq> [] \<longrightarrow> sem_value (sems k i) = 0)"

lemma set_sem_value_fields [simp]:
  "objs (set_sem_value i v k) = objs k" "threads (set_sem_value i v k) = threads k"
  "queues (set_sem_value i v k) = queues k" "current_thread (set_sem_value i v k) = current_thread k"
  "tlists (set_sem_value i v k) = tlists k" "timers (set_sem_value i v k) = timers k"
  "sem_value (sems (set_sem_value i v k) j) = (if j = i then v else sem_value (sems k j))"
  "kinv X (set_sem_value i v k) = kinv X k"
  "ipc_object_ok ty j (set_sem_value i v k) = ipc_object_ok ty j k"
  by (simp_all add: set_sem_value_def ipc_object_ok_def rt_object_get_type_def ipc_flag_def)



section \<open>Take and release implement the abstract semaphore\<close>

lemma sem_ok_abs: "sem_ok i k \<Longrightarrow> sem_abs i k = (n, ts) \<Longrightarrow> ts \<noteq> [] \<Longrightarrow> n = 0"
  by (auto simp: sem_ok_def sem_abs_def)

lemma take_unit:
  assumes "kinv {} k" "sem_ok i k" "sem_value (sems k i) > 0"
  shows "rt_sem_take_start i time k = Some (Returned RT_EOK, set_sem_value i (sem_value (sems k i) - 1) k)"
    "sem_ok i (set_sem_value i (sem_value (sems k i) - 1) k)"
    "sem_take_spec join w (sem_abs i k)
       = (Returned RT_EOK, sem_abs i (set_sem_value i (sem_value (sems k i) - 1) k))"
proof -
  let ?v = "sem_value (sems k i)"
  have nz: "?v \<noteq> 0" using assms(3) by auto
  then obtain n where n: "unat ?v = Suc n" by (cases "unat ?v") (auto simp: unat_eq_0)
  then have "unat (?v - 1) = n" using assms(3) by (simp add: unat_minus_one)
  then show "sem_take_spec join w (sem_abs i k)
       = (Returned RT_EOK, sem_abs i (set_sem_value i (?v - 1) k))"
    using n by (simp add: sem_abs_def)
  show "rt_sem_take_start i time k = Some (Returned RT_EOK, set_sem_value i (?v - 1) k)"
    using assms by (simp add: rt_sem_take_start_def assert_ipc_ok sem_ok_def Let_def)
  show "sem_ok i (set_sem_value i (?v - 1) k)"
    using assms(2) nz by (auto simp: sem_ok_def)
qed

lemma take_blocks:
  assumes inv: "kinv {} k" and ok: "sem_ok i k" and run: "running k t" and nest: "interrupt_nest k = 0"
    and tm: "time_ok time" "time \<noteq> 0" and z: "sem_value (sems k i) = 0"
  shows "\<exists>k'. rt_sem_take_start i time k = Some (Blocked, k')
     \<and> blocked (SuspendQ i) t (ipc_flag i k) time (clear_error t k) k'"
proof -
  note c = clear_error_ok [OF inv run]
  have f: "ipc_flag i k = RT_IPC_FLAG_FIFO \<or> ipc_flag i k = RT_IPC_FLAG_PRIO"
    using ok by (simp add: sem_ok_def ipc_object_ok_def)
  obtain k' where k': "ipc_wait (SuspendQ i) t (ipc_flag i k) time (clear_error t k) = Some k'"
      "blocked (SuspendQ i) t (ipc_flag i k) time (clear_error t k) k'"
    using wait_ok [OF c _ f tm(1), of "SuspendQ i" i] by auto
  have "rt_sem_take_start i time k = Some (Blocked, k')"
    using ok run z tm(2) k'(1) in_thread_context [OF run nest]
    by (simp add: rt_sem_take_start_def assert_ipc_ok sem_ok_def Let_def rt_thread_self_def running_def)
  then show ?thesis using k'(2) by blast
qed

text \<open>Bookkeeping of a blocked thread, relative to the state before its error was cleared.\<close>

lemma blocked_clear:
  assumes "blocked (SuspendQ i) t flag time (clear_error t k) k'"
  shows "kinv {} k'" "kframe k k'"
    "queues k' (SuspendQ i) = enlist flag (\<lambda>s. current_priority (threads k s)) t (queues k (SuspendQ i))"
    "tstate (threads k' t) = RT_THREAD_SUSPEND" "error (threads k' t) = RT_EOK"
  using assms kframe_trans [OF kframe_clear_error, of t k k']
  by (simp_all add: blocked_def) (simp add: clear_error_def)

lemma release_hands_over:
  assumes inv: "kinv {} k" and ok: "sem_ok i k" and cur: "current_thread k = Some c"
    and ne: "queues k (SuspendQ i) = t # ts"
  shows "\<exists>k'. rt_sem_release i k = Some (RT_EOK, k') \<and> woken (SuspendQ i) t k k'"
proof -
  have r: "rt_ipc_list_resume (SuspendQ i) k = Some (resumed t k)"
    by (rule resume_first(1) [OF inv _ ne]) simp
  obtain k' where k': "rt_schedule (resumed t k) = Some k'" "woken (SuspendQ i) t k k'"
    using resume_schedule [OF inv _ ne cur, of i] by auto
  have "rt_sem_release i k = Some (RT_EOK, k')"
    using ok ne r k'(1) by (simp add: rt_sem_release_def assert_ipc_ok sem_ok_def)
  then show ?thesis using k'(2) by blast
qed

lemma ipc_frame_set_sem_value: "ipc_frame i X k (set_sem_value i v k)"
  using ipc_frame_tables(1) by (simp add: set_sem_value_def)

lemma sem_take_ok:
  assumes "kinv {} k" "sem_ok i k" "running k t" "interrupt_nest k = 0" "time_ok time"
  shows "\<exists>r k'. rt_sem_take_start i time k = Some (r, k') \<and> kinv {} k' \<and> sem_ok i k'
     \<and> (r, sem_abs i k') = sem_take_spec (enlist (ipc_flag i k) (\<lambda>s. current_priority (threads k s)) t)
           (time \<noteq> 0) (sem_abs i k)
     \<and> (if r = Blocked then blocked (SuspendQ i) t (ipc_flag i k) time (clear_error t k) k'
        else threads k' = threads k \<and> queues k' = queues k)
     \<and> ipc_frame i {t} k k'"
proof (cases "sem_value (sems k i) = 0")
  case False
  then have "sem_value (sems k i) > 0" by (simp add: word_neq_0_conv)
  note t = take_unit [OF assms(1,2) this]
  show ?thesis using t(1,2) t(3) [symmetric] assms(1) ipc_frame_set_sem_value by simp
next
  case z: True
  have a: "sem_abs i k = (0, queues k (SuspendQ i))" using z by (simp add: sem_abs_def)
  show ?thesis
  proof (cases "time = 0")
    case True
    then show ?thesis
      using assms z a ipc_frame_refl by (simp add: rt_sem_take_start_def assert_ipc_ok sem_ok_def Let_def)
  next
    case False
    obtain k' where k': "rt_sem_take_start i time k = Some (Blocked, k')"
        "blocked (SuspendQ i) t (ipc_flag i k) time (clear_error t k) k'"
      using take_blocks [OF assms(1-5) False z] by blast
    note b = blocked_clear [OF k'(2)]
    have s: "sems k' = sems k" using b(2) by (simp add: kframe_def)
    have "sem_ok i k'" using assms(2) z s ipc_object_frame [OF b(2)] by (simp add: sem_ok_def)
    moreover have "sem_abs i k' = (0, enlist (ipc_flag i k) (\<lambda>s. current_priority (threads k s)) t
        (queues k (SuspendQ i)))" using s z b(3) by (simp add: sem_abs_def)
    ultimately show ?thesis using k' b(1) a False blocked_clear_frame [OF k'(2)] by simp
  qed
qed

lemma sem_release_ok:
  assumes "kinv {} k" "sem_ok i k" "current_thread k = Some c"
  shows "\<exists>r k'. rt_sem_release i k = Some (r, k') \<and> kinv {} k' \<and> sem_ok i k'
     \<and> (r, sem_abs i k') = sem_release_spec 65535 (sem_abs i k)
     \<and> (\<forall>t ts. queues k (SuspendQ i) = t # ts \<longrightarrow> woken (SuspendQ i) t k k')
     \<and> ipc_frame i X k k'"
proof (cases "queues k (SuspendQ i)")
  case (Cons t ts)
  obtain k' where k': "rt_sem_release i k = Some (RT_EOK, k')" "woken (SuspendQ i) t k k'"
    using release_hands_over [OF assms Cons] by blast
  then have w: "kinv {} k'" "kframe k k'" "queues k' (SuspendQ i) = ts"
    using Cons by (simp_all add: woken_def)
  have s: "sems k' = sems k" using w(2) by (simp add: kframe_def)
  have z: "sem_value (sems k i) = 0" using assms(2) Cons by (simp add: sem_ok_def)
  have "sem_ok i k'" using assms(2) z s ipc_object_frame [OF w(2)] by (simp add: sem_ok_def)
  then show ?thesis using k' w Cons s woken_frame [OF k'(2)] by (simp add: sem_abs_def)
next
  case Nil
  let ?v = "sem_value (sems k i)"
  have d: "rt_sem_release i k = (if ?v < RT_SEM_VALUE_MAX then Some (RT_EOK, set_sem_value i (?v + 1) k)
                  else Some (- RT_EFULL, k))"
    using assms(2) Nil by (simp add: rt_sem_release_def assert_ipc_ok sem_ok_def Let_def)
  show ?thesis
  proof (cases "?v < RT_SEM_VALUE_MAX")
    case True
    then have "unat ?v < 65535" by (simp add: word_less_nat_alt)
    then have "unat (?v + 1) = Suc (unat ?v)" by (simp add: unat_word_ariths)
    then show ?thesis
      using d True assms(1,2) Nil \<open>unat ?v < 65535\<close> ipc_frame_set_sem_value by (simp add: sem_ok_def sem_abs_def)
  next
    case False
    then have "\<not> unat ?v < 65535" by (simp add: word_less_nat_alt)
    then show ?thesis
      using d False assms(1,2) Nil ipc_frame_refl by (simp add: sem_abs_def)
  qed
qed

section \<open>Properties\<close>

text \<open>
  C8. \<open>rt_sem_take\<close> by the running thread, with any time limit the timers accept: it returns
  or blocks exactly as the abstract semaphore says (a unit is taken if there is one;
  otherwise no waiting means \<open>-RT_ETIMEOUT\<close> and a time limit means joining the line in FIFO or
  priority order), and if it blocks the thread is suspended with its error cleared and
  its timer set to exactly the limit. The kernel stays consistent and nobody waits while
  there are units.
\<close>

theorem rt_sem_take_refines:
  assumes "kinv {} k" "sem_ok i k" "running k t" "interrupt_nest k = 0" "time_ok time"
  shows "\<exists>r k'. rt_sem_take_start i time k = Some (r, k') \<and> kinv {} k' \<and> sem_ok i k'
     \<and> (r, sem_abs i k') = sem_take_spec (enlist (ipc_flag i k) (\<lambda>s. current_priority (threads k s)) t)
           (time \<noteq> 0) (sem_abs i k)
     \<and> (if r = Blocked then blocked (SuspendQ i) t (ipc_flag i k) time (clear_error t k) k'
        else threads k' = threads k \<and> queues k' = queues k)"
  using sem_take_ok [OF assms] by blast

lemma ex_flag: "ipc_flag i ex_kernel = RT_IPC_FLAG_FIFO"
  by (simp add: ipc_flag_def)

lemma ex_sem: "sem_ok 0 ex_kernel"
  by (simp add: sem_ok_def ipc_object_ok_def ex_flag rt_object_get_type_def)

theorem rt_sem_take_refines_witness:
  "\<exists>r k'. rt_sem_take_start 0 5 ex_kernel = Some (r, k') \<and> r = Returned RT_EOK \<and> sem_abs 0 k' = (0, [])"
proof -
  have "time_ok 5" by (simp add: time_ok_def)
  moreover have "interrupt_nest ex_kernel = 0" "sem_abs 0 ex_kernel = (Suc 0, [])" by (simp_all add: sem_abs_def)
  ultimately show ?thesis
    using rt_sem_take_refines [OF ex_kinv ex_sem ex_running, of 5] by fastforce
qed

text \<open>
  C9. \<open>rt_sem_release\<close>: with a waiter in line the unit is handed to the first one, which is
  made ready with its timer stopped and its error unchanged; without, the value is
  incremented, or \<open>-RT_EFULL\<close> is returned at 65535 and nothing changes. This is the release of
  the abstract semaphore; the kernel stays consistent.
\<close>

theorem rt_sem_release_refines:
  assumes "kinv {} k" "sem_ok i k" "current_thread k = Some c"
  shows "\<exists>r k'. rt_sem_release i k = Some (r, k') \<and> kinv {} k' \<and> sem_ok i k'
     \<and> (r, sem_abs i k') = sem_release_spec 65535 (sem_abs i k)
     \<and> (\<forall>t ts. queues k (SuspendQ i) = t # ts \<longrightarrow> woken (SuspendQ i) t k k')"
  using sem_release_ok [OF assms] by blast

theorem rt_sem_release_refines_witness:
  "\<exists>k'. rt_sem_release 0 ex_kernel = Some (RT_EOK, k') \<and> sem_abs 0 k' = (2, [])"
proof -
  have "sem_abs 0 ex_kernel = (1, [])" by (simp add: sem_abs_def)
  then show ?thesis
    using rt_sem_release_refines [OF ex_kinv ex_sem, of 0] by fastforce
qed

section \<open>Taking a semaphore away\<close>

text \<open>
  \<open>rt_sem_detach\<close> of a static semaphore, however many threads wait on it: the loop over
  the waiters ends, every one of them is ready, has no timer running and gets \<open>-RT_ERROR\<close>
  from \<open>rt_sem_take\<close>, nobody else is touched, the object is gone and the kernel is
  consistent.
\<close>

theorem rt_sem_detach_wakes_all:
  assumes "kinv {} k" "sem_ok i k" "rt_object_is_systemobject (OIpc i) k"
  shows "\<exists>k'. rt_sem_detach i k = Some (RT_EOK, k') \<and> kinv {} k'
     \<and> queues k' (SuspendQ i) = [] \<and> rt_object_get_type (OIpc i) k' = 0
     \<and> (\<forall>s. if s \<in> set (queues k (SuspendQ i))
            then rt_sem_take_wake s k' = - RT_ERROR \<and> cancelled k' s
            else threads k' s = threads k s)"
proof -
  obtain k1 where k1: "rt_ipc_list_resume_all (SuspendQ i) k = Some k1" "all_woken (SuspendQ i) k k1"
    using resume_all_ok [OF assms(1)] by blast
  let ?k' = "rt_object_detach (OIpc i) k1"
  note a = all_wokenD [OF k1(2)]
  have e: "rt_sem_detach i k = Some (RT_EOK, ?k')"
    using assms(2,3) k1(1) by (simp add: rt_sem_detach_def assert_ipc_ok sem_ok_def)
  have w: "cancelled ?k' s = cancelled k1 s" "cancelled k1 s \<Longrightarrow> rt_sem_take_wake s ?k' = - RT_ERROR" for s
    by (simp_all add: cancelled_def rt_sem_take_wake_def tlists_rt_object_detach)
  have "kinv {} ?k'" "queues ?k' (SuspendQ i) = []" "rt_object_get_type (OIpc i) ?k' = 0"
    using a(1,4) by (simp_all add: kinv_rt_object_detach)
  moreover have "if s \<in> set (queues k (SuspendQ i)) then rt_sem_take_wake s ?k' = - RT_ERROR
          \<and> cancelled ?k' s else threads ?k' s = threads k s" for s
    using a(6) [of s] w by (simp split: if_splits)
  ultimately show ?thesis using e by blast
qed


text \<open>A thread that waits 5 ticks for a semaphore without units.\<close>

lemma ex_waiting:
  "\<exists>k. rt_sem_take_start 0 5 (set_sem_value 0 0 ex_kernel) = Some (Blocked, k) \<and> kinv {} k \<and> sem_ok 0 k
     \<and> kframe (set_sem_value 0 0 ex_kernel) k \<and> queues k (SuspendQ 0) = [0]"
proof -
  let ?k = "set_sem_value 0 0 ex_kernel"
  have "kinv {} ?k" "running ?k 0" using ex_kinv ex_running by (simp_all add: set_sem_value_def)
  moreover have "sem_ok 0 ?k" using ex_sem by (simp add: sem_ok_def)
  moreover have "interrupt_nest ?k = 0" "time_ok 5" by (simp_all add: set_sem_value_def time_ok_def)
  ultimately obtain k where k: "rt_sem_take_start 0 5 ?k = Some (Blocked, k)"
      "blocked (SuspendQ 0) 0 (ipc_flag 0 ?k) 5 (clear_error 0 ?k) k"
    using take_blocks [of ?k 0 0 5] by auto
  note b = blocked_clear [OF k(2)]
  have "sem_ok 0 k"
    using b(2) ipc_object_frame [OF b(2)] \<open>sem_ok 0 ?k\<close> by (simp add: sem_ok_def kframe_def)
  then show ?thesis
    using k(1) b(1-3) by (simp add: enlist_def ipc_flag_def)
qed

theorem rt_sem_detach_wakes_all_witness:
  "\<exists>k k'. rt_sem_take_start 0 5 (set_sem_value 0 0 ex_kernel) = Some (Blocked, k)
     \<and> rt_sem_detach 0 k = Some (RT_EOK, k') \<and> rt_sem_take_wake 0 k' = - RT_ERROR"
proof -
  obtain k where k: "rt_sem_take_start 0 5 (set_sem_value 0 0 ex_kernel) = Some (Blocked, k)"
      "kinv {} k" "sem_ok 0 k" "kframe (set_sem_value 0 0 ex_kernel) k" "queues k (SuspendQ 0) = [0]"
    using ex_waiting by blast
  have "rt_object_is_systemobject (OIpc 0) k"
    using kframe_static [OF k(4)] by (simp add: rt_object_is_systemobject_def)
  from rt_sem_detach_wakes_all [OF k(2,3) this] k(1,5) show ?thesis by fastforce
qed

end
