(* ===== verification/RT_Mutex.thy ===== *)
theory RT_Mutex
  imports RT_Ipc
begin

text \<open>
  Mutexes (\<open>src/ipc.c\<close>): recursive locks with priority inheritance. Initialisation,
  creation, detaching and deletion, take, release and control, and the proof that they
  implement an owner with a count and a waiting line.
\<close>

section \<open>Operations\<close>

definition upd_mutex :: "oid \<Rightarrow> (rt_mutex \<Rightarrow> rt_mutex) \<Rightarrow> kernel \<Rightarrow> kernel" where
  "upd_mutex i f k = k\<lparr>mutexes := (mutexes k)(i := f (mutexes k i))\<rparr>"

definition free_mutex :: rt_mutex where
  "free_mutex = \<lparr>mtx_value = 1, original_priority = 0xff, hold = 0, owner = None\<rparr>"

definition rt_mutex_init :: "oid \<Rightarrow> string \<Rightarrow> u8 \<Rightarrow> kernel \<Rightarrow> (rt_err_t \<times> kernel) option" where
  "rt_mutex_init i name flag k =
     do { k \<leftarrow> rt_object_init (OIpc i) RT_Object_Class_Mutex name k;
          let k = rt_ipc_object_init i k;
          let k = upd_mutex i (\<lambda>_. free_mutex) k;
          Some (RT_EOK, set_ipc_flag i flag k) }"

definition rt_mutex_detach :: "oid \<Rightarrow> kernel \<Rightarrow> (rt_err_t \<times> kernel) option" where
  "rt_mutex_detach i k =
     do { assert_ipc RT_Object_Class_Mutex i k;
          rt_assert (rt_object_is_systemobject (OIpc i) k);
          k \<leftarrow> rt_ipc_list_resume_all (SuspendQ i) k;
          Some (RT_EOK, rt_object_detach (OIpc i) k) }"

definition rt_mutex_create :: "oid option \<Rightarrow> string \<Rightarrow> u8 \<Rightarrow> kernel \<Rightarrow> (oid option \<times> kernel) option" where
  "rt_mutex_create mem name flag k =
     do { RT_DEBUG_NOT_IN_INTERRUPT k;
          (r, k) \<leftarrow> rt_object_allocate (map_option OIpc mem) RT_Object_Class_Mutex name k;
          case (r, mem) of
            (Some _, Some i) \<Rightarrow>
              let k = rt_ipc_object_init i k;
                  k = upd_mutex i (\<lambda>_. free_mutex) k
              in Some (Some i, set_ipc_flag i flag k)
          | _ \<Rightarrow> Some (None, k) }"

definition rt_mutex_delete :: "oid \<Rightarrow> kernel \<Rightarrow> (rt_err_t \<times> kernel) option" where
  "rt_mutex_delete i k =
     do { RT_DEBUG_NOT_IN_INTERRUPT k;
          assert_ipc RT_Object_Class_Mutex i k;
          rt_assert (\<not> rt_object_is_systemobject (OIpc i) k);
          k \<leftarrow> rt_ipc_list_resume_all (SuspendQ i) k;
          (_, k) \<leftarrow> rt_object_delete (OIpc i) k;
          Some (RT_EOK, k) }"

text \<open>\<open>RT_THREAD_CTRL_CHANGE_PRIORITY\<close> has no use for a clean-up function.\<close>

definition set_priority :: "tid \<Rightarrow> u8 \<Rightarrow> kernel \<Rightarrow> kernel option" where
  "set_priority t p k =
     do { (_, k) \<leftarrow> rt_thread_control (\<lambda>k. k) t (RT_THREAD_CTRL_CHANGE_PRIORITY p) k;
          Some k }"

text \<open>\<open>rt_mutex_take\<close>, up to the switch and after it. A mutex without value has an owner.\<close>

definition rt_mutex_take_start :: "oid \<Rightarrow> u32 \<Rightarrow> kernel \<Rightarrow> (ipc_result \<times> kernel) option" where
  "rt_mutex_take_start i time k =
     do { RT_DEBUG_IN_THREAD_CONTEXT k;
          assert_ipc RT_Object_Class_Mutex i k;
          t \<leftarrow> rt_thread_self k;
          let k = clear_error t k;
          let m = mutexes k i;
          if owner m = Some t
          then (if hold m < RT_MUTEX_HOLD_MAX
                then Some (Returned RT_EOK, upd_mutex i (\<lambda>m. m\<lparr>hold := hold m + 1\<rparr>) k)
                else Some (Returned (- RT_EFULL), k))
          else if mtx_value m > 0
          then (let k = upd_mutex i (\<lambda>m. m\<lparr>mtx_value := mtx_value m - 1, owner := Some t,
                            original_priority := current_priority (threads k t)\<rparr>) k
                in if hold m < RT_MUTEX_HOLD_MAX
                   then Some (Returned RT_EOK, upd_mutex i (\<lambda>m. m\<lparr>hold := hold m + 1\<rparr>) k)
                   else Some (Returned (- RT_EFULL), k))
          else if time = 0
          then Some (Returned (- RT_ETIMEOUT), upd_thread t (\<lambda>th. th\<lparr>error := - RT_ETIMEOUT\<rparr>) k)
          else do { own \<leftarrow> owner m;
                    k \<leftarrow> (if current_priority (threads k t) < current_priority (threads k own)
                         then set_priority own (current_priority (threads k t)) k else Some k);
                    k \<leftarrow> ipc_wait (SuspendQ i) t (ipc_flag i k) time k;
                    Some (Blocked, k) } }"

definition rt_mutex_take_wake :: "tid \<Rightarrow> kernel \<Rightarrow> rt_err_t" where
  "rt_mutex_take_wake t k =
     (if error (threads k t) \<noteq> RT_EOK then error (threads k t) else RT_EOK)"

text \<open>Handing the mutex to the first waiter; \<open>None\<close> is the branch that returns \<open>-RT_EFULL\<close>.\<close>

definition mutex_hand_over :: "oid \<Rightarrow> tid \<Rightarrow> kernel \<Rightarrow> (rt_err_t \<times> kernel) option" where
  "mutex_hand_over i w k =
     do { let k = upd_mutex i (\<lambda>m. m\<lparr>owner := Some w, original_priority := current_priority (threads k w)\<rparr>) k;
          let max_priority_in_queue = rt_ipc_get_highest_priority (SuspendQ i) k;
          k \<leftarrow> (if ipc_flag i k = RT_IPC_FLAG_FIFO \<and> current_priority (threads k w) \<noteq> max_priority_in_queue
               then set_priority w max_priority_in_queue k else Some k);
          if hold (mutexes k i) < RT_MUTEX_HOLD_MAX
          then do { let k = upd_mutex i (\<lambda>m. m\<lparr>hold := hold m + 1\<rparr>) k;
                    k \<leftarrow> rt_ipc_list_resume (SuspendQ i) k;
                    k \<leftarrow> rt_schedule k;
                    Some (RT_EOK, k) }
          else Some (- RT_EFULL, k) }"

definition rt_mutex_release :: "oid \<Rightarrow> kernel \<Rightarrow> (rt_err_t \<times> kernel) option" where
  "rt_mutex_release i k =
     do { assert_ipc RT_Object_Class_Mutex i k;
          RT_DEBUG_IN_THREAD_CONTEXT k;
          t \<leftarrow> rt_thread_self k;
          if owner (mutexes k i) \<noteq> Some t
          then Some (- RT_ERROR, upd_thread t (\<lambda>th. th\<lparr>error := - RT_ERROR\<rparr>) k)
          else do {
            let k = upd_mutex i (\<lambda>m. m\<lparr>hold := hold m - 1\<rparr>) k;
            let m = mutexes k i;
            if hold m \<noteq> 0 then Some (RT_EOK, k)
            else do {
              k \<leftarrow> (if original_priority m \<noteq> current_priority (threads k t)
                   then set_priority t (original_priority m) k else Some k);
              case queues k (SuspendQ i) of
                w # _ \<Rightarrow> mutex_hand_over i w k
              | [] \<Rightarrow> (if mtx_value (mutexes k i) < RT_MUTEX_VALUE_MAX
                      then Some (RT_EOK, upd_mutex i (\<lambda>m. m\<lparr>mtx_value := mtx_value m + 1,
                                   owner := None, original_priority := 0xff\<rparr>) k)
                      else Some (- RT_EFULL, k)) } } }"

definition rt_mutex_control :: "oid \<Rightarrow> nat \<Rightarrow> kernel \<Rightarrow> (rt_err_t \<times> kernel) option" where
  "rt_mutex_control i cmd k = do { assert_ipc RT_Object_Class_Mutex i k; Some (- RT_ERROR, k) }"


section \<open>A mutex in abstract terms\<close>

text \<open>The owner, how often it holds the mutex, and the line of waiters.\<close>

type_synonym mutex_spec = "tid option \<times> nat \<times> tid list"

fun mutex_take_spec :: "tid \<Rightarrow> (tid list \<Rightarrow> tid list) \<Rightarrow> bool \<Rightarrow> mutex_spec \<Rightarrow> ipc_result \<times> mutex_spec" where
  "mutex_take_spec t join wait (None, n, ts) = (Returned RT_EOK, (Some t, 1, ts))"
| "mutex_take_spec t join wait (Some q, n, ts) =
     (if q = t then (if n < 255 then (Returned RT_EOK, (Some q, Suc n, ts))
                     else (Returned (- RT_EFULL), (Some q, n, ts)))
      else if wait then (Blocked, (Some q, n, join ts))
      else (Returned (- RT_ETIMEOUT), (Some q, n, ts)))"

fun mutex_release_spec :: "tid \<Rightarrow> mutex_spec \<Rightarrow> rt_err_t \<times> mutex_spec" where
  "mutex_release_spec t (q, n, ts) =
     (if q \<noteq> Some t then (- RT_ERROR, (q, n, ts))
      else if n > 1 then (RT_EOK, (q, n - 1, ts))
      else case ts of w # ws \<Rightarrow> (RT_EOK, (Some w, 1, ws)) | [] \<Rightarrow> (RT_EOK, (None, 0, [])))"

definition mutex_abs :: "oid \<Rightarrow> kernel \<Rightarrow> mutex_spec" where
  "mutex_abs i k = (owner (mutexes k i), unat (hold (mutexes k i)), queues k (SuspendQ i))"

text \<open>Either the mutex is free and nobody waits, or it has a live owner that does not wait for
  it and a legal priority to go back to.\<close>

definition held_by :: "tid \<Rightarrow> rt_mutex \<Rightarrow> bool" where
  "held_by q m \<longleftrightarrow> owner m = Some q \<and> mtx_value m = 0 \<and> hold m \<noteq> 0
     \<and> unat (original_priority m) < RT_THREAD_PRIORITY_MAX"

definition mutex_ok :: "oid \<Rightarrow> kernel \<Rightarrow> bool" where
  "mutex_ok i k \<longleftrightarrow> ipc_object_ok RT_Object_Class_Mutex i k
     \<and> (mutexes k i = free_mutex \<and> queues k (SuspendQ i) = []
        \<or> (\<exists>q. held_by q (mutexes k i) \<and> live k q \<and> q \<notin> set (queues k (SuspendQ i))))"

lemma mutex_ok_cases:
  assumes "mutex_ok i k"
  obtains "mutexes k i = free_mutex" "queues k (SuspendQ i) = []" "mutex_abs i k = (None, 0, [])"
  | q where "owner (mutexes k i) = Some q" "mtx_value (mutexes k i) = 0" "hold (mutexes k i) \<noteq> 0"
      "unat (original_priority (mutexes k i)) < RT_THREAD_PRIORITY_MAX" "live k q"
      "q \<notin> set (queues k (SuspendQ i))" "held_by q (mutexes k i)"
      "mutex_abs i k = (Some q, unat (hold (mutexes k i)), queues k (SuspendQ i))"
  using assms by (auto simp: mutex_ok_def held_by_def mutex_abs_def free_mutex_def)

lemma upd_mutex_fields [simp]:
  "objs (upd_mutex i f k) = objs k" "threads (upd_mutex i f k) = threads k"
  "queues (upd_mutex i f k) = queues k" "current_thread (upd_mutex i f k) = current_thread k"
  "tlists (upd_mutex i f k) = tlists k" "timers (upd_mutex i f k) = timers k"
  "mutexes (upd_mutex i f k) j = (if j = i then f (mutexes k i) else mutexes k j)"
  "kinv X (upd_mutex i f k) = kinv X k" "running (upd_mutex i f k) t = running k t"
  "ipc_object_ok ty j (upd_mutex i f k) = ipc_object_ok ty j k" "live (upd_mutex i f k) = live k"
  "ipc_flag j (upd_mutex i f k) = ipc_flag j k"
  by (simp_all add: upd_mutex_def ipc_object_ok_def rt_object_get_type_def ipc_flag_def live_def fun_eq_iff)

section \<open>Priority inheritance\<close>

text \<open>The owner \<open>q\<close> gets the priority of the thread \<open>t\<close> if that is more urgent.\<close>

definition inherited :: "tid \<Rightarrow> tid \<Rightarrow> kernel \<Rightarrow> kernel" where
  "inherited t q k =
     (if current_priority (threads k t) < current_priority (threads k q)
      then reprioritised q (current_priority (threads k t)) k else k)"

lemma set_priority_ok:
  assumes "kinv {} k" "live k t" "unat p < RT_THREAD_PRIORITY_MAX"
  shows "set_priority t p k = Some (reprioritised t p k)"
  using rt_thread_control_priority(1) [OF assms, of "\<lambda>k. k"]
  by (simp add: set_priority_def del: rt_thread_control.simps)

lemma inherited_priority:
  "current_priority (threads (inherited t q k) s) =
     (if s = q then min (current_priority (threads k q)) (current_priority (threads k t))
      else current_priority (threads k s))"
  by (auto simp: inherited_def min_def)

lemma running_prio:
  assumes "kinv {} k" "running k t"
  shows "unat (current_priority (threads k t)) < RT_THREAD_PRIORITY_MAX"
  using lists_inv_prio [of "{}" k t] kinv_parts(1) [OF assms(1)] runningD [OF assms(2)]
  by (auto simp: sched_inv_def prio_ok_def)

lemma inherited_ok:
  assumes "kinv {} k" "running k t" "live k q" "q \<noteq> t"
  shows "(if current_priority (threads k t) < current_priority (threads k q)
          then set_priority q (current_priority (threads k t)) k else Some k) = Some (inherited t q k)"
    "kinv {} (inherited t q k)" "running (inherited t q k) t" "kframe k (inherited t q k)"
    "\<not> is_ready_queue h \<Longrightarrow> queues (inherited t q k) h = queues k h"
  using set_priority_ok [OF assms(1,3) running_prio [OF assms(1,2)]] assms
    rt_thread_control_priority(2) [OF assms(1,3) running_prio [OF assms(1,2)]]
    kframe_reprioritised kframe_refl reprioritised_wait_queue [OF assms(1), of h]
  by (auto simp: inherited_def running_def)

lemma insert_prio_cong:
  "(\<And>s. s \<in> insert t (set ts) \<Longrightarrow> f s = g s) \<Longrightarrow> insert_prio f t ts = insert_prio g t ts"
  by (induction ts) auto

lemma enlist_cong:
  "(\<And>s. s \<in> insert t (set ts) \<Longrightarrow> f s = g s) \<Longrightarrow> enlist flag f t ts = enlist flag g t ts"
  using insert_prio_cong [of t ts f g] by (simp add: enlist_def)


lemma ipc_frame_reprioritised:
  assumes "kinv {} k"
  shows "ipc_frame i X k (reprioritised t p k)"
proof (rule ipc_frame_kframe [OF kframe_reprioritised])
  show "timing X k (reprioritised t p k)"
    by (rule timing_same) (use kframe_reprioritised [of k t p] reprioritised_tstate [OF assms] in
        \<open>simp_all add: kframe_def asleep_def\<close>)
qed (simp_all add: reprioritised_wait_queue [OF assms])

lemma ipc_frame_inherited: "kinv {} k \<Longrightarrow> ipc_frame i X k (inherited t q k)"
  by (simp add: inherited_def ipc_frame_reprioritised ipc_frame_refl)

lemma ipc_frame_upd_mutex: "ipc_frame i X k (upd_mutex i f k)"
  using ipc_frame_tables(2) by (simp add: upd_mutex_def)

section \<open>Taking\<close>

lemma take_start_eq:
  assumes "mutex_ok i k" "running k t" "interrupt_nest k = 0"
  shows "rt_mutex_take_start i time k =
    (let k = clear_error t k; m = mutexes k i
     in if owner m = Some t
          then (if hold m < RT_MUTEX_HOLD_MAX
                then Some (Returned RT_EOK, upd_mutex i (\<lambda>m. m\<lparr>hold := hold m + 1\<rparr>) k)
                else Some (Returned (- RT_EFULL), k))
          else if mtx_value m > 0
          then (let k = upd_mutex i (\<lambda>m. m\<lparr>mtx_value := mtx_value m - 1, owner := Some t,
                            original_priority := current_priority (threads k t)\<rparr>) k
                in if hold m < RT_MUTEX_HOLD_MAX
                   then Some (Returned RT_EOK, upd_mutex i (\<lambda>m. m\<lparr>hold := hold m + 1\<rparr>) k)
                   else Some (Returned (- RT_EFULL), k))
          else if time = 0
          then Some (Returned (- RT_ETIMEOUT), upd_thread t (\<lambda>th. th\<lparr>error := - RT_ETIMEOUT\<rparr>) k)
          else do { own \<leftarrow> owner m;
                    k \<leftarrow> (if current_priority (threads k t) < current_priority (threads k own)
                         then set_priority own (current_priority (threads k t)) k else Some k);
                    k \<leftarrow> ipc_wait (SuspendQ i) t (ipc_flag i k) time k;
                    Some (Blocked, k) })"
  using assms in_thread_context [OF assms(2,3)]
  by (simp add: rt_mutex_take_start_def assert_ipc_ok mutex_ok_def rt_thread_self_def running_def Let_def)

lemma mutex_ok_queue:
  assumes "mutex_ok i k" "kframe k k'" "mutexes k' i = mutexes k i" "queues k' (SuspendQ i) = ts"
    and "\<And>q. owner (mutexes k i) = Some q \<Longrightarrow> q \<notin> set ts"
    and "owner (mutexes k i) = None \<Longrightarrow> ts = []"
  shows "mutex_ok i k'"
  using assms ipc_object_frame [OF assms(2)] kframe_live [OF assms(2)]
  by (auto simp: mutex_ok_def held_by_def free_mutex_def)

lemma mutex_take_blocks:
  assumes inv: "kinv {} k" and ok: "mutex_ok i k" and run: "running k t" and nest: "interrupt_nest k = 0"
    and tm: "time_ok time" "time \<noteq> 0" and own: "owner (mutexes k i) = Some q" "q \<noteq> t"
  shows "\<exists>k'. rt_mutex_take_start i time k = Some (Blocked, k')
     \<and> blocked (SuspendQ i) t (ipc_flag i k) time (inherited t q (clear_error t k)) k'"
proof -
  note c = clear_error_ok [OF inv run]
  have m: "mtx_value (mutexes k i) = 0" "live k q"
    using ok own by (auto simp: mutex_ok_def held_by_def free_mutex_def)
  then have "live (clear_error t k) q" by (simp add: clear_error_def)
  note h = inherited_ok [OF c this own(2)]
  have fl: "ipc_flag i (inherited t q (clear_error t k)) = ipc_flag i k"
    using h(4) by (simp add: kframe_def ipc_flag_def clear_error_def)
  have f: "ipc_flag i k = RT_IPC_FLAG_FIFO \<or> ipc_flag i k = RT_IPC_FLAG_PRIO"
    using ok by (simp add: mutex_ok_def ipc_object_ok_def)
  obtain k' where k': "ipc_wait (SuspendQ i) t (ipc_flag i k) time (inherited t q (clear_error t k)) = Some k'"
      "blocked (SuspendQ i) t (ipc_flag i k) time (inherited t q (clear_error t k)) k'"
    using wait_ok [OF h(2,3) _ f tm(1), of "SuspendQ i" i] by auto
  have "rt_mutex_take_start i time k = Some (Blocked, k')"
    using h(1) k'(1) m own tm(2) fl by (simp add: take_start_eq [OF ok run nest] Let_def)
  then show ?thesis using k'(2) by blast
qed

text \<open>The waiting line after blocking, in terms of the priorities before.\<close>

lemma blocked_line:
  assumes inv: "kinv {} k" and ok: "mutex_ok i k" and run: "running k t"
    and own: "owner (mutexes k i) = Some q" "q \<noteq> t"
    and b: "blocked (SuspendQ i) t flag time (inherited t q (clear_error t k)) k'"
  shows "kinv {} k'" "kframe k k'"
    "queues k' (SuspendQ i) = enlist flag (\<lambda>s. current_priority (threads k s)) t (queues k (SuspendQ i))"
    "current_priority (threads k' s) = (if s = q then min (current_priority (threads k q)) (current_priority (threads k t))
        else current_priority (threads k s))"
    "error (threads k' t) = RT_EOK" "ipc_frame i {t} k k'"
proof -
  let ?k1 = "inherited t q (clear_error t k)"
  note c = clear_error_ok [OF inv run]
  have nq: "q \<notin> set (queues k (SuspendQ i))" and lq: "live k q"
    using ok own by (auto simp: mutex_ok_def held_by_def free_mutex_def)
  have "live (clear_error t k) q" using lq by (simp add: clear_error_def)
  note h = inherited_ok [OF c this own(2)]
  have q1: "queues ?k1 (SuspendQ i) = queues k (SuspendQ i)" using h(5) [of "SuspendQ i"] by simp
  have p0: "current_priority (threads (clear_error t k) s) = current_priority (threads k s)" for s
    by (simp add: clear_error_def)
  have e: "enlist flag (\<lambda>s. current_priority (threads ?k1 s)) t (queues k (SuspendQ i))
      = enlist flag (\<lambda>s. current_priority (threads k s)) t (queues k (SuspendQ i))"
    using nq own(2) by (intro enlist_cong) (auto simp: inherited_priority p0)
  show "kinv {} k'" using b by (simp add: blocked_def)
  have "kframe ?k1 k'" using b by (simp add: blocked_def)
  then show "kframe k k'" using kframe_trans [OF kframe_clear_error] kframe_trans [OF h(4)] by blast
  show "queues k' (SuspendQ i) = enlist flag (\<lambda>s. current_priority (threads k s)) t (queues k (SuspendQ i))"
    using b e q1 by (simp add: blocked_def)
  have b2: "current_priority (threads k' s) = current_priority (threads ?k1 s)"
      "error (threads k' s) = error (threads ?k1 s)" for s
    using b unfolding blocked_def by blast+
  show "current_priority (threads k' s) = (if s = q then min (current_priority (threads k q))
        (current_priority (threads k t)) else current_priority (threads k s))"
    unfolding b2 inherited_priority p0 ..
  show "error (threads k' t) = RT_EOK"
    using b2(2) own(2) by (simp add: inherited_def clear_error_def)
  show "ipc_frame i {t} k k'"
    using ipc_frame_trans [OF ipc_frame_trans [OF ipc_frame_clear_error ipc_frame_inherited] blocked_frame [OF b]] c(1)
    by simp
qed

lemma take_free:
  assumes "kinv {} k" "mutex_ok i k" "running k t" "interrupt_nest k = 0" "owner (mutexes k i) = None"
  defines "k' \<equiv> upd_mutex i (\<lambda>_. \<lparr>mtx_value = 0, original_priority = current_priority (threads k t),
      hold = 1, owner = Some t\<rparr>) (clear_error t k)"
  shows "rt_mutex_take_start i time k = Some (Returned RT_EOK, k')" "kinv {} k'" "mutex_ok i k'"
    "mutex_abs i k' = (Some t, 1, [])" "mutex_abs i k = (None, 0, [])" "ipc_frame i {t} k k'"
proof -
  have f: "mutexes k i = free_mutex" "queues k (SuspendQ i) = []" "mutex_abs i k = (None, 0, [])"
    using assms(2,5) by (auto elim: mutex_ok_cases)
  note c = clear_error_ok [OF assms(1,3)]
  have "upd_mutex i (\<lambda>m. m\<lparr>hold := hold m + 1\<rparr>) (upd_mutex i (\<lambda>m. m\<lparr>mtx_value := mtx_value m - 1,
          owner := Some t, original_priority := current_priority (threads (clear_error t k) t)\<rparr>) (clear_error t k)) = k'"
    using f(1) by (simp add: k'_def upd_mutex_def free_mutex_def clear_error_def upd_thread_def)
  then show "rt_mutex_take_start i time k = Some (Returned RT_EOK, k')"
    using f(1) by (simp add: take_start_eq [OF assms(2-4)] Let_def free_mutex_def)
  show "kinv {} k'" using c(1) by (simp add: k'_def)
  have "ipc_object_ok RT_Object_Class_Mutex i (clear_error t k)"
    using assms(2) ipc_object_frame [OF kframe_clear_error] by (simp add: mutex_ok_def)
  moreover have "live k' t" using runningD(2) [OF c(2)] by (simp add: k'_def)
  moreover have "held_by t (mutexes k' i)"
    using running_prio [OF assms(1,3)] by (simp add: k'_def held_by_def)
  ultimately show "mutex_ok i k'" using f(2) by (auto simp: mutex_ok_def k'_def)
  show "mutex_abs i k' = (Some t, 1, [])" using f(2) by (simp add: mutex_abs_def k'_def)
  show "mutex_abs i k = (None, 0, [])" by (rule f(3))
  show "ipc_frame i {t} k k'"
    unfolding k'_def by (rule ipc_frame_trans [OF ipc_frame_clear_error ipc_frame_upd_mutex])
qed

lemma take_again:
  assumes "kinv {} k" "mutex_ok i k" "running k t" "interrupt_nest k = 0" "owner (mutexes k i) = Some t"
  defines "n \<equiv> hold (mutexes k i)"
  defines "k' \<equiv> if n < 0xff then upd_mutex i (\<lambda>m. m\<lparr>hold := n + 1\<rparr>) (clear_error t k) else clear_error t k"
  shows "rt_mutex_take_start i time k = Some (Returned (if n < 0xff then RT_EOK else - RT_EFULL), k')"
    "kinv {} k'" "mutex_ok i k'" "original_priority (mutexes k' i) = original_priority (mutexes k i)"
    "mutex_abs i k' = (Some t, (if unat n < 255 then Suc (unat n) else unat n), queues k (SuspendQ i))"
    "ipc_frame i {t} k k'"
proof -
  note c = clear_error_ok [OF assms(1,3)]
  have u: "upd_mutex i (\<lambda>m. m\<lparr>hold := hold m + 1\<rparr>) (clear_error t k)
      = upd_mutex i (\<lambda>m. m\<lparr>hold := n + 1\<rparr>) (clear_error t k)"
    by (simp add: upd_mutex_def n_def)
  show "rt_mutex_take_start i time k = Some (Returned (if n < 0xff then RT_EOK else - RT_EFULL), k')"
    using assms(5) u by (simp add: take_start_eq [OF assms(2-4)] Let_def k'_def n_def)
  show "kinv {} k'" using c(1) by (simp add: k'_def)
  have n: "n < 0xff \<longleftrightarrow> unat n < 255" by (simp add: word_less_nat_alt)
  have s: "unat (n + 1) = Suc (unat n)" if "unat n < 255"
    using that by (simp add: unat_word_ariths)
  then have nz: "n < 0xff \<Longrightarrow> n + 1 \<noteq> 0" using n by (metis unat_0 nat.distinct(1))
  have ok: "ipc_object_ok RT_Object_Class_Mutex i (clear_error t k)"
    using assms(2) ipc_object_frame [OF kframe_clear_error] by (simp add: mutex_ok_def)
  have lv: "live (clear_error t k) = live k" by (simp add: clear_error_def)
  have h: "held_by t (mutexes k i)" "live k t" "t \<notin> set (queues k (SuspendQ i))"
    using assms(2,5) by (auto simp: mutex_ok_def held_by_def free_mutex_def)
  then have "held_by t (mutexes k' i)" using nz by (simp add: held_by_def k'_def n_def)
  then show "mutex_ok i k'" using h(2,3) ok lv by (auto simp: mutex_ok_def k'_def)
  show "original_priority (mutexes k' i) = original_priority (mutexes k i)" by (simp add: k'_def)
  show "mutex_abs i k' = (Some t, (if unat n < 255 then Suc (unat n) else unat n), queues k (SuspendQ i))"
    using assms(5) s n by (simp add: mutex_abs_def k'_def n_def)
  show "ipc_frame i {t} k k'"
    unfolding k'_def using ipc_frame_clear_error ipc_frame_trans [OF ipc_frame_clear_error ipc_frame_upd_mutex] by simp
qed

lemma mutex_take_ok:
  assumes "kinv {} k" "mutex_ok i k" "running k t" "interrupt_nest k = 0" "time_ok time"
  shows "\<exists>r k'. rt_mutex_take_start i time k = Some (r, k') \<and> kinv {} k' \<and> mutex_ok i k'
     \<and> (r, mutex_abs i k') = mutex_take_spec t
           (enlist (ipc_flag i k) (\<lambda>s. current_priority (threads k s)) t) (time \<noteq> 0) (mutex_abs i k)
     \<and> original_priority (mutexes k' i) = (if owner (mutexes k i) = None then current_priority (threads k t)
           else original_priority (mutexes k i))
     \<and> (\<forall>s. current_priority (threads k' s) = (if r = Blocked \<and> owner (mutexes k i) = Some s
           then min (current_priority (threads k s)) (current_priority (threads k t))
           else current_priority (threads k s)))
     \<and> (r = Blocked \<longrightarrow> tstate (threads k' t) = RT_THREAD_SUSPEND) \<and> ipc_frame i {t} k k'"
proof -
  have cp: "current_priority (threads (clear_error t k) s) = current_priority (threads k s)" for s
    by (simp add: clear_error_def)
  show ?thesis
  proof (cases "owner (mutexes k i)")
    case None
    note t = take_free [OF assms(1-4) None]
    show ?thesis using t None cp by (intro exI conjI) (rule t(1), simp_all)
  next
    case (Some q)
    have a: "mutex_abs i k = (Some q, unat (hold (mutexes k i)), queues k (SuspendQ i))"
      using Some by (simp add: mutex_abs_def)
    consider "q = t" | "q \<noteq> t" "time = 0" | "q \<noteq> t" "time \<noteq> 0" by blast
    then show ?thesis
    proof cases
      case 1
      note t = take_again [OF assms(1-4) Some [unfolded 1]]
      have "hold (mutexes k i) < 0xff \<longleftrightarrow> unat (hold (mutexes k i)) < 255" by (simp add: word_less_nat_alt)
      then show ?thesis
        using t a 1 Some cp by (intro exI conjI) (rule t(1), auto)
    next
      case 2
      let ?k' = "upd_thread t (\<lambda>th. th\<lparr>error := - RT_ETIMEOUT\<rparr>) (clear_error t k)"
      have k': "kinv {} ?k'" using clear_error_ok(1) [OF assms(1,3)] by (intro upd_thread_kinv) simp_all
      have fr: "kframe k ?k'" by (rule kframe_trans [OF kframe_clear_error kframe_upd_thread])
      have ok': "mutex_ok i ?k'"
        using assms(2) a Some by (intro mutex_ok_queue [OF assms(2) fr]) (auto simp: mutex_ok_def held_by_def free_mutex_def)
      have "mtx_value (mutexes k i) = 0"
        using assms(2) Some by (auto simp: mutex_ok_def held_by_def free_mutex_def)
      then have "rt_mutex_take_start i time k = Some (Returned (- RT_ETIMEOUT), ?k')"
        using 2 Some by (simp add: take_start_eq [OF assms(2-4)] Let_def)
      moreover have "ipc_frame i {t} k ?k'"
        by (rule ipc_frame_trans [OF ipc_frame_clear_error ipc_frame_upd_thread]) simp_all
      ultimately show ?thesis using 2 a Some k' ok' cp by (simp add: mutex_abs_def)
    next
      case 3
      obtain k' where k': "rt_mutex_take_start i time k = Some (Blocked, k')"
          "blocked (SuspendQ i) t (ipc_flag i k) time (inherited t q (clear_error t k)) k'"
        using mutex_take_blocks [OF assms 3(2) Some 3(1)] by blast
      note b = blocked_line [OF assms(1-3) Some 3(1) k'(2)]
      have mu: "mutexes k' = mutexes k" using b(2) by (simp add: kframe_def)
      have "q \<notin> set (queues k (SuspendQ i))"
        using assms(2) Some by (auto simp: mutex_ok_def held_by_def free_mutex_def)
      then have "mutex_ok i k'"
        using mu 3(1) Some b(3) by (intro mutex_ok_queue [OF assms(2) b(2) _ b(3)]) auto
      moreover have "tstate (threads k' t) = RT_THREAD_SUSPEND" using k'(2) by (simp add: blocked_def)
      ultimately show ?thesis
        using k'(1) b(1) b(3) mu a Some 3 b(4,6) by (simp add: mutex_abs_def)
    qed
  qed
qed

section \<open>Releasing\<close>

lemma highest_priority_Min: "highest_priority p f ts = Min (insert p (f ` set ts))"
proof (induction ts arbitrary: p)
  case (Cons t ts)
  have "highest_priority p f (t # ts) = Min (insert (min p (f t)) (f ` set ts))"
    using Cons by (simp add: min_def) (metis less_le_not_le order.order_iff_strict not_le)
  also have "\<dots> = Min (insert p (f ` set (t # ts)))"
    by (cases "f ` set ts = {}") (simp_all add: Min_insert min.assoc)
  finally show ?case .
qed simp

lemma waiter_prio:
  assumes "kinv {} k" "t \<in> set (queues k h)" "h = SuspendQ i \<or> h = SenderQ i"
  shows "unat (current_priority (threads k t)) < RT_THREAD_PRIORITY_MAX"
  using lists_inv_prio [of "{}" k t] kinv_parts(1) [OF assms(1)] waiter_suspended [OF assms]
  by (auto simp: sched_inv_def prio_ok_def)

text \<open>The most urgent priority among the waiters.\<close>

lemma highest_waiter:
  assumes inv: "kinv {} k" and ne: "queues k (SuspendQ i) = w # ws"
  shows "rt_ipc_get_highest_priority (SuspendQ i) k = Min ((\<lambda>s. current_priority (threads k s)) ` set (w # ws))"
    (is "_ = Min ?P") and "unat (rt_ipc_get_highest_priority (SuspendQ i) k) < RT_THREAD_PRIORITY_MAX"
proof -
  have "p \<le> 31" if p: "p \<in> ?P" for p
  proof -
    obtain t where t: "t \<in> set (queues k (SuspendQ i))" "p = current_priority (threads k t)"
      using p unfolding ne [symmetric] by blast
    then have "unat p < 32" using waiter_prio [OF inv t(1), of i] by simp
    then show ?thesis by (simp add: word_le_nat_alt)
  qed
  moreover have "Min ?P \<in> ?P" by (rule Min_in) simp_all
  ultimately have m: "Min ?P \<le> 31" by blast
  then have "Min (insert 31 ?P) = Min ?P" by (simp add: Min_insert min_absorb2)
  then show e: "rt_ipc_get_highest_priority (SuspendQ i) k = Min ?P"
    by (simp add: rt_ipc_get_highest_priority_def highest_priority_Min ne)
  show "unat (rt_ipc_get_highest_priority (SuspendQ i) k) < RT_THREAD_PRIORITY_MAX"
    using m unfolding e by (simp add: word_le_nat_alt)
qed

text \<open>The priority with which the first waiter takes over: in FIFO order it inherits from
  those behind it.\<close>

definition heir_priority :: "u8 \<Rightarrow> (tid \<Rightarrow> u8) \<Rightarrow> tid list \<Rightarrow> u8" where
  "heir_priority flag prio ts = (if flag = RT_IPC_FLAG_FIFO then Min (prio ` set ts) else prio (hd ts))"

lemma hand_over_ok:
  assumes inv: "kinv {} k" and cur: "current_thread k = Some c" and ne: "queues k (SuspendQ i) = w # ws"
    and hold: "hold (mutexes k i) = 0"
  defines "prio \<equiv> \<lambda>s. current_priority (threads k s)"
  shows "\<exists>k'. mutex_hand_over i w k = Some (RT_EOK, k') \<and> kinv {} k'
     \<and> mutexes k' i = (mutexes k i)\<lparr>owner := Some w, original_priority := prio w, hold := 1\<rparr>
     \<and> queues k' (SuspendQ i) = ws \<and> live k' = live k \<and> ipc_frame i X k k'
     \<and> ipc_object_ok ty i k' = ipc_object_ok ty i k
     \<and> tstate (threads k' w) \<in> {RT_THREAD_READY, RT_THREAD_RUNNING}
     \<and> ThreadTimer w \<notin> set (tlists k' HardList)
     \<and> (\<forall>s. error (threads k' s) = error (threads k s)
          \<and> current_priority (threads k' s) = (if s = w then heir_priority (ipc_flag i k) prio (w # ws) else prio s))"
proof -
  let ?k1 = "upd_mutex i (\<lambda>m. m\<lparr>owner := Some w, original_priority := current_priority (threads k w)\<rparr>) k"
  let ?mx = "rt_ipc_get_highest_priority (SuspendQ i) k"
  let ?k2 = "if ipc_flag i k = RT_IPC_FLAG_FIFO \<and> prio w \<noteq> ?mx then reprioritised w ?mx ?k1 else ?k1"
  let ?k3 = "upd_mutex i (\<lambda>m. m\<lparr>hold := hold m + 1\<rparr>) ?k2"
  have mx: "?mx = Min (prio ` set (w # ws))" "unat ?mx < RT_THREAD_PRIORITY_MAX"
    using highest_waiter [OF inv ne] by (simp_all add: prio_def)
  have mx1: "rt_ipc_get_highest_priority (SuspendQ i) ?k1 = ?mx" by (simp add: rt_ipc_get_highest_priority_def)
  have w: "live k w" "tstate (threads k w) = RT_THREAD_SUSPEND"
    using waiter_suspended [OF inv, of w "SuspendQ i" i] ne by simp_all
  have k1: "kinv {} ?k1" "live ?k1 w" using inv w(1) by simp_all
  note sp = set_priority_ok [OF k1 mx(2)] rt_thread_control_priority(2) [OF k1 mx(2)]
  have k2: "kinv {} ?k2" using sp(2) inv by simp
  have q2: "queues ?k2 (SuspendQ i) = w # ws"
    using reprioritised_wait_queue [OF k1(1), of "SuspendQ i" w ?mx] ne by simp
  have c2: "current_thread ?k2 = Some c" using cur by simp
  have m2: "mutexes ?k2 i = mutexes ?k1 i" by simp
  have k3: "kinv {} ?k3" "queues ?k3 (SuspendQ i) = w # ws" "current_thread ?k3 = Some c"
    using k2 q2 c2 by (simp_all split del: if_split)
  have r: "rt_ipc_list_resume (SuspendQ i) ?k3 = Some (resumed w ?k3)"
    by (rule resume_first(1) [OF k3(1) _ k3(2)]) simp
  obtain k' where k': "rt_schedule (resumed w ?k3) = Some k'" "woken (SuspendQ i) w ?k3 k'"
    using resume_schedule [OF k3(1) _ k3(2,3), of i] by auto
  have eq: "mutex_hand_over i w k = Some (RT_EOK, k')"
    using hold sp(1) r k'(1) by (auto simp: mutex_hand_over_def mx1 prio_def Let_def)
  have fr: "kframe ?k3 k'" using k'(2) by (simp add: woken_def)
  have p3: "current_priority (threads ?k3 s) = (if s = w then heir_priority (ipc_flag i k) prio (w # ws) else prio s)"
    "error (threads ?k3 s) = error (threads k s)" for s
    using mx(1) by (auto simp: heir_priority_def prio_def)
  have o3: "objs ?k3 = objs k" by simp
  have wk: "kinv {} k'" "queues k' (SuspendQ i) = ws" "tstate (threads k' w) \<in> {RT_THREAD_READY, RT_THREAD_RUNNING}"
    "ThreadTimer w \<notin> set (tlists k' HardList)"
    and wp: "error (threads k' s) = error (threads ?k3 s)"
      "current_priority (threads k' s) = current_priority (threads ?k3 s)" for s
    using k'(2) k3(2) unfolding woken_def by (simp_all del: upd_mutex_fields)
  have "mutexes k' i = mutexes ?k3 i" using fr by (simp add: kframe_def)
  also have "\<dots> = (mutexes k i)\<lparr>owner := Some w, original_priority := prio w, hold := 1\<rparr>"
    using hold by (simp add: prio_def)
  finally have m: "mutexes k' i = (mutexes k i)\<lparr>owner := Some w, original_priority := prio w, hold := 1\<rparr>" .
  have "live ?k3 = live k" by simp
  then have l: "live k' = live k" using kframe_live [OF fr] by simp
  have io: "ipc_object_ok ty i k' = ipc_object_ok ty i k"
    using ipc_object_frame [OF fr] by (simp add: ipc_object_ok_def rt_object_get_type_def ipc_flag_def o3)
  have "ipc_frame i X k ?k2"
    using ipc_frame_trans [OF ipc_frame_upd_mutex ipc_frame_reprioritised [OF k1(1)]] ipc_frame_upd_mutex by simp
  then have "ipc_frame i X k k'"
    using ipc_frame_trans [OF ipc_frame_trans [OF _ ipc_frame_upd_mutex] woken_frame [OF k'(2)]] by simp
  then show ?thesis
    using eq wk m l io wp p3 by (intro exI [of _ k']) (simp split del: if_split)
qed


text \<open>The owner going back to the priority it had when it took the mutex.\<close>

definition restored :: "tid \<Rightarrow> u8 \<Rightarrow> kernel \<Rightarrow> kernel" where
  "restored t p k = (if p \<noteq> current_priority (threads k t) then reprioritised t p k else k)"

lemma restored_ok:
  assumes "kinv {} k" "running k t" "unat p < RT_THREAD_PRIORITY_MAX"
  shows "(if p \<noteq> current_priority (threads k t) then set_priority t p k else Some k) = Some (restored t p k)"
    "kinv {} (restored t p k)" "current_thread (restored t p k) = Some t" "kframe k (restored t p k)"
    "queues (restored t p k) = queues k" "live (restored t p k) = live k" "mutexes (restored t p k) = mutexes k"
    "current_priority (threads (restored t p k) s) = (if s = t then p else current_priority (threads k s))"
    "error (threads (restored t p k) s) = error (threads k s)"
  using set_priority_ok [OF assms(1) runningD(2) [OF assms(2)] assms(3)] runningD [OF assms(2)] assms(1)
    rt_thread_control_priority(2) [OF assms(1) runningD(2) [OF assms(2)] assms(3)]
    kframe_reprioritised kframe_refl
  by (auto simp: restored_def reprioritised_queues)

lemma ipc_frame_restored: "kinv {} k \<Longrightarrow> ipc_frame i X k (restored t p k)"
  by (simp add: restored_def ipc_frame_reprioritised ipc_frame_refl)

lemma heir_priority_cong:
  "ts \<noteq> [] \<Longrightarrow> (\<And>s. s \<in> set ts \<Longrightarrow> f s = g s) \<Longrightarrow> heir_priority flag f ts = heir_priority flag g ts"
  by (simp add: heir_priority_def cong: image_cong)

lemma ipc_flag_frame: "kframe k k' \<Longrightarrow> ipc_flag i k' = ipc_flag i k"
  by (simp add: ipc_flag_def kframe_def)

text \<open>The last release, in the state after the count has gone to zero.\<close>

definition last_release :: "oid \<Rightarrow> tid \<Rightarrow> kernel \<Rightarrow> (rt_err_t \<times> kernel) option" where
  "last_release i t k =
     do { k \<leftarrow> (if original_priority (mutexes k i) \<noteq> current_priority (threads k t)
               then set_priority t (original_priority (mutexes k i)) k else Some k);
          case queues k (SuspendQ i) of
            w # _ \<Rightarrow> mutex_hand_over i w k
          | [] \<Rightarrow> (if mtx_value (mutexes k i) < RT_MUTEX_VALUE_MAX
                  then Some (RT_EOK, upd_mutex i (\<lambda>m. m\<lparr>mtx_value := mtx_value m + 1,
                               owner := None, original_priority := 0xff\<rparr>) k)
                  else Some (- RT_EFULL, k)) }"

lemma rt_mutex_release_eq:
  assumes "mutex_ok i k" "running k t" "interrupt_nest k = 0"
  shows "rt_mutex_release i k =
    (if owner (mutexes k i) \<noteq> Some t
     then Some (- RT_ERROR, upd_thread t (\<lambda>th. th\<lparr>error := - RT_ERROR\<rparr>) k)
     else let k = upd_mutex i (\<lambda>m. m\<lparr>hold := hold m - 1\<rparr>) k
          in if hold (mutexes k i) \<noteq> 0 then Some (RT_EOK, k) else last_release i t k)"
  using assms in_thread_context [OF assms(2,3)]
  by (simp add: rt_mutex_release_def assert_ipc_ok mutex_ok_def rt_thread_self_def running_def Let_def
      last_release_def)

lemma last_release_free:
  assumes inv: "kinv {} k" and run: "running k t" and io: "ipc_object_ok RT_Object_Class_Mutex i k"
    and m: "held_by t ((mutexes k i)\<lparr>hold := 1\<rparr>)" "hold (mutexes k i) = 0" and q: "queues k (SuspendQ i) = []"
  shows "\<exists>k'. last_release i t k = Some (RT_EOK, k') \<and> kinv {} k' \<and> mutex_ok i k'
     \<and> mutex_abs i k' = (None, 0, []) \<and> ipc_frame i X k k'
     \<and> (\<forall>s. current_priority (threads k' s) =
            (if s = t then original_priority (mutexes k i) else current_priority (threads k s)))"
proof -
  let ?p = "original_priority (mutexes k i)"
  have p: "unat ?p < RT_THREAD_PRIORITY_MAX" using m(1) by (simp add: held_by_def)
  note r = restored_ok [OF inv run p]
  let ?k' = "upd_mutex i (\<lambda>m. m\<lparr>mtx_value := mtx_value m + 1, owner := None, original_priority := 0xff\<rparr>) (restored t ?p k)"
  have "last_release i t k = Some (RT_EOK, ?k')"
    using m q r(1,5,7) by (simp add: last_release_def held_by_def)
  moreover have "mutexes ?k' i = free_mutex"
    using m r(7) by (cases "mutexes k i") (simp add: held_by_def free_mutex_def)
  moreover from this have "mutex_ok i ?k'"
    using q r(5) io ipc_object_frame [OF r(4)] by (simp add: mutex_ok_def)
  moreover have "ipc_frame i X k ?k'"
    using ipc_frame_trans [OF ipc_frame_restored [OF inv] ipc_frame_upd_mutex] .
  ultimately show ?thesis
    using r(2,5,8) q by (intro exI [of _ ?k']) (simp add: mutex_abs_def free_mutex_def)
qed

lemma last_release_hand_over:
  assumes inv: "kinv {} k" and run: "running k t" and io: "ipc_object_ok RT_Object_Class_Mutex i k"
    and m: "held_by t ((mutexes k i)\<lparr>hold := 1\<rparr>)" "hold (mutexes k i) = 0"
    and q: "queues k (SuspendQ i) = w # ws" and nt: "t \<notin> set (w # ws)"
  shows "\<exists>k'. last_release i t k = Some (RT_EOK, k') \<and> kinv {} k' \<and> mutex_ok i k'
     \<and> mutex_abs i k' = (Some w, 1, ws) \<and> ipc_frame i X k k'
     \<and> original_priority (mutexes k' i) = current_priority (threads k w)
     \<and> tstate (threads k' w) \<in> {RT_THREAD_READY, RT_THREAD_RUNNING}
     \<and> ThreadTimer w \<notin> set (tlists k' HardList) \<and> error (threads k' w) = error (threads k w)
     \<and> (\<forall>s. current_priority (threads k' s) =
            (if s = t then original_priority (mutexes k i)
             else if s = w then heir_priority (ipc_flag i k) (\<lambda>s. current_priority (threads k s)) (w # ws)
             else current_priority (threads k s)))"
proof -
  let ?p = "original_priority (mutexes k i)"
  have p: "unat ?p < RT_THREAD_PRIORITY_MAX" using m(1) by (simp add: held_by_def)
  note r = restored_ok [OF inv run p]
  let ?k1 = "restored t ?p k"
  have q1: "queues ?k1 (SuspendQ i) = w # ws" "hold (mutexes ?k1 i) = 0" using r(5,7) q m(2) by simp_all
  from hand_over_ok [OF r(2,3) q1, where ty = RT_Object_Class_Mutex and X = X] obtain k' where k':
    "mutex_hand_over i w ?k1 = Some (RT_EOK, k')" "kinv {} k'"
    "mutexes k' i = (mutexes ?k1 i)\<lparr>owner := Some w, original_priority := current_priority (threads ?k1 w), hold := 1\<rparr>"
    "queues k' (SuspendQ i) = ws" "live k' = live ?k1" "ipc_frame i X ?k1 k'"
    "ipc_object_ok RT_Object_Class_Mutex i k' = ipc_object_ok RT_Object_Class_Mutex i ?k1"
    "tstate (threads k' w) \<in> {RT_THREAD_READY, RT_THREAD_RUNNING}"
    "ThreadTimer w \<notin> set (tlists k' HardList)"
    "\<forall>s. error (threads k' s) = error (threads ?k1 s) \<and> current_priority (threads k' s) =
      (if s = w then heir_priority (ipc_flag i ?k1) (\<lambda>s. current_priority (threads ?k1 s)) (w # ws)
       else current_priority (threads ?k1 s))"
    by blast
  have eq: "last_release i t k = Some (RT_EOK, k')"
    using r(1,5) q k'(1) by (simp add: last_release_def)
  have "heir_priority (ipc_flag i ?k1) (\<lambda>s. current_priority (threads ?k1 s)) (w # ws)
      = heir_priority (ipc_flag i k) (\<lambda>s. current_priority (threads k s)) (w # ws)"
    using nt r(8) ipc_flag_frame [OF r(4)] by (simp, intro heir_priority_cong) auto
  then have pr: "\<forall>s. current_priority (threads k' s) = (if s = t then ?p
      else if s = w then heir_priority (ipc_flag i k) (\<lambda>s. current_priority (threads k s)) (w # ws)
      else current_priority (threads k s))"
    using k'(10) r(8) nt by simp
  have w: "live k w" "unat (current_priority (threads k w)) < RT_THREAD_PRIORITY_MAX"
    using waiter_suspended(1) [OF inv, of w "SuspendQ i" i] waiter_prio [OF inv, of w "SuspendQ i" i] q by simp_all
  have "distinct (w # ws)" using wait_queue_distinct [OF inv, of "SuspendQ i"] q by simp
  moreover have "held_by w (mutexes k' i)"
    using k'(3) m(1) r(7) r(8) [of w] nt w(2) by (auto simp: held_by_def)
  ultimately have "mutex_ok i k'"
    using io k'(4,5,7) r(6) ipc_object_frame [OF r(4)] w(1) by (auto simp: mutex_ok_def)
  moreover have "mutex_abs i k' = (Some w, 1, ws)" using k'(3,4) by (simp add: mutex_abs_def)
  moreover have "original_priority (mutexes k' i) = current_priority (threads k w)"
    using k'(3) r(8) nt by simp
  moreover have "error (threads k' w) = error (threads k w)" using k'(10) r(9) by simp
  moreover have "ipc_frame i X k k'" by (rule ipc_frame_trans [OF ipc_frame_restored [OF inv] k'(6)])
  ultimately show ?thesis using eq k'(2,8,9) pr by blast
qed


lemma ex_mutex: "mutex_ok 1 ex_kernel"
  by (simp add: mutex_ok_def ipc_object_ok_def ipc_flag_def rt_object_get_type_def free_mutex_def)

text \<open>
  C10. \<open>rt_mutex_take\<close> by the running thread: a free mutex becomes its own, an own one is
  held once more (\<open>-RT_EFULL\<close> at 255), another's is waited for in the line or refused with
  \<open>-RT_ETIMEOUT\<close>, as the abstract mutex says. The owner's priority is saved when it first
  takes it. If the caller blocks, the owner's priority becomes the more urgent of the
  two and no other thread's changes. The kernel and the mutex stay consistent.
\<close>

theorem rt_mutex_take_refines:
  assumes "kinv {} k" "mutex_ok i k" "running k t" "interrupt_nest k = 0" "time_ok time"
  shows "\<exists>r k'. rt_mutex_take_start i time k = Some (r, k') \<and> kinv {} k' \<and> mutex_ok i k'
     \<and> (r, mutex_abs i k') = mutex_take_spec t
           (enlist (ipc_flag i k) (\<lambda>s. current_priority (threads k s)) t) (time \<noteq> 0) (mutex_abs i k)
     \<and> original_priority (mutexes k' i) = (if owner (mutexes k i) = None then current_priority (threads k t)
           else original_priority (mutexes k i))
     \<and> (\<forall>s. current_priority (threads k' s) = (if r = Blocked \<and> owner (mutexes k i) = Some s
           then min (current_priority (threads k s)) (current_priority (threads k t))
           else current_priority (threads k s)))
     \<and> (r = Blocked \<longrightarrow> tstate (threads k' t) = RT_THREAD_SUSPEND)"
  using mutex_take_ok [OF assms] by blast

theorem rt_mutex_take_refines_witness:
  "\<exists>k'. rt_mutex_take_start 1 5 ex_kernel = Some (Returned RT_EOK, k') \<and> mutex_abs 1 k' = (Some 0, 1, [])
     \<and> original_priority (mutexes k' 1) = 10"
proof -
  have "time_ok 5" by (simp add: time_ok_def)
  moreover have "interrupt_nest ex_kernel = 0" "mutex_abs 1 ex_kernel = (None, 0, [])"
    by (simp_all add: mutex_abs_def)
  ultimately show ?thesis
    using rt_mutex_take_refines [OF ex_kinv ex_mutex ex_running, of 5] by fastforce
qed

lemma mutex_release_ok:
  assumes "kinv {} k" "mutex_ok i k" "running k t" "interrupt_nest k = 0"
  shows "\<exists>r k'. rt_mutex_release i k = Some (r, k') \<and> kinv {} k' \<and> mutex_ok i k'
     \<and> (r, mutex_abs i k') = mutex_release_spec t (mutex_abs i k)
     \<and> (\<forall>s. current_priority (threads k' s) =
          (if owner (mutexes k i) = Some t \<and> hold (mutexes k i) = 1
           then if s = t then original_priority (mutexes k i)
                else if take 1 (queues k (SuspendQ i)) = [s]
                then heir_priority (ipc_flag i k) (\<lambda>s. current_priority (threads k s)) (queues k (SuspendQ i))
                else current_priority (threads k s)
           else current_priority (threads k s)))
     \<and> (\<forall>w ws. owner (mutexes k i) = Some t \<and> hold (mutexes k i) = 1 \<and> queues k (SuspendQ i) = w # ws \<longrightarrow>
          original_priority (mutexes k' i) = current_priority (threads k w)
          \<and> tstate (threads k' w) \<in> {RT_THREAD_READY, RT_THREAD_RUNNING}
          \<and> ThreadTimer w \<notin> set (tlists k' HardList) \<and> error (threads k' w) = error (threads k w))
     \<and> ipc_frame i {t} k k'"
proof (cases "owner (mutexes k i) = Some t")
  case False
  let ?k' = "upd_thread t (\<lambda>th. th\<lparr>error := - RT_ERROR\<rparr>) k"
  have "kinv {} ?k'" by (rule upd_thread_kinv [OF assms(1)]) simp_all
  moreover have "mutex_ok i ?k'"
    using assms(2) by (intro mutex_ok_queue [OF assms(2) kframe_upd_thread, where ts = "queues k (SuspendQ i)"])
      (auto simp: mutex_ok_def held_by_def free_mutex_def)
  moreover have "ipc_frame i {t} k ?k'" by (rule ipc_frame_upd_thread) simp_all
  ultimately show ?thesis
    using False by (simp add: rt_mutex_release_eq [OF assms(2-4)] mutex_abs_def)
next
  case own: True
  let ?n = "hold (mutexes k i)"
  let ?k1 = "upd_mutex i (\<lambda>m. m\<lparr>hold := hold m - 1\<rparr>) k"
  have h: "held_by t (mutexes k i)" "live k t" "t \<notin> set (queues k (SuspendQ i))"
    using assms(2) own by (auto simp: mutex_ok_def held_by_def free_mutex_def)
  have io: "ipc_object_ok RT_Object_Class_Mutex i ?k1" using assms(2) by (simp add: mutex_ok_def)
  have nz: "?n \<noteq> 0" using h(1) by (simp add: held_by_def)
  have k1: "kinv {} ?k1" "running ?k1 t" using assms(1,3) by simp_all
  show ?thesis
  proof (cases "?n = 1")
    case False
    then have n1: "?n - 1 \<noteq> 0" by simp
    have u: "unat (?n - 1) = unat ?n - 1" using nz by (simp add: unat_minus_one)
    have "unat ?n \<noteq> 1" using False by (metis unat_1 word_unat_eq_iff)
    moreover have "unat ?n \<noteq> 0" using nz by (simp add: unat_eq_0)
    ultimately have g: "1 < unat ?n" by linarith
    have "mutex_ok i ?k1" using h io n1 by (auto simp: mutex_ok_def held_by_def)
    moreover have "rt_mutex_release i k = Some (RT_EOK, ?k1)"
      using own n1 by (simp add: rt_mutex_release_eq [OF assms(2-4)] Let_def)
    ultimately show ?thesis using own k1(1) False u g ipc_frame_upd_mutex by (simp add: mutex_abs_def)
  next
    case one: True
    have z: "hold (mutexes ?k1 i) = 0" "held_by t ((mutexes ?k1 i)\<lparr>hold := 1\<rparr>)"
      using one h(1) by (simp_all add: held_by_def)
    have eq: "rt_mutex_release i k = last_release i t ?k1"
      using own one by (simp add: rt_mutex_release_eq [OF assms(2-4)] Let_def)
    have ab: "mutex_abs i k = (Some t, 1, queues k (SuspendQ i))" using own one by (simp add: mutex_abs_def)
    note fr = ipc_frame_trans [OF ipc_frame_upd_mutex]
    show ?thesis
    proof (cases "queues k (SuspendQ i)")
      case Nil
      then have "queues ?k1 (SuspendQ i) = []" by simp
      from last_release_free [OF k1 io z(2,1) this, of "{t}"] obtain k' where
        "last_release i t ?k1 = Some (RT_EOK, k')" "kinv {} k'" "mutex_ok i k'" "mutex_abs i k' = (None, 0, [])"
        "ipc_frame i {t} ?k1 k'"
        "\<forall>s. current_priority (threads k' s) =
            (if s = t then original_priority (mutexes k i) else current_priority (threads k s))"
        by auto
      then show ?thesis using eq ab own one Nil fr by simp
    next
      case (Cons w ws)
      then have q: "queues ?k1 (SuspendQ i) = w # ws" "t \<notin> set (w # ws)" using h(3) by simp_all
      from last_release_hand_over [OF k1 io z(2,1) q, of "{t}"] obtain k' where
        "last_release i t ?k1 = Some (RT_EOK, k')" "kinv {} k'" "mutex_ok i k'" "mutex_abs i k' = (Some w, 1, ws)"
        "ipc_frame i {t} ?k1 k'"
        "original_priority (mutexes k' i) = current_priority (threads k w)"
        "tstate (threads k' w) \<in> {RT_THREAD_READY, RT_THREAD_RUNNING}"
        "ThreadTimer w \<notin> set (tlists k' HardList)" "error (threads k' w) = error (threads k w)"
        "\<forall>s. current_priority (threads k' s) = (if s = t then original_priority (mutexes k i)
             else if s = w then heir_priority (ipc_flag i k) (\<lambda>s. current_priority (threads k s)) (w # ws)
             else current_priority (threads k s))"
        by auto
      then show ?thesis using eq ab own one Cons fr by simp
    qed
  qed
qed

text \<open>
  C11. \<open>rt_mutex_release\<close> by the running thread: only the owner may release (\<open>-RT_ERROR\<close>
  otherwise); an outer hold only lowers the count; the last one gives the owner its saved
  priority back and hands the mutex to the first waiter, which becomes ready with its
  timer stopped, its own priority saved and, in FIFO order, the most urgent priority of
  the line; with nobody in line the mutex is free. Every other priority is unchanged, and
  the kernel and the mutex stay consistent.
\<close>

theorem rt_mutex_release_refines:
  assumes "kinv {} k" "mutex_ok i k" "running k t" "interrupt_nest k = 0"
  shows "\<exists>r k'. rt_mutex_release i k = Some (r, k') \<and> kinv {} k' \<and> mutex_ok i k'
     \<and> (r, mutex_abs i k') = mutex_release_spec t (mutex_abs i k)
     \<and> (\<forall>s. current_priority (threads k' s) =
          (if owner (mutexes k i) = Some t \<and> hold (mutexes k i) = 1
           then if s = t then original_priority (mutexes k i)
                else if take 1 (queues k (SuspendQ i)) = [s]
                then heir_priority (ipc_flag i k) (\<lambda>s. current_priority (threads k s)) (queues k (SuspendQ i))
                else current_priority (threads k s)
           else current_priority (threads k s)))
     \<and> (\<forall>w ws. owner (mutexes k i) = Some t \<and> hold (mutexes k i) = 1 \<and> queues k (SuspendQ i) = w # ws \<longrightarrow>
          original_priority (mutexes k' i) = current_priority (threads k w)
          \<and> tstate (threads k' w) \<in> {RT_THREAD_READY, RT_THREAD_RUNNING}
          \<and> ThreadTimer w \<notin> set (tlists k' HardList) \<and> error (threads k' w) = error (threads k w))"
  using mutex_release_ok [OF assms] by blast

theorem rt_mutex_release_refines_witness:
  "\<exists>k k'. rt_mutex_take_start 1 5 ex_kernel = Some (Returned RT_EOK, k)
     \<and> rt_mutex_release 1 k = Some (RT_EOK, k') \<and> mutex_abs 1 k' = (None, 0, [])"
proof -
  have n: "interrupt_nest ex_kernel = 0" "owner (mutexes ex_kernel 1) = None" by simp_all
  note t = take_free [OF ex_kinv ex_mutex ex_running n]
  let ?k = "upd_mutex 1 (\<lambda>_. \<lparr>mtx_value = 0, original_priority = current_priority (threads ex_kernel 0),
      hold = 1, owner = Some 0\<rparr>) (clear_error 0 ex_kernel)"
  have "running ?k 0" "interrupt_nest ?k = 0"
    using clear_error_ok(2) [OF ex_kinv ex_running] by (simp_all add: upd_mutex_def clear_error_def)
  then obtain r k' where k': "rt_mutex_release 1 ?k = Some (r, k')"
      "(r, mutex_abs 1 k') = mutex_release_spec 0 (mutex_abs 1 ?k)"
    using rt_mutex_release_refines [OF t(2,3)] by blast
  then have "r = RT_EOK" "mutex_abs 1 k' = (None, 0, [])" unfolding t(4) by simp_all
  with t(1) [of 5] k'(1) show ?thesis by blast
qed

end
