(* ===== verification/RT_Event.thy ===== *)
theory RT_Event
  imports RT_Ipc
begin

text \<open>
  Event flag groups (\<open>src/ipc.c\<close>): initialisation, creation, detaching and deletion, send,
  receive and control. A thread waits for all (AND) or any (OR) of a set of bits and may
  clear what it receives; a send serves the whole line in order.
\<close>

section \<open>Operations\<close>

definition set_event :: "oid \<Rightarrow> u32 \<Rightarrow> kernel \<Rightarrow> kernel" where
  "set_event i v k = k\<lparr>events := (events k)(i := (events k i)\<lparr>ev_set := v\<rparr>)\<rparr>"

definition rt_event_init :: "oid \<Rightarrow> string \<Rightarrow> u8 \<Rightarrow> kernel \<Rightarrow> (rt_err_t \<times> kernel) option" where
  "rt_event_init i name flag k =
     do { k \<leftarrow> rt_object_init (OIpc i) RT_Object_Class_Event name k;
          let k = set_ipc_flag i flag k;
          let k = rt_ipc_object_init i k;
          Some (RT_EOK, set_event i 0 k) }"

definition rt_event_detach :: "oid \<Rightarrow> kernel \<Rightarrow> (rt_err_t \<times> kernel) option" where
  "rt_event_detach i k =
     do { assert_ipc RT_Object_Class_Event i k;
          rt_assert (rt_object_is_systemobject (OIpc i) k);
          k \<leftarrow> rt_ipc_list_resume_all (SuspendQ i) k;
          Some (RT_EOK, rt_object_detach (OIpc i) k) }"

definition rt_event_create :: "oid option \<Rightarrow> string \<Rightarrow> u8 \<Rightarrow> kernel \<Rightarrow> (oid option \<times> kernel) option" where
  "rt_event_create mem name flag k =
     do { RT_DEBUG_NOT_IN_INTERRUPT k;
          (r, k) \<leftarrow> rt_object_allocate (map_option OIpc mem) RT_Object_Class_Event name k;
          case (r, mem) of
            (Some _, Some i) \<Rightarrow>
              let k = set_ipc_flag i flag k;
                  k = rt_ipc_object_init i k
              in Some (Some i, set_event i 0 k)
          | _ \<Rightarrow> Some (None, k) }"

definition rt_event_delete :: "oid \<Rightarrow> kernel \<Rightarrow> (rt_err_t \<times> kernel) option" where
  "rt_event_delete i k =
     do { assert_ipc RT_Object_Class_Event i k;
          rt_assert (\<not> rt_object_is_systemobject (OIpc i) k);
          RT_DEBUG_NOT_IN_INTERRUPT k;
          k \<leftarrow> rt_ipc_list_resume_all (SuspendQ i) k;
          (_, k) \<leftarrow> rt_object_delete (OIpc i) k;
          Some (RT_EOK, k) }"

text \<open>Serving one waiter whose bits have arrived: the bits it clears, and waking it.\<close>

definition event_serve :: "oid \<Rightarrow> tid \<Rightarrow> kernel \<Rightarrow> kernel option" where
  "event_serve i t k =
     do { let k = (if event_info (threads k t) AND RT_EVENT_FLAG_CLEAR \<noteq> 0
                   then set_event i (ev_set (events k i) AND NOT (event_set (threads k t))) k else k);
          (_, k) \<leftarrow> rt_thread_resume t k;
          Some k }"

text \<open>The loop of \<open>rt_event_send\<close> over the waiting line: the error it leaves with, and whether
  anybody has been woken. The successor is read before the waiter is unlinked.\<close>

fun event_send_loop :: "oid \<Rightarrow> tid list \<Rightarrow> bool \<Rightarrow> kernel \<Rightarrow> (rt_err_t \<times> bool \<times> kernel) option" where
  "event_send_loop i [] need_schedule k = Some (RT_EOK, need_schedule, k)"
| "event_send_loop i (t # ts) need_schedule k =
     (let th = threads k t; ev = ev_set (events k i)
      in if event_info th AND RT_EVENT_FLAG_AND \<noteq> 0
         then (if event_set th AND ev = event_set th
               then do { k \<leftarrow> event_serve i t k; event_send_loop i ts True k }
               else event_send_loop i ts need_schedule k)
         else if event_info th AND RT_EVENT_FLAG_OR \<noteq> 0
         then (if event_set th AND ev \<noteq> 0
               then do { let k = upd_thread t (\<lambda>th. th\<lparr>event_set := event_set th AND ev\<rparr>) k;
                         k \<leftarrow> event_serve i t k; event_send_loop i ts True k }
               else event_send_loop i ts need_schedule k)
         else Some (- RT_EINVAL, need_schedule, k))"

definition rt_event_send :: "oid \<Rightarrow> u32 \<Rightarrow> kernel \<Rightarrow> (rt_err_t \<times> kernel) option" where
  "rt_event_send i s k =
     do { assert_ipc RT_Object_Class_Event i k;
          if s = 0 then Some (- RT_ERROR, k)
          else do { let k = set_event i (ev_set (events k i) OR s) k;
                    (err, need_schedule, k) \<leftarrow> event_send_loop i (queues k (SuspendQ i)) False k;
                    if err \<noteq> RT_EOK then Some (err, k)
                    else if need_schedule then do { k \<leftarrow> rt_schedule k; Some (RT_EOK, k) }
                    else Some (RT_EOK, k) } }"

text \<open>\<open>rt_event_recv\<close>, up to the switch and after it; what is stored in \<open>*recved\<close> is part
  of the result.\<close>

definition rt_event_recv_start ::
    "oid \<Rightarrow> u32 \<Rightarrow> u8 \<Rightarrow> u32 \<Rightarrow> kernel \<Rightarrow> (ipc_result \<times> u32 option \<times> kernel) option" where
  "rt_event_recv_start i s opt timeout k =
     do { RT_DEBUG_IN_THREAD_CONTEXT k;
          assert_ipc RT_Object_Class_Event i k;
          if s = 0 then Some (Returned (- RT_ERROR), None, k)
          else do {
            t \<leftarrow> rt_thread_self k;
            let k = clear_error t k;
            let ev = ev_set (events k i);
            hit \<leftarrow> (if opt AND RT_EVENT_FLAG_AND \<noteq> 0 then Some (ev AND s = s)
                   else if opt AND RT_EVENT_FLAG_OR \<noteq> 0 then Some (ev AND s \<noteq> 0)
                   else None);
            if hit
            then (let k = upd_thread t (\<lambda>th. th\<lparr>event_set := ev AND s, event_info := opt\<rparr>) k;
                      k = (if opt AND RT_EVENT_FLAG_CLEAR \<noteq> 0 then set_event i (ev AND NOT s) k else k)
                  in Some (Returned (error (threads k t)), Some (ev AND s), k))
            else if timeout = 0
            then Some (Returned (- RT_ETIMEOUT), None,
                       upd_thread t (\<lambda>th. th\<lparr>error := - RT_ETIMEOUT\<rparr>) k)
            else do { let k = upd_thread t (\<lambda>th. th\<lparr>event_set := s, event_info := opt\<rparr>) k;
                      k \<leftarrow> ipc_wait (SuspendQ i) t (ipc_flag i k) timeout k;
                      Some (Blocked, None, k) } } }"

definition rt_event_recv_wake :: "tid \<Rightarrow> kernel \<Rightarrow> rt_err_t \<times> u32 option" where
  "rt_event_recv_wake t k =
     (if error (threads k t) \<noteq> RT_EOK then (error (threads k t), None)
      else (error (threads k t), Some (event_set (threads k t))))"

definition rt_event_control :: "oid \<Rightarrow> nat \<Rightarrow> kernel \<Rightarrow> (rt_err_t \<times> kernel) option" where
  "rt_event_control i cmd k =
     do { assert_ipc RT_Object_Class_Event i k;
          if cmd = RT_IPC_CMD_RESET
          then do { k \<leftarrow> rt_ipc_list_resume_all (SuspendQ i) k;
                    let k = set_event i 0 k;
                    k \<leftarrow> rt_schedule k;
                    Some (RT_EOK, k) }
          else Some (- RT_ERROR, k) }"


section \<open>An event group in abstract terms\<close>

text \<open>A waiter with its bits and options; when it is served, what it gets and what is left.\<close>

type_synonym event_waiter = "tid \<times> u32 \<times> u8"

definition ev_sat :: "u32 \<Rightarrow> u32 \<Rightarrow> u8 \<Rightarrow> bool" where
  "ev_sat ev m opt \<longleftrightarrow> (if opt AND RT_EVENT_FLAG_AND \<noteq> 0 then m AND ev = m
                       else opt AND RT_EVENT_FLAG_OR \<noteq> 0 \<and> m AND ev \<noteq> 0)"

definition ev_left :: "u32 \<Rightarrow> u32 \<Rightarrow> u8 \<Rightarrow> u32" where
  "ev_left ev got opt = (if opt AND RT_EVENT_FLAG_CLEAR \<noteq> 0 then ev AND NOT got else ev)"

fun event_send_spec :: "u32 \<Rightarrow> event_waiter list \<Rightarrow> u32 \<times> event_waiter list \<times> (tid \<times> u32) list" where
  "event_send_spec ev [] = (ev, [], [])"
| "event_send_spec ev ((t, m, opt) # ws) =
     (case event_send_spec (if ev_sat ev m opt then ev_left ev (m AND ev) opt else ev) ws of
        (e, rest, sv) \<Rightarrow> if ev_sat ev m opt then (e, rest, (t, m AND ev) # sv)
                         else (e, (t, m, opt) # rest, sv))"

definition waiter :: "kernel \<Rightarrow> tid \<Rightarrow> event_waiter" where
  "waiter k t = (t, event_set (threads k t), event_info (threads k t))"

definition valid_option :: "u8 \<Rightarrow> bool" where
  "valid_option opt \<longleftrightarrow> opt AND RT_EVENT_FLAG_AND \<noteq> 0 \<or> opt AND RT_EVENT_FLAG_OR \<noteq> 0"

text \<open>Nobody waits for what has happened.\<close>

definition event_ok :: "oid \<Rightarrow> kernel \<Rightarrow> bool" where
  "event_ok i k \<longleftrightarrow> ipc_object_ok RT_Object_Class_Event i k
     \<and> (\<forall>t \<in> set (queues k (SuspendQ i)). valid_option (event_info (threads k t))
          \<and> \<not> ev_sat (ev_set (events k i)) (event_set (threads k t)) (event_info (threads k t)))"

lemma ev_left_sat: "ev_sat (ev_left ev got opt') m opt \<Longrightarrow> ev_sat ev m opt"
proof -
  have a: "m AND ev = m" if "m AND (ev AND NOT got) = m"
  proof -
    have "bit m n \<Longrightarrow> bit ev n" for n
      using arg_cong [OF that, of "\<lambda>x. bit x n"] by (simp add: bit_simps)
    then show ?thesis by (intro bit_eqI) (auto simp: bit_simps)
  qed
  have o: "m AND ev \<noteq> 0" if "m AND (ev AND NOT got) \<noteq> 0"
  proof
    assume "m AND ev = 0"
    then have "(m AND ev) AND NOT got = 0" by simp
    then show False using that by (simp add: and.assoc)
  qed
  show "ev_sat (ev_left ev got opt') m opt \<Longrightarrow> ev_sat ev m opt"
    using a o by (auto simp: ev_sat_def ev_left_def split: if_splits)
qed

lemma event_send_spec_sat:
  "event_send_spec ev ws = (ev', rest, sv) \<Longrightarrow> ev_sat ev' m opt \<Longrightarrow> ev_sat ev m opt"
proof (induction ws arbitrary: ev rest sv)
  case (Cons w ws)
  obtain t m' opt' where w: "w = (t, m', opt')" by (cases w)
  let ?e = "if ev_sat ev m' opt' then ev_left ev (m' AND ev) opt' else ev"
  obtain e r v where s: "event_send_spec ?e ws = (e, r, v)" by (cases "event_send_spec ?e ws")
  then have "e = ev'"
    using Cons(2) [unfolded w event_send_spec.simps s prod.case] by (cases "ev_sat ev m' opt'") simp_all
  with s have "ev_sat ?e m opt" using Cons(1) [of ?e r v] Cons(3) by blast
  then show ?case by (metis ev_left_sat)
qed simp

text \<open>No wake-up is lost: who still waits after a send is not satisfied by what is left.\<close>

lemma event_send_spec_rest:
  "event_send_spec ev ws = (ev', rest, sv) \<Longrightarrow> (t, m, opt) \<in> set rest \<Longrightarrow> \<not> ev_sat ev' m opt"
proof (induction ws arbitrary: ev rest sv)
  case (Cons w ws)
  obtain t' m' opt' where w: "w = (t', m', opt')" by (cases w)
  let ?e = "if ev_sat ev m' opt' then ev_left ev (m' AND ev) opt' else ev"
  obtain e r v where s: "event_send_spec ?e ws = (e, r, v)" by (cases "event_send_spec ?e ws")
  have e: "e = ev'" "rest = (if ev_sat ev m' opt' then r else (t', m', opt') # r)"
    using Cons(2) [unfolded w event_send_spec.simps s prod.case] by (cases "ev_sat ev m' opt'", simp_all)+
  show ?case
  proof (cases "(t, m, opt) \<in> set r")
    case True
    then show ?thesis using Cons(1) [of ?e r v] s e(1) by blast
  next
    case False
    then have "\<not> ev_sat ev m opt" using e(2) Cons(3) by (simp split: if_splits)
    then show ?thesis using event_send_spec_sat [OF Cons(2)] by blast
  qed
qed simp


section \<open>The loop over the line\<close>

lemma set_event_fields [simp]:
  "objs (set_event i v k) = objs k" "threads (set_event i v k) = threads k"
  "queues (set_event i v k) = queues k" "current_thread (set_event i v k) = current_thread k"
  "tlists (set_event i v k) = tlists k" "timers (set_event i v k) = timers k"
  "ev_set (events (set_event i v k) j) = (if j = i then v else ev_set (events k j))"
  "kinv X (set_event i v k) = kinv X k" "running (set_event i v k) t = running k t"
  "live (set_event i v k) = live k" "ipc_object_ok ty j (set_event i v k) = ipc_object_ok ty j k"
  "ipc_flag j (set_event i v k) = ipc_flag j k" "waiter (set_event i v k) = waiter k"
  by (simp_all add: set_event_def ipc_object_ok_def rt_object_get_type_def ipc_flag_def live_def
      waiter_def fun_eq_iff)

text \<open>What serving the waiter \<open>t\<close> leaves: its bits narrowed to what it gets, those cleared if
  it asked for it, and the thread ready.\<close>

definition narrowed :: "u32 \<Rightarrow> tid \<Rightarrow> kernel \<Rightarrow> kernel" where
  "narrowed ev t k = upd_thread t (\<lambda>th. th\<lparr>event_set := event_set th AND ev\<rparr>) k"

definition served :: "oid \<Rightarrow> tid \<Rightarrow> kernel \<Rightarrow> kernel" where
  "served i t k =
     (let ev = ev_set (events k i); got = event_set (threads k t) AND ev
      in resumed t (set_event i (ev_left ev got (event_info (threads k t))) (narrowed ev t k)))"

lemma set_event_same: "set_event i (ev_set (events k i)) k = k"
  by (simp add: set_event_def)

lemma narrowed_same: "event_set (threads k t) AND ev = event_set (threads k t) \<Longrightarrow> narrowed ev t k = k"
  by (simp add: narrowed_def upd_thread_def)

lemma narrowed_kinv: "kinv {} k \<Longrightarrow> kinv {} (narrowed ev t k)"
  unfolding narrowed_def by (rule upd_thread_kinv) simp_all

lemma event_serve_eq:
  assumes "kinv {} k" "t \<in> set (queues k (SuspendQ i))"
  shows "event_serve i t k
    = Some (resumed t (set_event i (ev_left (ev_set (events k i)) (event_set (threads k t)) (event_info (threads k t))) k))"
proof -
  let ?k = "set_event i (ev_left (ev_set (events k i)) (event_set (threads k t)) (event_info (threads k t))) k"
  have "rt_thread_resume t ?k = Some (RT_EOK, resumed t ?k)"
    using assms by (intro resume_waiter(1) [of ?k t "SuspendQ i" i]) simp_all
  moreover have "(if event_info (threads k t) AND RT_EVENT_FLAG_CLEAR \<noteq> 0
       then set_event i (ev_set (events k i) AND NOT (event_set (threads k t))) k else k) = ?k"
    by (simp add: ev_left_def set_event_same)
  ultimately show ?thesis by (simp add: event_serve_def)
qed

lemma event_send_loop_Cons:
  assumes inv: "kinv {} k" and t: "t \<in> set (queues k (SuspendQ i))"
    and v: "valid_option (event_info (threads k t))"
  shows "event_send_loop i (t # ts) need k =
    (if ev_sat (ev_set (events k i)) (event_set (threads k t)) (event_info (threads k t))
     then event_send_loop i ts True (served i t k) else event_send_loop i ts need k)"
proof -
  let ?ev = "ev_set (events k i)" and ?n = "narrowed (ev_set (events k i)) t k"
  have n: "events ?n = events k" "queues ?n = queues k" "event_info (threads ?n t) = event_info (threads k t)"
    "event_set (threads ?n t) = event_set (threads k t) AND ?ev"
    by (simp_all add: narrowed_def)
  have "event_serve i t ?n = Some (served i t k)"
    using event_serve_eq [OF narrowed_kinv [OF inv, of ?ev t], of t i] t n by (simp add: served_def Let_def)
  then show ?thesis
    using v narrowed_same [of k t ?ev]
    by (auto simp: ev_sat_def valid_option_def Let_def narrowed_def [symmetric])
qed

lemma served_fields [simp]:
  "live (served i t k) = live k" "current_thread (served i t k) = current_thread k"
  "s \<noteq> t \<Longrightarrow> threads (served i t k) s = threads k s"
  "event_set (threads (served i t k) t) = event_set (threads k t) AND ev_set (events k i)"
  "error (threads (served i t k) s) = error (threads k s)"
  "objs (served i t k) (OIpc j) = objs k (OIpc j)"
  "ev_set (events (served i t k) i) =
     ev_left (ev_set (events k i)) (event_set (threads k t) AND ev_set (events k i)) (event_info (threads k t))"
  by (simp_all add: served_def narrowed_def Let_def)

lemma served_ok:
  assumes inv: "kinv {} k" and t: "t \<in> set (queues k (SuspendQ i))"
  shows "kinv {} (served i t k)"
    "\<not> is_ready_queue g \<Longrightarrow> queues (served i t k) g = removeAll t (queues k g)"
    "tstate (threads (served i t k) t) \<in> {RT_THREAD_READY, RT_THREAD_RUNNING}"
proof -
  let ?ev = "ev_set (events k i)"
  let ?k = "set_event i (ev_left ?ev (event_set (threads k t) AND ?ev) (event_info (threads k t))) (narrowed ?ev t k)"
  have k: "kinv {} ?k" "t \<in> set (queues ?k (SuspendQ i))"
    using narrowed_kinv [OF inv] t by (simp_all add: narrowed_def)
  from resume_waiter(2) [OF this, of i] show "kinv {} (served i t k)"
    by (simp add: served_def Let_def)
  show "\<not> is_ready_queue g \<Longrightarrow> queues (served i t k) g = removeAll t (queues k g)"
    by (cases g) (simp_all add: served_def Let_def narrowed_def)
  show "tstate (threads (served i t k) t) \<in> {RT_THREAD_READY, RT_THREAD_RUNNING}"
    by (simp add: served_def Let_def)
qed

lemma ipc_frame_set_event: "ipc_frame i X k (set_event i v k)"
  using ipc_frame_tables(3) by (simp add: set_event_def)

lemma served_frame:
  assumes "t \<in> set (queues k (SuspendQ i))"
  shows "ipc_frame i X k (served i t k)"
proof -
  have f: "\<exists>P. xs = filter P xs" for xs :: "tid list" by (rule exI [of _ "\<lambda>_. True"]) simp
  have "ipc_frame i X k (narrowed ev t k)" for ev
    using assms f kframe_upd_thread [of k t] timing_upd_thread
    by (auto simp: narrowed_def ipc_frame_def kframe_def)
  then show ?thesis
    unfolding served_def Let_def by (intro ipc_frame_trans [OF ipc_frame_trans [OF _ ipc_frame_set_event] ipc_frame_resumed])
qed

text \<open>The thread \<open>s\<close> has been served with the bits \<open>got\<close>.\<close>

definition received :: "kernel \<Rightarrow> tid \<Rightarrow> u32 \<Rightarrow> bool" where
  "received k s got \<longleftrightarrow> event_set (threads k s) = got
     \<and> tstate (threads k s) \<in> {RT_THREAD_READY, RT_THREAD_RUNNING}
     \<and> ThreadTimer s \<notin> set (tlists k HardList)"

text \<open>What the loop promises about its final state, in terms of the abstract send.\<close>

definition event_sent :: "oid \<Rightarrow> kernel \<Rightarrow> u32 \<times> event_waiter list \<times> (tid \<times> u32) list \<Rightarrow> kernel \<Rightarrow> bool" where
  "event_sent i k res k' \<longleftrightarrow>
     (case res of (ev, rest, sv) \<Rightarrow>
        kinv {} k' \<and> current_thread k' = current_thread k \<and> live k' = live k \<and> ipc_frame i {} k k'
        \<and> (\<forall>j. objs k' (OIpc j) = objs k (OIpc j)) \<and> ev_set (events k' i) = ev
        \<and> (\<forall>g. \<not> is_ready_queue g \<longrightarrow> queues k' g = filter (\<lambda>s. s \<notin> fst ` set sv) (queues k g))
        \<and> (\<forall>s. error (threads k' s) = error (threads k s))
        \<and> (\<forall>s. s \<notin> fst ` set sv \<longrightarrow> threads k' s = threads k s)
        \<and> (\<forall>(s, got) \<in> set sv. received k' s got))"

lemma event_send_spec_fst:
  "event_send_spec ev ws = (ev', rest, sv) \<Longrightarrow> fst ` set sv \<subseteq> fst ` set ws"
proof (induction ws arbitrary: ev ev' rest sv)
  case (Cons w ws)
  obtain t m opt where w: "w = (t, m, opt)" by (cases w)
  let ?e = "if ev_sat ev m opt then ev_left ev (m AND ev) opt else ev"
  obtain e r v where s: "event_send_spec ?e ws = (e, r, v)" by (cases "event_send_spec ?e ws")
  then have "sv = (if ev_sat ev m opt then (t, m AND ev) # v else v)"
    using Cons(2) [unfolded w event_send_spec.simps s prod.case] by (cases "ev_sat ev m opt", simp_all)
  then show ?case using Cons(1) [OF s] by (auto simp: w split: if_splits)
qed simp


lemma event_sentD:
  assumes "event_sent i k (ev, rest, sv) k'"
  shows "kinv {} k'" "current_thread k' = current_thread k" "live k' = live k"
    "objs k' (OIpc j) = objs k (OIpc j)" "ev_set (events k' i) = ev"
    "\<not> is_ready_queue g \<Longrightarrow> queues k' g = filter (\<lambda>s. s \<notin> fst ` set sv) (queues k g)"
    "error (threads k' s) = error (threads k s)"
    "s \<notin> fst ` set sv \<Longrightarrow> threads k' s = threads k s"
    "(s, got) \<in> set sv \<Longrightarrow> received k' s got" "ipc_frame i {} k k'"
  using assms by (auto simp: event_sent_def)

lemma event_sent_served:
  assumes inv: "kinv {} k" and t: "t \<in> set (queues k (SuspendQ i))"
    and s: "event_sent i (served i t k) (ev, rest, sv) k'" and nt: "t \<notin> fst ` set sv"
  shows "event_sent i k (ev, rest, (t, event_set (threads k t) AND ev_set (events k i)) # sv) k'"
proof -
  note e = event_sentD [OF s] and so = served_ok [OF inv t]
  have "received k' t (event_set (threads k t) AND ev_set (events k i))"
    using e(8) [OF nt] so(3) ready_no_timer [OF e(1), of t] by (simp add: received_def)
  moreover have "queues k' g = filter (\<lambda>s. s \<notin> insert t (fst ` set sv)) (queues k g)" if "\<not> is_ready_queue g" for g
    using e(6) [OF that] so(2) [OF that]
    by (simp add: removeAll_filter_not_eq) (rule filter_cong, auto)
  moreover have "threads k' s = threads k s" if "s \<notin> insert t (fst ` set sv)" for s
    using e(8) [of s] that by simp
  moreover have "ipc_frame i {} k k'" by (rule ipc_frame_trans [OF served_frame [OF t] e(10)])
  ultimately show ?thesis
    using e(1-5,7,9) by (simp add: event_sent_def) blast
qed

lemma event_send_loop_ok:
  assumes "kinv {} k" "distinct ts" "set ts \<subseteq> set (queues k (SuspendQ i))"
    and "\<forall>t \<in> set ts. valid_option (event_info (threads k t))"
    and "event_send_spec (ev_set (events k i)) (map (waiter k) ts) = (ev, rest, sv)"
  shows "\<exists>k'. event_send_loop i ts need k = Some (RT_EOK, need \<or> sv \<noteq> [], k')
     \<and> event_sent i k (ev, rest, sv) k'"
  using assms
proof (induction ts arbitrary: k need ev rest sv)
  case Nil
  then show ?case by (simp add: event_sent_def ipc_frame_refl)
next
  case (Cons t ts)
  let ?e = "ev_set (events k i)" and ?m = "event_set (threads k t)" and ?o = "event_info (threads k t)"
  have t: "t \<in> set (queues k (SuspendQ i))" "valid_option ?o" "t \<notin> set ts" using Cons(3-5) by simp_all
  note step = event_send_loop_Cons [OF Cons(2) t(1,2), of ts need]
  have sub: "distinct ts" "set ts \<subseteq> set (queues k (SuspendQ i))" "\<forall>t \<in> set ts. valid_option (event_info (threads k t))"
    using Cons(3-5) by simp_all
  let ?e' = "if ev_sat ?e ?m ?o then ev_left ?e (?m AND ?e) ?o else ?e"
  obtain e r v where s: "event_send_spec ?e' (map (waiter k) ts) = (e, r, v)"
    by (cases "event_send_spec ?e' (map (waiter k) ts)")
  have wt: "waiter k t = (t, ?m, ?o)" by (simp add: waiter_def)
  note res = Cons(6) [unfolded list.map wt event_send_spec.simps s prod.case]
  show ?case
  proof (cases "ev_sat ?e ?m ?o")
    case False
    then have "(ev, rest, sv) = (e, (t, ?m, ?o) # r, v)" using res by simp
    moreover have "event_send_spec ?e (map (waiter k) ts) = (e, r, v)" using s False by simp
    ultimately show ?thesis
      using Cons(1) [OF Cons(2) sub, of e r v need] step False by (auto simp: event_sent_def)
  next
    case True
    let ?k = "served i t k"
    note so = served_ok [OF Cons(2) t(1)]
    have th: "threads ?k s = threads k s" if "s \<in> set ts" for s
      using that t(3) by (cases "s = t") simp_all
    then have m: "map (waiter ?k) ts = map (waiter k) ts" by (simp add: waiter_def)
    have s1: "event_send_spec (ev_set (events ?k i)) (map (waiter ?k) ts) = (e, r, v)"
      unfolding m using s True by simp
    have sub1: "set ts \<subseteq> set (queues ?k (SuspendQ i))" "\<forall>t \<in> set ts. valid_option (event_info (threads ?k t))"
      using sub t(3) so(2) [of "SuspendQ i"] th by auto
    obtain k' where k': "event_send_loop i ts True ?k = Some (RT_EOK, True, k')" "event_sent i ?k (e, r, v) k'"
      using Cons(1) [OF so(1) sub(1) sub1 s1, of True] by auto
    have "fst ` set (map (waiter k) ts) = set ts" by (auto simp: waiter_def image_iff)
    then have "t \<notin> fst ` set v" using event_send_spec_fst [OF s] t(3) by auto
    from event_sent_served [OF Cons(2) t(1) k'(2) this] have "event_sent i k (ev, rest, sv) k'"
      using res True by simp
    moreover have "sv \<noteq> []" using res True by auto
    ultimately show ?thesis using step True k'(1) by auto
  qed
qed


section \<open>Sending\<close>

lemma event_send_spec_filter:
  "event_send_spec ev ws = (ev', rest, sv) \<Longrightarrow> distinct (map fst ws) \<Longrightarrow>
     rest = filter (\<lambda>w. fst w \<notin> fst ` set sv) ws"
proof (induction ws arbitrary: ev ev' rest sv)
  case (Cons w ws)
  obtain t m opt where w: "w = (t, m, opt)" by (cases w)
  let ?e = "if ev_sat ev m opt then ev_left ev (m AND ev) opt else ev"
  obtain e r v where s: "event_send_spec ?e ws = (e, r, v)" by (cases "event_send_spec ?e ws")
  have res: "(rest, sv) = (if ev_sat ev m opt then (r, (t, m AND ev) # v) else ((t, m, opt) # r, v))"
    using Cons(2) [unfolded w event_send_spec.simps s prod.case] by (cases "ev_sat ev m opt", simp_all)
  have d: "distinct (map fst ws)" "t \<notin> fst ` set ws" using Cons(3) by (auto simp: w)
  have r: "r = filter (\<lambda>w. fst w \<notin> fst ` set v) ws" by (rule Cons(1) [OF s d(1)])
  have "t \<notin> fst ` set v" using event_send_spec_fst [OF s] d(2) by auto
  moreover have "filter (\<lambda>w. fst w \<noteq> t \<and> fst w \<notin> fst ` set v) ws = filter (\<lambda>w. fst w \<notin> fst ` set v) ws"
    using d(2) by (intro filter_cong) auto
  ultimately show ?case using res r by (cases "ev_sat ev m opt") (simp_all add: w)
qed simp

lemma map_fst_waiter: "map fst (map (waiter k) ts) = ts"
  by (induction ts) (simp_all add: waiter_def)

lemma waiter_fst [simp]: "fst (waiter k t) = t"
  by (simp add: waiter_def)

lemma filter_map_waiter: "filter (\<lambda>w. P (fst w)) (map (waiter k) ts) = map (waiter k) (filter P ts)"
  by (induction ts) simp_all

lemma received_sched:
  assumes "sched_frame k k'" "received k s got"
  shows "received k' s got"
proof -
  have "tstate (threads k s) = tstate (threads k' s)
       \<or> {tstate (threads k s), tstate (threads k' s)} \<subseteq> {RT_THREAD_READY, RT_THREAD_RUNNING}"
    using assms(1) unfolding sched_frame_def by blast
  then show ?thesis
    using assms(2) sched_frame_thread(5) [OF assms(1)] sched_frame_fields [OF assms(1)]
    by (auto simp: received_def)
qed

lemma waiter_sched: "sched_frame k k' \<Longrightarrow> waiter k' = waiter k"
  by (simp add: waiter_def fun_eq_iff sched_frame_thread)

text \<open>The state after a send: what the abstract send says.\<close>

definition event_result :: "oid \<Rightarrow> kernel \<Rightarrow> u32 \<times> event_waiter list \<times> (tid \<times> u32) list \<Rightarrow> kernel \<Rightarrow> bool" where
  "event_result i k res k' \<longleftrightarrow>
     (case res of (ev, rest, sv) \<Rightarrow>
        kinv {} k' \<and> event_ok i k' \<and> ev_set (events k' i) = ev \<and> ipc_frame i {} k k'
        \<and> map (waiter k') (queues k' (SuspendQ i)) = rest
        \<and> (\<forall>(s, got) \<in> set sv. received k' s got)
        \<and> (\<forall>s. error (threads k' s) = error (threads k s)))"

lemma event_sent_result:
  assumes inv: "kinv {} k" and io: "ipc_object_ok RT_Object_Class_Event i k"
    and v: "\<forall>t \<in> set (queues k (SuspendQ i)). valid_option (event_info (threads k t))"
    and spec: "event_send_spec ev0 (map (waiter k) (queues k (SuspendQ i))) = (ev, rest, sv)"
    and sent: "event_sent i k (ev, rest, sv) k'"
  shows "event_result i k (ev, rest, sv) k'"
proof -
  note e = event_sentD [OF sent]
  let ?q = "queues k (SuspendQ i)" and ?P = "\<lambda>s. s \<notin> fst ` set sv"
  have q: "queues k' (SuspendQ i) = filter ?P ?q" using e(6) by simp
  have "map (waiter k') (filter ?P ?q) = map (waiter k) (filter ?P ?q)"
    using e(8) by (auto simp: waiter_def)
  also have "\<dots> = rest"
    using event_send_spec_filter [OF spec] wait_queue_distinct [OF inv, of "SuspendQ i"]
      filter_map_waiter [of ?P k ?q] unfolding map_fst_waiter by simp
  finally have line: "map (waiter k') (queues k' (SuspendQ i)) = rest" unfolding q .
  have "ipc_object_ok RT_Object_Class_Event i k'"
    using io e(4) by (simp add: ipc_object_ok_def rt_object_get_type_def ipc_flag_def)
  moreover have "valid_option (event_info (threads k' t))" if "t \<in> set (queues k' (SuspendQ i))" for t
    using that v e(8) [of t] by (auto simp: q)
  moreover have "\<not> ev_sat (ev_set (events k' i)) (event_set (threads k' t)) (event_info (threads k' t))"
    if "t \<in> set (queues k' (SuspendQ i))" for t
  proof -
    have "waiter k' t \<in> set rest" unfolding line [symmetric] using that by simp
    then show ?thesis using event_send_spec_rest [OF spec] e(5) by (simp add: waiter_def)
  qed
  ultimately have "event_ok i k'" by (simp add: event_ok_def)
  then show ?thesis using e(1,5,7,9,10) line by (auto simp: event_result_def)
qed

lemma event_result_sched:
  assumes "event_result i k res k'" "sched_frame k' k''" "kinv {} k''" "current_thread k'' \<noteq> None"
  shows "event_result i k res k''"
proof -
  note fr = sched_frame_fields [OF assms(2)] and th = sched_frame_thread [OF assms(2)]
  have "ipc_object_ok RT_Object_Class_Event i k'' = ipc_object_ok RT_Object_Class_Event i k'"
    by (rule ipc_object_frame [OF kframe_sched [OF assms(2)]])
  then have "event_ok i k'' = event_ok i k'" using fr th by (simp add: event_ok_def)
  then show ?thesis
    using assms(1,3) received_sched [OF assms(2)] fr th waiter_sched [OF assms(2)]
      ipc_frame_trans [OF _ ipc_frame_sched [OF assms(2,4)]]
    by (auto simp: event_result_def)
qed

lemma event_send_ok:
  assumes "kinv {} k" "event_ok i k" "current_thread k = Some c"
  shows "if s = 0 then rt_event_send i s k = Some (- RT_ERROR, k)
         else \<exists>k'. rt_event_send i s k = Some (RT_EOK, k') \<and>
           event_result i k (event_send_spec (ev_set (events k i) OR s)
               (map (waiter k) (queues k (SuspendQ i)))) k'"
proof (cases "s = 0")
  case True
  then show ?thesis using assms(2) by (simp add: rt_event_send_def assert_ipc_ok event_ok_def)
next
  case False
  let ?k = "set_event i (ev_set (events k i) OR s) k" and ?q = "queues k (SuspendQ i)"
  obtain ev rest sv where spec: "event_send_spec (ev_set (events k i) OR s) (map (waiter k) ?q) = (ev, rest, sv)"
    by (cases "event_send_spec (ev_set (events k i) OR s) (map (waiter k) ?q)")
  have k: "kinv {} ?k" "distinct ?q" "set ?q \<subseteq> set (queues ?k (SuspendQ i))"
    "\<forall>t \<in> set ?q. valid_option (event_info (threads ?k t))"
    "event_send_spec (ev_set (events ?k i)) (map (waiter ?k) ?q) = (ev, rest, sv)"
    using assms(1,2) wait_queue_distinct [OF assms(1)] spec by (simp_all add: event_ok_def)
  from event_send_loop_ok [OF this, of False] obtain k' where
    k': "event_send_loop i ?q False ?k = Some (RT_EOK, sv \<noteq> [], k')" "event_sent i ?k (ev, rest, sv) k'"
    by auto
  have "event_result i ?k (ev, rest, sv) k'"
    using assms(2) k(4,5) by (intro event_sent_result [OF k(1) _ _ _ k'(2)]) (auto simp: event_ok_def)
  then have r: "event_result i k (ev, rest, sv) k'"
    using ipc_frame_trans [OF ipc_frame_set_event [of i "{}" k "ev_set (events k i) OR s"]]
    by (auto simp: event_result_def)
  have eq: "rt_event_send i s k = (if sv \<noteq> [] then do { k \<leftarrow> rt_schedule k'; Some (RT_EOK, k) } else Some (RT_EOK, k'))"
    using assms(2) False k'(1) by (simp add: rt_event_send_def assert_ipc_ok event_ok_def Let_def)
  have "kinv {} k'" "current_thread k' = Some c" using event_sentD(1,2) [OF k'(2)] assms(3) by simp_all
  from rt_schedule_kinv [OF this] obtain k'' where
    "rt_schedule k' = Some k''" "kinv {} k''" "sched_frame k' k''" by blast
  moreover from this have "current_thread k'' \<noteq> None"
    using rt_schedule_current \<open>current_thread k' = Some c\<close> by blast
  ultimately have "\<exists>k''. rt_event_send i s k = Some (RT_EOK, k'') \<and> event_result i k (ev, rest, sv) k''"
    using eq r event_result_sched [OF r] by (cases "sv = []") auto
  then show ?thesis using False spec by simp
qed

section \<open>Receiving\<close>

text \<open>The running thread has noted its bits and options.\<close>

definition asking :: "tid \<Rightarrow> u32 \<Rightarrow> u8 \<Rightarrow> kernel \<Rightarrow> kernel" where
  "asking t s opt k = upd_thread t (\<lambda>th. th\<lparr>event_set := s, event_info := opt\<rparr>) (clear_error t k)"

lemma asking_fields [simp]:
  "queues (asking t s opt k) = queues k" "events (asking t s opt k) = events k"
  "current_thread (asking t s opt k) = current_thread k" "ipc_flag i (asking t s opt k) = ipc_flag i k"
  "waiter (asking t s opt k) t = (t, s, opt)" "x \<noteq> t \<Longrightarrow> threads (asking t s opt k) x = threads k x"
  "error (threads (asking t s opt k) t) = RT_EOK"
  "current_priority (threads (asking t s opt k) x) = current_priority (threads k x)"
  by (auto simp: asking_def waiter_def clear_error_def ipc_flag_def)

lemma tstate_event_upd [simp]: "tstate (th\<lparr>event_set := s, event_info := opt\<rparr>) = tstate th"
  by (simp add: tstate_def)

lemma asking_ok:
  assumes "kinv {} k" "running k t"
  shows "kinv {} (asking t s opt k)" "running (asking t s opt k) t" "kframe k (asking t s opt k)"
proof -
  note c = clear_error_ok [OF assms]
  show "kinv {} (asking t s opt k)" unfolding asking_def by (rule upd_thread_kinv [OF c(1)]) simp_all
  show "running (asking t s opt k) t" using c(2) by (simp add: asking_def running_def)
  show "kframe k (asking t s opt k)"
    unfolding asking_def by (rule kframe_trans [OF kframe_clear_error kframe_upd_thread])
qed

lemma ipc_frame_asking: "ipc_frame i {t} k (asking t s opt k)"
  unfolding asking_def by (rule ipc_frame_trans [OF ipc_frame_clear_error ipc_frame_upd_thread]) simp_all

lemma recv_start_eq:
  assumes "event_ok i k" "running k t" "interrupt_nest k = 0" "s \<noteq> 0" "valid_option opt"
  shows "rt_event_recv_start i s opt timeout k =
    (let ev = ev_set (events k i)
     in if ev_sat ev s opt
        then Some (Returned RT_EOK, Some (ev AND s), set_event i (ev_left ev s opt) (asking t (ev AND s) opt k))
        else if timeout = 0
        then Some (Returned (- RT_ETIMEOUT), None, upd_thread t (\<lambda>th. th\<lparr>error := - RT_ETIMEOUT\<rparr>) (clear_error t k))
        else do { k \<leftarrow> ipc_wait (SuspendQ i) t (ipc_flag i k) timeout (asking t s opt k);
                  Some (Blocked, None, k) })"
proof -
  let ?ev = "ev_set (events k i)" and ?a = "asking t (ev_set (events k i) AND s) opt k"
  have hit: "(if opt AND RT_EVENT_FLAG_AND \<noteq> 0 then Some (?ev AND s = s)
      else if opt AND RT_EVENT_FLAG_OR \<noteq> 0 then Some (?ev AND s \<noteq> 0) else None) = Some (ev_sat ?ev s opt)"
    using assms(5) by (auto simp: ev_sat_def valid_option_def and.commute)
  have ev: "(if opt AND RT_EVENT_FLAG_CLEAR \<noteq> 0 then set_event i (?ev AND NOT s) ?a else ?a)
      = set_event i (ev_left ?ev s opt) ?a"
    using set_event_same [of i ?a] by (simp add: ev_left_def)
  have er: "error (threads (set_event i (ev_left ?ev s opt) ?a) t) = RT_EOK" by simp
  have self: "rt_thread_self k = Some t" using assms(2) by (simp add: rt_thread_self_def running_def)
  have asr: "assert_ipc RT_Object_Class_Event i k = Some ()"
    using assms(1) by (simp add: assert_ipc_ok event_ok_def)
  have cl: "events (clear_error t k) = events k" "ipc_flag i (asking t s opt k) = ipc_flag i k" by simp_all
  show ?thesis
    unfolding rt_event_recv_start_def in_thread_context [OF assms(2,3)] asr self Option.bind.simps
      Let_def cl hit asking_def [symmetric] ev er using assms(4) by simp
qed

lemma recv_blocks:
  assumes inv: "kinv {} k" and ok: "event_ok i k" and run: "running k t" and tm: "time_ok time"
    and v: "valid_option opt" and ns: "\<not> ev_sat (ev_set (events k i)) s opt"
  shows "\<exists>k'. ipc_wait (SuspendQ i) t (ipc_flag i k) time (asking t s opt k) = Some k'
     \<and> blocked (SuspendQ i) t (ipc_flag i k) time (asking t s opt k) k' \<and> event_ok i k'
     \<and> map (waiter k') (queues k' (SuspendQ i)) = map (waiter (asking t s opt k))
           (enlist (ipc_flag i k) (\<lambda>s. current_priority (threads k s)) t (queues k (SuspendQ i)))
     \<and> ev_set (events k' i) = ev_set (events k i) \<and> ipc_frame i {t} k k'"
proof -
  let ?a = "asking t s opt k" and ?q = "queues k (SuspendQ i)"
  note a = asking_ok [OF inv run, of s opt]
  have f: "ipc_flag i k = RT_IPC_FLAG_FIFO \<or> ipc_flag i k = RT_IPC_FLAG_PRIO"
    using ok by (simp add: event_ok_def ipc_object_ok_def)
  obtain k' where k': "ipc_wait (SuspendQ i) t (ipc_flag i k) time ?a = Some k'"
      "blocked (SuspendQ i) t (ipc_flag i k) time ?a k'"
    using wait_ok [OF a(1,2) _ f tm, of "SuspendQ i" i] by auto
  have q: "queues k' (SuspendQ i) = enlist (ipc_flag i k) (\<lambda>s. current_priority (threads k s)) t ?q"
    and fr: "kframe ?a k'" and th: "event_set (threads k' x) = event_set (threads ?a x)"
      "event_info (threads k' x) = event_info (threads ?a x)" for x
    using k'(2) by (simp_all add: blocked_def)
  have w: "waiter k' = waiter ?a" by (simp add: waiter_def th fun_eq_iff)
  have ev: "ev_set (events k' i) = ev_set (events k i)" using fr by (simp add: kframe_def)
  have "event_ok i k'"
  proof -
    have "ipc_object_ok RT_Object_Class_Event i k'"
      using ok ipc_object_frame [OF fr] ipc_object_frame [OF a(3)] by (simp add: event_ok_def)
    moreover have "valid_option (event_info (threads k' x))
        \<and> \<not> ev_sat (ev_set (events k' i)) (event_set (threads k' x)) (event_info (threads k' x))"
      if "x \<in> set (queues k' (SuspendQ i))" for x
    proof (cases "x = t")
      case True
      then show ?thesis using v ns by (simp add: th ev) (simp add: asking_def)
    next
      case False
      then have "x \<in> set ?q" using that q by simp
      then show ?thesis using ok False by (simp add: th ev event_ok_def)
    qed
    ultimately show ?thesis by (simp add: event_ok_def)
  qed
  moreover have "ipc_frame i {t} k k'" by (rule ipc_frame_trans [OF ipc_frame_asking blocked_frame [OF k'(2)]]) simp
  ultimately show ?thesis using k' q w ev by simp
qed

lemma ex_event: "event_ok 2 ex_kernel"
  by (simp add: event_ok_def ipc_object_ok_def ipc_flag_def rt_object_get_type_def)

lemma ex_or: "valid_option 6" "\<not> ev_sat 0 5 6" "ev_sat 4 5 6"
  by (simp_all add: valid_option_def ev_sat_def)

lemma event_recv_ok:
  assumes "kinv {} k" "event_ok i k" "running k t" "interrupt_nest k = 0" "time_ok time"
  shows "if s = 0 then rt_event_recv_start i s opt time k = Some (Returned (- RT_ERROR), None, k)
     else if \<not> valid_option opt then rt_event_recv_start i s opt time k = None
     else \<exists>r got k'. rt_event_recv_start i s opt time k = Some (r, got, k') \<and> kinv {} k' \<and> event_ok i k'
       \<and> ipc_frame i {t} k k' \<and> (if ev_sat (ev_set (events k i)) s opt
          then r = Returned RT_EOK \<and> got = Some (ev_set (events k i) AND s)
            \<and> ev_set (events k' i) = ev_left (ev_set (events k i)) s opt \<and> queues k' = queues k
          else got = None \<and> ev_set (events k' i) = ev_set (events k i)
            \<and> (if time = 0 then r = Returned (- RT_ETIMEOUT) \<and> queues k' = queues k
               else r = Blocked \<and> blocked (SuspendQ i) t (ipc_flag i k) time (asking t s opt k) k'
                 \<and> map (waiter k') (queues k' (SuspendQ i)) = map (waiter (asking t s opt k))
                     (enlist (ipc_flag i k) (\<lambda>s. current_priority (threads k s)) t (queues k (SuspendQ i)))))"
proof -
  let ?ev = "ev_set (events k i)"
  have io: "ipc_object_ok RT_Object_Class_Event i k" using assms(2) by (simp add: event_ok_def)
  have self: "rt_thread_self k = Some t" using assms(3) by (simp add: rt_thread_self_def running_def)
  have fail: "s = 0 \<or> valid_option opt \<or> rt_event_recv_start i s opt time k = None"
    using self in_thread_context [OF assms(3,4)] assert_ipc_ok [OF io]
    by (simp add: rt_event_recv_start_def valid_option_def Let_def)
  have zero: "s = 0 \<Longrightarrow> rt_event_recv_start i s opt time k = Some (Returned (- RT_ERROR), None, k)"
    using in_thread_context [OF assms(3,4)] assert_ipc_ok [OF io] by (simp add: rt_event_recv_start_def)
  have tq: "t \<notin> set (queues k (SuspendQ i))"
    using running_unlinked [OF assms(1,3)] by (simp add: detached_def)
  have main: ?thesis if s: "s \<noteq> 0" "valid_option opt"
  proof -
    note eq = recv_start_eq [OF assms(2-4) s, of time, unfolded Let_def]
    consider "ev_sat ?ev s opt" | "\<not> ev_sat ?ev s opt" "time = 0" | "\<not> ev_sat ?ev s opt" "time \<noteq> 0" by blast
    then show ?thesis
    proof cases
      case 1
      let ?a = "asking t (?ev AND s) opt k"
      let ?k' = "set_event i (ev_left ?ev s opt) ?a"
      note a = asking_ok [OF assms(1,3), of "?ev AND s" opt]
      have "valid_option (event_info (threads ?k' x))
          \<and> \<not> ev_sat (ev_left ?ev s opt) (event_set (threads ?k' x)) (event_info (threads ?k' x))"
        if "x \<in> set (queues k (SuspendQ i))" for x
      proof -
        have "x \<noteq> t" using that tq by auto
        then show ?thesis using assms(2) that ev_left_sat [of ?ev s opt] by (auto simp: event_ok_def)
      qed
      then have "event_ok i ?k'"
        using io ipc_object_frame [OF a(3)] by (simp add: event_ok_def)
      then show ?thesis using eq 1 a(1) s ipc_frame_trans [OF ipc_frame_asking ipc_frame_set_event] by simp
    next
      case 2
      let ?k' = "upd_thread t (\<lambda>th. th\<lparr>error := - RT_ETIMEOUT\<rparr>) (clear_error t k)"
      have k': "kinv {} ?k'" using clear_error_ok(1) [OF assms(1,3)] by (intro upd_thread_kinv) simp_all
      have "event_ok i ?k'"
        using assms(2) ipc_object_frame [OF kframe_trans [OF kframe_clear_error kframe_upd_thread]]
        by (auto simp: event_ok_def clear_error_def)
      moreover have "ipc_frame i {t} k ?k'"
        by (rule ipc_frame_trans [OF ipc_frame_clear_error ipc_frame_upd_thread]) simp_all
      ultimately show ?thesis using eq 2 k' s by simp
    next
      case 3
      then show ?thesis using eq recv_blocks [OF assms(1-3,5) s(2) 3(1)] s by (auto simp: blocked_def)
    qed
  qed
  show ?thesis using fail zero main by (cases "s = 0"; cases "valid_option opt") auto
qed

text \<open>
  C13. \<open>rt_event_recv\<close> with at least one bit and a legal option, by the running thread: if the
  condition holds it returns the bits at once, clearing them if asked to; otherwise it
  returns \<open>-RT_ETIMEOUT\<close> without waiting, or blocks with its bits and options noted and its
  timer set. Without bits it fails, and an option without AND and OR stops in an assertion.
  Nobody waits for bits that are set afterwards, and the kernel is consistent.
\<close>

theorem rt_event_recv_refines:
  assumes "kinv {} k" "event_ok i k" "running k t" "interrupt_nest k = 0" "time_ok time"
  shows "if s = 0 then rt_event_recv_start i s opt time k = Some (Returned (- RT_ERROR), None, k)
     else if \<not> valid_option opt then rt_event_recv_start i s opt time k = None
     else \<exists>r got k'. rt_event_recv_start i s opt time k = Some (r, got, k') \<and> kinv {} k' \<and> event_ok i k'
       \<and> (if ev_sat (ev_set (events k i)) s opt
          then r = Returned RT_EOK \<and> got = Some (ev_set (events k i) AND s)
            \<and> ev_set (events k' i) = ev_left (ev_set (events k i)) s opt \<and> queues k' = queues k
          else got = None \<and> ev_set (events k' i) = ev_set (events k i)
            \<and> (if time = 0 then r = Returned (- RT_ETIMEOUT) \<and> queues k' = queues k
               else r = Blocked \<and> blocked (SuspendQ i) t (ipc_flag i k) time (asking t s opt k) k'
                 \<and> map (waiter k') (queues k' (SuspendQ i)) = map (waiter (asking t s opt k))
                     (enlist (ipc_flag i k) (\<lambda>s. current_priority (threads k s)) t (queues k (SuspendQ i)))))"
proof (cases "s = 0 \<or> \<not> valid_option opt")
  case True
  then show ?thesis using event_recv_ok [OF assms, of s opt] by auto
next
  case False
  then have n: "s \<noteq> 0" "\<not> \<not> valid_option opt" by simp_all
  show ?thesis
    using event_recv_ok [OF assms, of s opt, unfolded if_not_P [OF n(1)] if_not_P [OF n(2)]]
    unfolding if_not_P [OF n(1)] if_not_P [OF n(2)] by blast
qed

theorem rt_event_recv_refines_witness:
  "\<exists>k'. rt_event_recv_start 2 5 6 30 ex_kernel = Some (Blocked, None, k') \<and> event_ok 2 k'
     \<and> map (waiter k') (queues k' (SuspendQ 2)) = [(0, 5, 6)]"
proof -
  have "interrupt_nest ex_kernel = 0" "time_ok 30" by (simp_all add: time_ok_def)
  from rt_event_recv_refines [OF ex_kinv ex_event ex_running this, of 5 6] show ?thesis
    by (auto simp: ex_or enlist_def ipc_flag_def)
qed

text \<open>A thread that waits for any of the bits 0 and 2, clearing what it gets.\<close>

lemma ex_asking:
  "\<exists>k. rt_event_recv_start 2 5 6 30 ex_kernel = Some (Blocked, None, k) \<and> kinv {} k \<and> event_ok 2 k
     \<and> map (waiter k) (queues k (SuspendQ 2)) = [(0, 5, 6)] \<and> ev_set (events k 2) = 0
     \<and> current_thread k \<noteq> None"
proof -
  have n: "interrupt_nest ex_kernel = 0" "(5::u32) \<noteq> 0" "time_ok 30" by (simp_all add: time_ok_def)
  have ns: "\<not> ev_sat (ev_set (events ex_kernel 2)) 5 6" by (simp add: ex_or)
  from recv_blocks [OF ex_kinv ex_event ex_running n(3) ex_or(1) ns] obtain k where
    k: "ipc_wait (SuspendQ 2) 0 (ipc_flag 2 ex_kernel) 30 (asking 0 5 6 ex_kernel) = Some k"
    "blocked (SuspendQ 2) 0 (ipc_flag 2 ex_kernel) 30 (asking 0 5 6 ex_kernel) k" "event_ok 2 k"
    "map (waiter k) (queues k (SuspendQ 2)) = map (waiter (asking 0 5 6 ex_kernel))
        (enlist (ipc_flag 2 ex_kernel) (\<lambda>s. current_priority (threads ex_kernel s)) 0 (queues ex_kernel (SuspendQ 2)))"
    "ev_set (events k 2) = ev_set (events ex_kernel 2)" by blast
  have "rt_event_recv_start 2 5 6 30 ex_kernel = Some (Blocked, None, k)"
    using k(1) by (simp add: recv_start_eq [OF ex_event ex_running n(1,2) ex_or(1)] ex_or ipc_flag_def)
  moreover have "current_thread k \<noteq> None"
    using k(2) by (simp add: blocked_def)
  ultimately show ?thesis
    using k(2-5) by (auto simp: blocked_def enlist_def ipc_flag_def)
qed

text \<open>
  C12. \<open>rt_event_send\<close>: no bits is an error and changes nothing; otherwise the line is served
  in order exactly as the abstract send says: each waiter whose condition holds gets its
  bits, clears them if it asked to, and is ready with its timer stopped and its error
  unchanged; the others wait on in order. Afterwards nobody waits for bits that are set
  (no wake-up is lost), and the kernel is consistent.
\<close>

theorem rt_event_send_refines:
  assumes "kinv {} k" "event_ok i k" "current_thread k = Some c"
  shows "if s = 0 then rt_event_send i s k = Some (- RT_ERROR, k)
         else \<exists>k'. rt_event_send i s k = Some (RT_EOK, k') \<and>
           event_result i k (event_send_spec (ev_set (events k i) OR s)
               (map (waiter k) (queues k (SuspendQ i)))) k'"
  by (rule event_send_ok [OF assms])

theorem rt_event_send_refines_witness:
  "\<exists>k k'. rt_event_recv_start 2 5 6 30 ex_kernel = Some (Blocked, None, k)
     \<and> rt_event_send 2 4 k = Some (RT_EOK, k') \<and> received k' 0 4 \<and> ev_set (events k' 2) = 0"
proof -
  obtain k c where k: "rt_event_recv_start 2 5 6 30 ex_kernel = Some (Blocked, None, k)" "kinv {} k"
      "event_ok 2 k" "map (waiter k) (queues k (SuspendQ 2)) = [(0, 5, 6)]" "ev_set (events k 2) = 0"
      "current_thread k = Some c"
    using ex_asking by auto
  from rt_event_send_refines [OF k(2,3,6), of 4] show ?thesis
    using k(1,4,5) by (auto simp: event_result_def ex_or ev_left_def)
qed

end
