(* ===== verification/RT_Channel.thy ===== *)
theory RT_Channel
  imports RT_Ipc
begin

text \<open>
  What mailboxes and message queues share: waking the first waiter of a list, the time that
  is left after a wake-up, a bounded channel with two waiting lines in abstract terms,
  and the contract of the stores the messages are kept in.
\<close>

section \<open>Code both have\<close>

text \<open>If the list is not empty, resume its first thread and let the scheduler switch.\<close>

definition ipc_wake_first :: "qhead \<Rightarrow> kernel \<Rightarrow> kernel option" where
  "ipc_wake_first h k =
     (if queues k h \<noteq> [] then do { k \<leftarrow> rt_ipc_list_resume h k; rt_schedule k } else Some k)"

text \<open>\<open>timeout -= rt_tick_get() - tick_delta; if (timeout < 0) timeout = 0;\<close> for a time limit.\<close>

definition ipc_remaining :: "u32 \<Rightarrow> u32 \<Rightarrow> u32 \<Rightarrow> u32" where
  "ipc_remaining timeout tick_delta now =
     (if 0 < sint timeout
      then let timeout = timeout - (now - tick_delta)
           in if sint timeout < 0 then 0 else timeout
      else timeout)"

text \<open>The local variables \<open>timeout\<close> and \<open>tick_delta\<close> after a wake-up.\<close>

definition ipc_locals_after :: "u32 \<Rightarrow> u32 \<times> u32 \<Rightarrow> u32 \<times> u32" where
  "ipc_locals_after now loc =
     (case loc of (timeout, tick_delta) \<Rightarrow>
        (ipc_remaining timeout tick_delta now, if 0 < sint timeout then now - tick_delta else tick_delta))"

section \<open>The time that is left\<close>

lemma diff_range:
  "0 < x \<Longrightarrow> x < 2 ^ 31 \<Longrightarrow> 0 \<le> y \<Longrightarrow> y < 2 ^ 31 \<Longrightarrow> - (2 ^ 31) \<le> x - y \<and> x - y < (2 ^ 31 :: int)"
  by simp

lemma sint_minus:
  assumes "0 < sint (a::u32)" "uint d < 2 ^ 31"
  shows "sint (a - d) = sint a - uint d"
proof -
  have a: "sint a < 2 ^ 31" using sint_lt [of a] by simp
  have "sint (word_of_int (sint a - uint d) :: u32) = signed_take_bit 31 (sint a - uint d)"
    by (simp only: signed_of_int) simp
  moreover have "a - d = word_of_int (sint a - uint d)" by simp
  ultimately have "sint (a - d) = signed_take_bit 31 (sint a - uint d)" by (simp only:)
  also have "\<dots> = sint a - uint d"
    using diff_range [OF assms(1) a uint_ge_0 assms(2)] by (intro signed_take_bit_int_eq_self) blast+
  finally show ?thesis .
qed

lemma ipc_remaining_sint:
  assumes "0 < sint timeout" "uint (now - tick_delta) < 2 ^ 31"
  shows "sint (ipc_remaining timeout tick_delta now) = max 0 (sint timeout - uint (now - tick_delta))"
  using sint_minus [OF assms] assms(1) by (simp add: ipc_remaining_def Let_def)


lemma ipc_remaining_time_ok:
  assumes "time_ok timeout" "uint (now - tick_delta) < 2 ^ 31"
  shows "time_ok (ipc_remaining timeout tick_delta now)"
proof (cases "0 < sint timeout")
  case True
  have "max 0 (x - y) < 0x7fffffff" if "0 \<le> y" "x < 0x7fffffff" for x y :: int using that by simp
  from this [OF uint_ge_0, of "sint timeout"] show ?thesis
    using assms(1) ipc_remaining_sint [OF True assms(2)] by (simp add: time_ok_def)
qed (use assms(1) in \<open>simp add: ipc_remaining_def\<close>)

section \<open>Waking the first waiter\<close>

lemma wake_first_ok:
  assumes inv: "kinv {} k" and cur: "current_thread k \<noteq> None" and h: "h = SuspendQ i \<or> h = SenderQ i"
  shows "\<exists>k'. ipc_wake_first h k = Some k' \<and> kinv {} k' \<and> kframe k k' \<and> current_thread k' \<noteq> None
     \<and> queues k' h = tl (queues k h)
     \<and> (\<forall>g. \<not> is_ready_queue g \<longrightarrow> g \<noteq> h \<longrightarrow> queues k' g = queues k g)
     \<and> (\<forall>t ts. queues k h = t # ts \<longrightarrow> woken h t k k') \<and> ipc_frame i X k k'"
proof (cases "queues k h")
  case Nil
  then show ?thesis using inv cur by (simp add: ipc_wake_first_def kframe_refl ipc_frame_refl)
next
  case (Cons t ts)
  obtain c where "current_thread k = Some c" using cur by auto
  from resume_schedule [OF inv h Cons this] obtain k' where
    k': "rt_schedule (resumed t k) = Some k'" "woken h t k k'" by blast
  have "ipc_wake_first h k = Some k'" using k'(1) resume_first(1) [OF inv h Cons] Cons by (simp add: ipc_wake_first_def)
  moreover note woken_frame [OF k'(2) h, of X]
  ultimately show ?thesis using k'(2) Cons by (intro exI [of _ k']) (simp add: woken_def)
qed

text \<open>The first thread of the line \<open>h\<close>, if there is one, has been made ready without an error, and its
  timer does not run.\<close>

definition made_ready :: "qhead \<Rightarrow> kernel \<Rightarrow> kernel \<Rightarrow> bool" where
  "made_ready h k k' \<longleftrightarrow> (\<forall>p ps. queues k h = p # ps \<longrightarrow>
     tstate (threads k' p) \<in> {RT_THREAD_READY, RT_THREAD_RUNNING} \<and> error (threads k' p) = error (threads k p)
     \<and> ThreadTimer p \<notin> set (tlists k' HardList))"

lemma woken_made_ready:
  assumes "\<forall>t ts. queues k h = t # ts \<longrightarrow> woken h t k0 k'" "threads k0 = threads k"
  shows "made_ready h k k'"
  using assms by (auto simp: made_ready_def woken_def)

section \<open>Blocking on one of the two lines\<close>

lemma chan_blocks:
  assumes inv: "kinv {} k" and run: "running k t" and ok: "ipc_object_ok ty i k" and tm: "time_ok time"
    and h: "h = SuspendQ i \<or> h = SenderQ i"
  shows "\<exists>k'. ipc_wait h t (ipc_flag i k) time (clear_error t k) = Some k'
     \<and> blocked h t (ipc_flag i k) time (clear_error t k) k' \<and> kinv {} k' \<and> kframe k k'
     \<and> queues k' h = enlist (ipc_flag i k) (\<lambda>s. current_priority (threads k s)) t (queues k h)
     \<and> (\<forall>g. \<not> is_ready_queue g \<longrightarrow> g \<noteq> h \<longrightarrow> queues k' g = queues k g)"
proof -
  note c = clear_error_ok [OF inv run]
  have f: "ipc_flag i k = RT_IPC_FLAG_FIFO \<or> ipc_flag i k = RT_IPC_FLAG_PRIO"
    using ok by (simp add: ipc_object_ok_def)
  obtain k' where k': "ipc_wait h t (ipc_flag i k) time (clear_error t k) = Some k'"
      "blocked h t (ipc_flag i k) time (clear_error t k) k'"
    using wait_ok [OF c h f tm] by blast
  then show ?thesis
    using kframe_trans [OF kframe_clear_error, of t k k'] by (auto simp: blocked_def)
qed

section \<open>A bounded channel in abstract terms\<close>

text \<open>The messages, the line of receivers and the line of senders. \<open>join\<close> puts the caller
  into its line, \<open>wait\<close> says whether it may wait.\<close>

type_synonym 'v chan = "'v list \<times> tid list \<times> tid list"

fun chan_send_spec :: "nat \<Rightarrow> (tid list \<Rightarrow> tid list) \<Rightarrow> bool \<Rightarrow> 'v \<Rightarrow> 'v chan \<Rightarrow> ipc_result \<times> 'v chan" where
  "chan_send_spec cap join wait v (vs, rs, ss) =
     (if length vs < cap then (Returned RT_EOK, (vs @ [v], tl rs, ss))
      else if wait then (Blocked, (vs, rs, join ss))
      else (Returned (- RT_EFULL), (vs, rs, ss)))"

fun chan_urgent_spec :: "nat \<Rightarrow> 'v \<Rightarrow> 'v chan \<Rightarrow> rt_err_t \<times> 'v chan" where
  "chan_urgent_spec cap v (vs, rs, ss) =
     (if length vs < cap then (RT_EOK, (v # vs, tl rs, ss)) else (- RT_EFULL, (vs, rs, ss)))"

fun chan_recv_spec :: "(tid list \<Rightarrow> tid list) \<Rightarrow> bool \<Rightarrow> 'v chan \<Rightarrow> ipc_result \<times> 'v option \<times> 'v chan" where
  "chan_recv_spec join wait (v # vs, rs, ss) = (Returned RT_EOK, Some v, (vs, rs, tl ss))"
| "chan_recv_spec join wait ([], rs, ss) =
     (if wait then (Blocked, None, ([], join rs, ss)) else (Returned (- RT_ETIMEOUT), None, ([], rs, ss)))"

section \<open>The contract of a message store\<close>

datatype 'v store_op = Store_put 'v | Store_urgent 'v | Store_get

text \<open>A run of operations, skipping puts into a full store and gets from an empty one, and
  what it delivers; the same run on a plain list.\<close>

fun store_run :: "('q \<Rightarrow> 'v \<Rightarrow> bool) \<Rightarrow> ('v \<Rightarrow> 'q \<Rightarrow> 'q option) \<Rightarrow> ('v \<Rightarrow> 'q \<Rightarrow> 'q option) \<Rightarrow>
    ('q \<Rightarrow> bool) \<Rightarrow> ('q \<Rightarrow> ('v \<times> 'q) option) \<Rightarrow> 'v store_op list \<Rightarrow> 'q \<Rightarrow> ('v list \<times> 'q) option" where
  "store_run room put urgent none get [] q = Some ([], q)"
| "store_run room put urgent none get (Store_put v # ops) q =
     (if room q v then do { q \<leftarrow> put v q; store_run room put urgent none get ops q }
      else store_run room put urgent none get ops q)"
| "store_run room put urgent none get (Store_urgent v # ops) q =
     (if room q v then do { q \<leftarrow> urgent v q; store_run room put urgent none get ops q }
      else store_run room put urgent none get ops q)"
| "store_run room put urgent none get (Store_get # ops) q =
     (if none q then store_run room put urgent none get ops q
      else do { (v, q) \<leftarrow> get q;
                (vs, q) \<leftarrow> store_run room put urgent none get ops q;
                Some (v # vs, q) })"

fun list_run :: "nat \<Rightarrow> 'v store_op list \<Rightarrow> 'v list \<Rightarrow> 'v list \<times> 'v list" where
  "list_run cap [] vs = ([], vs)"
| "list_run cap (Store_put v # ops) vs = list_run cap ops (if length vs < cap then vs @ [v] else vs)"
| "list_run cap (Store_urgent v # ops) vs = list_run cap ops (if length vs < cap then v # vs else vs)"
| "list_run cap (Store_get # ops) vs =
     (case vs of [] \<Rightarrow> list_run cap ops [] | v # vs \<Rightarrow> map_prod (\<lambda>out. v # out) id (list_run cap ops vs))"

definition op_fits :: "('q \<Rightarrow> 'v \<Rightarrow> bool) \<Rightarrow> 'q \<Rightarrow> 'v store_op \<Rightarrow> bool" where
  "op_fits fits q x \<longleftrightarrow> (case x of Store_put v \<Rightarrow> fits q v | Store_urgent v \<Rightarrow> fits q v | Store_get \<Rightarrow> True)"

fun is_urgent :: "'v store_op \<Rightarrow> bool" where
  "is_urgent (Store_urgent v) \<longleftrightarrow> True"
| "is_urgent x \<longleftrightarrow> False"

text \<open>A store that is filled at its end and emptied at its front.\<close>

locale message_queue =
  fixes inv :: "'q \<Rightarrow> bool"
    and content :: "'q \<Rightarrow> 'v list"
    and capacity :: "'q \<Rightarrow> nat"
    and fits :: "'q \<Rightarrow> 'v \<Rightarrow> bool"
    and room :: "'q \<Rightarrow> 'v \<Rightarrow> bool"
    and none :: "'q \<Rightarrow> bool"
    and put :: "'v \<Rightarrow> 'q \<Rightarrow> 'q option"
    and get :: "'q \<Rightarrow> ('v \<times> 'q) option"
  assumes room_law: "inv q \<Longrightarrow> fits q v \<Longrightarrow> room q v \<longleftrightarrow> length (content q) < capacity q"
    and none_law: "inv q \<Longrightarrow> none q \<longleftrightarrow> content q = []"
    and put_law: "inv q \<Longrightarrow> fits q v \<Longrightarrow> length (content q) < capacity q \<Longrightarrow>
      \<exists>q'. put v q = Some q' \<and> inv q' \<and> content q' = content q @ [v] \<and> capacity q' = capacity q \<and> fits q' = fits q"
    and get_law: "inv q \<Longrightarrow> content q = v # vs \<Longrightarrow>
      \<exists>q'. get q = Some (v, q') \<and> inv q' \<and> content q' = vs \<and> capacity q' = capacity q \<and> fits q' = fits q"
begin

text \<open>A run with any third operation that puts in front, as far as the run uses it.\<close>

lemma run_with_urgent:
  assumes urgent_law: "\<And>q v. inv q \<Longrightarrow> fits q v \<Longrightarrow> Store_urgent v \<in> U \<Longrightarrow> length (content q) < capacity q \<Longrightarrow>
      \<exists>q'. urgent v q = Some q' \<and> inv q' \<and> content q' = v # content q \<and> capacity q' = capacity q \<and> fits q' = fits q"
  shows "inv q \<Longrightarrow> set ops \<subseteq> U \<Longrightarrow> \<forall>x \<in> set ops. op_fits fits q x \<Longrightarrow>
     \<exists>out q'. store_run room put urgent none get ops q = Some (out, q') \<and> inv q'
       \<and> capacity q' = capacity q \<and> (out, content q') = list_run (capacity q) ops (content q)"
proof (induction ops arbitrary: q)
  case (Cons x ops)
  have f: "op_fits fits q x" and U: "x \<in> U" using Cons(3,4) by simp_all
  have IH: "\<exists>out q''. store_run room put urgent none get ops q' = Some (out, q'') \<and> inv q''
       \<and> capacity q'' = capacity q \<and> (out, content q'') = list_run (capacity q) ops (content q')"
    if "inv q'" "capacity q' = capacity q" "fits q' = fits q" for q'
  proof -
    have "\<forall>x \<in> set ops. op_fits fits q' x" using Cons(4) that(3) by (simp add: op_fits_def cong: store_op.case_cong)
    from Cons(1) [OF that(1) _ this] Cons(3) that(2) show ?thesis by simp
  qed
  show ?case
  proof (cases x)
    case (Store_put v)
    show ?thesis
    proof (cases "length (content q) < capacity q")
      case True
      obtain q' where "put v q = Some q'" "inv q'" "content q' = content q @ [v]" "capacity q' = capacity q" "fits q' = fits q"
        using put_law [OF Cons(2) _ True, of v] f Store_put by (auto simp: op_fits_def)
      then show ?thesis using IH [of q'] True room_law [OF Cons(2), of v] f Store_put by (simp add: op_fits_def)
    qed (use IH [of q] Cons(2) room_law [OF Cons(2), of v] f Store_put in \<open>simp add: op_fits_def\<close>)
  next
    case (Store_urgent v)
    show ?thesis
    proof (cases "length (content q) < capacity q")
      case True
      obtain q' where "urgent v q = Some q'" "inv q'" "content q' = v # content q" "capacity q' = capacity q" "fits q' = fits q"
        using urgent_law [OF Cons(2) _ _ True, of v] f U Store_urgent by (auto simp: op_fits_def)
      then show ?thesis using IH [of q'] True room_law [OF Cons(2), of v] f Store_urgent by (simp add: op_fits_def)
    qed (use IH [of q] Cons(2) room_law [OF Cons(2), of v] f Store_urgent in \<open>simp add: op_fits_def\<close>)
  next
    case Store_get
    show ?thesis
    proof (cases "content q")
      case (Cons v vs)
      obtain q' where q': "get q = Some (v, q')" "inv q'" "content q' = vs" "capacity q' = capacity q" "fits q' = fits q"
        using get_law [OF Cons.prems(1) Cons] by blast
      show ?thesis
        using IH [OF q'(2,4,5)] q' none_law [OF Cons.prems(1)] Store_get Cons
        by (cases "list_run (capacity q) ops vs") auto
    qed (use IH [of q] Cons(2) none_law [OF Cons(2)] Store_get in simp)
  qed
qed simp

lemma run_refines:
  assumes "inv q" "\<forall>x \<in> set ops. op_fits fits q x \<and> \<not> is_urgent x"
  shows "\<exists>out q'. store_run room put urgent none get ops q = Some (out, q') \<and> inv q'
       \<and> capacity q' = capacity q \<and> (out, content q') = list_run (capacity q) ops (content q)"
  using run_with_urgent [of "{x. \<not> is_urgent x}" urgent q ops] assms by auto

end

text \<open>A store that takes an urgent message at its front.\<close>

locale message_store = message_queue inv content capacity fits room none put get
  for inv :: "'q \<Rightarrow> bool" and content :: "'q \<Rightarrow> 'v list" and capacity fits room none put get +
  fixes urgent :: "'v \<Rightarrow> 'q \<Rightarrow> 'q option"
  assumes urgent_law: "inv q \<Longrightarrow> fits q v \<Longrightarrow> length (content q) < capacity q \<Longrightarrow>
      \<exists>q'. urgent v q = Some q' \<and> inv q' \<and> content q' = v # content q \<and> capacity q' = capacity q \<and> fits q' = fits q"
begin

lemma run_urgent_refines:
  assumes "inv q" "\<forall>x \<in> set ops. op_fits fits q x"
  shows "\<exists>out q'. store_run room put urgent none get ops q = Some (out, q') \<and> inv q'
       \<and> capacity q' = capacity q \<and> (out, content q') = list_run (capacity q) ops (content q)"
  using run_with_urgent [of UNIV urgent q ops] urgent_law assms by auto

end

end
