(* ===== verification/RT_Mailbox.thy ===== *)
theory RT_Mailbox
  imports RT_Channel
begin

text \<open>
  Mailboxes (\<open>src/ipc.c\<close>): a circular buffer of words with a line of receivers and a line of
  senders. The loops of \<open>rt_mb_send_wait\<close> and \<open>rt_mb_recv\<close> are split at their \<open>rt_schedule\<close>:
  \<open>try\<close> is the test of the loop with what follows it up to the switch or the return,
  \<open>wake\<close> what the thread does when it runs again. The local variables \<open>timeout\<close> and
  \<open>tick_delta\<close> are carried from one to the other. A null pointer and an access outside the
  pool have no result.
\<close>

section \<open>Operations\<close>

definition upd_mb :: "oid \<Rightarrow> (rt_mailbox \<Rightarrow> rt_mailbox) \<Rightarrow> kernel \<Rightarrow> kernel" where
  "upd_mb i f k = k\<lparr>mailboxes := (mailboxes k)(i := f (mailboxes k i))\<rparr>"

definition init_sender_list :: "oid \<Rightarrow> kernel \<Rightarrow> kernel" where
  "init_sender_list i k = k\<lparr>queues := q_replace (SenderQ i) [] (queues k)\<rparr>"

text \<open>The pool of a static mailbox is the memory the caller gives.\<close>

definition rt_mb_init :: "oid \<Rightarrow> string \<Rightarrow> u32 list \<Rightarrow> u32 \<Rightarrow> u8 \<Rightarrow> kernel \<Rightarrow> (rt_err_t \<times> kernel) option" where
  "rt_mb_init i name pool sz flag k =
     do { k \<leftarrow> rt_object_init (OIpc i) RT_Object_Class_MailBox name k;
          let k = set_ipc_flag i flag k;
          let k = rt_ipc_object_init i k;
          let k = upd_mb i (\<lambda>_. \<lparr>mb_pool = pool, mb_size = ucast sz, mb_entry = 0,
                                 in_offset = 0, out_offset = 0\<rparr>) k;
          Some (RT_EOK, init_sender_list i k) }"

definition rt_mb_detach :: "oid \<Rightarrow> kernel \<Rightarrow> (rt_err_t \<times> kernel) option" where
  "rt_mb_detach i k =
     do { assert_ipc RT_Object_Class_MailBox i k;
          rt_assert (rt_object_is_systemobject (OIpc i) k);
          k \<leftarrow> rt_ipc_list_resume_all (SuspendQ i) k;
          k \<leftarrow> rt_ipc_list_resume_all (SenderQ i) k;
          Some (RT_EOK, rt_object_detach (OIpc i) k) }"

text \<open>\<open>rt_mb_create\<close>: the answers of the heap for the object and for the pool are arguments.\<close>

definition rt_mb_create ::
    "oid option \<Rightarrow> u32 list option \<Rightarrow> string \<Rightarrow> u32 \<Rightarrow> u8 \<Rightarrow> kernel \<Rightarrow> (oid option \<times> kernel) option" where
  "rt_mb_create mem pool name sz flag k =
     do { RT_DEBUG_NOT_IN_INTERRUPT k;
          (r, k) \<leftarrow> rt_object_allocate (map_option OIpc mem) RT_Object_Class_MailBox name k;
          case (r, mem) of
            (Some _, Some i) \<Rightarrow>
              do { let k = set_ipc_flag i flag k;
                   let k = rt_ipc_object_init i k;
                   let k = upd_mb i (\<lambda>m. m\<lparr>mb_size := ucast sz\<rparr>) k;
                   case pool of
                     None \<Rightarrow> do { (_, k) \<leftarrow> rt_object_delete (OIpc i) k; Some (None, k) }
                   | Some pool \<Rightarrow>
                       let k = upd_mb i (\<lambda>m. m\<lparr>mb_pool := pool, mb_entry := 0, in_offset := 0, out_offset := 0\<rparr>) k
                       in Some (Some i, init_sender_list i k) }
          | _ \<Rightarrow> Some (None, k) }"

definition rt_mb_delete :: "oid \<Rightarrow> kernel \<Rightarrow> (rt_err_t \<times> kernel) option" where
  "rt_mb_delete i k =
     do { RT_DEBUG_NOT_IN_INTERRUPT k;
          assert_ipc RT_Object_Class_MailBox i k;
          rt_assert (\<not> rt_object_is_systemobject (OIpc i) k);
          k \<leftarrow> rt_ipc_list_resume_all (SuspendQ i) k;
          k \<leftarrow> rt_ipc_list_resume_all (SenderQ i) k;
          (_, k) \<leftarrow> rt_object_delete (OIpc i) k;
          Some (RT_EOK, k) }"

text \<open>Storing a word at the end, at the front, and taking the first one: the lines on the
  pool of \<open>rt_mb_send_wait\<close>, \<open>rt_mb_urgent\<close> and \<open>rt_mb_recv\<close>.\<close>

definition pool_write :: "u16 \<Rightarrow> u32 \<Rightarrow> rt_mailbox \<Rightarrow> rt_mailbox option" where
  "pool_write off v m =
     (if unat off < length (mb_pool m) then Some (m\<lparr>mb_pool := (mb_pool m)[unat off := v]\<rparr>) else None)"

definition mb_full :: "rt_mailbox \<Rightarrow> bool" where
  "mb_full m \<longleftrightarrow> mb_entry m = mb_size m"

definition mb_put :: "u32 \<Rightarrow> rt_mailbox \<Rightarrow> (rt_err_t \<times> rt_mailbox) option" where
  "mb_put v m =
     do { m \<leftarrow> pool_write (in_offset m) v m;
          let m = m\<lparr>in_offset := in_offset m + 1\<rparr>;
          let m = (if in_offset m \<ge> mb_size m then m\<lparr>in_offset := 0\<rparr> else m);
          Some (if mb_entry m < RT_MB_ENTRY_MAX then (RT_EOK, m\<lparr>mb_entry := mb_entry m + 1\<rparr>)
                else (- RT_EFULL, m)) }"

definition mb_put_front :: "u32 \<Rightarrow> rt_mailbox \<Rightarrow> rt_mailbox option" where
  "mb_put_front v m =
     do { let m = (if out_offset m > 0 then m\<lparr>out_offset := out_offset m - 1\<rparr>
                   else m\<lparr>out_offset := mb_size m - 1\<rparr>);
          m \<leftarrow> pool_write (out_offset m) v m;
          Some (m\<lparr>mb_entry := mb_entry m + 1\<rparr>) }"

definition mb_take :: "rt_mailbox \<Rightarrow> (u32 \<times> rt_mailbox) option" where
  "mb_take m =
     (if unat (out_offset m) < length (mb_pool m)
      then let v = mb_pool m ! unat (out_offset m);
               m = m\<lparr>out_offset := out_offset m + 1\<rparr>;
               m = (if out_offset m \<ge> mb_size m then m\<lparr>out_offset := 0\<rparr> else m)
           in Some (v, if mb_entry m > 0 then m\<lparr>mb_entry := mb_entry m - 1\<rparr> else m)
      else None)"

text \<open>\<open>rt_mb_send_wait\<close>; the pair is (\<open>timeout\<close>, \<open>tick_delta\<close>).\<close>

definition mb_send_try ::
    "oid \<Rightarrow> u32 \<Rightarrow> tid option \<Rightarrow> u32 \<times> u32 \<Rightarrow> kernel \<Rightarrow> (ipc_result \<times> (u32 \<times> u32) \<times> kernel) option" where
  "mb_send_try i v self loc k =
     (case loc of (timeout, tick_delta) \<Rightarrow>
      if mb_full (mailboxes k i)
      then do { t \<leftarrow> self;
                let k = clear_error t k;
                if timeout = 0 then Some (Returned (- RT_EFULL), loc, k)
                else do { RT_DEBUG_IN_THREAD_CONTEXT k;
                          let tick_delta = (if 0 < sint timeout then tick k else tick_delta);
                          k \<leftarrow> ipc_wait (SenderQ i) t (ipc_flag i k) timeout k;
                          Some (Blocked, (timeout, tick_delta), k) } }
      else do { (err, m) \<leftarrow> mb_put v (mailboxes k i);
                let k = upd_mb i (\<lambda>_. m) k;
                if err \<noteq> RT_EOK then Some (Returned err, loc, k)
                else do { k \<leftarrow> ipc_wake_first (SuspendQ i) k;
                          Some (Returned RT_EOK, loc, k) } })"

definition rt_mb_send_wait_start ::
    "oid \<Rightarrow> u32 \<Rightarrow> u32 \<Rightarrow> kernel \<Rightarrow> (ipc_result \<times> (u32 \<times> u32) \<times> kernel) option" where
  "rt_mb_send_wait_start i v timeout k =
     do { assert_ipc RT_Object_Class_MailBox i k;
          if mb_full (mailboxes k i) \<and> timeout = 0 then Some (Returned (- RT_EFULL), (timeout, 0), k)
          else mb_send_try i v (rt_thread_self k) (timeout, 0) k }"

definition rt_mb_send_wait_wake ::
    "oid \<Rightarrow> u32 \<Rightarrow> tid \<Rightarrow> u32 \<times> u32 \<Rightarrow> kernel \<Rightarrow> (ipc_result \<times> (u32 \<times> u32) \<times> kernel) option" where
  "rt_mb_send_wait_wake i v t loc k =
     (if error (threads k t) \<noteq> RT_EOK then Some (Returned (error (threads k t)), loc, k)
      else mb_send_try i v (Some t) (ipc_locals_after (tick k) loc) k)"

definition rt_mb_send :: "oid \<Rightarrow> u32 \<Rightarrow> kernel \<Rightarrow> (ipc_result \<times> (u32 \<times> u32) \<times> kernel) option" where
  "rt_mb_send i v k = rt_mb_send_wait_start i v 0 k"

definition rt_mb_urgent :: "oid \<Rightarrow> u32 \<Rightarrow> kernel \<Rightarrow> (rt_err_t \<times> kernel) option" where
  "rt_mb_urgent i v k =
     do { assert_ipc RT_Object_Class_MailBox i k;
          if mb_full (mailboxes k i) then Some (- RT_EFULL, k)
          else do { m \<leftarrow> mb_put_front v (mailboxes k i);
                    k \<leftarrow> ipc_wake_first (SuspendQ i) (upd_mb i (\<lambda>_. m) k);
                    Some (RT_EOK, k) } }"

text \<open>\<open>rt_mb_recv\<close>; what it stores in \<open>*value\<close> is part of the result.\<close>

definition mb_recv_try ::
    "oid \<Rightarrow> tid option \<Rightarrow> u32 \<times> u32 \<Rightarrow> kernel \<Rightarrow> (ipc_result \<times> u32 option \<times> (u32 \<times> u32) \<times> kernel) option" where
  "mb_recv_try i self loc k =
     (case loc of (timeout, tick_delta) \<Rightarrow>
      if mb_entry (mailboxes k i) = 0
      then do { t \<leftarrow> self;
                let k = clear_error t k;
                if timeout = 0
                then Some (Returned (- RT_ETIMEOUT), None, loc, upd_thread t (\<lambda>th. th\<lparr>error := - RT_ETIMEOUT\<rparr>) k)
                else do { RT_DEBUG_IN_THREAD_CONTEXT k;
                          let tick_delta = (if 0 < sint timeout then tick k else tick_delta);
                          k \<leftarrow> ipc_wait (SuspendQ i) t (ipc_flag i k) timeout k;
                          Some (Blocked, None, (timeout, tick_delta), k) } }
      else do { (v, m) \<leftarrow> mb_take (mailboxes k i);
                k \<leftarrow> ipc_wake_first (SenderQ i) (upd_mb i (\<lambda>_. m) k);
                Some (Returned RT_EOK, Some v, loc, k) })"

definition rt_mb_recv_start ::
    "oid \<Rightarrow> u32 \<Rightarrow> kernel \<Rightarrow> (ipc_result \<times> u32 option \<times> (u32 \<times> u32) \<times> kernel) option" where
  "rt_mb_recv_start i timeout k =
     do { assert_ipc RT_Object_Class_MailBox i k;
          if mb_entry (mailboxes k i) = 0 \<and> timeout = 0
          then Some (Returned (- RT_ETIMEOUT), None, (timeout, 0), k)
          else mb_recv_try i (rt_thread_self k) (timeout, 0) k }"

definition rt_mb_recv_wake ::
    "oid \<Rightarrow> tid \<Rightarrow> u32 \<times> u32 \<Rightarrow> kernel \<Rightarrow> (ipc_result \<times> u32 option \<times> (u32 \<times> u32) \<times> kernel) option" where
  "rt_mb_recv_wake i t loc k =
     (if error (threads k t) \<noteq> RT_EOK then Some (Returned (error (threads k t)), None, loc, k)
      else mb_recv_try i (Some t) (ipc_locals_after (tick k) loc) k)"

definition rt_mb_control :: "oid \<Rightarrow> nat \<Rightarrow> kernel \<Rightarrow> (rt_err_t \<times> kernel) option" where
  "rt_mb_control i cmd k =
     do { assert_ipc RT_Object_Class_MailBox i k;
          if cmd = RT_IPC_CMD_RESET
          then do { k \<leftarrow> rt_ipc_list_resume_all (SuspendQ i) k;
                    k \<leftarrow> rt_ipc_list_resume_all (SenderQ i) k;
                    let k = upd_mb i (\<lambda>m. m\<lparr>mb_entry := 0, in_offset := 0, out_offset := 0\<rparr>) k;
                    k \<leftarrow> rt_schedule k;
                    Some (RT_EOK, k) }
          else Some (- RT_ERROR, k) }"


section \<open>The circular buffer as a list\<close>

definition ring :: "'a list \<Rightarrow> nat \<Rightarrow> nat \<Rightarrow> 'a list" where
  "ring pool out n = map (\<lambda>j. pool ! ((out + j) mod length pool)) [0..<n]"

lemma length_ring [simp]: "length (ring pool out n) = n"
  by (simp add: ring_def)

lemma mod_offset_neq:
  assumes "a < b" "b < len + a"
  shows "((x::nat) + a) mod len \<noteq> (x + b) mod len"
proof
  assume "(x + a) mod len = (x + b) mod len"
  then have "len dvd (x + b) - (x + a)" using assms(1) by (intro mod_eq_dvd_iff_nat [THEN iffD1]) simp_all
  then show False using assms by (auto dest: dvd_imp_le)
qed

lemma ring_put:
  assumes "n < length pool"
  shows "ring (pool[(out + n) mod length pool := v]) out (Suc n) = ring pool out n @ [v]"
proof (rule nth_equalityI)
  fix j assume "j < length (ring (pool[(out + n) mod length pool := v]) out (Suc n))"
  then have j: "j < Suc n" by simp
  have l: "(out + n) mod length pool < length pool" using assms by (intro mod_less_divisor) linarith
  show "ring (pool[(out + n) mod length pool := v]) out (Suc n) ! j = (ring pool out n @ [v]) ! j"
  proof (cases "j = n")
    case True
    then show ?thesis using l by (simp add: ring_def nth_append del: upt_Suc)
  next
    case False
    then have "(out + j) mod length pool \<noteq> (out + n) mod length pool"
      using j assms by (intro mod_offset_neq) simp_all
    then show ?thesis using j False by (simp add: ring_def nth_append del: upt_Suc)
  qed
qed simp

lemma ring_take:
  assumes "out < length pool"
  shows "ring pool out (Suc n) = pool ! out # ring pool (Suc out mod length pool) n"
proof -
  have "map (\<lambda>j. pool ! ((out + j) mod length pool)) [Suc 0..<Suc n]
      = map (\<lambda>j. pool ! ((Suc out mod length pool + j) mod length pool)) [0..<n]"
    unfolding map_Suc_upt [symmetric] by (simp add: mod_add_left_eq)
  then show ?thesis using assms by (simp add: ring_def upt_conv_Cons del: upt_Suc)
qed

lemma ring_put_front:
  assumes "n < length pool" "out < length pool"
  defines "out' \<equiv> (if out > 0 then out - 1 else length pool - 1)"
  shows "ring (pool[out' := v]) out' (Suc n) = v # ring pool out n"
proof -
  have o: "out' < length pool" "Suc out' mod length pool = out"
    using assms by (auto simp: out'_def)
  have "ring (pool[out' := v]) out n = ring pool out n"
  proof (rule nth_equalityI)
    fix j assume "j < length (ring (pool[out' := v]) out n)"
    then have j: "j < n" by simp
    have "(out' + 0) mod length pool \<noteq> (out' + Suc j) mod length pool"
      using j assms(1) by (intro mod_offset_neq) simp_all
    moreover have "(out' + Suc j) mod length pool = (out + j) mod length pool"
      using o(2) by (metis add_Suc_right add_Suc mod_add_left_eq)
    ultimately have "(out + j) mod length pool \<noteq> out'" using o(1) by simp
    then show "ring (pool[out' := v]) out n ! j = ring pool out n ! j" using j by (simp add: ring_def)
  qed simp
  then show ?thesis using ring_take [of out' "pool[out' := v]" n] o by simp
qed

text \<open>A mailbox is well-formed if its pool has its size and the offsets agree with the count.\<close>

definition mb_wf :: "rt_mailbox \<Rightarrow> bool" where
  "mb_wf m \<longleftrightarrow> length (mb_pool m) = unat (mb_size m) \<and> mb_entry m \<le> mb_size m
     \<and> (if mb_size m = 0 then in_offset m = 0 \<and> out_offset m = 0
        else out_offset m < mb_size m
          \<and> unat (in_offset m) = (unat (out_offset m) + unat (mb_entry m)) mod unat (mb_size m))"

definition mb_content :: "rt_mailbox \<Rightarrow> u32 list" where
  "mb_content m = ring (mb_pool m) (unat (out_offset m)) (unat (mb_entry m))"

lemma length_mb_content [simp]: "length (mb_content m) = unat (mb_entry m)"
  by (simp add: mb_content_def)

lemma unat_Suc_less: "(x::u16) < y \<Longrightarrow> unat (x + 1) = Suc (unat x)"
proof -
  assume "x < y"
  moreover have "unat y < 2 ^ LENGTH(16)" by (rule unsigned_less)
  ultimately have "unat x < unat y" "unat y < 2 ^ 16" by (simp_all add: word_less_nat_alt)
  then show ?thesis by (simp add: unat_word_ariths)
qed

lemma unat_wrap:
  assumes "(x::u16) < y"
  shows "unat (if x + 1 \<ge> y then 0 else x + 1) = Suc (unat x) mod unat y"
proof -
  have l: "unat x < unat y" using assms by (simp add: word_less_nat_alt)
  have "y \<le> x + 1 \<longleftrightarrow> unat y \<le> Suc (unat x)" using unat_Suc_less [OF assms] by (simp add: word_le_nat_alt)
  moreover have "Suc (unat x) mod unat y = (if unat y \<le> Suc (unat x) then 0 else Suc (unat x))"
    using l by (cases "Suc (unat x) = unat y") auto
  ultimately show ?thesis using unat_Suc_less [OF assms] by simp
qed

lemma mb_not_full:
  assumes "mb_wf m" "\<not> mb_full m"
  shows "mb_entry m < mb_size m" "mb_size m \<noteq> 0" "out_offset m < mb_size m" "in_offset m < mb_size m"
    "unat (in_offset m) = (unat (out_offset m) + unat (mb_entry m)) mod length (mb_pool m)"
    "unat (mb_entry m) < length (mb_pool m)" "unat (out_offset m) < length (mb_pool m)"
proof -
  show e: "mb_entry m < mb_size m" using assms by (auto simp: mb_wf_def mb_full_def)
  then show nz: "mb_size m \<noteq> 0" by auto
  show o: "out_offset m < mb_size m" using assms nz by (simp add: mb_wf_def)
  show i: "unat (in_offset m) = (unat (out_offset m) + unat (mb_entry m)) mod length (mb_pool m)"
    using assms nz by (simp add: mb_wf_def)
  have l: "length (mb_pool m) = unat (mb_size m)" using assms by (simp add: mb_wf_def)
  show "unat (mb_entry m) < length (mb_pool m)" "unat (out_offset m) < length (mb_pool m)"
    using e o l by (simp_all add: word_less_nat_alt)
  then show "in_offset m < mb_size m" using i l by (simp add: word_less_nat_alt)
qed


lemma mb_size_max: "mb_entry m < mb_size m \<Longrightarrow> mb_entry m < RT_MB_ENTRY_MAX"
proof -
  assume "mb_entry m < mb_size m"
  moreover have "unat (mb_size m) < 2 ^ LENGTH(16)" by (rule unsigned_less)
  ultimately show ?thesis by (simp add: word_less_nat_alt)
qed

lemma mb_put_ok:
  assumes wf: "mb_wf m" and nf: "\<not> mb_full m"
  shows "\<exists>m'. mb_put v m = Some (RT_EOK, m') \<and> mb_wf m' \<and> mb_content m' = mb_content m @ [v]
     \<and> mb_size m' = mb_size m"
proof -
  note f = mb_not_full [OF wf nf]
  let ?i = "unat (in_offset m)" and ?len = "length (mb_pool m)"
  let ?in' = "if in_offset m + 1 \<ge> mb_size m then 0 else in_offset m + 1"
  let ?m' = "m\<lparr>mb_pool := (mb_pool m)[?i := v], in_offset := ?in', mb_entry := mb_entry m + 1\<rparr>"
  have len: "?len = unat (mb_size m)" using wf by (simp add: mb_wf_def)
  have i: "?i < ?len" using f(4) len by (simp add: word_less_nat_alt)
  have e: "unat (mb_entry m + 1) = Suc (unat (mb_entry m))" by (rule unat_Suc_less [OF f(1)])
  have eq: "mb_put v m = Some (RT_EOK, ?m')"
    using i mb_size_max [OF f(1)] by (simp add: mb_put_def pool_write_def Let_def)
  have "unat ?in' = (unat (out_offset m) + Suc (unat (mb_entry m))) mod unat (mb_size m)"
    unfolding unat_wrap [OF f(4)] f(5) len by (simp add: mod_Suc_eq)
  moreover have "mb_entry m + 1 \<le> mb_size m"
    using f(6) len e by (simp add: word_le_nat_alt)
  ultimately have "mb_wf ?m'" using wf f(2,3) e by (simp add: mb_wf_def)
  moreover have "mb_content ?m' = mb_content m @ [v]"
    using ring_put [OF f(6), of "unat (out_offset m)" v] f(5) e by (simp add: mb_content_def)
  ultimately show ?thesis using eq by simp
qed

lemma mb_put_front_ok:
  assumes wf: "mb_wf m" and nf: "\<not> mb_full m"
  shows "\<exists>m'. mb_put_front v m = Some m' \<and> mb_wf m' \<and> mb_content m' = v # mb_content m
     \<and> mb_size m' = mb_size m"
proof -
  note f = mb_not_full [OF wf nf]
  let ?out = "unat (out_offset m)" and ?len = "length (mb_pool m)"
  let ?o = "if out_offset m > 0 then out_offset m - 1 else mb_size m - 1"
  let ?m' = "m\<lparr>out_offset := ?o, mb_pool := (mb_pool m)[unat ?o := v], mb_entry := mb_entry m + 1\<rparr>"
  have len: "?len = unat (mb_size m)" using wf by (simp add: mb_wf_def)
  have o: "unat ?o = (if ?out > 0 then ?out - 1 else ?len - 1)"
  proof (cases "out_offset m > 0")
    case True
    then have "out_offset m \<noteq> 0" by auto
    then show ?thesis using True by (simp add: unat_minus_one word_less_nat_alt)
  next
    case False
    then have "out_offset m = 0" by (simp add: word_neq_0_conv [symmetric] del: word_neq_0_conv)
    then show ?thesis using f(2) len by (simp add: unat_minus_one)
  qed
  have ol: "unat ?o < ?len" using o f(7) by auto
  have e: "unat (mb_entry m + 1) = Suc (unat (mb_entry m))" by (rule unat_Suc_less [OF f(1)])
  have eq: "mb_put_front v m = Some ?m'"
    using ol by (cases "out_offset m > 0") (simp_all add: mb_put_front_def pool_write_def Let_def)
  have "unat (in_offset m) = (unat ?o + Suc (unat (mb_entry m))) mod unat (mb_size m)"
  proof -
    have "(unat ?o + Suc (unat (mb_entry m))) mod ?len = (Suc (unat ?o) mod ?len + unat (mb_entry m)) mod ?len"
      by (simp add: mod_add_left_eq)
    also have "Suc (unat ?o) mod ?len = ?out" using o f(7) by auto
    finally show ?thesis using f(5) len by simp
  qed
  moreover have "mb_entry m + 1 \<le> mb_size m" using f(6) len e by (simp add: word_le_nat_alt)
  moreover have "?o < mb_size m" using ol len by (simp add: word_less_nat_alt)
  ultimately have "mb_wf ?m'" using wf f(2) e by (simp add: mb_wf_def)
  moreover have "mb_content ?m' = v # mb_content m"
    using ring_put_front [OF f(6,7), of v] o e by (simp add: mb_content_def)
  ultimately show ?thesis using eq by simp
qed

lemma mb_take_ok:
  assumes wf: "mb_wf m" and ne: "mb_content m = v # vs"
  shows "\<exists>m'. mb_take m = Some (v, m') \<and> mb_wf m' \<and> mb_content m' = vs \<and> mb_size m' = mb_size m"
proof -
  let ?out = "unat (out_offset m)" and ?len = "length (mb_pool m)"
  let ?out' = "if out_offset m + 1 \<ge> mb_size m then 0 else out_offset m + 1"
  have n: "unat (mb_entry m) = Suc (length vs)" using arg_cong [OF ne, of length] by simp
  then have e0: "mb_entry m > 0" "mb_entry m \<noteq> 0" by (auto simp: word_less_nat_alt)
  have len: "?len = unat (mb_size m)" using wf by (simp add: mb_wf_def)
  have nz: "mb_size m \<noteq> 0" using wf e0 by (auto simp: mb_wf_def)
  have o: "out_offset m < mb_size m" "?out < ?len"
    using wf nz len by (simp_all add: mb_wf_def word_less_nat_alt)
  have e: "unat (mb_entry m - 1) = length vs" using n e0 by (simp add: unat_minus_one)
  let ?m' = "m\<lparr>out_offset := ?out', mb_entry := mb_entry m - 1\<rparr>"
  have eq: "mb_take m = Some (mb_pool m ! ?out, ?m')"
    using o e0 by (simp add: mb_take_def Let_def)
  have o': "unat ?out' = Suc ?out mod ?len" unfolding unat_wrap [OF o(1)] len ..
  have r: "mb_pool m ! ?out = v" "ring (mb_pool m) (Suc ?out mod ?len) (length vs) = vs"
    using ring_take [OF o(2), of "length vs"] ne n by (simp_all add: mb_content_def)
  have "unat (in_offset m) = (unat ?out' + unat (mb_entry m - 1)) mod ?len"
    unfolding o' e using wf nz n len by (simp add: mb_wf_def mod_add_left_eq)
  moreover have "?out' < mb_size m"
  proof -
    have "Suc ?out mod ?len < ?len" using o(2) by (intro mod_less_divisor) linarith
    then show ?thesis using o' len by (simp only: word_less_nat_alt)
  qed
  moreover have "mb_entry m - 1 \<le> mb_size m"
    using wf n e by (simp add: mb_wf_def word_le_nat_alt)
  ultimately have "mb_wf ?m'" using wf nz len by (simp add: mb_wf_def)
  moreover have "mb_content ?m' = vs" using r(2) o' e by (simp add: mb_content_def)
  ultimately show ?thesis using eq r(1) by simp
qed


section \<open>Mailboxes implement the abstract channel\<close>

definition mb_ok :: "oid \<Rightarrow> kernel \<Rightarrow> bool" where
  "mb_ok i k \<longleftrightarrow> ipc_object_ok RT_Object_Class_MailBox i k \<and> mb_wf (mailboxes k i)"

definition mb_abs :: "oid \<Rightarrow> kernel \<Rightarrow> u32 chan" where
  "mb_abs i k = (mb_content (mailboxes k i), queues k (SuspendQ i), queues k (SenderQ i))"

definition mb_capacity :: "oid \<Rightarrow> kernel \<Rightarrow> nat" where
  "mb_capacity i k = unat (mb_size (mailboxes k i))"

lemma upd_mb_fields [simp]:
  "objs (upd_mb i f k) = objs k" "threads (upd_mb i f k) = threads k" "queues (upd_mb i f k) = queues k"
  "current_thread (upd_mb i f k) = current_thread k" "tlists (upd_mb i f k) = tlists k"
  "mailboxes (upd_mb i f k) j = (if j = i then f (mailboxes k i) else mailboxes k j)"
  "kinv X (upd_mb i f k) = kinv X k" "running (upd_mb i f k) t = running k t"
  "ipc_object_ok ty j (upd_mb i f k) = ipc_object_ok ty j k"
  by (simp_all add: upd_mb_def ipc_object_ok_def rt_object_get_type_def ipc_flag_def)

lemma mb_ok_frame: "mb_ok i k \<Longrightarrow> kframe k k' \<Longrightarrow> mb_ok i k'"
  using ipc_object_frame [of k k' RT_Object_Class_MailBox i] by (simp add: mb_ok_def kframe_def)

lemma mb_frame: "kframe k k' \<Longrightarrow> mailboxes k' = mailboxes k"
  by (simp add: kframe_def)

lemma mb_full_content: "mb_wf m \<Longrightarrow> mb_full m \<longleftrightarrow> \<not> length (mb_content m) < unat (mb_size m)"
  by (auto simp: mb_full_def mb_wf_def word_le_nat_alt word_unat_eq_iff)

lemma mb_empty_content: "mb_entry m = 0 \<longleftrightarrow> mb_content m = []"
  by (metis length_0_conv length_mb_content unat_eq_0)

text \<open>Changing the store and waking the first thread of a line.\<close>

lemma mb_wake_ok:
  assumes "kinv {} k" "mb_ok i k" "mb_wf m" "current_thread k \<noteq> None" "h = SuspendQ i \<or> h = SenderQ i"
  shows "\<exists>k'. ipc_wake_first h (upd_mb i (\<lambda>_. m) k) = Some k' \<and> kinv {} k' \<and> mb_ok i k' \<and> mailboxes k' i = m
     \<and> current_thread k' \<noteq> None \<and> queues k' h = tl (queues k h)
     \<and> (\<forall>g. \<not> is_ready_queue g \<longrightarrow> g \<noteq> h \<longrightarrow> queues k' g = queues k g)
     \<and> made_ready h k k' \<and> ipc_frame i X k k'"
proof -
  let ?k = "upd_mb i (\<lambda>_. m) k"
  have "kinv {} ?k" "current_thread ?k \<noteq> None" "mb_ok i ?k" using assms by (simp_all add: mb_ok_def)
  moreover have "ipc_frame i X k k'" if "ipc_frame i X ?k k'" for k'
    using ipc_frame_trans [OF _ that] ipc_frame_tables(4) by (simp add: upd_mb_def)
  moreover have "made_ready h k k'" if "\<forall>t ts. queues ?k h = t # ts \<longrightarrow> woken h t ?k k'" for k'
    using woken_made_ready [of k h ?k k'] that by simp
  ultimately show ?thesis
    using wake_first_ok [of ?k h i X] assms(5) mb_ok_frame [of i ?k] mb_frame [of ?k] by fastforce
qed

lemma send_room:
  assumes "kinv {} k" "mb_ok i k" "current_thread k \<noteq> None" "\<not> mb_full (mailboxes k i)"
  shows "\<exists>k'. mb_send_try i v self loc k = Some (Returned RT_EOK, loc, k') \<and> kinv {} k' \<and> mb_ok i k'
     \<and> mb_abs i k' = (mb_content (mailboxes k i) @ [v], tl (queues k (SuspendQ i)), queues k (SenderQ i))
     \<and> mb_capacity i k' = mb_capacity i k \<and> ipc_frame i X k k'
     \<and> made_ready (SuspendQ i) k k'"
proof -
  have wf: "mb_wf (mailboxes k i)" using assms(2) by (simp add: mb_ok_def)
  obtain m where m: "mb_put v (mailboxes k i) = Some (RT_EOK, m)" "mb_wf m"
      "mb_content m = mb_content (mailboxes k i) @ [v]" "mb_size m = mb_size (mailboxes k i)"
    using mb_put_ok [OF wf assms(4)] by blast
  obtain k' where k': "ipc_wake_first (SuspendQ i) (upd_mb i (\<lambda>_. m) k) = Some k'" "kinv {} k'" "mb_ok i k'"
      "mailboxes k' i = m" "queues k' (SuspendQ i) = tl (queues k (SuspendQ i))"
      "queues k' (SenderQ i) = queues k (SenderQ i)"
      "made_ready (SuspendQ i) k k'"
      "ipc_frame i X k k'"
    using mb_wake_ok [OF assms(1,2) m(2) assms(3), of "SuspendQ i" X] by auto
  have "mb_send_try i v self loc k = Some (Returned RT_EOK, loc, k')"
    using assms(4) m(1) k'(1) by (cases loc) (simp add: mb_send_try_def)
  then show ?thesis
    using k'(2-8) m(3,4) by (auto simp: mb_abs_def mb_capacity_def woken_def)
qed

lemma send_full:
  assumes inv: "kinv {} k" and ok: "mb_ok i k" and run: "running k t" and nest: "interrupt_nest k = 0"
    and tm: "time_ok time" and full: "mb_full (mailboxes k i)"
  shows "\<exists>r loc' k'. mb_send_try i v (Some t) (time, td) k = Some (r, loc', k') \<and> kinv {} k' \<and> mb_ok i k'
     \<and> mb_capacity i k' = mb_capacity i k \<and> ipc_frame i {t} k k'
     \<and> (if time = 0 then r = Returned (- RT_EFULL) \<and> mb_abs i k' = mb_abs i k
        else r = Blocked \<and> blocked (SenderQ i) t (ipc_flag i k) time (clear_error t k) k'
          \<and> loc' = (time, if 0 < sint time then tick k else td)
          \<and> mb_abs i k' = (mb_content (mailboxes k i), queues k (SuspendQ i),
               enlist (ipc_flag i k) (\<lambda>s. current_priority (threads k s)) t (queues k (SenderQ i))))"
proof (cases "time = 0")
  case True
  have "mb_ok i (clear_error t k)" using ok by (rule mb_ok_frame [OF _ kframe_clear_error])
  then show ?thesis
    using True full clear_error_ok(1) [OF inv run] ipc_frame_clear_error
    by (simp add: mb_send_try_def mb_abs_def mb_capacity_def)
next
  case False
  have io: "ipc_object_ok RT_Object_Class_MailBox i k" using ok by (simp add: mb_ok_def)
  obtain k' where k': "ipc_wait (SenderQ i) t (ipc_flag i k) time (clear_error t k) = Some k'"
      "blocked (SenderQ i) t (ipc_flag i k) time (clear_error t k) k'" "kinv {} k'" "kframe k k'"
      "queues k' (SenderQ i) = enlist (ipc_flag i k) (\<lambda>s. current_priority (threads k s)) t (queues k (SenderQ i))"
      "queues k' (SuspendQ i) = queues k (SuspendQ i)"
    using chan_blocks [OF inv run io tm, of "SenderQ i"] by auto
  have "RT_DEBUG_IN_THREAD_CONTEXT (clear_error t k) = Some ()" "tick (clear_error t k) = tick k"
    using in_thread_context [OF clear_error_ok(2) [OF inv run]] nest by (simp_all add: clear_error_def)
  then have "mb_send_try i v (Some t) (time, td) k = Some (Blocked, (time, if 0 < sint time then tick k else td), k')"
    using False full k'(1) by (simp add: mb_send_try_def Let_def)
  then show ?thesis
    using False k'(2-6) mb_ok_frame [OF ok k'(4)] mb_frame [OF k'(4)] blocked_clear_frame [OF k'(2)]
    by (simp add: mb_abs_def mb_capacity_def)
qed


lemma recv_some:
  assumes "kinv {} k" "mb_ok i k" "current_thread k \<noteq> None" "mb_content (mailboxes k i) = v # vs"
  shows "\<exists>k'. mb_recv_try i self loc k = Some (Returned RT_EOK, Some v, loc, k') \<and> kinv {} k' \<and> mb_ok i k'
     \<and> mb_abs i k' = (vs, queues k (SuspendQ i), tl (queues k (SenderQ i)))
     \<and> mb_capacity i k' = mb_capacity i k \<and> ipc_frame i X k k'
     \<and> made_ready (SenderQ i) k k'"
proof -
  have wf: "mb_wf (mailboxes k i)" using assms(2) by (simp add: mb_ok_def)
  have ne: "mb_entry (mailboxes k i) \<noteq> 0" using assms(4) mb_empty_content by auto
  obtain m where m: "mb_take (mailboxes k i) = Some (v, m)" "mb_wf m" "mb_content m = vs"
      "mb_size m = mb_size (mailboxes k i)"
    using mb_take_ok [OF wf assms(4)] by blast
  obtain k' where k': "ipc_wake_first (SenderQ i) (upd_mb i (\<lambda>_. m) k) = Some k'" "kinv {} k'" "mb_ok i k'"
      "mailboxes k' i = m" "queues k' (SenderQ i) = tl (queues k (SenderQ i))"
      "queues k' (SuspendQ i) = queues k (SuspendQ i)"
      "made_ready (SenderQ i) k k'"
      "ipc_frame i X k k'"
    using mb_wake_ok [OF assms(1,2) m(2) assms(3), of "SenderQ i" X] by auto
  have "mb_recv_try i self loc k = Some (Returned RT_EOK, Some v, loc, k')"
    using ne m(1) k'(1) by (cases loc) (simp add: mb_recv_try_def)
  then show ?thesis
    using k'(2-8) m(3,4) by (auto simp: mb_abs_def mb_capacity_def woken_def)
qed

lemma recv_none:
  assumes inv: "kinv {} k" and ok: "mb_ok i k" and run: "running k t" and nest: "interrupt_nest k = 0"
    and tm: "time_ok time" and empty: "mb_content (mailboxes k i) = []"
  shows "\<exists>r loc' k'. mb_recv_try i (Some t) (time, td) k = Some (r, None, loc', k') \<and> kinv {} k' \<and> mb_ok i k'
     \<and> mb_capacity i k' = mb_capacity i k \<and> ipc_frame i {t} k k'
     \<and> (if time = 0 then r = Returned (- RT_ETIMEOUT) \<and> mb_abs i k' = mb_abs i k
        else r = Blocked \<and> blocked (SuspendQ i) t (ipc_flag i k) time (clear_error t k) k'
          \<and> loc' = (time, if 0 < sint time then tick k else td)
          \<and> mb_abs i k' = ([], enlist (ipc_flag i k) (\<lambda>s. current_priority (threads k s)) t (queues k (SuspendQ i)),
               queues k (SenderQ i)))"
proof -
  have e: "mb_entry (mailboxes k i) = 0" using empty mb_empty_content by simp
  note c = clear_error_ok [OF inv run]
  show ?thesis
  proof (cases "time = 0")
    case True
    let ?k = "upd_thread t (\<lambda>th. th\<lparr>error := - RT_ETIMEOUT\<rparr>) (clear_error t k)"
    have "kinv {} ?k" by (rule upd_thread_kinv [OF c(1)]) simp_all
    moreover have "mb_ok i ?k"
      using ok by (rule mb_ok_frame [OF _ kframe_trans [OF kframe_clear_error kframe_upd_thread]])
    moreover have "ipc_frame i {t} k ?k"
      by (rule ipc_frame_trans [OF ipc_frame_clear_error ipc_frame_upd_thread]) simp_all
    ultimately show ?thesis
      using True e by (simp add: mb_recv_try_def mb_abs_def mb_capacity_def)
  next
    case False
    have io: "ipc_object_ok RT_Object_Class_MailBox i k" using ok by (simp add: mb_ok_def)
    obtain k' where k': "ipc_wait (SuspendQ i) t (ipc_flag i k) time (clear_error t k) = Some k'"
        "blocked (SuspendQ i) t (ipc_flag i k) time (clear_error t k) k'" "kinv {} k'" "kframe k k'"
        "queues k' (SuspendQ i) = enlist (ipc_flag i k) (\<lambda>s. current_priority (threads k s)) t (queues k (SuspendQ i))"
        "queues k' (SenderQ i) = queues k (SenderQ i)"
      using chan_blocks [OF inv run io tm, of "SuspendQ i"] by auto
    have "RT_DEBUG_IN_THREAD_CONTEXT (clear_error t k) = Some ()" "tick (clear_error t k) = tick k"
      using in_thread_context [OF c(2)] nest by (simp_all add: clear_error_def)
    then have "mb_recv_try i (Some t) (time, td) k = Some (Blocked, None, (time, if 0 < sint time then tick k else td), k')"
      using False e k'(1) by (simp add: mb_recv_try_def Let_def)
    then show ?thesis
      using False k'(2-6) mb_ok_frame [OF ok k'(4)] mb_frame [OF k'(4)] empty blocked_clear_frame [OF k'(2)]
      by (simp add: mb_abs_def mb_capacity_def)
  qed
qed

text \<open>One turn of the loop, as a step of the abstract channel.\<close>

lemma send_try_refines:
  assumes "kinv {} k" "mb_ok i k" "running k t" "interrupt_nest k = 0" "time_ok time"
  shows "\<exists>r loc' k'. mb_send_try i v (Some t) (time, td) k = Some (r, loc', k') \<and> kinv {} k' \<and> mb_ok i k'
     \<and> mb_capacity i k' = mb_capacity i k \<and> ipc_frame i {t} k k'
     \<and> (r, mb_abs i k') = chan_send_spec (mb_capacity i k)
           (enlist (ipc_flag i k) (\<lambda>s. current_priority (threads k s)) t) (time \<noteq> 0) v (mb_abs i k)
     \<and> (r = Blocked \<longrightarrow> blocked (SenderQ i) t (ipc_flag i k) time (clear_error t k) k'
           \<and> loc' = (time, if 0 < sint time then tick k else td))
     \<and> (r = Returned RT_EOK \<longrightarrow> made_ready (SuspendQ i) k k')"
proof (cases "mb_full (mailboxes k i)")
  case True
  then have "\<not> length (mb_content (mailboxes k i)) < mb_capacity i k"
    using mb_full_content assms(2) by (simp add: mb_ok_def mb_capacity_def)
  then show ?thesis
    using send_full [OF assms True, of v td] by (cases "time = 0") (auto simp: mb_abs_def)
next
  case False
  have "current_thread k \<noteq> None" using assms(3) by (simp add: running_def)
  moreover have "length (mb_content (mailboxes k i)) < mb_capacity i k"
    using False mb_full_content assms(2) by (simp add: mb_ok_def mb_capacity_def)
  ultimately show ?thesis
    using send_room [OF assms(1,2) _ False, of v "Some t" "(time, td)" "{t}"] by (auto simp: mb_abs_def)
qed

lemma recv_try_refines:
  assumes "kinv {} k" "mb_ok i k" "running k t" "interrupt_nest k = 0" "time_ok time"
  shows "\<exists>r got loc' k'. mb_recv_try i (Some t) (time, td) k = Some (r, got, loc', k') \<and> kinv {} k' \<and> mb_ok i k'
     \<and> mb_capacity i k' = mb_capacity i k \<and> ipc_frame i {t} k k'
     \<and> (r, got, mb_abs i k') = chan_recv_spec
           (enlist (ipc_flag i k) (\<lambda>s. current_priority (threads k s)) t) (time \<noteq> 0) (mb_abs i k)
     \<and> (r = Blocked \<longrightarrow> blocked (SuspendQ i) t (ipc_flag i k) time (clear_error t k) k'
           \<and> loc' = (time, if 0 < sint time then tick k else td))
     \<and> (got \<noteq> None \<longrightarrow> made_ready (SenderQ i) k k')"
proof (cases "mb_content (mailboxes k i)")
  case Nil
  then show ?thesis
    using recv_none [OF assms Nil, of td] by (cases "time = 0") (auto simp: mb_abs_def)
next
  case (Cons v vs)
  have "current_thread k \<noteq> None" using assms(3) by (simp add: running_def)
  then show ?thesis
    using recv_some [OF assms(1,2) _ Cons, of "Some t" "(time, td)" "{t}"] Cons by (auto simp: mb_abs_def)
qed

text \<open>An urgent word goes to the front; the caller never waits.\<close>

lemma urgent_refines:
  assumes "kinv {} k" "mb_ok i k" "current_thread k \<noteq> None"
  shows "\<exists>r k'. rt_mb_urgent i v k = Some (r, k') \<and> kinv {} k' \<and> mb_ok i k' \<and> mb_capacity i k' = mb_capacity i k
     \<and> ipc_frame i X k k' \<and> (r, mb_abs i k') = chan_urgent_spec (mb_capacity i k) v (mb_abs i k)"
proof -
  have wf: "mb_wf (mailboxes k i)" and a: "assert_ipc RT_Object_Class_MailBox i k = Some ()"
    using assms(2) by (simp_all add: mb_ok_def assert_ipc_ok)
  show ?thesis
  proof (cases "mb_full (mailboxes k i)")
    case True
    then show ?thesis
      using assms a mb_full_content [OF wf] ipc_frame_refl by (simp add: rt_mb_urgent_def mb_abs_def mb_capacity_def)
  next
    case False
    obtain m where m: "mb_put_front v (mailboxes k i) = Some m" "mb_wf m"
        "mb_content m = v # mb_content (mailboxes k i)" "mb_size m = mb_size (mailboxes k i)"
      using mb_put_front_ok [OF wf False] by blast
    obtain k' where k': "ipc_wake_first (SuspendQ i) (upd_mb i (\<lambda>_. m) k) = Some k'" "kinv {} k'" "mb_ok i k'"
        "mailboxes k' i = m" "queues k' (SuspendQ i) = tl (queues k (SuspendQ i))"
        "queues k' (SenderQ i) = queues k (SenderQ i)" "ipc_frame i X k k'"
      using mb_wake_ok [OF assms(1,2) m(2) assms(3), of "SuspendQ i" X] by auto
    have "rt_mb_urgent i v k = Some (RT_EOK, k')" using a False m(1) k'(1) by (simp add: rt_mb_urgent_def)
    then show ?thesis
      using k'(2-7) m(3,4) False mb_full_content [OF wf] by (simp add: mb_abs_def mb_capacity_def)
  qed
qed

section \<open>The store contract\<close>

interpretation mb: message_store mb_wf mb_content "\<lambda>m. unat (mb_size m)" "\<lambda>_ _. True" "\<lambda>m _. \<not> mb_full m"
    "\<lambda>m. mb_entry m = 0" "\<lambda>v m. map_option snd (mb_put v m)" mb_take mb_put_front
proof unfold_locales
  show "(\<not> mb_full q) = (length (mb_content q) < unat (mb_size q))" if "mb_wf q" for q
    using mb_full_content [OF that] by blast
next
  show "(mb_entry q = 0) = (mb_content q = [])" for q by (rule mb_empty_content)
next
  fix q v assume q: "mb_wf q" "length (mb_content q) < unat (mb_size q)"
  then have "\<not> mb_full q" using mb_full_content by blast
  from mb_put_ok [OF q(1) this, of v]
  show "\<exists>q'. map_option snd (mb_put v q) = Some q' \<and> mb_wf q' \<and> mb_content q' = mb_content q @ [v]
      \<and> unat (mb_size q') = unat (mb_size q) \<and> (\<lambda>_. True) = (\<lambda>_. True)" by auto
  from \<open>\<not> mb_full q\<close> mb_put_front_ok [OF q(1), of v]
  show "\<exists>q'. mb_put_front v q = Some q' \<and> mb_wf q' \<and> mb_content q' = v # mb_content q
      \<and> unat (mb_size q') = unat (mb_size q) \<and> (\<lambda>_. True) = (\<lambda>_. True)" by auto
next
  fix q v vs assume "mb_wf q" "mb_content q = v # vs"
  from mb_take_ok [OF this]
  show "\<exists>q'. mb_take q = Some (v, q') \<and> mb_wf q' \<and> mb_content q' = vs
      \<and> unat (mb_size q') = unat (mb_size q) \<and> (\<lambda>_. True) = (\<lambda>_. True)" by auto
qed

definition mb_run :: "u32 store_op list \<Rightarrow> rt_mailbox \<Rightarrow> (u32 list \<times> rt_mailbox) option" where
  "mb_run = store_run (\<lambda>m _. \<not> mb_full m) (\<lambda>v m. map_option snd (mb_put v m)) mb_put_front
     (\<lambda>m. mb_entry m = 0) mb_take"

section \<open>Properties\<close>

text \<open>
  \<open>rt_mb_send_wait\<close> by the running thread: the word goes to the end of the mailbox and the
  first receiver in line, if any, is made ready (out of the line and in the ready table, its
  timer stopped, its error left alone); if the mailbox is full the caller is refused with
  \<open>-RT_EFULL\<close> or joins the line of senders, suspended with its timer set. This is the send of
  the abstract channel; kernel and mailbox stay consistent.
\<close>

theorem rt_mb_send_wait_refines:
  assumes "kinv {} k" "mb_ok i k" "running k t" "interrupt_nest k = 0" "time_ok time"
  shows "\<exists>r loc' k'. rt_mb_send_wait_start i v time k = Some (r, loc', k') \<and> kinv {} k' \<and> mb_ok i k'
     \<and> mb_capacity i k' = mb_capacity i k
     \<and> (r, mb_abs i k') = chan_send_spec (mb_capacity i k)
           (enlist (ipc_flag i k) (\<lambda>s. current_priority (threads k s)) t) (time \<noteq> 0) v (mb_abs i k)
     \<and> (r = Returned RT_EOK \<longrightarrow> made_ready (SuspendQ i) k k')
     \<and> (r = Blocked \<longrightarrow> blocked (SenderQ i) t (ipc_flag i k) time (clear_error t k) k')"
proof -
  have asr: "assert_ipc RT_Object_Class_MailBox i k = Some ()" "rt_thread_self k = Some t"
    using assms(2,3) by (simp_all add: mb_ok_def assert_ipc_ok rt_thread_self_def running_def)
  show ?thesis
  proof (cases "mb_full (mailboxes k i) \<and> time = 0")
    case True
    then have "\<not> length (mb_content (mailboxes k i)) < mb_capacity i k"
      using mb_full_content assms(2) by (simp add: mb_ok_def mb_capacity_def)
    then show ?thesis
      using True asr assms(1,2) by (simp add: rt_mb_send_wait_start_def mb_abs_def)
  next
    case False
    then show ?thesis
      using send_try_refines [OF assms, of v 0] asr by (auto simp: rt_mb_send_wait_start_def)
  qed
qed

text \<open>
  C14. \<open>rt_mb_recv\<close> by the running thread: it gets the oldest word and the first sender in line,
  if any, is made ready (out of the line and in the ready table, its timer stopped, its error
  left alone); if the mailbox is empty the caller is refused with \<open>-RT_ETIMEOUT\<close> or joins
  the line of receivers, suspended with its timer set. This is the receive of the abstract
  channel; kernel and mailbox stay consistent.
\<close>

theorem rt_mb_recv_refines:
  assumes "kinv {} k" "mb_ok i k" "running k t" "interrupt_nest k = 0" "time_ok time"
  shows "\<exists>r got loc' k'. rt_mb_recv_start i time k = Some (r, got, loc', k') \<and> kinv {} k' \<and> mb_ok i k'
     \<and> mb_capacity i k' = mb_capacity i k
     \<and> (r, got, mb_abs i k') = chan_recv_spec
           (enlist (ipc_flag i k) (\<lambda>s. current_priority (threads k s)) t) (time \<noteq> 0) (mb_abs i k)
     \<and> (got \<noteq> None \<longrightarrow> made_ready (SenderQ i) k k')
     \<and> (r = Blocked \<longrightarrow> blocked (SuspendQ i) t (ipc_flag i k) time (clear_error t k) k')"
proof -
  have asr: "assert_ipc RT_Object_Class_MailBox i k = Some ()" "rt_thread_self k = Some t"
    using assms(2,3) by (simp_all add: mb_ok_def assert_ipc_ok rt_thread_self_def running_def)
  show ?thesis
  proof (cases "mb_entry (mailboxes k i) = 0 \<and> time = 0")
    case True
    then have "mb_abs i k = ([], queues k (SuspendQ i), queues k (SenderQ i))"
      using mb_empty_content by (simp add: mb_abs_def)
    then show ?thesis
      using True asr assms(1,2) by (simp add: rt_mb_recv_start_def)
  next
    case False
    then show ?thesis
      using recv_try_refines [OF assms, of 0] asr by (auto simp: rt_mb_recv_start_def)
  qed
qed

text \<open>
  Waiting with a time limit, however often the thread is woken for nothing: a receiver
  that has waited \<open>tick - tick_delta\<close> ticks (less than half the tick range, across a wrap of
  the tick too) and finds the mailbox empty waits again for exactly what is left of its
  limit, or gives up with \<open>-RT_ETIMEOUT\<close> when nothing is left; if there is a word it takes it.
  A receiver woken by its timeout or by the end of the mailbox returns that error.
\<close>

theorem rt_mb_recv_wake_remaining:
  assumes "kinv {} k" "mb_ok i k" "running k t" "interrupt_nest k = 0"
    and "0 < sint time" "time_ok time" "uint (tick k - tick_delta) < 2 ^ 31"
  defines "left \<equiv> max 0 (sint time - uint (tick k - tick_delta))"
  shows "if error (threads k t) \<noteq> RT_EOK
     then rt_mb_recv_wake i t (time, tick_delta) k = Some (Returned (error (threads k t)), None, (time, tick_delta), k)
     else \<exists>r got loc' k'. rt_mb_recv_wake i t (time, tick_delta) k = Some (r, got, loc', k')
       \<and> kinv {} k' \<and> mb_ok i k'
       \<and> (r, got, mb_abs i k') = chan_recv_spec
             (enlist (ipc_flag i k) (\<lambda>s. current_priority (threads k s)) t) (left > 0) (mb_abs i k)
       \<and> (r = Blocked \<longrightarrow> sint (fst loc') = left \<and> snd loc' = tick k
             \<and> ThreadTimer t \<in> set (tlists k' HardList) \<and> trem k' (ThreadTimer t) = left)"
proof -
  let ?t = "ipc_remaining time tick_delta (tick k)"
  have left: "sint ?t = left" unfolding left_def by (rule ipc_remaining_sint [OF assms(5,7)])
  have "left \<ge> 0" by (simp add: left_def)
  moreover have "left = 0 \<longleftrightarrow> ?t = 0" unfolding left [symmetric] by (rule signed_eq_0_iff)
  ultimately have nz: "?t \<noteq> 0 \<longleftrightarrow> left > 0" by linarith
  have "time_ok ?t" by (rule ipc_remaining_time_ok [OF assms(6,7)])
  from recv_try_refines [OF assms(1-4) this, of "tick k - tick_delta"] obtain r got loc' k' where
    r: "mb_recv_try i (Some t) (?t, tick k - tick_delta) k = Some (r, got, loc', k')" "kinv {} k'" "mb_ok i k'"
    "(r, got, mb_abs i k') = chan_recv_spec
        (enlist (ipc_flag i k) (\<lambda>s. current_priority (threads k s)) t) (left > 0) (mb_abs i k)"
    "r = Blocked \<Longrightarrow> blocked (SuspendQ i) t (ipc_flag i k) ?t (clear_error t k) k'"
    "r = Blocked \<Longrightarrow> loc' = (?t, if 0 < sint ?t then tick k else tick k - tick_delta)"
    unfolding nz by blast
  have l: "ipc_locals_after (tick k) (time, tick_delta) = (?t, tick k - tick_delta)"
    using assms(5) by (simp add: ipc_locals_after_def)
  have w: "sint (fst loc') = left \<and> snd loc' = tick k
             \<and> ThreadTimer t \<in> set (tlists k' HardList) \<and> trem k' (ThreadTimer t) = left" if "r = Blocked"
  proof -
    have "left > 0" using r(4) that by (cases "mb_content (mailboxes k i)") (auto simp: mb_abs_def split: if_splits)
    then have p: "0 < sint ?t" using left by simp
    have "ThreadTimer t \<in> set (tlists k' HardList) \<and> trem k' (ThreadTimer t) = sint ?t"
      using r(5) [OF that] p by (simp add: blocked_def)
    then show ?thesis using r(6) [OF that] p left by simp
  qed
  show ?thesis
  proof (cases "error (threads k t) = RT_EOK")
    case True
    then have "rt_mb_recv_wake i t (time, tick_delta) k = Some (r, got, loc', k')"
      using r(1) by (simp add: rt_mb_recv_wake_def l)
    then show ?thesis using True r(2-4) w by auto
  next
    case False
    then show ?thesis by (simp add: rt_mb_recv_wake_def)
  qed
qed


text \<open>
  C17. First in, first out: any sequence of sends, urgent sends and receives on the circular
  buffer of a mailbox delivers what the same sequence on a list bounded by the mailbox's
  size delivers (urgent words in front), and leaves the same words; no access is outside
  the pool, and the offsets stay consistent.
\<close>

theorem rt_mb_fifo:
  assumes "mb_wf m"
  shows "\<exists>out m'. mb_run ops m = Some (out, m') \<and> mb_wf m' \<and> mb_size m' = mb_size m
     \<and> (out, mb_content m') = list_run (unat (mb_size m)) ops (mb_content m)"
proof -
  have "\<forall>x \<in> set ops. op_fits (\<lambda>_ _. True) m x" by (simp add: op_fits_def split: store_op.splits)
  from mb.run_urgent_refines [OF assms this] show ?thesis by (auto simp: mb_run_def word_unat_eq_iff)
qed

theorem rt_mb_fifo_witness:
  "\<exists>m'. mb_run [Store_put 7, Store_put 8, Store_put 9, Store_get, Store_urgent 5] (mailboxes ex_kernel 3)
     = Some ([7], m') \<and> mb_content m' = [5, 8]"
proof -
  have "mb_wf (mailboxes ex_kernel 3)" by (simp add: mb_wf_def)
  from rt_mb_fifo [OF this, of "[Store_put 7, Store_put 8, Store_put 9, Store_get, Store_urgent 5]"]
  show ?thesis by (auto simp: mb_content_def ring_def)
qed

lemma ex_mb: "mb_ok 3 ex_kernel"
  by (simp add: mb_ok_def mb_wf_def ipc_object_ok_def ipc_flag_def rt_object_get_type_def)

lemma ex_mb_abs: "mb_abs 3 ex_kernel = ([], [], [])" "mb_capacity 3 ex_kernel = 2"
  by (simp_all add: mb_abs_def mb_content_def ring_def mb_capacity_def)

theorem rt_mb_send_wait_refines_witness:
  "\<exists>loc k'. rt_mb_send_wait_start 3 7 0 ex_kernel = Some (Returned RT_EOK, loc, k') \<and> mb_abs 3 k' = ([7], [], [])"
proof -
  have "interrupt_nest ex_kernel = 0" "time_ok 0" by (simp_all add: time_ok_def)
  from rt_mb_send_wait_refines [OF ex_kinv ex_mb ex_running this, of 7] show ?thesis
    by (auto simp: ex_mb_abs)
qed

theorem rt_mb_recv_refines_witness:
  "\<exists>loc k'. rt_mb_recv_start 3 20 ex_kernel = Some (Blocked, None, loc, k') \<and> mb_abs 3 k' = ([], [0], [])
     \<and> trem k' (ThreadTimer 0) = 20"
proof -
  have "interrupt_nest ex_kernel = 0" "time_ok 20" by (simp_all add: time_ok_def)
  from rt_mb_recv_refines [OF ex_kinv ex_mb ex_running this] show ?thesis
    by (auto simp: ex_mb_abs enlist_def ipc_flag_def blocked_def)
qed

theorem rt_mb_recv_wake_remaining_witness:
  "\<exists>loc k'. rt_mb_recv_wake 3 0 (20, 95) ex_kernel = Some (Blocked, None, loc, k')
     \<and> sint (fst loc) = 15 \<and> trem k' (ThreadTimer 0) = 15"
proof -
  have "interrupt_nest ex_kernel = 0" "(0::int) < sint (20 :: u32)" "time_ok 20"
    "uint (tick ex_kernel - 95) < 2 ^ 31" by (simp_all add: time_ok_def)
  from rt_mb_recv_wake_remaining [OF ex_kinv ex_mb ex_running this] show ?thesis
    by (auto simp: ex_mb_abs enlist_def ipc_flag_def)
qed

end
