(* ===== verification/RT_Msgqueue.thy ===== *)
theory RT_Msgqueue
  imports RT_Channel
begin

text \<open>
  Message queues (\<open>src/ipc.c\<close>): fixed-size messages in slots that are linked into a queue or
  into a list of free slots, with a line of receivers and a line of senders. The loops are
  split as those of the mailboxes. A slot is addressed by its number in the pool. The code
  enables interrupts while it copies a message that is on neither list; here taking the
  slot, copying and linking are one step.
\<close>

section \<open>Operations on the slots\<close>

text \<open>One turn of the loop that puts all slots on the free list.\<close>

definition mq_free_slot :: "nat \<Rightarrow> rt_messagequeue \<Rightarrow> rt_messagequeue" where
  "mq_free_slot s m = m\<lparr>mq_link := (mq_link m)(s := msg_queue_free m), msg_queue_free := Some s\<rparr>"

definition mq_init_slots :: "rt_messagequeue \<Rightarrow> rt_messagequeue" where
  "mq_init_slots m =
     fold mq_free_slot [0..<unat (max_msgs m)]
       (m\<lparr>msg_queue_head := None, msg_queue_tail := None, msg_queue_free := None\<rparr>)"

text \<open>The count, refused at its maximum.\<close>

definition mq_count :: "rt_messagequeue \<Rightarrow> rt_err_t \<times> rt_messagequeue" where
  "mq_count m = (if mq_entry m < RT_MQ_ENTRY_MAX then (RT_EOK, m\<lparr>mq_entry := mq_entry m + 1\<rparr>)
                 else (- RT_EFULL, m))"

text \<open>Copying \<open>size\<close> bytes of the caller's buffer into a slot; reading beyond the buffer or
  writing beyond the slot has no result.\<close>

definition mq_fill :: "nat \<Rightarrow> u8 list \<Rightarrow> u32 \<Rightarrow> rt_messagequeue \<Rightarrow> rt_messagequeue option" where
  "mq_fill s buf sz m =
     (if unat sz \<le> length buf \<and> unat sz \<le> length (mq_data m s)
      then Some (m\<lparr>mq_data := (mq_data m)(s := blit (mq_data m s) 0 (take (unat sz) buf))\<rparr>)
      else None)"

text \<open>\<open>rt_mq_send_wait\<close> and \<open>rt_mq_urgent\<close> once there is a free slot.\<close>

definition mq_put :: "u8 list \<Rightarrow> u32 \<Rightarrow> rt_messagequeue \<Rightarrow> (rt_err_t \<times> rt_messagequeue) option" where
  "mq_put buf sz m =
     do { s \<leftarrow> msg_queue_free m;
          let m = m\<lparr>msg_queue_free := mq_link m s\<rparr>;
          let m = m\<lparr>mq_link := (mq_link m)(s := None)\<rparr>;
          m \<leftarrow> mq_fill s buf sz m;
          let m = (case msg_queue_tail m of
                     None \<Rightarrow> m | Some t \<Rightarrow> m\<lparr>mq_link := (mq_link m)(t := Some s)\<rparr>);
          let m = m\<lparr>msg_queue_tail := Some s\<rparr>;
          let m = (if msg_queue_head m = None then m\<lparr>msg_queue_head := Some s\<rparr> else m);
          Some (mq_count m) }"

definition mq_put_front :: "u8 list \<Rightarrow> u32 \<Rightarrow> rt_messagequeue \<Rightarrow> (rt_err_t \<times> rt_messagequeue) option" where
  "mq_put_front buf sz m =
     do { s \<leftarrow> msg_queue_free m;
          let m = m\<lparr>msg_queue_free := mq_link m s\<rparr>;
          m \<leftarrow> mq_fill s buf sz m;
          let m = m\<lparr>mq_link := (mq_link m)(s := msg_queue_head m), msg_queue_head := Some s\<rparr>;
          let m = (if msg_queue_tail m = None then m\<lparr>msg_queue_tail := Some s\<rparr> else m);
          Some (mq_count m) }"

text \<open>\<open>rt_mq_recv\<close> once there is a message: unlink the first slot, copy at most \<open>size\<close> bytes,
  free the slot.\<close>

definition mq_unlink_head :: "rt_messagequeue \<Rightarrow> (nat \<times> rt_messagequeue) option" where
  "mq_unlink_head m =
     do { s \<leftarrow> msg_queue_head m;
          let m = m\<lparr>msg_queue_head := mq_link m s\<rparr>;
          Some (s, if msg_queue_tail m = Some s then m\<lparr>msg_queue_tail := None\<rparr> else m) }"

definition mq_take :: "u32 \<Rightarrow> rt_messagequeue \<Rightarrow> (u8 list \<times> rt_messagequeue) option" where
  "mq_take sz m =
     do { (s, m) \<leftarrow> mq_unlink_head m;
          let m = (if mq_entry m > 0 then m\<lparr>mq_entry := mq_entry m - 1\<rparr> else m);
          let n = (if sz > ucast (mq_msg_size m) then unat (mq_msg_size m) else unat sz);
          if n \<le> length (mq_data m s) then Some (take n (mq_data m s), mq_free_slot s m) else None }"

text \<open>The loop of \<open>RT_IPC_CMD_RESET\<close>.\<close>

partial_function (option) mq_flush :: "rt_messagequeue \<Rightarrow> rt_messagequeue option" where
  "mq_flush m =
     (if msg_queue_head m = None then Some m
      else do { (s, m) \<leftarrow> mq_unlink_head m; mq_flush (mq_free_slot s m) })"

section \<open>Operations on the object\<close>

definition upd_mq :: "oid \<Rightarrow> (rt_messagequeue \<Rightarrow> rt_messagequeue) \<Rightarrow> kernel \<Rightarrow> kernel" where
  "upd_mq i f k = k\<lparr>msgqueues := (msgqueues k)(i := f (msgqueues k i))\<rparr>"

definition mq_init_senders :: "oid \<Rightarrow> kernel \<Rightarrow> kernel" where
  "mq_init_senders i k = k\<lparr>queues := q_replace (SenderQ i) [] (queues k)\<rparr>"

text \<open>\<open>sizeof(struct rt_mq_message)\<close> is 4; the bytes of a slot follow its link.\<close>

definition slot_bytes :: "u16 \<Rightarrow> u8 list \<Rightarrow> nat \<Rightarrow> u8 list" where
  "slot_bytes msz pool s = take (unat msz) (drop (s * (unat msz + 4) + 4) pool)"

definition rt_mq_init ::
    "oid \<Rightarrow> string \<Rightarrow> u8 list \<Rightarrow> u32 \<Rightarrow> u32 \<Rightarrow> u8 \<Rightarrow> kernel \<Rightarrow> (rt_err_t \<times> kernel) option" where
  "rt_mq_init i name pool msg_size pool_size flag k =
     do { k \<leftarrow> rt_object_init (OIpc i) RT_Object_Class_MessageQueue name k;
          let k = set_ipc_flag i flag k;
          let k = rt_ipc_object_init i k;
          let msz = ucast (RT_ALIGN msg_size 8);
          let k = upd_mq i (\<lambda>m. m\<lparr>mq_data := slot_bytes msz pool, mq_msg_size := msz,
                               max_msgs := ucast (pool_size div (ucast msz + 4))\<rparr>) k;
          let k = upd_mq i (\<lambda>m. (mq_init_slots m)\<lparr>mq_entry := 0\<rparr>) k;
          Some (RT_EOK, mq_init_senders i k) }"

definition rt_mq_detach :: "oid \<Rightarrow> kernel \<Rightarrow> (rt_err_t \<times> kernel) option" where
  "rt_mq_detach i k =
     do { assert_ipc RT_Object_Class_MessageQueue i k;
          rt_assert (rt_object_is_systemobject (OIpc i) k);
          k \<leftarrow> rt_ipc_list_resume_all (SuspendQ i) k;
          k \<leftarrow> rt_ipc_list_resume_all (SenderQ i) k;
          Some (RT_EOK, rt_object_detach (OIpc i) k) }"

text \<open>\<open>rt_mq_create\<close>: the answers of the heap for the object and for the pool are arguments.\<close>

definition rt_mq_create ::
    "oid option \<Rightarrow> u8 list option \<Rightarrow> string \<Rightarrow> u32 \<Rightarrow> u32 \<Rightarrow> u8 \<Rightarrow> kernel \<Rightarrow> (oid option \<times> kernel) option" where
  "rt_mq_create mem pool name msg_size max_msgs' flag k =
     do { RT_DEBUG_NOT_IN_INTERRUPT k;
          (r, k) \<leftarrow> rt_object_allocate (map_option OIpc mem) RT_Object_Class_MessageQueue name k;
          case (r, mem) of
            (Some _, Some i) \<Rightarrow>
              do { let k = set_ipc_flag i flag k;
                   let k = rt_ipc_object_init i k;
                   let msz = ucast (RT_ALIGN msg_size 8);
                   let k = upd_mq i (\<lambda>m. m\<lparr>mq_msg_size := msz, max_msgs := ucast max_msgs'\<rparr>) k;
                   case pool of
                     None \<Rightarrow> do { (_, k) \<leftarrow> rt_object_delete (OIpc i) k; Some (None, k) }
                   | Some pool \<Rightarrow>
                       let k = upd_mq i (\<lambda>m. (mq_init_slots (m\<lparr>mq_data := slot_bytes msz pool\<rparr>))\<lparr>mq_entry := 0\<rparr>) k
                       in Some (Some i, mq_init_senders i k) }
          | _ \<Rightarrow> Some (None, k) }"

definition rt_mq_delete :: "oid \<Rightarrow> kernel \<Rightarrow> (rt_err_t \<times> kernel) option" where
  "rt_mq_delete i k =
     do { RT_DEBUG_NOT_IN_INTERRUPT k;
          assert_ipc RT_Object_Class_MessageQueue i k;
          rt_assert (\<not> rt_object_is_systemobject (OIpc i) k);
          k \<leftarrow> rt_ipc_list_resume_all (SuspendQ i) k;
          k \<leftarrow> rt_ipc_list_resume_all (SenderQ i) k;
          (_, k) \<leftarrow> rt_object_delete (OIpc i) k;
          Some (RT_EOK, k) }"

definition mq_send_try ::
    "oid \<Rightarrow> u8 list \<Rightarrow> u32 \<Rightarrow> tid option \<Rightarrow> u32 \<times> u32 \<Rightarrow> kernel \<Rightarrow> (ipc_result \<times> (u32 \<times> u32) \<times> kernel) option" where
  "mq_send_try i buf sz self loc k =
     (case loc of (timeout, tick_delta) \<Rightarrow>
      if msg_queue_free (msgqueues k i) = None
      then do { t \<leftarrow> self;
                let k = clear_error t k;
                if timeout = 0 then Some (Returned (- RT_EFULL), loc, k)
                else do { RT_DEBUG_IN_THREAD_CONTEXT k;
                          let tick_delta = (if 0 < sint timeout then tick k else tick_delta);
                          k \<leftarrow> ipc_wait (SenderQ i) t (ipc_flag i k) timeout k;
                          Some (Blocked, (timeout, tick_delta), k) } }
      else do { (err, m) \<leftarrow> mq_put buf sz (msgqueues k i);
                let k = upd_mq i (\<lambda>_. m) k;
                if err \<noteq> RT_EOK then Some (Returned err, loc, k)
                else do { k \<leftarrow> ipc_wake_first (SuspendQ i) k;
                          Some (Returned RT_EOK, loc, k) } })"

definition rt_mq_send_wait_start ::
    "oid \<Rightarrow> u8 list \<Rightarrow> u32 \<Rightarrow> u32 \<Rightarrow> kernel \<Rightarrow> (ipc_result \<times> (u32 \<times> u32) \<times> kernel) option" where
  "rt_mq_send_wait_start i buf sz timeout k =
     do { assert_ipc RT_Object_Class_MessageQueue i k;
          rt_assert (sz \<noteq> 0);
          if sz > ucast (mq_msg_size (msgqueues k i)) then Some (Returned (- RT_ERROR), (timeout, 0), k)
          else if msg_queue_free (msgqueues k i) = None \<and> timeout = 0
          then Some (Returned (- RT_EFULL), (timeout, 0), k)
          else mq_send_try i buf sz (rt_thread_self k) (timeout, 0) k }"

definition rt_mq_send_wait_wake ::
    "oid \<Rightarrow> u8 list \<Rightarrow> u32 \<Rightarrow> tid \<Rightarrow> u32 \<times> u32 \<Rightarrow> kernel \<Rightarrow> (ipc_result \<times> (u32 \<times> u32) \<times> kernel) option" where
  "rt_mq_send_wait_wake i buf sz t loc k =
     (if error (threads k t) \<noteq> RT_EOK then Some (Returned (error (threads k t)), loc, k)
      else mq_send_try i buf sz (Some t) (ipc_locals_after (tick k) loc) k)"

definition rt_mq_send :: "oid \<Rightarrow> u8 list \<Rightarrow> u32 \<Rightarrow> kernel \<Rightarrow> (ipc_result \<times> (u32 \<times> u32) \<times> kernel) option" where
  "rt_mq_send i buf sz k = rt_mq_send_wait_start i buf sz 0 k"

definition rt_mq_urgent :: "oid \<Rightarrow> u8 list \<Rightarrow> u32 \<Rightarrow> kernel \<Rightarrow> (rt_err_t \<times> kernel) option" where
  "rt_mq_urgent i buf sz k =
     do { assert_ipc RT_Object_Class_MessageQueue i k;
          rt_assert (sz \<noteq> 0);
          if sz > ucast (mq_msg_size (msgqueues k i)) then Some (- RT_ERROR, k)
          else if msg_queue_free (msgqueues k i) = None then Some (- RT_EFULL, k)
          else do { (err, m) \<leftarrow> mq_put_front buf sz (msgqueues k i);
                    let k = upd_mq i (\<lambda>_. m) k;
                    if err \<noteq> RT_EOK then Some (err, k)
                    else do { k \<leftarrow> ipc_wake_first (SuspendQ i) k; Some (RT_EOK, k) } } }"

definition mq_recv_try ::
    "oid \<Rightarrow> u32 \<Rightarrow> tid option \<Rightarrow> u32 \<times> u32 \<Rightarrow> kernel \<Rightarrow> (ipc_result \<times> u8 list option \<times> (u32 \<times> u32) \<times> kernel) option" where
  "mq_recv_try i sz self loc k =
     (case loc of (timeout, tick_delta) \<Rightarrow>
      if mq_entry (msgqueues k i) = 0
      then do { RT_DEBUG_IN_THREAD_CONTEXT k;
                t \<leftarrow> self;
                let k = clear_error t k;
                if timeout = 0
                then Some (Returned (- RT_ETIMEOUT), None, loc, upd_thread t (\<lambda>th. th\<lparr>error := - RT_ETIMEOUT\<rparr>) k)
                else do { let tick_delta = (if 0 < sint timeout then tick k else tick_delta);
                          k \<leftarrow> ipc_wait (SuspendQ i) t (ipc_flag i k) timeout k;
                          Some (Blocked, None, (timeout, tick_delta), k) } }
      else do { (v, m) \<leftarrow> mq_take sz (msgqueues k i);
                k \<leftarrow> ipc_wake_first (SenderQ i) (upd_mq i (\<lambda>_. m) k);
                Some (Returned RT_EOK, Some v, loc, k) })"

definition rt_mq_recv_start ::
    "oid \<Rightarrow> u32 \<Rightarrow> u32 \<Rightarrow> kernel \<Rightarrow> (ipc_result \<times> u8 list option \<times> (u32 \<times> u32) \<times> kernel) option" where
  "rt_mq_recv_start i sz timeout k =
     do { assert_ipc RT_Object_Class_MessageQueue i k;
          rt_assert (sz \<noteq> 0);
          if mq_entry (msgqueues k i) = 0 \<and> timeout = 0
          then Some (Returned (- RT_ETIMEOUT), None, (timeout, 0), k)
          else mq_recv_try i sz (rt_thread_self k) (timeout, 0) k }"

definition rt_mq_recv_wake ::
    "oid \<Rightarrow> u32 \<Rightarrow> tid \<Rightarrow> u32 \<times> u32 \<Rightarrow> kernel \<Rightarrow> (ipc_result \<times> u8 list option \<times> (u32 \<times> u32) \<times> kernel) option" where
  "rt_mq_recv_wake i sz t loc k =
     (if error (threads k t) \<noteq> RT_EOK then Some (Returned (error (threads k t)), None, loc, k)
      else mq_recv_try i sz (Some t) (ipc_locals_after (tick k) loc) k)"

definition rt_mq_control :: "oid \<Rightarrow> nat \<Rightarrow> kernel \<Rightarrow> (rt_err_t \<times> kernel) option" where
  "rt_mq_control i cmd k =
     do { assert_ipc RT_Object_Class_MessageQueue i k;
          if cmd = RT_IPC_CMD_RESET
          then do { k \<leftarrow> rt_ipc_list_resume_all (SuspendQ i) k;
                    k \<leftarrow> rt_ipc_list_resume_all (SenderQ i) k;
                    m \<leftarrow> mq_flush (msgqueues k i);
                    let k = upd_mq i (\<lambda>_. m\<lparr>mq_entry := 0\<rparr>) k;
                    k \<leftarrow> rt_schedule k;
                    Some (RT_EOK, k) }
          else Some (- RT_ERROR, k) }"


section \<open>The chain of the queue\<close>

text \<open>The first \<open>n\<close> slots from a link on.\<close>

fun follow :: "(nat \<Rightarrow> nat option) \<Rightarrow> nat option \<Rightarrow> nat \<Rightarrow> nat list" where
  "follow l p 0 = []"
| "follow l None (Suc n) = []"
| "follow l (Some s) (Suc n) = s # follow l (l s) n"

lemma chain_follow: "chain l p ss \<Longrightarrow> follow l p (length ss) = ss"
  by (induction ss arbitrary: p) auto

definition mq_slots :: "rt_messagequeue \<Rightarrow> nat list" where
  "mq_slots m = follow (mq_link m) (msg_queue_head m) (unat (mq_entry m))"

definition mq_content :: "rt_messagequeue \<Rightarrow> u8 list list" where
  "mq_content m = map (mq_data m) (mq_slots m)"

text \<open>The slots are on the queue \<open>qs\<close> or on the free list \<open>fs\<close>, each once; the tail is the end of the
  queue and the count its length; every slot holds a message.\<close>

definition mq_lists :: "rt_messagequeue \<Rightarrow> nat list \<Rightarrow> nat list \<Rightarrow> bool" where
  "mq_lists m qs fs \<longleftrightarrow>
     chain (mq_link m) (msg_queue_head m) qs \<and> chain (mq_link m) (msg_queue_free m) fs
     \<and> distinct (qs @ fs) \<and> set (qs @ fs) = {..<unat (max_msgs m)}
     \<and> msg_queue_tail m = (if qs = [] then None else Some (last qs))
     \<and> unat (mq_entry m) = length qs
     \<and> (\<forall>s < unat (max_msgs m). length (mq_data m s) = unat (mq_msg_size m))"

definition mq_wf :: "rt_messagequeue \<Rightarrow> bool" where
  "mq_wf m \<longleftrightarrow> (\<exists>qs fs. mq_lists m qs fs)"

lemma mq_listsD:
  assumes "mq_lists m qs fs"
  shows "chain (mq_link m) (msg_queue_head m) qs" "chain (mq_link m) (msg_queue_free m) fs"
    "distinct (qs @ fs)" "set (qs @ fs) = {..<unat (max_msgs m)}"
    "msg_queue_tail m = (if qs = [] then None else Some (last qs))" "unat (mq_entry m) = length qs"
    "s \<in> set (qs @ fs) \<Longrightarrow> length (mq_data m s) = unat (mq_msg_size m)"
proof -
  show "s \<in> set (qs @ fs) \<Longrightarrow> length (mq_data m s) = unat (mq_msg_size m)"
    using assms unfolding mq_lists_def by (metis lessThan_iff)
qed (use assms in \<open>simp_all add: mq_lists_def\<close>)

lemma mq_lists_content:
  assumes "mq_lists m qs fs"
  shows "mq_slots m = qs" "mq_content m = map (mq_data m) qs"
  using chain_follow [OF mq_listsD(1) [OF assms]] mq_listsD(6) [OF assms]
  by (simp_all add: mq_slots_def mq_content_def)

lemma mq_lists_length: "mq_lists m qs fs \<Longrightarrow> length qs + length fs = unat (max_msgs m)"
  using mq_listsD(3,4) [of m qs fs] distinct_card [of "qs @ fs"] by simp

lemma mq_count_ok:
  assumes "mq_lists m qs (s # fs)" "mq_entry m' = mq_entry m"
  shows "mq_count m' = (RT_EOK, m'\<lparr>mq_entry := mq_entry m + 1\<rparr>)"
    "unat (mq_entry m + 1) = Suc (length qs)"
proof -
  have "unat (max_msgs m) < 2 ^ LENGTH(16)" by (rule unsigned_less)
  then have l: "unat (mq_entry m) < 65535"
    using mq_lists_length [OF assms(1)] mq_listsD(6) [OF assms(1)] by simp
  then show "mq_count m' = (RT_EOK, m'\<lparr>mq_entry := mq_entry m + 1\<rparr>)"
    using assms(2) by (simp add: mq_count_def word_less_nat_alt)
  show "unat (mq_entry m + 1) = Suc (length qs)"
    using l mq_listsD(6) [OF assms(1)] by (simp add: unat_word_ariths)
qed


text \<open>The message that a copy of \<open>sz\<close> bytes makes of an old one.\<close>

definition overlay :: "u8 list \<Rightarrow> u32 \<Rightarrow> u8 list \<Rightarrow> u8 list" where
  "overlay buf sz old = blit old 0 (take (unat sz) buf)"

lemma overlay_props:
  assumes "unat sz \<le> length buf" "unat sz \<le> length old"
  shows "length (overlay buf sz old) = length old" "take (unat sz) (overlay buf sz old) = take (unat sz) buf"
  using assms by (simp_all add: overlay_def blit_def min_def)

lemma mq_lists_free:
  assumes "mq_lists m qs fs"
  shows "msg_queue_free m = None \<longleftrightarrow> \<not> length qs < unat (max_msgs m)"
  using mq_listsD(2) [OF assms] mq_lists_length [OF assms] by (cases fs) auto

lemma unat_u16_u32: "unat (ucast (w::u16) :: u32) = unat w"
proof -
  have "unat w < 2 ^ LENGTH(16)" by (rule unsigned_less)
  then have "unat w < 2 ^ LENGTH(32)" by simp
  then show ?thesis by (simp add: unsigned_ucast_eq take_bit_nat_eq_self)
qed

lemma mq_put_ok:
  assumes wf: "mq_lists m qs (s # fs)" and sz: "sz \<le> ucast (mq_msg_size m)" "unat sz \<le> length buf"
  shows "\<exists>m'. mq_put buf sz m = Some (RT_EOK, m') \<and> mq_lists m' (qs @ [s]) fs
     \<and> mq_content m' = mq_content m @ [overlay buf sz (mq_data m s)]
     \<and> max_msgs m' = max_msgs m \<and> mq_msg_size m' = mq_msg_size m"
proof -
  note w = mq_listsD [OF wf]
  let ?d = "(mq_data m)(s := overlay buf sz (mq_data m s))"
  let ?l = "case msg_queue_tail m of None \<Rightarrow> (mq_link m)(s := None) | Some t \<Rightarrow> (mq_link m)(s := None, t := Some s)"
  let ?h = "if msg_queue_head m = None then Some s else msg_queue_head m"
  let ?m = "m\<lparr>msg_queue_free := mq_link m s, mq_data := ?d, mq_link := ?l, msg_queue_tail := Some s,
      msg_queue_head := ?h\<rparr>"
  have s: "msg_queue_free m = Some s" "chain (mq_link m) (mq_link m s) fs" using w(2) by simp_all
  have ns: "s \<notin> set qs" "s \<notin> set fs" "distinct qs" "distinct fs" "set qs \<inter> set fs = {}" using w(3) by auto
  have len: "length (mq_data m s) = unat (mq_msg_size m)" by (rule w(7)) simp
  have szl: "unat sz \<le> length (mq_data m s)"
    using sz(1) len by (simp add: word_le_nat_alt unat_u16_u32)
  have "mq_put buf sz m = Some (mq_count ?m)"
    using s(1) sz(2) szl
    by (cases m; cases "msg_queue_tail m"; cases "msg_queue_head m")
      (simp_all add: mq_put_def mq_fill_def overlay_def Let_def)
  then have eq: "mq_put buf sz m = Some (RT_EOK, ?m\<lparr>mq_entry := mq_entry m + 1\<rparr>)"
    using mq_count_ok(1) [OF wf, of ?m] by simp
  have ch: "chain ?l ?h (qs @ [s])"
  proof (cases qs rule: rev_cases)
    case Nil
    then show ?thesis using w(1,5) by simp
  next
    case (snoc ts t)
    have "chain ((mq_link m)(s := None, t := Some s)) (msg_queue_head m) (ts @ [t, s])"
      using w(1) ns(1,3) snoc by (intro chain_append) simp_all
    moreover have "msg_queue_head m \<noteq> None" using w(1) snoc by (cases "msg_queue_head m") auto
    ultimately show ?thesis using w(5) snoc by auto
  qed
  have cf: "chain ?l (mq_link m s) fs"
  proof (cases qs rule: rev_cases)
    case Nil
    then show ?thesis using w(5) s(2) ns(2) by simp
  next
    case (snoc ts t)
    then have "t \<notin> set fs" using ns(5) by auto
    then show ?thesis using w(5) s(2) ns(2) snoc by simp
  qed
  have "mq_lists (?m\<lparr>mq_entry := mq_entry m + 1\<rparr>) (qs @ [s]) fs"
    using ch cf w(3,4) mq_count_ok(2) [OF wf] overlay_props(1) [OF sz(2) szl] wf
    by (auto simp: mq_lists_def)
  moreover from mq_lists_content(2) [OF this] have
    "mq_content (?m\<lparr>mq_entry := mq_entry m + 1\<rparr>) = mq_content m @ [overlay buf sz (mq_data m s)]"
    using ns(1) mq_lists_content(2) [OF wf] by simp
  ultimately show ?thesis using eq by auto
qed

lemma mq_put_front_ok:
  assumes wf: "mq_lists m qs (s # fs)" and sz: "sz \<le> ucast (mq_msg_size m)" "unat sz \<le> length buf"
  shows "\<exists>m'. mq_put_front buf sz m = Some (RT_EOK, m') \<and> mq_lists m' (s # qs) fs
     \<and> mq_content m' = overlay buf sz (mq_data m s) # mq_content m
     \<and> max_msgs m' = max_msgs m \<and> mq_msg_size m' = mq_msg_size m"
proof -
  note w = mq_listsD [OF wf]
  let ?d = "(mq_data m)(s := overlay buf sz (mq_data m s))"
  let ?t = "if msg_queue_tail m = None then Some s else msg_queue_tail m"
  let ?m = "m\<lparr>msg_queue_free := mq_link m s, mq_data := ?d, mq_link := (mq_link m)(s := msg_queue_head m),
      msg_queue_head := Some s, msg_queue_tail := ?t\<rparr>"
  have s: "msg_queue_free m = Some s" "chain (mq_link m) (mq_link m s) fs" using w(2) by simp_all
  have ns: "s \<notin> set qs" "s \<notin> set fs" using w(3) by auto
  have len: "length (mq_data m s) = unat (mq_msg_size m)" by (rule w(7)) simp
  have szl: "unat sz \<le> length (mq_data m s)"
    using sz(1) len by (simp add: word_le_nat_alt unat_u16_u32)
  have "mq_put_front buf sz m = Some (mq_count ?m)"
    using s(1) sz(2) szl
    by (cases m; cases "msg_queue_tail m") (simp_all add: mq_put_front_def mq_fill_def overlay_def Let_def)
  then have eq: "mq_put_front buf sz m = Some (RT_EOK, ?m\<lparr>mq_entry := mq_entry m + 1\<rparr>)"
    using mq_count_ok(1) [OF wf, of ?m] by simp
  have "mq_lists (?m\<lparr>mq_entry := mq_entry m + 1\<rparr>) (s # qs) fs"
    using s(2) ns w(1,3,4,5) mq_count_ok(2) [OF wf] overlay_props(1) [OF sz(2) szl] wf
    by (auto simp: mq_lists_def)
  moreover from mq_lists_content(2) [OF this] have
    "mq_content (?m\<lparr>mq_entry := mq_entry m + 1\<rparr>) = overlay buf sz (mq_data m s) # mq_content m"
    using ns(1) mq_lists_content(2) [OF wf] by simp
  ultimately show ?thesis using eq by auto
qed

text \<open>Unlinking the first slot and freeing it.\<close>

lemma mq_unlink_free:
  assumes wf: "mq_lists m (s # qs) fs"
  shows "\<exists>m'. mq_unlink_head m = Some (s, m') \<and> mq_entry m' = mq_entry m \<and> mq_data m' = mq_data m
     \<and> mq_msg_size m' = mq_msg_size m
     \<and> mq_lists ((mq_free_slot s m')\<lparr>mq_entry := mq_entry m - 1\<rparr>) qs (s # fs)
     \<and> max_msgs m' = max_msgs m"
proof -
  note w = mq_listsD [OF wf]
  let ?t = "if msg_queue_tail m = Some s then None else msg_queue_tail m"
  let ?m = "m\<lparr>msg_queue_head := mq_link m s, msg_queue_tail := ?t\<rparr>"
  have s: "msg_queue_head m = Some s" "chain (mq_link m) (mq_link m s) qs" using w(1) by simp_all
  have ns: "s \<notin> set qs" "s \<notin> set fs" using w(3) by auto
  have eq: "mq_unlink_head m = Some (s, ?m)" using s(1) by (simp add: mq_unlink_head_def Let_def)
  have t: "?t = (if qs = [] then None else Some (last qs))"
    using w(5) ns(1) by (cases qs rule: rev_cases) auto
  have "unat (mq_entry m) = Suc (length qs)" using w(6) by simp
  then have "unat (mq_entry m - 1) = length qs"
    by (metis diff_Suc_1 nat.distinct(1) unat_0 unat_minus_one)
  then have "mq_lists ((mq_free_slot s ?m)\<lparr>mq_entry := mq_entry m - 1\<rparr>) qs (s # fs)"
    using s(2) ns w(2,3,4) t wf unfolding mq_free_slot_def by (auto simp: mq_lists_def)
  then show ?thesis using eq by (intro exI [of _ ?m]) simp
qed

lemma mq_take_ok:
  assumes wf: "mq_lists m (s # qs) fs"
  shows "\<exists>m'. mq_take sz m = Some (take (min (unat sz) (unat (mq_msg_size m))) (mq_data m s), m')
     \<and> mq_lists m' qs (s # fs) \<and> mq_content m' = map (mq_data m) qs
     \<and> max_msgs m' = max_msgs m \<and> mq_msg_size m' = mq_msg_size m"
proof -
  note w = mq_listsD [OF wf]
  obtain m1 where m1: "mq_unlink_head m = Some (s, m1)" "mq_entry m1 = mq_entry m" "mq_data m1 = mq_data m"
      "mq_msg_size m1 = mq_msg_size m" "max_msgs m1 = max_msgs m"
      "mq_lists ((mq_free_slot s m1)\<lparr>mq_entry := mq_entry m - 1\<rparr>) qs (s # fs)"
    using mq_unlink_free [OF wf] by blast
  have e: "mq_entry m > 0" using w(6) by (simp add: word_less_nat_alt)
  have len: "length (mq_data m s) = unat (mq_msg_size m)" by (rule w(7)) simp
  have n: "(if sz > ucast (mq_msg_size m) then unat (mq_msg_size m) else unat sz) = min (unat sz) (unat (mq_msg_size m))"
    by (simp add: word_less_nat_alt unat_u16_u32 min_def)
  let ?m = "(mq_free_slot s m1)\<lparr>mq_entry := mq_entry m - 1\<rparr>"
  have f: "mq_free_slot s (m1\<lparr>mq_entry := mq_entry m - 1\<rparr>) = ?m" by (simp add: mq_free_slot_def)
  have "mq_take sz m = Some (take (min (unat sz) (unat (mq_msg_size m))) (mq_data m s), ?m)"
    using e len f n by (cases "ucast (mq_msg_size m) < sz") (simp_all add: mq_take_def m1 Let_def)
  moreover have "mq_content ?m = map (mq_data m) qs"
    using mq_lists_content(2) [OF m1(6)] m1(3) by (simp add: mq_free_slot_def)
  moreover have "max_msgs ?m = max_msgs m" "mq_msg_size ?m = mq_msg_size m"
    using m1 by (simp_all add: mq_free_slot_def)
  ultimately show ?thesis using m1(6) by blast
qed


section \<open>Initialisation and flushing\<close>

lemma free_slot_fields:
  "mq_link (mq_free_slot s m) = (mq_link m)(s := msg_queue_free m)"
  "msg_queue_free (mq_free_slot s m) = Some s"
  by (simp_all add: mq_free_slot_def)

lemma init_slots_chain:
  "msg_queue_free m = None \<Longrightarrow>
     chain (mq_link (fold mq_free_slot [0..<n] m)) (msg_queue_free (fold mq_free_slot [0..<n] m)) (rev [0..<n])"
  by (induction n) (simp_all add: free_slot_fields)

lemma init_slots_fields:
  "mq_data (fold mq_free_slot ss m) = mq_data m" "max_msgs (fold mq_free_slot ss m) = max_msgs m"
  "mq_msg_size (fold mq_free_slot ss m) = mq_msg_size m"
  "msg_queue_head (fold mq_free_slot ss m) = msg_queue_head m"
  "msg_queue_tail (fold mq_free_slot ss m) = msg_queue_tail m"
  by (induction ss arbitrary: m) (simp_all add: mq_free_slot_def)

lemma mq_init_lists:
  assumes "\<And>s. s < unat (max_msgs m) \<Longrightarrow> length (mq_data m s) = unat (mq_msg_size m)"
  shows "mq_lists ((mq_init_slots m)\<lparr>mq_entry := 0\<rparr>) [] (rev [0..<unat (max_msgs m)])"
  using assms init_slots_chain [of "m\<lparr>msg_queue_head := None, msg_queue_tail := None, msg_queue_free := None\<rparr>"]
  by (auto simp: mq_lists_def mq_init_slots_def init_slots_fields)

text \<open>The reset loop ends and moves every slot to the free list.\<close>

lemma mq_flush_ok:
  assumes "mq_lists m qs fs"
  shows "\<exists>m'. mq_flush m = Some m' \<and> mq_lists (m'\<lparr>mq_entry := 0\<rparr>) [] (rev qs @ fs)
     \<and> max_msgs m' = max_msgs m \<and> mq_msg_size m' = mq_msg_size m"
proof -
  have "mq_lists (m\<lparr>mq_entry := e\<rparr>) qs fs \<Longrightarrow>
    \<exists>m'. mq_flush m = Some m' \<and> mq_lists (m'\<lparr>mq_entry := 0\<rparr>) [] (rev qs @ fs)
     \<and> max_msgs m' = max_msgs m \<and> mq_msg_size m' = mq_msg_size m" for e
  proof (induction qs arbitrary: m fs e)
    case Nil
    then have "msg_queue_head m = None" by (simp add: mq_lists_def)
    then have "mq_flush m = Some m" by (subst mq_flush.simps) simp
    moreover have "mq_lists (m\<lparr>mq_entry := 0\<rparr>) [] fs" using Nil by (simp add: mq_lists_def)
    ultimately show ?case by simp
  next
    case (Cons s qs)
    obtain m1 where m1: "mq_unlink_head (m\<lparr>mq_entry := e\<rparr>) = Some (s, m1)" "mq_entry m1 = e"
        "mq_lists ((mq_free_slot s m1)\<lparr>mq_entry := e - 1\<rparr>) qs (s # fs)"
        "max_msgs m1 = max_msgs m" "mq_msg_size m1 = mq_msg_size m"
      using mq_unlink_free [OF Cons(2)] by auto
    define m2 where "m2 = m1\<lparr>mq_entry := mq_entry m\<rparr>"
    have u: "mq_unlink_head m = Some (s, m2)"
      using m1(1) unfolding m2_def mq_unlink_head_def by (cases m; cases "msg_queue_head m") (auto simp: Let_def)
    have h: "msg_queue_head m = Some s" using Cons(2) by (simp add: mq_lists_def)
    have l: "mq_lists ((mq_free_slot s m2)\<lparr>mq_entry := e - 1\<rparr>) qs (s # fs)"
      using m1(3) by (simp add: m2_def mq_free_slot_def)
    have f: "max_msgs (mq_free_slot s m2) = max_msgs m" "mq_msg_size (mq_free_slot s m2) = mq_msg_size m"
      using m1(4,5) by (simp_all add: m2_def mq_free_slot_def)
    have "mq_flush m = mq_flush (mq_free_slot s m2)"
      using h u by (subst mq_flush.simps) simp
    then show ?case using Cons(1) [OF l] f by simp
  qed
  from this [of "mq_entry m"] assms show ?thesis by simp
qed


section \<open>The store contract\<close>

lemma mq_room_lists:
  assumes "mq_lists m qs fs" "length qs < unat (max_msgs m)"
  obtains s fs' where "mq_lists m qs (s # fs')"
  using assms mq_lists_length [OF assms(1)] by (cases fs) auto

lemma mq_wf_laws:
  assumes "mq_wf m"
  shows "msg_queue_free m \<noteq> None \<longleftrightarrow> length (mq_content m) < unat (max_msgs m)"
    "mq_entry m = 0 \<longleftrightarrow> mq_content m = []"
proof -
  obtain qs fs where l: "mq_lists m qs fs" using assms by (auto simp: mq_wf_def)
  note c = mq_lists_content(2) [OF l]
  show "msg_queue_free m \<noteq> None \<longleftrightarrow> length (mq_content m) < unat (max_msgs m)"
    using mq_lists_free [OF l] c by simp
  show "mq_entry m = 0 \<longleftrightarrow> mq_content m = []"
    using mq_listsD(6) [OF l] c by (cases qs) (auto simp: unat_eq_0 [symmetric])
qed

text \<open>Storing \<open>sz\<close> bytes stores a whole message that begins with them.\<close>

lemma mq_put_wf:
  assumes "mq_wf m" "length (mq_content m) < unat (max_msgs m)"
    and sz: "sz \<le> ucast (mq_msg_size m)" "unat sz \<le> length buf"
  shows "\<exists>m' w. mq_put buf sz m = Some (RT_EOK, m') \<and> mq_wf m' \<and> mq_content m' = mq_content m @ [w]
     \<and> length w = unat (mq_msg_size m) \<and> take (unat sz) w = take (unat sz) buf
     \<and> max_msgs m' = max_msgs m \<and> mq_msg_size m' = mq_msg_size m"
    "\<exists>m' w. mq_put_front buf sz m = Some (RT_EOK, m') \<and> mq_wf m' \<and> mq_content m' = w # mq_content m
     \<and> length w = unat (mq_msg_size m) \<and> take (unat sz) w = take (unat sz) buf
     \<and> max_msgs m' = max_msgs m \<and> mq_msg_size m' = mq_msg_size m"
proof -
  obtain qs fs where l: "mq_lists m qs fs" using assms(1) by (auto simp: mq_wf_def)
  then have "length qs < unat (max_msgs m)" using assms(2) mq_lists_content(2) [OF l] by simp
  then obtain s fs' where l': "mq_lists m qs (s # fs')" using mq_room_lists [OF l] by blast
  have len: "length (mq_data m s) = unat (mq_msg_size m)" by (rule mq_listsD(7) [OF l']) simp
  have "unat sz \<le> length (mq_data m s)" using sz(1) len by (simp add: word_le_nat_alt unat_u16_u32)
  note o = overlay_props [OF sz(2) this] len
  show "\<exists>m' w. mq_put buf sz m = Some (RT_EOK, m') \<and> mq_wf m' \<and> mq_content m' = mq_content m @ [w]
     \<and> length w = unat (mq_msg_size m) \<and> take (unat sz) w = take (unat sz) buf
     \<and> max_msgs m' = max_msgs m \<and> mq_msg_size m' = mq_msg_size m"
    using mq_put_ok [OF l' sz] o by (auto simp: mq_wf_def)
  show "\<exists>m' w. mq_put_front buf sz m = Some (RT_EOK, m') \<and> mq_wf m' \<and> mq_content m' = w # mq_content m
     \<and> length w = unat (mq_msg_size m) \<and> take (unat sz) w = take (unat sz) buf
     \<and> max_msgs m' = max_msgs m \<and> mq_msg_size m' = mq_msg_size m"
    using mq_put_front_ok [OF l' sz] o by (auto simp: mq_wf_def)
qed

lemma mq_take_wf:
  assumes "mq_wf m" "mq_content m = v # vs"
  shows "\<exists>m'. mq_take sz m = Some (take (unat sz) v, m') \<and> mq_wf m' \<and> mq_content m' = vs
     \<and> max_msgs m' = max_msgs m \<and> mq_msg_size m' = mq_msg_size m" and "length v = unat (mq_msg_size m)"
proof -
  obtain qs fs where l: "mq_lists m qs fs" using assms(1) by (auto simp: mq_wf_def)
  obtain s qs' where q: "qs = s # qs'" using mq_lists_content(2) [OF l] assms(2) by (cases qs) auto
  have v: "v = mq_data m s" "vs = map (mq_data m) qs'"
    using mq_lists_content(2) [OF l] assms(2) q by simp_all
  show len: "length v = unat (mq_msg_size m)" unfolding v by (rule mq_listsD(7) [OF l]) (simp add: q)
  have "take (min (unat sz) (unat (mq_msg_size m))) v = take (unat sz) v"
    using len by (simp add: min_def)
  then show "\<exists>m'. mq_take sz m = Some (take (unat sz) v, m') \<and> mq_wf m' \<and> mq_content m' = vs
     \<and> max_msgs m' = max_msgs m \<and> mq_msg_size m' = mq_msg_size m"
    using mq_take_ok [OF l [unfolded q], of sz] v by (auto simp: mq_wf_def)
qed

interpretation mq: message_store mq_wf mq_content "\<lambda>m. unat (max_msgs m)"
    "\<lambda>m v. length v = unat (mq_msg_size m)" "\<lambda>m _. msg_queue_free m \<noteq> None" "\<lambda>m. mq_entry m = 0"
    "\<lambda>v m. map_option snd (mq_put v (ucast (mq_msg_size m)) m)"
    "\<lambda>m. mq_take (ucast (mq_msg_size m)) m"
    "\<lambda>v m. map_option snd (mq_put_front v (ucast (mq_msg_size m)) m)"
proof unfold_locales
  show "(msg_queue_free q \<noteq> None) = (length (mq_content q) < unat (max_msgs q))" if "mq_wf q" for q
    by (rule mq_wf_laws(1) [OF that])
  show "(mq_entry q = 0) = (mq_content q = [])" if "mq_wf q" for q by (rule mq_wf_laws(2) [OF that])
next
  fix q and v :: "u8 list"
  assume q: "mq_wf q" "length v = unat (mq_msg_size q)" "length (mq_content q) < unat (max_msgs q)"
  have sz: "(ucast (mq_msg_size q) :: u32) \<le> ucast (mq_msg_size q)" "unat (ucast (mq_msg_size q) :: u32) \<le> length v"
    using q(2) by (simp_all add: unat_u16_u32)
  note p = mq_put_wf [OF q(1,3) sz]
  show "\<exists>q'. map_option snd (mq_put v (ucast (mq_msg_size q)) q) = Some q' \<and> mq_wf q'
      \<and> mq_content q' = mq_content q @ [v] \<and> unat (max_msgs q') = unat (max_msgs q)
      \<and> (\<lambda>v. length v = unat (mq_msg_size q')) = (\<lambda>v. length v = unat (mq_msg_size q))"
    using p(1) q(2) by (auto simp: unat_u16_u32)
  show "\<exists>q'. map_option snd (mq_put_front v (ucast (mq_msg_size q)) q) = Some q' \<and> mq_wf q'
      \<and> mq_content q' = v # mq_content q \<and> unat (max_msgs q') = unat (max_msgs q)
      \<and> (\<lambda>v. length v = unat (mq_msg_size q')) = (\<lambda>v. length v = unat (mq_msg_size q))"
    using p(2) q(2) by (auto simp: unat_u16_u32)
next
  fix q v vs assume q: "mq_wf q" "mq_content q = v # vs"
  show "\<exists>q'. mq_take (ucast (mq_msg_size q)) q = Some (v, q') \<and> mq_wf q' \<and> mq_content q' = vs
      \<and> unat (max_msgs q') = unat (max_msgs q)
      \<and> (\<lambda>v. length v = unat (mq_msg_size q')) = (\<lambda>v. length v = unat (mq_msg_size q))"
    using mq_take_wf(1) [OF q, of "ucast (mq_msg_size q)"] mq_take_wf(2) [OF q] by (auto simp: unat_u16_u32)
qed

definition mq_run :: "u8 list store_op list \<Rightarrow> rt_messagequeue \<Rightarrow> (u8 list list \<times> rt_messagequeue) option" where
  "mq_run = store_run (\<lambda>m _. msg_queue_free m \<noteq> None) (\<lambda>v m. map_option snd (mq_put v (ucast (mq_msg_size m)) m))
     (\<lambda>v m. map_option snd (mq_put_front v (ucast (mq_msg_size m)) m)) (\<lambda>m. mq_entry m = 0)
     (\<lambda>m. mq_take (ucast (mq_msg_size m)) m)"


section \<open>Message queues implement the abstract channel\<close>

definition mq_ok :: "oid \<Rightarrow> kernel \<Rightarrow> bool" where
  "mq_ok i k \<longleftrightarrow> ipc_object_ok RT_Object_Class_MessageQueue i k \<and> mq_wf (msgqueues k i)"

definition mq_abs :: "oid \<Rightarrow> kernel \<Rightarrow> u8 list chan" where
  "mq_abs i k = (mq_content (msgqueues k i), queues k (SuspendQ i), queues k (SenderQ i))"

definition mq_shape :: "oid \<Rightarrow> kernel \<Rightarrow> u16 \<times> u16" where
  "mq_shape i k = (max_msgs (msgqueues k i), mq_msg_size (msgqueues k i))"

text \<open>A whole message that begins with the first \<open>sz\<close> bytes of the buffer.\<close>

definition mq_message :: "u8 list \<Rightarrow> u32 \<Rightarrow> u16 \<Rightarrow> u8 list \<Rightarrow> bool" where
  "mq_message buf sz msz w \<longleftrightarrow> length w = unat msz \<and> take (unat sz) w = take (unat sz) buf"

lemma upd_mq_fields [simp]:
  "objs (upd_mq i f k) = objs k" "threads (upd_mq i f k) = threads k" "queues (upd_mq i f k) = queues k"
  "current_thread (upd_mq i f k) = current_thread k" "tlists (upd_mq i f k) = tlists k"
  "msgqueues (upd_mq i f k) j = (if j = i then f (msgqueues k i) else msgqueues k j)"
  "kinv X (upd_mq i f k) = kinv X k" "running (upd_mq i f k) t = running k t"
  "ipc_object_ok ty j (upd_mq i f k) = ipc_object_ok ty j k"
  by (simp_all add: upd_mq_def ipc_object_ok_def rt_object_get_type_def ipc_flag_def)

lemma mq_frame: "kframe k k' \<Longrightarrow> msgqueues k' = msgqueues k"
  by (simp add: kframe_def)

lemma mq_ok_frame: "mq_ok i k \<Longrightarrow> kframe k k' \<Longrightarrow> mq_ok i k'"
  using ipc_object_frame [of k k' RT_Object_Class_MessageQueue i] by (simp add: mq_ok_def mq_frame)

text \<open>Changing the store and waking the first thread of a line.\<close>

lemma mq_wake_ok:
  assumes "kinv {} k" "mq_ok i k" "mq_wf m" "current_thread k \<noteq> None" "h = SuspendQ i \<or> h = SenderQ i"
  shows "\<exists>k'. ipc_wake_first h (upd_mq i (\<lambda>_. m) k) = Some k' \<and> kinv {} k' \<and> mq_ok i k' \<and> msgqueues k' i = m
     \<and> queues k' h = tl (queues k h)
     \<and> (\<forall>g. \<not> is_ready_queue g \<longrightarrow> g \<noteq> h \<longrightarrow> queues k' g = queues k g) \<and> ipc_frame i X k k'
     \<and> made_ready h k k' \<and> current_thread k' \<noteq> None"
proof -
  let ?k = "upd_mq i (\<lambda>_. m) k"
  have "kinv {} ?k" "current_thread ?k \<noteq> None" "mq_ok i ?k" using assms by (simp_all add: mq_ok_def)
  moreover have "ipc_frame i X k k'" if "ipc_frame i X ?k k'" for k'
    using ipc_frame_trans [OF _ that] ipc_frame_tables(5) by (simp add: upd_mq_def)
  moreover have "made_ready h k k'" if "\<forall>t ts. queues ?k h = t # ts \<longrightarrow> woken h t ?k k'" for k'
    using woken_made_ready [of k h ?k k'] that by simp
  ultimately show ?thesis
    using wake_first_ok [of ?k h i X] assms(5) mq_ok_frame [of i ?k] mq_frame [of ?k] by fastforce
qed

lemma mq_send_room:
  assumes "kinv {} k" "mq_ok i k" "current_thread k \<noteq> None" "msg_queue_free (msgqueues k i) \<noteq> None"
    and sz: "sz \<le> ucast (mq_msg_size (msgqueues k i))" "unat sz \<le> length buf"
  shows "\<exists>k' w. mq_send_try i buf sz self loc k = Some (Returned RT_EOK, loc, k') \<and> kinv {} k' \<and> mq_ok i k'
     \<and> mq_message buf sz (mq_msg_size (msgqueues k i)) w
     \<and> mq_abs i k' = (mq_content (msgqueues k i) @ [w], tl (queues k (SuspendQ i)), queues k (SenderQ i))
     \<and> mq_shape i k' = mq_shape i k \<and> ipc_frame i X k k' \<and> made_ready (SuspendQ i) k k'"
proof -
  have wf: "mq_wf (msgqueues k i)" using assms(2) by (simp add: mq_ok_def)
  have room: "length (mq_content (msgqueues k i)) < unat (max_msgs (msgqueues k i))"
    using mq_wf_laws(1) [OF wf] assms(4) by simp
  obtain m w where m: "mq_put buf sz (msgqueues k i) = Some (RT_EOK, m)" "mq_wf m"
      "mq_content m = mq_content (msgqueues k i) @ [w]" "mq_message buf sz (mq_msg_size (msgqueues k i)) w"
      "max_msgs m = max_msgs (msgqueues k i)" "mq_msg_size m = mq_msg_size (msgqueues k i)"
    using mq_put_wf(1) [OF wf room sz] by (auto simp: mq_message_def)
  obtain k' where k': "ipc_wake_first (SuspendQ i) (upd_mq i (\<lambda>_. m) k) = Some k'" "kinv {} k'" "mq_ok i k'"
      "msgqueues k' i = m" "queues k' (SuspendQ i) = tl (queues k (SuspendQ i))"
      "queues k' (SenderQ i) = queues k (SenderQ i)" "ipc_frame i X k k'" "made_ready (SuspendQ i) k k'"
    using mq_wake_ok [OF assms(1,2) m(2) assms(3), of "SuspendQ i" X] by auto
  have "mq_send_try i buf sz self loc k = Some (Returned RT_EOK, loc, k')"
    using assms(4) m(1) k'(1) by (cases loc) (auto simp: mq_send_try_def)
  then show ?thesis
    using k'(2-8) m(3-6) by (intro exI [of _ k'] exI [of _ w]) (simp add: mq_abs_def mq_shape_def)
qed

lemma mq_send_full:
  assumes inv: "kinv {} k" and ok: "mq_ok i k" and run: "running k t" and nest: "interrupt_nest k = 0"
    and tm: "time_ok time" and full: "msg_queue_free (msgqueues k i) = None"
  shows "\<exists>r loc' k'. mq_send_try i buf sz (Some t) (time, td) k = Some (r, loc', k') \<and> kinv {} k' \<and> mq_ok i k'
     \<and> mq_shape i k' = mq_shape i k \<and> ipc_frame i {t} k k'
     \<and> (if time = 0 then r = Returned (- RT_EFULL) \<and> mq_abs i k' = mq_abs i k
        else r = Blocked \<and> blocked (SenderQ i) t (ipc_flag i k) time (clear_error t k) k'
          \<and> mq_abs i k' = (mq_content (msgqueues k i), queues k (SuspendQ i),
               enlist (ipc_flag i k) (\<lambda>s. current_priority (threads k s)) t (queues k (SenderQ i))))"
proof (cases "time = 0")
  case True
  have "mq_ok i (clear_error t k)" using ok by (rule mq_ok_frame [OF _ kframe_clear_error])
  then show ?thesis
    using True full clear_error_ok(1) [OF inv run] ipc_frame_clear_error
    by (simp add: mq_send_try_def mq_abs_def mq_shape_def)
next
  case False
  have io: "ipc_object_ok RT_Object_Class_MessageQueue i k" using ok by (simp add: mq_ok_def)
  obtain k' where k': "ipc_wait (SenderQ i) t (ipc_flag i k) time (clear_error t k) = Some k'"
      "blocked (SenderQ i) t (ipc_flag i k) time (clear_error t k) k'" "kinv {} k'" "kframe k k'"
      "queues k' (SenderQ i) = enlist (ipc_flag i k) (\<lambda>s. current_priority (threads k s)) t (queues k (SenderQ i))"
      "queues k' (SuspendQ i) = queues k (SuspendQ i)"
    using chan_blocks [OF inv run io tm, of "SenderQ i"] by auto
  have "RT_DEBUG_IN_THREAD_CONTEXT (clear_error t k) = Some ()" "tick (clear_error t k) = tick k"
    using in_thread_context [OF clear_error_ok(2) [OF inv run]] nest by (simp_all add: clear_error_def)
  then have "\<exists>loc'. mq_send_try i buf sz (Some t) (time, td) k = Some (Blocked, loc', k')"
    using False full k'(1) by (simp add: mq_send_try_def Let_def)
  then show ?thesis
    using False k'(2-6) mq_ok_frame [OF ok k'(4)] mq_frame [OF k'(4)] blocked_clear_frame [OF k'(2)]
    by (auto simp: mq_abs_def mq_shape_def)
qed

lemma mq_recv_some:
  assumes "kinv {} k" "mq_ok i k" "current_thread k \<noteq> None" "mq_content (msgqueues k i) = v # vs"
  shows "\<exists>k'. mq_recv_try i sz self loc k = Some (Returned RT_EOK, Some (take (unat sz) v), loc, k')
     \<and> kinv {} k' \<and> mq_ok i k' \<and> mq_abs i k' = (vs, queues k (SuspendQ i), tl (queues k (SenderQ i)))
     \<and> mq_shape i k' = mq_shape i k \<and> ipc_frame i X k k' \<and> made_ready (SenderQ i) k k'"
proof -
  have wf: "mq_wf (msgqueues k i)" using assms(2) by (simp add: mq_ok_def)
  have ne: "mq_entry (msgqueues k i) \<noteq> 0" using assms(4) mq_wf_laws(2) [OF wf] by auto
  obtain m where m: "mq_take sz (msgqueues k i) = Some (take (unat sz) v, m)" "mq_wf m" "mq_content m = vs"
      "max_msgs m = max_msgs (msgqueues k i)" "mq_msg_size m = mq_msg_size (msgqueues k i)"
    using mq_take_wf(1) [OF wf assms(4)] by blast
  obtain k' where k': "ipc_wake_first (SenderQ i) (upd_mq i (\<lambda>_. m) k) = Some k'" "kinv {} k'" "mq_ok i k'"
      "msgqueues k' i = m" "queues k' (SenderQ i) = tl (queues k (SenderQ i))"
      "queues k' (SuspendQ i) = queues k (SuspendQ i)" "ipc_frame i X k k'" "made_ready (SenderQ i) k k'"
    using mq_wake_ok [OF assms(1,2) m(2) assms(3), of "SenderQ i" X] by auto
  have "mq_recv_try i sz self loc k = Some (Returned RT_EOK, Some (take (unat sz) v), loc, k')"
    using ne m(1) k'(1) by (cases loc) (simp add: mq_recv_try_def)
  then show ?thesis
    using k'(2-8) m(3-5) by (simp add: mq_abs_def mq_shape_def)
qed

lemma mq_recv_none:
  assumes inv: "kinv {} k" and ok: "mq_ok i k" and run: "running k t" and nest: "interrupt_nest k = 0"
    and tm: "time_ok time" and empty: "mq_content (msgqueues k i) = []"
  shows "\<exists>r loc' k'. mq_recv_try i sz (Some t) (time, td) k = Some (r, None, loc', k') \<and> kinv {} k' \<and> mq_ok i k'
     \<and> mq_shape i k' = mq_shape i k \<and> ipc_frame i {t} k k'
     \<and> (if time = 0 then r = Returned (- RT_ETIMEOUT) \<and> mq_abs i k' = mq_abs i k
        else r = Blocked \<and> blocked (SuspendQ i) t (ipc_flag i k) time (clear_error t k) k'
          \<and> mq_abs i k' = ([], enlist (ipc_flag i k) (\<lambda>s. current_priority (threads k s)) t (queues k (SuspendQ i)),
               queues k (SenderQ i)))"
proof -
  have e: "mq_entry (msgqueues k i) = 0" using empty mq_wf_laws(2) ok by (simp add: mq_ok_def)
  note c = clear_error_ok [OF inv run]
  have ctx: "RT_DEBUG_IN_THREAD_CONTEXT k = Some ()" by (rule in_thread_context [OF run nest])
  show ?thesis
  proof (cases "time = 0")
    case True
    let ?k = "upd_thread t (\<lambda>th. th\<lparr>error := - RT_ETIMEOUT\<rparr>) (clear_error t k)"
    have "kinv {} ?k" by (rule upd_thread_kinv [OF c(1)]) simp_all
    moreover have "mq_ok i ?k"
      using ok by (rule mq_ok_frame [OF _ kframe_trans [OF kframe_clear_error kframe_upd_thread]])
    moreover have "ipc_frame i {t} k ?k"
      by (rule ipc_frame_trans [OF ipc_frame_clear_error ipc_frame_upd_thread]) simp_all
    ultimately show ?thesis
      using True e ctx by (simp add: mq_recv_try_def mq_abs_def mq_shape_def)
  next
    case False
    have io: "ipc_object_ok RT_Object_Class_MessageQueue i k" using ok by (simp add: mq_ok_def)
    obtain k' where k': "ipc_wait (SuspendQ i) t (ipc_flag i k) time (clear_error t k) = Some k'"
        "blocked (SuspendQ i) t (ipc_flag i k) time (clear_error t k) k'" "kinv {} k'" "kframe k k'"
        "queues k' (SuspendQ i) = enlist (ipc_flag i k) (\<lambda>s. current_priority (threads k s)) t (queues k (SuspendQ i))"
        "queues k' (SenderQ i) = queues k (SenderQ i)"
      using chan_blocks [OF inv run io tm, of "SuspendQ i"] by auto
    have "\<exists>loc'. mq_recv_try i sz (Some t) (time, td) k = Some (Blocked, None, loc', k')"
      using False e k'(1) ctx by (simp add: mq_recv_try_def Let_def)
    then show ?thesis
      using False k'(2-6) mq_ok_frame [OF ok k'(4)] mq_frame [OF k'(4)] empty blocked_clear_frame [OF k'(2)]
      by (auto simp: mq_abs_def mq_shape_def)
  qed
qed


text \<open>An urgent message goes to the front; the caller never waits.\<close>

lemma mq_urgent_refines:
  assumes "kinv {} k" "mq_ok i k" "current_thread k \<noteq> None"
    and sz: "sz \<noteq> 0" "sz \<le> ucast (mq_msg_size (msgqueues k i))" "unat sz \<le> length buf"
  shows "\<exists>w r k'. rt_mq_urgent i buf sz k = Some (r, k') \<and> kinv {} k' \<and> mq_ok i k' \<and> mq_shape i k' = mq_shape i k
     \<and> mq_message buf sz (mq_msg_size (msgqueues k i)) w \<and> ipc_frame i X k k'
     \<and> (r, mq_abs i k') = chan_urgent_spec (unat (max_msgs (msgqueues k i))) w (mq_abs i k)"
proof -
  have wf: "mq_wf (msgqueues k i)" and a: "assert_ipc RT_Object_Class_MessageQueue i k = Some ()"
    using assms(2) by (simp_all add: mq_ok_def assert_ipc_ok)
  have nsz: "\<not> sz > ucast (mq_msg_size (msgqueues k i))" using sz(2) by simp
  show ?thesis
  proof (cases "msg_queue_free (msgqueues k i) = None")
    case True
    let ?w = "take (unat sz) buf @ replicate (unat (mq_msg_size (msgqueues k i)) - unat sz) 0"
    have "unat sz \<le> unat (mq_msg_size (msgqueues k i))" using sz(2) by (simp add: word_le_nat_alt unat_u16_u32)
    then have "mq_message buf sz (mq_msg_size (msgqueues k i)) ?w" using sz(3) by (simp add: mq_message_def)
    moreover have "\<not> length (mq_content (msgqueues k i)) < unat (max_msgs (msgqueues k i))"
      using True mq_wf_laws(1) [OF wf] by simp
    ultimately show ?thesis
      using True assms(1,2) a sz(1) nsz ipc_frame_refl
      by (intro exI [of _ ?w]) (simp add: rt_mq_urgent_def mq_abs_def)
  next
    case False
    have room: "length (mq_content (msgqueues k i)) < unat (max_msgs (msgqueues k i))"
      using mq_wf_laws(1) [OF wf] False by simp
    obtain m w where m: "mq_put_front buf sz (msgqueues k i) = Some (RT_EOK, m)" "mq_wf m"
        "mq_content m = w # mq_content (msgqueues k i)" "mq_message buf sz (mq_msg_size (msgqueues k i)) w"
        "max_msgs m = max_msgs (msgqueues k i)" "mq_msg_size m = mq_msg_size (msgqueues k i)"
      using mq_put_wf(2) [OF wf room sz(2,3)] by (auto simp: mq_message_def)
    obtain k' where k': "ipc_wake_first (SuspendQ i) (upd_mq i (\<lambda>_. m) k) = Some k'" "kinv {} k'" "mq_ok i k'"
        "msgqueues k' i = m" "queues k' (SuspendQ i) = tl (queues k (SuspendQ i))"
        "queues k' (SenderQ i) = queues k (SenderQ i)" "ipc_frame i X k k'"
      using mq_wake_ok [OF assms(1,2) m(2) assms(3), of "SuspendQ i" X] by auto
    have "rt_mq_urgent i buf sz k = Some (RT_EOK, k')"
      using a False m(1) k'(1) sz(1) nsz by (simp add: rt_mq_urgent_def Let_def)
    then show ?thesis
      using k'(2-7) m(3-6) room by (intro exI [of _ w]) (simp add: mq_abs_def mq_shape_def)
  qed
qed


section \<open>Properties\<close>

text \<open>
  C15. \<open>rt_mq_send_wait\<close> by the running thread, for a message that is not empty: one longer than
  the slots is refused with \<open>-RT_ERROR\<close> and changes nothing; otherwise a whole message that
  begins with the bytes of the caller goes through the send of the abstract channel: to the
  end of the queue, and the first receiver in line, if any, is made ready (out of the line and
  in the ready table, its timer stopped, its error left alone); or, with no free slot, the caller is refused with \<open>-RT_EFULL\<close> or suspended in the line of senders.
\<close>

theorem rt_mq_send_wait_refines:
  assumes "kinv {} k" "mq_ok i k" "running k t" "interrupt_nest k = 0" "time_ok time"
    and "sz \<noteq> 0" "unat sz \<le> length buf" "mq_shape i k = (n, msz)"
  shows "if sz > ucast msz
     then rt_mq_send_wait_start i buf sz time k = Some (Returned (- RT_ERROR), (time, 0), k)
     else \<exists>w r loc' k'. rt_mq_send_wait_start i buf sz time k = Some (r, loc', k') \<and> kinv {} k' \<and> mq_ok i k'
       \<and> mq_shape i k' = (n, msz) \<and> mq_message buf sz msz w
       \<and> (r, mq_abs i k') = chan_send_spec (unat n)
             (enlist (ipc_flag i k) (\<lambda>s. current_priority (threads k s)) t) (time \<noteq> 0) w (mq_abs i k)
       \<and> (r = Returned RT_EOK \<longrightarrow> made_ready (SuspendQ i) k k')
       \<and> (r = Blocked \<longrightarrow> blocked (SenderQ i) t (ipc_flag i k) time (clear_error t k) k')"
proof -
  have asr: "assert_ipc RT_Object_Class_MessageQueue i k = Some ()" "rt_thread_self k = Some t"
    using assms(2,3) by (simp_all add: mq_ok_def assert_ipc_ok rt_thread_self_def running_def)
  have shape: "max_msgs (msgqueues k i) = n" "mq_msg_size (msgqueues k i) = msz"
    using assms(8) by (simp_all add: mq_shape_def)
  have wf: "mq_wf (msgqueues k i)" using assms(2) by (simp add: mq_ok_def)
  note start = rt_mq_send_wait_start_def [of i buf sz _ k, unfolded asr shape]
  consider "sz > ucast msz" | "\<not> sz > ucast msz" "msg_queue_free (msgqueues k i) \<noteq> None"
    | "\<not> sz > ucast msz" "msg_queue_free (msgqueues k i) = None" by blast
  then show ?thesis
  proof cases
    case 1
    then show ?thesis using assms(6) by (simp add: start)
  next
    case 2
    have "current_thread k \<noteq> None" using assms(3) by (simp add: running_def)
    moreover have "sz \<le> ucast (mq_msg_size (msgqueues k i))" using 2(1) shape by simp
    ultimately obtain k' w where "mq_send_try i buf sz (Some t) (time, 0) k = Some (Returned RT_EOK, (time, 0), k')"
        "kinv {} k'" "mq_ok i k'" "mq_message buf sz msz w" "mq_shape i k' = mq_shape i k"
        "mq_abs i k' = (mq_content (msgqueues k i) @ [w], tl (queues k (SuspendQ i)), queues k (SenderQ i))"
        "made_ready (SuspendQ i) k k'"
      using mq_send_room [OF assms(1,2) _ 2(2) _ assms(7), of "Some t" "(time, 0)" "{t}"] shape by auto
    moreover from this(1) have "rt_mq_send_wait_start i buf sz time k = Some (Returned RT_EOK, (time, 0), k')"
      using 2 assms(6) by (auto simp: start)
    ultimately show ?thesis
      using 2 assms(8) mq_wf_laws(1) [OF wf] shape by (auto simp: mq_abs_def)
  next
    case 3
    let ?w = "take (unat sz) buf @ replicate (unat msz - unat sz) 0"
    have "unat sz \<le> unat msz" using 3(1) by (simp add: word_less_nat_alt unat_u16_u32)
    then have "mq_message buf sz msz ?w" using assms(7) by (simp add: mq_message_def)
    moreover have "\<not> length (mq_content (msgqueues k i)) < unat n"
      using 3(2) mq_wf_laws(1) [OF wf] shape by simp
    ultimately show ?thesis
      using 3 assms(1,2,6,8) mq_send_full [OF assms(1-5) 3(2), of buf sz 0]
      by (cases "time = 0") (auto simp: start mq_abs_def)
  qed
qed

text \<open>
  C16. \<open>rt_mq_recv\<close> by the running thread: it gets the first \<open>sz\<close> bytes of the oldest message
  (at most the whole message), the slot is free again and the first sender in line, if any, is
  made ready (out of the line and in the ready table, its timer stopped, its error left alone); with no message the caller is refused with \<open>-RT_ETIMEOUT\<close> or suspended in the line of
  receivers. This is the receive of the abstract channel.
\<close>

theorem rt_mq_recv_refines:
  assumes "kinv {} k" "mq_ok i k" "running k t" "interrupt_nest k = 0" "time_ok time" "sz \<noteq> 0"
  shows "\<exists>r got loc' k'. rt_mq_recv_start i sz time k = Some (r, map_option (take (unat sz)) got, loc', k')
     \<and> kinv {} k' \<and> mq_ok i k' \<and> mq_shape i k' = mq_shape i k
     \<and> (r, got, mq_abs i k') = chan_recv_spec
           (enlist (ipc_flag i k) (\<lambda>s. current_priority (threads k s)) t) (time \<noteq> 0) (mq_abs i k)
     \<and> (got \<noteq> None \<longrightarrow> made_ready (SenderQ i) k k')
     \<and> (r = Blocked \<longrightarrow> blocked (SuspendQ i) t (ipc_flag i k) time (clear_error t k) k')"
proof -
  have asr: "assert_ipc RT_Object_Class_MessageQueue i k = Some ()" "rt_thread_self k = Some t"
    using assms(2,3) by (simp_all add: mq_ok_def assert_ipc_ok rt_thread_self_def running_def)
  note start = rt_mq_recv_start_def [of i sz _ k, unfolded asr]
  have e: "mq_entry (msgqueues k i) = 0 \<longleftrightarrow> mq_content (msgqueues k i) = []"
    using mq_wf_laws(2) assms(2) by (simp add: mq_ok_def)
  show ?thesis
  proof (cases "mq_content (msgqueues k i)")
    case Nil
    show ?thesis
    proof (cases "time = 0")
      case True
      then have "rt_mq_recv_start i sz time k = Some (Returned (- RT_ETIMEOUT), None, (time, 0), k)"
        using Nil e assms(6) by (simp add: start)
      then show ?thesis using True Nil assms(1,2) by (simp add: mq_abs_def)
    next
      case False
      then show ?thesis
        using Nil assms(6) mq_recv_none [OF assms(1-5) Nil, of sz 0] by (auto simp: start mq_abs_def)
    qed
  next
    case (Cons v vs)
    have "current_thread k \<noteq> None" using assms(3) by (simp add: running_def)
    from mq_recv_some [OF assms(1,2) this Cons, of sz "Some t" "(time, 0)"] obtain k' where
      "mq_recv_try i sz (Some t) (time, 0) k = Some (Returned RT_EOK, Some (take (unat sz) v), (time, 0), k')"
      "kinv {} k'" "mq_ok i k'" "mq_shape i k' = mq_shape i k"
      "mq_abs i k' = (vs, queues k (SuspendQ i), tl (queues k (SenderQ i)))" "made_ready (SenderQ i) k k'" by blast
    then show ?thesis
      using Cons e assms(6) by (intro exI [of _ "Some v"] exI [of _ k'] exI) (auto simp: start mq_abs_def)
  qed
qed

text \<open>
  C18. First in, first out: any sequence of sends, urgent sends and receives of whole messages
  on the slots of a message queue delivers what the same sequence on a list bounded by the
  number of slots delivers (urgent messages in front), and leaves the same messages; the
  queue and the free list keep sharing out the slots.
\<close>

theorem rt_mq_fifo:
  assumes "mq_wf m"
    and "\<forall>x \<in> set ops. case x of Store_put v \<Rightarrow> length v = unat (mq_msg_size m)
       | Store_urgent v \<Rightarrow> length v = unat (mq_msg_size m) | Store_get \<Rightarrow> True"
  shows "\<exists>out m'. mq_run ops m = Some (out, m') \<and> mq_wf m' \<and> max_msgs m' = max_msgs m
     \<and> (out, mq_content m') = list_run (unat (max_msgs m)) ops (mq_content m)"
proof -
  have "\<forall>x \<in> set ops. op_fits (\<lambda>m v. length v = unat (mq_msg_size m)) m x" using assms(2) by (simp add: op_fits_def)
  from mq.run_urgent_refines [OF assms(1) this] show ?thesis by (auto simp: mq_run_def word_unat_eq_iff)
qed

theorem rt_mq_fifo_witness:
  "\<exists>m'. mq_run [Store_put [1, 2, 3, 4], Store_put [5, 6, 7, 8], Store_put [9, 9, 9, 9], Store_get,
       Store_urgent [0, 0, 0, 1]] (msgqueues ex_kernel 4) = Some ([[1, 2, 3, 4]], m')
     \<and> mq_content m' = [[0, 0, 0, 1], [5, 6, 7, 8]]"
proof -
  have "mq_lists ex_mq [] [1, 0]" by (auto simp: mq_lists_def ex_mq_def)
  then have wf: "mq_wf (msgqueues ex_kernel 4)" and c: "mq_content (msgqueues ex_kernel 4) = []"
    using mq_lists_content(2) by (auto simp: mq_wf_def)
  have s: "mq_msg_size (msgqueues ex_kernel 4) = 4" "max_msgs (msgqueues ex_kernel 4) = 2"
    by (simp_all add: ex_mq_def)
  note cs = c [simplified] s [simplified]
  from rt_mq_fifo [OF wf, of "[Store_put [1, 2, 3, 4], Store_put [5, 6, 7, 8], Store_put [9, 9, 9, 9], Store_get,
       Store_urgent [0, 0, 0, 1]]"]
  show ?thesis by (auto simp: cs)
qed

lemma ex_mq_ok: "mq_ok 4 ex_kernel"
proof -
  have "mq_lists ex_mq [] [1, 0]" by (auto simp: mq_lists_def ex_mq_def)
  then show ?thesis
    by (auto simp: mq_ok_def mq_wf_def ipc_object_ok_def ipc_flag_def rt_object_get_type_def)
qed

lemma ex_mq_abs: "mq_abs 4 ex_kernel = ([], [], [])" "mq_shape 4 ex_kernel = (2, 4)"
  by (simp_all add: mq_abs_def mq_content_def mq_slots_def mq_shape_def ex_mq_def)

theorem rt_mq_send_wait_refines_witness:
  "\<exists>w loc k'. rt_mq_send_wait_start 4 [7, 8, 9] 3 0 ex_kernel = Some (Returned RT_EOK, loc, k')
     \<and> mq_abs 4 k' = ([w], [], []) \<and> take 3 w = [7, 8, 9]"
proof -
  have "interrupt_nest ex_kernel = 0" "time_ok 0" "(3::u32) \<noteq> 0" "unat (3::u32) \<le> length [7, 8, 9::u8]"
    by (simp_all add: time_ok_def)
  from rt_mq_send_wait_refines [OF ex_kinv ex_mq_ok ex_running this ex_mq_abs(2)] show ?thesis
    by (auto simp: ex_mq_abs mq_message_def)
qed

theorem rt_mq_recv_refines_witness:
  "\<exists>loc k'. rt_mq_recv_start 4 3 20 ex_kernel = Some (Blocked, None, loc, k') \<and> mq_abs 4 k' = ([], [0], [])
     \<and> trem k' (ThreadTimer 0) = 20"
proof -
  have "interrupt_nest ex_kernel = 0" "time_ok 20" "(3::u32) \<noteq> 0" by (simp_all add: time_ok_def)
  from rt_mq_recv_refines [OF ex_kinv ex_mq_ok ex_running this] show ?thesis
    by (auto simp: ex_mq_abs enlist_def ipc_flag_def blocked_def)
qed

end
