(* ===== verification/RT_System.thy ===== *)
theory RT_System
  imports RT_Sem RT_Mutex RT_Event RT_Mailbox RT_Msgqueue
begin

text \<open>
  The running system, first part: the invariants of the components as one invariant over
  any number of objects, what keeps it (steps that leave all objects alone, operations on one
  object), and the tick interrupt.
\<close>

section \<open>Steps that leave all objects alone\<close>

text \<open>Threads may be woken and leave their lines; nobody is put to sleep.\<close>

definition quiet :: "kernel \<Rightarrow> kernel \<Rightarrow> bool" where
  "quiet k k' \<longleftrightarrow>
     interrupt_nest k' = interrupt_nest k \<and> live k' = live k \<and> (\<forall>j. objs k' (OIpc j) = objs k (OIpc j))
     \<and> sems k' = sems k \<and> mutexes k' = mutexes k \<and> events k' = events k
     \<and> mailboxes k' = mailboxes k \<and> msgqueues k' = msgqueues k
     \<and> (\<forall>j. \<exists>P. queues k' (SuspendQ j) = filter P (queues k (SuspendQ j)))
     \<and> (\<forall>s. event_set (threads k' s) = event_set (threads k s) \<and> event_info (threads k' s) = event_info (threads k s)
          \<and> (asleep k' s \<longrightarrow> asleep k s))"

lemma quiet_trans:
  assumes "quiet k k'" "quiet k' k''"
  shows "quiet k k''"
proof -
  have "\<exists>P. queues k'' (SuspendQ j) = filter P (queues k (SuspendQ j))" for j
  proof -
    obtain P Q where "queues k' (SuspendQ j) = filter P (queues k (SuspendQ j))"
        "queues k'' (SuspendQ j) = filter Q (queues k' (SuspendQ j))"
      using assms unfolding quiet_def by blast
    then have "queues k'' (SuspendQ j) = filter (\<lambda>s. P s \<and> Q s) (queues k (SuspendQ j))" by simp
    then show ?thesis by blast
  qed
  then show ?thesis using assms unfolding quiet_def by simp
qed

lemma filter_all: "\<exists>P. xs = filter P xs"
  by (rule exI [of _ "\<lambda>_. True"]) simp

lemma filter_remove: "\<exists>P. removeAll t xs = filter P xs"
  by (metis removeAll_filter_not_eq)

lemma quiet_same:
  assumes "interrupt_nest k' = interrupt_nest k" "live k' = live k" "\<And>j. objs k' (OIpc j) = objs k (OIpc j)"
    and "sems k' = sems k" "mutexes k' = mutexes k" "events k' = events k"
    and "mailboxes k' = mailboxes k" "msgqueues k' = msgqueues k"
    and "\<And>j. queues k' (SuspendQ j) = queues k (SuspendQ j) \<or> (\<exists>t. queues k' (SuspendQ j) = removeAll t (queues k (SuspendQ j)))"
    and "\<And>s. event_set (threads k' s) = event_set (threads k s) \<and> event_info (threads k' s) = event_info (threads k s)
           \<and> (asleep k' s \<longrightarrow> asleep k s)"
  shows "quiet k k'"
proof -
  have "\<exists>P. queues k' (SuspendQ j) = filter P (queues k (SuspendQ j))" for j
    using assms(9) [of j] filter_all [of "queues k (SuspendQ j)"] filter_remove [of _ "queues k (SuspendQ j)"] by auto
  then show ?thesis using assms(1-8,10) by (simp add: quiet_def)
qed

lemma quiet_refl: "quiet k k"
  by (rule quiet_same) simp_all

lemma quiet_upd_thread:
  assumes "event_set (f (threads k t)) = event_set (threads k t)" "event_info (f (threads k t)) = event_info (threads k t)"
    and "tstate (f (threads k t)) = RT_THREAD_SUSPEND \<Longrightarrow> asleep k t"
  shows "quiet k (upd_thread t f k)"
  by (rule quiet_same) (use assms in \<open>auto simp: asleep_def split: if_splits\<close>)

lemma quiet_remove_thread: "quiet k (rt_schedule_remove_thread t k)"
  by (rule quiet_same) (auto simp: asleep_def q_remove_def)

lemma quiet_insert_thread: "quiet k (rt_schedule_insert_thread t k)"
  by (rule quiet_same) (auto simp: asleep_def q_insert_before_def split: if_splits)

lemma quiet_unlink: "quiet k (k\<lparr>queues := q_remove t (queues k)\<rparr>)"
  by (rule quiet_same) (auto simp: asleep_def q_remove_def)

lemma quiet_running: "quiet k (upd_thread t (set_tstate RT_THREAD_RUNNING) k)"
  by (rule quiet_upd_thread) simp_all

lemma quiet_clear_yield: "quiet k (upd_thread t clear_yield k)"
  by (rule quiet_upd_thread) (simp_all add: asleep_def)

lemma quiet_dispatch: "quiet k (k\<lparr>sched_current_priority := p, current_thread := q\<rparr>)"
  by (rule quiet_same) (simp_all add: asleep_def live_def rt_object_get_type_def)

lemma quiet_switch:
  assumes "quiet k k'"
  shows "quiet k (upd_thread t (set_tstate RT_THREAD_RUNNING) (rt_schedule_remove_thread t k'))"
  using assms quiet_remove_thread quiet_running quiet_trans by metis

lemma quiet_schedule:
  assumes "rt_schedule k = Some k'"
  shows "quiet k k'"
proof (cases "sched_lock_nest k = 0 \<and> ready_group k \<noteq> 0")
  case False
  then show ?thesis using assms by (auto simp: rt_schedule_def quiet_refl)
next
  case True
  define y where "y c = (if tstate (threads k c) = RT_THREAD_RUNNING then upd_thread c clear_yield k else k)" for c
  have y: "quiet k (y c)" for c by (simp add: y_def quiet_clear_yield quiet_refl)
  define d where "d c t p = (y c)\<lparr>sched_current_priority := p, current_thread := Some t\<rparr>" for c t p
  have d: "quiet k (d c t p)" for c t p unfolding d_def using y quiet_dispatch quiet_trans by metis
  have i: "quiet k (rt_schedule_insert_thread c (d c t p))" for c t p
    using d quiet_insert_thread quiet_trans by metis
  show ?thesis
    using assms True quiet_switch [OF y] quiet_switch [OF d] quiet_switch [OF i]
    by (auto simp: rt_schedule_def schedule_switch_def Let_def bind_eq_Some_conv y_def [symmetric]
        d_def [symmetric] split: prod.splits if_splits)
qed

text \<open>Changes of the timers.\<close>

lemma quiet_timers:
  assumes "threads k' = threads k" "queues k' = queues k" "interrupt_nest k' = interrupt_nest k" "live k' = live k"
    and "\<And>j. objs k' (OIpc j) = objs k (OIpc j)"
    and "sems k' = sems k" "mutexes k' = mutexes k" "events k' = events k"
    and "mailboxes k' = mailboxes k" "msgqueues k' = msgqueues k"
  shows "quiet k k'"
  by (rule quiet_same) (use assms in \<open>auto simp: asleep_def\<close>)

lemma objs_ipc_timer [simp]:
  "objs (deactivate r k) (OIpc j) = objs k (OIpc j)" "objs (activate r k) (OIpc j) = objs k (OIpc j)"
  by (simp_all add: deactivate_def activate_def set_tflag_def)

lemma quiet_timer_remove: "quiet k (timer_remove r k)"
  by (rule quiet_timers) simp_all

lemma quiet_deactivate: "quiet k (deactivate r k)"
  by (rule quiet_timers) simp_all

lemma quiet_stop: "rt_timer_stop r k = Some (e, k') \<Longrightarrow> quiet k k'"
  using quiet_refl quiet_trans [OF quiet_timer_remove quiet_deactivate]
  by (auto simp: rt_timer_stop_def Let_def bind_eq_Some_conv split: if_splits)

lemma quiet_enqueue: "timer_enqueue r k = Some k' \<Longrightarrow> quiet k k'"
  by (rule quiet_timers)
    (auto simp: timer_enqueue_def Let_def bind_eq_Some_conv live_def rt_object_get_type_def fun_eq_iff)

lemma quiet_resume:
  assumes "rt_thread_resume t k = Some (e, k')"
  shows "quiet k k'"
proof (cases "tstate (threads k t) = RT_THREAD_SUSPEND")
  case True
  then obtain e2 k2 where "rt_timer_stop (ThreadTimer t) (k\<lparr>queues := q_remove t (queues k)\<rparr>) = Some (e2, k2)"
      "k' = rt_schedule_insert_thread t k2"
    using assms by (auto simp: rt_thread_resume_def Let_def bind_eq_Some_conv)
  then show ?thesis using quiet_unlink quiet_stop quiet_insert_thread quiet_trans by metis
qed (use assms in \<open>auto simp: rt_thread_resume_def bind_eq_Some_conv quiet_refl\<close>)

lemma quiet_timer_start:
  assumes "rt_timer_start r k = Some (e, k')"
  shows "quiet k k'"
proof -
  obtain k1 where k1: "timer_enqueue r k = Some k1" using assms by (auto simp: rt_timer_start_def bind_eq_Some_conv)
  have q: "quiet k k1" by (rule quiet_enqueue [OF k1])
  show ?thesis
  proof (cases "is_soft r k1 \<and> soft_timer_idle k1 \<and> tstate (threads k1 (timer_thread k1)) = RT_THREAD_SUSPEND")
    case True
    then obtain e2 k2 where "rt_thread_resume (timer_thread k1) k1 = Some (e2, k2)" "rt_schedule k2 = Some k'"
      using assms k1 by (auto simp: rt_timer_start_def bind_eq_Some_conv)
    then show ?thesis using q quiet_resume quiet_schedule quiet_trans by metis
  qed (use assms k1 q in \<open>auto simp: rt_timer_start_def\<close>)
qed

lemma quiet_timeout:
  assumes "rt_thread_timeout t k = Some k'"
  shows "quiet k k'"
proof -
  define k1 where "k1 = upd_thread t (\<lambda>th. th\<lparr>error := - RT_ETIMEOUT\<rparr>) k"
  define k2 where "k2 = k1\<lparr>queues := q_remove t (queues k1)\<rparr>"
  have "quiet k k1" unfolding k1_def by (rule quiet_upd_thread) (simp_all add: asleep_def)
  moreover have "quiet k1 k2" unfolding k2_def by (rule quiet_unlink)
  moreover have "rt_schedule (rt_schedule_insert_thread t k2) = Some k'"
    using assms unfolding rt_thread_timeout_def k2_def k1_def by (simp add: Let_def bind_eq_Some_conv)
  ultimately show ?thesis using quiet_insert_thread quiet_schedule quiet_trans by metis
qed

section \<open>The tick\<close>

lemma quiet_take: "quiet k (timer_take l r k)"
  by (rule quiet_timers) (simp_all add: timer_take_def Let_def)

lemma quiet_put:
  assumes "timer_put r k = Some k'"
  shows "quiet k k'"
proof (cases "periodic r (timer_remove r k) \<and> activated r (timer_remove r k)")
  case True
  then obtain e where "rt_timer_start r (deactivate r (timer_remove r k)) = Some (e, k')"
    using assms by (auto simp: timer_put_def Let_def bind_eq_Some_conv)
  then show ?thesis using quiet_timer_remove quiet_deactivate quiet_timer_start quiet_trans by metis
next
  case False
  then have "k' = timer_remove r k" using assms by (auto simp: timer_put_def Let_def)
  then show ?thesis by (simp add: quiet_timer_remove)
qed

text \<open>The functions of application timers do not put threads to sleep or change objects.\<close>

definition callbacks_quiet :: "(nat \<Rightarrow> kernel \<Rightarrow> kernel option) \<Rightarrow> bool" where
  "callbacks_quiet cb \<longleftrightarrow> (\<forall>i k k'. cb i k = Some k' \<longrightarrow> quiet k k')"

lemma quiet_call:
  "callbacks_quiet cb \<Longrightarrow> call_timeout cb f k = Some k' \<Longrightarrow> quiet k k'"
  by (cases f) (auto simp: callbacks_quiet_def quiet_timeout)

lemma quiet_check:
  assumes cb: "callbacks_quiet cb" and ret: "timer_check_loop cb now k = Some k'"
  shows "quiet k k'"
  using timer_check_loop.raw_induct [where P = "\<lambda>c _ k k'. c = cb \<longrightarrow> quiet k k'", OF _ ret]
proof -
  have "c = cb \<longrightarrow> quiet k k'"
    if ih: "\<And>c now k k'. loop c now k = Some k' \<Longrightarrow> c = cb \<longrightarrow> quiet k k'"
      and e: "(case tlists k HardList of
        [] \<Rightarrow> Some k
      | t # _ \<Rightarrow>
          if now - timeout_tick (timers k t) < RT_TICK_MAX div 2
          then do { let k = timer_take HardLocal t k;
                    k \<leftarrow> call_timeout c (timeout_func (timers k t)) k;
                    let current_tick = rt_tick_get k;
                    if tlists k HardLocal = [] then loop c current_tick k
                    else do { k \<leftarrow> timer_put t k; loop c current_tick k } }
          else Some k) = Some k'"
    for loop c and now :: u32 and k k'
  proof
    assume c: "c = cb"
    show "quiet k k'"
    proof (cases "tlists k HardList")
      case Nil
      then show ?thesis using e by (simp add: quiet_refl)
    next
      case (Cons t ts)
      show ?thesis
      proof (cases "now - timeout_tick (timers k t) < RT_TICK_MAX div 2")
        case False
        then show ?thesis using e Cons by (simp add: quiet_refl)
      next
        case True
        obtain k1 where k1: "call_timeout c (timeout_func (timers (timer_take HardLocal t k) t)) (timer_take HardLocal t k) = Some k1"
            "(if tlists k1 HardLocal = [] then loop c (rt_tick_get k1) k1
              else do { k \<leftarrow> timer_put t k1; loop c (rt_tick_get k1) k }) = Some k'"
          using e Cons True by (auto simp: Let_def bind_eq_Some_conv)
        have q: "quiet k k1" using quiet_take quiet_call [OF cb k1(1) [unfolded c]] quiet_trans by blast
        show ?thesis
          using k1(2) ih [of c] c q quiet_put quiet_trans
          by (auto simp: bind_eq_Some_conv split: if_splits) blast+
      qed
    qed
  qed
  then show ?thesis using timer_check_loop.raw_induct [where P = "\<lambda>c _ k k'. c = cb \<longrightarrow> quiet k k'", OF _ ret] by blast
qed

lemma quiet_tick:
  assumes cb: "callbacks_quiet cb" and ret: "rt_tick_increase cb k = Some k'"
  shows "quiet k k'"
proof -
  define k1 where "k1 = k\<lparr>tick := tick k + 1\<rparr>"
  obtain t k3 where t: "current_thread k1 = Some t"
      and k3: "(if remaining_tick (threads (upd_thread t (\<lambda>th. th\<lparr>remaining_tick := remaining_tick th - 1\<rparr>) k1) t) = 0
                then rt_schedule (upd_thread t set_yield (upd_thread t (\<lambda>th. th\<lparr>remaining_tick := init_tick th\<rparr>)
                       (upd_thread t (\<lambda>th. th\<lparr>remaining_tick := remaining_tick th - 1\<rparr>) k1)))
                else Some (upd_thread t (\<lambda>th. th\<lparr>remaining_tick := remaining_tick th - 1\<rparr>) k1)) = Some k3"
      and l: "timer_check_loop cb (rt_tick_get k3) k3 = Some k'"
    using ret unfolding rt_tick_increase_def Let_def bind_eq_Some_conv k1_def [symmetric] rt_timer_check_def rt_thread_self_def
    by blast
  have a: "quiet k k1" unfolding k1_def by (rule quiet_timers) simp_all
  have b: "quiet k (upd_thread t f k)" if "f = (\<lambda>th. th\<lparr>remaining_tick := remaining_tick th - 1\<rparr>)
      \<or> f = (\<lambda>th. th\<lparr>remaining_tick := init_tick th\<rparr>) \<or> f = set_yield" for f k
    by (rule quiet_upd_thread) (use that in \<open>auto simp: asleep_def\<close>)
  have "quiet k1 k3"
    using k3 b quiet_schedule quiet_trans by (metis (no_types, lifting) option.inject)
  then show ?thesis using a quiet_check [OF cb l] quiet_trans by blast
qed

section \<open>The invariant of the running system\<close>

text \<open>Every object is in order by its type.\<close>

abbreviation (input) has_type :: "oid \<Rightarrow> u8 \<Rightarrow> kernel \<Rightarrow> bool" where
  "has_type i ty k \<equiv> rt_object_get_type (OIpc i) k = ty"

definition object_ok :: "oid \<Rightarrow> kernel \<Rightarrow> bool" where
  "object_ok i k \<longleftrightarrow>
     (let ty = rt_object_get_type (OIpc i) k
      in (ty = RT_Object_Class_Semaphore \<longrightarrow> sem_ok i k) \<and> (ty = RT_Object_Class_Mutex \<longrightarrow> mutex_ok i k)
         \<and> (ty = RT_Object_Class_Event \<longrightarrow> event_ok i k) \<and> (ty = RT_Object_Class_MailBox \<longrightarrow> mb_ok i k)
         \<and> (ty = RT_Object_Class_MessageQueue \<longrightarrow> mq_ok i k))"

definition sys_inv :: "kernel \<Rightarrow> bool" where
  "sys_inv k \<longleftrightarrow> kinv {} k \<and> current_thread k \<noteq> None \<and> interrupt_nest k = 0 \<and> clock_ok k \<and> (\<forall>i. object_ok i k)"

lemma sys_invD:
  assumes "sys_inv k"
  shows "kinv {} k" "current_thread k \<noteq> None" "interrupt_nest k = 0" "clock_ok k" "object_ok i k"
  using assms by (simp_all add: sys_inv_def)

lemma object_ok_type:
  assumes "object_ok i k"
  shows "rt_object_get_type (OIpc i) k = RT_Object_Class_Semaphore \<Longrightarrow> sem_ok i k"
    "rt_object_get_type (OIpc i) k = RT_Object_Class_Mutex \<Longrightarrow> mutex_ok i k"
    "rt_object_get_type (OIpc i) k = RT_Object_Class_Event \<Longrightarrow> event_ok i k"
    "rt_object_get_type (OIpc i) k = RT_Object_Class_MailBox \<Longrightarrow> mb_ok i k"
    "rt_object_get_type (OIpc i) k = RT_Object_Class_MessageQueue \<Longrightarrow> mq_ok i k"
  using assms by (simp_all add: object_ok_def Let_def)

lemma object_okI:
  "sem_ok i k \<Longrightarrow> object_ok i k" "mutex_ok i k \<Longrightarrow> object_ok i k" "event_ok i k \<Longrightarrow> object_ok i k"
  "mb_ok i k \<Longrightarrow> object_ok i k" "mq_ok i k \<Longrightarrow> object_ok i k"
  by (simp_all add: object_ok_def Let_def sem_ok_def mutex_ok_def event_ok_def mb_ok_def mq_ok_def ipc_object_ok_def)

text \<open>An object stays in order when only some of its waiters leave.\<close>

lemma object_ok_kept:
  assumes ok: "object_ok j k" and obj: "objs k' (OIpc j) = objs k (OIpc j)" and live: "live k' = live k"
    and tab: "sems k' j = sems k j" "mutexes k' j = mutexes k j" "events k' j = events k j"
      "mailboxes k' j = mailboxes k j" "msgqueues k' j = msgqueues k j"
    and q: "set (queues k' (SuspendQ j)) \<subseteq> set (queues k (SuspendQ j))"
    and ev: "\<And>s. s \<in> set (queues k (SuspendQ j)) \<Longrightarrow>
      event_set (threads k' s) = event_set (threads k s) \<and> event_info (threads k' s) = event_info (threads k s)"
  shows "object_ok j k'"
proof -
  have ty: "rt_object_get_type (OIpc j) k' = rt_object_get_type (OIpc j) k" "ipc_object_ok c j k' = ipc_object_ok c j k" for c
    using obj by (simp_all add: rt_object_get_type_def ipc_object_ok_def ipc_flag_def)
  have ne: "queues k (SuspendQ j) = [] \<Longrightarrow> queues k' (SuspendQ j) = []" using q by simp
  have "sem_ok j k \<Longrightarrow> sem_ok j k'" using ne by (auto simp: sem_ok_def ty tab)
  moreover have "mutex_ok j k \<Longrightarrow> mutex_ok j k'" using ne q by (auto simp: mutex_ok_def ty tab live)
  moreover have "event_ok j k \<Longrightarrow> event_ok j k'" using q ev by (auto simp: event_ok_def ty tab)
  moreover have "mb_ok j k \<Longrightarrow> mb_ok j k'" "mq_ok j k \<Longrightarrow> mq_ok j k'" by (simp_all add: mb_ok_def mq_ok_def ty tab)
  ultimately show ?thesis using ok by (simp add: object_ok_def ty(1) Let_def)
qed

lemma object_ok_quiet:
  assumes "quiet k k'" "object_ok j k"
  shows "object_ok j k'"
proof (rule object_ok_kept [OF assms(2)])
  obtain P where "queues k' (SuspendQ j) = filter P (queues k (SuspendQ j))" using assms(1) unfolding quiet_def by blast
  then show "set (queues k' (SuspendQ j)) \<subseteq> set (queues k (SuspendQ j))" by simp
qed (use assms(1) in \<open>simp_all add: quiet_def\<close>)

lemma object_ok_other:
  assumes fr: "ipc_frame i X k k'" and inv: "kinv {} k" and ok: "object_ok j k" and ne: "j \<noteq> i"
    and X: "\<And>s. s \<in> X \<Longrightarrow> s \<notin> set (queues k (SuspendQ j))"
  shows "object_ok j k'"
proof (rule object_ok_kept [OF ok])
  show "objs k' (OIpc j) = objs k (OIpc j)" "live k' = live k" using fr by (simp_all add: ipc_frame_def)
  have j: "sems k' j = sems k j \<and> mutexes k' j = mutexes k j \<and> events k' j = events k j
      \<and> mailboxes k' j = mailboxes k j \<and> msgqueues k' j = msgqueues k j
      \<and> (\<exists>P. queues k' (SuspendQ j) = filter P (queues k (SuspendQ j)))"
    using fr ne unfolding ipc_frame_def by blast
  then show "sems k' j = sems k j" "mutexes k' j = mutexes k j" "events k' j = events k j"
      "mailboxes k' j = mailboxes k j" "msgqueues k' j = msgqueues k j"
      "set (queues k' (SuspendQ j)) \<subseteq> set (queues k (SuspendQ j))" by auto
  show "event_set (threads k' s) = event_set (threads k s) \<and> event_info (threads k' s) = event_info (threads k s)"
    if s: "s \<in> set (queues k (SuspendQ j))" for s
  proof -
    have "s \<notin> set (queues k (SuspendQ i))" using wait_queues_disjoint [OF inv s, of "SuspendQ i"] ne by simp
    moreover have "s \<notin> X" using X s by blast
    ultimately show ?thesis using fr unfolding ipc_frame_def by blast
  qed
qed

text \<open>An operation on one object, and one on none, by threads that are in no line.\<close>

lemma sys_inv_ipc:
  assumes inv: "sys_inv k" and k': "kinv {} k'" "object_ok i k'" "ipc_frame i X k k'"
    and X: "\<And>s h. s \<in> X \<Longrightarrow> \<not> is_ready_queue h \<Longrightarrow> s \<notin> set (queues k h)"
  shows "sys_inv k'"
proof -
  have "object_ok j k'" for j
    using k'(2) object_ok_other [OF k'(3) sys_invD(1) [OF inv] sys_invD(5) [OF inv], of j] X by (cases "j = i") auto
  moreover have "clock_ok k'" "current_thread k' \<noteq> None" "interrupt_nest k' = 0"
    using k'(3) sys_invD [OF inv] by (auto simp: ipc_frame_def timing_def)
  ultimately show ?thesis using k'(1) by (simp add: sys_inv_def)
qed

lemma sys_inv_threads:
  assumes inv: "sys_inv k" and k': "kinv {} k'" "\<And>i. ipc_frame i X k k'"
    and X: "\<And>s h. s \<in> X \<Longrightarrow> \<not> is_ready_queue h \<Longrightarrow> s \<notin> set (queues k h)"
  shows "sys_inv k'"
proof (rule sys_inv_ipc [OF inv k'(1) _ k'(2) X])
  show "object_ok 0 k'"
    by (rule object_ok_other [OF k'(2) [of 1] sys_invD(1,5) [OF inv]]) (use X in auto)
qed simp_all

lemma running_in_no_line:
  "kinv {} k \<Longrightarrow> running k t \<Longrightarrow> t \<notin> set (queues k h)"
  using running_unlinked by (simp add: detached_def)

section \<open>The tick keeps the invariant\<close>

text \<open>\<open>timer0_isr\<close> (\<open>board/board.c\<close>), the interrupt of the system timer.\<close>

definition timer0_isr :: "(nat \<Rightarrow> kernel \<Rightarrow> kernel option) \<Rightarrow> kernel \<Rightarrow> kernel option" where
  "timer0_isr cb k =
     do { let k = rt_interrupt_enter k;
          k \<leftarrow> rt_tick_increase cb k;
          Some (rt_interrupt_leave k) }"

lemma nest_kinv: "kinv X (k\<lparr>interrupt_nest := n\<rparr>) = kinv X k"
proof -
  have "timer_lists (k\<lparr>interrupt_nest := n\<rparr>) = timer_lists k" by (rule timer_lists_cong) simp_all
  moreover have "thread_timer_ok (k\<lparr>interrupt_nest := n\<rparr>) t = thread_timer_ok k t" for t
    by (rule thread_timer_ok_cong) simp_all
  ultimately show ?thesis by (simp add: kinv_def thread_timers_def)
qed

lemma nest_clock_ok: "clock_ok (k\<lparr>interrupt_nest := n\<rparr>) = clock_ok k"
  by (rule clock_ok_cong) (simp_all add: periodic_def tflag_def)

lemma nest_object_ok: "object_ok i k \<Longrightarrow> object_ok i (k\<lparr>interrupt_nest := n\<rparr>)"
  by (erule object_ok_kept) simp_all

lemma clock_ok_after:
  assumes "hard_timers_ok k" "due k = {}"
  shows "clock_ok k"
proof -
  have "0 \<le> trem k r" if "r \<in> set (tlists k HardList)" for r using that assms(2) by (force simp: due_def)
  then show ?thesis using assms(1) by (simp add: hard_timers_ok_def clock_ok_def)
qed

text \<open>What a tick does to sleeping threads.\<close>

definition tick_passed :: "kernel \<Rightarrow> kernel \<Rightarrow> bool" where
  "tick_passed k k' \<longleftrightarrow> tick k' = tick k + 1 \<and> (\<forall>s. asleep k' s \<longrightarrow> asleep k s)
     \<and> (\<forall>s. ThreadTimer s \<in> set (tlists k HardList) \<longrightarrow>
          (if trem k (ThreadTimer s) \<le> 1 then \<not> asleep k' s
           else ThreadTimer s \<in> set (tlists k' HardList) \<and> trem k' (ThreadTimer s) = trem k (ThreadTimer s) - 1))"

lemma isr_ok:
  assumes cb: "callbacks_ok cb" "callbacks_quiet cb" and inv: "sys_inv k"
  shows "\<exists>k'. timer0_isr cb k = Some k' \<and> sys_inv k' \<and> tick_passed k k'"
proof -
  note i = sys_invD [OF inv]
  let ?k = "k\<lparr>interrupt_nest := 1\<rparr>"
  have c: "clock_ok ?k" using i(4) by (simp add: nest_clock_ok)
  have h: "hard_timers_ok ?k" by (rule clock_ok_hard_timers [OF c]) (use i in \<open>simp_all add: nest_kinv\<close>)
  have nn: "\<forall>r \<in> set (tlists ?k HardList). 0 \<le> trem ?k r" using c by (simp add: clock_ok_def)
  obtain t where "current_thread ?k = Some t" using i(2) by auto
  from tick_increase_ok [OF cb(1) h nn this] obtain k1 where
    k1: "rt_tick_increase cb ?k = Some k1" "hard_timers_ok k1" "tick k1 = tick k + 1" "due k1 = {}"
      "\<And>s. ThreadTimer s \<in> set (tlists k HardList) \<Longrightarrow> trem ?k (ThreadTimer s) \<le> 1 \<Longrightarrow> timed_out k1 s"
      "\<And>q. q \<in> set (tlists k HardList) \<Longrightarrow> 1 < trem ?k q \<Longrightarrow> q \<in> set (tlists k1 HardList) \<and> timers k1 q = timers k q"
    by auto
  note q = quiet_tick [OF cb(2) k1(1)]
  let ?k' = "k1\<lparr>interrupt_nest := 0\<rparr>"
  have "interrupt_nest k1 = 1" using q by (simp add: quiet_def)
  then have e: "timer0_isr cb k = Some ?k'"
    using k1(1) i(3) by (simp add: timer0_isr_def rt_interrupt_enter_def rt_interrupt_leave_def)
  have o: "object_ok j ?k'" for j by (rule nest_object_ok [OF object_ok_quiet [OF q nest_object_ok [OF i(5)]]])
  have s: "sys_inv ?k'"
    using o hard_timers_okD(1,2) [OF k1(2)] clock_ok_after [OF k1(2,4)] by (simp add: sys_inv_def nest_kinv nest_clock_ok)
  have tr: "trem ?k r = trem k r" "trem ?k' r = trem k1 r" for r by (simp_all add: trem_def)
  have "tick_passed k ?k'"
    unfolding tick_passed_def
  proof (intro conjI allI impI)
    show "tick ?k' = tick k + 1" using k1(3) by simp
    show "asleep k s" if "asleep ?k' s" for s using q that by (simp add: quiet_def asleep_def)
    fix s assume l: "ThreadTimer s \<in> set (tlists k HardList)"
    show "if trem k (ThreadTimer s) \<le> 1 then \<not> asleep ?k' s
           else ThreadTimer s \<in> set (tlists ?k' HardList) \<and> trem ?k' (ThreadTimer s) = trem k (ThreadTimer s) - 1"
    proof (cases "trem k (ThreadTimer s) \<le> 1")
      case True
      then show ?thesis using k1(5) [OF l] tr by (simp add: timed_out_def asleep_def)
    next
      case False
      note t = k1(6) [OF l]
      have "0 \<le> trem k (ThreadTimer s)" using False by simp
      from trem_tick [OF this] have "trem k1 (ThreadTimer s) = trem k (ThreadTimer s) - 1"
        using t False tr k1(3) by (simp add: trem_def)
      then show ?thesis using t False tr by simp
    qed
  qed
  then show ?thesis using e s by blast
qed

end
