(* ===== verification/RT_Lifecycle.thy ===== *)
theory RT_Lifecycle
  imports RT_System
begin

text \<open>
  Objects that come and go while the system runs: initialising, resetting and detaching a
  semaphore, mutex, event group, mailbox or message queue keeps the invariant of the whole
  system, whoever waits on it.
\<close>

section \<open>Steps that put nobody to sleep\<close>

definition calm :: "kernel \<Rightarrow> kernel \<Rightarrow> bool" where
  "calm k k' \<longleftrightarrow> sys_inv k' \<and> timing {} k k'"

lemma calm_refl: "sys_inv k \<Longrightarrow> calm k k"
  by (simp add: calm_def)

lemma calm_trans: "calm k k' \<Longrightarrow> calm k' k'' \<Longrightarrow> calm k k''"
  using timing_trans unfolding calm_def by blast

lemma calm_inv: "calm k k' \<Longrightarrow> sys_inv k'"
  by (simp add: calm_def)

lemma calm_quiet:
  assumes inv: "sys_inv k" and k': "kinv {} k'" "current_thread k' \<noteq> None" "quiet k k'" "timing {} k k'"
  shows "calm k k'"
proof -
  have "object_ok j k'" for j by (rule object_ok_quiet [OF k'(3) sys_invD(5) [OF inv]])
  moreover have "clock_ok k'" using k'(4) sys_invD(4) [OF inv] by (simp add: timing_def)
  moreover have "interrupt_nest k' = 0" using k'(3) sys_invD(3) [OF inv] by (simp add: quiet_def)
  ultimately show ?thesis using k' by (simp add: calm_def sys_inv_def)
qed

lemma calm_schedule:
  assumes inv: "sys_inv k"
  shows "\<exists>k'. rt_schedule k = Some k' \<and> calm k k' \<and> sched_frame k k'"
proof -
  obtain c where c: "current_thread k = Some c" using sys_invD(2) [OF inv] by auto
  obtain k' where k': "rt_schedule k = Some k'" "kinv {} k'" "sched_frame k k'"
    using rt_schedule_kinv [OF sys_invD(1) [OF inv] c] by blast
  have "calm k k'"
    using calm_quiet [OF inv k'(2) rt_schedule_current [OF k'(1)] quiet_schedule [OF k'(1)] timing_sched [OF k'(3)]]
      sys_invD(2) [OF inv] by blast
  then show ?thesis using k' by blast
qed

text \<open>A change of one object.\<close>

lemma calm_object:
  assumes inv: "sys_inv k" and k': "kinv {} k'" "object_ok i k'"
    and same: "threads k' = threads k" "queues k' = queues k" "current_thread k' = current_thread k"
      "interrupt_nest k' = interrupt_nest k" "live k' = live k" "tlists k' = tlists k" "timers k' = timers k"
      "tick k' = tick k" "\<And>r. objs k' (OTimer r) = objs k (OTimer r)"
    and other: "\<And>j. j \<noteq> i \<Longrightarrow> objs k' (OIpc j) = objs k (OIpc j) \<and> sems k' j = sems k j \<and> mutexes k' j = mutexes k j
      \<and> events k' j = events k j \<and> mailboxes k' j = mailboxes k j \<and> msgqueues k' j = msgqueues k j"
  shows "calm k k'"
proof -
  have t: "timing {} k k'" by (rule timing_same) (use same in \<open>simp_all add: asleep_def\<close>)
  have "object_ok j k'" for j
  proof (cases "j = i")
    case False
    show ?thesis by (rule object_ok_kept [OF sys_invD(5) [OF inv]]) (use other [OF False] same in simp_all)
  qed (simp add: k'(2))
  then show ?thesis
    using t k'(1) same sys_invD [OF inv] by (simp add: calm_def sys_inv_def timing_def)
qed

section \<open>Detaching and resetting\<close>

lemma quiet_resume_all:
  assumes ret: "rt_ipc_list_resume_all h k = Some k'"
  shows "quiet k k'"
proof -
  have "quiet k k'"
    if ih: "\<And>h k k'. loop h k = Some k' \<Longrightarrow> quiet k k'"
      and e: "(case queues k h of
        [] \<Rightarrow> Some k
      | t # _ \<Rightarrow> do { let k = upd_thread t (\<lambda>th. th\<lparr>error := - RT_ERROR\<rparr>) k;
                     (_, k) \<leftarrow> rt_thread_resume t k;
                     loop h k }) = Some k'"
    for loop h k k'
  proof (cases "queues k h")
    case Nil
    then show ?thesis using e by (simp add: quiet_refl)
  next
    case (Cons t ts)
    let ?k = "upd_thread t (\<lambda>th. th\<lparr>error := - RT_ERROR\<rparr>) k"
    obtain r k1 where k1: "rt_thread_resume t ?k = Some (r, k1)" "loop h k1 = Some k'"
      using e Cons by (auto simp: Let_def bind_eq_Some_conv)
    have "quiet k ?k" by (rule quiet_upd_thread) (simp_all add: asleep_def)
    then show ?thesis using quiet_resume [OF k1(1)] ih [OF k1(2)] quiet_trans by blast
  qed
  then show ?thesis
    using rt_ipc_list_resume_all.raw_induct [where P = "\<lambda>_ k k'. quiet k k'", OF _ ret] by blast
qed

lemma calm_resume_all:
  assumes inv: "sys_inv k" and h: "h = SuspendQ i \<or> h = SenderQ i"
  shows "\<exists>k'. rt_ipc_list_resume_all h k = Some k' \<and> calm k k' \<and> all_woken h k k'"
proof -
  obtain k' where k': "rt_ipc_list_resume_all h k = Some k'" "all_woken h k k'"
    using resume_all_ok [OF sys_invD(1) [OF inv] h] by blast
  have "calm k k'"
    by (rule calm_quiet [OF inv _ _ quiet_resume_all [OF k'(1)]])
      (use k'(2) sys_invD(2) [OF inv] in \<open>simp_all add: all_woken_def\<close>)
  then show ?thesis using k' by blast
qed

lemma calm_detach:
  assumes inv: "sys_inv k"
  shows "calm k (rt_object_detach (OIpc i) k)"
proof (rule calm_object [OF inv, where i = i])
  let ?k = "rt_object_detach (OIpc i) k"
  show "kinv {} ?k" using sys_invD(1) [OF inv] by (simp add: kinv_rt_object_detach)
  show "object_ok i ?k" by (simp add: object_ok_def)
  show "live ?k = live k" by (simp add: rt_object_detach_def Let_def live_def rt_object_get_type_def fun_eq_iff)
qed (simp_all add: rt_object_detach_def Let_def)

text \<open>The type and flag of an object are not changed by waking its waiters.\<close>

lemma all_woken_objs: "all_woken h k k' \<Longrightarrow> objs k' (OIpc i) = objs k (OIpc i)"
  by (simp add: all_woken_def kframe_def)

lemma assert_ipc_type: "assert_ipc ty i k = (if has_type i ty k then Some () else None)"
  by (simp add: assert_ipc_def rt_assert_def)

lemma one_line_detach:
  assumes inv: "sys_inv k" and ty: "has_type i ty k" and st: "rt_object_is_systemobject (OIpc i) k"
  shows "\<exists>k'. do { assert_ipc ty i k;
                   rt_assert (rt_object_is_systemobject (OIpc i) k);
                   k \<leftarrow> rt_ipc_list_resume_all (SuspendQ i) k;
                   Some (RT_EOK, rt_object_detach (OIpc i) k) } = Some (RT_EOK, k') \<and> calm k k'"
proof -
  obtain k1 where k1: "rt_ipc_list_resume_all (SuspendQ i) k = Some k1" "calm k k1"
    using calm_resume_all [OF inv] by blast
  have "calm k (rt_object_detach (OIpc i) k1)"
    using calm_trans [OF k1(2) calm_detach [OF calm_inv [OF k1(2)]]] .
  then show ?thesis using k1(1) ty st by (simp add: assert_ipc_type)
qed

lemma two_line_detach:
  assumes inv: "sys_inv k" and ty: "has_type i ty k" and st: "rt_object_is_systemobject (OIpc i) k"
  shows "\<exists>k'. do { assert_ipc ty i k;
                   rt_assert (rt_object_is_systemobject (OIpc i) k);
                   k \<leftarrow> rt_ipc_list_resume_all (SuspendQ i) k;
                   k \<leftarrow> rt_ipc_list_resume_all (SenderQ i) k;
                   Some (RT_EOK, rt_object_detach (OIpc i) k) } = Some (RT_EOK, k') \<and> calm k k'"
proof -
  obtain k1 where k1: "rt_ipc_list_resume_all (SuspendQ i) k = Some k1" "calm k k1"
    using calm_resume_all [OF inv] by blast
  obtain k2 where k2: "rt_ipc_list_resume_all (SenderQ i) k1 = Some k2" "calm k1 k2"
    using calm_resume_all [OF calm_inv [OF k1(2)]] by blast
  note c = calm_trans [OF k1(2) k2(2)]
  have "calm k (rt_object_detach (OIpc i) k2)"
    using calm_trans [OF c calm_detach [OF calm_inv [OF c]]] .
  then show ?thesis using k1(1) k2(1) ty st by (simp add: assert_ipc_type)
qed

lemma detach_done:
  assumes "sys_inv k" "rt_object_is_systemobject (OIpc i) k"
  shows "has_type i RT_Object_Class_Semaphore k \<Longrightarrow> \<exists>k'. rt_sem_detach i k = Some (RT_EOK, k') \<and> calm k k'"
    "has_type i RT_Object_Class_Mutex k \<Longrightarrow> \<exists>k'. rt_mutex_detach i k = Some (RT_EOK, k') \<and> calm k k'"
    "has_type i RT_Object_Class_Event k \<Longrightarrow> \<exists>k'. rt_event_detach i k = Some (RT_EOK, k') \<and> calm k k'"
    "has_type i RT_Object_Class_MailBox k \<Longrightarrow> \<exists>k'. rt_mb_detach i k = Some (RT_EOK, k') \<and> calm k k'"
    "has_type i RT_Object_Class_MessageQueue k \<Longrightarrow> \<exists>k'. rt_mq_detach i k = Some (RT_EOK, k') \<and> calm k k'"
  unfolding rt_sem_detach_def rt_mutex_detach_def rt_event_detach_def rt_mb_detach_def rt_mq_detach_def
  using one_line_detach [OF assms(1) _ assms(2)] two_line_detach [OF assms(1) _ assms(2)] by blast+

text \<open>Resetting: all waiters leave, the object starts afresh.\<close>

lemma reset_and_schedule:
  assumes "calm k k1" "calm k1 k2"
  shows "\<exists>k'. rt_schedule k2 = Some k' \<and> calm k k'"
  using calm_schedule [OF calm_inv [OF assms(2)]] calm_trans [OF calm_trans [OF assms]] by blast

lemma has_type_woken: "all_woken h k k1 \<Longrightarrow> has_type i ty k1 = has_type i ty k"
  by (simp add: all_woken_objs rt_object_get_type_def)

lemma sem_reset_done:
  assumes inv: "sys_inv k" and ty: "has_type i RT_Object_Class_Semaphore k"
  shows "\<exists>k'. rt_sem_control i RT_IPC_CMD_RESET v k = Some (RT_EOK, k') \<and> calm k k'"
proof -
  obtain k1 where k1: "rt_ipc_list_resume_all (SuspendQ i) k = Some k1" "calm k k1" "all_woken (SuspendQ i) k k1"
    using calm_resume_all [OF inv] by blast
  let ?k2 = "set_sem_value i (ucast v) k1"
  have "sem_ok i k1" using object_ok_type(1) [OF sys_invD(5) [OF calm_inv [OF k1(2)]]] ty has_type_woken [OF k1(3)] by blast
  then have "sem_ok i ?k2" using all_wokenD(4) [OF k1(3)] by (simp add: sem_ok_def)
  then have "calm k1 ?k2"
    by (intro calm_object [OF calm_inv [OF k1(2)], where i = i] object_okI(1))
      (use sys_invD(1) [OF calm_inv [OF k1(2)]] in \<open>simp_all add: set_sem_value_def\<close>)
  from reset_and_schedule [OF k1(2) this] show ?thesis
    using k1(1) ty by (auto simp: rt_sem_control_def assert_ipc_type)
qed

lemma event_reset_done:
  assumes inv: "sys_inv k" and ty: "has_type i RT_Object_Class_Event k"
  shows "\<exists>k'. rt_event_control i RT_IPC_CMD_RESET k = Some (RT_EOK, k') \<and> calm k k'"
proof -
  obtain k1 where k1: "rt_ipc_list_resume_all (SuspendQ i) k = Some k1" "calm k k1" "all_woken (SuspendQ i) k k1"
    using calm_resume_all [OF inv] by blast
  let ?k2 = "set_event i 0 k1"
  have "event_ok i k1" using object_ok_type(3) [OF sys_invD(5) [OF calm_inv [OF k1(2)]]] ty has_type_woken [OF k1(3)] by blast
  then have "event_ok i ?k2" using all_wokenD(4) [OF k1(3)] by (simp add: event_ok_def)
  then have "calm k1 ?k2"
    by (intro calm_object [OF calm_inv [OF k1(2)], where i = i] object_okI(3))
      (use sys_invD(1) [OF calm_inv [OF k1(2)]] in \<open>simp_all add: set_event_def\<close>)
  from reset_and_schedule [OF k1(2) this] show ?thesis
    using k1(1) ty by (auto simp: rt_event_control_def assert_ipc_type)
qed

lemma both_lines_woken:
  assumes inv: "sys_inv k"
  shows "\<exists>k1 k2. rt_ipc_list_resume_all (SuspendQ i) k = Some k1 \<and> rt_ipc_list_resume_all (SenderQ i) k1 = Some k2
     \<and> calm k k2 \<and> objs k2 (OIpc i) = objs k (OIpc i)"
proof -
  obtain k1 where k1: "rt_ipc_list_resume_all (SuspendQ i) k = Some k1" "calm k k1" "all_woken (SuspendQ i) k k1"
    using calm_resume_all [OF inv] by blast
  obtain k2 where k2: "rt_ipc_list_resume_all (SenderQ i) k1 = Some k2" "calm k1 k2" "all_woken (SenderQ i) k1 k2"
    using calm_resume_all [OF calm_inv [OF k1(2)]] by blast
  then show ?thesis
    using k1 calm_trans [OF k1(2) k2(2)] all_woken_objs [OF k1(3)] all_woken_objs [OF k2(3)] by auto
qed

lemma mb_reset_done:
  assumes inv: "sys_inv k" and ty: "has_type i RT_Object_Class_MailBox k"
  shows "\<exists>k'. rt_mb_control i RT_IPC_CMD_RESET k = Some (RT_EOK, k') \<and> calm k k'"
proof -
  obtain k1 k2 where k2: "rt_ipc_list_resume_all (SuspendQ i) k = Some k1" "rt_ipc_list_resume_all (SenderQ i) k1 = Some k2"
      "calm k k2" "objs k2 (OIpc i) = objs k (OIpc i)"
    using both_lines_woken [OF inv] by blast
  let ?k3 = "upd_mb i (\<lambda>m. m\<lparr>mb_entry := 0, in_offset := 0, out_offset := 0\<rparr>) k2"
  have "has_type i RT_Object_Class_MailBox k2" using ty k2(4) by (simp add: rt_object_get_type_def)
  then have "mb_ok i k2" using object_ok_type(4) [OF sys_invD(5) [OF calm_inv [OF k2(3)]]] by blast
  then have "mb_ok i ?k3" by (auto simp: mb_ok_def mb_wf_def word_neq_0_conv)
  then have "calm k2 ?k3"
    by (intro calm_object [OF calm_inv [OF k2(3)], where i = i] object_okI(4))
      (use sys_invD(1) [OF calm_inv [OF k2(3)]] in \<open>simp_all add: upd_mb_def\<close>)
  from reset_and_schedule [OF k2(3) this] show ?thesis
    using k2(1,2) ty by (auto simp: rt_mb_control_def assert_ipc_type)
qed

lemma mq_reset_done:
  assumes inv: "sys_inv k" and ty: "has_type i RT_Object_Class_MessageQueue k"
  shows "\<exists>k'. rt_mq_control i RT_IPC_CMD_RESET k = Some (RT_EOK, k') \<and> calm k k'"
proof -
  obtain k1 k2 where k2: "rt_ipc_list_resume_all (SuspendQ i) k = Some k1" "rt_ipc_list_resume_all (SenderQ i) k1 = Some k2"
      "calm k k2" "objs k2 (OIpc i) = objs k (OIpc i)"
    using both_lines_woken [OF inv] by blast
  have "has_type i RT_Object_Class_MessageQueue k2" using ty k2(4) by (simp add: rt_object_get_type_def)
  then have ok: "mq_ok i k2" using object_ok_type(5) [OF sys_invD(5) [OF calm_inv [OF k2(3)]]] by blast
  then obtain qs fs where "mq_lists (msgqueues k2 i) qs fs" by (auto simp: mq_ok_def mq_wf_def)
  from mq_flush_ok [OF this] obtain m where m: "mq_flush (msgqueues k2 i) = Some m" "mq_lists (m\<lparr>mq_entry := 0\<rparr>) [] (rev qs @ fs)"
    by blast
  let ?k3 = "upd_mq i (\<lambda>_. m\<lparr>mq_entry := 0\<rparr>) k2"
  have "mq_ok i ?k3" using ok m(2) by (auto simp: mq_ok_def mq_wf_def)
  then have "calm k2 ?k3"
    by (intro calm_object [OF calm_inv [OF k2(3)], where i = i] object_okI(5))
      (use sys_invD(1) [OF calm_inv [OF k2(3)]] in \<open>simp_all add: upd_mq_def\<close>)
  from reset_and_schedule [OF k2(3) this] show ?thesis
    using k2(1,2) m(1) ty by (auto simp: rt_mq_control_def assert_ipc_type)
qed

section \<open>Initialising\<close>

text \<open>A static object that is not registered, and whose lines are empty. Registering it passes
  through the scheduler lock, so another thread may run first.\<close>

definition can_init :: "oid \<Rightarrow> u8 \<Rightarrow> u8 \<Rightarrow> kernel \<Rightarrow> bool" where
  "can_init i ty flag k \<longleftrightarrow> OIpc i \<notin> set (container k ty) \<and> lock_ok k
     \<and> queues k (SuspendQ i) = [] \<and> queues k (SenderQ i) = []
     \<and> (flag = RT_IPC_FLAG_FIFO \<or> flag = RT_IPC_FLAG_PRIO)"

text \<open>The object's header as \<open>rt_object_init\<close> and the flag assignment leave it.\<close>

definition registered :: "oid \<Rightarrow> u8 \<Rightarrow> string \<Rightarrow> u8 \<Rightarrow> kernel \<Rightarrow> kernel" where
  "registered i ty name flag k =
     (upd_obj (OIpc i) (\<lambda>ob. ob\<lparr>otype := ty OR RT_Object_Class_Static, oname := take RT_NAME_MAX name, oflag := flag\<rparr>) k)
       \<lparr>container := q_insert_after ty (OIpc i) (container k)\<rparr>"

lemma registered_fields [simp]:
  "threads (registered i ty name flag k) = threads k" "queues (registered i ty name flag k) = queues k"
  "current_thread (registered i ty name flag k) = current_thread k" "tick (registered i ty name flag k) = tick k"
  "interrupt_nest (registered i ty name flag k) = interrupt_nest k"
  "live (registered i ty name flag k) = live k" "tlists (registered i ty name flag k) = tlists k"
  "timers (registered i ty name flag k) = timers k" "objs (registered i ty name flag k) (OTimer r) = objs k (OTimer r)"
  "sems (registered i ty name flag k) = sems k" "mutexes (registered i ty name flag k) = mutexes k"
  "events (registered i ty name flag k) = events k" "mailboxes (registered i ty name flag k) = mailboxes k"
  "msgqueues (registered i ty name flag k) = msgqueues k" "kinv X (registered i ty name flag k) = kinv X k"
  "j \<noteq> i \<Longrightarrow> objs (registered i ty name flag k) (OIpc j) = objs k (OIpc j)"
  using live_upd_obj [of "OIpc i" _ k] by (simp_all add: registered_def)

lemma registered_ok:
  "ty \<in> {2, 3, 4, 5, 6} \<Longrightarrow> flag = RT_IPC_FLAG_FIFO \<or> flag = RT_IPC_FLAG_PRIO \<Longrightarrow>
     ipc_object_ok ty i (registered i ty name flag k)"
  by (auto simp: ipc_object_ok_def rt_object_get_type_def ipc_flag_def registered_def)

lemma init_object:
  assumes inv: "sys_inv k" and c: "can_init i ty flag k" and ty: "ty \<in> {2, 3, 4, 5, 6}"
  shows "\<exists>k0 k2. calm k k0 \<and> queues k0 (SuspendQ i) = [] \<and> queues k0 (SenderQ i) = []
     \<and> rt_object_init (OIpc i) ty name k = Some k2 \<and> set_ipc_flag i flag k2 = registered i ty name flag k0"
proof -
  have lk: "lock_ok k" and nin: "OIpc i \<notin> set (container k ty)" using c by (simp_all add: can_init_def)
  have info: "rt_object_get_information ty = Some ty"
    using ty by (auto simp: rt_object_get_information_def)
  have ee: "rt_exit_critical (rt_enter_critical k) =
      (if sched_lock_nest k = 0 \<and> current_thread k \<noteq> None then rt_schedule k else Some k)"
    using lk by (intro exit_enter_critical) (simp_all add: lock_ok_def)
  obtain k0 where k0: "rt_exit_critical (rt_enter_critical k) = Some k0" "calm k k0" "sched_frame k k0"
    using ee calm_schedule [OF inv] calm_refl [OF inv] sched_frame_refl [of k] by (metis (full_types))
  note fr = sched_frame_fields [OF k0(3)]
  let ?k2 = "(upd_obj (OIpc i) (\<lambda>ob. ob\<lparr>otype := ty OR RT_Object_Class_Static, oname := take RT_NAME_MAX name\<rparr>) k0)
      \<lparr>container := q_insert_after ty (OIpc i) (container k0)\<rparr>"
  have "rt_object_init (OIpc i) ty name k = Some ?k2"
    using info nin k0(1) by (simp add: rt_object_init_def Let_def rt_enter_critical_def)
  moreover have "set_ipc_flag i flag ?k2 = registered i ty name flag k0"
    by (simp add: set_ipc_flag_def registered_def upd_obj_def)
  moreover have "queues k0 (SuspendQ i) = []" "queues k0 (SenderQ i) = []" using c fr by (simp_all add: can_init_def)
  ultimately show ?thesis using k0(2) by blast
qed

text \<open>The initialisations: the header, then the object's own fields.\<close>

lemma calm_init:
  assumes k0: "calm k k0" and ok: "object_ok i (f (registered i ty name flag k0))"
    and f: "\<And>k. kinv {} (f k) = kinv {} k" "\<And>k. threads (f k) = threads k" "\<And>k. queues (f k) = queues k"
      "\<And>k. current_thread (f k) = current_thread k" "\<And>k. interrupt_nest (f k) = interrupt_nest k"
      "\<And>k. objs (f k) = objs k" "\<And>k. tlists (f k) = tlists k" "\<And>k. timers (f k) = timers k" "\<And>k. tick (f k) = tick k"
      "\<And>k j. j \<noteq> i \<Longrightarrow> sems (f k) j = sems k j \<and> mutexes (f k) j = mutexes k j
      \<and> events (f k) j = events k j \<and> mailboxes (f k) j = mailboxes k j \<and> msgqueues (f k) j = msgqueues k j"
  shows "calm k (f (registered i ty name flag k0))"
proof (rule calm_trans [OF k0 calm_object [OF calm_inv [OF k0], where i = i]])
  have "live (f k) = live k" for k using f(6) by (simp add: live_def rt_object_get_type_def fun_eq_iff)
  then show "live (f (registered i ty name flag k0)) = live k0" by simp
qed (use sys_invD(1) [OF calm_inv [OF k0]] ok f in simp_all)

lemma no_lines:
  "q h = [] \<Longrightarrow> q_replace h [] q = q" "queues k = q \<Longrightarrow> k\<lparr>queues := q\<rparr> = (k :: kernel)"
  by (auto simp: q_replace_def fun_upd_idem)

lemma sem_init_done:
  assumes inv: "sys_inv k" and c: "can_init i RT_Object_Class_Semaphore flag k" and v: "v < 0x10000"
  shows "\<exists>k'. rt_sem_init i name v flag k = Some (RT_EOK, k') \<and> calm k k'"
proof -
  obtain k0 k2 where k0: "calm k k0" "queues k0 (SuspendQ i) = []"
      and k2: "rt_object_init (OIpc i) RT_Object_Class_Semaphore name k = Some k2"
        "set_ipc_flag i flag k2 = registered i RT_Object_Class_Semaphore name flag k0"
    using init_object [OF inv c, of name] by auto
  let ?k = "set_sem_value i (ucast v) (registered i RT_Object_Class_Semaphore name flag k0)"
  have "sem_ok i ?k" using k0(2) c registered_ok [of RT_Object_Class_Semaphore flag i name k0]
    by (simp add: sem_ok_def can_init_def)
  from calm_init [where f = "set_sem_value i (ucast v)", OF k0(1) object_okI(1) [OF this]] have "calm k ?k" by (simp add: set_sem_value_def)
  moreover have "rt_sem_init i name v flag k = Some (RT_EOK, ?k)"
  proof -
    have "queues k2 (SuspendQ i) = []" using k0(2) arg_cong [OF k2(2), of queues] by (simp add: set_ipc_flag_def)
    moreover have "set_ipc_flag i flag (set_sem_value i (ucast v) k2) = ?k"
      unfolding k2(2) [symmetric] by (simp add: set_ipc_flag_def set_sem_value_def upd_obj_def)
    ultimately show ?thesis using k2(1) v by (simp add: rt_sem_init_def rt_ipc_object_init_def no_lines Let_def)
  qed
  ultimately show ?thesis by blast
qed

lemma mutex_init_done:
  assumes inv: "sys_inv k" and c: "can_init i RT_Object_Class_Mutex flag k"
  shows "\<exists>k'. rt_mutex_init i name flag k = Some (RT_EOK, k') \<and> calm k k'"
proof -
  obtain k0 k2 where k0: "calm k k0" "queues k0 (SuspendQ i) = []"
      and k2: "rt_object_init (OIpc i) RT_Object_Class_Mutex name k = Some k2"
        "set_ipc_flag i flag k2 = registered i RT_Object_Class_Mutex name flag k0"
    using init_object [OF inv c, of name] by auto
  let ?k = "upd_mutex i (\<lambda>_. free_mutex) (registered i RT_Object_Class_Mutex name flag k0)"
  have "mutex_ok i ?k" using k0(2) c registered_ok [of RT_Object_Class_Mutex flag i name k0]
    by (simp add: mutex_ok_def can_init_def)
  from calm_init [where f = "upd_mutex i (\<lambda>_. free_mutex)", OF k0(1) object_okI(2) [OF this]] have "calm k ?k" by (simp add: upd_mutex_def)
  moreover have "rt_mutex_init i name flag k = Some (RT_EOK, ?k)"
  proof -
    have "queues k2 (SuspendQ i) = []" using k0(2) arg_cong [OF k2(2), of queues] by (simp add: set_ipc_flag_def)
    moreover have "set_ipc_flag i flag (upd_mutex i (\<lambda>_. free_mutex) k2) = ?k"
      unfolding k2(2) [symmetric] by (simp add: set_ipc_flag_def upd_mutex_def upd_obj_def)
    ultimately show ?thesis using k2(1) by (simp add: rt_mutex_init_def rt_ipc_object_init_def no_lines Let_def)
  qed
  ultimately show ?thesis by blast
qed

lemma event_init_done:
  assumes inv: "sys_inv k" and c: "can_init i RT_Object_Class_Event flag k"
  shows "\<exists>k'. rt_event_init i name flag k = Some (RT_EOK, k') \<and> calm k k'"
proof -
  obtain k0 k2 where k0: "calm k k0" "queues k0 (SuspendQ i) = []"
      and k2: "rt_object_init (OIpc i) RT_Object_Class_Event name k = Some k2"
        "set_ipc_flag i flag k2 = registered i RT_Object_Class_Event name flag k0"
    using init_object [OF inv c, of name] by auto
  let ?k = "set_event i 0 (registered i RT_Object_Class_Event name flag k0)"
  have "event_ok i ?k" using k0(2) c registered_ok [of RT_Object_Class_Event flag i name k0]
    by (simp add: event_ok_def can_init_def)
  from calm_init [where f = "set_event i 0", OF k0(1) object_okI(3) [OF this]] have "calm k ?k" by (simp add: set_event_def)
  moreover have "rt_event_init i name flag k = Some (RT_EOK, ?k)"
    using k2 k0(2) by (simp add: rt_event_init_def rt_ipc_object_init_def no_lines Let_def)
  ultimately show ?thesis by blast
qed

lemma mb_init_done:
  assumes inv: "sys_inv k" and c: "can_init i RT_Object_Class_MailBox flag k"
    and pool: "length pool = unat (ucast sz :: u16)"
  shows "\<exists>k'. rt_mb_init i name pool sz flag k = Some (RT_EOK, k') \<and> calm k k'"
proof -
  obtain k0 k2 where k0: "calm k k0" "queues k0 (SuspendQ i) = []" "queues k0 (SenderQ i) = []"
      and k2: "rt_object_init (OIpc i) RT_Object_Class_MailBox name k = Some k2"
        "set_ipc_flag i flag k2 = registered i RT_Object_Class_MailBox name flag k0"
    using init_object [OF inv c, of name] by auto
  let ?f = "upd_mb i (\<lambda>_. \<lparr>mb_pool = pool, mb_size = ucast sz, mb_entry = 0, in_offset = 0, out_offset = 0\<rparr>)"
  let ?k = "?f (registered i RT_Object_Class_MailBox name flag k0)"
  have "mb_ok i ?k" using c pool registered_ok [of RT_Object_Class_MailBox flag i name k0]
    by (simp add: mb_ok_def mb_wf_def can_init_def word_neq_0_conv)
  from calm_init [where f = ?f, OF k0(1) object_okI(4) [OF this]] have "calm k ?k" by (simp add: upd_mb_def)
  moreover have "rt_mb_init i name pool sz flag k = Some (RT_EOK, ?k)"
    using k2 k0(2,3) by (simp add: rt_mb_init_def rt_ipc_object_init_def init_sender_list_def no_lines Let_def)
  ultimately show ?thesis by blast
qed

text \<open>The slots of a message queue lie in the pool.\<close>

lemma slots_in_pool:
  assumes "s < unat (ucast ((psz::u32) div (ucast msz + 4)) :: u16)" "unat psz \<le> length pool"
  shows "length (slot_bytes msz pool s) = unat (msz::u16)"
proof -
  have m: "unat (ucast msz + 4 :: u32) = unat msz + 4"
  proof -
    have "unat msz < 2 ^ 16" using unsigned_less [of msz] by simp
    then show ?thesis by (simp add: unat_word_ariths unat_u16_u32)
  qed
  have "unat (ucast (psz div (ucast msz + 4)) :: u16) \<le> unat (psz div (ucast msz + 4))"
    by (simp add: unsigned_ucast_eq take_bit_nat_less_eq_self)
  also have "\<dots> = unat psz div (unat msz + 4)" by (simp only: unat_div m)
  finally have "s < unat psz div (unat msz + 4)" using assms(1) by simp
  then have "Suc s * (unat msz + 4) \<le> unat psz"
    by (metis Suc_leI div_times_less_eq_dividend dual_order.trans mult_le_mono1)
  then have "s * (unat msz + 4) + 4 + unat msz \<le> length pool" using assms(2) by simp
  then show ?thesis by (simp add: slot_bytes_def)
qed

lemma mq_init_done:
  assumes inv: "sys_inv k" and c: "can_init i RT_Object_Class_MessageQueue flag k"
    and pool: "unat pool_size \<le> length pool"
  shows "\<exists>k'. rt_mq_init i name pool msg_size pool_size flag k = Some (RT_EOK, k') \<and> calm k k'"
proof -
  obtain k0 k2 where k0: "calm k k0" "queues k0 (SuspendQ i) = []" "queues k0 (SenderQ i) = []"
      and k2: "rt_object_init (OIpc i) RT_Object_Class_MessageQueue name k = Some k2"
        "set_ipc_flag i flag k2 = registered i RT_Object_Class_MessageQueue name flag k0"
    using init_object [OF inv c, of name] by auto
  define msz :: u16 where "msz = ucast (RT_ALIGN msg_size 8)"
  define g where "g m = m\<lparr>mq_data := slot_bytes msz pool, mq_msg_size := msz,
      max_msgs := ucast (pool_size div (ucast msz + 4))\<rparr>" for m :: rt_messagequeue
  define h where "h m = (mq_init_slots m)\<lparr>mq_entry := 0\<rparr>" for m :: rt_messagequeue
  let ?r = "registered i RT_Object_Class_MessageQueue name flag k0"
  let ?k = "upd_mq i h (upd_mq i g ?r)"
  have "mq_lists (h (g m)) [] (rev [0..<unat (max_msgs (g m))])" for m
    unfolding h_def by (rule mq_init_lists) (use slots_in_pool [OF _ pool] in \<open>simp add: g_def\<close>)
  then have "mq_ok i ?k" using c registered_ok [of RT_Object_Class_MessageQueue flag i name k0]
    by (auto simp: mq_ok_def mq_wf_def can_init_def)
  then have o: "object_ok i ((upd_mq i h \<circ> upd_mq i g) ?r)" by (intro object_okI(5)) simp
  have "calm k ((upd_mq i h \<circ> upd_mq i g) ?r)"
    by (rule calm_init [where f = "upd_mq i h \<circ> upd_mq i g", OF k0(1) o]) (simp_all, simp_all add: upd_mq_def)
  moreover have "rt_mq_init i name pool msg_size pool_size flag k = Some (RT_EOK, ?k)"
    using k2 k0(2,3) by (simp add: rt_mq_init_def rt_ipc_object_init_def mq_init_senders_def no_lines Let_def
        msz_def [symmetric] g_def [symmetric] h_def [symmetric])
  ultimately show ?thesis by auto
qed

section \<open>Creating and deleting on the heap\<close>

lemma no_interrupt: "sys_inv k \<Longrightarrow> RT_DEBUG_NOT_IN_INTERRUPT k = Some ()"
  by (simp add: sys_inv_def RT_DEBUG_NOT_IN_INTERRUPT_def rt_interrupt_get_nest_def)

lemma delete_is_detach:
  "\<not> rt_object_is_systemobject r k \<Longrightarrow> rt_object_delete r k = Some (r, rt_object_detach r k)"
  by (simp add: rt_object_delete_def rt_object_detach_def Let_def)

lemma woken_static: "objs k' (OIpc i) = objs k (OIpc i) \<Longrightarrow>
    rt_object_is_systemobject (OIpc i) k' = rt_object_is_systemobject (OIpc i) k"
  by (simp add: rt_object_is_systemobject_def)

lemma delete_done:
  assumes inv: "sys_inv k" and st: "\<not> rt_object_is_systemobject (OIpc i) k"
  shows "has_type i RT_Object_Class_Semaphore k \<Longrightarrow> \<exists>k'. rt_sem_delete i k = Some (RT_EOK, k') \<and> calm k k'"
    "has_type i RT_Object_Class_Mutex k \<Longrightarrow> \<exists>k'. rt_mutex_delete i k = Some (RT_EOK, k') \<and> calm k k'"
    "has_type i RT_Object_Class_Event k \<Longrightarrow> \<exists>k'. rt_event_delete i k = Some (RT_EOK, k') \<and> calm k k'"
    "has_type i RT_Object_Class_MailBox k \<Longrightarrow> \<exists>k'. rt_mb_delete i k = Some (RT_EOK, k') \<and> calm k k'"
    "has_type i RT_Object_Class_MessageQueue k \<Longrightarrow> \<exists>k'. rt_mq_delete i k = Some (RT_EOK, k') \<and> calm k k'"
proof -
  obtain k1 where k1: "rt_ipc_list_resume_all (SuspendQ i) k = Some k1" "calm k k1" "all_woken (SuspendQ i) k k1"
    using calm_resume_all [OF inv] by blast
  obtain k2 where k2: "rt_ipc_list_resume_all (SenderQ i) k1 = Some k2" "calm k1 k2" "all_woken (SenderQ i) k1 k2"
    using calm_resume_all [OF calm_inv [OF k1(2)]] by blast
  have o: "objs k1 (OIpc i) = objs k (OIpc i)" "objs k2 (OIpc i) = objs k (OIpc i)"
    using all_woken_objs [OF k1(3)] all_woken_objs [OF k2(3)] by simp_all
  have d: "rt_object_delete (OIpc i) k1 = Some (OIpc i, rt_object_detach (OIpc i) k1)"
    "rt_object_delete (OIpc i) k2 = Some (OIpc i, rt_object_detach (OIpc i) k2)"
    using delete_is_detach woken_static o st by blast+
  have c1: "calm k (rt_object_detach (OIpc i) k1)" using calm_trans [OF k1(2) calm_detach [OF calm_inv [OF k1(2)]]] .
  have c2: "calm k (rt_object_detach (OIpc i) k2)"
    using calm_trans [OF calm_trans [OF k1(2) k2(2)] calm_detach [OF calm_inv [OF k2(2)]]] .
  note n = no_interrupt [OF inv] and a = assert_ipc_type
  show "\<exists>k'. rt_sem_delete i k = Some (RT_EOK, k') \<and> calm k k'" if "has_type i RT_Object_Class_Semaphore k"
    using that n st k1(1) d(1) c1 by (simp add: rt_sem_delete_def a)
  show "\<exists>k'. rt_mutex_delete i k = Some (RT_EOK, k') \<and> calm k k'" if "has_type i RT_Object_Class_Mutex k"
    using that n st k1(1) d(1) c1 by (simp add: rt_mutex_delete_def a)
  show "\<exists>k'. rt_event_delete i k = Some (RT_EOK, k') \<and> calm k k'" if "has_type i RT_Object_Class_Event k"
    using that n st k1(1) d(1) c1 by (simp add: rt_event_delete_def a)
  show "\<exists>k'. rt_mb_delete i k = Some (RT_EOK, k') \<and> calm k k'" if "has_type i RT_Object_Class_MailBox k"
    using that n st k1(1) k2(1) d(2) c2 by (simp add: rt_mb_delete_def a)
  show "\<exists>k'. rt_mq_delete i k = Some (RT_EOK, k') \<and> calm k k'" if "has_type i RT_Object_Class_MessageQueue k"
    using that n st k1(1) k2(1) d(2) c2 by (simp add: rt_mq_delete_def a)
qed

text \<open>Memory that holds no object, as the heap returns it, zeroed and registered.\<close>

definition can_create :: "oid option \<Rightarrow> u8 \<Rightarrow> kernel \<Rightarrow> bool" where
  "can_create mem flag k \<longleftrightarrow> (flag = RT_IPC_FLAG_FIFO \<or> flag = RT_IPC_FLAG_PRIO)
     \<and> (case mem of None \<Rightarrow> True | Some i \<Rightarrow> has_type i RT_Object_Class_Null k
          \<and> queues k (SuspendQ i) = [] \<and> queues k (SenderQ i) = [])"

definition on_heap :: "oid \<Rightarrow> u8 \<Rightarrow> string \<Rightarrow> u8 \<Rightarrow> kernel \<Rightarrow> kernel" where
  "on_heap i ty name flag k =
     (upd_obj (OIpc i) (\<lambda>_. \<lparr>oname = take RT_NAME_MAX name, otype = ty, oflag = flag\<rparr>) (zero_object (OIpc i) k))
       \<lparr>container := q_insert_after ty (OIpc i) (container k)\<rparr>"

lemma on_heap_fields [simp]:
  "threads (on_heap i ty name flag k) = threads k" "queues (on_heap i ty name flag k) = queues k"
  "current_thread (on_heap i ty name flag k) = current_thread k" "tick (on_heap i ty name flag k) = tick k"
  "interrupt_nest (on_heap i ty name flag k) = interrupt_nest k" "tlists (on_heap i ty name flag k) = tlists k"
  "timers (on_heap i ty name flag k) = timers k" "objs (on_heap i ty name flag k) (OTimer r) = objs k (OTimer r)"
  "j \<noteq> i \<Longrightarrow> objs (on_heap i ty name flag k) (OIpc j) = objs k (OIpc j)"
  "j \<noteq> i \<Longrightarrow> sems (on_heap i ty name flag k) j = sems k j"
  "j \<noteq> i \<Longrightarrow> mutexes (on_heap i ty name flag k) j = mutexes k j"
  "j \<noteq> i \<Longrightarrow> events (on_heap i ty name flag k) j = events k j"
  "j \<noteq> i \<Longrightarrow> mailboxes (on_heap i ty name flag k) j = mailboxes k j"
  "j \<noteq> i \<Longrightarrow> msgqueues (on_heap i ty name flag k) j = msgqueues k j"
  by (simp_all add: on_heap_def)

lemma on_heap_inv [simp]: "live (on_heap i ty name flag k) = live k" "kinv X (on_heap i ty name flag k) = kinv X k"
  using live_upd_obj [of "OIpc i" _ "zero_object (OIpc i) k"] by (simp_all add: on_heap_def)

lemma allocate_eq:
  assumes "sys_inv k" "ty \<in> {2, 3, 4, 5, 6}"
  shows "rt_object_allocate None ty name k = Some (None, k)"
    "rt_object_allocate (Some (OIpc i)) ty name k = Some (Some (OIpc i), on_heap i ty name 0 k)"
  using no_interrupt [OF assms(1)] assms(2)
  by (auto simp: rt_object_allocate_def rt_object_get_information_def on_heap_def Let_def)

lemma on_heap_ok:
  "ty \<in> {2, 3, 4, 5, 6} \<Longrightarrow> flag = RT_IPC_FLAG_FIFO \<or> flag = RT_IPC_FLAG_PRIO \<Longrightarrow>
     ipc_object_ok ty i (on_heap i ty name flag k)"
  by (auto simp: ipc_object_ok_def rt_object_get_type_def ipc_flag_def on_heap_def)

lemma on_heap_flag: "set_ipc_flag i flag (on_heap i ty name f k) = on_heap i ty name flag k"
  by (simp add: set_ipc_flag_def on_heap_def upd_obj_def)

lemma calm_create:
  assumes inv: "sys_inv k" and ok: "object_ok i (f (on_heap i ty name flag k))"
    and f: "\<And>k. kinv {} (f k) = kinv {} k" "\<And>k. threads (f k) = threads k" "\<And>k. queues (f k) = queues k"
      "\<And>k. current_thread (f k) = current_thread k" "\<And>k. interrupt_nest (f k) = interrupt_nest k"
      "\<And>k. objs (f k) = objs k" "\<And>k. tlists (f k) = tlists k" "\<And>k. timers (f k) = timers k" "\<And>k. tick (f k) = tick k"
      "\<And>k j. j \<noteq> i \<Longrightarrow> sems (f k) j = sems k j \<and> mutexes (f k) j = mutexes k j
      \<and> events (f k) j = events k j \<and> mailboxes (f k) j = mailboxes k j \<and> msgqueues (f k) j = msgqueues k j"
  shows "calm k (f (on_heap i ty name flag k))"
proof (rule calm_object [OF inv, where i = i])
  have "live (f k) = live k" for k using f(6) by (simp add: live_def rt_object_get_type_def fun_eq_iff)
  then show "live (f (on_heap i ty name flag k)) = live k" by simp
qed (use sys_invD(1) [OF inv] ok f in simp_all)

lemma sem_create_done:
  assumes inv: "sys_inv k" and c: "can_create mem flag k" and v: "v < 0x10000"
  shows "\<exists>r k'. rt_sem_create mem name v flag k = Some (r, k') \<and> calm k k'"
proof (cases mem)
  case (Some i)
  let ?k = "set_sem_value i (ucast v) (on_heap i RT_Object_Class_Semaphore name flag k)"
  have q: "queues k (SuspendQ i) = []" using c Some by (simp add: can_create_def)
  have "sem_ok i ?k" using q c on_heap_ok [of RT_Object_Class_Semaphore flag i name k]
    by (simp add: sem_ok_def can_create_def)
  from calm_create [where f = "set_sem_value i (ucast v)", OF inv object_okI(1) [OF this]] have "calm k ?k"
    by (simp add: set_sem_value_def)
  moreover have "set_ipc_flag i flag (set_sem_value i (ucast v) (on_heap i RT_Object_Class_Semaphore name 0 k)) = ?k"
    unfolding on_heap_flag [of i flag RT_Object_Class_Semaphore name 0 k, symmetric]
    by (simp add: set_ipc_flag_def set_sem_value_def upd_obj_def)
  ultimately show ?thesis
    using Some q v no_interrupt [OF inv] allocate_eq(2) [OF inv]
    by (simp add: rt_sem_create_def rt_ipc_object_init_def no_lines Let_def)
qed (use inv v calm_refl [OF inv] no_interrupt [OF inv] allocate_eq(1) [OF inv] in \<open>simp add: rt_sem_create_def\<close>)

lemma mutex_create_done:
  assumes inv: "sys_inv k" and c: "can_create mem flag k"
  shows "\<exists>r k'. rt_mutex_create mem name flag k = Some (r, k') \<and> calm k k'"
proof (cases mem)
  case (Some i)
  let ?k = "upd_mutex i (\<lambda>_. free_mutex) (on_heap i RT_Object_Class_Mutex name flag k)"
  have q: "queues k (SuspendQ i) = []" using c Some by (simp add: can_create_def)
  have "mutex_ok i ?k" using q c on_heap_ok [of RT_Object_Class_Mutex flag i name k]
    by (simp add: mutex_ok_def can_create_def)
  from calm_create [where f = "upd_mutex i (\<lambda>_. free_mutex)", OF inv object_okI(2) [OF this]] have "calm k ?k"
    by (simp add: upd_mutex_def)
  moreover have "set_ipc_flag i flag (upd_mutex i (\<lambda>_. free_mutex) (on_heap i RT_Object_Class_Mutex name 0 k)) = ?k"
    unfolding on_heap_flag [of i flag RT_Object_Class_Mutex name 0 k, symmetric]
    by (simp add: set_ipc_flag_def upd_mutex_def upd_obj_def)
  ultimately show ?thesis
    using Some q no_interrupt [OF inv] allocate_eq(2) [OF inv]
    by (simp add: rt_mutex_create_def rt_ipc_object_init_def no_lines Let_def)
qed (use inv calm_refl [OF inv] no_interrupt [OF inv] allocate_eq(1) [OF inv] in \<open>simp add: rt_mutex_create_def\<close>)

lemma event_create_done:
  assumes inv: "sys_inv k" and c: "can_create mem flag k"
  shows "\<exists>r k'. rt_event_create mem name flag k = Some (r, k') \<and> calm k k'"
proof (cases mem)
  case (Some i)
  let ?k = "set_event i 0 (on_heap i RT_Object_Class_Event name flag k)"
  have q: "queues k (SuspendQ i) = []" using c Some by (simp add: can_create_def)
  have "event_ok i ?k" using q c on_heap_ok [of RT_Object_Class_Event flag i name k]
    by (simp add: event_ok_def can_create_def)
  from calm_create [where f = "set_event i 0", OF inv object_okI(3) [OF this]] have "calm k ?k"
    by (simp add: set_event_def)
  then show ?thesis
    using Some q no_interrupt [OF inv] allocate_eq(2) [OF inv]
    by (simp add: rt_event_create_def rt_ipc_object_init_def no_lines Let_def on_heap_flag)
qed (use inv calm_refl [OF inv] no_interrupt [OF inv] allocate_eq(1) [OF inv] in \<open>simp add: rt_event_create_def\<close>)

text \<open>A mailbox or message queue needs a second block for its pool; if there is none the object
  is given back.\<close>

lemma calm_given_back:
  assumes inv: "sys_inv k"
    and f: "\<And>k. kinv {} (f k) = kinv {} k" "\<And>k. threads (f k) = threads k" "\<And>k. queues (f k) = queues k"
      "\<And>k. current_thread (f k) = current_thread k" "\<And>k. interrupt_nest (f k) = interrupt_nest k"
      "\<And>k. objs (f k) = objs k" "\<And>k. tlists (f k) = tlists k" "\<And>k. timers (f k) = timers k" "\<And>k. tick (f k) = tick k"
      "\<And>k j. j \<noteq> i \<Longrightarrow> sems (f k) j = sems k j \<and> mutexes (f k) j = mutexes k j
      \<and> events (f k) j = events k j \<and> mailboxes (f k) j = mailboxes k j \<and> msgqueues (f k) j = msgqueues k j"
    and ty: "ty \<in> {2, 3, 4, 5, 6}"
  shows "\<exists>k'. rt_object_delete (OIpc i) (f (on_heap i ty name flag k)) = Some (OIpc i, k') \<and> calm k k'"
proof -
  let ?a = "f (on_heap i ty name flag k)"
  have "otype (objs ?a (OIpc i)) = ty" by (simp add: f(6)) (simp add: on_heap_def)
  then have "\<not> rt_object_is_systemobject (OIpc i) ?a" using ty by (auto simp: rt_object_is_systemobject_def)
  moreover have "calm k (rt_object_detach (OIpc i) ?a)"
  proof (rule calm_object [OF inv, where i = i])
    have "live (f k) = live k" for k using f(6) by (simp add: live_def rt_object_get_type_def fun_eq_iff)
    moreover have "live (rt_object_detach (OIpc i) k) = live k" for k
      by (simp add: rt_object_detach_def Let_def live_def rt_object_get_type_def fun_eq_iff)
    ultimately show "live (rt_object_detach (OIpc i) ?a) = live k" by simp
    show "kinv {} (rt_object_detach (OIpc i) ?a)" using sys_invD(1) [OF inv] by (simp add: kinv_rt_object_detach f(1))
    show "object_ok i (rt_object_detach (OIpc i) ?a)" by (simp add: object_ok_def)
  qed (use f in \<open>simp_all add: rt_object_detach_def Let_def\<close>)
  ultimately show ?thesis using delete_is_detach by blast
qed

lemma mb_create_done:
  assumes inv: "sys_inv k" and c: "can_create mem flag k"
    and pool: "\<And>p. pool = Some p \<Longrightarrow> length p = unat (ucast sz :: u16)"
  shows "\<exists>r k'. rt_mb_create mem pool name sz flag k = Some (r, k') \<and> calm k k'"
proof (cases mem)
  case (Some i)
  have q: "queues k (SuspendQ i) = []" "queues k (SenderQ i) = []" using c Some by (simp_all add: can_create_def)
  let ?g = "upd_mb i (\<lambda>m. m\<lparr>mb_size := ucast sz\<rparr>)"
  have e: "rt_mb_create mem pool name sz flag k =
      (case pool of
         None \<Rightarrow> do { (_, k) \<leftarrow> rt_object_delete (OIpc i) (?g (on_heap i RT_Object_Class_MailBox name flag k)); Some (None, k) }
       | Some pool \<Rightarrow> Some (Some i, upd_mb i (\<lambda>m. m\<lparr>mb_pool := pool, mb_entry := 0, in_offset := 0, out_offset := 0\<rparr>)
            (?g (on_heap i RT_Object_Class_MailBox name flag k))))"
    using Some q no_interrupt [OF inv] allocate_eq(2) [OF inv]
    by (cases pool) (simp_all add: rt_mb_create_def rt_ipc_object_init_def init_sender_list_def no_lines Let_def on_heap_flag)
  show ?thesis
  proof (cases pool)
    case None
    have "\<exists>k'. rt_object_delete (OIpc i) (?g (on_heap i RT_Object_Class_MailBox name flag k)) = Some (OIpc i, k') \<and> calm k k'"
      by (rule calm_given_back [where f = ?g, OF inv]) (simp_all, simp_all add: upd_mb_def)
    then show ?thesis using e None by auto
  next
    case (Some p)
    let ?h = "upd_mb i (\<lambda>m. m\<lparr>mb_pool := p, mb_entry := 0, in_offset := 0, out_offset := 0\<rparr>)"
    have "mb_ok i (?h (?g (on_heap i RT_Object_Class_MailBox name flag k)))"
      using c pool [OF Some] on_heap_ok [of RT_Object_Class_MailBox flag i name k]
      by (simp add: mb_ok_def mb_wf_def can_create_def word_neq_0_conv)
    then have "object_ok i ((?h \<circ> ?g) (on_heap i RT_Object_Class_MailBox name flag k))" by (intro object_okI(4)) simp
    from calm_create [where f = "?h \<circ> ?g", OF inv this]
    have "calm k ((?h \<circ> ?g) (on_heap i RT_Object_Class_MailBox name flag k))" by (simp add: upd_mb_def)
    then show ?thesis using e Some by auto
  qed
qed (use inv calm_refl [OF inv] no_interrupt [OF inv] allocate_eq(1) [OF inv] in \<open>simp add: rt_mb_create_def\<close>)

lemma mq_create_done:
  assumes inv: "sys_inv k" and c: "can_create mem flag k"
    and pool: "\<And>p. pool = Some p \<Longrightarrow>
      unat (ucast mm :: u16) * (unat (ucast (RT_ALIGN msg_size 8) :: u16) + 4) \<le> length p"
  shows "\<exists>r k'. rt_mq_create mem pool name msg_size mm flag k = Some (r, k') \<and> calm k k'"
proof (cases mem)
  case (Some i)
  have q: "queues k (SuspendQ i) = []" "queues k (SenderQ i) = []" using c Some by (simp_all add: can_create_def)
  define msz :: u16 where "msz = ucast (RT_ALIGN msg_size 8)"
  let ?g = "upd_mq i (\<lambda>m. m\<lparr>mq_msg_size := msz, max_msgs := ucast mm\<rparr>)"
  define h where "h p m = (mq_init_slots (m\<lparr>mq_data := slot_bytes msz p\<rparr>))\<lparr>mq_entry := 0\<rparr>" for p m
  have e: "rt_mq_create mem pool name msg_size mm flag k =
      (case pool of
         None \<Rightarrow> do { (_, k) \<leftarrow> rt_object_delete (OIpc i) (?g (on_heap i RT_Object_Class_MessageQueue name flag k)); Some (None, k) }
       | Some p \<Rightarrow> Some (Some i, upd_mq i (h p) (?g (on_heap i RT_Object_Class_MessageQueue name flag k))))"
    using Some q no_interrupt [OF inv] allocate_eq(2) [OF inv]
    by (cases pool) (simp_all add: rt_mq_create_def rt_ipc_object_init_def mq_init_senders_def no_lines Let_def
        on_heap_flag msz_def [symmetric] h_def [symmetric])
  show ?thesis
  proof (cases pool)
    case None
    have "\<exists>k'. rt_object_delete (OIpc i) (?g (on_heap i RT_Object_Class_MessageQueue name flag k)) = Some (OIpc i, k') \<and> calm k k'"
      by (rule calm_given_back [where f = ?g, OF inv]) (simp_all, simp_all add: upd_mq_def)
    then show ?thesis using e None by auto
  next
    case (Some p)
    let ?k = "upd_mq i (h p) (?g (on_heap i RT_Object_Class_MessageQueue name flag k))"
    have sl: "length (slot_bytes msz p s) = unat msz" if "s < unat (ucast mm :: u16)" for s
    proof -
      have "Suc s * (unat msz + 4) \<le> unat (ucast mm :: u16) * (unat msz + 4)" using that by (intro mult_le_mono1) simp
      then have "s * (unat msz + 4) + 4 + unat msz \<le> length p" using pool [OF Some] by (simp add: msz_def)
      then show ?thesis by (simp add: slot_bytes_def)
    qed
    have "mq_wf (h p m)" if "mq_msg_size m = msz" "max_msgs m = ucast mm" for m
      unfolding h_def mq_wf_def using mq_init_lists [of "m\<lparr>mq_data := slot_bytes msz p\<rparr>"] sl that by auto
    then have "mq_wf (msgqueues ?k i)" by simp
    then have "mq_ok i ?k" using c on_heap_ok [of RT_Object_Class_MessageQueue flag i name k]
      by (simp add: mq_ok_def can_create_def)
    then have "object_ok i ((upd_mq i (h p) \<circ> ?g) (on_heap i RT_Object_Class_MessageQueue name flag k))"
      by (intro object_okI(5)) simp
    from calm_create [where f = "upd_mq i (h p) \<circ> ?g", OF inv this]
    have "calm k ((upd_mq i (h p) \<circ> ?g) (on_heap i RT_Object_Class_MessageQueue name flag k))" by (simp add: upd_mq_def)
    then show ?thesis using e Some by auto
  qed
qed (use inv calm_refl [OF inv] no_interrupt [OF inv] allocate_eq(1) [OF inv] in \<open>simp add: rt_mq_create_def\<close>)

end
