(* ===== verification/RT_Threadlife.thy ===== *)
theory RT_Threadlife
  imports RT_Lifecycle
begin

text \<open>
  Threads that come and go while the system runs: initialising and starting a thread, its
  exit, detaching and deleting it, and the reaping of deleted threads by the idle thread keep
  the invariant of the whole system, provided the thread that ends owns no mutex.
\<close>

section \<open>Steps that change which threads exist\<close>

definition owns_mutex :: "kernel \<Rightarrow> tid \<Rightarrow> bool" where
  "owns_mutex k s \<longleftrightarrow> (\<exists>i. has_type i RT_Object_Class_Mutex k \<and> owner (mutexes k i) = Some s)"

text \<open>As \<open>object_ok_kept\<close>, when only the owners of mutexes have to live on.\<close>

lemma object_ok_owner:
  assumes ok: "object_ok j k" and obj: "objs k' (OIpc j) = objs k (OIpc j)"
    and live: "\<And>s. owns_mutex k s \<Longrightarrow> live k s \<Longrightarrow> live k' s"
    and tab: "sems k' j = sems k j" "mutexes k' j = mutexes k j" "events k' j = events k j"
      "mailboxes k' j = mailboxes k j" "msgqueues k' j = msgqueues k j"
    and q: "set (queues k' (SuspendQ j)) \<subseteq> set (queues k (SuspendQ j))"
    and ev: "\<And>s. s \<in> set (queues k (SuspendQ j)) \<Longrightarrow>
      event_set (threads k' s) = event_set (threads k s) \<and> event_info (threads k' s) = event_info (threads k s)"
  shows "object_ok j k'"
proof -
  have ty: "rt_object_get_type (OIpc j) k' = rt_object_get_type (OIpc j) k" "ipc_object_ok c j k' = ipc_object_ok c j k" for c
    using obj by (simp_all add: rt_object_get_type_def ipc_object_ok_def ipc_flag_def)
  have ne: "queues k (SuspendQ j) = [] \<Longrightarrow> queues k' (SuspendQ j) = []" using q by simp
  have "sem_ok j k \<Longrightarrow> sem_ok j k'" using ne by (auto simp: sem_ok_def ty tab)
  moreover have "mutex_ok j k \<Longrightarrow> mutex_ok j k'"
  proof -
    assume m: "mutex_ok j k"
    then have own: "owns_mutex k s" if "held_by s (mutexes k j)" for s
      using that by (auto simp: owns_mutex_def mutex_ok_def ipc_object_ok_def held_by_def)
    show "mutex_ok j k'" using m ne q live own by (auto simp: mutex_ok_def ty tab)
  qed
  moreover have "event_ok j k \<Longrightarrow> event_ok j k'" using q ev by (auto simp: event_ok_def ty tab)
  moreover have "mb_ok j k \<Longrightarrow> mb_ok j k'" "mq_ok j k \<Longrightarrow> mq_ok j k'" by (simp_all add: mb_ok_def mq_ok_def ty tab)
  ultimately show ?thesis using ok by (simp add: object_ok_def ty(1) Let_def)
qed

lemma calm_threads:
  assumes inv: "sys_inv k" and k': "kinv {} k'" "timing {} k k'" "current_thread k' \<noteq> None"
      "interrupt_nest k' = interrupt_nest k"
    and same: "\<And>j. objs k' (OIpc j) = objs k (OIpc j)" "sems k' = sems k" "mutexes k' = mutexes k" "events k' = events k"
      "mailboxes k' = mailboxes k" "msgqueues k' = msgqueues k"
    and q: "\<And>j. set (queues k' (SuspendQ j)) \<subseteq> set (queues k (SuspendQ j))"
    and ev: "\<And>s j. s \<in> set (queues k (SuspendQ j)) \<Longrightarrow>
      event_set (threads k' s) = event_set (threads k s) \<and> event_info (threads k' s) = event_info (threads k s)"
    and live: "\<And>s. owns_mutex k s \<Longrightarrow> live k s \<Longrightarrow> live k' s"
  shows "calm k k'"
proof -
  have "object_ok j k'" for j
    by (rule object_ok_owner [OF sys_invD(5) [OF inv] same(1) live]) (use same q ev in simp_all)
  then show ?thesis
    using k' sys_invD [OF inv] by (simp add: calm_def sys_inv_def timing_def)
qed

section \<open>The end of a thread\<close>

text \<open>The timer after \<open>rt_timer_detach\<close>.\<close>

definition halted :: "timer_ref \<Rightarrow> kernel \<Rightarrow> kernel" where
  "halted r k = rt_object_detach (OTimer r) (deactivate r (timer_remove r k))"

lemma live_timer_obj [simp]: "live (upd_obj (OTimer r) g k) = live k" "sched_inv X (upd_obj (OTimer r) g k) = sched_inv X k"
  using live_upd_obj [of "OTimer r" g k] sched_inv_upd_obj [of "OTimer r" g k X] by blast+

lemma halted_fields [simp]:
  "threads (halted r k) = threads k" "queues (halted r k) = queues k" "ready_group (halted r k) = ready_group k"
  "current_thread (halted r k) = current_thread k" "timers (halted r k) = timers k"
  "sched_lock_nest (halted r k) = sched_lock_nest k" "interrupt_nest (halted r k) = interrupt_nest k"
  "tick (halted r k) = tick k" "timer_thread (halted r k) = timer_thread k" "sems (halted r k) = sems k"
  "mutexes (halted r k) = mutexes k" "events (halted r k) = events k" "mailboxes (halted r k) = mailboxes k"
  "msgqueues (halted r k) = msgqueues k" "tlists (halted r k) = q_remove r (tlists k)"
  "objs (halted r k) (OIpc i) = objs k (OIpc i)" "objs (halted r k) (OThread t) = objs k (OThread t)"
  "q \<noteq> r \<Longrightarrow> objs (halted r k) (OTimer q) = objs k (OTimer q)" "live (halted r k) = live k"
  "sched_inv X (halted r k) = sched_inv X k"
  by (simp_all add: halted_def rt_object_detach_def Let_def) (simp_all add: deactivate_def set_tflag_def timer_remove_def)

lemma timer_ok_halted: "timer_ok (halted r k) q \<longleftrightarrow> q \<noteq> r \<and> timer_ok k q"
  by (cases "q = r") (simp_all add: timer_ok_def rt_object_get_type_def, simp add: halted_def rt_object_detach_def Let_def)

lemma flags_halted [simp]:
  "activated q (halted r k) \<longleftrightarrow> q \<noteq> r \<and> activated q k" "periodic q (halted r k) = periodic q k"
  "is_soft q (halted r k) = is_soft q k"
proof -
  have "tflag q (halted r k) = tflag q (deactivate r (timer_remove r k))"
    by (simp add: halted_def rt_object_detach_def Let_def tflag_def)
  then have "activated q (halted r k) = activated q (deactivate r (timer_remove r k))"
    "periodic q (halted r k) = periodic q (deactivate r (timer_remove r k))"
    "is_soft q (halted r k) = is_soft q (deactivate r (timer_remove r k))"
    by (simp_all only: activated_def periodic_def is_soft_def)
  then show "activated q (halted r k) \<longleftrightarrow> q \<noteq> r \<and> activated q k" "periodic q (halted r k) = periodic q k"
    "is_soft q (halted r k) = is_soft q k" by simp_all
qed

lemma timer_lists_halted:
  assumes "timer_lists k"
  shows "timer_lists (halted r k)"
proof -
  have "disjoint_lists (q_remove r (tlists k))" using assms by (simp add: timer_lists_def disjoint_remove)
  then show ?thesis
    using assms by (auto simp: timer_lists_def timer_ok_halted q_remove_def)
qed

lemma timing_halted:
  assumes "\<And>s. r = ThreadTimer s \<Longrightarrow> \<not> asleep k s"
  shows "timing {} k (halted r k)"
proof -
  have t: "trem (halted r k) = trem k" by (simp add: trem_def fun_eq_iff)
  have "clock_ok (halted r k)" if c: "clock_ok k"
  proof -
    have "timers_sorted (timer_remove r k) HardList" using c by (intro timers_sorted_remove) (simp add: clock_ok_def)
    moreover have "trem (timer_remove r k) = trem k" by (simp add: trem_def fun_eq_iff)
    ultimately have "timers_sorted (halted r k) HardList" using t by (simp add: timers_sorted_def timer_remove_def)
    then show ?thesis using c unfolding clock_ok_def t by (auto simp: q_remove_def)
  qed
  then show ?thesis using assms by (auto simp: timing_def asleep_def keeps_deadline_def q_remove_def)
qed

text \<open>The thread unlinked, closed and without its timer; then it is detached from the object
  system, or waits in the defunct list to be freed.\<close>

definition closed :: "tid \<Rightarrow> kernel \<Rightarrow> kernel" where
  "closed s k = halted (ThreadTimer s) (upd_thread s (\<lambda>th. th\<lparr>stat := RT_THREAD_CLOSE\<rparr>) (rt_schedule_remove_thread s k))"

definition gone :: "tid \<Rightarrow> kernel \<Rightarrow> kernel" where
  "gone s k = (if rt_object_is_systemobject (OThread s) k then rt_object_detach (OThread s) (closed s k)
     else (closed s k)\<lparr>queues := q_insert_after DefunctQ s (queues (closed s k))\<rparr>)"

text \<open>A thread that has been started and owns no mutex may end; the thread of the soft timers
  never does.\<close>

definition may_end :: "kernel \<Rightarrow> tid \<Rightarrow> bool" where
  "may_end k s \<longleftrightarrow> live k s \<and> tstate (threads k s) \<noteq> RT_THREAD_INIT \<and> s \<noteq> timer_thread k \<and> \<not> owns_mutex k s"

lemma tstate_close [simp]: "tstate (th\<lparr>stat := RT_THREAD_CLOSE\<rparr>) = RT_THREAD_CLOSE"
  by (simp add: tstate_def)

lemma closed_fields [simp]:
  "threads (closed s k) = (threads k)(s := (threads k s)\<lparr>stat := RT_THREAD_CLOSE\<rparr>)"
  "queues (closed s k) = q_remove s (queues k)" "current_thread (closed s k) = current_thread k"
  "timers (closed s k) = timers k" "tlists (closed s k) = q_remove (ThreadTimer s) (tlists k)" "tick (closed s k) = tick k"
  "interrupt_nest (closed s k) = interrupt_nest k" "timer_thread (closed s k) = timer_thread k"
  "sems (closed s k) = sems k" "mutexes (closed s k) = mutexes k" "events (closed s k) = events k"
  "mailboxes (closed s k) = mailboxes k" "msgqueues (closed s k) = msgqueues k" "live (closed s k) = live k"
  "objs (closed s k) (OIpc i) = objs k (OIpc i)" "objs (closed s k) (OThread t) = objs k (OThread t)"
  "q \<noteq> ThreadTimer s \<Longrightarrow> objs (closed s k) (OTimer q) = objs k (OTimer q)"
  by (simp_all add: closed_def)

lemma closed_sched:
  assumes inv: "sched_inv {} k" and lv: "live k s" and st: "tstate (threads k s) \<noteq> RT_THREAD_INIT"
  shows "sched_inv {} (closed s k)"
proof -
  let ?c = "\<lambda>th. th\<lparr>stat := RT_THREAD_CLOSE\<rparr>"
  let ?k = "upd_thread s ?c (rt_schedule_remove_thread s k)"
  have li: "lists_inv {} k" using inv by (simp add: sched_inv_def)
  have pr: "prio_ok (threads k s)" by (rule lists_inv_prio [OF li lv st])
  have "lists_inv {s} (rt_schedule_remove_thread s k)" using remove_thread_lists [OF li pr] by simp
  then have "lists_inv {s} ?k" using pr by (intro upd_thread_lists) (simp_all add: prio_ok_def)
  from lists_inv_settle [OF this, of s] have "lists_inv {} ?k" by simp
  moreover have "one_running {} ?k" "current_ok ?k"
    using inv lv by (auto simp: sched_inv_def one_running_def current_ok_def)
  ultimately have "sched_inv {} ?k" by (simp add: sched_inv_def)
  then show ?thesis by (simp only: closed_def halted_fields)
qed

lemma closed_thread_timer:
  assumes "t \<noteq> s"
  shows "thread_timer_ok (closed s k) t = thread_timer_ok k t"
  using assms by (simp add: thread_timer_ok_def timer_ok_def rt_object_get_type_def rt_object_is_systemobject_def
      periodic_def is_soft_def tflag_def)

lemma closed_kinv:
  assumes inv: "kinv {} k" and e: "may_end k s"
  shows "kinv {} (closed s k)"
proof -
  have lv: "live k s" "tstate (threads k s) \<noteq> RT_THREAD_INIT" "timer_thread k \<noteq> s" using e by (auto simp: may_end_def)
  let ?k = "upd_thread s (\<lambda>th. th\<lparr>stat := RT_THREAD_CLOSE\<rparr>) (rt_schedule_remove_thread s k)"
  have "timer_lists ?k" using inv timer_lists_cong [of ?k k] by (simp add: kinv_def)
  then have "timer_lists (closed s k)" unfolding closed_def by (rule timer_lists_halted)
  moreover have "thread_timers {} (closed s k)"
    using inv closed_thread_timer by (auto simp: kinv_def thread_timers_def q_remove_def)
  ultimately show ?thesis
    using closed_sched [OF kinv_parts(1) [OF inv] lv(1,2)] lv inv by (simp add: kinv_def)
qed

text \<open>A closed, unlinked thread may vanish from the object system, or be linked to the defunct
  list.\<close>

lemma detach_closed_kinv:
  assumes inv: "kinv {} k" and st: "tstate (threads k s) = RT_THREAD_CLOSE" and det: "detached (queues k) s"
    and nt: "timer_thread k \<noteq> s"
  shows "kinv {} (rt_object_detach (OThread s) k)"
proof -
  let ?k = "rt_object_detach (OThread s) k"
  have lv: "live ?k t \<longleftrightarrow> t \<noteq> s \<and> live k t" for t
    by (simp add: live_def rt_object_detach_def Let_def rt_object_get_type_def)
  have f: "threads ?k = threads k" "queues ?k = queues k" "tlists ?k = tlists k" "timers ?k = timers k"
    "current_thread ?k = current_thread k" "ready_group ?k = ready_group k" "timer_thread ?k = timer_thread k"
    "\<And>r. objs ?k (OTimer r) = objs k (OTimer r)"
    by (simp_all add: rt_object_detach_def Let_def)
  have tm: "timer_ok ?k = timer_ok k" "activated r ?k = activated r k" "is_soft r ?k = is_soft r k"
    "thread_timer_ok ?k t = thread_timer_ok k t" for r t
    by (simp_all add: timer_ok_def fun_eq_iff rt_object_get_type_def activated_def is_soft_def periodic_def tflag_def f
        thread_timer_ok_def rt_object_is_systemobject_def)
  note k = kinv_parts [OF inv]
  have li: "lists_inv {} k" using k(1) by (simp add: sched_inv_def)
  have "linked {} ?k"
    unfolding linked_def f lv
  proof (intro allI impI)
    fix h t assume t: "t \<in> set (queues k h)"
    then have "t \<noteq> s" "linked_ok h (live k t) (threads k t)"
      using det li linkedD [of "{}" k t h] by (auto simp: detached_def lists_inv_def)
    then show "t \<notin> {} \<and> linked_ok h (t \<noteq> s \<and> live k t) (threads k t)" by simp
  qed
  then have "lists_inv {} ?k"
    using li by (auto simp: lists_inv_def threads_ok_def group_ok_def ready_linked_def lv f)
  moreover have "one_running {} ?k" "current_ok ?k"
    using k(1) st by (auto simp: sched_inv_def one_running_def current_ok_def lv f)
  moreover have "timer_lists ?k" using k(2) by (simp add: timer_lists_def tm f)
  moreover have "thread_timers {} ?k" using k(3) st by (auto simp: thread_timers_def tm f lv)
  ultimately show ?thesis using k(4,5) nt by (simp add: kinv_def sched_inv_def lv f)
qed

lemma defunct_kinv:
  assumes inv: "kinv {} k" and st: "tstate (threads k s) = RT_THREAD_CLOSE" and det: "detached (queues k) s"
  shows "kinv {} (k\<lparr>queues := q_insert_after DefunctQ s (queues k)\<rparr>)"
proof (rule kinv_queues [OF inv])
  let ?k = "k\<lparr>queues := q_insert_after DefunctQ s (queues k)\<rparr>"
  note k = kinv_parts(1) [OF inv]
  have li: "lists_inv {} k" using k by (simp add: sched_inv_def)
  have Q: "q_insert_after DefunctQ s (queues k) h = (if h = DefunctQ then s # queues k h else queues k h)" for h
    by (simp add: q_insert_after_def)
  have "linked {} ?k"
    unfolding linked_def
  proof (intro allI impI)
    fix h t assume t: "t \<in> set (queues ?k h)"
    show "t \<notin> {} \<and> linked_ok h (live ?k t) (threads ?k t)"
    proof (cases "t \<in> set (queues k h)")
      case True
      then show ?thesis using li linkedD [of "{}" k t h] by (auto simp: lists_inv_def)
    next
      case False
      then have "h = DefunctQ" "t = s" using t by (auto simp: Q split: if_splits)
      then show ?thesis using st by simp
    qed
  qed
  moreover have "disjoint_lists (queues ?k)" using li det by (simp add: lists_inv_def disjoint_insert_after)
  ultimately have "lists_inv {} ?k"
    using li by (auto simp: lists_inv_def threads_ok_def group_ok_def ready_linked_def Q)
  then show "sched_inv {} ?k" using k by (auto simp: sched_inv_def one_running_def current_ok_def)
qed

lemma gone_calm:
  assumes inv: "sys_inv k" and e: "may_end k s"
  shows "calm k (gone s k)"
proof -
  note i = sys_invD [OF inv]
  have ns: "timer_thread k \<noteq> s" "\<not> owns_mutex k s" using e by (auto simp: may_end_def)
  note c = closed_kinv [OF i(1) e]
  have d: "detached (queues (closed s k)) s" "tstate (threads (closed s k) s) = RT_THREAD_CLOSE"
    by (simp_all add: detached_def q_remove_def)
  have kg: "kinv {} (gone s k)"
    unfolding gone_def using detach_closed_kinv [OF c d(2,1)] defunct_kinv [OF c d(2,1)] ns by simp
  have f: "threads (gone s k) = (threads k)(s := (threads k s)\<lparr>stat := RT_THREAD_CLOSE\<rparr>)"
    "tlists (gone s k) = q_remove (ThreadTimer s) (tlists k)" "timers (gone s k) = timers k" "tick (gone s k) = tick k"
    "current_thread (gone s k) = current_thread k" "interrupt_nest (gone s k) = interrupt_nest k"
    "sems (gone s k) = sems k" "mutexes (gone s k) = mutexes k" "events (gone s k) = events k"
    "mailboxes (gone s k) = mailboxes k" "msgqueues (gone s k) = msgqueues k"
    "objs (gone s k) (OIpc j) = objs k (OIpc j)" for j
    by (simp_all add: gone_def rt_object_detach_def Let_def)
  show ?thesis
  proof (rule calm_threads [OF inv kg])
    let ?k = "upd_thread s (\<lambda>th. th\<lparr>stat := RT_THREAD_CLOSE\<rparr>) (rt_schedule_remove_thread s k)"
    have "timing {} k ?k" by (rule timing_same) (auto simp: asleep_def split: if_splits)
    moreover have "timing {} ?k (closed s k)" unfolding closed_def by (rule timing_halted) (simp add: asleep_def)
    moreover have "timing {} (closed s k) (gone s k)"
      by (rule timing_same) (auto simp: gone_def asleep_def rt_object_detach_def Let_def split: if_splits)
    ultimately show "timing {} k (gone s k)" using timing_trans by blast
    show "set (queues (gone s k) (SuspendQ j)) \<subseteq> set (queues k (SuspendQ j))" for j
      by (auto simp: gone_def q_insert_after_def q_remove_def)
    show "live (gone s k) t" if "owns_mutex k t" "live k t" for t
    proof -
      have "t \<noteq> s" using that ns by auto
      then show ?thesis using that(2)
        by (simp add: gone_def live_def rt_object_detach_def Let_def rt_object_get_type_def)
    qed
  qed (use f i(2) in simp_all)
qed

text \<open>What the three ways to end a thread make of the state.\<close>

lemma timer_detach_eq:
  assumes "thread_timer_ok k s"
  shows "rt_timer_detach (ThreadTimer s) k = Some (RT_EOK, halted (ThreadTimer s) k)"
  using assms by (simp add: rt_timer_detach_def assert_timer_def thread_timer_ok_def timer_ok_def halted_def Let_def)

lemma halted_upd_thread:
  "upd_thread s f (halted r k) = halted r (upd_thread s f k)"
  by (simp add: halted_def rt_object_detach_def Let_def deactivate_def set_tflag_def timer_remove_def
      upd_thread_def upd_obj_def tflag_def)

lemma static_fields:
  "rt_object_is_systemobject (OThread t) (closed s k) = rt_object_is_systemobject (OThread t) k"
  "rt_object_is_systemobject r (upd_thread u f k) = rt_object_is_systemobject r k"
  "rt_object_is_systemobject r (rt_schedule_remove_thread u k) = rt_object_is_systemobject r k"
  by (simp_all add: rt_object_is_systemobject_def)

lemma calm_then_schedule:
  assumes "calm k k1"
  shows "\<exists>k'. rt_schedule k1 = Some k' \<and> calm k k'"
  using calm_schedule [OF calm_inv [OF assms]] calm_trans [OF assms] by blast

lemma exit_done:
  assumes inv: "sys_inv k" and run: "running k t" and e: "may_end k t"
  shows "\<exists>k'. rt_thread_exit id k = Some k' \<and> calm k k'"
proof -
  let ?k = "upd_thread t (\<lambda>th. th\<lparr>stat := RT_THREAD_CLOSE\<rparr>) (rt_schedule_remove_thread t k)"
  have "thread_timer_ok k t"
    using kinv_thread_timer [OF sys_invD(1) [OF inv]] run by (simp add: running_def)
  moreover have "thread_timer_ok ?k t = thread_timer_ok k t" by (rule thread_timer_ok_cong) simp_all
  ultimately have "rt_timer_detach (ThreadTimer t) ?k = Some (RT_EOK, closed t k)"
    using timer_detach_eq [of ?k t] by (simp add: closed_def)
  then have "rt_thread_exit id k = rt_schedule (gone t k)"
    using run by (simp add: rt_thread_exit_def rt_thread_self_def running_def Let_def static_fields gone_def)
  then show ?thesis using calm_then_schedule [OF gone_calm [OF inv e]] by simp
qed

lemma end_done:
  assumes inv: "sys_inv k" and e: "may_end k s"
  shows "rt_object_is_systemobject (OThread s) k \<Longrightarrow> \<exists>k'. rt_thread_detach id s k = Some (RT_EOK, k') \<and> calm k k'"
    "\<not> rt_object_is_systemobject (OThread s) k \<Longrightarrow> \<exists>k'. rt_thread_delete id s k = Some (RT_EOK, k') \<and> calm k k'"
proof -
  have lv: "live k s" "tstate (threads k s) \<noteq> RT_THREAD_INIT" using e by (simp_all add: may_end_def)
  have t: "rt_timer_detach (ThreadTimer s) (rt_schedule_remove_thread s k)
      = Some (RT_EOK, halted (ThreadTimer s) (rt_schedule_remove_thread s k))"
    if c: "tstate (threads k s) \<noteq> RT_THREAD_CLOSE"
  proof -
    have "thread_timer_ok k s" by (rule kinv_thread_timer [OF sys_invD(1) [OF inv] lv(1) c])
    moreover have "thread_timer_ok (rt_schedule_remove_thread s k) s = thread_timer_ok k s"
      by (rule thread_timer_ok_cong) simp_all
    ultimately show ?thesis using timer_detach_eq by simp
  qed
  show "\<exists>k'. rt_thread_detach id s k = Some (RT_EOK, k') \<and> calm k k'" if st: "rt_object_is_systemobject (OThread s) k"
    using t st lv calm_refl [OF inv] gone_calm [OF inv e]
    by (cases "tstate (threads k s) = RT_THREAD_CLOSE")
      (simp_all add: rt_thread_detach_def assert_live Let_def halted_upd_thread gone_def closed_def)
  show "\<exists>k'. rt_thread_delete id s k = Some (RT_EOK, k') \<and> calm k k'" if st: "\<not> rt_object_is_systemobject (OThread s) k"
    using t st lv calm_refl [OF inv] gone_calm [OF inv e]
    by (cases "tstate (threads k s) = RT_THREAD_CLOSE")
      (simp_all add: rt_thread_delete_def assert_live Let_def halted_upd_thread gone_def closed_def)
qed

lemma thread_close_done:
  assumes inv: "sys_inv k" and e: "may_end k s"
  shows "\<exists>k'. rt_thread_control id s RT_THREAD_CTRL_CLOSE k = Some (RT_EOK, k') \<and> calm k k'"
proof -
  have "live k s" using e by (simp add: may_end_def)
  obtain k1 where "(if rt_object_is_systemobject (OThread s) k then rt_thread_detach id s k else rt_thread_delete id s k)
      = Some (RT_EOK, k1)" "calm k k1"
    using end_done [OF inv e] by (cases "rt_object_is_systemobject (OThread s) k") auto
  moreover obtain k' where "rt_schedule k1 = Some k'" "calm k k'" using calm_then_schedule [OF calculation(2)] by blast
  ultimately show ?thesis using \<open>live k s\<close> by (simp add: assert_live)
qed

text \<open>The idle thread frees what is in the defunct list.\<close>

definition may_reap :: "kernel \<Rightarrow> tid \<Rightarrow> bool" where
  "may_reap k s \<longleftrightarrow> tstate (threads k s) = RT_THREAD_CLOSE \<and> \<not> rt_object_is_systemobject (OThread s) k \<and> \<not> owns_mutex k s"

lemma unlink_closed_kinv:
  assumes inv: "kinv {} k" and st: "tstate (threads k s) = RT_THREAD_CLOSE"
  shows "kinv {} (k\<lparr>queues := q_remove s (queues k)\<rparr>)"
proof (rule kinv_queues [OF inv])
  note k = kinv_parts(1) [OF inv]
  have li: "lists_inv {} k" using k by (simp add: sched_inv_def)
  have nr: "s \<notin> set (queues k (ReadyQ p))" for p
    using li st linked_readyD [of "{}" k s p] by (auto simp: lists_inv_def)
  have "linked {} (k\<lparr>queues := q_remove s (queues k)\<rparr>)" using li by (auto simp: lists_inv_def linked_def q_remove_def)
  then have "lists_inv {} (k\<lparr>queues := q_remove s (queues k)\<rparr>)"
    using li st nr by (auto simp: lists_inv_def threads_ok_def group_ok_def ready_linked_def q_remove_def
        disjoint_remove [unfolded q_remove_def])
  then show "sched_inv {} (k\<lparr>queues := q_remove s (queues k)\<rparr>)"
    using k by (auto simp: sched_inv_def one_running_def current_ok_def)
qed

lemma reap_one:
  assumes inv: "sys_inv k" and r: "may_reap k s"
  shows "calm k (rt_object_detach (OThread s) (k\<lparr>queues := q_remove s (queues k)\<rparr>))" (is "calm k ?k")
proof -
  note i = sys_invD [OF inv]
  have st: "tstate (threads k s) = RT_THREAD_CLOSE" "\<not> owns_mutex k s" using r by (simp_all add: may_reap_def)
  have nt: "timer_thread k \<noteq> s" using kinv_parts(5) [OF i(1)] st by auto
  have "kinv {} ?k"
    by (rule detach_closed_kinv [OF unlink_closed_kinv [OF i(1) st(1)]]) (use st nt in \<open>simp_all add: detached_def q_remove_def\<close>)
  then show ?thesis
  proof (rule calm_threads [OF inv])
    show "timing {} k ?k" by (rule timing_same) (simp_all add: asleep_def rt_object_detach_def Let_def)
    show "live ?k t" if "owns_mutex k t" "live k t" for t
    proof -
      have "t \<noteq> s" using that st by auto
      then show ?thesis using that(2)
        by (simp add: live_def rt_object_detach_def Let_def rt_object_get_type_def)
    qed
  qed (use i(2) in \<open>auto simp: rt_object_detach_def Let_def q_remove_def\<close>)
qed

lemma reap_calm:
  "sys_inv k \<Longrightarrow> \<forall>s \<in> set ts. may_reap k s \<Longrightarrow> \<exists>rs k'. reap ts k = Some (rs, k') \<and> calm k k'"
proof (induction ts arbitrary: k)
  case (Cons s ts)
  let ?k = "rt_object_detach (OThread s) (k\<lparr>queues := q_remove s (queues k)\<rparr>)"
  have r: "may_reap k s" using Cons(3) by simp
  note c = reap_one [OF Cons(2) r]
  have e: "rt_object_delete (OThread s) (k\<lparr>queues := q_remove s (queues k)\<rparr>) = Some (OThread s, ?k)"
    using r by (simp add: rt_object_delete_def rt_object_detach_def Let_def may_reap_def rt_object_is_systemobject_def)
  have "may_reap ?k u" if "may_reap k u" for u
    using that by (auto simp: may_reap_def rt_object_is_systemobject_def rt_object_detach_def Let_def owns_mutex_def
        rt_object_get_type_def)
  then have "\<forall>u \<in> set ts. may_reap ?k u" using Cons(3) by simp
  from Cons(1) [OF calm_inv [OF c] this] obtain rs k' where "reap ts ?k = Some (rs, k')" "calm ?k k'" by blast
  then show ?case using e calm_trans [OF c] by simp
qed (simp add: calm_refl)

lemma reap_done:
  assumes "sys_inv k" "\<forall>s \<in> set (queues k DefunctQ). may_reap k s"
  shows "\<exists>rs k'. rt_thread_idle_excute k = Some (rs, k') \<and> calm k k'"
  using reap_calm [OF assms] sys_invD(3) [OF assms(1)]
  by (simp add: rt_thread_idle_excute_def RT_DEBUG_NOT_IN_INTERRUPT_def rt_interrupt_get_nest_def)

section \<open>The start of a thread\<close>

lemma timing_awake: "timing {s} k k' \<Longrightarrow> \<not> asleep k' s \<Longrightarrow> timing {} k k'"
  unfolding timing_def by (metis empty_iff insert_iff)

lemma init_detached:
  assumes "lists_inv X k" "tstate (threads k s) = RT_THREAD_INIT"
  shows "detached (queues k) s"
proof -
  have "s \<notin> set (queues k h)" for h
    using assms by (cases h) (auto simp: lists_inv_def dest!: linkedD)
  then show ?thesis by (simp add: detached_def)
qed

lemma startup_done:
  assumes inv: "sys_inv k" and run: "running k t" and s: "live k s" "tstate (threads k s) = RT_THREAD_INIT"
    and p: "unat (init_priority (threads k s)) < RT_THREAD_PRIORITY_MAX"
  shows "\<exists>k'. rt_thread_startup s k = Some (RT_EOK, k') \<and> calm k k'"
proof -
  note i = sys_invD [OF inv]
  have nc: "current_thread k \<noteq> Some s" using run s(2) by (auto simp: running_def)
  have "lists_inv {} k" using kinv_parts(1) [OF i(1)] by (simp add: sched_inv_def)
  note det = init_detached [OF this s(2)]
  let ?f = "\<lambda>th. th\<lparr>current_priority := init_priority th,
                     number_mask := prio_mask (init_priority th), stat := RT_THREAD_SUSPEND\<rparr>"
  define k1 where "k1 = upd_thread s ?f k"
  note su = startup_ok [OF i(1) s p det nc, folded k1_def]
  have "calm k (resumed s k1)"
  proof (rule calm_threads [OF inv su(1)])
    have "timing {s} k k1" unfolding k1_def by (rule timing_same) (auto simp: asleep_def)
    then have "timing {s} k (resumed s k1)" using timing_trans timing_resumed by blast
    then show "timing {} k (resumed s k1)" by (rule timing_awake) (simp add: asleep_def)
  qed (use i(2) in \<open>auto simp: k1_def\<close>)
  moreover have "rt_thread_startup s k = map_option (Pair RT_EOK) (rt_schedule (resumed s k1))"
    using s su(2) run by (cases "rt_schedule (resumed s k1)")
      (simp_all add: rt_thread_startup_def assert_live k1_def [symmetric] rt_thread_self_def Let_def running_def,
        simp_all add: k1_def)
  ultimately show ?thesis using calm_then_schedule by fastforce
qed

text \<open>An address that holds no thread: neither it nor its timer is registered, and it does not
  wait to be freed.\<close>

definition fresh_thread :: "tid \<Rightarrow> kernel \<Rightarrow> bool" where
  "fresh_thread s k \<longleftrightarrow> \<not> live k s \<and> s \<notin> set (queues k DefunctQ) \<and> OThread s \<notin> set (container k RT_Object_Class_Thread)
     \<and> \<not> timer_ok k (ThreadTimer s) \<and> OTimer (ThreadTimer s) \<notin> set (container k RT_Object_Class_Timer)"

lemma fresh_detached:
  assumes "kinv {} k" "fresh_thread s k"
  shows "detached (queues k) s" "s \<notin> set (queues k h)" "ThreadTimer s \<notin> set (tlists k g)"
proof -
  have li: "linked {} k" using kinv_parts(1) [OF assms(1)] by (simp add: sched_inv_def lists_inv_def)
  show "s \<notin> set (queues k h)" for h
    using assms(2) linkedD [OF li, of s h] by (cases h) (auto simp: fresh_thread_def)
  then show "detached (queues k) s" by (simp add: detached_def)
  show "ThreadTimer s \<notin> set (tlists k g)"
    using kinv_parts(2) [OF assms(1)] assms(2) by (auto simp: timer_lists_def fresh_thread_def)
qed

definition born :: "tid \<Rightarrow> rt_object \<Rightarrow> rt_thread \<Rightarrow> (u8 \<Rightarrow> object_ref list) \<Rightarrow> kernel \<Rightarrow> kernel" where
  "born s ob th C k = k\<lparr>objs := (objs k)(OThread s := ob), threads := (threads k)(s := th), container := C\<rparr>"

lemma born_fields [simp]:
  "threads (born s ob th C k) = (threads k)(s := th)" "queues (born s ob th C k) = queues k"
  "current_thread (born s ob th C k) = current_thread k" "ready_group (born s ob th C k) = ready_group k"
  "timers (born s ob th C k) = timers k" "tlists (born s ob th C k) = tlists k" "tick (born s ob th C k) = tick k"
  "container (born s ob th C k) = C" "sched_lock_nest (born s ob th C k) = sched_lock_nest k"
  "interrupt_nest (born s ob th C k) = interrupt_nest k" "timer_thread (born s ob th C k) = timer_thread k"
  "sems (born s ob th C k) = sems k" "mutexes (born s ob th C k) = mutexes k" "events (born s ob th C k) = events k"
  "mailboxes (born s ob th C k) = mailboxes k" "msgqueues (born s ob th C k) = msgqueues k"
  "objs (born s ob th C k) (OIpc i) = objs k (OIpc i)" "objs (born s ob th C k) (OTimer r) = objs k (OTimer r)"
  "objs (born s ob th C k) (OThread t) = (if t = s then ob else objs k (OThread t))"
  "timer_ok (born s ob th C k) = timer_ok k"
  by (simp_all add: born_def timer_ok_def fun_eq_iff rt_object_get_type_def)

lemma live_born: "live (born s ob th C k) t \<longleftrightarrow> (if t = s then otype ob AND NOT 0x80 = 1 else live k t)"
  by (simp add: live_def rt_object_get_type_def born_def)

lemma born_sched:
  assumes inv: "kinv {} k" and fr: "fresh_thread s k" and th: "tstate th = RT_THREAD_INIT"
    and nc: "otype ob AND NOT 0x80 = 1 \<or> current_thread k \<noteq> Some s"
  shows "sched_inv {} (born s ob th C k)"
proof -
  let ?k = "born s ob th C k"
  note k = kinv_parts(1) [OF inv]
  have li: "lists_inv {} k" using k by (simp add: sched_inv_def)
  note nq = fresh_detached(2) [OF inv fr]
  have "linked {} ?k"
    unfolding linked_def
  proof (intro allI impI)
    fix h t assume "t \<in> set (queues ?k h)"
    then have "t \<noteq> s" "linked_ok h (live k t) (threads k t)"
      using nq [of h] li linkedD [of "{}" k t h] by (auto simp: lists_inv_def)
    then show "t \<notin> {} \<and> linked_ok h (live ?k t) (threads ?k t)" by (simp add: live_born)
  qed
  then have "lists_inv {} ?k"
    using li th by (auto simp: lists_inv_def threads_ok_def group_ok_def ready_linked_def live_born)
  moreover have "one_running {} ?k" "current_ok ?k"
    using k th nc by (auto simp: sched_inv_def one_running_def current_ok_def live_born)
  ultimately show ?thesis by (simp add: sched_inv_def)
qed

text \<open>A timer that has just been registered and set up, and is in no list.\<close>

definition timer_born :: "timer_ref \<Rightarrow> rt_object \<Rightarrow> rt_timer \<Rightarrow> (u8 \<Rightarrow> object_ref list) \<Rightarrow> kernel \<Rightarrow> kernel" where
  "timer_born r ob tm C k = k\<lparr>objs := (objs k)(OTimer r := ob), timers := (timers k)(r := tm), container := C\<rparr>"

definition idle_timer_object :: "rt_object \<Rightarrow> bool" where
  "idle_timer_object ob \<longleftrightarrow> otype ob AND NOT 0x80 = RT_Object_Class_Timer \<and> oflag ob AND RT_TIMER_FLAG_ACTIVATED = 0"

lemma timer_born_fields [simp]:
  "threads (timer_born r ob tm C k) = threads k" "queues (timer_born r ob tm C k) = queues k"
  "current_thread (timer_born r ob tm C k) = current_thread k" "tlists (timer_born r ob tm C k) = tlists k"
  "tick (timer_born r ob tm C k) = tick k" "interrupt_nest (timer_born r ob tm C k) = interrupt_nest k"
  "timer_thread (timer_born r ob tm C k) = timer_thread k" "sems (timer_born r ob tm C k) = sems k"
  "mutexes (timer_born r ob tm C k) = mutexes k" "events (timer_born r ob tm C k) = events k"
  "mailboxes (timer_born r ob tm C k) = mailboxes k" "msgqueues (timer_born r ob tm C k) = msgqueues k"
  "objs (timer_born r ob tm C k) (OIpc i) = objs k (OIpc i)" "objs (timer_born r ob tm C k) (OThread t) = objs k (OThread t)"
  "objs (timer_born r ob tm C k) (OTimer q) = (if q = r then ob else objs k (OTimer q))"
  "timers (timer_born r ob tm C k) = (timers k)(r := tm)" "live (timer_born r ob tm C k) = live k"
  "sched_inv X (timer_born r ob tm C k) = sched_inv X k"
proof -
  have "timer_born r ob tm C k = (upd_timer r (\<lambda>_. tm) (upd_obj (OTimer r) (\<lambda>_. ob) k))\<lparr>container := C\<rparr>"
    by (simp add: timer_born_def upd_timer_def upd_obj_def)
  then show "live (timer_born r ob tm C k) = live k" "sched_inv X (timer_born r ob tm C k) = sched_inv X k" by simp_all
qed (simp_all add: timer_born_def)

lemma timer_born_own:
  assumes "idle_timer_object ob"
  shows "timer_ok (timer_born r ob tm C k) r" "\<not> activated r (timer_born r ob tm C k)"
  using assms by (simp_all add: idle_timer_object_def timer_ok_def rt_object_get_type_def activated_def tflag_def)

lemma timer_born_other:
  assumes "q \<noteq> r"
  shows "timer_ok (timer_born r ob tm C k) q = timer_ok k q" "activated q (timer_born r ob tm C k) = activated q k"
    "is_soft q (timer_born r ob tm C k) = is_soft q k" "periodic q (timer_born r ob tm C k) = periodic q k"
    "q = ThreadTimer t \<Longrightarrow> thread_timer_ok (timer_born r ob tm C k) t = thread_timer_ok k t"
  using assms by (simp_all add: timer_ok_def rt_object_get_type_def activated_def is_soft_def periodic_def tflag_def
      thread_timer_ok_def rt_object_is_systemobject_def)

lemma timer_born_kinv:
  assumes s: "sched_inv {} k" and tl: "timer_lists k" and nt: "\<And>h. r \<notin> set (tlists k h)" and ob: "idle_timer_object ob"
    and tt: "\<And>t. live k t \<Longrightarrow> tstate (threads k t) \<noteq> RT_THREAD_CLOSE \<Longrightarrow> thread_timer_ok (timer_born r ob tm C k) t"
    and run: "\<And>t. ThreadTimer t \<in> set (tlists k HardList) \<Longrightarrow> live k t \<and> tstate (threads k t) = RT_THREAD_SUSPEND"
    and serve: "live k (timer_thread k)" "tstate (threads k (timer_thread k)) \<noteq> RT_THREAD_CLOSE"
  shows "kinv {} (timer_born r ob tm C k)"
proof -
  let ?k = "timer_born r ob tm C k"
  have "timer_lists ?k"
    unfolding timer_lists_def
  proof (intro conjI allI impI)
    show "disjoint_lists (tlists ?k)" using tl by (simp add: timer_lists_def)
    show "timer_ok ?k q" if "q \<in> set (tlists ?k h)" for h q
      using that nt [of h] tl timer_born_other(1) [of q r ob tm C k] by (auto simp: timer_lists_def)
    show "activated q ?k" "\<not> is_soft q ?k" if "q \<in> set (tlists ?k HardList)" for q
      using that nt [of HardList] tl timer_born_other(2,3) [of q r ob tm C k] by (auto simp: timer_lists_def)
    show "activated q ?k" "is_soft q ?k" if "q \<in> set (tlists ?k SoftList)" for q
      using that nt [of SoftList] tl timer_born_other(2,3) [of q r ob tm C k] by (auto simp: timer_lists_def)
    show "\<exists>h. q \<in> set (tlists ?k h)" if "timer_ok ?k q" "activated q ?k" for q
    proof -
      have "q \<noteq> r" using that(2) timer_born_own(2) [OF ob] by blast
      then show ?thesis using that tl timer_born_other(1,2) [of q r ob tm C k] by (simp add: timer_lists_def)
    qed
  qed
  moreover have "thread_timers {} ?k" unfolding thread_timers_def using tt run by simp
  ultimately show ?thesis using s serve by (simp add: kinv_def)
qed

lemma timing_timer_born:
  assumes nt: "\<And>h. r \<notin> set (tlists k h)"
  shows "timing {} k (timer_born r ob tm C k)"
proof -
  let ?k = "timer_born r ob tm C k"
  have o: "q \<in> set (tlists k HardList) \<Longrightarrow> q \<noteq> r" for q using nt by auto
  then have t: "q \<in> set (tlists k HardList) \<Longrightarrow> trem ?k q = trem k q" for q by (auto simp: trem_def)
  have "timers_sorted ?k HardList" if "timers_sorted k HardList"
  proof -
    have m: "map (trem ?k) (tlists k HardList) = map (trem k) (tlists k HardList)" by (rule list.map_cong0) (rule t)
    have "tlists ?k HardList = tlists k HardList" by simp
    then show ?thesis using that m t unfolding timers_sorted_def by (metis (no_types, lifting))
  qed
  moreover have "0 \<le> trem ?k q \<and> (\<forall>t. timeout_func (timers ?k q) = Rt_thread_timeout t \<longrightarrow> q = ThreadTimer t)
      \<and> (periodic q ?k \<longrightarrow> 0 < tm_init_tick (timers ?k q) \<and> tm_init_tick (timers ?k q) < RT_TICK_MAX div 2)"
    if q: "q \<in> set (tlists ?k HardList)" and c: "clock_ok k" for q
  proof -
    have m: "q \<in> set (tlists k HardList)" using q by simp
    have "timers ?k q = timers k q" "periodic q ?k = periodic q k"
      using o [OF m] timer_born_other(4) [OF o [OF m]] by simp_all
    moreover have "0 \<le> trem k q \<and> (\<forall>t. timeout_func (timers k q) = Rt_thread_timeout t \<longrightarrow> q = ThreadTimer t)
      \<and> (periodic q k \<longrightarrow> 0 < tm_init_tick (timers k q) \<and> tm_init_tick (timers k q) < RT_TICK_MAX div 2)"
      using c m unfolding clock_ok_def by blast
    ultimately show ?thesis using t [OF m] by (simp only:) blast
  qed
  ultimately have "clock_ok ?k" if "clock_ok k"
    using that unfolding clock_ok_def by (simp only: timer_born_fields) blast
  moreover have "keeps_deadline k ?k u" if "ThreadTimer u \<in> set (tlists k HardList)" for u
    using that o [OF that] by (simp add: keeps_deadline_def)
  ultimately show ?thesis by (simp add: timing_def asleep_def)
qed

text \<open>What \<open>rt_timer_init\<close> leaves, after the critical section of \<open>rt_object_init\<close>.\<close>

definition timer_header :: "string \<Rightarrow> u8 \<Rightarrow> rt_object" where
  "timer_header name flag = \<lparr>oname = take RT_NAME_MAX name, otype = 0x8A, oflag = flag AND NOT RT_TIMER_FLAG_ACTIVATED\<rparr>"

lemma flag_idle: "(flag AND NOT 1) AND 1 = (0 :: u8)"
  by (rule bit_eqI) (simp only: bit_simps bit_0_eq bot_apply, auto)

lemma timer_header_idle: "idle_timer_object (timer_header name flag)"
  using flag_idle [of flag] by (simp add: idle_timer_object_def timer_header_def)

lemma header_eq: "ob\<lparr>otype := a, oname := b, oflag := c\<rparr> = \<lparr>oname = b, otype = a, oflag = c\<rparr>"
  by (cases ob) simp

lemma rt_timer_init_eq:
  assumes "OTimer r \<notin> set (container k RT_Object_Class_Timer)" "rt_exit_critical (rt_enter_critical k) = Some k'"
  shows "rt_timer_init r name fn v flag k = Some (timer_born r (timer_header name flag)
     \<lparr>timeout_func = fn, tm_init_tick = v, timeout_tick = 0\<rparr>
     (q_insert_after RT_Object_Class_Timer (OTimer r) (container k')) k')"
  using assms by (simp add: rt_timer_init_def rt_object_init_def rt_object_get_information_def Let_def timer_setup_def
      timer_born_def timer_header_def deactivate_def set_tflag_def tflag_def upd_obj_def upd_timer_def header_eq)

text \<open>The critical section that \<open>rt_object_init\<close> passes through.\<close>

lemma calm_critical:
  assumes inv: "sys_inv k" and lk: "lock_ok k"
  shows "\<exists>k'. rt_exit_critical (rt_enter_critical k) = Some k' \<and> calm k k' \<and> sched_frame k k'"
proof -
  have "rt_exit_critical (rt_enter_critical k) =
      (if sched_lock_nest k = 0 \<and> current_thread k \<noteq> None then rt_schedule k else Some k)"
    using lk by (intro exit_enter_critical) (simp_all add: lock_ok_def)
  then show ?thesis
    using calm_schedule [OF inv] calm_refl [OF inv] sched_frame_refl [of k] by (metis (full_types))
qed

text \<open>\<open>_rt_thread_init\<close> on an object that has just been registered as a thread.\<close>

lemma setup_done:
  assumes inv: "sys_inv k" and fr: "fresh_thread s k" and lk: "lock_ok k"
    and ob: "otype ob AND NOT 0x80 = RT_Object_Class_Thread" and C: "C RT_Object_Class_Timer = container k RT_Object_Class_Timer"
    and p: "unat p < RT_THREAD_PRIORITY_MAX"
  shows "\<exists>k'. thread_setup s p v (born s ob th C k) = Some k' \<and> calm k k'"
proof -
  note i = sys_invD [OF inv]
  let ?tr = "ThreadTimer s"
  define th' where "th' = th\<lparr>init_priority := p, current_priority := p, number_mask := 0, init_tick := v,
      remaining_tick := v, error := RT_EOK, stat := RT_THREAD_INIT\<rparr>"
  let ?k2 = "born s ob th' C k"
  have u: "upd_thread s (\<lambda>th. th\<lparr>init_priority := p, current_priority := p, number_mask := 0, init_tick := v,
      remaining_tick := v, error := RT_EOK, stat := RT_THREAD_INIT\<rparr>) (born s ob th C k) = ?k2"
    by (simp add: upd_thread_def born_def th'_def)
  have st: "tstate th' = RT_THREAD_INIT" by (simp add: th'_def tstate_def)
  have s2: "sched_inv {} ?k2" by (rule born_sched [OF i(1) fr st]) (use ob in simp)
  have lk2: "lock_ok ?k2" using lk by (simp add: lock_ok_def)
  have c2: "current_thread ?k2 \<noteq> None" using i(2) by simp
  obtain k3 where k3: "rt_exit_critical (rt_enter_critical ?k2) = Some k3" "sched_inv {} k3" "sched_frame ?k2 k3"
    using critical_section [OF s2 lk2] by blast
  have c3: "current_thread k3 \<noteq> None"
    using k3(1) exit_enter_critical [of ?k2] lk2 rt_schedule_current [of ?k2 k3] c2 by (auto simp: lock_ok_def split: if_splits)
  note f3 = sched_frame_fields [OF k3(3)]
  define nm where "nm = oname ob"
  let ?ob = "timer_header nm 0" and ?tm = "\<lparr>timeout_func = Rt_thread_timeout s, tm_init_tick = 0, timeout_tick = 0\<rparr>"
    and ?D = "q_insert_after RT_Object_Class_Timer (OTimer ?tr) (container k3)"
  let ?k' = "timer_born ?tr ?ob ?tm ?D k3"
  have nt: "ThreadTimer s \<notin> set (tlists k h)" for h by (rule fresh_detached(3) [OF i(1) fr])
  have "thread_setup s p v (born s ob th C k) = Some ?k'"
  proof -
    have "OTimer ?tr \<notin> set (container ?k2 RT_Object_Class_Timer)" using fr C by (simp add: fresh_thread_def)
    from rt_timer_init_eq [OF this k3(1)] have "rt_timer_init ?tr nm (Rt_thread_timeout s) 0 0 ?k2 = Some ?k'" .
    then show ?thesis using p by (simp add: thread_setup_def Let_def u nm_def)
  qed
  moreover have "calm k ?k'"
  proof (rule calm_threads [OF inv])
    have lv: "live k3 t \<longleftrightarrow> t = s \<or> live k t" for t
      using sched_frame_live [OF k3(3)] ob by (auto simp: live_born)
    have ts: "tstate (threads k3 t) = c \<longleftrightarrow> tstate (threads ?k2 t) = c" if "c \<noteq> 1" "c \<noteq> 3" for t c
      using sched_frame_tstate [OF k3(3)] that by simp
    have tt: "thread_timer_ok k3 t = thread_timer_ok k t" if "t \<noteq> s" for t
      using sched_frame_timer(5) [OF k3(3), of t]
      by (simp add: thread_timer_ok_def rt_object_is_systemobject_def periodic_def is_soft_def tflag_def)
    note kp = kinv_parts [OF i(1)]
    show "kinv {} ?k'"
    proof (rule timer_born_kinv [OF k3(2) _ _ timer_header_idle])
      have "timer_lists ?k2"
        using kp(2) by (simp add: timer_lists_def activated_def is_soft_def tflag_def)
      then show "timer_lists k3" using timer_lists_cong [of k3 ?k2] f3 by simp
      show "?tr \<notin> set (tlists k3 h)" for h using nt f3 by simp
      show "thread_timer_ok ?k' t" if "live k3 t" "tstate (threads k3 t) \<noteq> RT_THREAD_CLOSE" for t
      proof (cases "t = s")
        case True
        then show ?thesis
          by (simp add: thread_timer_ok_def timer_ok_def rt_object_get_type_def rt_object_is_systemobject_def periodic_def
              is_soft_def tflag_def timer_header_def)
      next
        case False
        then have "thread_timer_ok k3 t" using that lv ts [of 4 t] tt kp(3) by (simp add: thread_timers_def)
        then show ?thesis using timer_born_other(5) [of "ThreadTimer t" ?tr t ?ob ?tm ?D k3] False by simp
      qed
      show "live k3 t \<and> tstate (threads k3 t) = RT_THREAD_SUSPEND" if "ThreadTimer t \<in> set (tlists k3 HardList)" for t
      proof -
        have m: "ThreadTimer t \<in> set (tlists k HardList)" using that f3 by simp
        then have "t \<noteq> s" using nt by auto
        then show ?thesis using m lv ts [of 2 t] kp(3) by (simp add: thread_timers_def)
      qed
      have "timer_thread k \<noteq> s" using fr kp(4) by (auto simp: fresh_thread_def)
      then show "live k3 (timer_thread k3)" "tstate (threads k3 (timer_thread k3)) \<noteq> RT_THREAD_CLOSE"
        using lv ts [of 4 "timer_thread k"] kp(4,5) f3 by simp_all
    qed
    have "timing {} k ?k2" by (rule timing_same) (use st in \<open>auto simp: asleep_def split: if_splits\<close>)
    moreover have "timing {} k3 ?k'" by (rule timing_timer_born) (use nt f3 in simp)
    ultimately show "timing {} k ?k'" using timing_trans timing_sched [OF k3(3)] by blast
    show "live ?k' t" if "live k t" for t using that lv by simp
    show "event_set (threads ?k' t) = event_set (threads k t) \<and> event_info (threads ?k' t) = event_info (threads k t)"
      if "t \<in> set (queues k (SuspendQ j))" for t j
    proof -
      have "t \<noteq> s" using that fresh_detached(2) [OF i(1) fr] by auto
      then show ?thesis using sched_frame_thread [OF k3(3), of t] by simp
    qed
  qed (use f3 c3 in simp_all)
  ultimately show ?thesis by blast
qed

lemma thread_init_done:
  assumes inv: "sys_inv k" and fr: "fresh_thread s k" and lk: "lock_ok k" and p: "unat p < RT_THREAD_PRIORITY_MAX"
  shows "\<exists>k'. rt_thread_init s name p v k = Some (RT_EOK, k') \<and> calm k k'"
proof -
  obtain k0 where k0: "rt_exit_critical (rt_enter_critical k) = Some k0" "calm k k0" "sched_frame k k0"
    using calm_critical [OF inv lk] by blast
  note f = sched_frame_fields [OF k0(3)]
  have fr0: "fresh_thread s k0"
    using fr f sched_frame_live [OF k0(3)] sched_frame_timer(1) [OF k0(3)] by (simp add: fresh_thread_def)
  have lk0: "lock_ok k0" using lk f by (simp add: lock_ok_def)
  let ?ob = "(objs k0 (OThread s))\<lparr>otype := RT_Object_Class_Thread OR RT_Object_Class_Static, oname := take RT_NAME_MAX name\<rparr>"
  let ?C = "q_insert_after RT_Object_Class_Thread (OThread s) (container k0)"
  let ?k1 = "born s ?ob (threads k0 s) ?C k0"
  have "OThread s \<notin> set (container k RT_Object_Class_Thread)" using fr by (simp add: fresh_thread_def)
  then have e: "rt_object_init (OThread s) RT_Object_Class_Thread name k = Some ?k1"
    using k0(1) by (simp add: rt_object_init_def rt_object_get_information_def Let_def born_def upd_obj_def)
  have "?C RT_Object_Class_Timer = container k0 RT_Object_Class_Timer" by (simp add: q_insert_after_def)
  from setup_done [where ob = ?ob and C = ?C and v = v and th = "threads k0 s", OF calm_inv [OF k0(2)] fr0 lk0 _ this p]
  show ?thesis using e calm_trans [OF k0(2)] by (auto simp: rt_thread_init_def)
qed

text \<open>Creating a thread on the heap: there may be no memory for it, or none for its stack.\<close>

lemma zero_thread: "tstate \<lparr>error = 0, stat = 0, current_priority = 0, init_priority = 0, number_mask = 0,
        event_set = 0, event_info = 0, init_tick = 0, remaining_tick = 0\<rparr> = RT_THREAD_INIT"
  by (simp add: tstate_def)

lemma dead_born_calm:
  assumes inv: "sys_inv k" and fr: "fresh_thread s k" and th: "tstate th = RT_THREAD_INIT"
    and ob: "otype ob = 0" and nc: "current_thread k \<noteq> Some s"
  shows "calm k (born s ob th C k)"
proof (rule calm_threads [OF inv])
  let ?k = "born s ob th C k"
  note i = sys_invD [OF inv]
  note kp = kinv_parts [OF i(1)]
  have lv: "live ?k t \<longleftrightarrow> live k t" for t using fr ob by (auto simp: live_born fresh_thread_def)
  have nl: "\<not> live k s" using fr by (simp add: fresh_thread_def)
  have tt: "thread_timer_ok ?k t = thread_timer_ok k t" for t
    by (simp add: thread_timer_ok_def rt_object_is_systemobject_def periodic_def is_soft_def tflag_def)
  have "timer_lists ?k" using kp(2) by (simp add: timer_lists_def activated_def is_soft_def tflag_def)
  moreover have "sched_inv {} ?k" by (rule born_sched [OF i(1) fr th]) (use nc in simp)
  moreover have "thread_timers {} ?k" using kp(3) nl unfolding thread_timers_def tt lv by auto
  ultimately show "kinv {} ?k" using kp(4,5) nl lv by (auto simp: kinv_def)
  show "timing {} k ?k" by (rule timing_same) (use th in \<open>auto simp: asleep_def split: if_splits\<close>)
  show "event_set (threads ?k t) = event_set (threads k t) \<and> event_info (threads ?k t) = event_info (threads k t)"
    if "t \<in> set (queues k (SuspendQ j))" for t j
    using that fresh_detached(2) [OF i(1) fr] by auto
  show "live ?k t" if "live k t" for t using that lv by simp
qed (use sys_invD(2) [OF inv] in simp_all)

lemma thread_create_done:
  assumes inv: "sys_inv k" and fr: "\<And>s. mem = Some s \<Longrightarrow> fresh_thread s k" and lk: "lock_ok k"
    and p: "unat p < RT_THREAD_PRIORITY_MAX" and run: "running k t"
  shows "\<exists>r k'. rt_thread_create mem stack_ok name p v k = Some (r, k') \<and> calm k k'"
proof (cases mem)
  case None
  then show ?thesis
    using calm_refl [OF inv] sys_invD(3) [OF inv]
    by (simp add: rt_thread_create_def rt_object_allocate_def rt_object_get_information_def RT_DEBUG_NOT_IN_INTERRUPT_def
        rt_interrupt_get_nest_def)
next
  case (Some s)
  note f = fr [OF Some]
  let ?th = "\<lparr>error = 0, stat = 0, current_priority = 0, init_priority = 0, number_mask = 0,
        event_set = 0, event_info = 0, init_tick = 0, remaining_tick = 0\<rparr> :: rt_thread"
  let ?ob = "\<lparr>oname = take RT_NAME_MAX name, otype = RT_Object_Class_Thread, oflag = 0\<rparr>"
  let ?C = "q_insert_after RT_Object_Class_Thread (OThread s) (container k)"
  have e: "rt_object_allocate (map_option OThread mem) RT_Object_Class_Thread name k
      = Some (Some (OThread s), born s ?ob ?th ?C k)"
    using Some sys_invD(3) [OF inv]
    by (simp add: rt_object_allocate_def rt_object_get_information_def RT_DEBUG_NOT_IN_INTERRUPT_def
        rt_interrupt_get_nest_def born_def upd_obj_def upd_thread_def)
  show ?thesis
  proof (cases stack_ok)
    case True
    have "?C RT_Object_Class_Timer = container k RT_Object_Class_Timer" by (simp add: q_insert_after_def)
    from setup_done [where ob = ?ob and C = ?C and v = v and th = ?th, OF inv f lk _ this p] show ?thesis
      using e Some True by (auto simp: rt_thread_create_def)
  next
    case False
    have "current_thread k \<noteq> Some s" using run f by (auto simp: running_def fresh_thread_def)
    note d = dead_born_calm [OF inv f zero_thread _ this]
    have "rt_object_delete (OThread s) (born s ?ob ?th ?C k)
        = Some (OThread s, born s (?ob\<lparr>otype := 0\<rparr>) ?th (q_remove (OThread s) ?C) k)"
      by (simp add: rt_object_delete_def rt_object_is_systemobject_def Let_def born_def upd_obj_def)
    then show ?thesis using e Some False d by (simp add: rt_thread_create_def)
  qed
qed

section \<open>Timers of the application\<close>

text \<open>A timer of its own, with a function of the application; if it is periodic its period can
  be queued.\<close>

definition user_timer :: "kernel \<Rightarrow> nat \<Rightarrow> bool" where
  "user_timer k n \<longleftrightarrow> timer_ok k (UserTimer n) \<and> (\<exists>f. timeout_func (timers k (UserTimer n)) = User_timeout f)"

definition timer_startable :: "kernel \<Rightarrow> nat \<Rightarrow> bool" where
  "timer_startable k n \<longleftrightarrow> user_timer k n \<and> tm_init_tick (timers k (UserTimer n)) < RT_TICK_MAX div 2
     \<and> (periodic (UserTimer n) k \<longrightarrow> 0 < tm_init_tick (timers k (UserTimer n)))"

lemma timing_enqueued:
  assumes st: "timer_startable k n"
  shows "timing {} k (enqueued (UserTimer n) k)"
proof -
  let ?r = "UserTimer n" and ?k = "enqueued (UserTimer n) k"
  have v: "tm_init_tick (timers k ?r) < 0x7fffffff" using st by (simp add: timer_startable_def)
  obtain f where f: "timeout_func (timers k ?r) = User_timeout f"
    using st by (auto simp: timer_startable_def user_timer_def)
  have tr: "trem ?k q = (if q = ?r then uint (tm_init_tick (timers k ?r)) else trem k q)" for q
    using sint_small [OF v] by (simp add: enqueued_trem)
  have tl: "set (tlists ?k HardList) \<subseteq> insert ?r (set (tlists k HardList))"
    "set (tlists k HardList) - {?r} \<subseteq> set (tlists ?k HardList)"
    "tlists k HardLocal = [] \<Longrightarrow> tlists ?k HardLocal = []"
    by (auto simp: enqueued_tlists q_remove_def)
  have other: "q \<noteq> ?r \<Longrightarrow> timers ?k q = timers k q" for q by simp
  have "clock_ok ?k" if c: "clock_ok k"
    unfolding clock_ok_def
  proof (intro conjI ballI)
    show "tlists ?k HardLocal = []" using c tl(3) by (simp add: clock_ok_def)
    show "timers_sorted ?k HardList" using c v by (intro timers_sorted_enqueued) (simp_all add: clock_ok_def)
    fix q assume q: "q \<in> set (tlists ?k HardList)"
    have "0 \<le> trem ?k q \<and> (\<forall>t. timeout_func (timers ?k q) = Rt_thread_timeout t \<longrightarrow> q = ThreadTimer t)
        \<and> (periodic q ?k \<longrightarrow> 0 < tm_init_tick (timers ?k q) \<and> tm_init_tick (timers ?k q) < RT_TICK_MAX div 2)"
    proof (cases "q = ?r")
      case True
      then show ?thesis using st f tr by (simp add: timer_startable_def)
    next
      case False
      then have "q \<in> set (tlists k HardList)" using q tl(1) by auto
      then show ?thesis using c tr [of q] False unfolding clock_ok_def by simp
    qed
    then show "0 \<le> trem ?k q" "\<forall>t. timeout_func (timers ?k q) = Rt_thread_timeout t \<longrightarrow> q = ThreadTimer t"
      "periodic q ?k \<longrightarrow> 0 < tm_init_tick (timers ?k q) \<and> tm_init_tick (timers ?k q) < RT_TICK_MAX div 2"
      by blast+
  qed
  moreover have "keeps_deadline k ?k s" if "ThreadTimer s \<in> set (tlists k HardList)" for s
    using that tl(2) by (auto simp: keeps_deadline_def)
  ultimately show ?thesis by (simp add: timing_def asleep_def)
qed

lemma calm_timers:
  assumes inv: "sys_inv k" and k': "kinv {} k'" "timing {} k k'"
    and same: "threads k' = threads k" "queues k' = queues k" "current_thread k' = current_thread k"
      "interrupt_nest k' = interrupt_nest k" "live k' = live k" "\<And>j. objs k' (OIpc j) = objs k (OIpc j)"
      "sems k' = sems k" "mutexes k' = mutexes k" "events k' = events k" "mailboxes k' = mailboxes k"
      "msgqueues k' = msgqueues k"
  shows "calm k k'"
  by (rule calm_threads [OF inv k']) (use same sys_invD(2) [OF inv] in simp_all)

lemma timer_start_done:
  assumes inv: "sys_inv k" and st: "timer_startable k n"
  shows "\<exists>k'. rt_timer_start (UserTimer n) k = Some (RT_EOK, k') \<and> calm k k'"
proof -
  let ?r = "UserTimer n" and ?k = "enqueued (UserTimer n) k" and ?tt = "timer_thread k"
  have ok: "timer_ok k ?r" "tm_init_tick (timers k ?r) < 0x7fffffff"
    using st by (simp_all add: timer_startable_def user_timer_def)
  have c: "calm k ?k"
    by (rule calm_timers [OF inv enqueued_kinv [OF sys_invD(1) [OF inv] ok(1)] timing_enqueued [OF st]]) simp_all
  show ?thesis
  proof (cases "is_soft ?r k \<and> soft_timer_idle k \<and> tstate (threads k ?tt) = RT_THREAD_SUSPEND")
    case False
    then have "rt_timer_start ?r k = Some (RT_EOK, ?k)" using timer_enqueue_ok [OF ok] by (auto simp: rt_timer_start_def)
    then show ?thesis using c by blast
  next
    case True
    note i = sys_invD [OF calm_inv [OF c]]
    have lv: "live ?k ?tt" "tstate (threads ?k ?tt) = RT_THREAD_SUSPEND"
      using True kinv_parts(4) [OF sys_invD(1) [OF inv]] by simp_all
    have r: "rt_thread_resume ?tt ?k = Some (RT_EOK, resumed ?tt ?k)"
      using rt_thread_resume_eq [OF lv(1) _ lv(2)] kinv_thread_timer [OF i(1) lv(1)] lv(2) by simp
    have "calm ?k (resumed ?tt ?k)"
      by (rule calm_quiet [OF calm_inv [OF c] resumed_kinv [OF i(1) lv] _ quiet_resume [OF r] timing_resumed]) (use i(2) in simp)
    from calm_then_schedule [OF calm_trans [OF c this]] obtain k' where "rt_schedule (resumed ?tt ?k) = Some k'" "calm k k'"
      by blast
    then show ?thesis using True timer_enqueue_ok [OF ok] r by (simp add: rt_timer_start_def)
  qed
qed

lemma timer_stop_done:
  assumes inv: "sys_inv k" and ok: "timer_ok k (UserTimer n)"
  shows "\<exists>r k'. rt_timer_stop (UserTimer n) k = Some (r, k') \<and> calm k k'"
proof -
  have "calm k (stopped (UserTimer n) k)"
    by (rule calm_timers [OF inv stopped_kinv [OF sys_invD(1) [OF inv]] timing_stopped]) simp_all
  then show ?thesis using rt_timer_stop_eq [OF ok] by blast
qed

text \<open>A new period.\<close>

lemma timer_set_time_done:
  assumes inv: "sys_inv k" and ok: "timer_ok k (UserTimer n)" and v: "0 < v" "v < RT_TICK_MAX div 2"
  shows "\<exists>k'. rt_timer_control (UserTimer n) RT_TIMER_CTRL_SET_TIME v k = Some (RT_EOK, v, k') \<and> calm k k'"
proof -
  let ?k = "timed (UserTimer n) v k"
  have t: "trem ?k = trem k" by (simp add: trem_def fun_eq_iff timed_def)
  have f: "timeout_func (timers ?k q) = timeout_func (timers k q)" "periodic q ?k = periodic q k"
    "tm_init_tick (timers ?k q) = (if q = UserTimer n then v else tm_init_tick (timers k q))" for q
    by (simp_all add: timed_def)
  have s: "timers_sorted ?k HardList = timers_sorted k HardList" by (simp add: timers_sorted_def t)
  have "clock_ok ?k" if "clock_ok k"
    using that v unfolding clock_ok_def s t f timed_fields by auto
  moreover have "keeps_deadline k ?k u" if "ThreadTimer u \<in> set (tlists k HardList)" for u
    using that by (simp add: keeps_deadline_def) (simp add: timed_def)
  ultimately have "timing {} k ?k" by (simp add: timing_def asleep_def)
  then have "calm k ?k"
    by (intro calm_timers [OF inv]) (use sys_invD(1) [OF inv] in \<open>simp_all add: timed_kinv\<close>)
  then show ?thesis using rt_timer_control_set_time [OF ok] by blast
qed

lemma halted_calm:
  assumes inv: "sys_inv k"
  shows "calm k (halted (UserTimer n) k)"
proof (rule calm_timers [OF inv])
  let ?k = "halted (UserTimer n) k"
  note kp = kinv_parts [OF sys_invD(1) [OF inv]]
  have t: "thread_timer_ok ?k t = thread_timer_ok k t" for t
    by (simp add: thread_timer_ok_def timer_ok_def rt_object_get_type_def rt_object_is_systemobject_def)
  have "thread_timers {} ?k" using kp(3) unfolding thread_timers_def t by (simp add: q_remove_def)
  then show "kinv {} ?k" using kp timer_lists_halted by (simp add: kinv_def)
  show "timing {} k ?k" by (rule timing_halted) simp
qed simp_all

lemma timer_detach_done:
  assumes inv: "sys_inv k" and ok: "timer_ok k (UserTimer n)" and st: "rt_object_is_systemobject (OTimer (UserTimer n)) k"
  shows "\<exists>k'. rt_timer_detach (UserTimer n) k = Some (RT_EOK, k') \<and> calm k k'"
  using assms halted_calm [OF inv]
  by (simp add: rt_timer_detach_def assert_timer_def timer_ok_def halted_def Let_def)

definition fresh_timer :: "nat \<Rightarrow> kernel \<Rightarrow> bool" where
  "fresh_timer n k \<longleftrightarrow> \<not> timer_ok k (UserTimer n) \<and> OTimer (UserTimer n) \<notin> set (container k RT_Object_Class_Timer)"

lemma timer_init_done:
  assumes inv: "sys_inv k" and fr: "fresh_timer n k" and lk: "lock_ok k"
  shows "\<exists>k'. rt_timer_init (UserTimer n) name (User_timeout f) v flag k = Some k' \<and> calm k k'"
proof -
  obtain k0 where k0: "rt_exit_critical (rt_enter_critical k) = Some k0" "calm k k0" "sched_frame k k0"
    using calm_critical [OF inv lk] by blast
  let ?ob = "timer_header name flag" and ?tm = "\<lparr>timeout_func = User_timeout f, tm_init_tick = v, timeout_tick = 0\<rparr>"
    and ?D = "q_insert_after RT_Object_Class_Timer (OTimer (UserTimer n)) (container k0)"
  let ?k' = "timer_born (UserTimer n) ?ob ?tm ?D k0"
  have "OTimer (UserTimer n) \<notin> set (container k RT_Object_Class_Timer)" using fr by (simp add: fresh_timer_def)
  from rt_timer_init_eq [OF this k0(1)]
  have e: "rt_timer_init (UserTimer n) name (User_timeout f) v flag k = Some ?k'" .
  note i = sys_invD [OF calm_inv [OF k0(2)]]
  note kp = kinv_parts [OF i(1)]
  have nt: "UserTimer n \<notin> set (tlists k0 h)" for h
    using fr kp(2) sched_frame_timer(1) [OF k0(3)] by (auto simp: timer_lists_def fresh_timer_def)
  have "calm k0 ?k'"
  proof (rule calm_timers [OF calm_inv [OF k0(2)]])
    show "kinv {} ?k'"
    proof (rule timer_born_kinv [OF kp(1,2) nt timer_header_idle])
      show "thread_timer_ok ?k' t" if "live k0 t" "tstate (threads k0 t) \<noteq> RT_THREAD_CLOSE" for t
        using kinv_thread_timer [OF i(1) that] timer_born_other(5) [of "ThreadTimer t" "UserTimer n" t ?ob ?tm ?D k0] by simp
    qed (use kp in \<open>simp_all add: thread_timers_def\<close>)
    show "timing {} k0 ?k'" by (rule timing_timer_born [OF nt])
  qed simp_all
  then show ?thesis using e calm_trans [OF k0(2)] by blast
qed

end
