(* ===== verification/RT_Calls.thy ===== *)
theory RT_Calls
  imports RT_Threadlife
begin

text \<open>
  The calls a running thread makes to the kernel, as one type, and the proof that every call
  that respects its contract returns or blocks (no assertion fails, all loops end) and keeps
  the invariant of the whole system.
\<close>

section \<open>The calls of the running thread\<close>

text \<open>Objects that come and go: \<open>Sem_reset\<close> and the like are the reset command of the control
  functions; the memory that the heap returns for a created object (and for its pool) is an
  argument.\<close>

datatype object_life =
    Sem_init oid string u32 u8 | Sem_reset oid u32 | Sem_detach oid
  | Mutex_init oid string u8 | Mutex_detach oid
  | Event_init oid string u8 | Event_reset oid | Event_detach oid
  | Mb_init oid string "u32 list" u32 u8 | Mb_reset oid | Mb_detach oid
  | Mq_init oid string "u8 list" u32 u32 u8 | Mq_reset oid | Mq_detach oid
  | Sem_create "oid option" string u32 u8 | Sem_delete oid
  | Mutex_create "oid option" string u8 | Mutex_delete oid
  | Event_create "oid option" string u8 | Event_delete oid
  | Mb_create "oid option" "u32 list option" string u32 u8 | Mb_delete oid
  | Mq_create "oid option" "u8 list option" string u32 u32 u8 | Mq_delete oid

text \<open>Threads that come and go, and timers of the application.\<close>

datatype thread_life =
    Thread_init tid string u8 u32 | Thread_create "tid option" bool string u8 u32 | Thread_startup tid
  | Thread_exit | Thread_detach tid | Thread_delete tid | Thread_close tid | Idle_reap
  | Timer_init nat string nat u32 u8 | Timer_detach nat
  | Timer_start nat | Timer_stop nat | Timer_set_time nat u32

text \<open>\<open>Mb_send_again\<close> and the like are the continuations of a call that has blocked, with the
  local variables it holds.\<close>

datatype thread_call =
    Sleep u32 | Yield | Suspend tid | Resume tid | Change_priority tid u8
  | Sem_take oid u32 | Sem_release oid
  | Mutex_take oid u32 | Mutex_release oid
  | Event_send oid u32 | Event_recv oid u32 u8 u32
  | Mb_send oid u32 u32 | Mb_send_again oid u32 "u32 \<times> u32" | Mb_urgent oid u32 | Mb_recv oid u32 | Mb_recv_again oid "u32 \<times> u32"
  | Mq_send oid "u8 list" u32 u32 | Mq_send_again oid "u8 list" u32 "u32 \<times> u32" | Mq_urgent oid "u8 list" u32
  | Mq_recv oid u32 u32 | Mq_recv_again oid u32 "u32 \<times> u32"
  | Object object_life | Life thread_life

text \<open>The state after the call by the thread \<open>t\<close>, up to the switch if it blocks. A call of
  \<open>rt_thread_suspend\<close> or \<open>rt_thread_resume\<close> is followed by one of \<open>rt_schedule\<close>. Threads have no
  cleanup function; \<open>Thread_close\<close> is \<open>rt_thread_control\<close> with \<open>RT_THREAD_CTRL_CLOSE\<close>,
  \<open>Thread_exit\<close> what a thread does when its entry function returns, \<open>Idle_reap\<close> what the idle
  thread does in its loop; timers are timers of the application.\<close>

primrec perform_object :: "object_life \<Rightarrow> kernel \<Rightarrow> kernel option" where
  "perform_object (Sem_init i name v flag) k = map_option snd (rt_sem_init i name v flag k)"
| "perform_object (Sem_reset i v) k = map_option snd (rt_sem_control i RT_IPC_CMD_RESET v k)"
| "perform_object (Sem_detach i) k = map_option snd (rt_sem_detach i k)"
| "perform_object (Mutex_init i name flag) k = map_option snd (rt_mutex_init i name flag k)"
| "perform_object (Mutex_detach i) k = map_option snd (rt_mutex_detach i k)"
| "perform_object (Event_init i name flag) k = map_option snd (rt_event_init i name flag k)"
| "perform_object (Event_reset i) k = map_option snd (rt_event_control i RT_IPC_CMD_RESET k)"
| "perform_object (Event_detach i) k = map_option snd (rt_event_detach i k)"
| "perform_object (Mb_init i name pool sz flag) k = map_option snd (rt_mb_init i name pool sz flag k)"
| "perform_object (Mb_reset i) k = map_option snd (rt_mb_control i RT_IPC_CMD_RESET k)"
| "perform_object (Mb_detach i) k = map_option snd (rt_mb_detach i k)"
| "perform_object (Mq_init i name pool msz psz flag) k = map_option snd (rt_mq_init i name pool msz psz flag k)"
| "perform_object (Mq_reset i) k = map_option snd (rt_mq_control i RT_IPC_CMD_RESET k)"
| "perform_object (Mq_detach i) k = map_option snd (rt_mq_detach i k)"
| "perform_object (Sem_create mem name v flag) k = map_option snd (rt_sem_create mem name v flag k)"
| "perform_object (Sem_delete i) k = map_option snd (rt_sem_delete i k)"
| "perform_object (Mutex_create mem name flag) k = map_option snd (rt_mutex_create mem name flag k)"
| "perform_object (Mutex_delete i) k = map_option snd (rt_mutex_delete i k)"
| "perform_object (Event_create mem name flag) k = map_option snd (rt_event_create mem name flag k)"
| "perform_object (Event_delete i) k = map_option snd (rt_event_delete i k)"
| "perform_object (Mb_create mem pool name sz flag) k = map_option snd (rt_mb_create mem pool name sz flag k)"
| "perform_object (Mb_delete i) k = map_option snd (rt_mb_delete i k)"
| "perform_object (Mq_create mem pool name msz n flag) k = map_option snd (rt_mq_create mem pool name msz n flag k)"
| "perform_object (Mq_delete i) k = map_option snd (rt_mq_delete i k)"

primrec perform_life :: "tid \<Rightarrow> thread_life \<Rightarrow> kernel \<Rightarrow> kernel option" where
  "perform_life t (Thread_init s name p v) k = map_option snd (rt_thread_init s name p v k)"
| "perform_life t (Thread_create mem stack_ok name p v) k = map_option snd (rt_thread_create mem stack_ok name p v k)"
| "perform_life t (Thread_startup s) k = map_option snd (rt_thread_startup s k)"
| "perform_life t Thread_exit k = rt_thread_exit id k"
| "perform_life t (Thread_detach s) k = map_option snd (rt_thread_detach id s k)"
| "perform_life t (Thread_delete s) k = map_option snd (rt_thread_delete id s k)"
| "perform_life t (Thread_close s) k = map_option snd (rt_thread_control id s RT_THREAD_CTRL_CLOSE k)"
| "perform_life t Idle_reap k = map_option snd (rt_thread_idle_excute k)"
| "perform_life t (Timer_init n name f v flag) k = rt_timer_init (UserTimer n) name (User_timeout f) v flag k"
| "perform_life t (Timer_detach n) k = map_option snd (rt_timer_detach (UserTimer n) k)"
| "perform_life t (Timer_start n) k = map_option snd (rt_timer_start (UserTimer n) k)"
| "perform_life t (Timer_stop n) k = map_option snd (rt_timer_stop (UserTimer n) k)"
| "perform_life t (Timer_set_time n v) k = map_option (snd \<circ> snd) (rt_timer_control (UserTimer n) RT_TIMER_CTRL_SET_TIME v k)"

primrec perform :: "tid \<Rightarrow> thread_call \<Rightarrow> kernel \<Rightarrow> kernel option" where
  "perform t (Sleep v) k = rt_thread_sleep_start v k"
| "perform t Yield k = map_option snd (rt_thread_yield k)"
| "perform t (Suspend s) k = do { (_, k) \<leftarrow> rt_thread_suspend s k; rt_schedule k }"
| "perform t (Resume s) k = do { (_, k) \<leftarrow> rt_thread_resume s k; rt_schedule k }"
| "perform t (Change_priority s p) k = map_option snd (rt_thread_control id s (RT_THREAD_CTRL_CHANGE_PRIORITY p) k)"
| "perform t (Sem_take i time) k = map_option snd (rt_sem_take_start i time k)"
| "perform t (Sem_release i) k = map_option snd (rt_sem_release i k)"
| "perform t (Mutex_take i time) k = map_option snd (rt_mutex_take_start i time k)"
| "perform t (Mutex_release i) k = map_option snd (rt_mutex_release i k)"
| "perform t (Event_send i s) k = map_option snd (rt_event_send i s k)"
| "perform t (Event_recv i s opt time) k = map_option (snd \<circ> snd) (rt_event_recv_start i s opt time k)"
| "perform t (Mb_send i v time) k = map_option (snd \<circ> snd) (rt_mb_send_wait_start i v time k)"
| "perform t (Mb_send_again i v loc) k = map_option (snd \<circ> snd) (rt_mb_send_wait_wake i v t loc k)"
| "perform t (Mb_urgent i v) k = map_option snd (rt_mb_urgent i v k)"
| "perform t (Mb_recv i time) k = map_option (snd \<circ> snd \<circ> snd) (rt_mb_recv_start i time k)"
| "perform t (Mb_recv_again i loc) k = map_option (snd \<circ> snd \<circ> snd) (rt_mb_recv_wake i t loc k)"
| "perform t (Mq_send i buf sz time) k = map_option (snd \<circ> snd) (rt_mq_send_wait_start i buf sz time k)"
| "perform t (Mq_send_again i buf sz loc) k = map_option (snd \<circ> snd) (rt_mq_send_wait_wake i buf sz t loc k)"
| "perform t (Mq_urgent i buf sz) k = map_option snd (rt_mq_urgent i buf sz k)"
| "perform t (Mq_recv i sz time) k = map_option (snd \<circ> snd \<circ> snd) (rt_mq_recv_start i sz time k)"
| "perform t (Mq_recv_again i sz loc) k = map_option (snd \<circ> snd \<circ> snd) (rt_mq_recv_wake i sz t loc k)"
| "perform t (Object c) k = perform_object c k"
| "perform t (Life c) k = perform_life t c k"

text \<open>What the callers have to respect: threads and objects that exist, time limits and
  priorities in range, buffers as long as announced; memory that is initialised is not
  registered yet, and only what was initialised (created) is detached (deleted). A thread that ends has
  been started and owns no mutex, another thread that is detached or deleted is not the caller,
  and what the idle thread frees was created on the heap and owns no mutex.\<close>

definition locals_ok :: "u32 \<times> u32 \<Rightarrow> kernel \<Rightarrow> bool" where
  "locals_ok loc k \<longleftrightarrow> time_ok (fst (ipc_locals_after (tick k) loc))"

abbreviation (input) heap_object :: "oid \<Rightarrow> u8 \<Rightarrow> kernel \<Rightarrow> bool" where
  "heap_object i ty k \<equiv> has_type i ty k \<and> \<not> rt_object_is_systemobject (OIpc i) k"

abbreviation (input) static_object :: "oid \<Rightarrow> u8 \<Rightarrow> kernel \<Rightarrow> bool" where
  "static_object i ty k \<equiv> has_type i ty k \<and> rt_object_is_systemobject (OIpc i) k"

primrec permitted_object :: "object_life \<Rightarrow> kernel \<Rightarrow> bool" where
  "permitted_object (Sem_init i name v flag) k \<longleftrightarrow> can_init i RT_Object_Class_Semaphore flag k \<and> v < 0x10000"
| "permitted_object (Sem_reset i v) k \<longleftrightarrow> has_type i RT_Object_Class_Semaphore k"
| "permitted_object (Sem_detach i) k \<longleftrightarrow> static_object i RT_Object_Class_Semaphore k"
| "permitted_object (Mutex_init i name flag) k \<longleftrightarrow> can_init i RT_Object_Class_Mutex flag k"
| "permitted_object (Mutex_detach i) k \<longleftrightarrow> static_object i RT_Object_Class_Mutex k"
| "permitted_object (Event_init i name flag) k \<longleftrightarrow> can_init i RT_Object_Class_Event flag k"
| "permitted_object (Event_reset i) k \<longleftrightarrow> has_type i RT_Object_Class_Event k"
| "permitted_object (Event_detach i) k \<longleftrightarrow> static_object i RT_Object_Class_Event k"
| "permitted_object (Mb_init i name pool sz flag) k \<longleftrightarrow> can_init i RT_Object_Class_MailBox flag k
     \<and> length pool = unat (ucast sz :: u16)"
| "permitted_object (Mb_reset i) k \<longleftrightarrow> has_type i RT_Object_Class_MailBox k"
| "permitted_object (Mb_detach i) k \<longleftrightarrow> static_object i RT_Object_Class_MailBox k"
| "permitted_object (Mq_init i name pool msz psz flag) k \<longleftrightarrow> can_init i RT_Object_Class_MessageQueue flag k
     \<and> unat psz \<le> length pool"
| "permitted_object (Mq_reset i) k \<longleftrightarrow> has_type i RT_Object_Class_MessageQueue k"
| "permitted_object (Mq_detach i) k \<longleftrightarrow> static_object i RT_Object_Class_MessageQueue k"
| "permitted_object (Sem_create mem name v flag) k \<longleftrightarrow> can_create mem flag k \<and> v < 0x10000"
| "permitted_object (Sem_delete i) k \<longleftrightarrow> heap_object i RT_Object_Class_Semaphore k"
| "permitted_object (Mutex_create mem name flag) k \<longleftrightarrow> can_create mem flag k"
| "permitted_object (Mutex_delete i) k \<longleftrightarrow> heap_object i RT_Object_Class_Mutex k"
| "permitted_object (Event_create mem name flag) k \<longleftrightarrow> can_create mem flag k"
| "permitted_object (Event_delete i) k \<longleftrightarrow> heap_object i RT_Object_Class_Event k"
| "permitted_object (Mb_create mem pool name sz flag) k \<longleftrightarrow> can_create mem flag k
     \<and> (case pool of None \<Rightarrow> True | Some p \<Rightarrow> length p = unat (ucast sz :: u16))"
| "permitted_object (Mb_delete i) k \<longleftrightarrow> heap_object i RT_Object_Class_MailBox k"
| "permitted_object (Mq_create mem pool name msz n flag) k \<longleftrightarrow> can_create mem flag k
     \<and> (case pool of None \<Rightarrow> True
        | Some p \<Rightarrow> unat (ucast n :: u16) * (unat (ucast (RT_ALIGN msz 8) :: u16) + 4) \<le> length p)"
| "permitted_object (Mq_delete i) k \<longleftrightarrow> heap_object i RT_Object_Class_MessageQueue k"

primrec permitted_life :: "tid \<Rightarrow> thread_life \<Rightarrow> kernel \<Rightarrow> bool" where
  "permitted_life t (Thread_init s name p v) k \<longleftrightarrow> fresh_thread s k \<and> lock_ok k \<and> unat p < RT_THREAD_PRIORITY_MAX"
| "permitted_life t (Thread_create mem stack_ok name p v) k \<longleftrightarrow> lock_ok k \<and> unat p < RT_THREAD_PRIORITY_MAX
     \<and> (case mem of None \<Rightarrow> True | Some s \<Rightarrow> fresh_thread s k)"
| "permitted_life t (Thread_startup s) k \<longleftrightarrow> live k s \<and> tstate (threads k s) = RT_THREAD_INIT
     \<and> unat (init_priority (threads k s)) < RT_THREAD_PRIORITY_MAX"
| "permitted_life t Thread_exit k \<longleftrightarrow> may_end k t"
| "permitted_life t (Thread_detach s) k \<longleftrightarrow> may_end k s \<and> s \<noteq> t \<and> rt_object_is_systemobject (OThread s) k"
| "permitted_life t (Thread_delete s) k \<longleftrightarrow> may_end k s \<and> s \<noteq> t \<and> \<not> rt_object_is_systemobject (OThread s) k"
| "permitted_life t (Thread_close s) k \<longleftrightarrow> may_end k s"
| "permitted_life t Idle_reap k \<longleftrightarrow> (\<forall>s \<in> set (queues k DefunctQ). may_reap k s)"
| "permitted_life t (Timer_init n name f v flag) k \<longleftrightarrow> fresh_timer n k \<and> lock_ok k"
| "permitted_life t (Timer_detach n) k \<longleftrightarrow> timer_ok k (UserTimer n) \<and> rt_object_is_systemobject (OTimer (UserTimer n)) k"
| "permitted_life t (Timer_start n) k \<longleftrightarrow> timer_startable k n"
| "permitted_life t (Timer_stop n) k \<longleftrightarrow> timer_ok k (UserTimer n)"
| "permitted_life t (Timer_set_time n v) k \<longleftrightarrow> timer_ok k (UserTimer n) \<and> 0 < v \<and> v < RT_TICK_MAX div 2"

primrec permitted :: "tid \<Rightarrow> thread_call \<Rightarrow> kernel \<Rightarrow> bool" where
  "permitted t (Sleep v) k \<longleftrightarrow> v < RT_TICK_MAX div 2"
| "permitted t Yield k \<longleftrightarrow> True"
| "permitted t (Suspend s) k \<longleftrightarrow> live k s"
| "permitted t (Resume s) k \<longleftrightarrow> live k s"
| "permitted t (Change_priority s p) k \<longleftrightarrow> live k s \<and> unat p < RT_THREAD_PRIORITY_MAX"
| "permitted t (Sem_take i time) k \<longleftrightarrow> has_type i RT_Object_Class_Semaphore k \<and> time_ok time"
| "permitted t (Sem_release i) k \<longleftrightarrow> has_type i RT_Object_Class_Semaphore k"
| "permitted t (Mutex_take i time) k \<longleftrightarrow> has_type i RT_Object_Class_Mutex k \<and> time_ok time"
| "permitted t (Mutex_release i) k \<longleftrightarrow> has_type i RT_Object_Class_Mutex k"
| "permitted t (Event_send i s) k \<longleftrightarrow> has_type i RT_Object_Class_Event k"
| "permitted t (Event_recv i s opt time) k \<longleftrightarrow> has_type i RT_Object_Class_Event k \<and> valid_option opt \<and> time_ok time"
| "permitted t (Mb_send i v time) k \<longleftrightarrow> has_type i RT_Object_Class_MailBox k \<and> time_ok time"
| "permitted t (Mb_send_again i v loc) k \<longleftrightarrow> (error (threads k t) = RT_EOK \<longrightarrow> has_type i RT_Object_Class_MailBox k) \<and> locals_ok loc k"
| "permitted t (Mb_urgent i v) k \<longleftrightarrow> has_type i RT_Object_Class_MailBox k"
| "permitted t (Mb_recv i time) k \<longleftrightarrow> has_type i RT_Object_Class_MailBox k \<and> time_ok time"
| "permitted t (Mb_recv_again i loc) k \<longleftrightarrow> (error (threads k t) = RT_EOK \<longrightarrow> has_type i RT_Object_Class_MailBox k) \<and> locals_ok loc k"
| "permitted t (Mq_send i buf sz time) k \<longleftrightarrow> has_type i RT_Object_Class_MessageQueue k \<and> time_ok time
     \<and> sz \<noteq> 0 \<and> unat sz \<le> length buf"
| "permitted t (Mq_send_again i buf sz loc) k \<longleftrightarrow> (error (threads k t) = RT_EOK \<longrightarrow> has_type i RT_Object_Class_MessageQueue k) \<and> locals_ok loc k
     \<and> unat sz \<le> length buf \<and> sz \<le> ucast (mq_msg_size (msgqueues k i))"
| "permitted t (Mq_urgent i buf sz) k \<longleftrightarrow> has_type i RT_Object_Class_MessageQueue k \<and> sz \<noteq> 0 \<and> unat sz \<le> length buf"
| "permitted t (Mq_recv i sz time) k \<longleftrightarrow> has_type i RT_Object_Class_MessageQueue k \<and> time_ok time \<and> sz \<noteq> 0"
| "permitted t (Mq_recv_again i sz loc) k \<longleftrightarrow> (error (threads k t) = RT_EOK \<longrightarrow> has_type i RT_Object_Class_MessageQueue k) \<and> locals_ok loc k"
| "permitted t (Object c) k \<longleftrightarrow> permitted_object c k"
| "permitted t (Life c) k \<longleftrightarrow> permitted_life t c k"

text \<open>What a call does to the sleeping threads: only threads that were awake may have gone
  to sleep.\<close>

definition call_done :: "kernel \<Rightarrow> kernel \<Rightarrow> bool" where
  "call_done k k' \<longleftrightarrow> sys_inv k' \<and> (\<exists>X. (\<forall>s \<in> X. \<not> asleep k s) \<and> timing X k k')"

lemma running_awake: "running k t \<Longrightarrow> \<not> asleep k t"
  by (simp add: running_def asleep_def)

lemma call_done_ipc:
  assumes inv: "sys_inv k" "running k t" and k': "kinv {} k'" "object_ok i k'" "ipc_frame i {t} k k'"
  shows "call_done k k'"
proof -
  have "sys_inv k'"
    by (rule sys_inv_ipc [OF inv(1) k']) (use running_in_no_line [OF sys_invD(1) [OF inv(1)] inv(2)] in auto)
  moreover have "timing {t} k k'" using k'(3) by (simp add: ipc_frame_def)
  ultimately show ?thesis using running_awake [OF inv(2)] unfolding call_done_def by blast
qed

lemma call_done_threads:
  assumes inv: "sys_inv k" and k': "kinv {} k'" "\<And>i. ipc_frame i X k k'"
    and X: "\<And>s. s \<in> X \<Longrightarrow> \<not> asleep k s" "\<And>s h. s \<in> X \<Longrightarrow> \<not> is_ready_queue h \<Longrightarrow> s \<notin> set (queues k h)"
  shows "call_done k k'"
proof -
  have "sys_inv k'" by (rule sys_inv_threads [OF inv k' X(2)])
  moreover have "timing X k k'" using k'(2) [of 0] by (simp add: ipc_frame_def)
  ultimately show ?thesis using X(1) unfolding call_done_def by blast
qed

lemma call_done_refl: "sys_inv k \<Longrightarrow> call_done k k"
  unfolding call_done_def by (intro conjI exI [of _ "{}"]) simp_all

subsection \<open>Calls on threads\<close>

lemma then_schedule:
  assumes inv: "sys_inv k" and k1: "kinv {} k1" "current_thread k1 \<noteq> None" "\<And>i. ipc_frame i X k k1"
    and X: "\<And>s. s \<in> X \<Longrightarrow> \<not> asleep k s" "\<And>s h. s \<in> X \<Longrightarrow> \<not> is_ready_queue h \<Longrightarrow> s \<notin> set (queues k h)"
  shows "\<exists>k'. rt_schedule k1 = Some k' \<and> call_done k k'"
proof -
  obtain c where c: "current_thread k1 = Some c" using k1(2) by auto
  obtain k' where k': "rt_schedule k1 = Some k'" "kinv {} k'" "sched_frame k1 k'"
    using rt_schedule_kinv [OF k1(1) c] by blast
  have "ipc_frame i X k k'" for i
    using ipc_frame_trans [OF k1(3) ipc_frame_sched [OF k'(3) rt_schedule_current [OF k'(1) k1(2)]]] .
  from call_done_threads [OF inv k'(2) this X] k'(1) show ?thesis by blast
qed

lemma ready_in_no_line:
  assumes "kinv {} k" "tstate (threads k s) = RT_THREAD_READY \<or> tstate (threads k s) = RT_THREAD_RUNNING"
    and "\<not> is_ready_queue h"
  shows "s \<notin> set (queues k h)"
proof
  assume "s \<in> set (queues k h)"
  moreover have "linked {} k" using assms(1) by (simp add: kinv_def sched_inv_def lists_inv_def)
  ultimately have "linked_ok h (live k s) (threads k s)" using linkedD by blast
  then show False using assms(2,3) by (cases h) auto
qed

lemma ipc_frame_suspended:
  assumes "\<And>h. \<not> is_ready_queue h \<Longrightarrow> s \<notin> set (queues k h)"
  shows "ipc_frame i {s} k (suspended s k)"
proof (rule ipc_frame_kframe [OF kframe_suspended timing_suspended])
  have "removeAll s (queues k (SuspendQ j)) = queues k (SuspendQ j)" for j using assms by simp
  then show "queues (suspended s k) (SuspendQ j) = queues k (SuspendQ j)"
    "set (queues (suspended s k) (SuspendQ i)) \<subseteq> set (queues k (SuspendQ i)) \<union> {s}" for j
    by (auto simp: q_remove_def)
qed simp_all

lemma ipc_frame_armed:
  assumes "thread_timer_ok k t" "v < 0x7fffffff"
  shows "ipc_frame i {t} k (armed t v k)"
  by (rule ipc_frame_kframe [OF kframe_armed timing_armed [OF assms]]) auto

lemma sleep_done:
  assumes inv: "sys_inv k" and run: "running k t" and v: "v < RT_TICK_MAX div 2"
  shows "\<exists>k'. rt_thread_sleep_start v k = Some k' \<and> call_done k k'"
proof -
  have v: "v < 0x7fffffff" using v by simp
  note i = sys_invD [OF inv]
  note s = sleep_start_eq [OF i(1) run v] and su = suspend_running [OF i(1) run]
  have nl: "t \<notin> set (queues k h)" for h by (rule running_in_no_line [OF i(1) run])
  have ok: "thread_timer_ok (suspended t k) t" using kinv_thread_timer [OF su(2,4)] su(3) by simp
  have fr: "ipc_frame j {t} k (armed t v (suspended t k))" for j
    by (rule ipc_frame_trans [OF ipc_frame_suspended ipc_frame_armed [OF ok v]]) (rule nl)
  have "current_thread (armed t v (suspended t k)) \<noteq> None" using i(2) by simp
  from then_schedule [OF inv s(2) this fr] running_awake [OF run] nl show ?thesis unfolding s(1) by simp
qed

lemma yield_done:
  assumes inv: "sys_inv k" and run: "running k t"
  shows "\<exists>k'. map_option snd (rt_thread_yield k) = Some k' \<and> call_done k k'"
proof -
  let ?a = "upd_thread t (\<lambda>th. th\<lparr>remaining_tick := init_tick th\<rparr>) k"
  let ?k1 = "upd_thread t set_yield ?a"
  note i = sys_invD [OF inv]
  have k1: "kinv {} ?k1" by (intro upd_thread_kinv i(1)) simp_all
  have c: "current_thread ?k1 \<noteq> None" using i(2) by simp
  have fr: "ipc_frame j {} k ?k1" for j
    by (rule ipc_frame_trans [OF ipc_frame_upd_thread ipc_frame_upd_thread]) simp_all
  obtain k' where k': "rt_schedule ?k1 = Some k'" "call_done k k'"
    using then_schedule [OF inv k1 c fr] by blast
  then have "rt_thread_yield k = Some (RT_EOK, k')"
    using run by (simp add: rt_thread_yield_def rt_thread_self_def running_def)
  then show ?thesis using k'(2) by simp
qed

lemma suspend_done:
  assumes inv: "sys_inv k" and lv: "live k s"
  shows "\<exists>k'. do { (_, k) \<leftarrow> rt_thread_suspend s k; rt_schedule k } = Some k' \<and> call_done k k'"
proof (cases "tstate (threads k s) = RT_THREAD_READY \<or> tstate (threads k s) = RT_THREAD_RUNNING")
  case True
  note i = sys_invD [OF inv]
  have "tstate (threads k s) = RT_THREAD_RUNNING \<Longrightarrow> current_thread k = Some s"
    using kinv_parts(1) [OF i(1)] lv by (simp add: sched_inv_def one_running_def)
  moreover have "thread_timer_ok k s" using kinv_thread_timer [OF i(1) lv] True by auto
  ultimately have e: "rt_thread_suspend s k = Some (RT_EOK, suspended s k)"
    using True lv by (intro rt_thread_suspend_eq) auto
  note nl = ready_in_no_line [OF i(1) True]
  have c: "current_thread (suspended s k) \<noteq> None" using i(2) by simp
  have X: "\<not> asleep k s" using True by (auto simp: asleep_def)
  from then_schedule [OF inv suspended_kinv [OF i(1) lv True] c ipc_frame_suspended [OF nl]] X nl show ?thesis
    by (simp add: e)
next
  case False
  then have e: "rt_thread_suspend s k = Some (- RT_ERROR, k)"
    using lv by (simp add: rt_thread_suspend_def assert_live)
  from then_schedule [OF inv sys_invD(1,2) [OF inv] ipc_frame_refl, where X = "{}"] show ?thesis by (simp add: e)
qed

lemma resume_done:
  assumes inv: "sys_inv k" and lv: "live k s"
  shows "\<exists>k'. do { (_, k) \<leftarrow> rt_thread_resume s k; rt_schedule k } = Some k' \<and> call_done k k'"
proof (cases "tstate (threads k s) = RT_THREAD_SUSPEND")
  case True
  note i = sys_invD [OF inv]
  have "thread_timer_ok k s" using kinv_thread_timer [OF i(1) lv] True by simp
  then have e: "rt_thread_resume s k = Some (RT_EOK, resumed s k)"
    using True lv by (intro rt_thread_resume_eq)
  have "current_thread (resumed s k) \<noteq> None" using i(2) by simp
  from then_schedule [OF inv resumed_kinv [OF i(1) lv True] this ipc_frame_resumed, where X = "{}"]
  show ?thesis by (simp add: e)
next
  case False
  then have e: "rt_thread_resume s k = Some (- RT_ERROR, k)"
    using lv by (simp add: rt_thread_resume_def assert_live)
  from then_schedule [OF inv sys_invD(1,2) [OF inv] ipc_frame_refl, where X = "{}"] show ?thesis by (simp add: e)
qed

lemma change_priority_done:
  assumes inv: "sys_inv k" and s: "live k s" "unat p < RT_THREAD_PRIORITY_MAX"
  shows "\<exists>k'. map_option snd (rt_thread_control id s (RT_THREAD_CTRL_CHANGE_PRIORITY p) k) = Some k' \<and> call_done k k'"
proof -
  note r = rt_thread_control_priority [OF sys_invD(1) [OF inv] s]
  have "call_done k (reprioritised s p k)"
    by (rule call_done_threads [OF inv r(2) ipc_frame_reprioritised [OF sys_invD(1) [OF inv]], where X = "{}"]) simp_all
  then show ?thesis using r(1) by (simp del: rt_thread_control.simps)
qed

subsection \<open>Calls on objects\<close>

lemma ipc_call:
  assumes inv: "sys_inv k" "running k t" and k': "f = Some (x, k')" "kinv {} k'" "object_ok i k'" "ipc_frame i {t} k k'"
  shows "\<exists>k'. map_option snd f = Some k' \<and> call_done k k'"
  using call_done_ipc [OF inv k'(2-4)] k'(1) by simp

lemma sem_calls_done:
  assumes inv: "sys_inv k" and run: "running k t" and ty: "has_type i RT_Object_Class_Semaphore k"
  shows "time_ok time \<Longrightarrow> \<exists>k'. map_option snd (rt_sem_take_start i time k) = Some k' \<and> call_done k k'"
    "\<exists>k'. map_option snd (rt_sem_release i k) = Some k' \<and> call_done k k'"
proof -
  note i = sys_invD [OF inv]
  have ok: "sem_ok i k" by (rule object_ok_type(1) [OF i(5) ty])
  show "\<exists>k'. map_option snd (rt_sem_take_start i time k) = Some k' \<and> call_done k k'" if tm: "time_ok time"
  proof -
    obtain r k' where "rt_sem_take_start i time k = Some (r, k')" "kinv {} k'" "sem_ok i k'" "ipc_frame i {t} k k'"
      using sem_take_ok [OF i(1) ok run i(3) tm] by blast
    from ipc_call [OF inv run this(1,2) object_okI(1) [OF this(3)] this(4)] show ?thesis .
  qed
  obtain r k' where "rt_sem_release i k = Some (r, k')" "kinv {} k'" "sem_ok i k'" "ipc_frame i {t} k k'"
    using sem_release_ok [OF i(1) ok runningD(1) [OF run]] by blast
  from ipc_call [OF inv run this(1,2) object_okI(1) [OF this(3)] this(4)]
  show "\<exists>k'. map_option snd (rt_sem_release i k) = Some k' \<and> call_done k k'" .
qed

lemma mutex_calls_done:
  assumes inv: "sys_inv k" and run: "running k t" and ty: "has_type i RT_Object_Class_Mutex k"
  shows "time_ok time \<Longrightarrow> \<exists>k'. map_option snd (rt_mutex_take_start i time k) = Some k' \<and> call_done k k'"
    "\<exists>k'. map_option snd (rt_mutex_release i k) = Some k' \<and> call_done k k'"
proof -
  note i = sys_invD [OF inv]
  have ok: "mutex_ok i k" by (rule object_ok_type(2) [OF i(5) ty])
  show "\<exists>k'. map_option snd (rt_mutex_take_start i time k) = Some k' \<and> call_done k k'" if tm: "time_ok time"
  proof -
    obtain r k' where "rt_mutex_take_start i time k = Some (r, k')" "kinv {} k'" "mutex_ok i k'" "ipc_frame i {t} k k'"
      using mutex_take_ok [OF i(1) ok run i(3) tm] by blast
    from ipc_call [OF inv run this(1,2) object_okI(2) [OF this(3)] this(4)] show ?thesis .
  qed
  obtain r k' where "rt_mutex_release i k = Some (r, k')" "kinv {} k'" "mutex_ok i k'" "ipc_frame i {t} k k'"
    using mutex_release_ok [OF i(1) ok run i(3)] by blast
  from ipc_call [OF inv run this(1,2) object_okI(2) [OF this(3)] this(4)]
  show "\<exists>k'. map_option snd (rt_mutex_release i k) = Some k' \<and> call_done k k'" .
qed

lemma event_calls_done:
  assumes inv: "sys_inv k" and run: "running k t" and ty: "has_type i RT_Object_Class_Event k"
  shows "valid_option opt \<Longrightarrow> time_ok time \<Longrightarrow>
      \<exists>k'. map_option (snd \<circ> snd) (rt_event_recv_start i s opt time k) = Some k' \<and> call_done k k'"
    "\<exists>k'. map_option snd (rt_event_send i s k) = Some k' \<and> call_done k k'"
proof -
  note i = sys_invD [OF inv]
  have ok: "event_ok i k" by (rule object_ok_type(3) [OF i(5) ty])
  show "\<exists>k'. map_option (snd \<circ> snd) (rt_event_recv_start i s opt time k) = Some k' \<and> call_done k k'"
    if o: "valid_option opt" "time_ok time"
  proof (cases "s = 0")
    case True
    then show ?thesis
      using event_recv_ok [OF i(1) ok run i(3) o(2), of s opt] call_done_refl [OF inv] by simp
  next
    case False
    have nv: "\<not> \<not> valid_option opt" using o(1) by simp
    obtain r got k' where "rt_event_recv_start i s opt time k = Some (r, got, k')" "kinv {} k'" "event_ok i k'"
        "ipc_frame i {t} k k'"
      using event_recv_ok [OF i(1) ok run i(3) o(2), of s opt, unfolded if_not_P [OF False] if_not_P [OF nv]] by blast
    with call_done_ipc [OF inv run this(2) object_okI(3) [OF this(3)] this(4)] show ?thesis by simp
  qed
  show "\<exists>k'. map_option snd (rt_event_send i s k) = Some k' \<and> call_done k k'"
  proof (cases "s = 0")
    case True
    then show ?thesis
      using event_send_ok [OF i(1) ok runningD(1) [OF run], of s] call_done_refl [OF inv] by simp
  next
    case False
    obtain ev rest sv where spec: "event_send_spec (ev_set (events k i) OR s) (map (waiter k) (queues k (SuspendQ i))) = (ev, rest, sv)"
      by (cases "event_send_spec (ev_set (events k i) OR s) (map (waiter k) (queues k (SuspendQ i)))")
    obtain k' where e: "rt_event_send i s k = Some (RT_EOK, k')" "event_result i k (ev, rest, sv) k'"
      using event_send_ok [OF i(1) ok runningD(1) [OF run], of s, unfolded if_not_P [OF False] spec] by blast
    then have r: "kinv {} k'" "event_ok i k'" "ipc_frame i {} k k'" by (simp_all add: event_result_def)
    from ipc_call [OF inv run e(1) r(1) object_okI(3) [OF r(2)] ipc_frame_mono [OF r(3)]] show ?thesis by simp
  qed
qed

lemma again_locals:
  assumes "locals_ok loc k"
  obtains time td where "ipc_locals_after (tick k) loc = (time, td)" "time_ok time"
  using assms by (cases "ipc_locals_after (tick k) loc") (simp add: locals_ok_def)

lemma mb_send_done:
  assumes inv: "sys_inv k" and run: "running k t" and ty: "has_type i RT_Object_Class_MailBox k"
  shows "time_ok time \<Longrightarrow> \<exists>k'. map_option (snd \<circ> snd) (rt_mb_send_wait_start i v time k) = Some k' \<and> call_done k k'"
    "locals_ok loc k \<Longrightarrow> \<exists>k'. map_option (snd \<circ> snd) (rt_mb_send_wait_wake i v t loc k) = Some k' \<and> call_done k k'"
    "\<exists>k'. map_option snd (rt_mb_urgent i v k) = Some k' \<and> call_done k k'"
proof -
  note i = sys_invD [OF inv]
  have ok: "mb_ok i k" by (rule object_ok_type(4) [OF i(5) ty])
  have a: "assert_ipc RT_Object_Class_MailBox i k = Some ()" "rt_thread_self k = Some t"
    using ok run by (simp_all add: mb_ok_def assert_ipc_ok rt_thread_self_def running_def)
  have go: "\<exists>k'. map_option (snd \<circ> snd) (mb_send_try i v (Some t) (time, td) k) = Some k' \<and> call_done k k'"
    if tm: "time_ok time" for time td
  proof -
    obtain r loc' k' where "mb_send_try i v (Some t) (time, td) k = Some (r, loc', k')" "kinv {} k'" "mb_ok i k'"
        "ipc_frame i {t} k k'"
      using send_try_refines [OF i(1) ok run i(3) tm] by blast
    with call_done_ipc [OF inv run this(2) object_okI(4) [OF this(3)] this(4)] show ?thesis by simp
  qed
  show "\<exists>k'. map_option (snd \<circ> snd) (rt_mb_send_wait_start i v time k) = Some k' \<and> call_done k k'" if "time_ok time"
    using go [OF that, of 0] call_done_refl [OF inv] a by (simp add: rt_mb_send_wait_start_def)
  show "\<exists>k'. map_option (snd \<circ> snd) (rt_mb_send_wait_wake i v t loc k) = Some k' \<and> call_done k k'"
    if l: "locals_ok loc k"
  proof (cases "error (threads k t) = RT_EOK")
    case True
    obtain time td where "ipc_locals_after (tick k) loc = (time, td)" "time_ok time" using again_locals [OF l] .
    then show ?thesis using go [of time td] True by (simp add: rt_mb_send_wait_wake_def)
  qed (use call_done_refl [OF inv] in \<open>simp add: rt_mb_send_wait_wake_def\<close>)
  obtain r k' where "rt_mb_urgent i v k = Some (r, k')" "kinv {} k'" "mb_ok i k'" "ipc_frame i {t} k k'"
    using urgent_refines [OF i(1) ok i(2)] by blast
  from ipc_call [OF inv run this(1,2) object_okI(4) [OF this(3)] this(4)]
  show "\<exists>k'. map_option snd (rt_mb_urgent i v k) = Some k' \<and> call_done k k'" .
qed

lemma mb_recv_done:
  assumes inv: "sys_inv k" and run: "running k t" and ty: "has_type i RT_Object_Class_MailBox k"
  shows "time_ok time \<Longrightarrow> \<exists>k'. map_option (snd \<circ> snd \<circ> snd) (rt_mb_recv_start i time k) = Some k' \<and> call_done k k'"
    "locals_ok loc k \<Longrightarrow> \<exists>k'. map_option (snd \<circ> snd \<circ> snd) (rt_mb_recv_wake i t loc k) = Some k' \<and> call_done k k'"
proof -
  note i = sys_invD [OF inv]
  have ok: "mb_ok i k" by (rule object_ok_type(4) [OF i(5) ty])
  have a: "assert_ipc RT_Object_Class_MailBox i k = Some ()" "rt_thread_self k = Some t"
    using ok run by (simp_all add: mb_ok_def assert_ipc_ok rt_thread_self_def running_def)
  have go: "\<exists>k'. map_option (snd \<circ> snd \<circ> snd) (mb_recv_try i (Some t) (time, td) k) = Some k' \<and> call_done k k'"
    if tm: "time_ok time" for time td
  proof -
    obtain r got loc' k' where "mb_recv_try i (Some t) (time, td) k = Some (r, got, loc', k')" "kinv {} k'" "mb_ok i k'"
        "ipc_frame i {t} k k'"
      using recv_try_refines [OF i(1) ok run i(3) tm] by blast
    with call_done_ipc [OF inv run this(2) object_okI(4) [OF this(3)] this(4)] show ?thesis by simp
  qed
  show "\<exists>k'. map_option (snd \<circ> snd \<circ> snd) (rt_mb_recv_start i time k) = Some k' \<and> call_done k k'" if "time_ok time"
    using go [OF that, of 0] call_done_refl [OF inv] a by (simp add: rt_mb_recv_start_def)
  show "\<exists>k'. map_option (snd \<circ> snd \<circ> snd) (rt_mb_recv_wake i t loc k) = Some k' \<and> call_done k k'"
    if l: "locals_ok loc k"
  proof (cases "error (threads k t) = RT_EOK")
    case True
    obtain time td where "ipc_locals_after (tick k) loc = (time, td)" "time_ok time" using again_locals [OF l] .
    then show ?thesis using go [of time td] True by (simp add: rt_mb_recv_wake_def)
  qed (use call_done_refl [OF inv] in \<open>simp add: rt_mb_recv_wake_def\<close>)
qed

lemma mq_send_done:
  assumes inv: "sys_inv k" and run: "running k t" and ty: "has_type i RT_Object_Class_MessageQueue k"
    and buf: "unat sz \<le> length buf"
  shows "time_ok time \<Longrightarrow> sz \<noteq> 0 \<Longrightarrow>
      \<exists>k'. map_option (snd \<circ> snd) (rt_mq_send_wait_start i buf sz time k) = Some k' \<and> call_done k k'"
    "locals_ok loc k \<Longrightarrow> sz \<le> ucast (mq_msg_size (msgqueues k i)) \<Longrightarrow>
      \<exists>k'. map_option (snd \<circ> snd) (rt_mq_send_wait_wake i buf sz t loc k) = Some k' \<and> call_done k k'"
    "sz \<noteq> 0 \<Longrightarrow> \<exists>k'. map_option snd (rt_mq_urgent i buf sz k) = Some k' \<and> call_done k k'"
proof -
  note i = sys_invD [OF inv]
  have ok: "mq_ok i k" by (rule object_ok_type(5) [OF i(5) ty])
  have a: "assert_ipc RT_Object_Class_MessageQueue i k = Some ()" "rt_thread_self k = Some t"
    using ok run by (simp_all add: mq_ok_def assert_ipc_ok rt_thread_self_def running_def)
  have go: "\<exists>k'. map_option (snd \<circ> snd) (mq_send_try i buf sz (Some t) (time, td) k) = Some k' \<and> call_done k k'"
    if tm: "time_ok time" and sz: "sz \<le> ucast (mq_msg_size (msgqueues k i))" for time td
  proof (cases "msg_queue_free (msgqueues k i) = None")
    case True
    obtain r loc' k' where "mq_send_try i buf sz (Some t) (time, td) k = Some (r, loc', k')" "kinv {} k'" "mq_ok i k'"
        "ipc_frame i {t} k k'"
      using mq_send_full [OF i(1) ok run i(3) tm True] by blast
    with call_done_ipc [OF inv run this(2) object_okI(5) [OF this(3)] this(4)] show ?thesis by simp
  next
    case False
    obtain k' where "mq_send_try i buf sz (Some t) (time, td) k = Some (Returned RT_EOK, (time, td), k')" "kinv {} k'"
        "mq_ok i k'" "ipc_frame i {t} k k'"
      using mq_send_room [OF i(1) ok i(2) False sz buf] by blast
    with call_done_ipc [OF inv run this(2) object_okI(5) [OF this(3)] this(4)] show ?thesis by simp
  qed
  show "\<exists>k'. map_option (snd \<circ> snd) (rt_mq_send_wait_start i buf sz time k) = Some k' \<and> call_done k k'"
    if "time_ok time" "sz \<noteq> 0"
    using go [OF that(1), of 0] that(2) call_done_refl [OF inv] a by (simp add: rt_mq_send_wait_start_def)
  show "\<exists>k'. map_option (snd \<circ> snd) (rt_mq_send_wait_wake i buf sz t loc k) = Some k' \<and> call_done k k'"
    if l: "locals_ok loc k" and sz: "sz \<le> ucast (mq_msg_size (msgqueues k i))"
  proof (cases "error (threads k t) = RT_EOK")
    case True
    obtain time td where "ipc_locals_after (tick k) loc = (time, td)" "time_ok time" using again_locals [OF l] .
    then show ?thesis using go [of time td] True sz by (simp add: rt_mq_send_wait_wake_def)
  qed (use call_done_refl [OF inv] in \<open>simp add: rt_mq_send_wait_wake_def\<close>)
  show "\<exists>k'. map_option snd (rt_mq_urgent i buf sz k) = Some k' \<and> call_done k k'" if nz: "sz \<noteq> 0"
  proof (cases "sz \<le> ucast (mq_msg_size (msgqueues k i))")
    case True
    obtain r k' where "rt_mq_urgent i buf sz k = Some (r, k')" "kinv {} k'" "mq_ok i k'" "ipc_frame i {t} k k'"
      using mq_urgent_refines [OF i(1) ok i(2) nz True buf] by blast
    from ipc_call [OF inv run this(1,2) object_okI(5) [OF this(3)] this(4)] show ?thesis .
  next
    case False
    then have "ucast (mq_msg_size (msgqueues k i)) < sz" by simp
    then show ?thesis using call_done_refl [OF inv] a nz by (simp add: rt_mq_urgent_def)
  qed
qed

lemma mq_recv_done:
  assumes inv: "sys_inv k" and run: "running k t" and ty: "has_type i RT_Object_Class_MessageQueue k"
  shows "time_ok time \<Longrightarrow> sz \<noteq> 0 \<Longrightarrow>
      \<exists>k'. map_option (snd \<circ> snd \<circ> snd) (rt_mq_recv_start i sz time k) = Some k' \<and> call_done k k'"
    "locals_ok loc k \<Longrightarrow> \<exists>k'. map_option (snd \<circ> snd \<circ> snd) (rt_mq_recv_wake i sz t loc k) = Some k' \<and> call_done k k'"
proof -
  note i = sys_invD [OF inv]
  have ok: "mq_ok i k" by (rule object_ok_type(5) [OF i(5) ty])
  have a: "assert_ipc RT_Object_Class_MessageQueue i k = Some ()" "rt_thread_self k = Some t"
    using ok run by (simp_all add: mq_ok_def assert_ipc_ok rt_thread_self_def running_def)
  have go: "\<exists>k'. map_option (snd \<circ> snd \<circ> snd) (mq_recv_try i sz (Some t) (time, td) k) = Some k' \<and> call_done k k'"
    if tm: "time_ok time" for time td
  proof (cases "mq_content (msgqueues k i)")
    case Nil
    obtain r loc' k' where "mq_recv_try i sz (Some t) (time, td) k = Some (r, None, loc', k')" "kinv {} k'" "mq_ok i k'"
        "ipc_frame i {t} k k'"
      using mq_recv_none [OF i(1) ok run i(3) tm Nil] by blast
    with call_done_ipc [OF inv run this(2) object_okI(5) [OF this(3)] this(4)] show ?thesis by simp
  next
    case (Cons v vs)
    obtain k' where "mq_recv_try i sz (Some t) (time, td) k = Some (Returned RT_EOK, Some (take (unat sz) v), (time, td), k')"
        "kinv {} k'" "mq_ok i k'" "ipc_frame i {t} k k'"
      using mq_recv_some [OF i(1) ok i(2) Cons] by blast
    with call_done_ipc [OF inv run this(2) object_okI(5) [OF this(3)] this(4)] show ?thesis by simp
  qed
  show "\<exists>k'. map_option (snd \<circ> snd \<circ> snd) (rt_mq_recv_start i sz time k) = Some k' \<and> call_done k k'"
    if "time_ok time" "sz \<noteq> 0"
    using go [OF that(1), of 0] that(2) call_done_refl [OF inv] a by (simp add: rt_mq_recv_start_def)
  show "\<exists>k'. map_option (snd \<circ> snd \<circ> snd) (rt_mq_recv_wake i sz t loc k) = Some k' \<and> call_done k k'"
    if l: "locals_ok loc k"
  proof (cases "error (threads k t) = RT_EOK")
    case True
    obtain time td where "ipc_locals_after (tick k) loc = (time, td)" "time_ok time" using again_locals [OF l] .
    then show ?thesis using go [of time td] True by (simp add: rt_mq_recv_wake_def)
  qed (use call_done_refl [OF inv] in \<open>simp add: rt_mq_recv_wake_def\<close>)
qed

lemma call_done_calm: "calm k k' \<Longrightarrow> call_done k k'"
  unfolding calm_def call_done_def by (intro conjI exI [of _ "{}"]) simp_all

lemma calm_call: "\<exists>k'. f = Some (r, k') \<and> calm k k' \<Longrightarrow> \<exists>k'. map_option snd f = Some k' \<and> call_done k k'"
  using call_done_calm by fastforce

lemma calm_result: "\<exists>r k'. f = Some (r, k') \<and> calm k k' \<Longrightarrow> \<exists>k'. map_option snd f = Some k' \<and> call_done k k'"
  using call_done_calm by fastforce

lemma calm_state: "\<exists>k'. f = Some k' \<and> calm k k' \<Longrightarrow> \<exists>k'. f = Some k' \<and> call_done k k'"
  using call_done_calm by blast

text \<open>A continuation whose thread was woken with an error only returns it.\<close>

lemma again_error:
  assumes "sys_inv k" "error (threads k t) \<noteq> RT_EOK"
    and "c = Mb_send_again i v loc \<or> c = Mb_recv_again i loc \<or> c = Mq_send_again i buf sz loc \<or> c = Mq_recv_again i sz loc"
  shows "\<exists>k'. perform t c k = Some k' \<and> call_done k k'"
  using assms(2,3) call_done_refl [OF assms(1)]
  by (auto simp: rt_mb_send_wait_wake_def rt_mb_recv_wake_def rt_mq_send_wait_wake_def rt_mq_recv_wake_def)

lemma again_done:
  assumes inv: "sys_inv k" and run: "running k t" and ok: "permitted t c k"
    and c: "c = Mb_send_again i v loc \<or> c = Mb_recv_again i loc \<or> c = Mq_send_again i buf sz loc \<or> c = Mq_recv_again i sz loc"
  shows "\<exists>k'. perform t c k = Some k' \<and> call_done k k'"
proof (cases "error (threads k t) = RT_EOK")
  case True
  from c show ?thesis
  proof (elim disjE)
    assume "c = Mb_send_again i v loc"
    then show ?thesis using True ok mb_send_done(2) [OF inv run, of i loc v] by simp
  next
    assume "c = Mb_recv_again i loc"
    then show ?thesis using True ok mb_recv_done(2) [OF inv run, of i loc] by simp
  next
    assume "c = Mq_send_again i buf sz loc"
    then show ?thesis using True ok mq_send_done(2) [OF inv run, of i sz buf loc] by simp
  next
    assume "c = Mq_recv_again i sz loc"
    then show ?thesis using True ok mq_recv_done(2) [OF inv run, of i loc sz] by simp
  qed
qed (use again_error [OF inv _ c] in blast)

text \<open>Every permitted call of the running thread returns or blocks, and keeps the invariant.\<close>

lemma perform_object_done:
  assumes inv: "sys_inv k" and ok: "permitted_object c k"
  shows "\<exists>k'. perform_object c k = Some k' \<and> call_done k k'"
proof (cases c)
  case Sem_init
  then show ?thesis using calm_call [OF sem_init_done [OF inv]] ok by simp
next
  case Mutex_init
  then show ?thesis using calm_call [OF mutex_init_done [OF inv]] ok by simp
next
  case Event_init
  then show ?thesis using calm_call [OF event_init_done [OF inv]] ok by simp
next
  case Mb_init
  then show ?thesis using calm_call [OF mb_init_done [OF inv]] ok by simp
next
  case Mq_init
  then show ?thesis using calm_call [OF mq_init_done [OF inv]] ok by simp
next
  case Sem_reset
  then show ?thesis using calm_call [OF sem_reset_done [OF inv]] ok by simp
next
  case Event_reset
  then show ?thesis using calm_call [OF event_reset_done [OF inv]] ok by simp
next
  case Mb_reset
  then show ?thesis using calm_call [OF mb_reset_done [OF inv]] ok by simp
next
  case Mq_reset
  then show ?thesis using calm_call [OF mq_reset_done [OF inv]] ok by simp
next
  case (Sem_detach i)
  then show ?thesis using calm_call [OF detach_done(1) [OF inv]] ok by simp
next
  case (Mutex_detach i)
  then show ?thesis using calm_call [OF detach_done(2) [OF inv]] ok by simp
next
  case (Event_detach i)
  then show ?thesis using calm_call [OF detach_done(3) [OF inv]] ok by simp
next
  case (Mb_detach i)
  then show ?thesis using calm_call [OF detach_done(4) [OF inv]] ok by simp
next
  case (Mq_detach i)
  then show ?thesis using calm_call [OF detach_done(5) [OF inv]] ok by simp
next
  case Sem_create
  then show ?thesis using calm_result [OF sem_create_done [OF inv]] ok by simp
next
  case Mutex_create
  then show ?thesis using calm_result [OF mutex_create_done [OF inv]] ok by simp
next
  case Event_create
  then show ?thesis using calm_result [OF event_create_done [OF inv]] ok by simp
next
  case (Mb_create mem pool name sz flag)
  then show ?thesis using calm_result [OF mb_create_done [OF inv, of mem flag pool sz name]] ok by (cases pool) simp_all
next
  case (Mq_create mem pool name msz n flag)
  then show ?thesis using calm_result [OF mq_create_done [OF inv, of mem flag pool n msz name]] ok by (cases pool) simp_all
next
  case (Sem_delete i)
  then show ?thesis using calm_call [OF delete_done(1) [OF inv]] ok by simp
next
  case (Mutex_delete i)
  then show ?thesis using calm_call [OF delete_done(2) [OF inv]] ok by simp
next
  case (Event_delete i)
  then show ?thesis using calm_call [OF delete_done(3) [OF inv]] ok by simp
next
  case (Mb_delete i)
  then show ?thesis using calm_call [OF delete_done(4) [OF inv]] ok by simp
next
  case (Mq_delete i)
  then show ?thesis using calm_call [OF delete_done(5) [OF inv]] ok by simp
qed

lemma perform_life_done:
  assumes inv: "sys_inv k" and run: "running k t" and ok: "permitted_life t c k"
  shows "\<exists>k'. perform_life t c k = Some k' \<and> call_done k k'"
proof (cases c)
  case Thread_init
  then show ?thesis using calm_call [OF thread_init_done [OF inv]] ok by simp
next
  case (Thread_create mem stack_ok name p v)
  then show ?thesis
    using calm_result [OF thread_create_done [OF inv _ _ _ run, of mem p stack_ok name v]] ok by (cases mem) simp_all
next
  case Thread_startup
  then show ?thesis using calm_call [OF startup_done [OF inv run]] ok by simp
next
  case Thread_exit
  then show ?thesis using calm_state [OF exit_done [OF inv run]] ok by simp
next
  case Thread_detach
  then show ?thesis using calm_call [OF end_done(1) [OF inv]] ok by simp
next
  case Thread_delete
  then show ?thesis using calm_call [OF end_done(2) [OF inv]] ok by simp
next
  case Thread_close
  then show ?thesis using calm_call [OF thread_close_done [OF inv]] ok by (simp del: rt_thread_control.simps)
next
  case Idle_reap
  then show ?thesis using calm_result [OF reap_done [OF inv]] ok by simp
next
  case Timer_init
  then show ?thesis using calm_state [OF timer_init_done [OF inv]] ok by simp
next
  case Timer_detach
  then show ?thesis using calm_call [OF timer_detach_done [OF inv]] ok by simp
next
  case Timer_start
  then show ?thesis using calm_call [OF timer_start_done [OF inv]] ok by simp
next
  case Timer_stop
  then show ?thesis using calm_result [OF timer_stop_done [OF inv]] ok by simp
next
  case (Timer_set_time n v)
  then show ?thesis using timer_set_time_done [OF inv, of n v] ok call_done_calm by fastforce
qed

lemma perform_done:
  assumes inv: "sys_inv k" and run: "running k t" and ok: "permitted t c k"
  shows "\<exists>k'. perform t c k = Some k' \<and> call_done k k'"
proof (cases c)
  case (Suspend s)
  then show ?thesis using suspend_done [OF inv] ok by simp
next
  case (Resume s)
  then show ?thesis using resume_done [OF inv] ok by simp
next
  case Mb_send_again
  then show ?thesis using again_done [OF inv run ok] by simp
next
  case Mb_recv_again
  then show ?thesis using again_done [OF inv run ok] by simp
next
  case Mq_send_again
  then show ?thesis using again_done [OF inv run ok] by simp
next
  case Mq_recv_again
  then show ?thesis using again_done [OF inv run ok] by simp
next
  case (Object c)
  then show ?thesis using perform_object_done [OF inv] ok by simp
next
  case (Life c)
  then show ?thesis using perform_life_done [OF inv run] ok by simp
qed (use ok sleep_done [OF inv run] yield_done [OF inv run] change_priority_done [OF inv]
    sem_calls_done [OF inv run] mutex_calls_done [OF inv run] event_calls_done [OF inv run]
    mb_send_done [OF inv run] mb_recv_done [OF inv run] mq_send_done [OF inv run] mq_recv_done [OF inv run]
    in \<open>simp_all del: rt_thread_control.simps\<close>)

end
