(* ===== verification/RT_Run.thy ===== *)
theory RT_Run
  imports RT_Calls
begin

text \<open>
  Runs of the system: the tick interrupt and the calls of the threads, in any order and on
  any number of objects; threads, objects and timers come and go. Every reachable state
  satisfies the invariant, no permitted call stops in an assertion, and a thread that waits with
  a time limit no longer sleeps when the time is over.
\<close>

section \<open>Runs of the system\<close>

datatype sys_event = Tick_interrupt | Call thread_call

text \<open>The interrupt may come at any moment; a call is made by the thread that runs.\<close>

inductive sys_step :: "(nat \<Rightarrow> kernel \<Rightarrow> kernel option) \<Rightarrow> kernel \<Rightarrow> sys_event \<Rightarrow> kernel \<Rightarrow> bool"
  for cb where
  tick: "timer0_isr cb k = Some k' \<Longrightarrow> sys_step cb k Tick_interrupt k'"
| call: "running k t \<Longrightarrow> permitted t c k \<Longrightarrow> perform t c k = Some k' \<Longrightarrow> sys_step cb k (Call c) k'"

inductive_cases tick_stepE: "sys_step cb k Tick_interrupt k'"
inductive_cases call_stepE: "sys_step cb k (Call c) k'"

inductive sys_run :: "(nat \<Rightarrow> kernel \<Rightarrow> kernel option) \<Rightarrow> kernel \<Rightarrow> sys_event list \<Rightarrow> kernel \<Rightarrow> bool"
  for cb where
  run_nil: "sys_run cb k [] k"
| run_cons: "sys_step cb k e k' \<Longrightarrow> sys_run cb k' es k'' \<Longrightarrow> sys_run cb k (e # es) k''"

inductive_simps sys_run_Nil [simp]: "sys_run cb k [] k'"
inductive_cases sys_run_ConsE: "sys_run cb k (e # es) k''"

definition callbacks_fit :: "(nat \<Rightarrow> kernel \<Rightarrow> kernel option) \<Rightarrow> bool" where
  "callbacks_fit cb \<longleftrightarrow> callbacks_ok cb \<and> callbacks_quiet cb"

lemma tick_done:
  assumes "callbacks_fit cb" "sys_inv k" "timer0_isr cb k = Some k'"
  shows "sys_inv k'" "tick_passed k k'"
  using isr_ok [OF _ _ assms(2), of cb] assms(1,3) by (auto simp: callbacks_fit_def)

lemma step_inv:
  assumes "callbacks_fit cb" "sys_step cb k e k'" "sys_inv k"
  shows "sys_inv k'"
  using assms(2)
proof cases
  case tick
  then show ?thesis using tick_done(1) [OF assms(1,3)] by simp
next
  case (call t c)
  then show ?thesis using perform_done [OF assms(3) call(2,3)] by (auto simp: call_done_def)
qed

lemma run_inv:
  assumes "callbacks_fit cb" "sys_run cb k es k'" "sys_inv k"
  shows "sys_inv k'"
  using assms(2,3) by induction (use step_inv [OF assms(1)] in auto)

lemma step_enabled:
  assumes "callbacks_fit cb" "sys_inv k"
  shows "\<exists>k'. sys_step cb k Tick_interrupt k'"
    "running k t \<Longrightarrow> permitted t c k \<Longrightarrow> \<exists>k'. sys_step cb k (Call c) k'"
proof -
  obtain k' where "timer0_isr cb k = Some k'" using isr_ok [OF _ _ assms(2)] assms(1) by (auto simp: callbacks_fit_def)
  then show "\<exists>k'. sys_step cb k Tick_interrupt k'" by (blast intro: tick)
  show "\<exists>k'. sys_step cb k (Call c) k'" if "running k t" "permitted t c k"
    using perform_done [OF assms(2) that] that by (blast intro: call)
qed

section \<open>Waiting with a time limit\<close>

text \<open>Sleeping with an armed timer; \<open>ticks\<close> counts the interrupts.\<close>

definition sleeps_until :: "kernel \<Rightarrow> tid \<Rightarrow> int \<Rightarrow> bool" where
  "sleeps_until k s n \<longleftrightarrow> asleep k s \<and> ThreadTimer s \<in> set (tlists k HardList) \<and> trem k (ThreadTimer s) = n"

definition ticks :: "sys_event list \<Rightarrow> nat" where
  "ticks es = length (filter (\<lambda>e. e = Tick_interrupt) es)"

lemma ticks_simps [simp]:
  "ticks [] = 0" "ticks (Tick_interrupt # es) = Suc (ticks es)" "ticks (Call c # es) = ticks es"
  by (simp_all add: ticks_def)

lemma tick_sleeper:
  assumes "callbacks_fit cb" "sys_inv k" "sys_step cb k Tick_interrupt k'" "sleeps_until k s n"
  shows "\<not> asleep k' s \<or> sleeps_until k' s (n - 1) \<and> 1 < n"
proof -
  have "timer0_isr cb k = Some k'" using assms(3) by (rule tick_stepE)
  from tick_done(2) [OF assms(1,2) this] have "if trem k (ThreadTimer s) \<le> 1 then \<not> asleep k' s
      else ThreadTimer s \<in> set (tlists k' HardList) \<and> trem k' (ThreadTimer s) = trem k (ThreadTimer s) - 1"
    using assms(4) unfolding tick_passed_def sleeps_until_def by blast
  then show ?thesis using assms(4) by (auto simp: sleeps_until_def split: if_splits)
qed

lemma call_sleeper:
  assumes "sys_inv k" "sys_step cb k (Call c) k'" "sleeps_until k s n"
  shows "\<not> asleep k' s \<or> sleeps_until k' s n"
proof -
  obtain t where "running k t" "permitted t c k" "perform t c k = Some k'" using assms(2) by (rule call_stepE)
  then have "call_done k k'" using perform_done [OF assms(1)] by fastforce
  then obtain X where X: "\<forall>s \<in> X. \<not> asleep k s" "timing X k k'" by (auto simp: call_done_def)
  then have "s \<notin> X" using assms(3) by (auto simp: sleeps_until_def)
  then have "asleep k' s \<Longrightarrow> keeps_deadline k k' s" "tick k' = tick k"
    using X(2) assms(3) by (simp_all add: timing_def sleeps_until_def)
  then show ?thesis using assms(3) by (auto simp: sleeps_until_def keeps_deadline_def trem_def)
qed

lemma sleeper_wakes:
  assumes cb: "callbacks_fit cb"
  shows "sys_run cb k es k' \<Longrightarrow> sys_inv k \<Longrightarrow> sleeps_until k s n \<Longrightarrow> n \<le> int (ticks es) \<Longrightarrow> ticks es \<noteq> 0 \<Longrightarrow>
     \<exists>es1 es2 k1. es = es1 @ es2 \<and> sys_run cb k es1 k1 \<and> sys_run cb k1 es2 k' \<and> \<not> asleep k1 s"
proof (induction arbitrary: n rule: sys_run.induct)
  case (run_cons k e k1 es k2)
  have split: "\<exists>es1 es2 k3. e # es = es1 @ es2 \<and> sys_run cb k es1 k3 \<and> sys_run cb k3 es2 k2 \<and> \<not> asleep k3 s"
    if "\<exists>es1 es2 k3. es = es1 @ es2 \<and> sys_run cb k1 es1 k3 \<and> sys_run cb k3 es2 k2 \<and> \<not> asleep k3 s"
    using that sys_run.run_cons [OF run_cons(1)] by (metis append_Cons)
  have here: ?case if "\<not> asleep k1 s" using split sys_run.run_nil [of cb k1] run_cons(2) that by (metis append_Nil)
  have inv: "sys_inv k1" by (rule step_inv [OF cb run_cons(1,4)])
  show ?case
  proof (cases e)
    case Tick_interrupt
    consider "\<not> asleep k1 s" | "sleeps_until k1 s (n - 1)" "1 < n"
      using tick_sleeper [OF cb run_cons(4) run_cons(1) [unfolded Tick_interrupt] run_cons(5)] by blast
    then show ?thesis
    proof cases
      case 2
      then show ?thesis using split run_cons(3) [OF inv 2(1)] run_cons(6) Tick_interrupt by simp
    qed (rule here)
  next
    case (Call c)
    consider "\<not> asleep k1 s" | "sleeps_until k1 s n"
      using call_sleeper [OF run_cons(4) run_cons(1) [unfolded Call] run_cons(5)] by blast
    then show ?thesis
    proof cases
      case 2
      then show ?thesis using split run_cons(3) [OF inv 2] run_cons(6,7) Call by simp
    qed (rule here)
  qed
qed simp

section \<open>The example system\<close>

lemma ex_object_ok: "object_ok i ex_kernel"
proof (cases "i < 5")
  case True
  then consider "i = 0" | "i = 1" | "i = 2" | "i = 3" | "i = 4" by linarith
  then show ?thesis
    using object_okI ex_sem ex_mutex ex_event ex_mb ex_mq_ok by cases blast+
next
  case False
  then show ?thesis by (simp add: object_ok_def rt_object_get_type_def Let_def)
qed

lemma ex_sys_inv: "sys_inv ex_kernel"
  by (simp add: sys_inv_def ex_kinv ex_object_ok clock_ok_def timers_sorted_def)

lemma callbacks_fit_id: "callbacks_fit (\<lambda>i k. Some k)"
  by (simp add: callbacks_fit_def callbacks_ok_id callbacks_quiet_def quiet_refl)

text \<open>Thread 0 takes the only unit of a semaphore and then waits 5 ticks for another one.\<close>

lemma ex_timed_wait:
  "\<exists>k. sys_run (\<lambda>i k. Some k) ex_kernel [Call (Sem_take 0 0), Call (Sem_take 0 5)] k \<and> sleeps_until k 0 5
     \<and> has_type 0 RT_Object_Class_Semaphore k \<and> queues k (SuspendQ 0) = [0]"
proof -
  let ?cb = "\<lambda>(i::nat) (k::kernel). Some k"
  have t0: "time_ok 0" "time_ok 5" by (simp_all add: time_ok_def)
  let ?k1 = "set_sem_value 0 0 ex_kernel"
  have ty: "rt_object_get_type (OIpc 0) ex_kernel = 2" by (simp add: rt_object_get_type_def)
  have a: "rt_sem_take_start 0 0 ex_kernel = Some (Returned RT_EOK, ?k1)"
    using take_unit(1) [OF ex_kinv ex_sem, of 0] by simp
  have s1: "sys_step ?cb ex_kernel (Call (Sem_take 0 0)) ?k1"
    by (rule call [OF ex_running]) (use a ty t0 in simp_all)
  have inv: "sys_inv ?k1" by (rule step_inv [OF callbacks_fit_id s1 ex_sys_inv])
  have run: "running ?k1 0" using ex_running by (simp add: set_sem_value_def)
  have ty1: "rt_object_get_type (OIpc 0) ?k1 = 2" using ty by (simp add: rt_object_get_type_def)
  obtain k where k: "rt_sem_take_start 0 5 ?k1 = Some (Blocked, k)"
      "blocked (SuspendQ 0) 0 (ipc_flag 0 ?k1) 5 (clear_error 0 ?k1) k"
    using take_blocks [OF sys_invD(1) [OF inv] object_ok_type(1) [OF sys_invD(5) [OF inv] ty1] run sys_invD(3) [OF inv] t0(2)]
    by auto
  have s2: "sys_step ?cb ?k1 (Call (Sem_take 0 5)) k"
    by (rule call [OF run]) (use k(1) ty1 t0 in simp_all)
  have "sleeps_until k 0 5" using k(2) by (simp add: blocked_def sleeps_until_def asleep_def)
  moreover have "has_type 0 RT_Object_Class_Semaphore k"
    using kframe_type [OF blocked_clear(2) [OF k(2)]] ty1 by simp
  moreover have "queues k (SuspendQ 0) = [0]" using blocked_clear(3) [OF k(2)] by (simp add: enlist_def ipc_flag_def)
  moreover have "sys_run ?cb ex_kernel [Call (Sem_take 0 0), Call (Sem_take 0 5)] k"
    by (rule run_cons [OF s1 run_cons [OF s2 run_nil]])
  ultimately show ?thesis by blast
qed

section \<open>Properties\<close>

text \<open>
  C1. Nothing stops the system. A run starts in a consistent state and is any sequence of tick
  interrupts and of permitted calls of the running thread, on any number of objects. The calls
  (\<open>thread_call\<close>) are: sleep, yield, suspend, resume, change of priority; the operations on
  semaphores, mutexes, event groups, mailboxes and message queues, and their init, create,
  reset, detach and delete; init, create, startup, exit, detach, delete and close of threads,
  and the reaping of deleted threads by the idle thread; init, detach, start, stop and a new
  period of timers of the application. In every state that a run reaches the tick interrupt
  returns, and every permitted call of the running thread returns or blocks: no assertion of
  the kernel fails, no loop runs for ever, no null pointer is followed.
  \<open>permitted\<close> is what the callers must respect: the objects exist and are of the right class,
  memory that is initialised is not registered yet, limits and priorities are in range, and a
  thread that ends has been started, owns no mutex and is not the thread of the soft timers
  (a dead owner would stop the next more urgent taker in the assertion of
  \<open>rt_thread_control\<close>). The functions of application timers are assumed to return, to keep the
  kernel's invariant, and to leave timers, objects and the tick alone and put no thread to sleep
  (\<open>callbacks_fit\<close>). Critical sections, memory pools, cleanup functions of threads and the loop of
  the soft-timer thread are not among the calls.
\<close>

theorem system_never_stuck:
  assumes "callbacks_fit cb" "sys_inv k0" "sys_run cb k0 es k"
  shows "timer0_isr cb k \<noteq> None \<and> (\<forall>t c. running k t \<longrightarrow> permitted t c k \<longrightarrow> perform t c k \<noteq> None)"
proof -
  have inv: "sys_inv k" by (rule run_inv [OF assms(1,3,2)])
  have "timer0_isr cb k \<noteq> None" using isr_ok [OF _ _ inv, of cb] assms(1) by (auto simp: callbacks_fit_def)
  moreover have "perform t c k \<noteq> None" if "running k t" "permitted t c k" for t c
    using perform_done [OF inv that] by auto
  ultimately show ?thesis by blast
qed

theorem system_never_stuck_witness:
  "\<exists>k. sys_run (\<lambda>i k. Some k) ex_kernel [Call (Sem_take 0 0), Call (Sem_take 0 5)] k
     \<and> timer0_isr (\<lambda>i k. Some k) k \<noteq> None \<and> perform 0 (Life Thread_exit) ex_kernel \<noteq> None"
proof -
  obtain k where k: "sys_run (\<lambda>i k. Some k) ex_kernel [Call (Sem_take 0 0), Call (Sem_take 0 5)] k"
    using ex_timed_wait by blast
  have "permitted 0 (Life Thread_exit) ex_kernel"
    by (auto simp: may_end_def ex_live owns_mutex_def rt_object_get_type_def split: if_splits)
  then have "perform 0 (Life Thread_exit) ex_kernel \<noteq> None"
    using system_never_stuck [OF callbacks_fit_id ex_sys_inv run_nil] ex_running by blast
  then show ?thesis using system_never_stuck [OF callbacks_fit_id ex_sys_inv k] k by blast
qed

text \<open>
  C2. What holds in every state reached by such a run (tick interrupts and permitted calls of
  \<open>thread_call\<close>, so that in particular no thread ends while it owns a mutex; timer functions
  that satisfy \<open>callbacks_fit\<close>): a thread is in at most one list; whoever
  waits on an object is suspended; nobody waits on a semaphore that has units, on a free
  mutex, on a mutex it holds, or for events that have already come; a mutex that is held is held
  by a registered thread, which a thread that exits as owner would break; mailboxes and message queues hold no more than they have room for; an armed
  thread timer belongs to a suspended thread and is not overdue; and no two threads run.
\<close>

theorem system_consistent:
  assumes "callbacks_fit cb" "sys_inv k0" "sys_run cb k0 es k"
  shows "(\<forall>s g h. s \<in> set (queues k g) \<longrightarrow> s \<in> set (queues k h) \<longrightarrow> g = h)
     \<and> (\<forall>i s. s \<in> set (queues k (SuspendQ i)) \<union> set (queues k (SenderQ i)) \<longrightarrow>
          live k s \<and> tstate (threads k s) = RT_THREAD_SUSPEND)
     \<and> (\<forall>i. has_type i RT_Object_Class_Semaphore k \<longrightarrow> queues k (SuspendQ i) \<noteq> [] \<longrightarrow> sem_value (sems k i) = 0)
     \<and> (\<forall>i. has_type i RT_Object_Class_Mutex k \<longrightarrow>
          (case owner (mutexes k i) of None \<Rightarrow> queues k (SuspendQ i) = []
           | Some q \<Rightarrow> live k q \<and> hold (mutexes k i) \<noteq> 0 \<and> q \<notin> set (queues k (SuspendQ i))))
     \<and> (\<forall>i. has_type i RT_Object_Class_Event k \<longrightarrow> (\<forall>s \<in> set (queues k (SuspendQ i)).
          \<not> ev_sat (ev_set (events k i)) (event_set (threads k s)) (event_info (threads k s))))
     \<and> (\<forall>i. has_type i RT_Object_Class_MailBox k \<longrightarrow> mb_entry (mailboxes k i) \<le> mb_size (mailboxes k i))
     \<and> (\<forall>i. has_type i RT_Object_Class_MessageQueue k \<longrightarrow> mq_entry (msgqueues k i) \<le> max_msgs (msgqueues k i))
     \<and> (\<forall>s. ThreadTimer s \<in> set (tlists k HardList) \<longrightarrow>
          tstate (threads k s) = RT_THREAD_SUSPEND \<and> 0 \<le> trem k (ThreadTimer s))
     \<and> (\<forall>s t. live k s \<longrightarrow> live k t \<longrightarrow> tstate (threads k s) = RT_THREAD_RUNNING \<longrightarrow>
          tstate (threads k t) = RT_THREAD_RUNNING \<longrightarrow> s = t)"
proof (intro conjI allI impI)
  have inv: "sys_inv k" by (rule run_inv [OF assms(1,3,2)])
  note i = sys_invD [OF inv] and o = object_ok_type [OF sys_invD(5) [OF inv]]
  show "g = h" if "s \<in> set (queues k g)" "s \<in> set (queues k h)" for s g h
    using wait_queues_disjoint [OF i(1) that(1), of h] that(2) by auto
  show "live k s" "tstate (threads k s) = RT_THREAD_SUSPEND"
    if "s \<in> set (queues k (SuspendQ i)) \<union> set (queues k (SenderQ i))" for i s
    using waiter_suspended(1,2) [OF i(1), of s] that by auto
  show "sem_value (sems k i) = 0" if "has_type i RT_Object_Class_Semaphore k" "queues k (SuspendQ i) \<noteq> []" for i
    using o(1) [OF that(1)] that(2) by (simp add: sem_ok_def)
  show "case owner (mutexes k i) of None \<Rightarrow> queues k (SuspendQ i) = []
           | Some q \<Rightarrow> live k q \<and> hold (mutexes k i) \<noteq> 0 \<and> q \<notin> set (queues k (SuspendQ i))"
    if "has_type i RT_Object_Class_Mutex k" for i
    using o(2) [OF that] by (auto simp: mutex_ok_def held_by_def free_mutex_def)
  show "\<forall>s \<in> set (queues k (SuspendQ i)). \<not> ev_sat (ev_set (events k i)) (event_set (threads k s)) (event_info (threads k s))"
    if "has_type i RT_Object_Class_Event k" for i
    using o(3) [OF that] by (simp add: event_ok_def)
  show "mb_entry (mailboxes k i) \<le> mb_size (mailboxes k i)" if "has_type i RT_Object_Class_MailBox k" for i
    using o(4) [OF that] by (simp add: mb_ok_def mb_wf_def)
  show "mq_entry (msgqueues k i) \<le> max_msgs (msgqueues k i)"
    if ty: "has_type i RT_Object_Class_MessageQueue k" for i
  proof -
    obtain qs fs where l: "mq_lists (msgqueues k i) qs fs" using o(5) [OF ty] by (auto simp: mq_ok_def mq_wf_def)
    show ?thesis using mq_listsD(6) [OF l] mq_lists_length [OF l] by (simp add: word_le_nat_alt)
  qed
  show "tstate (threads k s) = RT_THREAD_SUSPEND" "0 \<le> trem k (ThreadTimer s)"
    if "ThreadTimer s \<in> set (tlists k HardList)" for s
    using kinv_timer_suspended [OF i(1) that] i(4) that by (auto simp: clock_ok_def)
  show "s = t" if "live k s" "live k t" "tstate (threads k s) = RT_THREAD_RUNNING" "tstate (threads k t) = RT_THREAD_RUNNING" for s t
  proof -
    have "live k u \<Longrightarrow> tstate (threads k u) = RT_THREAD_RUNNING \<Longrightarrow> current_thread k = Some u" for u
      using kinv_parts(1) [OF i(1)] by (simp add: sched_inv_def one_running_def)
    from this [OF that(1,3)] this [OF that(2,4)] show ?thesis by simp
  qed
qed

theorem system_consistent_witness:
  "\<exists>k. sys_run (\<lambda>i k. Some k) ex_kernel [Call (Sem_take 0 0), Call (Sem_take 0 5)] k
     \<and> queues k (SuspendQ 0) = [0] \<and> sem_value (sems k 0) = 0 \<and> tstate (threads k 0) = RT_THREAD_SUSPEND"
proof -
  obtain k where k: "sys_run (\<lambda>i k. Some k) ex_kernel [Call (Sem_take 0 0), Call (Sem_take 0 5)] k"
      "has_type 0 RT_Object_Class_Semaphore k" "queues k (SuspendQ 0) = [0]"
    using ex_timed_wait by blast
  have "0 \<in> set (queues k (SuspendQ 0)) \<union> set (queues k (SenderQ 0))" "queues k (SuspendQ 0) \<noteq> []"
    using k(3) by simp_all
  with system_consistent [OF callbacks_fit_id ex_sys_inv k(1)] k show ?thesis by blast
qed

text \<open>
  C3. Bounded waiting, in the runs of the two properties above (permitted calls of
  \<open>thread_call\<close>, timer functions that satisfy \<open>callbacks_fit\<close>): a thread that sleeps with its timer
  due in \<open>n\<close> ticks no longer sleeps at some moment of every run with at least \<open>n\<close> ticks (and at
  least one). By then it has been woken, or another thread has ended it: detaching, deleting or
  closing the sleeper takes its timer away and closes the thread in one step. No other call
  puts off or cancels the timer of a thread that stays asleep.
\<close>

theorem timed_wait_ends:
  assumes "callbacks_fit cb" "sys_inv k" "sleeps_until k s n"
    and "sys_run cb k es k'" "n \<le> int (ticks es)" "ticks es \<noteq> 0"
  shows "\<exists>es1 es2 k1. es = es1 @ es2 \<and> sys_run cb k es1 k1 \<and> sys_run cb k1 es2 k' \<and> \<not> asleep k1 s"
  using sleeper_wakes [OF assms(1,4,2,3,5,6)] .

lemma ticks_run:
  assumes "callbacks_fit cb"
  shows "sys_inv k \<Longrightarrow> \<exists>k'. sys_run cb k (replicate n Tick_interrupt) k'"
proof (induction n arbitrary: k)
  case (Suc n)
  obtain k1 where k1: "sys_step cb k Tick_interrupt k1" using step_enabled(1) [OF assms Suc(2)] by blast
  obtain k' where "sys_run cb k1 (replicate n Tick_interrupt) k'" using Suc(1) step_inv [OF assms k1 Suc(2)] by blast
  then show ?case using run_cons [OF k1] by auto
qed (auto intro: run_nil)

theorem timed_wait_ends_witness:
  "\<exists>k es1 k1. sys_run (\<lambda>i k. Some k) ex_kernel [Call (Sem_take 0 0), Call (Sem_take 0 5)] k \<and> asleep k 0
     \<and> sys_run (\<lambda>i k. Some k) k es1 k1 \<and> \<not> asleep k1 0"
proof -
  let ?cb = "\<lambda>(i::nat) (k::kernel). Some k"
  obtain k where k: "sys_run ?cb ex_kernel [Call (Sem_take 0 0), Call (Sem_take 0 5)] k" "sleeps_until k 0 5"
    using ex_timed_wait by blast
  have inv: "sys_inv k" by (rule run_inv [OF callbacks_fit_id k(1) ex_sys_inv])
  obtain k' where "sys_run ?cb k (replicate 5 Tick_interrupt) k'" using ticks_run [OF callbacks_fit_id inv] by blast
  moreover have "ticks (replicate 5 Tick_interrupt) = 5" by (simp add: ticks_def)
  ultimately show ?thesis
    using timed_wait_ends [OF callbacks_fit_id inv k(2), of "replicate 5 Tick_interrupt" k'] k by (auto simp: sleeps_until_def)
qed

end
