(* ===== verification/RT_Ringbuffer.thy ===== *)
theory RT_Ringbuffer
  imports RT_Prelude
begin

text \<open>
  \<open>components/drivers/src/ringbuffer.c\<close>: the byte ring buffer with mirror bits that
  the serial, pipe and audio drivers use. Indices are 15-bit fields and the size is a
  positive 16-bit integer; both are natural numbers here, with the truncation of the
  bit fields written out; so are the lengths, 16-bit integers in the code. A mirror bit is a boolean. The C function writes through
  pointers; the model returns the new buffer and the bytes read.
\<close>

section \<open>State\<close>

record rt_ringbuffer =
  buffer_ptr :: "u8 list"
  read_mirror :: bool
  read_index :: nat
  write_mirror :: bool
  write_index :: nat
  buffer_size :: nat

datatype rt_ringbuffer_state =
  RT_RINGBUFFER_EMPTY | RT_RINGBUFFER_FULL | RT_RINGBUFFER_HALFFULL

definition trunc15 :: "nat \<Rightarrow> nat" where
  "trunc15 n = n mod 2 ^ 15"

lemma trunc15_id [simp]: "n < 32768 \<Longrightarrow> trunc15 n = n"
  by (simp add: trunc15_def)

section \<open>Operations\<close>

definition rt_ringbuffer_status :: "rt_ringbuffer \<Rightarrow> rt_ringbuffer_state" where
  "rt_ringbuffer_status rb =
     (if read_index rb = write_index rb
      then if read_mirror rb = write_mirror rb then RT_RINGBUFFER_EMPTY else RT_RINGBUFFER_FULL
      else RT_RINGBUFFER_HALFFULL)"

definition rt_ringbuffer_data_len :: "rt_ringbuffer \<Rightarrow> nat" where
  "rt_ringbuffer_data_len rb =
     (case rt_ringbuffer_status rb of
        RT_RINGBUFFER_EMPTY \<Rightarrow> 0
      | RT_RINGBUFFER_FULL \<Rightarrow> buffer_size rb
      | RT_RINGBUFFER_HALFFULL \<Rightarrow>
          if write_index rb > read_index rb then write_index rb - read_index rb
          else buffer_size rb - (read_index rb - write_index rb))"

definition rt_ringbuffer_space_len :: "rt_ringbuffer \<Rightarrow> nat" where
  "rt_ringbuffer_space_len rb = buffer_size rb - rt_ringbuffer_data_len rb"

definition rt_ringbuffer_get_size :: "rt_ringbuffer \<Rightarrow> nat" where
  "rt_ringbuffer_get_size rb = buffer_size rb"

text \<open>\<open>rt_ringbuffer_init\<close> asserts a positive size and rounds it down to a multiple of
  \<open>RT_ALIGN_SIZE\<close>, which is 8.\<close>

definition rt_ringbuffer_init :: "u8 list \<Rightarrow> int \<Rightarrow> rt_ringbuffer option" where
  "rt_ringbuffer_init pool sz =
     do { rt_assert (sz > 0);
          Some \<lparr>buffer_ptr = pool, read_mirror = False, read_index = 0,
                write_mirror = False, write_index = 0,
                buffer_size = unat (RT_ALIGN_DOWN (word_of_int sz) RT_ALIGN_SIZE)\<rparr> }"

definition rt_ringbuffer_reset :: "rt_ringbuffer \<Rightarrow> rt_ringbuffer" where
  "rt_ringbuffer_reset rb =
     rb\<lparr>read_mirror := False, read_index := 0, write_mirror := False, write_index := 0\<rparr>"

definition rt_ringbuffer_put :: "rt_ringbuffer \<Rightarrow> u8 list \<Rightarrow> nat \<Rightarrow> nat \<times> rt_ringbuffer" where
  "rt_ringbuffer_put rb ptr len =
     (let sz = rt_ringbuffer_space_len rb in
      if sz = 0 then (0, rb)
      else
        let len = (if sz < len then sz else len) in
        if buffer_size rb - write_index rb > len
        then (len, rb\<lparr>buffer_ptr := blit (buffer_ptr rb) (write_index rb) (take len ptr),
                      write_index := trunc15 (write_index rb + len)\<rparr>)
        else
          let n = buffer_size rb - write_index rb;
              pool = blit (buffer_ptr rb) (write_index rb) (take n ptr);
              pool = blit pool 0 (take (len - n) (drop n ptr))
          in (len, rb\<lparr>buffer_ptr := pool, write_mirror := \<not> write_mirror rb,
                      write_index := trunc15 (len - n)\<rparr>))"

definition rt_ringbuffer_put_force :: "rt_ringbuffer \<Rightarrow> u8 list \<Rightarrow> nat \<Rightarrow> nat \<times> rt_ringbuffer" where
  "rt_ringbuffer_put_force rb ptr len =
     (let space_length = rt_ringbuffer_space_len rb;
          ptr = (if len > buffer_size rb then drop (len - buffer_size rb) ptr else ptr);
          len = (if len > buffer_size rb then buffer_size rb else len) in
      if buffer_size rb - write_index rb > len
      then
        let w = trunc15 (write_index rb + len);
            rb' = rb\<lparr>buffer_ptr := blit (buffer_ptr rb) (write_index rb) (take len ptr),
                     write_index := w\<rparr>
        in (len, if len > space_length then rb'\<lparr>read_index := w\<rparr> else rb')
      else
        let n = buffer_size rb - write_index rb;
            pool = blit (buffer_ptr rb) (write_index rb) (take n ptr);
            pool = blit pool 0 (take (len - n) (drop n ptr));
            w = trunc15 (len - n);
            rb' = rb\<lparr>buffer_ptr := pool, write_mirror := \<not> write_mirror rb, write_index := w\<rparr>
        in (len, if len > space_length
                 then rb'\<lparr>read_mirror := \<not> read_mirror rb', read_index := w\<rparr> else rb'))"

definition rt_ringbuffer_get :: "rt_ringbuffer \<Rightarrow> nat \<Rightarrow> nat \<times> u8 list \<times> rt_ringbuffer" where
  "rt_ringbuffer_get rb len =
     (let sz = rt_ringbuffer_data_len rb in
      if sz = 0 then (0, [], rb)
      else
        let len = (if sz < len then sz else len) in
        if buffer_size rb - read_index rb > len
        then (len, take len (drop (read_index rb) (buffer_ptr rb)),
              rb\<lparr>read_index := trunc15 (read_index rb + len)\<rparr>)
        else
          let n = buffer_size rb - read_index rb in
          (len, take n (drop (read_index rb) (buffer_ptr rb)) @ take (len - n) (buffer_ptr rb),
           rb\<lparr>read_mirror := \<not> read_mirror rb, read_index := trunc15 (len - n)\<rparr>))"

text \<open>\<open>rt_ringbuffer_peak\<close> returns a pointer into the pool: the offset, and how many bytes
  may be read there.\<close>

definition rt_ringbuffer_peak :: "rt_ringbuffer \<Rightarrow> nat \<times> nat option \<times> rt_ringbuffer" where
  "rt_ringbuffer_peak rb =
     (let sz = rt_ringbuffer_data_len rb in
      if sz = 0 then (0, None, rb)
      else if buffer_size rb - read_index rb > sz
        then (sz, Some (read_index rb), rb\<lparr>read_index := trunc15 (read_index rb + sz)\<rparr>)
      else (buffer_size rb - read_index rb, Some (read_index rb),
            rb\<lparr>read_mirror := \<not> read_mirror rb, read_index := 0\<rparr>))"

definition rt_ringbuffer_putchar :: "rt_ringbuffer \<Rightarrow> u8 \<Rightarrow> nat \<times> rt_ringbuffer" where
  "rt_ringbuffer_putchar rb ch =
     (if rt_ringbuffer_space_len rb = 0 then (0, rb)
      else
        let rb = rb\<lparr>buffer_ptr := (buffer_ptr rb)[write_index rb := ch]\<rparr> in
        if write_index rb = buffer_size rb - 1
        then (1, rb\<lparr>write_mirror := \<not> write_mirror rb, write_index := 0\<rparr>)
        else (1, rb\<lparr>write_index := trunc15 (write_index rb + 1)\<rparr>))"

definition rt_ringbuffer_putchar_force :: "rt_ringbuffer \<Rightarrow> u8 \<Rightarrow> nat \<times> rt_ringbuffer" where
  "rt_ringbuffer_putchar_force rb ch =
     (let old_state = rt_ringbuffer_status rb;
          rb = rb\<lparr>buffer_ptr := (buffer_ptr rb)[write_index rb := ch]\<rparr> in
      if write_index rb = buffer_size rb - 1
      then
        let rb = rb\<lparr>write_mirror := \<not> write_mirror rb, write_index := 0\<rparr> in
        (1, if old_state = RT_RINGBUFFER_FULL
            then rb\<lparr>read_mirror := \<not> read_mirror rb, read_index := write_index rb\<rparr> else rb)
      else
        let rb = rb\<lparr>write_index := trunc15 (write_index rb + 1)\<rparr> in
        (1, if old_state = RT_RINGBUFFER_FULL then rb\<lparr>read_index := write_index rb\<rparr> else rb))"

definition rt_ringbuffer_getchar :: "rt_ringbuffer \<Rightarrow> nat \<times> u8 list \<times> rt_ringbuffer" where
  "rt_ringbuffer_getchar rb =
     (if rt_ringbuffer_data_len rb = 0 then (0, [], rb)
      else
        let ch = buffer_ptr rb ! read_index rb in
        if read_index rb = buffer_size rb - 1
        then (1, [ch], rb\<lparr>read_mirror := \<not> read_mirror rb, read_index := 0\<rparr>)
        else (1, [ch], rb\<lparr>read_index := trunc15 (read_index rb + 1)\<rparr>))"

section \<open>Invariant and contents\<close>

definition rb_inv :: "rt_ringbuffer \<Rightarrow> bool" where
  "rb_inv rb \<longleftrightarrow> length (buffer_ptr rb) = buffer_size rb \<and> 0 < buffer_size rb \<and> buffer_size rb < 2 ^ 15
     \<and> read_index rb < buffer_size rb \<and> write_index rb < buffer_size rb
     \<and> (read_mirror rb = write_mirror rb \<longrightarrow> read_index rb \<le> write_index rb)
     \<and> (read_mirror rb \<noteq> write_mirror rb \<longrightarrow> write_index rb \<le> read_index rb)"

text \<open>The bytes in the buffer, oldest first: from the read index on, around the end.\<close>

definition rb_list :: "rt_ringbuffer \<Rightarrow> u8 list" where
  "rb_list rb = take (rt_ringbuffer_data_len rb)
     (drop (read_index rb) (buffer_ptr rb) @ take (read_index rb) (buffer_ptr rb))"

lemma data_len_inv:
  "rb_inv rb \<Longrightarrow> rt_ringbuffer_data_len rb =
     (if read_mirror rb = write_mirror rb then write_index rb - read_index rb
      else buffer_size rb - (read_index rb - write_index rb))"
  by (auto simp: rb_inv_def rt_ringbuffer_data_len_def rt_ringbuffer_status_def)

lemma length_rb_list: "rb_inv rb \<Longrightarrow> length (rb_list rb) = rt_ringbuffer_data_len rb"
  by (auto simp: rb_list_def data_len_inv rb_inv_def)

lemma data_len_le: "rb_inv rb \<Longrightarrow> rt_ringbuffer_data_len rb \<le> buffer_size rb"
  by (auto simp: data_len_inv rb_inv_def)

lemma space_len_inv: "rb_inv rb \<Longrightarrow> rt_ringbuffer_space_len rb = buffer_size rb - length (rb_list rb)"
  by (simp add: rt_ringbuffer_space_len_def length_rb_list)

text \<open>The two shapes the contents have: one block, or two around the end.\<close>

lemma rb_list_same:
  "rb_inv rb \<Longrightarrow> read_mirror rb = write_mirror rb \<Longrightarrow>
     rb_list rb = take (write_index rb - read_index rb) (drop (read_index rb) (buffer_ptr rb))"
  by (auto simp: rb_list_def data_len_inv rb_inv_def)

lemma rb_list_diff:
  "rb_inv rb \<Longrightarrow> read_mirror rb \<noteq> write_mirror rb \<Longrightarrow>
     rb_list rb = drop (read_index rb) (buffer_ptr rb) @ take (write_index rb) (buffer_ptr rb)"
  by (auto simp: rb_list_def data_len_inv rb_inv_def min_def)

lemma rb_cases [consumes 1, case_names same diff]:
  assumes "rb_inv rb"
  obtains "length (buffer_ptr rb) = buffer_size rb" "buffer_size rb < 32768"
      "read_index rb < buffer_size rb" "write_index rb < buffer_size rb"
      "read_mirror rb = write_mirror rb" "read_index rb \<le> write_index rb"
      "rt_ringbuffer_data_len rb = write_index rb - read_index rb"
      "rb_list rb = take (write_index rb - read_index rb) (drop (read_index rb) (buffer_ptr rb))"
    | "length (buffer_ptr rb) = buffer_size rb" "buffer_size rb < 32768"
      "read_index rb < buffer_size rb" "write_index rb < buffer_size rb"
      "read_mirror rb \<noteq> write_mirror rb" "write_index rb \<le> read_index rb"
      "rt_ringbuffer_data_len rb = buffer_size rb - (read_index rb - write_index rb)"
      "rb_list rb = drop (read_index rb) (buffer_ptr rb) @ take (write_index rb) (buffer_ptr rb)"
  using assms rb_list_same rb_list_diff data_len_inv by (auto simp: rb_inv_def)

lemma rb_status_empty: "rb_inv rb \<Longrightarrow> rt_ringbuffer_status rb = RT_RINGBUFFER_EMPTY \<longleftrightarrow> rb_list rb = []"
  by (cases rb rule: rb_cases) (auto simp: rt_ringbuffer_status_def rb_inv_def)

lemma rb_status_full:
  "rb_inv rb \<Longrightarrow> rt_ringbuffer_status rb = RT_RINGBUFFER_FULL \<longleftrightarrow> length (rb_list rb) = buffer_size rb"
  by (cases rb rule: rb_cases) (auto simp: rt_ringbuffer_status_def rb_inv_def)

section \<open>Blocks in the pool\<close>

lemma take_drop_blit:
  assumes "r \<le> w" "w + length xs \<le> length p"
  shows "take (w + length xs - r) (drop r (blit p w xs)) = take (w - r) (drop r p) @ xs"
proof -
  have "min (length p) w = w" using assms by simp
  then show ?thesis using assms by (simp add: blit_def drop_take)
qed

lemma drop_blit_end:
  assumes "r \<le> w" "w + length xs = length p"
  shows "drop r (blit p w xs) = take (w - r) (drop r p) @ xs"
proof -
  have "min (length p) w = w" using assms by simp
  then show ?thesis using assms by (simp add: blit_def drop_take)
qed

lemma take_blit_end:
  assumes "w + length xs \<le> length p"
  shows "take (w + length xs) (blit p w xs) = take w p @ xs"
proof -
  have "min (length p) w = w" using assms by simp
  then show ?thesis using assms by (simp add: blit_def)
qed

lemma list_update_blit: "i < length p \<Longrightarrow> p[i := x] = blit p i [x]"
  by (simp add: blit_def upd_conv_take_nth_drop)

section \<open>Writing\<close>

text \<open>The state after a write that stays before the end, and after one that goes around.\<close>

lemma rb_write_straight:
  assumes "rb_inv rb" "length xs \<le> rt_ringbuffer_space_len rb" "write_index rb + length xs < buffer_size rb"
    and "rb' = rb\<lparr>buffer_ptr := blit (buffer_ptr rb) (write_index rb) xs,
                  write_index := write_index rb + length xs\<rparr>"
  shows "rb_inv rb'" "rb_list rb' = rb_list rb @ xs"
proof -
  show inv: "rb_inv rb'"
    using assms by (cases rb rule: rb_cases)
      (auto simp: rb_inv_def rt_ringbuffer_space_len_def)
  from assms(1) show "rb_list rb' = rb_list rb @ xs"
  proof (cases rb rule: rb_cases)
    case same
    then show ?thesis
      using assms inv by (simp add: rb_list_same take_drop_blit rb_inv_def)
  next
    case diff
    then show ?thesis
      using assms inv
      by (simp add: rb_list_diff take_blit_end drop_blit rb_inv_def rt_ringbuffer_space_len_def)
  qed
qed

lemma rb_write_around:
  assumes "rb_inv rb" "length xs + length ys \<le> rt_ringbuffer_space_len rb"
    and "write_index rb + length xs = buffer_size rb"
    and "rb' = rb\<lparr>buffer_ptr := blit (blit (buffer_ptr rb) (write_index rb) xs) 0 ys,
                  write_mirror := \<not> write_mirror rb, write_index := length ys\<rparr>"
  shows "rb_inv rb'" "rb_list rb' = rb_list rb @ xs @ ys"
proof -
  have same: "read_mirror rb = write_mirror rb" "length ys \<le> read_index rb" "read_index rb \<le> write_index rb"
    using assms by (cases rb rule: rb_cases; auto simp: rt_ringbuffer_space_len_def)+
  show inv: "rb_inv rb'" using assms same by (auto simp: rb_inv_def)
  have "drop (read_index rb) (blit (blit (buffer_ptr rb) (write_index rb) xs) 0 ys)
      = drop (read_index rb) (blit (buffer_ptr rb) (write_index rb) xs)"
    using assms same by (intro drop_blit) (auto simp: rb_inv_def)
  also have "\<dots> = rb_list rb @ xs"
    using assms same by (simp add: drop_blit_end rb_list_same rb_inv_def)
  finally show "rb_list rb' = rb_list rb @ xs @ ys"
    using assms inv same take_blit_end [of 0 ys "blit (buffer_ptr rb) (write_index rb) xs"]
    by (simp add: rb_list_diff rb_inv_def)
qed

text \<open>How many bytes a write accepts, and the two ways they are stored.\<close>

lemma rt_ringbuffer_put_eq:
  assumes "rb_inv rb" "n = min len (rt_ringbuffer_space_len rb)" "k = buffer_size rb - write_index rb"
  shows "rt_ringbuffer_put rb ptr len =
    (if rt_ringbuffer_space_len rb = 0 then (0, rb)
     else if n < k
     then (n, rb\<lparr>buffer_ptr := blit (buffer_ptr rb) (write_index rb) (take n ptr),
                 write_index := write_index rb + n\<rparr>)
     else (n, rb\<lparr>buffer_ptr := blit (blit (buffer_ptr rb) (write_index rb) (take k ptr)) 0
                               (take (n - k) (drop k ptr)),
                 write_mirror := \<not> write_mirror rb, write_index := n - k\<rparr>))"
proof -
  have n: "(if rt_ringbuffer_space_len rb < len then rt_ringbuffer_space_len rb else len) = n"
    using assms(2) by auto
  have "n \<le> buffer_size rb" "buffer_size rb < 32768"
    using assms by (auto simp: rb_inv_def rt_ringbuffer_space_len_def)
  then have "n < k \<Longrightarrow> trunc15 (write_index rb + n) = write_index rb + n" "trunc15 (n - k) = n - k"
    using assms(3) by (auto intro!: trunc15_id)
  then show ?thesis
    unfolding rt_ringbuffer_put_def Let_def n assms(3) [symmetric] by simp
qed

lemma put_appends:
  assumes "rb_inv rb" and "len \<le> length ptr"
    and "n = min len (buffer_size rb - length (rb_list rb))"
    and "rt_ringbuffer_put rb ptr len = (k, rb')"
  shows "k = n \<and> rb_inv rb' \<and> rb_list rb' = rb_list rb @ take n ptr"
proof -
  have sp: "rt_ringbuffer_space_len rb = buffer_size rb - length (rb_list rb)"
    by (rule space_len_inv [OF assms(1)])
  then have n: "n = min len (rt_ringbuffer_space_len rb)" using assms(3) by simp
  let ?k = "buffer_size rb - write_index rb"
  have w: "write_index rb + ?k = buffer_size rb" using assms(1) by (simp add: rb_inv_def)
  have ptr: "take n ptr = take ?k ptr @ take (n - ?k) (drop ?k ptr)" if "?k \<le> n"
    using that by (metis le_add_diff_inverse take_add)
  note put = rt_ringbuffer_put_eq [OF assms(1) n refl]
  have nle: "length (take n ptr) = n" "n \<le> rt_ringbuffer_space_len rb" using n assms(2) by auto
  show ?thesis
  proof (cases "rt_ringbuffer_space_len rb = 0")
    case True
    then show ?thesis using assms(1,4) n by (simp add: rt_ringbuffer_put_def)
  next
    case False
    show ?thesis
    proof (cases "n < ?k")
      case True
      then have "k = n" "rb' = rb\<lparr>buffer_ptr := blit (buffer_ptr rb) (write_index rb) (take n ptr),
          write_index := write_index rb + length (take n ptr)\<rparr>"
        using assms(4) False nle(1) by (auto simp: put)
      with rb_write_straight [OF assms(1) _ _ this(2)] True nle show ?thesis by simp
    next
      case around: False
      then have "length (take ?k ptr) = ?k" and l: "length (take (n - ?k) (drop ?k ptr)) = n - ?k"
        using nle by auto
      moreover have "k = n" "rb' = rb\<lparr>buffer_ptr := blit (blit (buffer_ptr rb) (write_index rb) (take ?k ptr)) 0
            (take (n - ?k) (drop ?k ptr)), write_mirror := \<not> write_mirror rb,
            write_index := length (take (n - ?k) (drop ?k ptr))\<rparr>"
        using assms(4) False around l by (auto simp: put)
      ultimately show ?thesis
        using rb_write_around [OF assms(1), of "take ?k ptr" "take (n - ?k) (drop ?k ptr)" rb'] around nle w ptr
        by simp
    qed
  qed
qed

text \<open>An example: eight bytes of room, one stored byte just before the end.\<close>

definition rb_ex :: rt_ringbuffer where
  "rb_ex = \<lparr>buffer_ptr = [10, 11, 12, 13, 14, 15, 16, 17], read_mirror = False, read_index = 6,
     write_mirror = False, write_index = 7, buffer_size = 8\<rparr>"

lemma rb_ex_facts [simp]: "rb_inv rb_ex" "rb_list rb_ex = [16]" "buffer_size rb_ex = 8"
  "read_mirror rb_ex = write_mirror rb_ex"
  by (simp_all add: rb_ex_def rb_inv_def rb_list_def rt_ringbuffer_data_len_def rt_ringbuffer_status_def)

text \<open>
  \<open>rt_ringbuffer_put\<close> appends as many of the offered bytes as fit, in order, and
  returns how many that is; the buffer's invariant is kept.
\<close>

theorem rt_ringbuffer_put_correct:
  assumes "rb_inv rb" and "len \<le> length ptr"
    and "n = min len (buffer_size rb - length (rb_list rb))"
    and "rt_ringbuffer_put rb ptr len = (k, rb')"
  shows "k = n \<and> rb_inv rb' \<and> rb_list rb' = rb_list rb @ take n ptr"
  using assms by (rule put_appends)

theorem rt_ringbuffer_put_correct_witness:
  "rb_list (snd (rt_ringbuffer_put rb_ex [1, 2, 3] 3)) = [16, 1, 2, 3]"
  using rt_ringbuffer_put_correct [OF rb_ex_facts(1), of 3 "[1, 2, 3]" 3
      "fst (rt_ringbuffer_put rb_ex [1, 2, 3] 3)" "snd (rt_ringbuffer_put rb_ex [1, 2, 3] 3)"]
  by simp

section \<open>Reading\<close>

text \<open>Advancing the read index over \<open>n\<close> stored bytes.\<close>

lemma rb_read_straight:
  assumes "rb_inv rb" "n \<le> rt_ringbuffer_data_len rb" "read_index rb + n < buffer_size rb"
    and "rb' = rb\<lparr>read_index := read_index rb + n\<rparr>"
  shows "rb_inv rb'" "rb_list rb' = drop n (rb_list rb)"
    "take n (drop (read_index rb) (buffer_ptr rb)) = take n (rb_list rb)"
proof -
  show inv: "rb_inv rb'"
    using assms by (cases rb rule: rb_cases) (auto simp: rb_inv_def)
  have "rb_list rb' = drop n (rb_list rb)
      \<and> take n (drop (read_index rb) (buffer_ptr rb)) = take n (rb_list rb)"
    using assms(1)
  proof (cases rb rule: rb_cases)
    case same
    then show ?thesis
      using assms inv by (simp add: rb_list_same drop_take min_def add.commute)
  next
    case diff
    then show ?thesis
      using assms inv by (simp add: rb_list_diff add.commute)
  qed
  then show "rb_list rb' = drop n (rb_list rb)"
    "take n (drop (read_index rb) (buffer_ptr rb)) = take n (rb_list rb)" by auto
qed

lemma rb_read_around:
  assumes "rb_inv rb" "n \<le> rt_ringbuffer_data_len rb" "buffer_size rb \<le> read_index rb + n"
    and "k = buffer_size rb - read_index rb"
    and "rb' = rb\<lparr>read_mirror := \<not> read_mirror rb, read_index := n - k\<rparr>"
  shows "rb_inv rb'" "rb_list rb' = drop n (rb_list rb)"
    "take k (drop (read_index rb) (buffer_ptr rb)) @ take (n - k) (buffer_ptr rb) = take n (rb_list rb)"
proof -
  have diff: "read_mirror rb \<noteq> write_mirror rb" "write_index rb \<le> read_index rb"
    "n - k \<le> write_index rb" "k \<le> n" "k = length (buffer_ptr rb) - read_index rb"
    using assms by (cases rb rule: rb_cases; auto)+
  show inv: "rb_inv rb'" using assms diff by (auto simp: rb_inv_def)
  show "rb_list rb' = drop n (rb_list rb)"
    using assms(1,5) inv diff by (simp add: rb_list_same rb_list_diff drop_take)
  show "take k (drop (read_index rb) (buffer_ptr rb)) @ take (n - k) (buffer_ptr rb) = take n (rb_list rb)"
    using assms(1) diff by (simp add: rb_list_diff min_def)
qed

lemma rt_ringbuffer_get_eq:
  assumes "rb_inv rb" "n = min len (rt_ringbuffer_data_len rb)" "k = buffer_size rb - read_index rb"
  shows "rt_ringbuffer_get rb len =
    (if rt_ringbuffer_data_len rb = 0 then (0, [], rb)
     else if n < k
     then (n, take n (drop (read_index rb) (buffer_ptr rb)), rb\<lparr>read_index := read_index rb + n\<rparr>)
     else (n, take k (drop (read_index rb) (buffer_ptr rb)) @ take (n - k) (buffer_ptr rb),
           rb\<lparr>read_mirror := \<not> read_mirror rb, read_index := n - k\<rparr>))"
proof -
  have n: "(if rt_ringbuffer_data_len rb < len then rt_ringbuffer_data_len rb else len) = n"
    using assms(2) by auto
  have "n \<le> buffer_size rb" "buffer_size rb < 32768"
    using assms data_len_le [OF assms(1)] by (auto simp: rb_inv_def)
  then have "n < k \<Longrightarrow> trunc15 (read_index rb + n) = read_index rb + n" "trunc15 (n - k) = n - k"
    using assms(3) by (auto intro!: trunc15_id)
  then show ?thesis
    unfolding rt_ringbuffer_get_def Let_def n assms(3) [symmetric] by simp
qed

lemma get_removes:
  assumes "rb_inv rb" and "n = min len (length (rb_list rb))"
    and "rt_ringbuffer_get rb len = (k, bs, rb')"
  shows "k = n \<and> bs = take n (rb_list rb) \<and> rb_inv rb' \<and> rb_list rb' = drop n (rb_list rb)"
proof -
  have n: "n = min len (rt_ringbuffer_data_len rb)" using assms(1,2) by (simp add: length_rb_list)
  note get = rt_ringbuffer_get_eq [OF assms(1) n refl]
  have nle: "n \<le> rt_ringbuffer_data_len rb" using n by simp
  show ?thesis
  proof (cases "rt_ringbuffer_data_len rb = 0")
    case True
    then show ?thesis using assms(1,3) n by (simp add: rt_ringbuffer_get_def)
  next
    case False
    show ?thesis
    proof (cases "n < buffer_size rb - read_index rb")
      case True
      then show ?thesis
        using rb_read_straight [OF assms(1) nle _ refl] assms(3) False by (auto simp: get)
    next
      case around: False
      then have "buffer_size rb \<le> read_index rb + n" by simp
      from rb_read_around [OF assms(1) nle this refl refl] show ?thesis
        using assms(3) False around by (auto simp: get)
    qed
  qed
qed

text \<open>
  \<open>rt_ringbuffer_get\<close> returns the oldest bytes, as many as are asked for and present,
  and removes exactly those.
\<close>

theorem rt_ringbuffer_get_correct:
  assumes "rb_inv rb" and "n = min len (length (rb_list rb))"
    and "rt_ringbuffer_get rb len = (k, bs, rb')"
  shows "k = n \<and> bs = take n (rb_list rb) \<and> rb_inv rb' \<and> rb_list rb' = drop n (rb_list rb)"
  using assms by (rule get_removes)

theorem rt_ringbuffer_get_correct_witness:
  "fst (rt_ringbuffer_get rb_ex 5) = 1 \<and> fst (snd (rt_ringbuffer_get rb_ex 5)) = [16]"
  using rt_ringbuffer_get_correct [OF rb_ex_facts(1), of 1 5 "fst (rt_ringbuffer_get rb_ex 5)"
      "fst (snd (rt_ringbuffer_get rb_ex 5))" "snd (snd (rt_ringbuffer_get rb_ex 5))"]
  by simp

section \<open>Forced writing\<close>

text \<open>A forced write over unread bytes, before the end of the pool and around it, when
  the writer is already in the other mirror.\<close>

lemma rb_force_straight:
  assumes "rb_inv rb" "rt_ringbuffer_space_len rb < length xs"
    and "write_index rb + length xs < buffer_size rb"
    and "rb' = rb\<lparr>buffer_ptr := blit (buffer_ptr rb) (write_index rb) xs,
                  write_index := write_index rb + length xs, read_index := write_index rb + length xs\<rparr>"
  shows "read_mirror rb \<noteq> write_mirror rb" "rb_inv rb'"
    "rb_list rb' = drop (length xs - rt_ringbuffer_space_len rb) (rb_list rb) @ xs"
proof -
  let ?w = "write_index rb + length xs"
  have f: "read_mirror rb \<noteq> write_mirror rb" "write_index rb \<le> read_index rb" "read_index rb < ?w"
    "rt_ringbuffer_space_len rb = read_index rb - write_index rb"
    "length (buffer_ptr rb) = buffer_size rb"
    using assms by (cases rb rule: rb_cases; auto simp: rt_ringbuffer_space_len_def)+
  then show "read_mirror rb \<noteq> write_mirror rb" by simp
  show inv: "rb_inv rb'" using assms f by (auto simp: rb_inv_def)
  have "rb_list rb' = drop ?w (buffer_ptr rb) @ take (write_index rb) (buffer_ptr rb) @ xs"
    using inv f(1) assms by (simp add: rb_list_diff drop_blit take_blit_end f(5))
  moreover have "drop (length xs - rt_ringbuffer_space_len rb) (rb_list rb) =
      drop ?w (buffer_ptr rb) @ take (write_index rb) (buffer_ptr rb)"
    using f assms by (simp add: rb_list_diff add.commute)
  ultimately show "rb_list rb' = drop (length xs - rt_ringbuffer_space_len rb) (rb_list rb) @ xs"
    by simp
qed

lemma rb_force_around:
  assumes "rb_inv rb" "read_mirror rb \<noteq> write_mirror rb"
    and "write_index rb + length xs = buffer_size rb" "length xs + length ys \<le> buffer_size rb"
    and "rb' = rb\<lparr>buffer_ptr := blit (blit (buffer_ptr rb) (write_index rb) xs) 0 ys,
                  write_mirror := \<not> write_mirror rb, write_index := length ys,
                  read_mirror := \<not> read_mirror rb, read_index := length ys\<rparr>"
  shows "rt_ringbuffer_space_len rb < length (xs @ ys)" "rb_inv rb'"
    "rb_list rb' = drop (length (xs @ ys) - rt_ringbuffer_space_len rb) (rb_list rb) @ xs @ ys"
proof -
  have f: "write_index rb \<le> read_index rb" "read_index rb < buffer_size rb"
    "rt_ringbuffer_space_len rb = read_index rb - write_index rb"
    "length (buffer_ptr rb) = buffer_size rb"
    using assms by (cases rb rule: rb_cases; auto simp: rt_ringbuffer_space_len_def)+
  then show "rt_ringbuffer_space_len rb < length (xs @ ys)" using assms(3) by simp
  show inv: "rb_inv rb'" using assms f by (auto simp: rb_inv_def)
  have "rb_list rb' = drop (length ys) (blit (buffer_ptr rb) (write_index rb) xs) @ ys"
    using inv assms f take_blit_end [of 0 ys "blit (buffer_ptr rb) (write_index rb) xs"]
    by (simp add: rb_list_diff drop_blit)
  also have "\<dots> = drop (length ys) (take (write_index rb) (buffer_ptr rb)) @ xs @ ys"
    using assms f by (simp add: drop_blit_end drop_take)
  moreover have e: "length (xs @ ys) - rt_ringbuffer_space_len rb
      = length (drop (read_index rb) (buffer_ptr rb)) + length ys"
    using assms f by simp
  ultimately show "rb_list rb' = drop (length (xs @ ys) - rt_ringbuffer_space_len rb) (rb_list rb) @ xs @ ys"
    unfolding e rb_list_diff [OF assms(1,2)] by simp
qed

text \<open>In the same mirror, a forced write that overtakes the reader moves both indices to
  the same place in the same mirror: the buffer reads as empty.\<close>

lemma rb_force_lost:
  assumes "rb_inv rb" "read_mirror rb = write_mirror rb"
    and "rt_ringbuffer_space_len rb < n" "n \<le> buffer_size rb"
    and "rb' = rb\<lparr>buffer_ptr := pool, write_mirror := \<not> write_mirror rb, write_index := i,
                  read_mirror := \<not> read_mirror rb, read_index := i\<rparr>"
    and "length pool = buffer_size rb" "i < buffer_size rb"
  shows "rb_inv rb'" "rb_list rb' = []"
proof -
  show inv: "rb_inv rb'" using assms by (auto simp: rb_inv_def)
  then show "rb_list rb' = []" using assms by (simp add: rb_list_same)
qed

lemma rt_ringbuffer_put_force_eq:
  assumes "rb_inv rb" "n = min len (buffer_size rb)" "xs = take n (drop (len - n) ptr)"
    and "len \<le> length ptr" "k = buffer_size rb - write_index rb"
  shows "rt_ringbuffer_put_force rb ptr len = (n,
    if n < k
    then (let rb' = rb\<lparr>buffer_ptr := blit (buffer_ptr rb) (write_index rb) xs,
                       write_index := write_index rb + n\<rparr>
          in if rt_ringbuffer_space_len rb < n then rb'\<lparr>read_index := write_index rb + n\<rparr> else rb')
    else (let rb' = rb\<lparr>buffer_ptr := blit (blit (buffer_ptr rb) (write_index rb) (take k xs)) 0 (drop k xs),
                       write_mirror := \<not> write_mirror rb, write_index := n - k\<rparr>
          in if rt_ringbuffer_space_len rb < n
             then rb'\<lparr>read_mirror := \<not> read_mirror rb, read_index := n - k\<rparr> else rb'))"
proof -
  have ptr: "(if buffer_size rb < len then drop (len - buffer_size rb) ptr else ptr) = drop (len - n) ptr"
    and len: "(if buffer_size rb < len then buffer_size rb else len) = n"
    using assms(2) by auto
  have "n \<le> buffer_size rb" "buffer_size rb < 32768" "k \<le> buffer_size rb"
    using assms by (auto simp: rb_inv_def)
  then have t: "n < k \<Longrightarrow> trunc15 (write_index rb + n) = write_index rb + n" "trunc15 (n - k) = n - k"
    using assms(5) by (auto intro!: trunc15_id)
  have x: "take n (drop (len - n) ptr) = xs" using assms(3) by simp
  have y: "\<not> n < k \<Longrightarrow> take k (drop (len - n) ptr) = take k xs"
    "take (n - k) (drop k (drop (len - n) ptr)) = drop k xs"
    using assms(3) by (auto simp: min_def drop_take add.commute)
  show ?thesis
    unfolding rt_ringbuffer_put_force_def Let_def ptr len assms(5) [symmetric]
    using t x y by simp
qed

text \<open>
  \<open>rt_ringbuffer_put_force\<close> stores the last bytes offered, at most one buffer of them.
  When they fit, they are appended. When they do not, and the writer is ahead of the
  reader in the other mirror, the oldest bytes are discarded, as the comment in the
  source promises. But when reader and writer are in the same mirror, a write that
  overtakes the reader flips both mirror bits: the buffer reads as empty afterwards and
  everything, the bytes just written included, is lost.
\<close>

theorem rt_ringbuffer_put_force_correct:
  assumes "rb_inv rb" and "len \<le> length ptr" and "n = min len (buffer_size rb)"
    and "xs = take n (drop (len - n) ptr)" and "free = buffer_size rb - length (rb_list rb)"
    and "rt_ringbuffer_put_force rb ptr len = (r, rb')"
  shows "r = n \<and> rb_inv rb' \<and> rb_list rb' =
     (if n \<le> free then rb_list rb @ xs
      else if read_mirror rb = write_mirror rb then []
      else drop (n - free) (rb_list rb) @ xs)"
proof -
  let ?k = "buffer_size rb - write_index rb"
  have free: "free = rt_ringbuffer_space_len rb" using assms(1,5) by (simp add: space_len_inv)
  have w: "write_index rb + ?k = buffer_size rb" "write_index rb < buffer_size rb"
    using assms(1) by (auto simp: rb_inv_def)
  have lx: "length xs = n" using assms(2,3,4) by simp
  have nle: "n \<le> buffer_size rb" using assms(3) by simp
  note force = rt_ringbuffer_put_force_eq [OF assms(1,3,4,2) refl]
  show ?thesis
  proof (cases "n < ?k")
    case straight: True
    show ?thesis
    proof (cases "n \<le> free")
      case True
      then show ?thesis
        using rb_write_straight [OF assms(1), of xs, OF _ _ refl] assms(6) free straight lx
        by (auto simp: force)
    next
      case False
      then show ?thesis
        using rb_force_straight [OF assms(1), of xs, OF _ _ refl] assms(6) free straight lx
        by (auto simp: force)
    qed
  next
    case around: False
    then have l: "length (take ?k xs) = ?k" "length (drop ?k xs) = n - ?k" "take ?k xs @ drop ?k xs = xs"
      using lx by auto
    show ?thesis
    proof (cases "n \<le> free")
      case True
      then show ?thesis
        using rb_write_around [OF assms(1), of "take ?k xs" "drop ?k xs", OF _ _ refl] assms(6) free around l w
        by (auto simp: force)
    next
      case over: False
      show ?thesis
      proof (cases "read_mirror rb = write_mirror rb")
        case True
        have len: "length (blit (blit (buffer_ptr rb) (write_index rb) (take ?k xs)) 0 (drop ?k xs)) = buffer_size rb"
          using assms(1) w l nle by (simp add: rb_inv_def)
        show ?thesis
          using rb_force_lost [OF assms(1) True _ nle refl len, of "n - ?k"] assms(6) free around over nle w True
          by (auto simp: force)
      next
        case False
        then show ?thesis
          using rb_force_around [OF assms(1) False, of "take ?k xs" "drop ?k xs", OF _ _ refl] assms(6) free around
            over l w nle lx
          by (auto simp: force)
      qed
    qed
  qed
qed

theorem rt_ringbuffer_put_force_correct_witness:
  "fst (rt_ringbuffer_put_force rb_ex [1, 2, 3, 4, 5, 6, 7, 8] 8) = 8
   \<and> rb_list (snd (rt_ringbuffer_put_force rb_ex [1, 2, 3, 4, 5, 6, 7, 8] 8)) = []"
proof -
  obtain r rb' where e: "rt_ringbuffer_put_force rb_ex [1, 2, 3, 4, 5, 6, 7, 8] 8 = (r, rb')"
    by (meson surj_pair)
  show ?thesis
    using rt_ringbuffer_put_force_correct [OF rb_ex_facts(1) _ _ refl refl e, of 8] by (simp add: e)
qed

section \<open>Single bytes, peeking and resetting\<close>

text \<open>A single byte is a block of one.\<close>

lemma rt_ringbuffer_putchar_put:
  assumes "rb_inv rb"
  shows "rt_ringbuffer_putchar rb ch = rt_ringbuffer_put rb [ch] 1"
proof (cases "rt_ringbuffer_space_len rb = 0")
  case True
  then show ?thesis by (simp add: rt_ringbuffer_putchar_def rt_ringbuffer_put_def)
next
  case False
  have f: "write_index rb < buffer_size rb" "buffer_size rb < 32768" "length (buffer_ptr rb) = buffer_size rb"
    using assms by (auto simp: rb_inv_def)
  then have "trunc15 (Suc (write_index rb)) = Suc (write_index rb)" by simp
  moreover have "buffer_size rb - write_index rb = 1 \<longleftrightarrow> write_index rb = buffer_size rb - 1" using f by auto
  ultimately show ?thesis
    using False f rt_ringbuffer_put_eq [OF assms, of 1 1 "buffer_size rb - write_index rb" "[ch]"]
    by (auto simp: rt_ringbuffer_putchar_def Let_def list_update_blit)
qed

lemma rt_ringbuffer_getchar_get:
  assumes "rb_inv rb"
  shows "rt_ringbuffer_getchar rb = rt_ringbuffer_get rb 1"
proof (cases "rt_ringbuffer_data_len rb = 0")
  case True
  then show ?thesis by (simp add: rt_ringbuffer_getchar_def rt_ringbuffer_get_def)
next
  case False
  have f: "read_index rb < buffer_size rb" "buffer_size rb < 32768" "length (buffer_ptr rb) = buffer_size rb"
    using assms by (auto simp: rb_inv_def)
  then have "trunc15 (Suc (read_index rb)) = Suc (read_index rb)"
    "take (Suc 0) (drop (read_index rb) (buffer_ptr rb)) = [buffer_ptr rb ! read_index rb]"
    by (simp_all add: take_Suc_conv_app_nth)
  moreover have "buffer_size rb - read_index rb = 1 \<longleftrightarrow> read_index rb = buffer_size rb - 1" using f by auto
  ultimately show ?thesis
    using False f rt_ringbuffer_get_eq [OF assms, of 1 1 "buffer_size rb - read_index rb"]
    by (auto simp: rt_ringbuffer_getchar_def Let_def)
qed

text \<open>
  \<open>rt_ringbuffer_putchar_force\<close> always stores the byte; a full buffer drops its oldest.
\<close>

theorem rt_ringbuffer_putchar_force_correct:
  assumes "rb_inv rb" and "rt_ringbuffer_putchar_force rb ch = (k, rb')"
  shows "k = 1 \<and> rb_inv rb' \<and> rb_list rb' =
     (if length (rb_list rb) = buffer_size rb then tl (rb_list rb) else rb_list rb) @ [ch]"
proof (cases "length (rb_list rb) = buffer_size rb")
  case False
  then have "rt_ringbuffer_space_len rb \<noteq> 0"
    using length_rb_list [OF assms(1)] data_len_le [OF assms(1)] by (simp add: rt_ringbuffer_space_len_def)
  moreover have "rt_ringbuffer_putchar_force rb ch = rt_ringbuffer_putchar rb ch"
    using False rb_status_full [OF assms(1)] calculation
    by (simp add: rt_ringbuffer_putchar_force_def rt_ringbuffer_putchar_def Let_def)
  ultimately have "1 = min 1 (buffer_size rb - length (rb_list rb))"
    "rt_ringbuffer_put rb [ch] 1 = (k, rb')"
    using assms(2) space_len_inv [OF assms(1)] rt_ringbuffer_putchar_put [OF assms(1)] by auto
  from put_appends [OF assms(1) _ this] False show ?thesis by simp
next
  case isfull: True
  then have full: "rt_ringbuffer_status rb = RT_RINGBUFFER_FULL" "rt_ringbuffer_space_len rb = 0"
    using rb_status_full [OF assms(1)] by (auto simp: space_len_inv [OF assms(1)])
  then have m: "read_mirror rb \<noteq> write_mirror rb" "read_index rb = write_index rb"
    by (auto simp: rt_ringbuffer_status_def split: if_splits)
  have f: "write_index rb < buffer_size rb" "buffer_size rb < 32768" "length (buffer_ptr rb) = buffer_size rb"
    using assms(1) by (auto simp: rb_inv_def)
  show ?thesis
  proof (cases "write_index rb = buffer_size rb - 1")
    case True
    then show ?thesis
      using rb_force_around [OF assms(1) m(1), of "[ch]" "[]", OF _ _ refl] f full m isfull assms(2)
      by (auto simp: rt_ringbuffer_putchar_force_def Let_def list_update_blit drop_Suc)
  next
    case False
    then show ?thesis
      using rb_force_straight [OF assms(1), of "[ch]", OF _ _ refl] f full m isfull assms(2)
      by (auto simp: rt_ringbuffer_putchar_force_def Let_def list_update_blit drop_Suc)
  qed
qed

theorem rt_ringbuffer_putchar_force_correct_witness:
  "fst (rt_ringbuffer_putchar_force rb_ex 1) = 1
   \<and> rb_list (snd (rt_ringbuffer_putchar_force rb_ex 1)) = [16, 1]"
  using rt_ringbuffer_putchar_force_correct [OF rb_ex_facts(1), of 1
      "fst (rt_ringbuffer_putchar_force rb_ex 1)" "snd (rt_ringbuffer_putchar_force rb_ex 1)"]
  by simp

lemma rt_ringbuffer_peak_correct:
  assumes "rb_inv rb" "rt_ringbuffer_peak rb = (k, off, rb')"
  shows "rb_inv rb' \<and> rb_list rb' = drop k (rb_list rb) \<and>
     (case off of None \<Rightarrow> k = 0 \<and> rb_list rb = []
      | Some i \<Rightarrow> 0 < k \<and> i + k \<le> buffer_size rb \<and> take k (drop i (buffer_ptr rb)) = take k (rb_list rb))"
proof (cases "rt_ringbuffer_data_len rb = 0")
  case True
  then show ?thesis using assms length_rb_list [OF assms(1)] by (auto simp: rt_ringbuffer_peak_def)
next
  case False
  let ?n = "rt_ringbuffer_data_len rb"
  have f: "read_index rb < buffer_size rb" "buffer_size rb < 32768" using assms(1) by (auto simp: rb_inv_def)
  show ?thesis
  proof (cases "?n < buffer_size rb - read_index rb")
    case True
    then show ?thesis
      using rb_read_straight [OF assms(1) order.refl _ refl] assms(2) False f
      by (auto simp: rt_ringbuffer_peak_def Let_def)
  next
    case around: False
    then have "buffer_size rb - read_index rb \<le> ?n" "buffer_size rb \<le> read_index rb + (buffer_size rb - read_index rb)"
      using f by auto
    from rb_read_around [OF assms(1) this refl refl] show ?thesis
      using assms(2) False around f by (auto simp: rt_ringbuffer_peak_def Let_def)
  qed
qed

lemma rt_ringbuffer_reset_correct:
  "rb_inv rb \<Longrightarrow> rb_inv (rt_ringbuffer_reset rb) \<and> rb_list (rt_ringbuffer_reset rb) = []"
  by (auto simp: rb_inv_def rt_ringbuffer_reset_def rb_list_same)

section \<open>The byte-queue contract\<close>

text \<open>
  What the clients of a byte buffer (the serial, pipe and audio drivers) rely on. The
  contract gives first-in-first-out delivery for any history of reads and writes.
\<close>

datatype fifo_op = Put "u8 list" | Get nat

fun fifo_run :: "('s \<Rightarrow> u8 list \<Rightarrow> nat \<Rightarrow> nat \<times> 's) \<Rightarrow> ('s \<Rightarrow> nat \<Rightarrow> nat \<times> u8 list \<times> 's) \<Rightarrow> 's \<Rightarrow>
    fifo_op list \<Rightarrow> u8 list \<times> u8 list \<times> 's" where
  "fifo_run put get s [] = ([], [], s)"
| "fifo_run put get s (Put bs # ops) =
     (let (k, s') = put s bs (length bs); (acc, got, s'') = fifo_run put get s' ops
      in (take k bs @ acc, got, s''))"
| "fifo_run put get s (Get n # ops) =
     (let (k, bs, s') = get s n; (acc, got, s'') = fifo_run put get s' ops
      in (acc, bs @ got, s''))"

locale byte_fifo =
  fixes inv :: "'s \<Rightarrow> bool"
    and contents :: "'s \<Rightarrow> u8 list"
    and capacity :: "'s \<Rightarrow> nat"
    and put :: "'s \<Rightarrow> u8 list \<Rightarrow> nat \<Rightarrow> nat \<times> 's"
    and get :: "'s \<Rightarrow> nat \<Rightarrow> nat \<times> u8 list \<times> 's"
  assumes bounded: "inv s \<Longrightarrow> length (contents s) \<le> capacity s"
    and put_law: "inv s \<Longrightarrow> len \<le> length ptr \<Longrightarrow> put s ptr len = (k, s') \<Longrightarrow>
      k = min len (capacity s - length (contents s)) \<and> inv s' \<and> capacity s' = capacity s
      \<and> contents s' = contents s @ take k ptr"
    and get_law: "inv s \<Longrightarrow> get s len = (k, bs, s') \<Longrightarrow>
      k = min len (length (contents s)) \<and> inv s' \<and> capacity s' = capacity s
      \<and> bs = take k (contents s) \<and> contents s' = drop k (contents s)"
begin

lemma run_fifo:
  "inv s \<Longrightarrow> fifo_run put get s ops = (acc, got, s') \<Longrightarrow>
     inv s' \<and> capacity s' = capacity s \<and> contents s @ acc = got @ contents s'"
proof (induction ops arbitrary: s acc got s')
  case (Cons op ops)
  show ?case
  proof (cases op)
    case (Put bs)
    obtain k s1 where p: "put s bs (length bs) = (k, s1)" by fastforce
    obtain acc1 got1 s2 where r: "fifo_run put get s1 ops = (acc1, got1, s2)" by (metis prod_cases3)
    note law = put_law [OF Cons.prems(1) order.refl p]
    then have "inv s2 \<and> capacity s2 = capacity s1 \<and> contents s1 @ acc1 = got1 @ contents s2"
      using Cons.IH [OF _ r] by blast
    moreover have "acc = take k bs @ acc1" "got = got1" "s' = s2"
      using Cons.prems(2) Put p r by simp_all
    ultimately show ?thesis using law by simp
  next
    case (Get n)
    obtain k bs s1 where g: "get s n = (k, bs, s1)" by (metis prod_cases3)
    obtain acc1 got1 s2 where r: "fifo_run put get s1 ops = (acc1, got1, s2)" by (metis prod_cases3)
    note law = get_law [OF Cons.prems(1) g]
    then have "inv s2 \<and> capacity s2 = capacity s1 \<and> contents s1 @ acc1 = got1 @ contents s2"
      using Cons.IH [OF _ r] by blast
    moreover have "acc = acc1" "got = bs @ got1" "s' = s2"
      using Cons.prems(2) Get g r by simp_all
    moreover have "contents s = bs @ contents s1" "capacity s1 = capacity s" using law by auto
    ultimately show ?thesis by simp
  qed
qed simp

text \<open>Nothing is invented or reordered: what comes out is a prefix of what was accepted,
  and nothing accepted is lost.\<close>

lemma run_from_empty:
  assumes "inv s" "contents s = []" "fifo_run put get s ops = (acc, got, s')"
  shows "acc = got @ contents s'" "length acc - length got \<le> capacity s"
proof -
  have "inv s' \<and> capacity s' = capacity s \<and> acc = got @ contents s'"
    using run_fifo [OF assms(1,3)] assms(2) by simp
  then show "acc = got @ contents s'" "length acc - length got \<le> capacity s"
    using bounded [of s'] by auto
qed

end

lemma put_buffer_size: "rt_ringbuffer_put rb ptr len = (k, rb') \<Longrightarrow> buffer_size rb' = buffer_size rb"
  by (auto simp: rt_ringbuffer_put_def Let_def split: if_splits)

lemma get_buffer_size: "rt_ringbuffer_get rb len = (k, bs, rb') \<Longrightarrow> buffer_size rb' = buffer_size rb"
  by (auto simp: rt_ringbuffer_get_def Let_def split: if_splits)

interpretation ringfifo: byte_fifo rb_inv rb_list buffer_size rt_ringbuffer_put rt_ringbuffer_get
proof unfold_locales
  show "length (rb_list s) \<le> buffer_size s" if "rb_inv s" for s
    using that by (simp add: length_rb_list data_len_le)
next
  fix s ptr len k s'
  assume "rb_inv s" "len \<le> length ptr" "rt_ringbuffer_put s ptr len = (k, s')"
  then show "k = min len (buffer_size s - length (rb_list s)) \<and> rb_inv s' \<and> buffer_size s' = buffer_size s
      \<and> rb_list s' = rb_list s @ take k ptr"
    using put_appends [of s len ptr _ k s'] put_buffer_size by blast
next
  fix s len k bs s'
  assume "rb_inv s" "rt_ringbuffer_get s len = (k, bs, s')"
  then show "k = min len (length (rb_list s)) \<and> rb_inv s' \<and> buffer_size s' = buffer_size s
      \<and> bs = take k (rb_list s) \<and> rb_list s' = drop k (rb_list s)"
    using get_removes [of s _ len k bs s'] get_buffer_size by blast
qed

text \<open>
  C40. First in, first out: for any sequence of block writes and reads on a ring buffer,
  the bytes that were in it followed by the bytes it accepted are the bytes it
  delivered followed by the bytes still in it; the invariant and the size are kept.
\<close>

theorem rt_ringbuffer_fifo:
  assumes "rb_inv rb" and "fifo_run rt_ringbuffer_put rt_ringbuffer_get rb ops = (acc, got, rb')"
  shows "rb_inv rb' \<and> buffer_size rb' = buffer_size rb \<and> rb_list rb @ acc = got @ rb_list rb'"
  using ringfifo.run_fifo [OF assms] .

theorem rt_ringbuffer_fifo_witness:
  "\<exists>acc got rb'. fifo_run rt_ringbuffer_put rt_ringbuffer_get rb_ex [Put [1, 2], Get 2, Put [3]] = (acc, got, rb')
     \<and> 16 # acc = got @ rb_list rb'"
proof -
  obtain acc got rb' where e:
    "fifo_run rt_ringbuffer_put rt_ringbuffer_get rb_ex [Put [1, 2], Get 2, Put [3]] = (acc, got, rb')"
    by (meson prod_cases3)
  show ?thesis using rt_ringbuffer_fifo [OF rb_ex_facts(1) e] e by simp
qed

section \<open>Initialisation\<close>

lemma rt_ringbuffer_init_inv:
  assumes "rt_ringbuffer_init pool sz = Some rb" "8 \<le> sz" "sz < 2 ^ 15" "length pool = nat (sz div 8 * 8)"
  shows "rb_inv rb" "rb_list rb = []"
proof -
  have "unat (word_of_int sz :: u32) = nat sz"
    using assms(2,3) by (simp add: unat_eq_nat_uint uint_word_of_int_eq take_bit_int_eq_self)
  then have rb: "rb = \<lparr>buffer_ptr = pool, read_mirror = False, read_index = 0, write_mirror = False,
      write_index = 0, buffer_size = nat sz div 8 * 8\<rparr>"
    using assms(1,2) by (simp add: rt_ringbuffer_init_def RT_ALIGN_DOWN_unat)
  have "nat (sz div 8 * 8) = nat sz div 8 * 8"
    using assms(2) by (simp add: nat_mult_distrib nat_div_distrib)
  then have "length (buffer_ptr rb) = buffer_size rb" using assms(4) rb by simp
  moreover have "0 < buffer_size rb"
  proof -
    have "1 \<le> nat sz div 8" using assms(2) by linarith
    then show ?thesis by (simp add: rb)
  qed
  moreover have "buffer_size rb < 2 ^ 15"
  proof -
    have "nat sz div 8 * 8 \<le> nat sz" by simp
    also have "\<dots> < 2 ^ 15" using assms(3) by (simp add: nat_less_iff)
    finally show ?thesis by (simp add: rb)
  qed
  ultimately show inv: "rb_inv rb" unfolding rb_inv_def by (simp add: rb)
  show "rb_list rb = []" unfolding rb_list_same [OF inv] by (simp add: rb rb_list_def
      rt_ringbuffer_data_len_def rt_ringbuffer_status_def)
qed

text \<open>
  A requested size below 8 passes the assertion of \<open>rt_ringbuffer_init\<close> but is rounded
  down to a buffer of size 0, which accepts nothing: every \<open>rt_ringbuffer_put\<close> on it
  returns 0.
\<close>

theorem rt_ringbuffer_init_small:
  assumes "0 < sz" and "sz < 8" and "rt_ringbuffer_init pool sz = Some rb"
  shows "buffer_size rb = 0 \<and> rt_ringbuffer_put rb ptr len = (0, rb)"
proof -
  have "unat (word_of_int sz :: u32) = nat sz"
    using assms(1,2) by (simp add: unat_eq_nat_uint uint_word_of_int_eq take_bit_int_eq_self)
  then have "buffer_size rb = 0"
    using assms by (auto simp: rt_ringbuffer_init_def RT_ALIGN_DOWN_unat)
  then show ?thesis by (simp add: rt_ringbuffer_put_def rt_ringbuffer_space_len_def)
qed

theorem rt_ringbuffer_init_small_witness:
  "\<exists>rb. rt_ringbuffer_init [0, 0, 0, 0] 4 = Some rb \<and> rt_ringbuffer_put rb [1] 1 = (0, rb)"
proof -
  obtain rb where "rt_ringbuffer_init [0, 0, 0, 0] 4 = Some rb" by (simp add: rt_ringbuffer_init_def)
  then show ?thesis using rt_ringbuffer_init_small [of 4 "[0, 0, 0, 0]" rb "[1]" 1] by simp
qed

end
