(* ===== verification/RT_Alloc.thy ===== *)
theory RT_Alloc
  imports RT_Prelude
begin

text \<open>
  What an allocator promises, as an interface: the heap of \<open>src/mem.c\<close> and the pools of
  \<open>src/mempool.c\<close> provide it. A block is an address with a size.
\<close>

text \<open>The result of a call that may have to wait.\<close>

datatype 'a call_result = Done 'a | Wait

definition no_overlap :: "(nat \<times> nat) set \<Rightarrow> bool" where
  "no_overlap B \<longleftrightarrow> (\<forall>(p, m) \<in> B. \<forall>(q, n) \<in> B. (p, m) \<noteq> (q, n) \<longrightarrow> p + m \<le> q \<or> q + n \<le> p)"

lemma no_overlapD:
  "no_overlap B \<Longrightarrow> (p, m) \<in> B \<Longrightarrow> (q, n) \<in> B \<Longrightarrow> (p, m) \<noteq> (q, n) \<Longrightarrow> p + m \<le> q \<or> q + n \<le> p"
  unfolding no_overlap_def by blast

text \<open>A script of requests and releases; a release names one of the blocks the client holds
  by its place in the list of their addresses.\<close>

datatype 'r alloc_op = Alloc 'r | Release nat

fun alloc_run :: "('r \<Rightarrow> 'h \<Rightarrow> (nat option \<times> 'h) option) \<Rightarrow> (nat \<Rightarrow> 'h \<Rightarrow> 'h option) \<Rightarrow>
    'r alloc_op list \<Rightarrow> nat list \<Rightarrow> 'h \<Rightarrow> (nat list \<times> 'h) option" where
  "alloc_run alloc release [] ps h = Some (ps, h)"
| "alloc_run alloc release (Alloc n # ops) ps h =
     do { (r, h) \<leftarrow> alloc n h;
          alloc_run alloc release ops (case r of None \<Rightarrow> ps | Some p \<Rightarrow> p # ps) h }"
| "alloc_run alloc release (Release j # ops) ps h =
     (if j < length ps
      then do { h \<leftarrow> release (ps ! j) h; alloc_run alloc release ops (remove1 (ps ! j) ps) h }
      else alloc_run alloc release ops ps h)"

locale block_allocator =
  fixes inv :: "'h \<Rightarrow> bool"
    and allocated :: "'h \<Rightarrow> (nat \<times> nat) set"
    and size_of :: "'r \<Rightarrow> nat"
    and alloc :: "'r \<Rightarrow> 'h \<Rightarrow> (nat option \<times> 'h) option"
    and release :: "nat \<Rightarrow> 'h \<Rightarrow> 'h option"
  assumes separate_law: "inv h \<Longrightarrow> no_overlap (allocated h)"
    and address_law: "inv h \<Longrightarrow> inj_on fst (allocated h)"
    and alloc_law: "inv h \<Longrightarrow> \<exists>r h'. alloc n h = Some (r, h') \<and> inv h' \<and>
      (case r of
         None \<Rightarrow> allocated h' = allocated h
       | Some p \<Rightarrow> p \<notin> fst ` allocated h \<and> (\<exists>m \<ge> size_of n. allocated h' = insert (p, m) (allocated h)))"
    and release_law: "inv h \<Longrightarrow> (p, m) \<in> allocated h \<Longrightarrow>
      \<exists>h'. release p h = Some h' \<and> inv h' \<and> allocated h' = allocated h - {(p, m)}"
begin

text \<open>No script stops in an assertion, and at its end the client holds exactly the blocks
  the allocator has handed out, which do not overlap.\<close>

lemma run_safe:
  "inv h \<Longrightarrow> distinct ps \<Longrightarrow> set ps = fst ` allocated h \<Longrightarrow>
     \<exists>ps' h'. alloc_run alloc release ops ps h = Some (ps', h') \<and> inv h' \<and> distinct ps'
       \<and> set ps' = fst ` allocated h' \<and> no_overlap (allocated h')"
proof (induction ops arbitrary: ps h)
  case Nil
  then show ?case using separate_law by simp
next
  case (Cons x ops)
  show ?case
  proof (cases x)
    case (Alloc n)
    obtain r h1 where a: "alloc n h = Some (r, h1)" "inv h1" "case r of
         None \<Rightarrow> allocated h1 = allocated h
       | Some p \<Rightarrow> p \<notin> fst ` allocated h \<and> (\<exists>m \<ge> size_of n. allocated h1 = insert (p, m) (allocated h))"
      using alloc_law [OF Cons.prems(1)] by blast
    show ?thesis
    proof (cases r)
      case None
      then show ?thesis using Cons.IH [OF a(2), of ps] Cons.prems a Alloc by simp
    next
      case (Some p)
      then obtain m where m: "allocated h1 = insert (p, m) (allocated h)" "p \<notin> fst ` allocated h"
        using a(3) by auto
      have "distinct (p # ps)" "set (p # ps) = fst ` allocated h1" using Cons.prems m by auto
      from Cons.IH [OF a(2) this] show ?thesis using a(1) Alloc Some by simp
    qed
  next
    case (Release j)
    show ?thesis
    proof (cases "j < length ps")
      case True
      then have "ps ! j \<in> fst ` allocated h" using Cons.prems(3) nth_mem by blast
      then obtain m where m: "(ps ! j, m) \<in> allocated h" by auto
      obtain h1 where h1: "release (ps ! j) h = Some h1" "inv h1" "allocated h1 = allocated h - {(ps ! j, m)}"
        using release_law [OF Cons.prems(1) m] by blast
      have "fst ` (allocated h - {(ps ! j, m)}) = fst ` allocated h - {ps ! j}"
        using inj_on_image_set_diff [OF address_law [OF Cons.prems(1)], of "allocated h" "{(ps ! j, m)}"] m by simp
      then have "distinct (remove1 (ps ! j) ps)" "set (remove1 (ps ! j) ps) = fst ` allocated h1"
        using Cons.prems h1(3) by simp_all
      from Cons.IH [OF h1(2) this] show ?thesis using h1(1) Release True by simp
    qed (use Cons Release in simp)
  qed
qed

end

end
