(* ===== verification/RT_Mem.thy ===== *)
theory RT_Mem
  imports RT_Sem RT_Alloc
begin

text \<open>
  The heap of the board configuration, the small memory manager (\<open>src/mem.c\<close>): a region
  tiled by blocks, each behind a header that is linked to its neighbours. A header is
  addressed by its offset from \<open>heap_ptr\<close>, a block by its address. Offsets are natural
  numbers; where the code subtracts, the wrap of the 32-bit type is written out (\<open>sub32\<close>);
  its sums do not wrap, as every size has been compared with the heap's by then.
  Headers and contents are separate maps. The calls take and release the heap's semaphore
  on the kernel state; \<open>Wait\<close> is a call that has to wait for it first.
\<close>

section \<open>State\<close>

record heap_mem =
  hm_magic :: u16
  hm_used :: u16
  hm_next :: nat
  hm_prev :: nat

record small_heap =
  heap_ptr :: nat
  heap_end :: nat
  lfree :: nat
  mem_size_aligned :: nat
  used_mem :: nat
  max_mem :: nat
  hmem :: "nat \<Rightarrow> heap_mem"
  hdata :: "nat \<Rightarrow> u8"

abbreviation (input) HEAP_MAGIC :: u16 where "HEAP_MAGIC \<equiv> 0x1ea0"
abbreviation (input) MIN_SIZE :: nat where "MIN_SIZE \<equiv> 12"
abbreviation (input) MIN_SIZE_ALIGNED :: nat where "MIN_SIZE_ALIGNED \<equiv> 16"
abbreviation (input) SIZEOF_STRUCT_MEM :: nat where "SIZEOF_STRUCT_MEM \<equiv> 16"

definition sub32 :: "nat \<Rightarrow> nat \<Rightarrow> nat" where
  "sub32 a b = (a + 2 ^ 32 - b) mod 2 ^ 32"

definition upd_hm :: "nat \<Rightarrow> (heap_mem \<Rightarrow> heap_mem) \<Rightarrow> small_heap \<Rightarrow> small_heap" where
  "upd_hm a f h = h\<lparr>hmem := (hmem h)(a := f (hmem h a))\<rparr>"

abbreviation nx :: "small_heap \<Rightarrow> nat \<Rightarrow> nat" where "nx h a \<equiv> hm_next (hmem h a)"
abbreviation pv :: "small_heap \<Rightarrow> nat \<Rightarrow> nat" where "pv h a \<equiv> hm_prev (hmem h a)"
abbreviation in_use :: "small_heap \<Rightarrow> nat \<Rightarrow> bool" where "in_use h a \<equiv> hm_used (hmem h a) \<noteq> 0"

section \<open>Operations on the blocks\<close>

text \<open>\<open>rt_system_heap_init\<close>: its check of the region, the variables and the two headers it
  sets up, and the whole with the semaphore. The statistics are static variables that start
  as 0.\<close>

definition heap_fits :: "u32 \<Rightarrow> u32 \<Rightarrow> bool" where
  "heap_fits begin_addr end_addr \<longleftrightarrow>
     unat (RT_ALIGN_DOWN end_addr RT_ALIGN_SIZE) > 2 * SIZEOF_STRUCT_MEM
     \<and> unat (RT_ALIGN_DOWN end_addr RT_ALIGN_SIZE) - 2 * SIZEOF_STRUCT_MEM \<ge> unat (RT_ALIGN begin_addr RT_ALIGN_SIZE)"

definition heap_setup :: "u32 \<Rightarrow> u32 \<Rightarrow> small_heap \<Rightarrow> small_heap" where
  "heap_setup begin_addr end_addr h =
     (let begin_align = unat (RT_ALIGN begin_addr RT_ALIGN_SIZE);
          end_align = unat (RT_ALIGN_DOWN end_addr RT_ALIGN_SIZE);
          msa = end_align - begin_align - 2 * SIZEOF_STRUCT_MEM;
          h = h\<lparr>mem_size_aligned := msa, heap_ptr := begin_align\<rparr>;
          h = upd_hm 0 (\<lambda>_. \<lparr>hm_magic = HEAP_MAGIC, hm_used = 0,
                            hm_next = msa + SIZEOF_STRUCT_MEM, hm_prev = 0\<rparr>) h;
          h = h\<lparr>heap_end := nx h 0\<rparr>;
          h = upd_hm (heap_end h) (\<lambda>_. \<lparr>hm_magic = HEAP_MAGIC, hm_used = 1,
                hm_next = msa + SIZEOF_STRUCT_MEM, hm_prev = msa + SIZEOF_STRUCT_MEM\<rparr>) h
      in h\<lparr>lfree := 0\<rparr>)"

definition rt_system_heap_init :: "oid \<Rightarrow> u32 \<Rightarrow> u32 \<Rightarrow> kernel \<times> small_heap \<Rightarrow> (kernel \<times> small_heap) option" where
  "rt_system_heap_init heap_sem begin_addr end_addr s =
     (case s of (k, h) \<Rightarrow>
        do { RT_DEBUG_NOT_IN_INTERRUPT k;
             if heap_fits begin_addr end_addr
             then do { let h = heap_setup begin_addr end_addr h;
                       (_, k) \<leftarrow> rt_sem_init heap_sem ''heap'' 1 RT_IPC_FLAG_FIFO k;
                       Some (k, h) }
             else Some (k, h) })"

text \<open>\<open>plug_holes\<close>, its two halves.\<close>

definition plug_forward :: "nat \<Rightarrow> small_heap \<Rightarrow> small_heap" where
  "plug_forward a h =
     (let n = nx h a
      in if a \<noteq> n \<and> \<not> in_use h n \<and> n \<noteq> heap_end h
         then let h = (if lfree h = n then h\<lparr>lfree := a\<rparr> else h);
                  h = upd_hm a (\<lambda>m. m\<lparr>hm_next := nx h n\<rparr>) h
              in upd_hm (nx h n) (\<lambda>m. m\<lparr>hm_prev := a\<rparr>) h
         else h)"

definition plug_backward :: "nat \<Rightarrow> small_heap \<Rightarrow> small_heap" where
  "plug_backward a h =
     (let p = pv h a
      in if p \<noteq> a \<and> \<not> in_use h p
         then let h = (if lfree h = a then h\<lparr>lfree := p\<rparr> else h);
                  h = upd_hm p (\<lambda>m. m\<lparr>hm_next := nx h a\<rparr>) h
              in upd_hm (nx h a) (\<lambda>m. m\<lparr>hm_prev := p\<rparr>) h
         else h)"

definition plug_holes :: "nat \<Rightarrow> small_heap \<Rightarrow> small_heap option" where
  "plug_holes a h =
     do { rt_assert (a < heap_end h);
          rt_assert (\<not> in_use h a);
          Some (plug_backward a (plug_forward a h)) }"

text \<open>The search of \<open>rt_malloc\<close> for the first block that is large enough.\<close>

partial_function (option) find_fit :: "nat \<Rightarrow> nat \<Rightarrow> nat \<Rightarrow> small_heap \<Rightarrow> nat option option" where
  "find_fit limit sz ptr h =
     (if ptr < limit
      then if \<not> in_use h ptr \<and> sub32 (nx h ptr) (ptr + SIZEOF_STRUCT_MEM) \<ge> sz
           then Some (Some ptr) else find_fit limit sz (nx h ptr) h
      else Some None)"

text \<open>The search for the lowest free block.\<close>

partial_function (option) skip_used :: "nat \<Rightarrow> small_heap \<Rightarrow> nat option" where
  "skip_used ptr h =
     (if in_use h ptr \<and> ptr \<noteq> heap_end h then skip_used (nx h ptr) h else Some ptr)"

definition count_used :: "nat \<Rightarrow> small_heap \<Rightarrow> small_heap" where
  "count_used n h =
     (let h = h\<lparr>used_mem := used_mem h + n\<rparr>
      in if max_mem h < used_mem h then h\<lparr>max_mem := used_mem h\<rparr> else h)"

text \<open>A header for what is left of the block \<open>ptr\<close> behind \<open>sz\<close> bytes, in \<open>rt_malloc\<close> and
  in \<open>rt_realloc\<close>.\<close>

definition split_block :: "nat \<Rightarrow> nat \<Rightarrow> small_heap \<Rightarrow> small_heap" where
  "split_block sz ptr h =
     (let ptr2 = ptr + SIZEOF_STRUCT_MEM + sz;
          h = upd_hm ptr2 (\<lambda>_. \<lparr>hm_magic = HEAP_MAGIC, hm_used = 0, hm_next = nx h ptr, hm_prev = ptr\<rparr>) h;
          h = upd_hm ptr (\<lambda>m. m\<lparr>hm_next := ptr2\<rparr>) h
      in if nx h ptr2 \<noteq> mem_size_aligned h + SIZEOF_STRUCT_MEM
         then upd_hm (nx h ptr2) (\<lambda>m. m\<lparr>hm_prev := ptr2\<rparr>) h else h)"

definition take_block :: "nat \<Rightarrow> nat \<Rightarrow> small_heap \<Rightarrow> small_heap" where
  "take_block sz ptr h =
     (let h = (if sub32 (nx h ptr) (ptr + SIZEOF_STRUCT_MEM) \<ge> sz + SIZEOF_STRUCT_MEM + MIN_SIZE_ALIGNED
               then count_used (sz + SIZEOF_STRUCT_MEM)
                      (upd_hm ptr (\<lambda>m. m\<lparr>hm_used := 1\<rparr>) (split_block sz ptr h))
               else count_used (sub32 (nx h ptr) ptr) (upd_hm ptr (\<lambda>m. m\<lparr>hm_used := 1\<rparr>) h))
      in upd_hm ptr (\<lambda>m. m\<lparr>hm_magic := HEAP_MAGIC\<rparr>) h)"

definition malloc_locked :: "nat \<Rightarrow> small_heap \<Rightarrow> (nat option \<times> small_heap) option" where
  "malloc_locked sz h =
     do { r \<leftarrow> find_fit (sub32 (mem_size_aligned h) sz) sz (lfree h) h;
          case r of
            None \<Rightarrow> Some (None, h)
          | Some ptr \<Rightarrow>
              do { let h = take_block sz ptr h;
                   h \<leftarrow> (if ptr = lfree h
                        then do { l \<leftarrow> skip_used (lfree h) h;
                                  rt_assert (l = heap_end h \<or> \<not> in_use h l);
                                  Some (h\<lparr>lfree := l\<rparr>) }
                        else Some h);
                   Some (Some ptr, h) } }"

definition free_locked :: "nat \<Rightarrow> small_heap \<Rightarrow> small_heap option" where
  "free_locked ptr h =
     do { rt_assert (in_use h ptr);
          rt_assert (hm_magic (hmem h ptr) = HEAP_MAGIC);
          let h = upd_hm ptr (\<lambda>m. m\<lparr>hm_used := 0, hm_magic := HEAP_MAGIC\<rparr>) h;
          let h = (if ptr < lfree h then h\<lparr>lfree := ptr\<rparr> else h);
          let h = h\<lparr>used_mem := sub32 (used_mem h) (sub32 (nx h ptr) ptr)\<rparr>;
          plug_holes ptr h }"

text \<open>Shrinking in place: the part of \<open>rt_realloc\<close> that splits the block.\<close>

definition shrink_locked :: "nat \<Rightarrow> nat \<Rightarrow> nat \<Rightarrow> small_heap \<Rightarrow> small_heap option" where
  "shrink_locked ptr sz newsize h =
     (let h = h\<lparr>used_mem := sub32 (used_mem h) (sz - newsize)\<rparr>;
          h = split_block newsize ptr h;
          ptr2 = ptr + SIZEOF_STRUCT_MEM + newsize;
          h = (if ptr2 < lfree h then h\<lparr>lfree := ptr2\<rparr> else h)
      in plug_holes ptr2 h)"

section \<open>The calls\<close>

text \<open>A call that runs \<open>f\<close> while it holds the semaphore; the answers of the semaphore are
  not looked at.\<close>

definition with_heap_sem ::
    "oid \<Rightarrow> (small_heap \<Rightarrow> ('a \<times> small_heap) option) \<Rightarrow> kernel \<times> small_heap \<Rightarrow> ('a call_result \<times> kernel \<times> small_heap) option" where
  "with_heap_sem heap_sem f s =
     (case s of (k, h) \<Rightarrow>
        do { (r, k) \<leftarrow> rt_sem_take_start heap_sem (- 1) k;
             case r of
               Blocked \<Rightarrow> Some (Wait, k, h)
             | Returned _ \<Rightarrow> do { (x, h) \<leftarrow> f h;
                                 (_, k) \<leftarrow> rt_sem_release heap_sem k;
                                 Some (Done x, k, h) } })"

text \<open>Going on after a call that did not have to wait.\<close>

definition heap_then ::
    "('a call_result \<times> kernel \<times> small_heap) option \<Rightarrow>
     ('a \<Rightarrow> kernel \<times> small_heap \<Rightarrow> ('b call_result \<times> kernel \<times> small_heap) option) \<Rightarrow>
     ('b call_result \<times> kernel \<times> small_heap) option" where
  "heap_then m f =
     do { (r, s) \<leftarrow> m; case r of Wait \<Rightarrow> Some (Wait, s) | Done x \<Rightarrow> f x s }"

definition rt_malloc ::
    "oid \<Rightarrow> u32 \<Rightarrow> kernel \<times> small_heap \<Rightarrow> (nat option call_result \<times> kernel \<times> small_heap) option" where
  "rt_malloc heap_sem sz s =
     (if sz = 0 then Some (Done None, s)
      else do { RT_DEBUG_NOT_IN_INTERRUPT (fst s);
                let n = unat (RT_ALIGN sz RT_ALIGN_SIZE);
                if n > mem_size_aligned (snd s) then Some (Done None, s)
                else let n = (if n < MIN_SIZE_ALIGNED then MIN_SIZE_ALIGNED else n)
                     in heap_then (with_heap_sem heap_sem (malloc_locked n) s)
                          (\<lambda>r s. let h = snd s in
                             case r of
                               None \<Rightarrow> Some (Done None, s)
                             | Some ptr \<Rightarrow>
                                 do { rt_assert (ptr + SIZEOF_STRUCT_MEM + n \<le> heap_end h);
                                      rt_assert ((heap_ptr h + ptr + SIZEOF_STRUCT_MEM) mod 8 = 0);
                                      rt_assert ((heap_ptr h + ptr) mod 8 = 0);
                                      Some (Done (Some (heap_ptr h + ptr + SIZEOF_STRUCT_MEM)), s) }) })"

text \<open>The header of a block; one that would start below the heap has no result.\<close>

definition header_of :: "small_heap \<Rightarrow> nat \<Rightarrow> nat option" where
  "header_of h rmem =
     (if heap_ptr h + SIZEOF_STRUCT_MEM \<le> rmem then Some (rmem - SIZEOF_STRUCT_MEM - heap_ptr h) else None)"

definition in_heap :: "small_heap \<Rightarrow> nat \<Rightarrow> bool" where
  "in_heap h rmem \<longleftrightarrow> heap_ptr h \<le> rmem \<and> rmem < heap_ptr h + heap_end h"

definition rt_free ::
    "oid \<Rightarrow> nat option \<Rightarrow> kernel \<times> small_heap \<Rightarrow> (unit call_result \<times> kernel \<times> small_heap) option" where
  "rt_free heap_sem rmem s =
     (case rmem of
        None \<Rightarrow> Some (Done (), s)
      | Some rmem \<Rightarrow>
          do { RT_DEBUG_NOT_IN_INTERRUPT (fst s);
               rt_assert (rmem mod 8 = 0);
               rt_assert (in_heap (snd s) rmem);
               ptr \<leftarrow> header_of (snd s) rmem;
               with_heap_sem heap_sem (\<lambda>h. map_option (Pair ()) (free_locked ptr h)) s })"

definition copy_bytes :: "nat \<Rightarrow> nat \<Rightarrow> nat \<Rightarrow> (nat \<Rightarrow> u8) \<Rightarrow> nat \<Rightarrow> u8" where
  "copy_bytes dst src n d = (\<lambda>i. if dst \<le> i \<and> i < dst + n then d (src + (i - dst)) else d i)"

text \<open>\<open>rt_realloc\<close>. The first critical section answers with the block, or with its size if
  the block has to be moved.\<close>

definition resize_locked :: "nat \<Rightarrow> nat \<Rightarrow> small_heap \<Rightarrow> (nat option \<times> small_heap) option" where
  "resize_locked rmem newsize h =
     (if \<not> in_heap h rmem then Some (None, h)
      else do { ptr \<leftarrow> header_of h rmem;
                let sz = sub32 (sub32 (nx h ptr) ptr) SIZEOF_STRUCT_MEM;
                if sz = newsize then Some (None, h)
                else if newsize + SIZEOF_STRUCT_MEM + MIN_SIZE < sz
                then map_option (Pair None) (shrink_locked ptr sz newsize h)
                else Some (Some sz, h) })"

definition rt_realloc ::
    "oid \<Rightarrow> nat option \<Rightarrow> u32 \<Rightarrow> kernel \<times> small_heap \<Rightarrow> (nat option call_result \<times> kernel \<times> small_heap) option" where
  "rt_realloc heap_sem rmem newsize s =
     do { RT_DEBUG_NOT_IN_INTERRUPT (fst s);
          let newsize = RT_ALIGN newsize RT_ALIGN_SIZE;
          if unat newsize > mem_size_aligned (snd s) then Some (Done None, s)
          else if newsize = 0 then heap_then (rt_free heap_sem rmem s) (\<lambda>_ s. Some (Done None, s))
          else case rmem of
            None \<Rightarrow> rt_malloc heap_sem newsize s
          | Some rmem \<Rightarrow>
              heap_then (with_heap_sem heap_sem (resize_locked rmem (unat newsize)) s) (\<lambda>r s.
                case r of
                  None \<Rightarrow> Some (Done (Some rmem), s)
                | Some sz \<Rightarrow>
                    heap_then (rt_malloc heap_sem newsize s) (\<lambda>nmem s.
                      case nmem of
                        None \<Rightarrow> Some (Done None, s)
                      | Some nmem \<Rightarrow>
                          let h = snd s;
                              n = (if sz < unat newsize then sz else unat newsize);
                              h = h\<lparr>hdata := copy_bytes (nmem - heap_ptr h) (rmem - heap_ptr h) n (hdata h)\<rparr>
                          in heap_then (rt_free heap_sem (Some rmem) (fst s, h))
                               (\<lambda>_ s. Some (Done (Some nmem), s)))) }"

definition rt_calloc ::
    "oid \<Rightarrow> u32 \<Rightarrow> u32 \<Rightarrow> kernel \<times> small_heap \<Rightarrow> (nat option call_result \<times> kernel \<times> small_heap) option" where
  "rt_calloc heap_sem cnt sz s =
     heap_then (rt_malloc heap_sem (cnt * sz) s) (\<lambda>p s.
       case p of
         None \<Rightarrow> Some (Done None, s)
       | Some p \<Rightarrow>
           let h = snd s; off = p - heap_ptr h
           in Some (Done (Some p), fst s,
                h\<lparr>hdata := (\<lambda>i. if off \<le> i \<and> i < off + unat (cnt * sz) then 0 else hdata h i)\<rparr>))"

definition rt_memory_info :: "small_heap \<Rightarrow> nat \<times> nat \<times> nat" where
  "rt_memory_info h = (mem_size_aligned h, used_mem h, max_mem h)"


section \<open>A well-formed heap\<close>

text \<open>The headers that the walk over \<open>next\<close> from the start of the heap meets.\<close>

inductive_set headers :: "small_heap \<Rightarrow> nat set" for h where
  headers_first: "0 \<in> headers h"
| headers_next: "a \<in> headers h \<Longrightarrow> nx h a \<in> headers h"

text \<open>\<open>H\<close> tiles the heap: every header but the end is followed by a block and the next
  header, with no other header in between, and linked back from it.\<close>

definition tiled :: "small_heap \<Rightarrow> nat set \<Rightarrow> bool" where
  "tiled h H \<longleftrightarrow>
     0 \<in> H \<and> heap_end h \<in> H \<and> (\<forall>a \<in> H. a \<le> heap_end h \<and> a mod 8 = 0 \<and> hm_magic (hmem h a) = HEAP_MAGIC)
     \<and> (\<forall>a \<in> H. a \<noteq> heap_end h \<longrightarrow> nx h a \<in> H \<and> a + 16 < nx h a
          \<and> (nx h a \<noteq> heap_end h \<longrightarrow> pv h (nx h a) = a))
     \<and> (\<forall>a \<in> H. \<forall>x \<in> H. a \<noteq> heap_end h \<longrightarrow> x \<le> a \<or> nx h a \<le> x)
     \<and> pv h 0 = 0 \<and> nx h (heap_end h) = heap_end h \<and> in_use h (heap_end h)"

text \<open>\<open>lfree\<close> is the lowest free block, or the end.\<close>

definition lowest_free :: "small_heap \<Rightarrow> nat set \<Rightarrow> bool" where
  "lowest_free h H \<longleftrightarrow>
     lfree h \<in> H \<and> (lfree h = heap_end h \<or> \<not> in_use h (lfree h)) \<and> (\<forall>a \<in> H. \<not> in_use h a \<longrightarrow> lfree h \<le> a)"

text \<open>No two neighbours are free, except around the block \<open>x\<close>.\<close>

definition merged :: "nat set \<Rightarrow> small_heap \<Rightarrow> nat set \<Rightarrow> bool" where
  "merged X h H \<longleftrightarrow> (\<forall>a \<in> H. \<not> in_use h a \<longrightarrow> \<not> in_use h (nx h a) \<longrightarrow> a \<in> X \<or> nx h a \<in> X)"

text \<open>The statistics count the blocks in use with their headers.\<close>

definition used_headers :: "small_heap \<Rightarrow> nat set \<Rightarrow> nat set" where
  "used_headers h H = {a \<in> H. a \<noteq> heap_end h \<and> in_use h a}"

definition counted :: "small_heap \<Rightarrow> nat set \<Rightarrow> bool" where
  "counted h H \<longleftrightarrow> used_mem h = (\<Sum>a \<in> used_headers h H. nx h a - a) \<and> used_mem h \<le> max_mem h"

definition heap_shape :: "small_heap \<Rightarrow> bool" where
  "heap_shape h \<longleftrightarrow> heap_end h = mem_size_aligned h + 16 \<and> 16 \<le> mem_size_aligned h
     \<and> heap_ptr h mod 8 = 0 \<and> heap_end h mod 8 = 0 \<and> heap_ptr h + heap_end h + 16 < 2 ^ 32"

definition heap_wf :: "small_heap \<Rightarrow> nat set \<Rightarrow> bool" where
  "heap_wf h H \<longleftrightarrow> heap_shape h \<and> tiled h H \<and> lowest_free h H \<and> merged {} h H \<and> counted h H"

definition heap_inv :: "small_heap \<Rightarrow> bool" where
  "heap_inv h \<longleftrightarrow> heap_wf h (headers h)"

text \<open>The blocks in use: address and size.\<close>

definition allocated :: "small_heap \<Rightarrow> (nat \<times> nat) set" where
  "allocated h = (\<lambda>a. (heap_ptr h + a + 16, nx h a - (a + 16))) ` used_headers h (headers h)"

lemma tiledD:
  assumes "tiled h H"
  shows "0 \<in> H" "heap_end h \<in> H" "a \<in> H \<Longrightarrow> a \<le> heap_end h" "a \<in> H \<Longrightarrow> a mod 8 = 0"
    "a \<in> H \<Longrightarrow> hm_magic (hmem h a) = HEAP_MAGIC"
    "a \<in> H \<Longrightarrow> a \<noteq> heap_end h \<Longrightarrow> nx h a \<in> H" "a \<in> H \<Longrightarrow> a \<noteq> heap_end h \<Longrightarrow> a + 16 < nx h a"
    "a \<in> H \<Longrightarrow> a \<noteq> heap_end h \<Longrightarrow> nx h a \<noteq> heap_end h \<Longrightarrow> pv h (nx h a) = a"
    "a \<in> H \<Longrightarrow> x \<in> H \<Longrightarrow> a \<noteq> heap_end h \<Longrightarrow> x \<le> a \<or> nx h a \<le> x"
    "pv h 0 = 0" "nx h (heap_end h) = heap_end h" "in_use h (heap_end h)" "finite H"
proof -
  show "finite H" by (rule finite_subset [of _ "{..heap_end h}"]) (use assms in \<open>auto simp: tiled_def\<close>)
qed (use assms in \<open>auto simp: tiled_def\<close>)

lemma headers_tiled:
  assumes "tiled h H"
  shows "headers h = H"
proof
  show "headers h \<subseteq> H"
  proof
    fix a assume "a \<in> headers h"
    then show "a \<in> H"
      by induction (use tiledD(1,2,6,11) [OF assms] in metis)+
  qed
  show "H \<subseteq> headers h"
  proof
    fix x assume x: "x \<in> H"
    let ?A = "{a \<in> headers h. a \<le> x}"
    have fin: "finite ?A" by (rule finite_subset [of _ "{..x}"]) auto
    have "0 \<in> ?A" by (simp add: headers_first)
    then have m: "Max ?A \<in> ?A" using Max_in [OF fin] by blast
    have mH: "Max ?A \<in> H" using m \<open>headers h \<subseteq> H\<close> by auto
    show "x \<in> headers h"
    proof (cases "Max ?A = x")
      case False
      then have lt: "Max ?A < x" using m by simp
      have ne: "Max ?A \<noteq> heap_end h" using lt tiledD(3) [OF assms x] by simp
      have "nx h (Max ?A) \<le> x" using tiledD(9) [OF assms mH x ne] lt by simp
      then have "nx h (Max ?A) \<in> ?A" using m headers_next by simp
      then have "nx h (Max ?A) \<le> Max ?A" using fin by simp
      then show ?thesis using tiledD(7) [OF assms mH ne] by simp
    qed (use m in simp)
  qed
qed

lemma heap_wf_inv: "heap_wf h H \<Longrightarrow> heap_inv h"
  using headers_tiled by (auto simp: heap_inv_def heap_wf_def)

text \<open>Two blocks in use do not overlap, nor does a block overlap a header.\<close>

lemma tiled_disjoint:
  assumes "tiled h H" "a \<in> H" "b \<in> H" "a \<noteq> heap_end h" "b \<noteq> heap_end h" "a \<noteq> b"
  shows "nx h a \<le> b \<or> nx h b \<le> a"
  using tiledD(9) [OF assms(1) assms(2,3,4)] tiledD(9) [OF assms(1) assms(3,2,5)] assms(6) by linarith

lemma tiled_next_inj:
  assumes "tiled h H" "a \<in> H" "b \<in> H" "a \<noteq> heap_end h" "b \<noteq> heap_end h" "nx h a = nx h b"
  shows "a = b"
proof (rule ccontr)
  assume "a \<noteq> b"
  from tiled_disjoint [OF assms(1-5) this] show False
    using assms(6) tiledD(7) [OF assms(1,2,4)] tiledD(7) [OF assms(1,3,5)] by simp
qed

lemma sub32_le:
  assumes "b \<le> a" "a < 2 ^ 32"
  shows "sub32 a b = a - b"
proof -
  have "(a + n - b) mod n = a - b" if "a < n" for n :: nat
  proof -
    have e: "a + n - b = (a - b) + n" using assms(1) by linarith
    have "a - b < n" using that by linarith
    then show ?thesis unfolding e mod_add_self2 by (rule mod_less)
  qed
  from this [OF assms(2)] show ?thesis unfolding sub32_def .
qed

lemma block_size:
  assumes "heap_shape h" "tiled h H" "a \<in> H" "a \<noteq> heap_end h"
  shows "sub32 (nx h a) a = nx h a - a" "sub32 (nx h a) (a + 16) = nx h a - (a + 16)"
    "sub32 (sub32 (nx h a) a) 16 = nx h a - (a + 16)" "nx h a \<le> heap_end h"
proof -
  note t = tiledD(7) [OF assms(2-4)] tiledD(3) [OF assms(2) tiledD(6) [OF assms(2-4)]]
  have "heap_end h < 2 ^ 32" using assms(1) unfolding heap_shape_def by linarith
  with t(2) have lt: "nx h a < 2 ^ 32" by (rule le_less_trans)
  show s: "sub32 (nx h a) a = nx h a - a" "sub32 (nx h a) (a + 16) = nx h a - (a + 16)"
    using t(1) by (auto intro!: sub32_le [OF _ lt])
  have "nx h a - a < 2 ^ 32" using lt by (rule le_less_trans [OF diff_le_self])
  from sub32_le [OF _ this, of 16] show "sub32 (sub32 (nx h a) a) 16 = nx h a - (a + 16)"
    using t(1) by (simp add: s)
  show "nx h a \<le> heap_end h" by (rule t(2))
qed

section \<open>The searches\<close>

lemma find_fit_ok:
  assumes "heap_shape h" "tiled h H" "ptr \<in> H" "limit \<le> heap_end h"
  shows "\<exists>r. find_fit limit n ptr h = Some r \<and>
     (case r of
        Some a \<Rightarrow> a \<in> H \<and> ptr \<le> a \<and> a < limit \<and> \<not> in_use h a \<and> n \<le> nx h a - (a + 16)
      | None \<Rightarrow> \<forall>a \<in> H. ptr \<le> a \<longrightarrow> a < limit \<longrightarrow> in_use h a \<or> nx h a - (a + 16) < n)"
  using assms(3)
proof (induction "heap_end h - ptr" arbitrary: ptr rule: less_induct)
  case less
  note fit = find_fit.simps [of limit n ptr h]
  show ?case
  proof (cases "ptr < limit")
    case True
    then have ne: "ptr \<noteq> heap_end h" using assms(4) by simp
    note s = block_size(2) [OF assms(1,2) less(2) ne]
    show ?thesis
    proof (cases "\<not> in_use h ptr \<and> sub32 (nx h ptr) (ptr + 16) \<ge> n")
      case hit: True
      then show ?thesis using True less(2) s by (simp add: fit)
    next
      case False
      note t = tiledD(6,7) [OF assms(2) less(2) ne]
      have m: "heap_end h - nx h ptr < heap_end h - ptr"
        using t tiledD(3) [OF assms(2) less(2)] ne by simp
      have f: "find_fit limit n ptr h = find_fit limit n (nx h ptr) h"
        using True False by (subst fit) auto
      obtain r where r: "find_fit limit n (nx h ptr) h = Some r" "case r of
          Some a \<Rightarrow> a \<in> H \<and> nx h ptr \<le> a \<and> a < limit \<and> \<not> in_use h a \<and> n \<le> nx h a - (a + 16)
        | None \<Rightarrow> \<forall>a \<in> H. nx h ptr \<le> a \<longrightarrow> a < limit \<longrightarrow> in_use h a \<or> nx h a - (a + 16) < n"
        using less(1) [OF m t(1)] by blast
      show ?thesis
      proof (cases r)
        case None
        have "in_use h a \<or> nx h a - (a + 16) < n" if "a \<in> H" "ptr \<le> a" "a < limit" for a
        proof (cases "a = ptr")
          case True
          then show ?thesis using False s by auto
        next
          case False
          then have "nx h ptr \<le> a" using tiledD(9) [OF assms(2) less(2) that(1) ne] that(2) by simp
          then show ?thesis using r(2) None that by simp
        qed
        then show ?thesis using f r(1) None by simp
      next
        case (Some a)
        then show ?thesis using f r t(2) by simp
      qed
    qed
  qed (simp add: fit)
qed

lemma skip_used_ok:
  assumes "tiled h H" "ptr \<in> H" "\<forall>a \<in> H. \<not> in_use h a \<longrightarrow> ptr \<le> a"
  shows "\<exists>l. skip_used ptr h = Some l \<and> l \<in> H \<and> (l = heap_end h \<or> \<not> in_use h l) \<and> (\<forall>a \<in> H. \<not> in_use h a \<longrightarrow> l \<le> a)"
  using assms(2,3)
proof (induction "heap_end h - ptr" arbitrary: ptr rule: less_induct)
  case less
  show ?case
  proof (cases "in_use h ptr \<and> ptr \<noteq> heap_end h")
    case True
    then have ne: "ptr \<noteq> heap_end h" by simp
    note t = tiledD(6,7) [OF assms(1) less(2) ne]
    have "heap_end h - nx h ptr < heap_end h - ptr" using t tiledD(3) [OF assms(1) less(2)] ne by simp
    moreover have "\<forall>a \<in> H. \<not> in_use h a \<longrightarrow> nx h ptr \<le> a"
      using less(3) tiledD(9) [OF assms(1) less(2) _ ne] True by (metis le_antisym)
    ultimately show ?thesis using less(1) [of "nx h ptr"] t(1) True by (subst skip_used.simps) simp
  qed (use less in \<open>auto simp: skip_used.simps [of ptr h]\<close>)
qed


section \<open>Joining and splitting blocks\<close>

lemma upd_hm_fields [simp]:
  "hmem (upd_hm a f h) x = (if x = a then f (hmem h a) else hmem h x)"
  "heap_end (upd_hm a f h) = heap_end h" "heap_ptr (upd_hm a f h) = heap_ptr h" "lfree (upd_hm a f h) = lfree h"
  "mem_size_aligned (upd_hm a f h) = mem_size_aligned h" "used_mem (upd_hm a f h) = used_mem h"
  "max_mem (upd_hm a f h) = max_mem h" "hdata (upd_hm a f h) = hdata h"
  by (simp_all add: upd_hm_def)

text \<open>What all the operations keep.\<close>

definition heap_frame :: "small_heap \<Rightarrow> small_heap \<Rightarrow> bool" where
  "heap_frame h h' \<longleftrightarrow> heap_end h' = heap_end h \<and> heap_ptr h' = heap_ptr h
     \<and> mem_size_aligned h' = mem_size_aligned h \<and> hdata h' = hdata h"

lemma heap_frame_refl [simp]: "heap_frame h h"
  by (simp add: heap_frame_def)

lemma heap_frame_trans: "heap_frame h1 h2 \<Longrightarrow> heap_frame h2 h3 \<Longrightarrow> heap_frame h1 h3"
  by (simp add: heap_frame_def)

lemma heap_shape_frame: "heap_frame h h' \<Longrightarrow> heap_shape h' = heap_shape h"
  by (simp add: heap_frame_def heap_shape_def)

lemma tiled_cong:
  "hmem h' = hmem h \<Longrightarrow> heap_end h' = heap_end h \<Longrightarrow> tiled h' H = tiled h H"
  by (simp add: tiled_def)

lemma tiled_pred:
  assumes "tiled h H" "a \<in> H" "a \<noteq> 0"
  shows "\<exists>q \<in> H. q \<noteq> heap_end h \<and> nx h q = a"
proof -
  let ?A = "{x \<in> H. x < a}"
  have fin: "finite ?A" using tiledD(13) [OF assms(1)] by simp
  have "0 \<in> ?A" using tiledD(1) [OF assms(1)] assms(3) by simp
  then have q: "Max ?A \<in> ?A" using Max_in [OF fin] by blast
  then have qH: "Max ?A \<in> H" and lt: "Max ?A < a" by auto
  have ne: "Max ?A \<noteq> heap_end h" using lt tiledD(3) [OF assms(1,2)] by simp
  have le: "nx h (Max ?A) \<le> a" using tiledD(9) [OF assms(1) qH assms(2) ne] lt by simp
  have "\<not> nx h (Max ?A) < a"
  proof
    assume "nx h (Max ?A) < a"
    then have "nx h (Max ?A) \<in> ?A" using tiledD(6) [OF assms(1) qH ne] by simp
    then have "nx h (Max ?A) \<le> Max ?A" using fin by simp
    then show False using tiledD(7) [OF assms(1) qH ne] by simp
  qed
  then show ?thesis using le qH ne by (intro bexI [of _ "Max ?A"]) auto
qed

definition join :: "nat \<Rightarrow> small_heap \<Rightarrow> small_heap" where
  "join a h = (let n = nx h a; h = upd_hm a (\<lambda>m. m\<lparr>hm_next := nx h n\<rparr>) h
               in upd_hm (nx h n) (\<lambda>m. m\<lparr>hm_prev := a\<rparr>) h)"

lemma join_fields:
  assumes "nx h a \<noteq> a"
  shows "nx (join a h) x = (if x = a then nx h (nx h a) else nx h x)"
    "hm_used (hmem (join a h) x) = hm_used (hmem h x)" "hm_magic (hmem (join a h) x) = hm_magic (hmem h x)"
    "pv (join a h) x = (if x = nx h (nx h a) then a else pv h x)"
    "heap_frame h (join a h)" "heap_end (join a h) = heap_end h" "lfree (join a h) = lfree h"
    "used_mem (join a h) = used_mem h" "max_mem (join a h) = max_mem h"
  using assms by (simp_all add: join_def Let_def heap_frame_def)

lemma join_tiled:
  assumes t: "tiled h H" and a: "a \<in> H" "a \<noteq> heap_end h" "nx h a \<noteq> heap_end h"
  shows "tiled (join a h) (H - {nx h a})"
proof -
  let ?n = "nx h a"
  note n = tiledD(6,7) [OF t a(1,2)]
  note nn = tiledD(6,7) [OF t n(1) a(3)]
  have ne: "?n \<noteq> a" using n(2) by simp
  note f = join_fields [OF ne]
  have u: "nx h x \<noteq> ?n" if "x \<in> H" "x \<noteq> heap_end h" "x \<noteq> a" for x
    using tiled_next_inj [OF t that(1) a(1) that(2) a(2)] that(3) by blast
  have u2: "nx h x \<noteq> nx h ?n" if "x \<in> H" "x \<noteq> heap_end h" "x \<noteq> ?n" for x
    using tiled_next_inj [OF t that(1) n(1) that(2) a(3)] that(3) by blast
  have z: "nx h ?n \<noteq> 0" "?n \<noteq> 0" using nn(2) n(2) by simp_all
  have next_ok: "nx (join a h) x \<in> H - {?n} \<and> x + 16 < nx (join a h) x
      \<and> (nx (join a h) x \<noteq> heap_end h \<longrightarrow> pv (join a h) (nx (join a h) x) = x)"
    if "x \<in> H - {?n}" "x \<noteq> heap_end h" for x
  proof (cases "x = a")
    case True
    then show ?thesis using nn n by (simp add: f)
  next
    case False
    then show ?thesis
      using that u [of x] u2 [of x] tiledD(6,7,8) [OF t, of x] by (simp add: f)
  qed
  have gap: "y \<le> x \<or> nx (join a h) x \<le> y" if "x \<in> H - {?n}" "y \<in> H - {?n}" "x \<noteq> heap_end h" for x y
  proof (cases "x = a")
    case True
    then have "y \<le> a \<or> ?n \<le> y" using tiledD(9) [OF t a(1) _ a(2)] that(2) by simp
    moreover have "y \<le> ?n \<or> nx h ?n \<le> y" using tiledD(9) [OF t n(1) _ a(3)] that(2) by simp
    ultimately show ?thesis using that(2) True by (auto simp: f)
  next
    case False
    then show ?thesis using tiledD(9) [OF t _ _ that(3)] that(1,2) by (simp add: f)
  qed
  show ?thesis
    unfolding tiled_def f(6)
    using tiledD(1-5,10-12) [OF t] next_ok gap a z ne by (auto simp: f)
qed

text \<open>Joining two free blocks changes no block in use.\<close>

lemma join_used:
  assumes "nx h a \<noteq> a" "\<not> in_use h a" "\<not> in_use h (nx h a)"
  shows "used_headers (join a h) (H - {nx h a}) = used_headers h H" "in_use h x \<Longrightarrow> nx (join a h) x = nx h x"
    "counted (join a h) (H - {nx h a}) = counted h H"
proof -
  note f = join_fields [OF assms(1)]
  show u: "used_headers (join a h) (H - {nx h a}) = used_headers h H"
    using assms(3) by (auto simp: used_headers_def f)
  show n: "nx (join a h) x = nx h x" if "in_use h x" for x using that assms(2) by (auto simp: f)
  have "(\<Sum>x \<in> used_headers h H. nx (join a h) x - x) = (\<Sum>x \<in> used_headers h H. nx h x - x)"
    by (rule sum.cong) (auto simp: used_headers_def n)
  then show "counted (join a h) (H - {nx h a}) = counted h H" unfolding counted_def u by (simp add: f)
qed


section \<open>Merging a free block with its neighbours\<close>

text \<open>A heap that is well formed but for a free neighbour of the free block \<open>a\<close>, and what
  merging gives.\<close>

definition heap_hole :: "nat \<Rightarrow> small_heap \<Rightarrow> nat set \<Rightarrow> bool" where
  "heap_hole a h H \<longleftrightarrow> heap_shape h \<and> tiled h H \<and> lowest_free h H \<and> counted h H
     \<and> a \<in> H \<and> a \<noteq> heap_end h \<and> \<not> in_use h a \<and> merged {a} h H"

definition same_blocks :: "small_heap \<Rightarrow> nat set \<Rightarrow> small_heap \<Rightarrow> nat set \<Rightarrow> bool" where
  "same_blocks h H h' H' \<longleftrightarrow> heap_frame h h' \<and> used_headers h' H' = used_headers h H
     \<and> (\<forall>x. in_use h x \<longrightarrow> nx h' x = nx h x) \<and> (\<forall>x. in_use h' x \<longleftrightarrow> in_use h x)"

lemma same_blocks_refl: "same_blocks h H h H"
  by (simp add: same_blocks_def)

lemma same_blocks_trans: "same_blocks h H h1 H1 \<Longrightarrow> same_blocks h1 H1 h2 H2 \<Longrightarrow> same_blocks h H h2 H2"
  using heap_frame_trans by (auto simp: same_blocks_def)

lemma lowest_free_join:
  assumes "tiled h H" "lowest_free h H" "a \<in> H" "a \<noteq> heap_end h" "\<not> in_use h a"
  shows "lfree h \<noteq> nx h a" "lowest_free (join a h) (H - {nx h a})"
proof -
  have "lfree h \<le> a" "a + 16 < nx h a" using assms tiledD(7) [OF assms(1,3,4)] by (auto simp: lowest_free_def)
  then have "nx h a \<noteq> a" and l: "lfree h \<noteq> nx h a" by simp_all
  note f = join_fields [OF this(1)]
  show "lfree h \<noteq> nx h a" by (rule l)
  show "lowest_free (join a h) (H - {nx h a})" using assms(2) l by (auto simp: lowest_free_def f)
qed

lemma plug_forward_ok:
  assumes "heap_hole a h H"
  shows "\<exists>H'. heap_hole a (plug_forward a h) H' \<and> same_blocks h H (plug_forward a h) H'
     \<and> in_use (plug_forward a h) (nx (plug_forward a h) a)"
proof -
  have t: "tiled h H" and lf: "lowest_free h H" and a: "a \<in> H" "a \<noteq> heap_end h" "\<not> in_use h a"
    and m: "merged {a} h H" and s: "heap_shape h" and c: "counted h H"
    using assms by (simp_all add: heap_hole_def)
  note n = tiledD(6,7) [OF t a(1,2)]
  show ?thesis
  proof (cases "in_use h (nx h a)")
    case True
    then have "plug_forward a h = h" by (simp add: plug_forward_def Let_def)
    then show ?thesis using assms True same_blocks_refl by auto
  next
    case False
    then have ne: "nx h a \<noteq> heap_end h" using tiledD(12) [OF t] by auto
    have na: "nx h a \<noteq> a" using n(2) by simp
    note l = lowest_free_join [OF t lf a]
    note f = join_fields [OF na]
    note u = join_used [OF na a(3) False]
    have e: "plug_forward a h = join a h"
      using False ne na l(1) by (simp add: plug_forward_def join_def Let_def)
    have used: "in_use h (nx h (nx h a))"
    proof (rule ccontr)
      assume "\<not> in_use h (nx h (nx h a))"
      then have "nx h a = a \<or> nx h (nx h a) = a" using m n(1) False by (auto simp: merged_def)
      then show False using n(2) tiledD(7) [OF t n(1) ne] by auto
    qed
    have "merged {a} (join a h) (H - {nx h a})"
      using m used by (auto simp: merged_def f)
    then have "heap_hole a (join a h) (H - {nx h a})"
      using join_tiled [OF t a(1,2) ne] l(2) c a s na heap_shape_frame [OF f(5)] by (simp add: heap_hole_def u f)
    moreover have "same_blocks h H (join a h) (H - {nx h a})"
      using u(1,2) f(2,5) by (simp add: same_blocks_def)
    ultimately show ?thesis using used unfolding e by (intro exI [of _ "H - {nx h a}"]) (simp add: f)
  qed
qed

lemma plug_backward_ok:
  assumes "heap_hole a h H" "in_use h (nx h a)"
  shows "\<exists>H'. heap_wf (plug_backward a h) H' \<and> same_blocks h H (plug_backward a h) H'"
proof -
  have t: "tiled h H" and lf: "lowest_free h H" and a: "a \<in> H" "a \<noteq> heap_end h" "\<not> in_use h a"
    and m: "merged {a} h H" and s: "heap_shape h" and c: "counted h H"
    using assms by (simp_all add: heap_hole_def)
  show ?thesis
  proof (cases "pv h a \<noteq> a \<and> \<not> in_use h (pv h a)")
    case True
    then have "a \<noteq> 0" using tiledD(10) [OF t] by metis
    then obtain p where p: "p \<in> H" "p \<noteq> heap_end h" "nx h p = a" using tiled_pred [OF t a(1)] by blast
    have pv: "pv h a = p" using tiledD(8) [OF t p(1,2)] p(3) a(2) by simp
    have fr: "\<not> in_use h p" "p \<noteq> a" "nx h p \<noteq> p" using True pv p(3) by auto
    note l = lowest_free_join [OF t lf p(1,2) fr(1), unfolded p(3)]
    note f = join_fields [OF fr(3), unfolded p(3)]
    note u = join_used [OF fr(3,1), unfolded p(3), OF a(3)]
    have e: "plug_backward a h = join p h"
      using True pv p(3) fr l(1) by (simp add: plug_backward_def join_def Let_def)
    have "merged {} (join p h) (H - {a})"
      unfolding merged_def
    proof (intro ballI impI)
      fix x assume x: "x \<in> H - {a}" "\<not> in_use (join p h) x" "\<not> in_use (join p h) (nx (join p h) x)"
      then have xp: "x \<noteq> p" using assms(2) by (auto simp: f)
      then have "\<not> in_use h x" "\<not> in_use h (nx h x)" "x \<in> H" "x \<noteq> a" using x by (simp_all add: f)
      then have eq: "nx h x = a" using m by (auto simp: merged_def)
      have "x \<noteq> heap_end h" using \<open>\<not> in_use h x\<close> tiledD(12) [OF t] by auto
      from tiled_next_inj [OF t \<open>x \<in> H\<close> p(1) this p(2)] eq p(3) xp show "x \<in> {} \<or> nx (join p h) x \<in> {}" by simp
    qed
    then have "heap_wf (join p h) (H - {a})"
      using join_tiled [OF t p(1,2)] p(3) a(2) l(2) c s heap_shape_frame [OF f(5)] by (simp add: heap_wf_def u)
    moreover have "same_blocks h H (join p h) (H - {a})"
      using u(1,2) f(2,5) by (simp add: same_blocks_def)
    ultimately show ?thesis unfolding e by blast
  next
    case False
    then have e: "plug_backward a h = h" by (auto simp: plug_backward_def Let_def)
    have "merged {} h H"
      unfolding merged_def
    proof (intro ballI impI)
      fix x assume x: "x \<in> H" "\<not> in_use h x" "\<not> in_use h (nx h x)"
      then have "x = a \<or> nx h x = a" using m by (auto simp: merged_def)
      then have eq: "nx h x = a" using x(3) assms(2) by auto
      have ne: "x \<noteq> heap_end h" using x(2) tiledD(12) [OF t] by auto
      then have "pv h a = x" using tiledD(8) [OF t x(1)] eq a(2) by auto
      then show "x \<in> {} \<or> nx h x \<in> {}" using False x(2) eq tiledD(7) [OF t x(1) ne] by auto
    qed
    then show ?thesis using t lf c s same_blocks_refl unfolding e by (auto simp: heap_wf_def)
  qed
qed

lemma plug_holes_ok:
  assumes "heap_hole a h H"
  shows "\<exists>h' H'. plug_holes a h = Some h' \<and> heap_wf h' H' \<and> same_blocks h H h' H'"
proof -
  have "a < heap_end h" "\<not> in_use h a"
    using assms tiledD(3) [of h H a] by (auto simp: heap_hole_def le_less)
  then have e: "plug_holes a h = Some (plug_backward a (plug_forward a h))" by (simp add: plug_holes_def)
  obtain H1 where H1: "heap_hole a (plug_forward a h) H1" "same_blocks h H (plug_forward a h) H1"
      "in_use (plug_forward a h) (nx (plug_forward a h) a)"
    using plug_forward_ok [OF assms] by blast
  obtain H2 where H2: "heap_wf (plug_backward a (plug_forward a h)) H2"
      "same_blocks (plug_forward a h) H1 (plug_backward a (plug_forward a h)) H2"
    using plug_backward_ok [OF H1(1,3)] by blast
  show ?thesis using e H2(1) same_blocks_trans [OF H1(2) H2(2)] by blast
qed


section \<open>Freeing a block\<close>

lemma used_space:
  assumes "tiled h H"
  shows "(\<Sum>a \<in> used_headers h H. nx h a - a) \<le> heap_end h"
proof -
  let ?U = "used_headers h H"
  have fin: "finite ?U" using tiledD(13) [OF assms] by (simp add: used_headers_def)
  have m: "a \<in> H" "a \<noteq> heap_end h" if "a \<in> ?U" for a using that by (simp_all add: used_headers_def)
  have "{a..<nx h a} \<inter> {b..<nx h b} = {}" if "a \<in> ?U" "b \<in> ?U" "a \<noteq> b" for a b
    using tiled_disjoint [OF assms m(1) [OF that(1)] m(1) [OF that(2)] m(2) [OF that(1)] m(2) [OF that(2)] that(3)]
    by auto
  then have "card (\<Union>a \<in> ?U. {a..<nx h a}) = (\<Sum>a \<in> ?U. card {a..<nx h a})"
    by (intro card_UN_disjoint) (use fin in auto)
  moreover have "(\<Union>a \<in> ?U. {a..<nx h a}) \<subseteq> {0..<heap_end h}"
  proof (intro UN_least)
    fix a assume "a \<in> ?U"
    then have "nx h a \<le> heap_end h" using tiledD(3,6) [OF assms] m by blast
    then show "{a..<nx h a} \<subseteq> {0..<heap_end h}" by auto
  qed
  then have "card (\<Union>a \<in> ?U. {a..<nx h a}) \<le> heap_end h" using card_mono [of "{0..<heap_end h}"] by fastforce
  ultimately show ?thesis by simp
qed

lemma used_bound:
  assumes "heap_shape h" "tiled h H" "counted h H"
  shows "used_mem h < 2 ^ 32"
proof -
  have "used_mem h \<le> heap_end h" using used_space [OF assms(2)] assms(3) by (simp add: counted_def)
  moreover have "heap_end h < 2 ^ 32" using assms(1) unfolding heap_shape_def by linarith
  ultimately show ?thesis by (rule le_less_trans)
qed

lemma heap_wfD:
  assumes "heap_wf h H"
  shows "heap_shape h" "tiled h H" "lowest_free h H" "merged {} h H" "counted h H"
  using assms by (simp_all add: heap_wf_def)

definition freed :: "nat \<Rightarrow> small_heap \<Rightarrow> small_heap" where
  "freed a h = (upd_hm a (\<lambda>m. m\<lparr>hm_used := 0, hm_magic := HEAP_MAGIC\<rparr>) h)
     \<lparr>lfree := min a (lfree h), used_mem := used_mem h - (nx h a - a)\<rparr>"

lemma freed_fields:
  "nx (freed a h) x = nx h x" "pv (freed a h) x = pv h x" "in_use (freed a h) x = (in_use h x \<and> x \<noteq> a)"
  "hm_magic (hmem (freed a h) x) = (if x = a then HEAP_MAGIC else hm_magic (hmem h x))"
  "heap_end (freed a h) = heap_end h" "lfree (freed a h) = min a (lfree h)"
  "used_mem (freed a h) = used_mem h - (nx h a - a)" "max_mem (freed a h) = max_mem h" "heap_frame h (freed a h)"
  by (auto simp: freed_def heap_frame_def)

lemma used_one:
  assumes "tiled h H" "counted h H" "a \<in> used_headers h H"
  shows "used_mem h = (nx h a - a) + (\<Sum>x \<in> used_headers h H - {a}. nx h x - x)"
proof -
  have "finite (used_headers h H)" using tiledD(13) [OF assms(1)] by (simp add: used_headers_def)
  then show ?thesis using assms(2,3) by (simp add: counted_def sum.remove)
qed

lemma freed_hole:
  assumes wf: "heap_wf h H" and a: "a \<in> used_headers h H"
  shows "heap_hole a (freed a h) H" "used_headers (freed a h) H = used_headers h H - {a}"
proof -
  note w = heap_wfD [OF wf]
  note f = freed_fields [where a = a and h = h]
  have aH: "a \<in> H" "a \<noteq> heap_end h" using a by (simp_all add: used_headers_def)
  show u: "used_headers (freed a h) H = used_headers h H - {a}" by (auto simp: used_headers_def f)
  have "tiled (freed a h) H" using w(2) aH(2) by (auto simp: tiled_def f)
  moreover have "lowest_free (freed a h) H"
    using w(3) aH by (auto simp: lowest_free_def f min_def)
  moreover have "counted (freed a h) H"
    using used_one [OF w(2,5) a] w(5) unfolding counted_def u by (simp add: f)
  moreover have "merged {a} (freed a h) H" using w(4) by (auto simp: merged_def f)
  moreover have "heap_shape (freed a h)" using w(1) heap_shape_frame [OF f(9)] by simp
  ultimately show "heap_hole a (freed a h) H" using aH by (simp add: heap_hole_def f)
qed

lemma free_locked_ok:
  assumes wf: "heap_wf h H" and a: "a \<in> used_headers h H"
  shows "\<exists>h' H'. free_locked a h = Some h' \<and> heap_wf h' H' \<and> heap_frame h h'
     \<and> used_headers h' H' = used_headers h H - {a} \<and> (\<forall>x \<in> used_headers h' H'. nx h' x = nx h x)"
proof -
  note w = heap_wfD [OF wf]
  have aH: "a \<in> H" "a \<noteq> heap_end h" "in_use h a" using a by (simp_all add: used_headers_def)
  have le: "nx h a - a \<le> used_mem h" using used_one [OF w(2,5) a] by simp
  have sub: "sub32 (used_mem h) (sub32 (nx h a) a) = used_mem h - (nx h a - a)"
    using block_size(1) [OF w(1,2) aH(1,2)] sub32_le [OF le used_bound [OF w(1,2,5)]] by simp
  let ?h = "upd_hm a (\<lambda>m. m\<lparr>hm_used := 0, hm_magic := HEAP_MAGIC\<rparr>) h"
  let ?h = "if a < lfree ?h then ?h\<lparr>lfree := a\<rparr> else ?h"
  have "?h\<lparr>used_mem := sub32 (used_mem ?h) (sub32 (nx ?h a) a)\<rparr> = freed a h"
    using sub by (auto simp: freed_def upd_hm_def min_def)
  then have e: "free_locked a h = plug_holes a (freed a h)"
    using aH(3) tiledD(5) [OF w(2) aH(1)] by (simp add: free_locked_def Let_def)
  note hole = freed_hole [OF wf a]
  obtain h' H' where h': "plug_holes a (freed a h) = Some h'" "heap_wf h' H'" "same_blocks (freed a h) H h' H'"
    using plug_holes_ok [OF hole(1)] by blast
  have nxt: "nx h' x = nx h x" if "x \<in> used_headers h' H'" for x
    using that h'(3) by (auto simp: same_blocks_def used_headers_def freed_fields)
  have "heap_frame h h'"
    by (rule heap_frame_trans [OF freed_fields(9) [where a = a]]) (use h'(3) in \<open>simp add: same_blocks_def\<close>)
  moreover have "used_headers h' H' = used_headers h H - {a}" using h'(3) hole(2) by (simp add: same_blocks_def)
  ultimately show ?thesis using e h'(1,2) nxt by (intro exI [of _ h'] exI [of _ H']) simp
qed


section \<open>Splitting and taking a block\<close>

lemma split_fields:
  assumes "heap_end h = mem_size_aligned h + 16" "a + 16 + n < nx h a"
  defines "p \<equiv> a + 16 + n" and "h' \<equiv> split_block n a h"
  shows "nx h' x = (if x = a then p else if x = p then nx h a else nx h x)"
    "in_use h' x = (in_use h x \<and> x \<noteq> p)"
    "hm_magic (hmem h' x) = (if x = p then HEAP_MAGIC else hm_magic (hmem h x))"
    "pv h' x = (if x = p then a else if x = nx h a \<and> x \<noteq> heap_end h then p else pv h x)"
    "heap_frame h h'" "heap_end h' = heap_end h" "lfree h' = lfree h"
    "used_mem h' = used_mem h" "max_mem h' = max_mem h"
  using assms(1,2) unfolding h'_def p_def
  by (simp_all add: split_block_def Let_def heap_frame_def)

lemma split_tiled:
  assumes t: "tiled h H" and e: "heap_end h = mem_size_aligned h + 16" and a: "a \<in> H" "a \<noteq> heap_end h"
    and n: "a + 16 + n + 16 < nx h a" "0 < n" "n mod 8 = 0"
  defines "p \<equiv> a + 16 + n"
  shows "tiled (split_block n a h) (insert p H)" "p \<notin> H" "p < heap_end h"
proof -
  have lt: "a + 16 + n < nx h a" using n(1) by simp
  note f = split_fields [OF e lt, folded p_def]
  note nn = tiledD(6) [OF t a] tiledD(3) [OF t tiledD(6) [OF t a]]
  show p: "p \<notin> H"
  proof
    assume "p \<in> H"
    from tiledD(9) [OF t a(1) this a(2)] show False using lt n(2) by (simp add: p_def)
  qed
  show pe: "p < heap_end h" using lt nn(2) by (simp add: p_def)
  have ap: "a < p" "p < nx h a" "p + 16 < nx h a" using n by (simp_all add: p_def)
  have pm: "p mod 8 = 0"
    using n(3) tiledD(4) [OF t a(1)] unfolding p_def mod_eq_0_iff_dvd by (intro dvd_add) simp_all
  have u: "nx h x \<noteq> nx h a" if "x \<in> H" "x \<noteq> heap_end h" "x \<noteq> a" for x
    using tiled_next_inj [OF t that(1) a(1) that(2) a(2)] that(3) by blast
  let ?h = "split_block n a h"
  have next_ok: "nx ?h x \<in> insert p H \<and> x + 16 < nx ?h x \<and> (nx ?h x \<noteq> heap_end h \<longrightarrow> pv ?h (nx ?h x) = x)"
    if x: "x \<in> insert p H" "x \<noteq> heap_end h" for x
  proof -
    consider "x = p" | "x = a" | "x \<in> H" "x \<noteq> a" "x \<noteq> p" using x(1) by blast
    then show ?thesis
    proof cases
      case 1
      then show ?thesis using ap nn by (auto simp: f)
    next
      case 2
      then show ?thesis using ap n(2) by (auto simp: f p_def)
    next
      case 3
      then have "nx h x \<noteq> p" using tiledD(6) [OF t 3(1) x(2)] p by auto
      then show ?thesis using 3 x u [of x] tiledD(6,7,8) [OF t 3(1) x(2)] by (simp add: f)
    qed
  qed
  have gap: "y \<le> x \<or> nx ?h x \<le> y" if x: "x \<in> insert p H" "y \<in> insert p H" "x \<noteq> heap_end h" for x y
  proof -
    have ay: "z \<le> a \<or> nx h a \<le> z" if "z \<in> H" for z using tiledD(9) [OF t a(1) that a(2)] .
    consider "x = p" | "x = a" | "x \<in> H" "x \<noteq> a" "x \<noteq> p" using x(1) by blast
    then show ?thesis
    proof cases
      case 1
      then show ?thesis using x(2) ay [of y] ap by (auto simp: f)
    next
      case 2
      then show ?thesis using x(2) ay [of y] ap by (auto simp: f)
    next
      case 3
      have "a \<le> x \<or> nx h x \<le> a" "x \<le> a \<or> nx h a \<le> x"
        using tiledD(9) [OF t 3(1) a(1) x(3)] ay [OF 3(1)] by auto
      then have "p \<le> x \<or> nx h x \<le> p" using ap 3(2) by auto
      then show ?thesis using x(2) tiledD(9) [OF t 3(1) _ x(3)] 3 by (auto simp: f)
    qed
  qed
  show "tiled ?h (insert p H)"
    unfolding tiled_def f(6)
    using tiledD(1-5,10-12) [OF t] next_ok gap pm pe a(2) ap by (auto simp: f)
qed


text \<open>What taking the free block \<open>a\<close> for \<open>n\<close> bytes gives, before \<open>lfree\<close> is looked at.\<close>

definition taken :: "nat \<Rightarrow> nat \<Rightarrow> small_heap \<Rightarrow> nat set \<Rightarrow> small_heap \<Rightarrow> nat set \<Rightarrow> bool" where
  "taken n a h H h' H' \<longleftrightarrow> tiled h' H' \<and> merged {} h' H' \<and> counted h' H' \<and> heap_frame h h'
     \<and> lfree h' = lfree h \<and> used_headers h' H' = insert a (used_headers h H) \<and> n \<le> nx h' a - (a + 16)
     \<and> (\<forall>x \<in> used_headers h H. nx h' x = nx h x) \<and> H \<subseteq> H'
     \<and> (\<forall>x \<in> H'. \<not> in_use h' x \<longrightarrow> lfree h \<le> x) \<and> (\<forall>x \<in> H. x \<noteq> a \<longrightarrow> in_use h' x = in_use h x)"

lemma counted_add:
  assumes "counted h H" "used_headers h' H' = insert a (used_headers h H)" "finite (used_headers h H)"
    and "a \<notin> used_headers h H" "\<And>x. x \<in> used_headers h H \<Longrightarrow> nx h' x = nx h x"
    and "used_mem h' = used_mem h + (nx h' a - a)" "max_mem h' = max (max_mem h) (used_mem h')"
  shows "counted h' H'"
proof -
  have "(\<Sum>x \<in> used_headers h H. nx h' x - x) = used_mem h"
    using assms(1,5) by (simp add: counted_def cong: sum.cong)
  then show ?thesis
    unfolding counted_def assms(2) using assms(3,4,6,7) by simp
qed

lemma take_fits:
  assumes "sub32 (nx h a) (a + 16) \<ge> n + 16 + 16"
  shows "take_block n a h = upd_hm a (\<lambda>m. m\<lparr>hm_magic := HEAP_MAGIC\<rparr>) (count_used (n + 16)
      (upd_hm a (\<lambda>m. m\<lparr>hm_used := 1\<rparr>) (split_block n a h)))"
  using assms by (simp add: take_block_def)

lemma take_whole:
  assumes "\<not> sub32 (nx h a) (a + 16) \<ge> n + 16 + 16"
  shows "take_block n a h = upd_hm a (\<lambda>m. m\<lparr>hm_magic := HEAP_MAGIC\<rparr>) (count_used (sub32 (nx h a) a)
      (upd_hm a (\<lambda>m. m\<lparr>hm_used := 1\<rparr>) h))"
  using assms by (simp add: take_block_def)

lemma count_used_fields [simp]:
  "hmem (count_used n h) = hmem h" "heap_end (count_used n h) = heap_end h" "heap_ptr (count_used n h) = heap_ptr h"
  "lfree (count_used n h) = lfree h" "mem_size_aligned (count_used n h) = mem_size_aligned h"
  "used_mem (count_used n h) = used_mem h + n" "max_mem (count_used n h) = max (max_mem h) (used_mem h + n)"
  "hdata (count_used n h) = hdata h"
  by (simp_all add: count_used_def Let_def max_def)

lemma take_block_ok:
  assumes wf: "heap_wf h H" and a: "a \<in> H" "\<not> in_use h a" and n: "n \<le> nx h a - (a + 16)" "n mod 8 = 0" "0 < n"
  shows "\<exists>H'. taken n a h H (take_block n a h) H'"
proof -
  note w = heap_wfD [OF wf]
  have ae: "a \<noteq> heap_end h" using a(2) tiledD(12) [OF w(2)] by auto
  note bs = block_size [OF w(1,2) a(1) ae]
  note na = tiledD(6,7) [OF w(2) a(1) ae]
  have fin: "finite (used_headers h H)" using tiledD(13) [OF w(2)] by (simp add: used_headers_def)
  have nu: "a \<notin> used_headers h H" using a(2) by (simp add: used_headers_def)
  have used_next: "in_use h (nx h a)" using w(4) a by (auto simp: merged_def)
  let ?h = "take_block n a h"
  show ?thesis
  proof (cases "sub32 (nx h a) (a + 16) \<ge> n + 16 + 16")
    case True
    let ?p = "a + 16 + n"
    have big: "a + 16 + n + 16 < nx h a" using True bs(2) n(3) na(2) by linarith
    have e: "heap_end h = mem_size_aligned h + 16" using w(1) by (simp add: heap_shape_def)
    have lt: "a + 16 + n < nx h a" using big by simp
    note f = split_fields [OF e lt]
    note st = split_tiled [OF w(2) e a(1) ae big n(3,2)]
    note t = take_fits [OF True]
    have ap: "?p \<noteq> a" by simp
    have g: "nx ?h x = nx (split_block n a h) x" "pv ?h x = pv (split_block n a h) x"
      "in_use ?h x = (x = a \<or> in_use h x \<and> x \<noteq> ?p)" "heap_end ?h = heap_end h" "lfree ?h = lfree h" for x
      by (auto simp: t f)
    have mg: "hm_magic (hmem ?h x) = HEAP_MAGIC" if "x \<in> insert ?p H" for x
      using that tiledD(5) [OF w(2)] by (auto simp: t f)
    have np: "nx h x \<noteq> ?p" if "x \<in> H" "\<not> in_use h x" for x
    proof -
      have "x \<noteq> heap_end h" using that(2) tiledD(12) [OF w(2)] by auto
      from tiledD(6) [OF w(2) that(1) this] show ?thesis using st(2) by auto
    qed
    have "tiled ?h (insert ?p H)"
      using st(1) mg ae tiledD(12) [OF w(2)] st(3) unfolding tiled_def g f(6) by auto
    moreover have "merged {} ?h (insert ?p H)"
      using w(4) used_next st(2) lt np unfolding merged_def by (auto simp: g f)
    moreover have u: "used_headers ?h (insert ?p H) = insert a (used_headers h H)"
      using a(1) ae st(2) by (auto simp: used_headers_def g)
    moreover have nxu: "nx ?h x = nx h x" if "x \<in> used_headers h H" for x
      using that nu st(2) by (auto simp: g f used_headers_def)
    moreover have "counted ?h (insert ?p H)"
    proof (rule counted_add [OF w(5) u fin nu])
      show "nx ?h x = nx h x" if "x \<in> used_headers h H" for x by (rule nxu [OF that])
      show "used_mem ?h = used_mem h + (nx ?h a - a)" "max_mem ?h = max (max_mem h) (used_mem ?h)"
        by (simp_all add: t f)
    qed
    moreover have "heap_frame h ?h" using f(5) by (simp add: t heap_frame_def)
    moreover have "lfree h \<le> x" if "x \<in> insert ?p H" "\<not> in_use ?h x" for x
      using that w(3) a by (auto simp: g lowest_free_def intro: le_trans [of _ a])
    ultimately show ?thesis
      using st(2) by (intro exI [of _ "insert ?p H"]) (auto simp: taken_def g f)
  next
    case False
    note t = take_whole [OF False]
    have g: "nx ?h x = nx h x" "pv ?h x = pv h x" "in_use ?h x = (x = a \<or> in_use h x)"
      "heap_end ?h = heap_end h" "lfree ?h = lfree h" for x
      by (auto simp: t)
    have mg: "hm_magic (hmem ?h x) = HEAP_MAGIC" if "x \<in> H" for x
      using that tiledD(5) [OF w(2)] by (auto simp: t)
    have "tiled ?h H" using w(2) mg unfolding tiled_def g by auto
    moreover have "merged {} ?h H" using w(4) unfolding merged_def by (auto simp: g)
    moreover have u: "used_headers ?h H = insert a (used_headers h H)"
      using a(1) ae by (auto simp: used_headers_def g)
    moreover have "counted ?h H"
    proof (rule counted_add [OF w(5) u fin nu])
      show "nx ?h x = nx h x" for x by (rule g(1))
      show "used_mem ?h = used_mem h + (nx ?h a - a)" "max_mem ?h = max (max_mem h) (used_mem ?h)"
        using bs(1) by (simp_all add: t)
    qed
    moreover have "heap_frame h ?h" by (simp add: t heap_frame_def)
    moreover have "lfree h \<le> x" if "x \<in> H" "\<not> in_use ?h x" for x
      using that w(3) by (auto simp: g lowest_free_def)
    ultimately show ?thesis
      using n(1) by (intro exI [of _ H]) (auto simp: taken_def g)
  qed
qed


section \<open>Allocating and resizing\<close>

text \<open>One step from a heap to another that differs in the blocks in use as told.\<close>

definition heap_step :: "small_heap \<Rightarrow> nat set \<Rightarrow> nat set \<Rightarrow> small_heap \<Rightarrow> nat set \<Rightarrow> bool" where
  "heap_step h H U h' H' \<longleftrightarrow> heap_wf h' H' \<and> heap_frame h h' \<and> used_headers h' H' = U
     \<and> (\<forall>x \<in> used_headers h H \<inter> U. nx h' x = nx h x)"

lemma malloc_locked_ok:
  assumes wf: "heap_wf h H" and n: "n mod 8 = 0" "0 < n" "n \<le> mem_size_aligned h"
  shows "\<exists>r h'. malloc_locked n h = Some (r, h') \<and>
     (case r of
        None \<Rightarrow> h' = h \<and> (\<forall>a \<in> H. \<not> in_use h a \<longrightarrow> a < mem_size_aligned h - n \<longrightarrow> nx h a - (a + 16) < n)
      | Some a \<Rightarrow> a \<in> H \<and> \<not> in_use h a \<and> n \<le> nx h' a - (a + 16)
          \<and> (\<exists>H'. heap_step h H (insert a (used_headers h H)) h' H'))"
proof -
  note w = heap_wfD [OF wf]
  have shape: "heap_end h = mem_size_aligned h + 16" "heap_end h < 2 ^ 32"
    using w(1) unfolding heap_shape_def by linarith+
  then have "mem_size_aligned h < 2 ^ 32" by linarith
  from sub32_le [OF n(3) this] have lim: "sub32 (mem_size_aligned h) n = mem_size_aligned h - n" .
  have lf: "lfree h \<in> H" using w(3) by (simp add: lowest_free_def)
  have "mem_size_aligned h - n \<le> heap_end h" using shape(1) by simp
  from find_fit_ok [OF w(1,2) lf this, of n] obtain r where
    r: "find_fit (sub32 (mem_size_aligned h) n) n (lfree h) h = Some r"
      "case r of
        Some a \<Rightarrow> a \<in> H \<and> lfree h \<le> a \<and> a < mem_size_aligned h - n \<and> \<not> in_use h a \<and> n \<le> nx h a - (a + 16)
      | None \<Rightarrow> \<forall>a \<in> H. lfree h \<le> a \<longrightarrow> a < mem_size_aligned h - n \<longrightarrow> in_use h a \<or> nx h a - (a + 16) < n"
    unfolding lim by blast
  show ?thesis
  proof (cases r)
    case None
    then have "malloc_locked n h = Some (None, h)" using r(1) by (simp add: malloc_locked_def)
    moreover have "nx h a - (a + 16) < n" if "a \<in> H" "\<not> in_use h a" "a < mem_size_aligned h - n" for a
      using r(2) None that w(3) by (auto simp: lowest_free_def)
    ultimately show ?thesis by auto
  next
    case (Some a)
    then have a: "a \<in> H" "\<not> in_use h a" "n \<le> nx h a - (a + 16)" using r(2) by simp_all
    obtain H' where tk: "taken n a h H (take_block n a h) H'" using take_block_ok [OF wf a n(1,2)] by blast
    let ?h = "take_block n a h"
    have t': "tiled ?h H'" and m': "merged {} ?h H'" and c': "counted ?h H'" and fr: "heap_frame h ?h"
      and lf': "lfree ?h = lfree h" and u': "used_headers ?h H' = insert a (used_headers h H)"
      and fit: "n \<le> nx ?h a - (a + 16)" and nx': "\<And>x. x \<in> used_headers h H \<Longrightarrow> nx ?h x = nx h x"
      and sub: "H \<subseteq> H'" and low: "\<forall>x \<in> H'. \<not> in_use ?h x \<longrightarrow> lfree h \<le> x"
      and oth: "\<And>x. x \<in> H \<Longrightarrow> x \<noteq> a \<Longrightarrow> in_use ?h x = in_use h x"
      using tk by (auto simp: taken_def)
    have sh: "heap_shape ?h" using w(1) heap_shape_frame [OF fr] by simp
    have en: "heap_end ?h = heap_end h" using fr by (simp add: heap_frame_def)
    show ?thesis
    proof (cases "a = lfree ?h")
      case True
      then obtain l where l: "skip_used (lfree ?h) ?h = Some l" "l \<in> H'" "l = heap_end ?h \<or> \<not> in_use ?h l"
          "\<forall>x \<in> H'. \<not> in_use ?h x \<longrightarrow> l \<le> x"
        using skip_used_ok [OF t', of "lfree ?h"] low a(1) sub lf' by auto
      let ?h' = "?h\<lparr>lfree := l\<rparr>"
      have "malloc_locked n h = Some (Some a, ?h')"
        using r(1) Some l(1,3) True by (simp add: malloc_locked_def Let_def)
      moreover have "heap_wf ?h' H'"
        using t' m' c' sh l(2-4)
        by (simp add: heap_wf_def lowest_free_def merged_def counted_def used_headers_def heap_shape_def tiled_def)
      then have "heap_step h H (insert a (used_headers h H)) ?h' H'"
        using fr u' nx' a(2) by (auto simp: heap_step_def heap_frame_def used_headers_def)
      ultimately show ?thesis using a fit by auto
    next
      case False
      have "malloc_locked n h = Some (Some a, ?h)"
        using r(1) Some False by (simp add: malloc_locked_def Let_def)
      moreover have "lowest_free ?h H'"
        using w(3) low lf' sub oth [of "lfree h"] False en unfolding lowest_free_def by auto
      then have "heap_step h H (insert a (used_headers h H)) ?h H'"
        using t' m' c' sh fr u' nx' a(2) by (auto simp: heap_step_def heap_wf_def used_headers_def)
      ultimately show ?thesis using a fit by auto
    qed
  qed
qed


text \<open>Shrinking the block \<open>a\<close> to \<open>m\<close> bytes.\<close>

lemma shrink_locked_ok:
  assumes wf: "heap_wf h H" and a: "a \<in> used_headers h H" and m: "m mod 8 = 0" "0 < m"
    and big: "m + 28 < nx h a - (a + 16)"
  shows "\<exists>h' H'. shrink_locked a (nx h a - (a + 16)) m h = Some h' \<and> heap_wf h' H' \<and> heap_frame h h'
     \<and> used_headers h' H' = used_headers h H \<and> nx h' a = a + 16 + m
     \<and> (\<forall>x \<in> used_headers h H. x \<noteq> a \<longrightarrow> nx h' x = nx h x)"
proof -
  note w = heap_wfD [OF wf]
  have aH: "a \<in> H" "a \<noteq> heap_end h" "in_use h a" using a by (simp_all add: used_headers_def)
  define c where "c = nx h a - (a + 16) - m"
  let ?p = "a + 16 + m"
  have cut: "c \<le> used_mem h" using used_one [OF w(2,5) a] by (simp add: c_def)
  let ?h0 = "h\<lparr>used_mem := used_mem h - c\<rparr>"
  let ?h1 = "split_block m a ?h0"
  define h2 where "h2 = ?h1\<lparr>lfree := min ?p (lfree h)\<rparr>"
  have t0: "tiled ?h0 H" using w(2) by (simp add: tiled_def)
  have e: "heap_end ?h0 = mem_size_aligned ?h0 + 16" using w(1) by (simp add: heap_shape_def)
  have lt: "a + 16 + m < nx ?h0 a" "a + 16 + m + 16 < nx ?h0 a" using big by simp_all
  note f = split_fields [OF e lt(1)]
  note st = split_tiled [OF t0 e aH(1) _ lt(2) m(2,1)]
  have ae: "a \<noteq> heap_end ?h0" using aH(2) by simp
  have p: "?p \<notin> H" "?p < heap_end h" using st(2,3) [OF ae] by simp_all
  have g: "nx h2 x = (if x = a then ?p else if x = ?p then nx h a else nx h x)"
    "in_use h2 x = (in_use h x \<and> x \<noteq> ?p)" "heap_end h2 = heap_end h" "lfree h2 = min ?p (lfree h)"
    "used_mem h2 = used_mem h - c" "max_mem h2 = max_mem h" for x
    by (simp_all add: f h2_def)
  have fr: "heap_frame h h2" using f(5) by (simp add: heap_frame_def h2_def)
  have u: "used_headers h2 (insert ?p H) = used_headers h H"
    using p(1) by (auto simp: used_headers_def g)
  have "tiled h2 (insert ?p H)" using st(1) [OF ae] by (simp add: tiled_def h2_def)
  moreover have "lowest_free h2 (insert ?p H)"
    using w(3) p unfolding lowest_free_def g by (auto simp: min_def)
  moreover have "counted h2 (insert ?p H)"
  proof -
    have fin: "finite (used_headers h H)" using tiledD(13) [OF w(2)] by (simp add: used_headers_def)
    have "(\<Sum>x \<in> used_headers h H - {a}. nx h2 x - x) = (\<Sum>x \<in> used_headers h H - {a}. nx h x - x)"
      using p(1) by (intro sum.cong) (auto simp: g used_headers_def)
    then have "(\<Sum>x \<in> used_headers h H. nx h2 x - x) = (16 + m) + (\<Sum>x \<in> used_headers h H - {a}. nx h x - x)"
      using a fin by (simp add: sum.remove g)
    then have "(\<Sum>x \<in> used_headers h H. nx h2 x - x) = used_mem h - c"
      using used_one [OF w(2,5) a] big by (simp add: c_def)
    moreover have "used_mem h - c \<le> max_mem h" using w(5) unfolding counted_def by linarith
    ultimately show ?thesis unfolding counted_def u g by simp
  qed
  moreover have "merged {?p} h2 (insert ?p H)"
    using w(4) aH(3) unfolding merged_def g by auto
  moreover have "heap_shape h2" using w(1) heap_shape_frame [OF fr] by simp
  ultimately have hole: "heap_hole ?p h2 (insert ?p H)"
    using p(2) by (simp add: heap_hole_def g)
  have "sub32 (used_mem h) c = used_mem h - c" by (rule sub32_le [OF cut used_bound [OF w(1,2,5)]])
  moreover have "(if ?p < lfree ?h1 then ?h1\<lparr>lfree := ?p\<rparr> else ?h1) = h2"
    using f(7) by (cases "?h1") (simp add: min_def h2_def)
  ultimately have "shrink_locked a (nx h a - (a + 16)) m h = plug_holes ?p h2"
    unfolding shrink_locked_def Let_def c_def [symmetric] by (simp only:)
  moreover obtain h' H' where h': "plug_holes ?p h2 = Some h'" "heap_wf h' H'" "same_blocks h2 (insert ?p H) h' H'"
    using plug_holes_ok [OF hole] by blast
  have nxt: "nx h' x = nx h2 x" if "x \<in> used_headers h H" for x
  proof -
    have "in_use h2 x" using that p(1) unfolding g by (auto simp: used_headers_def)
    then show ?thesis using h'(3) unfolding same_blocks_def by blast
  qed
  have "heap_frame h h'" by (rule heap_frame_trans [OF fr]) (use h'(3) in \<open>simp add: same_blocks_def\<close>)
  moreover have "used_headers h' H' = used_headers h H" using h'(3) u by (simp add: same_blocks_def)
  moreover have "nx h' a = ?p" "\<forall>x \<in> used_headers h H. x \<noteq> a \<longrightarrow> nx h' x = nx h x"
    using nxt a p(1) by (auto simp: g used_headers_def)
  ultimately show ?thesis using h'(1,2) by auto
qed


section \<open>The calls while nobody else holds the heap\<close>

definition heap_idle :: "oid \<Rightarrow> kernel \<Rightarrow> bool" where
  "heap_idle i k \<longleftrightarrow> sem_ok i k \<and> sem_value (sems k i) = 1 \<and> interrupt_nest k = 0"

lemma set_sem_value_back:
  "set_sem_value i v (set_sem_value i w k) = set_sem_value i v k"
  "sem_value (sems k i) = v \<Longrightarrow> set_sem_value i v k = k"
proof -
  show "set_sem_value i v (set_sem_value i w k) = set_sem_value i v k" by (simp add: set_sem_value_def)
  assume "sem_value (sems k i) = v"
  then have "(sems k i)\<lparr>sem_value := v\<rparr> = sems k i" by (cases "sems k i") simp
  then show "set_sem_value i v k = k" by (cases k) (simp add: set_sem_value_def fun_upd_idem)
qed

lemma with_heap_sem_idle:
  assumes "heap_idle i k"
  shows "with_heap_sem i f (k, h) = map_option (\<lambda>(x, h'). (Done x, k, h')) (f h)"
proof -
  have asr: "assert_ipc RT_Object_Class_Semaphore i k = Some ()"
    using assms by (simp add: heap_idle_def sem_ok_def assert_ipc_ok)
  have v: "sem_value (sems k i) = 1" "queues k (SuspendQ i) = []"
    using assms by (auto simp: heap_idle_def sem_ok_def)
  let ?k = "set_sem_value i 0 k"
  have take: "rt_sem_take_start i (- 1) k = Some (Returned RT_EOK, ?k)"
    using asr v by (simp add: rt_sem_take_start_def Let_def)
  have "assert_ipc RT_Object_Class_Semaphore i ?k = Some ()"
    using asr by (simp add: assert_ipc_def rt_object_get_type_def)
  moreover have "(0 :: u16) < RT_SEM_VALUE_MAX" by simp
  ultimately have "rt_sem_release i ?k = Some (RT_EOK, set_sem_value i 1 ?k)"
    using v by (simp add: rt_sem_release_def Let_def)
  then have "rt_sem_release i ?k = Some (RT_EOK, k)" using v(1) by (simp add: set_sem_value_back)
  then show ?thesis using take by (cases "f h") (auto simp: with_heap_sem_def)
qed

lemma heap_idle_no_interrupt: "heap_idle i k \<Longrightarrow> RT_DEBUG_NOT_IN_INTERRUPT k = Some ()"
  by (simp add: heap_idle_def RT_DEBUG_NOT_IN_INTERRUPT_def rt_interrupt_get_nest_def)

lemma heap_then_Done [simp]:
  "heap_then (Some (Done x, s)) f = f x s" "heap_then (Some (Wait, s)) f = Some (Wait, s)" "heap_then None f = None"
  by (simp_all add: heap_then_def)

text \<open>Blocks by address and size.\<close>

definition blocks :: "small_heap \<Rightarrow> nat set \<Rightarrow> (nat \<times> nat) set" where
  "blocks h U = (\<lambda>a. (heap_ptr h + a + 16, nx h a - (a + 16))) ` U"

lemma blocks_insert:
  "blocks h (insert a U) = insert (heap_ptr h + a + 16, nx h a - (a + 16)) (blocks h U)"
  by (simp add: blocks_def)

lemma allocated_eq: "heap_wf h H \<Longrightarrow> allocated h = blocks h (used_headers h H)"
  using headers_tiled [OF heap_wfD(2)] by (simp add: allocated_def blocks_def)

lemma blocks_cong:
  "heap_frame h h' \<Longrightarrow> (\<And>x. x \<in> U \<Longrightarrow> nx h' x = nx h x) \<Longrightarrow> blocks h' U = blocks h U"
  unfolding blocks_def by (rule image_cong) (auto simp: heap_frame_def)

text \<open>The blocks in use are aligned, lie in the heap and do not overlap.\<close>

lemma allocated_ok:
  assumes "heap_inv h"
  shows "no_overlap (allocated h)"
    "(p, m) \<in> allocated h \<Longrightarrow> p mod 8 = 0 \<and> heap_ptr h + 16 \<le> p \<and> p + m \<le> heap_ptr h + heap_end h \<and> 0 < m"
    "(p, m) \<in> allocated h \<Longrightarrow> (p, n) \<in> allocated h \<Longrightarrow> m = n"
proof -
  have wf: "heap_wf h (headers h)" using assms by (simp add: heap_inv_def)
  note w = heap_wfD [OF wf]
  have u: "a \<in> headers h" "a \<noteq> heap_end h" "in_use h a" if "a \<in> used_headers h (headers h)" for a
    using that by (simp_all add: used_headers_def)
  have sep: "heap_ptr h + a + 16 + (nx h a - (a + 16)) \<le> heap_ptr h + b + 16
      \<or> heap_ptr h + b + 16 + (nx h b - (b + 16)) \<le> heap_ptr h + a + 16"
    if "a \<in> used_headers h (headers h)" "b \<in> used_headers h (headers h)" "a \<noteq> b" for a b
    using tiled_disjoint [OF w(2) u(1) [OF that(1)] u(1) [OF that(2)] u(2) [OF that(1)] u(2) [OF that(2)] that(3)]
      tiledD(7) [OF w(2) u(1,2) [OF that(1)]] tiledD(7) [OF w(2) u(1,2) [OF that(2)]] by auto
  show "no_overlap (allocated h)"
    unfolding no_overlap_def allocated_def using sep by fastforce
  show "p mod 8 = 0 \<and> heap_ptr h + 16 \<le> p \<and> p + m \<le> heap_ptr h + heap_end h \<and> 0 < m"
    if pm: "(p, m) \<in> allocated h"
  proof -
    obtain a where a: "a \<in> used_headers h (headers h)" "p = heap_ptr h + a + 16" "m = nx h a - (a + 16)"
      using pm by (auto simp: allocated_def)
    have "heap_ptr h mod 8 = 0" using w(1) by (simp add: heap_shape_def)
    then have "p mod 8 = 0" using tiledD(4) [OF w(2) u(1) [OF a(1)]] unfolding a(2) mod_eq_0_iff_dvd
      by (intro dvd_add) simp_all
    then show ?thesis
      using tiledD(7) [OF w(2) u(1,2) [OF a(1)]] block_size(4) [OF w(1,2) u(1,2) [OF a(1)]] a(2,3) by simp
  qed
  show "m = n" if "(p, m) \<in> allocated h" "(p, n) \<in> allocated h"
    using that by (auto simp: allocated_def)
qed


section \<open>Allocation and release\<close>

lemma RT_ALIGN_mod8: "unat (RT_ALIGN w 8) mod 8 = 0"
  using and_not_mask_unat [of "w + 8 - 1" 3] by (simp add: RT_ALIGN_def mask_eq_exp_minus_1)

definition request :: "u32 \<Rightarrow> nat" where
  "request sz = max 16 (unat (RT_ALIGN sz RT_ALIGN_SIZE))"

lemma malloc_idle:
  assumes inv: "heap_inv h" and idle: "heap_idle i k" and sz: "sz \<noteq> 0"
    and fit: "unat (RT_ALIGN sz RT_ALIGN_SIZE) \<le> mem_size_aligned h"
  shows "\<exists>r h'. rt_malloc i sz (k, h) = Some (Done r, k, h') \<and> heap_inv h' \<and> heap_frame h h' \<and>
     (case r of
        None \<Rightarrow> h' = h \<and> (\<forall>a \<in> headers h. \<not> in_use h a \<longrightarrow> a < mem_size_aligned h - request sz \<longrightarrow>
                   nx h a - (a + 16) < request sz)
      | Some p \<Rightarrow> p \<notin> fst ` allocated h \<and> (\<exists>m \<ge> request sz. allocated h' = insert (p, m) (allocated h)))"
proof -
  have wf: "heap_wf h (headers h)" using inv by (simp add: heap_inv_def)
  note w = heap_wfD [OF wf]
  have sh: "16 \<le> mem_size_aligned h" "heap_ptr h mod 8 = 0" using w(1) by (simp_all add: heap_shape_def)
  have n: "request sz mod 8 = 0" "0 < request sz" "request sz \<le> mem_size_aligned h"
    using fit sh RT_ALIGN_mod8 [of sz] by (auto simp: request_def max_def)
  have req: "(if unat (RT_ALIGN sz RT_ALIGN_SIZE) < 16 then 16 else unat (RT_ALIGN sz RT_ALIGN_SIZE)) = request sz"
    by (simp add: request_def max_def)
  note call = rt_malloc_def [of i sz "(k, h)", unfolded fst_conv snd_conv heap_idle_no_interrupt [OF idle]
      with_heap_sem_idle [OF idle] req Let_def]
  obtain r h' where r: "malloc_locked (request sz) h = Some (r, h')" "case r of
        None \<Rightarrow> h' = h \<and> (\<forall>a \<in> headers h. \<not> in_use h a \<longrightarrow> a < mem_size_aligned h - request sz \<longrightarrow>
                   nx h a - (a + 16) < request sz)
      | Some a \<Rightarrow> a \<in> headers h \<and> \<not> in_use h a \<and> request sz \<le> nx h' a - (a + 16)
          \<and> (\<exists>H'. heap_step h (headers h) (insert a (used_headers h (headers h))) h' H')"
    using malloc_locked_ok [OF wf n] by blast
  show ?thesis
  proof (cases r)
    case None
    then show ?thesis using r inv sz fit by (simp add: call)
  next
    case (Some a)
    then obtain H' where a: "a \<in> headers h" "\<not> in_use h a" "request sz \<le> nx h' a - (a + 16)"
        and st: "heap_step h (headers h) (insert a (used_headers h (headers h))) h' H'"
      using r(2) by auto
    let ?U = "used_headers h (headers h)" and ?m = "nx h' a - (a + 16)"
    have wf': "heap_wf h' H'" and fr: "heap_frame h h'" and u': "used_headers h' H' = insert a ?U"
      using st by (simp_all add: heap_step_def)
    have au: "a \<in> used_headers h' H'" using u' by simp
    then have aH: "a \<in> H'" "a \<noteq> heap_end h'" by (simp_all add: used_headers_def)
    have e: "heap_end h' = heap_end h" "heap_ptr h' = heap_ptr h" using fr by (simp_all add: heap_frame_def)
    note w' = heap_wfD [OF wf']
    have end_ok: "a + 16 + request sz \<le> heap_end h'"
      using a(3) n(2) block_size(4) [OF w'(1,2) aH] by linarith
    have al: "(heap_ptr h + a) mod 8 = 0" "(heap_ptr h + a + 16) mod 8 = 0"
      using sh(2) tiledD(4) [OF w(2) a(1)] unfolding mod_eq_0_iff_dvd by (auto intro!: dvd_add)
    have "rt_malloc i sz (k, h) = Some (Done (Some (heap_ptr h + a + 16)), k, h')"
      using r(1) Some sz fit end_ok al e(2) by (simp add: call)
    moreover have "heap_ptr h + a + 16 \<notin> fst ` allocated h"
      using a(2) by (auto simp: allocated_def used_headers_def)
    moreover have "allocated h' = insert (heap_ptr h + a + 16, ?m) (allocated h)"
    proof -
      have "blocks h' ?U = blocks h ?U" using st by (intro blocks_cong) (auto simp: heap_step_def)
      then show ?thesis
        unfolding allocated_eq [OF wf'] allocated_eq [OF wf] u' by (simp add: blocks_def e)
    qed
    ultimately show ?thesis using a(3) heap_wf_inv [OF wf'] fr by auto
  qed
qed

lemma free_idle:
  assumes inv: "heap_inv h" and idle: "heap_idle i k" and p: "(p, m) \<in> allocated h"
  shows "\<exists>h'. rt_free i (Some p) (k, h) = Some (Done (), k, h') \<and> heap_inv h' \<and> heap_frame h h'
     \<and> allocated h' = allocated h - {(p, m)}"
proof -
  have wf: "heap_wf h (headers h)" using inv by (simp add: heap_inv_def)
  let ?U = "used_headers h (headers h)"
  obtain a where a: "a \<in> ?U" "p = heap_ptr h + a + 16" "m = nx h a - (a + 16)"
    using p by (auto simp: allocated_def)
  note al = allocated_ok(2) [OF inv p]
  have hd: "header_of h p = Some a" "in_heap h p" using a(2) al by (auto simp: header_of_def in_heap_def)
  obtain h' H' where h': "free_locked a h = Some h'" "heap_wf h' H'" "heap_frame h h'"
      "used_headers h' H' = ?U - {a}" "\<forall>x \<in> used_headers h' H'. nx h' x = nx h x"
    using free_locked_ok [OF wf a(1)] by blast
  have "rt_free i (Some p) (k, h) = Some (Done (), k, h')"
    using hd h'(1) al heap_idle_no_interrupt [OF idle] by (simp add: rt_free_def with_heap_sem_idle [OF idle])
  moreover have "allocated h' = allocated h - {(p, m)}"
  proof -
    have "blocks h' (?U - {a}) = blocks h (?U - {a})" using h'(4,5) by (intro blocks_cong [OF h'(3)]) auto
    also have "\<dots> = blocks h ?U - {(p, m)}" using a unfolding blocks_def by auto
    finally show ?thesis unfolding allocated_eq [OF h'(2)] allocated_eq [OF wf] h'(4) .
  qed
  ultimately show ?thesis using h'(2,3) heap_wf_inv by blast
qed


lemma headers_cong:
  assumes "hmem h' = hmem h"
  shows "headers h' = headers h"
proof -
  have "headers h1 \<subseteq> headers h2" if "hmem h1 = hmem h2" for h1 h2
  proof
    fix a assume "a \<in> headers h1"
    then show "a \<in> headers h2"
    proof induction
      case (headers_next a)
      from headers.headers_next [OF headers_next(2)] show ?case using that by simp
    qed (rule headers_first)
  qed
  from this [OF assms] this [OF assms [symmetric]] show ?thesis by blast
qed

lemma heap_inv_data [simp]:
  "heap_inv (h\<lparr>hdata := d\<rparr>) = heap_inv h" "allocated (h\<lparr>hdata := d\<rparr>) = allocated h"
  using headers_cong [of "h\<lparr>hdata := d\<rparr>" h]
  by (simp_all add: heap_inv_def heap_wf_def heap_shape_def tiled_def lowest_free_def merged_def counted_def
      used_headers_def allocated_def)

section \<open>Resizing\<close>

lemma RT_ALIGN_idem:
  assumes "unat (RT_ALIGN sz 8) + 7 < 2 ^ 32"
  shows "RT_ALIGN (RT_ALIGN sz 8) 8 = RT_ALIGN sz 8"
proof -
  have "unat (RT_ALIGN (RT_ALIGN sz 8) 8) = (unat (RT_ALIGN sz 8) + 7) div 8 * 8" by (rule RT_ALIGN_unat [OF assms])
  also have "\<dots> = unat (RT_ALIGN sz 8)" using RT_ALIGN_mod8 [of sz] by (auto simp: mod_eq_0_iff_dvd dvd_def)
  finally show ?thesis by (simp add: word_unat_eq_iff)
qed

lemma copy_bytes_at:
  "j < n \<Longrightarrow> copy_bytes dst src n d (dst + j) = d (src + j)"
  "x < dst \<or> dst + n \<le> x \<Longrightarrow> copy_bytes dst src n d x = d x"
  by (auto simp: copy_bytes_def)

text \<open>What resizing the block \<open>(p, m)\<close> to \<open>n\<close> bytes promises when it answers with \<open>q\<close>.\<close>

definition resized :: "nat \<Rightarrow> nat \<Rightarrow> nat \<Rightarrow> nat \<Rightarrow> small_heap \<Rightarrow> small_heap \<Rightarrow> bool" where
  "resized p m n q h h' \<longleftrightarrow> heap_inv h' \<and> heap_ptr h' = heap_ptr h
     \<and> (\<exists>m' \<ge> n. allocated h' = insert (q, m') (allocated h - {(p, m)}))
     \<and> (\<forall>j < min m n. hdata h' (q - heap_ptr h + j) = hdata h (p - heap_ptr h + j))
     \<and> (\<forall>(b, l) \<in> allocated h - {(p, m)}. \<forall>j < l. hdata h' (b - heap_ptr h + j) = hdata h (b - heap_ptr h + j))"

lemma shrink_idle:
  assumes inv: "heap_inv h" and p: "(p, m) \<in> allocated h" and n: "n mod 8 = 0" "0 < n" "n + 28 < m"
    and a: "header_of h p = Some a"
  shows "\<exists>h'. shrink_locked a m n h = Some h' \<and> resized p m n p h h'"
proof -
  have wf: "heap_wf h (headers h)" using inv by (simp add: heap_inv_def)
  let ?U = "used_headers h (headers h)"
  obtain b where b: "b \<in> ?U" "p = heap_ptr h + b + 16" "m = nx h b - (b + 16)"
    using p by (auto simp: allocated_def)
  have ab: "b = a" using a b(2) by (simp add: header_of_def)
  obtain h' H' where h': "shrink_locked a m n h = Some h'" "heap_wf h' H'" "heap_frame h h'"
      "used_headers h' H' = ?U" "nx h' a = a + 16 + n" "\<forall>x \<in> ?U. x \<noteq> a \<longrightarrow> nx h' x = nx h x"
    using shrink_locked_ok [OF wf b(1) n(1,2)] n(3) b(3) ab by auto
  have U: "?U = insert a (?U - {a})" using b(1) ab by auto
  have "blocks h' (?U - {a}) = blocks h (?U - {a})" using h'(6) by (intro blocks_cong [OF h'(3)]) auto
  also have "\<dots> = blocks h ?U - {(p, m)}" using b ab unfolding blocks_def by auto
  finally have rest: "blocks h' (?U - {a}) = blocks h ?U - {(p, m)}" .
  have "blocks h' ?U = blocks h' (insert a (?U - {a}))" using U by simp
  also have "\<dots> = insert (p, n) (blocks h' (?U - {a}))"
    unfolding blocks_insert using h'(3,5) b(2) ab by (simp add: heap_frame_def)
  finally have "blocks h' ?U = insert (p, n) (blocks h ?U - {(p, m)})" unfolding rest .
  then have "allocated h' = insert (p, n) (allocated h - {(p, m)})"
    unfolding allocated_eq [OF h'(2)] allocated_eq [OF wf] h'(4) .
  then show ?thesis
    using h'(1,3) heap_wf_inv [OF h'(2)] by (intro exI [of _ h']) (auto simp: resized_def heap_frame_def)
qed

lemma move_idle:
  assumes inv: "heap_inv h" and idle: "heap_idle i k" and p: "(p, m) \<in> allocated h"
    and h1: "heap_inv h1" "heap_frame h h1" "q \<notin> fst ` allocated h" "allocated h1 = insert (q, m') (allocated h)"
    and n: "n \<le> m'" and d: "d = copy_bytes (q - heap_ptr h) (p - heap_ptr h) (min m n) (hdata h1)"
  shows "\<exists>h'. rt_free i (Some p) (k, h1\<lparr>hdata := d\<rparr>) = Some (Done (), k, h') \<and> resized p m n q h h'"
proof -
  let ?h = "h1\<lparr>hdata := d\<rparr>"
  have p1: "(p, m) \<in> allocated ?h" using p h1(4) by simp
  have qp: "(q, m') \<noteq> (p, m)" using h1(3) p by force
  have "heap_inv ?h" using h1(1) by simp
  from free_idle [OF this idle p1] obtain h' where h': "rt_free i (Some p) (k, ?h) = Some (Done (), k, h')"
      "heap_inv h'" "heap_frame ?h h'" "allocated h' = allocated ?h - {(p, m)}" by blast
  have e: "heap_ptr h1 = heap_ptr h" "hdata h1 = hdata h" "heap_ptr h' = heap_ptr h" "hdata h' = d"
    using h1(2) h'(3) by (simp_all add: heap_frame_def)
  have same: "hdata h' (b - heap_ptr h + j) = hdata h (b - heap_ptr h + j)"
    if "(b, l) \<in> allocated h" "j < l" for b l j
  proof -
    have in1: "(b, l) \<in> allocated h1" "(q, m') \<in> allocated h1" "(b, l) \<noteq> (q, m')"
      using that(1) h1(3,4) by force+
    note sep = no_overlapD [OF allocated_ok(1) [OF h1(1)] in1]
    have "heap_ptr h \<le> b" "heap_ptr h \<le> q"
      using allocated_ok(2) [OF h1(1) in1(1)] allocated_ok(2) [OF h1(1) in1(2)] e(1) by simp_all
    then have "b - heap_ptr h + j < q - heap_ptr h \<or> q - heap_ptr h + min m n \<le> b - heap_ptr h + j"
      using sep that(2) n by linarith
    then show ?thesis unfolding e(4) d e(2) [symmetric] by (rule copy_bytes_at(2))
  qed
  have moved: "hdata h' (q - heap_ptr h + j) = hdata h (p - heap_ptr h + j)" if "j < min m n" for j
    unfolding e(4) d e(2) [symmetric] by (rule copy_bytes_at(1) [OF that])
  have "allocated h' = insert (q, m') (allocated h - {(p, m)})" using h'(4) h1(4) qp by auto
  then show ?thesis using h'(1,2) e(3) n same moved by (intro exI [of _ h']) (auto simp: resized_def)
qed


lemma realloc_idle:
  assumes inv: "heap_inv h" and idle: "heap_idle i k" and p: "(p, m) \<in> allocated h"
    and n: "n = unat (RT_ALIGN sz 8)" "0 < n" "n \<le> mem_size_aligned h"
  shows "\<exists>r h'. rt_realloc i (Some p) sz (k, h) = Some (Done r, k, h')
     \<and> (case r of None \<Rightarrow> h' = h | Some q \<Rightarrow> resized p m n q h h')"
proof -
  have wf: "heap_wf h (headers h)" using inv by (simp add: heap_inv_def)
  note w = heap_wfD [OF wf]
  obtain a where a: "a \<in> used_headers h (headers h)" "p = heap_ptr h + a + 16" "m = nx h a - (a + 16)"
    using p by (auto simp: allocated_def)
  have aH: "a \<in> headers h" "a \<noteq> heap_end h" using a(1) by (simp_all add: used_headers_def)
  have hd: "header_of h p = Some a" "in_heap h p"
    using a(2) allocated_ok(2) [OF inv p] by (auto simp: header_of_def in_heap_def)
  have m: "sub32 (sub32 (nx h a) a) 16 = m" unfolding block_size(3) [OF w(1,2) aH] a(3) ..
  have n8: "n mod 8 = 0" unfolding n(1) by (rule RT_ALIGN_mod8)
  have nz: "RT_ALIGN sz 8 \<noteq> 0" "unat (RT_ALIGN sz 8) = n" using n(1,2) by auto
  note call = rt_realloc_def [of i "Some p" sz "(k, h)", unfolded fst_conv snd_conv
      heap_idle_no_interrupt [OF idle] with_heap_sem_idle [OF idle] Let_def nz(2)]
  note res = resize_locked_def [of p n h, unfolded hd Let_def Option.bind.bind_lunit m]
  have le: "\<not> n > mem_size_aligned h" using n(3) by simp
  consider "m = n" | "m \<noteq> n" "n + 16 + 12 < m" | "m \<noteq> n" "\<not> n + 16 + 12 < m" by blast
  then show ?thesis
  proof cases
    case 1
    then have "rt_realloc i (Some p) sz (k, h) = Some (Done (Some p), k, h)"
      using hd le nz(1) by (simp add: call res m)
    moreover have "resized p m n p h h"
      using inv p 1 by (auto simp: resized_def intro!: exI [of _ n])
    ultimately show ?thesis by auto
  next
    case 2
    obtain h' where h': "shrink_locked a m n h = Some h'" "resized p m n p h h'"
      using shrink_idle [OF inv p n8 n(2) _ hd(1)] 2(2) by auto
    then have "rt_realloc i (Some p) sz (k, h) = Some (Done (Some p), k, h')"
      using hd le nz(1) 2 by (simp add: call res m)
    then show ?thesis using h'(2) by auto
  next
    case 3
    have "heap_ptr h + heap_end h + 16 < 2 ^ 32" "heap_end h = mem_size_aligned h + 16"
      using w(1) by (simp_all add: heap_shape_def)
    then have "unat (RT_ALIGN sz 8) + 7 < 2 ^ 32" using n(3) nz(2) by linarith
    note idem = RT_ALIGN_idem [OF this]
    have "unat (RT_ALIGN (RT_ALIGN sz 8) RT_ALIGN_SIZE) \<le> mem_size_aligned h" using idem nz(2) n(3) by simp
    from malloc_idle [OF inv idle nz(1) this] obtain r h1 where
      r: "rt_malloc i (RT_ALIGN sz 8) (k, h) = Some (Done r, k, h1)" "heap_inv h1" "heap_frame h h1"
        "case r of
          None \<Rightarrow> h1 = h \<and> (\<forall>a \<in> headers h. \<not> in_use h a \<longrightarrow> a < mem_size_aligned h - request (RT_ALIGN sz 8) \<longrightarrow>
                   nx h a - (a + 16) < request (RT_ALIGN sz 8))
        | Some q \<Rightarrow> q \<notin> fst ` allocated h \<and> (\<exists>m' \<ge> request (RT_ALIGN sz 8). allocated h1 = insert (q, m') (allocated h))"
      by blast
    show ?thesis
    proof (cases r)
      case None
      then have "rt_realloc i (Some p) sz (k, h) = Some (Done None, k, h)"
        using hd le nz(1) 3 r(1,4) by (simp add: call res m)
      then show ?thesis by auto
    next
      case (Some q)
      then obtain m' where m': "request (RT_ALIGN sz 8) \<le> m'" "allocated h1 = insert (q, m') (allocated h)"
          "q \<notin> fst ` allocated h"
        using r(4) by auto
      have "n \<le> m'" using m'(1) by (simp add: request_def idem nz(2))
      from move_idle [OF inv idle p r(2,3) m'(3,2) this refl] obtain h' where h':
        "rt_free i (Some p) (k, h1\<lparr>hdata := copy_bytes (q - heap_ptr h) (p - heap_ptr h) (min m n) (hdata h1)\<rparr>)
           = Some (Done (), k, h')" "resized p m n q h h'" by blast
      have hp: "heap_ptr h1 = heap_ptr h" using r(3) by (simp add: heap_frame_def)
      have mn: "(if m < n then m else n) = min m n" by (simp add: min_def)
      have "rt_realloc i (Some p) sz (k, h) = Some (Done (Some q), k, h')"
        using hd le nz(1) 3 r(1) Some h'(1) hp by (simp add: call res m mn)
      then show ?thesis using h'(2) by auto
    qed
  qed
qed


section \<open>Initialisation\<close>

lemma rt_object_init_nest:
  assumes "sched_inv {} k" "lock_ok k" "rt_object_init r ty name k = Some k'"
  shows "interrupt_nest k' = interrupt_nest k"
proof -
  obtain k1 where "rt_exit_critical (rt_enter_critical k) = Some k1" "sched_frame k k1"
    using critical_section [OF assms(1,2)] by blast
  then show ?thesis
    using assms(3) sched_frame_fields [of k k1] by (auto simp: rt_object_init_def rt_object_get_information_def Let_def bind_eq_Some_conv split: if_splits)
qed

lemma heap_init_ok:
  fixes g :: small_heap
  assumes "unat (RT_ALIGN b RT_ALIGN_SIZE) + 48 \<le> unat (RT_ALIGN_DOWN e RT_ALIGN_SIZE)"
  defines "h \<equiv> heap_setup b e (g\<lparr>used_mem := 0, max_mem := 0\<rparr>)"
  shows "heap_inv h" "allocated h = {}"
    "mem_size_aligned h = unat (RT_ALIGN_DOWN e RT_ALIGN_SIZE) - unat (RT_ALIGN b RT_ALIGN_SIZE) - 32"
proof -
  define x where "x = unat (RT_ALIGN b RT_ALIGN_SIZE)"
  define y where "y = unat (RT_ALIGN_DOWN e RT_ALIGN_SIZE)"
  have xy: "x + 48 \<le> y" using assms(1) by (simp add: x_def y_def)
  then have xy2: "32 < y" "x \<le> y - 32" by linarith+
  have m8: "x mod 8 = 0" "y mod 8 = 0"
    unfolding x_def y_def by (simp_all add: RT_ALIGN_mod8 RT_ALIGN_DOWN_unat)
  have "y < 2 ^ LENGTH(32)" unfolding y_def by (rule unsigned_less)
  then have lt: "y < 2 ^ 32" by simp
  define n where "n = y - x - 32"
  have n16: "16 \<le> n" and yn: "y = x + n + 32" using xy by (simp_all add: n_def)
  have e8: "(n + 16) mod 8 = 0"
  proof -
    obtain u v where "x = 8 * u" "y = 8 * v" using m8 by (auto simp: mod_eq_0_iff_dvd dvd_def)
    then have "n + 16 = 8 * (v - u - 2)" using xy by (simp add: n_def)
    then show ?thesis by simp
  qed
  have f: "heap_ptr h = x" "heap_end h = n + 16" "lfree h = 0" "mem_size_aligned h = n" "used_mem h = 0" "max_mem h = 0"
    "hmem h 0 = \<lparr>hm_magic = HEAP_MAGIC, hm_used = 0, hm_next = n + 16, hm_prev = 0\<rparr>"
    "hmem h (n + 16) = \<lparr>hm_magic = HEAP_MAGIC, hm_used = 1, hm_next = n + 16, hm_prev = n + 16\<rparr>"
    using xy2 unfolding h_def heap_setup_def Let_def x_def [symmetric] y_def [symmetric] by (simp_all add: yn)
  have "x + (n + 16) + 16 < 2 ^ 32" using xy lt by (simp add: n_def)
  then have sh: "heap_shape h" using n16 m8 e8 unfolding heap_shape_def f by simp
  moreover have t: "tiled h {0, n + 16}" using e8 n16 unfolding tiled_def f(2) by (simp add: f(7,8))
  moreover have "lowest_free h {0, n + 16}" unfolding lowest_free_def f by simp
  moreover have "merged {} h {0, n + 16}" unfolding merged_def by (simp add: f(7,8))
  moreover have u: "used_headers h {0, n + 16} = {}" unfolding used_headers_def f(2) by (intro equals0I) (elim CollectE conjE insertE; simp add: f(7))
  then have "counted h {0, n + 16}" by (simp add: counted_def f)
  ultimately have wf: "heap_wf h {0, n + 16}" by (simp add: heap_wf_def)
  then show "heap_inv h" by (rule heap_wf_inv)
  show "allocated h = {}" unfolding allocated_eq [OF wf] u by (simp add: blocks_def)
  show "mem_size_aligned h = unat (RT_ALIGN_DOWN e RT_ALIGN_SIZE) - unat (RT_ALIGN b RT_ALIGN_SIZE) - 32"
    unfolding f n_def x_def y_def ..
qed

section \<open>The heap is an allocator\<close>

definition heap_alloc :: "oid \<Rightarrow> kernel \<Rightarrow> u32 \<Rightarrow> small_heap \<Rightarrow> (nat option \<times> small_heap) option" where
  "heap_alloc i k n h =
     (case rt_malloc i n (k, h) of Some (Done r, _, h) \<Rightarrow> Some (r, h) | _ \<Rightarrow> None)"

definition heap_release :: "oid \<Rightarrow> kernel \<Rightarrow> nat \<Rightarrow> small_heap \<Rightarrow> small_heap option" where
  "heap_release i k p h = (case rt_free i (Some p) (k, h) of Some (Done _, _, h) \<Rightarrow> Some h | _ \<Rightarrow> None)"

interpretation heap: block_allocator "\<lambda>h. heap_idle i k \<and> heap_inv h" allocated request "heap_alloc i k" "heap_release i k"
  for i k
proof unfold_locales
  fix h assume "heap_idle i k \<and> heap_inv h"
  then show "no_overlap (allocated h)" "inj_on fst (allocated h)"
    using allocated_ok(1,3) by (auto simp: inj_on_def)
next
  fix h n assume h: "heap_idle i k \<and> heap_inv h"
  show "\<exists>r h'. heap_alloc i k n h = Some (r, h') \<and> (heap_idle i k \<and> heap_inv h') \<and>
      (case r of None \<Rightarrow> allocated h' = allocated h
       | Some p \<Rightarrow> p \<notin> fst ` allocated h \<and> (\<exists>m \<ge> request n. allocated h' = insert (p, m) (allocated h)))"
  proof (cases "n = 0 \<or> \<not> unat (RT_ALIGN n RT_ALIGN_SIZE) \<le> mem_size_aligned h")
    case True
    then have "heap_alloc i k n h = Some (None, h)"
      using heap_idle_no_interrupt [of i k] h by (auto simp: heap_alloc_def rt_malloc_def Let_def)
    then show ?thesis using h by simp
  next
    case False
    then have "n \<noteq> 0" "unat (RT_ALIGN n RT_ALIGN_SIZE) \<le> mem_size_aligned h" by simp_all
    from malloc_idle [OF _ _ this, of i k] h show ?thesis
      by (fastforce simp: heap_alloc_def split: option.splits)
  qed
next
  fix h p m assume "heap_idle i k \<and> heap_inv h" "(p, m) \<in> allocated h"
  then show "\<exists>h'. heap_release i k p h = Some h' \<and> (heap_idle i k \<and> heap_inv h') \<and> allocated h' = allocated h - {(p, m)}"
    using free_idle [of h i k p m] by (auto simp: heap_release_def)
qed

definition heap_run :: "oid \<Rightarrow> kernel \<Rightarrow> u32 alloc_op list \<Rightarrow> nat list \<Rightarrow> small_heap \<Rightarrow> (nat list \<times> small_heap) option" where
  "heap_run i k = alloc_run (heap_alloc i k) (heap_release i k)"


section \<open>Properties\<close>

text \<open>How the rounded size compares with the size asked for: it wraps to 0 in the last 7 bytes of
  the 32-bit range.\<close>

lemma request_size:
  "sz \<le> 0xfffffff8 \<Longrightarrow> unat sz \<le> request sz" "0xfffffff8 < sz \<Longrightarrow> request sz = 16"
proof -
  show "unat sz \<le> request sz" if "sz \<le> 0xfffffff8"
  proof -
    have "unat sz + 7 < 2 ^ 32" using that by (simp add: word_le_nat_alt)
    then have "unat (RT_ALIGN sz 8) = (unat sz + 7) div 8 * 8" by (rule RT_ALIGN_unat)
    then show ?thesis by (simp add: request_def)
  qed
  show "request sz = 16" if "0xfffffff8 < sz"
  proof -
    have g: "4294967288 < unat sz" using that by (simp add: word_less_nat_alt)
    have l: "unat sz < 2 ^ 32" using unsigned_less [of sz] by simp
    have "unat (sz + 7) = (unat sz + 7) mod 2 ^ 32" by (simp add: unat_word_ariths)
    also have "\<dots> = unat sz + 7 - 2 ^ 32" using g l by (subst mod_if) (simp add: le_mod_geq)
    finally have "unat (sz + 7) < 8" using l by simp
    moreover have "RT_ALIGN sz 8 = RT_ALIGN_DOWN (sz + 7) 8" by (simp add: RT_ALIGN_def RT_ALIGN_DOWN_def add.commute)
    ultimately have "unat (RT_ALIGN sz 8) = 0" by (simp add: RT_ALIGN_DOWN_unat)
    then show ?thesis by (simp add: request_def)
  qed
qed

text \<open>
  C19. \<open>rt_malloc\<close> of any size on a consistent heap that nobody else holds: it returns. A size of
  0, or one that rounded up to 8 bytes exceeds the heap, is answered with null and changes
  nothing. Otherwise it either hands out a new block, aligned, inside the heap, apart from every
  block in use and at least \<open>n\<close> bytes long, or answers null and changes nothing, and then no free
  block was that long (but for one in the last \<open>n\<close> bytes, where the search does not look). Here
  \<open>n\<close> is the size rounded up to 8 bytes, 16 at the least, hence no less than the size asked for,
  except in the last 7 sizes of the 32-bit range: there the rounding wraps to 0, \<open>n\<close> is 16, and a
  block much shorter than asked for may be handed out. Consistent means: the headers tile the
  heap and are linked both ways, no two neighbours are free, \<open>lfree\<close> is the lowest free block, and
  the statistics are those of the blocks in use.
\<close>

theorem rt_malloc_correct:
  assumes "heap_inv h" "heap_idle i k" and "n = max 16 (unat (RT_ALIGN sz RT_ALIGN_SIZE))"
  shows "(if sz = 0 \<or> mem_size_aligned h < unat (RT_ALIGN sz RT_ALIGN_SIZE)
     then rt_malloc i sz (k, h) = Some (Done None, k, h)
     else \<exists>r h'. rt_malloc i sz (k, h) = Some (Done r, k, h') \<and> heap_inv h' \<and> no_overlap (allocated h') \<and>
       (case r of
          None \<Rightarrow> h' = h \<and> (\<forall>a \<in> headers h. \<not> in_use h a \<longrightarrow> a < mem_size_aligned h - n \<longrightarrow> nx h a - (a + 16) < n)
        | Some p \<Rightarrow> p mod 8 = 0 \<and> p \<notin> fst ` allocated h \<and>
            (\<exists>m \<ge> n. allocated h' = insert (p, m) (allocated h)
               \<and> heap_ptr h + 16 \<le> p \<and> p + m \<le> heap_ptr h + heap_end h)))
     \<and> (if sz \<le> 0xfffffff8 then unat sz \<le> n else n = 16)"
proof (intro conjI)
  have n: "n = request sz" using assms(3) by (simp add: request_def)
  then show "if sz \<le> 0xfffffff8 then unat sz \<le> n else n = 16" using request_size [of sz] by simp
  show "if sz = 0 \<or> mem_size_aligned h < unat (RT_ALIGN sz RT_ALIGN_SIZE)
     then rt_malloc i sz (k, h) = Some (Done None, k, h)
     else \<exists>r h'. rt_malloc i sz (k, h) = Some (Done r, k, h') \<and> heap_inv h' \<and> no_overlap (allocated h') \<and>
       (case r of
          None \<Rightarrow> h' = h \<and> (\<forall>a \<in> headers h. \<not> in_use h a \<longrightarrow> a < mem_size_aligned h - n \<longrightarrow> nx h a - (a + 16) < n)
        | Some p \<Rightarrow> p mod 8 = 0 \<and> p \<notin> fst ` allocated h \<and>
            (\<exists>m \<ge> n. allocated h' = insert (p, m) (allocated h)
               \<and> heap_ptr h + 16 \<le> p \<and> p + m \<le> heap_ptr h + heap_end h))" (is "if ?null then _ else ?found")
  proof (cases ?null)
    case True
    then show ?thesis using heap_idle_no_interrupt [OF assms(2)] by (auto simp: rt_malloc_def)
  next
    case False
    then have fit: "sz \<noteq> 0" "unat (RT_ALIGN sz RT_ALIGN_SIZE) \<le> mem_size_aligned h" by simp_all
    obtain r h' where r: "rt_malloc i sz (k, h) = Some (Done r, k, h')" "heap_inv h'" "heap_frame h h'"
        "case r of
          None \<Rightarrow> h' = h \<and> (\<forall>a \<in> headers h. \<not> in_use h a \<longrightarrow> a < mem_size_aligned h - n \<longrightarrow> nx h a - (a + 16) < n)
        | Some p \<Rightarrow> p \<notin> fst ` allocated h \<and> (\<exists>m \<ge> n. allocated h' = insert (p, m) (allocated h))"
      using malloc_idle [OF assms(1,2) fit] unfolding n by blast
    have in_heap: "p mod 8 = 0 \<and> heap_ptr h + 16 \<le> p \<and> p + m \<le> heap_ptr h + heap_end h" if "(p, m) \<in> allocated h'" for p m
      using allocated_ok(2) [OF r(2) that] r(3) by (simp add: heap_frame_def)
    have ?found
    proof (cases r)
      case (Some p)
      then obtain m where m: "n \<le> m" "allocated h' = insert (p, m) (allocated h)" "p \<notin> fst ` allocated h"
        using r(4) by auto
      then show ?thesis
        using r(1,2) Some in_heap [of p m] allocated_ok(1) [OF r(2)] by (intro exI [of _ r] exI [of _ h']) auto
    qed (use r allocated_ok(1) [OF r(2)] in auto)
    then show ?thesis using False by simp
  qed
qed

text \<open>
  C20. \<open>rt_free\<close> of a block in use: no assertion fails, the heap stays consistent (the block is
  merged with its free neighbours, \<open>lfree\<close> and the statistics follow), and exactly that block
  is no longer in use.
\<close>

theorem rt_free_correct:
  assumes "heap_inv h" "heap_idle i k" "(p, m) \<in> allocated h"
  shows "\<exists>h'. rt_free i (Some p) (k, h) = Some (Done (), k, h') \<and> heap_inv h'
     \<and> allocated h' = allocated h - {(p, m)}"
  using free_idle [OF assms] by blast

text \<open>
  C21. \<open>rt_realloc\<close> of a block in use to a size that the heap could hold: either null, and nothing
  has changed, or a block (the old one, shrunk in place if enough is left for another, or a
  new one) that is long enough and begins with the old contents, in place of the old block;
  the contents of all other blocks are as before.
\<close>

theorem rt_realloc_correct:
  assumes "heap_inv h" "heap_idle i k" "(p, m) \<in> allocated h"
    and "n = unat (RT_ALIGN sz RT_ALIGN_SIZE)" "0 < n" "n \<le> mem_size_aligned h"
  shows "\<exists>r h'. rt_realloc i (Some p) sz (k, h) = Some (Done r, k, h') \<and>
     (case r of
        None \<Rightarrow> h' = h
      | Some q \<Rightarrow> heap_inv h' \<and> heap_ptr h' = heap_ptr h
          \<and> (\<exists>m' \<ge> n. allocated h' = insert (q, m') (allocated h - {(p, m)}))
          \<and> (\<forall>j < min m n. hdata h' (q - heap_ptr h + j) = hdata h (p - heap_ptr h + j))
          \<and> (\<forall>(b, l) \<in> allocated h - {(p, m)}. \<forall>j < l. hdata h' (b - heap_ptr h + j) = hdata h (b - heap_ptr h + j)))"
  using realloc_idle [OF assms] unfolding resized_def .

text \<open>
  C22. Safety of the heap over time: any script of requests, of whatever sizes, and releases of
  blocks that are held runs without an assertion failing; at its end the client holds
  exactly the blocks in use, and no two of them overlap.
\<close>

theorem rt_heap_run_safe:
  assumes "heap_inv h" "heap_idle i k" "allocated h = {}"
  shows "\<exists>ps h'. heap_run i k ops [] h = Some (ps, h') \<and> heap_inv h' \<and> distinct ps
     \<and> set ps = fst ` allocated h' \<and> no_overlap (allocated h')"
  using heap.run_safe [of i k h "[]" ops] assms by (auto simp: heap_run_def)

text \<open>
  A size within 7 of \<open>2^32\<close> wraps to 0 when it is rounded up, so \<open>rt_malloc\<close> treats it as a
  request for one byte: with a free block of 16 bytes it hands out a block much shorter than
  asked for instead of null. \<open>rt_realloc\<close> to such a size frees the block.
\<close>

theorem rt_malloc_wraps:
  assumes "2 ^ 32 \<le> unat sz + 7" "heap_inv (snd s)"
  shows "rt_malloc i sz s = rt_malloc i 1 s
     \<and> rt_realloc i rmem sz s = do { RT_DEBUG_NOT_IN_INTERRUPT (fst s); heap_then (rt_free i rmem s) (\<lambda>_ s. Some (Done None, s)) }"
proof -
  have "unat (sz + 7) = (unat sz + 7) mod 2 ^ 32" by (simp add: unat_word_ariths)
  moreover have "unat sz < 2 ^ LENGTH(32)" by (rule unsigned_less)
  then have l: "unat sz < 2 ^ 32" by simp
  then have "(unat sz + 7) mod 2 ^ 32 = unat sz + 7 - 2 ^ 32"
    using assms(1) by (subst le_mod_geq) simp_all
  ultimately have "unat (sz + 7) < 7" using l assms(1) by simp
  then have "unat (RT_ALIGN sz 8) = 0"
    using and_not_mask_unat [of "sz + 7" 3] by (simp add: RT_ALIGN_def mask_eq_exp_minus_1 add.commute)
  then have z: "RT_ALIGN sz 8 = 0" by (rule unat_eq_zero [THEN iffD1])
  have "sz \<noteq> 0" using assms(1) by auto
  moreover have "unat (RT_ALIGN 1 8) = 8" by (simp add: RT_ALIGN_unat)
  moreover have "16 \<le> mem_size_aligned (snd s)" using assms(2) by (simp add: heap_inv_def heap_wf_def heap_shape_def)
  ultimately show ?thesis
    using z by (simp add: rt_malloc_def rt_realloc_def Let_def)
qed

text \<open>
  Start-up: on a region of which at least 48 bytes remain after alignment,
  \<open>rt_system_heap_init\<close> gives a consistent heap with no block in use, and its semaphore is
  ready: the state the calls above start from.
\<close>

theorem rt_system_heap_init_correct:
  assumes "sched_inv {} k" "obj_inv k" "lock_ok k" "detached (container k) (OIpc i)" "interrupt_nest k = 0"
    and "unat (RT_ALIGN b RT_ALIGN_SIZE) + 48 \<le> unat (RT_ALIGN_DOWN e RT_ALIGN_SIZE)" "used_mem h = 0" "max_mem h = 0"
  shows "\<exists>k' h'. rt_system_heap_init i b e (k, h) = Some (k', h') \<and> heap_inv h' \<and> allocated h' = {}
     \<and> heap_idle i k' \<and> obj_inv k'"
proof -
  obtain k1 where k1: "rt_object_init (OIpc i) RT_Object_Class_Semaphore ''heap'' k = Some k1" "obj_inv k1"
      "rt_object_get_type (OIpc i) k1 = RT_Object_Class_Semaphore"
    using rt_object_init_ok [OF assms(1-3) _ _ assms(4), of RT_Object_Class_Semaphore "''heap''"] by auto
  have n: "interrupt_nest k1 = 0" using rt_object_init_nest [OF assms(1,3) k1(1)] assms(5) by simp
  let ?k = "set_ipc_flag i RT_IPC_FLAG_FIFO (set_sem_value i 1 (rt_ipc_object_init i k1))"
  have "rt_sem_init i ''heap'' 1 RT_IPC_FLAG_FIFO k = Some (RT_EOK, ?k)" using k1(1) by (simp add: rt_sem_init_def Let_def)
  moreover have "heap_fits b e" using assms(6) by (simp add: heap_fits_def)
  moreover have "RT_DEBUG_NOT_IN_INTERRUPT k = Some ()"
    using assms(5) by (simp add: RT_DEBUG_NOT_IN_INTERRUPT_def rt_interrupt_get_nest_def)
  ultimately have e: "rt_system_heap_init i b e (k, h) = Some (?k, heap_setup b e h)"
    by (simp add: rt_system_heap_init_def Let_def)
  have "h\<lparr>used_mem := 0, max_mem := 0\<rparr> = h" using assms(7,8) by (cases h) simp
  then have "heap_inv (heap_setup b e h)" "allocated (heap_setup b e h) = {}"
    using heap_init_ok [OF assms(6), where g = h] by simp_all
  moreover have "heap_idle i ?k"
    using k1(3) n by (simp add: heap_idle_def sem_ok_def ipc_object_ok_def rt_ipc_object_init_def set_sem_value_def
        set_ipc_flag_def ipc_flag_def rt_object_get_type_def q_replace_def)
  moreover have "obj_inv ?k"
    using k1(2) by (simp add: obj_inv_def rt_ipc_object_init_def set_sem_value_def set_ipc_flag_def rt_object_get_type_def)
  ultimately show ?thesis using e by blast
qed

section \<open>A small heap\<close>

definition ex_heap :: small_heap where
  "ex_heap = heap_setup 0x1004 0x1103 \<lparr>heap_ptr = 0, heap_end = 0, lfree = 0, mem_size_aligned = 0,
     used_mem = 0, max_mem = 0, hmem = (\<lambda>_. \<lparr>hm_magic = 0, hm_used = 0, hm_next = 0, hm_prev = 0\<rparr>), hdata = (\<lambda>_. 0)\<rparr>"

lemma ex_bounds: "unat (RT_ALIGN 0x1004 RT_ALIGN_SIZE) = 0x1008" "unat (RT_ALIGN_DOWN 0x1103 RT_ALIGN_SIZE) = 0x1100"
  by (simp_all add: RT_ALIGN_unat RT_ALIGN_DOWN_unat)

lemma ex_heap_facts: "heap_inv ex_heap" "allocated ex_heap = {}" "mem_size_aligned ex_heap = 216"
  using heap_init_ok [where b = "0x1004" and e = "0x1103" and g = "\<lparr>heap_ptr = 0, heap_end = 0, lfree = 0, mem_size_aligned = 0,
     used_mem = 0, max_mem = 0, hmem = (\<lambda>_. \<lparr>hm_magic = 0, hm_used = 0, hm_next = 0, hm_prev = 0\<rparr>), hdata = (\<lambda>_. 0)\<rparr>"]
  by (simp_all add: ex_heap_def ex_bounds)

lemma ex_heap_first: "hmem ex_heap 0 = \<lparr>hm_magic = HEAP_MAGIC, hm_used = 0, hm_next = 232, hm_prev = 0\<rparr>"
  by (simp add: ex_heap_def heap_setup_def ex_bounds Let_def)

lemma ex_heap_idle: "heap_idle 0 ex_kernel"
  using ex_sem by (simp add: heap_idle_def)

theorem rt_system_heap_init_correct_witness:
  "\<exists>k h. rt_system_heap_init 7 0x1004 0x1103 (ex_kernel, ex_heap\<lparr>used_mem := 0, max_mem := 0\<rparr>) = Some (k, h)
     \<and> heap_inv h \<and> heap_idle 7 k"
proof -
  have "detached (container ex_kernel) (OIpc 7)" by (simp add: detached_def)
  from rt_system_heap_init_correct [OF ex_sched_inv ex_obj_inv ex_lock_ok this, of "0x1004" "0x1103"
      "ex_heap\<lparr>used_mem := 0, max_mem := 0\<rparr>"]
  show ?thesis by (auto simp: ex_bounds)
qed

theorem rt_malloc_correct_witness:
  "\<exists>p m h'. rt_malloc 0 20 (ex_kernel, ex_heap) = Some (Done (Some p), ex_kernel, h')
     \<and> allocated h' = {(p, m)} \<and> 24 \<le> m \<and> p mod 8 = 0"
proof -
  have a: "unat (RT_ALIGN 20 RT_ALIGN_SIZE) = 24" by (simp add: RT_ALIGN_unat)
  then have "24 = max 16 (unat (RT_ALIGN 20 RT_ALIGN_SIZE))" "\<not> mem_size_aligned ex_heap < unat (RT_ALIGN 20 RT_ALIGN_SIZE)"
    by (simp_all add: ex_heap_facts)
  with rt_malloc_correct [OF ex_heap_facts(1) ex_heap_idle this(1)] obtain r h' where
    r: "rt_malloc 0 20 (ex_kernel, ex_heap) = Some (Done r, ex_kernel, h')" "case r of
        None \<Rightarrow> h' = ex_heap \<and> (\<forall>a \<in> headers ex_heap. \<not> in_use ex_heap a \<longrightarrow> a < mem_size_aligned ex_heap - 24 \<longrightarrow>
                   nx ex_heap a - (a + 16) < 24)
      | Some p \<Rightarrow> p mod 8 = 0 \<and> p \<notin> fst ` allocated ex_heap \<and>
          (\<exists>m \<ge> 24. allocated h' = insert (p, m) (allocated ex_heap)
             \<and> heap_ptr ex_heap + 16 \<le> p \<and> p + m \<le> heap_ptr ex_heap + heap_end ex_heap)"
    by auto
  show ?thesis
  proof (cases r)
    case None
    then show ?thesis using r(2) headers_first [of ex_heap] by (auto simp: ex_heap_first ex_heap_facts)
  next
    case (Some p)
    then show ?thesis using r by (auto simp: ex_heap_facts)
  qed
qed

text \<open>A heap with one block in use.\<close>

lemma ex_one_block:
  "\<exists>p m h. rt_malloc 0 20 (ex_kernel, ex_heap) = Some (Done (Some p), ex_kernel, h) \<and> heap_inv h
     \<and> allocated h = {(p, m)} \<and> 24 \<le> m \<and> mem_size_aligned h = 216"
proof -
  have a: "unat (RT_ALIGN 20 RT_ALIGN_SIZE) = 24" by (simp add: RT_ALIGN_unat)
  then have q: "request 20 = 24" by (simp add: request_def)
  have "unat (RT_ALIGN 20 RT_ALIGN_SIZE) \<le> mem_size_aligned ex_heap" using a by (simp add: ex_heap_facts)
  from malloc_idle [OF ex_heap_facts(1) ex_heap_idle _ this] obtain r h where
    r: "rt_malloc 0 20 (ex_kernel, ex_heap) = Some (Done r, ex_kernel, h)" "heap_inv h" "heap_frame ex_heap h"
      "case r of
        None \<Rightarrow> h = ex_heap \<and> (\<forall>a \<in> headers ex_heap. \<not> in_use ex_heap a \<longrightarrow>
           a < mem_size_aligned ex_heap - request 20 \<longrightarrow> nx ex_heap a - (a + 16) < request 20)
      | Some p \<Rightarrow> p \<notin> fst ` allocated ex_heap \<and> (\<exists>m \<ge> request 20. allocated h = insert (p, m) (allocated ex_heap))"
    by auto
  show ?thesis
  proof (cases r)
    case None
    then show ?thesis using r(4) headers_first [of ex_heap] by (auto simp: ex_heap_first ex_heap_facts q)
  next
    case (Some p)
    then show ?thesis using r by (auto simp: ex_heap_facts q heap_frame_def)
  qed
qed

theorem rt_free_correct_witness:
  "\<exists>p h h'. rt_malloc 0 20 (ex_kernel, ex_heap) = Some (Done (Some p), ex_kernel, h)
     \<and> rt_free 0 (Some p) (ex_kernel, h) = Some (Done (), ex_kernel, h') \<and> allocated h' = {}"
proof -
  obtain p m h where h: "rt_malloc 0 20 (ex_kernel, ex_heap) = Some (Done (Some p), ex_kernel, h)" "heap_inv h"
      "allocated h = {(p, m)}"
    using ex_one_block by blast
  have "(p, m) \<in> allocated h" using h(3) by simp
  from rt_free_correct [OF h(2) ex_heap_idle this] h(1,3) show ?thesis by auto
qed

theorem rt_realloc_correct_witness:
  "\<exists>p m h r h'. rt_malloc 0 20 (ex_kernel, ex_heap) = Some (Done (Some p), ex_kernel, h)
     \<and> rt_realloc 0 (Some p) 40 (ex_kernel, h) = Some (Done r, ex_kernel, h')
     \<and> (\<forall>q. r = Some q \<longrightarrow> (\<exists>m' \<ge> 40. allocated h' = {(q, m')}))"
proof -
  obtain p m h where h: "rt_malloc 0 20 (ex_kernel, ex_heap) = Some (Done (Some p), ex_kernel, h)" "heap_inv h"
      "allocated h = {(p, m)}" "mem_size_aligned h = 216"
    using ex_one_block by blast
  have n: "40 = unat (RT_ALIGN 40 RT_ALIGN_SIZE)" "(0::nat) < 40" "40 \<le> mem_size_aligned h"
    by (simp_all add: RT_ALIGN_unat h(4))
  have pm: "(p, m) \<in> allocated h" using h(3) by simp
  from rt_realloc_correct [OF h(2) ex_heap_idle pm n] obtain r h' where
    r: "rt_realloc 0 (Some p) 40 (ex_kernel, h) = Some (Done r, ex_kernel, h')"
      "\<And>q. r = Some q \<Longrightarrow> \<exists>m' \<ge> 40. allocated h' = insert (q, m') (allocated h - {(p, m)})"
    by (auto split: option.splits)
  then show ?thesis using h(1,3) by auto
qed

theorem rt_heap_run_safe_witness:
  "\<exists>ps h'. heap_run 0 ex_kernel [Alloc 20, Alloc 0, Alloc 300, Alloc 64, Release 1, Alloc 8, Release 7] [] ex_heap = Some (ps, h')
     \<and> no_overlap (allocated h')"
  using rt_heap_run_safe [OF ex_heap_facts(1) ex_heap_idle ex_heap_facts(2)] by blast

theorem rt_malloc_wraps_witness:
  "rt_malloc 0 0xfffffffe (ex_kernel, ex_heap) = rt_malloc 0 1 (ex_kernel, ex_heap)"
proof -
  have "2 ^ 32 \<le> unat (0xfffffffe :: u32) + 7" "heap_inv (snd (ex_kernel, ex_heap))"
    by (simp_all add: ex_heap_facts)
  from rt_malloc_wraps [OF this, of 0 None] show ?thesis by blast
qed

end
