(* ===== verification/RT_Errno.thy ===== *)
theory RT_Errno
  imports RT_Object
begin

text \<open>
  The error number (\<open>rt_set_errno\<close> of \<open>src/kservice.c\<close>), which the memory pools and the devices
  set. In interrupts and before the first thread runs the code writes a global variable; no
  operation of the model reads it and it is not part of the state.
\<close>

definition rt_set_errno :: "rt_err_t \<Rightarrow> kernel \<Rightarrow> kernel" where
  "rt_set_errno e k =
     (if rt_interrupt_get_nest k \<noteq> 0 then k
      else case rt_thread_self k of None \<Rightarrow> k | Some t \<Rightarrow> upd_thread t (\<lambda>th. th\<lparr>error := e\<rparr>) k)"

lemma rt_set_errno_fields [simp]:
  "objs (rt_set_errno e k) = objs k" "container (rt_set_errno e k) = container k"
  "queues (rt_set_errno e k) = queues k" "current_thread (rt_set_errno e k) = current_thread k"
  "interrupt_nest (rt_set_errno e k) = interrupt_nest k"
  "rt_object_get_type r (rt_set_errno e k) = rt_object_get_type r k"
  by (auto simp: rt_set_errno_def rt_object_get_type_def split: option.splits)

end
