(* ===== verification/RT_Mempool.thy ===== *)
theory RT_Mempool
  imports RT_Channel RT_Alloc RT_Errno
begin

text \<open>
  Memory pools (\<open>src/mempool.c\<close>): blocks of one size; the word before a block links it into
  the list of free blocks or, while it is in use, points to its pool. The control blocks
  and these words are a state of their own beside the kernel's; addresses are natural
  numbers below \<open>2^32\<close>. \<open>rt_mp_alloc\<close> is split at its \<open>rt_schedule\<close> as the calls of \<open>ipc.c\<close>.
\<close>

section \<open>State\<close>

record rt_mempool =
  start_address :: nat
  mp_size :: nat
  mp_block_size :: nat
  block_list :: "nat option"
  block_total_count :: nat
  block_free_count :: nat

datatype mp_word = Next "nat option" | Owner oid

record mp_mem =
  pools :: "oid \<Rightarrow> rt_mempool"
  words :: "nat \<Rightarrow> mp_word"

definition upd_pool :: "oid \<Rightarrow> (rt_mempool \<Rightarrow> rt_mempool) \<Rightarrow> mp_mem \<Rightarrow> mp_mem" where
  "upd_pool i f M = M\<lparr>pools := (pools M)(i := f (pools M i))\<rparr>"

definition set_word :: "nat \<Rightarrow> mp_word \<Rightarrow> mp_mem \<Rightarrow> mp_mem" where
  "set_word a w M = M\<lparr>words := (words M)(a := w)\<rparr>"

definition stride :: "rt_mempool \<Rightarrow> nat" where
  "stride m = mp_block_size m + 4"

section \<open>Operations\<close>

text \<open>The loop that links all blocks, and the null link behind the last one. With no block
  the index \<open>offset - 1\<close> wraps.\<close>

definition mp_link_blocks :: "oid \<Rightarrow> mp_mem \<Rightarrow> mp_mem" where
  "mp_link_blocks i M =
     (let m = pools M i;
          at = (\<lambda>off. (start_address m + off * stride m) mod 2 ^ 32);
          M = fold (\<lambda>off. set_word (at off) (Next (Some (at (off + 1))))) [0..<block_total_count m] M;
          M = set_word (at ((block_total_count m + (2 ^ 32 - 1)) mod 2 ^ 32)) (Next None) M
      in upd_pool i (\<lambda>m. m\<lparr>block_list := Some (start_address m)\<rparr>) M)"

definition rt_mp_init ::
    "oid \<Rightarrow> string \<Rightarrow> nat \<Rightarrow> u32 \<Rightarrow> u32 \<Rightarrow> kernel \<times> mp_mem \<Rightarrow> (rt_err_t \<times> kernel \<times> mp_mem) option" where
  "rt_mp_init i name start sz block_size s =
     (case s of (k, M) \<Rightarrow>
        do { rt_assert (sz > 0 \<and> block_size > 0);
             k \<leftarrow> rt_object_init (OIpc i) RT_Object_Class_MemPool name k;
             let size' = unat (RT_ALIGN_DOWN sz RT_ALIGN_SIZE);
             let bs = unat (RT_ALIGN block_size RT_ALIGN_SIZE);
             let M = upd_pool i (\<lambda>m. m\<lparr>start_address := start, mp_size := size', mp_block_size := bs,
                                  block_total_count := size' div (bs + 4), block_free_count := size' div (bs + 4)\<rparr>) M;
             Some (RT_EOK, rt_ipc_object_init i k, mp_link_blocks i M) })"

text \<open>The loop that wakes the waiters is that of \<open>rt_ipc_list_resume_all\<close>.\<close>

definition rt_mp_detach :: "oid \<Rightarrow> kernel \<times> mp_mem \<Rightarrow> (rt_err_t \<times> kernel \<times> mp_mem) option" where
  "rt_mp_detach i s =
     (case s of (k, M) \<Rightarrow>
        do { assert_ipc RT_Object_Class_MemPool i k;
             rt_assert (rt_object_is_systemobject (OIpc i) k);
             k \<leftarrow> rt_ipc_list_resume_all (SuspendQ i) k;
             Some (RT_EOK, rt_object_detach (OIpc i) k, M) })"

text \<open>\<open>rt_mp_create\<close>: the answers of the heap for the object and for the blocks are arguments.\<close>

definition rt_mp_create ::
    "oid option \<Rightarrow> nat option \<Rightarrow> string \<Rightarrow> u32 \<Rightarrow> u32 \<Rightarrow> kernel \<times> mp_mem \<Rightarrow> (oid option \<times> kernel \<times> mp_mem) option" where
  "rt_mp_create mem start name block_count block_size s =
     (case s of (k, M) \<Rightarrow>
        do { RT_DEBUG_NOT_IN_INTERRUPT k;
             rt_assert (block_count > 0 \<and> block_size > 0);
             (r, k) \<leftarrow> rt_object_allocate (map_option OIpc mem) RT_Object_Class_MemPool name k;
             case (r, mem) of
               (Some _, Some i) \<Rightarrow>
                 do { let bs = RT_ALIGN block_size RT_ALIGN_SIZE;
                      let M = upd_pool i (\<lambda>m. m\<lparr>mp_block_size := unat bs, mp_size := unat ((bs + 4) * block_count)\<rparr>) M;
                      case start of
                        None \<Rightarrow> do { (_, k) \<leftarrow> rt_object_delete (OIpc i) k; Some (None, k, M) }
                      | Some start \<Rightarrow>
                          let M = upd_pool i (\<lambda>m. m\<lparr>start_address := start, block_total_count := unat block_count,
                                    block_free_count := unat block_count\<rparr>) M
                          in Some (Some i, rt_ipc_object_init i k, mp_link_blocks i M) }
             | _ \<Rightarrow> Some (None, k, M) })"

text \<open>\<open>rt_mp_delete\<close>; giving the memory back to the heap does not concern this state.\<close>

definition rt_mp_delete :: "oid \<Rightarrow> kernel \<times> mp_mem \<Rightarrow> (rt_err_t \<times> kernel \<times> mp_mem) option" where
  "rt_mp_delete i s =
     (case s of (k, M) \<Rightarrow>
        do { RT_DEBUG_NOT_IN_INTERRUPT k;
             assert_ipc RT_Object_Class_MemPool i k;
             rt_assert (\<not> rt_object_is_systemobject (OIpc i) k);
             k \<leftarrow> rt_ipc_list_resume_all (SuspendQ i) k;
             (_, k) \<leftarrow> rt_object_delete (OIpc i) k;
             Some (RT_EOK, k, M) })"

text \<open>Taking the first free block, and giving one back: the lines on the blocks of
  \<open>rt_mp_alloc\<close> and \<open>rt_mp_free\<close>. A word that is read for what it is not has no result.\<close>

definition mp_take :: "oid \<Rightarrow> mp_mem \<Rightarrow> (nat \<times> mp_mem) option" where
  "mp_take i M =
     do { let M = upd_pool i (\<lambda>m. m\<lparr>block_free_count := block_free_count m - 1\<rparr>) M;
          block_ptr \<leftarrow> block_list (pools M i);
          case words M block_ptr of
            Owner _ \<Rightarrow> None
          | Next p \<Rightarrow> Some (block_ptr + 4, set_word block_ptr (Owner i) (upd_pool i (\<lambda>m. m\<lparr>block_list := p\<rparr>) M)) }"

definition mp_give :: "nat \<Rightarrow> mp_mem \<Rightarrow> (oid \<times> mp_mem) option" where
  "mp_give block M =
     (if block < 4 then None
      else case words M (block - 4) of
        Next _ \<Rightarrow> None
      | Owner i \<Rightarrow>
          let M = upd_pool i (\<lambda>m. m\<lparr>block_free_count := block_free_count m + 1\<rparr>) M;
              M = set_word (block - 4) (Next (block_list (pools M i))) M
          in Some (i, upd_pool i (\<lambda>m. m\<lparr>block_list := Some (block - 4)\<rparr>) M))"

text \<open>\<open>rt_mp_alloc\<close>; the pair is (\<open>time\<close>, \<open>before_sleep\<close>).\<close>

definition mp_alloc_try ::
    "oid \<Rightarrow> tid option \<Rightarrow> u32 \<times> u32 \<Rightarrow> kernel \<times> mp_mem \<Rightarrow>
     (nat option call_result \<times> (u32 \<times> u32) \<times> kernel \<times> mp_mem) option" where
  "mp_alloc_try i self loc s =
     (case (loc, s) of ((time, before_sleep), (k, M)) \<Rightarrow>
        if block_free_count (pools M i) = 0
        then if time = 0 then Some (Done None, loc, rt_set_errno (- RT_ETIMEOUT) k, M)
             else do { RT_DEBUG_NOT_IN_INTERRUPT k;
                       t \<leftarrow> self;
                       let k = clear_error t k;
                       (_, k) \<leftarrow> rt_thread_suspend t k;
                       let k = k\<lparr>queues := q_insert_after (SuspendQ i) t (queues k)\<rparr>;
                       let before_sleep = (if 0 < sint time then tick k else before_sleep);
                       k \<leftarrow> ipc_start_timer t time k;
                       k \<leftarrow> rt_schedule k;
                       Some (Wait, (time, before_sleep), k, M) }
        else do { (b, M) \<leftarrow> mp_take i M; Some (Done (Some b), loc, k, M) })"

definition rt_mp_alloc_start ::
    "oid \<Rightarrow> u32 \<Rightarrow> kernel \<times> mp_mem \<Rightarrow> (nat option call_result \<times> (u32 \<times> u32) \<times> kernel \<times> mp_mem) option" where
  "rt_mp_alloc_start i time s = mp_alloc_try i (rt_thread_self (fst s)) (time, 0) s"

definition rt_mp_alloc_wake ::
    "oid \<Rightarrow> tid \<Rightarrow> u32 \<times> u32 \<Rightarrow> kernel \<times> mp_mem \<Rightarrow> (nat option call_result \<times> (u32 \<times> u32) \<times> kernel \<times> mp_mem) option" where
  "rt_mp_alloc_wake i t loc s =
     (if error (threads (fst s) t) \<noteq> RT_EOK then Some (Done None, loc, s)
      else mp_alloc_try i (Some t) (ipc_remaining (fst loc) (snd loc) (tick (fst s)), snd loc) s)"

definition rt_mp_free :: "nat option \<Rightarrow> kernel \<times> mp_mem \<Rightarrow> (kernel \<times> mp_mem) option" where
  "rt_mp_free block s =
     (case (block, s) of
        (None, _) \<Rightarrow> Some s
      | (Some b, (k, M)) \<Rightarrow>
          do { (i, M) \<leftarrow> mp_give b M;
               case queues k (SuspendQ i) of
                 [] \<Rightarrow> Some (k, M)
               | t # _ \<Rightarrow> do { let k = clear_error t k;
                             (_, k) \<leftarrow> rt_thread_resume t k;
                             k \<leftarrow> rt_schedule k;
                             Some (k, M) } })"

section \<open>A well-formed pool\<close>

definition block_addrs :: "rt_mempool \<Rightarrow> nat set" where
  "block_addrs m = (\<lambda>j. start_address m + j * stride m) ` {..<block_total_count m}"

definition next_word :: "mp_mem \<Rightarrow> nat \<Rightarrow> nat option" where
  "next_word M a = (case words M a of Next p \<Rightarrow> p | Owner _ \<Rightarrow> None)"

text \<open>The blocks of the pool are on the free list \<open>fs\<close>, each once, or carry the pool's address.\<close>

definition mp_lists :: "oid \<Rightarrow> mp_mem \<Rightarrow> nat list \<Rightarrow> bool" where
  "mp_lists i M fs \<longleftrightarrow>
     (let m = pools M i
      in chain (next_word M) (block_list m) fs \<and> distinct fs \<and> set fs \<subseteq> block_addrs m
       \<and> length fs = block_free_count m \<and> 0 < mp_block_size m
       \<and> (\<forall>a \<in> block_addrs m. if a \<in> set fs then \<exists>p. words M a = Next p else words M a = Owner i))"

definition mp_wf :: "oid \<Rightarrow> mp_mem \<Rightarrow> bool" where
  "mp_wf i M \<longleftrightarrow> (\<exists>fs. mp_lists i M fs)"

text \<open>The blocks in use, by address and size.\<close>

definition mp_allocated :: "oid \<Rightarrow> mp_mem \<Rightarrow> (nat \<times> nat) set" where
  "mp_allocated i M = (\<lambda>a. (a + 4, mp_block_size (pools M i))) ` {a \<in> block_addrs (pools M i). words M a = Owner i}"

lemma upd_pool_fields [simp]:
  "pools (upd_pool i f M) j = (if j = i then f (pools M i) else pools M j)" "words (upd_pool i f M) = words M"
  "pools (set_word a w M) = pools M" "words (set_word a w M) = (words M)(a := w)"
  by (simp_all add: upd_pool_def set_word_def)

lemma block_addrs_cong:
  "start_address m' = start_address m \<Longrightarrow> mp_block_size m' = mp_block_size m \<Longrightarrow>
     block_total_count m' = block_total_count m \<Longrightarrow> block_addrs m' = block_addrs m"
  by (simp add: block_addrs_def stride_def)

lemma block_addrs_fields [simp]:
  "block_addrs (m\<lparr>block_free_count := n\<rparr>) = block_addrs m" "block_addrs (m\<lparr>block_list := p\<rparr>) = block_addrs m"
  by (simp_all add: block_addrs_def stride_def)

lemma chain_cong: "(\<And>s. s \<in> set ss \<Longrightarrow> l s = l' s) \<Longrightarrow> chain l p ss = chain l' p ss"
  by (induction ss arbitrary: p) auto

text \<open>Different blocks are a stride apart.\<close>

lemma blocks_apart:
  assumes "a \<in> block_addrs m" "b \<in> block_addrs m" "a < b"
  shows "a + stride m \<le> b"
proof -
  obtain j l where jl: "a = start_address m + j * stride m" "b = start_address m + l * stride m"
    using assms(1,2) by (auto simp: block_addrs_def)
  have "j < l"
  proof (rule ccontr)
    assume "\<not> j < l"
    then have "l * stride m \<le> j * stride m" by (intro mult_le_mono1) simp
    then show False using jl assms(3) by linarith
  qed
  then have "Suc j * stride m \<le> l * stride m" by (intro mult_le_mono1) simp
  then show ?thesis using jl by simp
qed

lemma mp_allocated_ok:
  assumes "mp_wf i M"
  shows "no_overlap (mp_allocated i M)" "inj_on fst (mp_allocated i M)"
proof -
  have "a + 4 + mp_block_size (pools M i) \<le> b + 4 \<or> b + 4 + mp_block_size (pools M i) \<le> a + 4"
    if "a \<in> block_addrs (pools M i)" "b \<in> block_addrs (pools M i)" "a \<noteq> b" for a b
    using blocks_apart [OF that(1,2)] blocks_apart [OF that(2,1)] that(3) by (auto simp: stride_def neq_iff)
  then show "no_overlap (mp_allocated i M)" by (fastforce simp: no_overlap_def mp_allocated_def)
  show "inj_on fst (mp_allocated i M)" by (auto simp: inj_on_def mp_allocated_def)
qed

lemma mp_take_ok:
  assumes wf: "mp_wf i M" and free: "block_free_count (pools M i) \<noteq> 0"
  shows "\<exists>b M'. mp_take i M = Some (b, M') \<and> mp_wf i M'
     \<and> block_free_count (pools M' i) = block_free_count (pools M i) - 1
     \<and> b \<notin> fst ` mp_allocated i M \<and> mp_allocated i M' = insert (b, mp_block_size (pools M i)) (mp_allocated i M)
     \<and> mp_block_size (pools M' i) = mp_block_size (pools M i)"
proof -
  obtain fs0 where l0: "mp_lists i M fs0" using wf by (auto simp: mp_wf_def)
  then obtain a fs where fs0: "fs0 = a # fs" using free by (cases fs0) (auto simp: mp_lists_def Let_def)
  let ?m = "pools M i"
  have l: "block_list ?m = Some a" "chain (next_word M) (next_word M a) fs" "distinct (a # fs)"
    "set (a # fs) \<subseteq> block_addrs ?m" "Suc (length fs) = block_free_count ?m" "0 < mp_block_size ?m"
    "\<forall>x \<in> block_addrs ?m. if x \<in> set (a # fs) then \<exists>p. words M x = Next p else words M x = Owner i"
    using l0 fs0 by (auto simp: mp_lists_def Let_def)
  obtain p where p: "words M a = Next p" using bspec [OF l(7), of a] l(4) by auto
  let ?M = "set_word a (Owner i) (upd_pool i (\<lambda>m. m\<lparr>block_free_count := block_free_count ?m - 1, block_list := p\<rparr>) M)"
  have eq: "mp_take i M = Some (a + 4, ?M)"
    using l(1) p by (simp add: mp_take_def upd_pool_def set_word_def)
  have nw: "next_word M a = p" using p by (simp add: next_word_def)
  have ch: "chain (next_word ?M) p fs"
  proof -
    have "chain (next_word ?M) p fs = chain (next_word M) p fs"
      by (rule chain_cong) (use l(3) in \<open>auto simp: next_word_def\<close>)
    then show ?thesis using l(2) nw by simp
  qed
  have "mp_lists i ?M fs"
    using ch l(3-7) by (auto simp: mp_lists_def Let_def split: if_splits)
  then have "mp_wf i ?M" by (auto simp: mp_wf_def)
  moreover have "mp_allocated i ?M = insert (a + 4, mp_block_size ?m) (mp_allocated i M)"
    using l(4) p by (auto simp: mp_allocated_def)
  moreover have "a + 4 \<notin> fst ` mp_allocated i M" using p by (auto simp: mp_allocated_def)
  ultimately show ?thesis using eq by simp
qed

lemma mp_give_ok:
  assumes wf: "mp_wf i M" and b: "(b, n) \<in> mp_allocated i M"
  shows "\<exists>M'. mp_give b M = Some (i, M') \<and> mp_wf i M'
     \<and> block_free_count (pools M' i) = block_free_count (pools M i) + 1
     \<and> mp_allocated i M' = mp_allocated i M - {(b, n)} \<and> mp_block_size (pools M' i) = mp_block_size (pools M i)"
proof -
  let ?m = "pools M i"
  obtain a where a: "a \<in> block_addrs ?m" "words M a = Owner i" "b = a + 4" "n = mp_block_size ?m"
    using b by (auto simp: mp_allocated_def)
  obtain fs where l: "chain (next_word M) (block_list ?m) fs" "distinct fs" "set fs \<subseteq> block_addrs ?m"
    "length fs = block_free_count ?m" "0 < mp_block_size ?m"
    "\<forall>x \<in> block_addrs ?m. if x \<in> set fs then \<exists>p. words M x = Next p else words M x = Owner i"
    using wf by (auto simp: mp_wf_def mp_lists_def Let_def)
  have nf: "a \<notin> set fs" using bspec [OF l(6) a(1)] a(2) by (auto split: if_splits)
  let ?M = "upd_pool i (\<lambda>m. m\<lparr>block_free_count := block_free_count ?m + 1, block_list := Some a\<rparr>)
      (set_word a (Next (block_list ?m)) M)"
  have eq: "mp_give b M = Some (i, ?M)"
    using a(2,3) by (simp add: mp_give_def upd_pool_def set_word_def Let_def)
  have "chain (next_word ?M) (block_list ?m) fs = chain (next_word M) (block_list ?m) fs"
    by (rule chain_cong) (use nf in \<open>auto simp: next_word_def\<close>)
  then have "chain (next_word ?M) (Some a) (a # fs)" using l(1) by (simp add: next_word_def)
  then have "mp_lists i ?M (a # fs)"
    using l(2-6) nf a(1) by (auto simp: mp_lists_def Let_def split: if_splits)
  then have "mp_wf i ?M" by (auto simp: mp_wf_def)
  moreover have "mp_allocated i ?M = mp_allocated i M - {(b, n)}"
    using a by (auto simp: mp_allocated_def split: if_splits)
  ultimately show ?thesis using eq by simp
qed


section \<open>Setting up a pool\<close>

lemma fold_links_pools [simp]:
  "pools (fold (\<lambda>j. set_word (at j) (w j)) js M) = pools M"
  by (induction js arbitrary: M) simp_all

lemma fold_links:
  assumes "inj_on at {..c}" "n \<le> c" "j \<le> c"
  shows "words (fold (\<lambda>j. set_word (at j) (Next (Some (at (j + 1))))) [0..<n] M) (at j)
       = (if j < n then Next (Some (at (j + 1))) else words M (at j))"
  using assms(2)
proof (induction n)
  case (Suc n)
  have "at j = at n \<longleftrightarrow> j = n" using inj_onD [OF assms(1), of j n] assms(3) Suc(2) by auto
  then show ?case using Suc by (auto simp: less_Suc_eq)
qed simp

lemma chain_upt:
  assumes "\<And>j. Suc j < n \<Longrightarrow> l (at j) = Some (at (Suc j))" "l (at (n - 1)) = None" "j < n"
  shows "chain l (Some (at j)) (map at [j..<n])"
  using assms(3)
proof (induction "n - j" arbitrary: j)
  case (Suc d)
  have u: "[j..<n] = j # [Suc j..<n]" using Suc(3) by (simp add: upt_conv_Cons)
  show ?case
  proof (cases "Suc j < n")
    case True
    then show ?thesis using Suc(1) [of "Suc j"] Suc(2) assms(1) by (simp add: u)
  next
    case False
    then have "n = Suc j" using Suc(3) by simp
    then show ?thesis using assms(2) by simp
  qed
qed simp

lemma mp_link_blocks_ok:
  assumes "block_total_count (pools M i) = c" "block_free_count (pools M i) = c" "0 < c" "0 < mp_block_size (pools M i)"
    and "start_address (pools M i) + c * stride (pools M i) < 2 ^ 32"
  shows "mp_wf i (mp_link_blocks i M)" "mp_allocated i (mp_link_blocks i M) = {}"
proof -
  define m where "m = pools M i"
  define at where "at j = start_address m + j * stride m" for j
  have m: "block_total_count m = c" "block_free_count m = c" "0 < mp_block_size m" "at c < 2 ^ 32"
    using assms unfolding at_def m_def by simp_all
  have s: "0 < stride m" by (simp add: stride_def)
  have inj: "inj_on at {..c}" using s by (auto simp: inj_on_def at_def)
  have "at j \<le> at c" if "j \<le> c" for j using mult_le_mono1 [OF that, of "stride m"] by (simp add: at_def)
  then have mod: "at j mod 4294967296 = at j" if "j \<le> c" for j using le_less_trans [OF _ m(4)] that by simp
  have "c * 1 \<le> c * stride m" using s by (intro mult_le_mono2) simp
  then have "c \<le> at c" unfolding at_def by linarith
  then have "c < 2 ^ 32" using m(4) by (rule le_less_trans)
  then have wrap: "(c + (2 ^ 32 - 1)) mod 2 ^ 32 = c - 1" using assms(3) by (cases c) simp_all
  let ?F = "fold (\<lambda>j. set_word (at j) (Next (Some (at (j + 1))))) [0..<c] M"
  have "fold (\<lambda>j. set_word (at j mod 2 ^ 32) (Next (Some (at (j + 1) mod 2 ^ 32)))) [0..<c] M = ?F"
    by (rule fold_cong) (auto simp: mod)
  then have "mp_link_blocks i M = upd_pool i (\<lambda>m. m\<lparr>block_list := Some (start_address m)\<rparr>)
      (set_word (at (c - 1) mod 2 ^ 32) (Next None) ?F)"
    unfolding mp_link_blocks_def Let_def m_def [symmetric] at_def [symmetric] m(1) wrap by simp
  then have e: "mp_link_blocks i M = upd_pool i (\<lambda>m. m\<lparr>block_list := Some (start_address m)\<rparr>)
      (set_word (at (c - 1)) (Next None) ?F)"
    using mod [of "c - 1"] by simp
  note F = fold_links [OF inj order_refl, where M = M]
  let ?N = "mp_link_blocks i M"
  have w: "words ?N (at j) = Next (if Suc j < c then Some (at (Suc j)) else None)" if "j < c" for j
  proof -
    have "at j = at (c - 1) \<longleftrightarrow> j = c - 1" using inj_onD [OF inj, of j "c - 1"] that by auto
    then show ?thesis using that F [of j] unfolding e by (auto simp: less_diff_conv)
  qed
  have p: "pools ?N i = m\<lparr>block_list := Some (at 0)\<rparr>" unfolding e by (simp add: m_def at_def)
  have ba: "block_addrs m = at ` {..<c}" by (simp add: block_addrs_def at_def m(1))
  have "chain (next_word ?N) (Some (at 0)) (map at [0..<c])"
    by (rule chain_upt) (use w assms(3) in \<open>auto simp: next_word_def\<close>)
  moreover have "distinct (map at [0..<c])"
    using inj by (auto simp: distinct_map intro: inj_on_subset)
  ultimately have "mp_lists i ?N (map at [0..<c])"
    using m w unfolding mp_lists_def Let_def p by (auto simp: ba)
  then show "mp_wf i ?N" by (auto simp: mp_wf_def)
  show "mp_allocated i ?N = {}" using w unfolding mp_allocated_def p by (auto simp: ba)
qed

section \<open>Waiting for a block\<close>

lemma rt_set_errno_ok:
  assumes "kinv {} k"
  shows "kinv {} (rt_set_errno e k)" "queues (rt_set_errno e k) = queues k"
    "current_thread (rt_set_errno e k) = current_thread k" "objs (rt_set_errno e k) = objs k"
  using upd_thread_kinv [OF assms, of "\<lambda>th. th\<lparr>error := e\<rparr>"] assms
  by (auto simp: rt_set_errno_def split: option.splits)

lemma mp_alloc_take:
  assumes "mp_wf i M" "block_free_count (pools M i) \<noteq> 0"
  shows "\<exists>b M'. mp_alloc_try i self loc (k, M) = Some (Done (Some b), loc, k, M') \<and> mp_wf i M'
     \<and> b \<notin> fst ` mp_allocated i M \<and> mp_allocated i M' = insert (b, mp_block_size (pools M i)) (mp_allocated i M)
     \<and> block_free_count (pools M' i) = block_free_count (pools M i) - 1
     \<and> mp_block_size (pools M' i) = mp_block_size (pools M i)"
proof -
  obtain b M' where b: "mp_take i M = Some (b, M')" "mp_wf i M'"
     "block_free_count (pools M' i) = block_free_count (pools M i) - 1"
     "b \<notin> fst ` mp_allocated i M" "mp_allocated i M' = insert (b, mp_block_size (pools M i)) (mp_allocated i M)"
     "mp_block_size (pools M' i) = mp_block_size (pools M i)"
    using mp_take_ok [OF assms] by blast
  have "mp_alloc_try i self loc (k, M) = Some (Done (Some b), loc, k, M')"
    using assms(2) b(1) by (cases loc) (simp add: mp_alloc_try_def)
  then show ?thesis using b by blast
qed

lemma mp_alloc_blocks:
  assumes inv: "kinv {} k" and run: "running k t" and nest: "interrupt_nest k = 0" and tm: "time_ok time" "time \<noteq> 0"
    and none: "block_free_count (pools M i) = 0"
  shows "\<exists>k' b. mp_alloc_try i (Some t) (time, before) (k, M) = Some (Wait, (time, b), k', M)
     \<and> blocked (SuspendQ i) t WAIT_LIFO time (clear_error t k) k'"
proof -
  note c = clear_error_ok [OF inv run]
  let ?k = "clear_error t k"
  have h: "SuspendQ i = SuspendQ i \<or> SuspendQ i = SenderQ i" by simp
  have susp: "rt_thread_suspend t ?k = Some (RT_EOK, suspended t ?k)" by (rule suspend_running(1) [OF c])
  have wait: "suspended t ?k\<lparr>queues := q_insert_after (SuspendQ i) t (queues (suspended t ?k))\<rparr>
      = waiting (SuspendQ i) t WAIT_LIFO ?k"
    by (simp add: waiting_def Let_def enlist_def q_insert_after_def)
  obtain k' where k': "rt_schedule (wait_state (SuspendQ i) t WAIT_LIFO time ?k) = Some k'"
      "blocked (SuspendQ i) t WAIT_LIFO time ?k k'"
    using switch_away [OF c h tm(1)] by blast
  have "RT_DEBUG_NOT_IN_INTERRUPT k = Some ()"
    using nest by (simp add: RT_DEBUG_NOT_IN_INTERRUPT_def rt_interrupt_get_nest_def)
  then show ?thesis
    using none tm(2) susp wait wait_state_ok(2) [OF c h tm(1), of WAIT_LIFO] k'
    by (simp add: mp_alloc_try_def Let_def)
qed

lemma mp_free_wakes:
  assumes inv: "kinv {} k" and cur: "current_thread k \<noteq> None" and wf: "mp_wf i M" and b: "(b, n) \<in> mp_allocated i M"
  shows "\<exists>k' M'. rt_mp_free (Some b) (k, M) = Some (k', M') \<and> kinv {} k' \<and> mp_wf i M'
     \<and> mp_allocated i M' = mp_allocated i M - {(b, n)}
     \<and> block_free_count (pools M' i) = block_free_count (pools M i) + 1
     \<and> mp_block_size (pools M' i) = mp_block_size (pools M i) \<and> mp_give b M = Some (i, M')
     \<and> (case queues k (SuspendQ i) of [] \<Rightarrow> k' = k | t # _ \<Rightarrow> woken (SuspendQ i) t (clear_error t k) k')"
proof -
  obtain M' where M': "mp_give b M = Some (i, M')" "mp_wf i M'" "mp_allocated i M' = mp_allocated i M - {(b, n)}"
      "block_free_count (pools M' i) = block_free_count (pools M i) + 1"
      "mp_block_size (pools M' i) = mp_block_size (pools M i)"
    using mp_give_ok [OF wf b] by blast
  show ?thesis
  proof (cases "queues k (SuspendQ i)")
    case Nil
    then show ?thesis using M' inv by (simp add: rt_mp_free_def)
  next
    case (Cons t ts)
    let ?k = "clear_error t k"
    have k: "kinv {} ?k" unfolding clear_error_def by (rule upd_thread_kinv [OF inv]) simp_all
    have q: "queues ?k (SuspendQ i) = t # ts" using Cons by simp
    obtain c where c: "current_thread ?k = Some c" using cur by auto
    have "rt_thread_resume t ?k = Some (RT_EOK, resumed t ?k)"
      using resume_waiter(1) [OF k, of t "SuspendQ i" i] q by simp
    moreover obtain k' where k': "rt_schedule (resumed t ?k) = Some k'" "woken (SuspendQ i) t ?k k'"
      using resume_schedule [OF k _ q c] by auto
    ultimately have "rt_mp_free (Some b) (k, M) = Some (k', M')"
      using Cons M'(1) by (simp add: rt_mp_free_def Let_def)
    then show ?thesis using M' k'(2) Cons by (auto simp: woken_def)
  qed
qed


section \<open>The contract of the pool\<close>

text \<open>The pool as an allocator for a thread that does not wait: \<open>rt_mp_alloc\<close> with no time and
  \<open>rt_mp_free\<close>, on the blocks alone.\<close>

definition pool_alloc :: "oid \<Rightarrow> kernel \<Rightarrow> unit \<Rightarrow> mp_mem \<Rightarrow> (nat option \<times> mp_mem) option" where
  "pool_alloc i k n M =
     (case rt_mp_alloc_start i 0 (k, M) of Some (Done r, _, _, M) \<Rightarrow> Some (r, M) | _ \<Rightarrow> None)"

definition pool_free :: "kernel \<Rightarrow> nat \<Rightarrow> mp_mem \<Rightarrow> mp_mem option" where
  "pool_free k b M = map_option snd (rt_mp_free (Some b) (k, M))"

definition pool_run ::
    "oid \<Rightarrow> kernel \<Rightarrow> unit alloc_op list \<Rightarrow> nat list \<Rightarrow> mp_mem \<Rightarrow> (nat list \<times> mp_mem) option" where
  "pool_run i k = alloc_run (pool_alloc i k) (pool_free k)"

interpretation pool: block_allocator "\<lambda>M. kinv {} k \<and> current_thread k \<noteq> None \<and> mp_wf i M \<and> mp_block_size (pools M i) = n"
    "mp_allocated i" "\<lambda>_. n" "pool_alloc i k" "pool_free k"
  for i k n
proof unfold_locales
  fix M assume "kinv {} k \<and> current_thread k \<noteq> None \<and> mp_wf i M \<and> mp_block_size (pools M i) = n"
  then show "no_overlap (mp_allocated i M)" "inj_on fst (mp_allocated i M)" by (simp_all add: mp_allocated_ok)
next
  fix M x assume M: "kinv {} k \<and> current_thread k \<noteq> None \<and> mp_wf i M \<and> mp_block_size (pools M i) = n"
  show "\<exists>r M'. pool_alloc i k x M = Some (r, M')
      \<and> (kinv {} k \<and> current_thread k \<noteq> None \<and> mp_wf i M' \<and> mp_block_size (pools M' i) = n)
      \<and> (case r of None \<Rightarrow> mp_allocated i M' = mp_allocated i M
         | Some p \<Rightarrow> p \<notin> fst ` mp_allocated i M \<and> (\<exists>m \<ge> n. mp_allocated i M' = insert (p, m) (mp_allocated i M)))"
  proof (cases "block_free_count (pools M i) = 0")
    case True
    then show ?thesis using M by (simp add: pool_alloc_def rt_mp_alloc_start_def mp_alloc_try_def)
  next
    case False
    then obtain b M' where "mp_alloc_try i (rt_thread_self k) (0, 0) (k, M) = Some (Done (Some b), (0, 0), k, M')"
        "mp_wf i M'" "b \<notin> fst ` mp_allocated i M"
        "mp_allocated i M' = insert (b, mp_block_size (pools M i)) (mp_allocated i M)"
        "mp_block_size (pools M' i) = mp_block_size (pools M i)"
      using mp_alloc_take [of i M] M by blast
    then show ?thesis using M by (auto simp: pool_alloc_def rt_mp_alloc_start_def)
  qed
next
  fix M p m
  assume M: "kinv {} k \<and> current_thread k \<noteq> None \<and> mp_wf i M \<and> mp_block_size (pools M i) = n"
    and p: "(p, m) \<in> mp_allocated i M"
  then show "\<exists>M'. pool_free k p M = Some M'
      \<and> (kinv {} k \<and> current_thread k \<noteq> None \<and> mp_wf i M' \<and> mp_block_size (pools M' i) = n)
      \<and> mp_allocated i M' = mp_allocated i M - {(p, m)}"
    using mp_free_wakes [of k i M p m] by (fastforce simp: pool_free_def)
qed


text \<open>The block given back is the one the next request gets.\<close>

lemma mp_give_take:
  assumes "mp_give b M = Some (i, M')"
  shows "\<exists>M''. mp_take i M' = Some (b, M'')"
  using assms by (auto simp: mp_give_def mp_take_def Let_def split: if_splits mp_word.splits)

text \<open>A thread that was woken without an error tries again.\<close>

lemma wake_gets_block:
  assumes "mp_give b M = Some (i, M')" "mp_wf i M'" "block_free_count (pools M' i) \<noteq> 0" "error (threads k t) = RT_EOK"
  shows "\<exists>M'' loc'. rt_mp_alloc_wake i t loc (k, M') = Some (Done (Some b), loc', k, M'')
     \<and> mp_wf i M'' \<and> mp_allocated i M'' = insert (b, mp_block_size (pools M' i)) (mp_allocated i M')"
proof -
  obtain b' M'' where
    a: "mp_alloc_try i (Some t) (ipc_remaining (fst loc) (snd loc) (tick k), snd loc) (k, M')
      = Some (Done (Some b'), (ipc_remaining (fst loc) (snd loc) (tick k), snd loc), k, M'')"
    "mp_wf i M''" "mp_allocated i M'' = insert (b', mp_block_size (pools M' i)) (mp_allocated i M')"
    using mp_alloc_take [OF assms(2,3)] by blast
  obtain N where "mp_take i M' = Some (b, N)" using mp_give_take [OF assms(1)] by blast
  then have "b' = b" using a(1) assms(3) by (simp add: mp_alloc_try_def)
  then show ?thesis using a assms(4) by (simp add: rt_mp_alloc_wake_def)
qed

section \<open>Properties\<close>

text \<open>A pool of two blocks of four bytes.\<close>

definition ex_mp :: mp_mem where
  "ex_mp = mp_link_blocks 0 \<lparr>pools = (\<lambda>_. \<lparr>start_address = 64, mp_size = 16, mp_block_size = 4, block_list = None,
      block_total_count = 2, block_free_count = 2\<rparr>), words = (\<lambda>_. Next None)\<rparr>"

lemma ex_mp_ok:
  "mp_wf 0 ex_mp" "mp_allocated 0 ex_mp = {}" "block_free_count (pools ex_mp 0) = 2" "mp_block_size (pools ex_mp 0) = 4"
  unfolding ex_mp_def
  by (rule mp_link_blocks_ok [where c = 2], simp_all add: stride_def)+ (simp_all add: mp_link_blocks_def Let_def)

text \<open>
  C23. \<open>rt_mp_alloc\<close>. With a free block it takes one that is not in use and nothing else
  changes. Without one, a call that may not wait returns null with the thread's error set
  to \<open>-RT_ETIMEOUT\<close>, and any other call suspends the thread at the \<open>head\<close> of the waiting list,
  with its timer armed when the time is positive. The pool stays well-formed and the
  kernel consistent.
\<close>

theorem rt_mp_alloc_correct:
  assumes "kinv {} k" "running k t" "interrupt_nest k = 0" "time_ok time" "mp_wf i M"
  shows "\<exists>r loc k' M'. rt_mp_alloc_start i time (k, M) = Some (r, loc, k', M') \<and> kinv {} k' \<and> mp_wf i M'
     \<and> (if block_free_count (pools M i) \<noteq> 0
        then k' = k \<and> (\<exists>b. r = Done (Some b) \<and> b \<notin> fst ` mp_allocated i M
               \<and> mp_allocated i M' = insert (b, mp_block_size (pools M i)) (mp_allocated i M))
        else M' = M \<and>
          (if time = 0
           then r = Done None \<and> error (threads k' t) = - RT_ETIMEOUT \<and> queues k' = queues k
           else r = Wait \<and> queues k' (SuspendQ i) = t # queues k (SuspendQ i)
             \<and> blocked (SuspendQ i) t WAIT_LIFO time (clear_error t k) k'))"
proof -
  have self: "rt_thread_self k = Some t" using assms(2) by (simp add: running_def rt_thread_self_def)
  show ?thesis
  proof (cases "block_free_count (pools M i) = 0")
    case False
    obtain b M' where "mp_alloc_try i (Some t) (time, 0) (k, M) = Some (Done (Some b), (time, 0), k, M')" "mp_wf i M'"
        "b \<notin> fst ` mp_allocated i M" "mp_allocated i M' = insert (b, mp_block_size (pools M i)) (mp_allocated i M)"
      using mp_alloc_take [OF assms(5) False] by blast
    then show ?thesis using assms(1) False self by (simp add: rt_mp_alloc_start_def)
  next
    case free: True
    show ?thesis
    proof (cases "time = 0")
      case True
      then show ?thesis
        using free self assms(1,3,5) rt_set_errno_ok [OF assms(1)]
        by (simp add: rt_mp_alloc_start_def mp_alloc_try_def)
           (simp add: rt_set_errno_def rt_interrupt_get_nest_def)
    next
      case False
      obtain k' b where k': "mp_alloc_try i (Some t) (time, 0) (k, M) = Some (Wait, (time, b), k', M)"
          "blocked (SuspendQ i) t WAIT_LIFO time (clear_error t k) k'"
        using mp_alloc_blocks [OF assms(1-4) False free] by blast
      then have "kinv {} k'" "queues k' (SuspendQ i) = t # queues k (SuspendQ i)"
        by (simp_all add: blocked_def enlist_def)
      then show ?thesis using k' assms(5) free False self by (simp add: rt_mp_alloc_start_def)
    qed
  qed
qed

theorem rt_mp_alloc_correct_witness:
  "\<exists>b loc k M. rt_mp_alloc_start 0 5 (ex_kernel, ex_mp) = Some (Done (Some b), loc, k, M) \<and> mp_allocated 0 M = {(b, 4)}"
  using rt_mp_alloc_correct [OF ex_kinv ex_running, of 5 0 ex_mp] ex_mp_ok by (auto simp: time_ok_def)

text \<open>
  C24. \<open>rt_mp_free\<close> of a block in use puts it back; a waiter is made ready with no error and no
  timer, and as long as nobody takes the block before it runs, the rest of its \<open>rt_mp_alloc\<close>
  returns this very block. The loop of the first waiter therefore ends.
\<close>

theorem rt_mp_free_hands_over:
  assumes "kinv {} k" "current_thread k \<noteq> None" "mp_wf i M" "(b, n) \<in> mp_allocated i M"
  shows "\<exists>k' M'. rt_mp_free (Some b) (k, M) = Some (k', M') \<and> kinv {} k' \<and> mp_wf i M'
     \<and> mp_allocated i M' = mp_allocated i M - {(b, n)}
     \<and> (case queues k (SuspendQ i) of
          [] \<Rightarrow> k' = k
        | t # ts \<Rightarrow> queues k' (SuspendQ i) = ts \<and> tstate (threads k' t) \<in> {RT_THREAD_READY, RT_THREAD_RUNNING}
            \<and> ThreadTimer t \<notin> set (tlists k' HardList)
            \<and> (\<forall>loc. \<exists>loc' M''. rt_mp_alloc_wake i t loc (k', M') = Some (Done (Some b), loc', k', M'')
                 \<and> mp_allocated i M'' = mp_allocated i M))"
proof -
  obtain k' M' where f: "rt_mp_free (Some b) (k, M) = Some (k', M')" "kinv {} k'" "mp_wf i M'"
      "mp_allocated i M' = mp_allocated i M - {(b, n)}"
      "block_free_count (pools M' i) = block_free_count (pools M i) + 1"
      "mp_block_size (pools M' i) = mp_block_size (pools M i)" "mp_give b M = Some (i, M')"
      "case queues k (SuspendQ i) of [] \<Rightarrow> k' = k | t # _ \<Rightarrow> woken (SuspendQ i) t (clear_error t k) k'"
    using mp_free_wakes [OF assms] by blast
  have n: "n = mp_block_size (pools M' i)" using assms(4) f(6) by (auto simp: mp_allocated_def)
  show ?thesis
  proof (cases "queues k (SuspendQ i)")
    case (Cons t ts)
    then have w: "woken (SuspendQ i) t (clear_error t k) k'" using f(8) by simp
    then have e: "error (threads k' t) = RT_EOK" by (simp add: woken_def clear_error_def)
    have "\<exists>loc' M''. rt_mp_alloc_wake i t loc (k', M') = Some (Done (Some b), loc', k', M'')
                 \<and> mp_allocated i M'' = mp_allocated i M" for loc
      using wake_gets_block [OF f(7,3) _ e, of loc] f(4,5) assms(4) n by (auto simp: insert_absorb)
    then show ?thesis using f w Cons by (simp add: woken_def)
  qed (use f in simp)
qed

theorem rt_mp_free_hands_over_witness:
  "\<exists>b k M k' M'. rt_mp_alloc_start 0 5 (ex_kernel, ex_mp) = Some (Done (Some b), (5, 0), k, M)
     \<and> rt_mp_free (Some b) (k, M) = Some (k', M') \<and> mp_allocated 0 M' = {}"
proof -
  have "block_free_count (pools ex_mp 0) \<noteq> 0" using ex_mp_ok by simp
  from mp_alloc_take [OF ex_mp_ok(1) this, of "Some 0" "(5, 0)" ex_kernel] obtain b M where
    a: "mp_alloc_try 0 (Some 0) (5, 0) (ex_kernel, ex_mp) = Some (Done (Some b), (5, 0), ex_kernel, M)" "mp_wf 0 M"
    "mp_allocated 0 M = {(b, 4)}" using ex_mp_ok by auto
  have "(b, 4) \<in> mp_allocated 0 M" using a(3) by simp
  from rt_mp_free_hands_over [OF ex_kinv _ a(2) this] a show ?thesis
    by (auto simp: rt_mp_alloc_start_def rt_thread_self_def)
qed

text \<open>
  Any sequence of requests and releases on a pool runs without an error; at its end the
  client holds exactly the blocks the pool counts as in use, and they do not overlap.
\<close>

theorem rt_mp_run_safe:
  assumes "kinv {} k" "current_thread k \<noteq> None" "mp_wf i M" "mp_allocated i M = {}"
  shows "\<exists>ps M'. pool_run i k ops [] M = Some (ps, M') \<and> mp_wf i M' \<and> distinct ps
     \<and> set ps = fst ` mp_allocated i M' \<and> no_overlap (mp_allocated i M')"
  using pool.run_safe [of k i M "mp_block_size (pools M i)" "[]" ops] assms unfolding pool_run_def by auto

theorem rt_mp_run_safe_witness:
  "\<exists>ps M. pool_run 0 ex_kernel [Alloc (), Alloc (), Release 1, Alloc (), Alloc ()] [] ex_mp = Some (ps, M) \<and> mp_wf 0 M"
  using rt_mp_run_safe [OF ex_kinv _ ex_mp_ok(1,2)] by fastforce


text \<open>
  \<open>rt_mp_init\<close> divides the rounded size by the rounded block size plus the link word. With
  room for at least one block it yields a well-formed pool of that many free blocks, all of
  them inside the region. With room for none it returns \<open>RT_EOK\<close> all the same, and has
  written the null link one block \<open>before\<close> the region.
\<close>

theorem rt_mp_init_bounds:
  assumes "sched_inv {} k" "obj_inv k" "lock_ok k" "detached (container k) (OIpc i)"
    and "0 < sz" "0 < bsize" "unat bsize + 7 < 2 ^ 32" "start + unat sz < 2 ^ 32"
    and "bs = (unat bsize + 7) div 8 * 8" "n = unat sz div 8 * 8 div (bs + 4)"
  shows "\<exists>k' M'. rt_mp_init i name start sz bsize (k, M) = Some (RT_EOK, k', M')
     \<and> rt_object_get_type (OIpc i) k' = RT_Object_Class_MemPool \<and> block_total_count (pools M' i) = n
     \<and> (if 0 < n
        then mp_wf i M' \<and> mp_allocated i M' = {}
          \<and> (\<forall>a \<in> block_addrs (pools M' i). start \<le> a \<and> a + 4 + bs \<le> start + unat sz)
        else words M' = (words M)((start + (2 ^ 32 - 1) * (bs + 4)) mod 2 ^ 32 := Next None))"
proof -
  obtain k1 where k1: "rt_object_init (OIpc i) RT_Object_Class_MemPool name k = Some k1"
      "rt_object_get_type (OIpc i) k1 = RT_Object_Class_MemPool"
    using rt_object_init_ok [OF assms(1-3), of RT_Object_Class_MemPool "OIpc i" name] assms(4) by auto
  define m where "m = (pools M i)\<lparr>start_address := start, mp_size := unat sz div 8 * 8, mp_block_size := bs,
      block_total_count := n, block_free_count := n\<rparr>"
  define N where "N = upd_pool i (\<lambda>_. m) M"
  have N: "pools N i = m" "words N = words M" by (simp_all add: N_def)
  have m: "start_address m = start" "mp_block_size m = bs" "block_total_count m = n" "block_free_count m = n"
    "stride m = bs + 4" by (simp_all add: m_def stride_def)
  have "unat (RT_ALIGN bsize 8) = bs" using RT_ALIGN_unat [OF assms(7)] assms(9) by simp
  then have e: "rt_mp_init i name start sz bsize (k, M) = Some (RT_EOK, rt_ipc_object_init i k1, mp_link_blocks i N)"
    using k1(1) assms(5,6,10) by (simp add: rt_mp_init_def RT_ALIGN_DOWN_unat Let_def m_def N_def upd_pool_def)
  have t: "rt_object_get_type (OIpc i) (rt_ipc_object_init i k1) = RT_Object_Class_MemPool"
    using k1(2) by (simp add: rt_ipc_object_init_def rt_object_get_type_def)
  have p: "pools (mp_link_blocks i N) i = m\<lparr>block_list := Some start\<rparr>"
    by (simp add: mp_link_blocks_def Let_def N m)
  have "0 < bs" using assms(6,9) unat_gt_0 [of bsize] by (simp add: word_neq_0_conv)
  have "n * (bs + 4) \<le> unat sz div 8 * 8" unfolding assms(10) by (rule div_times_less_eq_dividend)
  then have sz: "n * (bs + 4) \<le> unat sz" using div_times_less_eq_dividend [of "unat sz" 8] by linarith
  show ?thesis
  proof (cases "0 < n")
    case True
    have "start_address (pools N i) + n * stride (pools N i) < 2 ^ 32" using sz assms(8) unfolding N m by linarith
    from mp_link_blocks_ok [OF _ _ True _ this] have "mp_wf i (mp_link_blocks i N)" "mp_allocated i (mp_link_blocks i N) = {}"
      using \<open>0 < bs\<close> by (simp_all add: N m)
    moreover have "start \<le> a \<and> a + 4 + bs \<le> start + unat sz" if a: "a \<in> block_addrs m" for a
    proof -
      obtain j where j: "j < n" "a = start + j * (bs + 4)" using a by (auto simp: block_addrs_def m)
      have "Suc j * (bs + 4) \<le> n * (bs + 4)" using j(1) by (intro mult_le_mono1) simp
      then show ?thesis using j(2) sz by simp
    qed
    ultimately show ?thesis using e t True by (simp add: p m)
  next
    case False
    then have "words (mp_link_blocks i N) = (words M)((start + (2 ^ 32 - 1) * (bs + 4)) mod 2 ^ 32 := Next None)"
      by (simp add: mp_link_blocks_def Let_def N m)
    then show ?thesis using e t False by (simp add: p m)
  qed
qed

theorem rt_mp_init_bounds_witness:
  "\<exists>k M. rt_mp_init 7 ''mp'' 64 24 4 (ex_kernel, ex_mp) = Some (RT_EOK, k, M) \<and> mp_wf 7 M
     \<and> block_total_count (pools M 7) = 2"
proof -
  have "detached (container ex_kernel) (OIpc 7)" by (simp add: detached_def)
  note init = rt_mp_init_bounds [OF ex_sched_inv ex_obj_inv ex_lock_ok this]
  have "(0::u32) < 24" "(0::u32) < 4" "unat (4::u32) + 7 < 2 ^ 32" "64 + unat (24::u32) < 2 ^ 32"
    "8 = (unat (4::u32) + 7) div 8 * 8" "2 = unat (24::u32) div 8 * 8 div (8 + 4)" by simp_all
  from init [OF this, of "''mp''" ex_mp] obtain k M where
    "rt_mp_init 7 ''mp'' 64 24 4 (ex_kernel, ex_mp) = Some (RT_EOK, k, M)" "block_total_count (pools M 7) = 2"
    "if 0 < (2::nat) then mp_wf 7 M \<and> mp_allocated 7 M = {}
          \<and> (\<forall>a \<in> block_addrs (pools M 7). 64 \<le> a \<and> a + 4 + 8 \<le> 64 + unat (24::u32))
        else words M = (words ex_mp)((64 + (2 ^ 32 - 1) * (8 + 4)) mod 2 ^ 32 := Next None)" by blast
  then show ?thesis by auto
qed

text \<open>
  \<open>rt_mp_detach\<close> of a static pool: every waiting thread is ready, and what is left of its
  \<open>rt_mp_alloc\<close> returns null; nobody else is touched and the kernel stays consistent.
\<close>

theorem rt_mp_detach_wakes_all:
  assumes "kinv {} k" "rt_object_get_type (OIpc i) k = RT_Object_Class_MemPool" "rt_object_is_systemobject (OIpc i) k"
  shows "\<exists>k'. rt_mp_detach i (k, M) = Some (RT_EOK, k', M) \<and> kinv {} k' \<and> queues k' (SuspendQ i) = []
     \<and> (\<forall>s. if s \<in> set (queues k (SuspendQ i))
            then rt_mp_alloc_wake i s loc (k', M) = Some (Done None, loc, k', M) \<and> cancelled k' s
            else threads k' s = threads k s)"
proof -
  obtain k1 where k1: "rt_ipc_list_resume_all (SuspendQ i) k = Some k1" "all_woken (SuspendQ i) k k1"
    using resume_all_ok [OF assms(1)] by blast
  let ?k' = "rt_object_detach (OIpc i) k1"
  note a = all_wokenD [OF k1(2)]
  have e: "rt_mp_detach i (k, M) = Some (RT_EOK, ?k', M)"
    using assms(2,3) k1(1) by (simp add: rt_mp_detach_def assert_ipc_def)
  have w: "cancelled ?k' s = cancelled k1 s"
      "cancelled k1 s \<Longrightarrow> rt_mp_alloc_wake i s loc (?k', M) = Some (Done None, loc, ?k', M)" for s
    by (simp_all add: cancelled_def rt_mp_alloc_wake_def tlists_rt_object_detach)
  have "kinv {} ?k'" "queues ?k' (SuspendQ i) = []" using a(1,4) by (simp_all add: kinv_rt_object_detach)
  moreover have "if s \<in> set (queues k (SuspendQ i))
      then rt_mp_alloc_wake i s loc (?k', M) = Some (Done None, loc, ?k', M) \<and> cancelled ?k' s
      else threads ?k' s = threads k s" for s
    using a(6) [of s] w by (simp split: if_splits)
  ultimately show ?thesis using e by blast
qed

end
