(* ===== verification/RT_String.thy ===== *)
theory RT_String
  imports RT_Prelude
begin

text \<open>
  The memory and string functions of \<open>src/kservice.c\<close> on a memory that is a list of bytes:
  an address is an index (so the list starts at an aligned address), and an access outside
  the list is \<open>None\<close>. Words are stored with the low byte first, a \<open>char\<close> is unsigned, as on
  the RISC-V target. The functions that work on whole words are shown to do what the
  byte-wise definition does.
\<close>

type_synonym mem = "u8 list"

section \<open>Accesses\<close>

definition peek :: "nat \<Rightarrow> mem \<Rightarrow> u8 option" where
  "peek a m = (if a < length m then Some (m ! a) else None)"

definition poke :: "nat \<Rightarrow> u8 \<Rightarrow> mem \<Rightarrow> mem option" where
  "poke a v m = (if a < length m then Some (m[a := v]) else None)"

definition word_bytes :: "u32 \<Rightarrow> u8 list" where
  "word_bytes w = [ucast w, ucast (drop_bit 8 w), ucast (drop_bit 16 w), ucast (drop_bit 24 w)]"

definition poke_word :: "nat \<Rightarrow> u32 \<Rightarrow> mem \<Rightarrow> mem option" where
  "poke_word a w m = (if a + 4 \<le> length m then Some (blit m a (word_bytes w)) else None)"

text \<open>\<open>*aligned_dst++ = *aligned_src++\<close>: four bytes are read before they are stored.\<close>

definition move_word :: "nat \<Rightarrow> nat \<Rightarrow> mem \<Rightarrow> mem option" where
  "move_word d s m =
     (if d + 4 \<le> length m \<and> s + 4 \<le> length m then Some (blit m d (take 4 (drop s m))) else None)"

section \<open>Filling and copying\<close>

fun memset_bytes :: "nat \<Rightarrow> u8 \<Rightarrow> nat \<Rightarrow> mem \<Rightarrow> mem option" where
  "memset_bytes a d 0 m = Some m"
| "memset_bytes a d (Suc n) m = do { m \<leftarrow> poke a d m; memset_bytes (Suc a) d n m }"

fun memset_words :: "nat \<Rightarrow> u32 \<Rightarrow> nat \<Rightarrow> mem \<Rightarrow> (nat \<times> nat \<times> mem) option" where
  "memset_words a buffer n m =
     (if 4 \<le> n then do { m \<leftarrow> poke_word a buffer m; memset_words (a + 4) buffer (n - 4) m }
      else Some (a, n, m))"

fun memset_blocks :: "nat \<Rightarrow> u32 \<Rightarrow> nat \<Rightarrow> mem \<Rightarrow> (nat \<times> nat \<times> mem) option" where
  "memset_blocks a buffer n m =
     (if 16 \<le> n
      then do { m \<leftarrow> poke_word a buffer m; m \<leftarrow> poke_word (a + 4) buffer m;
                m \<leftarrow> poke_word (a + 8) buffer m; m \<leftarrow> poke_word (a + 12) buffer m;
                memset_blocks (a + 16) buffer (n - 16) m }
      else Some (a, n, m))"

definition rt_memset :: "nat \<Rightarrow> u32 \<Rightarrow> nat \<Rightarrow> mem \<Rightarrow> mem option" where
  "rt_memset s c n m =
     (let d = c AND 0xff
      in if \<not> n < 4 \<and> s mod 4 = 0
         then do { let buffer = push_bit 8 d OR d;
                   let buffer = buffer OR push_bit 16 buffer;
                   (a, n, m) \<leftarrow> memset_blocks s buffer n m;
                   (a, n, m) \<leftarrow> memset_words a buffer n m;
                   memset_bytes a (ucast d) n m }
         else memset_bytes s (ucast d) n m)"

fun memcpy_bytes :: "nat \<Rightarrow> nat \<Rightarrow> nat \<Rightarrow> mem \<Rightarrow> mem option" where
  "memcpy_bytes d s 0 m = Some m"
| "memcpy_bytes d s (Suc n) m =
     do { v \<leftarrow> peek s m; m \<leftarrow> poke d v m; memcpy_bytes (Suc d) (Suc s) n m }"

fun memcpy_words :: "nat \<Rightarrow> nat \<Rightarrow> nat \<Rightarrow> mem \<Rightarrow> (nat \<times> nat \<times> nat \<times> mem) option" where
  "memcpy_words d s n m =
     (if 4 \<le> n then do { m \<leftarrow> move_word d s m; memcpy_words (d + 4) (s + 4) (n - 4) m }
      else Some (d, s, n, m))"

fun memcpy_blocks :: "nat \<Rightarrow> nat \<Rightarrow> nat \<Rightarrow> mem \<Rightarrow> (nat \<times> nat \<times> nat \<times> mem) option" where
  "memcpy_blocks d s n m =
     (if 16 \<le> n
      then do { m \<leftarrow> move_word d s m; m \<leftarrow> move_word (d + 4) (s + 4) m;
                m \<leftarrow> move_word (d + 8) (s + 8) m; m \<leftarrow> move_word (d + 12) (s + 12) m;
                memcpy_blocks (d + 16) (s + 16) (n - 16) m }
      else Some (d, s, n, m))"

definition rt_memcpy :: "nat \<Rightarrow> nat \<Rightarrow> nat \<Rightarrow> mem \<Rightarrow> mem option" where
  "rt_memcpy dst src len m =
     (if \<not> len < 16 \<and> src mod 4 = 0 \<and> dst mod 4 = 0
      then do { (d, s, n, m) \<leftarrow> memcpy_blocks dst src len m;
                (d, s, n, m) \<leftarrow> memcpy_words d s n m;
                memcpy_bytes d s n m }
      else memcpy_bytes dst src len m)"

fun memmove_down :: "nat \<Rightarrow> nat \<Rightarrow> nat \<Rightarrow> mem \<Rightarrow> mem option" where
  "memmove_down tmp s 0 m = Some m"
| "memmove_down tmp s (Suc n) m =
     do { v \<leftarrow> peek (s - 1) m; m \<leftarrow> poke (tmp - 1) v m; memmove_down (tmp - 1) (s - 1) n m }"

definition rt_memmove :: "nat \<Rightarrow> nat \<Rightarrow> nat \<Rightarrow> mem \<Rightarrow> mem option" where
  "rt_memmove dest src n m =
     (if src < dest \<and> dest < src + n then memmove_down (dest + n) (src + n) n m
      else memcpy_bytes dest src n m)"

fun rt_memcmp :: "nat \<Rightarrow> nat \<Rightarrow> nat \<Rightarrow> mem \<Rightarrow> int option" where
  "rt_memcmp cs ct 0 m = Some 0"
| "rt_memcmp cs ct (Suc n) m =
     do { x \<leftarrow> peek cs m; y \<leftarrow> peek ct m;
          let res = uint x - uint y;
          if res \<noteq> 0 then Some res else rt_memcmp (Suc cs) (Suc ct) n m }"

section \<open>Strings\<close>

text \<open>The scans run to the end of the memory if no zero stops them.\<close>

function rt_strlen :: "nat \<Rightarrow> mem \<Rightarrow> nat option" where
  "rt_strlen s m =
     (if s < length m
      then if m ! s \<noteq> 0 then do { n \<leftarrow> rt_strlen (Suc s) m; Some (Suc n) } else Some 0
      else None)"
  by pat_completeness auto
termination by (relation "measure (\<lambda>(s, m). length m - s)") auto

text \<open>The loop of \<open>rt_strnlen\<close> reads before it looks at the limit; \<open>n\<close> is \<open>maxlen - (sc - s)\<close>.\<close>

function rt_strnlen :: "nat \<Rightarrow> nat \<Rightarrow> mem \<Rightarrow> nat option" where
  "rt_strnlen s n m =
     (if s < length m
      then if m ! s \<noteq> 0 \<and> 0 < n then do { k \<leftarrow> rt_strnlen (Suc s) (n - 1) m; Some (Suc k) } else Some 0
      else None)"
  by pat_completeness auto
termination by (relation "measure (\<lambda>(s, n, m). length m - s)") auto

function rt_strcmp :: "nat \<Rightarrow> nat \<Rightarrow> mem \<Rightarrow> int option" where
  "rt_strcmp cs ct m =
     (if cs < length m
      then do { y \<leftarrow> peek ct m;
                if m ! cs \<noteq> 0 \<and> m ! cs = y then rt_strcmp (Suc cs) (Suc ct) m
                else Some (uint (m ! cs) - uint y) }
      else None)"
  by pat_completeness auto
termination by (relation "measure (\<lambda>(cs, ct, m). length m - cs)") auto

definition lower :: "int \<Rightarrow> int" where
  "lower c = (if 65 \<le> c \<and> c \<le> 90 then c + 32 else c)"

function rt_strcasecmp :: "nat \<Rightarrow> nat \<Rightarrow> mem \<Rightarrow> int option" where
  "rt_strcasecmp a b m =
     (if a < length m
      then do { y \<leftarrow> peek b m;
                let ca = lower (uint (m ! a));
                let cb = lower (uint y);
                if ca = cb \<and> ca \<noteq> 0 then rt_strcasecmp (Suc a) (Suc b) m else Some (ca - cb) }
      else None)"
  by pat_completeness auto
termination by (relation "measure (\<lambda>(a, b, m). length m - a)") auto

text \<open>\<open>rt_strncpy\<close>: the loop that copies, and the inner one that pads.\<close>

fun strncpy_loop :: "nat \<Rightarrow> nat \<Rightarrow> nat \<Rightarrow> mem \<Rightarrow> mem option" where
  "strncpy_loop d s 0 m = Some m"
| "strncpy_loop d s (Suc n) m =
     do { v \<leftarrow> peek s m; m \<leftarrow> poke d v m;
          if v = 0 then memset_bytes (Suc d) 0 n m else strncpy_loop (Suc d) (Suc s) n m }"

definition rt_strncpy :: "nat \<Rightarrow> nat \<Rightarrow> nat \<Rightarrow> mem \<Rightarrow> mem option" where
  "rt_strncpy dst src n m = (if n \<noteq> 0 then strncpy_loop dst src n m else Some m)"

text \<open>\<open>rt_strstr\<close>: \<open>None\<close> inside the result is the null pointer.\<close>

function strstr_loop :: "nat \<Rightarrow> nat \<Rightarrow> int \<Rightarrow> int \<Rightarrow> mem \<Rightarrow> nat option option" where
  "strstr_loop s1 s2 l1 l2 m =
     (if l2 \<le> l1
      then do { r \<leftarrow> rt_memcmp s1 s2 (nat l2) m;
                if r = 0 then Some (Some s1) else strstr_loop (Suc s1) s2 (l1 - 1) l2 m }
      else Some None)"
  by pat_completeness auto
termination by (relation "measure (\<lambda>(s1, s2, l1, l2, m). nat (l1 - l2 + 1))") auto

declare strstr_loop.simps [simp del]

definition rt_strstr :: "nat \<Rightarrow> nat \<Rightarrow> mem \<Rightarrow> nat option option" where
  "rt_strstr s1 s2 m =
     do { l2 \<leftarrow> rt_strlen s2 m;
          if l2 = 0 then Some (Some s1)
          else do { l1 \<leftarrow> rt_strlen s1 m; strstr_loop s1 s2 (int l1) (int l2) m } }"

declare memset_words.simps [simp del] memset_blocks.simps [simp del]
  memcpy_words.simps [simp del] memcpy_blocks.simps [simp del] rt_strlen.simps [simp del]
  rt_strnlen.simps [simp del] rt_strcmp.simps [simp del] rt_strcasecmp.simps [simp del]

section \<open>What the functions do\<close>

subsection \<open>Filling\<close>

lemma blit_blit:
  "a + length xs + length ys \<le> length m \<Longrightarrow> b = a + length xs \<Longrightarrow>
     blit (blit m a xs) b ys = blit m a (xs @ ys)"
  by (simp add: blit_def ac_simps)

lemma poke_blit: "a < length m \<Longrightarrow> poke a v m = Some (blit m a [v])"
  by (simp add: poke_def blit_def upd_conv_take_nth_drop)

lemma memset_bytes_blit: "a + n \<le> length m \<Longrightarrow> memset_bytes a d n m = Some (blit m a (replicate n d))"
  by (induction n arbitrary: a m) (simp_all add: poke_blit blit_blit)

lemma length_word_bytes [simp]: "length (word_bytes w) = 4"
  by (simp add: word_bytes_def)

lemma poke_word_blit: "a + 4 \<le> length m \<Longrightarrow> poke_word a w m = Some (blit m a (word_bytes w))"
  by (simp add: poke_word_def)

lemma replicate_blocks: "replicate 4 d @ replicate (4 * k) d = replicate (4 * Suc k) d"
  by (simp flip: replicate_add)

lemma memset_words_blit:
  assumes "word_bytes w = replicate 4 d" and "a + n \<le> length m"
  shows "memset_words a w n m =
           Some (a + 4 * (n div 4), n mod 4, blit m a (replicate (4 * (n div 4)) d))"
  using assms(2)
proof (induction n arbitrary: a m rule: less_induct)
  case (less n)
  show ?case
  proof (cases "4 \<le> n")
    case True
    let ?m = "blit m a (replicate 4 d)"
    have len: "a + 4 \<le> length m" "a + 4 + (n - 4) \<le> length ?m"
      using less.prems True by simp_all
    have "memset_words a w n m = memset_words (a + 4) w (n - 4) ?m"
      using True len assms(1) by (simp add: memset_words.simps [of a] poke_word_blit)
    also have "\<dots> = Some (a + 4 + 4 * ((n - 4) div 4), (n - 4) mod 4,
                        blit ?m (a + 4) (replicate (4 * ((n - 4) div 4)) d))"
      by (rule less.IH) (use True len in simp_all)
    also have "(n - 4) mod 4 = n mod 4" using True by (simp add: le_mod_geq)
    also have n: "n div 4 = Suc ((n - 4) div 4)" using True by (simp add: le_div_geq)
    have "blit ?m (a + 4) (replicate (4 * ((n - 4) div 4)) d) = blit m a (replicate (4 * (n div 4)) d)"
      using less.prems True by (subst blit_blit) (auto simp: n replicate_blocks)
    finally show ?thesis by (simp add: n)
  next
    case False
    then show ?thesis by (simp add: memset_words.simps [of a])
  qed
qed

lemma memset_block:
  assumes "word_bytes w = replicate 4 d" and "a + 16 \<le> length m" and "16 \<le> n"
  shows "memset_blocks a w n m = memset_blocks (a + 16) w (n - 16) (blit m a (replicate 16 d))"
proof -
  have "do { m \<leftarrow> poke_word a w m; m \<leftarrow> poke_word (a + 4) w m; m \<leftarrow> poke_word (a + 8) w m;
             poke_word (a + 12) w m } = Some (blit m a (replicate 16 d))"
    using assms(1,2) by (simp add: poke_word_blit blit_blit flip: replicate_add)
  then show ?thesis
    using assms(3) by (auto simp: memset_blocks.simps [of a] bind_eq_Some_conv)
qed

lemma memset_blocks_blit:
  assumes "word_bytes w = replicate 4 d" and "a + n \<le> length m"
  shows "memset_blocks a w n m =
           Some (a + 16 * (n div 16), n mod 16, blit m a (replicate (16 * (n div 16)) d))"
  using assms(2)
proof (induction n arbitrary: a m rule: less_induct)
  case (less n)
  show ?case
  proof (cases "16 \<le> n")
    case True
    let ?m = "blit m a (replicate 16 d)"
    have len: "a + 16 \<le> length m" "a + 16 + (n - 16) \<le> length ?m"
      using less.prems True by simp_all
    have n: "n div 16 = Suc ((n - 16) div 16)" using True by (simp add: le_div_geq)
    have "memset_blocks a w n m = memset_blocks (a + 16) w (n - 16) ?m"
      by (rule memset_block) (use True len assms(1) in simp_all)
    also have "\<dots> = Some (a + 16 + 16 * ((n - 16) div 16), (n - 16) mod 16,
                        blit ?m (a + 16) (replicate (16 * ((n - 16) div 16)) d))"
      by (rule less.IH) (use True len in simp_all)
    also have "(n - 16) mod 16 = n mod 16" using True by (simp add: le_mod_geq)
    also have "blit ?m (a + 16) (replicate (16 * ((n - 16) div 16)) d)
                 = blit m a (replicate (16 * (n div 16)) d)"
      using less.prems True by (subst blit_blit) (auto simp: n simp flip: replicate_add)
    finally show ?thesis by (simp add: n)
  next
    case False
    then show ?thesis by (simp add: memset_blocks.simps [of a])
  qed
qed

lemma low_byte: "(c::u32) AND 0xff = take_bit 8 c"
  by (simp add: take_bit_eq_mask mask_eq_exp_minus_1)

lemma replicate_4: "replicate 4 x = [x, x, x, x]"
  by (simp add: numeral_eq_Suc)

lemma memset_word:
  fixes d :: u32
  assumes "d = take_bit 8 c"
  shows "word_bytes (push_bit 8 d OR d OR push_bit 16 (push_bit 8 d OR d)) = replicate 4 (ucast d)"
proof -
  have no: "\<not> bit d n" if "8 \<le> n" for n using that assms by (simp add: bit_take_bit_iff)
  show ?thesis
    unfolding word_bytes_def replicate_4
    by (auto intro!: bit_word_eqI simp: bit_ucast_iff bit_or_iff bit_push_bit_iff bit_drop_bit_eq no)
qed

text \<open>\<open>rt_memset\<close> fills exactly the \<open>n\<close> bytes with the low byte of \<open>c\<close>, word-wise or not.\<close>

lemma rt_memset_fills:
  assumes "s + n \<le> length m"
  shows "rt_memset s c n m = Some (blit m s (replicate n (ucast c)))"
proof -
  let ?d = "c AND 0xff"
  let ?w = "push_bit 8 ?d OR ?d OR push_bit 16 (push_bit 8 ?d OR ?d)"
  have c: "ucast ?d = (ucast c :: u8)"
    unfolding low_byte by (auto intro!: bit_word_eqI simp: bit_simps)
  have w: "word_bytes ?w = replicate 4 (ucast ?d)" by (rule memset_word) (rule low_byte)
  let ?k = "16 * (n div 16)"
  let ?j = "4 * (n mod 16 div 4)"
  have k: "?k + (n mod 16) = n" "?j + n mod 16 mod 4 = n mod 16" by simp_all
  let ?m = "blit m s (replicate ?k (ucast ?d))"
  let ?m' = "blit ?m (s + ?k) (replicate ?j (ucast ?d))"
  have fit: "s + ?k + n mod 16 \<le> length ?m" using assms k(1) by simp
  have j: "s + ?k + ?j \<le> length m" using assms k by linarith
  have fit': "s + ?k + ?j + n mod 16 mod 4 \<le> length ?m'"
  proof -
    have "length ?m = length m" by (rule length_blit) (use assms in simp)
    moreover have "length ?m' = length ?m" by (rule length_blit) (use j calculation in simp)
    ultimately show ?thesis using assms k by linarith
  qed
  have "blit ?m' (s + ?k + ?j) (replicate (n mod 16 mod 4) (ucast ?d)) = blit m s (replicate n (ucast ?d))"
    using assms k by (simp add: blit_blit flip: replicate_add)
  then have "do { (a, n, m) \<leftarrow> memset_blocks s ?w n m; (a, n, m) \<leftarrow> memset_words a ?w n m;
                  memset_bytes a (ucast ?d) n m } = Some (blit m s (replicate n (ucast ?d)))"
    using memset_blocks_blit [OF w assms] memset_words_blit [OF w fit] memset_bytes_blit [OF fit']
    by simp
  then show ?thesis
    using memset_bytes_blit [OF assms, of "ucast ?d"] by (simp add: rt_memset_def Let_def c ac_simps)
qed

subsection \<open>Copying\<close>

text \<open>Copying a part and then the rest of a block is copying the block, if the parts are
  taken in an order that never overwrites what is still to be read.\<close>

abbreviation moved :: "nat \<Rightarrow> nat \<Rightarrow> nat \<Rightarrow> mem \<Rightarrow> mem" where
  "moved d s n m \<equiv> blit m d (take n (drop s m))"

definition forward_ok :: "nat \<Rightarrow> nat \<Rightarrow> nat \<Rightarrow> bool" where
  "forward_ok d s n \<longleftrightarrow> d \<le> s \<or> s + n \<le> d"

lemma length_moved [simp]:
  "d + n \<le> length m \<Longrightarrow> s + n \<le> length m \<Longrightarrow> length (moved d s n m) = length m"
  by simp

lemma nth_moved:
  assumes "d + n \<le> length m" and "s + n \<le> length m" and "k < length m"
  shows "moved d s n m ! k = (if d \<le> k \<and> k < d + n then m ! (s + (k - d)) else m ! k)"
  using assms by (subst nth_blit) auto

lemma moved_moved:
  assumes "forward_ok d s n" and "d + n \<le> length m" and "s + n \<le> length m" and "k \<le> n"
  shows "moved (d + k) (s + k) (n - k) (moved d s k m) = moved d s n m"
proof (rule nth_equalityI)
  have len: "length (moved d s k m) = length m" using assms by (intro length_moved) simp_all
  then show "length (moved (d + k) (s + k) (n - k) (moved d s k m)) = length (moved d s n m)"
    using assms by (subst length_moved) simp_all
  fix i assume "i < length (moved (d + k) (s + k) (n - k) (moved d s k m))"
  then have i: "i < length m" using assms len by (subst (asm) length_moved) simp_all
  show "moved (d + k) (s + k) (n - k) (moved d s k m) ! i = moved d s n m ! i"
  proof (cases "d + k \<le> i \<and> i < d + n")
    case True
    then have "moved (d + k) (s + k) (n - k) (moved d s k m) ! i = moved d s k m ! (s + (i - d))"
      using assms len i by (subst nth_moved) auto
    also have "\<dots> = m ! (s + (i - d))"
      using True assms i by (subst nth_moved) (auto simp: forward_ok_def)
    finally show ?thesis using True assms i by (subst (2) nth_moved) auto
  next
    case False
    then have "moved (d + k) (s + k) (n - k) (moved d s k m) ! i = moved d s k m ! i"
      using assms len i by (subst nth_moved) auto
    then show ?thesis using False assms i by (simp add: nth_moved)
  qed
qed

lemma memcpy_bytes_moved:
  "forward_ok d s n \<Longrightarrow> d + n \<le> length m \<Longrightarrow> s + n \<le> length m \<Longrightarrow>
     memcpy_bytes d s n m = Some (moved d s n m)"
proof (induction n arbitrary: d s m)
  case (Suc n)
  have one: "poke d (m ! s) m = Some (moved d s 1 m)"
    using Suc.prems by (simp add: poke_blit take_Suc hd_drop_conv_nth)
  have "memcpy_bytes d s (Suc n) m = memcpy_bytes (d + 1) (s + 1) n (moved d s 1 m)"
    using Suc.prems one by (simp add: peek_def)
  also have "\<dots> = Some (moved (d + 1) (s + 1) (Suc n - 1) (moved d s 1 m))"
    using Suc.prems by (subst Suc.IH) (auto simp: forward_ok_def)
  finally show ?case using moved_moved [OF Suc.prems, of 1] by simp
qed simp

lemma move_word_moved: "d + 4 \<le> length m \<Longrightarrow> s + 4 \<le> length m \<Longrightarrow> move_word d s m = Some (moved d s 4 m)"
  by (simp add: move_word_def)

lemma memcpy_words_moved:
  "forward_ok d s n \<Longrightarrow> d + n \<le> length m \<Longrightarrow> s + n \<le> length m \<Longrightarrow>
     memcpy_words d s n m =
       Some (d + 4 * (n div 4), s + 4 * (n div 4), n mod 4, moved d s (4 * (n div 4)) m)"
proof (induction n arbitrary: d s m rule: less_induct)
  case (less n)
  show ?case
  proof (cases "4 \<le> n")
    case True
    let ?k = "4 * ((n - 4) div 4)"
    have n: "4 * (n div 4) = 4 + ?k" using True by (simp add: le_div_geq)
    have le: "4 + ?k \<le> n" using True by presburger
    have "memcpy_words d s n m = memcpy_words (d + 4) (s + 4) (n - 4) (moved d s 4 m)"
      using True less.prems by (simp add: memcpy_words.simps [of d] move_word_moved)
    also have "\<dots> = Some (d + 4 + ?k, s + 4 + ?k, (n - 4) mod 4,
                        moved (d + 4) (s + 4) ?k (moved d s 4 m))"
      by (rule less.IH) (use True less.prems in \<open>auto simp: forward_ok_def\<close>)
    also have "moved (d + 4) (s + 4) ?k (moved d s 4 m) = moved d s (4 + ?k) m"
      using moved_moved [of d s "4 + ?k" m 4] less.prems le by (auto simp: forward_ok_def)
    also have "(n - 4) mod 4 = n mod 4" using True by (simp add: le_mod_geq)
    finally show ?thesis unfolding n by (simp add: add.assoc)
  next
    case False
    then show ?thesis by (simp add: memcpy_words.simps [of d])
  qed
qed

lemma memcpy_block:
  assumes "forward_ok d s n" and "d + n \<le> length m" and "s + n \<le> length m" and "16 \<le> n"
  shows "memcpy_blocks d s n m = memcpy_blocks (d + 16) (s + 16) (n - 16) (moved d s 16 m)"
proof -
  have step: "moved (d + k) (s + k) 4 (moved d s k m) = moved d s (k + 4) m" if "k + 4 \<le> 16" for k
    using moved_moved [of d s "k + 4" m k] that assms by (auto simp: forward_ok_def)
  have "move_word (d + k) (s + k) (moved d s k m) = Some (moved d s (k + 4) m)" if "k + 4 \<le> 16" for k
    using that assms by (subst move_word_moved) (simp_all add: step)
  from this [of 0] this [of 4] this [of 8] this [of 12] show ?thesis
    using assms(4) by (simp add: memcpy_blocks.simps [of d])
qed

lemma memcpy_blocks_moved:
  "forward_ok d s n \<Longrightarrow> d + n \<le> length m \<Longrightarrow> s + n \<le> length m \<Longrightarrow>
     memcpy_blocks d s n m =
       Some (d + 16 * (n div 16), s + 16 * (n div 16), n mod 16, moved d s (16 * (n div 16)) m)"
proof (induction n arbitrary: d s m rule: less_induct)
  case (less n)
  show ?case
  proof (cases "16 \<le> n")
    case True
    let ?k = "16 * ((n - 16) div 16)"
    have n: "16 * (n div 16) = 16 + ?k" using True by (simp add: le_div_geq)
    have le: "16 + ?k \<le> n" using True by presburger
    have "memcpy_blocks d s n m = memcpy_blocks (d + 16) (s + 16) (n - 16) (moved d s 16 m)"
      using True less.prems by (intro memcpy_block)
    also have "\<dots> = Some (d + 16 + ?k, s + 16 + ?k, (n - 16) mod 16,
                        moved (d + 16) (s + 16) ?k (moved d s 16 m))"
      by (rule less.IH) (use True less.prems in \<open>auto simp: forward_ok_def\<close>)
    also have "moved (d + 16) (s + 16) ?k (moved d s 16 m) = moved d s (16 + ?k) m"
      using moved_moved [of d s "16 + ?k" m 16] less.prems le by (auto simp: forward_ok_def)
    also have "(n - 16) mod 16 = n mod 16" using True by (simp add: le_mod_geq)
    finally show ?thesis unfolding n by (simp add: add.assoc)
  next
    case False
    then show ?thesis by (simp add: memcpy_blocks.simps [of d])
  qed
qed

lemma memcpy_stages:
  assumes "forward_ok d s n" and "d + n \<le> length m" and "s + n \<le> length m"
    and k: "k + r = n" and j: "j + r' = r"
    and blocks: "memcpy_blocks d s n m = Some (d + k, s + k, r, moved d s k m)"
    and words: "memcpy_words (d + k) (s + k) r (moved d s k m) =
                  Some (d + k + j, s + k + j, r', moved (d + k) (s + k) j (moved d s k m))"
  shows "do { (d, s, n, m) \<leftarrow> memcpy_blocks d s n m; (d, s, n, m) \<leftarrow> memcpy_words d s n m;
              memcpy_bytes d s n m } = Some (moved d s n m)"
proof -
  let ?m = "moved d s (k + j) m"
  have m: "moved (d + k) (s + k) j (moved d s k m) = ?m"
    using moved_moved [of d s "k + j" m k] assms(1-3) k j by (auto simp: forward_ok_def)
  have "length ?m = length m" by (rule length_moved) (use assms(2,3) k j in simp_all)
  then have "memcpy_bytes (d + k + j) (s + k + j) r' ?m = Some (moved (d + k + j) (s + k + j) r' ?m)"
    by (intro memcpy_bytes_moved) (use assms(1-3) k j in \<open>auto simp: forward_ok_def\<close>)
  also have "moved (d + k + j) (s + k + j) r' ?m = moved d s n m"
  proof -
    have "k + j \<le> n" "n - (k + j) = r'" using k j by simp_all
    then show ?thesis using moved_moved [OF assms(1-3), of "k + j"] by (simp add: add.assoc)
  qed
  finally show ?thesis using blocks words m by simp
qed

lemma rt_memcpy_moved:
  assumes ok: "forward_ok d s n" "d + n \<le> length m" "s + n \<le> length m"
  shows "rt_memcpy d s n m = Some (moved d s n m)"
proof -
  let ?k = "16 * (n div 16)"
  have k: "?k + n mod 16 = n" by simp
  have "length (moved d s ?k m) = length m" by (rule length_moved) (use ok k in linarith)+
  then have words: "memcpy_words (d + ?k) (s + ?k) (n mod 16) (moved d s ?k m) =
      Some (d + ?k + 4 * (n mod 16 div 4), s + ?k + 4 * (n mod 16 div 4), n mod 16 mod 4,
            moved (d + ?k) (s + ?k) (4 * (n mod 16 div 4)) (moved d s ?k m))"
    using ok k unfolding forward_ok_def by (intro memcpy_words_moved) (auto simp: forward_ok_def)
  show ?thesis
    unfolding rt_memcpy_def
    using memcpy_stages [OF ok k mult_div_mod_eq memcpy_blocks_moved [OF ok] words]
      memcpy_bytes_moved [OF ok] by simp
qed

text \<open>C37. The word-wise \<open>rt_memcpy\<close> is the byte loop it replaces, whenever the target does not
  start inside the source: both succeed, with the source block, as it was before the call, at
  the target and every other byte unchanged.\<close>

theorem rt_memcpy_equals_byte_copy:
  assumes "dst \<le> src \<or> src + n \<le> dst" and "dst + n \<le> length m" and "src + n \<le> length m"
  shows "rt_memcpy dst src n m = memcpy_bytes dst src n m \<and>
         rt_memcpy dst src n m = Some (blit m dst (take n (drop src m)))"
  using rt_memcpy_moved memcpy_bytes_moved assms by (simp_all add: forward_ok_def)

theorem rt_memcpy_equals_byte_copy_witness:
  "rt_memcpy 0 16 16 (map of_nat [0..<32]) = memcpy_bytes 0 16 16 (map of_nat [0..<32]) \<and>
   rt_memcpy 0 16 16 (map of_nat [0..<32])
     = Some (blit (map of_nat [0..<32]) 0 (take 16 (drop 16 (map of_nat [0..<32]))))"
  by (rule rt_memcpy_equals_byte_copy) simp_all

lemma memmove_down_moved:
  "s \<le> d \<Longrightarrow> d + n \<le> length m \<Longrightarrow> memmove_down (d + n) (s + n) n m = Some (moved d s n m)"
proof (induction n arbitrary: m)
  case (Suc n)
  let ?m = "m[d + n := m ! (s + n)]"
  have "memmove_down (d + Suc n) (s + Suc n) (Suc n) m = memmove_down (d + n) (s + n) n ?m"
    using Suc.prems by (simp add: peek_def poke_def)
  also have "\<dots> = Some (moved d s n ?m)" by (rule Suc.IH) (use Suc.prems in simp_all)
  also have "moved d s n ?m = moved d s (Suc n) m"
  proof (rule nth_equalityI)
    fix k assume "k < length (moved d s n ?m)"
    then have "k < length m" using Suc.prems by simp
    then show "moved d s n ?m ! k = moved d s (Suc n) m ! k"
      using Suc.prems by (subst (1 2) nth_moved) (auto simp: nth_list_update)
  qed (use Suc.prems in simp)
  finally show ?case .
qed simp

lemma rt_memmove_moved:
  assumes "d + n \<le> length m" and "s + n \<le> length m"
  shows "rt_memmove d s n m = Some (moved d s n m)"
  using memmove_down_moved [of s d n m] memcpy_bytes_moved [of d s n m] assms
  by (auto simp: rt_memmove_def forward_ok_def)

subsection \<open>Comparing\<close>

lemma byte_diff [simp]: "uint (a::u8) = uint b \<longleftrightarrow> a = b"
  by (fact word_uint_eq_iff [symmetric])

lemma byte_zero [simp]: "uint (a::u8) = 0 \<longleftrightarrow> a = 0"
  by (metis byte_diff unsigned_0)

lemma rt_memcmp_differs:
  "cs + n \<le> length m \<Longrightarrow> ct + n \<le> length m \<Longrightarrow> k < n \<Longrightarrow> m ! (cs + k) \<noteq> m ! (ct + k) \<Longrightarrow>
   (\<forall>j < k. m ! (cs + j) = m ! (ct + j)) \<Longrightarrow>
     rt_memcmp cs ct n m = Some (uint (m ! (cs + k)) - uint (m ! (ct + k)))"
proof (induction n arbitrary: cs ct k)
  case (Suc n)
  show ?case
  proof (cases k)
    case 0
    then show ?thesis using Suc.prems by (simp add: peek_def Let_def)
  next
    case (Suc j)
    then have "m ! cs = m ! ct" using Suc.prems(5) by (auto dest: spec [of _ 0])
    moreover have "\<forall>i < j. m ! (Suc cs + i) = m ! (Suc ct + i)"
      using Suc Suc.prems(5) by (auto dest: spec [of _ "Suc i" for i])
    ultimately show ?thesis
      using Suc.IH [of "Suc cs" "Suc ct" j] Suc.prems Suc by (simp add: peek_def Let_def)
  qed
qed simp

lemma rt_memcmp_equal:
  "cs + n \<le> length m \<Longrightarrow> ct + n \<le> length m \<Longrightarrow> (\<forall>j < n. m ! (cs + j) = m ! (ct + j)) \<Longrightarrow>
     rt_memcmp cs ct n m = Some 0"
proof (induction n arbitrary: cs ct)
  case (Suc n)
  have "m ! cs = m ! ct" using Suc.prems(3) by (auto dest: spec [of _ 0])
  moreover have "\<forall>i < n. m ! (Suc cs + i) = m ! (Suc ct + i)"
    using Suc.prems(3) by (auto dest: spec [of _ "Suc i" for i])
  ultimately show ?case using Suc.IH [of "Suc cs" "Suc ct"] Suc.prems by (simp add: peek_def Let_def)
qed simp

lemma rt_memcmp_zero:
  assumes "cs + n \<le> length m" and "ct + n \<le> length m"
  shows "\<exists>r. rt_memcmp cs ct n m = Some r \<and> (r = 0 \<longleftrightarrow> take n (drop cs m) = take n (drop ct m))"
proof (cases "\<forall>j < n. m ! (cs + j) = m ! (ct + j)")
  case True
  moreover have "take n (drop cs m) = take n (drop ct m)"
    using True assms by (intro nth_equalityI) simp_all
  ultimately show ?thesis using rt_memcmp_equal [OF assms] by simp
next
  case False
  define k where "k = (LEAST j. j < n \<and> m ! (cs + j) \<noteq> m ! (ct + j))"
  from False have "\<exists>j. j < n \<and> m ! (cs + j) \<noteq> m ! (ct + j)" by blast
  then have k: "k < n \<and> m ! (cs + k) \<noteq> m ! (ct + k)" unfolding k_def by (rule LeastI_ex)
  have before: "\<forall>j < k. m ! (cs + j) = m ! (ct + j)"
    using not_less_Least k unfolding k_def by (metis (mono_tags, lifting) order_less_trans)
  have "take n (drop cs m) ! k \<noteq> take n (drop ct m) ! k" using k assms by simp
  then have "take n (drop cs m) \<noteq> take n (drop ct m)" by metis
  then show ?thesis
    using rt_memcmp_differs [OF assms _ _ before] k by simp
qed

subsection \<open>Strings\<close>

text \<open>A terminated string of \<open>n\<close> characters at \<open>s\<close>.\<close>

definition terminated :: "nat \<Rightarrow> nat \<Rightarrow> mem \<Rightarrow> bool" where
  "terminated s n m \<longleftrightarrow> s + n < length m \<and> m ! (s + n) = 0 \<and> 0 \<notin> set (take n (drop s m))"

lemma cstring_0: "terminated s 0 m \<longleftrightarrow> s < length m \<and> m ! s = 0"
  by (simp add: terminated_def)

lemma cstring_Suc: "terminated s (Suc n) m \<longleftrightarrow> s < length m \<and> m ! s \<noteq> 0 \<and> terminated (Suc s) n m"
proof (cases "s < length m")
  case True
  then have "take (Suc n) (drop s m) = m ! s # take n (drop (Suc s) m)"
    by (simp flip: Cons_nth_drop_Suc)
  then show ?thesis using True by (auto simp: terminated_def)
qed (simp add: terminated_def)

lemma rt_strlen_cstring: "terminated s n m \<Longrightarrow> rt_strlen s m = Some n"
  by (induction n arbitrary: s)
    (simp_all add: rt_strlen.simps [of s for s] cstring_0 cstring_Suc)

lemma cstring_rt_strlen: "rt_strlen s m = Some n \<Longrightarrow> terminated s n m"
proof (induction n arbitrary: s)
  case 0
  then show ?case
    by (subst (asm) rt_strlen.simps) (auto simp: cstring_0 bind_eq_Some_conv split: if_splits)
next
  case (Suc n)
  then show ?case
    by (subst (asm) rt_strlen.simps) (auto simp: cstring_Suc bind_eq_Some_conv split: if_splits)
qed

lemma rt_strnlen_cstring: "terminated s n m \<Longrightarrow> rt_strnlen s l m = Some (min n l)"
proof (induction n arbitrary: s l)
  case 0
  then show ?case by (simp add: rt_strnlen.simps [of s] cstring_0)
next
  case (Suc n)
  then show ?case by (cases l) (simp_all add: rt_strnlen.simps [of s] cstring_Suc)
qed

text \<open>The comment of \<open>rt_strnlen\<close> promises that only the first \<open>maxlen\<close> characters are looked
  at; the loop reads the one after them. On a full buffer at the end of the memory that is an
  access outside.\<close>

lemma rt_strnlen_reads_past:
  "s + l = length m \<Longrightarrow> 0 \<notin> set (drop s m) \<Longrightarrow> rt_strnlen s l m = None"
proof (induction l arbitrary: s)
  case (Suc l)
  then have "drop s m = m ! s # drop (Suc s) m" by (simp add: Cons_nth_drop_Suc)
  then have "m ! s \<noteq> 0" "0 \<notin> set (drop (Suc s) m)" using Suc.prems(2) by auto
  then show ?case using Suc by (simp add: rt_strnlen.simps [of s])
qed (simp add: rt_strnlen.simps)

text \<open>\<open>rt_strstr\<close> returns the first place of the one string at which the other stands.\<close>

lemma strstr_loop_find:
  "s1 + l1 \<le> length m \<Longrightarrow> s2 + l2 \<le> length m \<Longrightarrow>
     strstr_loop s1 s2 (int l1) (int l2) m =
       Some (find (\<lambda>p. take l2 (drop p m) = take l2 (drop s2 m)) [s1..<s1 + l1 + 1 - l2])"
proof (induction l1 arbitrary: s1)
  case 0
  then show ?case
    using rt_memcmp_zero [of s1 0 m s2] by (cases l2) (auto simp: strstr_loop.simps [of s1])
next
  case (Suc l1)
  show ?case
  proof (cases "l2 \<le> Suc l1")
    case True
    obtain r where r: "rt_memcmp s1 s2 l2 m = Some r"
      "r = 0 \<longleftrightarrow> take l2 (drop s1 m) = take l2 (drop s2 m)"
      using rt_memcmp_zero [of s1 l2 m s2] Suc.prems True by auto
    have up: "[s1..<s1 + Suc l1 + 1 - l2] = s1 # [Suc s1..<Suc s1 + l1 + 1 - l2]"
      using True by (subst upt_conv_Cons) simp_all
    show ?thesis
      unfolding up using Suc.IH [of "Suc s1"] Suc.prems r True
      by (simp add: strstr_loop.simps [of s1])
  next
    case False
    then show ?thesis by (simp add: strstr_loop.simps [of s1])
  qed
qed

text \<open>On terminated strings \<open>rt_strstr\<close> returns a pointer to the first occurrence of the second
  in the first, and the null pointer exactly when there is none; it reads nothing outside them.\<close>

theorem rt_strstr_first_occurrence:
  assumes "terminated s1 l1 m" and "terminated s2 l2 m"
  shows "rt_strstr s1 s2 m =
           Some (find (\<lambda>p. take l2 (drop p m) = take l2 (drop s2 m)) [s1..<s1 + l1 + 1 - l2])"
proof -
  have le: "s1 + l1 \<le> length m" "s2 + l2 \<le> length m" using assms by (simp_all add: terminated_def)
  have up: "[s1..<s1 + l1 + 1] = s1 # [Suc s1..<s1 + l1 + 1]" by (subst upt_conv_Cons) simp_all
  show ?thesis
    using strstr_loop_find [OF le] up
    by (simp add: rt_strstr_def rt_strlen_cstring [OF assms(1)] rt_strlen_cstring [OF assms(2)])
qed

theorem rt_strstr_first_occurrence_witness:
  "rt_strstr 0 4 [97, 98, 98, 0, 98, 0] = Some (Some 1)"
  by (subst rt_strstr_first_occurrence [where ?l1.0 = 3 and ?l2.0 = 1]) (simp_all add: terminated_def upt_rec)

text \<open>\<open>rt_strcmp\<close> on two terminated strings: zero exactly for equal ones, and otherwise the
  difference at the first place where they differ.\<close>

lemma rt_strcmp_zero:
  "terminated cs n m \<Longrightarrow> terminated ct k m \<Longrightarrow>
     \<exists>r. rt_strcmp cs ct m = Some r \<and> (r = 0 \<longleftrightarrow> take n (drop cs m) = take k (drop ct m))"
proof (induction n arbitrary: cs ct k)
  case 0
  then show ?case
    by (cases k) (auto simp: rt_strcmp.simps [of cs] cstring_0 cstring_Suc peek_def)
next
  case (Suc n)
  note cs = Suc.prems(1) [unfolded cstring_Suc]
  have head: "take (Suc n) (drop cs m) = m ! cs # take n (drop (Suc cs) m)"
    using cs by (simp flip: Cons_nth_drop_Suc)
  show ?case
  proof (cases k)
    case 0
    then show ?thesis
      using Suc.prems(2) cs unfolding head by (simp add: rt_strcmp.simps [of cs] cstring_0 peek_def)
  next
    case (Suc j)
    note ct = Suc.prems(2) [unfolded Suc cstring_Suc]
    have head': "take (Suc j) (drop ct m) = m ! ct # take j (drop (Suc ct) m)"
      using ct by (simp flip: Cons_nth_drop_Suc)
    show ?thesis
      using Suc.IH [of "Suc cs" "Suc ct" j] cs ct unfolding Suc head head'
      by (cases "m ! cs = m ! ct") (simp_all add: rt_strcmp.simps [of cs] peek_def)
  qed
qed

text \<open>\<open>rt_strncpy\<close> fills all \<open>n\<close> bytes of the target: the characters that fit and zeros behind a
  shorter string. A string of \<open>n\<close> or more characters is cut without a zero.\<close>

lemma strncpy_loop_fills:
  "terminated s l m \<Longrightarrow> d + n \<le> length m \<Longrightarrow> forward_ok d s (Suc l) \<Longrightarrow>
     strncpy_loop d s n m = Some (blit m d (take n (take l (drop s m) @ replicate (n - l) 0)))"
proof (induction l arbitrary: d s n m)
  case 0
  show ?case
  proof (cases n)
    case (Suc k)
    then have "strncpy_loop d s n m = memset_bytes (Suc d) 0 k (blit m d [0])"
      using 0 by (simp add: cstring_0 peek_def poke_blit)
    also have "\<dots> = Some (blit m d (replicate n 0))"
      using 0 Suc by (subst memset_bytes_blit) (simp_all add: blit_blit)
    finally show ?thesis by simp
  qed simp
next
  case (Suc l)
  note s = Suc.prems(1) [unfolded cstring_Suc]
  show ?case
  proof (cases n)
    case (Suc k)
    let ?m = "blit m d [m ! s]"
    let ?c = "take k (take l (drop (Suc s) m) @ replicate (k - l) 0)"
    have d: "d < length m" using Suc Suc.prems by simp
    have same: "take l (drop (Suc s) ?m) = take l (drop (Suc s) m)" "?m ! (Suc s + l) = m ! (Suc s + l)"
      using s d Suc.prems(3) by (auto simp: terminated_def forward_ok_def nth_blit intro!: nth_equalityI)
    then have "terminated (Suc s) l ?m" using s d by (simp add: terminated_def)
    then have "strncpy_loop (Suc d) (Suc s) k ?m = Some (blit ?m (Suc d) ?c)"
      using Suc.IH [of "Suc s" ?m "Suc d" k] Suc Suc.prems d same
      by (auto simp: forward_ok_def)
    moreover have "strncpy_loop d s n m = strncpy_loop (Suc d) (Suc s) k ?m"
      using s d Suc by (simp add: peek_def poke_blit)
    moreover have "blit ?m (Suc d) ?c = blit m d (m ! s # ?c)"
      using Suc Suc.prems(2) by (subst blit_blit) auto
    moreover have "take (Suc l) (drop s m) = m ! s # take l (drop (Suc s) m)"
      using s by (simp flip: Cons_nth_drop_Suc)
    ultimately show ?thesis by (simp add: Suc)
  qed simp
qed

lemma rt_strncpy_fills:
  assumes "terminated s l m" and "d + n \<le> length m" and "forward_ok d s (Suc l)"
  shows "rt_strncpy d s n m = Some (blit m d (take n (take l (drop s m) @ replicate (n - l) 0)))"
  using strncpy_loop_fills [OF assms] by (simp add: rt_strncpy_def)

end
