(* ===== verification/RT_Printf.thy ===== *)
theory RT_Printf
  imports RT_Prelude
begin

text \<open>
  The formatted output of \<open>src/kservice.c\<close>: \<open>rt_vsnprintf\<close> and the functions around it, in the
  repository's configuration (precisions, no \<open>#\<close> prefixes, no \<open>long long\<close>, 32-bit \<open>long\<close>).
  The memory maps addresses to characters; a format or a string argument is the list of its
  characters before the terminating zero. The arguments are a list; taking one that is not
  there, or of the other type, is undefined in C and \<open>None\<close> here, and so is an \<open>int\<close> that
  overflows: widths, precisions and the counters of the loops are 32-bit \<open>int\<close>s. The cursor
  \<open>str\<close> is a 32-bit pointer, which wraps around; the length that is returned is the difference
  of two pointers as an \<open>rt_int32_t\<close>.
\<close>

section \<open>Numbers\<close>

type_synonym char_mem = "nat \<Rightarrow> char"

text \<open>What an \<open>int\<close> can hold; a signed operation with another result is undefined.\<close>

definition fits :: "int \<Rightarrow> bool" where
  "fits x \<longleftrightarrow> - (2 ^ 31) \<le> x \<and> x < 2 ^ 31"

definition c_int :: "int \<Rightarrow> int option" where
  "c_int x = (if fits x then Some x else None)"

text \<open>The cursor \<open>str\<close> and the memory. Every store of the code is \<open>if (str < end) *str = c\<close>
  followed by \<open>++ str\<close>.\<close>

type_synonym outp = "nat \<times> char_mem"

definition put :: "nat \<Rightarrow> char \<Rightarrow> outp \<Rightarrow> outp" where
  "put e c = (\<lambda>(str, m). ((str + 1) mod 2 ^ 32, if str < e then m(str := c) else m))"

definition ZEROPAD :: u8 where "ZEROPAD = push_bit 0 1"
definition SIGN :: u8 where "SIGN = push_bit 1 1"
definition PLUS :: u8 where "PLUS = push_bit 2 1"
definition SPACE :: u8 where "SPACE = push_bit 3 1"
definition LEFT :: u8 where "LEFT = push_bit 4 1"
definition SPECIAL :: u8 where "SPECIAL = push_bit 5 1"
definition LARGE :: u8 where "LARGE = push_bit 6 1"

definition isdigit :: "char \<Rightarrow> bool" where
  "isdigit c \<longleftrightarrow> 48 \<le> (of_char c :: int) \<and> (of_char c :: int) < 58"

definition divide :: "u32 \<Rightarrow> nat \<Rightarrow> nat \<times> u32" where
  "divide n base = (if base = 10 then (unat (n mod 10), n div 10) else (unat (n mod 16), n div 16))"

text \<open>The sum \<open>i * 10 + c\<close> is made before \<open>'0'\<close> is taken off, and must be an \<open>int\<close>.\<close>

fun skip_atoi :: "int \<Rightarrow> string \<Rightarrow> (int \<times> string) option" where
  "skip_atoi i [] = Some (i, [])"
| "skip_atoi i (c # s) =
     (if isdigit c
      then if fits (i * 10) \<and> fits (i * 10 + of_char c) then skip_atoi (i * 10 + of_char c - 48) s
           else None
      else Some (i, c # s))"

definition small_digits :: string where "small_digits = ''0123456789abcdef''"
definition large_digits :: string where "large_digits = ''0123456789ABCDEF''"

lemma div_smaller: "(num::u32) \<noteq> 0 \<Longrightarrow> 1 < unat d \<Longrightarrow> unat (num div d) < unat num"
  by (simp add: unat_div_distrib unat_gt_0)

text \<open>The loop that fills \<open>tmp\<close>, lowest digit first.\<close>

function digits_loop :: "string \<Rightarrow> nat \<Rightarrow> u32 \<Rightarrow> string" where
  "digits_loop digits base num =
     (if num \<noteq> 0 then case divide num base of (r, num) \<Rightarrow> (digits ! r) # digits_loop digits base num
      else [])"
  by pat_completeness auto
termination
  by (relation "measure (\<lambda>(digits, base, num). unat num)")
    (auto simp: divide_def split: if_splits intro!: div_smaller)

declare digits_loop.simps [simp del]

definition digits_of :: "string \<Rightarrow> nat \<Rightarrow> u32 \<Rightarrow> string" where
  "digits_of digits base num = (if num = 0 then ''0'' else digits_loop digits base num)"

text \<open>The loops \<open>while (low < size--)\<close> that put padding, with the size they leave.\<close>

function while_put :: "nat \<Rightarrow> char \<Rightarrow> int \<Rightarrow> int \<Rightarrow> outp \<Rightarrow> (int \<times> outp) option" where
  "while_put e c low sz out =
     (if \<not> fits (sz - 1) then None
      else if low < sz then while_put e c low (sz - 1) (put e c out) else Some (sz - 1, out))"
  by pat_completeness auto
termination by (relation "measure (\<lambda>(e, c, low, sz, out). nat (sz - low))") auto

declare while_put.simps [simp del]

text \<open>The loops \<open>while (--field_width > 0)\<close>.\<close>

function pre_put :: "nat \<Rightarrow> char \<Rightarrow> int \<Rightarrow> outp \<Rightarrow> (int \<times> outp) option" where
  "pre_put e c w out =
     (if \<not> fits (w - 1) then None
      else if 0 < w - 1 then pre_put e c (w - 1) (put e c out) else Some (w - 1, out))"
  by pat_completeness auto
termination by (relation "measure (\<lambda>(e, c, w, out). nat w)") auto

declare pre_put.simps [simp del]

text \<open>\<open>while (i-- > 0 && ...)\<close>: the digits from the last to the first.\<close>

fun put_digits :: "nat \<Rightarrow> string \<Rightarrow> nat \<Rightarrow> outp \<Rightarrow> outp" where
  "put_digits e tmp 0 out = out"
| "put_digits e tmp (Suc i) out = put_digits e tmp i (put e (tmp ! i) out)"

text \<open>The least \<open>long\<close> has no negative.\<close>

definition get_sign :: "u32 \<Rightarrow> u8 \<Rightarrow> (char option \<times> u32) option" where
  "get_sign num type =
     (if type AND SIGN \<noteq> 0
      then if sint num < 0 then if fits (- sint num) then Some (Some (CHR ''-''), - num) else None
           else if type AND PLUS \<noteq> 0 then Some (Some (CHR ''+''), num)
           else if type AND SPACE \<noteq> 0 then Some (Some (CHR '' ''), num)
           else Some (None, num)
      else Some (None, num))"

definition print_number :: "nat \<Rightarrow> u32 \<Rightarrow> nat \<Rightarrow> int \<Rightarrow> int \<Rightarrow> u8 \<Rightarrow> outp \<Rightarrow> outp option" where
  "print_number e num base s precision type out =
     do { let digits = (if type AND LARGE \<noteq> 0 then large_digits else small_digits);
          let type = (if type AND LEFT \<noteq> 0 then type AND NOT ZEROPAD else type);
          let c = (if type AND ZEROPAD \<noteq> 0 then CHR ''0'' else CHR '' '');
          (sign, num) \<leftarrow> get_sign num type;
          let tmp = digits_of digits base num;
          let i = length tmp;
          let precision_bak = precision;
          let precision = (if int i > precision then int i else precision);
          sz \<leftarrow> c_int (s - precision);
          (sz, out) \<leftarrow>
            (if type AND (ZEROPAD OR LEFT) = 0
             then while_put e (CHR '' '') 0 (if sign \<noteq> None \<and> 0 < sz then sz - 1 else sz) out
             else Some (sz, out));
          (sz, out) \<leftarrow>
            (case sign of
               Some sg \<Rightarrow> do { sz \<leftarrow> c_int (sz - 1); Some (sz, put e sg out) }
             | None \<Rightarrow> Some (sz, out));
          (sz, out) \<leftarrow> (if type AND LEFT = 0 then while_put e c 0 sz out else Some (sz, out));
          (precision, out) \<leftarrow> while_put e (CHR ''0'') (int i) precision out;
          let out = (if precision_bak \<noteq> 0 then put_digits e tmp i out else out);
          (sz, out) \<leftarrow> while_put e (CHR '' '') 0 sz out;
          Some out }"

section \<open>Formats\<close>

datatype arg = AInt u32 | AStr "string option"

fun va_int :: "arg list \<Rightarrow> (u32 \<times> arg list) option" where
  "va_int (AInt v # args) = Some (v, args)"
| "va_int _ = None"

fun va_str :: "arg list \<Rightarrow> (string option \<times> arg list) option" where
  "va_str (AStr s # args) = Some (s, args)"
| "va_str _ = None"

text \<open>The flags behind a percent sign.\<close>

fun get_flags :: "u8 \<Rightarrow> string \<Rightarrow> u8 \<times> string" where
  "get_flags flags [] = (flags, [])"
| "get_flags flags (c # fmt) =
     (if c = CHR ''-'' then get_flags (flags OR LEFT) fmt
      else if c = CHR ''+'' then get_flags (flags OR PLUS) fmt
      else if c = CHR '' '' then get_flags (flags OR SPACE) fmt
      else if c = CHR ''#'' then get_flags (flags OR SPECIAL) fmt
      else if c = CHR ''0'' then get_flags (flags OR ZEROPAD) fmt
      else (flags, c # fmt))"

definition head :: "string \<Rightarrow> char" where
  "head fmt = (case fmt of [] \<Rightarrow> CHR 0x00 | c # _ \<Rightarrow> c)"

definition get_width :: "u8 \<Rightarrow> string \<Rightarrow> arg list \<Rightarrow> (int \<times> u8 \<times> string \<times> arg list) option" where
  "get_width flags fmt args =
     (if isdigit (head fmt) then do { (w, fmt) \<leftarrow> skip_atoi 0 fmt; Some (w, flags, fmt, args) }
      else if head fmt = CHR ''*''
      then do { (v, args) \<leftarrow> va_int args;
                if sint v < 0
                then do { w \<leftarrow> c_int (- sint v); Some (w, flags OR LEFT, tl fmt, args) }
                else Some (sint v, flags, tl fmt, args) }
      else Some (- 1, flags, fmt, args))"

definition get_precision :: "string \<Rightarrow> arg list \<Rightarrow> (int \<times> string \<times> arg list) option" where
  "get_precision fmt args =
     (if head fmt = CHR ''.''
      then do { (p, fmt, args) \<leftarrow>
                  (let fmt = tl fmt
                   in if isdigit (head fmt) then do { (p, fmt) \<leftarrow> skip_atoi 0 fmt; Some (p, fmt, args) }
                      else if head fmt = CHR ''*''
                      then do { (v, args) \<leftarrow> va_int args; Some (sint v, tl fmt, args) }
                      else Some (- 1, fmt, args));
                Some (if p < 0 then 0 else p, fmt, args) }
      else Some (- 1, fmt, args))"

definition get_qualifier :: "string \<Rightarrow> char option \<times> string" where
  "get_qualifier fmt =
     (if head fmt = CHR ''h'' \<or> head fmt = CHR ''l'' then (Some (head fmt), tl fmt) else (None, fmt))"

text \<open>The value an integer conversion prints.\<close>

definition get_num :: "char option \<Rightarrow> u8 \<Rightarrow> u32 \<Rightarrow> u32" where
  "get_num qualifier flags v =
     (if qualifier = Some (CHR ''h'')
      then let num = ucast (ucast v :: u16) in
           if flags AND SIGN \<noteq> 0 then scast (ucast num :: u16) else num
      else v)"

definition print_char :: "nat \<Rightarrow> int \<Rightarrow> u8 \<Rightarrow> char \<Rightarrow> outp \<Rightarrow> outp option" where
  "print_char e field_width flags c out =
     do { (field_width, out) \<leftarrow>
            (if flags AND LEFT = 0 then pre_put e (CHR '' '') field_width out
             else Some (field_width, out));
          let out = put e c out;
          (field_width, out) \<leftarrow> pre_put e (CHR '' '') field_width out;
          Some out }"

fun put_string :: "nat \<Rightarrow> string \<Rightarrow> nat \<Rightarrow> outp \<Rightarrow> outp" where
  "put_string e s 0 out = out"
| "put_string e s (Suc len) out = put_string e (tl s) len (put e (head s) out)"

text \<open>The length of the string is an \<open>rt_size_t\<close>, made an \<open>int\<close>.\<close>

definition print_string :: "nat \<Rightarrow> int \<Rightarrow> int \<Rightarrow> u8 \<Rightarrow> string option \<Rightarrow> outp \<Rightarrow> outp option" where
  "print_string e field_width precision flags s out =
     do { let s = (case s of None \<Rightarrow> ''(NULL)'' | Some s \<Rightarrow> s);
          let len = sint (word_of_nat (length s) :: u32);
          let len = (if precision > 0 \<and> len > precision then precision else len);
          (field_width, out) \<leftarrow>
            (if flags AND LEFT = 0 then while_put e (CHR '' '') len field_width out
             else Some (field_width, out));
          let out = put_string e s (nat len) out;
          (field_width, out) \<leftarrow> while_put e (CHR '' '') len field_width out;
          Some out }"

definition int_format :: "char \<Rightarrow> u8 \<Rightarrow> (nat \<times> u8) option" where
  "int_format c flags =
     (if c = CHR ''o'' then Some (8, flags)
      else if c = CHR ''X'' then Some (16, flags OR LARGE)
      else if c = CHR ''x'' then Some (16, flags)
      else if c = CHR ''d'' \<or> c = CHR ''i'' then Some (10, flags OR SIGN)
      else if c = CHR ''u'' then Some (10, flags)
      else None)"

text \<open>One conversion; \<open>fmt\<close> stands behind the percent sign. At the end of the format the
  default case steps back, so that the loop meets the terminating zero.\<close>

definition conversion :: "nat \<Rightarrow> string \<Rightarrow> arg list \<Rightarrow> outp \<Rightarrow> (string \<times> arg list \<times> outp) option" where
  "conversion e fmt args out =
     do { let (flags, fmt) = get_flags 0 fmt;
          (field_width, flags, fmt, args) \<leftarrow> get_width flags fmt args;
          (precision, fmt, args) \<leftarrow> get_precision fmt args;
          let (qualifier, fmt) = get_qualifier fmt;
          (if head fmt = CHR ''c''
           then do { (v, args) \<leftarrow> va_int args;
                     out \<leftarrow> print_char e field_width flags (char_of (unat v mod 256)) out;
                     Some (tl fmt, args, out) }
           else if head fmt = CHR ''s''
           then do { (s, args) \<leftarrow> va_str args;
                     out \<leftarrow> print_string e field_width precision flags s out;
                     Some (tl fmt, args, out) }
           else if head fmt = CHR ''p''
           then let (field_width, flags) =
                      if field_width = - 1 then (8, flags OR ZEROPAD) else (field_width, flags)
                in do { (v, args) \<leftarrow> va_int args;
                        out \<leftarrow> print_number e v 16 field_width precision flags out;
                        Some (tl fmt, args, out) }
           else if head fmt = CHR ''%'' then Some (tl fmt, args, put e (CHR ''%'') out)
           else (case int_format (head fmt) flags of
                   Some (base, flags) \<Rightarrow>
                     do { (v, args) \<leftarrow> va_int args;
                          out \<leftarrow> print_number e (get_num qualifier flags v) base field_width precision
                            flags out;
                          Some (tl fmt, args, out) }
                 | None \<Rightarrow>
                     let out = put e (CHR ''%'') out
                     in Some (tl fmt, args, if fmt \<noteq> [] then put e (head fmt) out else out))) }"

text \<open>Parsing never runs backwards.\<close>

lemma get_flags_shorter: "get_flags f fmt = (f', fmt') \<Longrightarrow> length fmt' \<le> length fmt"
  by (induction f fmt rule: get_flags.induct) (auto split: if_splits intro: le_SucI)

lemma skip_atoi_shorter: "skip_atoi i s = Some (i', s') \<Longrightarrow> length s' \<le> length s"
  by (induction i s rule: skip_atoi.induct) (auto split: if_splits intro: le_SucI)

lemma get_width_shorter:
  "get_width f fmt args = Some (w, f', fmt', args') \<Longrightarrow> length fmt' \<le> length fmt"
  by (auto simp: get_width_def bind_eq_Some_conv split: if_splits prod.splits dest: skip_atoi_shorter)

lemma get_precision_shorter:
  "get_precision fmt args = Some (p, fmt', args') \<Longrightarrow> length fmt' \<le> length fmt"
  by (auto simp: get_precision_def Let_def bind_eq_Some_conv split: if_splits prod.splits
    dest!: skip_atoi_shorter)

lemma get_qualifier_shorter: "get_qualifier fmt = (q, fmt') \<Longrightarrow> length fmt' \<le> length fmt"
  by (auto simp: get_qualifier_def split: if_splits)

lemma conversion_shorter:
  assumes "conversion e fmt args out = Some (fmt', args', out')"
  shows "length fmt' \<le> length fmt"
proof -
  obtain f1 fmt1 where 1: "get_flags 0 fmt = (f1, fmt1)" by force
  obtain w f2 fmt2 args2 where 2: "get_width f1 fmt1 args = Some (w, f2, fmt2, args2)"
    using assms 1 by (auto simp: conversion_def bind_eq_Some_conv)
  obtain p fmt3 args3 where 3: "get_precision fmt2 args2 = Some (p, fmt3, args3)"
    using assms 1 2 by (auto simp: conversion_def bind_eq_Some_conv)
  obtain q fmt4 where 4: "get_qualifier fmt3 = (q, fmt4)" by force
  have "fmt' = tl fmt4"
    using assms 1 2 3 4
    by (auto simp: conversion_def bind_eq_Some_conv Let_def split: if_splits option.splits prod.splits)
  then show ?thesis
    using get_flags_shorter [OF 1] get_width_shorter [OF 2] get_precision_shorter [OF 3]
      get_qualifier_shorter [OF 4] by simp
qed

function format_loop :: "nat \<Rightarrow> string \<Rightarrow> arg list \<Rightarrow> outp \<Rightarrow> outp option" where
  "format_loop e [] args out = Some out"
| "format_loop e (c # fmt) args out =
     (if c \<noteq> CHR ''%'' then format_loop e fmt args (put e c out)
      else do { (fmt, args, out) \<leftarrow> conversion e fmt args out; format_loop e fmt args out })"
  by pat_completeness auto
termination
  by (relation "measure (\<lambda>(e, fmt, args, out). length fmt)")
    (auto dest: conversion_shorter)

text \<open>\<open>rt_vsnprintf\<close> with the buffer at the address \<open>buf\<close>. A buffer that would reach past the
  end of the addresses is taken to end there.\<close>

definition buffer_end :: "nat \<Rightarrow> nat \<Rightarrow> nat \<times> nat" where
  "buffer_end buf sz =
     (let e = (buf + sz) mod 2 ^ 32
      in if e < buf then (2 ^ 32 - 1, 2 ^ 32 - 1 - buf) else (e, sz))"

definition ptr_diff :: "nat \<Rightarrow> nat \<Rightarrow> int" where
  "ptr_diff p q = sint (word_of_nat p - word_of_nat q :: u32)"

definition rt_vsnprintf :: "nat \<Rightarrow> nat \<Rightarrow> string \<Rightarrow> arg list \<Rightarrow> char_mem \<Rightarrow> (int \<times> char_mem) option" where
  "rt_vsnprintf buf sz fmt args m =
     (let (e, sz) = buffer_end buf sz
      in do { (str, m) \<leftarrow> format_loop e fmt args (buf, m);
              let m = (if sz > 0
                       then if str < e then m(str := CHR 0x00) else m(e - 1 := CHR 0x00)
                       else m);
              Some (ptr_diff str buf, m) })"

definition rt_snprintf :: "nat \<Rightarrow> nat \<Rightarrow> string \<Rightarrow> arg list \<Rightarrow> char_mem \<Rightarrow> (int \<times> char_mem) option" where
  "rt_snprintf = rt_vsnprintf"

definition rt_vsprintf :: "nat \<Rightarrow> string \<Rightarrow> arg list \<Rightarrow> char_mem \<Rightarrow> (int \<times> char_mem) option" where
  "rt_vsprintf buf fmt args m = rt_vsnprintf buf (2 ^ 32 - 1) fmt args m"

definition rt_sprintf :: "nat \<Rightarrow> string \<Rightarrow> arg list \<Rightarrow> char_mem \<Rightarrow> (int \<times> char_mem) option" where
  "rt_sprintf = rt_vsprintf"

section \<open>What is printed\<close>

text \<open>The text of a format, without a buffer: the specification of the functions above. There is none
  where an argument is missing or of the other type, where a width or precision or the negative
  of a number is not an \<open>int\<close>, and for a string argument whose length is not an \<open>int\<close>.\<close>

definition signed_text :: "char option \<Rightarrow> u32 \<Rightarrow> nat \<Rightarrow> int \<Rightarrow> int \<Rightarrow> u8 \<Rightarrow> string" where
  "signed_text sign n base width precision flags =
     (let digits = digits_of (if flags AND LARGE \<noteq> 0 then large_digits else small_digits) base n;
          len = int (length digits);
          sg = (case sign of None \<Rightarrow> [] | Some c \<Rightarrow> [c]);
          number = replicate (nat (precision - len)) (CHR ''0'') @ (if precision = 0 then [] else rev digits);
          pad = nat (width - max len precision - int (length sg))
      in if flags AND LEFT \<noteq> 0 then sg @ number @ replicate pad (CHR '' '')
         else if flags AND ZEROPAD \<noteq> 0 then sg @ replicate pad (CHR ''0'') @ number
         else replicate pad (CHR '' '') @ sg @ number)"

definition number_text :: "u32 \<Rightarrow> nat \<Rightarrow> int \<Rightarrow> int \<Rightarrow> u8 \<Rightarrow> string option" where
  "number_text num base width precision flags =
     map_option (\<lambda>(sign, n). signed_text sign n base width precision flags) (get_sign num flags)"

definition justified :: "u8 \<Rightarrow> int \<Rightarrow> string \<Rightarrow> string" where
  "justified flags width t =
     (let pad = replicate (nat (width - int (length t))) (CHR '' '')
      in if flags AND LEFT \<noteq> 0 then t @ pad else pad @ t)"

definition string_text :: "int \<Rightarrow> string option \<Rightarrow> string option" where
  "string_text precision s =
     (let s = (case s of None \<Rightarrow> ''(NULL)'' | Some s \<Rightarrow> s)
      in if length s < 2 ^ 31 then Some (if precision > 0 then take (nat precision) s else s)
         else None)"

definition conversion_text :: "string \<Rightarrow> arg list \<Rightarrow> (string \<times> arg list \<times> string) option" where
  "conversion_text fmt args =
     do { let (flags, fmt) = get_flags 0 fmt;
          (width, flags, fmt, args) \<leftarrow> get_width flags fmt args;
          (precision, fmt, args) \<leftarrow> get_precision fmt args;
          let (qualifier, fmt) = get_qualifier fmt;
          (if head fmt = CHR ''c''
           then do { (v, args) \<leftarrow> va_int args;
                     Some (tl fmt, args, justified flags width [char_of (unat v mod 256)]) }
           else if head fmt = CHR ''s''
           then do { (s, args) \<leftarrow> va_str args;
                     t \<leftarrow> string_text precision s;
                     Some (tl fmt, args, justified flags width t) }
           else if head fmt = CHR ''p''
           then do { (v, args) \<leftarrow> va_int args;
                     t \<leftarrow> (if width = - 1 then number_text v 16 8 precision (flags OR ZEROPAD)
                          else number_text v 16 width precision flags);
                     Some (tl fmt, args, t) }
           else if head fmt = CHR ''%'' then Some (tl fmt, args, ''%'')
           else (case int_format (head fmt) flags of
                   Some (base, flags) \<Rightarrow>
                     do { (v, args) \<leftarrow> va_int args;
                          t \<leftarrow> number_text (get_num qualifier flags v) base width precision flags;
                          Some (tl fmt, args, t) }
                 | None \<Rightarrow> Some (tl fmt, args, CHR ''%'' # take 1 fmt))) }"

section \<open>The code prints it\<close>

abbreviation puts :: "nat \<Rightarrow> string \<Rightarrow> outp \<Rightarrow> outp" where
  "puts e t \<equiv> fold (put e) t"

lemma while_put_puts:
  assumes "0 \<le> low" and "- (2 ^ 31) < sz" and "sz < 2 ^ 31"
  shows "while_put e c low sz out =
           Some ((if low < sz then low - 1 else sz - 1), puts e (replicate (nat (sz - low)) c) out)"
  using assms
proof (induction e c low sz out rule: while_put.induct)
  case (1 e c low sz out)
  have fits: "fits (sz - 1)" using 1(3,4) by (simp add: fits_def)
  show ?case
  proof (cases "low < sz")
    case True
    then have "nat (sz - low) = Suc (nat (sz - 1 - low))" by simp
    then show ?thesis using 1 True fits by (subst while_put.simps) auto
  next
    case False
    then show ?thesis using fits by (subst while_put.simps) simp
  qed
qed

lemma pre_put_puts:
  assumes "- (2 ^ 31) < w" and "w < 2 ^ 31"
  shows "pre_put e c w out =
           Some ((if 1 < w then 0 else w - 1), puts e (replicate (nat (w - 1)) c) out)"
  using assms
proof (induction e c w out rule: pre_put.induct)
  case (1 e c w out)
  have fits: "fits (w - 1)" using 1(2,3) by (simp add: fits_def)
  show ?case
  proof (cases "1 < w")
    case True
    then have "nat (w - 1) = Suc (nat (w - 1 - 1))" by simp
    then show ?thesis using 1 True fits by (subst pre_put.simps) auto
  next
    case False
    then show ?thesis using fits by (subst pre_put.simps) simp
  qed
qed

lemma put_digits_puts: "i \<le> length tmp \<Longrightarrow> put_digits e tmp i out = puts e (rev (take i tmp)) out"
  by (induction i arbitrary: out) (simp_all add: take_Suc_conv_app_nth)

lemma put_string_puts: "n \<le> length s \<Longrightarrow> put_string e s n out = puts e (take n s) out"
proof (induction n arbitrary: s out)
  case (Suc n)
  then show ?case by (cases s) (simp_all add: head_def)
qed simp

lemma print_char_puts:
  assumes "- 1 \<le> w" and "w < 2 ^ 31"
  shows "print_char e w flags c out = Some (puts e (justified flags w [c]) out)"
proof (cases "1 < w")
  case True
  then show ?thesis using assms by (simp add: print_char_def justified_def pre_put_puts Let_def)
next
  case False
  then show ?thesis using assms by (simp add: print_char_def justified_def pre_put_puts Let_def)
qed

lemma string_length_int:
  assumes "n < 2 ^ 31"
  shows "sint (word_of_nat n :: u32) = int n"
proof -
  have "signed_take_bit 31 (int n) = int n"
    using assms by (intro signed_take_bit_int_eq_self) simp_all
  then show ?thesis by (simp add: signed_of_nat)
qed

lemma print_string_puts:
  assumes "- 1 \<le> w" and "w < 2 ^ 31" and "string_text precision s = Some u"
  shows "print_string e w precision flags s out = Some (puts e (justified flags w u) out)"
proof -
  define t where "t = (case s of None \<Rightarrow> ''(NULL)'' | Some s \<Rightarrow> s)"
  define len where "len = (if precision > 0 \<and> int (length t) > precision then precision else int (length t))"
  have short: "length t < 2 ^ 31" and u: "u = (if precision > 0 then take (nat precision) t else t)"
    using assms(3) by (auto simp: string_text_def t_def [symmetric] Let_def split: if_splits)
  have len: "nat len \<le> length t" "0 \<le> len" "len < 2 ^ 31" using short by (auto simp: len_def)
  have shown: "u = take (nat len) t" by (auto simp: u len_def)
  have *: "int (length (take (nat len) t)) = len" using len by simp
  show ?thesis
    unfolding shown justified_def * print_string_def t_def [symmetric] string_length_int [OF short]
      len_def [symmetric] Let_def
    using assms(1,2) len by (simp add: while_put_puts put_string_puts)
qed

lemma length_digits_pos: "0 < length (digits_of d b n)"
  by (simp add: digits_of_def digits_loop.simps [of d b n] split: prod.splits)

lemma flag_pair: "(type::u8) AND (a OR b) = 0 \<longleftrightarrow> type AND a = 0 \<and> type AND b = 0"
  by (simp add: bit.conj_disj_distrib or_eq_0_iff)

lemma clear_zeropad: "((type::u8) AND NOT ZEROPAD) AND ZEROPAD = 0"
  by (simp add: and.assoc)

lemma keep_flag:
  fixes type :: u8
  shows "(type AND NOT ZEROPAD) AND LEFT = type AND LEFT"
    and "(type AND NOT ZEROPAD) AND SIGN = type AND SIGN"
    and "(type AND NOT ZEROPAD) AND PLUS = type AND PLUS"
    and "(type AND NOT ZEROPAD) AND SPACE = type AND SPACE"
  by (simp_all add: and.assoc ZEROPAD_def LEFT_def SIGN_def PLUS_def SPACE_def)

lemma get_sign_zeropad [simp]: "get_sign num (type AND NOT ZEROPAD) = get_sign num type"
  by (simp add: get_sign_def keep_flag)

text \<open>Ten places of \<open>tmp\<close> are enough for every number.\<close>

lemma digits_loop_length: "unat n < 10 ^ k \<Longrightarrow> length (digits_loop d b n) \<le> k"
proof (induction d b n arbitrary: k rule: digits_loop.induct)
  case (1 d b n)
  show ?case
  proof (cases "n = 0")
    case False
    then obtain j where k: "k = Suc j" using 1(2) by (cases k) (simp_all add: unat_eq_0)
    obtain r n' where dv: "divide n b = (r, n')" by force
    have "unat n' \<le> unat n div 10"
      using dv by (auto simp: divide_def unat_div_distrib intro: div_le_mono2 split: if_splits)
    also have "unat n div 10 < 10 ^ j" using 1(2) k by (simp add: less_mult_imp_div_less)
    finally have "length (digits_loop d b n') \<le> j" using 1(1) [OF False dv [symmetric]] by simp
    then show ?thesis using False dv k by (simp add: digits_loop.simps [of d b n])
  qed (simp add: digits_loop.simps)
qed

lemma digits_of_length: "length (digits_of d b n) \<le> 10"
proof -
  have "unat n < 10 ^ 10" using unsigned_less [of n, where ?'a = nat] by simp
  then show ?thesis by (simp add: digits_of_def digits_loop_length)
qed

text \<open>A number has at least the digits of its precision, and padding up to its width.\<close>

lemma length_signed_text:
  shows "precision \<noteq> 0 \<Longrightarrow> nat precision \<le> length (signed_text sg n b w precision flags)"
    and "precision \<noteq> 0 \<Longrightarrow> nat w \<le> length (signed_text sg n b w precision flags)"
  by (auto simp: signed_text_def Let_def split: option.splits)

lemma print_number_puts:
  assumes "- 1 \<le> s" and "s < 2 ^ 31" and "precision < 2 ^ 31"
    and "number_text num base s precision type = Some t" and "length t + 4 < 2 ^ 31"
  shows "print_number e num base s precision type out = Some (puts e t out)"
proof -
  obtain sg n where sign: "get_sign num type = Some (sg, n)"
    and t: "t = signed_text sg n base s precision type"
    using assms(4) by (auto simp: number_text_def)
  define D where "D = (if type AND LARGE \<noteq> 0 then large_digits else small_digits)"
  define ds where "ds = digits_of D base n"
  define q where "q = max (int (length ds)) precision"
  have q: "(if int (length ds) > precision then int (length ds) else precision) = q"
    "nat (precision - int (length ds)) = nat (q - int (length ds))"
    by (auto simp: q_def)
  have "length ds \<le> 10" by (simp add: ds_def digits_of_length)
  moreover have "precision + 4 < 2 ^ 31"
    using length_signed_text(1) [of precision sg n base s type] assms(5) unfolding t [symmetric]
    by (cases "precision = 0") auto
  moreover have "1 \<le> int (length ds)"
    unfolding ds_def using length_digits_pos [of D base n] by linarith
  ultimately have qb: "1 \<le> q" "q + 4 < 2 ^ 31" unfolding q_def by (linarith, simp)
  have room: "- (2 ^ 31) + 4 \<le> s - q" "s - q < 2 ^ 31" using assms(1,2) qb by auto
  have fits: "fits (s - q)" "fits (s - q - 1)" "fits (s - q - 1 - 1)" "fits (s - q - 2)"
    using room by (simp_all add: fits_def)
  define shown where "shown = (if precision = 0 then [] else rev ds)"
  have digits: "(if precision \<noteq> 0 then put_digits e ds (length ds) x else x) = puts e shown x" for x
    by (simp add: shown_def put_digits_puts)
  have sign': "get_sign num (if b then type AND NOT ZEROPAD else type) = Some (sg, n)" for b
    by (simp add: sign)
  have code: "print_number e num base s precision type out =
     do { let type = (if type AND LEFT \<noteq> 0 then type AND NOT ZEROPAD else type);
          let c = (if type AND ZEROPAD \<noteq> 0 then CHR ''0'' else CHR '' '');
          (size, out) \<leftarrow>
            (if type AND (ZEROPAD OR LEFT) = 0
             then while_put e (CHR '' '') 0 (if sg \<noteq> None \<and> 0 < s - q then s - q - 1 else s - q) out
             else Some (s - q, out));
          (size, out) \<leftarrow>
            (case sg of
               Some sg \<Rightarrow> do { size \<leftarrow> c_int (size - 1); Some (size, put e sg out) }
             | None \<Rightarrow> Some (size, out));
          (size, out) \<leftarrow> (if type AND LEFT = 0 then while_put e c 0 size out else Some (size, out));
          (precision, out) \<leftarrow> while_put e (CHR ''0'') (int (length ds)) q out;
          (size, out) \<leftarrow> while_put e (CHR '' '') 0 size (puts e shown out);
          Some out }"
    unfolding print_number_def Let_def sign' Option.bind.bind_lunit prod.case D_def [symmetric]
      ds_def [symmetric] q(1) digits
    using fits(1) by (simp add: c_int_def)
  have spec: "t =
     (let sg = (case sg of None \<Rightarrow> [] | Some c \<Rightarrow> [c]);
          number = replicate (nat (q - int (length ds))) (CHR ''0'') @ shown;
          pad = nat (s - q - int (length sg))
      in if type AND LEFT \<noteq> 0 then sg @ number @ replicate pad (CHR '' '')
         else if type AND ZEROPAD \<noteq> 0 then sg @ replicate pad (CHR ''0'') @ number
         else replicate pad (CHR '' '') @ sg @ number)"
    unfolding t signed_text_def Let_def D_def [symmetric] ds_def [symmetric]
      q_def [symmetric] q(2) shown_def [symmetric] ..
  show ?thesis
  proof (cases "type AND LEFT = 0")
    case True
    then show ?thesis
      unfolding code spec
      using room qb fits
      by (cases "type AND ZEROPAD = 0"; cases sg; cases "0 < s - q")
        (simp_all add: while_put_puts flag_pair Let_def c_int_def fits_def del: fold_replicate)
  next
    case False
    then show ?thesis
      unfolding code spec
      using room qb fits
      by (cases sg; cases "0 < s - q")
        (simp_all add: while_put_puts flag_pair clear_zeropad keep_flag Let_def c_int_def fits_def
          del: fold_replicate)
  qed
qed

text \<open>Widths and precisions are \<open>int\<close>s, not below \<open>-1\<close>.\<close>

lemma skip_atoi_range:
  "skip_atoi i s = Some (i', s') \<Longrightarrow> 0 \<le> i \<Longrightarrow> i < 2 ^ 31 \<Longrightarrow> 0 \<le> i' \<and> i' < 2 ^ 31"
  by (induction i s rule: skip_atoi.induct) (auto simp: fits_def isdigit_def split: if_splits)

lemma sint_range: "- (2 ^ 31) \<le> sint (v :: u32)" "sint (v :: u32) < 2 ^ 31"
  using sint_greater_eq [of v] sint_less [of v] by simp_all

lemma get_width_range:
  "get_width f fmt args = Some (w, f', fmt', args') \<Longrightarrow> - 1 \<le> w \<and> w < 2 ^ 31"
  using sint_range
  by (auto simp: get_width_def bind_eq_Some_conv c_int_def fits_def split: if_splits
    dest!: skip_atoi_range)

lemma get_precision_range:
  "get_precision fmt args = Some (p, fmt', args') \<Longrightarrow> - 1 \<le> p \<and> p < 2 ^ 31"
  using sint_range
  by (auto simp: get_precision_def Let_def bind_eq_Some_conv split: if_splits
    dest!: skip_atoi_range)

lemma conversion_puts:
  assumes "conversion_text fmt args = Some (fmt', args', t)" and "length t + 4 < 2 ^ 31"
  shows "conversion e fmt args out = Some (fmt', args', puts e t out)"
proof -
  obtain f1 fmt1 where 1: "get_flags 0 fmt = (f1, fmt1)" by force
  obtain w f2 fmt2 args2 where 2: "get_width f1 fmt1 args = Some (w, f2, fmt2, args2)"
    using assms(1) 1 by (auto simp: conversion_text_def bind_eq_Some_conv)
  obtain p fmt3 args3 where 3: "get_precision fmt2 args2 = Some (p, fmt3, args3)"
    using assms(1) 1 2 by (auto simp: conversion_text_def bind_eq_Some_conv)
  obtain q fmt4 where 4: "get_qualifier fmt3 = (q, fmt4)" by force
  have w: "- 1 \<le> w" "w < 2 ^ 31" and p: "p < 2 ^ 31"
    using get_width_range [OF 2] get_precision_range [OF 3] by auto
  have default: "(if fmt4 \<noteq> [] then put e (head fmt4) x else x) = puts e (take 1 fmt4) x" for x
    by (cases fmt4) (simp_all add: head_def)
  show ?thesis
    using assms w p
    by (auto simp: conversion_def conversion_text_def 1 2 3 4 Let_def default bind_eq_Some_conv
      print_char_puts print_string_puts print_number_puts split: if_splits option.splits)
      (metis surj_pair)+
qed

lemma conversion_text_shorter:
  assumes "conversion_text fmt args = Some (fmt', args', t)"
  shows "length fmt' \<le> length fmt"
proof -
  obtain f1 fmt1 where 1: "get_flags 0 fmt = (f1, fmt1)" by force
  obtain w f2 fmt2 args2 where 2: "get_width f1 fmt1 args = Some (w, f2, fmt2, args2)"
    using assms 1 by (auto simp: conversion_text_def bind_eq_Some_conv)
  obtain p fmt3 args3 where 3: "get_precision fmt2 args2 = Some (p, fmt3, args3)"
    using assms 1 2 by (auto simp: conversion_text_def bind_eq_Some_conv)
  obtain q fmt4 where 4: "get_qualifier fmt3 = (q, fmt4)" by force
  have "fmt' = tl fmt4"
    using assms 1 2 3 4
    by (auto simp: conversion_text_def bind_eq_Some_conv Let_def split: if_splits option.splits prod.splits)
  then show ?thesis
    using get_flags_shorter [OF 1] get_width_shorter [OF 2] get_precision_shorter [OF 3]
      get_qualifier_shorter [OF 4] by simp
qed

function format_text :: "string \<Rightarrow> arg list \<Rightarrow> string option" where
  "format_text [] args = Some []"
| "format_text (c # fmt) args =
     (if c \<noteq> CHR ''%'' then map_option ((#) c) (format_text fmt args)
      else do { (fmt, args, t) \<leftarrow> conversion_text fmt args;
                map_option ((@) t) (format_text fmt args) })"
  by pat_completeness auto
termination
  by (relation "measure (\<lambda>(fmt, args). length fmt)") (auto dest: conversion_text_shorter)

lemma format_loop_puts:
  assumes "format_text fmt args = Some t" and "length t + 4 < 2 ^ 31"
  shows "format_loop e fmt args out = Some (puts e t out)"
  using assms
proof (induction fmt args arbitrary: t out rule: format_text.induct)
  case (2 c fmt args)
  show ?case
  proof (cases "c = CHR ''%''")
    case True
    then obtain fmt' args' u v where r: "conversion_text fmt args = Some (fmt', args', u)"
      "format_text fmt' args' = Some v" "t = u @ v"
      using 2(3) by (auto simp: bind_eq_Some_conv)
    have "format_loop e fmt' args' (puts e u out) = Some (puts e v (puts e u out))"
      using 2(2) [of "(fmt', args', u)" fmt' "(args', u)" args' u v] r True 2(4) by simp
    then show ?thesis
      using conversion_puts [OF r(1), of e out] r(3) 2(4) True by simp
  next
    case False
    then obtain u where u: "format_text fmt args = Some u" "t = c # u" using 2(3) by auto
    then show ?thesis using 2(1) [of u "put e c out"] 2(4) False by simp
  qed
qed simp

text \<open>What putting a text does to the memory.\<close>

definition stored :: "nat \<Rightarrow> string \<Rightarrow> char_mem \<Rightarrow> char_mem" where
  "stored a t m = (\<lambda>k. if a \<le> k \<and> k < a + length t then t ! (k - a) else m k)"

lemma stored_Nil [simp]: "stored a [] m = m"
  by (auto simp: stored_def fun_eq_iff)

lemma stored_Cons: "stored a (c # t) m = stored (Suc a) t (m(a := c))"
  by (auto simp: stored_def fun_eq_iff nth_Cons')

lemma stored_append: "stored a (t @ u) m = stored (a + length t) u (stored a t m)"
  by (auto simp: stored_def fun_eq_iff nth_append)

text \<open>As long as the cursor does not wrap around.\<close>

lemma puts_stored:
  assumes "str + length t < 2 ^ 32"
  shows "puts e t (str, m) = (str + length t, stored str (take (e - str) t) m)"
  using assms
proof (induction t arbitrary: str m)
  case (Cons c t)
  then show ?case by (cases "str < e") (simp_all add: put_def take_Cons' stored_Cons fun_upd_def)
qed simp

lemma ptr_diff_length: "n < 2 ^ 31 \<Longrightarrow> ptr_diff (buf + n) buf = int n"
  by (simp add: ptr_diff_def string_length_int)

lemma buffer_end_fits:
  assumes "buf < 2 ^ 32" and "sz < 2 ^ 32" and "buffer_end buf sz = (e, sz')"
  shows "e = buf + sz'" and "sz' \<le> sz" and "buf + sz < 2 ^ 32 \<longrightarrow> sz' = sz"
  using assms by (auto simp: buffer_end_def Let_def mod_if split: if_splits)

lemma rt_vsnprintf_text:
  assumes "buf < 2 ^ 32" and "sz < 2 ^ 32" and "buffer_end buf sz = (e, room)"
    and t: "format_text fmt args = Some t" and len: "buf + length t < 2 ^ 32" "length t + 4 < 2 ^ 31"
  shows "rt_vsnprintf buf sz fmt args m =
           Some (int (length t),
             if room = 0 then m else stored buf (take (room - 1) t @ [CHR 0x00]) m)"
proof -
  have e: "e = buf + room" by (rule buffer_end_fits [OF assms(1-3)])
  have cut: "(stored buf (take room t) m)(buf + (room - 1) := CHR 0x00)
               = stored buf (take (room - 1) t @ [CHR 0x00]) m" if "room \<noteq> 0" "room \<le> length t"
  proof -
    have "take room t = take (room - 1) t @ [t ! (room - 1)]"
      using that by (cases room) (simp_all add: take_Suc_conv_app_nth)
    then show ?thesis using that by (simp add: stored_append stored_Cons)
  qed
  have "format_loop e fmt args (buf, m) = Some (buf + length t, stored buf (take room t) m)"
    using format_loop_puts [OF t len(2), of e "(buf, m)"] puts_stored [OF len(1), of e m] e by simp
  moreover have "ptr_diff (buf + length t) buf = int (length t)" using len by (simp add: ptr_diff_length)
  ultimately show ?thesis
    using cut
    by (auto simp: rt_vsnprintf_def assms(3) e stored_append stored_Cons)
qed

lemma rt_vsnprintf_exact:
  assumes "buf + sz < 2 ^ 32" and "format_text fmt args = Some t"
    and "buf + length t < 2 ^ 32" and "length t + 4 < 2 ^ 31"
  shows "rt_snprintf buf sz fmt args m =
           Some (int (length t),
             if sz = 0 then m else stored buf (take (sz - 1) t @ [CHR 0x00]) m)"
proof -
  obtain e room where room: "buffer_end buf sz = (e, room)" by force
  then have sz: "room = sz" using buffer_end_fits(3) [of buf sz e room] assms(1) by simp
  show ?thesis
    using rt_vsnprintf_text [OF _ _ room assms(2-4), unfolded sz] assms(1) by (simp add: rt_snprintf_def)
qed

text \<open>C35. \<open>rt_snprintf\<close> keeps to its buffer and tells the truth about it: for a buffer within the
  32-bit addresses and a text of the format that has less than \<open>2^31 - 4\<close> characters and, put at
  the buffer's address, would end below \<open>2^32\<close>, it returns the length of the whole text, stores as
  much of it as fits in front of a terminating zero, and changes no other byte of the memory;
  with an empty buffer it stores nothing. The text exists when the arguments fit the format, the
  strings have less than \<open>2^31\<close> characters, and no width, precision or negated number overflows
  an \<open>int\<close>. Of longer texts, whose cursor may wrap around to the first address, nothing is
  claimed.\<close>

theorem rt_snprintf_stores:
  assumes "buf + sz < 2 ^ 32" and "format_text fmt args = Some t"
    and "buf + length t < 2 ^ 32" and "length t + 4 < 2 ^ 31"
  shows "rt_snprintf buf sz fmt args m =
           Some (int (length t),
             if sz = 0 then m else stored buf (take (sz - 1) t @ [CHR 0x00]) m)"
  by (rule rt_vsnprintf_exact [OF assms])

lemmas format_simps = conversion_text_def get_width_def get_precision_def get_qualifier_def
  head_def isdigit_def int_format_def get_num_def number_text_def get_sign_def digits_of_def
  digits_loop.simps divide_def small_digits_def fits_def c_int_def signed_text_def large_digits_def ZEROPAD_def SIGN_def PLUS_def
  SPACE_def LEFT_def SPECIAL_def LARGE_def justified_def string_text_def

theorem rt_snprintf_stores_witness:
  "rt_snprintf 100 4 ''%d|%3u'' [AInt (- 12), AInt 7] (\<lambda>_. CHR ''x'')
     = Some (7, stored 100 (''-12'' @ [CHR 0x00]) (\<lambda>_. CHR ''x''))"
proof -
  have t: "format_text ''%d|%3u'' [AInt (- 12), AInt 7] = Some ''-12|  7''"
    by (simp add: format_simps) (simp add: eval_nat_numeral)
  show ?thesis by (subst rt_snprintf_stores [OF _ t]) simp_all
qed

text \<open>\<open>rt_sprintf\<close> is told no size: the memory from the buffer to the last but one address is
  its buffer, and a text that reaches no further is stored whole.\<close>

lemma rt_sprintf_stores:
  assumes "0 < buf" and "format_text fmt args = Some t"
    and "buf + length t < 2 ^ 32 - 1" and "length t + 4 < 2 ^ 31"
  shows "rt_sprintf buf fmt args m = Some (int (length t), stored buf (t @ [CHR 0x00]) m)"
proof -
  have "(buf + (2 ^ 32 - 1)) mod 2 ^ 32 = buf - 1"
    using assms(1,3) by (simp add: mod_if)
  then have room: "buffer_end buf (2 ^ 32 - 1) = (2 ^ 32 - 1, 2 ^ 32 - 1 - buf)"
    using assms(1,3) by (simp add: buffer_end_def Let_def)
  have "take (2 ^ 32 - 1 - buf - 1) t = t" using assms(3) by (intro take_all) simp
  then show ?thesis
    using rt_vsnprintf_text [OF _ _ room assms(2) _ assms(4), of m] assms(1,3)
    by (simp add: rt_sprintf_def rt_vsprintf_def)
qed

section \<open>Decimal numbers\<close>

lemma small_digit:
  assumes "r < 10"
  shows "(of_char (small_digits ! r) :: int) = 48 + int r"
proof -
  have "r = 0 \<or> r = 1 \<or> r = 2 \<or> r = 3 \<or> r = 4 \<or> r = 5 \<or> r = 6 \<or> r = 7 \<or> r = 8 \<or> r = 9"
    using assms by arith
  then show ?thesis by (elim disjE) (simp_all add: small_digits_def)
qed

text \<open>The greatest number that \<open>skip_atoi\<close> can read: \<open>2^31 - 1\<close> less the code of \<open>'0'\<close>.\<close>

definition atoi_max :: int where "atoi_max = 2147483599"

lemma next_digit:
  fixes a r :: int
  assumes "n = a * 10 + r" and "0 \<le> a" and "0 \<le> r" "r < 10"
  shows "n \<le> atoi_max \<Longrightarrow> a \<le> atoi_max \<and> fits (a * 10) \<and> fits (a * 10 + (48 + r))"
    and "atoi_max < n \<Longrightarrow> n \<le> 2 ^ 31 \<Longrightarrow> a \<le> atoi_max \<and> \<not> fits (a * 10 + (48 + r))"
  using assms by (auto simp: fits_def atoi_max_def)

lemma skip_atoi_digits:
  "uint n \<le> atoi_max \<Longrightarrow>
   skip_atoi 0 (rev (digits_loop small_digits 10 n) @ rest) = skip_atoi (uint n) rest"
proof (induction small_digits "10::nat" n arbitrary: rest rule: digits_loop.induct)
  case (1 n)
  show ?case
  proof (cases "n = 0")
    case False
    let ?r = "unat (n mod 10)" and ?n = "n div 10"
    have dv: "divide n 10 = (?r, ?n)" by (simp add: divide_def)
    have r: "?r < 10" by (simp add: unat_mod_distrib)
    then have small_int: "int ?r < 10" by linarith
    have loop: "digits_loop small_digits 10 n = small_digits ! ?r # digits_loop small_digits 10 ?n"
      using False dv by (simp add: digits_loop.simps [of _ _ n])
    have split: "uint n = uint ?n * 10 + int ?r"
      by (simp add: uint_div_distrib uint_mod_distrib)
    then have small: "uint ?n \<le> atoi_max" "fits (uint ?n * 10)"
      "fits (uint ?n * 10 + (48 + int ?r))"
      using next_digit(1) [OF split uint_ge_0 of_nat_0_le_iff small_int 1(2)] by simp_all
    have digit: "isdigit (small_digits ! ?r)" unfolding isdigit_def small_digit [OF r] using small_int by linarith
    have "skip_atoi 0 (rev (digits_loop small_digits 10 n) @ rest) =
        skip_atoi (uint ?n) (small_digits ! ?r # rest)"
      using 1(1) [OF False dv [symmetric] small(1), of "small_digits ! ?r # rest"] unfolding loop by simp
    also have "\<dots> = skip_atoi (uint ?n * 10 + (48 + int ?r) - 48) rest"
      using digit small(2,3) by (simp only: skip_atoi.simps small_digit [OF r] if_True simp_thms)
    finally show ?thesis using split by simp
  qed (simp add: digits_loop.simps)
qed

text \<open>Above it, the last digit makes the sum overflow.\<close>

lemma skip_atoi_overflows:
  assumes "atoi_max < uint n" and "uint n \<le> 2 ^ 31"
  shows "skip_atoi 0 (rev (digits_loop small_digits 10 n) @ rest) = None"
proof -
  let ?r = "unat (n mod 10)" and ?n = "n div 10"
  have n: "n \<noteq> 0" using assms(1) by (auto simp: atoi_max_def)
  have r: "?r < 10" by (simp add: unat_mod_distrib)
  then have small_int: "int ?r < 10" by linarith
  have loop: "digits_loop small_digits 10 n = small_digits ! ?r # digits_loop small_digits 10 ?n"
    using n by (simp add: digits_loop.simps [of _ _ n] divide_def)
  have split: "uint n = uint ?n * 10 + int ?r"
    by (simp add: uint_div_distrib uint_mod_distrib)
  have small: "uint ?n \<le> atoi_max" and big: "\<not> fits (uint ?n * 10 + (48 + int ?r))"
    using next_digit(2) [OF split uint_ge_0 of_nat_0_le_iff small_int assms] by simp_all
  have digit: "isdigit (small_digits ! ?r)" unfolding isdigit_def small_digit [OF r] using small_int by linarith
  have "skip_atoi 0 (rev (digits_loop small_digits 10 n) @ rest) =
      skip_atoi (uint ?n) (small_digits ! ?r # rest)"
    using skip_atoi_digits [OF small, of "small_digits ! ?r # rest"] unfolding loop by simp
  also have "\<dots> = None"
    using digit big by (simp only: skip_atoi.simps small_digit [OF r] if_True if_False simp_thms)
  finally show ?thesis .
qed

lemma skip_atoi_digits_of:
  assumes "uint n \<le> 2 ^ 31"
  shows "skip_atoi 0 (rev (digits_of small_digits 10 n)) =
           (if uint n \<le> atoi_max then Some (uint n, []) else None)"
  using skip_atoi_digits [of n "[]"] skip_atoi_overflows [of n "[]"] assms
  by (auto simp: digits_of_def isdigit_def fits_def atoi_max_def)

lemma uint_negative:
  fixes v :: u32
  assumes "sint v < 0"
  shows "uint (- v) = - sint v"
proof -
  have "take_bit 32 (sint v) = uint v" using uint_sint [of v] by simp
  moreover have "uint (- v) = take_bit 32 (- uint v)" by (simp add: uint_word_ariths(4) take_bit_eq_mod)
  ultimately have "uint (- v) = take_bit 32 (- take_bit 32 (sint v))" by simp
  then have "uint (- v) = (- sint v) mod 2 ^ 32"
    by (simp only: take_bit_minus) (simp only: take_bit_eq_mod)
  moreover have "- (2 ^ 31) \<le> sint v" using sint_greater_eq [of v] by simp
  ultimately show ?thesis using assms by simp
qed

lemma uint_nonnegative:
  fixes v :: u32
  assumes "\<not> sint v < 0"
  shows "uint v = sint v"
proof -
  have "sint v < 2 ^ 31" using sint_less [of v] by simp
  then show ?thesis using assms uint_sint [of v] by (simp add: take_bit_int_eq_self)
qed

lemma decimal_text:
  assumes "v \<noteq> 0x80000000"
  shows "format_text ''%d'' [AInt v] =
     Some ((if sint v < 0 then ''-'' else []) @ rev (digits_of small_digits 10 (if sint v < 0 then - v else v)))"
proof -
  have "- sint v < 2 ^ 31"
  proof (rule ccontr)
    assume "\<not> - sint v < 2 ^ 31"
    then have "sint v = sint (0x80000000 :: u32)" using sint_range(1) [of v] by simp
    then have "v = 0x80000000" by (rule signed_word_eqI)
    then show False using assms by contradiction
  qed
  moreover have "- (2 ^ 31) \<le> - sint v" using sint_range(2) [of v] by simp
  ultimately have "fits (- sint v)" by (simp add: fits_def)
  then show ?thesis
    by (simp add: conversion_text_def get_width_def get_precision_def get_qualifier_def head_def isdigit_def
        int_format_def get_num_def number_text_def signed_text_def get_sign_def SIGN_def LEFT_def
        ZEROPAD_def LARGE_def PLUS_def SPACE_def Let_def)
qed

text \<open>C36. Printing a number with \<open>%d\<close> and reading its digits back with \<open>skip_atoi\<close>: for every number
  but the least \<open>int\<close>, whose negation overflows, the text is a minus sign, for a negative number,
  and digits, and twelve bytes of buffer hold it. \<open>skip_atoi\<close> reads the absolute value from the
  digits if it is at most \<open>2147483599\<close>, and the sum in its \<open>int\<close> overflows if it is greater.\<close>

theorem decimal_round_trip:
  assumes "buf + sz < 2 ^ 32" and "12 \<le> sz" and "v \<noteq> 0x80000000"
  shows "\<exists>t. rt_snprintf buf sz ''%d'' [AInt v] m =
              (let text = (if sint v < 0 then ''-'' else []) @ t
               in Some (int (length text), stored buf (text @ [CHR 0x00]) m)) \<and>
             skip_atoi 0 t = (if \<bar>sint v\<bar> \<le> 2147483599 then Some (\<bar>sint v\<bar>, []) else None)"
proof -
  let ?n = "if sint v < 0 then - v else v"
  let ?t = "rev (digits_of small_digits 10 ?n)"
  let ?text = "(if sint v < 0 then ''-'' else []) @ ?t"
  have "uint ?n = \<bar>sint v\<bar>"
    using uint_negative [of v] uint_nonnegative [of v] by simp
  then have atoi: "skip_atoi 0 ?t = (if \<bar>sint v\<bar> \<le> 2147483599 then Some (\<bar>sint v\<bar>, []) else None)"
    using skip_atoi_digits_of [of ?n] sint_range [of v] by (simp add: atoi_max_def)
  have "length ?t \<le> 10" unfolding length_rev by (rule digits_of_length)
  then have len: "length ?text \<le> 11" unfolding length_append by (cases "sint v < 0") simp_all
  have "take (sz - 1) ?text = ?text" using len assms(2) by (intro take_all) linarith
  moreover have "buf + length ?text < 2 ^ 32" using len assms(1,2) by linarith
  moreover have "length ?text + 4 < 2 ^ 31" by (rule le_less_trans [OF add_right_mono [OF len]]) simp
  moreover have "sz \<noteq> 0" using assms(2) by simp
  ultimately have "rt_snprintf buf sz ''%d'' [AInt v] m =
      (let text = ?text in Some (int (length text), stored buf (text @ [CHR 0x00]) m))"
    using rt_vsnprintf_exact [OF assms(1) decimal_text [OF assms(3)], of m] by (simp only: Let_def if_False)
  with atoi show ?thesis by blast
qed

theorem decimal_round_trip_witness:
  "\<exists>t. rt_snprintf 100 12 ''%d'' [AInt (- 2147483599)] (\<lambda>_. CHR ''x'') =
          (let text = (if sint (- 2147483599 :: u32) < 0 then ''-'' else []) @ t
           in Some (int (length text), stored 100 (text @ [CHR 0x00]) (\<lambda>_. CHR ''x''))) \<and>
        skip_atoi 0 t = Some (2147483599, [])"
  using decimal_round_trip [of 100 12 "- 2147483599"] by simp

text \<open>Three conversions that do not print what they promise: \<open>%o\<close> prints hexadecimal digits, since
  \<open>divide\<close> knows the bases ten and sixteen only; a precision of zero prints no digits of any number;
  and it prints the whole of a string.\<close>

lemma octal_is_hexadecimal: "format_text ''%o'' [AInt 10] = Some ''a''"
  by (simp add: format_simps)

lemma precision_zero_number: "format_text ''%.0d'' [AInt 5] = Some []"
  by (simp add: format_simps)

lemma precision_zero_string: "format_text ''%.0s'' [AStr (Some ''abc'')] = Some ''abc''"
  by (simp add: format_simps)

text \<open>Justified output has at least the asked width, and a string no more than its own
  characters beyond it.\<close>

lemma length_justified: "length (justified flags w t) = max (length t) (nat w)"
  by (auto simp: justified_def Let_def max_def)

section \<open>The console\<close>

text \<open>What \<open>rt_kprintf\<close> hands to the console device: the first \<open>length\<close> bytes of the static
  buffer of \<open>RT_CONSOLEBUF_SIZE\<close> bytes.\<close>

definition RT_CONSOLEBUF_SIZE :: nat where "RT_CONSOLEBUF_SIZE = 128"

definition rt_kprintf_output :: "nat \<Rightarrow> string \<Rightarrow> arg list \<Rightarrow> char_mem \<Rightarrow> (string \<times> char_mem) option" where
  "rt_kprintf_output log_buf fmt args m =
     do { (n, m) \<leftarrow> rt_vsnprintf log_buf (RT_CONSOLEBUF_SIZE - 1) fmt args m;
          let len = unat (word_of_int n :: u32);
          let len = (if len > RT_CONSOLEBUF_SIZE - 1 then RT_CONSOLEBUF_SIZE - 1 else len);
          Some (map m [log_buf..<log_buf + len], m) }"

text \<open>A text of 127 or more characters is cut to 126, but 127 bytes are handed on: the last is the
  terminating zero.\<close>

lemma stored_read: "map (stored a t m) [a..<a + length t] = t"
  by (rule nth_equalityI) (simp_all add: stored_def)

lemma rt_kprintf_sends:
  assumes "log_buf + 127 < 2 ^ 32" and "format_text fmt args = Some t"
    and "log_buf + length t < 2 ^ 32" and "length t + 4 < 2 ^ 31"
  shows "\<exists>m'. rt_kprintf_output log_buf fmt args m =
           Some (if length t < 127 then t else take 126 t @ [CHR 0x00], m')"
proof -
  let ?u = "take 126 t @ [CHR 0x00]"
  have out: "rt_vsnprintf log_buf 127 fmt args m = Some (int (length t), stored log_buf ?u m)"
    using rt_vsnprintf_exact [OF assms, of m] by (simp add: rt_snprintf_def)
  have len: "unat (word_of_int (int (length t)) :: u32) = length t"
    using assms(4) by (simp add: unat_of_nat take_bit_nat_eq_self)
  have all: "map (stored log_buf ?u m) [log_buf..<log_buf + length ?u] = ?u" by (rule stored_read)
  show ?thesis
  proof (cases "length t < 127")
    case True
    have "map (stored log_buf ?u m) [log_buf..<log_buf + length t] = t"
      using True by (intro nth_equalityI) (simp_all add: stored_def nth_append)
    then show ?thesis
      using out True len by (simp add: rt_kprintf_output_def RT_CONSOLEBUF_SIZE_def)
  next
    case False
    then have "length ?u = 127" by simp
    then show ?thesis
      using out False all len by (simp add: rt_kprintf_output_def RT_CONSOLEBUF_SIZE_def Let_def)
  qed
qed

end
