(* ===== verification/RT_Device.thy ===== *)
theory RT_Device
  imports RT_Errno RT_Printf
begin

text \<open>
  The device layer (\<open>src/device.c\<close>) and the console on top of it (\<open>src/kservice.c\<close>,
  \<open>board/board.c\<close>). A device is addressed by an identifier; its object header is that of the
  kernel object at the same address. The functions of its driver (\<open>dev->ops\<close>) are a parameter,
  each of them possibly the null pointer, and act on the whole state; \<open>None\<close> as the result of a
  call is an assertion that fails. Data that is read or written is a string of bytes. What the
  layer relies on from a driver is the locale \<open>drivers\<close>; the serial driver provides it.
\<close>

section \<open>State\<close>

record rt_device =
  dev_type :: nat
  dev_flag :: u16
  open_flag :: u16
  ref_count :: u8
  rx_indicate :: "nat option"
  tx_complete :: "nat option"

record 'h machine =
  kern :: kernel
  devices :: "nat \<Rightarrow> rt_device"
  console_device :: "nat option"
  rt_log_buf :: char_mem
  hw :: 'h

text \<open>The functions of a driver: the types of their results are the error code, the bytes that
  are read, and the number of bytes that are written.\<close>

record ('a, 'h) rt_device_ops =
  device_init :: "(nat \<Rightarrow> 'h machine \<Rightarrow> (rt_err_t \<times> 'h machine) option) option"
  device_open :: "(nat \<Rightarrow> u16 \<Rightarrow> 'h machine \<Rightarrow> (rt_err_t \<times> 'h machine) option) option"
  device_close :: "(nat \<Rightarrow> 'h machine \<Rightarrow> (rt_err_t \<times> 'h machine) option) option"
  device_read :: "(nat \<Rightarrow> int \<Rightarrow> nat \<Rightarrow> 'h machine \<Rightarrow> (string \<times> 'h machine) option) option"
  device_write :: "(nat \<Rightarrow> int \<Rightarrow> string \<Rightarrow> 'h machine \<Rightarrow> (nat \<times> 'h machine) option) option"
  device_control :: "(nat \<Rightarrow> nat \<Rightarrow> 'a \<Rightarrow> 'h machine \<Rightarrow> (rt_err_t \<times> 'h machine) option) option"

text \<open>What is outside the sources: the drivers, and the output of the boot loader's \<open>my_printf\<close>.\<close>

record ('a, 'h) platform =
  ops :: "nat \<Rightarrow> ('a, 'h) rt_device_ops"
  my_printf :: "string \<Rightarrow> 'h \<Rightarrow> 'h"

abbreviation (input) RT_Object_Class_Device :: u8 where "RT_Object_Class_Device \<equiv> 9"
abbreviation (input) RT_DEVICE_FLAG_STANDALONE :: u16 where "RT_DEVICE_FLAG_STANDALONE \<equiv> 0x008"
abbreviation (input) RT_DEVICE_FLAG_ACTIVATED :: u16 where "RT_DEVICE_FLAG_ACTIVATED \<equiv> 0x010"
abbreviation (input) RT_DEVICE_FLAG_STREAM :: u16 where "RT_DEVICE_FLAG_STREAM \<equiv> 0x040"
abbreviation (input) RT_DEVICE_OFLAG_CLOSE :: u16 where "RT_DEVICE_OFLAG_CLOSE \<equiv> 0"
abbreviation (input) RT_DEVICE_OFLAG_RDWR :: u16 where "RT_DEVICE_OFLAG_RDWR \<equiv> 0x003"
abbreviation (input) RT_DEVICE_OFLAG_OPEN :: u16 where "RT_DEVICE_OFLAG_OPEN \<equiv> 0x008"
abbreviation (input) RT_DEVICE_OFLAG_MASK :: u16 where "RT_DEVICE_OFLAG_MASK \<equiv> 0xf0f"

definition upd_device :: "nat \<Rightarrow> (rt_device \<Rightarrow> rt_device) \<Rightarrow> 'h machine \<Rightarrow> 'h machine" where
  "upd_device d f m = m\<lparr>devices := (devices m)(d := f (devices m d))\<rparr>"

definition is_device :: "nat \<Rightarrow> 'h machine \<Rightarrow> bool" where
  "is_device d m \<longleftrightarrow> rt_object_get_type (OIpc d) (kern m) = RT_Object_Class_Device"

section \<open>Registration\<close>

definition rt_device_find :: "string option \<Rightarrow> 'h machine \<Rightarrow> (nat option \<times> 'h machine) option" where
  "rt_device_find name m =
     do { (r, k) \<leftarrow> rt_object_find name RT_Object_Class_Device (kern m);
          Some (case r of Some (OIpc d) \<Rightarrow> Some d | _ \<Rightarrow> None, m\<lparr>kern := k\<rparr>) }"

definition rt_device_register ::
    "nat option \<Rightarrow> string \<Rightarrow> u16 \<Rightarrow> 'h machine \<Rightarrow> (rt_err_t \<times> 'h machine) option" where
  "rt_device_register dev name flags m =
     (case dev of
        None \<Rightarrow> Some (- RT_ERROR, m)
      | Some d \<Rightarrow>
          do { (r, m) \<leftarrow> rt_device_find (Some name) m;
               if r \<noteq> None then Some (- RT_ERROR, m)
               else do { k \<leftarrow> rt_object_init (OIpc d) RT_Object_Class_Device name (kern m);
                         let m = m\<lparr>kern := k\<rparr>;
                         Some (RT_EOK, upd_device d (\<lambda>dv. dv\<lparr>dev_flag := flags, ref_count := 0, open_flag := 0\<rparr>) m) } })"

definition rt_device_unregister :: "nat \<Rightarrow> 'h machine \<Rightarrow> (rt_err_t \<times> 'h machine) option" where
  "rt_device_unregister d m =
     do { rt_assert (is_device d m);
          rt_assert (rt_object_is_systemobject (OIpc d) (kern m));
          Some (RT_EOK, m\<lparr>kern := rt_object_detach (OIpc d) (kern m)\<rparr>) }"

text \<open>\<open>rt_device_create\<close>, with the address the heap returns as an argument: the whole structure,
  its object header included, becomes zero. \<open>rt_device_destroy\<close> gives the address back.\<close>

definition rt_device_create :: "nat option \<Rightarrow> nat \<Rightarrow> 'h machine \<Rightarrow> nat option \<times> 'h machine" where
  "rt_device_create mem ty m =
     (case mem of
        None \<Rightarrow> (None, m)
      | Some d \<Rightarrow>
          let m = m\<lparr>kern := upd_obj (OIpc d) (\<lambda>_. \<lparr>oname = [], otype = 0, oflag = 0\<rparr>) (kern m)\<rparr>;
              m = upd_device d (\<lambda>_. \<lparr>dev_type = 0, dev_flag = 0, open_flag = 0, ref_count = 0,
                                    rx_indicate = None, tx_complete = None\<rparr>) m
          in (Some d, upd_device d (\<lambda>dv. dv\<lparr>dev_type := ty\<rparr>) m))"

definition rt_device_destroy :: "nat \<Rightarrow> 'h machine \<Rightarrow> (nat \<times> 'h machine) option" where
  "rt_device_destroy d m =
     do { rt_assert (is_device d m);
          rt_assert (\<not> rt_object_is_systemobject (OIpc d) (kern m));
          Some (d, m\<lparr>kern := rt_object_detach (OIpc d) (kern m)\<rparr>) }"

section \<open>Reading, writing, closing\<close>

definition initialised :: "rt_device \<Rightarrow> bool" where
  "initialised dv \<longleftrightarrow> dev_flag dv AND RT_DEVICE_FLAG_ACTIVATED \<noteq> 0"

definition standalone :: "rt_device \<Rightarrow> bool" where
  "standalone dv \<longleftrightarrow> dev_flag dv AND RT_DEVICE_FLAG_STANDALONE \<noteq> 0"

definition opened :: "rt_device \<Rightarrow> bool" where
  "opened dv \<longleftrightarrow> open_flag dv AND RT_DEVICE_OFLAG_OPEN \<noteq> 0"

definition set_errno :: "rt_err_t \<Rightarrow> 'h machine \<Rightarrow> 'h machine" where
  "set_errno e m = m\<lparr>kern := rt_set_errno e (kern m)\<rparr>"

definition rt_device_close ::
    "('a, 'h) platform \<Rightarrow> nat \<Rightarrow> 'h machine \<Rightarrow> (rt_err_t \<times> 'h machine) option" where
  "rt_device_close P d m =
     do { rt_assert (is_device d m);
          if ref_count (devices m d) = 0 then Some (- RT_ERROR, m)
          else do { let m = upd_device d (\<lambda>dv. dv\<lparr>ref_count := ref_count dv - 1\<rparr>) m;
                    if ref_count (devices m d) \<noteq> 0 then Some (RT_EOK, m)
                    else do { (result, m) \<leftarrow> (case device_close (ops P d) of
                                 Some f \<Rightarrow> f d m | None \<Rightarrow> Some (RT_EOK, m));
                              Some (result,
                                if result = RT_EOK \<or> result = - RT_ENOSYS
                                then upd_device d (\<lambda>dv. dv\<lparr>open_flag := RT_DEVICE_OFLAG_CLOSE\<rparr>) m else m) } } }"

definition rt_device_read ::
    "('a, 'h) platform \<Rightarrow> nat \<Rightarrow> int \<Rightarrow> nat \<Rightarrow> 'h machine \<Rightarrow> (string \<times> 'h machine) option" where
  "rt_device_read P d pos sz m =
     do { rt_assert (is_device d m);
          if ref_count (devices m d) = 0 then Some ([], set_errno (- RT_ERROR) m)
          else case device_read (ops P d) of
            Some f \<Rightarrow> f d pos sz m
          | None \<Rightarrow> Some ([], set_errno (- RT_ENOSYS) m) }"

definition rt_device_write ::
    "('a, 'h) platform \<Rightarrow> nat \<Rightarrow> int \<Rightarrow> string \<Rightarrow> 'h machine \<Rightarrow> (nat \<times> 'h machine) option" where
  "rt_device_write P d pos buffer m =
     do { rt_assert (is_device d m);
          if ref_count (devices m d) = 0 then Some (0, set_errno (- RT_ERROR) m)
          else case device_write (ops P d) of
            Some f \<Rightarrow> f d pos buffer m
          | None \<Rightarrow> Some (0, set_errno (- RT_ENOSYS) m) }"

definition rt_device_control ::
    "('a, 'h) platform \<Rightarrow> nat \<Rightarrow> nat \<Rightarrow> 'a \<Rightarrow> 'h machine \<Rightarrow> (rt_err_t \<times> 'h machine) option" where
  "rt_device_control P d cmd arg m =
     do { rt_assert (is_device d m);
          case device_control (ops P d) of
            Some f \<Rightarrow> f d cmd arg m
          | None \<Rightarrow> Some (- RT_ENOSYS, m) }"

definition rt_device_set_rx_indicate ::
    "nat \<Rightarrow> nat option \<Rightarrow> 'h machine \<Rightarrow> (rt_err_t \<times> 'h machine) option" where
  "rt_device_set_rx_indicate d rx_ind m =
     do { rt_assert (is_device d m);
          Some (RT_EOK, upd_device d (\<lambda>dv. dv\<lparr>rx_indicate := rx_ind\<rparr>) m) }"

definition rt_device_set_tx_complete ::
    "nat \<Rightarrow> nat option \<Rightarrow> 'h machine \<Rightarrow> (rt_err_t \<times> 'h machine) option" where
  "rt_device_set_tx_complete d tx_done m =
     do { rt_assert (is_device d m);
          Some (RT_EOK, upd_device d (\<lambda>dv. dv\<lparr>tx_complete := tx_done\<rparr>) m) }"

section \<open>The console\<close>

text \<open>\<open>rt_hw_console_output\<close> of \<open>board.c\<close>.\<close>

definition rt_hw_console_output :: "('a, 'h) platform \<Rightarrow> string \<Rightarrow> 'h machine \<Rightarrow> 'h machine" where
  "rt_hw_console_output P str m = m\<lparr>hw := my_printf P str (hw m)\<rparr>"

definition rt_console_get_device :: "'h machine \<Rightarrow> nat option" where
  "rt_console_get_device m = console_device m"

text \<open>Writing to the console device in stream mode; the flags are put back afterwards.\<close>

definition console_write :: "('a, 'h) platform \<Rightarrow> nat \<Rightarrow> string \<Rightarrow> 'h machine \<Rightarrow> 'h machine option" where
  "console_write P d str m =
     do { let old_flag = open_flag (devices m d);
          let m = upd_device d (\<lambda>dv. dv\<lparr>open_flag := open_flag dv OR RT_DEVICE_FLAG_STREAM\<rparr>) m;
          (n, m) \<leftarrow> rt_device_write P d 0 str m;
          Some (upd_device d (\<lambda>dv. dv\<lparr>open_flag := old_flag\<rparr>) m) }"

definition rt_kputs :: "('a, 'h) platform \<Rightarrow> string option \<Rightarrow> 'h machine \<Rightarrow> 'h machine option" where
  "rt_kputs P str m =
     (case str of
        None \<Rightarrow> Some m
      | Some str \<Rightarrow>
          (case console_device m of
             None \<Rightarrow> Some (rt_hw_console_output P str m)
           | Some d \<Rightarrow> console_write P d str m))"

text \<open>\<open>rt_kprintf\<close>; the static buffer has a memory of its own, at the address 0. Without a device
  the buffer is handed on as a terminated string.\<close>

definition rt_kprintf ::
    "('a, 'h) platform \<Rightarrow> string \<Rightarrow> arg list \<Rightarrow> 'h machine \<Rightarrow> 'h machine option" where
  "rt_kprintf P fmt args m =
     do { (out, buf) \<leftarrow> rt_kprintf_output 0 fmt args (rt_log_buf m);
          let m = m\<lparr>rt_log_buf := buf\<rparr>;
          case console_device m of
            None \<Rightarrow> Some (rt_hw_console_output P (takeWhile (\<lambda>c. c \<noteq> CHR 0x00) (map buf [0..<RT_CONSOLEBUF_SIZE])) m)
          | Some d \<Rightarrow> console_write P d out m }"

text \<open>\<open>hal_printf\<close> of \<open>board.c\<close> does the same with a buffer of its own.\<close>

definition hal_printf ::
    "('a, 'h) platform \<Rightarrow> char_mem \<Rightarrow> string \<Rightarrow> arg list \<Rightarrow> 'h machine \<Rightarrow> (char_mem \<times> 'h machine) option" where
  "hal_printf P buf fmt args m =
     do { let console = rt_console_get_device m;
          (out, buf) \<leftarrow> rt_kprintf_output 0 fmt args buf;
          m \<leftarrow> (case console of
             None \<Rightarrow> Some (rt_hw_console_output P (takeWhile (\<lambda>c. c \<noteq> CHR 0x00) (map buf [0..<RT_CONSOLEBUF_SIZE])) m)
           | Some d \<Rightarrow> console_write P d out m);
          Some (buf, m) }"

section \<open>Initialising and opening\<close>

definition report_failure :: "('a, 'h) platform \<Rightarrow> nat \<Rightarrow> rt_err_t \<Rightarrow> 'h machine \<Rightarrow> 'h machine option" where
  "report_failure P d result m =
     rt_kprintf P (''To initialize device:%s failed. The error code is %d'' @ [CHR 0x0A])
       [AStr (Some (oname (objs (kern m) (OIpc d)))), AInt (word_of_int result)] m"

definition rt_device_init ::
    "('a, 'h) platform \<Rightarrow> nat \<Rightarrow> 'h machine \<Rightarrow> (rt_err_t \<times> 'h machine) option" where
  "rt_device_init P d m =
     (case device_init (ops P d) of
        None \<Rightarrow> Some (RT_EOK, m)
      | Some f \<Rightarrow>
          if initialised (devices m d) then Some (RT_EOK, m)
          else do { (result, m) \<leftarrow> f d m;
                    if result \<noteq> RT_EOK
                    then do { m \<leftarrow> report_failure P d result m; Some (result, m) }
                    else Some (result,
                           upd_device d (\<lambda>dv. dv\<lparr>dev_flag := dev_flag dv OR RT_DEVICE_FLAG_ACTIVATED\<rparr>) m) })"

text \<open>The first part of \<open>rt_device_open\<close>: initialising the device if it is not yet. The flag of a
  returned error says whether it ends the call.\<close>

definition device_activate :: "('a, 'h) platform \<Rightarrow> nat \<Rightarrow> 'h machine \<Rightarrow> (rt_err_t \<times> 'h machine) option" where
  "device_activate P d m =
     (if initialised (devices m d) then Some (RT_EOK, m)
      else do { (result, m) \<leftarrow> (case device_init (ops P d) of
                   None \<Rightarrow> Some (RT_EOK, m) | Some f \<Rightarrow> f d m);
                if result \<noteq> RT_EOK
                then do { m \<leftarrow> report_failure P d result m; Some (result, m) }
                else Some (result,
                       upd_device d (\<lambda>dv. dv\<lparr>dev_flag := dev_flag dv OR RT_DEVICE_FLAG_ACTIVATED\<rparr>) m) })"

definition rt_device_open ::
    "('a, 'h) platform \<Rightarrow> nat \<Rightarrow> u16 \<Rightarrow> 'h machine \<Rightarrow> (rt_err_t \<times> 'h machine) option" where
  "rt_device_open P d oflags m =
     do { rt_assert (is_device d m);
          (result, m) \<leftarrow> device_activate P d m;
          if result \<noteq> RT_EOK then Some (result, m)
          else if standalone (devices m d) \<and> opened (devices m d) then Some (- RT_EBUSY, m)
          else do { (result, m) \<leftarrow> (case device_open (ops P d) of
                       Some f \<Rightarrow> f d oflags m
                     | None \<Rightarrow> Some (RT_EOK,
                         upd_device d (\<lambda>dv. dv\<lparr>open_flag := oflags AND RT_DEVICE_OFLAG_MASK\<rparr>) m));
                    if result = RT_EOK \<or> result = - RT_ENOSYS
                    then do { let m = upd_device d (\<lambda>dv. dv\<lparr>open_flag := open_flag dv OR RT_DEVICE_OFLAG_OPEN,
                                                             ref_count := ref_count dv + 1\<rparr>) m;
                              rt_assert (ref_count (devices m d) \<noteq> 0);
                              Some (result, m) }
                    else Some (result, m) } }"

definition rt_console_set_device ::
    "('a, 'h) platform \<Rightarrow> string option \<Rightarrow> 'h machine \<Rightarrow> (nat option \<times> 'h machine) option" where
  "rt_console_set_device P name m =
     do { let old_device = console_device m;
          (new_device, m) \<leftarrow> rt_device_find name m;
          if new_device = old_device then Some (None, m)
          else do { m \<leftarrow> (case new_device of
                       None \<Rightarrow> Some m
                     | Some d \<Rightarrow>
                         do { m \<leftarrow> (case console_device m of
                                 None \<Rightarrow> Some m
                               | Some c \<Rightarrow> do { (r, m) \<leftarrow> rt_device_close P c m; Some m });
                              (r, m) \<leftarrow> rt_device_open P d (RT_DEVICE_OFLAG_RDWR OR RT_DEVICE_FLAG_STREAM) m;
                              Some (m\<lparr>console_device := Some d\<rparr>) });
                    Some (old_device, m) } }"

section \<open>Drivers\<close>

text \<open>What the layer relies on from a driver's function called for the device \<open>d\<close>: it leaves the
  object headers, the reference counts, the two bits of \<open>dev_flag\<close> that the layer owns and all
  other devices alone.\<close>

definition owned :: "u16 \<Rightarrow> u16" where
  "owned fl = fl AND (RT_DEVICE_FLAG_ACTIVATED OR RT_DEVICE_FLAG_STANDALONE)"

definition driver_frame :: "nat \<Rightarrow> 'h machine \<Rightarrow> 'h machine \<Rightarrow> bool" where
  "driver_frame d m m' \<longleftrightarrow> objs (kern m') = objs (kern m) \<and> container (kern m') = container (kern m)
     \<and> console_device m' = console_device m
     \<and> ref_count (devices m' d) = ref_count (devices m d)
     \<and> owned (dev_flag (devices m' d)) = owned (dev_flag (devices m d))
     \<and> (\<forall>e. e \<noteq> d \<longrightarrow> devices m' e = devices m e)"

text \<open>All but a successful \<open>open\<close> leave the open bit alone as well.\<close>

definition driver_quiet :: "nat \<Rightarrow> 'h machine \<Rightarrow> 'h machine \<Rightarrow> bool" where
  "driver_quiet d m m' \<longleftrightarrow> driver_frame d m m' \<and> opened (devices m' d) = opened (devices m d)"

locale drivers =
  fixes P :: "('a, 'h) platform"
  assumes init_quiet: "device_init (ops P d) = Some f1 \<Longrightarrow> f1 d m = Some (r, m') \<Longrightarrow> driver_quiet d m m'"
    and open_frame: "device_open (ops P d) = Some f2 \<Longrightarrow> f2 d oflags m = Some (r, m') \<Longrightarrow> driver_frame d m m'"
    and open_fails: "device_open (ops P d) = Some f2 \<Longrightarrow> f2 d oflags m = Some (r, m') \<Longrightarrow>
                       r \<noteq> RT_EOK \<Longrightarrow> r \<noteq> - RT_ENOSYS \<Longrightarrow> driver_quiet d m m'"
    and close_quiet: "device_close (ops P d) = Some f3 \<Longrightarrow> f3 d m = Some (r, m') \<Longrightarrow> driver_quiet d m m'"
    and read_quiet: "device_read (ops P d) = Some f4 \<Longrightarrow> f4 d pos n m = Some (s, m') \<Longrightarrow> driver_quiet d m m'"
    and write_quiet: "device_write (ops P d) = Some f5 \<Longrightarrow> f5 d pos b m = Some (w, m') \<Longrightarrow> driver_quiet d m m'"
    and control_quiet: "device_control (ops P d) = Some f6 \<Longrightarrow> f6 d cmd arg m = Some (r, m') \<Longrightarrow> driver_quiet d m m'"

section \<open>What the calls keep\<close>

text \<open>The object system's calls change no object header but the one they register.\<close>

lemma schedule_objs:
  assumes "rt_schedule k = Some k'"
  shows "objs k' = objs k" "container k' = container k"
  using assms
  by (auto simp: rt_schedule_def schedule_switch_def rt_schedule_remove_thread_def
    rt_schedule_insert_thread_def Let_def bind_eq_Some_conv split: if_splits)

lemma exit_critical_objs:
  assumes "rt_exit_critical k = Some k'"
  shows "objs k' = objs k" "container k' = container k"
  using assms schedule_objs by (fastforce simp: rt_exit_critical_def Let_def split: if_splits)+

lemma rt_object_find_objs:
  assumes "rt_object_find name ty k = Some (r, k')"
  shows "objs k' = objs k" "container k' = container k"
  using assms exit_critical_objs [of "rt_enter_critical k"]
  by (auto simp: rt_object_find_def Let_def bind_eq_Some_conv split: option.splits)

lemma rt_object_init_objs:
  assumes "rt_object_init r ty name k = Some k'"
  shows "objs k' = (objs k)(r := (objs k r)\<lparr>otype := ty OR RT_Object_Class_Static, oname := take RT_NAME_MAX name\<rparr>)"
  using assms exit_critical_objs [of "rt_enter_critical k"]
  by (auto simp: rt_object_init_def Let_def bind_eq_Some_conv split: option.splits)

lemma rt_device_find_same:
  assumes "rt_device_find name m = Some (r, m')"
  shows "devices m' = devices m" "console_device m' = console_device m" "is_device d m' = is_device d m"
  using assms rt_object_find_objs
  by (auto simp: rt_device_find_def is_device_def rt_object_get_type_def bind_eq_Some_conv)

text \<open>What the layer sees of the devices: it is kept by whatever leaves them alone up to the
  parts that belong to the drivers.\<close>

definition layer_frame :: "'h machine \<Rightarrow> 'h machine \<Rightarrow> bool" where
  "layer_frame m m' \<longleftrightarrow> console_device m' = console_device m
     \<and> (\<forall>d. is_device d m' = is_device d m \<and> ref_count (devices m' d) = ref_count (devices m d)
          \<and> owned (dev_flag (devices m' d)) = owned (dev_flag (devices m d))
          \<and> opened (devices m' d) = opened (devices m d))"

lemma layer_frame_refl [simp]: "layer_frame m m"
  by (simp add: layer_frame_def)

lemma layer_frame_trans: "layer_frame m m' \<Longrightarrow> layer_frame m' m'' \<Longrightarrow> layer_frame m m''"
  by (simp add: layer_frame_def)

lemma driver_quiet_layer: "driver_quiet d m m' \<Longrightarrow> layer_frame m m'"
  unfolding driver_quiet_def driver_frame_def layer_frame_def is_device_def rt_object_get_type_def
  by metis

lemma set_errno_layer: "layer_frame m (set_errno e m)"
  by (simp add: layer_frame_def set_errno_def is_device_def)

lemma device_upd [simp]:
  "devices (upd_device d f m) = (devices m)(d := f (devices m d))"
  "kern (upd_device d f m) = kern m" "console_device (upd_device d f m) = console_device m"
  "hw (upd_device d f m) = hw m" "rt_log_buf (upd_device d f m) = rt_log_buf m"
  "is_device e (upd_device d f m) = is_device e m"
  by (simp_all add: upd_device_def is_device_def)

text \<open>The layer's own two bits do not meddle with each other.\<close>

lemma owned_activated: "owned a = owned b \<Longrightarrow> (a AND 0x010 = 0) = (b AND 0x010 = 0)"
proof -
  have "owned c AND 0x010 = c AND 0x010" for c by (simp add: owned_def and.assoc)
  then show "owned a = owned b \<Longrightarrow> (a AND 0x010 = 0) = (b AND 0x010 = 0)" by metis
qed

lemma owned_standalone: "owned a = owned b \<Longrightarrow> (a AND 0x008 = 0) = (b AND 0x008 = 0)"
proof -
  have "owned c AND 0x008 = c AND 0x008" for c by (simp add: owned_def and.assoc)
  then show "owned a = owned b \<Longrightarrow> (a AND 0x008 = 0) = (b AND 0x008 = 0)" by metis
qed

lemma or_bits:
  fixes a :: u16
  shows "(a OR 0x010) AND 0x010 \<noteq> 0" "(a OR 0x010) AND 0x008 = a AND 0x008"
    and "(a OR 0x008) AND 0x008 \<noteq> 0" "(a OR 0x040) AND 0x008 = a AND 0x008"
proof -
  have "bit ((a OR 0x010) AND 0x010) 4" "bit ((a OR 0x008) AND 0x008) 3"
    by (simp_all add: bit_simps)
  then show "(a OR 0x010) AND 0x010 \<noteq> 0" "(a OR 0x008) AND 0x008 \<noteq> 0" by auto
  show "(a OR 0x010) AND 0x008 = a AND 0x008" "(a OR 0x040) AND 0x008 = a AND 0x008"
    by (simp_all add: bit.conj_disj_distrib2)
qed

text \<open>A device in use is initialised and marked open, and a standalone one has one user.\<close>

definition device_ok :: "rt_device \<Rightarrow> bool" where
  "device_ok dv \<longleftrightarrow> (ref_count dv \<noteq> 0 \<longrightarrow> initialised dv \<and> opened dv)
     \<and> (standalone dv \<longrightarrow> ref_count dv \<le> 1)"

definition devices_ok :: "'h machine \<Rightarrow> bool" where
  "devices_ok m \<longleftrightarrow> (\<forall>d. is_device d m \<longrightarrow> device_ok (devices m d))"

lemma layer_frame_ok:
  assumes "layer_frame m m'" and "devices_ok m"
  shows "devices_ok m'"
proof -
  have "device_ok (devices m' d)" if "is_device d m'" for d
  proof -
    have fr: "is_device d m" "ref_count (devices m' d) = ref_count (devices m d)"
      "owned (dev_flag (devices m' d)) = owned (dev_flag (devices m d))"
      "opened (devices m' d) = opened (devices m d)"
      using assms(1) that by (simp_all add: layer_frame_def)
    then show ?thesis
      using assms(2) owned_activated [OF fr(3)] owned_standalone [OF fr(3)]
      by (simp add: devices_ok_def device_ok_def initialised_def standalone_def)
  qed
  then show ?thesis by (simp add: devices_ok_def)
qed

text \<open>As \<open>layer_frame\<close>, but a device may have been initialised.\<close>

definition layer_keeps :: "'h machine \<Rightarrow> 'h machine \<Rightarrow> bool" where
  "layer_keeps m m' \<longleftrightarrow> console_device m' = console_device m
     \<and> (\<forall>d. is_device d m' = is_device d m \<and> ref_count (devices m' d) = ref_count (devices m d)
          \<and> opened (devices m' d) = opened (devices m d)
          \<and> standalone (devices m' d) = standalone (devices m d)
          \<and> (initialised (devices m d) \<longrightarrow> initialised (devices m' d)))"

lemma layer_frame_keeps:
  assumes "layer_frame m m'"
  shows "layer_keeps m m'"
proof -
  have "owned (dev_flag (devices m' d)) = owned (dev_flag (devices m d))" for d
    using assms by (simp add: layer_frame_def)
  note this [THEN owned_activated] this [THEN owned_standalone]
  then show ?thesis
    using assms by (simp add: layer_keeps_def layer_frame_def initialised_def standalone_def)
qed

lemma layer_keeps_refl [simp]: "layer_keeps m m"
  by (simp add: layer_keeps_def)

lemma layer_keeps_trans: "layer_keeps m m' \<Longrightarrow> layer_keeps m' m'' \<Longrightarrow> layer_keeps m m''"
  by (simp add: layer_keeps_def)

lemma layer_keeps_ok: "layer_keeps m m' \<Longrightarrow> devices_ok m \<Longrightarrow> devices_ok m'"
  by (simp add: layer_keeps_def devices_ok_def device_ok_def)

lemma activating_keeps:
  "layer_keeps m (upd_device d (\<lambda>dv. dv\<lparr>dev_flag := dev_flag dv OR RT_DEVICE_FLAG_ACTIVATED\<rparr>) m)"
  "initialised (devices (upd_device d (\<lambda>dv. dv\<lparr>dev_flag := dev_flag dv OR RT_DEVICE_FLAG_ACTIVATED\<rparr>) m) d)"
  using or_bits(1,2) by (simp_all add: layer_keeps_def initialised_def standalone_def opened_def)

context drivers begin

lemma write_layer:
  assumes "rt_device_write P d pos b m = Some (n, m')"
  shows "layer_frame m m'"
  using assms set_errno_layer driver_quiet_layer [OF write_quiet]
  by (auto simp: rt_device_write_def split: if_splits option.splits)

lemma read_layer:
  assumes "rt_device_read P d pos n m = Some (s, m')"
  shows "layer_frame m m'"
  using assms set_errno_layer driver_quiet_layer [OF read_quiet]
  by (auto simp: rt_device_read_def split: if_splits option.splits)

lemma control_layer:
  assumes "rt_device_control P d cmd arg m = Some (r, m')"
  shows "layer_frame m m'"
  using assms driver_quiet_layer [OF control_quiet]
  by (auto simp: rt_device_control_def split: option.splits)

lemma console_write_layer:
  assumes "console_write P d str m = Some m'"
  shows "layer_frame m m'"
proof -
  let ?m1 = "upd_device d (\<lambda>dv. dv\<lparr>open_flag := open_flag dv OR RT_DEVICE_FLAG_STREAM\<rparr>) m"
  obtain n m2 where w: "rt_device_write P d 0 str ?m1 = Some (n, m2)"
    and m': "m' = upd_device d (\<lambda>dv. dv\<lparr>open_flag := open_flag (devices m d)\<rparr>) m2"
    using assms by (auto simp: console_write_def Let_def bind_eq_Some_conv)
  have "layer_frame m ?m1"
    by (simp add: layer_frame_def opened_def or_bits)
  then have fr: "layer_frame m m2" using write_layer [OF w] layer_frame_trans by blast
  then have "opened (devices m2 d) = opened (devices m d)" by (simp add: layer_frame_def)
  then show ?thesis using fr by (simp add: m' layer_frame_def) (simp add: opened_def)
qed

lemma console_out_layer:
  "layer_frame m (m\<lparr>rt_log_buf := b\<rparr>)" "layer_frame m (rt_hw_console_output P s m)"
  by (simp_all add: layer_frame_def rt_hw_console_output_def is_device_def)

lemma kputs_layer:
  assumes "rt_kputs P str m = Some m'"
  shows "layer_frame m m'"
  using assms console_out_layer console_write_layer
  by (auto simp: rt_kputs_def split: option.splits)

lemma kprintf_layer:
  assumes "rt_kprintf P fmt args m = Some m'"
  shows "layer_frame m m'"
proof -
  obtain out buf where "rt_kprintf_output 0 fmt args (rt_log_buf m) = Some (out, buf)"
    using assms by (auto simp: rt_kprintf_def bind_eq_Some_conv)
  then have "layer_frame (m\<lparr>rt_log_buf := buf\<rparr>) m'"
    using assms console_out_layer console_write_layer
    by (auto simp: rt_kprintf_def Let_def split: option.splits)
  then show ?thesis using console_out_layer(1) layer_frame_trans by blast
qed

lemma hal_printf_layer:
  assumes "hal_printf P buf fmt args m = Some (buf', m')"
  shows "layer_frame m m'"
  using assms console_out_layer console_write_layer
  by (auto simp: hal_printf_def rt_console_get_device_def bind_eq_Some_conv split: option.splits)

lemma report_layer: "report_failure P d r m = Some m' \<Longrightarrow> layer_frame m m'"
  unfolding report_failure_def by (rule kprintf_layer)

lemma after_init:
  assumes "if r \<noteq> RT_EOK then report_failure P d r m1 = Some m'
           else m' = upd_device d (\<lambda>dv. dv\<lparr>dev_flag := dev_flag dv OR RT_DEVICE_FLAG_ACTIVATED\<rparr>) m1"
  shows "layer_keeps m1 m' \<and> (r = RT_EOK \<longrightarrow> initialised (devices m' d))"
proof (cases "r = RT_EOK")
  case True
  then have "m' = upd_device d (\<lambda>dv. dv\<lparr>dev_flag := dev_flag dv OR RT_DEVICE_FLAG_ACTIVATED\<rparr>) m1"
    using assms by simp
  then show ?thesis using activating_keeps by blast
next
  case False
  then show ?thesis using assms layer_frame_keeps [OF report_layer] by simp
qed

lemma init_layer:
  assumes "rt_device_init P d m = Some (r, m')"
  shows "layer_keeps m m'"
proof (cases "device_init (ops P d)")
  case (Some f)
  show ?thesis
  proof (cases "initialised (devices m d)")
    case False
    then obtain m1 where m1: "f d m = Some (r, m1)"
      and rest: "if r \<noteq> RT_EOK then report_failure P d r m1 = Some m'
                 else m' = upd_device d (\<lambda>dv. dv\<lparr>dev_flag := dev_flag dv OR RT_DEVICE_FLAG_ACTIVATED\<rparr>) m1"
      using assms Some by (auto simp: rt_device_init_def bind_eq_Some_conv split: if_splits)
    have "layer_keeps m m1" using layer_frame_keeps [OF driver_quiet_layer [OF init_quiet [OF Some m1]]] .
    moreover have "layer_keeps m1 m'" using after_init [OF rest] by (rule conjunct1)
    ultimately show ?thesis by (rule layer_keeps_trans)
  qed (use assms Some in \<open>simp add: rt_device_init_def\<close>)
qed (use assms in \<open>simp add: rt_device_init_def\<close>)

lemma activate_layer:
  assumes "device_activate P d m = Some (r, m')"
  shows "layer_keeps m m'" "r = RT_EOK \<Longrightarrow> initialised (devices m' d)"
proof -
  have "layer_keeps m m' \<and> (r = RT_EOK \<longrightarrow> initialised (devices m' d))"
  proof (cases "initialised (devices m d)")
    case False
    then obtain m1 where m1: "(case device_init (ops P d) of None \<Rightarrow> Some (RT_EOK, m) | Some f \<Rightarrow> f d m) = Some (r, m1)"
      and rest: "if r \<noteq> RT_EOK then report_failure P d r m1 = Some m'
                 else m' = upd_device d (\<lambda>dv. dv\<lparr>dev_flag := dev_flag dv OR RT_DEVICE_FLAG_ACTIVATED\<rparr>) m1"
      using assms by (auto simp: device_activate_def bind_eq_Some_conv split: if_splits)
    have "layer_keeps m m1"
      using m1 layer_frame_keeps [OF driver_quiet_layer [OF init_quiet]] by (auto split: option.splits)
    moreover note after_init [OF rest]
    ultimately show ?thesis using layer_keeps_trans by blast
  qed (use assms in \<open>simp add: device_activate_def\<close>)
  then show "layer_keeps m m'" "r = RT_EOK \<Longrightarrow> initialised (devices m' d)" by simp_all
qed

end

text \<open>The rest of \<open>rt_device_open\<close>, between the driver's \<open>open\<close> and the count.\<close>

lemma opening_ok:
  assumes ok: "devices_ok m1" "is_device d m1" and act: "initialised (devices m1 d)"
    and free: "\<not> (standalone (devices m1 d) \<and> opened (devices m1 d))"
    and same: "\<forall>e. is_device e m2 = is_device e m1" "\<forall>e. e \<noteq> d \<longrightarrow> devices m2 e = devices m1 e"
      "ref_count (devices m2 d) = ref_count (devices m1 d)"
      "owned (dev_flag (devices m2 d)) = owned (dev_flag (devices m1 d))"
    and m': "m' = upd_device d (\<lambda>dv. dv\<lparr>open_flag := open_flag dv OR RT_DEVICE_OFLAG_OPEN,
                                          ref_count := ref_count dv + 1\<rparr>) m2"
    and nz: "ref_count (devices m' d) \<noteq> 0"
  shows "devices_ok m' \<and> ref_count (devices m' d) = ref_count (devices m1 d) + 1
     \<and> ref_count (devices m1 d) \<noteq> 255 \<and> initialised (devices m' d) \<and> opened (devices m' d)
     \<and> (standalone (devices m' d) \<longrightarrow> ref_count (devices m1 d) = 0)"
proof -
  let ?n = "ref_count (devices m1 d)"
  have n: "ref_count (devices m' d) = ?n + 1" using same(3) by (simp add: m')
  have n255: "?n \<noteq> 255" using nz n by auto
  have act': "initialised (devices m' d)"
    using act owned_activated [OF same(4)] by (simp add: m' initialised_def)
  have st: "standalone (devices m' d) = standalone (devices m1 d)"
    using owned_standalone [OF same(4)] by (simp add: m' standalone_def)
  have op: "opened (devices m' d)" using or_bits(3) by (simp add: m' opened_def)
  have alone: "standalone (devices m' d) \<longrightarrow> ?n = 0"
    using free ok by (auto simp: st devices_ok_def device_ok_def)
  have "device_ok (devices m' e)" if "is_device e m'" for e
  proof (cases "e = d")
    case True
    then show ?thesis using act' op alone n by (simp add: device_ok_def)
  next
    case False
    then show ?thesis using that ok(1) same by (simp add: m' devices_ok_def)
  qed
  then show ?thesis using n n255 act' op alone by (simp add: devices_ok_def)
qed

context drivers begin

lemma open_done:
  assumes ok: "devices_ok m" and call: "rt_device_open P d oflags m = Some (r, m')"
  shows "(r = RT_EOK \<or> r = - RT_ENOSYS)
            \<and> devices_ok m' \<and> ref_count (devices m' d) = ref_count (devices m d) + 1
            \<and> ref_count (devices m d) \<noteq> 255 \<and> initialised (devices m' d) \<and> opened (devices m' d)
            \<and> (standalone (devices m' d) \<longrightarrow> ref_count (devices m d) = 0)
         \<or> r \<noteq> RT_EOK \<and> layer_keeps m m'"
proof -
  have dev: "is_device d m" using call by (auto simp: rt_device_open_def)
  obtain r1 m1 where a: "device_activate P d m = Some (r1, m1)"
    using call by (auto simp: rt_device_open_def bind_eq_Some_conv)
  note k1 = activate_layer [OF a]
  have ok1: "devices_ok m1" by (rule layer_keeps_ok [OF k1(1) ok])
  have n1: "ref_count (devices m1 d) = ref_count (devices m d)" "is_device d m1"
    using k1(1) dev by (simp_all add: layer_keeps_def)
  consider (failed) "r1 \<noteq> RT_EOK" | (busy) "r1 = RT_EOK" "standalone (devices m1 d) \<and> opened (devices m1 d)"
    | (free) "r1 = RT_EOK" "\<not> (standalone (devices m1 d) \<and> opened (devices m1 d))" by blast
  then show ?thesis
  proof cases
    case failed
    then show ?thesis using call dev a k1(1) by (simp add: rt_device_open_def)
  next
    case busy
    then have "r = - RT_EBUSY" "m' = m1" using call dev a by (simp_all add: rt_device_open_def)
    then show ?thesis using k1(1) by simp
  next
    case free
    let ?drv = "case device_open (ops P d) of
                  Some f \<Rightarrow> f d oflags m1
                | None \<Rightarrow> Some (RT_EOK, upd_device d (\<lambda>dv. dv\<lparr>open_flag := oflags AND RT_DEVICE_OFLAG_MASK\<rparr>) m1)"
    obtain r2 m2 where drv: "?drv = Some (r2, m2)"
      using call dev a free by (cases ?drv) (auto simp: rt_device_open_def)
    let ?m' = "upd_device d (\<lambda>dv. dv\<lparr>open_flag := open_flag dv OR RT_DEVICE_OFLAG_OPEN,
                                          ref_count := ref_count dv + 1\<rparr>) m2"
    have tail: "(if r2 = RT_EOK \<or> r2 = - RT_ENOSYS
        then do { rt_assert (ref_count (devices ?m' d) \<noteq> 0); Some (r2, ?m') } else Some (r2, m2)) = Some (r, m')"
      using call dev a free drv
      by (cases "r2 = RT_EOK \<or> r2 = - RT_ENOSYS") (auto simp: rt_device_open_def Let_def)
    then have "r2 = r" by (auto split: if_splits)
    then have m2: "?drv = Some (r, m2)" using drv by simp
    have rest: "if r = RT_EOK \<or> r = - RT_ENOSYS
        then m' = ?m' \<and> ref_count (devices m' d) \<noteq> 0 else m' = m2"
      using tail \<open>r2 = r\<close> by (auto split: if_splits)
    have same: "\<forall>e. is_device e m2 = is_device e m1" "\<forall>e. e \<noteq> d \<longrightarrow> devices m2 e = devices m1 e"
      "ref_count (devices m2 d) = ref_count (devices m1 d)"
      "owned (dev_flag (devices m2 d)) = owned (dev_flag (devices m1 d))"
      using m2 open_frame
      by (fastforce simp: driver_frame_def is_device_def rt_object_get_type_def split: option.splits)+
    show ?thesis
    proof (cases "r = RT_EOK \<or> r = - RT_ENOSYS")
      case True
      have up: "m' = ?m'" "ref_count (devices m' d) \<noteq> 0" using rest unfolding if_P [OF True] by blast+
      show ?thesis
        using opening_ok [OF ok1 n1(2) k1(2) [OF free(1)] free(2) same up] True
        unfolding n1(1) by blast
    next
      case False
      then obtain f where f: "device_open (ops P d) = Some f" "f d oflags m1 = Some (r, m2)"
        using m2 by (auto split: option.splits)
      then have "layer_keeps m1 m2"
        using layer_frame_keeps [OF driver_quiet_layer [OF open_fails [OF f]]] False by blast
      then show ?thesis using False rest k1(1) layer_keeps_trans by auto
    qed
  qed
qed

lemma close_done:
  assumes ok: "devices_ok m" and call: "rt_device_close P d m = Some (r, m')"
  shows "devices_ok m' \<and>
    (if ref_count (devices m d) = 0 then r = - RT_ERROR \<and> m' = m
     else ref_count (devices m' d) = ref_count (devices m d) - 1)"
proof -
  have dev: "is_device d m" using call by (auto simp: rt_device_close_def)
  show ?thesis
  proof (cases "ref_count (devices m d) = 0")
    case False
    let ?m1 = "upd_device d (\<lambda>dv. dv\<lparr>ref_count := ref_count dv - 1\<rparr>) m"
    have le: "ref_count (devices m d) - 1 \<le> 1" if "ref_count (devices m d) \<le> 1"
      using that False by (simp add: word_le_nat_alt unat_minus_one)
    have "device_ok (devices ?m1 d)"
      using ok dev le False
      by (auto simp: devices_ok_def device_ok_def initialised_def opened_def standalone_def)
    then have ok1: "devices_ok ?m1" using ok by (simp add: devices_ok_def)
    show ?thesis
    proof (cases "ref_count (devices ?m1 d) = 0")
      case True
      obtain m2 where m2: "(case device_close (ops P d) of Some f \<Rightarrow> f d ?m1 | None \<Rightarrow> Some (RT_EOK, ?m1)) = Some (r, m2)"
        and m': "m' = (if r = RT_EOK \<or> r = - RT_ENOSYS
                 then upd_device d (\<lambda>dv. dv\<lparr>open_flag := RT_DEVICE_OFLAG_CLOSE\<rparr>) m2 else m2)"
        using call dev False True by (auto simp: rt_device_close_def Let_def bind_eq_Some_conv)
      have fr: "layer_frame ?m1 m2"
        using m2 driver_quiet_layer [OF close_quiet] by (auto split: option.splits)
      have ok2: "devices_ok m2" by (rule layer_frame_ok [OF fr ok1])
      have n2: "ref_count (devices m2 d) = 0" using fr True by (simp add: layer_frame_def)
      have "devices_ok m'"
        using ok2 n2 by (auto simp: m' devices_ok_def device_ok_def standalone_def)
      moreover have "ref_count (devices m' d) = ref_count (devices m d) - 1"
        using n2 True by (simp add: m')
      ultimately show ?thesis using False by simp
    next
      case more: False
      then have "m' = ?m1" using call dev False by (simp add: rt_device_close_def Let_def)
      then show ?thesis using ok1 False by simp
    qed
  qed (use call dev ok in \<open>simp add: rt_device_close_def\<close>)
qed

end

section \<open>Any call\<close>

datatype 'a device_call =
    DevInit nat
  | DevOpen nat u16
  | DevClose nat
  | DevRead nat int nat
  | DevWrite nat int string
  | DevControl nat nat 'a
  | DevUnregister nat
  | SetConsole "string option"
  | KPuts "string option"
  | KPrintf string "arg list"
  | HalPrintf char_mem string "arg list"
  | DevFind "string option"
  | DevRegister "nat option" string u16
  | DevCreate "nat option" nat
  | DevDestroy nat
  | SetRxIndicate nat "nat option"
  | SetTxComplete nat "nat option"

text \<open>The state a call leaves.\<close>

fun device_do :: "('a, 'h) platform \<Rightarrow> 'a device_call \<Rightarrow> 'h machine \<Rightarrow> 'h machine option" where
  "device_do P (DevInit d) m = map_option snd (rt_device_init P d m)"
| "device_do P (DevOpen d fl) m = map_option snd (rt_device_open P d fl m)"
| "device_do P (DevClose d) m = map_option snd (rt_device_close P d m)"
| "device_do P (DevRead d pos n) m = map_option snd (rt_device_read P d pos n m)"
| "device_do P (DevWrite d pos b) m = map_option snd (rt_device_write P d pos b m)"
| "device_do P (DevControl d cmd arg) m = map_option snd (rt_device_control P d cmd arg m)"
| "device_do P (DevUnregister d) m = map_option snd (rt_device_unregister d m)"
| "device_do P (SetConsole name) m = map_option snd (rt_console_set_device P name m)"
| "device_do P (KPuts s) m = rt_kputs P s m"
| "device_do P (KPrintf fmt args) m = rt_kprintf P fmt args m"
| "device_do P (HalPrintf buf fmt args) m = map_option snd (hal_printf P buf fmt args m)"
| "device_do P (DevFind name) m = map_option snd (rt_device_find name m)"
| "device_do P (DevRegister dev name fl) m = map_option snd (rt_device_register dev name fl m)"
| "device_do P (DevCreate mem ty) m = Some (snd (rt_device_create mem ty m))"
| "device_do P (DevDestroy d) m = map_option snd (rt_device_destroy d m)"
| "device_do P (SetRxIndicate d f) m = map_option snd (rt_device_set_rx_indicate d f m)"
| "device_do P (SetTxComplete d f) m = map_option snd (rt_device_set_tx_complete d f m)"

lemma detach_type:
  "rt_object_get_type r (rt_object_detach s k) = (if r = s then 0 else rt_object_get_type r k)"
  by (simp add: rt_object_detach_def rt_object_get_type_def Let_def)

lemma unregister_done:
  assumes "devices_ok m" and "rt_device_unregister d m = Some (r, m')"
  shows "devices_ok m'"
  using assms by (auto simp: rt_device_unregister_def devices_ok_def is_device_def detach_type split: if_splits)

lemma register_done:
  assumes ok: "devices_ok m" and call: "rt_device_register (Some d) name fl m = Some (r, m')"
  shows "devices_ok m' \<and> (r = RT_EOK \<longrightarrow> is_device d m' \<and> ref_count (devices m' d) = 0)"
proof -
  obtain f m1 where f: "rt_device_find (Some name) m = Some (f, m1)"
    using call by (auto simp: rt_device_register_def bind_eq_Some_conv)
  have ok1: "devices_ok m1" using ok rt_device_find_same [OF f] by (simp add: devices_ok_def)
  show ?thesis
  proof (cases f)
    case None
    then obtain k where k: "rt_object_init (OIpc d) RT_Object_Class_Device name (kern m1) = Some k"
      and m': "r = RT_EOK" "m' = upd_device d (\<lambda>dv. dv\<lparr>dev_flag := fl, ref_count := 0, open_flag := 0\<rparr>) (m1\<lparr>kern := k\<rparr>)"
      using call f by (auto simp: rt_device_register_def Let_def bind_eq_Some_conv)
    have objs: "objs k = (objs (kern m1))(OIpc d := (objs (kern m1) (OIpc d))
        \<lparr>otype := RT_Object_Class_Device OR RT_Object_Class_Static, oname := take RT_NAME_MAX name\<rparr>)"
      by (rule rt_object_init_objs [OF k])
    have dev: "is_device e m' = (e = d \<or> is_device e m1)" for e
      by (auto simp: m' is_device_def rt_object_get_type_def objs)
    then show ?thesis
      using ok1 by (auto simp: m' devices_ok_def dev device_ok_def)
  next
    case (Some x)
    then show ?thesis using call f ok1 by (simp add: rt_device_register_def)
  qed
qed

lemma find_done:
  assumes "devices_ok m" and "rt_device_find name m = Some (f, m')"
  shows "devices_ok m'"
  using assms rt_device_find_same [OF assms(2)] by (simp add: devices_ok_def)

lemma create_done:
  assumes "devices_ok m"
  shows "devices_ok (snd (rt_device_create mem ty m))"
  using assms by (cases mem)
    (auto simp: rt_device_create_def Let_def devices_ok_def is_device_def rt_object_get_type_def)

lemma destroy_done:
  assumes "devices_ok m" and "rt_device_destroy d m = Some (p, m')"
  shows "devices_ok m'"
  using assms by (auto simp: rt_device_destroy_def devices_ok_def is_device_def detach_type split: if_splits)

lemma callbacks_done:
  assumes "devices_ok m"
  shows "rt_device_set_rx_indicate d f m = Some (r, m') \<Longrightarrow> devices_ok m'"
    "rt_device_set_tx_complete d f m = Some (r, m') \<Longrightarrow> devices_ok m'"
proof -
  have "device_ok (dv\<lparr>rx_indicate := f\<rparr>) = device_ok dv" "device_ok (dv\<lparr>tx_complete := f\<rparr>) = device_ok dv" for dv
    by (simp_all add: device_ok_def initialised_def opened_def standalone_def)
  then show "rt_device_set_rx_indicate d f m = Some (r, m') \<Longrightarrow> devices_ok m'"
    "rt_device_set_tx_complete d f m = Some (r, m') \<Longrightarrow> devices_ok m'"
    using assms by (auto simp: rt_device_set_rx_indicate_def rt_device_set_tx_complete_def devices_ok_def)
qed

context drivers begin

lemma set_console_done:
  assumes ok: "devices_ok m" and call: "rt_console_set_device P name m = Some (r, m')"
  shows "devices_ok m'"
proof -
  obtain f m1 where f: "rt_device_find name m = Some (f, m1)"
    using call by (auto simp: rt_console_set_device_def Let_def bind_eq_Some_conv)
  have ok1: "devices_ok m1" using ok rt_device_find_same [OF f] by (simp add: devices_ok_def)
  show ?thesis
  proof (cases "f = console_device m \<or> f = None")
    case True
    then have "m' = m1" using call f by (auto simp: rt_console_set_device_def Let_def split: if_splits)
    then show ?thesis using ok1 by simp
  next
    case False
    then obtain d where d: "f = Some d" by auto
    obtain m2 where m2: "(case console_device m1 of None \<Rightarrow> Some m1
        | Some c \<Rightarrow> do { (r, m) \<leftarrow> rt_device_close P c m1; Some m }) = Some m2"
      using call f d False
      by (auto simp: rt_console_set_device_def Let_def bind_eq_Some_conv split: if_splits)
    then obtain r3 m3 where m3: "rt_device_open P d (RT_DEVICE_OFLAG_RDWR OR RT_DEVICE_FLAG_STREAM) m2 = Some (r3, m3)"
      and m': "m' = m3\<lparr>console_device := Some d\<rparr>"
      using call f d False
      by (auto simp: rt_console_set_device_def Let_def bind_eq_Some_conv split: if_splits)
    have "devices_ok m2" using m2 ok1 close_done by (auto simp: bind_eq_Some_conv split: option.splits)
    then have "devices_ok m3" using open_done [OF _ m3] layer_keeps_ok by blast
    then show ?thesis by (simp add: m' devices_ok_def is_device_def)
  qed
qed

lemma device_do_ok:
  assumes "devices_ok m" and "device_do P c m = Some m'"
  shows "devices_ok m'"
proof (cases c)
  case (DevOpen d fl)
  then obtain r where "rt_device_open P d fl m = Some (r, m')" using assms(2) by auto
  then show ?thesis using open_done [OF assms(1)] layer_keeps_ok [OF _ assms(1)] by blast
next
  case (DevClose d)
  then obtain r where "rt_device_close P d m = Some (r, m')" using assms(2) by auto
  then show ?thesis using close_done [OF assms(1)] by blast
next
  case (DevUnregister d)
  then show ?thesis using assms unregister_done by auto
next
  case (SetConsole name)
  then show ?thesis using assms set_console_done by auto
next
  case (DevInit d)
  then obtain r where "rt_device_init P d m = Some (r, m')" using assms(2) by auto
  then show ?thesis using init_layer layer_keeps_ok assms(1) by blast
next
  case (DevRead d pos n)
  then obtain s where "rt_device_read P d pos n m = Some (s, m')" using assms(2) by auto
  then show ?thesis using read_layer layer_frame_ok assms(1) by blast
next
  case (DevWrite d pos b)
  then obtain n where "rt_device_write P d pos b m = Some (n, m')" using assms(2) by auto
  then show ?thesis using write_layer layer_frame_ok assms(1) by blast
next
  case (DevControl d cmd arg)
  then obtain r where "rt_device_control P d cmd arg m = Some (r, m')" using assms(2) by auto
  then show ?thesis using control_layer layer_frame_ok assms(1) by blast
next
  case (KPuts s)
  then have "rt_kputs P s m = Some m'" using assms(2) by simp
  then show ?thesis using kputs_layer layer_frame_ok assms(1) by blast
next
  case (KPrintf fmt args)
  then have "rt_kprintf P fmt args m = Some m'" using assms(2) by simp
  then show ?thesis using kprintf_layer layer_frame_ok assms(1) by blast
next
  case (HalPrintf buf fmt args)
  then obtain buf' where "hal_printf P buf fmt args m = Some (buf', m')" using assms(2) by auto
  then show ?thesis using hal_printf_layer layer_frame_ok assms(1) by blast
next
  case (DevFind name)
  then show ?thesis using assms find_done by auto
next
  case (DevRegister dev name fl)
  then obtain r where r: "rt_device_register dev name fl m = Some (r, m')" using assms(2) by auto
  show ?thesis
  proof (cases dev)
    case None
    then show ?thesis using r assms(1) by (simp add: rt_device_register_def)
  next
    case (Some d)
    then show ?thesis using register_done [OF assms(1)] r by blast
  qed
next
  case (DevCreate mem ty)
  then show ?thesis using assms create_done by auto
next
  case (DevDestroy d)
  then show ?thesis using assms destroy_done by auto
next
  case (SetRxIndicate d f)
  then show ?thesis using assms callbacks_done(1) by auto
next
  case (SetTxComplete d f)
  then show ?thesis using assms callbacks_done(2) by auto
qed

end

section \<open>Standalone devices, failures\<close>

text \<open>Opening a standalone device that is in use.\<close>

lemma standalone_busy:
  assumes "devices_ok m" "is_device d m" "standalone (devices m d)" "ref_count (devices m d) \<noteq> 0"
  shows "rt_device_open P d oflags m = Some (- RT_EBUSY, m)"
  using assms by (simp add: rt_device_open_def device_activate_def devices_ok_def device_ok_def)

text \<open>A driver whose \<open>close\<close> fails leaves the device marked open with no user: a standalone device
  is then busy for ever.\<close>

lemma failed_close_stuck:
  assumes "is_device d m" "initialised (devices m d)" "standalone (devices m d)" "opened (devices m d)"
    and "ref_count (devices m d) = 0"
  shows "rt_device_open P d oflags m = Some (- RT_EBUSY, m)"
    and "rt_device_close P d m = Some (- RT_ERROR, m)"
  using assms by (simp_all add: rt_device_open_def rt_device_close_def device_activate_def)

text \<open>\<open>rt_console_set_device(RT_NULL)\<close>, with which \<open>exception_isr\<close> means to get the console back from
  its device, finds no device and leaves the console as it is.\<close>

lemma set_console_null:
  "rt_console_set_device P None m = Some (console_device m, m)"
  by (simp add: rt_console_set_device_def rt_device_find_def rt_object_find_def Let_def)

section \<open>Properties\<close>

text \<open>For the examples: one registered device without a driver function, which is the console.\<close>

definition ex_platform :: "(unit, string) platform" where
  "ex_platform = \<lparr>ops = (\<lambda>_. \<lparr>device_init = None, device_open = None, device_close = None,
      device_read = None, device_write = None, device_control = None\<rparr>),
    my_printf = (\<lambda>s out. out @ s)\<rparr>"

definition ex_machine :: "string machine" where
  "ex_machine = \<lparr>kern = ex_kernel\<lparr>objs := (\<lambda>r. \<lparr>oname = ''uart0'', otype = (if r = OIpc 0 then 0x89 else 0), oflag = 0\<rparr>),
                                 container := (\<lambda>ty. if ty = 9 then [OIpc 0] else [])\<rparr>,
     devices = (\<lambda>_. \<lparr>dev_type = 0, dev_flag = 0x18, open_flag = 0x8, ref_count = 1,
                   rx_indicate = None, tx_complete = None\<rparr>),
     console_device = Some 0, rt_log_buf = (\<lambda>_. CHR 0x00), hw = []\<rparr>"

lemma ex_machine_device: "is_device d ex_machine \<longleftrightarrow> d = 0"
  by (simp add: ex_machine_def is_device_def rt_object_get_type_def)

lemma ex_machine_ok: "devices_ok ex_machine"
  by (simp add: devices_ok_def device_ok_def initialised_def opened_def standalone_def ex_machine_def)

lemma ex_drivers: "drivers ex_platform"
  by unfold_locales (simp_all add: ex_platform_def)

text \<open>C32. Every call of the device layer that returns keeps the devices in order: a device with
  users is initialised and marked open, and a standalone device has at most one user. The calls
  (\<open>device_call\<close>) are find, register, unregister, create, destroy, init, open, close, read, write,
  control and the setting of the two callbacks, of any device, and setting the console device,
  \<open>rt_kputs\<close>, \<open>rt_kprintf\<close> and \<open>hal_printf\<close>. The drivers' functions are assumed to leave the object
  headers, the console device, the reference counts, the two bits of \<open>dev_flag\<close> that the layer
  owns and all other devices alone, and, but for a successful \<open>open\<close>, the open bit
  (\<open>drivers\<close>).\<close>

theorem device_calls_keep_order:
  assumes "drivers P" and "devices_ok m" and "device_do P c m = Some m'"
  shows "devices_ok m'"
  by (rule drivers.device_do_ok [OF assms])

theorem device_calls_keep_order_witness:
  "\<exists>m'. device_do ex_platform (DevClose 0) ex_machine = Some m' \<and> devices_ok m'"
proof -
  obtain m' where m': "device_do ex_platform (DevClose 0) ex_machine = Some m'"
    using ex_machine_device [of 0]
    by (simp add: rt_device_close_def ex_platform_def ex_machine_def Let_def)
  then show ?thesis using device_calls_keep_order [OF ex_drivers ex_machine_ok m'] by blast
qed

text \<open>A device opened as long as its count allows: a successful \<open>rt_device_open\<close> adds one user to a
  device that is then initialised and open, a standalone device is refused with \<open>-RT_EBUSY\<close>
  while it has a user, and the 256th user runs into the assertion instead of wrapping the
  8-bit count to none.\<close>

theorem rt_device_open_counts:
  assumes "drivers P" and "devices_ok m" and "is_device d m"
  shows "(rt_device_open P d oflags m = Some (RT_EOK, m') \<longrightarrow>
            devices_ok m' \<and> unat (ref_count (devices m' d)) = unat (ref_count (devices m d)) + 1
          \<and> initialised (devices m' d) \<and> opened (devices m' d))
       \<and> (standalone (devices m d) \<and> ref_count (devices m d) \<noteq> 0 \<longrightarrow>
            rt_device_open P d oflags m = Some (- RT_EBUSY, m))
       \<and> (ref_count (devices m d) = 255 \<longrightarrow> rt_device_open P d oflags m \<noteq> Some (RT_EOK, m'))"
proof -
  have "devices_ok m' \<and> ref_count (devices m' d) = ref_count (devices m d) + 1
          \<and> ref_count (devices m d) \<noteq> 255 \<and> initialised (devices m' d) \<and> opened (devices m' d)"
    if "rt_device_open P d oflags m = Some (RT_EOK, m')"
    using drivers.open_done [OF assms(1,2) that] by blast
  moreover have "unat (n + 1) = unat n + 1" if "n \<noteq> 255" for n :: u8
  proof -
    have "1 + n \<noteq> 0" using that by (auto simp: add_eq_0_iff)
    then show ?thesis using unatSuc [of n] by (simp add: add.commute)
  qed
  ultimately show ?thesis using standalone_busy [OF assms(2,3)] by auto
qed

theorem rt_device_open_counts_witness:
  "rt_device_open ex_platform 0 0x3 ex_machine = Some (- RT_EBUSY, ex_machine)"
  using rt_device_open_counts [OF ex_drivers ex_machine_ok, of 0 "0x3"] ex_machine_device [of 0]
  by (simp add: standalone_def ex_machine_def)

text \<open>C33. \<open>rt_device_destroy\<close> cannot release a device that \<open>rt_device_create\<close> made: it asserts a
  header of the device class without the static bit, but the new header has no class, and
  registering the device sets the static bit; removing it again clears the class. In all three
  states the call runs into an assertion.\<close>

theorem rt_device_destroy_stops:
  assumes "rt_device_create (Some d) ty m = (Some d, m1)"
  shows "rt_device_destroy d m1 = None
     \<and> (rt_device_register (Some d) name fl m1 = Some (RT_EOK, m2) \<longrightarrow> rt_device_destroy d m2 = None)
     \<and> (rt_device_unregister d m2 = Some (r, m3) \<longrightarrow> rt_device_destroy d m3 = None)"
proof (intro conjI impI)
  show "rt_device_destroy d m1 = None"
    using assms
    by (auto simp: rt_device_create_def rt_device_destroy_def is_device_def rt_object_get_type_def Let_def)
next
  assume reg: "rt_device_register (Some d) name fl m1 = Some (RT_EOK, m2)"
  obtain k k' where "rt_object_init (OIpc d) RT_Object_Class_Device name k = Some k'" "kern m2 = k'"
    using reg by (auto simp: rt_device_register_def Let_def bind_eq_Some_conv split: if_splits)
  then have "otype (objs (kern m2) (OIpc d)) = RT_Object_Class_Device OR RT_Object_Class_Static"
    using rt_object_init_objs by fastforce
  then show "rt_device_destroy d m2 = None"
    by (simp add: rt_device_destroy_def rt_object_is_systemobject_def)
next
  assume "rt_device_unregister d m2 = Some (r, m3)"
  then have "\<not> is_device d m3"
    by (auto simp: rt_device_unregister_def is_device_def detach_type)
  then show "rt_device_destroy d m3 = None" by (simp add: rt_device_destroy_def)
qed

theorem rt_device_destroy_stops_witness:
  "rt_device_destroy 1 (snd (rt_device_create (Some 1) 0 ex_machine)) = None"
  using rt_device_destroy_stops [of 1 0 ex_machine "snd (rt_device_create (Some 1) 0 ex_machine)"]
  by (simp add: rt_device_create_def Let_def)

end
