(* ===== verification/RT_Serial.thy ===== *)
theory RT_Serial
  imports RT_Device RT_System
begin

text \<open>
  The serial framework (\<open>components/drivers/serial/serial.c\<close>) and the receive interrupt of the
  board's driver (\<open>drv_usart.c\<close>), in the repository's configuration: interrupt and polling
  modes, no DMA, no POSIX layer. A serial device is the device at the same address. The
  operations of a UART (\<open>struct rt_uart_ops\<close>) are a parameter acting on the state of the
  hardware; a character is a byte, \<open>getc\<close> returns \<open>None\<close> where the code has -1. Received bytes go
  through a software buffer, which is shown to be a queue that keeps the last bytes.
\<close>

section \<open>State\<close>

record serial_configure =
  baud_rate :: u32
  data_bits :: nat
  stop_bits :: nat
  parity :: nat
  bufsz :: u16

record rt_serial_rx_fifo =
  fifo_buffer :: string
  put_index :: u16
  get_index :: u16
  is_full :: bool

record rt_serial_device =
  config :: serial_configure
  serial_rx :: "rt_serial_rx_fifo option"
  serial_tx :: bool

record 'u serial_hw =
  serials :: "nat \<Rightarrow> rt_serial_device"
  uart :: 'u

text \<open>The argument of a control call.\<close>

datatype serial_arg = NoArg | IntFlag u16 | Config serial_configure

text \<open>The UART, with two things around it: whether the heap finds a block of a size, and the
  hardware's state when \<open>rt_completion_wait\<close> returns in a write that was refused.\<close>

record 'u rt_uart_ops =
  uart_configure :: "(nat \<Rightarrow> serial_configure \<Rightarrow> 'u \<Rightarrow> rt_err_t \<times> 'u) option"
  uart_control :: "nat \<Rightarrow> nat \<Rightarrow> serial_arg \<Rightarrow> 'u \<Rightarrow> rt_err_t \<times> 'u"
  uart_putc :: "nat \<Rightarrow> char \<Rightarrow> 'u \<Rightarrow> int \<times> 'u"
  uart_getc :: "nat \<Rightarrow> 'u \<Rightarrow> char option \<times> 'u"
  heap_has :: "nat \<Rightarrow> 'u \<Rightarrow> bool"
  tx_done_wait :: "nat \<Rightarrow> 'u \<Rightarrow> 'u"

abbreviation (input) RT_DEVICE_FLAG_SUSPENDED :: u16 where "RT_DEVICE_FLAG_SUSPENDED \<equiv> 0x020"
abbreviation (input) RT_DEVICE_FLAG_INT_RX :: u16 where "RT_DEVICE_FLAG_INT_RX \<equiv> 0x100"
abbreviation (input) RT_DEVICE_FLAG_DMA_RX :: u16 where "RT_DEVICE_FLAG_DMA_RX \<equiv> 0x200"
abbreviation (input) RT_DEVICE_FLAG_INT_TX :: u16 where "RT_DEVICE_FLAG_INT_TX \<equiv> 0x400"
abbreviation (input) RT_DEVICE_FLAG_DMA_TX :: u16 where "RT_DEVICE_FLAG_DMA_TX \<equiv> 0x800"
abbreviation (input) RT_DEVICE_CTRL_RESUME :: nat where "RT_DEVICE_CTRL_RESUME \<equiv> 0x01"
abbreviation (input) RT_DEVICE_CTRL_SUSPEND :: nat where "RT_DEVICE_CTRL_SUSPEND \<equiv> 0x02"
abbreviation (input) RT_DEVICE_CTRL_CONFIG :: nat where "RT_DEVICE_CTRL_CONFIG \<equiv> 0x03"
abbreviation (input) RT_DEVICE_CTRL_SET_INT :: nat where "RT_DEVICE_CTRL_SET_INT \<equiv> 0x10"
abbreviation (input) RT_DEVICE_CTRL_CLR_INT :: nat where "RT_DEVICE_CTRL_CLR_INT \<equiv> 0x11"

definition upd_serial :: "nat \<Rightarrow> (rt_serial_device \<Rightarrow> rt_serial_device) \<Rightarrow> 'u serial_hw machine \<Rightarrow> 'u serial_hw machine" where
  "upd_serial d f m = m\<lparr>hw := (hw m)\<lparr>serials := (serials (hw m))(d := f (serials (hw m) d))\<rparr>\<rparr>"

definition set_uart :: "'u \<Rightarrow> 'u serial_hw machine \<Rightarrow> 'u serial_hw machine" where
  "set_uart u m = m\<lparr>hw := (hw m)\<lparr>uart := u\<rparr>\<rparr>"

abbreviation serial_of :: "nat \<Rightarrow> 'u serial_hw machine \<Rightarrow> rt_serial_device" where
  "serial_of d m \<equiv> serials (hw m) d"

abbreviation oflag_set :: "nat \<Rightarrow> u16 \<Rightarrow> 'u serial_hw machine \<Rightarrow> bool" where
  "oflag_set d fl m \<equiv> open_flag (devices m d) AND fl \<noteq> 0"

section \<open>The receive buffer\<close>

text \<open>The body of the receive loop of the interrupt, and of the reading loop. The index arithmetic
  stays below the buffer size, which fits its 16 bits.\<close>

definition wrap_index :: "u16 \<Rightarrow> u16 \<Rightarrow> u16" where
  "wrap_index n i = (if i \<ge> n then 0 else i)"

definition fifo_put :: "u16 \<Rightarrow> char \<Rightarrow> rt_serial_rx_fifo \<Rightarrow> rt_serial_rx_fifo" where
  "fifo_put n ch f =
     (let f = f\<lparr>fifo_buffer := (fifo_buffer f)[unat (put_index f) := ch]\<rparr>;
          f = f\<lparr>put_index := wrap_index n (put_index f + 1)\<rparr>
      in if put_index f = get_index f
         then f\<lparr>get_index := wrap_index n (get_index f + 1), is_full := True\<rparr>
         else f)"

definition fifo_get :: "u16 \<Rightarrow> rt_serial_rx_fifo \<Rightarrow> (char \<times> rt_serial_rx_fifo) option" where
  "fifo_get n f =
     (if get_index f = put_index f \<and> \<not> is_full f then None
      else Some (fifo_buffer f ! unat (get_index f),
                 f\<lparr>get_index := wrap_index n (get_index f + 1), is_full := False\<rparr>))"

fun fifo_read :: "u16 \<Rightarrow> nat \<Rightarrow> rt_serial_rx_fifo \<Rightarrow> string \<times> rt_serial_rx_fifo" where
  "fifo_read n 0 f = ([], f)"
| "fifo_read n (Suc len) f =
     (case fifo_get n f of
        None \<Rightarrow> ([], f)
      | Some (ch, f) \<Rightarrow> let (s, f) = fifo_read n len f in (ch # s, f))"

section \<open>Reading and writing\<close>

fun poll_rx_loop :: "'u rt_uart_ops \<Rightarrow> nat \<Rightarrow> bool \<Rightarrow> nat \<Rightarrow> 'u \<Rightarrow> string \<times> 'u" where
  "poll_rx_loop U d stream 0 u = ([], u)"
| "poll_rx_loop U d stream (Suc len) u =
     (case uart_getc U d u of
        (None, u) \<Rightarrow> ([], u)
      | (Some ch, u) \<Rightarrow>
          if stream \<and> ch = CHR 0x0A then ([ch], u)
          else let (s, u) = poll_rx_loop U d stream len u in (ch # s, u))"

definition serial_poll_rx :: "'u rt_uart_ops \<Rightarrow> nat \<Rightarrow> nat \<Rightarrow> 'u serial_hw machine \<Rightarrow> string \<times> 'u serial_hw machine" where
  "serial_poll_rx U d len m =
     (let (s, u) = poll_rx_loop U d (oflag_set d RT_DEVICE_FLAG_STREAM m) len (uart (hw m))
      in (s, set_uart u m))"

fun poll_tx_loop :: "'u rt_uart_ops \<Rightarrow> nat \<Rightarrow> bool \<Rightarrow> string \<Rightarrow> 'u \<Rightarrow> 'u" where
  "poll_tx_loop U d stream [] u = u"
| "poll_tx_loop U d stream (c # s) u =
     (let u = if c = CHR 0x0A \<and> stream then snd (uart_putc U d (CHR 0x0D) u) else u;
          u = snd (uart_putc U d c u)
      in poll_tx_loop U d stream s u)"

definition serial_poll_tx :: "'u rt_uart_ops \<Rightarrow> nat \<Rightarrow> string \<Rightarrow> 'u serial_hw machine \<Rightarrow> nat \<times> 'u serial_hw machine" where
  "serial_poll_tx U d s m =
     (length s, set_uart (poll_tx_loop U d (oflag_set d RT_DEVICE_FLAG_STREAM m) s (uart (hw m))) m)"

definition serial_int_rx ::
    "nat \<Rightarrow> nat \<Rightarrow> 'u serial_hw machine \<Rightarrow> (string \<times> 'u serial_hw machine) option" where
  "serial_int_rx d len m =
     do { f \<leftarrow> serial_rx (serial_of d m);
          let (s, f) = fifo_read (bufsz (config (serial_of d m))) len f;
          Some (s, upd_serial d (\<lambda>sd. sd\<lparr>serial_rx := Some f\<rparr>) m) }"

text \<open>The writing loop: a refused character waits for the completion and is tried again, with its
  carriage return.\<close>

partial_function (option) int_tx_loop :: "'u rt_uart_ops \<Rightarrow> nat \<Rightarrow> bool \<Rightarrow> string \<Rightarrow> 'u \<Rightarrow> 'u option" where
  "int_tx_loop U d stream s u =
     (case s of
        [] \<Rightarrow> Some u
      | c # rest \<Rightarrow>
          (case (if c = CHR 0x0A \<and> stream then uart_putc U d (CHR 0x0D) u else (0, u)) of
             (r, u) \<Rightarrow>
               if r = - 1 then int_tx_loop U d stream s (tx_done_wait U d u)
               else (case uart_putc U d c u of
                       (r, u) \<Rightarrow>
                         if r = - 1 then int_tx_loop U d stream s (tx_done_wait U d u)
                         else int_tx_loop U d stream rest u)))"

definition serial_int_tx ::
    "'u rt_uart_ops \<Rightarrow> nat \<Rightarrow> string \<Rightarrow> 'u serial_hw machine \<Rightarrow> (nat \<times> 'u serial_hw machine) option" where
  "serial_int_tx U d s m =
     do { rt_assert (serial_tx (serial_of d m));
          u \<leftarrow> int_tx_loop U d (oflag_set d RT_DEVICE_FLAG_STREAM m) s (uart (hw m));
          Some (length s, set_uart u m) }"

section \<open>The device interface\<close>

definition rt_serial_init ::
    "'u rt_uart_ops \<Rightarrow> nat \<Rightarrow> 'u serial_hw machine \<Rightarrow> (rt_err_t \<times> 'u serial_hw machine) option" where
  "rt_serial_init U d m =
     (let m = upd_serial d (\<lambda>sd. sd\<lparr>serial_rx := None, serial_tx := False\<rparr>) m
      in case uart_configure U of
           None \<Rightarrow> Some (RT_EOK, m)
         | Some f \<Rightarrow> let (r, u) = f d (config (serial_of d m)) (uart (hw m)) in Some (r, set_uart u m))"

definition uart_ctl :: "'u rt_uart_ops \<Rightarrow> nat \<Rightarrow> nat \<Rightarrow> serial_arg \<Rightarrow> 'u serial_hw machine \<Rightarrow> 'u serial_hw machine" where
  "uart_ctl U d cmd arg m = set_uart (snd (uart_control U d cmd arg (uart (hw m)))) m"

definition or_oflag :: "nat \<Rightarrow> u16 \<Rightarrow> 'u serial_hw machine \<Rightarrow> 'u serial_hw machine" where
  "or_oflag d fl = upd_device d (\<lambda>dv. dv\<lparr>open_flag := open_flag dv OR fl\<rparr>)"

definition clear_oflag :: "nat \<Rightarrow> u16 \<Rightarrow> 'u serial_hw machine \<Rightarrow> 'u serial_hw machine" where
  "clear_oflag d fl = upd_device d (\<lambda>dv. dv\<lparr>open_flag := open_flag dv AND NOT fl\<rparr>)"

definition open_rx ::
    "'u rt_uart_ops \<Rightarrow> nat \<Rightarrow> u16 \<Rightarrow> 'u serial_hw machine \<Rightarrow> 'u serial_hw machine option" where
  "open_rx U d oflags m =
     (let want = oflags AND RT_DEVICE_FLAG_INT_RX \<noteq> 0;
          n = unat (bufsz (config (serial_of d m)))
      in if serial_rx (serial_of d m) = None
         then if want
              then do { rt_assert (heap_has U (12 + n) (uart (hw m)));
                        let f = \<lparr>fifo_buffer = replicate n (CHR 0x00), put_index = 0, get_index = 0,
                                 is_full = False\<rparr>;
                        let m = upd_serial d (\<lambda>sd. sd\<lparr>serial_rx := Some f\<rparr>) m;
                        let m = or_oflag d RT_DEVICE_FLAG_INT_RX m;
                        Some (uart_ctl U d RT_DEVICE_CTRL_SET_INT (IntFlag RT_DEVICE_FLAG_INT_RX) m) }
              else Some m
         else if want then Some (or_oflag d RT_DEVICE_FLAG_INT_RX m) else Some m)"

definition open_tx ::
    "'u rt_uart_ops \<Rightarrow> nat \<Rightarrow> u16 \<Rightarrow> 'u serial_hw machine \<Rightarrow> 'u serial_hw machine option" where
  "open_tx U d oflags m =
     (let want = oflags AND RT_DEVICE_FLAG_INT_TX \<noteq> 0
      in if \<not> serial_tx (serial_of d m)
         then if want
              then do { rt_assert (heap_has U 12 (uart (hw m)));
                        let m = upd_serial d (\<lambda>sd. sd\<lparr>serial_tx := True\<rparr>) m;
                        let m = or_oflag d RT_DEVICE_FLAG_INT_TX m;
                        Some (uart_ctl U d RT_DEVICE_CTRL_SET_INT (IntFlag RT_DEVICE_FLAG_INT_TX) m) }
              else Some m
         else if want then Some (or_oflag d RT_DEVICE_FLAG_INT_TX m) else Some m)"

definition open_refused :: "u16 \<Rightarrow> u16 \<Rightarrow> bool" where
  "open_refused oflags flags =
     (let lacks = (\<lambda>fl. oflags AND fl \<noteq> 0 \<and> flags AND fl = 0)
      in lacks RT_DEVICE_FLAG_DMA_RX \<or> lacks RT_DEVICE_FLAG_DMA_TX \<or> lacks RT_DEVICE_FLAG_INT_RX
         \<or> lacks RT_DEVICE_FLAG_INT_TX)"

definition rt_serial_open ::
    "'u rt_uart_ops \<Rightarrow> nat \<Rightarrow> u16 \<Rightarrow> 'u serial_hw machine \<Rightarrow> (rt_err_t \<times> 'u serial_hw machine) option" where
  "rt_serial_open U d oflags m =
     (if open_refused oflags (dev_flag (devices m d)) then Some (- RT_EIO, m)
      else do { let stream_flag =
                      (if oflags AND RT_DEVICE_FLAG_STREAM \<noteq> 0 \<or> oflag_set d RT_DEVICE_FLAG_STREAM m
                       then RT_DEVICE_FLAG_STREAM else 0);
                let m = upd_device d (\<lambda>dv. dv\<lparr>open_flag := oflags AND 0xff\<rparr>) m;
                m \<leftarrow> open_rx U d oflags m;
                m \<leftarrow> open_tx U d oflags m;
                Some (RT_EOK, or_oflag d stream_flag m) })"

definition rt_serial_close ::
    "'u rt_uart_ops \<Rightarrow> nat \<Rightarrow> 'u serial_hw machine \<Rightarrow> (rt_err_t \<times> 'u serial_hw machine) option" where
  "rt_serial_close U d m =
     (if ref_count (devices m d) > 1 then Some (RT_EOK, m)
      else do { m \<leftarrow> (if oflag_set d RT_DEVICE_FLAG_INT_RX m
                  then do { rt_assert (serial_rx (serial_of d m) \<noteq> None);
                            let m = upd_serial d (\<lambda>sd. sd\<lparr>serial_rx := None\<rparr>) m;
                            let m = clear_oflag d RT_DEVICE_FLAG_INT_RX m;
                            Some (uart_ctl U d RT_DEVICE_CTRL_CLR_INT (IntFlag RT_DEVICE_FLAG_INT_RX) m) }
                  else Some m);
                m \<leftarrow> (if oflag_set d RT_DEVICE_FLAG_INT_TX m
                  then do { rt_assert (serial_tx (serial_of d m));
                            let m = upd_serial d (\<lambda>sd. sd\<lparr>serial_tx := False\<rparr>) m;
                            let m = clear_oflag d RT_DEVICE_FLAG_INT_TX m;
                            Some (uart_ctl U d RT_DEVICE_CTRL_CLR_INT (IntFlag RT_DEVICE_FLAG_INT_TX) m) }
                  else Some m);
                Some (RT_EOK, m) })"

definition rt_serial_read ::
    "'u rt_uart_ops \<Rightarrow> nat \<Rightarrow> int \<Rightarrow> nat \<Rightarrow> 'u serial_hw machine \<Rightarrow> (string \<times> 'u serial_hw machine) option" where
  "rt_serial_read U d pos sz m =
     (if sz = 0 then Some ([], m)
      else if oflag_set d RT_DEVICE_FLAG_INT_RX m then serial_int_rx d sz m
      else Some (serial_poll_rx U d sz m))"

definition rt_serial_write ::
    "'u rt_uart_ops \<Rightarrow> nat \<Rightarrow> int \<Rightarrow> string \<Rightarrow> 'u serial_hw machine \<Rightarrow> (nat \<times> 'u serial_hw machine) option" where
  "rt_serial_write U d pos s m =
     (if s = [] then Some (0, m)
      else if oflag_set d RT_DEVICE_FLAG_INT_TX m then serial_int_tx U d s m
      else Some (serial_poll_tx U d s m))"

text \<open>The control call; a configuration with another buffer size is refused, with a positive code,
  while the device has users.\<close>

definition rt_serial_control ::
    "'u rt_uart_ops \<Rightarrow> nat \<Rightarrow> nat \<Rightarrow> serial_arg \<Rightarrow> 'u serial_hw machine \<Rightarrow> (rt_err_t \<times> 'u serial_hw machine) option" where
  "rt_serial_control U d cmd arg m =
     (if cmd = RT_DEVICE_CTRL_SUSPEND
      then Some (RT_EOK, upd_device d (\<lambda>dv. dv\<lparr>dev_flag := dev_flag dv OR RT_DEVICE_FLAG_SUSPENDED\<rparr>) m)
      else if cmd = RT_DEVICE_CTRL_RESUME
      then Some (RT_EOK, upd_device d (\<lambda>dv. dv\<lparr>dev_flag := dev_flag dv AND NOT RT_DEVICE_FLAG_SUSPENDED\<rparr>) m)
      else if cmd = RT_DEVICE_CTRL_CONFIG
      then (case arg of
              Config c \<Rightarrow>
                if bufsz c \<noteq> bufsz (config (serial_of d m)) \<and> ref_count (devices m d) \<noteq> 0
                then Some (RT_EBUSY, m)
                else let m = upd_serial d (\<lambda>sd. sd\<lparr>config := c\<rparr>) m
                     in if ref_count (devices m d) \<noteq> 0
                        then do { f \<leftarrow> uart_configure U;
                                  Some (RT_EOK, set_uart (snd (f d c (uart (hw m)))) m) }
                        else Some (RT_EOK, m)
            | _ \<Rightarrow> Some (RT_EOK, m))
      else let (r, u) = uart_control U d cmd arg (uart (hw m)) in Some (r, set_uart u m))"

definition serial_ops :: "'u rt_uart_ops \<Rightarrow> (serial_arg, 'u serial_hw) rt_device_ops" where
  "serial_ops U = \<lparr>device_init = Some (rt_serial_init U), device_open = Some (rt_serial_open U),
     device_close = Some (rt_serial_close U), device_read = Some (rt_serial_read U),
     device_write = Some (rt_serial_write U), device_control = Some (rt_serial_control U)\<rparr>"

definition serial_platform ::
    "'u rt_uart_ops \<Rightarrow> (string \<Rightarrow> 'u serial_hw \<Rightarrow> 'u serial_hw) \<Rightarrow> (serial_arg, 'u serial_hw) platform" where
  "serial_platform U out = \<lparr>ops = (\<lambda>_. serial_ops U), my_printf = out\<rparr>"

definition rt_hw_serial_register ::
    "nat \<Rightarrow> string \<Rightarrow> u16 \<Rightarrow> 'u serial_hw machine \<Rightarrow> (rt_err_t \<times> 'u serial_hw machine) option" where
  "rt_hw_serial_register d name flag m =
     (let m = upd_device d (\<lambda>dv. dv\<lparr>dev_type := 0, rx_indicate := None, tx_complete := None\<rparr>) m
      in rt_device_register (Some d) name flag m)"

section \<open>The receive interrupt\<close>

text \<open>The loop of \<open>uart_irq_process\<close>, until the UART has nothing more.\<close>

partial_function (option) uart_rx_loop ::
    "'u rt_uart_ops \<Rightarrow> nat \<Rightarrow> u16 \<Rightarrow> rt_serial_rx_fifo \<Rightarrow> 'u \<Rightarrow> (rt_serial_rx_fifo \<times> 'u) option" where
  "uart_rx_loop U d n f u =
     (case uart_getc U d u of
        (None, u) \<Rightarrow> Some (f, u)
      | (Some ch, u) \<Rightarrow> uart_rx_loop U d n (fifo_put n ch f) u)"

definition fifo_rx_length :: "u16 \<Rightarrow> rt_serial_rx_fifo \<Rightarrow> nat" where
  "fifo_rx_length n f =
     (if put_index f \<ge> get_index f then unat (put_index f - get_index f)
      else unat n - unat (get_index f - put_index f))"

definition shell_rx_ind :: "oid option \<Rightarrow> kernel \<Rightarrow> kernel option" where
  "shell_rx_ind shell k =
     do { sem \<leftarrow> shell;
          (r, k) \<leftarrow> rt_sem_release sem k;
          Some k }"

text \<open>The shell's semaphore (\<open>None\<close>: the shell is not there yet), the console's serial device and
  the callbacks of the application are parameters.\<close>

definition uart_irq_process ::
    "'u rt_uart_ops \<Rightarrow> oid option \<Rightarrow> nat \<Rightarrow> (nat \<Rightarrow> nat \<Rightarrow> kernel \<Rightarrow> kernel option) \<Rightarrow> nat \<Rightarrow>
     'u serial_hw machine \<Rightarrow> 'u serial_hw machine option" where
  "uart_irq_process U shell console cb d m =
     do { f \<leftarrow> serial_rx (serial_of d m);
          let n = bufsz (config (serial_of d m));
          (f, u) \<leftarrow> uart_rx_loop U d n f (uart (hw m));
          let m = set_uart u (upd_serial d (\<lambda>sd. sd\<lparr>serial_rx := Some f\<rparr>) m);
          let rx_length = fifo_rx_length n f;
          case rx_indicate (devices m d) of
            Some ind \<Rightarrow>
              if rx_length \<noteq> 0
              then do { k \<leftarrow> (if d = console then shell_rx_ind shell (kern m) else cb ind rx_length (kern m));
                        Some (m\<lparr>kern := k\<rparr>) }
              else Some m
          | None \<Rightarrow> Some m }"

text \<open>\<open>uart_isr\<close>, with \<open>UART0\<close> the only one in use; \<open>pending\<close> is its receive flag.\<close>

definition uart_isr ::
    "'u rt_uart_ops \<Rightarrow> oid option \<Rightarrow> nat \<Rightarrow> (nat \<Rightarrow> nat \<Rightarrow> kernel \<Rightarrow> kernel option) \<Rightarrow> ('u \<Rightarrow> bool) \<Rightarrow>
     'u serial_hw machine \<Rightarrow> 'u serial_hw machine option" where
  "uart_isr U shell console cb pending m =
     do { let m = m\<lparr>kern := rt_interrupt_enter (kern m)\<rparr>;
          m \<leftarrow> (if pending (uart (hw m)) then uart_irq_process U shell console cb 0 m else Some m);
          Some (m\<lparr>kern := rt_interrupt_leave (kern m)\<rparr>) }"

section \<open>The buffer is a queue\<close>

text \<open>The bytes between the indices, around the end of the buffer.\<close>

definition ring_list :: "string \<Rightarrow> nat \<Rightarrow> nat \<Rightarrow> string" where
  "ring_list b g l = map (\<lambda>i. b ! ((g + i) mod length b)) [0..<l]"

lemma length_ring_list [simp]: "length (ring_list b g l) = l"
  by (simp add: ring_list_def)

lemma ring_list_0 [simp]: "ring_list b g 0 = []"
  by (simp add: ring_list_def)

lemma ring_list_Suc: "ring_list b g (Suc l) = b ! (g mod length b) # ring_list b ((g + 1) mod length b) l"
  by (simp add: ring_list_def upt_conv_Cons map_Suc_upt [symmetric] mod_add_left_eq comp_def del: upt_Suc)

lemma ring_list_put:
  assumes "l < length b" and "g < length b"
  shows "ring_list (b[(g + l) mod length b := c]) g (Suc l) = ring_list b g l @ [c]"
proof (rule nth_equalityI)
  fix i assume "i < length (ring_list (b[(g + l) mod length b := c]) g (Suc l))"
  then have i: "i \<le> l" by simp
  have pos: "(g + j) mod length b < length b" for j using assms by (intro mod_less_divisor) auto
  show "ring_list (b[(g + l) mod length b := c]) g (Suc l) ! i = (ring_list b g l @ [c]) ! i"
  proof (cases "i = l")
    case True
    then show ?thesis using pos by (simp add: ring_list_def nth_append del: upt_Suc)
  next
    case False
    then have "i < l" using i by simp
    have "(g + i) mod length b \<noteq> (g + l) mod length b"
    proof
      assume "(g + i) mod length b = (g + l) mod length b"
      then have "length b dvd (g + l) - (g + i)" by (intro iffD1 [OF mod_eq_dvd_iff_nat]) (use \<open>i < l\<close> in simp_all)
      then show False using \<open>i < l\<close> assms(1) by (auto dest: dvd_imp_le)
    qed
    then show ?thesis using \<open>i < l\<close> pos by (simp add: ring_list_def nth_append del: upt_Suc)
  qed
qed simp

definition fifo_len :: "rt_serial_rx_fifo \<Rightarrow> nat" where
  "fifo_len f = (unat (put_index f) + length (fifo_buffer f) - unat (get_index f)) mod length (fifo_buffer f)"

definition fifo_list :: "rt_serial_rx_fifo \<Rightarrow> string" where
  "fifo_list f = ring_list (fifo_buffer f) (unat (get_index f)) (fifo_len f)"

definition fifo_ok :: "u16 \<Rightarrow> rt_serial_rx_fifo \<Rightarrow> bool" where
  "fifo_ok n f \<longleftrightarrow> 2 \<le> unat n \<and> length (fifo_buffer f) = unat n
     \<and> put_index f < n \<and> get_index f < n \<and> (is_full f \<longrightarrow> put_index f \<noteq> get_index f)"

lemma wrap_index_mod:
  assumes "i < n"
  shows "unat (wrap_index n (i + 1)) = (unat i + 1) mod unat n" and "wrap_index n (i + 1) < n"
proof -
  have lt: "unat i < unat n" using assms by (simp add: word_less_nat_alt)
  have n: "unat n < 2 ^ 16" using unsigned_less [of n, where ?'a = nat] by simp
  have i1: "unat (i + 1) = unat i + 1"
    using lt n by (simp add: unat_word_ariths)
  show *: "unat (wrap_index n (i + 1)) = (unat i + 1) mod unat n"
    using lt i1 by (auto simp: wrap_index_def word_le_nat_alt mod_if)
  show "wrap_index n (i + 1) < n"
    unfolding word_less_nat_alt * using lt by simp
qed

lemma index_diff_Suc:
  assumes "p < n" "g < n" "(p + n - g) mod n = l" "Suc l \<noteq> (n::nat)"
  shows "((p + 1) mod n + n - g) mod n = Suc l"
proof (cases "g \<le> p")
  case True
  then have "p + n - g = n + (p - g)" by simp
  then have l: "l = p - g"
    using assms(1) unfolding assms(3) [symmetric] by (simp only: mod_add_self1) simp
  show ?thesis
  proof (cases "p + 1 = n")
    case True
    then show ?thesis using \<open>g \<le> p\<close> l assms by (simp add: mod_if)
  next
    case False
    then have "((p + 1) mod n + n - g) mod n = (n + (p + 1 - g)) mod n" using assms True by (simp add: algebra_simps)
    moreover have "p + 1 - g = Suc l" "Suc l < n" using True l assms(1,4) by simp_all
    ultimately show ?thesis by (simp only: mod_add_self1 mod_less)
  qed
next
  case False
  then have "l = p + n - g" using assms by simp
  then show ?thesis using False assms by simp
qed

text \<open>A full buffer holds one byte less than its size: the interrupt throws the oldest byte away when
  the next index would catch up.\<close>

lemma fifo_put_list:
  assumes "fifo_ok n f"
  shows "fifo_ok n (fifo_put n c f)"
    and "fifo_list (fifo_put n c f) =
           (if length (fifo_list f) = unat n - 1 then tl (fifo_list f) else fifo_list f) @ [c]"
proof -
  let ?n = "unat n" and ?b = "fifo_buffer f" and ?p = "unat (put_index f)" and ?g = "unat (get_index f)"
  have ok: "2 \<le> ?n" "length ?b = ?n" "?p < ?n" "?g < ?n" "is_full f \<longrightarrow> ?p \<noteq> ?g"
    using assms by (auto simp: fifo_ok_def word_less_nat_alt word_eq_iff_unsigned [where ?'a = nat])
  have lt: "put_index f < n" "get_index f < n" using assms by (simp_all add: fifo_ok_def)
  let ?l = "fifo_len f"
  have l: "?l < ?n" using ok by (simp add: fifo_len_def)
  have p: "?p = (?g + ?l) mod ?n"
    using ok by (auto simp: fifo_len_def mod_if)
  have put: "ring_list (?b[?p := c]) ?g (Suc ?l) = fifo_list f @ [c]"
    using ring_list_put [of ?l ?b ?g c] l ok by (simp add: p [symmetric] fifo_list_def)
  note wp = wrap_index_mod [OF lt(1)] and wg = wrap_index_mod [OF lt(2)]
  have caught: "wrap_index n (put_index f + 1) = get_index f \<longleftrightarrow> Suc ?l = ?n"
    using ok wp(1) by (auto simp: word_eq_iff_unsigned [where ?'a = nat] fifo_len_def mod_if)
  show "fifo_ok n (fifo_put n c f)"
    using ok wp wg caught lt
    by (auto simp: fifo_put_def Let_def fifo_ok_def word_eq_iff_unsigned [where ?'a = nat] mod_if
      split: if_splits)
  show "fifo_list (fifo_put n c f) =
          (if length (fifo_list f) = ?n - 1 then tl (fifo_list f) else fifo_list f) @ [c]"
  proof (cases "Suc ?l = ?n")
    case True
    have fields: "fifo_buffer (fifo_put n c f) = ?b[?p := c]"
      "unat (get_index (fifo_put n c f)) = (?g + 1) mod ?n" "put_index (fifo_put n c f) = get_index f"
      using True caught wg by (simp_all add: fifo_put_def Let_def)
    have "fifo_len (fifo_put n c f) = ?n - 1"
      using ok by (simp add: fifo_len_def fields mod_if) linarith
    then have "fifo_list (fifo_put n c f) = ring_list (?b[?p := c]) ((?g + 1) mod ?n) ?l"
      using True by (metis fifo_list_def fields(1,2) diff_Suc_1)
    also have "\<dots> = tl (fifo_list f @ [c])"
      unfolding put [symmetric] using ok by (simp add: ring_list_Suc)
    also have "\<dots> = tl (fifo_list f) @ [c]"
      using True ok by (simp add: fifo_list_def tl_append2 flip: length_greater_0_conv)
    finally show ?thesis using arg_cong [OF True, of "\<lambda>i. i - 1"] by (simp add: fifo_list_def)
  next
    case False
    have fields: "fifo_buffer (fifo_put n c f) = ?b[?p := c]" "get_index (fifo_put n c f) = get_index f"
      "unat (put_index (fifo_put n c f)) = (?p + 1) mod ?n"
      using False caught wp by (simp_all add: fifo_put_def Let_def)
    have "fifo_len (fifo_put n c f) = Suc ?l"
      using index_diff_Suc [OF ok(3,4), of ?l] False ok by (simp add: fifo_len_def fields)
    then have "fifo_list (fifo_put n c f) = ring_list (?b[?p := c]) ?g (Suc ?l)"
      by (simp add: fifo_list_def fields)
    then show ?thesis using False put ok by (simp add: fifo_list_def)
  qed
qed

lemma fifo_get_list:
  assumes "fifo_ok n f"
  shows "(case fifo_list f of [] \<Rightarrow> fifo_get n f = None
          | c # cs \<Rightarrow> \<exists>f'. fifo_get n f = Some (c, f') \<and> fifo_ok n f' \<and> fifo_list f' = cs)"
proof -
  let ?n = "unat n" and ?b = "fifo_buffer f" and ?p = "unat (put_index f)" and ?g = "unat (get_index f)"
  have ok: "2 \<le> ?n" "length ?b = ?n" "?p < ?n" "?g < ?n" "is_full f \<longrightarrow> ?p \<noteq> ?g"
    using assms by (auto simp: fifo_ok_def word_less_nat_alt word_eq_iff_unsigned [where ?'a = nat])
  have lt: "put_index f < n" "get_index f < n" using assms by (simp_all add: fifo_ok_def)
  have empty: "get_index f = put_index f \<and> \<not> is_full f \<longleftrightarrow> fifo_len f = 0"
    using ok by (auto simp: word_eq_iff_unsigned [where ?'a = nat] fifo_len_def mod_if)
  show ?thesis
  proof (cases "fifo_len f")
    case 0
    then show ?thesis using empty by (simp add: fifo_list_def fifo_get_def)
  next
    case (Suc l)
    let ?f = "f\<lparr>get_index := wrap_index n (get_index f + 1), is_full := False\<rparr>"
    have cs: "fifo_list f = ?b ! ?g # ring_list ?b ((?g + 1) mod ?n) l"
      using ok by (simp add: fifo_list_def Suc ring_list_Suc)
    have get: "fifo_get n f = Some (?b ! ?g, ?f)" using empty Suc by (auto simp: fifo_get_def)
    note wg = wrap_index_mod [OF lt(2)]
    have "fifo_ok n ?f" using assms wg by (simp add: fifo_ok_def)
    moreover have "fifo_len ?f = l"
      using Suc ok wg(1) by (auto simp: fifo_len_def mod_if split: if_splits)
    then have "fifo_list ?f = ring_list ?b ((?g + 1) mod ?n) l" using wg(1) by (simp add: fifo_list_def)
    ultimately show ?thesis using get cs by simp
  qed
qed

lemma fifo_read_list:
  "fifo_ok n f \<Longrightarrow> \<exists>f'. fifo_read n len f = (take len (fifo_list f), f') \<and> fifo_ok n f'
     \<and> fifo_list f' = drop len (fifo_list f)"
proof (induction len arbitrary: f)
  case (Suc len)
  show ?case
  proof (cases "fifo_list f")
    case Nil
    then show ?thesis using fifo_get_list [OF Suc.prems] Suc.prems by simp
  next
    case (Cons c cs)
    then obtain f1 where f1: "fifo_get n f = Some (c, f1)" "fifo_ok n f1" "fifo_list f1 = cs"
      using fifo_get_list [OF Suc.prems] by auto
    obtain f2 where "fifo_read n len f1 = (take len cs, f2)" "fifo_ok n f2" "fifo_list f2 = drop len cs"
      using Suc.IH [OF f1(2)] f1(3) by auto
    then show ?thesis using f1 Cons by simp
  qed
qed simp

text \<open>What the UART hands out until it has nothing more.\<close>

fun feeds :: "'u rt_uart_ops \<Rightarrow> nat \<Rightarrow> 'u \<Rightarrow> string \<Rightarrow> 'u \<Rightarrow> bool" where
  "feeds U d u [] u' \<longleftrightarrow> uart_getc U d u = (None, u')"
| "feeds U d u (c # cs) u' \<longleftrightarrow>
     (case uart_getc U d u of (Some x, u1) \<Rightarrow> x = c \<and> feeds U d u1 cs u' | _ \<Rightarrow> False)"

text \<open>The last \<open>k\<close> elements of a list.\<close>

definition lastn :: "nat \<Rightarrow> 'b list \<Rightarrow> 'b list" where
  "lastn k xs = drop (length xs - k) xs"

lemma lastn_id: "length xs \<le> k \<Longrightarrow> lastn k xs = xs"
  by (simp add: lastn_def)

lemma lastn_not_Nil: "0 < k \<Longrightarrow> xs \<noteq> [] \<Longrightarrow> lastn k xs \<noteq> []"
  by (cases xs) (auto simp: lastn_def)

lemma length_fifo_list: "fifo_ok n f \<Longrightarrow> length (fifo_list f) < unat n"
  by (simp add: fifo_list_def fifo_len_def fifo_ok_def)

lemma lastn_step:
  assumes "length xs \<le> k" and "0 < k"
  shows "lastn k ((if length xs = k then tl xs else xs) @ [c] @ ys) = lastn k (xs @ [c] @ ys)"
proof (cases "length xs = k")
  case True
  then obtain a l where "xs = a # l" using assms(2) by (cases xs) auto
  moreover have "Suc (length l + length ys) - k = length ys"
    "Suc (Suc (length l + length ys)) - k = Suc (length ys)"
    using calculation True by simp_all
  ultimately show ?thesis using True by (simp add: lastn_def del: drop_append)
qed simp

lemma uart_rx_loop_keeps_last:
  "feeds U d u cs u' \<Longrightarrow> fifo_ok n f \<Longrightarrow>
     \<exists>f'. uart_rx_loop U d n f u = Some (f', u') \<and> fifo_ok n f'
       \<and> fifo_list f' = lastn (unat n - 1) (fifo_list f @ cs)"
proof (induction cs arbitrary: u f)
  case Nil
  then show ?case
    using length_fifo_list [OF Nil.prems(2)]
    by (subst uart_rx_loop.simps) (simp add: lastn_id)
next
  case (Cons c cs)
  obtain u1 where u1: "uart_getc U d u = (Some c, u1)" "feeds U d u1 cs u'"
    using Cons.prems(1) by (auto split: prod.splits option.splits)
  note put = fifo_put_list [OF Cons.prems(2), of c]
  obtain f' where f': "uart_rx_loop U d n (fifo_put n c f) u1 = Some (f', u')" "fifo_ok n f'"
    "fifo_list f' = lastn (unat n - 1) (fifo_list (fifo_put n c f) @ cs)"
    using Cons.IH [OF u1(2) put(1)] by blast
  have len: "length (fifo_list f) \<le> unat n - 1" "0 < unat n - 1"
    using length_fifo_list [OF Cons.prems(2)] Cons.prems(2) by (simp_all add: fifo_ok_def)
  have "fifo_list f' = lastn (unat n - 1) (fifo_list f @ c # cs)"
    using f'(3) lastn_step [OF len, of c cs] by (simp add: put(2))
  then show ?case using f' u1(1) by (subst uart_rx_loop.simps) simp
qed

section \<open>The framework is a driver\<close>

lemma serial_upd [simp]:
  "devices (upd_serial d f m) = devices m" "kern (upd_serial d f m) = kern m"
  "console_device (upd_serial d f m) = console_device m"
  "hw (upd_serial d f m) = (hw m)\<lparr>serials := (serials (hw m))(d := f (serials (hw m) d))\<rparr>"
  "devices (set_uart u m) = devices m" "kern (set_uart u m) = kern m"
  "console_device (set_uart u m) = console_device m" "hw (set_uart u m) = (hw m)\<lparr>uart := u\<rparr>"
  "devices (uart_ctl U d cmd arg m) = devices m" "kern (uart_ctl U d cmd arg m) = kern m"
  "console_device (uart_ctl U d cmd arg m) = console_device m"
  "serials (hw (uart_ctl U d cmd arg m)) = serials (hw m)"
  by (simp_all add: upd_serial_def set_uart_def uart_ctl_def)

lemma driver_frame_refl [simp]: "driver_frame d m m"
  by (simp add: driver_frame_def)

lemma driver_quiet_refl [simp]: "driver_quiet d m m"
  by (simp add: driver_quiet_def)

lemma driver_frame_trans: "driver_frame d m m' \<Longrightarrow> driver_frame d m' m'' \<Longrightarrow> driver_frame d m m''"
  by (simp add: driver_frame_def)

lemma driver_quiet_trans: "driver_quiet d m m' \<Longrightarrow> driver_quiet d m' m'' \<Longrightarrow> driver_quiet d m m''"
  unfolding driver_quiet_def using driver_frame_trans by metis

lemma same_devices_quiet:
  "devices m' = devices m \<Longrightarrow> kern m' = kern m \<Longrightarrow> console_device m' = console_device m \<Longrightarrow>
     driver_quiet d m m'"
  by (simp add: driver_quiet_def driver_frame_def)

lemma oflag_frame:
  "driver_frame d m (upd_device d (\<lambda>dv. dv\<lparr>open_flag := x dv\<rparr>) m)"
  "driver_frame d m (or_oflag d fl m)" "driver_frame d m (clear_oflag d fl m)"
  by (simp_all add: driver_frame_def or_oflag_def clear_oflag_def)

lemma clear_oflag_quiet:
  assumes "fl = RT_DEVICE_FLAG_INT_RX \<or> fl = RT_DEVICE_FLAG_INT_TX"
  shows "driver_quiet d m (clear_oflag d fl m)"
proof -
  have "(a AND NOT fl) AND RT_DEVICE_OFLAG_OPEN = a AND RT_DEVICE_OFLAG_OPEN" for a
    using assms by (auto simp: and.assoc)
  then show ?thesis using oflag_frame(3) [of d m fl] by (simp add: driver_quiet_def clear_oflag_def opened_def)
qed

lemma suspended_quiet:
  "driver_quiet d m (upd_device d (\<lambda>dv. dv\<lparr>dev_flag := dev_flag dv OR RT_DEVICE_FLAG_SUSPENDED\<rparr>) m)"
  "driver_quiet d m (upd_device d (\<lambda>dv. dv\<lparr>dev_flag := dev_flag dv AND NOT RT_DEVICE_FLAG_SUSPENDED\<rparr>) m)"
proof -
  have "owned (fl OR RT_DEVICE_FLAG_SUSPENDED) = owned fl" "owned (fl AND NOT RT_DEVICE_FLAG_SUSPENDED) = owned fl" for fl
    by (simp_all add: owned_def bit.conj_disj_distrib2 and.assoc)
  then show "driver_quiet d m (upd_device d (\<lambda>dv. dv\<lparr>dev_flag := dev_flag dv OR RT_DEVICE_FLAG_SUSPENDED\<rparr>) m)"
    "driver_quiet d m (upd_device d (\<lambda>dv. dv\<lparr>dev_flag := dev_flag dv AND NOT RT_DEVICE_FLAG_SUSPENDED\<rparr>) m)"
    by (simp_all add: driver_quiet_def driver_frame_def opened_def)
qed

lemma rt_serial_init_quiet: "rt_serial_init U d m = Some (r, m') \<Longrightarrow> driver_quiet d m m'"
  by (auto simp: rt_serial_init_def Let_def intro!: same_devices_quiet split: option.splits prod.splits)

lemma open_rx_frame: "open_rx U d oflags m = Some m' \<Longrightarrow> driver_frame d m m'"
  by (auto simp: open_rx_def Let_def driver_frame_def or_oflag_def split: if_splits)

lemma open_tx_frame: "open_tx U d oflags m = Some m' \<Longrightarrow> driver_frame d m m'"
  by (auto simp: open_tx_def Let_def driver_frame_def or_oflag_def split: if_splits)

lemma rt_serial_open_frame:
  assumes "rt_serial_open U d oflags m = Some (r, m')"
  shows "driver_frame d m m'" and "r \<noteq> RT_EOK \<Longrightarrow> m' = m"
proof -
  have "driver_frame d m m' \<and> (r \<noteq> RT_EOK \<longrightarrow> m' = m)"
  proof (cases "open_refused oflags (dev_flag (devices m d))")
    case False
    let ?m1 = "upd_device d (\<lambda>dv. dv\<lparr>open_flag := oflags AND 0xff\<rparr>) m"
    obtain m2 m3 fl where m: "open_rx U d oflags ?m1 = Some m2" "open_tx U d oflags m2 = Some m3"
      "r = RT_EOK" "m' = or_oflag d fl m3"
      using assms False by (auto simp: rt_serial_open_def Let_def bind_eq_Some_conv)
    have "driver_frame d m m2"
      using oflag_frame(1) open_rx_frame [OF m(1)] by (rule driver_frame_trans)
    then have "driver_frame d m m3" using open_tx_frame [OF m(2)] by (rule driver_frame_trans)
    then have "driver_frame d m m'" unfolding m(4) using oflag_frame(2) by (rule driver_frame_trans)
    then show ?thesis using m(3) by simp
  qed (use assms in \<open>simp add: rt_serial_open_def\<close>)
  then show "driver_frame d m m'" and "r \<noteq> RT_EOK \<Longrightarrow> m' = m" by simp_all
qed

lemma close_part_quiet:
  assumes "(if oflag_set d fl m
            then do { rt_assert b;
                      let m = upd_serial d f m;
                      let m = clear_oflag d fl m;
                      Some (uart_ctl U d cmd arg m) }
            else Some m) = Some m'"
    and "fl = RT_DEVICE_FLAG_INT_RX \<or> fl = RT_DEVICE_FLAG_INT_TX"
  shows "driver_quiet d m m'"
proof (cases "oflag_set d fl m")
  case True
  then have m': "m' = uart_ctl U d cmd arg (clear_oflag d fl (upd_serial d f m))"
    using assms(1) by (simp add: Let_def)
  have "driver_quiet d m (upd_serial d f m)" by (rule same_devices_quiet) simp_all
  moreover have "driver_quiet d (upd_serial d f m) (clear_oflag d fl (upd_serial d f m))"
    by (rule clear_oflag_quiet [OF assms(2)])
  moreover have "driver_quiet d (clear_oflag d fl (upd_serial d f m)) m'"
    unfolding m' by (rule same_devices_quiet) simp_all
  ultimately show ?thesis using driver_quiet_trans by blast
qed (use assms(1) in simp)

lemma rt_serial_close_quiet:
  assumes "rt_serial_close U d m = Some (r, m')"
  shows "driver_quiet d m m'"
proof (cases "ref_count (devices m d) > 1")
  case False
  then obtain m1 where m1: "(if oflag_set d RT_DEVICE_FLAG_INT_RX m
                  then do { rt_assert (serial_rx (serial_of d m) \<noteq> None);
                            let m = upd_serial d (\<lambda>sd. sd\<lparr>serial_rx := None\<rparr>) m;
                            let m = clear_oflag d RT_DEVICE_FLAG_INT_RX m;
                            Some (uart_ctl U d RT_DEVICE_CTRL_CLR_INT (IntFlag RT_DEVICE_FLAG_INT_RX) m) }
                  else Some m) = Some m1"
    and m2: "(if oflag_set d RT_DEVICE_FLAG_INT_TX m1
                  then do { rt_assert (serial_tx (serial_of d m1));
                            let m = upd_serial d (\<lambda>sd. sd\<lparr>serial_tx := False\<rparr>) m1;
                            let m = clear_oflag d RT_DEVICE_FLAG_INT_TX m;
                            Some (uart_ctl U d RT_DEVICE_CTRL_CLR_INT (IntFlag RT_DEVICE_FLAG_INT_TX) m) }
                  else Some m1) = Some m'"
    using assms unfolding rt_serial_close_def by (auto simp: bind_eq_Some_conv simp del: bind_rt_assert)
  show ?thesis
    by (rule driver_quiet_trans [OF close_part_quiet [OF m1] close_part_quiet [OF m2]]) simp_all
qed (use assms in \<open>simp add: rt_serial_close_def\<close>)

lemma rt_serial_read_quiet:
  assumes "rt_serial_read U d pos n m = Some (s, m')"
  shows "driver_quiet d m m'"
  using assms
  by (auto simp: rt_serial_read_def serial_int_rx_def serial_poll_rx_def split_beta bind_eq_Some_conv
    intro!: same_devices_quiet split: if_splits)

lemma rt_serial_write_quiet:
  assumes "rt_serial_write U d pos s m = Some (n, m')"
  shows "driver_quiet d m m'"
  using assms
  by (auto simp: rt_serial_write_def serial_int_tx_def serial_poll_tx_def bind_eq_Some_conv
    intro!: same_devices_quiet split: if_splits)

lemma rt_serial_control_quiet:
  assumes "rt_serial_control U d cmd arg m = Some (r, m')"
  shows "driver_quiet d m m'"
proof -
  consider "cmd = RT_DEVICE_CTRL_SUSPEND" | "cmd = RT_DEVICE_CTRL_RESUME"
    | (other) "cmd \<noteq> RT_DEVICE_CTRL_SUSPEND" "cmd \<noteq> RT_DEVICE_CTRL_RESUME" by blast
  then show ?thesis
  proof cases
    case 1
    then show ?thesis using assms suspended_quiet(1) [of d m] by (simp add: rt_serial_control_def)
  next
    case 2
    then show ?thesis using assms suspended_quiet(2) [of d m] by (simp add: rt_serial_control_def)
  next
    case other
    then show ?thesis
      using assms
      by (auto simp: rt_serial_control_def split_beta Let_def bind_eq_Some_conv
        intro!: same_devices_quiet split: if_splits serial_arg.splits)
  qed
qed

lemma rt_serial_open_fails:
  "rt_serial_open U d oflags m = Some (r, m') \<Longrightarrow> r \<noteq> RT_EOK \<Longrightarrow> driver_quiet d m m'"
  using rt_serial_open_frame(2) by (metis driver_quiet_refl)

lemma serial_op:
  "device_init (ops (serial_platform U out) d) = Some (rt_serial_init U)"
  "device_open (ops (serial_platform U out) d) = Some (rt_serial_open U)"
  "device_close (ops (serial_platform U out) d) = Some (rt_serial_close U)"
  "device_read (ops (serial_platform U out) d) = Some (rt_serial_read U)"
  "device_write (ops (serial_platform U out) d) = Some (rt_serial_write U)"
  "device_control (ops (serial_platform U out) d) = Some (rt_serial_control U)"
  by (simp_all add: serial_platform_def serial_ops_def)

interpretation serial: drivers "serial_platform U out" for U out
  by unfold_locales
    (auto simp: serial_op intro: rt_serial_init_quiet rt_serial_open_frame(1) rt_serial_open_fails
       rt_serial_close_quiet rt_serial_read_quiet rt_serial_write_quiet rt_serial_control_quiet)

section \<open>Properties\<close>

lemma fifo_rx_length_list:
  assumes "fifo_ok n f"
  shows "fifo_rx_length n f = length (fifo_list f)"
proof -
  let ?n = "unat n" and ?p = "unat (put_index f)" and ?g = "unat (get_index f)"
  have ok: "length (fifo_buffer f) = ?n" "?p < ?n" "?g < ?n"
    using assms by (auto simp: fifo_ok_def word_less_nat_alt)
  show ?thesis
  proof (cases "?g \<le> ?p")
    case True
    then have "?p + ?n - ?g = ?n + (?p - ?g)" by simp
    then have "(?p + ?n - ?g) mod ?n = ?p - ?g" using ok(2) by (simp only: mod_add_self1) simp
    then show ?thesis
      using True ok by (simp add: fifo_rx_length_def fifo_list_def fifo_len_def word_le_nat_alt unat_sub)
  next
    case False
    then show ?thesis
      using ok by (simp add: fifo_rx_length_def fifo_list_def fifo_len_def word_le_nat_alt unat_sub)
  qed
qed

lemma irq_process_fifo:
  assumes "serial_rx (serial_of d m) = Some f" and "fifo_ok (bufsz (config (serial_of d m))) f"
    and "feeds U d (uart (hw m)) cs u'"
  obtains f' where
    "uart_irq_process U shell console cb d m =
       (case rx_indicate (devices m d) of
          Some ind \<Rightarrow>
            if fifo_list f' \<noteq> []
            then do { k \<leftarrow> (if d = console then shell_rx_ind shell (kern m)
                            else cb ind (length (fifo_list f')) (kern m));
                      Some ((set_uart u' (upd_serial d (\<lambda>sd. sd\<lparr>serial_rx := Some f'\<rparr>) m))\<lparr>kern := k\<rparr>) }
            else Some (set_uart u' (upd_serial d (\<lambda>sd. sd\<lparr>serial_rx := Some f'\<rparr>) m))
        | None \<Rightarrow> Some (set_uart u' (upd_serial d (\<lambda>sd. sd\<lparr>serial_rx := Some f'\<rparr>) m)))"
    and "fifo_ok (bufsz (config (serial_of d m))) f'"
    and "fifo_list f' = lastn (unat (bufsz (config (serial_of d m))) - 1) (fifo_list f @ cs)"
proof -
  obtain f' where f': "uart_rx_loop U d (bufsz (config (serial_of d m))) f (uart (hw m)) = Some (f', u')"
    "fifo_ok (bufsz (config (serial_of d m))) f'"
    "fifo_list f' = lastn (unat (bufsz (config (serial_of d m))) - 1) (fifo_list f @ cs)"
    using uart_rx_loop_keeps_last [OF assms(3,2)] by blast
  show ?thesis
    by (rule that [OF _ f'(2,3)])
      (simp add: uart_irq_process_def assms(1) f'(1) Let_def fifo_rx_length_list [OF f'(2)] split: option.split)
qed

text \<open>C30. The receive interrupt and the reads behind it make a queue of bytes that never blocks the
  line: for a UART that hands out the bytes \<open>cs\<close>, the interrupt ends and leaves in the buffer the
  last \<open>bufsz - 1\<close> of the unread and the new bytes, in order; a read returns the first of them, as
  many as it asks for, and leaves the rest.\<close>

theorem uart_receive_queue:
  assumes "serial_rx (serial_of d m) = Some f" and "fifo_ok (bufsz (config (serial_of d m))) f"
    and "feeds U d (uart (hw m)) cs u'" and "rx_indicate (devices m d) = None"
    and "open_flag (devices m d) AND RT_DEVICE_FLAG_INT_RX \<noteq> 0"
  shows "\<exists>m1 f1. uart_irq_process U shell console cb d m = Some m1 \<and> serial_rx (serial_of d m1) = Some f1
     \<and> fifo_list f1 = lastn (unat (bufsz (config (serial_of d m))) - 1) (fifo_list f @ cs)
     \<and> (\<forall>len. \<exists>m2 f2. rt_serial_read U d pos len m1 = Some (take len (fifo_list f1), m2)
         \<and> serial_rx (serial_of d m2) = Some f2 \<and> fifo_list f2 = drop len (fifo_list f1))"
proof -
  let ?n = "bufsz (config (serial_of d m))"
  obtain f1 where f1: "uart_irq_process U shell console cb d m =
      Some (set_uart u' (upd_serial d (\<lambda>sd. sd\<lparr>serial_rx := Some f1\<rparr>) m))"
    "fifo_ok ?n f1" "fifo_list f1 = lastn (unat ?n - 1) (fifo_list f @ cs)"
    by (rule irq_process_fifo [OF assms(1-3), of shell console cb, unfolded assms(4) option.case]) blast
  let ?m1 = "set_uart u' (upd_serial d (\<lambda>sd. sd\<lparr>serial_rx := Some f1\<rparr>) m)"
  have "\<exists>m2 f2. rt_serial_read U d pos len ?m1 = Some (take len (fifo_list f1), m2)
         \<and> serial_rx (serial_of d m2) = Some f2 \<and> fifo_list f2 = drop len (fifo_list f1)" for len
  proof (cases "len = 0")
    case True
    then show ?thesis by (simp add: rt_serial_read_def)
  next
    case False
    obtain f2 where "fifo_read ?n len f1 = (take len (fifo_list f1), f2)" "fifo_list f2 = drop len (fifo_list f1)"
      using fifo_read_list [OF f1(2)] by blast
    then show ?thesis using False assms(5) by (simp add: rt_serial_read_def serial_int_rx_def)
  qed
  then show ?thesis using f1 by (intro exI [of _ ?m1] exI [of _ f1]) simp
qed

text \<open>For the examples: a UART with the bytes it will hand out and those it was given.\<close>

definition ex_uart :: "(string \<times> string) rt_uart_ops" where
  "ex_uart = \<lparr>uart_configure = None, uart_control = (\<lambda>_ _ _ u. (RT_EOK, u)),
     uart_putc = (\<lambda>_ c (i, s). (1, (i, s @ [c]))),
     uart_getc = (\<lambda>_ (i, s). case i of [] \<Rightarrow> (None, (i, s)) | c # i \<Rightarrow> (Some c, (i, s))),
     heap_has = (\<lambda>_ _. True), tx_done_wait = (\<lambda>_ u. u)\<rparr>"

definition ex_serial_machine :: "nat option \<Rightarrow> (string \<times> string) serial_hw machine" where
  "ex_serial_machine ind = \<lparr>kern = ex_kernel,
     devices = (\<lambda>_. \<lparr>dev_type = 0, dev_flag = 0x513, open_flag = 0x10b, ref_count = 1,
                   rx_indicate = ind, tx_complete = None\<rparr>),
     console_device = Some 0, rt_log_buf = (\<lambda>_. CHR 0x00),
     hw = \<lparr>serials = (\<lambda>_. \<lparr>config = \<lparr>baud_rate = 1500000, data_bits = 8, stop_bits = 0, parity = 0, bufsz = 4\<rparr>,
             serial_rx = Some \<lparr>fifo_buffer = ''abcd'', put_index = 3, get_index = 1, is_full = False\<rparr>,
             serial_tx = False\<rparr>), uart = (''xy'', [])\<rparr>\<rparr>"

lemma ex_serial_feeds:
  "feeds ex_uart d (uart (hw (ex_serial_machine ind))) ''xy'' ([], [])"
  by (simp add: ex_uart_def ex_serial_machine_def)

lemma ex_serial_fifo:
  "serial_rx (serial_of d (ex_serial_machine ind)) = Some \<lparr>fifo_buffer = ''abcd'', put_index = 3, get_index = 1, is_full = False\<rparr>"
  "fifo_ok (bufsz (config (serial_of d (ex_serial_machine ind)))) \<lparr>fifo_buffer = ''abcd'', put_index = 3, get_index = 1, is_full = False\<rparr>"
  "fifo_list \<lparr>fifo_buffer = ''abcd'', put_index = 3, get_index = 1, is_full = False\<rparr> = ''bc''"
  "unat (bufsz (config (serial_of d (ex_serial_machine ind)))) = 4"
  by (simp_all add: ex_serial_machine_def fifo_ok_def fifo_list_def fifo_len_def ring_list_def upt_rec)

theorem uart_receive_queue_witness:
  "\<exists>m1 f1. uart_irq_process ex_uart None 0 (\<lambda>_ _. Some) 0 (ex_serial_machine None) = Some m1
     \<and> serial_rx (serial_of 0 m1) = Some f1 \<and> fifo_list f1 = ''cxy''"
proof -
  have "rx_indicate (devices (ex_serial_machine None) 0) = None"
    "open_flag (devices (ex_serial_machine None) 0) AND RT_DEVICE_FLAG_INT_RX \<noteq> 0"
    by (simp_all add: ex_serial_machine_def)
  from uart_receive_queue [OF ex_serial_fifo(1,2) ex_serial_feeds this, of None 0 "\<lambda>_ _. Some" 0]
  show ?thesis by (auto simp: ex_serial_fifo lastn_def)
qed

lemma nest_sem:
  "sem_ok i (k\<lparr>interrupt_nest := n\<rparr>) = sem_ok i k" "sem_abs i (k\<lparr>interrupt_nest := n\<rparr>) = sem_abs i k"
  by (simp_all add: sem_ok_def sem_abs_def ipc_object_ok_def rt_object_get_type_def ipc_flag_def)

text \<open>C31. Bytes that arrive at the console's UART wake the shell: the interrupt puts them into the
  buffer and releases the shell's semaphore, so that the thread waiting for input, if there is
  one, is ready; otherwise the unit is kept for its next wait. The kernel stays consistent and
  the interrupt is left at the level it was entered.\<close>

theorem uart_isr_wakes_shell:
  assumes "serial_rx (serial_of 0 m) = Some f" and "fifo_ok (bufsz (config (serial_of 0 m))) f"
    and "feeds U 0 (uart (hw m)) (c # cs) u'" and "pending (uart (hw m))"
    and "rx_indicate (devices m 0) = Some ind"
    and "kinv {} (kern m)" "sem_ok s (kern m)" "current_thread (kern m) = Some t"
  shows "\<exists>m' f'. uart_isr U (Some s) 0 cb pending m = Some m'
     \<and> serial_rx (serial_of 0 m') = Some f'
     \<and> fifo_list f' = lastn (unat (bufsz (config (serial_of 0 m))) - 1) (fifo_list f @ c # cs)
     \<and> kinv {} (kern m') \<and> interrupt_nest (kern m') = interrupt_nest (kern m)
     \<and> sem_abs s (kern m') = snd (sem_release_spec 65535 (sem_abs s (kern m)))
     \<and> (\<forall>w ws. queues (kern m) (SuspendQ s) = w # ws \<longrightarrow>
          tstate (threads (kern m') w) \<in> {RT_THREAD_READY, RT_THREAD_RUNNING})"
proof -
  let ?k = "rt_interrupt_enter (kern m)"
  let ?m = "m\<lparr>kern := ?k\<rparr>"
  have k: "kinv {} ?k" "sem_ok s ?k" "current_thread ?k = Some t" "sem_abs s ?k = sem_abs s (kern m)"
    "queues ?k = queues (kern m)"
    using assms(6-8) by (simp_all add: rt_interrupt_enter_def nest_kinv nest_sem)
  obtain r k' where k': "rt_sem_release s ?k = Some (r, k')" "kinv {} k'" "sem_ok s k'"
    "(r, sem_abs s k') = sem_release_spec 65535 (sem_abs s ?k)"
    "\<forall>w ws. queues ?k (SuspendQ s) = w # ws \<longrightarrow> woken (SuspendQ s) w ?k k'" "ipc_frame s {} ?k k'"
    using sem_release_ok [OF k(1-3), of "{}"] by blast
  have shell: "shell_rx_ind (Some s) ?k = Some k'" using k'(1) by (simp add: shell_rx_ind_def)
  note fifo = irq_process_fifo [where d = 0 and m = ?m and f = f and U = U and cs = "c # cs" and u' = u'
      and shell = "Some s" and console = 0 and cb = cb]
  obtain f' where f': "uart_irq_process U (Some s) 0 cb 0 ?m =
      Some ((set_uart u' (upd_serial 0 (\<lambda>sd. sd\<lparr>serial_rx := Some f'\<rparr>) ?m))\<lparr>kern := k'\<rparr>)"
    "fifo_list f' = lastn (unat (bufsz (config (serial_of 0 m))) - 1) (fifo_list f @ c # cs)"
  proof (rule fifo)
    fix f'
    assume proc: "uart_irq_process U (Some s) 0 cb 0 ?m =
       (case rx_indicate (devices ?m 0) of
          Some ind \<Rightarrow>
            if fifo_list f' \<noteq> []
            then do { k \<leftarrow> (if 0 = (0::nat) then shell_rx_ind (Some s) (kern ?m)
                            else cb ind (length (fifo_list f')) (kern ?m));
                      Some ((set_uart u' (upd_serial 0 (\<lambda>sd. sd\<lparr>serial_rx := Some f'\<rparr>) ?m))\<lparr>kern := k\<rparr>) }
            else Some (set_uart u' (upd_serial 0 (\<lambda>sd. sd\<lparr>serial_rx := Some f'\<rparr>) ?m))
        | None \<Rightarrow> Some (set_uart u' (upd_serial 0 (\<lambda>sd. sd\<lparr>serial_rx := Some f'\<rparr>) ?m)))"
      and l: "fifo_list f' = lastn (unat (bufsz (config (serial_of 0 ?m))) - 1) (fifo_list f @ c # cs)"
    have "2 \<le> unat (bufsz (config (serial_of 0 m)))" using assms(2) by (simp add: fifo_ok_def)
    then have "fifo_list f' \<noteq> []" unfolding l by (intro lastn_not_Nil) simp_all
    then show ?thesis using that proc l assms(5) shell by simp
  qed (use assms in simp_all)
  let ?m' = "(set_uart u' (upd_serial 0 (\<lambda>sd. sd\<lparr>serial_rx := Some f'\<rparr>) ?m))\<lparr>kern := rt_interrupt_leave k'\<rparr>"
  have isr: "uart_isr U (Some s) 0 cb pending m = Some ?m'"
    using assms(4) f'(1) by (simp add: uart_isr_def Let_def)
  have nest: "interrupt_nest k' = interrupt_nest ?k" using k'(6) by (simp add: ipc_frame_def)
  show ?thesis
    using isr f'(2) k' nest k
    by (intro exI [of _ ?m'] exI [of _ f'])
      (auto simp: rt_interrupt_leave_def rt_interrupt_enter_def nest_kinv nest_sem woken_def prod_eq_iff)
qed

theorem uart_isr_wakes_shell_witness:
  "\<exists>m'. uart_isr ex_uart (Some 0) 0 (\<lambda>_ _. Some) (\<lambda>u. fst u \<noteq> []) (ex_serial_machine (Some 5)) = Some m'
     \<and> sem_abs 0 (kern m') = (2, [])"
proof -
  let ?m = "ex_serial_machine (Some 5)"
  have m: "rx_indicate (devices ?m 0) = Some 5" "fst (uart (hw ?m)) \<noteq> []" "kern ?m = ex_kernel"
    by (simp_all add: ex_serial_machine_def)
  have k: "kinv {} (kern ?m)" "sem_ok 0 (kern ?m)" "current_thread (kern ?m) = Some 0" "sem_abs 0 (kern ?m) = (1, [])"
    unfolding m(3) by (simp_all add: ex_kinv ex_sem sem_abs_def)
  show ?thesis
    using uart_isr_wakes_shell [where cb = "\<lambda>_ _. Some" and pending = "\<lambda>u. fst u \<noteq> []", OF ex_serial_fifo(1,2) ex_serial_feeds m(2,1) k(1-3)]
    by (auto simp: k(4))
qed

section \<open>Writing to the console\<close>

text \<open>In stream mode every line feed is sent behind a carriage return.\<close>

fun crlf :: "string \<Rightarrow> string" where
  "crlf [] = []"
| "crlf (c # s) = (if c = CHR 0x0A then [CHR 0x0D, c] else [c]) @ crlf s"

lemma poll_tx_crlf:
  "poll_tx_loop U d stream s u = fold (\<lambda>c u. snd (uart_putc U d c u)) (if stream then crlf s else s) u"
  by (induction s arbitrary: u) auto

lemma stream_bits:
  fixes fl :: u16
  shows "(fl OR 0x040) AND 0x400 = fl AND 0x400" "(fl OR 0x040) AND 0x040 \<noteq> 0"
proof -
  have "bit ((fl OR 0x040) AND 0x040) 6" by (simp add: bit_simps)
  then show "(fl OR 0x040) AND 0x040 \<noteq> 0" by auto
qed (simp add: bit.conj_disj_distrib2)

lemma console_write_polled:
  assumes "is_device d m" and "ref_count (devices m d) \<noteq> 0"
    and "open_flag (devices m d) AND RT_DEVICE_FLAG_INT_TX = 0"
  shows "console_write (serial_platform U out) d s m =
           Some (set_uart (fold (\<lambda>c u. snd (uart_putc U d c u)) (crlf s) (uart (hw m))) m)"
proof -
  let ?m1 = "upd_device d (\<lambda>dv. dv\<lparr>open_flag := open_flag dv OR RT_DEVICE_FLAG_STREAM\<rparr>) m"
  have restored: "upd_device d (\<lambda>dv. dv\<lparr>open_flag := open_flag (devices m d)\<rparr>) (set_uart u ?m1) = set_uart u m" for u
    by (simp add: upd_device_def set_uart_def)
  have "rt_device_write (serial_platform U out) d 0 s ?m1 =
      Some (length s, set_uart (fold (\<lambda>c u. snd (uart_putc U d c u)) (crlf s) (uart (hw m))) ?m1)"
  proof (cases "s = []")
    case True
    then show ?thesis
      using assms by (simp add: rt_device_write_def serial_op rt_serial_write_def set_uart_def)
  next
    case False
    then show ?thesis
      using assms stream_bits
      by (simp add: rt_device_write_def serial_op rt_serial_write_def serial_poll_tx_def poll_tx_crlf)
  qed
  then show ?thesis by (simp add: console_write_def Let_def restored)
qed

text \<open>C34. \<open>rt_kprintf\<close> on an open console that is a serial device without an interrupt-driven
  transmitter: the UART is given, byte by byte, the text of the format if it has less than 127
  characters, and of a longer text the first 126 characters and a zero byte, with a carriage
  return in front of every line feed; the device's flags are as before. The text of the format
  exists (its arguments fit, no \<open>int\<close> overflows) and has less than \<open>2^31 - 4\<close> characters.\<close>

theorem rt_kprintf_prints:
  assumes "console_device m = Some d" and "is_device d m" and "ref_count (devices m d) \<noteq> 0"
    and "open_flag (devices m d) AND RT_DEVICE_FLAG_INT_TX = 0"
    and "format_text fmt args = Some t" and "length t + 4 < 2 ^ 31"
  shows "\<exists>m'. rt_kprintf (serial_platform U out) fmt args m = Some m'
     \<and> uart (hw m') = fold (\<lambda>c u. snd (uart_putc U d c u))
         (crlf (if length t < 127 then t else take 126 t @ [CHR 0x00])) (uart (hw m))
     \<and> devices m' = devices m"
proof -
  let ?t = "if length t < 127 then t else take 126 t @ [CHR 0x00]"
  obtain buf where buf: "rt_kprintf_output 0 fmt args (rt_log_buf m) = Some (?t, buf)"
    using rt_kprintf_sends [OF _ assms(5), of 0 "rt_log_buf m"] assms(6) by auto
  have "is_device d (m\<lparr>rt_log_buf := buf\<rparr>)" using assms(2) by (simp add: is_device_def)
  then show ?thesis
    using console_write_polled [of d "m\<lparr>rt_log_buf := buf\<rparr>" U out ?t] assms(1,3,4) buf
    by (simp only: rt_kprintf_def) simp
qed

theorem rt_kprintf_prints_witness:
  "\<exists>m'. rt_kprintf (serial_platform ex_uart (\<lambda>_ h. h)) (''n=%d'' @ [CHR 0x0A]) [AInt 7]
          ((ex_serial_machine None)\<lparr>kern := kern ex_machine\<rparr>) = Some m'
     \<and> uart (hw m') = (''xy'', ''n=7'' @ [CHR 0x0D, CHR 0x0A])"
proof -
  let ?m = "(ex_serial_machine None)\<lparr>kern := kern ex_machine\<rparr>"
  have m: "console_device ?m = Some 0" "is_device 0 ?m" "ref_count (devices ?m 0) \<noteq> 0"
    "open_flag (devices ?m 0) AND RT_DEVICE_FLAG_INT_TX = 0" "uart (hw ?m) = (''xy'', [])"
    using ex_machine_device [of 0] by (simp_all add: ex_serial_machine_def is_device_def)
  have t: "format_text (''n=%d'' @ [CHR 0x0A]) [AInt 7] = Some (''n=7'' @ [CHR 0x0A])"
    by (simp add: format_simps)
  have out: "fold (\<lambda>c u. snd (uart_putc ex_uart 0 c u)) (crlf (''n=7'' @ [CHR 0x0A])) (''xy'', [])
      = (''xy'', ''n=7'' @ [CHR 0x0D, CHR 0x0A])" by (simp add: ex_uart_def)
  from rt_kprintf_prints [OF m(1-4) t, of ex_uart "\<lambda>_ h. h"] show ?thesis
    unfolding m(5) using out by auto
qed

section \<open>Opening twice\<close>

text \<open>A second user that does not ask for interrupts switches the first one's off: the flag goes, the
  buffer stays, and reads poll the UART.\<close>

lemma second_open_polls:
  assumes "serial_rx (serial_of d m) = Some f" and "oflags AND RT_DEVICE_FLAG_INT_RX = 0"
    and "oflags AND RT_DEVICE_FLAG_DMA_RX = 0" "oflags AND RT_DEVICE_FLAG_INT_TX = 0"
    and "oflags AND RT_DEVICE_FLAG_DMA_TX = 0"
  shows "\<exists>m'. rt_serial_open U d oflags m = Some (RT_EOK, m') \<and> serial_rx (serial_of d m') = Some f
     \<and> open_flag (devices m' d) AND RT_DEVICE_FLAG_INT_RX = 0"
proof -
  have low: "(oflags AND 0xff) AND 0x100 = 0" "((oflags AND 0xff) OR 0x40) AND 0x100 = 0"
    by (simp_all add: and.assoc bit.conj_disj_distrib2)
  show ?thesis
    using assms low
    by (simp add: rt_serial_open_def open_refused_def Let_def open_rx_def open_tx_def or_oflag_def)
qed

lemma fresh_buffer:
  assumes "2 \<le> unat n"
  shows "fifo_ok n \<lparr>fifo_buffer = replicate (unat n) c, put_index = 0, get_index = 0, is_full = False\<rparr>"
    and "fifo_list \<lparr>fifo_buffer = replicate (unat n) c, put_index = 0, get_index = 0, is_full = False\<rparr> = []"
  using assms by (auto simp: fifo_ok_def fifo_list_def fifo_len_def word_less_nat_alt)

end
