(* ===== verification/RT_Completion.thy ===== *)
theory RT_Completion
  imports RT_Channel
begin

text \<open>
  Completions (\<open>components/drivers/src/completion.c\<close>): one thread waits until an event has
  happened. The flags are a state beside the kernel's; the line of a completion is a wait list of
  the kernel. \<open>rt_completion_wait\<close> is split at its \<open>rt_schedule\<close> as the calls of \<open>ipc.c\<close>.
\<close>

section \<open>Operations\<close>

type_synonym completions = "oid \<Rightarrow> u32"

abbreviation (input) RT_COMPLETED :: u32 where "RT_COMPLETED \<equiv> 1"
abbreviation (input) RT_UNCOMPLETED :: u32 where "RT_UNCOMPLETED \<equiv> 0"

definition rt_completion_init :: "oid \<Rightarrow> kernel \<times> completions \<Rightarrow> kernel \<times> completions" where
  "rt_completion_init i s =
     (case s of (k, C) \<Rightarrow> (k\<lparr>queues := q_replace (SuspendQ i) [] (queues k)\<rparr>, C(i := RT_UNCOMPLETED)))"

definition rt_completion_wait_start ::
    "oid \<Rightarrow> u32 \<Rightarrow> kernel \<times> completions \<Rightarrow> (ipc_result \<times> kernel \<times> completions) option" where
  "rt_completion_wait_start i timeout s =
     (case s of (k, C) \<Rightarrow>
        if C i \<noteq> RT_COMPLETED
        then do { rt_assert (queues k (SuspendQ i) = []);
                  if timeout = 0 then Some (Returned (- RT_ETIMEOUT), k, C)
                  else do { t \<leftarrow> rt_thread_self k;
                            let k = clear_error t k;
                            (_, k) \<leftarrow> rt_thread_suspend t k;
                            let k = k\<lparr>queues := q_insert_before (SuspendQ i) t (queues k)\<rparr>;
                            RT_DEBUG_NOT_IN_INTERRUPT k;
                            k \<leftarrow> ipc_start_timer t timeout k;
                            k \<leftarrow> rt_schedule k;
                            Some (Blocked, k, C) } }
        else Some (Returned RT_EOK, k, C(i := RT_UNCOMPLETED)))"

definition rt_completion_wait_wake ::
    "oid \<Rightarrow> tid \<Rightarrow> kernel \<times> completions \<Rightarrow> rt_err_t \<times> kernel \<times> completions" where
  "rt_completion_wait_wake i t s = (case s of (k, C) \<Rightarrow> (error (threads k t), k, C(i := RT_UNCOMPLETED)))"

definition rt_completion_done :: "oid \<Rightarrow> kernel \<times> completions \<Rightarrow> (kernel \<times> completions) option" where
  "rt_completion_done i s =
     (case s of (k, C) \<Rightarrow>
        if C i = RT_COMPLETED then Some (k, C)
        else do { let C = C(i := RT_COMPLETED);
                  k \<leftarrow> ipc_wake_first (SuspendQ i) k;
                  Some (k, C) })"

section \<open>Blocking\<close>

text \<open>The lines on suspending are those of \<open>ipc_wait\<close> with a check between them.\<close>

lemma not_in_interrupt: "interrupt_nest k = 0 \<Longrightarrow> RT_DEBUG_NOT_IN_INTERRUPT k = Some ()"
  by (simp add: RT_DEBUG_NOT_IN_INTERRUPT_def rt_interrupt_get_nest_def)

lemma wait_in_line:
  assumes "kinv {} k" "running k t" "interrupt_nest k = 0" "time_ok time" "h = SuspendQ i \<or> h = SenderQ i"
  shows "\<exists>k' k''. rt_thread_suspend t (clear_error t k) = Some (RT_EOK, k')
     \<and> RT_DEBUG_NOT_IN_INTERRUPT (k'\<lparr>queues := q_insert_before h t (queues k')\<rparr>) = Some ()
     \<and> do { k \<leftarrow> ipc_start_timer t time (k'\<lparr>queues := q_insert_before h t (queues k')\<rparr>); rt_schedule k } = Some k''
     \<and> blocked h t RT_IPC_FLAG_FIFO time (clear_error t k) k''"
proof -
  note c = clear_error_ok [OF assms(1,2)]
  let ?k = "clear_error t k"
  have w: "(suspended t ?k)\<lparr>queues := q_insert_before h t (queues (suspended t ?k))\<rparr> = waiting h t RT_IPC_FLAG_FIFO ?k"
    by (simp add: waiting_def Let_def enlist_def q_insert_before_def)
  have "interrupt_nest (waiting h t RT_IPC_FLAG_FIFO ?k) = 0"
    using kframe_trans [OF kframe_clear_error [of k t] kframe_waiting [of ?k h t RT_IPC_FLAG_FIFO]] assms(3)
    by (simp add: kframe_def)
  note d = not_in_interrupt [OF this]
  show ?thesis
    using suspend_running(1) [OF c] wait_state_ok(2) [OF c assms(5,4), of RT_IPC_FLAG_FIFO] d
      switch_away [OF c assms(5,4), of RT_IPC_FLAG_FIFO]
    by - (rule exI [of _ "suspended t ?k"], auto simp only: w bind.simps)
qed

section \<open>Properties\<close>

text \<open>
  \<open>rt_completion_wait\<close> by the running thread: if the event has already happened it returns at
  once and uses the event up; otherwise a caller that may not wait gets \<open>-RT_ETIMEOUT\<close> and
  nothing changes, and any other becomes the one waiter, suspended with its timer set.
\<close>

theorem rt_completion_wait_correct:
  assumes "kinv {} k" "running k t" "interrupt_nest k = 0" "time_ok time"
    and "C i \<noteq> RT_COMPLETED \<longrightarrow> queues k (SuspendQ i) = []"
  shows "\<exists>r k' C'. rt_completion_wait_start i time (k, C) = Some (r, k', C') \<and> kinv {} k'
     \<and> (if C i = RT_COMPLETED then r = Returned RT_EOK \<and> k' = k \<and> C' = C(i := RT_UNCOMPLETED)
        else if time = 0 then r = Returned (- RT_ETIMEOUT) \<and> k' = k \<and> C' = C
        else r = Blocked \<and> C' = C \<and> queues k' (SuspendQ i) = [t]
          \<and> blocked (SuspendQ i) t RT_IPC_FLAG_FIFO time (clear_error t k) k')"
proof (cases "C i = RT_COMPLETED \<or> time = 0")
  case True
  then show ?thesis using assms(1,5) by (auto simp: rt_completion_wait_start_def)
next
  case False
  obtain k1 k' where k': "rt_thread_suspend t (clear_error t k) = Some (RT_EOK, k1)"
      "RT_DEBUG_NOT_IN_INTERRUPT (k1\<lparr>queues := q_insert_before (SuspendQ i) t (queues k1)\<rparr>) = Some ()"
      "do { k \<leftarrow> ipc_start_timer t time (k1\<lparr>queues := q_insert_before (SuspendQ i) t (queues k1)\<rparr>); rt_schedule k } = Some k'"
      "blocked (SuspendQ i) t RT_IPC_FLAG_FIFO time (clear_error t k) k'"
    using wait_in_line [OF assms(1-4), of "SuspendQ i"] by blast
  have "rt_completion_wait_start i time (k, C) = Some (Blocked, k', C)"
    using False k'(1,3) k'(2) assms(2,5)
    by (auto simp: rt_completion_wait_start_def rt_thread_self_def running_def bind_eq_Some_conv)
  then show ?thesis using False k'(4) assms(5) by (simp add: blocked_def enlist_def)
qed

text \<open>
  C27. \<open>rt_completion_done\<close> releases one wait, before or after it begins. With a waiter, that thread
  is made ready with its timer stopped, and whenever it runs its call returns what its error
  says (no error, unless something else has set one) and the event is used up; without one, the
  next wait returns at once, and doing it again before that changes nothing.
\<close>

theorem rt_completion_done_releases:
  assumes "kinv {} k" "current_thread k \<noteq> None" "C i \<noteq> RT_COMPLETED"
  shows "\<exists>k'. rt_completion_done i (k, C) = Some (k', C(i := RT_COMPLETED)) \<and> kinv {} k'
     \<and> rt_completion_done i (k', C(i := RT_COMPLETED)) = Some (k', C(i := RT_COMPLETED))
     \<and> (case queues k (SuspendQ i) of
          [] \<Rightarrow> k' = k \<and> (\<forall>time. rt_completion_wait_start i time (k', C(i := RT_COMPLETED))
                 = Some (Returned RT_EOK, k', C(i := RT_UNCOMPLETED)))
        | t # ts \<Rightarrow> queues k' (SuspendQ i) = ts \<and> tstate (threads k' t) \<in> {RT_THREAD_READY, RT_THREAD_RUNNING}
            \<and> ThreadTimer t \<notin> set (tlists k' HardList) \<and> error (threads k' t) = error (threads k t)
            \<and> (\<forall>k'' C''. error (threads k'' t) = error (threads k' t) \<longrightarrow>
                 rt_completion_wait_wake i t (k'', C'') = (error (threads k t), k'', C''(i := RT_UNCOMPLETED))))"
proof -
  obtain k' where k': "ipc_wake_first (SuspendQ i) k = Some k'" "kinv {} k'"
      "\<forall>t ts. queues k (SuspendQ i) = t # ts \<longrightarrow> woken (SuspendQ i) t k k'"
    using wake_first_ok [OF assms(1,2), of "SuspendQ i" i "{}"] by auto
  have e: "rt_completion_done i (k, C) = Some (k', C(i := RT_COMPLETED))"
    using assms(3) k'(1) by (simp add: rt_completion_done_def)
  show ?thesis
  proof (cases "queues k (SuspendQ i)")
    case Nil
    then have "k' = k" using k'(1) by (simp add: ipc_wake_first_def)
    then show ?thesis using e k'(2) Nil by (simp add: rt_completion_done_def rt_completion_wait_start_def)
  next
    case (Cons t ts)
    then have "woken (SuspendQ i) t k k'" using k'(3) by blast
    then show ?thesis
      using e k'(2) Cons by (simp add: woken_def rt_completion_done_def rt_completion_wait_wake_def)
  qed
qed

theorem rt_completion_wait_correct_witness:
  "\<exists>k'. rt_completion_wait_start 9 20 (ex_kernel, \<lambda>_. 0) = Some (Blocked, k', \<lambda>_. 0)
     \<and> queues k' (SuspendQ 9) = [0] \<and> trem k' (ThreadTimer 0) = 20"
proof -
  have "interrupt_nest ex_kernel = 0" "time_ok 20" "(0 :: u32) \<noteq> RT_COMPLETED \<longrightarrow> queues ex_kernel (SuspendQ 9) = []"
    by (simp_all add: time_ok_def)
  from rt_completion_wait_correct [OF ex_kinv ex_running this] show ?thesis
    by (auto simp: blocked_def)
qed

theorem rt_completion_done_releases_witness:
  "\<exists>k'. rt_completion_done 9 (ex_kernel, \<lambda>_. 0) = Some (k', (\<lambda>_. 0)(9 := 1))
     \<and> rt_completion_wait_start 9 20 (k', (\<lambda>_. 0)(9 := 1)) = Some (Returned 0, k', \<lambda>_. 0)"
proof -
  have "current_thread ex_kernel \<noteq> None" "(\<lambda>_. 0 :: u32) 9 \<noteq> RT_COMPLETED" "queues ex_kernel (SuspendQ 9) = []"
    using ex_running by (simp_all add: running_def)
  with rt_completion_done_releases [OF ex_kinv this(1), of "\<lambda>_. 0" 9] show ?thesis by auto
qed

end
