(* ===== verification/RT_Dataqueue.thy ===== *)
theory RT_Dataqueue
  imports RT_Mailbox RT_Completion
begin

text \<open>
  Data queues (\<open>components/drivers/src/dataqueue.c\<close>): a circular buffer of pointers with their
  sizes, a line of threads that wait to push and one of threads that wait to pop. The queues are
  a state beside the kernel's; the lines are wait lists of the kernel. The calls are split at
  their \<open>rt_schedule\<close> as those of \<open>ipc.c\<close>. Telling the owner (\<open>evt_notify\<close>) is the last thing a
  call does; the event it is told is part of the result. A pusher is woken only when the queue
  has been drained to its low-water mark.
\<close>

section \<open>Operations\<close>

type_synonym u15 = "15 word"
type_synonym data_item = "u32 \<times> u32"

record rt_data_queue =
  magic :: u32
  dq_size :: u16
  lwm :: u16
  get_index :: u15
  is_empty :: bool
  put_index :: u15
  is_full :: bool
  items :: "data_item list"
  evt_notify :: bool

type_synonym dqueues = "oid \<Rightarrow> rt_data_queue"

abbreviation (input) DATAQUEUE_MAGIC :: u32 where "DATAQUEUE_MAGIC \<equiv> 0xbead0e0e"
abbreviation (input) RT_DATAQUEUE_EVENT_POP :: nat where "RT_DATAQUEUE_EVENT_POP \<equiv> 1"
abbreviation (input) RT_DATAQUEUE_EVENT_PUSH :: nat where "RT_DATAQUEUE_EVENT_PUSH \<equiv> 2"
abbreviation (input) RT_DATAQUEUE_EVENT_LWM :: nat where "RT_DATAQUEUE_EVENT_LWM \<equiv> 3"

definition dq_event :: "rt_data_queue \<Rightarrow> nat \<Rightarrow> nat option" where
  "dq_event q e = (if evt_notify q then Some e else None)"

text \<open>The answer of the heap for the buffer is an argument.\<close>

definition rt_data_queue_init ::
    "oid \<Rightarrow> u16 \<Rightarrow> u16 \<Rightarrow> bool \<Rightarrow> data_item list option \<Rightarrow> kernel \<times> dqueues \<Rightarrow> (rt_err_t \<times> kernel \<times> dqueues) option" where
  "rt_data_queue_init i sz lw notify mem s =
     (case s of (k, D) \<Rightarrow>
        do { rt_assert (sz > 0);
             let k = k\<lparr>queues := q_replace (SuspendQ i) [] (q_replace (SenderQ i) [] (queues k))\<rparr>;
             let q = \<lparr>magic = DATAQUEUE_MAGIC, dq_size = sz, lwm = lw, get_index = 0, is_empty = True,
                      put_index = 0, is_full = False, items = [], evt_notify = notify\<rparr>;
             case mem of
               None \<Rightarrow> Some (- RT_ENOMEM, k, D(i := q))
             | Some xs \<Rightarrow> Some (RT_EOK, k, D(i := q\<lparr>items := xs\<rparr>)) })"

definition next_index :: "u16 \<Rightarrow> u15 \<Rightarrow> u15" where
  "next_index sz j = (if unat (j + 1) = unat sz then 0 else j + 1)"

definition dq_put :: "data_item \<Rightarrow> rt_data_queue \<Rightarrow> rt_data_queue option" where
  "dq_put d q =
     (if unat (put_index q) < length (items q)
      then let q = q\<lparr>items := (items q)[unat (put_index q) := d], put_index := next_index (dq_size q) (put_index q),
                     is_empty := False\<rparr>
           in Some (if put_index q = get_index q then q\<lparr>is_full := True\<rparr> else q)
      else None)"

definition dq_get :: "rt_data_queue \<Rightarrow> (data_item \<times> rt_data_queue) option" where
  "dq_get q =
     (if unat (get_index q) < length (items q)
      then let d = items q ! unat (get_index q);
               q = q\<lparr>get_index := next_index (dq_size q) (get_index q), is_full := False\<rparr>
           in Some (d, if put_index q = get_index q then q\<lparr>is_empty := True\<rparr> else q)
      else None)"

definition rt_data_queue_len :: "rt_data_queue \<Rightarrow> u16 option" where
  "rt_data_queue_len q =
     do { rt_assert (magic q = DATAQUEUE_MAGIC);
          Some (if is_empty q then 0
                else if put_index q > get_index q then ucast (put_index q) - ucast (get_index q)
                else dq_size q + ucast (put_index q) - ucast (get_index q)) }"

definition dq_push_try ::
    "oid \<Rightarrow> data_item \<Rightarrow> tid option \<Rightarrow> u32 \<Rightarrow> kernel \<times> dqueues \<Rightarrow>
     (ipc_result \<times> nat option \<times> kernel \<times> dqueues) option" where
  "dq_push_try i d self timeout s =
     (case s of (k, D) \<Rightarrow>
        if is_full (D i)
        then if timeout = 0 then Some (Returned (- RT_ETIMEOUT), None, k, D)
             else do { RT_DEBUG_NOT_IN_INTERRUPT k;
                       t \<leftarrow> self;
                       k \<leftarrow> ipc_wait (SenderQ i) t RT_IPC_FLAG_FIFO timeout (clear_error t k);
                       Some (Blocked, None, k, D) }
        else do { q \<leftarrow> dq_put d (D i);
                  if queues k (SuspendQ i) \<noteq> []
                  then do { k \<leftarrow> ipc_wake_first (SuspendQ i) k;
                            Some (Returned RT_EOK, None, k, D(i := q)) }
                  else Some (Returned RT_EOK, dq_event q RT_DATAQUEUE_EVENT_PUSH, k, D(i := q)) })"

definition rt_data_queue_push_start ::
    "oid \<Rightarrow> data_item \<Rightarrow> u32 \<Rightarrow> kernel \<times> dqueues \<Rightarrow> (ipc_result \<times> nat option \<times> kernel \<times> dqueues) option" where
  "rt_data_queue_push_start i d timeout s =
     do { rt_assert (magic (snd s i) = DATAQUEUE_MAGIC);
          dq_push_try i d (rt_thread_self (fst s)) timeout s }"

definition rt_data_queue_push_wake ::
    "oid \<Rightarrow> data_item \<Rightarrow> tid \<Rightarrow> u32 \<Rightarrow> kernel \<times> dqueues \<Rightarrow> (ipc_result \<times> nat option \<times> kernel \<times> dqueues) option" where
  "rt_data_queue_push_wake i d t timeout s =
     (case s of (k, D) \<Rightarrow>
        if error (threads k t) \<noteq> RT_EOK then Some (Returned (error (threads k t)), None, k, D)
        else dq_push_try i d (Some t) timeout s)"

definition dq_pop_try ::
    "oid \<Rightarrow> tid option \<Rightarrow> u32 \<Rightarrow> kernel \<times> dqueues \<Rightarrow>
     (ipc_result \<times> data_item option \<times> nat option \<times> kernel \<times> dqueues) option" where
  "dq_pop_try i self timeout s =
     (case s of (k, D) \<Rightarrow>
        if is_empty (D i)
        then if timeout = 0 then Some (Returned (- RT_ETIMEOUT), None, None, k, D)
             else do { RT_DEBUG_NOT_IN_INTERRUPT k;
                       t \<leftarrow> self;
                       k \<leftarrow> ipc_wait (SuspendQ i) t RT_IPC_FLAG_FIFO timeout (clear_error t k);
                       Some (Blocked, None, None, k, D) }
        else do { (d, q) \<leftarrow> dq_get (D i);
                  n \<leftarrow> rt_data_queue_len q;
                  if n \<le> lwm q
                  then do { k \<leftarrow> ipc_wake_first (SenderQ i) k;
                            Some (Returned RT_EOK, Some d, dq_event q RT_DATAQUEUE_EVENT_LWM, k, D(i := q)) }
                  else Some (Returned RT_EOK, Some d, dq_event q RT_DATAQUEUE_EVENT_POP, k, D(i := q)) })"

definition rt_data_queue_pop_start ::
    "oid \<Rightarrow> u32 \<Rightarrow> kernel \<times> dqueues \<Rightarrow> (ipc_result \<times> data_item option \<times> nat option \<times> kernel \<times> dqueues) option" where
  "rt_data_queue_pop_start i timeout s =
     do { rt_assert (magic (snd s i) = DATAQUEUE_MAGIC);
          dq_pop_try i (rt_thread_self (fst s)) timeout s }"

definition rt_data_queue_pop_wake ::
    "oid \<Rightarrow> tid \<Rightarrow> u32 \<Rightarrow> kernel \<times> dqueues \<Rightarrow>
     (ipc_result \<times> data_item option \<times> nat option \<times> kernel \<times> dqueues) option" where
  "rt_data_queue_pop_wake i t timeout s =
     (case s of (k, D) \<Rightarrow>
        if error (threads k t) \<noteq> RT_EOK then Some (Returned (error (threads k t)), None, None, k, D)
        else dq_pop_try i (Some t) timeout s)"

definition rt_data_queue_peek :: "rt_data_queue \<Rightarrow> (rt_err_t \<times> data_item option) option" where
  "rt_data_queue_peek q =
     do { rt_assert (magic q = DATAQUEUE_MAGIC);
          if is_empty q then Some (- RT_EEMPTY, None)
          else if unat (get_index q) < length (items q) then Some (RT_EOK, Some (items q ! unat (get_index q)))
          else None }"

text \<open>The loops that wake the waiters are those of \<open>rt_ipc_list_resume_all\<close>.\<close>

definition rt_data_queue_reset :: "oid \<Rightarrow> kernel \<times> dqueues \<Rightarrow> (kernel \<times> dqueues) option" where
  "rt_data_queue_reset i s =
     (case s of (k, D) \<Rightarrow>
        do { rt_assert (magic (D i) = DATAQUEUE_MAGIC);
             let D = D(i := (D i)\<lparr>get_index := 0, put_index := 0, is_empty := True, is_full := False\<rparr>);
             let k = rt_enter_critical k;
             k \<leftarrow> rt_ipc_list_resume_all (SuspendQ i) k;
             k \<leftarrow> rt_ipc_list_resume_all (SenderQ i) k;
             k \<leftarrow> rt_exit_critical k;
             k \<leftarrow> rt_schedule k;
             Some (k, D) })"

text \<open>Giving the buffer back to the heap does not concern this state.\<close>

definition rt_data_queue_deinit :: "oid \<Rightarrow> kernel \<times> dqueues \<Rightarrow> (rt_err_t \<times> kernel \<times> dqueues) option" where
  "rt_data_queue_deinit i s =
     do { (k, D) \<leftarrow> rt_data_queue_reset i s;
          Some (RT_EOK, k, D(i := (D i)\<lparr>magic := 0\<rparr>)) }"

section \<open>The circular buffer as a list\<close>

definition dq_count :: "rt_data_queue \<Rightarrow> nat" where
  "dq_count q =
     (if is_empty q then 0
      else if put_index q > get_index q then unat (put_index q) - unat (get_index q)
      else unat (dq_size q) + unat (put_index q) - unat (get_index q))"

definition dq_content :: "rt_data_queue \<Rightarrow> data_item list" where
  "dq_content q = ring (items q) (unat (get_index q)) (dq_count q)"

text \<open>The size must be one that the indices of 15 bits can reach.\<close>

definition dq_holds :: "rt_data_queue \<Rightarrow> nat \<Rightarrow> bool" where
  "dq_holds q n \<longleftrightarrow> n \<le> unat (dq_size q) \<and> unat (get_index q) < unat (dq_size q)
     \<and> unat (put_index q) = (unat (get_index q) + n) mod unat (dq_size q)
     \<and> is_empty q = (n = 0) \<and> is_full q = (n = unat (dq_size q))"

definition dq_wf :: "rt_data_queue \<Rightarrow> bool" where
  "dq_wf q \<longleftrightarrow> magic q = DATAQUEUE_MAGIC \<and> length (items q) = unat (dq_size q) \<and> unat (dq_size q) < 2 ^ 15
     \<and> dq_holds q (dq_count q)"

lemma holds_count: "dq_holds q n \<Longrightarrow> dq_count q = n"
proof -
  assume h: "dq_holds q n"
  let ?g = "unat (get_index q)" and ?p = "unat (put_index q)" and ?s = "unat (dq_size q)"
  have g: "n \<le> ?s" "?g < ?s" "?p = (?g + n) mod ?s" using h by (simp_all add: dq_holds_def)
  show ?thesis
  proof (cases "?g + n < ?s")
    case True
    then show ?thesis using g h by (auto simp: dq_count_def dq_holds_def word_less_nat_alt)
  next
    case False
    then have "?p = ?g + n - ?s" using g by (simp add: mod_if)
    then show ?thesis using g h False by (auto simp: dq_count_def dq_holds_def word_less_nat_alt)
  qed
qed

lemma dq_wfD:
  assumes "dq_wf q"
  shows "magic q = DATAQUEUE_MAGIC" "length (items q) = unat (dq_size q)" "unat (dq_size q) < 2 ^ 15"
    "dq_holds q (dq_count q)" "unat (get_index q) < length (items q)" "unat (put_index q) < length (items q)"
    "length (dq_content q) = dq_count q"
proof -
  show "magic q = DATAQUEUE_MAGIC" "length (items q) = unat (dq_size q)" "unat (dq_size q) < 2 ^ 15"
    "dq_holds q (dq_count q)" "unat (get_index q) < length (items q)" "length (dq_content q) = dq_count q"
    using assms by (simp_all add: dq_wf_def dq_holds_def dq_content_def)
  have "unat (dq_size q) > 0" using assms by (auto simp: dq_wf_def dq_holds_def)
  then show "unat (put_index q) < length (items q)" using assms by (simp add: dq_wf_def dq_holds_def)
qed

lemma unat_next_index:
  assumes "unat j < unat sz" "unat sz < 2 ^ 15"
  shows "unat (next_index sz j) = Suc (unat j) mod unat sz"
proof -
  have "unat (j + 1) = Suc (unat j)" using assms unat_add_lem [of j 1] by simp
  then show ?thesis using assms by (auto simp: next_index_def mod_Suc)
qed

lemma dq_put_ok:
  assumes wf: "dq_wf q" and room: "length (dq_content q) < unat (dq_size q)"
  shows "\<exists>q'. dq_put d q = Some q' \<and> dq_wf q' \<and> dq_content q' = dq_content q @ [d] \<and> dq_size q' = dq_size q
     \<and> lwm q' = lwm q \<and> evt_notify q' = evt_notify q"
proof -
  note w = dq_wfD [OF wf]
  let ?p = "unat (put_index q)" and ?s = "unat (dq_size q)" and ?n = "dq_count q" and ?g = "unat (get_index q)"
  let ?p' = "next_index (dq_size q) (put_index q)"
  have n: "?n < ?s" using room w(7) by simp
  have p: "?p = (?g + ?n) mod ?s" "unat ?p' = (?g + Suc ?n) mod ?s"
    using w(2-4,6) unat_next_index [of "put_index q" "dq_size q"] by (simp_all add: dq_holds_def mod_Suc_eq)
  have "(?g + Suc ?n) mod ?s = ?g \<longleftrightarrow> Suc ?n = ?s"
  proof -
    have "(?g + Suc ?n) mod ?s \<noteq> (?g + 0) mod ?s" if "Suc ?n < ?s"
      using mod_offset_neq [of 0 "Suc ?n" ?s ?g] that by (simp add: add.commute)
    moreover have "(?g + Suc ?n) mod ?s = ?g" if "Suc ?n = ?s" using that w(2,5) by simp
    ultimately show ?thesis using n w(2,5) by (cases "Suc ?n < ?s") auto
  qed
  then have full: "?p' = get_index q \<longleftrightarrow> Suc ?n = ?s" using p(2) by (simp add: word_unat_eq_iff)
  let ?q = "q\<lparr>items := (items q)[?p := d], put_index := ?p', is_empty := False\<rparr>"
  let ?q' = "if ?p' = get_index q then ?q\<lparr>is_full := True\<rparr> else ?q"
  have h: "dq_holds ?q' (Suc ?n)"
    using w(4) n p(2) full by (auto simp: dq_holds_def)
  have c: "dq_count ?q' = Suc ?n" by (rule holds_count [OF h])
  have "dq_put d q = Some ?q'" using w(6) by (simp add: dq_put_def Let_def)
  moreover have "dq_wf ?q'" using h c w(1-3) by (simp add: dq_wf_def)
  moreover have "dq_content ?q' = dq_content q @ [d]"
    using ring_put [of ?n "items q" ?g d] n w(2) p(1) c by (simp add: dq_content_def)
  ultimately show ?thesis by (intro exI [of _ ?q']) simp
qed

lemma dq_get_ok:
  assumes wf: "dq_wf q" and ne: "dq_content q = d # ds"
  shows "\<exists>q'. dq_get q = Some (d, q') \<and> dq_wf q' \<and> dq_content q' = ds \<and> dq_size q' = dq_size q
     \<and> lwm q' = lwm q \<and> evt_notify q' = evt_notify q"
proof -
  note w = dq_wfD [OF wf]
  let ?s = "unat (dq_size q)" and ?n = "length ds" and ?g = "unat (get_index q)"
  let ?g' = "next_index (dq_size q) (get_index q)"
  have n: "dq_count q = Suc ?n" using w(7) ne by simp
  have g: "unat ?g' = Suc ?g mod ?s" using w(2,3,5) unat_next_index [of "get_index q" "dq_size q"] by simp
  have p: "unat (put_index q) = (unat ?g' + ?n) mod ?s" "Suc ?n \<le> ?s" "?g < ?s"
    using w(4) n g by (simp_all add: dq_holds_def mod_add_left_eq)
  have s0: "unat ?g' < ?s" using g p(3) by simp
  have "put_index q = ?g' \<longleftrightarrow> ?n = 0"
  proof -
    have "(unat ?g' + ?n) mod ?s \<noteq> (unat ?g' + 0) mod ?s" if "?n > 0"
      using mod_offset_neq [of 0 ?n ?s "unat ?g'"] that p(2) by (simp add: add.commute)
    then show ?thesis using p(1) s0 by (cases "?n = 0") (auto simp: word_unat_eq_iff)
  qed
  then have e: "put_index q = ?g' \<longleftrightarrow> ?n = 0" .
  let ?q = "q\<lparr>get_index := ?g', is_full := False\<rparr>"
  let ?q' = "if put_index q = ?g' then ?q\<lparr>is_empty := True\<rparr> else ?q"
  have h: "dq_holds ?q' ?n"
    using w(4) n p s0 e by (auto simp: dq_holds_def)
  have c: "dq_count ?q' = ?n" by (rule holds_count [OF h])
  have r: "ring (items q) ?g (Suc ?n) = items q ! ?g # ring (items q) (Suc ?g mod ?s) ?n"
    using ring_take [of ?g "items q" ?n] w(2,5) by simp
  have "dq_get q = Some (d, ?q')" using w(5) r ne n by (simp add: dq_get_def Let_def dq_content_def)
  moreover have "dq_wf ?q'" using h c w(1-3) by (simp add: dq_wf_def)
  moreover have "dq_content ?q' = ds" using c g r ne n by (simp add: dq_content_def)
  ultimately show ?thesis by (intro exI [of _ ?q']) simp
qed

lemma dq_len_ok:
  assumes "dq_wf q"
  shows "rt_data_queue_len q = Some (of_nat (length (dq_content q)))"
proof -
  note w = dq_wfD [OF assms]
  have s: "(of_nat (unat (put_index q)) :: u16) = ucast (put_index q)"
    "(of_nat (unat (get_index q)) :: u16) = ucast (get_index q)" "(of_nat (unat (dq_size q)) :: u16) = dq_size q"
    by simp_all
  have "unat (get_index q) \<le> unat (dq_size q) + unat (put_index q)" using w(2,5) by simp
  then have "of_nat (unat (dq_size q) + unat (put_index q) - unat (get_index q)) = (dq_size q + ucast (put_index q) - ucast (get_index q))"
    by (simp add: of_nat_diff s)
  moreover have "of_nat (unat (put_index q) - unat (get_index q)) = (ucast (put_index q) - ucast (get_index q) :: u16)"
    if "put_index q > get_index q"
    using that by (simp add: of_nat_diff s word_less_nat_alt)
  ultimately show ?thesis
    using w(1,7) by (simp add: rt_data_queue_len_def dq_count_def)
qed

interpretation dq: message_queue dq_wf dq_content "\<lambda>q. unat (dq_size q)" "\<lambda>_ _. True" "\<lambda>q _. \<not> is_full q" is_empty
    dq_put dq_get
proof unfold_locales
  show "(\<not> is_full q) = (length (dq_content q) < unat (dq_size q))" "is_empty q = (dq_content q = [])" if "dq_wf q" for q
    using dq_wfD(4,7) [OF that] by (auto simp: dq_holds_def simp flip: length_0_conv)
qed (use dq_put_ok dq_get_ok in fastforce)+

section \<open>Data queues in abstract terms\<close>

text \<open>The items, the line of threads that wait to pop and the one of those that wait to push.\<close>

definition dq_abs :: "oid \<Rightarrow> kernel \<times> dqueues \<Rightarrow> data_item chan" where
  "dq_abs i s = (dq_content (snd s i), queues (fst s) (SuspendQ i), queues (fst s) (SenderQ i))"

fun dq_push_spec :: "nat \<Rightarrow> tid \<Rightarrow> bool \<Rightarrow> data_item \<Rightarrow> data_item chan \<Rightarrow> ipc_result \<times> data_item chan" where
  "dq_push_spec cap t wait d (ds, ps, ss) =
     (if length ds < cap then (Returned RT_EOK, (ds @ [d], tl ps, ss))
      else if wait then (Blocked, (ds, ps, ss @ [t]))
      else (Returned (- RT_ETIMEOUT), (ds, ps, ss)))"

fun dq_pop_spec :: "nat \<Rightarrow> tid \<Rightarrow> bool \<Rightarrow> data_item chan \<Rightarrow> ipc_result \<times> data_item option \<times> data_item chan" where
  "dq_pop_spec low_mark t wait (d # ds, ps, ss) =
     (Returned RT_EOK, Some d, (ds, ps, if length ds \<le> low_mark then tl ss else ss))"
| "dq_pop_spec low_mark t wait ([], ps, ss) =
     (if wait then (Blocked, None, ([], ps @ [t], ss)) else (Returned (- RT_ETIMEOUT), None, ([], ps, ss)))"

text \<open>What stays, and that kernel and queue are consistent.\<close>

definition dq_keeps :: "oid \<Rightarrow> dqueues \<Rightarrow> kernel \<Rightarrow> dqueues \<Rightarrow> bool" where
  "dq_keeps i D k' D' \<longleftrightarrow> kinv {} k' \<and> dq_wf (D' i) \<and> (\<forall>j. j \<noteq> i \<longrightarrow> D' j = D j)
     \<and> dq_size (D' i) = dq_size (D i) \<and> lwm (D' i) = lwm (D i) \<and> evt_notify (D' i) = evt_notify (D i)"

lemma dq_blocks:
  assumes "kinv {} k" "running k t" "time_ok time" "h = SuspendQ i \<or> h = SenderQ i"
  shows "\<exists>k'. ipc_wait h t RT_IPC_FLAG_FIFO time (clear_error t k) = Some k'
     \<and> blocked h t RT_IPC_FLAG_FIFO time (clear_error t k) k' \<and> kinv {} k' \<and> queues k' h = queues k h @ [t]
     \<and> (\<forall>g. \<not> is_ready_queue g \<longrightarrow> g \<noteq> h \<longrightarrow> queues k' g = queues k g)"
  using wait_ok [OF clear_error_ok [OF assms(1,2)] assms(4) _ assms(3), of RT_IPC_FLAG_FIFO]
  by (auto simp: blocked_def enlist_def)

lemma dq_wakes:
  assumes "kinv {} k" "current_thread k \<noteq> None" "h = SuspendQ i \<or> h = SenderQ i"
  shows "\<exists>k'. ipc_wake_first h k = Some k' \<and> kinv {} k' \<and> queues k' h = tl (queues k h)
     \<and> (\<forall>g. \<not> is_ready_queue g \<longrightarrow> g \<noteq> h \<longrightarrow> queues k' g = queues k g) \<and> made_ready h k k'"
  using wake_first_ok [OF assms, of "{}"] by (fastforce simp: made_ready_def woken_def)

lemma push_try_ok:
  assumes "kinv {} k" "running k t" "interrupt_nest k = 0" "time_ok time" "dq_wf (D i)"
  shows "\<exists>r e k' D'. dq_push_try i d (Some t) time (k, D) = Some (r, e, k', D') \<and> dq_keeps i D k' D'
     \<and> (r, dq_abs i (k', D')) = dq_push_spec (unat (dq_size (D i))) t (time \<noteq> 0) d (dq_abs i (k, D))
     \<and> e = (if r = Returned RT_EOK \<and> queues k (SuspendQ i) = [] then dq_event (D i) RT_DATAQUEUE_EVENT_PUSH else None)
     \<and> (r = Returned RT_EOK \<longrightarrow> made_ready (SuspendQ i) k k')
     \<and> (r = Blocked \<longrightarrow> blocked (SenderQ i) t RT_IPC_FLAG_FIFO time (clear_error t k) k')"
proof (cases "is_full (D i)")
  case True
  then have full: "\<not> length (dq_content (D i)) < unat (dq_size (D i))" using dq.room_law [OF assms(5)] by blast
  show ?thesis
  proof (cases "time = 0")
    case True
    then show ?thesis using \<open>is_full (D i)\<close> full assms(1,5) by (simp add: dq_push_try_def dq_abs_def dq_keeps_def)
  next
    case False
    then show ?thesis
      using \<open>is_full (D i)\<close> full assms(5) not_in_interrupt [OF assms(3)] dq_blocks [OF assms(1,2,4), of "SenderQ i" i]
      by (auto simp: dq_push_try_def dq_abs_def dq_keeps_def)
  qed
next
  case False
  then have room: "length (dq_content (D i)) < unat (dq_size (D i))" using dq.room_law [OF assms(5)] by blast
  obtain q where q: "dq_put d (D i) = Some q" "dq_wf q" "dq_content q = dq_content (D i) @ [d]" "dq_size q = dq_size (D i)"
      "lwm q = lwm (D i)" "evt_notify q = evt_notify (D i)"
    using dq_put_ok [OF assms(5) room] by blast
  have "current_thread k \<noteq> None" using assms(2) by (simp add: running_def)
  then obtain k' where k': "ipc_wake_first (SuspendQ i) k = Some k'" "kinv {} k'"
      "queues k' (SuspendQ i) = tl (queues k (SuspendQ i))" "queues k' (SenderQ i) = queues k (SenderQ i)"
      "made_ready (SuspendQ i) k k'"
    using dq_wakes [OF assms(1), of "SuspendQ i" i] by auto
  then show ?thesis
    using False room q
    by (cases "queues k (SuspendQ i)") (auto simp: dq_push_try_def dq_abs_def dq_keeps_def dq_event_def ipc_wake_first_def)
qed

lemma pop_try_ok:
  assumes "kinv {} k" "running k t" "interrupt_nest k = 0" "time_ok time" "dq_wf (D i)"
  shows "\<exists>r got e k' D'. dq_pop_try i (Some t) time (k, D) = Some (r, got, e, k', D') \<and> dq_keeps i D k' D'
     \<and> (r, got, dq_abs i (k', D')) = dq_pop_spec (unat (lwm (D i))) t (time \<noteq> 0) (dq_abs i (k, D))
     \<and> e = (if r \<noteq> Returned RT_EOK then None
            else dq_event (D i) (if length (dq_content (D' i)) \<le> unat (lwm (D i)) then RT_DATAQUEUE_EVENT_LWM
                                 else RT_DATAQUEUE_EVENT_POP))
     \<and> (r = Returned RT_EOK \<longrightarrow> length (dq_content (D' i)) \<le> unat (lwm (D i)) \<longrightarrow> made_ready (SenderQ i) k k')
     \<and> (r = Blocked \<longrightarrow> blocked (SuspendQ i) t RT_IPC_FLAG_FIFO time (clear_error t k) k')"
proof (cases "dq_content (D i)")
  case Nil
  then have em: "is_empty (D i)" using dq.none_law [OF assms(5)] by blast
  show ?thesis
  proof (cases "time = 0")
    case True
    then show ?thesis using em Nil assms(1,5) by (simp add: dq_pop_try_def dq_abs_def dq_keeps_def)
  next
    case False
    then show ?thesis
      using em Nil assms(5) not_in_interrupt [OF assms(3)] dq_blocks [OF assms(1,2,4), of "SuspendQ i" i]
      by (auto simp: dq_pop_try_def dq_abs_def dq_keeps_def)
  qed
next
  case (Cons d ds)
  then have em: "\<not> is_empty (D i)" using dq.none_law [OF assms(5)] by auto
  obtain q where q: "dq_get (D i) = Some (d, q)" "dq_wf q" "dq_content q = ds" "dq_size q = dq_size (D i)"
      "lwm q = lwm (D i)" "evt_notify q = evt_notify (D i)"
    using dq_get_ok [OF assms(5) Cons] by blast
  have n: "unat (of_nat (length ds) :: u16) = length ds"
    using dq_wfD(3,4,7) [OF q(2)] q(3) by (simp add: dq_holds_def unat_of_nat)
  have len: "rt_data_queue_len q = Some (of_nat (length ds))" using dq_len_ok [OF q(2)] q(3) by simp
  have le: "(of_nat (length ds) \<le> lwm q) = (length ds \<le> unat (lwm (D i)))"
    using n q(5) by (simp add: word_le_nat_alt)
  have "current_thread k \<noteq> None" using assms(2) by (simp add: running_def)
  then obtain k' where k': "ipc_wake_first (SenderQ i) k = Some k'" "kinv {} k'"
      "queues k' (SenderQ i) = tl (queues k (SenderQ i))" "queues k' (SuspendQ i) = queues k (SuspendQ i)"
      "made_ready (SenderQ i) k k'"
    using dq_wakes [OF assms(1), of "SenderQ i" i] by auto
  show ?thesis
    by (cases "length ds \<le> unat (lwm (D i))")
      (use em Cons q len le k' assms(1) in \<open>auto simp: dq_pop_try_def dq_abs_def dq_keeps_def dq_event_def\<close>)
qed

section \<open>The scheduler lock around the release of all waiters\<close>

lemma cancelled_sched:
  assumes "sched_frame k k'" "cancelled k t"
  shows "cancelled k' t"
proof -
  have "tstate (threads k' t) = RT_THREAD_READY \<or> tstate (threads k' t) = RT_THREAD_RUNNING"
    using assms unfolding sched_frame_def cancelled_def by (metis insert_subset insert_iff empty_iff)
  then show ?thesis
    using assms(2) sched_frame_fields [OF assms(1)] sched_frame_thread [OF assms(1)] by (simp add: cancelled_def)
qed

lemma exit_schedule:
  assumes "kinv {} (k\<lparr>sched_lock_nest := n\<rparr>)" "current_thread (k\<lparr>sched_lock_nest := n\<rparr>) = Some c"
    and "0 \<le> sint n" "sint n < 32767" "sched_lock_nest k = n + 1"
  shows "\<exists>k1 k2. rt_exit_critical k = Some k1 \<and> rt_schedule k1 = Some k2 \<and> kinv {} k2
     \<and> sched_frame (k\<lparr>sched_lock_nest := n\<rparr>) k2"
proof -
  let ?k = "k\<lparr>sched_lock_nest := n\<rparr>"
  have e: "rt_exit_critical k = (if n = 0 then rt_schedule ?k else Some ?k)"
  proof -
    have "rt_enter_critical ?k = k" using assms(5) by (simp add: rt_enter_critical_def)
    then show ?thesis using exit_enter_critical [of ?k] assms(2-4) by simp
  qed
  obtain k1 where k1: "rt_schedule ?k = Some k1" "kinv {} k1" "sched_frame ?k k1"
    using rt_schedule_kinv [OF assms(1,2)] by blast
  show ?thesis
  proof (cases "n = 0")
    case True
    have "current_thread k1 \<noteq> None" using rt_schedule_current [OF k1(1)] assms(2) by simp
    then obtain c' where "current_thread k1 = Some c'" by blast
    from rt_schedule_kinv [OF k1(2) this] obtain k2 where
      "rt_schedule k1 = Some k2" "kinv {} k2" "sched_frame k1 k2" by blast
    then show ?thesis using e True k1 sched_frame_trans [OF k1(3)] by auto
  qed (use e k1 in simp)
qed

section \<open>Properties\<close>

text \<open>
  C26. \<open>rt_data_queue_push\<close> by the running thread: the item goes to the end of the queue and the
  first thread that waits to pop is made ready without an error; if the queue is full the caller
  is refused with \<open>-RT_ETIMEOUT\<close> or joins the line of pushers, suspended with its timer set. The
  owner is told of the item only when nobody was waiting for it. If the item was put into an
  empty queue and the woken thread is the next to run, the rest of its \<open>rt_data_queue_pop\<close>
  returns this item.
\<close>

theorem rt_data_queue_push_refines:
  assumes "kinv {} k" "running k t" "interrupt_nest k = 0" "time_ok time" "dq_wf (D i)"
  shows "\<exists>r e k' D'. rt_data_queue_push_start i d time (k, D) = Some (r, e, k', D') \<and> dq_keeps i D k' D'
     \<and> (r, dq_abs i (k', D')) = dq_push_spec (unat (dq_size (D i))) t (time \<noteq> 0) d (dq_abs i (k, D))
     \<and> e = (if r = Returned RT_EOK \<and> queues k (SuspendQ i) = [] then dq_event (D i) RT_DATAQUEUE_EVENT_PUSH else None)
     \<and> (r = Blocked \<longrightarrow> blocked (SenderQ i) t RT_IPC_FLAG_FIFO time (clear_error t k) k')
     \<and> (r = Returned RT_EOK \<longrightarrow> made_ready (SuspendQ i) k k' \<and>
          (\<forall>k'' p limit. dq_content (D i) = [] \<and> kinv {} k'' \<and> running k'' p \<and> error (threads k'' p) = RT_EOK
             \<and> interrupt_nest k'' = 0 \<and> time_ok limit \<longrightarrow>
             (\<exists>e s. rt_data_queue_pop_wake i p limit (k'', D') = Some (Returned RT_EOK, Some d, e, s))))"
proof -
  obtain r e k' D' where p: "dq_push_try i d (Some t) time (k, D) = Some (r, e, k', D')" "dq_keeps i D k' D'"
      "(r, dq_abs i (k', D')) = dq_push_spec (unat (dq_size (D i))) t (time \<noteq> 0) d (dq_abs i (k, D))"
      "e = (if r = Returned RT_EOK \<and> queues k (SuspendQ i) = [] then dq_event (D i) RT_DATAQUEUE_EVENT_PUSH else None)"
      "r = Returned RT_EOK \<longrightarrow> made_ready (SuspendQ i) k k'"
      "r = Blocked \<longrightarrow> blocked (SenderQ i) t RT_IPC_FLAG_FIFO time (clear_error t k) k'"
    using push_try_ok [where D = D and i = i and d = d, OF assms] by blast
  have "rt_data_queue_push_start i d time (k, D) = Some (r, e, k', D')"
    using p(1) assms(2) dq_wfD(1) [OF assms(5)] by (simp add: rt_data_queue_push_start_def rt_thread_self_def running_def)
  moreover have "\<exists>e s. rt_data_queue_pop_wake i u limit (k'', D') = Some (Returned RT_EOK, Some d, e, s)"
    if "r = Returned RT_EOK" "dq_content (D i) = []" "kinv {} k''" "running k'' u" "error (threads k'' u) = RT_EOK"
      "interrupt_nest k'' = 0" "time_ok limit" for k'' u limit
  proof -
    have c: "dq_content (D' i) = [d]" using p(3) that(1,2) by (auto simp: dq_abs_def split: if_splits)
    have "dq_wf (D' i)" using p(2) by (simp add: dq_keeps_def)
    from pop_try_ok [where D = D' and i = i, OF that(3,4,6,7) this] c show ?thesis
      using that(5) by (auto simp: rt_data_queue_pop_wake_def dq_abs_def)
  qed
  ultimately show ?thesis using p(2-6) by blast
qed

text \<open>
  \<open>rt_data_queue_pop\<close> by the running thread: it gets the oldest item, and when no more than
  the low-water mark is left the first thread that waits to push is made ready; if the queue is
  empty the caller is refused with \<open>-RT_ETIMEOUT\<close> or joins the line of poppers, suspended with its
  timer set. The owner is told of every item taken, and whether the mark has been reached.
\<close>

theorem rt_data_queue_pop_refines:
  assumes "kinv {} k" "running k t" "interrupt_nest k = 0" "time_ok time" "dq_wf (D i)"
  shows "\<exists>r got e k' D'. rt_data_queue_pop_start i time (k, D) = Some (r, got, e, k', D') \<and> dq_keeps i D k' D'
     \<and> (r, got, dq_abs i (k', D')) = dq_pop_spec (unat (lwm (D i))) t (time \<noteq> 0) (dq_abs i (k, D))
     \<and> e = (if r \<noteq> Returned RT_EOK then None
            else dq_event (D i) (if length (dq_content (D' i)) \<le> unat (lwm (D i)) then RT_DATAQUEUE_EVENT_LWM
                                 else RT_DATAQUEUE_EVENT_POP))
     \<and> (r = Returned RT_EOK \<longrightarrow> length (dq_content (D' i)) \<le> unat (lwm (D i)) \<longrightarrow> made_ready (SenderQ i) k k')
     \<and> (r = Blocked \<longrightarrow> blocked (SuspendQ i) t RT_IPC_FLAG_FIFO time (clear_error t k) k')"
proof -
  have "rt_data_queue_pop_start i time (k, D) = dq_pop_try i (Some t) time (k, D)"
    using assms(2) dq_wfD(1) [OF assms(5)] by (simp add: rt_data_queue_pop_start_def rt_thread_self_def running_def)
  then show ?thesis using pop_try_ok [where D = D and i = i, OF assms] by (simp only:)
qed

text \<open>
  \<open>rt_data_queue_reset\<close> empties the queue and releases every waiting thread of both lines with
  the error \<open>-RT_ERROR\<close>, its timer stopped; the call that such a thread is in then returns this error.
\<close>

theorem rt_data_queue_reset_releases:
  assumes "kinv {} k" "current_thread k \<noteq> None" "dq_wf (D i)"
    and "0 \<le> sint (sched_lock_nest k)" "sint (sched_lock_nest k) < 32767"
  shows "\<exists>k' D'. rt_data_queue_reset i (k, D) = Some (k', D') \<and> dq_keeps i D k' D'
     \<and> dq_abs i (k', D') = ([], [], [])
     \<and> (\<forall>t \<in> set (queues k (SuspendQ i)) \<union> set (queues k (SenderQ i)).
          tstate (threads k' t) \<in> {RT_THREAD_READY, RT_THREAD_RUNNING} \<and> error (threads k' t) = - RT_ERROR
          \<and> ThreadTimer t \<notin> set (tlists k' HardList))
     \<and> (\<forall>t time k''. error (threads k'' t) = - RT_ERROR \<longrightarrow>
          rt_data_queue_pop_wake i t time (k'', D') = Some (Returned (- RT_ERROR), None, None, k'', D'))"
proof -
  let ?q = "(D i)\<lparr>get_index := 0, put_index := 0, is_empty := True, is_full := False\<rparr>" and ?k = "rt_enter_critical k"
  note w = dq_wfD [OF assms(3)]
  have "0 < unat (dq_size (D i))" using w(4) by (auto simp: dq_holds_def)
  then have q: "dq_wf ?q" "dq_content ?q = []"
    using w(1-3) holds_count [of ?q 0] by (simp_all add: dq_wf_def dq_holds_def dq_content_def ring_def)
  have k: "kinv {} ?k" unfolding rt_enter_critical_def kinv_lock by (rule assms(1))
  obtain k1 where k1: "rt_ipc_list_resume_all (SuspendQ i) ?k = Some k1" "all_woken (SuspendQ i) ?k k1"
    using resume_all_ok [OF k, of "SuspendQ i" i] by blast
  note a1 = all_wokenD [OF k1(2)]
  obtain k2 where k2: "rt_ipc_list_resume_all (SenderQ i) k1 = Some k2" "all_woken (SenderQ i) k1 k2"
    using resume_all_ok [OF a1(1), of "SenderQ i" i] by blast
  note a2 = all_wokenD [OF k2(2)]
  have lock: "sched_lock_nest k2 = sched_lock_nest k + 1"
    using a1(2) a2(2) by (simp add: kframe_def rt_enter_critical_def)
  let ?k2 = "k2\<lparr>sched_lock_nest := sched_lock_nest k\<rparr>"
  obtain c where c: "current_thread ?k2 = Some c" using assms(2) a1(3) a2(3) by (auto simp: rt_enter_critical_def)
  have "kinv {} ?k2" using a2(1) kinv_lock by simp
  then obtain k3 k4 where k34: "rt_exit_critical k2 = Some k3" "rt_schedule k3 = Some k4" "kinv {} k4" "sched_frame ?k2 k4"
    using exit_schedule [OF _ c assms(4,5)] lock by auto
  have "rt_data_queue_reset i (k, D) = Some (k4, D(i := ?q))"
    using w(1) k1(1) k2(1) k34(1,2) by (simp add: rt_data_queue_reset_def)
  moreover have "queues k4 (SuspendQ i) = []" "queues k4 (SenderQ i) = []"
    using k34(4) a1(4) a2(4) a2(5) [of "SuspendQ i"] by (simp_all add: sched_frame_def)
  moreover have "cancelled k4 t" if t: "t \<in> set (queues k (SuspendQ i)) \<union> set (queues k (SenderQ i))" for t
  proof -
    have "cancelled k2 t"
    proof (cases "t \<in> set (queues k1 (SenderQ i))")
      case True
      then show ?thesis using a2(6) [of t] by simp
    next
      case False
      then have "t \<in> set (queues k (SuspendQ i))" "threads k2 t = threads k1 t"
        using t a1(5) [of "SenderQ i"] a2(6) [of t] by (auto simp: rt_enter_critical_def)
      then show ?thesis
        using a1(6) [of t] ready_no_timer [OF a2(1), of t] by (simp add: cancelled_def rt_enter_critical_def)
    qed
    then show ?thesis using cancelled_sched [OF k34(4), of t] by (simp add: cancelled_def)
  qed
  ultimately show ?thesis
    using q w k34(3) by (auto simp: dq_keeps_def dq_abs_def cancelled_def rt_data_queue_pop_wake_def)
qed

text \<open>A queue of two items with the mark at one, and a queue that is full.\<close>

definition ex_dq :: rt_data_queue where
  "ex_dq = \<lparr>magic = DATAQUEUE_MAGIC, dq_size = 2, lwm = 1, get_index = 0, is_empty = True, put_index = 0,
            is_full = False, items = [(0, 0), (0, 0)], evt_notify = True\<rparr>"

definition ex_dq_full :: rt_data_queue where
  "ex_dq_full = ex_dq\<lparr>is_empty := False, is_full := True, get_index := 1, put_index := 1, items := [(4, 8), (2, 8)]\<rparr>"

lemma upto_2: "[0..<2] = [0, 1 :: nat]"
  by (simp add: numeral_2_eq_2)

lemma ex_dq_ok:
  "dq_wf ex_dq" "dq_content ex_dq = []" "unat (dq_size ex_dq) = 2" "queues ex_kernel (SenderQ 9) = []"
  "queues ex_kernel (SuspendQ 9) = []" "dq_wf ex_dq_full" "dq_content ex_dq_full = [(2, 8), (4, 8)]" "unat (lwm ex_dq_full) = 1"
  by (simp_all add: ex_dq_def ex_dq_full_def dq_wf_def dq_holds_def dq_count_def dq_content_def ring_def upto_2)

theorem rt_data_queue_push_refines_witness:
  "\<exists>e k' D'. rt_data_queue_push_start 9 (5, 8) 20 (ex_kernel, \<lambda>_. ex_dq) = Some (Returned RT_EOK, e, k', D')
     \<and> dq_content (D' 9) = [(5, 8)]"
proof -
  have "interrupt_nest ex_kernel = 0" "time_ok 20" "dq_wf ((\<lambda>_. ex_dq) 9)" by (simp_all add: time_ok_def ex_dq_ok)
  from rt_data_queue_push_refines [where D = "\<lambda>_. ex_dq" and i = 9, OF ex_kinv ex_running this, of "(5, 8)"]
  show ?thesis by (auto simp: dq_abs_def ex_dq_ok)
qed

theorem rt_data_queue_pop_refines_witness:
  "\<exists>e k' D'. rt_data_queue_pop_start 9 20 (ex_kernel, \<lambda>_. ex_dq_full) = Some (Returned RT_EOK, Some (2, 8), e, k', D')
     \<and> dq_content (D' 9) = [(4, 8)]"
proof -
  have "interrupt_nest ex_kernel = 0" "time_ok 20" "dq_wf ((\<lambda>_. ex_dq_full) 9)" by (simp_all add: time_ok_def ex_dq_ok)
  from rt_data_queue_pop_refines [where D = "\<lambda>_. ex_dq_full" and i = 9, OF ex_kinv ex_running this]
  show ?thesis by (auto simp: dq_abs_def ex_dq_ok)
qed

theorem rt_data_queue_reset_releases_witness:
  "\<exists>k' D'. rt_data_queue_reset 9 (ex_kernel, \<lambda>_. ex_dq_full) = Some (k', D') \<and> dq_content (D' 9) = []"
proof -
  have "current_thread ex_kernel \<noteq> None" "dq_wf ((\<lambda>_. ex_dq_full) 9)" "0 \<le> sint (sched_lock_nest ex_kernel)"
    "sint (sched_lock_nest ex_kernel) < 32767"
    using ex_running by (simp_all add: ex_dq_ok running_def)
  from rt_data_queue_reset_releases [where D = "\<lambda>_. ex_dq_full" and i = 9, OF ex_kinv this]
  show ?thesis by (auto simp: dq_abs_def)
qed

end
