(* ===== verification/RT_Finsh_Vm.thy ===== *)
theory RT_Finsh_Vm
  imports RT_Prelude "HOL-Library.Signed_Division"
begin

text \<open>
  The virtual machine of the C-expression shell (\<open>components/finsh/finsh_vm.c\<close>,
  \<open>finsh_ops.c\<close>, sizes of \<open>finsh.h\<close>): a stack of unions, a text segment of bytes, and the memory
  of the target, which its instructions read and write through pointers. \<open>None\<close> is what C leaves
  undefined: an access outside an array or to memory that is not there or not aligned, a
  division by zero, a shift by the width or more. On the target a \<open>char\<close> is unsigned, a \<open>long\<close> has
  32 bits and is stored lowest byte first. The functions the shell can call are a parameter.
\<close>

section \<open>State\<close>

abbreviation (input) FINSH_STACK_MAX :: nat where "FINSH_STACK_MAX \<equiv> 64"
abbreviation (input) FINSH_TEXT_MAX :: nat where "FINSH_TEXT_MAX \<equiv> 128"

type_synonym memory = "u32 \<Rightarrow> u8 option"

text \<open>A slot of the stack is the union's \<open>long_value\<close>; its other members are the low bytes.\<close>

record finsh_vm =
  vm_stack :: "u32 list"
  vm_sp :: nat
  vm_text :: "u8 list"
  vm_pc :: nat
  vm_mem :: memory

type_synonym syscalls = "u32 \<Rightarrow> u32 list \<Rightarrow> memory \<Rightarrow> (u32 \<times> memory) option"

definition char_value :: "u32 \<Rightarrow> u8" where "char_value s = ucast s"
definition short_value :: "u32 \<Rightarrow> u16" where "short_value s = ucast s"

definition set_char_value :: "u8 \<Rightarrow> u32 \<Rightarrow> u32" where
  "set_char_value c s = (s AND NOT (mask 8)) OR ucast c"

definition set_short_value :: "u16 \<Rightarrow> u32 \<Rightarrow> u32" where
  "set_short_value c s = (s AND NOT (mask 16)) OR ucast c"

section \<open>Memory\<close>

definition load_byte :: "u32 \<Rightarrow> memory \<Rightarrow> u8 option" where
  "load_byte a m = m a"

definition load_word :: "u32 \<Rightarrow> memory \<Rightarrow> u16 option" where
  "load_word a m =
     do { rt_assert (a AND 1 = 0);
          b0 \<leftarrow> m a; b1 \<leftarrow> m (a + 1);
          Some (ucast b0 OR push_bit 8 (ucast b1)) }"

definition load_dword :: "u32 \<Rightarrow> memory \<Rightarrow> u32 option" where
  "load_dword a m =
     do { rt_assert (a AND 3 = 0);
          b0 \<leftarrow> m a; b1 \<leftarrow> m (a + 1); b2 \<leftarrow> m (a + 2); b3 \<leftarrow> m (a + 3);
          Some (ucast b0 OR push_bit 8 (ucast b1) OR push_bit 16 (ucast b2) OR push_bit 24 (ucast b3)) }"

definition store_byte :: "u32 \<Rightarrow> u8 \<Rightarrow> memory \<Rightarrow> memory option" where
  "store_byte a v m = do { rt_assert (m a \<noteq> None); Some (m(a \<mapsto> v)) }"

definition store_word :: "u32 \<Rightarrow> u16 \<Rightarrow> memory \<Rightarrow> memory option" where
  "store_word a v m =
     do { rt_assert (a AND 1 = 0);
          rt_assert (m a \<noteq> None \<and> m (a + 1) \<noteq> None);
          Some (m(a \<mapsto> ucast v, a + 1 \<mapsto> ucast (drop_bit 8 v))) }"

definition store_dword :: "u32 \<Rightarrow> u32 \<Rightarrow> memory \<Rightarrow> memory option" where
  "store_dword a v m =
     do { rt_assert (a AND 3 = 0);
          rt_assert (m a \<noteq> None \<and> m (a + 1) \<noteq> None \<and> m (a + 2) \<noteq> None \<and> m (a + 3) \<noteq> None);
          Some (m(a \<mapsto> ucast v, a + 1 \<mapsto> ucast (drop_bit 8 v),
                  a + 2 \<mapsto> ucast (drop_bit 16 v), a + 3 \<mapsto> ucast (drop_bit 24 v))) }"

section \<open>Stack and text\<close>

text \<open>The slot \<open>n\<close> below the stack pointer, and the slot it points to.\<close>

definition slot :: "nat \<Rightarrow> finsh_vm \<Rightarrow> u32 option" where
  "slot n v = (if n \<le> vm_sp v \<and> vm_sp v - n < length (vm_stack v)
               then Some (vm_stack v ! (vm_sp v - n)) else None)"

definition set_slot :: "nat \<Rightarrow> u32 \<Rightarrow> finsh_vm \<Rightarrow> finsh_vm" where
  "set_slot n x v = v\<lparr>vm_stack := (vm_stack v)[vm_sp v - n := x]\<rparr>"

definition move_sp :: "int \<Rightarrow> finsh_vm \<Rightarrow> finsh_vm option" where
  "move_sp d v = (if 0 \<le> int (vm_sp v) + d then Some (v\<lparr>vm_sp := nat (int (vm_sp v) + d)\<rparr>) else None)"

definition text_byte :: "nat \<Rightarrow> finsh_vm \<Rightarrow> u8 option" where
  "text_byte i v = (if vm_pc v + i < length (vm_text v) then Some (vm_text v ! (vm_pc v + i)) else None)"

definition FINSH_GET16 :: "finsh_vm \<Rightarrow> u16 option" where
  "FINSH_GET16 v = do { b0 \<leftarrow> text_byte 0 v; b1 \<leftarrow> text_byte 1 v; Some (ucast b0 OR push_bit 8 (ucast b1)) }"

definition FINSH_GET32 :: "finsh_vm \<Rightarrow> u32 option" where
  "FINSH_GET32 v =
     do { b0 \<leftarrow> text_byte 0 v; b1 \<leftarrow> text_byte 1 v; b2 \<leftarrow> text_byte 2 v; b3 \<leftarrow> text_byte 3 v;
          Some (ucast b0 OR push_bit 8 (ucast b1) OR push_bit 16 (ucast b2) OR push_bit 24 (ucast b3)) }"

definition skip :: "nat \<Rightarrow> finsh_vm \<Rightarrow> finsh_vm" where
  "skip n v = v\<lparr>vm_pc := vm_pc v + n\<rparr>"

section \<open>Arithmetic\<close>

datatype binop = Add | Sub | Div | Mod | Mul | And | Or | Xor | Shl | Shr

text \<open>A \<open>char\<close> is unsigned and promoted to \<open>int\<close>; a \<open>short\<close> is signed and promoted as well, a
  \<open>long\<close> has the width of \<open>int\<close>.\<close>

fun bin_char :: "binop \<Rightarrow> u8 \<Rightarrow> u8 \<Rightarrow> u8 option" where
  "bin_char Add a b = Some (a + b)"
| "bin_char Sub a b = Some (a - b)"
| "bin_char Mul a b = Some (a * b)"
| "bin_char Div a b = (if b = 0 then None else Some (a div b))"
| "bin_char Mod a b = (if b = 0 then None else Some (a mod b))"
| "bin_char And a b = Some (a AND b)"
| "bin_char Or a b = Some (a OR b)"
| "bin_char Xor a b = Some (a XOR b)"
| "bin_char Shl a b = (if unat b < 32 then Some (push_bit (unat b) a) else None)"
| "bin_char Shr a b = (if unat b < 32 then Some (drop_bit (unat b) a) else None)"

fun bin_short :: "binop \<Rightarrow> u16 \<Rightarrow> u16 \<Rightarrow> u16 option" where
  "bin_short Add a b = Some (a + b)"
| "bin_short Sub a b = Some (a - b)"
| "bin_short Mul a b = Some (a * b)"
| "bin_short Div a b = (if b = 0 then None else Some (word_of_int (sint a sdiv sint b)))"
| "bin_short Mod a b = (if b = 0 then None else Some (word_of_int (sint a smod sint b)))"
| "bin_short And a b = Some (a AND b)"
| "bin_short Or a b = Some (a OR b)"
| "bin_short Xor a b = Some (a XOR b)"
| "bin_short Shl a b = (if unat b < 32 then Some (push_bit (unat b) a) else None)"
| "bin_short Shr a b = (if unat b < 32 then Some (signed_drop_bit (unat b) a) else None)"

fun bin_long :: "binop \<Rightarrow> u32 \<Rightarrow> u32 \<Rightarrow> u32 option" where
  "bin_long Add a b = Some (a + b)"
| "bin_long Sub a b = Some (a - b)"
| "bin_long Mul a b = Some (a * b)"
| "bin_long Div a b =
     (if b = 0 \<or> (sint a = - (2 ^ 31) \<and> sint b = - 1) then None else Some (word_of_int (sint a sdiv sint b)))"
| "bin_long Mod a b =
     (if b = 0 \<or> (sint a = - (2 ^ 31) \<and> sint b = - 1) then None else Some (word_of_int (sint a smod sint b)))"
| "bin_long And a b = Some (a AND b)"
| "bin_long Or a b = Some (a OR b)"
| "bin_long Xor a b = Some (a XOR b)"
| "bin_long Shl a b = (if unat b < 32 then Some (push_bit (unat b) a) else None)"
| "bin_long Shr a b = (if unat b < 32 then Some (signed_drop_bit (unat b) a) else None)"

section \<open>Instructions\<close>

definition OP_no_op :: "finsh_vm \<Rightarrow> finsh_vm option" where
  "OP_no_op v = Some v"

definition OP_BIN_BYTE :: "binop \<Rightarrow> finsh_vm \<Rightarrow> finsh_vm option" where
  "OP_BIN_BYTE f v =
     do { a \<leftarrow> slot 2 v; b \<leftarrow> slot 1 v;
          r \<leftarrow> bin_char f (char_value a) (char_value b);
          move_sp (- 1) (set_slot 2 (set_char_value r a) v) }"

definition OP_BIN_WORD :: "binop \<Rightarrow> finsh_vm \<Rightarrow> finsh_vm option" where
  "OP_BIN_WORD f v =
     do { a \<leftarrow> slot 2 v; b \<leftarrow> slot 1 v;
          r \<leftarrow> bin_short f (short_value a) (short_value b);
          move_sp (- 1) (set_slot 2 (set_short_value r a) v) }"

definition OP_BIN_DWORD :: "binop \<Rightarrow> finsh_vm \<Rightarrow> finsh_vm option" where
  "OP_BIN_DWORD f v =
     do { a \<leftarrow> slot 2 v; b \<leftarrow> slot 1 v;
          r \<leftarrow> bin_long f a b;
          move_sp (- 1) (set_slot 2 r v) }"

definition OP_bw_byte :: "finsh_vm \<Rightarrow> finsh_vm option" where
  "OP_bw_byte v = do { a \<leftarrow> slot 1 v; Some (set_slot 1 (set_char_value (NOT (char_value a)) a) v) }"

definition OP_bw_word :: "finsh_vm \<Rightarrow> finsh_vm option" where
  "OP_bw_word v = do { a \<leftarrow> slot 1 v; Some (set_slot 1 (set_short_value (NOT (short_value a)) a) v) }"

definition OP_bw_dword :: "finsh_vm \<Rightarrow> finsh_vm option" where
  "OP_bw_dword v = do { a \<leftarrow> slot 1 v; Some (set_slot 1 (NOT a) v) }"

definition OP_ld_byte :: "finsh_vm \<Rightarrow> finsh_vm option" where
  "OP_ld_byte v =
     do { a \<leftarrow> slot 0 v; c \<leftarrow> text_byte 0 v;
          v \<leftarrow> move_sp 1 (set_slot 0 (set_char_value c a) v);
          Some (skip 1 v) }"

definition OP_ld_word :: "finsh_vm \<Rightarrow> finsh_vm option" where
  "OP_ld_word v =
     do { a \<leftarrow> slot 0 v; c \<leftarrow> FINSH_GET16 v;
          v \<leftarrow> move_sp 1 (set_slot 0 (set_short_value c a) v);
          Some (skip 2 v) }"

definition OP_ld_dword :: "finsh_vm \<Rightarrow> finsh_vm option" where
  "OP_ld_dword v =
     do { a \<leftarrow> slot 0 v; c \<leftarrow> FINSH_GET32 v;
          v \<leftarrow> move_sp 1 (set_slot 0 c v);
          Some (skip 4 v) }"

definition OP_ld_value_byte :: "finsh_vm \<Rightarrow> finsh_vm option" where
  "OP_ld_value_byte v =
     do { p \<leftarrow> FINSH_GET32 v; c \<leftarrow> load_byte p (vm_mem v); a \<leftarrow> slot 0 v;
          v \<leftarrow> move_sp 1 (set_slot 0 (set_char_value c a) v);
          Some (skip 4 v) }"

definition OP_ld_value_byte_stack :: "finsh_vm \<Rightarrow> finsh_vm option" where
  "OP_ld_value_byte_stack v =
     do { a \<leftarrow> slot 1 v; c \<leftarrow> load_byte a (vm_mem v); Some (set_slot 1 (set_char_value c a) v) }"

definition OP_ld_value_word :: "finsh_vm \<Rightarrow> finsh_vm option" where
  "OP_ld_value_word v =
     do { p \<leftarrow> FINSH_GET32 v; c \<leftarrow> load_word p (vm_mem v); a \<leftarrow> slot 0 v;
          v \<leftarrow> move_sp 1 (set_slot 0 (set_short_value c a) v);
          Some (skip 4 v) }"

definition OP_ld_value_word_stack :: "finsh_vm \<Rightarrow> finsh_vm option" where
  "OP_ld_value_word_stack v =
     do { a \<leftarrow> slot 1 v; c \<leftarrow> load_word a (vm_mem v); Some (set_slot 1 (set_short_value c a) v) }"

definition OP_ld_value_dword :: "finsh_vm \<Rightarrow> finsh_vm option" where
  "OP_ld_value_dword v =
     do { p \<leftarrow> FINSH_GET32 v; c \<leftarrow> load_dword p (vm_mem v); a \<leftarrow> slot 0 v;
          v \<leftarrow> move_sp 1 (set_slot 0 c v);
          Some (skip 4 v) }"

definition OP_ld_value_dword_stack :: "finsh_vm \<Rightarrow> finsh_vm option" where
  "OP_ld_value_dword_stack v =
     do { a \<leftarrow> slot 1 v; c \<leftarrow> load_dword a (vm_mem v); Some (set_slot 1 c v) }"

definition OP_st_byte :: "finsh_vm \<Rightarrow> finsh_vm option" where
  "OP_st_byte v =
     do { a \<leftarrow> slot 2 v; x \<leftarrow> slot 1 v; m \<leftarrow> store_byte a (char_value x) (vm_mem v);
          move_sp (- 1) (v\<lparr>vm_mem := m\<rparr>) }"

definition OP_st_word :: "finsh_vm \<Rightarrow> finsh_vm option" where
  "OP_st_word v =
     do { a \<leftarrow> slot 2 v; x \<leftarrow> slot 1 v; m \<leftarrow> store_word a (short_value x) (vm_mem v);
          move_sp (- 1) (v\<lparr>vm_mem := m\<rparr>) }"

definition OP_st_dword :: "finsh_vm \<Rightarrow> finsh_vm option" where
  "OP_st_dword v =
     do { a \<leftarrow> slot 2 v; x \<leftarrow> slot 1 v; m \<leftarrow> store_dword a x (vm_mem v);
          move_sp (- 1) (v\<lparr>vm_mem := m\<rparr>) }"

definition OP_pop :: "finsh_vm \<Rightarrow> finsh_vm option" where
  "OP_pop v = move_sp (- 1) v"

text \<open>The parameters are taken from the stack last first, with room for 16; a call without
  parameters is made with the parameter 0.\<close>

fun take_parameters :: "nat \<Rightarrow> u32 list \<Rightarrow> finsh_vm \<Rightarrow> (u32 list \<times> finsh_vm) option" where
  "take_parameters 0 ps v = Some (ps, v)"
| "take_parameters (Suc n) ps v =
     do { x \<leftarrow> slot 0 v; v \<leftarrow> move_sp (- 1) v; take_parameters n (x # ps) v }"

definition OP_call :: "syscalls \<Rightarrow> finsh_vm \<Rightarrow> finsh_vm option" where
  "OP_call sys v =
     do { n \<leftarrow> text_byte 0 v;
          let parameters = unat n;
          v \<leftarrow> move_sp (- 1) (skip 1 v);
          rt_assert (parameters \<le> 16);
          (ps, v) \<leftarrow> take_parameters parameters [] v;
          f \<leftarrow> slot 0 v;
          (r, m) \<leftarrow> sys f (if parameters = 0 then [0] else ps) (vm_mem v);
          move_sp 1 (set_slot 0 r (v\<lparr>vm_mem := m\<rparr>)) }"

definition op_table :: "syscalls \<Rightarrow> (finsh_vm \<Rightarrow> finsh_vm option) list" where
  "op_table sys =
     [OP_no_op,
      OP_BIN_BYTE Add, OP_BIN_WORD Add, OP_BIN_DWORD Add,
      OP_BIN_BYTE Sub, OP_BIN_WORD Sub, OP_BIN_DWORD Sub,
      OP_BIN_BYTE Div, OP_BIN_WORD Div, OP_BIN_DWORD Div,
      OP_BIN_BYTE Mod, OP_BIN_WORD Mod, OP_BIN_DWORD Mod,
      OP_BIN_BYTE Mul, OP_BIN_WORD Mul, OP_BIN_DWORD Mul,
      OP_BIN_BYTE And, OP_BIN_WORD And, OP_BIN_DWORD And,
      OP_BIN_BYTE Or, OP_BIN_WORD Or, OP_BIN_DWORD Or,
      OP_BIN_BYTE Xor, OP_BIN_WORD Xor, OP_BIN_DWORD Xor,
      OP_bw_byte, OP_bw_word, OP_bw_dword,
      OP_BIN_BYTE Shl, OP_BIN_WORD Shl, OP_BIN_DWORD Shl,
      OP_BIN_BYTE Shr, OP_BIN_WORD Shr, OP_BIN_DWORD Shr,
      OP_ld_byte, OP_ld_word, OP_ld_dword,
      OP_ld_value_byte, OP_ld_value_word, OP_ld_value_dword,
      OP_st_byte, OP_st_word, OP_st_dword,
      OP_pop, OP_call sys,
      OP_ld_value_byte_stack, OP_ld_value_word_stack, OP_ld_value_dword_stack]"

section \<open>The machine\<close>

text \<open>One turn of the loop in \<open>finsh_vm_run\<close>; the table has 48 functions.\<close>

definition vm_step :: "syscalls \<Rightarrow> finsh_vm \<Rightarrow> finsh_vm option" where
  "vm_step sys v =
     do { opc \<leftarrow> text_byte 0 v;
          rt_assert (unat opc < 48);
          (op_table sys ! unat opc) (skip 1 v) }"

lemma length_op_table [simp]: "length (op_table sys) = 48"
  by (simp add: op_table_def)

lemmas vm_op_defs = OP_no_op_def OP_BIN_BYTE_def OP_BIN_WORD_def OP_BIN_DWORD_def
  OP_bw_byte_def OP_bw_word_def OP_bw_dword_def OP_ld_byte_def OP_ld_word_def OP_ld_dword_def
  OP_ld_value_byte_def OP_ld_value_word_def OP_ld_value_dword_def OP_st_byte_def OP_st_word_def
  OP_st_dword_def OP_pop_def OP_call_def OP_ld_value_byte_stack_def OP_ld_value_word_stack_def
  OP_ld_value_dword_stack_def

lemma take_parameters_pc: "take_parameters n ps v = Some (ps', v') \<Longrightarrow> vm_pc v' = vm_pc v"
  by (induction n arbitrary: ps v) (auto simp: bind_eq_Some_conv move_sp_def split: if_splits)

lemma op_table_pc:
  assumes "f \<in> set (op_table sys)" "f v = Some v'"
  shows "vm_pc v \<le> vm_pc v'"
  using assms take_parameters_pc
  by (auto simp: op_table_def vm_op_defs bind_eq_Some_conv set_slot_def move_sp_def skip_def Let_def
      split: if_splits)

lemma vm_step_pc:
  assumes "vm_step sys v = Some v'"
  shows "vm_pc v < vm_pc v'"
proof -
  obtain opc :: u8 where "unat opc < 48" "(op_table sys ! unat opc) (skip 1 v) = Some v'"
    using assms by (auto simp: vm_step_def bind_eq_Some_conv simp del: One_nat_def)
  then have "vm_pc (skip 1 v) \<le> vm_pc v'" 
    by (intro op_table_pc [where sys = sys and f = "op_table sys ! unat opc"]) (simp_all del: One_nat_def)
  then show ?thesis by (simp add: skip_def)
qed

text \<open>The loop; every instruction moves on, so it ends at the end of the text.\<close>

function vm_loop :: "syscalls \<Rightarrow> finsh_vm \<Rightarrow> finsh_vm option" where
  "vm_loop sys v =
     (if vm_pc v < FINSH_TEXT_MAX
      then (case vm_step sys v of None \<Rightarrow> None | Some v' \<Rightarrow> vm_loop sys v')
      else Some v)"
  by pat_completeness auto
termination
  by (relation "measure (\<lambda>(sys, v). FINSH_TEXT_MAX - vm_pc v)") (auto dest: vm_step_pc)

declare vm_loop.simps [simp del]

definition finsh_vm_run :: "syscalls \<Rightarrow> finsh_vm \<Rightarrow> finsh_vm option" where
  "finsh_vm_run sys v = vm_loop sys (v\<lparr>vm_sp := 0, vm_pc := 0\<rparr>)"

definition finsh_stack_bottom :: "finsh_vm \<Rightarrow> u32" where
  "finsh_stack_bottom v = vm_stack v ! 0"

end
