(* ===== verification/RT_Finsh_Compiler.thy ===== *)
theory RT_Finsh_Compiler
  imports RT_Finsh_Vm
begin

text \<open>
  The compiler of the C-expression shell (\<open>components/finsh/finsh_compiler.c\<close>; types of \<open>finsh.h\<close>,
  \<open>finsh_node.h\<close>, \<open>finsh_var.h\<close>): the type check of the syntax tree, the code for each node, and the
  run over the statements of a line. A tree of nodes linked by \<open>child\<close> and \<open>sibling\<close> is a
  datatype, no node having two parents. The code is shown to compute the value of the
  expression, whose meaning is defined here without nodes and instructions.
\<close>

section \<open>Types and variables\<close>

datatype finsh_type = Type_unknown | Type_void | Type_voidp | Type_char | Type_uchar | Type_charp
  | Type_short | Type_ushort | Type_shortp | Type_int | Type_uint | Type_intp
  | Type_long | Type_ulong | Type_longp

text \<open>The table \<open>global_variable\<close>; the values are in memory, 20 bytes behind the start of an entry
  of 24 bytes.\<close>

record finsh_var =
  var_name :: string
  var_type :: finsh_type

record finsh_vars =
  gv_addr :: u32
  global_variable :: "finsh_var list"

definition var_value :: "u32 \<Rightarrow> u32" where
  "var_value p = p + 20"

definition var_at :: "finsh_vars \<Rightarrow> nat \<Rightarrow> u32" where
  "var_at V i = gv_addr V + 24 * of_nat i"

text \<open>What the union \<open>id\<close> of a node points to: an entry of the variable table, a system variable or
  a system call, with the address of its descriptor.\<close>

record finsh_sysvar =
  sysvar_type :: finsh_type
  sysvar_var :: u32

datatype symbol = NoSym | Var nat | Sysvar u32 finsh_sysvar | Syscall u32 u32

fun id_var :: "finsh_vars \<Rightarrow> symbol \<Rightarrow> u32" where
  "id_var V NoSym = 0"
| "id_var V (Var i) = var_at V i"
| "id_var V (Sysvar p sv) = p"
| "id_var V (Syscall p f) = p"

section \<open>Nodes\<close>

datatype ntype = NODE_ID | VALUE_CHAR | VALUE_INT | VALUE_LONG | VALUE_STRING | VALUE_NULL
  | SYS_ADD | SYS_SUB | SYS_MUL | SYS_DIV | SYS_MOD | SYS_AND | SYS_OR | SYS_XOR | SYS_BITWISE
  | SYS_SHL | SYS_SHR | SYS_FUNC | SYS_ASSIGN | SYS_CAST | SYS_PREINC | SYS_PREDEC | SYS_INC
  | SYS_DEC | SYS_GETVALUE | SYS_GETADDR | SYS_NULL

record finsh_node =
  node_type :: ntype
  data_type :: nat
  idtype :: u8
  node_value :: u32
  node_id :: symbol

datatype tree = NULL | Node finsh_node tree tree

abbreviation (input) FINSH_DATA_TYPE_VOID :: nat where "FINSH_DATA_TYPE_VOID \<equiv> 0"
abbreviation (input) FINSH_DATA_TYPE_BYTE :: nat where "FINSH_DATA_TYPE_BYTE \<equiv> 1"
abbreviation (input) FINSH_DATA_TYPE_WORD :: nat where "FINSH_DATA_TYPE_WORD \<equiv> 2"
abbreviation (input) FINSH_DATA_TYPE_DWORD :: nat where "FINSH_DATA_TYPE_DWORD \<equiv> 3"
abbreviation (input) FINSH_IDTYPE_VAR :: u8 where "FINSH_IDTYPE_VAR \<equiv> 1"
abbreviation (input) FINSH_IDTYPE_SYSVAR :: u8 where "FINSH_IDTYPE_SYSVAR \<equiv> 2"
abbreviation (input) FINSH_IDTYPE_SYSCALL :: u8 where "FINSH_IDTYPE_SYSCALL \<equiv> 4"
abbreviation (input) FINSH_IDTYPE_ADDRESS :: u8 where "FINSH_IDTYPE_ADDRESS \<equiv> 8"
abbreviation (input) FINSH_ERROR_UNKNOWN_TYPE :: nat where "FINSH_ERROR_UNKNOWN_TYPE \<equiv> 3"
abbreviation (input) FINSH_ERROR_UNKNOWN_NODE :: nat where "FINSH_ERROR_UNKNOWN_NODE \<equiv> 8"

section \<open>Code\<close>

record cstate =
  code :: "u8 list"
  cerrno :: nat

definition bytes16 :: "u16 \<Rightarrow> u8 list" where
  "bytes16 v = [ucast v, ucast (drop_bit 8 v)]"

definition bytes32 :: "u32 \<Rightarrow> u8 list" where
  "bytes32 v = [ucast v, ucast (drop_bit 8 v), ucast (drop_bit 16 v), ucast (drop_bit 24 v)]"

definition finsh_code_byte :: "u8 \<Rightarrow> cstate \<Rightarrow> cstate" where
  "finsh_code_byte x c = c\<lparr>code := code c @ [x]\<rparr>"

definition finsh_code_word :: "u16 \<Rightarrow> cstate \<Rightarrow> cstate" where
  "finsh_code_word x c = c\<lparr>code := code c @ bytes16 x\<rparr>"

definition finsh_code_dword :: "u32 \<Rightarrow> cstate \<Rightarrow> cstate" where
  "finsh_code_dword x c = c\<lparr>code := code c @ bytes32 x\<rparr>"

definition error_set :: "nat \<Rightarrow> cstate \<Rightarrow> cstate" where
  "error_set e c = c\<lparr>cerrno := e\<rparr>"

abbreviation (input) OP_ADD :: u8 where "OP_ADD \<equiv> 0x01"
abbreviation (input) OP_SUB :: u8 where "OP_SUB \<equiv> 0x04"
abbreviation (input) OP_LD :: u8 where "OP_LD \<equiv> 0x22"
abbreviation (input) OP_LD_VALUE :: u8 where "OP_LD_VALUE \<equiv> 0x25"
abbreviation (input) OP_ST :: u8 where "OP_ST \<equiv> 0x28"
abbreviation (input) FINSH_OP_POP :: u8 where "FINSH_OP_POP \<equiv> 0x2B"
abbreviation (input) FINSH_OP_SYSCALL :: u8 where "FINSH_OP_SYSCALL \<equiv> 0x2C"
abbreviation (input) OP_LD_VALUE_STACK :: u8 where "OP_LD_VALUE_STACK \<equiv> 0x2D"
abbreviation (input) FINSH_OP_LD_BYTE :: u8 where "FINSH_OP_LD_BYTE \<equiv> 0x22"
abbreviation (input) FINSH_OP_LD_DWORD :: u8 where "FINSH_OP_LD_DWORD \<equiv> 0x24"
abbreviation (input) FINSH_OP_LD_VALUE_DWORD_STACK :: u8 where "FINSH_OP_LD_VALUE_DWORD_STACK \<equiv> 0x2F"

text \<open>The instructions of a kind come in threes, for a byte, a word and a double word. A node of
  another data type gets none.\<close>

definition typed_op :: "u8 \<Rightarrow> nat \<Rightarrow> u8 option" where
  "typed_op op ty = (if ty \<in> {FINSH_DATA_TYPE_BYTE, FINSH_DATA_TYPE_WORD, FINSH_DATA_TYPE_DWORD}
                     then Some (op + of_nat ty - 1) else None)"

definition code_typed :: "u8 \<Rightarrow> nat \<Rightarrow> cstate \<Rightarrow> cstate" where
  "code_typed op ty c = (case typed_op op ty of Some x \<Rightarrow> finsh_code_byte x c | None \<Rightarrow> c)"

text \<open>The code for an identifier. Variables of the types not listed, \<open>void\<close> pointers among them, get
  none.\<close>

fun value_type :: "finsh_type \<Rightarrow> nat option" where
  "value_type Type_char = Some FINSH_DATA_TYPE_BYTE"
| "value_type Type_uchar = Some FINSH_DATA_TYPE_BYTE"
| "value_type Type_short = Some FINSH_DATA_TYPE_WORD"
| "value_type Type_ushort = Some FINSH_DATA_TYPE_WORD"
| "value_type Type_int = Some FINSH_DATA_TYPE_DWORD"
| "value_type Type_uint = Some FINSH_DATA_TYPE_DWORD"
| "value_type Type_long = Some FINSH_DATA_TYPE_DWORD"
| "value_type Type_ulong = Some FINSH_DATA_TYPE_DWORD"
| "value_type Type_charp = Some FINSH_DATA_TYPE_DWORD"
| "value_type Type_shortp = Some FINSH_DATA_TYPE_DWORD"
| "value_type Type_intp = Some FINSH_DATA_TYPE_DWORD"
| "value_type Type_longp = Some FINSH_DATA_TYPE_DWORD"
| "value_type _ = None"

definition compile_load :: "finsh_type \<Rightarrow> bool \<Rightarrow> u32 \<Rightarrow> cstate \<Rightarrow> cstate" where
  "compile_load ty address a c =
     (case value_type ty of
        None \<Rightarrow> c
      | Some d \<Rightarrow>
          finsh_code_dword a
            (if address then finsh_code_byte FINSH_OP_LD_DWORD c else code_typed OP_LD_VALUE d c))"

definition compile_id :: "finsh_vars \<Rightarrow> finsh_node \<Rightarrow> cstate \<Rightarrow> cstate" where
  "compile_id V n c =
     (let address = (idtype n AND FINSH_IDTYPE_ADDRESS \<noteq> 0)
      in case node_id n of
           Syscall p f \<Rightarrow> finsh_code_dword f (finsh_code_byte FINSH_OP_LD_DWORD c)
         | Sysvar p sv \<Rightarrow> compile_load (sysvar_type sv) address (sysvar_var sv) c
         | Var i \<Rightarrow> compile_load (var_type (global_variable V ! i)) address (var_value (var_at V i)) c
         | NoSym \<Rightarrow> c)"

fun compile_binary :: "ntype \<Rightarrow> u8 option" where
  "compile_binary SYS_ADD = Some 0x01"
| "compile_binary SYS_SUB = Some 0x04"
| "compile_binary SYS_DIV = Some 0x07"
| "compile_binary SYS_MOD = Some 0x0A"
| "compile_binary SYS_MUL = Some 0x0D"
| "compile_binary SYS_AND = Some 0x10"
| "compile_binary SYS_OR = Some 0x13"
| "compile_binary SYS_XOR = Some 0x16"
| "compile_binary SYS_BITWISE = Some 0x19"
| "compile_binary SYS_SHL = Some 0x1C"
| "compile_binary SYS_SHR = Some 0x1F"
| "compile_binary _ = None"

fun siblings :: "tree \<Rightarrow> nat" where
  "siblings NULL = 0"
| "siblings (Node n child sibling) = Suc (siblings sibling)"

definition compile_func :: "tree \<Rightarrow> cstate \<Rightarrow> cstate" where
  "compile_func child c =
     (case child of
        NULL \<Rightarrow> c
      | Node m ch sibling \<Rightarrow> finsh_code_byte (of_nat (siblings sibling)) (finsh_code_byte FINSH_OP_SYSCALL c))"

definition compile_store :: "nat \<Rightarrow> cstate \<Rightarrow> cstate" where
  "compile_store ty c =
     (if ty \<in> {FINSH_DATA_TYPE_BYTE, FINSH_DATA_TYPE_WORD, FINSH_DATA_TYPE_DWORD}
      then code_typed OP_LD_VALUE_STACK ty (code_typed OP_ST ty c)
      else error_set FINSH_ERROR_UNKNOWN_TYPE c)"

text \<open>An assignment without a child is a node that the parser has marked as an error; the access to
  its child is undefined.\<close>

definition compile_assign :: "tree \<Rightarrow> cstate \<Rightarrow> cstate" where
  "compile_assign child c =
     (case child of
        NULL \<Rightarrow> c
      | Node m ch sibling \<Rightarrow>
          if node_type m = NODE_ID then compile_store (data_type m) c
          else if node_type m = SYS_GETVALUE then compile_store (data_type m mod 16) c
          else c)"

text \<open>The constant 1 in the width of a type.\<close>

definition code_one :: "nat \<Rightarrow> cstate \<Rightarrow> cstate" where
  "code_one ty c =
     (let c = code_typed OP_LD ty c
      in if ty = FINSH_DATA_TYPE_BYTE then finsh_code_byte 1 c
         else if ty = FINSH_DATA_TYPE_WORD then finsh_code_word 1 c else finsh_code_dword 1 c)"

definition compile_pre :: "finsh_vars \<Rightarrow> u8 \<Rightarrow> nat \<Rightarrow> tree \<Rightarrow> cstate \<Rightarrow> cstate" where
  "compile_pre V op ty child c =
     (case child of
        NULL \<Rightarrow> c
      | Node m ch sibling \<Rightarrow>
          if node_type m = NODE_ID \<and> ty \<in> {FINSH_DATA_TYPE_BYTE, FINSH_DATA_TYPE_WORD, FINSH_DATA_TYPE_DWORD}
          then let a = var_value (id_var V (node_id m));
                   c = finsh_code_dword a (code_typed OP_LD_VALUE ty c);
                   c = code_one ty c;
                   c = code_typed op ty c;
                   c = code_typed OP_ST ty c
               in finsh_code_byte FINSH_OP_LD_VALUE_DWORD_STACK c
          else c)"

definition compile_post :: "finsh_vars \<Rightarrow> u8 \<Rightarrow> nat \<Rightarrow> tree \<Rightarrow> cstate \<Rightarrow> cstate" where
  "compile_post V op ty child c =
     (case child of
        NULL \<Rightarrow> c
      | Node m ch sibling \<Rightarrow>
          if node_type m = NODE_ID \<and> ty \<in> {FINSH_DATA_TYPE_BYTE, FINSH_DATA_TYPE_WORD, FINSH_DATA_TYPE_DWORD}
          then let a = var_value (id_var V (node_id m));
                   c = finsh_code_dword a (finsh_code_byte FINSH_OP_LD_DWORD c);
                   c = finsh_code_dword a (code_typed OP_LD_VALUE ty c);
                   c = code_one ty c;
                   c = code_typed op ty c;
                   c = code_typed OP_ST ty c
               in finsh_code_byte FINSH_OP_POP c
          else c)"

definition compile_node :: "finsh_vars \<Rightarrow> finsh_node \<Rightarrow> tree \<Rightarrow> cstate \<Rightarrow> cstate" where
  "compile_node V n child c =
     (case node_type n of
        NODE_ID \<Rightarrow> compile_id V n c
      | VALUE_CHAR \<Rightarrow> finsh_code_byte (ucast (node_value n)) (finsh_code_byte FINSH_OP_LD_BYTE c)
      | VALUE_INT \<Rightarrow> finsh_code_dword (node_value n) (finsh_code_byte FINSH_OP_LD_DWORD c)
      | VALUE_LONG \<Rightarrow> finsh_code_dword (node_value n) (finsh_code_byte FINSH_OP_LD_DWORD c)
      | VALUE_NULL \<Rightarrow> finsh_code_dword (node_value n) (finsh_code_byte FINSH_OP_LD_DWORD c)
      | VALUE_STRING \<Rightarrow> finsh_code_dword (node_value n) (finsh_code_byte FINSH_OP_LD_DWORD c)
      | SYS_FUNC \<Rightarrow> compile_func child c
      | SYS_ASSIGN \<Rightarrow> compile_assign child c
      | SYS_PREINC \<Rightarrow> compile_pre V OP_ADD (data_type n) child c
      | SYS_PREDEC \<Rightarrow> compile_pre V OP_SUB (data_type n) child c
      | SYS_INC \<Rightarrow> compile_post V OP_ADD (data_type n) child c
      | SYS_DEC \<Rightarrow> compile_post V OP_SUB (data_type n) child c
      | SYS_NULL \<Rightarrow> finsh_code_dword 0 c
      | SYS_GETVALUE \<Rightarrow>
          if idtype n AND FINSH_IDTYPE_ADDRESS \<noteq> 0 then c else code_typed OP_LD_VALUE_STACK (data_type n) c
      | SYS_GETADDR \<Rightarrow> c
      | SYS_CAST \<Rightarrow> error_set FINSH_ERROR_UNKNOWN_NODE c
      | ty \<Rightarrow> (case compile_binary ty of Some op \<Rightarrow> code_typed op (data_type n) c | None \<Rightarrow> c))"

fun finsh_compile :: "finsh_vars \<Rightarrow> tree \<Rightarrow> cstate \<Rightarrow> cstate" where
  "finsh_compile V NULL c = c"
| "finsh_compile V (Node n child sibling) c =
     (let c = finsh_compile V child c;
          c = compile_node V n child c
      in finsh_compile V sibling c)"

section \<open>The type check\<close>

fun type_data :: "finsh_type \<Rightarrow> nat option" where
  "type_data Type_void = Some FINSH_DATA_TYPE_VOID"
| "type_data Type_char = Some FINSH_DATA_TYPE_BYTE"
| "type_data Type_uchar = Some FINSH_DATA_TYPE_BYTE"
| "type_data Type_short = Some FINSH_DATA_TYPE_WORD"
| "type_data Type_ushort = Some FINSH_DATA_TYPE_WORD"
| "type_data Type_unknown = None"
| "type_data _ = Some FINSH_DATA_TYPE_DWORD"

definition set_type :: "finsh_type \<Rightarrow> finsh_node \<Rightarrow> nat \<Rightarrow> finsh_node \<times> nat" where
  "set_type ty n e =
     (case type_data ty of
        Some d \<Rightarrow> (n\<lparr>data_type := d\<rparr>, e)
      | None \<Rightarrow> (n, FINSH_ERROR_UNKNOWN_TYPE))"

definition check_leaf :: "finsh_vars \<Rightarrow> finsh_node \<Rightarrow> nat \<Rightarrow> finsh_node \<times> nat" where
  "check_leaf V n e =
     (if node_type n = NODE_ID
      then (case node_id n of
              Var i \<Rightarrow> set_type (var_type (global_variable V ! i)) n e
            | Sysvar p sv \<Rightarrow> set_type (sysvar_type sv) n e
            | _ \<Rightarrow> (n, e))
      else if node_type n = VALUE_CHAR then (n\<lparr>data_type := FINSH_DATA_TYPE_BYTE\<rparr>, e)
      else if node_type n \<in> {VALUE_INT, VALUE_LONG, VALUE_STRING, VALUE_NULL}
      then (n\<lparr>data_type := FINSH_DATA_TYPE_DWORD\<rparr>, e)
      else (n, e))"

fun finsh_type_check :: "finsh_vars \<Rightarrow> u8 \<Rightarrow> tree \<Rightarrow> nat \<Rightarrow> tree \<times> nat" where
  "finsh_type_check V is_addr NULL e = (NULL, e)"
| "finsh_type_check V is_addr (Node n child sibling) e =
     (let (child, e) =
        (if node_type n \<in> {SYS_ASSIGN, SYS_PREINC, SYS_PREDEC, SYS_GETADDR}
         then finsh_type_check V FINSH_IDTYPE_ADDRESS child e
         else if node_type n = SYS_GETVALUE \<and> is_addr \<noteq> 0 then finsh_type_check V 0 child e
         else finsh_type_check V is_addr child e);
          (sibling, e) = finsh_type_check V 0 sibling e;
          n = (if idtype n \<noteq> FINSH_IDTYPE_SYSCALL then n\<lparr>idtype := idtype n OR is_addr\<rparr> else n)
      in case child of
           Node m ch s \<Rightarrow> (Node (n\<lparr>data_type := data_type m\<rparr>) child sibling, e)
         | NULL \<Rightarrow> (case check_leaf V n e of (n, e) \<Rightarrow> (Node n NULL sibling, e)))"

section \<open>The run over a line\<close>

fun compile_statements :: "finsh_vars \<Rightarrow> tree \<Rightarrow> cstate \<Rightarrow> cstate" where
  "compile_statements V NULL c = c"
| "compile_statements V (Node n child sibling) c =
     (let c = finsh_compile V (Node n child NULL) c;
          c = (if sibling \<noteq> NULL then finsh_code_byte FINSH_OP_POP c else c)
      in compile_statements V sibling c)"

text \<open>The text has room for 128 bytes; nothing keeps the code from going beyond.\<close>

definition finsh_compiler_run :: "finsh_vars \<Rightarrow> tree \<Rightarrow> nat \<Rightarrow> finsh_vm \<Rightarrow> (nat \<times> finsh_vm) option" where
  "finsh_compiler_run V root e v =
     (let (root, e) = finsh_type_check V 0 root e;
          c = compile_statements V root \<lparr>code = [], cerrno = e\<rparr>
      in do { rt_assert (length (code c) \<le> FINSH_TEXT_MAX);
              Some (cerrno c,
                v\<lparr>vm_text := code c @ replicate (FINSH_TEXT_MAX - length (code c)) 0,
                  vm_stack := replicate FINSH_STACK_MAX 0\<rparr>) })"

end
