(* ===== verification/RT_Finsh_Token.thy ===== *)
theory RT_Finsh_Token
  imports RT_Finsh_Compiler
begin

text \<open>
  The tokens of the C-expression shell (\<open>components/finsh/finsh_token.c\<close>, \<open>finsh_error.c\<close>). A line is
  the list of its characters before the terminating zero, the buffer \<open>string\<close> a list of 128
  characters. \<open>None\<close> is a write beyond the end of a buffer. The error number is kept with the state
  of the scanner.
\<close>

section \<open>State\<close>

datatype finsh_token_type = Tleft_paren | Tright_paren | Tcomma | Tsemicolon | Tmul | Tadd | Tinc
  | Tsub | Tdec | Tdiv | Tmod | Tassign | Tand | Tor | Txor | Tbitwise | Tshl | Tshr
  | Tvoid | Tchar | Tshort | Tint | Tlong | Tunsigned
  | Tvalue_char | Tvalue_int | Tvalue_long | Tvalue_string | Tvalue_null
  | Tidentifier | Tbad | Teof

record finsh_token =
  tline :: string
  teof :: bool
  treplay :: bool
  tposition :: nat
  current_token :: finsh_token_type
  tvalue :: u32
  tstring :: string
  global_errno :: nat

abbreviation (input) FINSH_STRING_MAX :: nat where "FINSH_STRING_MAX \<equiv> 128"
abbreviation (input) FINSH_ERROR_OK :: nat where "FINSH_ERROR_OK \<equiv> 0"
abbreviation (input) FINSH_ERROR_INVALID_TOKEN :: nat where "FINSH_ERROR_INVALID_TOKEN \<equiv> 1"
abbreviation (input) FINSH_ERROR_EXPECT_TYPE :: nat where "FINSH_ERROR_EXPECT_TYPE \<equiv> 2"
abbreviation (input) FINSH_ERROR_VARIABLE_EXIST :: nat where "FINSH_ERROR_VARIABLE_EXIST \<equiv> 4"
abbreviation (input) FINSH_ERROR_EXPECT_OPERATOR :: nat where "FINSH_ERROR_EXPECT_OPERATOR \<equiv> 5"
abbreviation (input) FINSH_ERROR_MEMORY_FULL :: nat where "FINSH_ERROR_MEMORY_FULL \<equiv> 6"
abbreviation (input) FINSH_ERROR_EXPECT_CHAR :: nat where "FINSH_ERROR_EXPECT_CHAR \<equiv> 9"
abbreviation (input) FINSH_ERROR_UNEXPECT_END :: nat where "FINSH_ERROR_UNEXPECT_END \<equiv> 10"
abbreviation (input) FINSH_ERROR_UNKNOWN_TOKEN :: nat where "FINSH_ERROR_UNKNOWN_TOKEN \<equiv> 11"
abbreviation (input) FINSH_ERROR_UNKNOWN_SYMBOL :: nat where "FINSH_ERROR_UNKNOWN_SYMBOL \<equiv> 13"
abbreviation (input) FINSH_ERROR_NULL_NODE :: nat where "FINSH_ERROR_NULL_NODE \<equiv> 14"

abbreviation (input) NUL :: char where "NUL \<equiv> CHR 0x00"

definition finsh_error_set :: "nat \<Rightarrow> finsh_token \<Rightarrow> finsh_token" where
  "finsh_error_set e s = s\<lparr>global_errno := e\<rparr>"

definition finsh_token_init :: "string \<Rightarrow> nat \<Rightarrow> finsh_token" where
  "finsh_token_init line e = \<lparr>tline = line, teof = False, treplay = False, tposition = 0,
     current_token = Teof, tvalue = 0, tstring = replicate FINSH_STRING_MAX NUL, global_errno = e\<rparr>"

text \<open>Writing from the beginning of the buffer, and the string it holds.\<close>

definition write_string :: "string \<Rightarrow> finsh_token \<Rightarrow> finsh_token" where
  "write_string cs s = s\<lparr>tstring := cs @ drop (length cs) (tstring s)\<rparr>"

definition token_string :: "finsh_token \<Rightarrow> string" where
  "token_string s = takeWhile (\<lambda>c. c \<noteq> NUL) (tstring s)"

section \<open>Characters\<close>

definition ord :: "char \<Rightarrow> nat" where "ord c = of_char c"

definition is_digit :: "char \<Rightarrow> bool" where
  "is_digit ch \<longleftrightarrow> 48 \<le> ord ch \<and> ord ch \<le> 57"

definition is_alpha :: "char \<Rightarrow> bool" where
  "is_alpha ch \<longleftrightarrow> 97 \<le> ord ch OR 0x20 \<and> ord ch OR 0x20 < 97 + 26"

definition is_xdigit :: "char \<Rightarrow> bool" where
  "is_xdigit ch \<longleftrightarrow> is_digit ch \<or> (97 \<le> ord ch OR 0x20 \<and> ord ch OR 0x20 < 97 + 6)"

definition is_separator :: "char \<Rightarrow> bool" where
  "is_separator ch \<longleftrightarrow> \<not> ((97 \<le> ord ch \<and> ord ch \<le> 122) \<or> (65 \<le> ord ch \<and> ord ch \<le> 90) \<or> is_digit ch
     \<or> ch = CHR ''_'')"

text \<open>At the end of the line, or at a newline in it, the position goes back to the beginning.\<close>

definition token_next_char :: "finsh_token \<Rightarrow> char \<times> finsh_token" where
  "token_next_char s =
     (if teof s then (NUL, s)
      else if length (tline s) \<le> tposition s \<or> tline s ! tposition s = CHR 0x0A
      then (NUL, s\<lparr>teof := True, tposition := 0\<rparr>)
      else (tline s ! tposition s, s\<lparr>tposition := tposition s + 1\<rparr>))"

definition token_prev_char :: "finsh_token \<Rightarrow> finsh_token" where
  "token_prev_char s =
     (if teof s then s else if tposition s = 0 then s else s\<lparr>tposition := tposition s - 1\<rparr>)"

text \<open>The loops that read on while the character satisfies a condition, which the zero at the end
  never does: what they have read, the character that ended them, the state.\<close>

definition left :: "finsh_token \<Rightarrow> nat" where
  "left s = (if teof s then 0 else Suc (length (tline s) - tposition s))"

lemma next_char_left:
  "token_next_char s = (ch, s') \<Longrightarrow> ch \<noteq> NUL \<Longrightarrow> left s' < left s"
  by (auto simp: token_next_char_def left_def split: if_splits)

function scan :: "(char \<Rightarrow> bool) \<Rightarrow> char \<Rightarrow> finsh_token \<Rightarrow> string \<times> char \<times> finsh_token" where
  "scan P ch s =
     (if ch \<noteq> NUL \<and> P ch
      then case token_next_char s of (ch', s') \<Rightarrow>
             (case scan P ch' s' of (cs, r, s'') \<Rightarrow> (ch # cs, r, s''))
      else ([], ch, s))"
  by pat_completeness auto
termination
  by (relation "measure (\<lambda>(P, ch, s). if ch = NUL then 0 else Suc (left s))")
    (auto split: prod.split dest: next_char_left)

declare scan.simps [simp del]

section \<open>Tokens\<close>

definition token_trim_space :: "finsh_token \<Rightarrow> finsh_token" where
  "token_trim_space s =
     (let (ch, s) = token_next_char s;
          (sp, ch, s) = scan (\<lambda>c. c \<in> {CHR '' '', CHR 0x09, CHR 0x0D}) ch s
      in token_prev_char s)"

definition token_get_string :: "finsh_token \<Rightarrow> finsh_token option" where
  "token_get_string s =
     (let (ch, s) = token_next_char s
      in if teof s then Some s
         else if is_digit ch then Some (token_prev_char (write_string [NUL] s))
         else let (cs, ch, s) = scan (\<lambda>c. \<not> is_separator c) ch s
              in do { rt_assert (length cs < FINSH_STRING_MAX);
                      Some (write_string (cs @ [NUL]) (token_prev_char (s\<lparr>teof := False\<rparr>))) })"

definition finsh_name_table :: "(string \<times> finsh_token_type) list" where
  "finsh_name_table = [(''void'', Tvoid), (''char'', Tchar), (''short'', Tshort), (''int'', Tint),
     (''long'', Tlong), (''unsigned'', Tunsigned), (''NULL'', Tvalue_null), (''null'', Tvalue_null)]"

definition token_match_name :: "string \<Rightarrow> finsh_token_type option" where
  "token_match_name str = map_of finsh_name_table str"

text \<open>A character in quotes. The digits of an escape are read into a buffer of four characters, and
  the number is then taken from behind them: it is always 0.\<close>

definition token_proc_char :: "finsh_token \<Rightarrow> (char \<times> finsh_token) option" where
  "token_proc_char s =
     (let (ch, s) = token_next_char s
      in do { (ch, s) \<leftarrow>
                (if ch = CHR 0x5C
                 then let (ch, s) = token_next_char s
                      in if ch = CHR ''n'' then Some (CHR 0x0A, s)
                         else if ch = CHR ''t'' then Some (CHR 0x09, s)
                         else if ch = CHR ''v'' then Some (CHR 0x0B, s)
                         else if ch = CHR ''b'' then Some (CHR 0x08, s)
                         else if ch = CHR ''r'' then Some (CHR 0x0D, s)
                         else if ch = CHR 0x5C then Some (CHR 0x5C, s)
                         else if ch = CHR 0x27 then Some (CHR 0x27, s)
                         else let (cs, ch, s) = scan is_digit ch s
                              in do { rt_assert (length cs < 4); Some (NUL, token_prev_char s) }
                 else Some (ch, s));
              let (q, s) = token_next_char s;
              Some (ch, if q \<noteq> CHR 0x27 then finsh_error_set FINSH_ERROR_EXPECT_CHAR (token_prev_char s) else s) })"

definition hex_step :: "nat \<Rightarrow> char \<Rightarrow> nat" where
  "hex_step r ch = r * 16 + (if ord ch < 65 then ord ch - 48 else (ord ch OR 0x20) - 97 + 10)"

definition octal_digit :: "char \<Rightarrow> bool" where
  "octal_digit ch \<longleftrightarrow> 48 \<le> ord ch \<and> ord ch < 56"

definition token_proc_escape :: "finsh_token \<Rightarrow> char \<times> finsh_token" where
  "token_proc_escape s =
     (let (ch, s) = token_next_char s
      in if ch = CHR ''n'' then (CHR 0x0A, s)
         else if ch = CHR ''t'' then (CHR 0x09, s)
         else if ch = CHR ''v'' then (CHR 0x0B, s)
         else if ch = CHR ''b'' then (CHR 0x08, s)
         else if ch = CHR ''r'' then (CHR 0x0D, s)
         else if ch = CHR ''f'' then (CHR 0x0C, s)
         else if ch = CHR ''a'' then (CHR 0x07, s)
         else if ch = CHR 0x22 then (CHR 0x22, s)
         else if ch = CHR ''x'' \<or> ch = CHR ''X''
         then let (ch, s) = token_next_char s; (cs, ch, s) = scan is_xdigit ch s
              in (char_of (foldl hex_step 0 cs), token_prev_char s)
         else if octal_digit ch
         then let (cs, ch, s) = scan octal_digit ch s
              in (char_of (foldl (\<lambda>r c. r * 8 + (ord c - 48)) 0 cs), token_prev_char s)
         else (NUL, s))"

text \<open>What is written for a string: the characters up to the closing quote and a zero, with room for
  \<open>n\<close> characters.\<close>

fun string_loop :: "nat \<Rightarrow> finsh_token \<Rightarrow> string \<times> finsh_token" where
  "string_loop 0 s = ([], s)"
| "string_loop (Suc n) s =
     (let (ch, s) = token_next_char s
      in if teof s then ([], finsh_error_set FINSH_ERROR_UNEXPECT_END s)
         else if ch = CHR 0x22 then ([NUL], s)
         else let (ch, s) = (if ch = CHR 0x5C then token_proc_escape s else (ch, s));
                  (cs, s) = string_loop n s
              in (ch # cs, s))"

definition token_proc_string :: "finsh_token \<Rightarrow> finsh_token" where
  "token_proc_string s = (case string_loop FINSH_STRING_MAX s of (cs, s) \<Rightarrow> write_string cs s)"

definition digit_value :: "char \<Rightarrow> u32" where
  "digit_value ch =
     (if 97 \<le> ord ch \<and> ord ch \<le> 102 then of_nat (ord ch - 97 + 10)
      else if 65 \<le> ord ch \<and> ord ch \<le> 70 then of_nat (ord ch - 65 + 10)
      else of_nat (ord ch) - 48)"

text \<open>The lower word of the 64-bit number; the upper one is not used.\<close>

definition token_spec_number :: "string \<Rightarrow> nat \<Rightarrow> u32" where
  "token_spec_number str b =
     (let shift = (if b = 16 then 4 else if b = 8 then 3 else 1)
      in foldl (\<lambda>v ch. push_bit shift v OR digit_value ch) 0 str)"

definition decimal_step :: "u32 \<Rightarrow> char \<Rightarrow> u32" where
  "decimal_step v ch = v * 10 + (of_nat (ord ch) - 48)"

definition number_end :: "u32 \<Rightarrow> char \<Rightarrow> finsh_token \<Rightarrow> finsh_token" where
  "number_end v ch s =
     (let s = s\<lparr>tvalue := v, current_token := Tvalue_int\<rparr>
      in if ch = CHR ''l'' \<or> ch = CHR ''L'' then s\<lparr>current_token := Tvalue_long\<rparr> else token_prev_char s)"

definition token_proc_number :: "finsh_token \<Rightarrow> finsh_token option" where
  "token_proc_number s =
     (let (ch, s) = token_next_char s
      in if ch = CHR ''0''
         then let (ch, s) = token_next_char s
              in if ch = CHR ''x'' \<or> ch = CHR ''X''
                 then let (ch, s) = token_next_char s; (cs, ch, s) = scan (\<lambda>c. is_digit c \<or> is_alpha c) ch s
                      in do { rt_assert (length cs < 128); Some (number_end (token_spec_number cs 16) ch s) }
                 else if ch = CHR ''b'' \<or> ch = CHR ''B''
                 then let (ch, s) = token_next_char s; (cs, ch, s) = scan (\<lambda>c. c = CHR ''0'' \<or> c = CHR ''1'') ch s
                      in do { rt_assert (length cs < 128); Some (number_end (token_spec_number cs 2) ch s) }
                 else if octal_digit ch
                 then let (cs, ch, s) = scan octal_digit ch s
                      in do { rt_assert (length cs < 128); Some (number_end (token_spec_number cs 8) ch s) }
                 else Some ((token_prev_char s)\<lparr>tvalue := 0, current_token := Tvalue_int\<rparr>)
         else let (cs, ch, s) = scan is_digit ch s in Some (number_end (foldl decimal_step 0 cs) ch s))"

text \<open>An operator of one character, or of two equal ones.\<close>

definition double_char :: "char \<Rightarrow> finsh_token_type \<Rightarrow> finsh_token_type \<Rightarrow> finsh_token \<Rightarrow> finsh_token" where
  "double_char c both one s =
     (let (ch, s) = token_next_char s
      in if ch = c then s\<lparr>current_token := both\<rparr> else (token_prev_char s)\<lparr>current_token := one\<rparr>)"

definition token_operator :: "finsh_token \<Rightarrow> finsh_token option" where
  "token_operator s =
     (let (ch, s) = token_next_char s;
          is = (\<lambda>t. Some (s\<lparr>current_token := t\<rparr>))
      in if ch = CHR ''('' then is Tleft_paren
         else if ch = CHR '')'' then is Tright_paren
         else if ch = CHR '','' then is Tcomma
         else if ch = CHR '';'' then is Tsemicolon
         else if ch = CHR 0x26 then is Tand
         else if ch = CHR ''*'' then is Tmul
         else if ch = CHR ''+'' then Some (double_char CHR ''+'' Tinc Tadd s)
         else if ch = CHR ''-'' then Some (double_char CHR ''-'' Tdec Tsub s)
         else if ch = CHR ''/'' then Some (double_char CHR ''/'' Teof Tdiv s)
         else if ch = CHR ''<'' then Some (double_char CHR ''<'' Tshl Tbad s)
         else if ch = CHR ''>'' then Some (double_char CHR ''>'' Tshr Tbad s)
         else if ch = CHR ''|'' then is Tor
         else if ch = CHR 0x25 then is Tmod
         else if ch = CHR ''~'' then is Tbitwise
         else if ch = CHR 0x5E then is Txor
         else if ch = CHR ''='' then is Tassign
         else if ch = CHR 0x27
         then do { (c, s) \<leftarrow> token_proc_char s;
                   Some (s\<lparr>tvalue := set_char_value (of_nat (ord c)) (tvalue s), current_token := Tvalue_char\<rparr>) }
         else if ch = CHR 0x22
         then Some ((token_proc_string s)\<lparr>current_token := Tvalue_string\<rparr>)
         else if is_digit ch then token_proc_number (token_prev_char s)
         else Some ((finsh_error_set FINSH_ERROR_UNKNOWN_TOKEN s)\<lparr>current_token := Tbad\<rparr>))"

definition token_run :: "finsh_token \<Rightarrow> finsh_token option" where
  "token_run s =
     do { s \<leftarrow> token_get_string (token_trim_space s);
          if teof s then Some (s\<lparr>current_token := Teof\<rparr>)
          else if token_string s \<noteq> []
          then Some (s\<lparr>current_token := (case token_match_name (token_string s) of Some t \<Rightarrow> t | None \<Rightarrow> Tidentifier)\<rparr>)
          else token_operator s }"

definition finsh_token_token :: "finsh_token \<Rightarrow> (finsh_token_type \<times> finsh_token) option" where
  "finsh_token_token s =
     (if treplay s then Some (current_token s, s\<lparr>treplay := False\<rparr>)
      else do { s \<leftarrow> token_run s; Some (current_token s, s) })"

end
