(* ===== verification/RT_Finsh_Heap.thy ===== *)
theory RT_Finsh_Heap
  imports RT_Alloc
begin

text \<open>
  The heap for the strings of the C-expression shell (\<open>components/finsh/finsh_heap.c\<close>): 128 bytes
  with a header of 8 bytes before each block. A block is its offset and its length; the two linked
  lists of headers, both sorted by address, are lists of blocks. The collector frees the blocks
  that no variable points to; which these are is an argument. \<open>None\<close> stands for the release of
  something that is not an allocated block, and for a block put at the end of the free list: its
  header keeps the link it had in the list of allocated blocks. Sizes are natural numbers: the only
  caller asks for at most 128 bytes, so the sums of the code do not wrap.
\<close>

type_synonym fblock = "nat \<times> nat"

abbreviation (input) FINSH_HEAP_MAX :: nat where "FINSH_HEAP_MAX \<equiv> 128"
abbreviation (input) HEADER_SIZE :: nat where "HEADER_SIZE \<equiv> 8"

record fheap =
  free_list :: "fblock list"
  allocate_list :: "fblock list"

definition finsh_block_get_data :: "fblock \<Rightarrow> nat" where
  "finsh_block_get_data b = fst b + HEADER_SIZE"

definition block_end :: "fblock \<Rightarrow> nat" where
  "block_end b = fst b + HEADER_SIZE + snd b"

definition HEAP_ALIGN_SIZE :: "nat \<Rightarrow> nat" where
  "HEAP_ALIGN_SIZE sz = (sz + 3) div 4 * 4"

definition finsh_heap_init :: fheap where
  "finsh_heap_init = \<lparr>free_list = [(0, FINSH_HEAP_MAX - HEADER_SIZE)], allocate_list = []\<rparr>"

definition finsh_block_insert :: "fblock \<Rightarrow> fblock list \<Rightarrow> fblock list" where
  "finsh_block_insert b bs = insort_key fst b bs"

definition finsh_block_remove :: "nat \<Rightarrow> fblock list \<Rightarrow> fblock list" where
  "finsh_block_remove a bs = filter (\<lambda>b. fst b \<noteq> a) bs"

text \<open>The rest of a block behind \<open>sz\<close> bytes becomes a block of its own, which follows it in the list.\<close>

definition finsh_block_split :: "fblock \<Rightarrow> nat \<Rightarrow> fblock list \<Rightarrow> fblock list" where
  "finsh_block_split b sz bs =
     concat (map (\<lambda>c. if fst c = fst b
        then [(fst b, sz), (fst b + HEADER_SIZE + sz, snd b - HEADER_SIZE - sz)] else [c]) bs)"

text \<open>The block at the address \<open>a\<close> is merged with the block before it if they touch, and with the one
  behind it.\<close>

definition finsh_block_merge :: "nat \<Rightarrow> fblock list \<Rightarrow> fblock list" where
  "finsh_block_merge a bs =
     (let front = takeWhile (\<lambda>b. fst b \<noteq> a) bs; p = last front
      in case dropWhile (\<lambda>b. fst b \<noteq> a) bs of
           [] \<Rightarrow> bs
         | h # behind \<Rightarrow>
             let close = (case behind of [] \<Rightarrow> False | n # ns \<Rightarrow> block_end h = fst n);
                 n = hd behind
             in if front \<noteq> [] \<and> block_end p = fst h
                then if close
                     then butlast front @ (fst p, snd p + snd h + snd n + 2 * HEADER_SIZE) # tl behind
                     else butlast front @ (fst p, snd p + snd h + HEADER_SIZE) # behind
                else if close
                then front @ (fst h, snd h + snd n + HEADER_SIZE) # tl behind
                else bs)"

definition finsh_heap_free :: "nat \<Rightarrow> fheap \<Rightarrow> fheap option" where
  "finsh_heap_free p H =
     do { b \<leftarrow> find (\<lambda>b. finsh_block_get_data b = p) (allocate_list H);
          rt_assert (list_ex (\<lambda>c. fst b < fst c) (free_list H));
          Some \<lparr>free_list = finsh_block_merge (fst b) (finsh_block_insert b (free_list H)),
            allocate_list = finsh_block_remove (fst b) (allocate_list H)\<rparr> }"

fun gc_loop :: "(nat \<Rightarrow> bool) \<Rightarrow> fblock list \<Rightarrow> fheap \<Rightarrow> fheap option" where
  "gc_loop live [] H = Some H"
| "gc_loop live (b # bs) H =
     (if live (finsh_block_get_data b) then gc_loop live bs H
      else do { H \<leftarrow> finsh_heap_free (finsh_block_get_data b) H; gc_loop live bs H })"

definition finsh_heap_gc :: "(nat \<Rightarrow> bool) \<Rightarrow> fheap \<Rightarrow> fheap option" where
  "finsh_heap_gc live H = gc_loop live (allocate_list H) H"

text \<open>The first search leaves a rest of at least one byte behind the new block, the second one, after
  the collection, may leave none.\<close>

definition heap_take :: "fblock \<Rightarrow> nat \<Rightarrow> fheap \<Rightarrow> fheap" where
  "heap_take b sz H =
     \<lparr>free_list = finsh_block_remove (fst b) (finsh_block_split b sz (free_list H)),
      allocate_list = finsh_block_insert (fst b, sz) (allocate_list H)\<rparr>"

definition finsh_heap_allocate :: "(nat \<Rightarrow> bool) \<Rightarrow> nat \<Rightarrow> fheap \<Rightarrow> (nat option \<times> fheap) option" where
  "finsh_heap_allocate live sz0 H =
     (let sz = HEAP_ALIGN_SIZE sz0
      in case find (\<lambda>b. \<not> snd b \<le> sz + HEADER_SIZE) (free_list H) of
           Some b \<Rightarrow> Some (Some (finsh_block_get_data b), heap_take b sz H)
         | None \<Rightarrow>
             do { H \<leftarrow> finsh_heap_gc live H;
                  Some (case find (\<lambda>b. \<not> snd b < sz + HEADER_SIZE) (free_list H) of
                          Some b \<Rightarrow> (Some (finsh_block_get_data b), heap_take b sz H)
                        | None \<Rightarrow> (None, H)) })"

section \<open>The blocks tile the heap\<close>

text \<open>The layout of the heap: all blocks in the order of their addresses, each with whether it is
  allocated. They lie one behind the other without a gap, and the last one is free.\<close>

type_synonym layout = "(fblock \<times> bool) list"

fun tiles :: "nat \<Rightarrow> layout \<Rightarrow> nat \<Rightarrow> bool" where
  "tiles a [] e \<longleftrightarrow> a = e"
| "tiles a (x # L) e \<longleftrightarrow> fst (fst x) = a \<and> tiles (block_end (fst x)) L e"

definition frees :: "layout \<Rightarrow> fblock list" where
  "frees L = map fst (filter (\<lambda>x. \<not> snd x) L)"

definition useds :: "layout \<Rightarrow> fblock list" where
  "useds L = map fst (filter snd L)"

definition laid_out :: "layout \<Rightarrow> fheap \<Rightarrow> bool" where
  "laid_out L H \<longleftrightarrow> tiles 0 L FINSH_HEAP_MAX \<and> L \<noteq> [] \<and> \<not> snd (last L)
     \<and> free_list H = frees L \<and> allocate_list H = useds L"

definition fheap_ok :: "fheap \<Rightarrow> bool" where
  "fheap_ok H \<longleftrightarrow> (\<exists>L. laid_out L H)"

lemma list_simps [simp]:
  "frees [] = []" "useds [] = []"
  "frees ((b, True) # L) = frees L" "frees ((b, False) # L) = b # frees L"
  "useds ((b, True) # L) = b # useds L" "useds ((b, False) # L) = useds L"
  "frees (L @ M) = frees L @ frees M" "useds (L @ M) = useds L @ useds M"
  by (simp_all add: frees_def useds_def)

lemma tiles_append [simp]: "tiles a (L @ M) e \<longleftrightarrow> (\<exists>m. tiles a L m \<and> tiles m M e)"
  by (induction L arbitrary: a) auto

lemma tiles_bounds:
  "tiles a L e \<Longrightarrow> a \<le> e"
  "tiles a L e \<Longrightarrow> x \<in> set L \<Longrightarrow> a \<le> fst (fst x) \<and> block_end (fst x) \<le> e"
proof (induction L arbitrary: a)
  case (Cons y L)
  { case 1 show ?case using Cons(1) [of "block_end (fst y)"] 1 by (auto simp: block_end_def) }
  { case 2 show ?case using Cons(1,2) [of "block_end (fst y)"] 2 by (auto simp: block_end_def) }
qed auto

lemma tiles_lists:
  assumes "tiles a L e"
  shows "\<forall>b \<in> set (frees L). a \<le> fst b \<and> fst b < e" "\<forall>b \<in> set (useds L). a \<le> fst b \<and> fst b < e"
proof -
  have "a \<le> fst b \<and> fst b < e" if "(b, u) \<in> set L" for b u
    using tiles_bounds(2) [OF assms that] by (simp add: block_end_def)
  then show "\<forall>b \<in> set (frees L). a \<le> fst b \<and> fst b < e" "\<forall>b \<in> set (useds L). a \<le> fst b \<and> fst b < e"
    by (auto simp: frees_def useds_def)
qed

lemma insort_mid:
  "\<forall>x \<in> set xs. f x < f b \<Longrightarrow> \<forall>y \<in> set ys. f b < f y \<Longrightarrow> insort_key f b (xs @ ys) = xs @ b # ys"
proof (induction xs)
  case Nil
  then show ?case by (cases ys) auto
qed auto

text \<open>What is around a block of the layout.\<close>

lemma tiles_around:
  assumes "tiles a (L @ (b, u) # M) e"
  shows "tiles a L (fst b)" "tiles (block_end b) M e"
    and "\<forall>x \<in> set (frees L). fst x < fst b" "\<forall>x \<in> set (useds L). fst x < fst b"
    and "\<forall>y \<in> set (frees M). fst b < fst y" "\<forall>y \<in> set (useds M). fst b < fst y"
proof -
  show t: "tiles a L (fst b)" "tiles (block_end b) M e" using assms by auto
  show "\<forall>x \<in> set (frees L). fst x < fst b" "\<forall>x \<in> set (useds L). fst x < fst b"
    using tiles_lists [OF t(1)] by blast+
  have "fst b < block_end b" by (simp add: block_end_def)
  then show "\<forall>y \<in> set (frees M). fst b < fst y" "\<forall>y \<in> set (useds M). fst b < fst y"
    using tiles_lists [OF t(2)] by fastforce+
qed

lemma insert_around:
  assumes "tiles a (L @ (b, u) # M) e" "fst c = fst b"
  shows "finsh_block_insert c (frees L @ frees M) = frees L @ c # frees M"
    and "finsh_block_insert c (useds L @ useds M) = useds L @ c # useds M"
  unfolding finsh_block_insert_def
  by (rule insort_mid; use tiles_around(3-6) [OF assms(1)] assms(2) in simp)+

lemma filter_around:
  assumes "tiles a (L @ (b, u) # M) e"
  shows "filter (\<lambda>d. fst d \<noteq> fst b) (frees L) = frees L" "filter (\<lambda>d. fst d \<noteq> fst b) (frees M) = frees M"
    "filter (\<lambda>d. fst d \<noteq> fst b) (useds L) = useds L" "filter (\<lambda>d. fst d \<noteq> fst b) (useds M) = useds M"
  using tiles_around(3-6) [OF assms] by (auto intro!: filter_True)

lemma find_mid: "\<forall>x \<in> set xs. \<not> P x \<Longrightarrow> P b \<Longrightarrow> find P (xs @ b # ys) = Some b"
  by (induction xs) auto

text \<open>The free blocks next to a block in the list touch it exactly when they are next to it in the layout.\<close>

lemma touches_before:
  assumes "tiles a L m" "frees L \<noteq> [] \<and> block_end (last (frees L)) = m"
  shows "\<exists>L0 p. L = L0 @ [(p, False)] \<and> last (frees L) = p"
proof (cases L rule: rev_cases)
  case (snoc L0 x)
  obtain p u where x: "x = (p, u)" by fastforce
  show ?thesis
  proof (cases u)
    case True
    have "tiles a L0 (fst p)" "m = block_end p" "frees L0 \<noteq> []" using assms snoc x True by auto
    then have "last (frees L0) \<in> set (frees L0)" by simp
    then have "(last (frees L0), False) \<in> set L0" by (auto simp: frees_def)
    then have "block_end (last (frees L0)) \<le> fst p"
      using tiles_bounds(2) [OF \<open>tiles a L0 (fst p)\<close>] by fastforce
    then show ?thesis using assms(2) snoc x True \<open>m = block_end p\<close> by (simp add: block_end_def)
  qed (use snoc x in auto)
qed (use assms in auto)

lemma touches_behind:
  assumes "tiles m L e" "frees L = n # ns" "m = fst n"
  shows "\<exists>L0. L = (n, False) # L0 \<and> frees L0 = ns"
proof (cases L)
  case (Cons x L0)
  obtain b u where x: "x = (b, u)" by fastforce
  show ?thesis
  proof (cases u)
    case True
    have "tiles (block_end b) L0 e" "fst b = m" "n \<in> set (frees L0)" using assms Cons x True by auto
    then have "block_end b \<le> fst n" using tiles_lists(1) by blast
    then show ?thesis using assms(3) \<open>fst b = m\<close> by (simp add: block_end_def)
  qed (use assms Cons x in auto)
qed (use assms in auto)

lemma merge_layout:
  assumes t: "tiles a (L1 @ (b, False) # L2) e" and "\<not> snd (last ((b, False) # L2))"
  shows "\<exists>L. tiles a L e \<and> L \<noteq> [] \<and> \<not> snd (last L) \<and> useds L = useds L1 @ useds L2
    \<and> finsh_block_merge (fst b) (frees L1 @ b # frees L2) = frees L"
proof -
  note around = tiles_around [OF t]
  let ?bs = "frees L1 @ b # frees L2"
  have "\<forall>c \<in> set (frees L1). fst c \<noteq> fst b" using around(3) by fastforce
  then have tw: "takeWhile (\<lambda>c. fst c \<noteq> fst b) ?bs = frees L1" "dropWhile (\<lambda>c. fst c \<noteq> fst b) ?bs = b # frees L2"
    by (simp_all add: takeWhile_append2 dropWhile_append2)
  define front where "front \<longleftrightarrow> frees L1 \<noteq> [] \<and> block_end (last (frees L1)) = fst b"
  define behind where "behind \<longleftrightarrow> (case frees L2 of [] \<Rightarrow> False | n # ns \<Rightarrow> block_end b = fst n)"
  have bf: "\<exists>L0 p. L1 = L0 @ [(p, False)] \<and> last (frees L1) = p \<and> block_end p = fst b" if front
    using touches_before [OF around(1)] that by (auto simp: front_def)
  have bh: "\<exists>L0 n. L2 = (n, False) # L0 \<and> hd (frees L2) = n \<and> block_end b = fst n" if behind
    using touches_behind [OF around(2)] that by (auto simp: behind_def split: list.splits)
  have m: "finsh_block_merge (fst b) ?bs =
    (let p = last (frees L1); n = hd (frees L2)
     in if front
        then if behind then butlast (frees L1) @ (fst p, snd p + snd b + snd n + 2 * HEADER_SIZE) # tl (frees L2)
             else butlast (frees L1) @ (fst p, snd p + snd b + HEADER_SIZE) # frees L2
        else if behind then frees L1 @ (fst b, snd b + snd n + HEADER_SIZE) # tl (frees L2)
        else ?bs)"
    by (simp add: finsh_block_merge_def tw front_def behind_def Let_def)
  show ?thesis
  proof (cases front)
    case True
    then obtain L0 p where p: "L1 = L0 @ [(p, False)]" "last (frees L1) = p" "block_end p = fst b" using bf by blast
    show ?thesis
    proof (cases behind)
      case True
      then obtain L3 n where n: "L2 = (n, False) # L3" "block_end b = fst n" using bh by blast
      show ?thesis
        by (rule exI [of _ "L0 @ ((fst p, snd p + snd b + snd n + 2 * HEADER_SIZE), False) # L3"])
          (use t p n m assms(2) \<open>front\<close> True in \<open>auto simp: block_end_def Let_def algebra_simps\<close>)
    next
      case False
      show ?thesis
        by (rule exI [of _ "L0 @ ((fst p, snd p + snd b + HEADER_SIZE), False) # L2"])
          (use t p m assms(2) \<open>front\<close> False in \<open>auto simp: block_end_def Let_def algebra_simps\<close>)
    qed
  next
    case False
    show ?thesis
    proof (cases behind)
      case True
      then obtain L3 n where n: "L2 = (n, False) # L3" "block_end b = fst n" using bh by blast
      show ?thesis
        by (rule exI [of _ "L1 @ ((fst b, snd b + snd n + HEADER_SIZE), False) # L3"])
          (use t n m assms(2) False True in \<open>auto simp: block_end_def Let_def algebra_simps\<close>)
    qed (intro exI [of _ "L1 @ (b, False) # L2"], use t m assms(2) False in auto)
  qed
qed

section \<open>Allocation and release\<close>

lemma laid_out_split:
  assumes "laid_out L H"
  shows "b \<in> set (free_list H) \<Longrightarrow> \<exists>L1 L2. L = L1 @ (b, False) # L2"
    and "b \<in> set (allocate_list H) \<Longrightarrow> \<exists>L1 L2. L = L1 @ (b, True) # L2"
proof -
  show "\<exists>L1 L2. L = L1 @ (b, False) # L2" if "b \<in> set (free_list H)"
  proof -
    have "(b, False) \<in> set L" using assms that by (auto simp: laid_out_def frees_def)
    then show ?thesis by (rule split_list)
  qed
  show "\<exists>L1 L2. L = L1 @ (b, True) # L2" if "b \<in> set (allocate_list H)"
  proof -
    have "(b, True) \<in> set L" using assms that by (auto simp: laid_out_def useds_def)
    then show ?thesis by (rule split_list)
  qed
qed

lemma free_layout:
  assumes "laid_out (L1 @ (b, True) # L2) H"
  shows "\<exists>L H'. finsh_heap_free (finsh_block_get_data b) H = Some H' \<and> laid_out L H'
    \<and> allocate_list H' = useds L1 @ useds L2"
proof -
  have t: "tiles 0 (L1 @ (b, True) # L2) FINSH_HEAP_MAX" "L2 \<noteq> []" "\<not> snd (last L2)"
    and H: "free_list H = frees L1 @ frees L2" "allocate_list H = useds L1 @ b # useds L2"
    using assms by (auto simp: laid_out_def split: if_splits)
  note around = tiles_around [OF t(1)]
  have "find (\<lambda>c. finsh_block_get_data c = finsh_block_get_data b) (useds L1 @ b # useds L2) = Some b"
    by (rule find_mid) (use around(4) in \<open>auto simp: finsh_block_get_data_def\<close>)
  moreover have "list_ex (\<lambda>c. fst b < fst c) (frees L1 @ frees L2)"
  proof -
    obtain n where "(n, False) \<in> set L2" using t(2,3) by (metis last_in_set prod.collapse)
    then have "n \<in> set (frees L2)" by (force simp: frees_def)
    then show ?thesis using around(5) by (auto simp: list_ex_iff)
  qed
  moreover have "\<exists>L. tiles 0 L FINSH_HEAP_MAX \<and> L \<noteq> [] \<and> \<not> snd (last L) \<and> useds L = useds L1 @ useds L2
      \<and> finsh_block_merge (fst b) (frees L1 @ b # frees L2) = frees L"
    by (rule merge_layout) (use t in auto)
  ultimately show ?thesis
    using insert_around(1) [OF t(1) refl] filter_around(3,4) [OF t(1)] H
    by (auto simp: finsh_heap_free_def finsh_block_remove_def laid_out_def)
qed

lemma split_around:
  "\<forall>c \<in> set xs. fst c \<noteq> fst b \<Longrightarrow> finsh_block_split b sz (xs @ b # ys) =
     xs @ (fst b, sz) # (fst b + HEADER_SIZE + sz, snd b - HEADER_SIZE - sz) # finsh_block_split b sz ys"
  "\<forall>c \<in> set ys. fst c \<noteq> fst b \<Longrightarrow> finsh_block_split b sz ys = ys"
  by (induction xs) (auto simp: finsh_block_split_def, induction ys, auto)

lemma take_layout:
  assumes "laid_out (L1 @ (b, False) # L2) H" "sz + HEADER_SIZE \<le> snd b"
  shows "laid_out (L1 @ ((fst b, sz), True) # ((fst b + HEADER_SIZE + sz, snd b - HEADER_SIZE - sz), False) # L2)
      (heap_take b sz H)"
    and "allocate_list (heap_take b sz H) = useds L1 @ (fst b, sz) # useds L2"
    and "allocate_list H = useds L1 @ useds L2"
proof -
  have t: "tiles 0 (L1 @ (b, False) # L2) FINSH_HEAP_MAX" "\<not> snd (last ((b, False) # L2))"
    and H: "free_list H = frees L1 @ b # frees L2" "allocate_list H = useds L1 @ useds L2"
    using assms(1) by (auto simp: laid_out_def)
  note around = tiles_around [OF t(1)]
  let ?r = "(fst b + HEADER_SIZE + sz, snd b - HEADER_SIZE - sz)"
  have "finsh_block_split b sz (frees L1 @ b # frees L2) = frees L1 @ (fst b, sz) # ?r # frees L2"
    using split_around(1) [of "frees L1" b sz "frees L2"] split_around(2) [of "frees L2" b sz] around(3,5)
    by (metis less_irrefl)
  moreover have "finsh_block_remove (fst b) (frees L1 @ (fst b, sz) # ?r # frees L2) = frees L1 @ ?r # frees L2"
    using filter_around(1,2) [OF t(1)] by (simp add: finsh_block_remove_def)
  ultimately have f: "free_list (heap_take b sz H) = frees L1 @ ?r # frees L2" by (simp add: heap_take_def H)
  show "allocate_list (heap_take b sz H) = useds L1 @ (fst b, sz) # useds L2"
    using insert_around(2) [OF t(1), of "(fst b, sz)"] by (simp add: heap_take_def H)
  moreover have "block_end ?r = block_end b" using assms(2) by (simp add: block_end_def)
  moreover have "block_end (fst b, sz) = fst ?r" by (simp add: block_end_def)
  ultimately show "laid_out (L1 @ ((fst b, sz), True) # (?r, False) # L2) (heap_take b sz H)"
    using t f by (auto simp: laid_out_def)
  show "allocate_list H = useds L1 @ useds L2" by (rule H)
qed

section \<open>The contract\<close>

text \<open>The allocated blocks, by the addresses that are handed out.\<close>

definition strings :: "fheap \<Rightarrow> (nat \<times> nat) set" where
  "strings H = (\<lambda>b. (finsh_block_get_data b, snd b)) ` set (allocate_list H)"

lemma tiles_apart:
  "tiles a L e \<Longrightarrow> x \<in> set L \<Longrightarrow> y \<in> set L \<Longrightarrow> x \<noteq> y \<Longrightarrow>
     block_end (fst x) \<le> fst (fst y) \<or> block_end (fst y) \<le> fst (fst x)"
proof (induction L arbitrary: a)
  case (Cons z L)
  have z: "fst (fst z) < block_end (fst z)" "tiles (block_end (fst z)) L e" "a = fst (fst z)"
    using Cons.prems(1) by (auto simp: block_end_def)
  show ?case
  proof (cases "x \<in> set L \<and> y \<in> set L")
    case True
    then show ?thesis using Cons.IH z(2) Cons.prems(4) by blast
  next
    case False
    then show ?thesis
      using Cons.prems(2-4) tiles_bounds(2) [OF z(2), of x] tiles_bounds(2) [OF z(2), of y] by auto
  qed
qed simp

lemma strings_apart:
  assumes "fheap_ok H" "b \<in> set (allocate_list H)" "c \<in> set (allocate_list H)" "b \<noteq> c"
  shows "block_end b \<le> fst c \<or> block_end c \<le> fst b"
proof -
  obtain L where L: "laid_out L H" using assms(1) by (auto simp: fheap_ok_def)
  then have "(b, True) \<in> set L" "(c, True) \<in> set L" using assms(2,3) by (auto simp: laid_out_def useds_def)
  then show ?thesis
    using tiles_apart [of 0 L FINSH_HEAP_MAX "(b, True)" "(c, True)"] L assms(4) by (auto simp: laid_out_def)
qed

lemma strings_separate:
  assumes "fheap_ok H"
  shows "no_overlap (strings H)" "inj_on fst (strings H)"
proof -
  show "no_overlap (strings H)"
    unfolding no_overlap_def
  proof (clarsimp simp: strings_def finsh_block_get_data_def)
    fix a m b n
    assume "(a, m) \<in> set (allocate_list H)" "(b, n) \<in> set (allocate_list H)" "a = b \<longrightarrow> m \<noteq> n" "\<not> b + n \<le> a"
    then show "a + m \<le> b" using strings_apart [OF assms, of "(a, m)" "(b, n)"] by (auto simp: block_end_def)
  qed
  have "m = n" if "(a, m) \<in> set (allocate_list H)" "(a, n) \<in> set (allocate_list H)" for a m n
    using strings_apart [OF assms that] by (auto simp: block_end_def)
  then show "inj_on fst (strings H)"
    by (auto simp: inj_on_def strings_def finsh_block_get_data_def)
qed

lemma free_ok:
  assumes "fheap_ok H" "b \<in> set (allocate_list H)"
  shows "\<exists>H'. finsh_heap_free (finsh_block_get_data b) H = Some H' \<and> fheap_ok H'
    \<and> set (allocate_list H') = set (allocate_list H) - {b}"
proof -
  obtain L where L: "laid_out L H" using assms(1) by (auto simp: fheap_ok_def)
  obtain L1 L2 where d: "L = L1 @ (b, True) # L2" using laid_out_split(2) [OF L assms(2)] by blast
  obtain L' H' where H': "finsh_heap_free (finsh_block_get_data b) H = Some H'" "laid_out L' H'"
      "allocate_list H' = useds L1 @ useds L2"
    using free_layout L d by blast
  have "b \<notin> set (useds L1 @ useds L2)" "allocate_list H = useds L1 @ b # useds L2"
    using tiles_around(4,6) [of 0 L1 b True L2] L d by (auto simp: laid_out_def)
  then show ?thesis using H' by (auto simp: fheap_ok_def)
qed

lemma gc_loop_ok:
  "fheap_ok H \<Longrightarrow> distinct bs \<Longrightarrow> set bs \<subseteq> set (allocate_list H) \<Longrightarrow>
     \<exists>H'. gc_loop live bs H = Some H' \<and> fheap_ok H'
       \<and> set (allocate_list H') = set (allocate_list H) - {b \<in> set bs. \<not> live (finsh_block_get_data b)}"
proof (induction bs arbitrary: H)
  case (Cons b bs)
  show ?case
  proof (cases "live (finsh_block_get_data b)")
    case True
    then show ?thesis using Cons.IH [OF Cons.prems(1)] Cons.prems(2,3) by auto
  next
    case False
    obtain H1 where H1: "finsh_heap_free (finsh_block_get_data b) H = Some H1" "fheap_ok H1"
        "set (allocate_list H1) = set (allocate_list H) - {b}"
      using free_ok [OF Cons.prems(1), of b] Cons.prems(3) by auto
    have "set bs \<subseteq> set (allocate_list H1)" using Cons.prems(2,3) H1(3) by auto
    from Cons.IH [OF H1(2) _ this] show ?thesis using Cons.prems(2) H1 False by auto
  qed
qed auto

lemma distinct_allocate_list: "fheap_ok H \<Longrightarrow> distinct (allocate_list H)"
proof -
  have "tiles a L e \<Longrightarrow> distinct (useds L)" for a L e
  proof (induction L arbitrary: a)
    case (Cons x L)
    then have "distinct (useds L)" "\<forall>b \<in> set (useds L). fst (fst x) < fst b"
      using tiles_lists(2) [of "block_end (fst x)" L e] by (fastforce simp: block_end_def)+
    then show ?case by (cases x; cases "snd x") auto
  qed simp
  then show "fheap_ok H \<Longrightarrow> distinct (allocate_list H)" by (auto simp: fheap_ok_def laid_out_def)
qed

lemma gc_ok:
  assumes "fheap_ok H"
  shows "\<exists>H'. finsh_heap_gc live H = Some H' \<and> fheap_ok H' \<and> strings H' = {x \<in> strings H. live (fst x)}"
proof -
  obtain H' where "gc_loop live (allocate_list H) H = Some H'" "fheap_ok H'"
      "set (allocate_list H') = set (allocate_list H) - {b \<in> set (allocate_list H). \<not> live (finsh_block_get_data b)}"
    using gc_loop_ok [OF assms distinct_allocate_list [OF assms] order_refl] by blast
  then show ?thesis by (auto simp: finsh_heap_gc_def strings_def)
qed

lemma take_ok:
  assumes "fheap_ok H" "b \<in> set (free_list H)" "sz + HEADER_SIZE \<le> snd b"
  shows "fheap_ok (heap_take b sz H)" "strings (heap_take b sz H) = insert (finsh_block_get_data b, sz) (strings H)"
    and "finsh_block_get_data b \<notin> fst ` strings H"
proof -
  obtain L where L: "laid_out L H" using assms(1) by (auto simp: fheap_ok_def)
  obtain L1 L2 where d: "L = L1 @ (b, False) # L2" using laid_out_split(1) [OF L assms(2)] by blast
  note t = take_layout [OF L [unfolded d] assms(3)]
  show "fheap_ok (heap_take b sz H)" using t(1) by (auto simp: fheap_ok_def)
  show "strings (heap_take b sz H) = insert (finsh_block_get_data b, sz) (strings H)"
    using t(2,3) by (auto simp: strings_def finsh_block_get_data_def)
  show "finsh_block_get_data b \<notin> fst ` strings H"
    using tiles_around(4,6) [of 0 L1 b False L2 FINSH_HEAP_MAX] L d t(3)
    by (auto simp: laid_out_def strings_def finsh_block_get_data_def)
qed

lemma allocate_ok:
  assumes "fheap_ok H"
  shows "\<exists>r H' kept. finsh_heap_allocate live n H = Some (r, H') \<and> fheap_ok H'
    \<and> kept \<in> {strings H, {x \<in> strings H. live (fst x)}}
    \<and> (case r of None \<Rightarrow> strings H' = kept
       | Some p \<Rightarrow> p \<notin> fst ` kept \<and> strings H' = insert (p, HEAP_ALIGN_SIZE n) kept)"
proof -
  let ?sz = "HEAP_ALIGN_SIZE n"
  show ?thesis
  proof (cases "find (\<lambda>b. \<not> snd b \<le> ?sz + HEADER_SIZE) (free_list H)")
    case (Some b)
    then have b: "b \<in> set (free_list H)" "?sz + HEADER_SIZE \<le> snd b" by (auto simp: find_Some_iff)
    show ?thesis
      by (intro exI [of _ "Some (finsh_block_get_data b)"] exI [of _ "heap_take b ?sz H"] exI [of _ "strings H"])
        (use take_ok [OF assms b] Some in \<open>simp add: finsh_heap_allocate_def Let_def\<close>)
  next
    case None
    obtain H1 where H1: "finsh_heap_gc live H = Some H1" "fheap_ok H1" "strings H1 = {x \<in> strings H. live (fst x)}"
      using gc_ok [OF assms] by blast
    show ?thesis
    proof (cases "find (\<lambda>b. \<not> snd b < ?sz + HEADER_SIZE) (free_list H1)")
      case (Some b)
      then have b: "b \<in> set (free_list H1)" "?sz + HEADER_SIZE \<le> snd b" by (auto simp: find_Some_iff)
      show ?thesis
        by (intro exI [of _ "Some (finsh_block_get_data b)"] exI [of _ "heap_take b ?sz H1"] exI [of _ "strings H1"])
          (use take_ok [OF H1(2) b] None Some H1 in \<open>simp add: finsh_heap_allocate_def Let_def\<close>)
    qed (use None H1 in \<open>auto simp: finsh_heap_allocate_def Let_def\<close>)
  qed
qed

lemma heap_align: "n \<le> HEAP_ALIGN_SIZE n" "4 dvd HEAP_ALIGN_SIZE n"
  by (simp_all add: HEAP_ALIGN_SIZE_def)

lemma init_ok: "fheap_ok finsh_heap_init" "strings finsh_heap_init = {}"
proof -
  have "laid_out [((0, 120), False)] finsh_heap_init"
    by (simp add: laid_out_def finsh_heap_init_def block_end_def)
  then show "fheap_ok finsh_heap_init" by (auto simp: fheap_ok_def)
qed (simp add: strings_def finsh_heap_init_def)

text \<open>With every block in use by a variable the heap is an allocator of the interface.\<close>

interpretation string_heap: block_allocator fheap_ok strings "\<lambda>n. n" "finsh_heap_allocate (\<lambda>p. True)" finsh_heap_free
proof (unfold_locales, goal_cases)
  case (3 H n)
  obtain r H' where "finsh_heap_allocate (\<lambda>p. True) n H = Some (r, H')" "fheap_ok H'"
      "case r of None \<Rightarrow> strings H' = strings H
       | Some p \<Rightarrow> p \<notin> fst ` strings H \<and> strings H' = insert (p, HEAP_ALIGN_SIZE n) (strings H)"
    using allocate_ok [OF 3, of "\<lambda>p. True" n] by auto
  then show ?case using heap_align(1) by (intro exI conjI; assumption?) (auto split: option.splits)
next
  case (4 H p m)
  then obtain b where b: "b \<in> set (allocate_list H)" "p = finsh_block_get_data b" "m = snd b"
    by (auto simp: strings_def)
  obtain H' where H': "finsh_heap_free p H = Some H'" "fheap_ok H'" "set (allocate_list H') = set (allocate_list H) - {b}"
    using free_ok [OF 4(1) b(1)] b(2) by blast
  have "inj_on (\<lambda>b. (finsh_block_get_data b, snd b)) (set (allocate_list H))"
    by (auto simp: inj_on_def finsh_block_get_data_def)
  then have "strings H' = strings H - {(p, m)}"
    using b H'(3) inj_on_image_set_diff [of _ "set (allocate_list H)" "set (allocate_list H)" "{b}"]
    by (simp add: strings_def)
  then show ?case using H' by blast
qed (auto intro: strings_separate)

section \<open>Property\<close>

text \<open>
  C29. The heap for strings is safe, and its collector frees no string that a variable points to: on
  a well-formed heap a request ends and leaves a well-formed heap in which no two blocks overlap;
  every block that a variable points to is still there, and the request gives either no block, or a
  new one inside the heap, of the requested size rounded up to words or more, and adds no other.
\<close>

theorem finsh_heap_allocate_safe:
  assumes "fheap_ok H"
  shows "\<exists>r H'. finsh_heap_allocate live n H = Some (r, H') \<and> fheap_ok H' \<and> no_overlap (strings H')
    \<and> {x \<in> strings H. live (fst x)} \<subseteq> strings H'
    \<and> (case r of None \<Rightarrow> strings H' \<subseteq> strings H
       | Some p \<Rightarrow> \<exists>m \<ge> n. 4 dvd m \<and> p + m \<le> FINSH_HEAP_MAX \<and> (p, m) \<in> strings H'
           \<and> strings H' - {(p, m)} \<subseteq> strings H)"
proof -
  obtain r H' kept where a: "finsh_heap_allocate live n H = Some (r, H')" "fheap_ok H'"
      "kept \<in> {strings H, {x \<in> strings H. live (fst x)}}"
      "case r of None \<Rightarrow> strings H' = kept
       | Some p \<Rightarrow> p \<notin> fst ` kept \<and> strings H' = insert (p, HEAP_ALIGN_SIZE n) kept"
    using allocate_ok [OF assms] by blast
  have inside: "p + m \<le> FINSH_HEAP_MAX" if pm: "(p, m) \<in> strings H'" for p m
  proof -
    obtain L where L: "laid_out L H'" using a(2) by (auto simp: fheap_ok_def)
    then obtain b where "(b, True) \<in> set L" "block_end b = p + m"
      using pm by (auto simp: strings_def laid_out_def useds_def finsh_block_get_data_def block_end_def)
    then show ?thesis using tiles_bounds(2) [of 0 L FINSH_HEAP_MAX] L by (fastforce simp: laid_out_def)
  qed
  show ?thesis
  proof (cases r)
    case None
    then show ?thesis using a strings_separate(1) [OF a(2)] by auto
  next
    case (Some p)
    then have "(p, HEAP_ALIGN_SIZE n) \<in> strings H'" "strings H' - {(p, HEAP_ALIGN_SIZE n)} \<subseteq> strings H"
      "{x \<in> strings H. live (fst x)} \<subseteq> strings H'" using a(3,4) by auto
    then show ?thesis using a(1,2) Some strings_separate(1) [OF a(2)] heap_align [of n] inside by auto
  qed
qed

theorem finsh_heap_allocate_safe_witness:
  "\<exists>r H'. finsh_heap_allocate (\<lambda>p. p = 8) 50 \<lparr>free_list = [(64, 56)], allocate_list = [(0, 24), (32, 24)]\<rparr> = Some (r, H')
     \<and> (8, 24) \<in> strings H' \<and> r = Some 40"
proof -
  let ?H = "\<lparr>free_list = [(64, 56)], allocate_list = [(0, 24), (32, 24)]\<rparr>"
  have "laid_out [((0, 24), True), ((32, 24), True), ((64, 56), False)] ?H"
    by (simp add: laid_out_def block_end_def)
  then have "fheap_ok ?H" by (auto simp: fheap_ok_def)
  then show ?thesis
    using finsh_heap_allocate_safe [of ?H "\<lambda>p. p = 8" 50]
    by (auto simp: finsh_heap_allocate_def HEAP_ALIGN_SIZE_def finsh_heap_gc_def finsh_heap_free_def
        finsh_block_merge_def finsh_block_insert_def finsh_block_remove_def finsh_block_get_data_def
        block_end_def strings_def heap_take_def finsh_block_split_def)
qed

end
