(* ===== verification/RT_Finsh_Eval.thy ===== *)
theory RT_Finsh_Eval
  imports RT_Finsh_Compiler
begin

text \<open>
  What the expressions of the C-expression shell mean, and that the code \<open>finsh_compiler_run\<close> makes
  of them computes it. The meaning is given on a datatype of expressions by their values, with no
  nodes, stack or instructions. The stack of the machine holds unions: an instruction for a byte
  leaves the upper bytes of its slot as they are, so a value is in the low bytes of a slot.
\<close>

section \<open>Expressions and their values\<close>

text \<open>An increment or decrement is \<open>Pre\<close> or \<open>Post\<close> with the operation \<open>Add\<close> or \<open>Sub\<close>.\<close>

datatype expr = IntV u32 | LongV u32 | NullV | CharV u8
  | Id symbol | AddrOf symbol
  | Bin binop expr expr | Compl expr | Deref expr
  | Assign symbol expr | Store expr expr
  | Pre binop symbol | Post binop symbol
  | Call u32 u32 "expr list"

fun sym_type :: "finsh_vars \<Rightarrow> symbol \<Rightarrow> finsh_type" where
  "sym_type V (Var i) = var_type (global_variable V ! i)"
| "sym_type V (Sysvar p sv) = sysvar_type sv"
| "sym_type V _ = Type_unknown"

fun sym_addr :: "finsh_vars \<Rightarrow> symbol \<Rightarrow> u32" where
  "sym_addr V (Var i) = var_value (var_at V i)"
| "sym_addr V (Sysvar p sv) = sysvar_var sv"
| "sym_addr V _ = 0"

fun sym_ok :: "finsh_vars \<Rightarrow> symbol \<Rightarrow> bool" where
  "sym_ok V (Var i) = (i < length (global_variable V) \<and> value_type (sym_type V (Var i)) \<noteq> None)"
| "sym_ok V (Sysvar p sv) = (value_type (sysvar_type sv) \<noteq> None)"
| "sym_ok V _ = False"

text \<open>The widths are those of the data types: 1, 2 and 3 for 8, 16 and 32 bits.\<close>

definition sym_width :: "finsh_vars \<Rightarrow> symbol \<Rightarrow> nat" where
  "sym_width V s = the (value_type (sym_type V s))"

definition low :: "nat \<Rightarrow> u32 \<Rightarrow> u32" where
  "low w x = (if w = 1 then take_bit 8 x else if w = 2 then take_bit 16 x else x)"

definition load :: "nat \<Rightarrow> u32 \<Rightarrow> memory \<Rightarrow> u32 option" where
  "load w a m = (if w = 1 then map_option ucast (load_byte a m)
                 else if w = 2 then map_option ucast (load_word a m) else load_dword a m)"

definition store :: "nat \<Rightarrow> u32 \<Rightarrow> u32 \<Rightarrow> memory \<Rightarrow> memory option" where
  "store w a x m = (if w = 1 then store_byte a (ucast x) m
                    else if w = 2 then store_word a (ucast x) m else store_dword a x m)"

definition bin :: "nat \<Rightarrow> binop \<Rightarrow> u32 \<Rightarrow> u32 \<Rightarrow> u32 option" where
  "bin w f x y = (if w = 1 then map_option ucast (bin_char f (ucast x) (ucast y))
                  else if w = 2 then map_option ucast (bin_short f (ucast x) (ucast y)) else bin_long f x y)"

text \<open>The width of the value, and the data type the compiler takes an expression for: that of its
  first operand, so that a call has none and an address that of its variable.\<close>

fun width :: "finsh_vars \<Rightarrow> expr \<Rightarrow> nat" where
  "width V (CharV c) = 1"
| "width V (Id s) = sym_width V s"
| "width V (Bin f a b) = width V a"
| "width V (Compl a) = width V a"
| "width V (Assign s e) = sym_width V s"
| "width V (Pre f s) = sym_width V s"
| "width V (Post f s) = sym_width V s"
| "width V _ = 3"

fun dtype :: "finsh_vars \<Rightarrow> expr \<Rightarrow> nat" where
  "dtype V (CharV c) = 1"
| "dtype V (Id s) = sym_width V s"
| "dtype V (AddrOf s) = sym_width V s"
| "dtype V (Bin f a b) = dtype V a"
| "dtype V (Compl a) = dtype V a"
| "dtype V (Deref a) = dtype V a"
| "dtype V (Assign s e) = sym_width V s"
| "dtype V (Store p e) = dtype V p"
| "dtype V (Pre f s) = sym_width V s"
| "dtype V (Post f s) = sym_width V s"
| "dtype V (Call p f es) = 0"
| "dtype V _ = 3"

text \<open>Expressions whose operands have the same width, which is also what the compiler takes it for.\<close>

fun well_typed :: "finsh_vars \<Rightarrow> expr \<Rightarrow> bool" where
  "well_typed V (Id s) = sym_ok V s"
| "well_typed V (AddrOf s) = sym_ok V s"
| "well_typed V (Bin f a b) =
     (well_typed V a \<and> well_typed V b \<and> dtype V a = width V a \<and> width V b = width V a)"
| "well_typed V (Compl a) = (well_typed V a \<and> dtype V a = width V a)"
| "well_typed V (Deref a) = (well_typed V a \<and> dtype V a = 3 \<and> width V a = 3)"
| "well_typed V (Assign s e) = (sym_ok V s \<and> well_typed V e \<and> width V e = sym_width V s)"
| "well_typed V (Store p e) =
     (well_typed V p \<and> well_typed V e \<and> dtype V p = 3 \<and> width V p = 3 \<and> width V e = 3)"
| "well_typed V (Pre f s) = (f \<in> {Add, Sub} \<and> sym_ok V s \<and> (\<exists>i < length (global_variable V). s = Var i))"
| "well_typed V (Post f s) = (f \<in> {Add, Sub} \<and> sym_ok V s \<and> (\<exists>i < length (global_variable V). s = Var i))"
| "well_typed V (Call p f es) = (length es \<le> 16 \<and> (\<forall>e \<in> set es. well_typed V e \<and> width V e = 3))"
| "well_typed V _ = True"

fun eval :: "syscalls \<Rightarrow> finsh_vars \<Rightarrow> expr \<Rightarrow> memory \<Rightarrow> (u32 \<times> memory) option"
  and eval_list :: "syscalls \<Rightarrow> finsh_vars \<Rightarrow> expr list \<Rightarrow> memory \<Rightarrow> (u32 list \<times> memory) option" where
  "eval sys V (IntV x) m = Some (x, m)"
| "eval sys V (LongV x) m = Some (x, m)"
| "eval sys V NullV m = Some (0, m)"
| "eval sys V (CharV c) m = Some (ucast c, m)"
| "eval sys V (Id s) m = do { x \<leftarrow> load (sym_width V s) (sym_addr V s) m; Some (x, m) }"
| "eval sys V (AddrOf s) m = Some (sym_addr V s, m)"
| "eval sys V (Bin f a b) m =
     do { (x, m) \<leftarrow> eval sys V a m; (y, m) \<leftarrow> eval sys V b m; z \<leftarrow> bin (width V a) f x y; Some (z, m) }"
| "eval sys V (Compl a) m = do { (x, m) \<leftarrow> eval sys V a m; Some (low (width V a) (NOT x), m) }"
| "eval sys V (Deref a) m = do { (x, m) \<leftarrow> eval sys V a m; y \<leftarrow> load 3 x m; Some (y, m) }"
| "eval sys V (Assign s e) m =
     do { (x, m) \<leftarrow> eval sys V e m; m \<leftarrow> store (sym_width V s) (sym_addr V s) x m; Some (x, m) }"
| "eval sys V (Store p e) m =
     do { (a, m) \<leftarrow> eval sys V p m; (x, m) \<leftarrow> eval sys V e m; m \<leftarrow> store 3 a x m; Some (x, m) }"
| "eval sys V (Pre f s) m =
     do { x \<leftarrow> load (sym_width V s) (sym_addr V s) m; y \<leftarrow> bin (sym_width V s) f x 1;
          m \<leftarrow> store (sym_width V s) (sym_addr V s) y m; Some (y, m) }"
| "eval sys V (Post f s) m =
     do { x \<leftarrow> load (sym_width V s) (sym_addr V s) m; y \<leftarrow> bin (sym_width V s) f x 1;
          m \<leftarrow> store (sym_width V s) (sym_addr V s) y m; Some (x, m) }"
| "eval sys V (Call p f es) m =
     do { (xs, m) \<leftarrow> eval_list sys V es m; sys f (if xs = [] then [0] else xs) m }"
| "eval_list sys V [] m = Some ([], m)"
| "eval_list sys V (e # es) m =
     do { (x, m) \<leftarrow> eval sys V e m; (xs, m) \<leftarrow> eval_list sys V es m; Some (x # xs, m) }"

section \<open>The tree of an expression\<close>

fun bin_type :: "binop \<Rightarrow> ntype" where
  "bin_type Add = SYS_ADD" | "bin_type Sub = SYS_SUB" | "bin_type Div = SYS_DIV"
| "bin_type Mod = SYS_MOD" | "bin_type Mul = SYS_MUL" | "bin_type And = SYS_AND"
| "bin_type Or = SYS_OR" | "bin_type Xor = SYS_XOR" | "bin_type Shl = SYS_SHL"
| "bin_type Shr = SYS_SHR"

fun sym_idtype :: "symbol \<Rightarrow> u8" where
  "sym_idtype NoSym = 0"
| "sym_idtype (Var i) = FINSH_IDTYPE_VAR"
| "sym_idtype (Sysvar p sv) = FINSH_IDTYPE_SYSVAR"
| "sym_idtype (Syscall p f) = FINSH_IDTYPE_SYSCALL"

definition mk_node :: "ntype \<Rightarrow> finsh_node" where
  "mk_node ty = \<lparr>node_type = ty, data_type = 0, idtype = 0, node_value = 0, node_id = NoSym\<rparr>"

definition mk_id :: "symbol \<Rightarrow> finsh_node" where
  "mk_id s = (mk_node NODE_ID)\<lparr>idtype := sym_idtype s, node_id := s\<rparr>"

definition mk_value :: "ntype \<Rightarrow> u32 \<Rightarrow> finsh_node" where
  "mk_value ty x = (mk_node ty)\<lparr>node_value := x\<rparr>"

fun tree_of :: "expr \<Rightarrow> tree \<Rightarrow> tree"
  and trees_of :: "expr list \<Rightarrow> tree" where
  "tree_of (IntV x) s = Node (mk_value VALUE_INT x) NULL s"
| "tree_of (LongV x) s = Node (mk_value VALUE_LONG x) NULL s"
| "tree_of NullV s = Node (mk_value VALUE_NULL 0) NULL s"
| "tree_of (CharV c) s = Node (mk_value VALUE_CHAR (ucast c)) NULL s"
| "tree_of (Id i) s = Node (mk_id i) NULL s"
| "tree_of (AddrOf i) s = Node (mk_node SYS_GETADDR) (Node (mk_id i) NULL NULL) s"
| "tree_of (Bin f a b) s = Node (mk_node (bin_type f)) (tree_of a (tree_of b NULL)) s"
| "tree_of (Compl a) s = Node (mk_node SYS_BITWISE) (tree_of a NULL) s"
| "tree_of (Deref a) s = Node (mk_node SYS_GETVALUE) (tree_of a NULL) s"
| "tree_of (Assign i e) s = Node (mk_node SYS_ASSIGN) (Node (mk_id i) NULL (tree_of e NULL)) s"
| "tree_of (Store p e) s =
     Node (mk_node SYS_ASSIGN) (Node (mk_node SYS_GETVALUE) (tree_of p NULL) (tree_of e NULL)) s"
| "tree_of (Pre f i) s =
     Node (mk_node (if f = Add then SYS_PREINC else SYS_PREDEC)) (Node (mk_id i) NULL NULL) s"
| "tree_of (Post f i) s =
     Node (mk_node (if f = Add then SYS_INC else SYS_DEC)) (Node (mk_id i) NULL NULL) s"
| "tree_of (Call p f es) s = Node (mk_node SYS_FUNC) (Node (mk_id (Syscall p f)) NULL (trees_of es)) s"
| "trees_of [] = NULL"
| "trees_of (e # es) = tree_of e (trees_of es)"

section \<open>The code of an expression\<close>

text \<open>The opcode of the width \<open>w\<close> in a group of three.\<close>

definition opw :: "u8 \<Rightarrow> nat \<Rightarrow> u8" where
  "opw op w = op + of_nat w - 1"

fun bin_op :: "binop \<Rightarrow> u8" where
  "bin_op Add = 0x01" | "bin_op Sub = 0x04" | "bin_op Div = 0x07" | "bin_op Mod = 0x0A"
| "bin_op Mul = 0x0D" | "bin_op And = 0x10" | "bin_op Or = 0x13" | "bin_op Xor = 0x16"
| "bin_op Shl = 0x1C" | "bin_op Shr = 0x1F"

definition ld_dword :: "u32 \<Rightarrow> u8 list" where
  "ld_dword x = FINSH_OP_LD_DWORD # bytes32 x"

definition ld_value :: "nat \<Rightarrow> u32 \<Rightarrow> u8 list" where
  "ld_value w a = opw OP_LD_VALUE w # bytes32 a"

definition ld_one :: "nat \<Rightarrow> u8 list" where
  "ld_one w = opw OP_LD w # (if w = 1 then [1] else if w = 2 then bytes16 1 else bytes32 1)"

definition incr_code :: "nat \<Rightarrow> binop \<Rightarrow> u32 \<Rightarrow> u8 list" where
  "incr_code w f a = ld_dword a @ ld_value w a @ ld_one w @ [opw (bin_op f) w, opw OP_ST w]"

fun code_of :: "finsh_vars \<Rightarrow> expr \<Rightarrow> u8 list"
  and codes_of :: "finsh_vars \<Rightarrow> expr list \<Rightarrow> u8 list" where
  "code_of V (IntV x) = ld_dword x"
| "code_of V (LongV x) = ld_dword x"
| "code_of V NullV = ld_dword 0"
| "code_of V (CharV c) = [FINSH_OP_LD_BYTE, c]"
| "code_of V (Id s) = ld_value (sym_width V s) (sym_addr V s)"
| "code_of V (AddrOf s) = ld_dword (sym_addr V s)"
| "code_of V (Bin f a b) = code_of V a @ code_of V b @ [opw (bin_op f) (width V a)]"
| "code_of V (Compl a) = code_of V a @ [opw 0x19 (width V a)]"
| "code_of V (Deref a) = code_of V a @ [opw OP_LD_VALUE_STACK 3]"
| "code_of V (Assign s e) = ld_dword (sym_addr V s) @ code_of V e
     @ [opw OP_ST (sym_width V s), opw OP_LD_VALUE_STACK (sym_width V s)]"
| "code_of V (Store p e) = code_of V p @ code_of V e @ [opw OP_ST 3, opw OP_LD_VALUE_STACK 3]"
| "code_of V (Pre f s) = incr_code (sym_width V s) f (sym_addr V s) @ [opw OP_LD_VALUE_STACK 3]"
| "code_of V (Post f s) = ld_value (sym_width V s) (sym_addr V s)
     @ incr_code (sym_width V s) f (sym_addr V s) @ [FINSH_OP_POP]"
| "code_of V (Call p f es) = ld_dword f @ codes_of V es @ [FINSH_OP_SYSCALL, of_nat (length es)]"
| "codes_of V [] = []"
| "codes_of V (e # es) = code_of V e @ codes_of V es"

text \<open>The slots of the stack that the code needs.\<close>

fun depth :: "expr \<Rightarrow> nat" and depths :: "expr list \<Rightarrow> nat" where
  "depth (Bin f a b) = max (depth a) (Suc (depth b))"
| "depth (Compl a) = depth a"
| "depth (Deref a) = depth a"
| "depth (Assign s e) = Suc (depth e)"
| "depth (Store p e) = max (depth p) (Suc (depth e))"
| "depth (Pre f s) = 3"
| "depth (Post f s) = 4"
| "depth (Call p f es) = Suc (depths es)"
| "depth _ = 1"
| "depths [] = 0"
| "depths (e # es) = max (depth e) (Suc (depths es))"

section \<open>The compiler makes this code\<close>

definition emit :: "u8 list \<Rightarrow> cstate \<Rightarrow> cstate" where
  "emit bs c = c\<lparr>code := code c @ bs\<rparr>"

lemma emit_simps [simp]:
  "finsh_code_byte x c = emit [x] c" "finsh_code_word y c = emit (bytes16 y) c"
  "finsh_code_dword z c = emit (bytes32 z) c" "emit bs (emit as c) = emit (as @ bs) c"
  "code (emit bs c) = code c @ bs" "cerrno (emit bs c) = cerrno c" "emit [] c = c"
  by (simp_all add: finsh_code_byte_def finsh_code_word_def finsh_code_dword_def emit_def)

lemma value_type_data: "value_type ty = Some d \<Longrightarrow> type_data ty = Some d \<and> d \<in> {1, 2, 3}"
  by (cases ty) auto

lemma sym_width:
  assumes "sym_ok V s"
  shows "value_type (sym_type V s) = Some (sym_width V s)" "sym_width V s \<in> {1, 2, 3}"
  using assms value_type_data [of "sym_type V s"] by (cases s; force simp: sym_width_def)+

lemma width_range: "well_typed V e \<Longrightarrow> width V e \<in> {1, 2, 3}"
  by (induction e) (use sym_width(2) in auto)

lemma code_typed_emit [simp]:
  "w \<in> {1, 2, 3} \<Longrightarrow> code_typed op w c = emit [opw op w] c"
  by (simp add: code_typed_def typed_op_def opw_def)

lemma mk_simps [simp]:
  "node_type (mk_node ty) = ty" "idtype (mk_node ty) = 0" "data_type (mk_node ty) = 0"
  "node_type (mk_id s) = NODE_ID" "idtype (mk_id s) = sym_idtype s" "node_id (mk_id s) = s"
  "node_type (mk_value ty x) = ty" "node_value (mk_value ty x) = x" "idtype (mk_value ty x) = 0"
  "data_type (mk_id s) = 0"
  by (simp_all add: mk_node_def mk_id_def mk_value_def)

text \<open>What checking does to the tree of an expression \<open>e\<close> in front of the siblings \<open>s\<close>: it gives a
  tree with the data type \<open>dtype V e\<close>, in front of the checked siblings, whose code is that of \<open>e\<close>.\<close>

definition checked :: "finsh_vars \<Rightarrow> expr \<Rightarrow> tree \<Rightarrow> nat \<Rightarrow> bool" where
  "checked V e s err \<longleftrightarrow>
     (\<exists>n child. finsh_type_check V 0 (tree_of e s) err
          = (Node n child (fst (finsh_type_check V 0 s err)), snd (finsh_type_check V 0 s err))
        \<and> data_type n = dtype V e
        \<and> (\<forall>c. compile_node V n child (finsh_compile V child c) = emit (code_of V e) c))"

lemma checkedI:
  assumes "finsh_type_check V 0 (tree_of e s) err
      = (Node n child (fst (finsh_type_check V 0 s err)), snd (finsh_type_check V 0 s err))"
    and "data_type n = dtype V e"
    and "\<And>c. compile_node V n child (finsh_compile V child c) = emit (code_of V e) c"
  shows "checked V e s err"
  using assms unfolding checked_def by blast

lemma checkedE:
  assumes "checked V e s err"
  obtains n child where "finsh_type_check V 0 (tree_of e s) err
      = (Node n child (fst (finsh_type_check V 0 s err)), snd (finsh_type_check V 0 s err))"
    and "data_type n = dtype V e"
    and "\<And>c. compile_node V n child (finsh_compile V child c) = emit (code_of V e) c"
  using assms unfolding checked_def by blast

text \<open>An identifier, loaded by its value or its address.\<close>

lemma check_id:
  assumes "sym_ok V i" "ad = 0 \<or> ad = FINSH_IDTYPE_ADDRESS"
  obtains n where "\<And>s err. finsh_type_check V ad (Node (mk_id i) NULL s) err
      = (Node n NULL (fst (finsh_type_check V 0 s err)), snd (finsh_type_check V 0 s err))"
    and "data_type n = sym_width V i" "node_type n = NODE_ID" "node_id n = i"
    and "\<And>c. compile_node V n NULL c
      = emit (if ad = 0 then ld_value (sym_width V i) (sym_addr V i) else ld_dword (sym_addr V i)) c"
proof -
  let ?n = "(mk_id i)\<lparr>idtype := sym_idtype i OR ad, data_type := sym_width V i\<rparr>"
  have t: "type_data (sym_type V i) = Some (sym_width V i)"
    using value_type_data [OF sym_width(1) [OF assms(1)]] by simp
  have id: "sym_idtype i \<noteq> FINSH_IDTYPE_SYSCALL" "(sym_idtype i OR ad) AND FINSH_IDTYPE_ADDRESS = ad"
    using assms by (cases i; auto)+
  have "finsh_type_check V ad (Node (mk_id i) NULL s) err
      = (Node ?n NULL (fst (finsh_type_check V 0 s err)), snd (finsh_type_check V 0 s err))" for s err
    using t id(1) assms(1)
    by (cases i) (simp_all add: check_leaf_def set_type_def case_prod_beta Let_def)
  moreover have "compile_node V ?n NULL c
      = emit (if ad = 0 then ld_value (sym_width V i) (sym_addr V i) else ld_dword (sym_addr V i)) c" for c
    using sym_width [OF assms(1)] id(2) assms
    by (cases i) (auto simp: compile_node_def compile_id_def compile_load_def ld_value_def ld_dword_def)
  ultimately show thesis by (intro that [of ?n]) simp_all
qed

lemma check_value:
  assumes "sym_ok V i"
  obtains n where "\<And>s err. finsh_type_check V 0 (Node (mk_id i) NULL s) err
      = (Node n NULL (fst (finsh_type_check V 0 s err)), snd (finsh_type_check V 0 s err))"
    and "data_type n = sym_width V i" "node_type n = NODE_ID" "node_id n = i"
    and "\<And>c. compile_node V n NULL c = emit (ld_value (sym_width V i) (sym_addr V i)) c"
proof -
  have "0 = (0::u8) \<or> 0 = FINSH_IDTYPE_ADDRESS" by simp
  then obtain n where n:
      "\<And>s err. finsh_type_check V 0 (Node (mk_id i) NULL s) err
        = (Node n NULL (fst (finsh_type_check V 0 s err)), snd (finsh_type_check V 0 s err))"
      "data_type n = sym_width V i" "node_type n = NODE_ID" "node_id n = i"
      "\<And>c. compile_node V n NULL c
        = emit (if 0 = (0::u8) then ld_value (sym_width V i) (sym_addr V i) else ld_dword (sym_addr V i)) c"
    by (rule check_id [OF assms]) (rule that)
  show thesis by (rule that [OF n(1-4)]) (use n(5) in simp)
qed

lemma check_addr:
  assumes "sym_ok V i"
  obtains n where "\<And>s err. finsh_type_check V 8 (Node (mk_id i) NULL s) err
      = (Node n NULL (fst (finsh_type_check V 0 s err)), snd (finsh_type_check V 0 s err))"
    and "data_type n = sym_width V i" "node_type n = NODE_ID" "node_id n = i"
    and "\<And>c. compile_node V n NULL c = emit (ld_dword (sym_addr V i)) c"
proof -
  have "8 = (0::u8) \<or> 8 = FINSH_IDTYPE_ADDRESS" by simp
  then obtain n where n:
      "\<And>s err. finsh_type_check V 8 (Node (mk_id i) NULL s) err
        = (Node n NULL (fst (finsh_type_check V 0 s err)), snd (finsh_type_check V 0 s err))"
      "data_type n = sym_width V i" "node_type n = NODE_ID" "node_id n = i"
      "\<And>c. compile_node V n NULL c
        = emit (if 8 = (0::u8) then ld_value (sym_width V i) (sym_addr V i) else ld_dword (sym_addr V i)) c"
    by (rule check_id [OF assms]) (rule that)
  show thesis by (rule that [OF n(1-4)]) (use n(5) in simp)
qed

lemma leaf_value:
  assumes "ty \<in> {VALUE_INT, VALUE_LONG, VALUE_NULL}"
  shows "finsh_type_check V 0 (Node (mk_value ty x) NULL s) err
      = (Node ((mk_value ty x)\<lparr>data_type := 3\<rparr>) NULL (fst (finsh_type_check V 0 s err)), snd (finsh_type_check V 0 s err))"
    and "compile_node V ((mk_value ty x)\<lparr>data_type := 3\<rparr>) NULL c = emit (ld_dword x) c"
  using assms by (auto simp: check_leaf_def case_prod_beta Let_def compile_node_def ld_dword_def)

lemma leaf_checked:
  assumes "tree_of e s = Node (mk_value ty x) NULL s" "ty \<in> {VALUE_INT, VALUE_LONG, VALUE_NULL}"
    and "dtype V e = 3" "code_of V e = ld_dword x"
  shows "checked V e s err"
proof (rule checkedI)
  show "finsh_type_check V 0 (tree_of e s) err = (Node ((mk_value ty x)\<lparr>data_type := 3\<rparr>) NULL
      (fst (finsh_type_check V 0 s err)), snd (finsh_type_check V 0 s err))"
    unfolding assms(1) by (rule leaf_value(1) [OF assms(2)])
qed (use leaf_value(2) [OF assms(2)] assms(3,4) in simp_all)

lemma ucast_narrow [simp]:
  "ucast (ucast (c :: u8) :: u32) = c" "ucast (ucast (h :: u16) :: u32) = h"
  by (rule bit_word_eqI; simp add: bit_simps)+

lemma bin_type_binary [simp]: "compile_binary (bin_type f) = Some (bin_op f)"
  "bin_type f \<notin> {SYS_ASSIGN, SYS_PREINC, SYS_PREDEC, SYS_GETADDR, SYS_GETVALUE}"
  by (cases f; simp)+

lemma compile_node_simps:
  "node_type n = SYS_FUNC \<Longrightarrow> compile_node V n child c = compile_func child c"
  "node_type n = SYS_ASSIGN \<Longrightarrow> compile_node V n child c = compile_assign child c"
  "node_type n = SYS_PREINC \<Longrightarrow> compile_node V n child c = compile_pre V OP_ADD (data_type n) child c"
  "node_type n = SYS_PREDEC \<Longrightarrow> compile_node V n child c = compile_pre V OP_SUB (data_type n) child c"
  "node_type n = SYS_INC \<Longrightarrow> compile_node V n child c = compile_post V OP_ADD (data_type n) child c"
  "node_type n = SYS_DEC \<Longrightarrow> compile_node V n child c = compile_post V OP_SUB (data_type n) child c"
  "node_type n = SYS_GETADDR \<Longrightarrow> compile_node V n child c = c"
  "node_type n = SYS_GETVALUE \<Longrightarrow> compile_node V n child c =
     (if idtype n AND FINSH_IDTYPE_ADDRESS \<noteq> 0 then c else code_typed OP_LD_VALUE_STACK (data_type n) c)"
  "node_type n = SYS_BITWISE \<Longrightarrow> compile_node V n child c = code_typed 0x19 (data_type n) c"
  by (simp_all add: compile_node_def)

lemma compile_bin:
  assumes "node_type n = bin_type f" "data_type n \<in> {1, 2, 3}"
  shows "compile_node V n child c = emit [opw (bin_op f) (data_type n)] c"
proof -
  have "compile_node V n child c
      = (case compile_binary (bin_type f) of Some op \<Rightarrow> code_typed op (data_type n) c | None \<Rightarrow> c)"
    unfolding compile_node_def assms(1) by (cases f) simp_all
  then show ?thesis using assms(2) by simp
qed

text \<open>Inner nodes: the data type is that of the first child, the code of the children comes first.\<close>

lemma check_inner:
  assumes "finsh_type_check V ad' child err = (Node m ch sib, err')"
    and "node_type n \<in> {SYS_ASSIGN, SYS_PREINC, SYS_PREDEC, SYS_GETADDR} \<Longrightarrow> ad' = FINSH_IDTYPE_ADDRESS"
    and "node_type n = SYS_GETVALUE \<Longrightarrow> ad' = 0"
    and "node_type n \<notin> {SYS_ASSIGN, SYS_PREINC, SYS_PREDEC, SYS_GETADDR, SYS_GETVALUE} \<Longrightarrow> ad' = ad"
    and "idtype n = 0"
  shows "finsh_type_check V ad (Node n child s) err
      = (Node (n\<lparr>idtype := ad, data_type := data_type m\<rparr>) (Node m ch sib) (fst (finsh_type_check V 0 s err')),
         snd (finsh_type_check V 0 s err'))"
proof -
  have "(if node_type n \<in> {SYS_ASSIGN, SYS_PREINC, SYS_PREDEC, SYS_GETADDR}
         then finsh_type_check V FINSH_IDTYPE_ADDRESS child err
         else if node_type n = SYS_GETVALUE \<and> ad \<noteq> 0 then finsh_type_check V 0 child err
         else finsh_type_check V ad child err) = (Node m ch sib, err')"
    using assms(1-4) by (cases "node_type n = SYS_GETVALUE"; cases "ad = 0"; auto)
  then show ?thesis using assms(5)
    by (simp only: finsh_type_check.simps Let_def case_prod_beta fst_conv snd_conv) simp
qed

lemma siblings_same: "siblings (Node n child s) = siblings (Node m child' s)"
  by simp

lemma tree_checked:
  "well_typed V e \<Longrightarrow> checked V e s err"
  "(\<forall>e \<in> set es. well_typed V e) \<Longrightarrow>
     \<exists>T. finsh_type_check V 0 (trees_of es) err = (T, err) \<and> siblings T = length es
       \<and> (\<forall>c. finsh_compile V T c = emit (codes_of V es) c)"
proof (induction e s and es arbitrary: err and err rule: tree_of_trees_of.induct)
  case (1 x s err)
  show ?case by (rule leaf_checked [of _ _ VALUE_INT]) simp_all
next
  case (2 x s err)
  show ?case by (rule leaf_checked [of _ _ VALUE_LONG]) simp_all
next
  case (3 s err)
  show ?case by (rule leaf_checked [of _ _ VALUE_NULL]) simp_all
next
  case (4 c s err)
  show ?case
    by (rule checkedI [of _ _ _ _ "(mk_value VALUE_CHAR (ucast c))\<lparr>data_type := 1\<rparr>" NULL])
      (simp_all add: check_leaf_def case_prod_beta Let_def compile_node_def)
next
  case (5 i s err)
  then have ok: "sym_ok V i" by simp
  obtain n where n:
      "\<And>s err. finsh_type_check V 0 (Node (mk_id i) NULL s) err
        = (Node n NULL (fst (finsh_type_check V 0 s err)), snd (finsh_type_check V 0 s err))"
      "data_type n = sym_width V i" "\<And>c. compile_node V n NULL c = emit (ld_value (sym_width V i) (sym_addr V i)) c"
    by (rule check_value [OF ok]) (rule that)
  show ?case
    by (rule checkedI [of _ _ _ _ n NULL])
      (simp_all only: tree_of.simps code_of.simps dtype.simps n finsh_compile.simps)
next
  case (6 i s err)
  then have ok: "sym_ok V i" by simp
  obtain m where m: "\<And>s err. finsh_type_check V 8 (Node (mk_id i) NULL s) err
      = (Node m NULL (fst (finsh_type_check V 0 s err)), snd (finsh_type_check V 0 s err))"
      "data_type m = sym_width V i" "\<And>c. compile_node V m NULL c = emit (ld_dword (sym_addr V i)) c"
    by (rule check_addr [OF ok]) (rule that)
  have ch: "finsh_type_check V 8 (Node (mk_id i) NULL NULL) err = (Node m NULL NULL, err)"
    by (simp only: m(1) finsh_type_check.simps(1) fst_conv snd_conv)
  show ?case
    by (rule checkedI, simp only: tree_of.simps, rule check_inner [OF ch])
      (simp_all add: m(2,3) compile_node_simps)
next
  case (7 f a b s err)
  then have wt: "well_typed V a" "well_typed V b" "dtype V a = width V a" by simp_all
  obtain nb cb where b: "finsh_type_check V 0 (tree_of b NULL) err = (Node nb cb NULL, err)"
      "\<And>c. compile_node V nb cb (finsh_compile V cb c) = emit (code_of V b) c"
    using 7(1) [OF wt(2), of err] by (elim checkedE) simp
  obtain na ca where a: "finsh_type_check V 0 (tree_of a (tree_of b NULL)) err = (Node na ca (Node nb cb NULL), err)"
      "data_type na = dtype V a" "\<And>c. compile_node V na ca (finsh_compile V ca c) = emit (code_of V a) c"
    using 7(2) [OF wt(1), of err] b(1) by (elim checkedE) simp
  show ?case
    by (rule checkedI, simp only: tree_of.simps, rule check_inner [OF a(1)])
      (use bin_type_binary(2) [of f] width_range [OF wt(1)] wt(3) in \<open>simp_all add: a(2,3) b(2) compile_bin\<close>)
next
  case (8 a s err)
  then have wt: "well_typed V a" "dtype V a = width V a" by simp_all
  obtain na ca where a: "finsh_type_check V 0 (tree_of a NULL) err = (Node na ca NULL, err)"
      "data_type na = dtype V a" "\<And>c. compile_node V na ca (finsh_compile V ca c) = emit (code_of V a) c"
    using 8(1) [OF wt(1), of err] by (elim checkedE) simp
  show ?case
    by (rule checkedI, simp only: tree_of.simps, rule check_inner [OF a(1)])
      (use width_range [OF wt(1)] wt(2) in \<open>simp_all add: a(2,3) compile_node_simps\<close>)
next
  case (9 a s err)
  then have wt: "well_typed V a" "dtype V a = 3" by simp_all
  obtain na ca where a: "finsh_type_check V 0 (tree_of a NULL) err = (Node na ca NULL, err)"
      "data_type na = dtype V a" "\<And>c. compile_node V na ca (finsh_compile V ca c) = emit (code_of V a) c"
    using 9(1) [OF wt(1), of err] by (elim checkedE) simp
  show ?case
    by (rule checkedI, simp only: tree_of.simps, rule check_inner [OF a(1)])
      (use wt(2) in \<open>simp_all add: a(2,3) compile_node_simps\<close>)
next
  case (10 i e s err)
  then have wt: "sym_ok V i" "well_typed V e" by simp_all
  obtain ne ce where e: "finsh_type_check V 0 (tree_of e NULL) err = (Node ne ce NULL, err)"
      "\<And>c. compile_node V ne ce (finsh_compile V ce c) = emit (code_of V e) c"
    using 10(1) [OF wt(2), of err] by (elim checkedE) simp
  obtain m where ch: "\<And>s err. finsh_type_check V 8 (Node (mk_id i) NULL s) err
      = (Node m NULL (fst (finsh_type_check V 0 s err)), snd (finsh_type_check V 0 s err))"
      and m: "data_type m = sym_width V i" "node_type m = NODE_ID"
      "\<And>c. compile_node V m NULL c = emit (ld_dword (sym_addr V i)) c"
    by (rule check_addr [OF wt(1)]) (rule that)
  have ch: "finsh_type_check V 8 (Node (mk_id i) NULL (tree_of e NULL)) err = (Node m NULL (Node ne ce NULL), err)"
    by (simp only: ch e(1) fst_conv snd_conv)
  show ?case
    by (rule checkedI, simp only: tree_of.simps, rule check_inner [OF ch])
      (use sym_width(2) [OF wt(1)] in \<open>auto simp: m e(2) compile_node_simps compile_assign_def compile_store_def\<close>)
next
  case (11 p e s err)
  then have wt: "well_typed V p" "well_typed V e" "dtype V p = 3" by simp_all
  obtain ne ce where e: "finsh_type_check V 0 (tree_of e NULL) err = (Node ne ce NULL, err)"
      "\<And>c. compile_node V ne ce (finsh_compile V ce c) = emit (code_of V e) c"
    using 11(2) [OF wt(2), of err] by (elim checkedE) simp
  obtain np cp where p: "finsh_type_check V 0 (tree_of p NULL) err = (Node np cp NULL, err)"
      "data_type np = dtype V p" "\<And>c. compile_node V np cp (finsh_compile V cp c) = emit (code_of V p) c"
    using 11(1) [OF wt(1), of err] by (elim checkedE) simp
  have g: "finsh_type_check V 8 (Node (mk_node SYS_GETVALUE) (tree_of p NULL) (tree_of e NULL)) err
      = (Node ((mk_node SYS_GETVALUE)\<lparr>idtype := 8, data_type := 3\<rparr>) (Node np cp NULL) (Node ne ce NULL), err)"
    using check_inner [OF p(1), of "mk_node SYS_GETVALUE" 8 "tree_of e NULL"] wt(3) p(2) e(1) by simp
  show ?case
    by (rule checkedI, simp only: tree_of.simps, rule check_inner [OF g])
      (simp_all add: wt p(3) e(2) compile_node_simps compile_assign_def compile_store_def)
next
  case (12 f i s err)
  then have ok: "sym_ok V i" "f = Add \<or> f = Sub" "\<exists>j. i = Var j" by auto
  obtain m where m: "\<And>s err. finsh_type_check V 8 (Node (mk_id i) NULL s) err
      = (Node m NULL (fst (finsh_type_check V 0 s err)), snd (finsh_type_check V 0 s err))"
      "data_type m = sym_width V i" "node_type m = NODE_ID" "node_id m = i"
      "\<And>c. compile_node V m NULL c = emit (ld_dword (sym_addr V i)) c"
    by (rule check_addr [OF ok(1)]) (rule that)
  have a: "var_value (id_var V i) = sym_addr V i" using ok(3) by auto
  have ch: "finsh_type_check V 8 (Node (mk_id i) NULL NULL) err = (Node m NULL NULL, err)"
    by (simp only: m(1) finsh_type_check.simps(1) fst_conv snd_conv)
  show ?case
    by (rule checkedI, simp only: tree_of.simps, rule check_inner [OF ch])
      (use sym_width(2) [OF ok(1)] ok(2) in \<open>auto simp: m a compile_node_simps compile_pre_def
        code_one_def incr_code_def ld_one_def ld_value_def opw_def Let_def\<close>)
next
  case (13 f i s err)
  then have ok: "sym_ok V i" "f = Add \<or> f = Sub" "\<exists>j. i = Var j" by auto
  obtain m where m: "\<And>s err. finsh_type_check V 0 (Node (mk_id i) NULL s) err
      = (Node m NULL (fst (finsh_type_check V 0 s err)), snd (finsh_type_check V 0 s err))"
      "data_type m = sym_width V i" "node_type m = NODE_ID" "node_id m = i"
      "\<And>c. compile_node V m NULL c = emit (ld_value (sym_width V i) (sym_addr V i)) c"
    by (rule check_value [OF ok(1)]) (rule that)
  have a: "var_value (id_var V i) = sym_addr V i" using ok(3) by auto
  have ch: "finsh_type_check V 0 (Node (mk_id i) NULL NULL) err = (Node m NULL NULL, err)"
    by (simp only: m(1) finsh_type_check.simps(1) fst_conv snd_conv)
  show ?case
    by (rule checkedI, simp only: tree_of.simps, rule check_inner [OF ch])
      (use sym_width(2) [OF ok(1)] ok(2) in \<open>auto simp: m a compile_node_simps compile_post_def
        code_one_def incr_code_def ld_one_def ld_value_def ld_dword_def opw_def Let_def\<close>)
next
  case (14 p f es s err)
  then obtain T where T: "finsh_type_check V 0 (trees_of es) err = (T, err)" "siblings T = length es"
      "\<And>c. finsh_compile V T c = emit (codes_of V es) c"
    by fastforce
  let ?n = "mk_id (Syscall p f)"
  have n: "finsh_type_check V 0 (Node ?n NULL (trees_of es)) err = (Node ?n NULL T, err)"
    using T(1) by (simp add: check_leaf_def)
  show ?case
    by (rule checkedI, simp only: tree_of.simps, rule check_inner [OF n])
      (simp_all add: T(2,3) compile_node_simps compile_func_def compile_node_def [of _ ?n] compile_id_def ld_dword_def)
next
  case 15
  show ?case by simp
next
  case (16 e es err)
  then obtain T where T: "finsh_type_check V 0 (trees_of es) err = (T, err)" "siblings T = length es"
      "\<And>c. finsh_compile V T c = emit (codes_of V es) c"
    by fastforce
  have ck: "checked V e (trees_of es) err" using 16(2) [of err] 16(3) by simp
  obtain n ch where e: "finsh_type_check V 0 (tree_of e (trees_of es)) err = (Node n ch T, err)"
      "\<And>c. compile_node V n ch (finsh_compile V ch c) = emit (code_of V e) c"
    using ck T(1) by (elim checkedE) simp
  then show ?case using T by simp
qed

end
