(* ===== verification/RT_Finsh_Parser.thy ===== *)
theory RT_Finsh_Parser
  imports RT_Finsh_Token RT_Finsh_Heap RT_Finsh_Eval
begin

text \<open>
  The parser of the C-expression shell (\<open>components/finsh/finsh_parser.c\<close>), with the nodes it makes
  (\<open>finsh_node.c\<close>) and the names it looks up (\<open>finsh_var.c\<close>, \<open>finsh_vm.c\<close>). The functions of the
  parser call each other; one definition per function takes the function for the calls, and \<open>proc\<close>
  ties them together with a bound on the depth of the calls and the turns of the loops. \<open>None\<close> is a
  bound too small or a use of memory the code relies on never making.
\<close>

section \<open>State\<close>

text \<open>The tables of system variables and of system calls, which the linker makes, and the lists of
  those added at run time: the name, the address of the descriptor, and what it says.\<close>

record finsh_symbols =
  sysvar_table :: "(string \<times> u32 \<times> finsh_sysvar) list"
  global_sysvar_list :: "(string \<times> u32 \<times> finsh_sysvar) list"
  syscall_table :: "(string \<times> u32 \<times> u32) list"
  global_syscall_list :: "(string \<times> u32 \<times> u32) list"

text \<open>The state that a line is parsed in. Of the table of nodes only the number of those in use
  matters, as they are all released together.\<close>

record finsh_parser =
  ptoken :: finsh_token
  nodes_used :: nat
  pvars :: finsh_vars
  symbols :: finsh_symbols
  string_heap :: fheap
  string_heap_addr :: u32
  pmem :: memory

abbreviation (input) FINSH_NODE_MAX :: nat where "FINSH_NODE_MAX \<equiv> 16"
abbreviation (input) FINSH_NAME_MAX :: nat where "FINSH_NAME_MAX \<equiv> 16"

definition perror :: "nat \<Rightarrow> finsh_parser \<Rightarrow> finsh_parser" where
  "perror e p = p\<lparr>ptoken := finsh_error_set e (ptoken p)\<rparr>"

section \<open>Names\<close>

definition finsh_var_lookup :: "string \<Rightarrow> finsh_vars \<Rightarrow> nat option" where
  "finsh_var_lookup name V =
     find (\<lambda>i. take FINSH_NAME_MAX (var_name (global_variable V ! i)) = take FINSH_NAME_MAX name)
       [0..<length (global_variable V)]"

definition finsh_var_insert :: "string \<Rightarrow> finsh_type \<Rightarrow> finsh_vars \<Rightarrow> (nat \<times> finsh_vars) option" where
  "finsh_var_insert name ty V =
     (if finsh_var_lookup name V \<noteq> None then None
      else case find (\<lambda>i. var_type (global_variable V ! i) = Type_unknown) [0..<length (global_variable V)] of
             None \<Rightarrow> None
           | Some i \<Rightarrow> Some (i, V\<lparr>global_variable := (global_variable V)
               [i := \<lparr>var_name = take FINSH_NAME_MAX name, var_type = ty\<rparr>]\<rparr>))"

definition finsh_var_delete :: "string \<Rightarrow> finsh_parser \<Rightarrow> (int \<times> finsh_parser) option" where
  "finsh_var_delete name p =
     (case finsh_var_lookup name (pvars p) of
        None \<Rightarrow> Some (- 1, p)
      | Some i \<Rightarrow>
          do { m \<leftarrow> store_dword (var_value (var_at (pvars p) i)) 0 (pmem p);
               Some (0, p\<lparr>pmem := m, pvars := (pvars p)\<lparr>global_variable := (global_variable (pvars p))
                 [i := \<lparr>var_name = [], var_type = Type_unknown\<rparr>]\<rparr>\<rparr>) })"

text \<open>In the tables a name must be the same, in the lists the name that is looked up may be a prefix.\<close>

definition table_lookup :: "string \<Rightarrow> (string \<times> 'a) list \<Rightarrow> (string \<times> 'a) list \<Rightarrow> 'a option" where
  "table_lookup name tb ls =
     (case find (\<lambda>x. fst x = name) tb of
        Some x \<Rightarrow> Some (snd x)
      | None \<Rightarrow> map_option snd (find (\<lambda>x. take (length name) (fst x) = name) ls))"

definition finsh_sysvar_lookup :: "string \<Rightarrow> finsh_symbols \<Rightarrow> symbol option" where
  "finsh_sysvar_lookup name S =
     map_option (\<lambda>(p, sv). Sysvar p sv) (table_lookup name (sysvar_table S) (global_sysvar_list S))"

definition finsh_syscall_lookup :: "string \<Rightarrow> finsh_symbols \<Rightarrow> symbol option" where
  "finsh_syscall_lookup name S =
     map_option (\<lambda>(p, f). Syscall p f) (table_lookup name (syscall_table S) (global_syscall_list S))"

text \<open>A name of 16 characters is not terminated, and the tables cannot be searched for it.\<close>

definition find_symbol :: "string \<Rightarrow> finsh_parser \<Rightarrow> symbol option option" where
  "find_symbol name p =
     (case finsh_var_lookup name (pvars p) of
        Some i \<Rightarrow> Some (Some (Var i))
      | None \<Rightarrow> do { rt_assert (length name < FINSH_NAME_MAX);
                    Some (case finsh_sysvar_lookup name (symbols p) of
                            Some s \<Rightarrow> Some s
                          | None \<Rightarrow> finsh_syscall_lookup name (symbols p)) })"

section \<open>Nodes\<close>

definition finsh_node_allocate :: "ntype \<Rightarrow> finsh_parser \<Rightarrow> finsh_node option \<times> finsh_parser" where
  "finsh_node_allocate ty p =
     (if nodes_used p < FINSH_NODE_MAX then (Some (mk_node ty), p\<lparr>nodes_used := nodes_used p + 1\<rparr>)
      else (None, p))"

definition new_node :: "ntype \<Rightarrow> (finsh_node \<Rightarrow> finsh_node) \<Rightarrow> finsh_parser \<Rightarrow> tree \<times> finsh_parser" where
  "new_node ty f p =
     (case finsh_node_allocate ty p of
        (None, p) \<Rightarrow> (NULL, perror FINSH_ERROR_MEMORY_FULL p)
      | (Some n, p) \<Rightarrow> (Node (f n) NULL NULL, p))"

definition finsh_node_new_id :: "string \<Rightarrow> finsh_parser \<Rightarrow> (tree \<times> finsh_parser) option" where
  "finsh_node_new_id name p =
     do { sym \<leftarrow> find_symbol name p;
          Some (case sym of
                  None \<Rightarrow> (NULL, perror FINSH_ERROR_UNKNOWN_SYMBOL p)
                | Some s \<Rightarrow> new_node NODE_ID (\<lambda>n. n\<lparr>node_id := s, idtype := sym_idtype s\<rparr>) p) }"

definition finsh_node_new_char :: "u8 \<Rightarrow> finsh_parser \<Rightarrow> tree \<times> finsh_parser" where
  "finsh_node_new_char c = new_node VALUE_CHAR (\<lambda>n. n\<lparr>node_value := ucast c\<rparr>)"

definition finsh_node_new_int :: "u32 \<Rightarrow> finsh_parser \<Rightarrow> tree \<times> finsh_parser" where
  "finsh_node_new_int i = new_node VALUE_INT (\<lambda>n. n\<lparr>node_value := i\<rparr>)"

definition finsh_node_new_long :: "u32 \<Rightarrow> finsh_parser \<Rightarrow> tree \<times> finsh_parser" where
  "finsh_node_new_long l = new_node VALUE_LONG (\<lambda>n. n\<lparr>node_value := l\<rparr>)"

definition finsh_node_new_ptr :: "u32 \<Rightarrow> finsh_parser \<Rightarrow> tree \<times> finsh_parser" where
  "finsh_node_new_ptr a = new_node VALUE_NULL (\<lambda>n. n\<lparr>node_value := a\<rparr>)"

text \<open>A string is copied into the heap for strings; whether the heap had room for it is not checked.\<close>

fun store_bytes :: "u32 \<Rightarrow> u8 list \<Rightarrow> memory \<Rightarrow> memory option" where
  "store_bytes a [] m = Some m"
| "store_bytes a (b # bs) m = do { m \<leftarrow> store_byte a b m; store_bytes (a + 1) bs m }"

definition pointed_to :: "finsh_parser \<Rightarrow> nat \<Rightarrow> bool" where
  "pointed_to p q \<longleftrightarrow>
     (\<exists>i \<in> set [0..<length (global_variable (pvars p))].
        var_type (global_variable (pvars p) ! i) \<noteq> Type_unknown
      \<and> load_dword (var_value (var_at (pvars p) i)) (pmem p) = Some (string_heap_addr p + of_nat q))"

definition finsh_node_new_string :: "finsh_parser \<Rightarrow> (tree \<times> finsh_parser) option" where
  "finsh_node_new_string p =
     (case finsh_node_allocate VALUE_STRING p of
        (None, p) \<Rightarrow> Some (NULL, perror FINSH_ERROR_MEMORY_FULL p)
      | (Some n, p) \<Rightarrow>
          do { rt_assert (NUL \<in> set (tstring (ptoken p)));
               let str = token_string (ptoken p);
               let sz = length str + 1;
               (a, H) \<leftarrow> finsh_heap_allocate (pointed_to p) sz (string_heap p);
               a \<leftarrow> a;
               let adr = string_heap_addr p + of_nat a;
               m \<leftarrow> store_bytes adr (replicate (HEAP_ALIGN_SIZE sz) 0) (pmem p);
               m \<leftarrow> store_bytes adr (map of_char str @ [0]) m;
               Some (Node (n\<lparr>node_value := adr\<rparr>) NULL NULL, p\<lparr>string_heap := H, pmem := m\<rparr>) })"

fun set_sibling :: "tree \<Rightarrow> tree \<Rightarrow> tree" where
  "set_sibling s NULL = NULL"
| "set_sibling s (Node n child sibling) = Node n child s"

text \<open>When the table of nodes is full this sets the error too, as for a missing operand.\<close>

definition make_sys_node :: "ntype \<Rightarrow> tree \<Rightarrow> tree \<Rightarrow> finsh_parser \<Rightarrow> tree \<times> finsh_parser" where
  "make_sys_node ty node1 node2 p =
     (case finsh_node_allocate ty p of
        (None, p) \<Rightarrow> (NULL, perror FINSH_ERROR_NULL_NODE p)
      | (Some n, p) \<Rightarrow>
          if node1 \<noteq> NULL then (Node n (set_sibling node2 node1) NULL, p)
          else (Node n NULL NULL, perror FINSH_ERROR_NULL_NODE p))"

section \<open>Tokens\<close>

definition next_token :: "finsh_parser \<Rightarrow> (finsh_token_type \<times> finsh_parser) option" where
  "next_token p = do { (t, s) \<leftarrow> finsh_token_token (ptoken p); Some (t, p\<lparr>ptoken := s\<rparr>) }"

definition finsh_token_replay :: "finsh_parser \<Rightarrow> finsh_parser" where
  "finsh_token_replay p = p\<lparr>ptoken := (ptoken p)\<lparr>treplay := True\<rparr>\<rparr>"

definition check_token :: "finsh_token_type \<Rightarrow> finsh_token_type \<Rightarrow> finsh_parser \<Rightarrow> finsh_parser" where
  "check_token t ty p =
     (if t \<noteq> ty then finsh_token_replay (perror FINSH_ERROR_INVALID_TOKEN p) else p)"

definition match_token :: "finsh_token_type \<Rightarrow> finsh_parser \<Rightarrow> finsh_parser option" where
  "match_token ty p = do { (t, p) \<leftarrow> next_token p; Some (check_token t ty p) }"

definition is_base_type :: "finsh_token_type \<Rightarrow> bool" where
  "is_base_type t \<longleftrightarrow> t \<in> {Tvoid, Tchar, Tshort, Tint, Tlong}"

section \<open>Types and declarations\<close>

definition signed_type :: "finsh_token_type \<Rightarrow> finsh_type" where
  "signed_type t = (if t = Tvoid then Type_void else if t = Tchar then Type_char
     else if t = Tshort then Type_short else if t = Tint then Type_int else Type_long)"

definition unsigned_type :: "finsh_token_type \<Rightarrow> finsh_type option" where
  "unsigned_type t = (if t = Tchar then Some Type_uchar else if t = Tshort then Some Type_ushort
     else if t = Tint then Some Type_uint else if t = Tlong then Some Type_ulong else None)"

definition pointer_type :: "finsh_type \<Rightarrow> finsh_type" where
  "pointer_type ty = (if ty \<in> {Type_char, Type_uchar} then Type_charp
     else if ty \<in> {Type_short, Type_ushort} then Type_shortp
     else if ty \<in> {Type_int, Type_uint} then Type_intp
     else if ty \<in> {Type_long, Type_ulong} then Type_longp else Type_voidp)"

definition proc_pointer :: "finsh_type \<Rightarrow> finsh_parser \<Rightarrow> (finsh_type \<times> finsh_parser) option" where
  "proc_pointer ty p =
     do { (t, p) \<leftarrow> next_token p;
          Some (if t = Tmul then (pointer_type ty, p) else (ty, finsh_token_replay p)) }"

definition proc_type :: "finsh_parser \<Rightarrow> (finsh_type \<times> finsh_parser) option" where
  "proc_type p =
     do { (t, p) \<leftarrow> next_token p;
          let unknown = (\<lambda>p. (Type_unknown, perror FINSH_ERROR_UNKNOWN_TYPE (finsh_token_replay p)));
          if is_base_type t then proc_pointer (signed_type t) p
          else if t = Tunsigned
          then do { (t, p) \<leftarrow> next_token p;
                    if is_base_type t
                    then (case unsigned_type t of Some ty \<Rightarrow> proc_pointer ty p | None \<Rightarrow> Some (unknown p))
                    else proc_pointer Type_unknown (perror FINSH_ERROR_EXPECT_TYPE (finsh_token_replay p)) }
          else Some (unknown p) }"

definition proc_identifier :: "finsh_parser \<Rightarrow> (string \<times> finsh_parser) option" where
  "proc_identifier p =
     do { p \<leftarrow> match_token Tidentifier p; Some (take FINSH_NAME_MAX (token_string (ptoken p)), p) }"

definition proc_declarator :: "finsh_type \<Rightarrow> finsh_parser \<Rightarrow> (string \<times> finsh_parser) option" where
  "proc_declarator ty p =
     do { (name, p) \<leftarrow> proc_identifier p;
          Some (name, case finsh_var_insert name ty (pvars p) of
                        Some (i, V) \<Rightarrow> p\<lparr>pvars := V\<rparr>
                      | None \<Rightarrow> perror FINSH_ERROR_VARIABLE_EXIST p) }"

section \<open>The functions of the parser\<close>

text \<open>A function of the parser, or a loop of one with the tree it has so far. The levels are those of
  the binary operators.\<close>

datatype level = Inclusive_or | Exclusive_or | And_level | Shift | Additive | Multiplicative

datatype nonterm = Assign_expr | Binary level | Operators level tree | Cast_expr | Unary_expr
  | Postfix_expr | Postfixes tree | Primary_expr | Param_list | Params "tree list"
  | Expr_statement | Variable_decl | Declarators finsh_type "tree list" finsh_token_type
  | Statements "tree list" tree finsh_token_type

type_synonym procs = "nonterm \<Rightarrow> finsh_parser \<Rightarrow> (tree \<times> finsh_parser) option"

fun operators :: "level \<Rightarrow> finsh_token_type \<Rightarrow> ntype option" where
  "operators Inclusive_or t = (if t = Tor then Some SYS_OR else None)"
| "operators Exclusive_or t = (if t = Txor then Some SYS_XOR else None)"
| "operators And_level t = (if t = Tand then Some SYS_AND else None)"
| "operators Shift t = (if t = Tshl then Some SYS_SHL else if t = Tshr then Some SYS_SHR else None)"
| "operators Additive t = (if t = Tsub then Some SYS_SUB else if t = Tadd then Some SYS_ADD else None)"
| "operators Multiplicative t =
     (if t = Tmul then Some SYS_MUL else if t = Tdiv then Some SYS_DIV else if t = Tmod then Some SYS_MOD else None)"

fun operand :: "level \<Rightarrow> nonterm" where
  "operand Inclusive_or = Binary Exclusive_or"
| "operand Exclusive_or = Binary And_level"
| "operand And_level = Binary Shift"
| "operand Shift = Binary Additive"
| "operand Additive = Binary Multiplicative"
| "operand Multiplicative = Cast_expr"

text \<open>The loop of a binary level: operators of the level and their right operands.\<close>

definition proc_operators :: "procs \<Rightarrow> level \<Rightarrow> tree \<Rightarrow> finsh_parser \<Rightarrow> (tree \<times> finsh_parser) option" where
  "proc_operators rec l x p =
     do { (t, p) \<leftarrow> next_token p;
          case operators l t of
            None \<Rightarrow> Some (x, finsh_token_replay p)
          | Some ty \<Rightarrow>
              do { (y, p) \<leftarrow> rec (operand l) p;
                   let (x, p) = (if y = NULL then (x, perror FINSH_ERROR_EXPECT_OPERATOR p)
                                 else make_sys_node ty x y p);
                   rec (Operators l x) p } }"

definition proc_inclusive_or_expr :: "procs \<Rightarrow> finsh_parser \<Rightarrow> (tree \<times> finsh_parser) option" where
  "proc_inclusive_or_expr rec p =
     do { (x, p) \<leftarrow> rec (Binary Exclusive_or) p; rec (Operators Inclusive_or x) p }"

definition proc_exclusive_or_expr :: "procs \<Rightarrow> finsh_parser \<Rightarrow> (tree \<times> finsh_parser) option" where
  "proc_exclusive_or_expr rec p =
     do { (x, p) \<leftarrow> rec (Binary And_level) p; rec (Operators Exclusive_or x) p }"

definition proc_and_expr :: "procs \<Rightarrow> finsh_parser \<Rightarrow> (tree \<times> finsh_parser) option" where
  "proc_and_expr rec p =
     do { (x, p) \<leftarrow> rec (Binary Shift) p; rec (Operators And_level x) p }"

definition proc_shift_expr :: "procs \<Rightarrow> finsh_parser \<Rightarrow> (tree \<times> finsh_parser) option" where
  "proc_shift_expr rec p =
     do { (x, p) \<leftarrow> rec (Binary Additive) p; rec (Operators Shift x) p }"

definition proc_additive_expr :: "procs \<Rightarrow> finsh_parser \<Rightarrow> (tree \<times> finsh_parser) option" where
  "proc_additive_expr rec p =
     do { (x, p) \<leftarrow> rec (Binary Multiplicative) p; rec (Operators Additive x) p }"

definition proc_multiplicative_expr :: "procs \<Rightarrow> finsh_parser \<Rightarrow> (tree \<times> finsh_parser) option" where
  "proc_multiplicative_expr rec p =
     do { (x, p) \<leftarrow> rec Cast_expr p; rec (Operators Multiplicative x) p }"

definition proc_assign_expr :: "procs \<Rightarrow> finsh_parser \<Rightarrow> (tree \<times> finsh_parser) option" where
  "proc_assign_expr rec p =
     do { (x, p) \<leftarrow> rec (Binary Inclusive_or) p;
          (t, p) \<leftarrow> next_token p;
          if t = Tassign
          then do { (y, p) \<leftarrow> rec Assign_expr p; Some (make_sys_node SYS_ASSIGN x y p) }
          else Some (x, finsh_token_replay p) }"

fun type_number :: "finsh_type \<Rightarrow> nat" where
  "type_number Type_unknown = 0" | "type_number Type_void = 1" | "type_number Type_voidp = 2"
| "type_number Type_char = 3" | "type_number Type_uchar = 4" | "type_number Type_charp = 5"
| "type_number Type_short = 6" | "type_number Type_ushort = 7" | "type_number Type_shortp = 8"
| "type_number Type_int = 9" | "type_number Type_uint = 10" | "type_number Type_intp = 11"
| "type_number Type_long = 12" | "type_number Type_ulong = 13" | "type_number Type_longp = 14"

fun set_data_type :: "nat \<Rightarrow> tree \<Rightarrow> tree" where
  "set_data_type d NULL = NULL"
| "set_data_type d (Node n child sibling) = Node (n\<lparr>data_type := d\<rparr>) child sibling"

definition proc_cast_expr :: "procs \<Rightarrow> finsh_parser \<Rightarrow> (tree \<times> finsh_parser) option" where
  "proc_cast_expr rec p =
     do { (t, p) \<leftarrow> next_token p;
          if t = Tleft_paren
          then do { (ty, p) \<leftarrow> proc_type p;
                    p \<leftarrow> match_token Tright_paren p;
                    (c, p) \<leftarrow> rec Cast_expr p;
                    if c \<noteq> NULL then Some (set_data_type (type_number ty) c, p)
                    else rec Unary_expr (finsh_token_replay p) }
          else rec Unary_expr (finsh_token_replay p) }"

definition proc_unary_expr :: "procs \<Rightarrow> finsh_parser \<Rightarrow> (tree \<times> finsh_parser) option" where
  "proc_unary_expr rec p =
     do { (t, p) \<leftarrow> next_token p;
          let sys_node = (\<lambda>ty. do { (c, p) \<leftarrow> rec Cast_expr p; Some (make_sys_node ty c NULL p) });
          if t = Tadd then rec Cast_expr p
          else if t = Tinc then sys_node SYS_PREINC
          else if t = Tsub
          then do { (c, p) \<leftarrow> rec Cast_expr p;
                    let (z, p) = finsh_node_new_long 0 p;
                    Some (make_sys_node SYS_SUB z c p) }
          else if t = Tdec then sys_node SYS_PREDEC
          else if t = Tbitwise then sys_node SYS_BITWISE
          else if t = Tmul then sys_node SYS_GETVALUE
          else if t = Tand then sys_node SYS_GETADDR
          else rec Postfix_expr (finsh_token_replay p) }"

definition proc_postfix_expr :: "procs \<Rightarrow> finsh_parser \<Rightarrow> (tree \<times> finsh_parser) option" where
  "proc_postfix_expr rec p = do { (x, p) \<leftarrow> rec Primary_expr p; rec (Postfixes x) p }"

definition proc_postfixes :: "procs \<Rightarrow> tree \<Rightarrow> finsh_parser \<Rightarrow> (tree \<times> finsh_parser) option" where
  "proc_postfixes rec x p =
     do { (t, p) \<leftarrow> next_token p;
          if t = Tinc
          then let (x, p) = make_sys_node SYS_INC x NULL p in rec (Postfixes x) p
          else if t = Tdec
          then let (x, p) = make_sys_node SYS_DEC x NULL p in rec (Postfixes x) p
          else if t = Tleft_paren
          then do { (t, p) \<leftarrow> next_token p;
                    (ps, p) \<leftarrow> (if t \<noteq> Tright_paren
                               then do { (ps, p) \<leftarrow> rec Param_list (finsh_token_replay p);
                                         p \<leftarrow> match_token Tright_paren p;
                                         Some (ps, p) }
                               else Some (NULL, p));
                    let (x, p) = make_sys_node SYS_FUNC x ps p;
                    rec (Postfixes x) p }
          else Some (x, finsh_token_replay p) }"

definition proc_primary_expr :: "procs \<Rightarrow> finsh_parser \<Rightarrow> (tree \<times> finsh_parser) option" where
  "proc_primary_expr rec p =
     do { (t, p) \<leftarrow> next_token p;
          let v = tvalue (ptoken p);
          if t = Tidentifier
          then do { (name, p) \<leftarrow> proc_identifier (finsh_token_replay p); finsh_node_new_id name p }
          else if t = Tleft_paren
          then do { (x, p) \<leftarrow> rec Assign_expr p; p \<leftarrow> match_token Tright_paren p; Some (x, p) }
          else if t = Tvalue_int then Some (finsh_node_new_int v p)
          else if t = Tvalue_long then Some (finsh_node_new_long v p)
          else if t = Tvalue_char then Some (finsh_node_new_char (char_value v) p)
          else if t = Tvalue_string then finsh_node_new_string p
          else if t = Tvalue_null then Some (finsh_node_new_ptr 0 p)
          else Some (NULL, perror FINSH_ERROR_INVALID_TOKEN p) }"

text \<open>A chain of nodes; the siblings a node had before are no longer reached.\<close>

fun chain_nodes :: "tree list \<Rightarrow> tree" where
  "chain_nodes [] = NULL"
| "chain_nodes (x # xs) = set_sibling (chain_nodes xs) x"

definition proc_param_list :: "procs \<Rightarrow> finsh_parser \<Rightarrow> (tree \<times> finsh_parser) option" where
  "proc_param_list rec p =
     do { (x, p) \<leftarrow> rec Assign_expr p;
          if x = NULL then Some (NULL, p) else rec (Params [x]) p }"

definition proc_params :: "procs \<Rightarrow> tree list \<Rightarrow> finsh_parser \<Rightarrow> (tree \<times> finsh_parser) option" where
  "proc_params rec xs p =
     do { (t, p) \<leftarrow> next_token p;
          if t = Tcomma
          then do { (x, p) \<leftarrow> rec Assign_expr p;
                    if x \<noteq> NULL then rec (Params (xs @ [x])) p
                    else rec (Params xs) (perror FINSH_ERROR_EXPECT_OPERATOR p) }
          else Some (chain_nodes xs, finsh_token_replay p) }"

definition proc_expr_statement :: "procs \<Rightarrow> finsh_parser \<Rightarrow> (tree \<times> finsh_parser) option" where
  "proc_expr_statement rec p =
     do { (t, p) \<leftarrow> next_token p;
          if t \<noteq> Tsemicolon
          then do { (x, p) \<leftarrow> rec Assign_expr (finsh_token_replay p);
                    p \<leftarrow> match_token Tsemicolon p;
                    Some (x, p) }
          else Some (NULL, p) }"

text \<open>The initialiser of a declarator, if there is one; \<open>xs\<close> are the assignments made so far. The
  node for the variable is made after the one for its value.\<close>

definition proc_initialiser :: "procs \<Rightarrow> string \<Rightarrow> tree list \<Rightarrow> finsh_token_type \<Rightarrow> finsh_parser \<Rightarrow>
    (tree list \<times> finsh_token_type \<times> finsh_parser) option" where
  "proc_initialiser rec name xs t p =
     (if t = Tassign
      then do { (y, p) \<leftarrow> rec Assign_expr p;
                if y \<noteq> NULL
                then do { (i, p) \<leftarrow> finsh_node_new_id name p;
                          let (x, p) = make_sys_node SYS_ASSIGN i y p;
                          rt_assert (xs = [] \<or> last xs \<noteq> NULL);
                          (t, p) \<leftarrow> next_token p;
                          Some (if xs = [] \<and> x = NULL then [] else xs @ [x], t, p) }
                else Some (xs, t, p) }
      else Some (xs, t, p))"

definition proc_declarators :: "procs \<Rightarrow> finsh_type \<Rightarrow> tree list \<Rightarrow> finsh_token_type \<Rightarrow> finsh_parser \<Rightarrow>
    (tree \<times> finsh_parser) option" where
  "proc_declarators rec ty xs t p =
     (if t = Tcomma
      then do { (name, p) \<leftarrow> proc_declarator ty p;
                (t, p) \<leftarrow> next_token p;
                (xs, t, p) \<leftarrow> proc_initialiser rec name xs t p;
                rec (Declarators ty xs t) p }
      else Some (chain_nodes xs, check_token t Tsemicolon p))"

definition proc_variable_decl :: "procs \<Rightarrow> finsh_parser \<Rightarrow> (tree \<times> finsh_parser) option" where
  "proc_variable_decl rec p =
     do { (ty, p) \<leftarrow> proc_type p;
          (name, p) \<leftarrow> proc_declarator ty p;
          (t, p) \<leftarrow> next_token p;
          if t = Tcomma then rec (Declarators ty [] t) p
          else if t = Tassign
          then do { (xs, t, p) \<leftarrow> proc_initialiser rec name [] t p; rec (Declarators ty xs t) p }
          else if t = Tsemicolon then Some (NULL, p)
          else Some (NULL, perror FINSH_ERROR_EXPECT_TYPE p) }"

text \<open>The loop over the statements of a line. \<open>xs\<close> are the statements before \<open>node\<close>, which is the one
  that the next statement is linked to; it may be the first of a chain.\<close>

definition proc_statements :: "procs \<Rightarrow> tree list \<Rightarrow> tree \<Rightarrow> finsh_token_type \<Rightarrow> finsh_parser \<Rightarrow>
    (tree \<times> finsh_parser) option" where
  "proc_statements rec xs node t p =
     (if t = Teof \<or> t = Tbad then Some (foldr (\<lambda>x s. set_sibling s x) xs node, p)
      else do { let decl = (is_base_type t \<or> t = Tunsigned);
                (x, p) \<leftarrow> rec (if decl then Variable_decl else Expr_statement) (finsh_token_replay p);
                if xs = [] \<and> node = NULL
                then if x = NULL then Some (NULL, p)
                     else do { (t, p) \<leftarrow> next_token p; rec (Statements [] x t) p }
                else if x \<noteq> NULL
                then do { (t, p) \<leftarrow> next_token p; rec (Statements (xs @ [node]) x t) p }
                else do { p \<leftarrow> (if decl \<or> t = Tidentifier then Some p
                               else do { (t, p) \<leftarrow> next_token p; Some p });
                          (t, p) \<leftarrow> next_token p;
                          rec (Statements xs (set_sibling NULL node) t) p } })"

text \<open>The calls, with a bound.\<close>

fun proc_step :: "procs \<Rightarrow> procs" where
  "proc_step rec Assign_expr = proc_assign_expr rec"
| "proc_step rec (Binary Inclusive_or) = proc_inclusive_or_expr rec"
| "proc_step rec (Binary Exclusive_or) = proc_exclusive_or_expr rec"
| "proc_step rec (Binary And_level) = proc_and_expr rec"
| "proc_step rec (Binary Shift) = proc_shift_expr rec"
| "proc_step rec (Binary Additive) = proc_additive_expr rec"
| "proc_step rec (Binary Multiplicative) = proc_multiplicative_expr rec"
| "proc_step rec (Operators l x) = proc_operators rec l x"
| "proc_step rec Cast_expr = proc_cast_expr rec"
| "proc_step rec Unary_expr = proc_unary_expr rec"
| "proc_step rec Postfix_expr = proc_postfix_expr rec"
| "proc_step rec (Postfixes x) = proc_postfixes rec x"
| "proc_step rec Primary_expr = proc_primary_expr rec"
| "proc_step rec Param_list = proc_param_list rec"
| "proc_step rec (Params xs) = proc_params rec xs"
| "proc_step rec Expr_statement = proc_expr_statement rec"
| "proc_step rec Variable_decl = proc_variable_decl rec"
| "proc_step rec (Declarators ty xs t) = proc_declarators rec ty xs t"
| "proc_step rec (Statements xs node t) = proc_statements rec xs node t"

primrec proc :: "nat \<Rightarrow> procs" where
  "proc 0 = (\<lambda>nt p. None)"
| "proc (Suc n) = proc_step (proc n)"

text \<open>The root of the parser is clear when a line is parsed, as \<open>finsh_flush\<close> has cleared it.\<close>

definition finsh_parser_run :: "nat \<Rightarrow> string \<Rightarrow> finsh_parser \<Rightarrow> (tree \<times> finsh_parser) option" where
  "finsh_parser_run n line p =
     do { (t, p) \<leftarrow> next_token (p\<lparr>ptoken := finsh_token_init line (global_errno (ptoken p))\<rparr>);
          proc n (Statements [] NULL t) p }"

end
