(* ===== verification/RT_Finsh_Syntax.thy ===== *)
theory RT_Finsh_Syntax
  imports RT_Finsh_Parser
begin

text \<open>
  How the expressions of \<open>RT_Finsh_Eval\<close> are written, and that the parser makes of what is written
  the tree of the expression. Written are lists of lexemes; the characters come in \<open>RT_Finsh_Line\<close>.
  The parser has no parentheses, so an expression is written only if its operands bind more
  tightly than its operator.
\<close>

section \<open>Enough fuel\<close>

text \<open>A value that is reached with every bound that is large enough.\<close>

definition evt :: "(nat \<Rightarrow> 'a option) \<Rightarrow> 'a \<Rightarrow> bool" where
  "evt f r \<longleftrightarrow> (\<exists>N. \<forall>n \<ge> N. f n = Some r)"

lemma evt_Some [simp]: "evt (\<lambda>n. Some x) r \<longleftrightarrow> x = r"
  by (auto simp: evt_def)

lemma evt_bind:
  assumes "evt f x" "evt (\<lambda>n. g n x) r"
  shows "evt (\<lambda>n. f n \<bind> g n) r"
proof -
  obtain N where N: "\<forall>n \<ge> N. f n = Some x" using assms(1) by (auto simp: evt_def)
  obtain M where M: "\<forall>n \<ge> M. g n x = Some r" using assms(2) by (auto simp: evt_def)
  show ?thesis unfolding evt_def by (rule exI [of _ "max N M"]) (use N M in auto)
qed

definition runs :: "nonterm \<Rightarrow> finsh_parser \<Rightarrow> tree \<times> finsh_parser \<Rightarrow> bool" where
  "runs nt p r \<longleftrightarrow> evt (\<lambda>n. proc n nt p) r"

lemma runs_step:
  assumes "evt (\<lambda>n. proc_step (proc n) nt p) r"
  shows "runs nt p r"
proof -
  obtain N where N: "\<forall>n \<ge> N. proc_step (proc n) nt p = Some r" using assms by (auto simp: evt_def)
  have "proc n nt p = Some r" if "n \<ge> Suc N" for n
    using N that by (cases n) auto
  then show ?thesis unfolding runs_def evt_def by blast
qed

lemma evt_runs: "runs nt p (x, q) \<Longrightarrow> evt (\<lambda>n. g n x q) r \<Longrightarrow> evt (\<lambda>n. proc n nt p \<bind> (\<lambda>(x, p). g n x p)) r"
  unfolding runs_def by (rule evt_bind [where g = "\<lambda>n (x, p). g n x p"]) auto

section \<open>The functions of the parser, one step\<close>

lemma runs_binary:
  assumes "runs (operand l) p (x, q)" "runs (Operators l x) q r"
  shows "runs (Binary l) p r"
proof (rule runs_step)
  have "evt (\<lambda>n. proc n (operand l) p \<bind> (\<lambda>(x, p). proc n (Operators l x) p)) r"
    by (rule evt_runs [OF assms(1)]) (use assms(2) in \<open>simp add: runs_def\<close>)
  then show "evt (\<lambda>n. proc_step (proc n) (Binary l) p) r"
    by (cases l) (simp_all add: proc_inclusive_or_expr_def proc_exclusive_or_expr_def proc_and_expr_def
        proc_shift_expr_def proc_additive_expr_def proc_multiplicative_expr_def)
qed

lemma runs_operators_stop:
  "next_token p = Some (t, q) \<Longrightarrow> operators l t = None \<Longrightarrow> runs (Operators l x) p (x, finsh_token_replay q)"
  by (rule runs_step) (simp add: proc_operators_def)

lemma runs_operators:
  assumes "next_token p = Some (t, q)" "operators l t = Some ty" "runs (operand l) q (y, p1)" "y \<noteq> NULL"
    and "runs (Operators l (fst (make_sys_node ty x y p1))) (snd (make_sys_node ty x y p1)) r"
  shows "runs (Operators l x) p r"
  by (rule runs_step, simp add: proc_operators_def assms(1,2), rule evt_runs [OF assms(3)],
      simp add: split_def Let_def assms(4) assms(5) [unfolded runs_def])

lemma runs_assign_expr:
  assumes "runs (Binary Inclusive_or) p (x, p1)" "next_token p1 = Some (t, p2)" "t \<noteq> Tassign"
  shows "runs Assign_expr p (x, finsh_token_replay p2)"
  by (rule runs_step, simp add: proc_assign_expr_def, rule evt_runs [OF assms(1)], simp add: assms(2,3))

lemma runs_assignment:
  assumes "runs (Binary Inclusive_or) p (x, p1)" "next_token p1 = Some (Tassign, p2)" "runs Assign_expr p2 (y, p3)"
  shows "runs Assign_expr p (make_sys_node SYS_ASSIGN x y p3)"
  by (rule runs_step, simp add: proc_assign_expr_def, rule evt_runs [OF assms(1)], simp add: assms(2),
      rule evt_runs [OF assms(3)], simp)

lemma runs_cast_expr:
  assumes "next_token p = Some (t, q)" "t \<noteq> Tleft_paren" "runs Unary_expr (finsh_token_replay q) r"
  shows "runs Cast_expr p r"
  by (rule runs_step) (use assms in \<open>simp add: proc_cast_expr_def runs_def\<close>)

fun unary_node :: "finsh_token_type \<Rightarrow> ntype option" where
  "unary_node Tinc = Some SYS_PREINC"
| "unary_node Tdec = Some SYS_PREDEC"
| "unary_node Tbitwise = Some SYS_BITWISE"
| "unary_node Tmul = Some SYS_GETVALUE"
| "unary_node Tand = Some SYS_GETADDR"
| "unary_node _ = None"

lemma runs_unary:
  assumes "next_token p = Some (t, q)" "unary_node t = Some ty" "runs Cast_expr q (x, p1)"
  shows "runs Unary_expr p (make_sys_node ty x NULL p1)"
proof (rule runs_step)
  have "evt (\<lambda>n. proc n Cast_expr q \<bind> (\<lambda>(x, p). Some (make_sys_node ty x NULL p))) (make_sys_node ty x NULL p1)"
    by (rule evt_runs [OF assms(3)]) simp
  then show "evt (\<lambda>n. proc_step (proc n) Unary_expr p) (make_sys_node ty x NULL p1)"
    using assms(1,2) by (cases t) (simp_all add: proc_unary_expr_def Let_def)
qed

lemma runs_no_unary:
  assumes "next_token p = Some (t, q)" "t \<notin> {Tadd, Tinc, Tsub, Tdec, Tbitwise, Tmul, Tand}"
    and "runs Postfix_expr (finsh_token_replay q) r"
  shows "runs Unary_expr p r"
  by (rule runs_step) (use assms in \<open>simp add: proc_unary_expr_def Let_def runs_def\<close>)

lemma runs_postfix:
  assumes "runs Primary_expr p (x, q)" "runs (Postfixes x) q r"
  shows "runs Postfix_expr p r"
  by (rule runs_step, simp add: proc_postfix_expr_def, rule evt_runs [OF assms(1)], simp add: assms(2) [unfolded runs_def])

lemma runs_postfixes_stop:
  "next_token p = Some (t, q) \<Longrightarrow> t \<notin> {Tinc, Tdec, Tleft_paren} \<Longrightarrow> runs (Postfixes x) p (x, finsh_token_replay q)"
  by (rule runs_step) (simp add: proc_postfixes_def)

lemma runs_postfixes:
  assumes "next_token p = Some (t, q)" "(t, ty) \<in> {(Tinc, SYS_INC), (Tdec, SYS_DEC)}"
    and "runs (Postfixes (fst (make_sys_node ty x NULL q))) (snd (make_sys_node ty x NULL q)) r"
  shows "runs (Postfixes x) p r"
  by (rule runs_step) (use assms in \<open>auto simp: proc_postfixes_def split_def Let_def runs_def\<close>)

lemma runs_call:
  assumes "next_token p = Some (Tleft_paren, p1)" "next_token p1 = Some (t, p2)" "t \<noteq> Tright_paren"
    and "runs Param_list (finsh_token_replay p2) (ps, p3)" "match_token Tright_paren p3 = Some p4"
    and "runs (Postfixes (fst (make_sys_node SYS_FUNC x ps p4))) (snd (make_sys_node SYS_FUNC x ps p4)) r"
  shows "runs (Postfixes x) p r"
proof (rule runs_step)
  have args: "evt (\<lambda>n. proc n Param_list (finsh_token_replay p2) \<bind>
        (\<lambda>(ps, p). match_token Tright_paren p \<bind> (\<lambda>p. Some (ps, p)))) (ps, p4)"
    by (rule evt_runs [OF assms(4)]) (simp add: assms(5))
  show "evt (\<lambda>n. proc_step (proc n) (Postfixes x) p) r"
    by (simp add: proc_postfixes_def assms(1-3) bind_assoc [symmetric] del: bind_assoc,
        rule evt_bind [OF args], simp add: split_def Let_def assms(6) [unfolded runs_def])
qed

lemma runs_call_no_args:
  assumes "next_token p = Some (Tleft_paren, p1)" "next_token p1 = Some (Tright_paren, p2)"
    and "runs (Postfixes (fst (make_sys_node SYS_FUNC x NULL p2))) (snd (make_sys_node SYS_FUNC x NULL p2)) r"
  shows "runs (Postfixes x) p r"
  by (rule runs_step) (use assms in \<open>simp add: proc_postfixes_def split_def Let_def runs_def\<close>)

lemma runs_primary:
  "next_token p = Some (Tidentifier, q) \<Longrightarrow> proc_identifier (finsh_token_replay q) = Some (name, p1) \<Longrightarrow>
     finsh_node_new_id name p1 = Some r \<Longrightarrow> runs Primary_expr p r"
  "next_token p = Some (Tvalue_int, q) \<Longrightarrow> runs Primary_expr p (finsh_node_new_int (tvalue (ptoken q)) q)"
  "next_token p = Some (Tvalue_long, q) \<Longrightarrow> runs Primary_expr p (finsh_node_new_long (tvalue (ptoken q)) q)"
  "next_token p = Some (Tvalue_char, q) \<Longrightarrow> runs Primary_expr p (finsh_node_new_char (char_value (tvalue (ptoken q))) q)"
  "next_token p = Some (Tvalue_null, q) \<Longrightarrow> runs Primary_expr p (finsh_node_new_ptr 0 q)"
  by (rule runs_step, simp add: proc_primary_expr_def Let_def)+

lemma runs_param_list:
  assumes "runs Assign_expr p (x, q)" "x \<noteq> NULL" "runs (Params [x]) q r"
  shows "runs Param_list p r"
  by (rule runs_step, simp add: proc_param_list_def, rule evt_runs [OF assms(1)],
      simp add: assms(2) assms(3) [unfolded runs_def])

lemma runs_params_stop:
  "next_token p = Some (t, q) \<Longrightarrow> t \<noteq> Tcomma \<Longrightarrow> runs (Params xs) p (chain_nodes xs, finsh_token_replay q)"
  by (rule runs_step) (simp add: proc_params_def)

lemma runs_params:
  assumes "next_token p = Some (Tcomma, q)" "runs Assign_expr q (x, p1)" "x \<noteq> NULL" "runs (Params (xs @ [x])) p1 r"
  shows "runs (Params xs) p r"
  by (rule runs_step, simp add: proc_params_def assms(1), rule evt_runs [OF assms(2)],
      simp add: assms(3) assms(4) [unfolded runs_def])

lemma runs_expr_statement:
  assumes "next_token p = Some (t, q)" "t \<noteq> Tsemicolon" "runs Assign_expr (finsh_token_replay q) (x, p1)"
    and "match_token Tsemicolon p1 = Some p2"
  shows "runs Expr_statement p (x, p2)"
  by (rule runs_step, simp add: proc_expr_statement_def assms(1,2), rule evt_runs [OF assms(3)], simp add: assms(4))

lemma runs_statements_end: "t \<in> {Teof, Tbad} \<Longrightarrow> runs (Statements xs node t) p (foldr (\<lambda>x s. set_sibling s x) xs node, p)"
  by (rule runs_step) (auto simp: proc_statements_def)

lemma runs_statements:
  assumes "t \<notin> {Teof, Tbad, Tvoid, Tchar, Tshort, Tint, Tlong, Tunsigned}"
    and "runs Expr_statement (finsh_token_replay p) (x, q)" "x \<noteq> NULL" "next_token q = Some (u, p1)"
    and "runs (if xs = [] \<and> node = NULL then Statements [] x u else Statements (xs @ [node]) x u) p1 r"
  shows "runs (Statements xs node t) p r"
proof (rule runs_step)
  have "\<not> is_base_type t \<and> t \<noteq> Tunsigned \<and> t \<noteq> Teof \<and> t \<noteq> Tbad" using assms(1) by (auto simp: is_base_type_def)
  then show "evt (\<lambda>n. proc_step (proc n) (Statements xs node t) p) r"
    by (simp add: proc_statements_def Let_def, intro evt_runs [OF assms(2)],
        use assms(3-5) in \<open>auto simp: runs_def split: if_splits\<close>)
qed

section \<open>What is left of a line\<close>

text \<open>A lexeme is a token with what it carries; the scanner offers the lexemes of a line one by one.\<close>

datatype lexeme = Sign finsh_token_type | Name string | Number u32 bool | Letter u8

fun token_of :: "lexeme \<Rightarrow> finsh_token_type" where
  "token_of (Sign t) = t"
| "token_of (Name n) = Tidentifier"
| "token_of (Number v l) = (if l then Tvalue_long else Tvalue_int)"
| "token_of (Letter c) = Tvalue_char"

fun displays :: "lexeme \<Rightarrow> finsh_token \<Rightarrow> bool" where
  "displays (Sign t) s \<longleftrightarrow> current_token s = t"
| "displays (Name n) s \<longleftrightarrow> current_token s = Tidentifier \<and> token_string s = n"
| "displays (Number v l) s \<longleftrightarrow> current_token s = token_of (Number v l) \<and> tvalue s = v"
| "displays (Letter c) s \<longleftrightarrow> current_token s = Tvalue_char \<and> char_value (tvalue s) = c"

lemma shows_token: "displays l s \<Longrightarrow> current_token s = token_of l"
  by (cases l) auto

fun offers :: "lexeme list \<Rightarrow> finsh_token \<Rightarrow> bool" where
  "offers [] s \<longleftrightarrow> True"
| "offers (l # ls) s \<longleftrightarrow> (\<exists>s'. finsh_token_token s = Some (token_of l, s') \<and> displays l s' \<and> \<not> treplay s'
     \<and> global_errno s' = global_errno s \<and> offers ls s')"

text \<open>The parser has \<open>ls\<close> before it, \<open>k\<close> nodes in use and no error; the rest is as in \<open>p0\<close>.\<close>

definition ready :: "finsh_parser \<Rightarrow> nat \<Rightarrow> lexeme list \<Rightarrow> finsh_parser \<Rightarrow> bool" where
  "ready p0 k ls p \<longleftrightarrow> p\<lparr>ptoken := ptoken p0, nodes_used := nodes_used p0\<rparr> = p0
     \<and> nodes_used p = k \<and> global_errno (ptoken p) = 0 \<and> offers ls (ptoken p)"

lemma shows_replay [simp]: "displays l (s\<lparr>treplay := b\<rparr>) \<longleftrightarrow> displays l s"
  by (cases l) (auto simp: token_string_def)

lemma ready_next:
  assumes "ready p0 k (l # ls) p"
  shows "\<exists>q. next_token p = Some (token_of l, q) \<and> ready p0 k ls q \<and> displays l (ptoken q)
    \<and> ready p0 k (l # ls) (finsh_token_replay q)"
proof -
  obtain s' where s': "finsh_token_token (ptoken p) = Some (token_of l, s')" "displays l s'" "\<not> treplay s'"
      "global_errno s' = global_errno (ptoken p)" "offers ls s'"
    using assms by (auto simp: ready_def)
  have "s'\<lparr>treplay := False\<rparr> = s'" using s'(3) by simp
  then have "finsh_token_token (s'\<lparr>treplay := True\<rparr>) = Some (token_of l, s')"
    using shows_token [OF s'(2)] by (simp add: finsh_token_token_def)
  then show ?thesis
    using assms s' by (auto simp: ready_def next_token_def finsh_token_replay_def)
qed

lemma ready_match:
  assumes "ready p0 k (Sign t # ls) p"
  shows "\<exists>q. match_token t p = Some q \<and> ready p0 k ls q"
  using ready_next [OF assms] by (auto simp: match_token_def check_token_def)

lemma ready_perror_free: "ready p0 k ls p \<Longrightarrow> pvars p = pvars p0 \<and> symbols p = symbols p0"
  unfolding ready_def by (metis finsh_parser.select_convs finsh_parser.update_convs finsh_parser.surjective)

lemma ready_nodes: "ready p0 k ls p \<Longrightarrow> ready p0 m ls (p\<lparr>nodes_used := m\<rparr>)"
  by (auto simp: ready_def)

lemma new_node_ok:
  assumes "ready p0 k ls p" "k < FINSH_NODE_MAX"
  shows "\<exists>q. new_node ty f p = (Node (f (mk_node ty)) NULL NULL, q) \<and> ready p0 (Suc k) ls q"
  using ready_nodes [OF assms(1), of "Suc k"] assms
  by (auto simp: new_node_def finsh_node_allocate_def ready_def)

lemma make_sys_node_ok:
  assumes "ready p0 k ls p" "k < FINSH_NODE_MAX" "x \<noteq> NULL"
  shows "\<exists>q. make_sys_node ty x y p = (Node (mk_node ty) (set_sibling y x) NULL, q) \<and> ready p0 (Suc k) ls q"
  using ready_nodes [OF assms(1), of "Suc k"] assms
  by (auto simp: make_sys_node_def finsh_node_allocate_def ready_def)

section \<open>How expressions are written\<close>

fun level_of :: "binop \<Rightarrow> level" where
  "level_of Add = Additive" | "level_of Sub = Additive" | "level_of Div = Multiplicative"
| "level_of Mod = Multiplicative" | "level_of Mul = Multiplicative" | "level_of And = And_level"
| "level_of Or = Inclusive_or" | "level_of Xor = Exclusive_or" | "level_of Shl = Shift" | "level_of Shr = Shift"

fun operator_of :: "binop \<Rightarrow> finsh_token_type" where
  "operator_of Add = Tadd" | "operator_of Sub = Tsub" | "operator_of Div = Tdiv"
| "operator_of Mod = Tmod" | "operator_of Mul = Tmul" | "operator_of And = Tand"
| "operator_of Or = Tor" | "operator_of Xor = Txor" | "operator_of Shl = Tshl" | "operator_of Shr = Tshr"

fun rank :: "level \<Rightarrow> nat" where
  "rank Inclusive_or = 1" | "rank Exclusive_or = 2" | "rank And_level = 3" | "rank Shift = 4"
| "rank Additive = 5" | "rank Multiplicative = 6"

text \<open>How tightly an expression binds: 0 for an assignment, the rank of its operator, 8 for a prefix
  operator, 9 for a postfix, 10 for a name or a number.\<close>

fun binding :: "expr \<Rightarrow> nat" where
  "binding (Bin f a b) = rank (level_of f)"
| "binding (Assign s e) = 0"
| "binding (Store a e) = 0"
| "binding (AddrOf s) = 8"
| "binding (Compl a) = 8"
| "binding (Deref a) = 8"
| "binding (Pre f s) = 8"
| "binding (Post f s) = 9"
| "binding (Call a f es) = 9"
| "binding _ = 10"

fun writable :: "expr \<Rightarrow> bool" where
  "writable (Bin f a b) \<longleftrightarrow> writable a \<and> writable b \<and> rank (level_of f) \<le> binding a \<and> rank (level_of f) < binding b"
| "writable (Compl a) \<longleftrightarrow> writable a \<and> 8 \<le> binding a"
| "writable (Deref a) \<longleftrightarrow> writable a \<and> 8 \<le> binding a"
| "writable (Assign s e) \<longleftrightarrow> writable e"
| "writable (Store a e) \<longleftrightarrow> writable a \<and> 8 \<le> binding a \<and> writable e"
| "writable (Pre f s) \<longleftrightarrow> f \<in> {Add, Sub}"
| "writable (Post f s) \<longleftrightarrow> f \<in> {Add, Sub}"
| "writable (Call a f es) \<longleftrightarrow> (\<forall>e \<in> set es. writable e)"
| "writable _ \<longleftrightarrow> True"

fun lexemes :: "(symbol \<Rightarrow> string) \<Rightarrow> expr \<Rightarrow> lexeme list" where
  "lexemes nm (IntV x) = [Number x False]"
| "lexemes nm (LongV x) = [Number x True]"
| "lexemes nm NullV = [Sign Tvalue_null]"
| "lexemes nm (CharV c) = [Letter c]"
| "lexemes nm (Id s) = [Name (nm s)]"
| "lexemes nm (AddrOf s) = [Sign Tand, Name (nm s)]"
| "lexemes nm (Bin f a b) = lexemes nm a @ Sign (operator_of f) # lexemes nm b"
| "lexemes nm (Compl a) = Sign Tbitwise # lexemes nm a"
| "lexemes nm (Deref a) = Sign Tmul # lexemes nm a"
| "lexemes nm (Assign s e) = Name (nm s) # Sign Tassign # lexemes nm e"
| "lexemes nm (Store a e) = Sign Tmul # lexemes nm a @ Sign Tassign # lexemes nm e"
| "lexemes nm (Pre f s) = [Sign (if f = Add then Tinc else Tdec), Name (nm s)]"
| "lexemes nm (Post f s) = [Name (nm s), Sign (if f = Add then Tinc else Tdec)]"
| "lexemes nm (Call a f es) = Name (nm (Syscall a f)) # Sign Tleft_paren
     # tl (concat (map (\<lambda>e. Sign Tcomma # lexemes nm e) es)) @ [Sign Tright_paren]"

fun nodes :: "expr \<Rightarrow> nat" where
  "nodes (AddrOf s) = 2"
| "nodes (Bin f a b) = Suc (nodes a + nodes b)"
| "nodes (Compl a) = Suc (nodes a)"
| "nodes (Deref a) = Suc (nodes a)"
| "nodes (Assign s e) = Suc (Suc (nodes e))"
| "nodes (Store a e) = Suc (Suc (nodes a + nodes e))"
| "nodes (Pre f s) = 2"
| "nodes (Post f s) = 2"
| "nodes (Call a f es) = Suc (Suc (sum_list (map nodes es)))"
| "nodes _ = 1"

fun symbols_of :: "expr \<Rightarrow> symbol set" where
  "symbols_of (Id s) = {s}"
| "symbols_of (AddrOf s) = {s}"
| "symbols_of (Bin f a b) = symbols_of a \<union> symbols_of b"
| "symbols_of (Compl a) = symbols_of a"
| "symbols_of (Deref a) = symbols_of a"
| "symbols_of (Assign s e) = insert s (symbols_of e)"
| "symbols_of (Store a e) = symbols_of a \<union> symbols_of e"
| "symbols_of (Pre f s) = {s}"
| "symbols_of (Post f s) = {s}"
| "symbols_of (Call a f es) = insert (Syscall a f) (\<Union>e \<in> set es. symbols_of e)"
| "symbols_of _ = {}"

text \<open>The names stand for the symbols they are used for.\<close>

definition named :: "finsh_parser \<Rightarrow> (symbol \<Rightarrow> string) \<Rightarrow> symbol \<Rightarrow> bool" where
  "named p0 nm s \<longleftrightarrow> length (nm s) \<le> FINSH_NAME_MAX \<and> find_symbol (nm s) p0 = Some (Some s)"

section \<open>The parser reads what is written\<close>

definition nt_of :: "nat \<Rightarrow> nonterm" where
  "nt_of L = [Assign_expr, Binary Inclusive_or, Binary Exclusive_or, Binary And_level, Binary Shift,
     Binary Additive, Binary Multiplicative, Cast_expr, Unary_expr, Postfix_expr, Primary_expr] ! L"

text \<open>A lexeme that ends an expression of the level \<open>L\<close>.\<close>

definition stops :: "nat \<Rightarrow> lexeme list \<Rightarrow> bool" where
  "stops L ls \<longleftrightarrow> (\<exists>l ls'. ls = l # ls' \<and> token_of l \<notin> {Tinc, Tdec, Tleft_paren}
     \<and> (\<forall>lv. L \<le> rank lv \<longrightarrow> operators lv (token_of l) = None) \<and> (L = 0 \<longrightarrow> token_of l \<noteq> Tassign))"

definition reads :: "finsh_parser \<Rightarrow> nat \<Rightarrow> lexeme list \<Rightarrow> tree \<Rightarrow> nat \<Rightarrow> bool" where
  "reads p0 L us T c \<longleftrightarrow> (\<forall>k rest p. k + c \<le> FINSH_NODE_MAX \<longrightarrow> stops L rest \<longrightarrow> ready p0 k (us @ rest) p \<longrightarrow>
     (\<exists>q. runs (nt_of L) p (T, q) \<and> ready p0 (k + c) rest q))"

text \<open>The same up to the loop of a binary level, which may go on.\<close>

definition reads_spine :: "finsh_parser \<Rightarrow> level \<Rightarrow> lexeme list \<Rightarrow> tree \<Rightarrow> nat \<Rightarrow> bool" where
  "reads_spine p0 lv us T c \<longleftrightarrow> (\<forall>k rest p. k + c \<le> FINSH_NODE_MAX \<longrightarrow> stops (Suc (rank lv)) rest \<longrightarrow>
     ready p0 k (us @ rest) p \<longrightarrow>
     (\<exists>q. ready p0 (k + c) rest q \<and> (\<forall>r. runs (Operators lv T) q r \<longrightarrow> runs (Binary lv) p r)))"

lemma rank_bound [simp]: "\<not> 7 \<le> rank lv" "\<not> 8 \<le> rank lv" "\<not> 9 \<le> rank lv"
  by (cases lv; simp)+

lemma nt_of_rank: "nt_of (rank lv) = Binary lv" "nt_of (Suc (rank lv)) = operand lv"
  by (cases lv; simp add: nt_of_def)+

lemma nt_of_simps [simp]: "nt_of 0 = Assign_expr" "nt_of 7 = Cast_expr" "nt_of 8 = Unary_expr"
  "nt_of 9 = Postfix_expr" "nt_of 10 = Primary_expr"
  by (simp_all add: nt_of_def)

lemma stops_mono: "stops L ls \<Longrightarrow> L \<le> M \<Longrightarrow> stops M ls"
  unfolding stops_def by (metis bot_nat_0.extremum_uniqueI le_trans)

lemma readsD:
  "reads p0 L us T c \<Longrightarrow> k + c \<le> FINSH_NODE_MAX \<Longrightarrow> stops L rest \<Longrightarrow> ready p0 k (us @ rest) p \<Longrightarrow>
     \<exists>q. runs (nt_of L) p (T, q) \<and> ready p0 (k + c) rest q"
  unfolding reads_def by blast

lemma spine_of_operand:
  assumes "reads p0 (Suc (rank lv)) us T c"
  shows "reads_spine p0 lv us T c"
  unfolding reads_spine_def
proof (intro allI impI)
  fix k rest p
  assume "k + c \<le> FINSH_NODE_MAX" "stops (Suc (rank lv)) rest" "ready p0 k (us @ rest) p"
  from readsD [OF assms this] obtain q where q: "runs (operand lv) p (T, q)" "ready p0 (k + c) rest q"
    by (auto simp: nt_of_rank)
  then show "\<exists>q. ready p0 (k + c) rest q \<and> (\<forall>r. runs (Operators lv T) q r \<longrightarrow> runs (Binary lv) p r)"
    using runs_binary by blast
qed

lemma reads_of_spine:
  assumes "reads_spine p0 lv us T c"
  shows "reads p0 (rank lv) us T c"
  unfolding reads_def
proof (intro allI impI)
  fix k rest p
  assume a: "k + c \<le> FINSH_NODE_MAX" "stops (rank lv) rest" "ready p0 k (us @ rest) p"
  then have "stops (Suc (rank lv)) rest" by (blast intro: stops_mono le_SucI)
  then obtain q where q: "ready p0 (k + c) rest q" "\<And>r. runs (Operators lv T) q r \<Longrightarrow> runs (Binary lv) p r"
    using assms a(1,3) unfolding reads_spine_def by blast
  obtain l ls where l: "rest = l # ls" "operators lv (token_of l) = None"
    using a(2) by (auto simp: stops_def)
  obtain q' where q': "next_token q = Some (token_of l, q')" "ready p0 (k + c) rest (finsh_token_replay q')"
    using ready_next q(1) l(1) by blast
  have "runs (Operators lv T) q (T, finsh_token_replay q')" using runs_operators_stop [OF q'(1) l(2)] .
  then show "\<exists>q. runs (nt_of (rank lv)) p (T, q) \<and> ready p0 (k + c) rest q"
    using q(2) q'(2) by (auto simp: nt_of_rank)
qed

lemma spine_step:
  assumes a: "reads_spine p0 lv us T c" and b: "reads p0 (Suc (rank lv)) vs S d"
    and t: "operators lv t = Some ty" "stops (Suc (rank lv)) [Sign t]" and nn: "T \<noteq> NULL" "S \<noteq> NULL"
  shows "reads_spine p0 lv (us @ Sign t # vs) (Node (mk_node ty) (set_sibling S T) NULL) (Suc (c + d))"
  unfolding reads_spine_def
proof (intro allI impI)
  fix k rest p
  assume k: "k + Suc (c + d) \<le> FINSH_NODE_MAX" and r: "stops (Suc (rank lv)) rest"
    and p: "ready p0 k ((us @ Sign t # vs) @ rest) p"
  have "stops (Suc (rank lv)) (Sign t # vs @ rest)" using t(2) by (simp add: stops_def)
  moreover have "ready p0 k (us @ Sign t # vs @ rest) p" "k + c \<le> FINSH_NODE_MAX" using p k by simp_all
  ultimately obtain q where q: "ready p0 (k + c) (Sign t # vs @ rest) q"
      "\<And>r. runs (Operators lv T) q r \<Longrightarrow> runs (Binary lv) p r"
    using a unfolding reads_spine_def by blast
  obtain q1 where q1: "next_token q = Some (t, q1)" "ready p0 (k + c) (vs @ rest) q1"
    using ready_next [OF q(1)] by auto
  obtain q2 where q2: "runs (operand lv) q1 (S, q2)" "ready p0 (k + c + d) rest q2"
    using readsD [OF b _ r q1(2)] k by (auto simp: nt_of_rank)
  obtain q3 where q3: "make_sys_node ty T S q2 = (Node (mk_node ty) (set_sibling S T) NULL, q3)"
      "ready p0 (Suc (k + c + d)) rest q3"
    using make_sys_node_ok [OF q2(2) _ nn(1)] k by fastforce
  have "runs (Binary lv) p r" if "runs (Operators lv (Node (mk_node ty) (set_sibling S T) NULL)) q3 r" for r
    by (rule q(2)) (rule runs_operators [OF q1(1) t(1) q2(1) nn(2)], use that q3(1) in simp)
  then show "\<exists>q. ready p0 (k + Suc (c + d)) rest q
      \<and> (\<forall>r. runs (Operators lv (Node (mk_node ty) (set_sibling S T) NULL)) q r \<longrightarrow> runs (Binary lv) p r)"
    using q3(2) by (auto simp: add.assoc)
qed

subsection \<open>Down the levels\<close>

lemma stops_separator [simp]: "t \<in> {Tcomma, Tright_paren, Tsemicolon} \<Longrightarrow> stops L (Sign t # ls)"
proof -
  assume "t \<in> {Tcomma, Tright_paren, Tsemicolon}"
  moreover from this have "operators lv t = None" for lv by (cases lv) auto
  ultimately show ?thesis by (auto simp: stops_def)
qed

lemma reads_assign_level:
  assumes "reads p0 1 us T c"
  shows "reads p0 0 us T c"
  unfolding reads_def
proof (intro allI impI)
  fix k rest p
  assume a: "k + c \<le> FINSH_NODE_MAX" "stops 0 rest" "ready p0 k (us @ rest) p"
  obtain q where q: "runs (Binary Inclusive_or) p (T, q)" "ready p0 (k + c) rest q"
    using readsD [OF assms a(1) stops_mono [OF a(2)] a(3)] nt_of_rank(1) [of Inclusive_or] by auto
  obtain l ls where l: "rest = l # ls" "token_of l \<noteq> Tassign" using a(2) by (auto simp: stops_def)
  obtain q' where q': "next_token q = Some (token_of l, q')" "ready p0 (k + c) rest (finsh_token_replay q')"
    using ready_next q(2) l(1) by blast
  show "\<exists>q. runs (nt_of 0) p (T, q) \<and> ready p0 (k + c) rest q"
    using runs_assign_expr [OF q(1) q'(1) l(2)] q'(2) by auto
qed

lemma reads_cast_level:
  assumes "reads p0 8 us T c" "us = l # us'" "token_of l \<noteq> Tleft_paren"
  shows "reads p0 7 us T c"
  unfolding reads_def
proof (intro allI impI)
  fix k rest p
  assume a: "k + c \<le> FINSH_NODE_MAX" "stops 7 rest" "ready p0 k (us @ rest) p"
  obtain q where q: "next_token p = Some (token_of l, q)" "ready p0 k (us @ rest) (finsh_token_replay q)"
    using ready_next [of p0 k l "us' @ rest" p] a(3) assms(2) by auto
  obtain q' where q': "runs Unary_expr (finsh_token_replay q) (T, q')" "ready p0 (k + c) rest q'"
    using readsD [OF assms(1) a(1) stops_mono [OF a(2)] q(2)] by auto
  show "\<exists>q. runs (nt_of 7) p (T, q) \<and> ready p0 (k + c) rest q"
    using runs_cast_expr [OF q(1) assms(3) q'(1)] q'(2) by auto
qed

lemma reads_unary_level:
  assumes "reads p0 9 us T c" "us = l # us'" "token_of l \<notin> {Tadd, Tinc, Tsub, Tdec, Tbitwise, Tmul, Tand}"
  shows "reads p0 8 us T c"
  unfolding reads_def
proof (intro allI impI)
  fix k rest p
  assume a: "k + c \<le> FINSH_NODE_MAX" "stops 8 rest" "ready p0 k (us @ rest) p"
  obtain q where q: "next_token p = Some (token_of l, q)" "ready p0 k (us @ rest) (finsh_token_replay q)"
    using ready_next [of p0 k l "us' @ rest" p] a(3) assms(2) by auto
  obtain q' where q': "runs Postfix_expr (finsh_token_replay q) (T, q')" "ready p0 (k + c) rest q'"
    using readsD [OF assms(1) a(1) stops_mono [OF a(2)] q(2)] by auto
  show "\<exists>q. runs (nt_of 8) p (T, q) \<and> ready p0 (k + c) rest q"
    using runs_no_unary [OF q(1) assms(3) q'(1)] q'(2) by auto
qed

lemma postfixes_end:
  assumes "ready p0 k rest p" "stops L rest"
  shows "\<exists>q. runs (Postfixes T) p (T, q) \<and> ready p0 k rest q"
proof -
  obtain l ls where l: "rest = l # ls" "token_of l \<notin> {Tinc, Tdec, Tleft_paren}"
    using assms(2) by (auto simp: stops_def)
  obtain q where q: "next_token p = Some (token_of l, q)" "ready p0 k rest (finsh_token_replay q)"
    using ready_next assms(1) l(1) by blast
  show ?thesis using runs_postfixes_stop [OF q(1) l(2)] q(2) by blast
qed

lemma reads_postfix_level:
  assumes "reads p0 10 us T c"
  shows "reads p0 9 us T c"
  unfolding reads_def
proof (intro allI impI)
  fix k rest p
  assume a: "k + c \<le> FINSH_NODE_MAX" "stops 9 rest" "ready p0 k (us @ rest) p"
  obtain q where q: "runs Primary_expr p (T, q)" "ready p0 (k + c) rest q"
    using readsD [OF assms a(1) stops_mono [OF a(2)] a(3)] by auto
  obtain q' where "runs (Postfixes T) q (T, q')" "ready p0 (k + c) rest q'"
    using postfixes_end [OF q(2) a(2)] by blast
  then show "\<exists>q. runs (nt_of 9) p (T, q) \<and> ready p0 (k + c) rest q"
    using runs_postfix [OF q(1)] by auto
qed

text \<open>The lexemes that a prefix, a name or a value begins with.\<close>

definition starts :: "nat \<Rightarrow> lexeme list \<Rightarrow> bool" where
  "starts m us \<longleftrightarrow> (\<exists>l us'. us = l # us'
     \<and> token_of l \<in> {Tidentifier, Tvalue_int, Tvalue_long, Tvalue_char, Tvalue_null, Tand, Tmul, Tbitwise, Tinc, Tdec}
     \<and> (9 \<le> m \<longrightarrow> token_of l \<notin> {Tand, Tmul, Tbitwise, Tinc, Tdec}))"

lemma reads_down:
  assumes "reads p0 (Suc L) us T c" "Suc L \<le> m" "m \<le> 10" "starts m us"
  shows "reads p0 L us T c"
proof -
  obtain l us' where us: "us = l # us'" "token_of l \<noteq> Tleft_paren"
      "9 \<le> m \<longrightarrow> token_of l \<notin> {Tadd, Tinc, Tsub, Tdec, Tbitwise, Tmul, Tand}"
    using assms(4) by (auto simp: starts_def)
  consider "L = 0" | lv where "L = rank lv" | "L = 7" | "L = 8" | "L = 9"
  proof -
    have "L \<in> {0, rank Inclusive_or, rank Exclusive_or, rank And_level, rank Shift, rank Additive,
        rank Multiplicative, 7, 8, 9}" using assms(2,3) by auto
    then show thesis using that by blast
  qed
  then show ?thesis
  proof cases
    case 1
    then show ?thesis using reads_assign_level assms(1) by simp
  next
    case 2
    then show ?thesis using reads_of_spine [OF spine_of_operand] assms(1) by blast
  next
    case 3
    then show ?thesis using reads_cast_level [OF _ us(1,2)] assms(1) by simp
  next
    case 4
    then show ?thesis using reads_unary_level [OF _ us(1)] us(3) assms(1,2) by simp
  next
    case 5
    then show ?thesis using reads_postfix_level assms(1) by simp
  qed
qed

lemma reads_below:
  assumes "reads p0 m us T c" "m \<le> 10" "starts m us"
  shows "L \<le> m \<Longrightarrow> reads p0 L us T c"
proof (induction "m - L" arbitrary: L)
  case (Suc d)
  then have "reads p0 (Suc L) us T c" by (intro Suc(1)) simp_all
  then show ?case using reads_down assms(2,3) Suc(2,3) by (metis Suc_leI diff_is_0_eq le_neq_implies_less nat.distinct(1))
qed (use assms in simp)

subsection \<open>Names, values and operators\<close>

lemma find_symbol_ready:
  assumes "ready p0 k ls p"
  shows "find_symbol n p = find_symbol n p0"
  using ready_perror_free [OF assms] by (simp only: find_symbol_def)

lemma mk_id_node: "(mk_node NODE_ID)\<lparr>node_id := s, idtype := sym_idtype s\<rparr> = mk_id s"
  by (simp add: mk_id_def mk_node_def)

lemma name_read:
  assumes "named p0 nm s" "ready p0 k (Name (nm s) # rest) p" "k < FINSH_NODE_MAX"
  shows "\<exists>q. runs Primary_expr p (Node (mk_id s) NULL NULL, q) \<and> ready p0 (Suc k) rest q"
proof -
  obtain q where q: "next_token p = Some (Tidentifier, q)" "ready p0 k (Name (nm s) # rest) (finsh_token_replay q)"
    using ready_next [OF assms(2)] by auto
  obtain q1 where q1: "next_token (finsh_token_replay q) = Some (Tidentifier, q1)" "ready p0 k rest q1"
      "displays (Name (nm s)) (ptoken q1)"
    using ready_next [OF q(2)] by auto
  have "proc_identifier (finsh_token_replay q) = Some (nm s, q1)"
    using q1(1,3) assms(1) by (simp add: proc_identifier_def match_token_def check_token_def named_def)
  moreover obtain q2 where q2: "new_node NODE_ID (\<lambda>n. n\<lparr>node_id := s, idtype := sym_idtype s\<rparr>) q1 =
        (Node (mk_id s) NULL NULL, q2)" "ready p0 (Suc k) rest q2"
    using new_node_ok [OF q1(2) assms(3), of NODE_ID "\<lambda>n. n\<lparr>node_id := s, idtype := sym_idtype s\<rparr>"]
    by (auto simp: mk_id_node)
  moreover from q2(1) have "finsh_node_new_id (nm s) q1 = Some (Node (mk_id s) NULL NULL, q2)"
    using assms(1) find_symbol_ready [OF q1(2)] by (simp add: finsh_node_new_id_def named_def)
  ultimately show ?thesis using runs_primary(1) [OF q(1)] by auto
qed

lemma reads_name:
  assumes "named p0 nm s"
  shows "reads p0 10 [Name (nm s)] (Node (mk_id s) NULL NULL) 1"
  using name_read [OF assms] by (auto simp: reads_def)

lemma reads_value:
  assumes "\<And>p q. next_token p = Some (token_of l, q) \<Longrightarrow> displays l (ptoken q) \<Longrightarrow> runs Primary_expr p (new_node ty f q)"
  shows "reads p0 10 [l] (Node (f (mk_node ty)) NULL NULL) 1"
  unfolding reads_def
proof (intro allI impI)
  fix k rest p
  assume k: "k + 1 \<le> FINSH_NODE_MAX" and "ready p0 k ([l] @ rest) p"
  then have p: "ready p0 k (l # rest) p" by simp
  obtain q where q: "next_token p = Some (token_of l, q)" "ready p0 k rest q" "displays l (ptoken q)"
    using ready_next [OF p] by auto
  obtain q' where "new_node ty f q = (Node (f (mk_node ty)) NULL NULL, q')" "ready p0 (Suc k) rest q'"
    using new_node_ok [OF q(2), of ty f] k by auto
  then show "\<exists>q. runs (nt_of 10) p (Node (f (mk_node ty)) NULL NULL, q) \<and> ready p0 (k + 1) rest q"
    using assms [OF q(1,3)] by auto
qed

lemma reads_values:
  "reads p0 10 [Number x False] (Node (mk_value VALUE_INT x) NULL NULL) 1"
  "reads p0 10 [Number x True] (Node (mk_value VALUE_LONG x) NULL NULL) 1"
  "reads p0 10 [Sign Tvalue_null] (Node (mk_value VALUE_NULL 0) NULL NULL) 1"
  "reads p0 10 [Letter c] (Node (mk_value VALUE_CHAR (ucast c)) NULL NULL) 1"
  unfolding mk_value_def
  by (rule reads_value; use runs_primary(2-5) in
      \<open>fastforce simp: finsh_node_new_int_def finsh_node_new_long_def finsh_node_new_ptr_def finsh_node_new_char_def\<close>)+

lemma reads_unary:
  assumes "reads p0 7 us T c" "T \<noteq> NULL" "unary_node t = Some ty"
  shows "reads p0 8 (Sign t # us) (Node (mk_node ty) (set_sibling NULL T) NULL) (Suc c)"
  unfolding reads_def
proof (intro allI impI)
  fix k rest p
  assume a: "k + Suc c \<le> FINSH_NODE_MAX" "stops 8 rest" "ready p0 k ((Sign t # us) @ rest) p"
  obtain q where q: "next_token p = Some (t, q)" "ready p0 k (us @ rest) q"
    using ready_next [of p0 k "Sign t" "us @ rest" p] a(3) by auto
  have "stops 7 rest" using a(2) by (auto simp: stops_def)
  then obtain q1 where q1: "runs Cast_expr q (T, q1)" "ready p0 (k + c) rest q1"
    using readsD [OF assms(1) _ _ q(2)] a(1) by auto
  obtain q2 where "make_sys_node ty T NULL q1 = (Node (mk_node ty) (set_sibling NULL T) NULL, q2)"
      "ready p0 (Suc (k + c)) rest q2"
    using make_sys_node_ok [OF q1(2) _ assms(2)] a(1) by fastforce
  then show "\<exists>q. runs (nt_of 8) p (Node (mk_node ty) (set_sibling NULL T) NULL, q) \<and> ready p0 (k + Suc c) rest q"
    using runs_unary [OF q(1) assms(3) q1(1)] by auto
qed

lemma reads_increment:
  assumes "named p0 nm s" "(t, ty) \<in> {(Tinc, SYS_INC), (Tdec, SYS_DEC)}"
  shows "reads p0 9 [Name (nm s), Sign t] (Node (mk_node ty) (Node (mk_id s) NULL NULL) NULL) 2"
  unfolding reads_def
proof (intro allI impI)
  fix k rest p
  let ?T = "Node (mk_node ty) (Node (mk_id s) NULL NULL) NULL"
  assume a: "k + 2 \<le> FINSH_NODE_MAX" "stops 9 rest" "ready p0 k ([Name (nm s), Sign t] @ rest) p"
  obtain q where q: "runs Primary_expr p (Node (mk_id s) NULL NULL, q)" "ready p0 (Suc k) (Sign t # rest) q"
    using name_read [OF assms(1), of k "Sign t # rest" p] a(1,3) by auto
  obtain q1 where q1: "next_token q = Some (t, q1)" "ready p0 (Suc k) rest q1"
    using ready_next [OF q(2)] by auto
  obtain q2 where q2: "make_sys_node ty (Node (mk_id s) NULL NULL) NULL q1 = (?T, q2)" "ready p0 (Suc (Suc k)) rest q2"
    using make_sys_node_ok [OF q1(2), of "Node (mk_id s) NULL NULL" ty NULL] a(1) by auto
  obtain q3 where q3: "runs (Postfixes ?T) q2 (?T, q3)" "ready p0 (Suc (Suc k)) rest q3"
    using postfixes_end [OF q2(2) a(2)] by blast
  have "runs (Postfixes (Node (mk_id s) NULL NULL)) q (?T, q3)"
    by (rule runs_postfixes [OF q1(1) assms(2)]) (use q2(1) q3(1) in simp)
  then show "\<exists>q. runs (nt_of 9) p (?T, q) \<and> ready p0 (k + 2) rest q"
    using runs_postfix [OF q(1)] q3(2) by auto
qed

subsection \<open>Calls\<close>

lemma set_sibling_tree [simp]: "set_sibling s (tree_of e t) = tree_of e s" "tree_of e s \<noteq> NULL"
  by (cases e; simp)+

lemma chain_nodes_trees [simp]: "chain_nodes (map (\<lambda>e. tree_of e NULL) es) = trees_of es"
  by (induction es) auto

lemma params_read:
  assumes "\<forall>e \<in> set es. reads p0 0 (lexemes nm e) (tree_of e NULL) (nodes e)"
    and "ready p0 k (concat (map (\<lambda>e. Sign Tcomma # lexemes nm e) es) @ Sign Tright_paren # rest) p"
    and "k + sum_list (map nodes es) \<le> FINSH_NODE_MAX"
  shows "\<exists>q. runs (Params xs) p (chain_nodes (xs @ map (\<lambda>e. tree_of e NULL) es), q)
    \<and> ready p0 (k + sum_list (map nodes es)) (Sign Tright_paren # rest) q"
  using assms
proof (induction es arbitrary: k p xs)
  case Nil
  then obtain q where "next_token p = Some (Tright_paren, q)" "ready p0 k (Sign Tright_paren # rest) (finsh_token_replay q)"
    using ready_next [of p0 k "Sign Tright_paren" rest p] by auto
  then show ?case using runs_params_stop by fastforce
next
  case (Cons e es)
  let ?tail = "concat (map (\<lambda>e. Sign Tcomma # lexemes nm e) es) @ Sign Tright_paren # rest"
  have "stops 0 ?tail" by (cases es) simp_all
  moreover obtain q where q: "next_token p = Some (Tcomma, q)" "ready p0 k (lexemes nm e @ ?tail) q"
    using ready_next [of p0 k "Sign Tcomma" "lexemes nm e @ ?tail" p] Cons.prems(2) by auto
  ultimately obtain q1 where q1: "runs Assign_expr q (tree_of e NULL, q1)" "ready p0 (k + nodes e) ?tail q1"
    using readsD [of p0 0 "lexemes nm e" "tree_of e NULL" "nodes e" k ?tail q] Cons.prems(1,3) by auto
  obtain q2 where "runs (Params (xs @ [tree_of e NULL])) q1
        (chain_nodes ((xs @ [tree_of e NULL]) @ map (\<lambda>e. tree_of e NULL) es), q2)"
      "ready p0 (k + nodes e + sum_list (map nodes es)) (Sign Tright_paren # rest) q2"
    using Cons.IH [OF _ q1(2), of "xs @ [tree_of e NULL]"] Cons.prems(1,3) by auto
  then show ?case using runs_params [OF q(1) q1(1)] by (auto simp: add.assoc)
qed

lemma starts_lexemes: "writable e \<Longrightarrow> starts (binding e) (lexemes nm e)"
proof (induction e)
  case (Bin f a b)
  then obtain l us where "lexemes nm a = l # us" "token_of l \<in> {Tidentifier, Tvalue_int, Tvalue_long,
      Tvalue_char, Tvalue_null, Tand, Tmul, Tbitwise, Tinc, Tdec}"
    by (auto simp: starts_def)
  then show ?case by (auto simp: starts_def)
qed (auto simp: starts_def)

lemma call_read:
  assumes "\<forall>e \<in> set es. reads p0 0 (lexemes nm e) (tree_of e NULL) (nodes e) \<and> writable e" "named p0 nm (Syscall a f)"
  shows "reads p0 9 (lexemes nm (Call a f es)) (tree_of (Call a f es) NULL) (nodes (Call a f es))"
  unfolding reads_def
proof (intro allI impI)
  fix k rest p
  let ?i = "Node (mk_id (Syscall a f)) NULL NULL" and ?T = "tree_of (Call a f es) NULL"
    and ?args = "tl (concat (map (\<lambda>e. Sign Tcomma # lexemes nm e) es))" and ?n = "sum_list (map nodes es)"
  assume k: "k + nodes (Call a f es) \<le> FINSH_NODE_MAX" and st: "stops 9 rest"
    and p: "ready p0 k (lexemes nm (Call a f es) @ rest) p"
  obtain q where q: "runs Primary_expr p (?i, q)" "ready p0 (Suc k) (Sign Tleft_paren # ?args @ Sign Tright_paren # rest) q"
    using name_read [OF assms(2), of k _ p] p k by auto
  obtain q1 where q1: "next_token q = Some (Tleft_paren, q1)" "ready p0 (Suc k) (?args @ Sign Tright_paren # rest) q1"
    using ready_next [OF q(2)] by auto
  have "\<exists>q4. runs (Postfixes ?i) q (?T, q4) \<and> ready p0 (k + nodes (Call a f es)) rest q4"
  proof (cases es)
    case Nil
    then obtain q2 where q2: "next_token q1 = Some (Tright_paren, q2)" "ready p0 (Suc k) rest q2"
      using ready_next [of p0 "Suc k" "Sign Tright_paren" rest q1] q1(2) by auto
    obtain q3 where q3: "make_sys_node SYS_FUNC ?i NULL q2 = (?T, q3)" "ready p0 (Suc (Suc k)) rest q3"
      using make_sys_node_ok [OF q2(2), of ?i SYS_FUNC NULL] k Nil by auto
    obtain q4 where "runs (Postfixes ?T) q3 (?T, q4)" "ready p0 (Suc (Suc k)) rest q4"
      using postfixes_end [OF q3(2) st] by blast
    moreover from this(1) have "runs (Postfixes ?i) q (?T, q4)"
      by (intro runs_call_no_args [OF q1(1) q2(1)]) (use q3(1) in simp)
    ultimately show ?thesis using Nil by auto
  next
    case (Cons e es')
    let ?more = "concat (map (\<lambda>e. Sign Tcomma # lexemes nm e) es') @ Sign Tright_paren # rest"
    have r: "ready p0 (Suc k) (lexemes nm e @ ?more) q1" using q1(2) Cons by simp
    obtain l us where l: "lexemes nm e = l # us" "token_of l \<noteq> Tright_paren"
      using starts_lexemes [of e nm] assms(1) Cons by (auto simp: starts_def)
    obtain q2 where q2: "next_token q1 = Some (token_of l, q2)" "ready p0 (Suc k) (lexemes nm e @ ?more) (finsh_token_replay q2)"
      using ready_next [of p0 "Suc k" l "us @ ?more" q1] r l(1) by auto
    have "stops 0 ?more" by (cases es') simp_all
    then obtain q3 where q3: "runs Assign_expr (finsh_token_replay q2) (tree_of e NULL, q3)"
        "ready p0 (Suc k + nodes e) ?more q3"
      using readsD [OF _ _ _ q2(2)] assms(1) Cons k by fastforce
    obtain q4 where q4: "runs (Params [tree_of e NULL]) q3 (trees_of es, q4)"
        "ready p0 (Suc k + ?n) (Sign Tright_paren # rest) q4"
      using params_read [OF _ q3(2), of "[tree_of e NULL]"] assms(1) Cons k by (auto simp: add.assoc)
    have q5: "runs Param_list (finsh_token_replay q2) (trees_of es, q4)"
      by (rule runs_param_list [OF q3(1) _ q4(1)]) simp
    obtain q6 where q6: "match_token Tright_paren q4 = Some q6" "ready p0 (Suc k + ?n) rest q6"
      using ready_match [OF q4(2)] by blast
    obtain q7 where q7: "make_sys_node SYS_FUNC ?i (trees_of es) q6 = (?T, q7)" "ready p0 (Suc (Suc k + ?n)) rest q7"
      using make_sys_node_ok [OF q6(2), of ?i SYS_FUNC "trees_of es"] k by auto
    obtain q8 where "runs (Postfixes ?T) q7 (?T, q8)" "ready p0 (Suc (Suc k + ?n)) rest q8"
      using postfixes_end [OF q7(2) st] by blast
    moreover from this(1) have "runs (Postfixes ?i) q (?T, q8)"
      by (intro runs_call [OF q1(1) q2(1) l(2) q5 q6(1)]) (use q7(1) in simp)
    ultimately show ?thesis by (auto simp: add.assoc)
  qed
  then show "\<exists>q. runs (nt_of 9) p (?T, q) \<and> ready p0 (k + nodes (Call a f es)) rest q"
    using runs_postfix [OF q(1)] by auto
qed

subsection \<open>Expressions and lines\<close>

lemma reads_assignment:
  assumes "reads p0 1 us T c" "reads p0 0 vs S d" "T \<noteq> NULL" "S \<noteq> NULL"
  shows "reads p0 0 (us @ Sign Tassign # vs) (Node (mk_node SYS_ASSIGN) (set_sibling S T) NULL) (Suc (c + d))"
  unfolding reads_def
proof (intro allI impI)
  fix k rest p
  let ?T = "Node (mk_node SYS_ASSIGN) (set_sibling S T) NULL"
  assume a: "k + Suc (c + d) \<le> FINSH_NODE_MAX" "stops 0 rest" "ready p0 k ((us @ Sign Tassign # vs) @ rest) p"
  have "operators lv Tassign = None" for lv by (cases lv) simp_all
  then have "stops 1 (Sign Tassign # vs @ rest)" by (simp add: stops_def)
  then obtain q where q: "runs (Binary Inclusive_or) p (T, q)" "ready p0 (k + c) (Sign Tassign # vs @ rest) q"
    using readsD [OF assms(1), of k _ p] a(1,3) nt_of_rank(1) [of Inclusive_or] by auto
  obtain q1 where q1: "next_token q = Some (Tassign, q1)" "ready p0 (k + c) (vs @ rest) q1"
    using ready_next [OF q(2)] by auto
  obtain q2 where q2: "runs Assign_expr q1 (S, q2)" "ready p0 (k + c + d) rest q2"
    using readsD [OF assms(2) _ a(2) q1(2)] a(1) by auto
  obtain q3 where "make_sys_node SYS_ASSIGN T S q2 = (?T, q3)" "ready p0 (Suc (k + c + d)) rest q3"
    using make_sys_node_ok [OF q2(2) _ assms(3)] a(1) by fastforce
  then show "\<exists>q. runs (nt_of 0) p (?T, q) \<and> ready p0 (k + Suc (c + d)) rest q"
    using runs_assignment [OF q(1) q1(1) q2(1)] by (auto simp: add.assoc)
qed

lemma operator_of_type: "operators (level_of f) (operator_of f) = Some (bin_type f)"
  "stops (Suc (rank (level_of f))) [Sign (operator_of f)]"
proof -
  show "operators (level_of f) (operator_of f) = Some (bin_type f)" by (cases f) simp_all
  have "operators lv (operator_of f) = None" if "rank (level_of f) < rank lv" for lv
    using that by (cases f; cases lv) simp_all
  moreover have "operator_of f \<notin> {Tinc, Tdec, Tleft_paren}" by (cases f) simp_all
  ultimately show "stops (Suc (rank (level_of f))) [Sign (operator_of f)]" by (simp add: stops_def Suc_le_eq)
qed

lemma binding_bound: "binding e \<le> 10"
proof (cases e)
  case (Bin f a b)
  then show ?thesis by (cases "level_of f") simp_all
qed simp_all

definition parsed :: "finsh_parser \<Rightarrow> (symbol \<Rightarrow> string) \<Rightarrow> expr \<Rightarrow> bool" where
  "parsed p0 nm e \<longleftrightarrow>
     (\<forall>L \<le> binding e. reads p0 L (lexemes nm e) (tree_of e NULL) (nodes e))
     \<and> (\<forall>lv. rank lv \<le> binding e \<longrightarrow> reads_spine p0 lv (lexemes nm e) (tree_of e NULL) (nodes e))"

lemma parsedI:
  assumes "writable e" "reads p0 (binding e) (lexemes nm e) (tree_of e NULL) (nodes e)"
    and "\<And>lv. rank lv = binding e \<Longrightarrow> reads_spine p0 lv (lexemes nm e) (tree_of e NULL) (nodes e)"
  shows "parsed p0 nm e"
proof -
  have all: "reads p0 L (lexemes nm e) (tree_of e NULL) (nodes e)" if "L \<le> binding e" for L
    by (rule reads_below [OF assms(2) binding_bound starts_lexemes [OF assms(1)] that])
  moreover have "reads_spine p0 lv (lexemes nm e) (tree_of e NULL) (nodes e)" if "rank lv \<le> binding e" for lv
    using assms(3) [of lv] spine_of_operand [OF all] that by (cases "rank lv = binding e") auto
  ultimately show ?thesis by (simp add: parsed_def)
qed

lemma rank_values [simp]: "rank lv \<noteq> 0" "rank lv \<noteq> 8" "rank lv \<noteq> 9" "rank lv \<noteq> 10"
  by (cases lv; simp)+

lemma rank_inject: "rank lv = rank lw \<Longrightarrow> lv = lw"
  by (cases lv; cases lw) simp_all

lemma parsed_bin:
  assumes "parsed p0 nm a" "parsed p0 nm b" "writable (Bin f a b)"
  shows "parsed p0 nm (Bin f a b)"
proof -
  let ?lv = "level_of f" and ?e = "Bin f a b"
  have "reads_spine p0 ?lv (lexemes nm a @ Sign (operator_of f) # lexemes nm b)
      (Node (mk_node (bin_type f)) (set_sibling (tree_of b NULL) (tree_of a NULL)) NULL) (Suc (nodes a + nodes b))"
    by (rule spine_step [OF _ _ operator_of_type]) (use assms in \<open>auto simp: parsed_def\<close>)
  then have sp: "reads_spine p0 ?lv (lexemes nm ?e) (tree_of ?e NULL) (nodes ?e)" by simp
  show ?thesis
  proof (rule parsedI [OF assms(3)])
    show "reads p0 (binding ?e) (lexemes nm ?e) (tree_of ?e NULL) (nodes ?e)"
      using reads_of_spine [OF sp] by simp
    show "reads_spine p0 lv (lexemes nm ?e) (tree_of ?e NULL) (nodes ?e)" if "rank lv = binding ?e" for lv
      using rank_inject [of lv ?lv] that sp by simp
  qed
qed

lemma expr_parsed: "writable e \<Longrightarrow> \<forall>s \<in> symbols_of e. named p0 nm s \<Longrightarrow> parsed p0 nm e"
proof (induction e)
  case (Bin f a b)
  then show ?case by (intro parsed_bin) auto
next
  case (AddrOf s)
  then have "reads p0 7 [Name (nm s)] (Node (mk_id s) NULL NULL) 1"
    using reads_below [OF reads_name] by (auto simp: starts_def)
  from reads_unary [OF this, of Tand SYS_GETADDR] show ?case
    by (intro parsedI) (auto simp: numeral_2_eq_2)
next
  case (Pre f s)
  then have "reads p0 7 [Name (nm s)] (Node (mk_id s) NULL NULL) 1"
    using reads_below [OF reads_name] by (auto simp: starts_def)
  from reads_unary [OF this, of Tinc SYS_PREINC] reads_unary [OF this, of Tdec SYS_PREDEC] Pre
  show ?case by (intro parsedI) (auto simp: numeral_2_eq_2)
next
  case (Post f s)
  then show ?case
    using reads_increment [of p0 nm s Tinc SYS_INC] reads_increment [of p0 nm s Tdec SYS_DEC]
    by (intro parsedI) (auto simp: numeral_2_eq_2)
next
  case (Compl a)
  then have "reads p0 7 (lexemes nm a) (tree_of a NULL) (nodes a)" by (auto simp: parsed_def)
  from reads_unary [OF this, of Tbitwise SYS_BITWISE] Compl show ?case by (intro parsedI) auto
next
  case (Deref a)
  then have "reads p0 7 (lexemes nm a) (tree_of a NULL) (nodes a)" by (auto simp: parsed_def)
  from reads_unary [OF this, of Tmul SYS_GETVALUE] Deref show ?case by (intro parsedI) auto
next
  case (Assign s e)
  then have "reads p0 1 [Name (nm s)] (Node (mk_id s) NULL NULL) 1" "reads p0 0 (lexemes nm e) (tree_of e NULL) (nodes e)"
    using reads_below [OF reads_name] by (auto simp: starts_def parsed_def)
  from reads_assignment [OF this] Assign show ?case by (intro parsedI) auto
next
  case (Store a e)
  then have "reads p0 7 (lexemes nm a) (tree_of a NULL) (nodes a)" by (auto simp: parsed_def)
  from reads_unary [OF this, of Tmul SYS_GETVALUE]
  have "reads p0 8 (lexemes nm (Deref a)) (tree_of (Deref a) NULL) (Suc (nodes a))" by simp
  then have "reads p0 1 (lexemes nm (Deref a)) (tree_of (Deref a) NULL) (Suc (nodes a))"
    by (rule reads_below) (auto simp: starts_def)
  moreover have "reads p0 0 (lexemes nm e) (tree_of e NULL) (nodes e)" using Store by (auto simp: parsed_def)
  ultimately show ?case using reads_assignment Store.prems(1) by (intro parsedI) fastforce+
next
  case (Call a f es)
  then have "\<forall>e \<in> set es. reads p0 0 (lexemes nm e) (tree_of e NULL) (nodes e) \<and> writable e"
    by (auto simp: parsed_def)
  from call_read [OF this, of a f] Call.prems show ?case by (intro parsedI) auto
qed (auto intro!: parsedI intro: reads_values [unfolded One_nat_def] reads_name [unfolded One_nat_def])

text \<open>A line is a list of expressions, each with a semicolon behind it.\<close>

definition line_lexemes :: "(symbol \<Rightarrow> string) \<Rightarrow> expr list \<Rightarrow> lexeme list" where
  "line_lexemes nm es = concat (map (\<lambda>e. lexemes nm e @ [Sign Tsemicolon]) es) @ [Sign Teof]"

lemma statement_read:
  assumes "writable e" "\<forall>s \<in> symbols_of e. named p0 nm s" "k + nodes e \<le> FINSH_NODE_MAX"
    and "ready p0 k (lexemes nm e @ Sign Tsemicolon # rest) p"
  shows "\<exists>t q q'. next_token p = Some (t, q) \<and> t \<notin> {Teof, Tbad, Tvoid, Tchar, Tshort, Tint, Tlong, Tunsigned}
    \<and> runs Expr_statement (finsh_token_replay q) (tree_of e NULL, q') \<and> ready p0 (k + nodes e) rest q'"
proof -
  let ?tail = "Sign Tsemicolon # rest"
  obtain l us where l: "lexemes nm e = l # us" "token_of l \<in> {Tidentifier, Tvalue_int, Tvalue_long, Tvalue_char,
      Tvalue_null, Tand, Tmul, Tbitwise, Tinc, Tdec}"
    using starts_lexemes [OF assms(1), of nm] by (auto simp: starts_def)
  obtain q where q: "next_token p = Some (token_of l, q)" "ready p0 k (lexemes nm e @ ?tail) (finsh_token_replay q)"
    using ready_next [of p0 k l "us @ ?tail" p] assms(4) l(1) by auto
  obtain q1 where q1: "next_token (finsh_token_replay q) = Some (token_of l, q1)"
      "ready p0 k (lexemes nm e @ ?tail) (finsh_token_replay q1)"
    using ready_next [of p0 k l "us @ ?tail"] q(2) l(1) by auto
  have "reads p0 0 (lexemes nm e) (tree_of e NULL) (nodes e)"
    using expr_parsed [OF assms(1,2)] by (auto simp: parsed_def)
  then obtain q2 where q2: "runs Assign_expr (finsh_token_replay q1) (tree_of e NULL, q2)" "ready p0 (k + nodes e) ?tail q2"
    using readsD [OF _ assms(3) _ q1(2)] by fastforce
  obtain q3 where q3: "match_token Tsemicolon q2 = Some q3" "ready p0 (k + nodes e) rest q3"
    using ready_match [OF q2(2)] by blast
  have "runs Expr_statement (finsh_token_replay q) (tree_of e NULL, q3)"
    using runs_expr_statement [OF q1(1) _ q2(1) q3(1)] l(2) by auto
  moreover have "token_of l \<notin> {Teof, Tbad, Tvoid, Tchar, Tshort, Tint, Tlong, Tunsigned}" using l(2) by auto
  ultimately show ?thesis using q(1) q3(2) by blast
qed

lemma statements_read:
  assumes "\<forall>e \<in> set es. writable e \<and> (\<forall>s \<in> symbols_of e. named p0 nm s)"
    and "k + sum_list (map nodes es) \<le> FINSH_NODE_MAX" "ready p0 k (line_lexemes nm es) p"
  shows "\<exists>t q q'. next_token p = Some (t, q) \<and>
    runs (Statements xs (tree_of e NULL) t) q (foldr (\<lambda>x s. set_sibling s x) (xs @ [tree_of e NULL]) (trees_of es), q')
    \<and> ready p0 (k + sum_list (map nodes es)) [] q'"
  using assms
proof (induction es arbitrary: k p xs e)
  case Nil
  then obtain q where "next_token p = Some (Teof, q)" "ready p0 k [] q"
    using ready_next [of p0 k "Sign Teof" "[]" p] by (auto simp: line_lexemes_def)
  then show ?case using runs_statements_end [of Teof xs "tree_of e NULL" q] by fastforce
next
  case (Cons d es)
  obtain t q q1 where q: "next_token p = Some (t, q)" "t \<notin> {Teof, Tbad, Tvoid, Tchar, Tshort, Tint, Tlong, Tunsigned}"
      "runs Expr_statement (finsh_token_replay q) (tree_of d NULL, q1)" "ready p0 (k + nodes d) (line_lexemes nm es) q1"
    using statement_read [of d p0 nm k "line_lexemes nm es" p] Cons.prems by (auto simp: line_lexemes_def)
  obtain u q2 q3 where q2: "next_token q1 = Some (u, q2)" "runs (Statements (xs @ [tree_of e NULL]) (tree_of d NULL) u) q2
        (foldr (\<lambda>x s. set_sibling s x) ((xs @ [tree_of e NULL]) @ [tree_of d NULL]) (trees_of es), q3)"
      "ready p0 (k + nodes d + sum_list (map nodes es)) [] q3"
    using Cons.IH [OF _ _ q(4), of "xs @ [tree_of e NULL]" d] Cons.prems(1,2) by auto
  have "runs (Statements xs (tree_of e NULL) t) q (foldr (\<lambda>x s. set_sibling s x) (xs @ [tree_of e NULL]) (trees_of (d # es)), q3)"
    by (rule runs_statements [OF q(2,3) _ q2(1)]) (use q2(2) in simp_all)
  then show ?case using q(1) q2(3) by (auto simp: add.assoc)
qed

lemma line_parsed:
  assumes "es \<noteq> []" "\<forall>e \<in> set es. writable e \<and> (\<forall>s \<in> symbols_of e. named p0 nm s)"
    and "sum_list (map nodes es) \<le> FINSH_NODE_MAX" "ready p0 0 (line_lexemes nm es) p"
  shows "\<exists>t q q'. next_token p = Some (t, q) \<and> runs (Statements [] NULL t) q (trees_of es, q')
    \<and> ready p0 (sum_list (map nodes es)) [] q'"
proof -
  obtain e es' where es: "es = e # es'" using assms(1) by (cases es) auto
  obtain t q q1 where q: "next_token p = Some (t, q)" "t \<notin> {Teof, Tbad, Tvoid, Tchar, Tshort, Tint, Tlong, Tunsigned}"
      "runs Expr_statement (finsh_token_replay q) (tree_of e NULL, q1)" "ready p0 (0 + nodes e) (line_lexemes nm es') q1"
    using statement_read [of e p0 nm 0 "line_lexemes nm es'" p] assms es by (auto simp: line_lexemes_def)
  obtain u q2 q3 where q2: "next_token q1 = Some (u, q2)" "runs (Statements [] (tree_of e NULL) u) q2
        (foldr (\<lambda>x s. set_sibling s x) ([] @ [tree_of e NULL]) (trees_of es'), q3)"
      "ready p0 (0 + nodes e + sum_list (map nodes es')) [] q3"
    using statements_read [OF _ _ q(4), of "[]" e] assms(2,3) es by auto
  have "runs (Statements [] NULL t) q (trees_of es, q3)"
    by (rule runs_statements [OF q(2,3) _ q2(1)]) (use q2(2) es in simp_all)
  then show ?thesis using q(1) q2(3) es by auto
qed

end
