(* ===== verification/RT_Finsh_Correct.thy ===== *)
theory RT_Finsh_Correct
  imports RT_Finsh_Eval
begin

text \<open>
  Running the code of an expression: every instruction as a step of the machine, the code of an
  expression as a run that leaves the value on the stack, and from there the correctness of
  \<open>finsh_compiler_run\<close> followed by \<open>finsh_vm_run\<close>.
\<close>

section \<open>Code in the text segment\<close>

definition code_at :: "u8 list \<Rightarrow> finsh_vm \<Rightarrow> bool" where
  "code_at cs v \<longleftrightarrow> length (vm_text v) = FINSH_TEXT_MAX \<and> vm_pc v + length cs \<le> FINSH_TEXT_MAX
     \<and> (\<forall>i < length cs. vm_text v ! (vm_pc v + i) = cs ! i)"

text \<open>The machine after \<open>n\<close> bytes of code.\<close>

definition after :: "finsh_vm \<Rightarrow> nat \<Rightarrow> u32 list \<Rightarrow> nat \<Rightarrow> memory \<Rightarrow> finsh_vm" where
  "after v n st sp m = v\<lparr>vm_pc := vm_pc v + n, vm_stack := st, vm_sp := sp, vm_mem := m\<rparr>"

lemma after_simps [simp]:
  "vm_pc (after v n st sp m) = vm_pc v + n" "vm_stack (after v n st sp m) = st"
  "vm_sp (after v n st sp m) = sp" "vm_mem (after v n st sp m) = m"
  "vm_text (after v n st sp m) = vm_text v"
  "after (after v n st sp m) n' st' sp' m' = after v (n + n') st' sp' m'"
  by (simp_all add: after_def)

lemma code_at_append:
  "code_at (as @ bs) v \<longleftrightarrow> code_at as v \<and> code_at bs (after v (length as) st sp m)"
proof
  assume *: "code_at (as @ bs) v"
  have "vm_text v ! (vm_pc v + length as + i) = bs ! i" if "i < length bs" for i
    using * that unfolding code_at_def by (auto dest!: spec [of _ "length as + i"] simp: add.assoc)
  moreover have "vm_text v ! (vm_pc v + i) = as ! i" if "i < length as" for i
    using * that by (simp add: code_at_def nth_append)
  ultimately show "code_at as v \<and> code_at bs (after v (length as) st sp m)"
    using * by (simp add: code_at_def)
next
  assume *: "code_at as v \<and> code_at bs (after v (length as) st sp m)"
  have "vm_text v ! (vm_pc v + i) = (as @ bs) ! i" if "i < length as + length bs" for i
  proof (cases "i < length as")
    case True
    then show ?thesis using * by (simp add: code_at_def nth_append)
  next
    case False
    then have "i - length as < length bs" "vm_pc v + length as + (i - length as) = vm_pc v + i"
      using that by simp_all
    then show ?thesis using * False by (auto simp: code_at_def nth_append dest!: spec [of _ "i - length as"])
  qed
  then show "code_at (as @ bs) v" using * by (simp add: code_at_def)
qed

lemma code_at_text:
  "code_at cs v \<Longrightarrow> i < length cs \<Longrightarrow> text_byte i v = Some (cs ! i)"
  by (simp add: code_at_def text_byte_def)

lemma code_at_skip:
  assumes "code_at (c # cs) v" "i < length cs"
  shows "text_byte i (skip 1 v) = Some (cs ! i)"
proof -
  have "vm_text v ! (vm_pc v + Suc i) = (c # cs) ! Suc i"
    using assms unfolding code_at_def by (metis Suc_less_eq length_Cons)
  then show ?thesis using assms by (simp add: text_byte_def skip_def code_at_def)
qed

lemma code_at_cong: "vm_pc v' = vm_pc v \<Longrightarrow> vm_text v' = vm_text v \<Longrightarrow> code_at cs v' = code_at cs v"
  by (simp add: code_at_def)

section \<open>Values in memory and in slots\<close>

lemma join16: "ucast (ucast w :: u8) OR push_bit 8 (ucast (ucast (drop_bit 8 w) :: u8)) = (w :: u16)"
  by (rule bit_word_eqI) (auto simp: bit_simps)

lemma join32:
  "ucast (ucast w :: u8) OR push_bit 8 (ucast (ucast (drop_bit 8 w) :: u8))
     OR push_bit 16 (ucast (ucast (drop_bit 16 w) :: u8))
     OR push_bit 24 (ucast (ucast (drop_bit 24 w) :: u8)) = (w :: u32)"
proof (rule bit_word_eqI)
  fix n assume "n < LENGTH(32)"
  then consider "n < 8" | "8 \<le> n \<and> n < 16" | "16 \<le> n \<and> n < 24" | "24 \<le> n \<and> n < 32" by fastforce
  then show "bit (ucast (ucast w :: u8) OR push_bit 8 (ucast (ucast (drop_bit 8 w) :: u8))
     OR push_bit 16 (ucast (ucast (drop_bit 16 w) :: u8))
     OR push_bit 24 (ucast (ucast (drop_bit 24 w) :: u8)) :: u32) n = bit w n"
    by cases (auto simp: bit_simps)
qed

lemma get32:
  assumes "code_at (c # bytes32 x) v"
  shows "FINSH_GET32 (skip 1 v) = Some x"
  using code_at_skip [OF assms, of 0] code_at_skip [OF assms, of 1] code_at_skip [OF assms, of 2]
    code_at_skip [OF assms, of 3]
  by (simp add: FINSH_GET32_def bytes32_def join32 numeral_2_eq_2 numeral_3_eq_3)

lemma get16:
  assumes "code_at (c # bytes16 x) v"
  shows "FINSH_GET16 (skip 1 v) = Some x"
  using code_at_skip [OF assms, of 0] code_at_skip [OF assms, of 1]
  by (simp add: FINSH_GET16_def bytes16_def join16)

lemma low_char [simp]: "low 1 (set_char_value c s) = ucast c"
  by (rule bit_word_eqI) (auto simp: low_def set_char_value_def bit_simps dest: bit_imp_le_length)

declare low_char [simplified One_nat_def, simp]

lemma low_char_value: "low 1 s = ucast (char_value s)"
  by (rule bit_word_eqI) (auto simp: low_def char_value_def bit_simps)

lemma low_short [simp]: "low 2 (set_short_value h s) = ucast h"
  by (rule bit_word_eqI) (auto simp: low_def set_short_value_def bit_simps dest: bit_imp_le_length)

lemma low_short_value: "low 2 s = ucast (short_value s)"
  by (rule bit_word_eqI) (auto simp: low_def short_value_def bit_simps)

lemma low_long [simp]: "low 3 s = s"
  by (simp add: low_def)

lemma width_cases [consumes 1]:
  assumes "w \<in> {1, 2, 3}"
  obtains (byte) "w = 1" | (short) "w = 2" | (long) "w = (3::nat)"
  using assms by auto

section \<open>Instructions\<close>

lemma step_op:
  assumes "code_at (opc # cs) v" "unat opc < 48"
  shows "vm_step sys v = (op_table sys ! unat opc) (skip 1 v)"
  using code_at_text [OF assms(1), of 0] assms(2) by (simp add: vm_step_def)

lemma after_eq:
  "v' = after v n st sp m \<longleftrightarrow> vm_pc v' = vm_pc v + n \<and> vm_stack v' = st \<and> vm_sp v' = sp \<and> vm_mem v' = m
     \<and> vm_text v' = vm_text v"
  by (auto simp: after_def intro: finsh_vm.equality)

lemma skip_fields [simp]:
  "vm_pc (skip n v) = vm_pc v + n" "vm_stack (skip n v) = vm_stack v" "vm_sp (skip n v) = vm_sp v"
  "vm_mem (skip n v) = vm_mem v" "vm_text (skip n v) = vm_text v"
  by (simp_all add: skip_def)

lemma set_slot_fields [simp]:
  "vm_pc (set_slot n x v) = vm_pc v" "vm_stack (set_slot n x v) = (vm_stack v)[vm_sp v - n := x]"
  "vm_sp (set_slot n x v) = vm_sp v" "vm_mem (set_slot n x v) = vm_mem v"
  "vm_text (set_slot n x v) = vm_text v"
  by (simp_all add: set_slot_def)

lemma sp_up: "move_sp 1 v = Some (v\<lparr>vm_sp := Suc (vm_sp v)\<rparr>)"
  by (simp add: move_sp_def)

lemma sp_down: "vm_sp v = Suc n \<Longrightarrow> move_sp (- 1) v = Some (v\<lparr>vm_sp := n\<rparr>)"
  by (simp add: move_sp_def)

text \<open>The entries of the table for the opcodes of the compiler.\<close>

lemma table_bin:
  "w \<in> {1, 2, 3} \<Longrightarrow> unat (opw (bin_op f) w) < 48"
  "op_table sys ! unat (opw (bin_op f) 1) = OP_BIN_BYTE f"
  "op_table sys ! unat (opw (bin_op f) 2) = OP_BIN_WORD f"
  "op_table sys ! unat (opw (bin_op f) 3) = OP_BIN_DWORD f"
  by (cases f; auto simp: opw_def op_table_def)+

lemma table_typed:
  "w \<in> {1, 2, 3} \<Longrightarrow> unat (opw 0x19 w) < 48" "w \<in> {1, 2, 3} \<Longrightarrow> unat (opw OP_LD w) < 48"
  "w \<in> {1, 2, 3} \<Longrightarrow> unat (opw OP_LD_VALUE w) < 48" "w \<in> {1, 2, 3} \<Longrightarrow> unat (opw OP_ST w) < 48"
  "w \<in> {1, 2, 3} \<Longrightarrow> unat (opw OP_LD_VALUE_STACK w) < 48"
  by (auto simp: opw_def)

lemma table_entries:
  "op_table sys ! unat (opw 0x19 1) = OP_bw_byte" "op_table sys ! unat (opw 0x19 2) = OP_bw_word"
  "op_table sys ! unat (opw 0x19 3) = OP_bw_dword"
  "op_table sys ! unat (opw OP_LD 1) = OP_ld_byte" "op_table sys ! unat (opw OP_LD 2) = OP_ld_word"
  "op_table sys ! unat (opw OP_LD 3) = OP_ld_dword"
  "op_table sys ! unat (opw OP_LD_VALUE 1) = OP_ld_value_byte"
  "op_table sys ! unat (opw OP_LD_VALUE 2) = OP_ld_value_word"
  "op_table sys ! unat (opw OP_LD_VALUE 3) = OP_ld_value_dword"
  "op_table sys ! unat (opw OP_ST 1) = OP_st_byte" "op_table sys ! unat (opw OP_ST 2) = OP_st_word"
  "op_table sys ! unat (opw OP_ST 3) = OP_st_dword"
  "op_table sys ! unat (opw OP_LD_VALUE_STACK 1) = OP_ld_value_byte_stack"
  "op_table sys ! unat (opw OP_LD_VALUE_STACK 2) = OP_ld_value_word_stack"
  "op_table sys ! unat (opw OP_LD_VALUE_STACK 3) = OP_ld_value_dword_stack"
  "op_table sys ! 34 = OP_ld_byte" "op_table sys ! 36 = OP_ld_dword"
  "op_table sys ! 43 = OP_pop" "op_table sys ! 44 = OP_call sys"
  by (simp_all add: opw_def op_table_def)

text \<open>What each of them does, on a stack of full size.\<close>

lemma step_ld_dword:
  assumes "code_at (ld_dword x) v" "vm_sp v < length (vm_stack v)"
  shows "vm_step sys v = Some (after v 5 ((vm_stack v)[vm_sp v := x]) (Suc (vm_sp v)) (vm_mem v))"
proof -
  have c: "code_at (FINSH_OP_LD_DWORD # bytes32 x) v" using assms(1) by (simp add: ld_dword_def)
  show ?thesis
    using step_op [OF c, of sys] get32 [OF c] assms(2)
    by (simp add: table_entries OP_ld_dword_def slot_def sp_up after_eq)
qed

lemma step_ld_char:
  assumes "code_at [FINSH_OP_LD_BYTE, x] v" "vm_sp v < length (vm_stack v)"
  shows "\<exists>s. low 1 s = ucast x
     \<and> vm_step sys v = Some (after v 2 ((vm_stack v)[vm_sp v := s]) (Suc (vm_sp v)) (vm_mem v))"
  using step_op [OF assms(1), of sys] code_at_skip [OF assms(1), of 0] assms(2)
  by (intro exI [of _ "set_char_value x (vm_stack v ! vm_sp v)"])
    (simp add: table_entries OP_ld_byte_def slot_def sp_up after_eq)

lemma step_ld_value:
  assumes "code_at (ld_value w a) v" "w \<in> {1, 2, 3}" "vm_sp v < length (vm_stack v)"
    and "load w a (vm_mem v) = Some x"
  shows "\<exists>s. low w s = x
     \<and> vm_step sys v = Some (after v 5 ((vm_stack v)[vm_sp v := s]) (Suc (vm_sp v)) (vm_mem v))"
proof -
  have c: "code_at (opw OP_LD_VALUE w # bytes32 a) v" using assms(1) by (simp add: ld_value_def)
  note step = step_op [OF c table_typed(3) [OF assms(2)], of sys] get32 [OF c]
  show ?thesis
    using assms(2)
  proof (cases rule: width_cases)
    case byte
    then obtain h where h: "load_byte a (vm_mem v) = Some h" "x = ucast h"
      using assms(4) by (auto simp: load_def)
    then show ?thesis
      using step byte assms(3)
      by (intro exI [of _ "set_char_value h (vm_stack v ! vm_sp v)"])
        (simp add: table_entries [simplified] OP_ld_value_byte_def slot_def sp_up after_eq)
  next
    case short
    then obtain h where h: "load_word a (vm_mem v) = Some h" "x = ucast h"
      using assms(4) by (auto simp: load_def)
    then show ?thesis
      using step short assms(3)
      by (intro exI [of _ "set_short_value h (vm_stack v ! vm_sp v)"])
        (simp add: table_entries OP_ld_value_word_def slot_def sp_up after_eq)
  next
    case long
    then have "load_dword a (vm_mem v) = Some x" using assms(4) by (auto simp: load_def)
    then show ?thesis
      using step long assms(3)
      by (intro exI [of _ x]) (simp add: table_entries OP_ld_value_dword_def slot_def sp_up after_eq)
  qed
qed

lemma step_ld_one:
  assumes "code_at (ld_one w) v" "w \<in> {1, 2, 3}" "vm_sp v < length (vm_stack v)"
  shows "\<exists>s. low w s = 1 \<and> vm_step sys v
     = Some (after v (length (ld_one w)) ((vm_stack v)[vm_sp v := s]) (Suc (vm_sp v)) (vm_mem v))"
  using assms(2)
proof (cases rule: width_cases)
  case byte
  then have c: "code_at [opw OP_LD 1, 1] v" using assms(1) by (simp add: ld_one_def)
  show ?thesis
    using step_op [OF c table_typed(2), of sys] code_at_skip [OF c, of 0] byte assms(3)
    by (intro exI [of _ "set_char_value 1 (vm_stack v ! vm_sp v)"])
      (simp add: table_entries [simplified] OP_ld_byte_def slot_def sp_up after_eq ld_one_def)
next
  case short
  then have c: "code_at (opw OP_LD 2 # bytes16 1) v" using assms(1) by (simp add: ld_one_def)
  show ?thesis
    using step_op [OF c table_typed(2), of sys] get16 [OF c] short assms(3)
    by (intro exI [of _ "set_short_value 1 (vm_stack v ! vm_sp v)"])
      (simp add: table_entries OP_ld_word_def slot_def sp_up after_eq ld_one_def bytes16_def)
next
  case long
  then have c: "code_at (opw OP_LD 3 # bytes32 1) v" using assms(1) by (simp add: ld_one_def)
  show ?thesis
    using step_op [OF c table_typed(2), of sys] get32 [OF c] long assms(3)
    by (intro exI [of _ 1])
      (simp add: table_entries OP_ld_dword_def slot_def sp_up after_eq ld_one_def bytes32_def)
qed

text \<open>The two upper slots of the stack.\<close>

lemma step_bin:
  assumes "code_at [opw (bin_op f) w] v" "w \<in> {1, 2, 3}" "vm_sp v = Suc (Suc n)"
    and "Suc n < length (vm_stack v)"
    and "low w (vm_stack v ! n) = x" "low w (vm_stack v ! Suc n) = y" "bin w f x y = Some z"
  shows "\<exists>s. low w s = z \<and> vm_step sys v = Some (after v 1 ((vm_stack v)[n := s]) (Suc n) (vm_mem v))"
proof -
  note step = step_op [OF assms(1) table_bin(1) [OF assms(2)], of sys]
  show ?thesis
    using assms(2)
  proof (cases rule: width_cases)
    case byte
    then obtain r where "bin_char f (char_value (vm_stack v ! n)) (char_value (vm_stack v ! Suc n)) = Some r" "z = ucast r"
      using assms(5-7) by (auto simp: bin_def low_char_value [simplified])
    then show ?thesis
      using step byte assms(3,4)
      by (intro exI [of _ "set_char_value r (vm_stack v ! n)"])
        (simp add: table_bin [simplified] OP_BIN_BYTE_def slot_def sp_down after_eq)
  next
    case short
    then obtain r where "bin_short f (short_value (vm_stack v ! n)) (short_value (vm_stack v ! Suc n)) = Some r" "z = ucast r"
      using assms(5-7) by (auto simp: bin_def low_short_value)
    then show ?thesis
      using step short assms(3,4)
      by (intro exI [of _ "set_short_value r (vm_stack v ! n)"])
        (simp add: table_bin OP_BIN_WORD_def slot_def sp_down after_eq)
  next
    case long
    then have "bin_long f (vm_stack v ! n) (vm_stack v ! Suc n) = Some z" using assms(5-7) by (simp add: bin_def)
    then show ?thesis
      using step long assms(3,4)
      by (intro exI [of _ z]) (simp add: table_bin OP_BIN_DWORD_def slot_def sp_down after_eq)
  qed
qed

lemma step_bw:
  assumes "code_at [opw 0x19 w] v" "w \<in> {1, 2, 3}" "vm_sp v = Suc n" "n < length (vm_stack v)"
    and "low w (vm_stack v ! n) = x"
  shows "\<exists>s. low w s = low w (NOT x)
     \<and> vm_step sys v = Some (after v 1 ((vm_stack v)[n := s]) (Suc n) (vm_mem v))"
proof -
  note step = step_op [OF assms(1) table_typed(1) [OF assms(2)], of sys]
  show ?thesis
    using assms(2)
  proof (cases rule: width_cases)
    case byte
    have "ucast (NOT (char_value (vm_stack v ! n))) = low 1 (NOT x)"
      using assms(5) byte unfolding low_char_value
      by (intro bit_word_eqI) (auto simp: low_def bit_simps char_value_def dest: bit_imp_le_length)
    then show ?thesis
      using step byte assms(3,4)
      by (intro exI [of _ "set_char_value (NOT (char_value (vm_stack v ! n))) (vm_stack v ! n)"])
        (simp add: table_entries [simplified] OP_bw_byte_def slot_def after_eq)
  next
    case short
    have "ucast (NOT (short_value (vm_stack v ! n))) = low 2 (NOT x)"
      using assms(5) short unfolding low_short_value
      by (intro bit_word_eqI) (auto simp: low_def bit_simps short_value_def dest: bit_imp_le_length)
    then show ?thesis
      using step short assms(3,4)
      by (intro exI [of _ "set_short_value (NOT (short_value (vm_stack v ! n))) (vm_stack v ! n)"])
        (simp add: table_entries OP_bw_word_def slot_def after_eq)
  next
    case long
    then show ?thesis
      using step assms(3-5)
      by (intro exI [of _ "NOT x"]) (simp add: table_entries OP_bw_dword_def slot_def after_eq)
  qed
qed

lemma step_ld_stack:
  assumes "code_at [opw OP_LD_VALUE_STACK w] v" "w \<in> {1, 2, 3}" "vm_sp v = Suc n" "n < length (vm_stack v)"
    and "load w (vm_stack v ! n) (vm_mem v) = Some x"
  shows "\<exists>s. low w s = x \<and> vm_step sys v = Some (after v 1 ((vm_stack v)[n := s]) (Suc n) (vm_mem v))"
proof -
  note step = step_op [OF assms(1) table_typed(5) [OF assms(2)], of sys]
  show ?thesis
    using assms(2)
  proof (cases rule: width_cases)
    case byte
    then obtain h where "load_byte (vm_stack v ! n) (vm_mem v) = Some h" "x = ucast h"
      using assms(5) by (auto simp: load_def)
    then show ?thesis
      using step byte assms(3,4)
      by (intro exI [of _ "set_char_value h (vm_stack v ! n)"])
        (simp add: table_entries [simplified] OP_ld_value_byte_stack_def slot_def after_eq)
  next
    case short
    then obtain h where "load_word (vm_stack v ! n) (vm_mem v) = Some h" "x = ucast h"
      using assms(5) by (auto simp: load_def)
    then show ?thesis
      using step short assms(3,4)
      by (intro exI [of _ "set_short_value h (vm_stack v ! n)"])
        (simp add: table_entries OP_ld_value_word_stack_def slot_def after_eq)
  next
    case long
    then have "load_dword (vm_stack v ! n) (vm_mem v) = Some x" using assms(5) by (simp add: load_def)
    then show ?thesis
      using step long assms(3,4)
      by (intro exI [of _ x]) (simp add: table_entries OP_ld_value_dword_stack_def slot_def after_eq)
  qed
qed

lemma step_st:
  assumes "code_at [opw OP_ST w] v" "w \<in> {1, 2, 3}" "vm_sp v = Suc (Suc n)" "Suc n < length (vm_stack v)"
    and "low w (vm_stack v ! Suc n) = x" "store w (vm_stack v ! n) x (vm_mem v) = Some m'"
  shows "vm_step sys v = Some (after v 1 (vm_stack v) (Suc n) m')"
proof -
  note step = step_op [OF assms(1) table_typed(4) [OF assms(2)], of sys]
  show ?thesis
    using assms(2)
  proof (cases rule: width_cases)
    case byte
    then have "store_byte (vm_stack v ! n) (char_value (vm_stack v ! Suc n)) (vm_mem v) = Some m'"
      using assms(5,6) by (auto simp: store_def low_char_value [simplified])
    then show ?thesis
      using step byte assms(3,4)
      by (simp add: table_entries [simplified] OP_st_byte_def slot_def sp_down after_eq)
  next
    case short
    then have "store_word (vm_stack v ! n) (short_value (vm_stack v ! Suc n)) (vm_mem v) = Some m'"
      using assms(5,6) by (auto simp: store_def low_short_value)
    then show ?thesis
      using step short assms(3,4)
      by (simp add: table_entries OP_st_word_def slot_def sp_down after_eq)
  next
    case long
    then have "store_dword (vm_stack v ! n) (vm_stack v ! Suc n) (vm_mem v) = Some m'"
      using assms(5,6) by (simp add: store_def)
    then show ?thesis
      using step long assms(3,4)
      by (simp add: table_entries OP_st_dword_def slot_def sp_down after_eq)
  qed
qed

lemma step_pop:
  assumes "code_at [FINSH_OP_POP] v" "vm_sp v = Suc n"
  shows "vm_step sys v = Some (after v 1 (vm_stack v) n (vm_mem v))"
  using step_op [OF assms(1), of sys] assms(2) by (simp add: table_entries OP_pop_def sp_down after_eq)

lemma take_parameters_ok:
  assumes "vm_sp v = n + length xs" "n + length xs < length (vm_stack v)"
    and "\<forall>i < length xs. vm_stack v ! (Suc n + i) = xs ! i"
  shows "take_parameters (length xs) ps v = Some (xs @ ps, v\<lparr>vm_sp := n\<rparr>)"
  using assms
proof (induction xs arbitrary: v ps rule: rev_induct)
  case Nil
  then show ?case by simp
next
  case (snoc x xs)
  have "slot 0 v = Some x"
    using snoc.prems(1,2) spec [OF snoc.prems(3), of "length xs"] by (simp add: slot_def nth_append)
  moreover have "move_sp (- 1) v = Some (v\<lparr>vm_sp := n + length xs\<rparr>)"
    using snoc.prems(1) by (simp add: sp_down)
  moreover have "take_parameters (length xs) (x # ps) (v\<lparr>vm_sp := n + length xs\<rparr>)
      = Some (xs @ x # ps, v\<lparr>vm_sp := n\<rparr>)"
    by (subst snoc.IH) (use snoc.prems(2,3) in \<open>auto simp: nth_append dest: spec\<close>)
  ultimately show ?case by simp
qed

lemma step_call:
  assumes "code_at [FINSH_OP_SYSCALL, of_nat (length xs)] v" "length xs \<le> 16"
    and "vm_sp v = Suc n + length xs" "n + length xs < length (vm_stack v)"
    and "\<forall>i < length xs. vm_stack v ! (Suc n + i) = xs ! i"
    and "sys (vm_stack v ! n) (if xs = [] then [0] else xs) (vm_mem v) = Some (r, m')"
  shows "vm_step sys v = Some (after v 2 ((vm_stack v)[n := r]) (Suc n) m')"
proof -
  have len: "unat (of_nat (length xs) :: u8) = length xs" using assms(2) by (simp add: unsigned_of_nat take_bit_nat_eq_self)
  have "move_sp (- 1) (skip 1 (skip 1 v)) = Some ((skip 1 (skip 1 v))\<lparr>vm_sp := n + length xs\<rparr>)"
    by (rule sp_down) (use assms(3) in simp)
  moreover have "take_parameters (length xs) [] ((skip 1 (skip 1 v))\<lparr>vm_sp := n + length xs\<rparr>)
      = Some (xs, (skip 1 (skip 1 v))\<lparr>vm_sp := n\<rparr>)"
    using take_parameters_ok [of "(skip 1 (skip 1 v))\<lparr>vm_sp := n + length xs\<rparr>" n xs "[]"] assms(4,5) by simp
  moreover have "slot 0 ((skip 1 (skip 1 v))\<lparr>vm_sp := n\<rparr>) = Some (vm_stack v ! n)"
    using assms(4) by (simp add: slot_def)
  ultimately show ?thesis
    using step_op [OF assms(1), of sys] code_at_skip [OF assms(1), of 0] assms(2,6) len
    by (auto simp: table_entries OP_call_def Let_def sp_up after_eq split: if_splits)
qed

section \<open>Memory\<close>

lemma load_store:
  assumes "store w a x m = Some m'" "w \<in> {1, 2, 3}"
  shows "load w a m' = Some (low w x)"
  using assms(2)
proof (cases rule: width_cases)
  case byte
  then show ?thesis
    using assms(1) by (auto simp: store_def load_def store_byte_def load_byte_def low_char_value [simplified] char_value_def)
next
  case short
  then show ?thesis
    using assms(1) by (auto simp: store_def load_def store_word_def load_word_def low_short_value short_value_def join16)
next
  case long
  then show ?thesis
    using assms(1) by (auto simp: store_def load_def store_dword_def load_dword_def join32)
qed

lemma store_dom: "store w a x m = Some m' \<Longrightarrow> dom m' = dom m"
  by (auto simp: store_def store_byte_def store_word_def store_dword_def split: if_splits)

text \<open>The values of the variables are in memory, and aligned; the functions that are called take no
  memory away.\<close>

definition vars_ok :: "finsh_vars \<Rightarrow> memory \<Rightarrow> bool" where
  "vars_ok V m \<longleftrightarrow> (\<forall>i < length (global_variable V). let a = var_value (var_at V i) in
     a AND 3 = 0 \<and> {a, a + 1, a + 2, a + 3} \<subseteq> dom m)"

definition keeps_memory :: "syscalls \<Rightarrow> bool" where
  "keeps_memory sys \<longleftrightarrow> (\<forall>f ps m r m'. sys f ps m = Some (r, m') \<longrightarrow> dom m \<subseteq> dom m')"

lemma vars_ok_mono: "vars_ok V m \<Longrightarrow> dom m \<subseteq> dom m' \<Longrightarrow> vars_ok V m'"
  unfolding vars_ok_def Let_def by blast

lemma eval_dom:
  assumes "keeps_memory sys"
  shows "eval sys V e m = Some (x, m') \<Longrightarrow> dom m \<subseteq> dom m'"
    and "eval_list sys V es m = Some (xs, m') \<Longrightarrow> dom m \<subseteq> dom m'"
proof (induction V e and V es arbitrary: m x m' and m xs m' rule: code_of_codes_of.induct)
  case (7 V f a b)
  then obtain x1 m1 x2 where "eval sys V a m = Some (x1, m1)" "eval sys V b m1 = Some (x2, m')"
    by (auto simp: bind_eq_Some_conv)
  then show ?case using subset_trans [OF 7(1) 7(2)] by blast
next
  case (8 V a)
  then obtain y where "eval sys V a m = Some (y, m')" by (auto simp: bind_eq_Some_conv)
  then show ?case by (rule 8(1))
next
  case (9 V a)
  then obtain y where "eval sys V a m = Some (y, m')" by (auto simp: bind_eq_Some_conv)
  then show ?case by (rule 9(1))
next
  case (10 V s e)
  then obtain m1 where "eval sys V e m = Some (x, m1)" "dom m' = dom m1"
    by (auto simp: bind_eq_Some_conv dest: store_dom)
  then show ?case using 10(1) by simp
next
  case (11 V p e)
  then obtain a m1 m2 where "eval sys V p m = Some (a, m1)" "eval sys V e m1 = Some (x, m2)" "dom m' = dom m2"
    by (auto simp: bind_eq_Some_conv dest: store_dom)
  then show ?case using subset_trans [OF 11(1) 11(2)] by metis
next
  case (14 V p f es)
  then obtain xs m1 where "eval_list sys V es m = Some (xs, m1)"
      "sys f (if xs = [] then [0] else xs) m1 = Some (x, m')"
    by (auto simp: bind_eq_Some_conv)
  moreover have "dom m1 \<subseteq> dom m'" using calculation(2) assms unfolding keeps_memory_def by blast
  ultimately show ?case using 14(1) by (blast intro: subset_trans)
next
  case (16 V e es)
  then obtain y ys m1 where "eval sys V e m = Some (y, m1)" "eval_list sys V es m1 = Some (ys, m')"
    by (auto simp: bind_eq_Some_conv)
  then show ?case using subset_trans [OF 16(1) 16(2)] by blast
qed (auto simp: bind_eq_Some_conv dest: store_dom)

section \<open>Running the code\<close>

definition reach :: "syscalls \<Rightarrow> finsh_vm \<Rightarrow> finsh_vm \<Rightarrow> bool" where
  "reach sys = rtranclp (\<lambda>v v'. vm_step sys v = Some v')"

lemma reach_refl [simp]: "reach sys v v"
  by (simp add: reach_def)

lemma reach_trans: "reach sys v v' \<Longrightarrow> reach sys v' v'' \<Longrightarrow> reach sys v v''"
  by (simp add: reach_def)

lemma reach_step: "vm_step sys v = Some v' \<Longrightarrow> reach sys v v'"
  by (simp add: reach_def r_into_rtranclp)

text \<open>The run leaves the value \<open>x\<close> on the stack: \<open>n\<close> bytes of code are done, the slots below are
  untouched.\<close>

definition leaves :: "syscalls \<Rightarrow> finsh_vm \<Rightarrow> nat \<Rightarrow> nat \<Rightarrow> u32 \<Rightarrow> memory \<Rightarrow> bool" where
  "leaves sys v n w x m' \<longleftrightarrow>
     (\<exists>st. reach sys v (after v n st (Suc (vm_sp v)) m') \<and> length st = length (vm_stack v)
        \<and> take (vm_sp v) st = take (vm_sp v) (vm_stack v) \<and> low w (st ! vm_sp v) = x)"

lemma leavesI:
  assumes "reach sys v (after v n st (Suc (vm_sp v)) m')" "length st = length (vm_stack v)"
    and "take (vm_sp v) st = take (vm_sp v) (vm_stack v)" "low w (st ! vm_sp v) = x"
  shows "leaves sys v n w x m'"
  using assms unfolding leaves_def by blast

lemma leaves_step:
  assumes "\<exists>s. low w s = x
      \<and> vm_step sys v = Some (after v n ((vm_stack v)[vm_sp v := s]) (Suc (vm_sp v)) (vm_mem v))"
    and "vm_sp v < length (vm_stack v)"
  shows "leaves sys v n w x (vm_mem v)"
  using assms by (auto intro!: leavesI reach_step)

text \<open>One more instruction that replaces the upper slot.\<close>

lemma leaves_then:
  assumes "leaves sys v n w x m1" "vm_sp v < length (vm_stack v)"
    and "\<And>st. length st = length (vm_stack v) \<Longrightarrow> low w (st ! vm_sp v) = x \<Longrightarrow>
      \<exists>s. low w' s = y \<and> vm_step sys (after v n st (Suc (vm_sp v)) m1)
        = Some (after v n' (st[vm_sp v := s]) (Suc (vm_sp v)) m2)"
  shows "leaves sys v n' w' y m2"
proof -
  obtain st where st: "reach sys v (after v n st (Suc (vm_sp v)) m1)" "length st = length (vm_stack v)"
      "take (vm_sp v) st = take (vm_sp v) (vm_stack v)" "low w (st ! vm_sp v) = x"
    using assms(1) by (auto simp: leaves_def)
  obtain s where "low w' s = y" "vm_step sys (after v n st (Suc (vm_sp v)) m1)
      = Some (after v n' (st[vm_sp v := s]) (Suc (vm_sp v)) m2)"
    using assms(3) [OF st(2,4)] by blast
  then show ?thesis
    using st assms(2) by (intro leavesI [of _ _ _ "st[vm_sp v := s]"] reach_trans [OF st(1) reach_step]) simp_all
qed

text \<open>Two values, one on the other.\<close>

lemma leaves_both:
  assumes "leaves sys v n w x m1" "vm_sp v < length (vm_stack v)"
    and "\<And>st. length st = length (vm_stack v) \<Longrightarrow> leaves sys (after v n st (Suc (vm_sp v)) m1) n' w' y m2"
  obtains st where "reach sys v (after v (n + n') st (Suc (Suc (vm_sp v))) m2)" "length st = length (vm_stack v)"
    and "take (vm_sp v) st = take (vm_sp v) (vm_stack v)"
    and "low w (st ! vm_sp v) = x" "low w' (st ! Suc (vm_sp v)) = y"
proof -
  obtain st where st: "reach sys v (after v n st (Suc (vm_sp v)) m1)" "length st = length (vm_stack v)"
      "take (vm_sp v) st = take (vm_sp v) (vm_stack v)" "low w (st ! vm_sp v) = x"
    using assms(1) by (auto simp: leaves_def)
  obtain st' where st': "reach sys (after v n st (Suc (vm_sp v)) m1) (after v (n + n') st' (Suc (Suc (vm_sp v))) m2)"
      "length st' = length st" "take (Suc (vm_sp v)) st' = take (Suc (vm_sp v)) st"
      "low w' (st' ! Suc (vm_sp v)) = y"
    using assms(3) [OF st(2)] by (auto simp: leaves_def)
  have "st' ! vm_sp v = st ! vm_sp v" using st'(3) by (metis lessI nth_take)
  moreover have "take (vm_sp v) st' = take (vm_sp v) st"
    using arg_cong [OF st'(3), of "take (vm_sp v)"] by simp
  ultimately show thesis using that [of st'] st st' reach_trans by force
qed

lemma code_at_after [simp]: "code_at cs (after v n st sp m) = code_at cs (skip n v)"
  by (rule code_at_cong) simp_all

lemma code_at_split [simp]: "code_at (as @ bs) v \<longleftrightarrow> code_at as v \<and> code_at bs (skip (length as) v)"
  using code_at_append [of as bs v "vm_stack v" "vm_sp v" "vm_mem v"] by simp

lemma skip_skip [simp]: "skip n (skip k v) = skip (k + n) v"
  by (simp add: skip_def add.assoc)

lemma code_at_skip_after [simp]: "code_at cs (skip k (after v n st sp m)) = code_at cs (skip (n + k) v)"
  by (rule code_at_cong) simp_all

lemma code_at_two: "code_at [a, b] v \<longleftrightarrow> code_at [a] v \<and> code_at [b] (skip 1 v)"
  using code_at_split [of "[a]" "[b]" v] by simp

lemma code_length [simp]: "length (ld_dword x) = 5" "length (ld_value w a) = 5"
  by (simp_all add: ld_dword_def ld_value_def bytes32_def)

lemma leaves_ld_dword:
  "code_at (ld_dword x) v \<Longrightarrow> vm_sp v < length (vm_stack v) \<Longrightarrow> leaves sys v 5 3 x (vm_mem v)"
  by (rule leaves_step) (use step_ld_dword in auto)

lemma leaves_ld_char:
  "code_at [FINSH_OP_LD_BYTE, c] v \<Longrightarrow> vm_sp v < length (vm_stack v) \<Longrightarrow> leaves sys v 2 1 (ucast c) (vm_mem v)"
  using leaves_step [OF step_ld_char] by blast

lemma leaves_ld_value:
  "code_at (ld_value w a) v \<Longrightarrow> w \<in> {1, 2, 3} \<Longrightarrow> vm_sp v < length (vm_stack v) \<Longrightarrow>
     load w a (vm_mem v) = Some x \<Longrightarrow> leaves sys v 5 w x (vm_mem v)"
  using leaves_step [OF step_ld_value] by blast

lemma leaves_ld_one:
  "code_at (ld_one w) v \<Longrightarrow> w \<in> {1, 2, 3} \<Longrightarrow> vm_sp v < length (vm_stack v) \<Longrightarrow>
     leaves sys v (length (ld_one w)) w 1 (vm_mem v)"
  using leaves_step [OF step_ld_one] by blast

lemma leaves_bw:
  assumes "leaves sys v n w x m" "vm_sp v < length (vm_stack v)" "w \<in> {1, 2, 3}"
    and "code_at [opw 0x19 w] (skip n v)"
  shows "leaves sys v (n + 1) w (low w (NOT x)) m"
proof (rule leaves_then [OF assms(1,2)])
  fix st assume "length st = length (vm_stack v)" "low w (st ! vm_sp v) = x"
  then show "\<exists>s. low w s = low w (NOT x) \<and> vm_step sys (after v n st (Suc (vm_sp v)) m)
      = Some (after v (n + 1) (st[vm_sp v := s]) (Suc (vm_sp v)) m)"
    using step_bw [of w "after v n st (Suc (vm_sp v)) m" "vm_sp v" x sys] assms by simp
qed

lemma leaves_ld_stack:
  assumes "leaves sys v n 3 a m" "vm_sp v < length (vm_stack v)" "w \<in> {1, 2, 3}"
    and "code_at [opw OP_LD_VALUE_STACK w] (skip n v)" "load w a m = Some x"
  shows "leaves sys v (n + 1) w x m"
proof (rule leaves_then [OF assms(1,2)])
  fix st assume "length st = length (vm_stack v)" "low 3 (st ! vm_sp v) = a"
  then show "\<exists>s. low w s = x \<and> vm_step sys (after v n st (Suc (vm_sp v)) m)
      = Some (after v (n + 1) (st[vm_sp v := s]) (Suc (vm_sp v)) m)"
    using step_ld_stack [of w "after v n st (Suc (vm_sp v)) m" "vm_sp v" x sys] assms by simp
qed

lemma leaves_bin:
  assumes "leaves sys v n w x m1" "Suc (vm_sp v) < length (vm_stack v)" "w \<in> {1, 2, 3}"
    and "\<And>st. length st = length (vm_stack v) \<Longrightarrow> leaves sys (after v n st (Suc (vm_sp v)) m1) n' w y m2"
    and "code_at [opw (bin_op f) w] (skip (n + n') v)" "bin w f x y = Some z"
  shows "leaves sys v (n + n' + 1) w z m2"
proof -
  have sp: "vm_sp v < length (vm_stack v)" using assms(2) by simp
  obtain st where st: "reach sys v (after v (n + n') st (Suc (Suc (vm_sp v))) m2)" "length st = length (vm_stack v)"
      "take (vm_sp v) st = take (vm_sp v) (vm_stack v)" "low w (st ! vm_sp v) = x" "low w (st ! Suc (vm_sp v)) = y"
    by (rule leaves_both [OF assms(1) sp assms(4)])
  obtain s where s: "low w s = z" "vm_step sys (after v (n + n') st (Suc (Suc (vm_sp v))) m2)
      = Some (after v (n + n' + 1) (st[vm_sp v := s]) (Suc (vm_sp v)) m2)"
    using step_bin [of f w "after v (n + n') st (Suc (Suc (vm_sp v))) m2" "vm_sp v" x y z sys] st assms by auto
  then show ?thesis
    using st sp by (intro leavesI [of _ _ _ "st[vm_sp v := s]"] reach_trans [OF st(1) reach_step]) simp_all
qed

lemma leaves_st:
  assumes "leaves sys v n 3 a m1" "Suc (vm_sp v) < length (vm_stack v)" "w \<in> {1, 2, 3}"
    and "\<And>st. length st = length (vm_stack v) \<Longrightarrow> leaves sys (after v n st (Suc (vm_sp v)) m1) n' w x m2"
    and "code_at [opw OP_ST w] (skip (n + n') v)" "store w a x m2 = Some m3"
  shows "leaves sys v (n + n' + 1) 3 a m3"
proof -
  have sp: "vm_sp v < length (vm_stack v)" using assms(2) by simp
  obtain st where st: "reach sys v (after v (n + n') st (Suc (Suc (vm_sp v))) m2)" "length st = length (vm_stack v)"
      "take (vm_sp v) st = take (vm_sp v) (vm_stack v)" "low 3 (st ! vm_sp v) = a" "low w (st ! Suc (vm_sp v)) = x"
    by (rule leaves_both [OF assms(1) sp assms(4)])
  have "vm_step sys (after v (n + n') st (Suc (Suc (vm_sp v))) m2)
      = Some (after v (n + n' + 1) st (Suc (vm_sp v)) m3)"
    using step_st [of w "after v (n + n') st (Suc (Suc (vm_sp v))) m2" "vm_sp v" x m3 sys] st assms by simp
  then show ?thesis
    using st by (intro leavesI [of _ _ _ st] reach_trans [OF st(1) reach_step]) simp_all
qed

lemma incr_runs:
  assumes "code_at (incr_code w f a) v" "w \<in> {1, 2, 3}" "vm_sp v + 3 \<le> length (vm_stack v)"
    and "load w a (vm_mem v) = Some x" "bin w f x 1 = Some y" "store w a y (vm_mem v) = Some m'"
  shows "leaves sys v (length (incr_code w f a)) 3 a m'"
proof -
  have "leaves sys (after v 5 st (Suc (vm_sp v)) (vm_mem v)) (5 + length (ld_one w) + 1) w y (vm_mem v)"
    if "length st = length (vm_stack v)" for st
  proof (rule leaves_bin [OF _ _ assms(2) _ _ assms(5)])
    let ?v = "after v 5 st (Suc (vm_sp v)) (vm_mem v)"
    show "leaves sys ?v 5 w x (vm_mem v)"
      using leaves_ld_value [of w a ?v x sys] assms that by (simp add: incr_code_def code_at_two)
    show "leaves sys (after ?v 5 st' (Suc (vm_sp ?v)) (vm_mem v)) (length (ld_one w)) w 1 (vm_mem v)"
      if "length st' = length (vm_stack ?v)" for st'
      using leaves_ld_one [of w "after ?v 5 st' (Suc (vm_sp ?v)) (vm_mem v)" sys] assms that \<open>length st = _\<close>
      by (simp add: incr_code_def code_at_two)
  qed (use assms(1,3) that in \<open>simp_all add: incr_code_def code_at_two\<close>)
  then have "leaves sys v (5 + (5 + length (ld_one w) + 1) + 1) 3 a m'"
    using assms leaves_ld_dword [of a v sys]
    by (intro leaves_st [OF _ _ assms(2) _ _ assms(6)]) (simp_all add: incr_code_def code_at_two)
  then show ?thesis by (simp add: incr_code_def code_at_two)
qed

section \<open>The code of an expression computes its value\<close>

text \<open>What the arguments of a call leave on the stack.\<close>

definition leaves_all :: "syscalls \<Rightarrow> finsh_vm \<Rightarrow> nat \<Rightarrow> u32 list \<Rightarrow> memory \<Rightarrow> bool" where
  "leaves_all sys v n xs m' \<longleftrightarrow>
     (\<exists>st. reach sys v (after v n st (vm_sp v + length xs) m') \<and> length st = length (vm_stack v)
        \<and> take (vm_sp v) st = take (vm_sp v) (vm_stack v) \<and> (\<forall>i < length xs. st ! (vm_sp v + i) = xs ! i))"

lemma leaves_all_Cons:
  assumes "leaves sys v n 3 x m1" "vm_sp v < length (vm_stack v)"
    and "\<And>st. length st = length (vm_stack v) \<Longrightarrow> leaves_all sys (after v n st (Suc (vm_sp v)) m1) n' xs m2"
  shows "leaves_all sys v (n + n') (x # xs) m2"
proof -
  obtain st where st: "reach sys v (after v n st (Suc (vm_sp v)) m1)" "length st = length (vm_stack v)"
      "take (vm_sp v) st = take (vm_sp v) (vm_stack v)" "st ! vm_sp v = x"
    using assms(1) by (auto simp: leaves_def)
  obtain st' where st': "reach sys (after v n st (Suc (vm_sp v)) m1) (after v (n + n') st' (Suc (vm_sp v) + length xs) m2)"
      "length st' = length st" "take (Suc (vm_sp v)) st' = take (Suc (vm_sp v)) st"
      "\<forall>i < length xs. st' ! (Suc (vm_sp v) + i) = xs ! i"
    using assms(3) [OF st(2)] by (auto simp: leaves_all_def)
  have "st' ! vm_sp v = x" using st'(3) st(4) by (metis lessI nth_take)
  then have "st' ! (vm_sp v + i) = (x # xs) ! i" if "i < length (x # xs)" for i
    using st'(4) that by (cases i) simp_all
  moreover have "take (vm_sp v) st' = take (vm_sp v) st"
    using arg_cong [OF st'(3), of "take (vm_sp v)"] by simp
  ultimately show ?thesis
    unfolding leaves_all_def using st st' reach_trans [OF st(1) st'(1)] by (intro exI [of _ st']) simp
qed

lemma leaves_call:
  assumes "leaves sys v n 3 f m1" "vm_sp v + length xs < length (vm_stack v)" "length xs \<le> 16"
    and "\<And>st. length st = length (vm_stack v) \<Longrightarrow> leaves_all sys (after v n st (Suc (vm_sp v)) m1) n' xs m2"
    and "code_at [FINSH_OP_SYSCALL, of_nat (length xs)] (skip (n + n') v)"
    and "sys f (if xs = [] then [0] else xs) m2 = Some (r, m3)"
  shows "leaves sys v (n + n' + 2) 3 r m3"
proof -
  have sp: "vm_sp v < length (vm_stack v)" using assms(2) by simp
  obtain st where st: "reach sys v (after v (n + n') st (vm_sp v + length (f # xs)) m2)" "length st = length (vm_stack v)"
      "take (vm_sp v) st = take (vm_sp v) (vm_stack v)" "\<forall>i < length (f # xs). st ! (vm_sp v + i) = (f # xs) ! i"
    using leaves_all_Cons [OF assms(1) sp assms(4)] unfolding leaves_all_def by blast
  have args: "st ! vm_sp v = f" "\<forall>i < length xs. st ! (Suc (vm_sp v) + i) = xs ! i"
    using st(4) by (force dest: spec [of _ 0] spec [of _ "Suc _"])+
  let ?v = "after v (n + n') st (vm_sp v + length (f # xs)) m2"
  have "vm_step sys ?v = Some (after ?v 2 ((vm_stack ?v)[vm_sp v := r]) (Suc (vm_sp v)) m3)"
    by (rule step_call) (use assms st(2) args in \<open>simp_all split: if_splits\<close>)
  then have "vm_step sys ?v = Some (after v (n + n' + 2) (st[vm_sp v := r]) (Suc (vm_sp v)) m3)" by simp
  then show ?thesis
    using st sp by (intro leavesI [of _ _ _ "st[vm_sp v := r]"] reach_trans [OF st(1) reach_step]) simp_all
qed

lemma load_var_dword:
  assumes "vars_ok V m" "i < length (global_variable V)" "load w (sym_addr V (Var i)) m = Some x" "w \<in> {1, 2, 3}"
  shows "\<exists>y. load 3 (sym_addr V (Var i)) m = Some y \<and> low w y = x"
proof -
  let ?a = "sym_addr V (Var i)"
  have a: "?a AND 3 = 0" "{?a, ?a + 1, ?a + 2, ?a + 3} \<subseteq> dom m"
    using assms(1,2) by (auto simp: vars_ok_def Let_def)
  then obtain b0 b1 b2 b3 where b: "m ?a = Some b0" "m (?a + 1) = Some b1" "m (?a + 2) = Some b2" "m (?a + 3) = Some b3"
    by auto
  let ?y = "ucast b0 OR push_bit 8 (ucast b1) OR push_bit 16 (ucast b2) OR push_bit 24 (ucast b3) :: u32"
  have y: "load 3 ?a m = Some ?y" using a(1) b by (simp add: load_def load_dword_def)
  have "low w ?y = x"
    using assms(4)
  proof (cases rule: width_cases)
    case byte
    then have "x = ucast b0" using assms(3) b by (simp add: load_def load_byte_def)
    then show ?thesis using byte
      by (intro bit_word_eqI) (auto simp: low_def bit_simps dest: bit_imp_le_length)
  next
    case short
    then have "x = ucast (ucast b0 OR push_bit 8 (ucast b1) :: u16)"
      using assms(3) b by (auto simp: load_def load_word_def)
    then show ?thesis using short
      by (intro bit_word_eqI) (auto simp: low_def bit_simps dest: bit_imp_le_length)
  next
    case long
    then show ?thesis using assms(3) y by simp
  qed
  with y show ?thesis by blast
qed

lemma low_low [simp]: "low w (low w x) = low w x"
  by (simp add: low_def)

lemma leaves_low: "leaves sys v n w x m \<Longrightarrow> low w x = x"
  by (auto simp: leaves_def)

lemma leaves_narrow: "leaves sys v n 3 y m \<Longrightarrow> low w y = x \<Longrightarrow> leaves sys v n w x m"
  by (auto simp: leaves_def)

lemma bin_low:
  assumes "bin w f x y = Some z" "w \<in> {1, 2, 3}"
  shows "low w z = z"
  using assms(2)
proof (cases rule: width_cases)
  case byte
  then obtain r where "z = ucast (r :: u8)" using assms(1) by (auto simp: bin_def)
  then show ?thesis using byte
    by (intro bit_word_eqI) (auto simp: low_def bit_simps dest: bit_imp_le_length)
next
  case short
  then obtain r where "z = ucast (r :: u16)" using assms(1) by (auto simp: bin_def)
  then show ?thesis using short
    by (intro bit_word_eqI) (auto simp: low_def bit_simps dest: bit_imp_le_length)
qed simp

lemma leaves_pop:
  assumes "leaves sys v n w x m1" "Suc (vm_sp v) < length (vm_stack v)"
    and "\<And>st. length st = length (vm_stack v) \<Longrightarrow> leaves sys (after v n st (Suc (vm_sp v)) m1) n' w' y m2"
    and "code_at [FINSH_OP_POP] (skip (n + n') v)"
  shows "leaves sys v (n + n' + 1) w x m2"
proof -
  have sp: "vm_sp v < length (vm_stack v)" using assms(2) by simp
  obtain st where st: "reach sys v (after v (n + n') st (Suc (Suc (vm_sp v))) m2)" "length st = length (vm_stack v)"
      "take (vm_sp v) st = take (vm_sp v) (vm_stack v)" "low w (st ! vm_sp v) = x" "low w' (st ! Suc (vm_sp v)) = y"
    by (rule leaves_both [OF assms(1) sp assms(3)])
  have "vm_step sys (after v (n + n') st (Suc (Suc (vm_sp v))) m2)
      = Some (after v (n + n' + 1) st (Suc (vm_sp v)) m2)"
    using step_pop [of "after v (n + n') st (Suc (Suc (vm_sp v))) m2" "Suc (vm_sp v)" sys] assms(4) by simp
  then show ?thesis
    using st by (intro leavesI [of _ _ _ st] reach_trans [OF st(1) reach_step]) simp_all
qed

lemma depth_pos: "0 < depth e"
  by (induction e) auto

lemma after_0 [simp]: "after v 0 (vm_stack v) (vm_sp v) (vm_mem v) = v"
  by (simp add: after_def)

lemma code_runs:
  assumes "keeps_memory sys"
  shows "well_typed V e \<Longrightarrow> eval sys V e (vm_mem v) = Some (x, m') \<Longrightarrow> vars_ok V (vm_mem v) \<Longrightarrow>
      code_at (code_of V e) v \<Longrightarrow> vm_sp v + depth e \<le> length (vm_stack v) \<Longrightarrow>
      leaves sys v (length (code_of V e)) (width V e) x m'"
    and "(\<forall>e \<in> set es. well_typed V e \<and> width V e = 3) \<Longrightarrow>
      eval_list sys V es (vm_mem v) = Some (xs, m') \<Longrightarrow> vars_ok V (vm_mem v) \<Longrightarrow>
      code_at (codes_of V es) v \<Longrightarrow> vm_sp v + depths es \<le> length (vm_stack v) \<Longrightarrow>
      length xs = length es \<and> leaves_all sys v (length (codes_of V es)) xs m'"
proof (induction V e and V es arbitrary: v x m' and v xs m' rule: code_of_codes_of.induct)
  case (1 V y v x m')
  then show ?case using leaves_ld_dword [of y v sys] by auto
next
  case (2 V y v x m')
  then show ?case using leaves_ld_dword [of y v sys] by auto
next
  case (3 V v x m')
  then show ?case using leaves_ld_dword [of 0 v sys] by auto
next
  case (4 V c v x m')
  then show ?case using leaves_ld_char [of c v sys] by (auto simp: numeral_2_eq_2)
next
  case (5 V s v x m')
  then show ?case using leaves_ld_value [OF _ sym_width(2)] by (auto simp: bind_eq_Some_conv)
next
  case (6 V s v x m')
  then show ?case using leaves_ld_dword [of "sym_addr V s" v sys] by auto
next
  case (7 V f a b v z m')
  then have wt: "well_typed V a" "well_typed V b" "width V b = width V a"
    and code: "code_at (code_of V a) v" "code_at (code_of V b) (skip (length (code_of V a)) v)"
      "code_at [opw (bin_op f) (width V a)] (skip (length (code_of V a) + length (code_of V b)) v)"
    and d: "vm_sp v + depth a \<le> length (vm_stack v)" "Suc (vm_sp v) + depth b \<le> length (vm_stack v)"
    by simp_all
  obtain x m1 y where ev: "eval sys V a (vm_mem v) = Some (x, m1)" "eval sys V b m1 = Some (y, m')"
      "bin (width V a) f x y = Some z"
    using 7(4) by (auto simp: bind_eq_Some_conv)
  have a: "leaves sys v (length (code_of V a)) (width V a) x m1"
    by (rule 7(1) [OF wt(1) ev(1) 7(5) code(1) d(1)])
  have b: "leaves sys (after v (length (code_of V a)) st (Suc (vm_sp v)) m1) (length (code_of V b)) (width V a) y m'"
    if "length st = length (vm_stack v)" for st
    using 7(2) [of "after v (length (code_of V a)) st (Suc (vm_sp v)) m1"] wt ev code d that
      vars_ok_mono [OF 7(5) eval_dom(1) [OF assms ev(1)]] by simp
  have "Suc (vm_sp v) < length (vm_stack v)" using d(2) depth_pos [of b] by simp
  from leaves_bin [OF a this width_range [OF wt(1)] b code(3) ev(3)] show ?case by simp
next
  case (8 V a v y m')
  then obtain x where ev: "eval sys V a (vm_mem v) = Some (x, m')" "y = low (width V a) (NOT x)"
    by (auto simp: bind_eq_Some_conv)
  have wt: "well_typed V a" and d: "vm_sp v < length (vm_stack v)" using 8 depth_pos [of a] by simp_all
  have "leaves sys v (length (code_of V a)) (width V a) x m'" using 8 ev by simp
  from leaves_bw [OF this d width_range [OF wt]] show ?case using 8(5) ev(2) by simp
next
  case (9 V a v y m')
  then obtain x where ev: "eval sys V a (vm_mem v) = Some (x, m')" "load 3 x m' = Some y"
    by (auto simp: bind_eq_Some_conv)
  have "leaves sys v (length (code_of V a)) 3 x m'" using 9 ev by simp
  from leaves_ld_stack [OF this _ _ _ ev(2)] show ?case using 9 depth_pos [of a] by simp
next
  case (10 V s e v x m')
  let ?w = "sym_width V s" and ?a = "sym_addr V s"
  have wt: "well_typed V e" "width V e = ?w" "?w \<in> {1, 2, 3}" using 10(2) sym_width(2) by auto
  obtain m1 where ev: "eval sys V e (vm_mem v) = Some (x, m1)" "store ?w ?a x m1 = Some m'"
    using 10(3) by (auto simp: bind_eq_Some_conv)
  have code: "code_at (ld_dword ?a) v" "code_at (code_of V e) (skip 5 v)"
      "code_at [opw OP_ST ?w] (skip (5 + length (code_of V e)) v)"
      "code_at [opw OP_LD_VALUE_STACK ?w] (skip (5 + length (code_of V e) + 1) v)"
    using 10(5) by (simp_all add: code_at_two)
  have d: "Suc (vm_sp v) + depth e \<le> length (vm_stack v)" using 10(6) by simp
  have b: "leaves sys (after v 5 st (Suc (vm_sp v)) (vm_mem v)) (length (code_of V e)) ?w x m1"
    if "length st = length (vm_stack v)" for st
    using 10(1) [of "after v 5 st (Suc (vm_sp v)) (vm_mem v)"] wt ev(1) code(2) d that 10(4) by simp
  have sp: "Suc (vm_sp v) < length (vm_stack v)" using d depth_pos [of e] by simp
  have "leaves sys v 5 3 ?a (vm_mem v)" using leaves_ld_dword [OF code(1), of sys] sp by simp
  from leaves_st [OF this sp wt(3) b code(3) ev(2)]
  have "leaves sys v (5 + length (code_of V e) + 1) 3 ?a m'" .
  moreover have "load ?w ?a m' = Some x"
    using load_store [OF ev(2) wt(3)] leaves_low [OF b [OF refl]] by simp
  ultimately show ?case using leaves_ld_stack [OF _ _ wt(3) code(4)] sp by fastforce
next
  case (11 V p e v x m')
  have wt: "well_typed V p" "well_typed V e" "width V p = 3" "width V e = 3" using 11(3) by auto
  obtain a m1 m2 where ev: "eval sys V p (vm_mem v) = Some (a, m1)" "eval sys V e m1 = Some (x, m2)"
      "store 3 a x m2 = Some m'"
    using 11(4) by (auto simp: bind_eq_Some_conv)
  let ?n = "length (code_of V p)" and ?n' = "length (code_of V e)"
  have code: "code_at (code_of V p) v" "code_at (code_of V e) (skip ?n v)"
      "code_at [opw OP_ST 3] (skip (?n + ?n') v)" "code_at [opw OP_LD_VALUE_STACK 3] (skip (?n + ?n' + 1) v)"
    using 11(6) by (simp_all add: code_at_two)
  have d: "vm_sp v + depth p \<le> length (vm_stack v)" "Suc (vm_sp v) + depth e \<le> length (vm_stack v)"
    using 11(7) by simp_all
  have a: "leaves sys v ?n 3 a m1"
    using 11(1) [OF wt(1) ev(1) 11(5) code(1) d(1)] wt(3) by simp
  have b: "leaves sys (after v ?n st (Suc (vm_sp v)) m1) ?n' 3 x m2"
    if "length st = length (vm_stack v)" for st
    using 11(2) [of "after v ?n st (Suc (vm_sp v)) m1"] wt ev(2) code(2) d that
      vars_ok_mono [OF 11(5) eval_dom(1) [OF assms ev(1)]] by simp
  have sp: "Suc (vm_sp v) < length (vm_stack v)" using d depth_pos [of e] by simp
  have "leaves sys v (?n + ?n' + 1) 3 a m'"
    by (rule leaves_st [OF a sp _ b code(3) ev(3)]) simp
  moreover have "load 3 a m' = Some x" using load_store [OF ev(3)] by simp
  ultimately show ?case using leaves_ld_stack [OF _ _ _ code(4)] sp by fastforce
next
  case (12 V f s v y m')
  let ?w = "sym_width V s" and ?a = "sym_addr V s"
  obtain i where w: "?w \<in> {1, 2, 3}" and s: "s = Var i" "i < length (global_variable V)"
    using 12(1) sym_width(2) by auto
  obtain x where ev: "load ?w ?a (vm_mem v) = Some x" "bin ?w f x 1 = Some y" "store ?w ?a y (vm_mem v) = Some m'"
    using 12(2) by (auto simp: bind_eq_Some_conv)
  have code: "code_at (incr_code ?w f ?a) v" "code_at [opw OP_LD_VALUE_STACK 3] (skip (length (incr_code ?w f ?a)) v)"
    using 12(4) by simp_all
  have "leaves sys v (length (incr_code ?w f ?a)) 3 ?a m'"
    using incr_runs [OF code(1) w _ ev] 12(5) by simp
  moreover have "load ?w ?a m' = Some y" using load_store [OF ev(3) w] bin_low [OF ev(2) w] by simp
  then obtain z where "load 3 ?a m' = Some z" "low ?w z = y"
    using load_var_dword [of V m' i ?w y] vars_ok_mono [OF 12(3)] store_dom [OF ev(3)] s w by auto
  ultimately show ?case
    using leaves_narrow [OF leaves_ld_stack [OF _ _ _ code(2)]] 12(5) by fastforce
next
  case (13 V f s v x m')
  let ?w = "sym_width V s" and ?a = "sym_addr V s"
  have w: "?w \<in> {1, 2, 3}" using 13(1) sym_width(2) by auto
  obtain y where ev: "load ?w ?a (vm_mem v) = Some x" "bin ?w f x 1 = Some y" "store ?w ?a y (vm_mem v) = Some m'"
    using 13(2) by (auto simp: bind_eq_Some_conv)
  have code: "code_at (ld_value ?w ?a) v" "code_at (incr_code ?w f ?a) (skip 5 v)"
      "code_at [FINSH_OP_POP] (skip (5 + length (incr_code ?w f ?a)) v)"
    using 13(4) by simp_all
  have sp: "Suc (vm_sp v) + 3 \<le> length (vm_stack v)" using 13(5) by simp
  have a: "leaves sys v 5 ?w x (vm_mem v)" using leaves_ld_value [OF code(1) w _ ev(1)] sp by simp
  have b: "leaves sys (after v 5 st (Suc (vm_sp v)) (vm_mem v)) (length (incr_code ?w f ?a)) 3 ?a m'"
    if "length st = length (vm_stack v)" for st
    by (rule incr_runs [OF _ w _ _ ev(2)]) (use code(2) ev sp that in simp_all)
  have "leaves sys v (5 + length (incr_code ?w f ?a) + 1) ?w x m'"
    by (rule leaves_pop [OF a _ b code(3)]) (use sp in simp_all)
  then show ?case by simp
next
  case (14 V p f es v x m')
  have wt: "length es \<le> 16" "\<forall>e \<in> set es. well_typed V e \<and> width V e = 3" using 14(2) by auto
  obtain xs m1 where ev: "eval_list sys V es (vm_mem v) = Some (xs, m1)"
      "sys f (if xs = [] then [0] else xs) m1 = Some (x, m')"
    using 14(3) by (auto simp: bind_eq_Some_conv)
  have code: "code_at (ld_dword f) v" "code_at (codes_of V es) (skip 5 v)"
      "code_at [FINSH_OP_SYSCALL, of_nat (length es)] (skip (5 + length (codes_of V es)) v)"
    using 14(5) by simp_all
  have d: "Suc (vm_sp v) + depths es \<le> length (vm_stack v)" using 14(6) by simp
  have b: "length xs = length es \<and>
      leaves_all sys (after v 5 st (Suc (vm_sp v)) (vm_mem v)) (length (codes_of V es)) xs m1"
    if "length st = length (vm_stack v)" for st
    using 14(1) [of "after v 5 st (Suc (vm_sp v)) (vm_mem v)"] wt ev(1) code(2) d that 14(4) by simp
  have len: "length xs = length es" using b by blast
  have "length es \<le> depths es" for es by (induction es) auto
  then have sp: "vm_sp v + length xs < length (vm_stack v)" using d len by (metis Suc_le_lessD add_Suc le_trans nat_add_left_cancel_le)
  have "leaves sys v 5 3 f (vm_mem v)" using leaves_ld_dword [OF code(1), of sys] sp by simp
  from leaves_call [OF this sp _ conjunct2 [OF b] _ ev(2)] show ?case using code(3) wt(1) len by simp
next
  case (15 V v xs m')
  then show ?case by (auto simp: leaves_all_def intro!: exI [of _ "vm_stack v"])
next
  case (16 V e es v xs m')
  obtain y ys m1 where ev: "eval sys V e (vm_mem v) = Some (y, m1)" "eval_list sys V es m1 = Some (ys, m')"
      "xs = y # ys"
    using 16(4) by (auto simp: bind_eq_Some_conv)
  have wt: "well_typed V e" "width V e = 3" using 16(3) by simp_all
  have code: "code_at (code_of V e) v" "code_at (codes_of V es) (skip (length (code_of V e)) v)"
    using 16(6) by simp_all
  have d: "vm_sp v + depth e \<le> length (vm_stack v)" "Suc (vm_sp v) + depths es \<le> length (vm_stack v)"
    using 16(7) by simp_all
  have a: "leaves sys v (length (code_of V e)) 3 y m1"
    using 16(1) [OF wt(1) ev(1) 16(5) code(1) d(1)] wt(2) by simp
  have b: "length ys = length es \<and>
      leaves_all sys (after v (length (code_of V e)) st (Suc (vm_sp v)) m1) (length (codes_of V es)) ys m'"
    if "length st = length (vm_stack v)" for st
    using 16(2) [of "after v (length (code_of V e)) st (Suc (vm_sp v)) m1"] 16(3) ev(2) code(2) d that
      vars_ok_mono [OF 16(5) eval_dom(1) [OF assms ev(1)]] by simp
  show ?case
    using leaves_all_Cons [OF a _ conjunct2 [OF b]] b [OF refl] d depth_pos [of e] ev(3) by simp
qed


section \<open>A line of statements\<close>

text \<open>The statements of a line are evaluated in order; the value is that of the last.\<close>

fun eval_line :: "syscalls \<Rightarrow> finsh_vars \<Rightarrow> expr list \<Rightarrow> memory \<Rightarrow> (u32 \<times> memory) option" where
  "eval_line sys V [] m = None"
| "eval_line sys V [e] m = eval sys V e m"
| "eval_line sys V (e # es) m = do { (x, m) \<leftarrow> eval sys V e m; eval_line sys V es m }"

fun code_line :: "finsh_vars \<Rightarrow> expr list \<Rightarrow> u8 list" where
  "code_line V [] = []"
| "code_line V [e] = code_of V e"
| "code_line V (e # es) = code_of V e @ [FINSH_OP_POP] @ code_line V es"

lemma line_checked:
  "\<forall>e \<in> set es. well_typed V e \<Longrightarrow>
     \<exists>T. finsh_type_check V 0 (trees_of es) err = (T, err) \<and> (T = NULL \<longleftrightarrow> es = [])
       \<and> (\<forall>c. compile_statements V T c = emit (code_line V es) c)"
proof (induction V es rule: code_line.induct)
  case (1 V)
  show ?case by simp
next
  case (2 V e)
  have "checked V e NULL err" by (rule tree_checked) (use 2 in simp)
  then obtain n child where "finsh_type_check V 0 (tree_of e NULL) err = (Node n child NULL, err)"
      "\<And>c. compile_node V n child (finsh_compile V child c) = emit (code_of V e) c"
    by (elim checkedE) simp
  then show ?case by simp
next
  case (3 V e e' es)
  obtain T where T: "finsh_type_check V 0 (trees_of (e' # es)) err = (T, err)" "T \<noteq> NULL"
      "\<And>c. compile_statements V T c = emit (code_line V (e' # es)) c"
    using 3 by (force simp del: trees_of.simps)
  have "checked V e (trees_of (e' # es)) err" by (rule tree_checked) (use 3 in simp)
  then obtain n child where "finsh_type_check V 0 (tree_of e (trees_of (e' # es))) err = (Node n child T, err)"
      "\<And>c. compile_node V n child (finsh_compile V child c) = emit (code_of V e) c"
    using T(1) by (elim checkedE) simp
  then show ?case using T(2,3) by (simp add: trees_of.simps(2) [of e])
qed

lemma leaves_trans:
  assumes "reach sys v (after v n st (vm_sp v) m1)" "length st = length (vm_stack v)"
    and "take (vm_sp v) st = take (vm_sp v) (vm_stack v)"
    and "leaves sys (after v n st (vm_sp v) m1) n' w x m'"
  shows "leaves sys v (n + n') w x m'"
proof -
  obtain st' where "reach sys (after v n st (vm_sp v) m1) (after v (n + n') st' (Suc (vm_sp v)) m')"
      "length st' = length st" "take (vm_sp v) st' = take (vm_sp v) st" "low w (st' ! vm_sp v) = x"
    using assms(4) by (auto simp: leaves_def)
  then show ?thesis using assms(1-3) by (intro leavesI [of _ _ _ st'] reach_trans [OF assms(1)]) simp_all
qed

lemma line_runs:
  assumes "keeps_memory sys"
  shows "\<forall>e \<in> set es. well_typed V e \<and> vm_sp v + depth e \<le> length (vm_stack v) \<Longrightarrow>
      eval_line sys V es (vm_mem v) = Some (x, m') \<Longrightarrow> vars_ok V (vm_mem v) \<Longrightarrow> code_at (code_line V es) v \<Longrightarrow>
      leaves sys v (length (code_line V es)) (width V (last es)) x m'"
proof (induction V es arbitrary: v rule: code_line.induct)
  case (1 V)
  then show ?case by simp
next
  case (2 V e)
  then show ?case using code_runs(1) [OF assms] by simp
next
  case (3 V e e' es)
  obtain y m1 where ev: "eval sys V e (vm_mem v) = Some (y, m1)" "eval_line sys V (e' # es) m1 = Some (x, m')"
    using 3(3) by (auto simp: bind_eq_Some_conv)
  let ?n = "length (code_of V e)"
  have code: "code_at (code_of V e) v" "code_at [FINSH_OP_POP] (skip ?n v)"
      "code_at (code_line V (e' # es)) (skip (?n + 1) v)"
    using 3(5) by (simp_all only: code_line.simps code_at_split length_Cons list.size skip_skip) auto
  have "leaves sys v ?n (width V e) y m1" using code_runs(1) [OF assms _ ev(1) 3(4) code(1)] 3(2) by simp
  then obtain st where st: "reach sys v (after v ?n st (Suc (vm_sp v)) m1)" "length st = length (vm_stack v)"
      "take (vm_sp v) st = take (vm_sp v) (vm_stack v)"
    by (auto simp: leaves_def)
  let ?v = "after v (?n + 1) st (vm_sp v) m1"
  have "vm_step sys (after v ?n st (Suc (vm_sp v)) m1) = Some ?v"
    using step_pop [of "after v ?n st (Suc (vm_sp v)) m1" "vm_sp v" sys] code(2) by simp
  then have r: "reach sys v ?v" using reach_trans [OF st(1) reach_step] by simp
  have "leaves sys ?v (length (code_line V (e' # es))) (width V (last (e' # es))) x m'"
    by (rule 3(1)) (use 3(2) ev(2) st(2) code(3) vars_ok_mono [OF 3(4) eval_dom(1) [OF assms ev(1)]] in auto)
  from leaves_trans [OF r st(2,3) this] show ?case by simp
qed

lemma reach_loop:
  assumes "reach sys v v'" "vm_pc v' \<le> FINSH_TEXT_MAX"
  shows "vm_loop sys v = vm_loop sys v'"
proof -
  have "vm_pc v \<le> vm_pc v' \<and> vm_loop sys v = vm_loop sys v'"
    using assms unfolding reach_def
  proof (induction rule: converse_rtranclp_induct)
    case (step y z)
    then show ?case using vm_step_pc [OF step(1)] vm_loop.simps [of sys y] by simp
  qed simp
  then show ?thesis by simp
qed

text \<open>Behind the code the text is zero, which is the code of \<open>OP_no_op\<close>.\<close>

lemma no_op_step:
  assumes "vm_pc v < FINSH_TEXT_MAX" "length (vm_text v) = FINSH_TEXT_MAX" "vm_text v ! vm_pc v = 0"
  shows "vm_step sys v = Some (skip 1 v)"
  using assms by (simp add: vm_step_def text_byte_def op_table_def OP_no_op_def)

lemma no_op_rest:
  assumes "length (vm_text v) = FINSH_TEXT_MAX" "vm_pc v \<le> FINSH_TEXT_MAX"
    and "\<forall>i. vm_pc v \<le> i \<and> i < FINSH_TEXT_MAX \<longrightarrow> vm_text v ! i = 0"
  shows "vm_loop sys v = Some (v\<lparr>vm_pc := FINSH_TEXT_MAX\<rparr>)"
  using assms
proof (induction "FINSH_TEXT_MAX - vm_pc v" arbitrary: v)
  case 0
  then show ?case by (simp add: vm_loop.simps)
next
  case (Suc n)
  then have lt: "vm_pc v < FINSH_TEXT_MAX" by simp
  have "vm_loop sys (skip 1 v) = Some ((skip 1 v)\<lparr>vm_pc := FINSH_TEXT_MAX\<rparr>)"
    by (rule Suc(1)) (use Suc(2-5) lt in auto)
  then show ?case
    using no_op_step [of v sys] Suc(3-5) lt by (subst vm_loop.simps) (simp add: skip_def)
qed

text \<open>The code of a line is compiled into the text and run from an empty stack.\<close>

lemma compiled_line:
  assumes "\<forall>e \<in> set es. well_typed V e" "length (code_line V es) \<le> FINSH_TEXT_MAX"
  shows "finsh_compiler_run V (trees_of es) err v = Some (err,
    v\<lparr>vm_text := code_line V es @ replicate (FINSH_TEXT_MAX - length (code_line V es)) 0,
      vm_stack := replicate FINSH_STACK_MAX 0\<rparr>)"
proof -
  obtain T where "finsh_type_check V 0 (trees_of es) err = (T, err)"
      "\<And>c. compile_statements V T c = emit (code_line V es) c"
    using line_checked [OF assms(1)] by blast
  then show ?thesis using assms(2) by (simp add: finsh_compiler_run_def emit_def)
qed

lemma run_line_value:
  assumes "keeps_memory sys" "vars_ok V (vm_mem v)"
    and "\<forall>e \<in> set es. well_typed V e \<and> depth e \<le> FINSH_STACK_MAX"
    and "length (code_line V es) \<le> FINSH_TEXT_MAX" "eval_line sys V es (vm_mem v) = Some (x, m')"
    and "vm_text v = code_line V es @ replicate (FINSH_TEXT_MAX - length (code_line V es)) 0"
    and "vm_stack v = replicate FINSH_STACK_MAX 0"
  shows "\<exists>v'. finsh_vm_run sys v = Some v' \<and> vm_mem v' = m'
    \<and> low (width V (last es)) (finsh_stack_bottom v') = x"
proof -
  let ?v = "v\<lparr>vm_sp := 0, vm_pc := 0\<rparr>" and ?n = "length (code_line V es)"
  have tx: "code_at (code_line V es) ?v" using assms(4,6) by (simp add: code_at_def nth_append)
  have "leaves sys ?v ?n (width V (last es)) x m'"
    by (rule line_runs [OF assms(1)]) (use assms tx in simp_all)
  then obtain st where st: "reach sys ?v (after ?v ?n st 1 m')" "low (width V (last es)) (st ! 0) = x"
    by (auto simp: leaves_def)
  let ?w = "after ?v ?n st 1 m'"
  have "vm_loop sys ?v = vm_loop sys ?w" by (rule reach_loop [OF st(1)]) (use assms(4) in simp)
  also have "\<dots> = Some (?w\<lparr>vm_pc := FINSH_TEXT_MAX\<rparr>)"
    by (rule no_op_rest) (use assms(4,6) in \<open>auto simp: nth_append\<close>)
  finally show ?thesis using st(2) by (simp add: finsh_vm_run_def finsh_stack_bottom_def)
qed

section \<open>Examples\<close>

text \<open>One variable of type \<open>int\<close>, named \<open>a\<close>; no function can be called.\<close>

definition ex_vars :: finsh_vars where
  "ex_vars = \<lparr>gv_addr = 0x1000, global_variable = [\<lparr>var_name = ''a'', var_type = Type_int\<rparr>]\<rparr>"

definition ex_memory :: memory where
  "ex_memory = Map.empty(0x1014 \<mapsto> 0, 0x1015 \<mapsto> 0, 0x1016 \<mapsto> 0, 0x1017 \<mapsto> 0)"

definition ex_vm :: finsh_vm where
  "ex_vm = \<lparr>vm_stack = [], vm_sp = 0, vm_text = [], vm_pc = 0, vm_mem = ex_memory\<rparr>"

definition ex_calls :: syscalls where
  "ex_calls f ps m = None"

lemma ex_keeps [simp]: "keeps_memory ex_calls" "vars_ok ex_vars ex_memory"
  by (simp_all add: keeps_memory_def ex_calls_def vars_ok_def ex_vars_def var_value_def var_at_def
      ex_memory_def)

text \<open>The line \<open>a = 5; a++ * 3;\<close>\<close>

definition ex_line :: "expr list" where
  "ex_line = [Assign (Var 0) (IntV 5), Bin Mul (Post Add (Var 0)) (IntV 3)]"

lemma ex_line_ok:
  "\<forall>e \<in> set ex_line. well_typed ex_vars e \<and> depth e \<le> FINSH_STACK_MAX"
  "length (code_line ex_vars ex_line) \<le> FINSH_TEXT_MAX"
  "\<exists>m'. eval_line ex_calls ex_vars ex_line ex_memory = Some (15, m') \<and> load 3 0x1014 m' = Some 6"
  by (simp_all add: ex_line_def ex_vars_def sym_width_def incr_code_def ld_one_def bytes32_def
      ex_memory_def load_def load_dword_def store_def store_dword_def bin_def var_value_def var_at_def)

section \<open>Property\<close>

text \<open>
  C25. The compiler is correct: the code that it makes of the tree of a line, run by the machine,
  ends, leaves the value of the last statement at the bottom of the stack, in the width of its
  type, and changes the memory as the statements say. The operands must have the same width,
  which is also what the compiler takes them for; the code must fit into the text segment.
\<close>

theorem line_computed:
  assumes "\<forall>e \<in> set es. well_typed V e \<and> depth e \<le> FINSH_STACK_MAX"
    and "length (code_line V es) \<le> FINSH_TEXT_MAX"
    and "keeps_memory sys" "vars_ok V (vm_mem v)" "eval_line sys V es (vm_mem v) = Some (x, m')"
  shows "\<exists>v1 v2. finsh_compiler_run V (trees_of es) 0 v = Some (0, v1) \<and> finsh_vm_run sys v1 = Some v2
     \<and> low (width V (last es)) (finsh_stack_bottom v2) = x \<and> vm_mem v2 = m'"
proof -
  let ?v = "v\<lparr>vm_text := code_line V es @ replicate (FINSH_TEXT_MAX - length (code_line V es)) 0,
      vm_stack := replicate FINSH_STACK_MAX 0\<rparr>"
  have "finsh_compiler_run V (trees_of es) 0 v = Some (0, ?v)" using compiled_line assms(1,2) by blast
  moreover obtain v' where "finsh_vm_run sys ?v = Some v'" "vm_mem v' = m'"
      "low (width V (last es)) (finsh_stack_bottom v') = x"
    using run_line_value [of sys V ?v es x m'] assms by auto
  ultimately show ?thesis by blast
qed

theorem line_computed_witness:
  "\<exists>v1 v2. finsh_compiler_run ex_vars (trees_of ex_line) 0 ex_vm = Some (0, v1)
     \<and> finsh_vm_run ex_calls v1 = Some v2 \<and> finsh_stack_bottom v2 = 15 \<and> load 3 0x1014 (vm_mem v2) = Some 6"
proof -
  obtain m' where "eval_line ex_calls ex_vars ex_line (vm_mem ex_vm) = Some (15, m')" "load 3 0x1014 m' = Some 6"
    using ex_line_ok(3) by (auto simp: ex_vm_def)
  moreover have "width ex_vars (last ex_line) = 3"
    by (simp add: ex_line_def sym_width_def ex_vars_def)
  ultimately show ?thesis
    using line_computed [OF ex_line_ok(1,2) ex_keeps(1), of ex_vm] ex_keeps(2) by (auto simp: ex_vm_def)
qed

section \<open>Where the operands differ\<close>

text \<open>The upper bytes of a slot are not cleared by an instruction for a byte. In the line
  \<open>1 + 1000; 1 + 'a';\<close> the second sum is computed with a byte of the 1000.\<close>

lemma stale_bytes:
  "\<exists>v1 v2. finsh_compiler_run ex_vars (trees_of [Bin Add (IntV 1) (IntV 1000), Bin Add (IntV 1) (CharV 97)]) 0 ex_vm
       = Some (0, v1)
     \<and> finsh_vm_run ex_calls v1 = Some v2 \<and> finsh_stack_bottom v2 = 1 + 0x361"
proof -
  have "(case finsh_compiler_run ex_vars (trees_of [Bin Add (IntV 1) (IntV 1000), Bin Add (IntV 1) (CharV 97)]) 0 ex_vm of
       Some (0, v1) \<Rightarrow> (case finsh_vm_run ex_calls v1 of Some v2 \<Rightarrow> finsh_stack_bottom v2 = 1 + 0x361 | None \<Rightarrow> False)
     | _ \<Rightarrow> False)"
    by code_simp
  then show ?thesis by (auto split: option.splits prod.splits nat.splits)
qed

text \<open>The result of a call has no data type, so no instruction is made for an operator behind it.\<close>

lemma call_operator_ignored:
  "\<exists>n child. finsh_type_check V 0 (tree_of (Bin f (Call p g []) (IntV x)) NULL) err = (Node n child NULL, err)
     \<and> finsh_compile V (Node n child NULL) c = emit (code_of V (Call p g []) @ code_of V (IntV x)) c"
  by (cases f) (simp_all add: check_leaf_def compile_node_def compile_func_def compile_id_def code_typed_def
      typed_op_def ld_dword_def)

text \<open>No instruction loads a variable of the type \<open>void *\<close>.\<close>

lemma void_pointer_ignored:
  assumes "i < length (global_variable V)" "var_type (global_variable V ! i) = Type_voidp"
  shows "finsh_compile V (fst (finsh_type_check V 0 (tree_of (Id (Var i)) NULL) err)) c = c"
  using assms by (simp add: check_leaf_def set_type_def compile_node_def compile_id_def compile_load_def)

text \<open>Incrementing a system variable takes the address of its descriptor for that of a variable.\<close>

lemma increment_of_sysvar:
  assumes "value_type (sysvar_type sv) = Some 3"
  shows "finsh_compile V (fst (finsh_type_check V 0 (tree_of (Post Add (Sysvar p sv)) NULL) err)) c
    = emit (ld_value 3 (sysvar_var sv) @ incr_code 3 Add (p + 20) @ [FINSH_OP_POP]) c"
  using assms value_type_data [OF assms]
  by (simp add: check_leaf_def set_type_def compile_node_def compile_id_def compile_load_def compile_post_def
      code_one_def incr_code_def ld_one_def ld_value_def ld_dword_def opw_def var_value_def Let_def)

end
