(* ===== verification/RT_Finsh_Line.thy ===== *)
theory RT_Finsh_Line
  imports RT_Finsh_Syntax RT_Finsh_Correct
begin

text \<open>
  A line of the C-expression shell from its characters to its answer (\<open>finsh_run_line\<close> of
  \<open>components/finsh/shell.c\<close>, \<open>finsh_init.c\<close>): the spelling of lexemes, that the scanner reads
  what is spelled, and that the shell answers a line with its value.
\<close>

section \<open>The shell\<close>

text \<open>What is printed: the value at the bottom of the stack, an error of the parser, or nothing when
  the compiler has found an error.\<close>

datatype answer = Value u32 | Error nat | Silent

definition finsh_flush :: "finsh_parser \<Rightarrow> finsh_parser" where
  "finsh_flush p = p\<lparr>ptoken := finsh_token_init [] FINSH_ERROR_OK, nodes_used := 0\<rparr>"

definition finsh_run_line :: "nat \<Rightarrow> syscalls \<Rightarrow> string \<Rightarrow> finsh_parser \<Rightarrow> finsh_vm \<Rightarrow>
    (answer \<times> finsh_parser \<times> finsh_vm) option" where
  "finsh_run_line n sys line p v =
     do { (root, p) \<leftarrow> finsh_parser_run n line p;
          let e = global_errno (ptoken p);
          let v = v\<lparr>vm_mem := pmem p\<rparr>;
          (c, v) \<leftarrow> (if e = FINSH_ERROR_OK then finsh_compiler_run (pvars p) root e v else Some (e, v));
          if c = FINSH_ERROR_OK
          then do { v \<leftarrow> finsh_vm_run sys v;
                    Some (Value (finsh_stack_bottom v), finsh_flush (p\<lparr>pmem := vm_mem v\<rparr>), v) }
          else Some (if e \<noteq> FINSH_ERROR_OK then Error e else Silent, finsh_flush p, v) }"

section \<open>Spelling\<close>

definition digit_char :: "nat \<Rightarrow> char" where "digit_char d = char_of (48 + d)"

fun decimal :: "nat \<Rightarrow> string" where
  "decimal n = (if n < 10 then [digit_char n] else decimal (n div 10) @ [digit_char (n mod 10)])"

declare decimal.simps [simp del]

fun sign_text :: "finsh_token_type \<Rightarrow> string" where
  "sign_text Tleft_paren = ''(''" | "sign_text Tright_paren = '')''" | "sign_text Tcomma = '',''"
| "sign_text Tsemicolon = '';''" | "sign_text Tmul = ''*''" | "sign_text Tadd = ''+''"
| "sign_text Tinc = ''++''" | "sign_text Tsub = ''-''" | "sign_text Tdec = ''--''"
| "sign_text Tdiv = ''/''" | "sign_text Tmod = [CHR 0x25]" | "sign_text Tassign = ''=''"
| "sign_text Tand = [CHR 0x26]" | "sign_text Tor = ''|''" | "sign_text Txor = [CHR 0x5E]"
| "sign_text Tbitwise = ''~''" | "sign_text Tshl = ''<<''" | "sign_text Tshr = ''>>''"
| "sign_text Tvalue_null = ''NULL''" | "sign_text _ = []"

fun spelling :: "lexeme \<Rightarrow> string" where
  "spelling (Sign t) = sign_text t"
| "spelling (Name n) = n"
| "spelling (Number v l) = decimal (unat v) @ (if l then ''l'' else [])"
| "spelling (Letter c) = [CHR 0x27, char_of (unat c), CHR 0x27]"

text \<open>The number 0 cannot be spelled with the suffix for \<open>long\<close>; see \<open>long_zero\<close> in \<open>RT_Finsh_Lines\<close>.\<close>

fun spelled :: "lexeme \<Rightarrow> bool" where
  "spelled (Sign t) \<longleftrightarrow> sign_text t \<noteq> []"
| "spelled (Name n) \<longleftrightarrow> n \<noteq> [] \<and> (\<forall>c \<in> set n. \<not> is_separator c) \<and> \<not> is_digit (hd n)
     \<and> length n < FINSH_STRING_MAX \<and> token_match_name n = None"
| "spelled (Number v l) \<longleftrightarrow> (l \<longrightarrow> v \<noteq> 0)"
| "spelled (Letter c) \<longleftrightarrow> c \<notin> {0, 10, 92}"

text \<open>A space before every lexeme, a semicolon behind every expression.\<close>

definition text_of :: "lexeme list \<Rightarrow> string" where
  "text_of ls = concat (map (\<lambda>l. if l = Sign Tsemicolon then '';'' else CHR '' '' # spelling l) ls)"

definition line_text :: "(symbol \<Rightarrow> string) \<Rightarrow> expr list \<Rightarrow> string" where
  "line_text nm es = concat (map (\<lambda>e. text_of (lexemes nm e) @ '';'') es)"

section \<open>Scanning\<close>

text \<open>The scanner is before the characters \<open>us\<close> of its line.\<close>

definition scanning :: "finsh_token \<Rightarrow> string \<Rightarrow> bool" where
  "scanning s us \<longleftrightarrow> (\<exists>pre. tline s = pre @ us \<and> tposition s = length pre) \<and> \<not> teof s \<and> \<not> treplay s
     \<and> NUL \<notin> set (tline s) \<and> CHR 0x0A \<notin> set (tline s) \<and> length (tstring s) = FINSH_STRING_MAX"

definition adv :: "nat \<Rightarrow> finsh_token \<Rightarrow> finsh_token" where
  "adv n s = s\<lparr>tposition := tposition s + n\<rparr>"

lemma adv_fields [simp]: "teof (adv n s) = teof s" "treplay (adv n s) = treplay s" "tline (adv n s) = tline s"
  "tstring (adv n s) = tstring s" "tvalue (adv n s) = tvalue s" "global_errno (adv n s) = global_errno s"
  "current_token (adv n s) = current_token s" "tposition (adv n s) = tposition s + n"
  "adv m (adv n s) = adv (n + m) s" "adv 0 s = s"
  by (simp_all add: adv_def)

lemma eof_kept: "\<not> teof s \<Longrightarrow> (adv n s)\<lparr>teof := False\<rparr> = adv n s"
  by (simp add: adv_def)

lemma scanning_adv:
  assumes "scanning s (us @ vs)" "n = length us"
  shows "scanning (adv n s) vs"
proof -
  obtain pre where "tline s = pre @ us @ vs" "tposition s = length pre" using assms(1) by (auto simp: scanning_def)
  then have "tline (adv n s) = (pre @ us) @ vs" "tposition (adv n s) = length (pre @ us)"
    using assms(2) by simp_all
  then show ?thesis using assms(1) unfolding scanning_def by (metis adv_fields(1-4))
qed

lemma next_char: "scanning s (c # us) \<Longrightarrow> token_next_char s = (c, adv 1 s)"
  by (auto simp: scanning_def token_next_char_def adv_def nth_append)

lemma next_char_end: "scanning s [] \<Longrightarrow> token_next_char s = (NUL, s\<lparr>teof := True, tposition := 0\<rparr>)"
  by (auto simp: token_next_char_def scanning_def)

lemma prev_char: "\<not> teof s \<Longrightarrow> token_prev_char (adv (Suc n) s) = adv n s"
  by (simp add: token_prev_char_def adv_def)

lemma scanning_char: "scanning s (us @ c # vs) \<Longrightarrow> c \<noteq> NUL"
  by (auto simp: scanning_def)

lemma scan_chars:
  assumes "scanning s (cs @ d # us)" "\<forall>x \<in> set cs. P x" "\<not> P d"
  shows "(case token_next_char s of (c, s') \<Rightarrow> scan P c s') = (cs, d, adv (Suc (length cs)) s)"
  using assms
proof (induction cs arbitrary: s)
  case Nil
  then show ?case using next_char [of s d us] by (simp add: scan.simps)
next
  case (Cons c cs)
  have "scanning (adv 1 s) (cs @ d # us)" using Cons.prems(1) scanning_adv [of s "[c]"] by simp
  from Cons.IH [OF this] Cons.prems(2,3)
  have "(case token_next_char (adv 1 s) of (c, s') \<Rightarrow> scan P c s') = (cs, d, adv (Suc (Suc (length cs))) s)" by simp
  moreover have "c \<noteq> NUL" using scanning_char [of s "[]" c] Cons.prems(1) by simp
  moreover have "token_next_char s = (c, adv 1 s)" using next_char Cons.prems(1) by simp
  ultimately show ?case using Cons.prems(2) by (subst scan.simps) (simp add: split_def Let_def)
qed

text \<open>The space before a lexeme.\<close>

lemma trim_space:
  assumes "scanning s (sp @ c # us)" "set sp \<subseteq> {CHR '' ''}" "c \<notin> {CHR '' '', CHR 0x09, CHR 0x0D}"
  shows "token_trim_space s = adv (length sp) s"
proof -
  have "(case token_next_char s of (c, s') \<Rightarrow> scan (\<lambda>c. c \<in> {CHR '' '', CHR 0x09, CHR 0x0D}) c s')
      = (sp, c, adv (Suc (length sp)) s)"
    by (rule scan_chars [OF assms(1)]) (use assms(2,3) in auto)
  moreover have "\<not> teof s" using assms(1) by (simp add: scanning_def)
  ultimately show ?thesis by (auto simp: token_trim_space_def Let_def prev_char split: prod.splits)
qed

lemma written_string [simp]:
  "NUL \<notin> set n \<Longrightarrow> token_string (write_string (n @ NUL # cs) s) = n"
  by (simp add: token_string_def write_string_def takeWhile_append)

lemma write_fields [simp]: "teof (write_string cs s) = teof s" "treplay (write_string cs s) = treplay s"
  "tline (write_string cs s) = tline s" "tposition (write_string cs s) = tposition s"
  "tvalue (write_string cs s) = tvalue s" "global_errno (write_string cs s) = global_errno s"
  by (simp_all add: write_string_def)

lemma scanning_write: "scanning s us \<Longrightarrow> length cs \<le> FINSH_STRING_MAX \<Longrightarrow> scanning (write_string cs s) us"
  by (auto simp: scanning_def write_string_def)

text \<open>A character that does not begin a word is left to be read as an operator.\<close>

lemma no_word:
  assumes "scanning s (c # us)" "is_separator c \<or> is_digit c"
  shows "token_get_string s = Some (write_string [NUL] s)"
proof -
  have e: "\<not> teof s" using assms(1) by (simp add: scanning_def)
  have n: "token_next_char s = (c, adv 1 s)" using next_char [OF assms(1)] .
  have p: "token_prev_char (adv 1 s) = s" using prev_char [OF e, of 0] by simp
  show ?thesis
  proof (cases "is_digit c")
    case True
    have "token_prev_char (write_string [NUL] (adv 1 s)) = write_string [NUL] s"
      using e by (simp add: token_prev_char_def write_string_def adv_def)
    then show ?thesis using True n e by (simp add: token_get_string_def)
  next
    case False
    then have "scan (\<lambda>c. \<not> is_separator c) c (adv 1 s) = ([], c, adv 1 s)" using assms(2) by (simp add: scan.simps)
    then show ?thesis using False n e p by (simp add: token_get_string_def eof_kept)
  qed
qed

lemma word:
  assumes "scanning s (n @ d # us)" "n \<noteq> []" "\<forall>c \<in> set n. \<not> is_separator c" "\<not> is_digit (hd n)"
    and "length n < FINSH_STRING_MAX" "is_separator d"
  shows "token_get_string s = Some (write_string (n @ [NUL]) (adv (length n) s))"
proof -
  obtain c cs where n: "n = c # cs" using assms(2) by (cases n) auto
  have e: "\<not> teof s" using assms(1) by (simp add: scanning_def)
  have c: "token_next_char s = (c, adv 1 s)" using next_char assms(1) n by simp
  have "(case token_next_char s of (c, s') \<Rightarrow> scan (\<lambda>c. \<not> is_separator c) c s') = (n, d, adv (Suc (length n)) s)"
    by (rule scan_chars [OF assms(1)]) (use assms in auto)
  then have "scan (\<lambda>c. \<not> is_separator c) c (adv 1 s) = (n, d, adv (Suc (length n)) s)" using c by simp
  then show ?thesis
    using c e assms(4,5) n prev_char [OF e, of "length n"] by (simp add: token_get_string_def eof_kept)
qed

section \<open>Operators and values\<close>

text \<open>What reading the lexeme \<open>l\<close> with \<open>us\<close> behind it leaves.\<close>

definition scanned :: "lexeme \<Rightarrow> finsh_token \<Rightarrow> string \<Rightarrow> finsh_token \<Rightarrow> bool" where
  "scanned l s us s' \<longleftrightarrow> displays l s' \<and> scanning s' us \<and> global_errno s' = global_errno s"

lemma scanning_fields [simp]:
  "scanning (s\<lparr>current_token := t\<rparr>) us = scanning s us" "scanning (s\<lparr>tvalue := v\<rparr>) us = scanning s us"
  by (simp_all add: scanning_def)

lemma separators [simp]: "is_separator CHR '' ''" "is_separator CHR '';''" "\<not> is_digit CHR '' ''" "\<not> is_digit CHR '';''"
  "\<not> octal_digit CHR '' ''" "\<not> octal_digit CHR '';''"
  by (simp_all add: is_separator_def is_digit_def octal_digit_def ord_def)

lemma next_two:
  assumes "scanning s (c # d # us)"
  shows "token_next_char s = (c, adv 1 s)" "scanning (adv 1 s) (d # us)" "token_next_char (adv 1 s) = (d, adv 2 s)"
    and "token_prev_char (adv 2 s) = adv 1 s"
proof -
  show c: "token_next_char s = (c, adv 1 s)" "scanning (adv 1 s) (d # us)"
    using next_char [OF assms] scanning_adv [of s "[c]" "d # us" 1] assms by simp_all
  show "token_next_char (adv 1 s) = (d, adv 2 s)" using next_char [OF c(2)] by (simp add: numeral_2_eq_2)
  have "\<not> teof s" using assms by (simp add: scanning_def)
  then show "token_prev_char (adv 2 s) = adv 1 s" using prev_char [of s 1] by (simp add: numeral_2_eq_2)
qed

lemma sign_one:
  "sign_text t = [c] \<Longrightarrow> (t, c) \<in> {(Tleft_paren, CHR ''(''), (Tright_paren, CHR '')''), (Tcomma, CHR '',''),
     (Tsemicolon, CHR '';''), (Tmul, CHR ''*''), (Tadd, CHR ''+''), (Tsub, CHR ''-''), (Tdiv, CHR ''/''),
     (Tmod, CHR 0x25), (Tassign, CHR ''=''), (Tand, CHR 0x26), (Tor, CHR ''|''), (Txor, CHR 0x5E), (Tbitwise, CHR ''~'')}"
  by (cases t) auto

lemma sign_two:
  "sign_text t = [c, c] \<Longrightarrow> (t, c) \<in> {(Tinc, CHR ''+''), (Tdec, CHR ''-''), (Tshl, CHR ''<''), (Tshr, CHR ''>'')}"
  by (cases t) auto

lemma operator_one:
  assumes "scanning s (c # d # us)" "sign_text t = [c]" "d \<in> {CHR '' '', CHR '';''}"
  shows "\<exists>s'. token_operator s = Some s' \<and> scanned (Sign t) s (d # us) s'"
proof -
  note n = next_two [OF assms(1)]
  have "d \<noteq> CHR ''+''" "d \<noteq> CHR ''-''" "d \<noteq> CHR ''/''" using assms(3) by auto
  then have "token_operator s = Some ((adv 1 s)\<lparr>current_token := t\<rparr>)"
    using sign_one [OF assms(2)] n(1,3,4) unfolding insert_iff empty_iff
    by (elim disjE) (simp_all add: token_operator_def double_char_def)
  then show ?thesis using n(2) by (simp add: scanned_def)
qed

lemma operator_two:
  assumes "scanning s (c # c # us)" "sign_text t = [c, c]"
  shows "\<exists>s'. token_operator s = Some s' \<and> scanned (Sign t) s us s'"
proof -
  note n = next_two [OF assms(1)]
  have "token_operator s = Some ((adv 2 s)\<lparr>current_token := t\<rparr>)"
    using sign_two [OF assms(2)] n(1,3) unfolding insert_iff empty_iff
    by (elim disjE) (simp_all add: token_operator_def double_char_def)
  moreover have "scanning (adv 2 s) us" using scanning_adv [of s "[c, c]" us 2] assms(1) by simp
  ultimately show ?thesis by (simp add: scanned_def)
qed

lemma sign_cases:
  assumes "sign_text t \<noteq> []" "t \<noteq> Tvalue_null"
  shows "\<exists>c. sign_text t = [c] \<or> sign_text t = [c, c]" "is_separator (hd (sign_text t))"
  using assms by (cases t; simp add: is_separator_def is_digit_def ord_def)+

lemma letter_read:
  assumes "scanning s (spelling (Letter c) @ us)" "spelled (Letter c)"
  shows "\<exists>s'. token_operator s = Some s' \<and> scanned (Letter c) s us s'"
proof -
  let ?c = "char_of (unat c) :: char"
  have e: "\<not> teof s" using assms(1) by (simp add: scanning_def)
  have st: "scanning s (CHR 0x27 # ?c # CHR 0x27 # us)" using assms(1) by simp
  then have s1: "scanning (adv 1 s) (?c # CHR 0x27 # us)" using scanning_adv [of s "[CHR 0x27]"] by simp
  then have s2: "scanning (adv 2 s) (CHR 0x27 # us)" using scanning_adv [of "adv 1 s" "[?c]"] by (simp add: numeral_2_eq_2)
  then have s3: "scanning (adv 3 s) us" using scanning_adv [of "adv 2 s" "[CHR 0x27]"] by (simp add: numeral_3_eq_3)
  have oc: "of_char ?c = unat c" using order_less_le_trans [OF unsigned_less [where w = c], of "256::nat"] by simp
  have "?c \<noteq> CHR 0x5C"
  proof
    assume "?c = CHR 0x5C"
    then have "unat c = 92" using oc by simp
    then have "c = 92" by (simp add: word_unat_eq_iff)
    then show False using assms(2) by simp
  qed
  then have "token_proc_char (adv 1 s) = Some (?c, adv 3 s)"
    using next_char [OF s1] next_char [OF s2] by (simp add: token_proc_char_def numeral_3_eq_3 numeral_2_eq_2)
  moreover have "char_value (set_char_value b v) = b" for b v
    by (rule bit_word_eqI) (auto simp: char_value_def set_char_value_def bit_simps)
  moreover have "of_nat (ord ?c) = c" by (simp only: ord_def oc) simp
  ultimately show ?thesis
    using next_char [OF st] s3 by (simp add: token_operator_def scanned_def)
qed

section \<open>Numbers\<close>

lemma digit_char [simp]: "d < 10 \<Longrightarrow> is_digit (digit_char d)" "d < 10 \<Longrightarrow> ord (digit_char d) = 48 + d"
  by (simp_all add: is_digit_def ord_def digit_char_def)

lemma ord_eq: "ord c = ord d \<Longrightarrow> c = d"
  by (simp add: ord_def)

lemma decimal_digits: "\<forall>c \<in> set (decimal n). is_digit c" "decimal n \<noteq> []"
proof -
  show "\<forall>c \<in> set (decimal n). is_digit c"
  proof (induction n rule: decimal.induct)
    case (1 n)
    then show ?case by (subst decimal.simps) auto
  qed
  show "decimal n \<noteq> []" by (subst decimal.simps) simp
qed

lemma step_digit [simp]: "d < 10 \<Longrightarrow> decimal_step v (digit_char d) = v * 10 + of_nat d"
  by (simp add: decimal_step_def)

lemma decimal_value: "foldl decimal_step 0 (decimal n) = of_nat n"
proof (induction n rule: decimal.induct)
  case (1 n)
  show ?case
  proof (cases "n < 10")
    case True
    then show ?thesis by (subst decimal.simps) simp
  next
    case False
    have "of_nat (n div 10) * 10 + of_nat (n mod 10) = (of_nat n :: u32)"
      by (metis div_mult_mod_eq of_nat_add of_nat_mult of_nat_numeral)
    then show ?thesis using 1 [OF False] False by (subst decimal.simps) simp
  qed
qed

lemma decimal_zero: "decimal 0 = ''0''"
  using ord_eq [of "digit_char 0" "CHR ''0''"] by (simp add: decimal.simps) (simp add: ord_def)

lemma decimal_first: "0 < n \<Longrightarrow> hd (decimal n) \<noteq> CHR ''0''"
proof (induction n rule: decimal.induct)
  case (1 n)
  show ?case
  proof (cases "n < 10")
    case True
    have "ord (digit_char n) \<noteq> ord (CHR ''0'')" using True 1(2) by (simp add: ord_def digit_char_def)
    then have "digit_char n \<noteq> CHR ''0''" by metis
    then show ?thesis using True by (subst decimal.simps) simp
  next
    case False
    then show ?thesis using 1(1) [OF False] decimal_digits(2) by (subst decimal.simps) simp
  qed
qed

lemma digit_operator:
  assumes "is_digit c" "token_next_char s = (c, adv 1 s)" "\<not> teof s"
  shows "token_operator s = token_proc_number s"
proof -
  have "token_prev_char (adv 1 s) = s" using prev_char [OF assms(3), of 0] by simp
  moreover have "c \<notin> {CHR ''('', CHR '')'', CHR '','', CHR '';'', CHR 0x26, CHR ''*'', CHR ''+'', CHR ''-'', CHR ''/'',
      CHR ''<'', CHR ''>'', CHR ''|'', CHR 0x25, CHR ''~'', CHR 0x5E, CHR ''='', CHR 0x27, CHR 0x22}"
    using assms(1) by (auto simp: is_digit_def ord_def)
  ultimately show ?thesis using assms by (simp add: token_operator_def)
qed

text \<open>The character behind the digits is \<open>d\<close>; an \<open>l\<close> belongs to the number.\<close>

lemma digits_read:
  assumes "scanning s (decimal n @ d # us)" "0 < n" "\<not> is_digit d"
  shows "token_proc_number s = Some (number_end (of_nat n) d (adv (Suc (length (decimal n))) s))"
proof -
  obtain c cs where c: "decimal n = c # cs" using decimal_digits(2) by (cases "decimal n") auto
  have n: "token_next_char s = (c, adv 1 s)" using next_char assms(1) c by simp
  have "(case token_next_char s of (c, s') \<Rightarrow> scan is_digit c s') = (decimal n, d, adv (Suc (length (decimal n))) s)"
    by (rule scan_chars [OF assms(1)]) (use assms(3) decimal_digits in auto)
  moreover have "c \<noteq> CHR ''0''" using decimal_first [OF assms(2)] c by simp
  ultimately show ?thesis using n decimal_value [of n] by (simp add: token_proc_number_def Let_def)
qed

lemma number_end_other:
  "d \<notin> {CHR ''l'', CHR ''L''} \<Longrightarrow> \<not> teof s \<Longrightarrow>
     number_end v d (adv (Suc n) s) = (adv n s)\<lparr>tvalue := v, current_token := Tvalue_int\<rparr>"
  by (simp add: number_end_def token_prev_char_def adv_def)

lemma number_read:
  assumes "scanning s (spelling (Number v l) @ d # us)" "l \<longrightarrow> v \<noteq> 0" "d \<in> {CHR '' '', CHR '';''}"
  shows "\<exists>s'. token_operator s = Some s' \<and> scanned (Number v l) s (d # us) s'"
proof -
  have e: "\<not> teof s" using assms(1) by (simp add: scanning_def)
  obtain c cs where c: "decimal (unat v) = c # cs" "is_digit c"
    using decimal_digits [of "unat v"] by (cases "decimal (unat v)") auto
  have "token_next_char s = (c, adv 1 s)" using next_char assms(1) c(1) by simp
  then have num: "token_operator s = token_proc_number s" using digit_operator [OF c(2)] e by blast
  consider "v = 0" | "v \<noteq> 0" "\<not> l" | "v \<noteq> 0" l by blast
  then show ?thesis
  proof cases
    case 1
    then have s: "scanning s (CHR ''0'' # d # us)" using assms(1,2) decimal_zero by simp
    note n = next_two [OF s]
    have "token_proc_number s = Some ((adv 1 s)\<lparr>tvalue := 0, current_token := Tvalue_int\<rparr>)"
      using n assms(3) by (auto simp: token_proc_number_def)
    then show ?thesis using num n(2) 1 assms(2) by (auto simp: scanned_def)
  next
    case 2
    have "0 < unat v" using 2(1) by (simp add: unat_gt_0)
    then have "token_proc_number s = Some (number_end v d (adv (Suc (length (decimal (unat v)))) s))"
      using digits_read [of s "unat v" d us] assms(1,3) 2(2) by auto
    moreover have "d \<notin> {CHR ''l'', CHR ''L''}" using assms(3) by auto
    moreover have "scanning (adv (length (decimal (unat v))) s) (d # us)"
      using scanning_adv [of s "decimal (unat v)" "d # us"] assms(1) 2(2) by simp
    ultimately show ?thesis using num 2 number_end_other [of d s v] e by (simp add: scanned_def)
  next
    case 3
    have "0 < unat v" using 3(1) by (simp add: unat_gt_0)
    then have "token_proc_number s = Some (number_end v CHR ''l'' (adv (Suc (length (decimal (unat v)))) s))"
      using digits_read [of s "unat v" "CHR ''l''" "d # us"] assms(1) 3(2) by (auto simp: is_digit_def ord_def)
    moreover have "scanning (adv (Suc (length (decimal (unat v)))) s) (d # us)"
      using scanning_adv [of s "decimal (unat v) @ ''l''" "d # us"] assms(1) 3(2) by simp
    ultimately show ?thesis using num 3 by (auto simp: number_end_def scanned_def)
  qed
qed

section \<open>The scanner reads what is spelled\<close>

lemma operator_token:
  assumes "scanning s (c # us)" "is_separator c \<or> is_digit c"
    and "\<exists>s'. token_operator (write_string [NUL] s) = Some s' \<and> scanned l (write_string [NUL] s) vs s'"
    and "token_trim_space r = s" "global_errno r = global_errno s"
  shows "\<exists>s'. token_run r = Some s' \<and> scanned l r vs s'"
proof -
  have "token_string (write_string [NUL] s) = []" using written_string [of "[]" "[]"] by simp
  moreover have "\<not> teof s" using assms(1) by (simp add: scanning_def)
  ultimately show ?thesis
    using no_word [OF assms(1,2)] assms(3-5) by (auto simp: token_run_def scanned_def)
qed

lemma word_token:
  assumes "scanning s (n @ d # us)" "n \<noteq> []" "\<forall>c \<in> set n. \<not> is_separator c" "\<not> is_digit (hd n)"
    and "length n < FINSH_STRING_MAX" "is_separator d" "token_trim_space r = s" "global_errno r = global_errno s"
    and "(case token_match_name n of Some t \<Rightarrow> t | None \<Rightarrow> Tidentifier) = token_of l"
      "l \<in> {Name n, Sign (token_of l)}"
  shows "\<exists>s'. token_run r = Some s' \<and> scanned l r (d # us) s'"
proof -
  let ?s = "write_string (n @ [NUL]) (adv (length n) s)"
  have n: "token_string ?s = n" using assms(1) by (intro written_string) (auto simp: scanning_def)
  have "scanning (adv (length n) s) (d # us)" using scanning_adv [OF assms(1)] by simp
  then have sc: "scanning ?s (d # us)" using assms(5) by (intro scanning_write) simp_all
  then have "\<not> teof ?s" by (simp add: scanning_def)
  then have "token_run r = Some (?s\<lparr>current_token := token_of l\<rparr>)"
    using word [OF assms(1-6)] n assms(2,7,9) by (simp add: token_run_def)
  moreover have "displays l (?s\<lparr>current_token := token_of l\<rparr>)"
    using assms(10) n by (cases l) (auto simp: token_string_def)
  ultimately show ?thesis using sc assms(8) by (simp add: scanned_def)
qed

lemma null_word: "\<forall>c \<in> set ''NULL''. \<not> is_separator c" "\<not> is_digit (CHR ''N'')" "token_match_name ''NULL'' = Some Tvalue_null"
  by (simp_all add: is_separator_def is_digit_def ord_def token_match_name_def finsh_name_table_def)

lemma lexeme_read:
  assumes "scanning s (CHR '' '' # spelling l @ d # us)" "spelled l" "d \<in> {CHR '' '', CHR '';''}"
  shows "\<exists>s'. token_run s = Some s' \<and> scanned l s (d # us) s'"
proof -
  let ?s = "adv 1 s"
  have st: "scanning ?s (spelling l @ d # us)" using scanning_adv [of s "'' ''"] assms(1) by simp
  have wr: "scanning (write_string [NUL] ?s) us'" if "scanning ?s us'" for us'
    using scanning_write [OF that, of "[NUL]"] by simp
  have first: "token_trim_space s = ?s" if "spelling l = c # cs" "\<not> is_separator c \<or> c \<notin> {CHR '' '', CHR 0x09, CHR 0x0D}" for c cs
  proof -
    have "c \<notin> {CHR '' '', CHR 0x09, CHR 0x0D}" using that(2) by (auto simp: is_separator_def is_digit_def ord_def)
    then show ?thesis using trim_space [of s "'' ''" c "cs @ d # us"] assms(1) that(1) by simp
  qed
  show ?thesis
  proof (cases l)
    case (Sign t)
    show ?thesis
    proof (cases "t = Tvalue_null")
      case True
      have "token_trim_space s = ?s" using first [of "CHR ''N''" "''ULL''"] Sign True by simp
      then show ?thesis
        using word_token [of ?s "''NULL''" d us s l] st null_word Sign True assms(3) by auto
    next
      case False
      have ne: "sign_text t \<noteq> []" using assms(2) Sign by simp
      obtain c where c: "sign_text t = [c] \<or> sign_text t = [c, c]" "is_separator c"
        using sign_cases [OF ne False] by auto
      have "c \<notin> {CHR '' '', CHR 0x09, CHR 0x0D}" using c(1) by (cases t) auto
      then have tr: "token_trim_space s = ?s" using first c(1) Sign by auto
      have "\<exists>s'. token_operator (write_string [NUL] ?s) = Some s' \<and> scanned (Sign t) (write_string [NUL] ?s) (d # us) s'"
        using c(1) operator_one [OF wr [of "c # d # us"] _ assms(3)] operator_two [OF wr [of "c # c # d # us"]] st Sign by auto
      then show ?thesis using operator_token [of ?s c _ l "d # us" s] st c tr Sign by auto
    qed
  next
    case (Name n)
    then have n: "n \<noteq> []" "\<forall>c \<in> set n. \<not> is_separator c" "\<not> is_digit (hd n)" "length n < FINSH_STRING_MAX"
        "token_match_name n = None" using assms(2) by auto
    then have "token_trim_space s = ?s" using first [of "hd n" "tl n"] Name by simp
    then show ?thesis
      using word_token [OF st [unfolded Name spelling.simps] n(1-4), of s l] n(5) Name assms(3) by auto
  next
    case (Number v lg)
    obtain c cs where c: "decimal (unat v) = c # cs" "is_digit c"
      using decimal_digits [of "unat v"] by (cases "decimal (unat v)") auto
    have "\<not> is_separator c" using c(2) by (simp add: is_separator_def)
    then have tr: "token_trim_space s = ?s" using first c(1) Number by auto
    have "\<exists>s'. token_operator (write_string [NUL] ?s) = Some s' \<and> scanned l (write_string [NUL] ?s) (d # us) s'"
      unfolding Number by (rule number_read) (use wr st Number assms in auto)
    then show ?thesis using operator_token [of ?s c _ l "d # us" s] st c tr Number by auto
  next
    case (Letter c)
    then have tr: "token_trim_space s = ?s" using first by auto
    have "\<exists>s'. token_operator (write_string [NUL] ?s) = Some s' \<and> scanned l (write_string [NUL] ?s) (d # us) s'"
      unfolding Letter by (rule letter_read) (use wr st Letter assms in auto)
    moreover have "is_separator CHR 0x27" by (simp add: is_separator_def is_digit_def ord_def)
    ultimately show ?thesis using operator_token [of ?s "CHR 0x27" _ l "d # us" s] st tr Letter by auto
  qed
qed

lemma semicolon_read:
  assumes "scanning s (CHR '';'' # us)"
  shows "\<exists>s'. token_run s = Some s' \<and> scanned (Sign Tsemicolon) s us s'"
proof (rule operator_token [OF assms])
  show "token_trim_space s = s" using trim_space [of s "[]"] assms by simp
  have w: "scanning (write_string [NUL] s) (CHR '';'' # us)" using scanning_write [OF assms, of "[NUL]"] by simp
  have "scanning (adv 1 (write_string [NUL] s)) us" using scanning_adv [of "write_string [NUL] s" "'';''"] w by simp
  then show "\<exists>s'. token_operator (write_string [NUL] s) = Some s' \<and> scanned (Sign Tsemicolon) (write_string [NUL] s) us s'"
    using next_char [OF w] by (simp add: token_operator_def scanned_def)
qed simp_all

lemma end_read:
  assumes "scanning s []"
  shows "\<exists>s'. token_run s = Some s' \<and> current_token s' = Teof \<and> \<not> treplay s' \<and> global_errno s' = global_errno s"
  using assms next_char_end [OF assms]
  by (auto simp: token_run_def token_trim_space_def token_get_string_def Let_def scan.simps token_prev_char_def
      token_next_char_def scanning_def)

text \<open>A list of lexemes ends with a semicolon, so that one that is not a semicolon has a character
  behind it.\<close>

lemma text_of_Cons [simp]: "text_of [] = []"
  "text_of (l # ls) = (if l = Sign Tsemicolon then '';'' else CHR '' '' # spelling l) @ text_of ls"
  "text_of (ls @ ms) = text_of ls @ text_of ms"
  by (simp_all add: text_of_def)

lemma text_offered:
  "scanning s (text_of ls) \<Longrightarrow> \<forall>l \<in> set ls. spelled l \<Longrightarrow> ls = [] \<or> last ls = Sign Tsemicolon \<Longrightarrow>
     offers (ls @ [Sign Teof]) s"
proof (induction ls arbitrary: s)
  case Nil
  have "scanning s []" using Nil(1) by simp
  then show ?case using end_read by (fastforce simp: finsh_token_token_def scanning_def)
next
  case (Cons l ls)
  have "\<exists>s'. token_run s = Some s' \<and> scanned l s (text_of ls) s'"
  proof (cases "l = Sign Tsemicolon")
    case True
    then show ?thesis using semicolon_read [of s "text_of ls"] Cons.prems(1) by simp
  next
    case False
    then obtain m ms where m: "ls = m # ms" using Cons.prems(3) by (cases ls) auto
    obtain d us where "text_of ls = d # us" "d \<in> {CHR '' '', CHR '';''}" using m by (cases "m = Sign Tsemicolon") auto
    then show ?thesis using lexeme_read [of s l d us] Cons.prems(1,2) False by simp
  qed
  then obtain s' where s': "token_run s = Some s'" "displays l s'" "scanning s' (text_of ls)" "global_errno s' = global_errno s"
    by (auto simp: scanned_def)
  moreover have "offers (ls @ [Sign Teof]) s'"
    using Cons.IH [OF s'(3)] Cons.prems(2,3) by (auto split: if_splits)
  moreover have "\<not> treplay s" "\<not> treplay s'" using Cons.prems(1) s'(3) by (auto simp: scanning_def)
  ultimately show ?case using shows_token [OF s'(2)] by (auto simp: finsh_token_token_def)
qed

section \<open>Lines\<close>

lemma line_text_of: "line_text nm es = text_of (concat (map (\<lambda>e. lexemes nm e @ [Sign Tsemicolon]) es))"
  by (induction es) (simp_all add: line_text_def)

lemma spelled_chars:
  assumes "spelled l"
  shows "NUL \<notin> set (spelling l)" "CHR 0x0A \<notin> set (spelling l)"
proof -
  have "c \<noteq> NUL \<and> c \<noteq> CHR 0x0A" if "c \<in> set (spelling l)" for c
  proof (cases l)
    case (Sign t)
    then show ?thesis using that by (cases t) auto
  next
    case (Name n)
    then show ?thesis using that assms by (auto simp: is_separator_def is_digit_def ord_def)
  next
    case (Number v lg)
    then show ?thesis using that decimal_digits(1) [of "unat v"] by (fastforce simp: is_digit_def ord_def split: if_splits)
  next
    case (Letter x)
    have oc: "of_char (char_of (unat x) :: char) = unat x"
      using order_less_le_trans [OF unsigned_less [where w = x], of "256::nat"] by simp
    have "char_of (unat x) \<noteq> (NUL :: char)" "char_of (unat x) \<noteq> (CHR 0x0A :: char)"
      using assms Letter oc by (auto simp: word_unat_eq_iff dest: arg_cong [where f = "of_char :: char \<Rightarrow> nat"])
    then show ?thesis using that Letter by auto
  qed
  then show "NUL \<notin> set (spelling l)" "CHR 0x0A \<notin> set (spelling l)" by blast+
qed

lemma text_of_chars: "\<forall>l \<in> set ls. spelled l \<Longrightarrow> NUL \<notin> set (text_of ls) \<and> CHR 0x0A \<notin> set (text_of ls)"
  using spelled_chars by (induction ls) auto

lemma line_offered:
  assumes "\<forall>e \<in> set es. \<forall>l \<in> set (lexemes nm e). spelled l"
  shows "offers (line_lexemes nm es) (finsh_token_init (line_text nm es) err)"
proof -
  let ?ls = "concat (map (\<lambda>e. lexemes nm e @ [Sign Tsemicolon]) es)"
  have sp: "\<forall>l \<in> set ?ls. spelled l" using assms by auto
  have "?ls = [] \<or> last ?ls = Sign Tsemicolon" by (induction es) auto
  moreover have "scanning (finsh_token_init (line_text nm es) err) (text_of ?ls)"
    using text_of_chars [OF sp] by (auto simp: scanning_def finsh_token_init_def line_text_of)
  ultimately show ?thesis using text_offered sp by (simp add: line_lexemes_def)
qed

lemma named_token [simp]: "named (p\<lparr>ptoken := t\<rparr>) nm s = named p nm s"
proof -
  have "pvars (p\<lparr>ptoken := t\<rparr>) = pvars p" "symbols (p\<lparr>ptoken := t\<rparr>) = symbols p" by simp_all
  then show ?thesis by (simp only: named_def find_symbol_def)
qed

lemma line_read:
  assumes "es \<noteq> []" "\<forall>e \<in> set es. writable e \<and> (\<forall>l \<in> set (lexemes nm e). spelled l) \<and> (\<forall>s \<in> symbols_of e. named p nm s)"
    and "sum_list (map nodes es) \<le> FINSH_NODE_MAX" "nodes_used p = 0" "global_errno (ptoken p) = 0"
  shows "\<exists>q. evt (\<lambda>n. finsh_parser_run n (line_text nm es) p) (trees_of es, q)
    \<and> finsh_flush q = finsh_flush p \<and> global_errno (ptoken q) = 0 \<and> pvars q = pvars p \<and> pmem q = pmem p"
proof -
  let ?p = "p\<lparr>ptoken := finsh_token_init (line_text nm es) 0\<rparr>"
  have "ready ?p 0 (line_lexemes nm es) ?p"
    using line_offered [of es nm 0] assms(2,4) by (auto simp: ready_def finsh_token_init_def)
  then obtain t q q' where q: "next_token ?p = Some (t, q)" "runs (Statements [] NULL t) q (trees_of es, q')"
      "ready ?p (sum_list (map nodes es)) [] q'"
    using line_parsed [OF assms(1) _ assms(3), of ?p nm ?p] assms(2) by auto
  have same: "q'\<lparr>ptoken := ptoken ?p, nodes_used := 0\<rparr> = ?p" "global_errno (ptoken q') = 0"
    using q(3) assms(4) by (auto simp: ready_def)
  have "finsh_flush q' = finsh_flush (q'\<lparr>ptoken := ptoken ?p, nodes_used := 0\<rparr>)"
    "pvars q' = pvars (q'\<lparr>ptoken := ptoken ?p, nodes_used := 0\<rparr>)" "pmem q' = pmem (q'\<lparr>ptoken := ptoken ?p, nodes_used := 0\<rparr>)"
    by (simp_all add: finsh_flush_def)
  then have "finsh_flush q' = finsh_flush p" "pvars q' = pvars p" "pmem q' = pmem p"
    unfolding same(1) by (simp_all add: finsh_flush_def)
  then show ?thesis
    using q(1,2) same(2) assms(5) by (intro exI [of _ q']) (simp add: finsh_parser_run_def runs_def)
qed

section \<open>Property\<close>

text \<open>
  C28. The shell answers a line: for expressions that can be written without parentheses, their text,
  typed as a line, is scanned, parsed, compiled and run with no error, the loops of the parser end,
  the answer is the value of the last expression, in the width of its type, and the memory is
  changed as the expressions say; the shell is then ready for the next line. The names must stand
  for their symbols, the expressions fit into the table of nodes, the stack and the text segment.
\<close>

theorem line_answered:
  assumes "es \<noteq> []" "\<forall>e \<in> set es. writable e \<and> (\<forall>l \<in> set (lexemes nm e). spelled l) \<and> (\<forall>s \<in> symbols_of e. named p nm s)"
    and "\<forall>e \<in> set es. well_typed (pvars p) e \<and> depth e \<le> FINSH_STACK_MAX"
    and "sum_list (map nodes es) \<le> FINSH_NODE_MAX" "length (code_line (pvars p) es) \<le> FINSH_TEXT_MAX"
    and "nodes_used p = 0" "global_errno (ptoken p) = 0" "keeps_memory sys" "vars_ok (pvars p) (pmem p)"
    and "eval_line sys (pvars p) es (pmem p) = Some (x, m')"
  shows "\<exists>y v' N. (\<forall>n \<ge> N. finsh_run_line n sys (line_text nm es) p v = Some (Value y, (finsh_flush p)\<lparr>pmem := m'\<rparr>, v'))
    \<and> low (width (pvars p) (last es)) y = x"
proof -
  obtain q N where q: "\<forall>n \<ge> N. finsh_parser_run n (line_text nm es) p = Some (trees_of es, q)"
      "finsh_flush q = finsh_flush p" "global_errno (ptoken q) = 0" "pvars q = pvars p" "pmem q = pmem p"
    using line_read [OF assms(1,2,4,6,7)] unfolding evt_def by blast
  let ?v = "v\<lparr>vm_mem := pmem p\<rparr>" and ?code = "code_line (pvars p) es"
  let ?w = "?v\<lparr>vm_text := ?code @ replicate (FINSH_TEXT_MAX - length ?code) 0, vm_stack := replicate FINSH_STACK_MAX 0\<rparr>"
  have c: "finsh_compiler_run (pvars p) (trees_of es) 0 ?v = Some (0, ?w)"
    using compiled_line assms(3,5) by blast
  obtain v' where v': "finsh_vm_run sys ?w = Some v'" "vm_mem v' = m'"
      "low (width (pvars p) (last es)) (finsh_stack_bottom v') = x"
    using run_line_value [of sys "pvars p" ?w es x m'] assms(3,5,8-10) by auto
  have "finsh_flush (q\<lparr>pmem := m'\<rparr>) = (finsh_flush q)\<lparr>pmem := m'\<rparr>" by (simp add: finsh_flush_def)
  then have "finsh_run_line n sys (line_text nm es) p v = Some (Value (finsh_stack_bottom v'), (finsh_flush p)\<lparr>pmem := m'\<rparr>, v')"
    if "n \<ge> N" for n
    using that q c v' by (simp add: finsh_run_line_def)
  then show ?thesis using v'(3) by blast
qed

definition ex_parser :: finsh_parser where
  "ex_parser = \<lparr>ptoken = finsh_token_init [] 0, nodes_used = 0, pvars = ex_vars,
     symbols = \<lparr>sysvar_table = [], global_sysvar_list = [], syscall_table = [], global_syscall_list = []\<rparr>,
     string_heap = finsh_heap_init, string_heap_addr = 0x2000, pmem = ex_memory\<rparr>"

lemma ex_line_text: "line_text (\<lambda>s. ''a'') ex_line = '' a = 5; a ++ * 3;''"
  by code_simp

theorem line_answered_witness:
  "\<exists>p' v' N. (\<forall>n \<ge> N. finsh_run_line n ex_calls '' a = 5; a ++ * 3;'' ex_parser ex_vm = Some (Value 15, p', v'))
     \<and> load 3 0x1014 (pmem p') = Some 6"
proof -
  obtain m' where m': "eval_line ex_calls ex_vars ex_line ex_memory = Some (15, m')" "load 3 0x1014 m' = Some 6"
    using ex_line_ok(3) by auto
  have p: "pvars ex_parser = ex_vars" "pmem ex_parser = ex_memory" "nodes_used ex_parser = 0" "global_errno (ptoken ex_parser) = 0"
    by (simp_all add: ex_parser_def finsh_token_init_def)
  have "named ex_parser (\<lambda>s. ''a'') (Var 0)"
    by (simp add: named_def find_symbol_def finsh_var_lookup_def ex_parser_def ex_vars_def)
  then have "\<forall>e \<in> set ex_line. writable e \<and> (\<forall>l \<in> set (lexemes (\<lambda>s. ''a'') e). spelled l)
      \<and> (\<forall>s \<in> symbols_of e. named ex_parser (\<lambda>s. ''a'') s)"
    by (simp add: ex_line_def is_separator_def is_digit_def ord_def token_match_name_def finsh_name_table_def)
  moreover have "ex_line \<noteq> []" "sum_list (map nodes ex_line) \<le> FINSH_NODE_MAX" "width ex_vars (last ex_line) = 3"
    by (simp_all add: ex_line_def sym_width_def ex_vars_def)
  ultimately obtain y v' N where
      "\<forall>n \<ge> N. finsh_run_line n ex_calls '' a = 5; a ++ * 3;'' ex_parser ex_vm
         = Some (Value y, (finsh_flush ex_parser)\<lparr>pmem := m'\<rparr>, v')" "y = 15"
    using line_answered [of ex_line "\<lambda>s. ''a''" ex_parser ex_calls 15 m' ex_vm] ex_line_ok(1,2) ex_keeps m'(1) p
    by (auto simp: ex_line_text)
  then show ?thesis using m'(2)
    by (intro exI [of _ "(finsh_flush ex_parser)\<lparr>pmem := m'\<rparr>"] exI [of _ v'] exI [of _ N]) simp
qed

end
