(* ===== verification/RT_Finsh_Lines.thy ===== *)
theory RT_Finsh_Lines
  imports RT_Finsh_Line
begin

text \<open>
  Lines that the C-expression shell does not take the way the grammar in the comments of
  \<open>components/finsh/finsh_parser.c\<close> and C do; each is evaluated.
\<close>

text \<open>A shell with eight variables, the first of which is \<open>int a\<close>.\<close>

definition ex_shell :: finsh_parser where
  "ex_shell = ex_parser\<lparr>pvars := \<lparr>gv_addr = 0x1000, global_variable = \<lparr>var_name = ''a'', var_type = Type_int\<rparr>
     # replicate 7 \<lparr>var_name = [], var_type = Type_unknown\<rparr>\<rparr>\<rparr>"

definition ex_answer :: "string \<Rightarrow> answer option" where
  "ex_answer line = map_option fst (finsh_run_line 40 ex_calls line ex_shell ex_vm)"

definition ex_tree :: "string \<Rightarrow> tree option" where
  "ex_tree line = map_option fst (finsh_parser_run 40 line ex_shell)"

text \<open>A parenthesis is always taken for a cast, so an expression in parentheses is an error.\<close>

lemma parentheses_rejected: "ex_answer ''1 + (2);'' = Some (Error FINSH_ERROR_INVALID_TOKEN)"
  by code_simp

text \<open>A cast changes nothing.\<close>

lemma cast_ignored: "ex_answer ''(char)1000;'' = Some (Value 1000)"
  by code_simp

text \<open>A declaration without an initialiser at the beginning of a line ends it: the assignment is not made.\<close>

lemma declaration_ends_line: "ex_tree ''int c;a=1;'' = Some NULL"
  by code_simp

text \<open>A statement behind a declaration with two initialisers takes the place of the second.\<close>

lemma second_initialiser_dropped:
  "map_option siblings (ex_tree ''int c=1,d=2;'') = Some 2"
  "map_option siblings (ex_tree ''int c=1,d=2;a;'') = Some 2"
  by code_simp+

text \<open>The number 0 with the suffix for \<open>long\<close> is read as 0 and a name.\<close>

lemma long_zero: "ex_answer ''0l;'' = Some (Error FINSH_ERROR_UNKNOWN_SYMBOL)"
  by code_simp

text \<open>A numeric escape is always 0, and one of four digits overruns its buffer.\<close>

lemma numeric_escape:
  "ex_answer (CHR 0x27 # CHR 0x5C # ''65'' @ [CHR 0x27, CHR '';'']) = Some (Value 0)"
  "ex_answer (CHR 0x27 # CHR 0x5C # ''1133'' @ [CHR 0x27, CHR '';'']) = None"
  by code_simp+

end
