(* ===== verification/Spec2Isabelle.thy ===== *)
theory Spec2Isabelle
  imports RT_Run RT_Ringbuffer RT_Mem RT_Mempool RT_String RT_Serial RT_Dataqueue RT_Finsh_Lines
begin

text \<open>
  The kernel of RT-Thread as it is configured for the AB32VG1 board: one core, 32
  priorities, hard timers, the small memory manager (\<open>rtconfig.h\<close>). The files named below are
  under \<open>src/rt-thread/\<close>; \<open>src/\<close>, \<open>include/\<close> and \<open>components/\<close> are its directories; \<open>board.c\<close> and
  \<open>drv_usart.c\<close> are the board's.

  \<^bold>\<open>Parts and theories.\<close> All of the kernel shares one state, the record \<open>kernel\<close> of
  \<open>RT_State\<close>: object headers and class lists (\<open>src/object.c\<close>), threads, ready table and wait
  lists (\<open>src/scheduler.c\<close>, \<open>src/thread.c\<close>), timers and timer lists (\<open>src/timer.c\<close>), the
  tick (\<open>src/clock.c\<close>), the interrupt nesting (\<open>src/irq.c\<close>), and the IPC objects
  (\<open>src/ipc.c\<close>). An operation of the code is a function of the same name on this state with
  a result in \<open>option\<close>: \<open>None\<close> is a failed \<open>RT_ASSERT\<close>, or a use of memory that the code
  relies on never making.
  \<^item> \<open>RT_Prelude\<close>: error codes, alignment, bit masks, lists, chains of links.
  \<^item> From \<open>src/kservice.c\<close>: \<open>RT_Kservice\<close>, \<open>__rt_ffs\<close> and its table; \<open>RT_String\<close>, the memory and
    string functions on a memory of bytes; \<open>RT_Printf\<close>, formatted output; \<open>RT_Errno\<close>.
  \<^item> \<open>RT_List\<close>: the circular doubly linked lists of \<open>include/rtservice.h\<close> on a memory of nodes,
    refined to Isabelle lists. In every other theory a list head holds such a list.
  \<^item> \<open>RT_State\<close>, \<open>RT_Example\<close>: the state, and a small running system for the witnesses.
  \<^item> \<open>RT_Object\<close>, \<open>RT_Sched\<close>, \<open>RT_Timer\<close>, \<open>RT_Thread\<close> (with the clean-up of the idle thread,
    \<open>src/idle.c\<close>), \<open>RT_Clock\<close>: the modules of these names.
  \<^item> \<open>RT_Ipc\<close>: what the IPC objects share, the wait lists and blocking with a time limit;
    \<open>RT_Channel\<close>: what mailboxes and message queues share; \<open>RT_Sem\<close>, \<open>RT_Mutex\<close>, \<open>RT_Event\<close>,
    \<open>RT_Mailbox\<close>, \<open>RT_Msgqueue\<close>: one theory per object.
  \<^item> \<open>RT_Alloc\<close>: the contract of an allocator; \<open>RT_Mem\<close>: the heap (\<open>src/mem.c\<close>); \<open>RT_Mempool\<close>:
    memory pools (\<open>src/mempool.c\<close>).
  \<^item> \<open>RT_Ringbuffer\<close>: the byte ring buffer of the drivers
    (\<open>components/drivers/src/ringbuffer.c\<close>).
  \<^item> \<open>RT_Completion\<close>, \<open>RT_Dataqueue\<close>: completions and data queues of the drivers
    (\<open>components/drivers/src/completion.c\<close>, \<open>dataqueue.c\<close>), beside the kernel state.
  \<^item> \<open>RT_Timing\<close>, \<open>RT_System\<close>, \<open>RT_Lifecycle\<close> (objects come and go), \<open>RT_Threadlife\<close> (threads and
    timers come and go), \<open>RT_Calls\<close>, \<open>RT_Run\<close>: the kernel as a running system.
    A step is the tick interrupt of \<open>board.c\<close> or a call of the running thread (\<open>thread_call\<close>, whose
    effect is \<open>perform\<close>); \<open>sys_inv\<close> is the invariant of all parts together, \<open>sys_run\<close> the runs.
  \<^item> \<open>RT_Device\<close>: the device layer (\<open>src/device.c\<close>) and the console; \<open>RT_Serial\<close>: the serial framework
    (\<open>components/drivers/serial/serial.c\<close>) with the receive interrupt of \<open>drv_usart.c\<close>. Their
    state, \<open>machine\<close>, is the kernel with the devices and the state of the hardware.
  \<^item> The C-expression shell (\<open>components/finsh/\<close>), in the order a line passes through it:
    \<open>RT_Finsh_Token\<close>, the scanner; \<open>RT_Finsh_Heap\<close>, the heap for strings; \<open>RT_Finsh_Parser\<close>, the
    parser with its variables, tables and nodes; \<open>RT_Finsh_Compiler\<close>, the type check and the code;
    \<open>RT_Finsh_Vm\<close>, the stack machine; \<open>RT_Finsh_Line\<close>, \<open>finsh_run_line\<close>. \<open>RT_Finsh_Eval\<close> gives
    expressions their values, \<open>RT_Finsh_Correct\<close> and \<open>RT_Finsh_Syntax\<close> show that compiler and machine
    compute them and that the parser reads them, \<open>RT_Finsh_Lines\<close> has the answers to some odd
    lines.

  \<^bold>\<open>Interfaces.\<close> The locale \<open>message_queue\<close> (bounded store with put and get) is interpreted on
  data queues and its extension \<open>message_store\<close> (with urgent put) on mailboxes and message queues, \<open>drivers\<close> (what the device layer relies on from a
  driver) on the serial framework, \<open>block_allocator\<close> on the heap, on pools and on the string heap
  of the shell,
  \<open>byte_fifo\<close> on the ring buffer, and \<open>thread_queues\<close> (the lists threads are linked into) both on
  the doubly linked lists in memory and on the Isabelle lists that stand for them.

  \<^bold>\<open>Switching threads.\<close> The context switch is assembly. \<open>rt_schedule\<close> sets the current thread and
  the model goes on in the state it leaves. A call that may block is split there: \<open>..._start\<close>
  runs up to the \<open>rt_schedule\<close> in which the caller gives up the processor, \<open>..._wake\<close> is what
  the thread does once it is scheduled again, in whatever state the kernel then is; a loop
  that may block several times has its body as \<open>..._try\<close>, which both use, and its local
  variables are passed along. Interrupts come between calls; the windows that the code opens
  within one (the copy of a message, the loops that wake all waiters) are run as one step.

  \<^bold>\<open>What the lemmas show.\<close>
  \<^item> \<open>sched_inv\<close>: the ready table holds exactly the ready threads and the running one, each once at
    its priority, the bitmap says which rows are in use; \<open>kinv\<close> adds the timers (lists and flags
    agree, the timer of a ready thread is stopped). \<open>rt_schedule\<close> picks the most urgent thread.
    The theorems about the operations state that \<open>kinv\<close> is kept.
  \<^item> \<open>blocked\<close>, \<open>woken\<close>, \<open>cancelled\<close> (\<open>RT_Ipc\<close>) say what waiting and being woken do to the kernel; the
    refinement theorems (\<open>rt_sem_take_refines\<close>, \<open>rt_mb_recv_refines\<close> and so on) show that each
    operation is the one of an abstract object: a counter with a waiting line, an owner with
    a waiting line and inherited priority, a set of bits with waiters, a bounded queue with
    two waiting lines.
  \<^item> \<open>heap_inv\<close>: headers and blocks tile the heap, free neighbours are merged, \<open>lfree\<close> is the
    lowest free block, the statistics agree; \<open>mp_wf\<close>: a block is on the free list or points to its
    pool. \<open>rt_malloc\<close> answers a size that wraps to 0 when it is aligned with the least block. From each, \<open>block_allocator\<close> gives that no two blocks in use ever overlap.
  \<^item> \<open>sys_inv\<close> is kept by every tick and by every call that is \<open>permitted\<close> (what it works on exists and
    is of the right class, limits are in range, and a thread that ends owns no mutex): in every
    run no assertion fails, the objects and their waiters agree, and a thread that waits with a
    limit no longer sleeps after so many ticks.
  \<^item> \<open>devices_ok\<close>: a device with users is initialised and open, a standalone one has one user.
    The receive buffer of a serial device is a queue that keeps the last bytes.
  \<^item> \<open>rt_vsnprintf\<close> stores the text that \<open>format_text\<close> gives, cut to the buffer and terminated, when
    the text is shorter than \<open>2^31 - 4\<close> and the cursor does not wrap around; an \<open>int\<close> that
    overflows (a width, a negated number) is undefined in C and has no text; the unrolled copying loops agree with the byte by byte ones.
  \<^item> \<open>line_answered\<close>: the text of a sequence of expressions, typed as a line, makes the shell answer
    their value (\<open>eval_line\<close>), through scanner, parser, compiler and machine; \<open>line_computed\<close> is the
    part from the syntax tree on, which also holds for trees that cannot be typed.
  \<^item> Time: deadlines are compared in the 32-bit circle, as the code does; \<open>trem\<close> is the time
    that is left, and the hypotheses \<open>time_ok\<close> and \<open>hard_timers_ok\<close> are the code's own limit of half
    the circle.

  \<^bold>\<open>Loops.\<close> Loops that need not end are \<open>partial_function\<close>s without fuel (\<open>None\<close> is a loop that
  does not end): the walk over a linked list, the timer check, waking all waiters, the searches
  of the heap. The theorems about them state a result \<open>Some\<close>, so they include termination.
  The parser calls itself through fourteen functions and never ends on some lines; \<open>proc\<close> bounds the
  depth of its calls and the length of its loops together, and its theorems hold for every bound
  from some point on.

  \<^bold>\<open>Hypotheses.\<close> The callbacks of user timers and the entry functions of threads are arguments;
  a callback is assumed to keep \<open>kinv\<close> and the timers (\<open>callbacks_ok\<close>), in runs also the objects,
  the tick and the waiting threads (\<open>callbacks_fit\<close>). In runs the cleanup functions of threads do
  nothing, and critical sections, memory pools and the loop of the soft-timer thread are left out. The functions of a driver (\<open>rt_device_ops\<close>) and the operations
  of the UART (\<open>rt_uart_ops\<close>, with the answers of the heap in \<open>rt_serial_open\<close>) are parameters; a
  driver is assumed to leave what the layer owns alone (\<open>drivers\<close>). Answers of the heap to the
  creation functions of kernel objects are arguments too; \<open>RT_Mem\<close> models the heap itself.
  The functions that an expression calls (\<open>syscalls\<close>) are a parameter; they are assumed not to take
  memory away (\<open>keeps_memory\<close>). A \<open>char\<close> is unsigned, as it is on RISC-V.

  \<^bold>\<open>Not modelled.\<close> The context switch and the drivers (assembly and hardware registers), hook
  setters, the listing commands of the memory manager, soft timers beyond one round of their thread,
  configurations the board does not use (SMP, signals, slab, memory protection, timer skip
  lists with more than one level, DMA in the serial framework), the line editor and the \<open>msh\<close>
  commands of the shell. Of the configured parts, memheap, the rest of the driver IPC, the device
  frameworks and the file systems are not modelled either; network, USB and wireless are left out
  by the configuration.
\<close>

end
